(* ===== verification/Itx_Prelude.thy ===== *)
theory Itx_Prelude
  imports Main "HOL-Library.Word" "HOL-Library.Multiset"
begin

text \<open>
  Shared vocabulary of the development.  Rust's fixed-width integers are words; a fallible
  Rust function returns an \<open>outcome\<close>, whose third constructor is a panic (an \<open>expect\<close> on
  \<open>None\<close>, an out-of-range index, an overflow in an \<open>uint\<close> operation) and whose fourth says
  that a fuelled loop was cut off.  Instants and durations are integers counting nanoseconds,
  the resolution of \<open>chrono\<close>.
\<close>

subsection \<open>Machine integers\<close>

type_synonym byte = "8 word"
type_synonym u8 = "8 word"
type_synonym u16 = "16 word"
type_synonym u32 = "32 word"
type_synonym u64 = "64 word"
type_synonym u256 = "256 word"
type_synonym uuid = "128 word"

named_theorems word_facts \<open>reading checked word arithmetic as natural numbers\<close>
named_theorems outcome_simps \<open>rewriting of outcome-valued programs\<close>

definition checked_add :: "'a::len word \<Rightarrow> 'a word \<Rightarrow> 'a word option" where
  "checked_add a b = (if unat a + unat b < 2 ^ LENGTH('a) then Some (a + b) else None)"

definition checked_mul :: "'a::len word \<Rightarrow> 'a word \<Rightarrow> 'a word option" where
  "checked_mul a b = (if unat a * unat b < 2 ^ LENGTH('a) then Some (a * b) else None)"

definition saturating_add :: "'a::len word \<Rightarrow> 'a word \<Rightarrow> 'a word" where
  "saturating_add a b = (if unat a + unat b < 2 ^ LENGTH('a) then a + b else - 1)"

definition saturating_sub :: "'a::len word \<Rightarrow> 'a word \<Rightarrow> 'a word" where
  "saturating_sub a b = (if b \<le> a then a - b else 0)"

lemma checked_add_Some [word_facts]:
  "checked_add a b = Some c \<Longrightarrow> unat c = unat a + unat b"
  by (auto simp: checked_add_def unat_word_ariths split: if_splits)

lemma checked_add_eq_None [word_facts]:
  "checked_add (a::'a::len word) b = None \<longleftrightarrow> 2 ^ LENGTH('a) \<le> unat a + unat b"
  by (simp add: checked_add_def)

lemma checked_add_SomeI:
  "unat a + unat b < 2 ^ LENGTH('a) \<Longrightarrow> checked_add (a::'a::len word) b = Some (a + b)"
  by (simp add: checked_add_def)

lemma checked_mul_Some [word_facts]:
  "checked_mul a b = Some c \<Longrightarrow> unat c = unat a * unat b"
  by (auto simp: checked_mul_def unat_word_ariths split: if_splits)

lemma checked_mul_eq_Some:
  "checked_mul (a::'a::len word) b = Some c \<longleftrightarrow> c = a * b \<and> unat a * unat b < 2 ^ LENGTH('a)"
  by (auto simp: checked_mul_def)

lemma unat_saturating_add [word_facts]:
  "unat (saturating_add (a::'a::len word) b) = min (unat a + unat b) (2 ^ LENGTH('a) - 1)"
proof (cases "unat a + unat b < 2 ^ LENGTH('a)")
  case True
  then have "unat (a + b) = unat a + unat b"
    by (simp add: unat_word_ariths)
  with True show ?thesis by (simp add: saturating_add_def)
next
  case False
  then show ?thesis
    by (simp add: saturating_add_def unsigned_minus_1_eq_mask mask_eq_exp_minus_1)
qed

lemma saturating_add_ge: "(a::'a::len word) \<le> saturating_add a b"
proof -
  have "unat a < 2 ^ LENGTH('a)" by (rule unsigned_less)
  then have "unat a \<le> 2 ^ LENGTH('a) - 1" by linarith
  then show ?thesis by (simp add: word_le_nat_alt unat_saturating_add)
qed

lemma unat_saturating_sub [word_facts]: "unat (saturating_sub a b) = unat a - unat b"
  by (auto simp: saturating_sub_def unat_sub word_le_nat_alt not_le)

lemma unat_sub_le [word_facts]: "b \<le> a \<Longrightarrow> unat (a - b) = unat a - unat b"
  by (simp add: unat_sub)

lemma unat_add_less:
  "unat a + unat b < 2 ^ LENGTH('a) \<Longrightarrow> unat ((a::'a::len word) + b) = unat a + unat b"
  by (simp add: unat_word_ariths)

lemma unat_mult_less:
  "unat a * unat b < 2 ^ LENGTH('a) \<Longrightarrow> unat ((a::'a::len word) * b) = unat a * unat b"
  by (simp add: unat_word_ariths)

lemma unat_of_nat_less: "n < 2 ^ LENGTH('a) \<Longrightarrow> unat (of_nat n :: 'a::len word) = n"
  by (simp add: unsigned_of_nat take_bit_nat_eq_self)

text \<open>A checked sum over a list: Rust's \<open>try_fold(0, |acc, x| acc.checked_add(f x))\<close>.\<close>

fun checked_sum :: "'a::len word \<Rightarrow> 'a word list \<Rightarrow> 'a word option" where
  "checked_sum acc [] = Some acc"
| "checked_sum acc (x # xs) =
     (case checked_add acc x of None \<Rightarrow> None | Some acc' \<Rightarrow> checked_sum acc' xs)"

lemma checked_sum_Some:
  "checked_sum acc xs = Some r \<Longrightarrow> unat r = unat acc + sum_list (map unat xs)"
proof (induction xs arbitrary: acc)
  case (Cons x xs)
  then obtain acc' where a: "checked_add acc x = Some acc'" and "checked_sum acc' xs = Some r"
    by (auto split: option.splits)
  with Cons.IH checked_add_Some [OF a] show ?case by simp
qed simp

lemma checked_sum_None:
  "checked_sum (acc::'a::len word) xs = None \<Longrightarrow>
     2 ^ LENGTH('a) \<le> unat acc + sum_list (map unat xs)"
proof (induction xs arbitrary: acc)
  case (Cons x xs)
  show ?case
  proof (cases "checked_add acc x")
    case None
    then show ?thesis by (simp add: checked_add_eq_None)
  next
    case (Some acc')
    with Cons.prems Cons.IH [of acc'] checked_add_Some [OF Some] show ?thesis by simp
  qed
qed simp

lemma checked_sum_eq:
  "checked_sum (acc::'a::len word) xs =
     (if unat acc + sum_list (map unat xs) < 2 ^ LENGTH('a)
      then Some (of_nat (unat acc + sum_list (map unat xs))) else None)"
proof (cases "checked_sum acc xs")
  case None
  then show ?thesis using checked_sum_None [OF None] by simp
next
  case (Some r)
  have r: "unat acc + sum_list (map unat xs) = unat r"
    by (rule checked_sum_Some [OF Some, symmetric])
  have "unat r < 2 ^ LENGTH('a)" by simp
  with Some show ?thesis unfolding r by simp
qed

subsection \<open>Outcomes\<close>

datatype ('e, 'a) outcome = Ok 'a | Err 'e | Panic | Cutoff

fun obind :: "('e, 'a) outcome \<Rightarrow> ('a \<Rightarrow> ('e, 'b) outcome) \<Rightarrow> ('e, 'b) outcome" where
  "obind (Ok x) f = f x"
| "obind (Err e) f = Err e"
| "obind Panic f = Panic"
| "obind Cutoff f = Cutoff"

lemma obind_Ok [outcome_simps]: "obind m f = Ok y \<longleftrightarrow> (\<exists>x. m = Ok x \<and> f x = Ok y)"
  by (cases m) auto

lemma obind_Panic [outcome_simps]:
  "obind m f = Panic \<longleftrightarrow> m = Panic \<or> (\<exists>x. m = Ok x \<and> f x = Panic)"
  by (cases m) auto

lemma obind_Cutoff [outcome_simps]:
  "obind m f = Cutoff \<longleftrightarrow> m = Cutoff \<or> (\<exists>x. m = Ok x \<and> f x = Cutoff)"
  by (cases m) auto

lemma obind_Err [outcome_simps]:
  "obind m f = Err e \<longleftrightarrow> m = Err e \<or> (\<exists>x. m = Ok x \<and> f x = Err e)"
  by (cases m) auto

text \<open>\<open>ok_or e\<close> is Rust's \<open>Option::ok_or\<close>, \<open>expect\<close> its \<open>Option::expect\<close>.\<close>

definition ok_or :: "'e \<Rightarrow> 'a option \<Rightarrow> ('e, 'a) outcome" where
  "ok_or e x = (case x of None \<Rightarrow> Err e | Some a \<Rightarrow> Ok a)"

definition expect :: "'a option \<Rightarrow> ('e, 'a) outcome" where
  "expect x = (case x of None \<Rightarrow> Panic | Some a \<Rightarrow> Ok a)"

lemma ok_or_simps [simp]: "ok_or e None = Err e" "ok_or e (Some a) = Ok a"
  by (simp_all add: ok_or_def)

lemma expect_simps [simp]: "expect None = Panic" "expect (Some a) = Ok a"
  by (simp_all add: expect_def)

lemma ok_or_Ok [outcome_simps]: "ok_or e x = Ok y \<longleftrightarrow> x = Some y"
  by (cases x) auto

lemma ok_or_no_Panic [simp]: "ok_or e x \<noteq> Panic" "ok_or e x \<noteq> Cutoff"
  by (cases x; simp)+

lemma expect_Ok [outcome_simps]: "expect x = Ok y \<longleftrightarrow> x = Some y"
  by (cases x) auto

text \<open>The test for an \<open>Ok\<close> value, Rust's \<open>is_ok\<close>.\<close>

fun is_ok :: "('e, 'a) outcome \<Rightarrow> bool" where
  "is_ok (Ok _) = True"
| "is_ok _ = False"

text \<open>Neither a panic nor a cut-off: the call came back to its caller.\<close>

fun returns :: "('e, 'a) outcome \<Rightarrow> bool" where
  "returns (Ok _) = True"
| "returns (Err _) = True"
| "returns Panic = False"
| "returns Cutoff = False"

lemma returns_iff: "returns m \<longleftrightarrow> m \<noteq> Panic \<and> m \<noteq> Cutoff"
  by (cases m) auto

lemma returns_obind [outcome_simps]:
  "returns (obind m f) \<longleftrightarrow> returns m \<and> (\<forall>x. m = Ok x \<longrightarrow> returns (f x))"
  by (cases m) auto

text \<open>\<open>Result::map_err\<close>.\<close>

fun map_err :: "('e \<Rightarrow> 'f) \<Rightarrow> ('e, 'a) outcome \<Rightarrow> ('f, 'a) outcome" where
  "map_err f (Ok x) = Ok x"
| "map_err f (Err e) = Err (f e)"
| "map_err f Panic = Panic"
| "map_err f Cutoff = Cutoff"

text \<open>Running a pure check, or an operation, before the rest of a stateful operation.\<close>

definition with_check ::
  "('e, 'a) outcome \<Rightarrow> 's \<Rightarrow> ('a \<Rightarrow> ('e, 'b) outcome \<times> 's) \<Rightarrow> ('e, 'b) outcome \<times> 's" where
  "with_check r s k =
     (case r of Ok x \<Rightarrow> k x | Err e \<Rightarrow> (Err e, s) | Panic \<Rightarrow> (Panic, s) | Cutoff \<Rightarrow> (Cutoff, s))"

definition with_step ::
  "('e, 'a) outcome \<times> 's \<Rightarrow> ('a \<Rightarrow> 's \<Rightarrow> ('e, 'b) outcome \<times> 's) \<Rightarrow> ('e, 'b) outcome \<times> 's" where
  "with_step r k = with_check (fst r) (snd r) (\<lambda>x. k x (snd r))"

lemma with_check_simps [simp]:
  "with_check (Ok x) s k = k x"
  "with_check (Err e) s k = (Err e, s)"
  "with_check Panic s k = (Panic, s)"
  "with_check Cutoff s k = (Cutoff, s)"
  by (simp_all add: with_check_def)

subsection \<open>Time\<close>

type_synonym instant = int
type_synonym duration = int

definition nanos_per_sec :: int where "nanos_per_sec = 1000000000"

definition seconds :: "int \<Rightarrow> duration" where "seconds s = s * nanos_per_sec"

definition minutes :: "int \<Rightarrow> duration" where "minutes m = seconds (m * 60)"

definition hours :: "int \<Rightarrow> duration" where "hours h = seconds (h * 3600)"

text \<open>\<open>num_seconds\<close> and \<open>num_minutes\<close> drop the fraction, rounding towards zero.\<close>

definition trunc_div :: "int \<Rightarrow> int \<Rightarrow> int" where
  "trunc_div a b = sgn a * (\<bar>a\<bar> div b)"

definition num_seconds :: "duration \<Rightarrow> int" where
  "num_seconds d = trunc_div d nanos_per_sec"

definition num_minutes :: "duration \<Rightarrow> int" where
  "num_minutes d = trunc_div (num_seconds d) 60"

lemma num_seconds_seconds [simp]: "num_seconds (seconds s) = s"
proof -
  have "\<bar>s * 1000000000\<bar> div 1000000000 = \<bar>s\<bar>"
    by (simp add: abs_mult)
  then show ?thesis
    by (simp add: num_seconds_def seconds_def trunc_div_def nanos_per_sec_def sgn_mult sgn_mult_abs)
qed

lemma trunc_div_mono: "0 < b \<Longrightarrow> x \<le> y \<Longrightarrow> trunc_div x b \<le> trunc_div y b"
proof -
  assume b: "0 < b" and xy: "x \<le> y"
  consider "0 \<le> x" | "x < 0" "0 \<le> y" | "y < 0" by linarith
  then show ?thesis
  proof cases
    case 1
    with xy b show ?thesis
      by (cases "x = 0"; cases "y = 0") (auto simp: trunc_div_def sgn_if zdiv_mono1 pos_imp_zdiv_nonneg_iff)
  next
    case 2
    then have "trunc_div x b \<le> 0" "0 \<le> trunc_div y b"
      using b by (auto simp: trunc_div_def sgn_if pos_imp_zdiv_nonneg_iff)
    then show ?thesis by simp
  next
    case 3
    with xy b show ?thesis by (auto simp: trunc_div_def sgn_if zdiv_mono1)
  qed
qed

subsection \<open>Lists\<close>

lemma sum_list_filter_split:
  "sum_list (map f xs) = sum_list (map f (filter P xs)) + (sum_list (map f (filter (\<lambda>x. \<not> P x) xs)) :: nat)"
  by (induction xs) auto

lemma filter_all_id: "(\<And>x. x \<in> set xs \<Longrightarrow> P x) \<Longrightarrow> filter P xs = xs"
  by (simp add: filter_id_conv)

lemma in_map_filter: "y \<in> set (List.map_filter f xs) \<longleftrightarrow> (\<exists>x \<in> set xs. f x = Some y)"
  by (induction xs) (auto simp: List.map_filter_simps split: option.split)

text \<open>\<open>for x in xs\<close> over a state, stopping at the first outcome that does not return normally.\<close>

fun ofold :: "('a \<Rightarrow> 's \<Rightarrow> ('e, 's) outcome) \<Rightarrow> 'a list \<Rightarrow> 's \<Rightarrow> ('e, 's) outcome" where
  "ofold f [] s = Ok s"
| "ofold f (x # xs) s = obind (f x s) (ofold f xs)"

lemma ofold_append: "ofold f (xs @ ys) s = obind (ofold f xs s) (ofold f ys)"
proof (induction xs arbitrary: s)
  case (Cons x xs)
  then show ?case by (cases "f x s") auto
qed simp

lemma ofold_invariant:
  assumes "ofold f xs s = Ok t" and "P s"
    and "\<And>x s t. x \<in> set xs \<Longrightarrow> P s \<Longrightarrow> f x s = Ok t \<Longrightarrow> P t"
  shows "P t"
  using assms
proof (induction xs arbitrary: s)
  case (Cons x xs)
  from Cons.prems(1) obtain u where u: "f x s = Ok u" "ofold f xs u = Ok t"
    by (auto simp: outcome_simps)
  show ?case
    by (rule Cons.IH [OF u(2)]) (use Cons.prems u in auto)
qed simp

end
