(* ===== verification/Itx_Map.thy ===== *)
theory Itx_Map
  imports Itx_Prelude "HOL-Library.List_Lexorder" "HOL-Library.Product_Lexorder"
begin

text \<open>
  Rust's maps.  A \<open>BTreeMap\<close> (and a \<open>HashMap\<close>, whose iteration order is supplied separately
  where the code iterates) is its list of entries in key order, so that two maps with the same
  entries are the same list, iteration is list traversal, and everything evaluates.  The locale
  \<open>finite_map\<close> is the interface the components use; it is interpreted on the list
  implementation.
\<close>

type_synonym ('k, 'v) bmap = "('k \<times> 'v) list"

definition bm_wf :: "('k::linorder, 'v) bmap \<Rightarrow> bool" where
  "bm_wf m \<longleftrightarrow> sorted_wrt (<) (map fst m)"

definition bm_get :: "('k, 'v) bmap \<Rightarrow> 'k \<Rightarrow> 'v option" where
  "bm_get = map_of"

fun bm_insert :: "'k::linorder \<Rightarrow> 'v \<Rightarrow> ('k, 'v) bmap \<Rightarrow> ('k, 'v) bmap" where
  "bm_insert k v [] = [(k, v)]"
| "bm_insert k v ((k', v') # m) =
     (if k < k' then (k, v) # (k', v') # m
      else if k = k' then (k, v) # m
      else (k', v') # bm_insert k v m)"

definition bm_remove :: "'k \<Rightarrow> ('k, 'v) bmap \<Rightarrow> ('k, 'v) bmap" where
  "bm_remove k m = filter (\<lambda>e. fst e \<noteq> k) m"

text \<open>\<open>entry(k).and_modify(f)\<close> and \<open>get_mut\<close>: change the value at \<open>k\<close>, if there is one.\<close>

definition bm_modify :: "'k \<Rightarrow> ('v \<Rightarrow> 'v) \<Rightarrow> ('k, 'v) bmap \<Rightarrow> ('k, 'v) bmap" where
  "bm_modify k f m = map (\<lambda>(k', v). (k', if k' = k then f v else v)) m"

definition bm_keys :: "('k, 'v) bmap \<Rightarrow> 'k list" where
  "bm_keys m = map fst m"

definition bm_values :: "('k, 'v) bmap \<Rightarrow> 'v list" where
  "bm_values m = map snd m"

definition bm_contains :: "'k \<Rightarrow> ('k, 'v) bmap \<Rightarrow> bool" where
  "bm_contains k m \<longleftrightarrow> bm_get m k \<noteq> None"

text \<open>Total of a natural-number measure over the entries.\<close>

definition bm_total :: "('v \<Rightarrow> nat) \<Rightarrow> ('k, 'v) bmap \<Rightarrow> nat" where
  "bm_total f m = sum_list (map (f \<circ> snd) m)"

subsection \<open>Lookup, keys and well-formedness\<close>

lemma bm_get_Nil [simp]: "bm_get [] k = None"
  by (simp add: bm_get_def)

lemma bm_wf_Nil [simp]: "bm_wf []"
  by (simp add: bm_wf_def)

lemma bm_wf_Cons: "bm_wf ((k, v) # m) \<longleftrightarrow> (\<forall>k' \<in> fst ` set m. k < k') \<and> bm_wf m"
  by (auto simp: bm_wf_def)

lemma bm_wf_distinct: "bm_wf m \<Longrightarrow> distinct (map fst m)"
  by (simp add: bm_wf_def strict_sorted_iff)

lemma bm_keys_insert: "fst ` set (bm_insert k v m) = insert k (fst ` set m)"
  by (induction k v m rule: bm_insert.induct) auto

lemma bm_insert_subset: "set (bm_insert k v m) \<subseteq> insert (k, v) (set m)"
  by (induction k v m rule: bm_insert.induct) auto

lemma bm_wf_insert [simp]: "bm_wf m \<Longrightarrow> bm_wf (bm_insert k v m)"
  by (induction k v m rule: bm_insert.induct) (auto simp: bm_wf_Cons bm_keys_insert)

lemma bm_wf_filter [simp]: "bm_wf m \<Longrightarrow> bm_wf (filter P m)"
  by (induction m) (auto simp: bm_wf_Cons)

lemma bm_wf_remove [simp]: "bm_wf m \<Longrightarrow> bm_wf (bm_remove k m)"
  by (simp add: bm_remove_def)

lemma bm_keys_modify: "map fst (bm_modify k f m) = map fst m"
  by (simp add: bm_modify_def case_prod_beta)

lemma bm_wf_modify [simp]: "bm_wf (bm_modify k f m) = bm_wf m"
  by (simp add: bm_wf_def bm_keys_modify)

lemma bm_get_insert [simp]: "bm_get (bm_insert k v m) k' = (if k' = k then Some v else bm_get m k')"
  by (induction k v m rule: bm_insert.induct) (auto simp: bm_get_def)

lemma bm_get_filter_key: "bm_get (filter (\<lambda>e. P (fst e)) m) k = (if P k then bm_get m k else None)"
  by (induction m) (auto simp: bm_get_def)

lemma bm_get_remove [simp]: "bm_get (bm_remove k m) k' = (if k' = k then None else bm_get m k')"
  using bm_get_filter_key [of "\<lambda>x. x \<noteq> k" m k'] by (simp add: bm_remove_def)

lemma bm_get_modify [simp]:
  "bm_get (bm_modify k f m) k' = (if k' = k then map_option f (bm_get m k') else bm_get m k')"
  by (induction m) (auto simp: bm_get_def bm_modify_def)

lemma bm_get_in_set: "bm_get m k = Some v \<Longrightarrow> (k, v) \<in> set m"
  by (simp add: bm_get_def map_of_SomeD)

lemma bm_in_set_get: "bm_wf m \<Longrightarrow> (k, v) \<in> set m \<Longrightarrow> bm_get m k = Some v"
  by (simp add: bm_get_def bm_wf_distinct)

lemma bm_get_iff: "bm_wf m \<Longrightarrow> bm_get m k = Some v \<longleftrightarrow> (k, v) \<in> set m"
  by (blast intro: bm_get_in_set bm_in_set_get)

lemma bm_contains_iff: "bm_contains k m \<longleftrightarrow> k \<in> fst ` set m"
  by (simp add: bm_contains_def bm_get_def map_of_eq_None_iff)

lemma bm_contains_get: "bm_contains k m \<longleftrightarrow> (\<exists>v. bm_get m k = Some v)"
  by (auto simp: bm_contains_def)

lemma bm_keys_set: "set (bm_keys m) = {k. bm_contains k m}"
  by (auto simp: bm_keys_def bm_contains_iff image_iff)

lemma bm_get_None_iff: "bm_get m k = None \<longleftrightarrow> k \<notin> fst ` set m"
  by (simp add: bm_get_def map_of_eq_None_iff)

lemma bm_values_iff: "bm_wf m \<Longrightarrow> v \<in> set (bm_values m) \<longleftrightarrow> (\<exists>k. bm_get m k = Some v)"
  by (force simp: bm_values_def bm_get_iff image_iff)

text \<open>The list representation is canonical: maps with the same lookups are equal.\<close>

lemma bm_head_least: "bm_wf ((k, v) # m) \<Longrightarrow> bm_get ((k, v) # m) k' = Some x \<Longrightarrow> k \<le> k'"
  by (auto simp: bm_wf_Cons bm_get_def dest!: map_of_SomeD split: if_splits intro: less_imp_le)

lemma bm_tail_get:
  assumes "bm_wf ((k, v) # m)"
  shows "bm_get m k' = (if k' = k then None else bm_get ((k, v) # m) k')"
  using assms by (auto simp: bm_wf_Cons bm_get_def map_of_eq_None_iff)

lemma bm_ext:
  assumes "bm_wf m" "bm_wf m'" "\<And>k. bm_get m k = bm_get m' k"
  shows "m = m'"
  using assms
proof (induction m arbitrary: m')
  case Nil
  show ?case
  proof (cases m')
    case (Cons e es)
    with Nil.prems(3) [of "fst e"] show ?thesis by (cases e) (simp add: bm_get_def)
  qed simp
next
  case (Cons e m)
  obtain k v where e: "e = (k, v)" by (cases e)
  from Cons.prems(3) [of k] e have "bm_get m' k = Some v" by (simp add: bm_get_def)
  then obtain k' v' ms where m': "m' = (k', v') # ms"
    by (cases m') (auto simp: bm_get_def)
  have "k' \<le> k"
    by (rule bm_head_least [of k' v' ms k v]) (use \<open>bm_get m' k = Some v\<close> Cons.prems(2) m' in auto)
  moreover have "k \<le> k'"
    by (rule bm_head_least [of k v m k' v'])
      (use Cons.prems(1) e Cons.prems(3) [of k'] m' in \<open>auto simp: bm_get_def\<close>)
  ultimately have "k = k'" by simp
  with \<open>bm_get m' k = Some v\<close> m' have "v = v'" by (simp add: bm_get_def)
  have "m = ms"
  proof (rule Cons.IH)
    show "bm_wf m" "bm_wf ms" using Cons.prems e m' by (auto simp: bm_wf_Cons)
    show "bm_get m x = bm_get ms x" for x
      using Cons.prems bm_tail_get [of k v m x] bm_tail_get [of k' v' ms x] e m' \<open>k = k'\<close>
      by simp
  qed
  with e m' \<open>k = k'\<close> \<open>v = v'\<close> show ?case by simp
qed

subsection \<open>Totals and sizes\<close>

lemma bm_total_Nil [simp]: "bm_total f [] = 0"
  by (simp add: bm_total_def)

lemma bm_total_insert:
  assumes "bm_wf m"
  shows "bm_total f (bm_insert k v m) + (case bm_get m k of None \<Rightarrow> 0 | Some w \<Rightarrow> f w)
       = bm_total f m + f v"
  using assms
proof (induction k v m rule: bm_insert.induct)
  case (2 k v k' v' m)
  then have wf: "bm_wf m" and lt: "\<forall>x \<in> fst ` set m. k' < x" by (auto simp: bm_wf_Cons)
  consider "k < k'" | "k = k'" | "k' < k" by (rule linorder_cases)
  then show ?case
  proof cases
    case 1
    with lt have "k \<notin> fst ` set m" by force
    then have "map_of m k = None" by (simp add: map_of_eq_None_iff)
    with 1 show ?thesis by (auto simp: bm_total_def bm_get_def)
  next
    case 2
    then show ?thesis by (auto simp: bm_total_def bm_get_def)
  next
    case 3
    with "2.IH" wf have IH: "bm_total f (bm_insert k v m) + (case bm_get m k of None \<Rightarrow> 0 | Some w \<Rightarrow> f w)
       = bm_total f m + f v" by auto
    with 3 show ?thesis by (auto simp: bm_total_def bm_get_def)
  qed
qed (simp add: bm_total_def)

lemma bm_total_insert_le: "bm_wf m \<Longrightarrow> bm_total f (bm_insert k v m) \<le> bm_total f m + f v"
  using bm_total_insert [of m f k v] by simp

lemma bm_total_remove:
  assumes "bm_wf m"
  shows "bm_total f (bm_remove k m) + (case bm_get m k of None \<Rightarrow> 0 | Some w \<Rightarrow> f w) = bm_total f m"
  using assms
proof (induction m)
  case (Cons e m)
  obtain k' v' where e: "e = (k', v')" by (cases e)
  from Cons.prems e have wf: "bm_wf m" and lt: "\<forall>x \<in> fst ` set m. k' < x" by (auto simp: bm_wf_Cons)
  show ?case
  proof (cases "k' = k")
    case True
    with lt have "filter (\<lambda>e. fst e \<noteq> k) m = m" by (intro filter_all_id) force
    with True e show ?thesis by (simp add: bm_total_def bm_remove_def bm_get_def)
  next
    case False
    with Cons.IH wf e show ?thesis by (simp add: bm_total_def bm_remove_def bm_get_def)
  qed
qed (simp add: bm_remove_def)

lemma bm_total_get_le: "bm_wf m \<Longrightarrow> bm_get m k = Some v \<Longrightarrow> f v \<le> bm_total f m"
  using bm_total_remove [of m f k] by simp

lemma bm_total_modify:
  assumes "bm_wf m" "bm_get m k = Some v"
  shows "bm_total f (bm_modify k g m) + f v = bm_total f m + f (g v)"
proof -
  have "bm_modify k g m = bm_insert k (g v) m"
    by (rule bm_ext) (use assms in auto)
  with bm_total_insert [OF assms(1), of f k "g v"] assms(2) show ?thesis by simp
qed

lemma bm_modify_absent: "bm_get m k = None \<Longrightarrow> bm_modify k g m = m"
  unfolding bm_modify_def bm_get_None_iff by (rule map_idI) force

lemma bm_modify_eq_insert:
  "bm_wf m \<Longrightarrow> bm_get m k = Some v \<Longrightarrow> bm_modify k g m = bm_insert k (g v) m"
  by (rule bm_ext) auto

lemma length_bm_remove:
  assumes "bm_wf m"
  shows "length (bm_remove k m) = length m - (if bm_contains k m then 1 else 0)"
  using bm_total_remove [OF assms, of "\<lambda>_. 1" k]
  by (auto simp: bm_total_def bm_contains_def o_def sum_list_triv split: option.splits)

lemma length_bm_insert:
  assumes "bm_wf m"
  shows "length (bm_insert k v m) = length m + (if bm_contains k m then 0 else 1)"
  using bm_total_insert [OF assms, of "\<lambda>_. 1" k v]
  by (auto simp: bm_total_def bm_contains_def o_def sum_list_triv split: option.splits)

subsection \<open>The interface\<close>

locale finite_map =
  fixes get :: "'m \<Rightarrow> 'k \<Rightarrow> 'v option"
    and ins :: "'k \<Rightarrow> 'v \<Rightarrow> 'm \<Rightarrow> 'm"
    and rem :: "'k \<Rightarrow> 'm \<Rightarrow> 'm"
    and wf :: "'m \<Rightarrow> bool"
    and total :: "('v \<Rightarrow> nat) \<Rightarrow> 'm \<Rightarrow> nat"
  assumes get_ins: "get (ins k v m) k' = (if k' = k then Some v else get m k')"
    and get_rem: "get (rem k m) k' = (if k' = k then None else get m k')"
    and wf_ins: "wf m \<Longrightarrow> wf (ins k v m)"
    and wf_rem: "wf m \<Longrightarrow> wf (rem k m)"
    and total_ins: "wf m \<Longrightarrow> total f (ins k v m) + (case get m k of None \<Rightarrow> 0 | Some w \<Rightarrow> f w)
                     = total f m + f v"
    and total_rem: "wf m \<Longrightarrow> total f (rem k m) + (case get m k of None \<Rightarrow> 0 | Some w \<Rightarrow> f w) = total f m"
begin

lemma wf_fold_rem: "wf m \<Longrightarrow> wf (fold rem ks m)"
  by (induction ks arbitrary: m) (auto intro: wf_rem)

lemma wf_fold_ins: "wf m \<Longrightarrow> wf (fold (\<lambda>x. ins (key x) (val x)) xs m)"
  by (induction xs arbitrary: m) (auto intro: wf_ins)

lemma get_fold_rem: "get (fold rem ks m) k = (if k \<in> set ks then None else get m k)"
  by (induction ks arbitrary: m) (auto simp: get_rem)

lemma get_fold_ins_None:
  "get (fold (\<lambda>x. ins (key x) (val x)) xs m) k = None \<longleftrightarrow> get m k = None \<and> k \<notin> key ` set xs"
  by (induction xs arbitrary: m) (auto simp: get_ins)

lemma get_fold_ins_Some:
  "get (fold (\<lambda>x. ins (key x) (val x)) xs m) k = Some v \<Longrightarrow>
     get m k = Some v \<or> (\<exists>x \<in> set xs. key x = k \<and> val x = v)"
  by (induction xs arbitrary: m) (fastforce simp: get_ins split: if_splits)+

lemma total_ins_le: "wf m \<Longrightarrow> total f (ins k v m) \<le> total f m + f v"
  using total_ins [of m f k v] by simp

lemma total_fold_ins_le:
  "wf m \<Longrightarrow> total f (fold (\<lambda>x. ins (key x) (val x)) xs m) \<le> total f m + sum_list (map (f \<circ> val) xs)"
proof (induction xs arbitrary: m)
  case (Cons x xs)
  have "total f (fold (\<lambda>x. ins (key x) (val x)) xs (ins (key x) (val x) m))
      \<le> total f (ins (key x) (val x) m) + sum_list (map (f \<circ> val) xs)"
    by (rule Cons.IH) (rule wf_ins [OF Cons.prems])
  with total_ins_le [OF Cons.prems, of f "key x" "val x"] show ?case by (simp add: o_def)
qed simp

lemma total_fold_rem:
  assumes "wf m" "distinct ks"
  shows "total f (fold rem ks m) + sum_list (map (\<lambda>k. case get m k of None \<Rightarrow> 0 | Some w \<Rightarrow> f w) ks)
       = total f m"
  using assms
proof (induction ks arbitrary: m)
  case (Cons k ks)
  have eq: "(\<Sum>x\<leftarrow>ks. case get (rem k m) x of None \<Rightarrow> 0 | Some w \<Rightarrow> f w)
      = (\<Sum>x\<leftarrow>ks. case get m x of None \<Rightarrow> 0 | Some w \<Rightarrow> f w)"
    using Cons.prems(2) by (intro arg_cong [where f = sum_list] map_cong) (auto simp: get_rem)
  have "total f (fold rem ks (rem k m))
      + (\<Sum>x\<leftarrow>ks. case get (rem k m) x of None \<Rightarrow> 0 | Some w \<Rightarrow> f w) = total f (rem k m)"
    by (rule Cons.IH) (use Cons.prems in \<open>auto intro: wf_rem\<close>)
  then have "total f (fold rem ks (rem k m))
      + (\<Sum>x\<leftarrow>ks. case get m x of None \<Rightarrow> 0 | Some w \<Rightarrow> f w) = total f (rem k m)"
    by (simp only: eq)
  with total_rem [OF Cons.prems(1), of f k] show ?case by simp
qed simp

end

interpretation bm: finite_map bm_get bm_insert bm_remove bm_wf bm_total
  by unfold_locales (auto simp: bm_total_insert bm_total_remove)

text \<open>Reading the rows of a keyed table back gives the table.\<close>

lemma reload:
  assumes wf: "bm_wf m" and key: "\<And>k v. bm_get m k = Some v \<Longrightarrow> key v = k"
  shows "fold (\<lambda>v. bm_insert (key v) v) (bm_values m) [] = m"
proof (rule bm_ext)
  let ?m = "fold (\<lambda>v. bm_insert (key v) v) (bm_values m) []"
  show "bm_wf ?m" using bm.wf_fold_ins [of "[]" key "\<lambda>v. v" "bm_values m"] by simp
  show "bm_get ?m k = bm_get m k" for k
  proof (cases "bm_get ?m k")
    case None
    then have "k \<notin> key ` set (bm_values m)" using bm.get_fold_ins_None [of key "\<lambda>v. v" "bm_values m" "[]" k] by simp
    then have "bm_get m k = None" using bm_values_iff [OF wf] key by (cases "bm_get m k") (auto simp: image_iff)
    with None show ?thesis by simp
  next
    case (Some v)
    then obtain x where "x \<in> set (bm_values m)" "key x = k" "x = v"
      using bm.get_fold_ins_Some [of key "\<lambda>v. v" "bm_values m" "[]" k v] by auto
    then obtain j where "bm_get m j = Some v" "key v = k" using bm_values_iff [OF wf] by auto
    with Some key show ?thesis by auto
  qed
qed (rule wf)

end
