(* ===== verification/Itx_Bytes.thy ===== *)
theory Itx_Bytes
  imports Itx_Prelude
begin

text \<open>
  Fixed-width integers as bytes: \<open>to_le_bytes\<close>/\<open>from_le_bytes\<close> and \<open>to_be_bytes\<close>/\<open>from_be_bytes\<close>
  of the Rust integers and of \<open>U256\<close>, with their round trips.
\<close>

fun le_bytes :: "nat \<Rightarrow> nat \<Rightarrow> byte list" where
  "le_bytes 0 n = []"
| "le_bytes (Suc k) n = of_nat (n mod 256) # le_bytes k (n div 256)"

fun le_value :: "byte list \<Rightarrow> nat" where
  "le_value [] = 0"
| "le_value (b # bs) = unat b + 256 * le_value bs"

definition be_bytes :: "nat \<Rightarrow> nat \<Rightarrow> byte list" where
  "be_bytes k n = rev (le_bytes k n)"

definition be_value :: "byte list \<Rightarrow> nat" where
  "be_value bs = le_value (rev bs)"

lemma length_le_bytes [simp]: "length (le_bytes k n) = k"
  by (induction k arbitrary: n) auto

lemma length_be_bytes [simp]: "length (be_bytes k n) = k"
  by (simp add: be_bytes_def)

lemma unat_byte_of_nat: "n < 256 \<Longrightarrow> unat (of_nat n :: byte) = n"
  by (simp add: unat_of_nat_less)

lemma le_value_le_bytes: "le_value (le_bytes k n) = n mod 256 ^ k"
proof (induction k arbitrary: n)
  case (Suc k)
  have "unat (of_nat (n mod 256) :: byte) = n mod 256"
    by (rule unat_byte_of_nat) simp
  then show ?case using Suc.IH [of "n div 256"] by (simp add: mod_mult2_eq mult.commute)
qed simp

lemma le_value_bound: "le_value bs < 256 ^ length bs"
proof (induction bs)
  case (Cons b bs)
  have "unat b < 2 ^ LENGTH(8)" by (rule unsigned_less)
  then have "unat b < 256" by simp
  with Cons.IH show ?case by simp
qed simp

lemma le_bytes_le_value: "le_bytes (length bs) (le_value bs) = bs"
proof (induction bs)
  case (Cons b bs)
  have "unat b < 2 ^ LENGTH(8)" by (rule unsigned_less)
  then have "unat b < 256" by simp
  with Cons.IH show ?case by simp
qed simp

lemma be_value_be_bytes: "be_value (be_bytes k n) = n mod 256 ^ k"
  by (simp add: be_value_def be_bytes_def le_value_le_bytes)

lemma be_value_bound: "be_value bs < 256 ^ length bs"
  using le_value_bound [of "rev bs"] by (simp add: be_value_def)

lemma be_bytes_inj:
  assumes "be_bytes k m = be_bytes k n" "m < 256 ^ k" "n < 256 ^ k"
  shows "m = n"
proof -
  have "m mod 256 ^ k = n mod 256 ^ k"
    by (metis assms(1) be_value_be_bytes)
  with assms(2,3) show ?thesis by (simp only: mod_less)
qed

subsection \<open>The widths the code uses\<close>

definition u32_to_be_bytes :: "u32 \<Rightarrow> byte list" where
  "u32_to_be_bytes w = be_bytes 4 (unat w)"

definition u32_from_be_bytes :: "byte list \<Rightarrow> u32" where
  "u32_from_be_bytes bs = of_nat (be_value bs)"

definition u64_to_be_bytes :: "u64 \<Rightarrow> byte list" where
  "u64_to_be_bytes w = be_bytes 8 (unat w)"

definition u64_from_be_bytes :: "byte list \<Rightarrow> u64" where
  "u64_from_be_bytes bs = of_nat (be_value bs)"

definition u256_to_little_endian :: "u256 \<Rightarrow> byte list" where
  "u256_to_little_endian w = le_bytes 32 (unat w)"

definition u256_from_little_endian :: "byte list \<Rightarrow> u256" where
  "u256_from_little_endian bs = of_nat (le_value bs)"

lemma length_to_bytes [simp]:
  "length (u32_to_be_bytes a) = 4" "length (u64_to_be_bytes b) = 8"
  "length (u256_to_little_endian c) = 32"
  by (simp_all add: u32_to_be_bytes_def u64_to_be_bytes_def u256_to_little_endian_def)

lemma u32_be_roundtrip [simp]: "u32_from_be_bytes (u32_to_be_bytes w) = w"
proof -
  have "unat w < 2 ^ LENGTH(32)" by (rule unsigned_less)
  then show ?thesis by (simp add: u32_from_be_bytes_def u32_to_be_bytes_def be_value_be_bytes)
qed

lemma u64_be_roundtrip [simp]: "u64_from_be_bytes (u64_to_be_bytes w) = w"
proof -
  have "unat w < 2 ^ LENGTH(64)" by (rule unsigned_less)
  then show ?thesis by (simp add: u64_from_be_bytes_def u64_to_be_bytes_def be_value_be_bytes)
qed

lemma u256_le_roundtrip [simp]: "u256_from_little_endian (u256_to_little_endian w) = w"
proof -
  have "unat w < 2 ^ LENGTH(256)" by (rule unsigned_less)
  then show ?thesis
    by (simp add: u256_from_little_endian_def u256_to_little_endian_def le_value_le_bytes)
qed

lemma u256_le_roundtrip' : "length bs = 32 \<Longrightarrow> u256_to_little_endian (u256_from_little_endian bs) = bs"
proof -
  assume len: "length bs = 32"
  have "unat (of_nat (le_value bs) :: u256) = le_value bs"
    using le_value_bound [of bs] len by (intro unat_of_nat_less) simp
  with len le_bytes_le_value [of bs] show ?thesis
    by (simp add: u256_from_little_endian_def u256_to_little_endian_def)
qed

lemma u64_to_be_inj: "u64_to_be_bytes a = u64_to_be_bytes b \<longleftrightarrow> a = b"
  by (metis u64_be_roundtrip)

lemma u256_to_le_inj: "u256_to_little_endian a = u256_to_little_endian b \<longleftrightarrow> a = b"
  by (metis u256_le_roundtrip)

subsection \<open>Concatenated fixed-width fields\<close>

lemma append_fixed_inj:
  "length a = length c \<Longrightarrow> a @ b = c @ d \<longleftrightarrow> a = c \<and> b = d"
  by (rule append_eq_append_conv) simp

text \<open>\<open>chunks_exact(n)\<close>: the full chunks of length \<open>n\<close>, a shorter tail dropped.\<close>

function chunks_exact :: "nat \<Rightarrow> 'a list \<Rightarrow> 'a list list" where
  "chunks_exact n xs =
     (if 0 < n \<and> n \<le> length xs then take n xs # chunks_exact n (drop n xs) else [])"
  by pat_completeness auto
termination
  by (relation "measure (\<lambda>(n, xs). length xs)") auto

declare chunks_exact.simps [simp del]

lemma chunks_exact_Nil [simp]: "chunks_exact n [] = []"
  by (subst chunks_exact.simps) auto

lemma chunks_exact_append:
  "0 < n \<Longrightarrow> length a = n \<Longrightarrow> chunks_exact n (a @ b) = a # chunks_exact n b"
  by (subst chunks_exact.simps) simp

lemma chunks_exact_concat:
  assumes "0 < n" "\<And>x. x \<in> set xss \<Longrightarrow> length x = n"
  shows "chunks_exact n (concat xss) = xss"
  using assms(2)
proof (induction xss)
  case (Cons x xss)
  then have "length x = n" "chunks_exact n (concat xss) = xss" by auto
  with assms(1) show ?case by (simp add: chunks_exact_append)
qed simp

end
