(* ===== verification/Chain_Params.thy ===== *)
theory Chain_Params
  imports Itx_Prelude
begin

unbundle bit_operations_syntax

text \<open>
  The network constants of \<open>lib/src/lib.rs\<close>, the block subsidy and the conversion of a
  proof-of-work target into expected work.  The subsidy never overflows and halves on
  schedule, the coins it can ever mint are bounded, and work is the exact quotient
  \<open>2^256 div (target + 1)\<close>, antitone in the target.
\<close>

datatype btc_error =
    InvalidTransaction
  | InvalidBlock
  | OrphanBlock
  | InvalidBlockHeader
  | InvalidTransactionInput
  | InvalidTransactionOutput
  | InvalidMerkleRoot
  | InvalidHash
  | InvalidSignature
  | InvalidPublicKey
  | InvalidPrivateKey

type_synonym 'a chain_result = "(btc_error, 'a) outcome"

definition INITIAL_REWARD :: u64 where "INITIAL_REWARD = 50"
definition HALVING_INTERVAL :: u64 where "HALVING_INTERVAL = 7875"
definition IDEAL_BLOCK_TIME :: nat where "IDEAL_BLOCK_TIME = 16"
definition MIN_TARGET :: u256 where "MIN_TARGET = 2 ^ 240 - 1"
definition DIFFICULTY_UPDATE_INTERVAL :: nat where "DIFFICULTY_UPDATE_INTERVAL = 50"
definition MAX_MEMPOOL_TRANSACTION_AGE :: int where "MAX_MEMPOOL_TRANSACTION_AGE = 600"
definition BLOCK_BYTE_CAP :: nat where "BLOCK_BYTE_CAP = 1000000"
definition PROTOCOL_MAGIC :: u32 where "PROTOCOL_MAGIC = 0x49545800"
definition PROTOCOL_VERSION :: u32 where "PROTOCOL_VERSION = 3"
definition MAX_MESSAGE_SIZE :: nat where "MAX_MESSAGE_SIZE = 10 * 1024 * 1024"
definition BLOCKS_PER_FETCH_BATCH :: nat where "BLOCKS_PER_FETCH_BATCH = 8"
definition MAX_FETCH_BATCH_BYTES :: nat where "MAX_FETCH_BATCH_BYTES = 9 * 1024 * 1024"
definition MAX_FUTURE_BLOCK_DRIFT_SECONDS :: int where "MAX_FUTURE_BLOCK_DRIFT_SECONDS = 2 * 60 * 60"
definition SIDE_BRANCH_PRUNE_DEPTH :: nat where
  "SIDE_BRANCH_PRUNE_DEPTH = 2 * DIFFICULTY_UPDATE_INTERVAL"

definition block_reward_at_height :: "u64 \<Rightarrow> u64" where
  "block_reward_at_height height =
     (let halvings = height div HALVING_INTERVAL
      in if halvings \<ge> 64 then 0
         else drop_bit (unat halvings) (INITIAL_REWARD * 10 ^ 8))"

text \<open>
  \<open>work_from_target\<close> computes on \<open>U256\<close>, whose operators panic on overflow; the last addition
  does overflow when the target is zero, and only then.
\<close>

definition work_from_target :: "u256 \<Rightarrow> u256 chain_result" where
  "work_from_target target =
     (if target = - 1 then Panic
      else case checked_add ((- 1 - target) div (target + 1)) 1 of
             None \<Rightarrow> Panic | Some w \<Rightarrow> Ok w)"

subsection \<open>The subsidy\<close>

lemma unat_reward:
  "unat (block_reward_at_height h) =
     (if 64 \<le> unat h div 7875 then 0 else 5000000000 div 2 ^ (unat h div 7875))"
proof -
  have "unat (h div HALVING_INTERVAL) = unat h div 7875"
    by (simp add: HALVING_INTERVAL_def unat_div)
  then show ?thesis
    by (auto simp: block_reward_at_height_def Let_def word_le_nat_alt INITIAL_REWARD_def
        unat_drop_bit_eq drop_bit_nat_def)
qed

lemma reward_eras_end: "33 \<le> k \<Longrightarrow> (5000000000::nat) div 2 ^ k = 0"
proof -
  assume "33 \<le> k"
  then have "(2::nat) ^ 33 \<le> 2 ^ k" by (rule power_increasing) simp
  then show ?thesis by (intro div_less) simp
qed

lemma unat_reward_shift: "unat (block_reward_at_height h) = 5000000000 div 2 ^ (unat h div 7875)"
  using reward_eras_end [of "unat h div 7875"] by (simp add: unat_reward)

text \<open>
  The subsidy is the initial 50 coins shifted right once per 7875 blocks, at every one of
  the \<open>2^64\<close> heights: nothing wraps, and it is zero exactly from the 33rd halving on.
\<close>

theorem block_reward_schedule:
  "unat (block_reward_at_height h) = 5000000000 div 2 ^ (unat h div 7875)
   \<and> (33 * 7875 \<le> unat h \<longleftrightarrow> block_reward_at_height h = 0)"
proof -
  let ?k = "unat h div 7875"
  have small: "0 < (5000000000::nat) div 2 ^ k" if "k < 33" for k
  proof -
    have "(2::nat) ^ k \<le> 2 ^ 32" using that by (intro power_increasing) auto
    then show ?thesis by (simp add: div_greater_zero_iff)
  qed
  have "33 * 7875 \<le> unat h \<longleftrightarrow> 33 \<le> ?k"
    by (simp add: less_eq_div_iff_mult_less_eq)
  also have "\<dots> \<longleftrightarrow> unat (block_reward_at_height h) = 0"
    using reward_eras_end [of ?k] small [of ?k] unat_reward_shift [of h]
    by (metis less_irrefl linorder_not_le)
  finally have "33 * 7875 \<le> unat h \<longleftrightarrow> block_reward_at_height h = 0"
    by (simp only: unat_eq_zero)
  then show ?thesis using unat_reward_shift [of h] by blast
qed

text \<open>The coins minted by the first \<open>n\<close> blocks, in base units.\<close>

definition emission :: "nat \<Rightarrow> nat" where
  "emission n = (\<Sum>h<n. unat (block_reward_at_height (of_nat h)))"

lemma emission_Suc: "emission (Suc n) = emission n + unat (block_reward_at_height (of_nat n))"
  by (simp add: emission_def)

lemma emission_0 [simp]: "emission 0 = 0"
  by (simp add: emission_def)

lemma halving_sum_bound:
  "(\<Sum>k<m. a div 2 ^ k) + 2 * (a div 2 ^ m) \<le> 2 * (a::nat)"
proof (induction m)
  case (Suc m)
  have "2 * (a div 2 ^ Suc m) \<le> a div 2 ^ m"
    by (simp add: div_mult2_eq mult.commute [of 2])
  with Suc.IH show ?case by simp
qed simp

lemma emission_by_era:
  "n \<le> 2 ^ 64 \<Longrightarrow>
   emission n = 7875 * (\<Sum>k<n div 7875. 5000000000 div 2 ^ k)
              + (n mod 7875) * (5000000000 div 2 ^ (n div 7875))"
proof (induction n)
  case (Suc n)
  then have n: "n < 2 ^ LENGTH(64)" by simp
  have r: "unat (block_reward_at_height (of_nat n)) = 5000000000 div 2 ^ (n div 7875)"
    by (simp add: unat_reward_shift unat_of_nat_less [OF n])
  from Suc.IH n have IH: "emission n = 7875 * (\<Sum>k<n div 7875. 5000000000 div 2 ^ k)
              + (n mod 7875) * (5000000000 div 2 ^ (n div 7875))" by simp
  show ?case
  proof (cases "Suc (n mod 7875) = 7875")
    case True
    then have m: "n mod 7875 = 7874" and d: "Suc n div 7875 = Suc (n div 7875)" "Suc n mod 7875 = 0"
      by (simp_all add: div_Suc mod_Suc)
    show ?thesis unfolding emission_Suc r IH m d by simp
  next
    case False
    then have d: "Suc n div 7875 = n div 7875" "Suc n mod 7875 = Suc (n mod 7875)"
      by (auto simp: div_Suc mod_Suc)
    show ?thesis unfolding emission_Suc r IH d by simp
  qed
qed simp

lemma emission_le: "n \<le> 2 ^ 64 \<Longrightarrow> emission n \<le> 7875 * 10 ^ 10"
proof -
  assume n: "n \<le> 2 ^ 64"
  let ?r = "\<lambda>k. (5000000000::nat) div 2 ^ k"
  have "(n mod 7875) * ?r (n div 7875) \<le> 7875 * ?r (n div 7875)"
    by (intro mult_right_mono) auto
  then have "emission n \<le> 7875 * ((\<Sum>k<n div 7875. ?r k) + ?r (n div 7875))"
    unfolding emission_by_era [OF n] by (simp add: distrib_left)
  also have "\<dots> \<le> 7875 * (2 * 5000000000)"
    using halving_sum_bound [of 5000000000 "n div 7875"] by (intro mult_left_mono) auto
  finally show ?thesis by simp
qed

lemma emission_first_era: "7875 \<le> n \<Longrightarrow> n \<le> 2 ^ 64 \<Longrightarrow> 7875 * 5000000000 \<le> emission n"
proof -
  assume n: "7875 \<le> n" "n \<le> 2 ^ 64"
  then obtain m where m: "n div 7875 = Suc m" by (cases "n div 7875") (auto simp: div_eq_0_iff)
  have "(5000000000::nat) div 2 ^ 0 \<le> (\<Sum>k<n div 7875. 5000000000 div 2 ^ k)"
    unfolding m by (rule member_le_sum) auto
  then show ?thesis unfolding emission_by_era [OF n(2)] by simp
qed

text \<open>
  All the coins the schedule can ever mint are at most 787,500 (in base units,
  \<open>7875 * 10^10\<close>), however long the chain grows.  The comment on \<open>HALVING_INTERVAL\<close> speaks of
  a cap of about 21,000 coins; the first halving era alone mints 393,750.
\<close>

theorem emission_bounded:
  assumes "7875 \<le> n" "n \<le> 2 ^ 64"
  shows "21000 * 10 ^ 8 < emission n \<and> emission n \<le> 7875 * 10 ^ 10"
  using emission_le [OF assms(2)] emission_first_era [OF assms] by simp

theorem emission_bounded_witness:
  "21000 * 10 ^ 8 < emission 7875 \<and> emission 7875 \<le> 7875 * 10 ^ 10"
  using emission_bounded [of 7875] by simp

subsection \<open>Work\<close>

text \<open>
  For every target but the two extremes the expected work is exactly
  \<open>2^256 div (target + 1)\<close>, computed without leaving 256 bits, and it is at least one; the
  function panics on target \<open>0\<close> and on the all-ones target.
\<close>

lemma work_from_target_exact:
  "work_from_target t =
     (if t = 0 \<or> t = - 1 then Panic else Ok (of_nat (2 ^ 256 div (unat t + 1))))"
proof (cases "t = - 1")
  case False
  have t: "unat t < 2 ^ 256" using unsigned_less [of t] by simp
  have "unat t \<noteq> 2 ^ 256 - 1"
  proof
    assume "unat t = 2 ^ 256 - 1"
    then have "unat t = unat (- 1 :: u256)"
      by (simp add: unsigned_minus_1_eq_mask mask_eq_exp_minus_1)
    with False show False by (simp add: word_unat_eq_iff)
  qed
  with t have t1: "unat t + 1 < 2 ^ 256" by linarith
  have ut1: "unat (t + 1) = unat t + 1"
    using t1 by (subst unat_add_less) auto
  have un: "unat (- 1 - t) = 2 ^ 256 - 1 - unat t"
    by (subst unat_sub) (auto simp: unsigned_minus_1_eq_mask mask_eq_exp_minus_1)
  let ?q = "(2 ^ 256 - 1 - unat t) div (unat t + 1)"
  have uq: "unat ((- 1 - t) div (t + 1)) = ?q"
    unfolding unat_div ut1 un ..
  have "2 ^ 256 = (2 ^ 256 - 1 - unat t) + (unat t + 1)" using t1 by simp
  then have q: "2 ^ 256 div (unat t + 1) = ?q + 1"
    by (metis div_add_self2 add_is_0 one_neq_zero)
  show ?thesis
  proof (cases "t = 0")
    case True
    then show ?thesis
      by (simp add: work_from_target_def checked_add_def unsigned_minus_1_eq_mask mask_eq_exp_minus_1)
  next
    case nz: False
    then have "0 < unat t" by (simp add: unat_gt_0)
    then have "2 ^ 256 div (unat t + 1) < 2 ^ 256" by (intro div_less_dividend) auto
    with q have lt: "?q + 1 < 2 ^ 256" by simp
    have "(- 1 - t) div (t + 1) + 1 = of_nat (?q + 1)"
      by (metis uq of_nat_Suc of_nat_unat ucast_id Suc_eq_plus1 add.commute)
    with False nz lt uq q show ?thesis
      by (simp add: work_from_target_def checked_add_def)
  qed
qed (simp add: work_from_target_def)

lemma work_from_target_antitone:
  assumes "work_from_target s = Ok v" "work_from_target t = Ok w" "s \<le> t"
  shows "w \<le> v"
proof -
  have nz: "s \<noteq> 0" "t \<noteq> 0" "s \<noteq> - 1" "t \<noteq> - 1"
    using assms(1,2) by (auto simp: work_from_target_exact split: if_splits)
  have lt: "2 ^ 256 div (unat x + 1) < (2::nat) ^ 256" if "x \<noteq> 0" for x :: u256
    using that by (intro div_less_dividend) (auto simp: unat_gt_0)
  have "2 ^ 256 div (unat t + 1) \<le> (2::nat) ^ 256 div (unat s + 1)"
    using assms(3) by (intro div_le_mono2) (auto simp: word_le_nat_alt)
  with assms(1,2) nz lt [of s] lt [of t] show ?thesis
    by (auto simp: work_from_target_exact word_le_nat_alt unat_of_nat_less)
qed

lemma work_from_target_pos:
  assumes "work_from_target t = Ok w" shows "0 < w"
proof -
  have nz: "t \<noteq> 0" and w: "w = of_nat (2 ^ 256 div (unat t + 1))"
    using assms by (auto simp: work_from_target_exact split: if_splits)
  have "2 ^ 256 div (unat t + 1) < (2::nat) ^ 256"
    using nz by (intro div_less_dividend) (auto simp: unat_gt_0)
  moreover have "unat t + 1 \<le> (2::nat) ^ 256"
    using unsigned_less [of t] by (simp add: Suc_le_eq)
  then have "0 < (2::nat) ^ 256 div (unat t + 1)" by (simp add: div_greater_zero_iff)
  ultimately show ?thesis by (simp add: w word_less_nat_alt unat_of_nat_less)
qed

text \<open>
  Work is defined for every target strictly between the two extremes, is
  \<open>2^256 div (target + 1)\<close> there without ever leaving 256 bits, is positive, and a harder
  (smaller) target never counts for less work.
\<close>

theorem work_from_target_correct:
  assumes "0 < s" "s \<le> t" "t < - 1"
  shows "\<exists>v w. work_from_target s = Ok v \<and> work_from_target t = Ok w
           \<and> unat w = 2 ^ 256 div (unat t + 1) \<and> 0 < w \<and> w \<le> v"
proof -
  have nz: "s \<noteq> 0" "t \<noteq> 0" "s \<noteq> - 1" "t \<noteq> - 1" using assms by auto
  then obtain v w where vw: "work_from_target s = Ok v" "work_from_target t = Ok w"
    by (simp add: work_from_target_exact)
  have "2 ^ 256 div (unat t + 1) < (2::nat) ^ 256"
    using nz by (intro div_less_dividend) (auto simp: unat_gt_0)
  moreover have "w = of_nat (2 ^ 256 div (unat t + 1))"
    using vw(2) nz by (simp add: work_from_target_exact)
  ultimately have "unat w = 2 ^ 256 div (unat t + 1)" by (simp add: unat_of_nat_less)
  moreover have "0 < w" "w \<le> v"
    using work_from_target_pos [OF vw(2)] work_from_target_antitone [OF vw assms(2)] by auto
  ultimately show ?thesis using vw by blast
qed

theorem work_from_target_correct_witness:
  "\<exists>v w. work_from_target 1 = Ok v \<and> work_from_target MIN_TARGET = Ok w
     \<and> unat w = 2 ^ 256 div (unat MIN_TARGET + 1) \<and> 0 < w \<and> w \<le> v"
  by (rule work_from_target_correct [of 1 MIN_TARGET]) (simp_all add: MIN_TARGET_def)

end
