(* ===== verification/Chain_Types.thy ===== *)
theory Chain_Types
  imports Itx_Map Itx_Bytes Chain_Params
begin

text \<open>
  Keys, hashes, transactions and blocks (\<open>lib/src/crypto.rs\<close>, \<open>sha256.rs\<close>, \<open>util.rs\<close>,
  \<open>types/transaction.rs\<close>, and the data of \<open>types/block.rs\<close>).  What these files take from other
  packages is a field of the record \<open>prims\<close>, an argument of every definition that uses it:
  SHA-256, ciborium's encodings, ECDSA over secp256k1, the decimal product of \<open>bigdecimal\<close>, and
  the order in which a \<open>HashMap\<close> yields its keys.  A verifying key, a signing key and a
  signature are represented by the byte strings that determine them.  The main result is that
  the message a spend signs determines the coin spent and every payment made.
\<close>

subsection \<open>Keys and signatures\<close>

datatype public_key = PublicKey (to_sec1_bytes: "byte list")
datatype private_key = PrivateKey "byte list"
datatype signature = Signature "byte list"

text \<open>Public keys are ordered by their SEC1 bytes (\<open>impl Ord for PublicKey\<close>).\<close>

instantiation public_key :: linorder
begin

definition less_eq_public_key :: "public_key \<Rightarrow> public_key \<Rightarrow> bool" where
  "less_eq_public_key a b \<longleftrightarrow> to_sec1_bytes a \<le> to_sec1_bytes b"

definition less_public_key :: "public_key \<Rightarrow> public_key \<Rightarrow> bool" where
  "less_public_key a b \<longleftrightarrow> to_sec1_bytes a < to_sec1_bytes b"

instance
  by standard (auto simp: less_eq_public_key_def less_public_key_def intro: public_key.expand)

end

subsection \<open>Data\<close>

type_synonym hash = u256

record transaction_input =
  txi_prev_output_hash :: hash
  txi_signature :: signature

record transaction_output =
  txo_value :: u64
  txo_unique_id :: uuid
  txo_pubkey :: public_key

record transaction =
  tx_inputs :: "transaction_input list"
  tx_outputs :: "transaction_output list"

record block_header =
  bh_timestamp :: instant
  bh_nonce :: u64
  bh_prev_block_hash :: hash
  bh_merkle_root :: hash
  bh_target :: u256

record block =
  blk_header :: block_header
  blk_transactions :: "transaction list"

text \<open>The packages outside the repository.\<close>

record prims =
  sha256_digest :: "byte list \<Rightarrow> byte list"
  cbor_string :: "string \<Rightarrow> byte list"
  cbor_hash_pair :: "hash \<Rightarrow> hash \<Rightarrow> byte list"
  cbor_output :: "transaction_output \<Rightarrow> byte list"
  cbor_transaction :: "transaction \<Rightarrow> byte list"
  cbor_header :: "block_header \<Rightarrow> byte list"
  cbor_block :: "block \<Rightarrow> byte list"
  signing_key_from_slice :: "byte list \<Rightarrow> private_key option"
  verifying_key :: "private_key \<Rightarrow> public_key"
  ecdsa_sign :: "private_key \<Rightarrow> byte list \<Rightarrow> signature"
  ecdsa_verify :: "public_key \<Rightarrow> byte list \<Rightarrow> signature \<Rightarrow> bool"
  decimal_scale :: "nat \<Rightarrow> nat \<Rightarrow> nat \<Rightarrow> nat"
  hash_iter :: "hash list \<Rightarrow> hash list"

subsection \<open>Hashing\<close>

definition hash_bytes :: "prims \<Rightarrow> byte list \<Rightarrow> hash" where
  "hash_bytes P bytes = u256_from_little_endian (sha256_digest P bytes)"

definition hash_string :: "prims \<Rightarrow> string \<Rightarrow> hash" where
  "hash_string P s = hash_bytes P (cbor_string P s)"

definition matches_target :: "hash \<Rightarrow> u256 \<Rightarrow> bool" where
  "matches_target h t \<longleftrightarrow> h \<le> t"

definition hash_zero :: hash where "hash_zero = 0"

definition hash_as_bytes :: "hash \<Rightarrow> byte list" where
  "hash_as_bytes h = u256_to_little_endian h"

definition hash_from_bytes :: "byte list \<Rightarrow> hash" where
  "hash_from_bytes bs = u256_from_little_endian bs"

lemma hash_bytes_roundtrip [simp]: "hash_from_bytes (hash_as_bytes h) = h"
  by (simp add: hash_from_bytes_def hash_as_bytes_def)

lemma length_hash_as_bytes [simp]: "length (hash_as_bytes h) = 32"
  by (simp add: hash_as_bytes_def)

definition output_hash :: "prims \<Rightarrow> transaction_output \<Rightarrow> hash" where
  "output_hash P o' = hash_bytes P (cbor_output P o')"

definition transaction_hash :: "prims \<Rightarrow> transaction \<Rightarrow> hash" where
  "transaction_hash P tx = hash_bytes P (cbor_transaction P tx)"

definition header_hash :: "prims \<Rightarrow> block_header \<Rightarrow> hash" where
  "header_hash P h = hash_bytes P (cbor_header P h)"

definition block_hash :: "prims \<Rightarrow> block \<Rightarrow> hash" where
  "block_hash P b = hash_bytes P (cbor_block P b)"

definition transaction_serialized_size :: "prims \<Rightarrow> transaction \<Rightarrow> nat" where
  "transaction_serialized_size P tx = length (cbor_transaction P tx)"

definition block_serialized_size :: "prims \<Rightarrow> block \<Rightarrow> nat" where
  "block_serialized_size P b = length (cbor_block P b)"

subsection \<open>Signing a spend\<close>

definition sign_output :: "prims \<Rightarrow> hash \<Rightarrow> private_key \<Rightarrow> signature" where
  "sign_output P h key = ecdsa_sign P key (hash_as_bytes h)"

definition signature_verify :: "prims \<Rightarrow> signature \<Rightarrow> hash \<Rightarrow> public_key \<Rightarrow> bool" where
  "signature_verify P sig h pk = ecdsa_verify P pk (hash_as_bytes h) sig"

definition spend_tag :: "byte list" where
  "spend_tag = map (of_nat \<circ> of_char) ''itx.spend.v1''"

definition spend_output_bytes :: "transaction_output \<Rightarrow> byte list" where
  "spend_output_bytes o' =
     u64_to_be_bytes (txo_value o')
     @ of_nat (length (to_sec1_bytes (txo_pubkey o'))) # to_sec1_bytes (txo_pubkey o')"

definition spend_preimage :: "hash \<Rightarrow> transaction_output list \<Rightarrow> byte list" where
  "spend_preimage prev outputs =
     spend_tag @ hash_as_bytes prev
     @ u32_to_be_bytes (of_nat (length outputs))
     @ concat (map spend_output_bytes outputs)"

definition spend_commitment :: "prims \<Rightarrow> hash \<Rightarrow> transaction_output list \<Rightarrow> hash" where
  "spend_commitment P prev outputs = hash_bytes P (spend_preimage prev outputs)"

definition signed_input ::
  "prims \<Rightarrow> hash \<Rightarrow> transaction_output list \<Rightarrow> private_key \<Rightarrow> transaction_input" where
  "signed_input P prev outputs key =
     \<lparr>txi_prev_output_hash = prev,
      txi_signature = sign_output P (spend_commitment P prev outputs) key\<rparr>"

definition input_verifies ::
  "prims \<Rightarrow> transaction_input \<Rightarrow> transaction_output list \<Rightarrow> public_key \<Rightarrow> bool" where
  "input_verifies P i outputs pk =
     signature_verify P (txi_signature i)
       (spend_commitment P (txi_prev_output_hash i) outputs) pk"

subsection \<open>The Merkle root\<close>

fun merkle_pairs :: "prims \<Rightarrow> hash list \<Rightarrow> hash list" where
  "merkle_pairs P [] = []"
| "merkle_pairs P [l] = [hash_bytes P (cbor_hash_pair P l l)]"
| "merkle_pairs P (l # r # rest) = hash_bytes P (cbor_hash_pair P l r) # merkle_pairs P rest"

lemma length_merkle_pairs: "length (merkle_pairs P layer) = (length layer + 1) div 2"
  by (induction P layer rule: merkle_pairs.induct) auto

function merkle_layers :: "prims \<Rightarrow> hash list \<Rightarrow> hash list" where
  "merkle_layers P layer =
     (if 1 < length layer then merkle_layers P (merkle_pairs P layer) else layer)"
  by pat_completeness auto
termination
  by (relation "measure (\<lambda>(P, layer). length layer)") (auto simp: length_merkle_pairs)

declare merkle_layers.simps [simp del]

text \<open>The final \<open>layer[0]\<close> is out of range, and panics, exactly when there is no transaction.\<close>

definition merkle_root_calculate :: "prims \<Rightarrow> transaction list \<Rightarrow> hash chain_result" where
  "merkle_root_calculate P transactions =
     (case merkle_layers P (map (transaction_hash P) transactions) of
        [] \<Rightarrow> Panic | root # _ \<Rightarrow> Ok root)"

lemma merkle_layers_Nil: "merkle_layers P layer = [] \<longleftrightarrow> layer = []"
proof (induction P layer rule: merkle_layers.induct)
  case (1 P layer)
  show ?case
  proof (cases "1 < length layer")
    case True
    then have "merkle_pairs P layer \<noteq> []"
      by (auto simp: length_merkle_pairs simp flip: length_greater_0_conv)
    with True 1 show ?thesis by (auto simp: merkle_layers.simps [of P layer])
  next
    case False
    then show ?thesis by (simp add: merkle_layers.simps [of P layer])
  qed
qed

lemma merkle_root_outcome:
  "merkle_root_calculate P [] = Panic"
  "txs \<noteq> [] \<Longrightarrow> \<exists>r. merkle_root_calculate P txs = Ok r"
  using merkle_layers_Nil [of P "[]"] merkle_layers_Nil [of P "map (transaction_hash P) txs"]
  by (auto simp: merkle_root_calculate_def split: list.splits)

lemma merkle_pairs_odd:
  "odd (length xs) \<Longrightarrow> merkle_pairs P (xs @ [last xs]) = merkle_pairs P xs"
  by (induction P xs rule: merkle_pairs.induct) (auto simp: last_append split: if_splits)

subsection \<open>What a spend's signature covers\<close>

text \<open>The part of an output the signature covers: everything but its \<open>unique_id\<close>.\<close>

definition payment_of :: "transaction_output \<Rightarrow> u64 \<times> public_key" where
  "payment_of o' = (txo_value o', txo_pubkey o')"

definition short_key :: "transaction_output \<Rightarrow> bool" where
  "short_key o' \<longleftrightarrow> length (to_sec1_bytes (txo_pubkey o')) < 256"

lemma spend_output_bytes_inj:
  assumes "short_key a" "short_key b"
    and "spend_output_bytes a @ xs = spend_output_bytes b @ ys"
  shows "payment_of a = payment_of b \<and> xs = ys"
proof -
  let ?ka = "to_sec1_bytes (txo_pubkey a)" and ?kb = "to_sec1_bytes (txo_pubkey b)"
  have v: "u64_to_be_bytes (txo_value a) = u64_to_be_bytes (txo_value b)"
    and r: "(of_nat (length ?ka) :: byte) # ?ka @ xs = of_nat (length ?kb) # ?kb @ ys"
    using assms(3) by (auto simp: spend_output_bytes_def append_fixed_inj)
  from r have "unat (of_nat (length ?ka) :: byte) = unat (of_nat (length ?kb) :: byte)"
    and rest: "?ka @ xs = ?kb @ ys" by simp_all
  then have "length ?ka = length ?kb"
    using assms(1,2) by (simp add: short_key_def unat_byte_of_nat)
  with rest have "?ka = ?kb" "xs = ys" by (simp_all add: append_fixed_inj)
  with v show ?thesis by (simp add: payment_of_def u64_to_be_inj public_key.expand)
qed

lemma spend_outputs_inj:
  assumes "length as = length bs" "\<forall>x \<in> set as \<union> set bs. short_key x"
    and "concat (map spend_output_bytes as) = concat (map spend_output_bytes bs)"
  shows "map payment_of as = map payment_of bs"
  using assms
proof (induction as bs rule: list_induct2)
  case (Cons a as b bs)
  then have "payment_of a = payment_of b \<and>
      concat (map spend_output_bytes as) = concat (map spend_output_bytes bs)"
    by (intro spend_output_bytes_inj) auto
  with Cons show ?case by simp
qed simp

text \<open>
  The bytes a spend signs determine the coin it spends and, in order, the amount and the
  recipient of every output it pays: no two different payments of the same coin share a
  preimage.  The hypotheses are the two narrowing casts of the code: fewer than \<open>2^32\<close> outputs,
  and SEC1 keys (33 or 65 bytes) of fewer than 256 bytes.
\<close>

theorem spend_preimage_binds_payment:
  assumes "spend_preimage prev outs = spend_preimage prev' outs'"
    and "length outs < 2 ^ 32" "length outs' < 2 ^ 32"
    and "\<forall>x \<in> set outs \<union> set outs'. short_key x"
  shows "prev = prev' \<and> map payment_of outs = map payment_of outs'"
proof -
  let ?n = "of_nat (length outs) :: u32" and ?n' = "of_nat (length outs') :: u32"
  have "hash_as_bytes prev = hash_as_bytes prev'"
    and n: "u32_to_be_bytes ?n = u32_to_be_bytes ?n'"
    and c: "concat (map spend_output_bytes outs) = concat (map spend_output_bytes outs')"
    using assms(1) by (auto simp: spend_preimage_def append_fixed_inj)
  then have "prev = prev'" by (metis hash_bytes_roundtrip)
  moreover from n have "?n = ?n'" by (metis u32_be_roundtrip)
  then have "unat ?n = unat ?n'" by simp
  with assms(2,3) have "length outs = length outs'" by (simp add: unat_of_nat_less)
  ultimately show ?thesis using spend_outputs_inj [OF _ assms(4) c] by blast
qed

theorem spend_preimage_binds_payment_witness:
  "(5::hash) = 5 \<and>
   map payment_of [\<lparr>txo_value = 7, txo_unique_id = 1, txo_pubkey = PublicKey [2, 3]\<rparr>]
   = map payment_of [\<lparr>txo_value = 7, txo_unique_id = 9, txo_pubkey = PublicKey [2, 3]\<rparr>]"
  by (rule spend_preimage_binds_payment)
    (simp_all add: spend_preimage_def spend_output_bytes_def short_key_def)

end
