(* ===== verification/Chain_Block.thy ===== *)
theory Chain_Block
  imports Chain_Types
begin

text \<open>
  Mining and block verification (\<open>lib/src/types/block.rs\<close>).  A block that passes
  \<open>verify_transactions\<close> spends only known outputs, each at most once and each under a valid
  signature over this very payment, and creates exactly the subsidy: what its transactions pay
  out is what they consume plus the block reward.
\<close>

type_synonym utxo_set = "(hash, bool \<times> transaction_output) bmap"

subsection \<open>Mining\<close>

definition bump_nonce :: "instant \<Rightarrow> block_header \<Rightarrow> block_header" where
  "bump_nonce now h =
     (case checked_add (bh_nonce h) 1 of
        Some n \<Rightarrow> h\<lparr>bh_nonce := n\<rparr>
      | None \<Rightarrow> h\<lparr>bh_nonce := 0, bh_timestamp := now\<rparr>)"

fun mine_loop :: "prims \<Rightarrow> instant \<Rightarrow> nat \<Rightarrow> block_header \<Rightarrow> bool \<times> block_header" where
  "mine_loop P now 0 h = (False, h)"
| "mine_loop P now (Suc steps) h =
     (let h' = bump_nonce now h
      in if matches_target (header_hash P h') (bh_target h') then (True, h')
         else mine_loop P now steps h')"

definition mine :: "prims \<Rightarrow> instant \<Rightarrow> nat \<Rightarrow> block_header \<Rightarrow> bool \<times> block_header" where
  "mine P now steps h =
     (if matches_target (header_hash P h) (bh_target h) then (True, h)
      else mine_loop P now steps h)"

definition block_header_work :: "block_header \<Rightarrow> u256 chain_result" where
  "block_header_work h = work_from_target (bh_target h)"

lemma bump_nonce_frame [simp]:
  "bh_prev_block_hash (bump_nonce now h) = bh_prev_block_hash h"
  "bh_merkle_root (bump_nonce now h) = bh_merkle_root h"
  "bh_target (bump_nonce now h) = bh_target h"
  by (simp_all add: bump_nonce_def split: option.splits)

lemma mine_loop_sound:
  "mine_loop P now steps h = (ok, h') \<Longrightarrow>
     (ok \<longrightarrow> matches_target (header_hash P h') (bh_target h'))
     \<and> bh_target h' = bh_target h \<and> bh_prev_block_hash h' = bh_prev_block_hash h
     \<and> bh_merkle_root h' = bh_merkle_root h"
proof (induction steps arbitrary: h)
  case (Suc steps)
  show ?case
  proof (cases "matches_target (header_hash P (bump_nonce now h)) (bh_target h)")
    case True
    with Suc.prems show ?thesis by (auto simp: Let_def)
  next
    case False
    with Suc.prems Suc.IH [of "bump_nonce now h"] show ?thesis by (auto simp: Let_def)
  qed
qed simp

lemma mine_loop_complete:
  assumes "0 < k" "k \<le> steps" "unat (bh_nonce h) + k < 2 ^ 64"
    and "matches_target (header_hash P (h\<lparr>bh_nonce := bh_nonce h + of_nat k\<rparr>)) (bh_target h)"
  shows "fst (mine_loop P now steps h)"
  using assms
proof (induction steps arbitrary: h k)
  case (Suc steps)
  have b: "bump_nonce now h = h\<lparr>bh_nonce := bh_nonce h + 1\<rparr>"
    using Suc.prems(1,3) by (simp add: bump_nonce_def checked_add_def)
  show ?case
  proof (cases "matches_target (header_hash P (bump_nonce now h)) (bh_target h)")
    case True
    then show ?thesis by (simp add: Let_def)
  next
    case False
    then have "k \<noteq> 1" using Suc.prems(4) b by auto
    with Suc.prems(1) obtain j where j: "k = Suc j" "0 < j" by (cases k) auto
    have "unat (bh_nonce h + 1) = unat (bh_nonce h) + 1"
      using Suc.prems(1,3) by (subst unat_add_less) auto
    then have "fst (mine_loop P now steps (bump_nonce now h))"
      using Suc.prems j b by (intro Suc.IH [of j]) (auto simp: add.assoc)
    with False show ?thesis by (simp add: Let_def)
  qed
qed simp

text \<open>
  Mining changes nothing but the nonce and the timestamp, reports success only on a header
  whose hash meets the unchanged target, and does succeed whenever some nonce within the step
  budget works.
\<close>

theorem mine_correct:
  assumes "mine P now steps h = (ok, h')"
  shows "(ok \<longrightarrow> matches_target (header_hash P h') (bh_target h'))
       \<and> bh_target h' = bh_target h \<and> bh_prev_block_hash h' = bh_prev_block_hash h
       \<and> bh_merkle_root h' = bh_merkle_root h
       \<and> (\<forall>k \<le> steps. unat (bh_nonce h) + k < 2 ^ 64 \<and>
            matches_target (header_hash P (h\<lparr>bh_nonce := bh_nonce h + of_nat k\<rparr>)) (bh_target h)
            \<longrightarrow> ok)"
proof (cases "matches_target (header_hash P h) (bh_target h)")
  case True
  with assms show ?thesis by (auto simp: mine_def)
next
  case False
  with assms have m: "mine_loop P now steps h = (ok, h')" by (simp add: mine_def)
  have "ok" if k: "k \<le> steps" "unat (bh_nonce h) + k < 2 ^ 64"
    "matches_target (header_hash P (h\<lparr>bh_nonce := bh_nonce h + of_nat k\<rparr>)) (bh_target h)" for k
  proof -
    have "0 < k" using k(3) False by (cases k) auto
    from mine_loop_complete [OF this k, of now] m show ?thesis by simp
  qed
  with mine_loop_sound [OF m] show ?thesis by blast
qed

subsection \<open>Verification\<close>

fun verify_inputs ::
  "prims \<Rightarrow> utxo_set \<Rightarrow> transaction_output list \<Rightarrow> transaction_input list
     \<Rightarrow> (hash, transaction_output) bmap \<Rightarrow> u64
     \<Rightarrow> ((hash, transaction_output) bmap \<times> u64) chain_result" where
  "verify_inputs P utxos outs [] used input_value = Ok (used, input_value)"
| "verify_inputs P utxos outs (i # is) used input_value =
     (case bm_get utxos (txi_prev_output_hash i) of
        None \<Rightarrow> Err InvalidTransaction
      | Some (_, prev_output) \<Rightarrow>
          if bm_contains (txi_prev_output_hash i) used then Err InvalidTransaction
          else if \<not> input_verifies P i outs (txo_pubkey prev_output) then Err InvalidSignature
          else obind (ok_or InvalidTransaction (checked_add input_value (txo_value prev_output)))
                 (verify_inputs P utxos outs is
                    (bm_insert (txi_prev_output_hash i) prev_output used)))"

fun verify_spends ::
  "prims \<Rightarrow> utxo_set \<Rightarrow> transaction list \<Rightarrow> (hash, transaction_output) bmap \<Rightarrow> unit chain_result" where
  "verify_spends P utxos [] used = Ok ()"
| "verify_spends P utxos (tx # txs) used =
     obind (verify_inputs P utxos (tx_outputs tx) (tx_inputs tx) used 0) (\<lambda>(used', input_value).
     obind (ok_or InvalidTransaction (checked_sum 0 (map txo_value (tx_outputs tx)))) (\<lambda>output_value.
       if input_value < output_value then Err InvalidTransaction
       else verify_spends P utxos txs used'))"

fun sum_input_values :: "utxo_set \<Rightarrow> transaction_input list \<Rightarrow> u64 \<Rightarrow> u64 chain_result" where
  "sum_input_values utxos [] acc = Ok acc"
| "sum_input_values utxos (i # is) acc =
     (case bm_get utxos (txi_prev_output_hash i) of
        None \<Rightarrow> Err InvalidTransaction
      | Some (_, prev_output) \<Rightarrow>
          obind (ok_or InvalidTransaction (checked_add acc (txo_value prev_output)))
            (sum_input_values utxos is))"

fun miner_fees_loop :: "utxo_set \<Rightarrow> transaction list \<Rightarrow> u64 \<Rightarrow> u64 chain_result" where
  "miner_fees_loop utxos [] total_fees = Ok total_fees"
| "miner_fees_loop utxos (tx # txs) total_fees =
     obind (sum_input_values utxos (tx_inputs tx) 0) (\<lambda>input_value.
     obind (ok_or InvalidTransaction (checked_sum 0 (map txo_value (tx_outputs tx)))) (\<lambda>output_value.
       if input_value < output_value then Err InvalidTransaction
       else obind (ok_or InvalidTransaction (checked_add total_fees (input_value - output_value)))
              (miner_fees_loop utxos txs)))"

definition calculate_miner_fees_for_transactions ::
  "transaction list \<Rightarrow> utxo_set \<Rightarrow> u64 chain_result" where
  "calculate_miner_fees_for_transactions txs utxos = miner_fees_loop utxos txs 0"

text \<open>\<open>&self.transactions[1..]\<close> and \<open>&self.transactions[0]\<close> panic on an empty block.\<close>

definition calculate_miner_fees :: "block \<Rightarrow> utxo_set \<Rightarrow> u64 chain_result" where
  "calculate_miner_fees b utxos =
     (case blk_transactions b of
        [] \<Rightarrow> Panic
      | _ # txs \<Rightarrow> calculate_miner_fees_for_transactions txs utxos)"

definition verify_coinbase_transaction :: "block \<Rightarrow> u64 \<Rightarrow> utxo_set \<Rightarrow> unit chain_result" where
  "verify_coinbase_transaction b predicted_block_height utxos =
     (case blk_transactions b of
        [] \<Rightarrow> Panic
      | coinbase # _ \<Rightarrow>
          if tx_inputs coinbase \<noteq> [] then Err InvalidTransaction
          else
            obind (calculate_miner_fees b utxos) (\<lambda>miner_fees.
            obind (ok_or InvalidTransaction (checked_sum 0 (map txo_value (tx_outputs coinbase)))) (\<lambda>total.
            obind (ok_or InvalidTransaction
                     (checked_add (block_reward_at_height predicted_block_height) miner_fees)) (\<lambda>owed.
              if total \<noteq> owed then Err InvalidTransaction else Ok ()))))"

definition verify_transactions :: "prims \<Rightarrow> block \<Rightarrow> u64 \<Rightarrow> utxo_set \<Rightarrow> unit chain_result" where
  "verify_transactions P b predicted_block_height utxos =
     (if blk_transactions b = [] then Err InvalidTransaction
      else obind (verify_coinbase_transaction b predicted_block_height utxos)
             (\<lambda>_. verify_spends P utxos (tl (blk_transactions b)) []))"

subsection \<open>No panic\<close>

lemma verify_inputs_returns: "returns (verify_inputs P utxos outs is used v)"
proof (induction "is" arbitrary: used v)
  case (Cons i "is")
  then show ?case by (auto simp: outcome_simps returns_iff split: option.splits)
qed simp

lemma verify_spends_returns: "returns (verify_spends P utxos txs used)"
proof (induction txs arbitrary: used)
  case (Cons tx txs)
  then show ?case
    using verify_inputs_returns [of P utxos "tx_outputs tx" "tx_inputs tx" used 0]
    by (auto simp: outcome_simps returns_iff)
qed simp

lemma sum_input_values_returns: "returns (sum_input_values utxos is v)"
proof (induction "is" arbitrary: v)
  case (Cons i "is")
  then show ?case by (auto simp: outcome_simps returns_iff split: option.splits)
qed simp

lemma miner_fees_loop_returns: "returns (miner_fees_loop utxos txs v)"
proof (induction txs arbitrary: v)
  case (Cons tx txs)
  then show ?case
    using sum_input_values_returns [of utxos "tx_inputs tx" 0]
    by (auto simp: outcome_simps returns_iff)
qed simp

lemma verify_transactions_returns: "returns (verify_transactions P b h utxos)"
proof (cases "blk_transactions b")
  case (Cons cb txs)
  then show ?thesis
    using miner_fees_loop_returns [of utxos txs 0] verify_spends_returns [of P utxos txs "[]"]
    by (auto simp: verify_transactions_def verify_coinbase_transaction_def calculate_miner_fees_def
        calculate_miner_fees_for_transactions_def outcome_simps returns_iff)
qed (simp add: verify_transactions_def)

subsection \<open>What verification establishes\<close>

abbreviation spent_hashes :: "transaction \<Rightarrow> hash list" where
  "spent_hashes tx \<equiv> map txi_prev_output_hash (tx_inputs tx)"

definition out_total :: "transaction \<Rightarrow> nat" where
  "out_total tx = sum_list (map (unat \<circ> txo_value) (tx_outputs tx))"

definition utxo_value :: "utxo_set \<Rightarrow> hash \<Rightarrow> nat" where
  "utxo_value utxos h = (case bm_get utxos h of None \<Rightarrow> 0 | Some (_, o') \<Rightarrow> unat (txo_value o'))"

definition in_total :: "utxo_set \<Rightarrow> transaction \<Rightarrow> nat" where
  "in_total utxos tx = sum_list (map (utxo_value utxos) (spent_hashes tx))"

definition input_authorised :: "prims \<Rightarrow> utxo_set \<Rightarrow> transaction \<Rightarrow> transaction_input \<Rightarrow> bool" where
  "input_authorised P utxos tx i \<longleftrightarrow>
     (\<exists>m o'. bm_get utxos (txi_prev_output_hash i) = Some (m, o')
           \<and> input_verifies P i (tx_outputs tx) (txo_pubkey o'))"

lemma out_total_checked:
  "checked_sum 0 (map txo_value (tx_outputs tx)) = Some v \<Longrightarrow> unat v = out_total tx"
  by (drule checked_sum_Some) (simp add: out_total_def)

lemma verify_inputs_Ok:
  assumes "verify_inputs P utxos outs is used v = Ok (used', v')"
  shows "distinct (map txi_prev_output_hash is)
    \<and> (\<forall>i \<in> set is. \<not> bm_contains (txi_prev_output_hash i) used)
    \<and> (\<forall>h. bm_contains h used' \<longleftrightarrow> bm_contains h used \<or> h \<in> txi_prev_output_hash ` set is)
    \<and> (\<forall>i \<in> set is. \<exists>m o'. bm_get utxos (txi_prev_output_hash i) = Some (m, o')
           \<and> input_verifies P i outs (txo_pubkey o'))
    \<and> unat v' = unat v + sum_list (map (utxo_value utxos) (map txi_prev_output_hash is))"
  using assms
proof (induction "is" arbitrary: used v)
  case (Cons i "is")
  let ?h = "txi_prev_output_hash i"
  from Cons.prems obtain m o' w where
    get: "bm_get utxos ?h = Some (m, o')" and new: "\<not> bm_contains ?h used"
    and sig: "input_verifies P i outs (txo_pubkey o')"
    and w: "checked_add v (txo_value o') = Some w"
    and rest: "verify_inputs P utxos outs is (bm_insert ?h o' used) w = Ok (used', v')"
    by (auto simp: outcome_simps split: option.splits if_splits)
  have c: "bm_contains h (bm_insert ?h o' used) \<longleftrightarrow> h = ?h \<or> bm_contains h used" for h
    by (auto simp: bm_contains_def)
  have u: "unat w = unat v + utxo_value utxos ?h"
    using checked_add_Some [OF w] get by (simp add: utxo_value_def)
  have IH: "distinct (map txi_prev_output_hash is)"
    "\<And>j. j \<in> set is \<Longrightarrow> txi_prev_output_hash j \<noteq> ?h \<and> \<not> bm_contains (txi_prev_output_hash j) used"
    "\<And>h. bm_contains h used' \<longleftrightarrow> h = ?h \<or> bm_contains h used \<or> h \<in> txi_prev_output_hash ` set is"
    "\<And>j. j \<in> set is \<Longrightarrow> \<exists>m o'. bm_get utxos (txi_prev_output_hash j) = Some (m, o')
           \<and> input_verifies P j outs (txo_pubkey o')"
    "unat v' = unat w + sum_list (map (utxo_value utxos) (map txi_prev_output_hash is))"
    using Cons.IH [OF rest] by (auto simp: c)
  show ?case
  proof (intro conjI ballI allI)
    show "distinct (map txi_prev_output_hash (i # is))" using IH(1,2) by fastforce
    show "unat v' = unat v + sum_list (map (utxo_value utxos) (map txi_prev_output_hash (i # is)))"
      using IH(5) u by simp
  qed (use IH(2,3,4) new get sig in auto)
qed simp

lemma verify_spends_Ok:
  assumes "verify_spends P utxos txs used = Ok ()"
  shows "distinct (concat (map spent_hashes txs))
    \<and> (\<forall>h \<in> set (concat (map spent_hashes txs)). \<not> bm_contains h used)
    \<and> (\<forall>tx \<in> set txs. \<forall>i \<in> set (tx_inputs tx). input_authorised P utxos tx i)
    \<and> (\<forall>tx \<in> set txs. out_total tx \<le> in_total utxos tx)"
  using assms
proof (induction txs arbitrary: used)
  case (Cons tx txs)
  from Cons.prems obtain used' iv ov where
    vi: "verify_inputs P utxos (tx_outputs tx) (tx_inputs tx) used 0 = Ok (used', iv)"
    and ov: "checked_sum 0 (map txo_value (tx_outputs tx)) = Some ov" and le: "\<not> iv < ov"
    and rest: "verify_spends P utxos txs used' = Ok ()"
    by (auto simp: outcome_simps split: if_splits)
  note v = verify_inputs_Ok [OF vi]
  have t: "unat iv = in_total utxos tx" using v by (simp add: in_total_def)
  have "unat ov \<le> unat iv" using le by (simp add: not_less word_le_nat_alt)
  then have bal: "out_total tx \<le> in_total utxos tx"
    unfolding t out_total_checked [OF ov] .
  note IH = Cons.IH [OF rest]
  have sep: "set (spent_hashes tx) \<inter> set (concat (map spent_hashes txs)) = {}"
    using v IH by (fastforce simp: image_iff)
  show ?case
  proof (intro conjI)
    show "distinct (concat (map spent_hashes (tx # txs)))" using v IH sep by auto
    show "\<forall>t \<in> set (tx # txs). \<forall>i \<in> set (tx_inputs t). input_authorised P utxos t i"
      using v IH by (auto simp: input_authorised_def)
  qed (use v IH bal in auto)
qed simp

lemma sum_input_values_Ok:
  "sum_input_values utxos is v = Ok r \<Longrightarrow>
     unat r = unat v + sum_list (map (utxo_value utxos) (map txi_prev_output_hash is))"
proof (induction "is" arbitrary: v)
  case (Cons i "is")
  from Cons.prems obtain m o' w where get: "bm_get utxos (txi_prev_output_hash i) = Some (m, o')"
    and w: "checked_add v (txo_value o') = Some w" and rest: "sum_input_values utxos is w = Ok r"
    by (auto simp: outcome_simps split: option.splits)
  have u: "utxo_value utxos (txi_prev_output_hash i) = unat (txo_value o')"
    using get by (simp add: utxo_value_def)
  show ?case using Cons.IH [OF rest] checked_add_Some [OF w] by (simp add: u)
qed simp

lemma miner_fees_loop_Ok:
  assumes "miner_fees_loop utxos txs v = Ok r"
  shows "unat r + sum_list (map out_total txs) = unat v + sum_list (map (in_total utxos) txs)
       \<and> (\<forall>tx \<in> set txs. out_total tx \<le> in_total utxos tx)"
  using assms
proof (induction txs arbitrary: v)
  case (Cons tx txs)
  from Cons.prems obtain iv ov w where
    iv: "sum_input_values utxos (tx_inputs tx) 0 = Ok iv"
    and ov: "checked_sum 0 (map txo_value (tx_outputs tx)) = Some ov" and le: "\<not> iv < ov"
    and w: "checked_add v (iv - ov) = Some w"
    and rest: "miner_fees_loop utxos txs w = Ok r"
    by (auto simp: outcome_simps split: if_splits)
  have "unat iv = in_total utxos tx"
    using sum_input_values_Ok [OF iv] by (simp add: in_total_def)
  moreover have "unat ov = out_total tx" by (rule out_total_checked [OF ov])
  moreover have "ov \<le> iv" using le by simp
  ultimately have le': "out_total tx \<le> in_total utxos tx"
    and "unat (iv - ov) = in_total utxos tx - out_total tx"
    by (auto simp: unat_sub word_le_nat_alt)
  then have "unat w + out_total tx = unat v + in_total utxos tx"
    using checked_add_Some [OF w] by simp
  with Cons.IH [OF rest] le' show ?case by auto
qed simp

text \<open>Everything an accepted block establishes, in one place for the ledger proofs.\<close>

lemma verify_transactions_Ok:
  assumes "verify_transactions P b height utxos = Ok ()"
  obtains cb txs where "blk_transactions b = cb # txs" "tx_inputs cb = []"
    "distinct (concat (map spent_hashes txs))"
    "\<And>tx i. tx \<in> set txs \<Longrightarrow> i \<in> set (tx_inputs tx) \<Longrightarrow> input_authorised P utxos tx i"
    "\<And>tx. tx \<in> set txs \<Longrightarrow> out_total tx \<le> in_total utxos tx"
    "out_total cb + sum_list (map out_total txs)
       = unat (block_reward_at_height height) + sum_list (map (in_total utxos) txs)"
proof -
  from assms obtain cb txs where b: "blk_transactions b = cb # txs"
    by (cases "blk_transactions b") (auto simp: verify_transactions_def)
  from assms b obtain fees total owed where
    cb: "tx_inputs cb = []" and f: "miner_fees_loop utxos txs 0 = Ok fees"
    and t: "checked_sum 0 (map txo_value (tx_outputs cb)) = Some total"
    and o': "checked_add (block_reward_at_height height) fees = Some owed" and eq: "total = owed"
    and s: "verify_spends P utxos txs [] = Ok ()"
    by (auto simp: verify_transactions_def verify_coinbase_transaction_def calculate_miner_fees_def
        calculate_miner_fees_for_transactions_def outcome_simps split: if_splits)
  have "out_total cb = unat (block_reward_at_height height) + unat fees"
    using out_total_checked [OF t] checked_add_Some [OF o'] eq by simp
  then have "out_total cb + sum_list (map out_total txs)
       = unat (block_reward_at_height height) + sum_list (map (in_total utxos) txs)"
    using miner_fees_loop_Ok [OF f] by simp
  with b cb verify_spends_Ok [OF s] show thesis by (intro that) auto
qed

text \<open>
  C5: an accepted block spends only outputs that exist, never the same one twice, each under a
  signature of its owner over this transaction's own outputs; and what all its transactions pay
  out is exactly what they consume plus the block subsidy, as natural numbers, so no sum
  wrapped on the way.
\<close>

theorem accepted_block_sound:
  assumes "verify_transactions P b height utxos = Ok ()"
  shows "distinct (concat (map spent_hashes (blk_transactions b)))
    \<and> (\<forall>tx \<in> set (blk_transactions b). \<forall>i \<in> set (tx_inputs tx). input_authorised P utxos tx i)
    \<and> sum_list (map out_total (blk_transactions b))
        = unat (block_reward_at_height height) + sum_list (map (in_total utxos) (blk_transactions b))"
proof -
  from assms obtain cb txs where
    *: "blk_transactions b = cb # txs" "tx_inputs cb = []"
    "distinct (concat (map spent_hashes txs))"
    "\<And>tx i. tx \<in> set txs \<Longrightarrow> i \<in> set (tx_inputs tx) \<Longrightarrow> input_authorised P utxos tx i"
    "out_total cb + sum_list (map out_total txs)
       = unat (block_reward_at_height height) + sum_list (map (in_total utxos) txs)"
    by (rule verify_transactions_Ok) blast
  then have "in_total utxos cb = 0" by (simp add: in_total_def)
  with * show ?thesis by auto
qed

end
