(* ===== verification/Chain_State.thy ===== *)
theory Chain_State
  imports Chain_Block
begin

text \<open>
  The chain state and every operation of \<open>lib/src/types/blockchain.rs\<close>, in the file's order
  of use.  An operation on \<open>&mut self\<close> returns its outcome together with the state it leaves,
  on the error and panic paths too.  \<open>Utc::now()\<close> is the argument \<open>now\<close> (one reading per call of a
  public operation) and \<open>Uuid::new_v4()\<close> the argument \<open>fresh\<close>.  The two loops whose bound is not
  visible in the code carry fuel: the walk to the fork point gets one step per stored block,
  the orphan recursion one level per buffered orphan; \<open>Cutoff\<close> is running out.
\<close>

record blockchain =
  bc_utxos :: utxo_set
  bc_target :: u256
  bc_blocks :: "(hash, block) bmap"
  bc_active_chain :: "hash list"
  bc_mempool :: "(instant \<times> transaction) list"
  bc_orphans :: "(hash, block) bmap"
  bc_pending_prunes :: "hash list"
  bc_time_offset :: duration

definition MAX_ORPHAN_BLOCKS :: nat where "MAX_ORPHAN_BLOCKS = 50"

definition blockchain_new :: blockchain where
  "blockchain_new =
     \<lparr>bc_utxos = [], bc_target = MIN_TARGET, bc_blocks = [], bc_active_chain = [], bc_mempool = [],
      bc_orphans = [], bc_pending_prunes = [], bc_time_offset = 0\<rparr>"

definition set_time_offset :: "duration \<Rightarrow> blockchain \<Rightarrow> blockchain" where
  "set_time_offset off s = s\<lparr>bc_time_offset := off\<rparr>"

subsection \<open>Genesis\<close>

text \<open>The clock is read only when a nonce overflows, out of reach in two million steps.\<close>

definition genesis_block :: "prims \<Rightarrow> block chain_result" where
  "genesis_block P =
     obind (expect (signing_key_from_slice P
              (hash_as_bytes (hash_string P ''itx testnet genesis coinbase v1'')))) (\<lambda>key.
     let coinbase = \<lparr>tx_inputs = [],
                     tx_outputs = [\<lparr>txo_value = INITIAL_REWARD * 10 ^ 8, txo_unique_id = 0,
                                    txo_pubkey = verifying_key P key\<rparr>]\<rparr>
     in obind (merkle_root_calculate P [coinbase]) (\<lambda>root.
        let (mined, hd') = mine P 0 2000000
              \<lparr>bh_timestamp = 0, bh_nonce = 0, bh_prev_block_hash = hash_zero,
               bh_merkle_root = root, bh_target = MIN_TARGET\<rparr>
        in if mined then Ok \<lparr>blk_header = hd', blk_transactions = [coinbase]\<rparr> else Panic))"

definition genesis_hash :: "prims \<Rightarrow> hash chain_result" where
  "genesis_hash P = obind (genesis_block P) (\<lambda>g. Ok (block_hash P g))"

definition block_height :: "blockchain \<Rightarrow> u64" where
  "block_height s = of_nat (length (bc_active_chain s))"

definition calculate_block_reward :: "blockchain \<Rightarrow> u64" where
  "calculate_block_reward s = block_reward_at_height (block_height s)"

subsection \<open>Marks and fees\<close>

definition set_mark :: "bool \<Rightarrow> hash \<Rightarrow> utxo_set \<Rightarrow> utxo_set" where
  "set_mark m h = bm_modify h (\<lambda>(_, o'). (m, o'))"

definition mark_transaction_utxos :: "transaction \<Rightarrow> utxo_set \<Rightarrow> utxo_set" where
  "mark_transaction_utxos tx = fold (set_mark True) (spent_hashes tx)"

definition unmark_transaction_utxos :: "transaction \<Rightarrow> utxo_set \<Rightarrow> utxo_set" where
  "unmark_transaction_utxos tx = fold (set_mark False) (spent_hashes tx)"

definition mempool_expired :: "instant \<Rightarrow> instant \<times> transaction \<Rightarrow> bool" where
  "mempool_expired now e \<longleftrightarrow> now - fst e > seconds MAX_MEMPOOL_TRANSACTION_AGE"

definition cleanup_mempool :: "instant \<Rightarrow> blockchain \<Rightarrow> blockchain" where
  "cleanup_mempool now s =
     s\<lparr>bc_mempool := filter (\<lambda>e. \<not> mempool_expired now e) (bc_mempool s),
       bc_utxos := fold (set_mark False)
                     (concat (map (spent_hashes \<circ> snd) (filter (mempool_expired now) (bc_mempool s))))
                     (bc_utxos s)\<rparr>"

text \<open>The input total of \<open>transaction_fee\<close>, whose lookups \<open>expect\<close> the output to be there.\<close>

fun expect_input_values :: "utxo_set \<Rightarrow> transaction_input list \<Rightarrow> u64 \<Rightarrow> u64 chain_result" where
  "expect_input_values utxos [] acc = Ok acc"
| "expect_input_values utxos (i # is) acc =
     obind (expect (bm_get utxos (txi_prev_output_hash i))) (\<lambda>(_, o').
     obind (ok_or InvalidTransaction (checked_add acc (txo_value o')))
       (expect_input_values utxos is))"

definition transaction_fee :: "utxo_set \<Rightarrow> transaction \<Rightarrow> u64 chain_result" where
  "transaction_fee utxos tx =
     obind (expect_input_values utxos (tx_inputs tx) 0) (\<lambda>input_value.
     obind (ok_or InvalidTransaction (checked_sum 0 (map txo_value (tx_outputs tx)))) (\<lambda>output_value.
       if input_value < output_value then Err InvalidTransaction
       else Ok (input_value - output_value)))"

definition spends_hash :: "hash \<Rightarrow> instant \<times> transaction \<Rightarrow> bool" where
  "spends_hash h e \<longleftrightarrow> h \<in> set (spent_hashes (snd e))"

fun find_index :: "('a \<Rightarrow> bool) \<Rightarrow> 'a list \<Rightarrow> nat option" where
  "find_index p [] = None"
| "find_index p (x # xs) = (if p x then Some 0 else map_option Suc (find_index p xs))"

definition find_mempool_index_spending :: "blockchain \<Rightarrow> hash \<Rightarrow> nat option" where
  "find_mempool_index_spending s h = find_index (spends_hash h) (bc_mempool s)"

subsection \<open>The mempool\<close>

fun mempool_check_inputs ::
  "prims \<Rightarrow> utxo_set \<Rightarrow> transaction_output list \<Rightarrow> transaction_input list \<Rightarrow> hash set
     \<Rightarrow> unit chain_result" where
  "mempool_check_inputs P utxos outs [] known = Ok ()"
| "mempool_check_inputs P utxos outs (i # is) known =
     (case bm_get utxos (txi_prev_output_hash i) of
        None \<Rightarrow> Err InvalidTransaction
      | Some (_, prev_output) \<Rightarrow>
          if txi_prev_output_hash i \<in> known then Err InvalidTransaction
          else if \<not> input_verifies P i outs (txo_pubkey prev_output) then Err InvalidSignature
          else mempool_check_inputs P utxos outs is (insert (txi_prev_output_hash i) known))"

fun mempool_conflicts ::
  "u64 \<Rightarrow> transaction_input list \<Rightarrow> nat list \<Rightarrow> blockchain \<Rightarrow> nat list chain_result \<times> blockchain" where
  "mempool_conflicts new_fee [] found s = (Ok found, s)"
| "mempool_conflicts new_fee (i # is) found s =
     (case bm_get (bc_utxos s) (txi_prev_output_hash i) of
        Some (True, _) \<Rightarrow>
          (case find_mempool_index_spending s (txi_prev_output_hash i) of
             Some idx \<Rightarrow>
               (case transaction_fee (bc_utxos s) (snd (bc_mempool s ! idx)) of
                  Ok old_fee \<Rightarrow>
                    if new_fee \<le> old_fee then (Err InvalidTransaction, s)
                    else mempool_conflicts new_fee is (idx # found) s
                | Err e \<Rightarrow> (Err e, s)
                | Panic \<Rightarrow> (Panic, s)
                | Cutoff \<Rightarrow> (Cutoff, s))
           | None \<Rightarrow>
               mempool_conflicts new_fee is found
                 (s\<lparr>bc_utxos := set_mark False (txi_prev_output_hash i) (bc_utxos s)\<rparr>))
      | _ \<Rightarrow> mempool_conflicts new_fee is found s)"

definition remove_mempool_at :: "nat \<Rightarrow> blockchain \<Rightarrow> blockchain chain_result" where
  "remove_mempool_at idx s =
     (if idx < length (bc_mempool s)
      then Ok (s\<lparr>bc_mempool := take idx (bc_mempool s) @ drop (Suc idx) (bc_mempool s),
                 bc_utxos := unmark_transaction_utxos (snd (bc_mempool s ! idx)) (bc_utxos s)\<rparr>)
      else Panic)"

text \<open>
  The stable sort by descending fee, an erroring fee counting as zero.  The comparator is called
  only when there are two entries to compare, and then on every entry.
\<close>

definition fee_or_zero :: "utxo_set \<Rightarrow> instant \<times> transaction \<Rightarrow> u64" where
  "fee_or_zero utxos e = (case transaction_fee utxos (snd e) of Ok f \<Rightarrow> f | _ \<Rightarrow> 0)"

definition sort_mempool ::
  "utxo_set \<Rightarrow> (instant \<times> transaction) list \<Rightarrow> (instant \<times> transaction) list chain_result" where
  "sort_mempool utxos mp =
     (if 2 \<le> length mp \<and> (\<exists>e \<in> set mp. transaction_fee utxos (snd e) = Panic) then Panic
      else Ok (sort_key (\<lambda>e. - int (unat (fee_or_zero utxos e))) mp))"

definition admit_to_mempool :: "instant \<Rightarrow> transaction \<Rightarrow> blockchain \<Rightarrow> unit chain_result \<times> blockchain" where
  "admit_to_mempool now tx s =
     (let s' = s\<lparr>bc_utxos := mark_transaction_utxos tx (bc_utxos s),
                 bc_mempool := bc_mempool s @ [(now, tx)]\<rparr>
      in case sort_mempool (bc_utxos s') (bc_mempool s') of
           Ok mp \<Rightarrow> (Ok (), s'\<lparr>bc_mempool := mp\<rparr>)
         | Err e \<Rightarrow> (Err e, s')
         | Panic \<Rightarrow> (Panic, s')
         | Cutoff \<Rightarrow> (Cutoff, s'))"

text \<open>The conservation check made once the conflicting entries are gone.\<close>

definition mempool_conserves :: "utxo_set \<Rightarrow> transaction \<Rightarrow> unit chain_result" where
  "mempool_conserves utxos tx =
     obind (expect_input_values utxos (tx_inputs tx) 0) (\<lambda>all_inputs.
     obind (ok_or InvalidTransaction (checked_sum 0 (map txo_value (tx_outputs tx)))) (\<lambda>all_outputs.
       if all_inputs < all_outputs then Err InvalidTransaction else Ok ()))"

definition add_to_mempool ::
  "prims \<Rightarrow> instant \<Rightarrow> transaction \<Rightarrow> blockchain \<Rightarrow> unit chain_result \<times> blockchain" where
  "add_to_mempool P now tx s0 =
     (let s = cleanup_mempool now s0
      in with_check (mempool_check_inputs P (bc_utxos s) (tx_outputs tx) (tx_inputs tx) {}) s (\<lambda>_.
         with_check (transaction_fee (bc_utxos s) tx) s (\<lambda>new_fee.
         with_step (mempool_conflicts new_fee (tx_inputs tx) [] s) (\<lambda>conflicting s1.
         with_check (ofold remove_mempool_at (rev (sort (remdups conflicting))) s1) s1 (\<lambda>s2.
         with_check (mempool_conserves (bc_utxos s2) tx) s2 (\<lambda>_.
           admit_to_mempool now tx s2))))))"

fun fill_template :: "prims \<Rightarrow> (instant \<times> transaction) list \<Rightarrow> nat \<Rightarrow> transaction list" where
  "fill_template P [] total_bytes = []"
| "fill_template P ((_, tx) # es) total_bytes =
     (let size = transaction_serialized_size P tx
      in if total_bytes + size > BLOCK_BYTE_CAP then fill_template P es total_bytes
         else tx # fill_template P es (total_bytes + size))"

definition tip_hash :: "blockchain \<Rightarrow> hash" where
  "tip_hash s = (if bc_active_chain s = [] then hash_zero else last (bc_active_chain s))"

definition create_block_template ::
  "prims \<Rightarrow> instant \<Rightarrow> uuid \<Rightarrow> public_key \<Rightarrow> blockchain \<Rightarrow> block chain_result" where
  "create_block_template P now fresh pubkey s =
     (let txs = fill_template P (bc_mempool s) 0
      in obind (calculate_miner_fees_for_transactions txs (bc_utxos s)) (\<lambda>miner_fees.
         obind (expect (checked_add (calculate_block_reward s) miner_fees)) (\<lambda>value.
         let all = \<lparr>tx_inputs = [],
                    tx_outputs = [\<lparr>txo_value = value, txo_unique_id = fresh, txo_pubkey = pubkey\<rparr>]\<rparr> # txs
         in obind (merkle_root_calculate P all) (\<lambda>root.
            Ok \<lparr>blk_header = \<lparr>bh_timestamp = now, bh_nonce = 0, bh_prev_block_hash = tip_hash s,
                               bh_merkle_root = root, bh_target = bc_target s\<rparr>,
                blk_transactions = all\<rparr>))))"

subsection \<open>Reading chains out of the block map\<close>

fun lookup_blocks :: "(hash, block) bmap \<Rightarrow> hash list \<Rightarrow> block list chain_result" where
  "lookup_blocks blocks [] = Ok []"
| "lookup_blocks blocks (h # hs) =
     obind (expect (bm_get blocks h)) (\<lambda>b. obind (lookup_blocks blocks hs) (\<lambda>bs. Ok (b # bs)))"

definition blocks_of :: "blockchain \<Rightarrow> block list chain_result" where
  "blocks_of s = lookup_blocks (bc_blocks s) (bc_active_chain s)"

definition get_block :: "blockchain \<Rightarrow> hash \<Rightarrow> block option" where
  "get_block s h = bm_get (bc_blocks s) h"

fun work_fold :: "block list \<Rightarrow> u256 \<Rightarrow> u256 chain_result" where
  "work_fold [] acc = Ok acc"
| "work_fold (b # bs) acc =
     obind (block_header_work (blk_header b)) (\<lambda>w. work_fold bs (saturating_add acc w))"

definition work_of_chain :: "(hash, block) bmap \<Rightarrow> hash list \<Rightarrow> u256 chain_result" where
  "work_of_chain blocks chain = obind (lookup_blocks blocks chain) (\<lambda>bs. work_fold bs 0)"

definition chain_work :: "blockchain \<Rightarrow> u256 chain_result" where
  "chain_work s = work_of_chain (bc_blocks s) (bc_active_chain s)"

definition apply_transaction :: "prims \<Rightarrow> transaction \<Rightarrow> utxo_set \<Rightarrow> utxo_set" where
  "apply_transaction P tx utxos =
     fold (\<lambda>o'. bm_insert (output_hash P o') (False, o')) (tx_outputs tx)
       (fold bm_remove (spent_hashes tx) utxos)"

definition apply_transactions :: "prims \<Rightarrow> transaction list \<Rightarrow> utxo_set \<Rightarrow> utxo_set" where
  "apply_transactions P = fold (apply_transaction P)"

definition replay_blocks :: "prims \<Rightarrow> block list \<Rightarrow> utxo_set" where
  "replay_blocks P bs = fold (\<lambda>b. apply_transactions P (blk_transactions b)) bs []"

definition replay_utxos :: "prims \<Rightarrow> (hash, block) bmap \<Rightarrow> hash list \<Rightarrow> utxo_set chain_result" where
  "replay_utxos P blocks chain = obind (lookup_blocks blocks chain) (\<lambda>bs. Ok (replay_blocks P bs))"

subsection \<open>Difficulty\<close>

definition TARGET_SECONDS :: nat where
  "TARGET_SECONDS = IDEAL_BLOCK_TIME * DIFFICULTY_UPDATE_INTERVAL"

definition adjust_target :: "prims \<Rightarrow> u256 \<Rightarrow> instant \<Rightarrow> instant \<Rightarrow> u256 chain_result" where
  "adjust_target P current_target start_time end_time =
     (let time_diff_seconds = nat (max (num_seconds (end_time - start_time)) 1);
          clamped = min (max time_diff_seconds (TARGET_SECONDS div 4)) (TARGET_SECONDS * 4);
          new_target = decimal_scale P (unat current_target) clamped TARGET_SECONDS
      in if new_target < 2 ^ 256 then Ok (min (of_nat new_target) MIN_TARGET) else Panic)"

definition block_time :: "block \<Rightarrow> instant" where
  "block_time b = bh_timestamp (blk_header b)"

text \<open>The two timestamps bounding the window that ends at \<open>height\<close>.\<close>

definition window_times ::
  "(hash, block) bmap \<Rightarrow> hash list \<Rightarrow> nat \<Rightarrow> (instant \<times> instant) chain_result" where
  "window_times blocks chain height =
     obind (expect (bm_get blocks (chain ! (height - DIFFICULTY_UPDATE_INTERVAL)))) (\<lambda>a.
     obind (expect (bm_get blocks (chain ! (height - 1)))) (\<lambda>b.
       Ok (block_time a, block_time b)))"

function retarget_loop ::
  "prims \<Rightarrow> (hash, block) bmap \<Rightarrow> hash list \<Rightarrow> nat \<Rightarrow> u256 \<Rightarrow> u256 chain_result" where
  "retarget_loop P blocks chain height target =
     (if height \<le> length chain
      then obind (window_times blocks chain height) (\<lambda>(start_time, end_time).
           obind (adjust_target P target start_time end_time)
             (retarget_loop P blocks chain (height + DIFFICULTY_UPDATE_INTERVAL)))
      else Ok target)"
  by pat_completeness auto
termination
  by (relation "measure (\<lambda>(P, blocks, chain, height, target). Suc (length chain) - height)")
    (auto simp: DIFFICULTY_UPDATE_INTERVAL_def)

declare retarget_loop.simps [simp del]

definition recompute_target_for_chain ::
  "prims \<Rightarrow> (hash, block) bmap \<Rightarrow> hash list \<Rightarrow> u256 chain_result" where
  "recompute_target_for_chain P blocks chain =
     retarget_loop P blocks chain DIFFICULTY_UPDATE_INTERVAL MIN_TARGET"

definition try_adjust_target :: "prims \<Rightarrow> blockchain \<Rightarrow> u256 chain_result" where
  "try_adjust_target P s =
     (let chain = bc_active_chain s; height = length chain
      in if chain = [] then Ok (bc_target s)
         else if height mod DIFFICULTY_UPDATE_INTERVAL \<noteq> 0 then Ok (bc_target s)
         else obind (window_times (bc_blocks s) chain height) (\<lambda>(start_time, end_time).
                adjust_target P (bc_target s) start_time end_time))"

subsection \<open>Fork points and pruning\<close>

definition active_chain_index :: "hash list \<Rightarrow> (hash, nat) bmap" where
  "active_chain_index chain = fold (\<lambda>(i, h). bm_insert h i) (enumerate 0 chain) []"

fun trace_loop ::
  "nat \<Rightarrow> (hash, block) bmap \<Rightarrow> (hash, nat) bmap \<Rightarrow> hash \<Rightarrow> hash list \<Rightarrow> (nat \<times> hash list) chain_result" where
  "trace_loop 0 blocks index current branch = Cutoff"
| "trace_loop (Suc fuel) blocks index current branch =
     (case bm_get index current of
        Some idx \<Rightarrow> Ok (idx + 1, branch)
      | None \<Rightarrow>
          obind (expect (bm_get blocks current)) (\<lambda>b.
            let prev = bh_prev_block_hash (blk_header b)
            in if prev = hash_zero then Ok (0, current # branch)
               else trace_loop fuel blocks index prev (current # branch)))"

definition trace_branch_with_index ::
  "(hash, block) bmap \<Rightarrow> hash \<Rightarrow> (hash, nat) bmap \<Rightarrow> (nat \<times> hash list) option chain_result" where
  "trace_branch_with_index blocks h index =
     (if h = hash_zero then Ok None
      else obind (trace_loop (Suc (length blocks)) blocks index h []) (\<lambda>r. Ok (Some r)))"

definition trace_branch :: "blockchain \<Rightarrow> hash \<Rightarrow> (nat \<times> hash list) option chain_result" where
  "trace_branch s h =
     trace_branch_with_index (bc_blocks s) h (active_chain_index (bc_active_chain s))"

fun prunable_loop ::
  "(hash, block) bmap \<Rightarrow> (hash, nat) bmap \<Rightarrow> nat \<Rightarrow> nat \<Rightarrow> hash list \<Rightarrow> hash list chain_result" where
  "prunable_loop blocks index len keep_depth [] = Ok []"
| "prunable_loop blocks index len keep_depth (h # hs) =
     (if bm_contains h index then prunable_loop blocks index len keep_depth hs
      else obind (trace_branch_with_index blocks h index) (\<lambda>t.
           obind (prunable_loop blocks index len keep_depth hs) (\<lambda>rest.
             case t of
               None \<Rightarrow> Ok rest
             | Some (fork_index, _) \<Rightarrow>
                 Ok (if len - fork_index > keep_depth then h # rest else rest))))"

definition prunable_side_blocks :: "prims \<Rightarrow> blockchain \<Rightarrow> nat \<Rightarrow> hash list chain_result" where
  "prunable_side_blocks P s keep_depth =
     prunable_loop (bc_blocks s) (active_chain_index (bc_active_chain s))
       (length (bc_active_chain s)) keep_depth (hash_iter P (bm_keys (bc_blocks s)))"

definition prune_side_blocks :: "prims \<Rightarrow> nat \<Rightarrow> blockchain \<Rightarrow> unit chain_result \<times> blockchain" where
  "prune_side_blocks P keep_depth s =
     with_check (prunable_side_blocks P s keep_depth) s (\<lambda>prunable.
       (Ok (), s\<lparr>bc_blocks := fold bm_remove prunable (bc_blocks s),
                 bc_pending_prunes := bc_pending_prunes s @ prunable\<rparr>))"

definition take_pruned_hashes :: "blockchain \<Rightarrow> hash list \<times> blockchain" where
  "take_pruned_hashes s = (bc_pending_prunes s, s\<lparr>bc_pending_prunes := []\<rparr>)"

subsection \<open>Applying blocks\<close>

definition evict_stale_mempool_entries ::
  "prims \<Rightarrow> instant \<Rightarrow> hash set \<Rightarrow> blockchain \<Rightarrow> blockchain" where
  "evict_stale_mempool_entries P now confirmed s0 =
     (let s = cleanup_mempool now s0
      in s\<lparr>bc_mempool := filter (\<lambda>(_, tx). transaction_hash P tx \<notin> confirmed \<and>
              list_all (\<lambda>h. bm_contains h (bc_utxos s)) (spent_hashes tx)) (bc_mempool s)\<rparr>)"

definition apply_block :: "prims \<Rightarrow> instant \<Rightarrow> block \<Rightarrow> blockchain \<Rightarrow> blockchain" where
  "apply_block P now b s =
     evict_stale_mempool_entries P now (set (map (transaction_hash P) (blk_transactions b)))
       (s\<lparr>bc_utxos := apply_transactions P (blk_transactions b) (bc_utxos s)\<rparr>)"

definition rebuild_utxos :: "prims \<Rightarrow> blockchain \<Rightarrow> blockchain chain_result" where
  "rebuild_utxos P s =
     obind (replay_utxos P (bc_blocks s) (bc_active_chain s)) (\<lambda>u. Ok (s\<lparr>bc_utxos := u\<rparr>))"

definition sync_mempool_with_active_chain ::
  "prims \<Rightarrow> instant \<Rightarrow> blockchain \<Rightarrow> blockchain chain_result" where
  "sync_mempool_with_active_chain P now s =
     obind (blocks_of s) (\<lambda>bs.
     let confirmed = set (map (transaction_hash P) (concat (map blk_transactions bs)))
     in obind (rebuild_utxos P s) (\<lambda>s1.
        let s2 = evict_stale_mempool_entries P now confirmed s1
        in Ok (s2\<lparr>bc_utxos := fold (\<lambda>e. mark_transaction_utxos (snd e)) (bc_mempool s2) (bc_utxos s2)\<rparr>)))"

text \<open>Displaced transactions rejoin on a best-effort basis: errors are dropped, a panic is not.\<close>

fun readmit :: "prims \<Rightarrow> instant \<Rightarrow> transaction list \<Rightarrow> blockchain \<Rightarrow> unit chain_result \<times> blockchain" where
  "readmit P now [] s = (Ok (), s)"
| "readmit P now (tx # txs) s =
     (case add_to_mempool P now tx s of
        (Panic, s') \<Rightarrow> (Panic, s')
      | (Cutoff, s') \<Rightarrow> (Cutoff, s')
      | (_, s') \<Rightarrow> readmit P now txs s')"

definition reorg_to ::
  "prims \<Rightarrow> instant \<Rightarrow> nat \<Rightarrow> hash list \<Rightarrow> blockchain \<Rightarrow> unit chain_result \<times> blockchain" where
  "reorg_to P now fork_index new_chain s =
     (if length (bc_active_chain s) < fork_index then (Panic, s)
      else
        with_check (lookup_blocks (bc_blocks s) (drop fork_index (bc_active_chain s))) s (\<lambda>old.
        let displaced = concat (map (tl \<circ> blk_transactions) old);
            s1 = s\<lparr>bc_active_chain := new_chain\<rparr>
        in with_check (recompute_target_for_chain P (bc_blocks s1) new_chain) s1 (\<lambda>t.
           with_check (sync_mempool_with_active_chain P now (s1\<lparr>bc_target := t\<rparr>)) (s1\<lparr>bc_target := t\<rparr>) (\<lambda>s2.
             readmit P now displaced s2))))"

subsection \<open>Accepting blocks\<close>

definition check_block_size :: "prims \<Rightarrow> block \<Rightarrow> unit chain_result" where
  "check_block_size P b =
     (if sum_list (map (transaction_serialized_size P) (tl (blk_transactions b))) > BLOCK_BYTE_CAP
      then Err InvalidBlock else Ok ())"

definition check_timestamp :: "instant \<Rightarrow> blockchain \<Rightarrow> instant \<Rightarrow> unit chain_result" where
  "check_timestamp now s timestamp =
     (if timestamp > now + bc_time_offset s + seconds MAX_FUTURE_BLOCK_DRIFT_SECONDS
      then Err InvalidBlock else Ok ())"

definition check_merkle :: "prims \<Rightarrow> block \<Rightarrow> unit chain_result" where
  "check_merkle P b =
     obind (merkle_root_calculate P (blk_transactions b)) (\<lambda>root.
       if root \<noteq> bh_merkle_root (blk_header b) then Err InvalidMerkleRoot else Ok ())"

definition check_extends_tip :: "prims \<Rightarrow> instant \<Rightarrow> blockchain \<Rightarrow> block \<Rightarrow> unit chain_result" where
  "check_extends_tip P now s b =
     (let hdr = blk_header b
      in obind (if bc_active_chain s = []
                then obind (genesis_hash P) (\<lambda>g. if block_hash P b \<noteq> g then Err InvalidBlock else Ok ())
                else Ok ()) (\<lambda>_.
         if bh_target hdr \<noteq> bc_target s then Err InvalidBlock
         else if \<not> matches_target (header_hash P hdr) (bh_target hdr) then Err InvalidBlock
         else obind (check_block_size P b) (\<lambda>_.
              obind (check_timestamp now s (bh_timestamp hdr)) (\<lambda>_.
              obind (check_merkle P b) (\<lambda>_.
              obind (if bc_active_chain s = [] then Ok ()
                     else obind (expect (bm_get (bc_blocks s) (last (bc_active_chain s)))) (\<lambda>last_block.
                          if bh_timestamp hdr \<le> block_time last_block then Err InvalidBlock else Ok ())) (\<lambda>_.
                verify_transactions P b (block_height s) (bc_utxos s)))))))"

definition add_block_extending_tip ::
  "prims \<Rightarrow> instant \<Rightarrow> block \<Rightarrow> blockchain \<Rightarrow> hash chain_result \<times> blockchain" where
  "add_block_extending_tip P now b s =
     with_check (check_extends_tip P now s b) s (\<lambda>_.
     let s1 = apply_block P now b s;
         h = block_hash P b;
         s2 = s1\<lparr>bc_blocks := bm_insert h b (bc_blocks s1),
                 bc_active_chain := bc_active_chain s1 @ [h]\<rparr>
     in with_check (try_adjust_target P s2) s2 (\<lambda>t.
        let s3 = s2\<lparr>bc_target := t\<rparr>
        in if length (bc_active_chain s3) mod DIFFICULTY_UPDATE_INTERVAL = 0
           then with_step (prune_side_blocks P SIDE_BRANCH_PRUNE_DEPTH s3) (\<lambda>_ s4. (Ok h, s4))
           else (Ok h, s3)))"

definition buffer_orphan :: "prims \<Rightarrow> block \<Rightarrow> blockchain \<Rightarrow> hash chain_result \<times> blockchain" where
  "buffer_orphan P b s =
     (if length (bc_orphans s) \<ge> MAX_ORPHAN_BLOCKS then (Err OrphanBlock, s)
      else (Err OrphanBlock, s\<lparr>bc_orphans := bm_insert (block_hash P b) b (bc_orphans s)\<rparr>))"

text \<open>The checks of the slow path, on the chain from genesis to the block's parent.\<close>

definition check_side_block ::
  "prims \<Rightarrow> instant \<Rightarrow> blockchain \<Rightarrow> hash list \<Rightarrow> block \<Rightarrow> unit chain_result" where
  "check_side_block P now s candidate b =
     (let hdr = blk_header b
      in obind (recompute_target_for_chain P (bc_blocks s) candidate) (\<lambda>expected.
         if bh_target hdr \<noteq> expected then Err InvalidBlock
         else if \<not> matches_target (header_hash P hdr) (bh_target hdr) then Err InvalidBlock
         else obind (check_block_size P b) (\<lambda>_.
              obind (check_timestamp now s (bh_timestamp hdr)) (\<lambda>_.
              obind (if candidate = [] then Ok ()
                     else obind (expect (bm_get (bc_blocks s) (last candidate))) (\<lambda>parent_block.
                          obind (check_merkle P b) (\<lambda>_.
                          if bh_timestamp hdr \<le> block_time parent_block then Err InvalidBlock else Ok ()))) (\<lambda>_.
              obind (replay_utxos P (bc_blocks s) candidate) (\<lambda>utxos_at_parent.
                verify_transactions P b (of_nat (length candidate)) utxos_at_parent))))))"

definition add_block_off_tip ::
  "prims \<Rightarrow> instant \<Rightarrow> block \<Rightarrow> blockchain \<Rightarrow> hash chain_result \<times> blockchain" where
  "add_block_off_tip P now b s =
     (let parent = bh_prev_block_hash (blk_header b)
      in if parent = hash_zero then (Err InvalidBlock, s)
         else if \<not> bm_contains parent (bc_blocks s) then buffer_orphan P b s
         else
           with_check (obind (trace_branch s parent) expect) s (\<lambda>(fork_index, parent_branch).
           if length (bc_active_chain s) < fork_index then (Panic, s)
           else let candidate = take fork_index (bc_active_chain s) @ parent_branch
             in with_check (check_side_block P now s candidate b) s (\<lambda>_.
                let h = block_hash P b;
                    s1 = s\<lparr>bc_blocks := bm_insert h b (bc_blocks s)\<rparr>;
                    chain = candidate @ [h]
                in with_check (work_of_chain (bc_blocks s1) chain) s1 (\<lambda>w.
                   with_check (chain_work s1) s1 (\<lambda>w0.
                     if w > w0 then with_step (reorg_to P now fork_index chain s1) (\<lambda>_ s2. (Ok h, s2))
                     else (Ok h, s1))))))"

text \<open>
  \<open>add_block\<close> and \<open>try_attach_orphans\<close> call each other.  The loop over the ready orphans takes
  the recursive call as its argument; an orphan that is refused is dropped.
\<close>

definition ready_orphans :: "prims \<Rightarrow> hash \<Rightarrow> blockchain \<Rightarrow> block list" where
  "ready_orphans P parent s =
     filter (\<lambda>b. bh_prev_block_hash (blk_header b) = parent)
       (List.map_filter (bm_get (bc_orphans s)) (hash_iter P (bm_keys (bc_orphans s))))"

fun attach_loop ::
  "(block \<Rightarrow> blockchain \<Rightarrow> unit chain_result \<times> blockchain) \<Rightarrow> prims \<Rightarrow> block list \<Rightarrow> blockchain
     \<Rightarrow> unit chain_result \<times> blockchain" where
  "attach_loop add P [] s = (Ok (), s)"
| "attach_loop add P (b # bs) s =
     (case add b (s\<lparr>bc_orphans := bm_remove (block_hash P b) (bc_orphans s)\<rparr>) of
        (Panic, s') \<Rightarrow> (Panic, s')
      | (Cutoff, s') \<Rightarrow> (Cutoff, s')
      | (_, s') \<Rightarrow> attach_loop add P bs s')"

definition add_block_once ::
  "prims \<Rightarrow> instant \<Rightarrow> block \<Rightarrow> blockchain \<Rightarrow> hash chain_result \<times> blockchain" where
  "add_block_once P now b s =
     (if bh_prev_block_hash (blk_header b) = tip_hash s then add_block_extending_tip P now b s
      else add_block_off_tip P now b s)"

fun add_block_fuel ::
  "nat \<Rightarrow> prims \<Rightarrow> instant \<Rightarrow> block \<Rightarrow> blockchain \<Rightarrow> unit chain_result \<times> blockchain" where
  "add_block_fuel 0 P now b s = (Cutoff, s)"
| "add_block_fuel (Suc fuel) P now b s =
     with_step (add_block_once P now b s) (\<lambda>h s1.
       attach_loop (add_block_fuel fuel P now) P (ready_orphans P h s1) s1)"

definition try_attach_orphans ::
  "nat \<Rightarrow> prims \<Rightarrow> instant \<Rightarrow> hash \<Rightarrow> blockchain \<Rightarrow> unit chain_result \<times> blockchain" where
  "try_attach_orphans fuel P now h s =
     attach_loop (add_block_fuel fuel P now) P (ready_orphans P h s) s"

definition add_block :: "prims \<Rightarrow> instant \<Rightarrow> block \<Rightarrow> blockchain \<Rightarrow> unit chain_result \<times> blockchain" where
  "add_block P now b s = add_block_fuel (Suc (length (bc_orphans s))) P now b s"

end
