(* ===== verification/Chain_Ledger.thy ===== *)
theory Chain_Ledger
  imports Chain_State
begin

text \<open>
  The abstract ledger the chain implements: lists of blocks from genesis to a tip.
  \<open>valid_chain\<close> says what a chain of the network is, without any block map, mempool, mark or
  incremental state; \<open>recompute_target\<close>, \<open>replay_blocks\<close> and \<open>work_fold\<close> give the target, the
  unspent outputs and the work such a chain implies.  The supply bound is a theorem about it.
\<close>

subsection \<open>Unspent outputs without their marks\<close>

definition strip :: "utxo_set \<Rightarrow> utxo_set" where
  "strip u = map (\<lambda>(h, _, o'). (h, False, o')) u"

definition coin_value :: "bool \<times> transaction_output \<Rightarrow> nat" where
  "coin_value c = unat (txo_value (snd c))"

abbreviation utxo_total :: "utxo_set \<Rightarrow> nat" where
  "utxo_total u \<equiv> bm_total coin_value u"

lemma strip_keys: "map fst (strip u) = map fst u"
  by (simp add: strip_def case_prod_beta)

lemma bm_wf_strip [simp]: "bm_wf (strip u) = bm_wf u"
  by (simp add: bm_wf_def strip_keys)

lemma bm_get_strip [simp]: "bm_get (strip u) h = map_option (\<lambda>(_, o'). (False, o')) (bm_get u h)"
  by (induction u) (auto simp: strip_def bm_get_def)

lemma bm_contains_strip [simp]: "bm_contains h (strip u) = bm_contains h u"
  by (simp add: bm_contains_def)

lemma strip_insert [simp]: "bm_wf u \<Longrightarrow> strip (bm_insert h (m, o') u) = bm_insert h (False, o') (strip u)"
  by (rule bm_ext) auto

lemma strip_remove [simp]: "bm_wf u \<Longrightarrow> strip (bm_remove h u) = bm_remove h (strip u)"
  by (rule bm_ext) auto

lemma bm_wf_set_mark [simp]: "bm_wf (set_mark m h u) = bm_wf u"
  by (simp add: set_mark_def)

lemma strip_set_mark [simp]: "bm_wf u \<Longrightarrow> strip (set_mark m h u) = strip u"
  by (rule bm_ext) (auto simp: set_mark_def option.map_comp o_def case_prod_unfold)

lemma fold_set_mark [simp]:
  "bm_wf (fold (set_mark m) hs u) = bm_wf u"
  "bm_wf u \<Longrightarrow> strip (fold (set_mark m) hs u) = strip u"
  by (induction hs arbitrary: u) auto

lemma strip_eq_contains: "strip u = strip v \<Longrightarrow> bm_contains h u = bm_contains h v"
  by (metis bm_contains_strip)

lemma utxo_value_strip: "utxo_value (strip u) h = utxo_value u h"
  by (auto simp: utxo_value_def split: option.splits)

lemma utxo_value_coin: "utxo_value u h = (case bm_get u h of None \<Rightarrow> 0 | Some c \<Rightarrow> coin_value c)"
  by (auto simp: utxo_value_def coin_value_def split: option.splits)

lemma utxo_total_strip: "utxo_total (strip u) = utxo_total u"
  by (induction u) (auto simp: strip_def bm_total_def coin_value_def)

text \<open>Verification reads only the outputs.\<close>

lemma verify_inputs_strip: "verify_inputs P (strip u) outs is used = verify_inputs P u outs is used"
proof (induction "is" arbitrary: used)
  case (Cons i "is")
  then show ?case
    by (intro ext) (auto simp: Cons.IH split: prod.splits option.splits)
qed auto

lemma sum_input_values_strip: "sum_input_values (strip u) is = sum_input_values u is"
proof (induction "is")
  case (Cons i "is")
  then show ?case by (intro ext) (auto split: prod.splits option.splits)
qed auto

lemma verify_spends_strip: "verify_spends P (strip u) txs = verify_spends P u txs"
  by (induction txs) (auto simp: verify_inputs_strip fun_eq_iff cong: if_cong)

lemma miner_fees_loop_strip: "miner_fees_loop (strip u) txs = miner_fees_loop u txs"
  by (induction txs) (auto simp: sum_input_values_strip cong: if_cong)

lemma verify_transactions_strip: "verify_transactions P b h (strip u) = verify_transactions P b h u"
  by (simp add: verify_transactions_def verify_coinbase_transaction_def calculate_miner_fees_def
      calculate_miner_fees_for_transactions_def miner_fees_loop_strip verify_spends_strip
      split: list.splits)

subsection \<open>Applying transactions\<close>

lemma bm_wf_apply_transaction [simp]: "bm_wf u \<Longrightarrow> bm_wf (apply_transaction P tx u)"
  by (simp add: apply_transaction_def bm.wf_fold_ins bm.wf_fold_rem)

lemma bm_wf_apply_transactions [simp]: "bm_wf u \<Longrightarrow> bm_wf (apply_transactions P txs u)"
  unfolding apply_transactions_def by (induction txs arbitrary: u) auto

lemma strip_fold_remove [simp]: "bm_wf u \<Longrightarrow> strip (fold bm_remove hs u) = fold bm_remove hs (strip u)"
  by (induction hs arbitrary: u) auto

lemma strip_fold_insert [simp]:
  "bm_wf u \<Longrightarrow> strip (fold (\<lambda>o'. bm_insert (output_hash P o') (False, o')) outs u)
            = fold (\<lambda>o'. bm_insert (output_hash P o') (False, o')) outs (strip u)"
  by (induction outs arbitrary: u) auto

lemma strip_apply_transactions:
  "bm_wf u \<Longrightarrow> strip (apply_transactions P txs u) = apply_transactions P txs (strip u)"
  unfolding apply_transactions_def
  by (induction txs arbitrary: u) (simp_all add: apply_transaction_def bm.wf_fold_rem bm.wf_fold_ins)

lemma replay_blocks_snoc:
  "replay_blocks P (bs @ [b]) = apply_transactions P (blk_transactions b) (replay_blocks P bs)"
  by (simp add: replay_blocks_def)

lemma bm_wf_replay [simp]: "bm_wf (replay_blocks P bs)"
  by (induction bs rule: rev_induct) (simp_all add: replay_blocks_snoc, simp add: replay_blocks_def)

lemma strip_replay [simp]: "strip (replay_blocks P bs) = replay_blocks P bs"
  by (induction bs rule: rev_induct)
    (simp_all add: replay_blocks_snoc strip_apply_transactions, simp add: replay_blocks_def strip_def)

text \<open>Total value: inserting after removing never counts a removed coin.\<close>

lemma total_remove_after_insert:
  assumes "bm_wf m"
  shows "bm_total f (fold bm_remove ks (bm_insert k v m)) \<le> bm_total f (fold bm_remove ks m) + f v"
proof (cases "k \<in> set ks")
  case True
  then have "fold bm_remove ks (bm_insert k v m) = fold bm_remove ks m"
    using assms by (intro bm_ext) (auto simp: bm.wf_fold_rem bm.get_fold_rem)
  then show ?thesis by simp
next
  case False
  then have "fold bm_remove ks (bm_insert k v m) = bm_insert k v (fold bm_remove ks m)"
    using assms by (intro bm_ext) (auto simp: bm.wf_fold_rem bm.get_fold_rem)
  then show ?thesis using assms by (simp add: bm_total_insert_le bm.wf_fold_rem)
qed

lemma total_remove_after_outputs:
  assumes "bm_wf m"
  shows "utxo_total (fold bm_remove ks (fold (\<lambda>o'. bm_insert (output_hash P o') (False, o')) outs m))
       \<le> utxo_total (fold bm_remove ks m) + sum_list (map (unat \<circ> txo_value) outs)"
  using assms
proof (induction outs arbitrary: m)
  case (Cons x outs)
  let ?m = "bm_insert (output_hash P x) (False, x) m"
  have "utxo_total (fold bm_remove ks (fold (\<lambda>o'. bm_insert (output_hash P o') (False, o')) outs ?m))
      \<le> utxo_total (fold bm_remove ks ?m) + sum_list (map (unat \<circ> txo_value) outs)"
    by (rule Cons.IH) (simp add: Cons.prems)
  moreover have "utxo_total (fold bm_remove ks ?m) \<le> utxo_total (fold bm_remove ks m) + unat (txo_value x)"
    using total_remove_after_insert [OF Cons.prems, of coin_value ks "output_hash P x" "(False, x)"]
    by (simp add: coin_value_def)
  ultimately show ?case by (simp add: o_def)
qed simp

lemma total_apply_transactions:
  assumes "bm_wf u"
  shows "utxo_total (apply_transactions P txs u)
       \<le> utxo_total (fold bm_remove (concat (map spent_hashes txs)) u) + sum_list (map out_total txs)"
  using assms
proof (induction txs arbitrary: u)
  case (Cons tx txs)
  let ?I = "concat (map spent_hashes txs)"
  have "utxo_total (apply_transactions P txs (apply_transaction P tx u))
      \<le> utxo_total (fold bm_remove ?I (apply_transaction P tx u)) + sum_list (map out_total txs)"
    by (rule Cons.IH) (simp add: Cons.prems)
  moreover have "utxo_total (fold bm_remove ?I (apply_transaction P tx u))
      \<le> utxo_total (fold bm_remove ?I (fold bm_remove (spent_hashes tx) u)) + out_total tx"
    unfolding apply_transaction_def out_total_def
    by (rule total_remove_after_outputs) (simp add: Cons.prems bm.wf_fold_rem)
  ultimately show ?case by (simp add: apply_transactions_def)
qed (simp add: apply_transactions_def)

lemma utxo_total_accepted_block:
  assumes "verify_transactions P b height u = Ok ()" "bm_wf u"
  shows "utxo_total (apply_transactions P (blk_transactions b) u)
       \<le> utxo_total u + unat (block_reward_at_height height)"
proof -
  from assms(1) obtain cb txs where b: "blk_transactions b = cb # txs" "tx_inputs cb = []"
    and d: "distinct (concat (map spent_hashes txs))"
    and bal: "out_total cb + sum_list (map out_total txs)
       = unat (block_reward_at_height height) + sum_list (map (in_total u) txs)"
    by (rule verify_transactions_Ok) blast
  let ?I = "concat (map spent_hashes txs)"
  have "sum_list (map (\<lambda>h. case bm_get u h of None \<Rightarrow> 0 | Some c \<Rightarrow> coin_value c) ?I)
      = sum_list (map (in_total u) txs)"
    by (induction txs) (auto simp: in_total_def utxo_value_coin o_def)
  then have "utxo_total (fold bm_remove ?I u) + sum_list (map (in_total u) txs) = utxo_total u"
    using bm.total_fold_rem [OF assms(2) d, of coin_value] by simp
  with total_apply_transactions [OF assms(2), of P "cb # txs"] b bal show ?thesis by simp
qed

subsection \<open>The target a chain implies\<close>

function retarget_times :: "prims \<Rightarrow> instant list \<Rightarrow> nat \<Rightarrow> u256 \<Rightarrow> u256 chain_result" where
  "retarget_times P ts height target =
     (if height \<le> length ts
      then obind (adjust_target P target (ts ! (height - DIFFICULTY_UPDATE_INTERVAL)) (ts ! (height - 1)))
             (retarget_times P ts (height + DIFFICULTY_UPDATE_INTERVAL))
      else Ok target)"
  by pat_completeness auto
termination
  by (relation "measure (\<lambda>(P, ts, height, target). Suc (length ts) - height)")
    (auto simp: DIFFICULTY_UPDATE_INTERVAL_def)

declare retarget_times.simps [simp del]

definition recompute_target :: "prims \<Rightarrow> block list \<Rightarrow> u256 chain_result" where
  "recompute_target P bs = retarget_times P (map block_time bs) DIFFICULTY_UPDATE_INTERVAL MIN_TARGET"

lemma lookup_blocks_Ok:
  "lookup_blocks blocks hs = Ok bs \<longleftrightarrow>
     length bs = length hs \<and> (\<forall>i < length hs. bm_get blocks (hs ! i) = Some (bs ! i))"
proof (induction hs arbitrary: bs)
  case (Cons h hs)
  show ?case
  proof (cases bs)
    case (Cons b bs')
    then show ?thesis
      using Cons.IH [of bs'] by (auto simp: outcome_simps nth_Cons split: nat.splits)
  qed (auto simp: outcome_simps)
qed auto

lemma retarget_loop_times:
  assumes "lookup_blocks blocks chain = Ok bs" "DIFFICULTY_UPDATE_INTERVAL \<le> height"
  shows "retarget_loop P blocks chain height t = retarget_times P (map block_time bs) height t"
  using assms
proof (induction P blocks chain height t rule: retarget_loop.induct)
  case (1 P blocks chain height t)
  note bs = "1.prems"(1) [unfolded lookup_blocks_Ok]
  show ?case
  proof (cases "height \<le> length chain")
    case True
    have i: "height - DIFFICULTY_UPDATE_INTERVAL < length chain" "height - 1 < length chain"
      using True "1.prems"(2) by (auto simp: DIFFICULTY_UPDATE_INTERVAL_def)
    then have w: "window_times blocks chain height
        = Ok (map block_time bs ! (height - DIFFICULTY_UPDATE_INTERVAL), map block_time bs ! (height - 1))"
      using bs by (simp add: window_times_def)
    show ?thesis
    proof (cases "adjust_target P t (map block_time bs ! (height - DIFFICULTY_UPDATE_INTERVAL))
                    (map block_time bs ! (height - 1))")
      case (Ok t')
      have "retarget_loop P blocks chain (height + DIFFICULTY_UPDATE_INTERVAL) t'
          = retarget_times P (map block_time bs) (height + DIFFICULTY_UPDATE_INTERVAL) t'"
        by (rule "1.IH" [OF True]) (use "1.prems" in simp_all)
      with True w Ok bs show ?thesis
        by (simp add: retarget_loop.simps [of P blocks chain height]
            retarget_times.simps [of P "map block_time bs" height])
    qed (use True w bs in \<open>simp_all add: retarget_loop.simps [of P blocks chain height]
            retarget_times.simps [of P "map block_time bs" height]\<close>)
  next
    case False
    with bs show ?thesis
      by (simp add: retarget_loop.simps [of P blocks chain height]
          retarget_times.simps [of P "map block_time bs" height])
  qed
qed

lemma recompute_target_for_chain_eq:
  "lookup_blocks blocks chain = Ok bs \<Longrightarrow> recompute_target_for_chain P blocks chain = recompute_target P bs"
  by (simp add: recompute_target_for_chain_def recompute_target_def retarget_loop_times)

text \<open>One more block changes the target only at the end of a window.\<close>

lemma retarget_times_snoc:
  assumes "DIFFICULTY_UPDATE_INTERVAL dvd height" "0 < height"
  shows "retarget_times P (ts @ [t]) height target =
     obind (retarget_times P ts height target) (\<lambda>g.
       if DIFFICULTY_UPDATE_INTERVAL dvd Suc (length ts) \<and> height \<le> Suc (length ts)
       then adjust_target P g ((ts @ [t]) ! (Suc (length ts) - DIFFICULTY_UPDATE_INTERVAL)) t
       else Ok g)"
  using assms
proof (induction P ts height target rule: retarget_times.induct)
  case (1 P ts height target)
  let ?D = "DIFFICULTY_UPDATE_INTERVAL"
  show ?case
  proof (cases "height \<le> length ts")
    case True
    have D: "0 < ?D" by (simp add: DIFFICULTY_UPDATE_INTERVAL_def)
    have nth: "(ts @ [t]) ! (height - ?D) = ts ! (height - ?D)" "(ts @ [t]) ! (height - 1) = ts ! (height - 1)"
      using True D "1.prems"(2) by (auto simp: nth_append)
    have next_le: "height + ?D \<le> Suc (length ts)" if "?D dvd Suc (length ts)"
    proof -
      obtain a b where ab: "height = ?D * a" "Suc (length ts) = ?D * b"
        using "1.prems"(1) \<open>?D dvd Suc (length ts)\<close> by (auto elim!: dvdE)
      then have "?D * a < ?D * b" using True by linarith
      then have "Suc a \<le> b" by simp
      then have "?D * Suc a \<le> ?D * b" by (rule mult_le_mono2)
      then show ?thesis using ab by simp
    qed
    show ?thesis
    proof (cases "adjust_target P target (ts ! (height - ?D)) (ts ! (height - 1))")
      case (Ok g)
      have "retarget_times P (ts @ [t]) (height + ?D) g =
         obind (retarget_times P ts (height + ?D) g) (\<lambda>g.
           if ?D dvd Suc (length ts) \<and> height + ?D \<le> Suc (length ts)
           then adjust_target P g ((ts @ [t]) ! (Suc (length ts) - ?D)) t else Ok g)"
        by (rule "1.IH" [OF True]) (use "1.prems" in simp_all)
      moreover have "(?D dvd Suc (length ts) \<and> height + ?D \<le> Suc (length ts))
          = (?D dvd Suc (length ts) \<and> height \<le> Suc (length ts))"
        using next_le by auto
      ultimately show ?thesis
        using True Ok nth
        by (simp add: retarget_times.simps [of P "ts @ [t]" height]
            retarget_times.simps [of P ts height])
    qed (use True nth in \<open>simp_all add: retarget_times.simps [of P "ts @ [t]" height]
            retarget_times.simps [of P ts height]\<close>)
  next
    case False
    show ?thesis
    proof (cases "height = Suc (length ts)")
      case True
      have last: "(ts @ [t]) ! (height - 1) = t" using True by simp
      have stop: "retarget_times P (ts @ [t]) (height + ?D) g = Ok g" for g
        using True by (subst retarget_times.simps) (simp add: DIFFICULTY_UPDATE_INTERVAL_def)
      then have "obind m (retarget_times P (ts @ [t]) (height + ?D)) = m" for m :: "u256 chain_result"
        by (cases m) auto
      with True False last "1.prems" show ?thesis
        by (simp add: retarget_times.simps [of P "ts @ [t]" "Suc (length ts)"]
            retarget_times.simps [of P ts "Suc (length ts)"])
    next
      case False
      with \<open>\<not> height \<le> length ts\<close> show ?thesis
        by (simp add: retarget_times.simps [of P "ts @ [t]" height] retarget_times.simps [of P ts height])
    qed
  qed
qed

lemma recompute_target_snoc:
  "recompute_target P (bs @ [b]) =
     obind (recompute_target P bs) (\<lambda>g.
       if Suc (length bs) mod DIFFICULTY_UPDATE_INTERVAL = 0
       then adjust_target P g (block_time ((bs @ [b]) ! (Suc (length bs) - DIFFICULTY_UPDATE_INTERVAL)))
              (block_time b)
       else Ok g)"
proof -
  let ?D = DIFFICULTY_UPDATE_INTERVAL
  have c: "(?D dvd Suc (length bs) \<and> ?D \<le> Suc (length bs)) = (Suc (length bs) mod ?D = 0)"
    by (auto simp: dvd_eq_mod_eq_0 [symmetric] intro: dvd_imp_le)
  have "Suc (length bs) - ?D < length (bs @ [b])"
    by (simp add: DIFFICULTY_UPDATE_INTERVAL_def)
  then have n: "(map block_time bs @ [block_time b]) ! (Suc (length bs) - ?D)
      = block_time ((bs @ [b]) ! (Suc (length bs) - ?D))"
    using nth_map [of "Suc (length bs) - ?D" "bs @ [b]" block_time] by simp
  have "0 < ?D" by (simp add: DIFFICULTY_UPDATE_INTERVAL_def)
  from retarget_times_snoc [of ?D P "map block_time bs" "block_time b" MIN_TARGET, OF dvd_refl this]
  show ?thesis by (simp only: recompute_target_def map_append list.map length_map c n)
qed

lemma adjust_target_le: "adjust_target P g a b = Ok t \<Longrightarrow> t \<le> MIN_TARGET"
  unfolding adjust_target_def Let_def
  by (simp only: outcome.inject outcome.distinct split: if_split_asm) (erule subst, rule min.cobounded2)

lemma recompute_target_le: "recompute_target P bs = Ok t \<Longrightarrow> t \<le> MIN_TARGET"
proof (induction bs arbitrary: t rule: rev_induct)
  case Nil
  then show ?case
    by (simp add: recompute_target_def retarget_times.simps DIFFICULTY_UPDATE_INTERVAL_def)
next
  case (snoc b bs)
  then show ?case
    by (auto simp: recompute_target_snoc outcome_simps split: if_splits dest: adjust_target_le)
qed

subsection \<open>Work\<close>

definition block_work :: "block \<Rightarrow> nat" where
  "block_work b = 2 ^ 256 div (unat (bh_target (blk_header b)) + 1)"

text \<open>Total work, saturating at the largest \<open>U256\<close>.\<close>

definition chain_weight :: "block list \<Rightarrow> nat" where
  "chain_weight bs = min (sum_list (map block_work bs)) (2 ^ 256 - 1)"

definition workable :: "block \<Rightarrow> bool" where
  "workable b \<longleftrightarrow> 0 < bh_target (blk_header b) \<and> bh_target (blk_header b) < - 1"

lemma work_fold_weight:
  assumes "\<forall>b \<in> set bs. workable b"
  shows "\<exists>w. work_fold bs acc = Ok w \<and> unat w = min (unat acc + sum_list (map block_work bs)) (2 ^ 256 - 1)"
  using assms
proof (induction bs arbitrary: acc)
  case Nil
  have "unat acc < 2 ^ LENGTH(256)" by (rule unsigned_less)
  then show ?case by simp
next
  case (Cons b bs)
  let ?t = "bh_target (blk_header b)"
  have t: "?t \<noteq> 0" "?t \<noteq> - 1" using Cons.prems by (auto simp: workable_def)
  have "block_work b < 2 ^ 256"
    unfolding block_work_def using t by (intro div_less_dividend) (auto simp: unat_gt_0)
  then have u: "unat (of_nat (block_work b) :: u256) = block_work b" by (simp add: unat_of_nat_less)
  have w: "block_header_work (blk_header b) = Ok (of_nat (block_work b))"
    using t by (simp add: block_header_work_def work_from_target_exact block_work_def)
  obtain v where v: "work_fold bs (saturating_add acc (of_nat (block_work b))) = Ok v"
    "unat v = min (unat (saturating_add acc (of_nat (block_work b))) + sum_list (map block_work bs)) (2 ^ 256 - 1)"
    using Cons by fastforce
  show ?case using v w by (auto simp: unat_saturating_add u)
qed

lemma work_fold_chain_weight:
  "\<forall>b \<in> set bs. workable b \<Longrightarrow> \<exists>w. work_fold bs 0 = Ok w \<and> unat w = chain_weight bs"
  using work_fold_weight [of bs 0] by (simp add: chain_weight_def)

lemma chain_weight_append: "chain_weight bs \<le> chain_weight (bs @ cs)"
  by (simp add: chain_weight_def)

subsection \<open>Valid chains\<close>

definition attaches :: "prims \<Rightarrow> block list \<Rightarrow> block \<Rightarrow> bool" where
  "attaches P bs b \<longleftrightarrow>
     (if bs = [] then bh_prev_block_hash (blk_header b) = hash_zero \<and> genesis_hash P = Ok (block_hash P b)
      else bh_prev_block_hash (blk_header b) = block_hash P (last bs) \<and> block_time (last bs) < block_time b)"

definition block_ok :: "prims \<Rightarrow> block list \<Rightarrow> block \<Rightarrow> bool" where
  "block_ok P bs b \<longleftrightarrow>
     recompute_target P bs = Ok (bh_target (blk_header b))
     \<and> matches_target (header_hash P (blk_header b)) (bh_target (blk_header b))
     \<and> check_block_size P b = Ok () \<and> check_merkle P b = Ok ()
     \<and> verify_transactions P b (of_nat (length bs)) (replay_blocks P bs) = Ok ()"

inductive valid_chain :: "prims \<Rightarrow> block list \<Rightarrow> bool" for P where
  valid_Nil: "valid_chain P []"
| valid_snoc: "valid_chain P bs \<Longrightarrow> attaches P bs b \<Longrightarrow> block_ok P bs b \<Longrightarrow> valid_chain P (bs @ [b])"

inductive_cases valid_chain_snocE: "valid_chain P (bs @ [b])"

declare valid_Nil [simp, intro]

lemma valid_chain_snoc: "valid_chain P (bs @ [b]) \<longleftrightarrow> valid_chain P bs \<and> attaches P bs b \<and> block_ok P bs b"
  by (auto intro: valid_snoc elim: valid_chain.cases)

lemma valid_chain_prefix: "valid_chain P (bs @ cs) \<Longrightarrow> valid_chain P bs"
  by (induction cs rule: rev_induct) (auto simp: valid_chain_snoc simp flip: append_assoc)

lemma valid_chain_times: "valid_chain P bs \<Longrightarrow> sorted_wrt (<) (map block_time bs)"
proof (induction rule: valid_chain.induct)
  case (valid_snoc bs b)
  have le: "block_time x \<le> block_time (last bs)" if x: "x \<in> set bs" for x
  proof -
    obtain ys z where bs: "bs = ys @ [z]" using x by (cases bs rule: rev_cases) auto
    with valid_snoc.IH x show ?thesis by (auto simp: sorted_wrt_append)
  qed
  from valid_snoc.hyps(2) le valid_snoc.IH show ?case
    by (cases "bs = []") (force simp: attaches_def sorted_wrt_append)+
qed simp

lemma valid_chain_distinct: "valid_chain P bs \<Longrightarrow> distinct bs"
  using valid_chain_times [of P bs] by (metis distinct_map strict_sorted_iff)

lemma chain_supply:
  assumes "valid_chain P bs" "length bs \<le> 2 ^ 64"
  shows "utxo_total (replay_blocks P bs) \<le> emission (length bs)
       \<and> utxo_total (replay_blocks P bs) \<le> 7875 * 10 ^ 10"
proof -
  have "utxo_total (replay_blocks P bs) \<le> emission (length bs)"
    using assms
  proof (induction rule: valid_chain.induct)
    case (valid_snoc bs b)
    have "utxo_total (replay_blocks P (bs @ [b]))
        \<le> utxo_total (replay_blocks P bs) + unat (block_reward_at_height (of_nat (length bs)))"
      unfolding replay_blocks_snoc
      by (rule utxo_total_accepted_block) (use valid_snoc.hyps(3) in \<open>auto simp: block_ok_def\<close>)
    with valid_snoc.IH valid_snoc.prems show ?case by (simp add: emission_Suc)
  qed (simp add: replay_blocks_def)
  with emission_le [OF assms(2)] show ?thesis by simp
qed

end
