(* ===== verification/Chain_Mempool.thy ===== *)
theory Chain_Mempool
  imports Chain_Ledger
begin

text \<open>
  The mempool (\<open>cleanup_mempool\<close>, \<open>add_to_mempool\<close> and their helpers).  Mempool operations touch
  only marks and entries; they cannot panic while every pending input is an existing output;
  and they keep the pending transactions conflict-free, each of their inputs marked.
\<close>

subsection \<open>Marks\<close>

definition marked :: "utxo_set \<Rightarrow> hash \<Rightarrow> bool" where
  "marked u h \<longleftrightarrow> (\<exists>o'. bm_get u h = Some (True, o'))"

lemma marked_contains: "marked u h \<Longrightarrow> bm_contains h u"
  by (auto simp: marked_def bm_contains_def)

lemma get_fold_set_mark:
  "bm_get (fold (set_mark m) hs u) k =
     (if k \<in> set hs then map_option (\<lambda>c. (m, snd c)) (bm_get u k) else bm_get u k)"
proof (induction hs arbitrary: u)
  case (Cons h hs)
  then show ?case
    by (auto simp: set_mark_def option.map_comp o_def case_prod_unfold)
qed simp

lemma contains_fold_set_mark [simp]: "bm_contains k (fold (set_mark m) hs u) = bm_contains k u"
  by (simp add: bm_contains_def get_fold_set_mark del: not_None_eq)

lemma contains_set_mark [simp]: "bm_contains k (set_mark m h u) = bm_contains k u"
  using contains_fold_set_mark [of k m "[h]" u] by simp

lemma marked_fold_unmark: "marked (fold (set_mark False) hs u) k \<longleftrightarrow> k \<notin> set hs \<and> marked u k"
  by (auto simp: marked_def get_fold_set_mark split: if_splits)

lemma marked_fold_mark: "marked (fold (set_mark True) hs u) k \<longleftrightarrow> marked u k \<or> k \<in> set hs \<and> bm_contains k u"
  by (auto simp: marked_def get_fold_set_mark bm_contains_def split: if_splits)

lemma marked_set_unmark: "marked (set_mark False h u) k \<longleftrightarrow> k \<noteq> h \<and> marked u k"
  using marked_fold_unmark [of "[h]" u k] by simp

lemmas mark_simps = mark_transaction_utxos_def unmark_transaction_utxos_def marked_fold_unmark
  marked_fold_mark marked_set_unmark

subsection \<open>Steps that only move marks and entries\<close>

definition mp_step :: "blockchain \<Rightarrow> blockchain \<Rightarrow> bool" where
  "mp_step s t \<longleftrightarrow>
     bc_target t = bc_target s \<and> bc_blocks t = bc_blocks s \<and> bc_active_chain t = bc_active_chain s
     \<and> bc_orphans t = bc_orphans s \<and> bc_pending_prunes t = bc_pending_prunes s
     \<and> bc_time_offset t = bc_time_offset s
     \<and> bm_wf (bc_utxos t) = bm_wf (bc_utxos s)
     \<and> (\<forall>h. map_option snd (bm_get (bc_utxos t) h) = map_option snd (bm_get (bc_utxos s) h))"

lemma mp_step_refl [simp]: "mp_step s s"
  by (simp add: mp_step_def)

lemma mp_step_trans: "mp_step s t \<Longrightarrow> mp_step t u \<Longrightarrow> mp_step s u"
  by (auto simp: mp_step_def)

lemma outputs_fold_set_mark [simp]:
  "map_option snd (bm_get (fold (set_mark m) hs u) h) = map_option snd (bm_get u h)"
  by (simp add: get_fold_set_mark option.map_comp o_def)

lemma outputs_set_mark [simp]: "map_option snd (bm_get (set_mark m k u) h) = map_option snd (bm_get u h)"
  using outputs_fold_set_mark [of m "[k]" u h] by simp

lemma mp_step_marks [simp]:
  "mp_step s (s\<lparr>bc_utxos := fold (set_mark m) hs (bc_utxos s)\<rparr>)"
  "mp_step s (s\<lparr>bc_utxos := fold (set_mark m) hs (bc_utxos s), bc_mempool := mp\<rparr>)"
  "mp_step s (s\<lparr>bc_mempool := mp, bc_utxos := fold (set_mark m) hs (bc_utxos s)\<rparr>)"
  "mp_step s (s\<lparr>bc_mempool := mp\<rparr>)"
  "mp_step s (s\<lparr>bc_utxos := set_mark m h (bc_utxos s)\<rparr>)"
  by (simp_all add: mp_step_def)

lemma mp_step_contains: "mp_step s t \<Longrightarrow> bm_contains h (bc_utxos t) = bm_contains h (bc_utxos s)"
  unfolding mp_step_def bm_contains_def by (metis option.map_disc_iff)

lemma mp_step_strip:
  assumes "mp_step s t" "bm_wf (bc_utxos s)"
  shows "strip (bc_utxos t) = strip (bc_utxos s)"
proof (rule bm_ext)
  fix h
  have "map_option (\<lambda>o'. (False, o')) (map_option snd (bm_get (bc_utxos t) h))
      = map_option (\<lambda>o'. (False, o')) (map_option snd (bm_get (bc_utxos s) h))"
    using assms(1) by (simp add: mp_step_def)
  then show "bm_get (strip (bc_utxos t)) h = bm_get (strip (bc_utxos s)) h"
    by (simp add: option.map_comp o_def case_prod_unfold)
qed (use assms in \<open>simp_all add: mp_step_def\<close>)

subsection \<open>Invariants\<close>

definition entry_hashes :: "instant \<times> transaction \<Rightarrow> hash list" where
  "entry_hashes e = spent_hashes (snd e)"

text \<open>Every pending input is an existing output: what the fee lookups \<open>expect\<close>.\<close>

definition mempool_ok :: "blockchain \<Rightarrow> bool" where
  "mempool_ok s \<longleftrightarrow> (\<forall>e \<in> set (bc_mempool s). \<forall>h \<in> set (entry_hashes e). bm_contains h (bc_utxos s))"

text \<open>No two pending transactions compete for an output, and every pending input is marked.\<close>

definition mempool_excl :: "blockchain \<Rightarrow> bool" where
  "mempool_excl s \<longleftrightarrow> distinct (concat (map entry_hashes (bc_mempool s)))
     \<and> (\<forall>e \<in> set (bc_mempool s). \<forall>h \<in> set (entry_hashes e). marked (bc_utxos s) h)"

lemma mempool_excl_ok: "mempool_excl s \<Longrightarrow> mempool_ok s"
  by (auto simp: mempool_excl_def mempool_ok_def intro: marked_contains)

lemma distinct_concat_filter:
  "distinct (concat (map f xs)) \<Longrightarrow> distinct (concat (map f (filter P xs)))"
  by (induction xs) auto

lemma distinct_concat_nths:
  "distinct (concat (map f xs)) \<Longrightarrow> distinct (concat (map f (nths xs A)))"
proof (induction xs arbitrary: A)
  case (Cons x xs)
  have "set (nths xs {j. Suc j \<in> A}) \<subseteq> set xs" by (rule set_nths_subset)
  with Cons show ?case by (auto simp: nths_Cons)
qed simp

lemma concat_owner_unique:
  assumes "distinct (concat (map f xs))" "i < length xs" "j < length xs"
    and "h \<in> set (f (xs ! i))" "h \<in> set (f (xs ! j))"
  shows "i = j"
  using assms
proof (induction xs arbitrary: i j)
  case (Cons x xs)
  show ?case
  proof (cases i; cases j)
    fix i' j' assume "i = Suc i'" "j = Suc j'"
    with Cons.prems Cons.IH [of i' j'] show ?thesis by auto
  next
    fix j' assume "i = 0" "j = Suc j'"
    with Cons.prems have "h \<in> set (f x)" "xs ! j' \<in> set xs" "h \<in> set (f (xs ! j'))" by auto
    with Cons.prems(1) show ?thesis by auto
  next
    fix i' assume "i = Suc i'" "j = 0"
    with Cons.prems have "h \<in> set (f x)" "xs ! i' \<in> set xs" "h \<in> set (f (xs ! i'))" by auto
    with Cons.prems(1) show ?thesis by auto
  qed simp
qed simp

subsection \<open>Clean-up\<close>

lemma cleanup_mp_step: "mp_step s (cleanup_mempool now s)"
  by (simp add: cleanup_mempool_def)

lemma cleanup_mempool_ok: "mempool_ok s \<Longrightarrow> mempool_ok (cleanup_mempool now s)"
  by (auto simp: mempool_ok_def cleanup_mempool_def)

lemma cleanup_mempool_excl:
  assumes "mempool_excl s"
  shows "mempool_excl (cleanup_mempool now s)"
proof -
  let ?mp = "bc_mempool s"
  have d: "distinct (concat (map entry_hashes ?mp))" using assms by (simp add: mempool_excl_def)
  have sep: "h \<notin> set (entry_hashes e')"
    if e: "e \<in> set ?mp" "\<not> mempool_expired now e" "h \<in> set (entry_hashes e)"
      and e': "e' \<in> set ?mp" "mempool_expired now e'" for e e' h
  proof
    assume h: "h \<in> set (entry_hashes e')"
    from e(1) e'(1) obtain i j where ij: "i < length ?mp" "?mp ! i = e" "j < length ?mp" "?mp ! j = e'"
      by (metis in_set_conv_nth)
    from concat_owner_unique [OF d ij(1,3)] ij e(3) h have "i = j" by simp
    with ij e(2) e'(2) show False by simp
  qed
  have "marked (bc_utxos (cleanup_mempool now s)) h"
    if e: "e \<in> set ?mp" "\<not> mempool_expired now e" "h \<in> set (entry_hashes e)" for e h
    unfolding cleanup_mempool_def using assms sep [OF e] e
    by (fastforce simp: marked_fold_unmark mempool_excl_def entry_hashes_def)
  with d show ?thesis
    unfolding mempool_excl_def by (auto simp: distinct_concat_filter cleanup_mempool_def)
qed

subsection \<open>Fees\<close>

lemma expect_input_values_returns:
  "\<forall>i \<in> set is. bm_contains (txi_prev_output_hash i) u \<Longrightarrow> returns (expect_input_values u is v)"
proof (induction "is" arbitrary: v)
  case (Cons i "is")
  then obtain c where "bm_get u (txi_prev_output_hash i) = Some c" by (auto simp: bm_contains_get)
  with Cons show ?case by (cases c) (auto simp: outcome_simps returns_iff)
qed simp

lemma expect_input_values_Ok:
  "expect_input_values u is v = Ok r \<Longrightarrow>
     unat r = unat v + sum_list (map (utxo_value u) (map txi_prev_output_hash is))"
proof (induction "is" arbitrary: v)
  case (Cons i "is")
  from Cons.prems obtain m o' w where get: "bm_get u (txi_prev_output_hash i) = Some (m, o')"
    and w: "checked_add v (txo_value o') = Some w" and rest: "expect_input_values u is w = Ok r"
    by (auto simp: outcome_simps)
  have "utxo_value u (txi_prev_output_hash i) = unat (txo_value o')" using get by (simp add: utxo_value_def)
  with Cons.IH [OF rest] checked_add_Some [OF w] show ?case by simp
qed simp

lemma transaction_fee_returns:
  assumes "\<forall>h \<in> set (spent_hashes tx). bm_contains h u"
  shows "returns (transaction_fee u tx)"
proof -
  have "returns (expect_input_values u (tx_inputs tx) 0)"
    using assms by (intro expect_input_values_returns) auto
  then show ?thesis by (auto simp: transaction_fee_def outcome_simps returns_iff)
qed

lemma transaction_fee_Ok:
  assumes "transaction_fee u tx = Ok f"
  shows "out_total tx \<le> in_total u tx \<and> unat f = in_total u tx - out_total tx"
proof -
  from assms obtain iv ov where iv: "expect_input_values u (tx_inputs tx) 0 = Ok iv"
    and ov: "checked_sum 0 (map txo_value (tx_outputs tx)) = Some ov"
    and le: "\<not> iv < ov" and f: "f = iv - ov"
    by (auto simp: transaction_fee_def outcome_simps split: if_splits)
  have "unat iv = in_total u tx" using expect_input_values_Ok [OF iv] by (simp add: in_total_def)
  with le f out_total_checked [OF ov] show ?thesis
    by (auto simp: not_less word_le_nat_alt unat_sub)
qed

lemma expect_input_values_marks:
  "\<forall>h. map_option snd (bm_get u h) = map_option snd (bm_get v h) \<Longrightarrow>
   expect_input_values u is = expect_input_values v is"
proof (induction "is")
  case (Cons i "is")
  then have "map_option snd (bm_get u (txi_prev_output_hash i)) = map_option snd (bm_get v (txi_prev_output_hash i))"
    by blast
  with Cons show ?case by (intro ext) (cases "bm_get u (txi_prev_output_hash i)"; cases "bm_get v (txi_prev_output_hash i)"; auto)
qed auto

subsection \<open>Admission checks\<close>

lemma mempool_check_inputs_Ok:
  assumes "mempool_check_inputs P u outs is known = Ok ()"
  shows "distinct (map txi_prev_output_hash is)
    \<and> (\<forall>i \<in> set is. txi_prev_output_hash i \<notin> known)
    \<and> (\<forall>i \<in> set is. \<exists>m o'. bm_get u (txi_prev_output_hash i) = Some (m, o')
           \<and> input_verifies P i outs (txo_pubkey o'))"
  using assms
proof (induction "is" arbitrary: known)
  case (Cons i "is")
  then have "mempool_check_inputs P u outs is (insert (txi_prev_output_hash i) known) = Ok ()"
    by (auto split: option.splits if_splits)
  from Cons.IH [OF this] Cons.prems show ?case
    by (auto split: option.splits if_splits)
qed simp

lemma mempool_check_inputs_known:
  assumes "mempool_check_inputs P u outs is known = Ok ()"
  shows "\<forall>h \<in> set (map txi_prev_output_hash is). bm_contains h u"
  using mempool_check_inputs_Ok [OF assms] by (fastforce simp: bm_contains_def)

lemma mempool_check_inputs_returns: "returns (mempool_check_inputs P u outs is known)"
  by (induction "is" arbitrary: known) (auto split: option.splits)

lemma find_index_Some: "find_index p xs = Some i \<Longrightarrow> i < length xs \<and> p (xs ! i)"
  by (induction xs arbitrary: i) (auto split: if_splits)

lemma find_index_None: "find_index p xs = None \<longleftrightarrow> (\<forall>x \<in> set xs. \<not> p x)"
  by (induction xs) auto

subsection \<open>Conflicts\<close>

lemma mempool_conflicts_safe:
  assumes "mempool_conflicts fee is found s = (r, t)" "mempool_ok s"
  shows "mp_step s t \<and> bc_mempool t = bc_mempool s \<and> mempool_ok t \<and> returns r
    \<and> (\<forall>idxs. r = Ok idxs \<longrightarrow> set idxs \<subseteq> set found \<union> {..<length (bc_mempool s)})"
  using assms
proof (induction "is" arbitrary: found s)
  case (Cons i "is")
  let ?h = "txi_prev_output_hash i"
  consider (skip) "\<nexists>o'. bm_get (bc_utxos s) ?h = Some (True, o')"
    | (hit) o' idx where "bm_get (bc_utxos s) ?h = Some (True, o')" "find_mempool_index_spending s ?h = Some idx"
    | (stale) o' where "bm_get (bc_utxos s) ?h = Some (True, o')" "find_mempool_index_spending s ?h = None"
    by (cases "find_mempool_index_spending s ?h") auto
  then show ?case
  proof cases
    case skip
    with Cons.prems(1) have "mempool_conflicts fee is found s = (r, t)"
      by (cases "bm_get (bc_utxos s) ?h") (auto split: prod.splits bool.splits)
    from Cons.IH [OF this Cons.prems(2)] show ?thesis .
  next
    case (hit o' idx)
    then have idx: "idx < length (bc_mempool s)"
      using find_index_Some by (auto simp: find_mempool_index_spending_def)
    then have ret: "returns (transaction_fee (bc_utxos s) (snd (bc_mempool s ! idx)))"
      using Cons.prems(2) by (intro transaction_fee_returns) (auto simp: mempool_ok_def entry_hashes_def)
    show ?thesis
    proof (cases "transaction_fee (bc_utxos s) (snd (bc_mempool s ! idx))")
      case (Ok old)
      show ?thesis
      proof (cases "fee \<le> old")
        case True
        with hit Ok Cons.prems show ?thesis by auto
      next
        case False
        with hit Ok Cons.prems have "mempool_conflicts fee is (idx # found) s = (r, t)" by simp
        from Cons.IH [OF this Cons.prems(2)] idx show ?thesis by fastforce
      qed
    qed (use hit ret Cons.prems in auto)
  next
    case (stale o')
    let ?s = "s\<lparr>bc_utxos := set_mark False ?h (bc_utxos s)\<rparr>"
    from stale Cons.prems(1) have "mempool_conflicts fee is found ?s = (r, t)" by simp
    moreover have "mempool_ok ?s" using Cons.prems(2) by (simp add: mempool_ok_def)
    ultimately have "mp_step ?s t \<and> bc_mempool t = bc_mempool ?s \<and> mempool_ok t \<and> returns r
        \<and> (\<forall>idxs. r = Ok idxs \<longrightarrow> set idxs \<subseteq> set found \<union> {..<length (bc_mempool ?s)})"
      by (rule Cons.IH)
    then show ?thesis using mp_step_trans [OF mp_step_marks(5), of False ?h s t] by simp
  qed
qed auto

lemma mempool_conflicts_complete:
  assumes "mempool_conflicts fee is found s = (Ok idxs, t)" "mempool_excl s"
  shows "mempool_excl t \<and> set found \<subseteq> set idxs
    \<and> (\<forall>i \<in> set is. \<forall>k < length (bc_mempool s).
         txi_prev_output_hash i \<in> set (entry_hashes (bc_mempool s ! k)) \<longrightarrow> k \<in> set idxs)"
  using assms
proof (induction "is" arbitrary: found s)
  case (Cons i "is")
  let ?h = "txi_prev_output_hash i"
  note excl = Cons.prems(2) [unfolded mempool_excl_def]
  have owned: "marked (bc_utxos s) ?h"
    if "k < length (bc_mempool s)" "?h \<in> set (entry_hashes (bc_mempool s ! k))" for k
    using that excl by auto
  consider (skip) "\<not> marked (bc_utxos s) ?h"
    | (hit) o' idx where "bm_get (bc_utxos s) ?h = Some (True, o')" "find_mempool_index_spending s ?h = Some idx"
    | (stale) o' where "bm_get (bc_utxos s) ?h = Some (True, o')" "find_mempool_index_spending s ?h = None"
    by (cases "find_mempool_index_spending s ?h") (auto simp: marked_def)
  then show ?case
  proof cases
    case skip
    with Cons.prems(1) have "mempool_conflicts fee is found s = (Ok idxs, t)"
      by (cases "bm_get (bc_utxos s) ?h") (auto simp: marked_def split: prod.splits bool.splits)
    from Cons.IH [OF this Cons.prems(2)] skip owned show ?thesis by auto
  next
    case (hit o' idx)
    then have idx: "idx < length (bc_mempool s)" "?h \<in> set (entry_hashes (bc_mempool s ! idx))"
      using find_index_Some [of "spends_hash ?h" "bc_mempool s" idx]
      unfolding find_mempool_index_spending_def spends_hash_def entry_hashes_def by blast+
    from hit Cons.prems(1) have rest: "mempool_conflicts fee is (idx # found) s = (Ok idxs, t)"
      by (auto split: outcome.splits if_splits)
    note IH = Cons.IH [OF rest Cons.prems(2)]
    have "k = idx" if "k < length (bc_mempool s)" "?h \<in> set (entry_hashes (bc_mempool s ! k))" for k
      using concat_owner_unique [OF _ that(1) idx(1) that(2) idx(2)] excl by blast
    with IH show ?thesis by auto
  next
    case (stale o')
    let ?s = "s\<lparr>bc_utxos := set_mark False ?h (bc_utxos s)\<rparr>"
    have none: "\<forall>e \<in> set (bc_mempool s). ?h \<notin> set (entry_hashes e)"
      using stale(2) by (auto simp: find_mempool_index_spending_def find_index_None spends_hash_def entry_hashes_def)
    from stale Cons.prems(1) have "mempool_conflicts fee is found ?s = (Ok idxs, t)" by simp
    moreover have "mempool_excl ?s"
      using excl none by (auto simp: mempool_excl_def marked_set_unmark)
    ultimately show ?thesis using Cons.IH [of found ?s] none by auto
  qed
qed simp

subsection \<open>Removing the displaced entries\<close>

lemma nths_cong: "(\<And>j. j < length xs \<Longrightarrow> j \<in> A \<longleftrightarrow> j \<in> B) \<Longrightarrow> nths xs A = nths xs B"
  unfolding nths_def by (intro arg_cong [where f = "map fst"] filter_cong) (auto simp: set_zip)

lemma nths_remove_at:
  assumes "i < length xs" "\<forall>j \<in> A. j < i"
  shows "nths (take i xs @ drop (Suc i) xs) (- A) = nths xs (- insert i A)"
proof -
  have xs: "xs = take i xs @ xs ! i # drop (Suc i) xs" using assms(1) by (rule id_take_nth_drop)
  have "nths (drop (Suc i) xs) {j. j + i \<in> - A} = drop (Suc i) xs"
    using assms by (intro nths_all) auto
  moreover have "nths (xs ! i # drop (Suc i) xs) {j. j + i \<in> - insert i A} = drop (Suc i) xs"
    using assms by (simp add: nths_Cons) (rule nths_all, auto)
  moreover have "nths (take i xs) (- A) = nths (take i xs) (- insert i A)"
    using assms(1) by (intro nths_cong) auto
  ultimately show ?thesis
    using assms(1) by (subst (2) xs) (simp add: nths_append)
qed

lemma remove_descending:
  assumes "sorted_wrt (>) is" "\<forall>i \<in> set is. i < length (bc_mempool s)"
  shows "ofold remove_mempool_at is s =
    Ok (s\<lparr>bc_mempool := nths (bc_mempool s) (- set is),
          bc_utxos := fold (set_mark False) (concat (map (\<lambda>i. entry_hashes (bc_mempool s ! i)) is)) (bc_utxos s)\<rparr>)"
  using assms
proof (induction "is" arbitrary: s)
  case (Cons i "is")
  let ?s = "s\<lparr>bc_mempool := take i (bc_mempool s) @ drop (Suc i) (bc_mempool s),
              bc_utxos := fold (set_mark False) (entry_hashes (bc_mempool s ! i)) (bc_utxos s)\<rparr>"
  have i: "i < length (bc_mempool s)" "\<forall>j \<in> set is. j < i" using Cons.prems by auto
  have nth: "bc_mempool ?s ! j = bc_mempool s ! j" if "j \<in> set is" for j
    using that i by (auto simp: nth_append)
  have map: "map (\<lambda>j. entry_hashes (bc_mempool ?s ! j)) is = map (\<lambda>j. entry_hashes (bc_mempool s ! j)) is"
    by (rule map_cong [OF refl]) (simp only: nth)
  have "remove_mempool_at i s = Ok ?s"
    using i by (simp add: remove_mempool_at_def unmark_transaction_utxos_def entry_hashes_def)
  moreover have "ofold remove_mempool_at is ?s =
    Ok (?s\<lparr>bc_mempool := nths (bc_mempool ?s) (- set is),
          bc_utxos := fold (set_mark False) (concat (map (\<lambda>i. entry_hashes (bc_mempool ?s ! i)) is)) (bc_utxos ?s)\<rparr>)"
    by (rule Cons.IH) (use Cons.prems i in auto)
  ultimately show ?case using nths_remove_at [OF i] unfolding map by simp
qed (simp add: nths_all)

lemma removal_order:
  "sorted_wrt (>) (rev (sort (remdups (xs :: nat list))))" "set (rev (sort (remdups xs))) = set xs"
proof -
  have "sorted_wrt (<) (sort (remdups xs))" by (simp add: strict_sorted_iff)
  then show "sorted_wrt (>) (rev (sort (remdups xs)))" by (simp add: sorted_wrt_rev)
qed simp

subsection \<open>Admission\<close>

lemma sort_mempool_returns:
  assumes "\<forall>e \<in> set mp. \<forall>h \<in> set (entry_hashes e). bm_contains h u"
  shows "sort_mempool u mp = Ok (sort_key (\<lambda>e. - int (unat (fee_or_zero u e))) mp)"
proof -
  have "transaction_fee u (snd e) \<noteq> Panic" if "e \<in> set mp" for e
    using transaction_fee_returns [of "snd e" u] assms that
    by (auto simp: entry_hashes_def returns_iff)
  then show ?thesis by (auto simp: sort_mempool_def)
qed

lemma mset_concat_distinct:
  assumes "mset xs = mset ys"
  shows "distinct (concat (map f xs)) = distinct (concat (map f ys))"
proof -
  have "mset (concat (map f xs)) = mset (concat (map f ys))"
    using assms by (simp add: mset_concat flip: mset_map sum_mset_sum_list) (metis mset_map)
  then show ?thesis by (rule mset_eq_imp_distinct_iff)
qed

definition with_entry :: "instant \<Rightarrow> transaction \<Rightarrow> blockchain \<Rightarrow> blockchain" where
  "with_entry now tx s =
     (let u = mark_transaction_utxos tx (bc_utxos s)
      in s\<lparr>bc_utxos := u,
           bc_mempool := sort_key (\<lambda>e. - int (unat (fee_or_zero u e))) (bc_mempool s @ [(now, tx)])\<rparr>)"

lemma admit_to_mempool_eq:
  assumes "mempool_ok s" "\<forall>h \<in> set (spent_hashes tx). bm_contains h (bc_utxos s)"
  shows "admit_to_mempool now tx s = (Ok (), with_entry now tx s)"
proof -
  let ?u = "mark_transaction_utxos tx (bc_utxos s)"
  have "\<forall>e \<in> set (bc_mempool s @ [(now, tx)]). \<forall>h \<in> set (entry_hashes e). bm_contains h ?u"
    using assms by (auto simp: mempool_ok_def entry_hashes_def mark_transaction_utxos_def)
  then show ?thesis
    by (simp add: admit_to_mempool_def with_entry_def sort_mempool_returns Let_def)
qed

lemma with_entry_mp_step: "mp_step s (with_entry now tx s)"
  by (simp add: with_entry_def mark_transaction_utxos_def Let_def)

lemma with_entry_ok:
  assumes "mempool_ok s" "\<forall>h \<in> set (spent_hashes tx). bm_contains h (bc_utxos s)"
  shows "mempool_ok (with_entry now tx s)"
  using assms by (auto simp: mempool_ok_def with_entry_def mark_transaction_utxos_def entry_hashes_def Let_def)

lemma with_entry_excl:
  assumes "mempool_excl s" "distinct (spent_hashes tx)"
    and "\<forall>h \<in> set (spent_hashes tx). bm_contains h (bc_utxos s)"
    and "\<forall>e \<in> set (bc_mempool s). set (entry_hashes e) \<inter> set (spent_hashes tx) = {}"
  shows "mempool_excl (with_entry now tx s)"
proof -
  let ?t = "with_entry now tx s"
  have "distinct (concat (map entry_hashes (bc_mempool s @ [(now, tx)])))"
    using assms by (auto simp: mempool_excl_def entry_hashes_def)
  moreover have "mset (bc_mempool ?t) = mset (bc_mempool s @ [(now, tx)])"
    by (simp add: with_entry_def Let_def)
  ultimately have "distinct (concat (map entry_hashes (bc_mempool ?t)))"
    using mset_concat_distinct by blast
  moreover have "marked (bc_utxos ?t) h" if "e \<in> set (bc_mempool ?t)" "h \<in> set (entry_hashes e)" for e h
    using that assms(1,3)
    by (auto simp: with_entry_def Let_def mark_transaction_utxos_def marked_fold_mark mempool_excl_def
        entry_hashes_def)
  ultimately show ?thesis by (simp add: mempool_excl_def)
qed

lemma with_entry_fees_descending:
  "sorted_wrt (\<ge>) (map (fee_or_zero (bc_utxos (with_entry now tx s))) (bc_mempool (with_entry now tx s)))"
proof -
  let ?f = "\<lambda>e. - int (unat (fee_or_zero (mark_transaction_utxos tx (bc_utxos s)) e))"
  have "sorted (map ?f (sort_key ?f (bc_mempool s @ [(now, tx)])))" by (rule sorted_sort_key)
  then show ?thesis
    unfolding sorted_map by (simp add: with_entry_def Let_def sorted_wrt_map word_le_def)
qed

subsection \<open>\<open>add_to_mempool\<close>\<close>

text \<open>What is left of the mempool once the entries at \<open>idxs\<close> have made way.\<close>

definition without_entries :: "nat list \<Rightarrow> blockchain \<Rightarrow> blockchain" where
  "without_entries is s =
     s\<lparr>bc_mempool := nths (bc_mempool s) (- set is),
       bc_utxos := fold (set_mark False) (concat (map (\<lambda>i. entry_hashes (bc_mempool s ! i)) is)) (bc_utxos s)\<rparr>"

lemma without_entries_mp_step: "mp_step s (without_entries is s)"
  by (simp add: without_entries_def)

lemma without_entries_ok: "mempool_ok s \<Longrightarrow> mempool_ok (without_entries is s)"
  using set_nths_subset [of "bc_mempool s" "- set is"]
  by (auto simp: mempool_ok_def without_entries_def)

lemma without_entries_excl:
  assumes "mempool_excl s" "\<forall>i \<in> set is. i < length (bc_mempool s)"
  shows "mempool_excl (without_entries is s)"
proof -
  let ?mp = "bc_mempool s"
  have d: "distinct (concat (map entry_hashes ?mp))" using assms by (simp add: mempool_excl_def)
  have "marked (bc_utxos (without_entries is s)) h"
    if k: "k < length ?mp" "k \<notin> set is" "h \<in> set (entry_hashes (?mp ! k))" for k h
  proof -
    have "h \<notin> set (entry_hashes (?mp ! i))" if "i \<in> set is" for i
      using concat_owner_unique [OF d k(1) _ k(3)] that k(2) assms(2) by blast
    moreover have "marked (bc_utxos s) h" using assms(1) k by (auto simp: mempool_excl_def)
    ultimately show ?thesis by (auto simp: without_entries_def marked_fold_unmark)
  qed
  then show ?thesis
    unfolding mempool_excl_def
    using distinct_concat_nths [OF d] by (auto simp: without_entries_def set_nths)
qed

lemma without_entries_remaining:
  "e \<in> set (bc_mempool (without_entries is s)) \<Longrightarrow>
     \<exists>k < length (bc_mempool s). k \<notin> set is \<and> bc_mempool s ! k = e"
  by (auto simp: without_entries_def set_nths)

lemma mempool_conserves_eq:
  assumes "transaction_fee u tx = Ok f" "\<forall>h. map_option snd (bm_get u h) = map_option snd (bm_get v h)"
  shows "mempool_conserves v tx = Ok ()"
  using assms(1) unfolding expect_input_values_marks [OF assms(2)] transaction_fee_def
  by (auto simp: mempool_conserves_def outcome_simps expect_input_values_marks [OF assms(2)] split: if_splits)

text \<open>
  The three ways \<open>add_to_mempool\<close> ends: refused before anything was displaced, refused by the
  fee rule, or admitted.
\<close>

lemma add_to_mempool_cases:
  assumes ok: "mempool_ok s" and run: "add_to_mempool P now tx s = (r, t)"
  obtains (refused) e where "r = Err e" "mp_step (cleanup_mempool now s) t"
      "bc_mempool t = bc_mempool (cleanup_mempool now s)" "mempool_ok t"
      "t = cleanup_mempool now s \<or> (\<exists>fee. mempool_conflicts fee (tx_inputs tx) [] (cleanup_mempool now s) = (Err e, t))"
    | (admitted) fee idxs s1 where "r = Ok ()"
      "mempool_check_inputs P (bc_utxos (cleanup_mempool now s)) (tx_outputs tx) (tx_inputs tx) {} = Ok ()"
      "transaction_fee (bc_utxos (cleanup_mempool now s)) tx = Ok fee"
      "mempool_conflicts fee (tx_inputs tx) [] (cleanup_mempool now s) = (Ok idxs, s1)"
      "t = with_entry now tx (without_entries (rev (sort (remdups idxs))) s1)"
proof -
  let ?s = "cleanup_mempool now s"
  have ok0: "mempool_ok ?s" by (rule cleanup_mempool_ok [OF ok])
  show ?thesis
  proof (cases "mempool_check_inputs P (bc_utxos ?s) (tx_outputs tx) (tx_inputs tx) {}")
    case chk: (Ok u)
    then have chk: "mempool_check_inputs P (bc_utxos ?s) (tx_outputs tx) (tx_inputs tx) {} = Ok ()" by simp
    then have ins: "\<forall>h \<in> set (spent_hashes tx). bm_contains h (bc_utxos ?s)"
      by (rule mempool_check_inputs_known)
    show ?thesis
    proof (cases "transaction_fee (bc_utxos ?s) tx")
      case fee: (Ok fee)
      obtain c s1 where conf: "mempool_conflicts fee (tx_inputs tx) [] ?s = (c, s1)" by force
      note safe = mempool_conflicts_safe [OF conf ok0]
      show ?thesis
      proof (cases c)
        case (Ok idxs)
        let ?is = "rev (sort (remdups idxs))"
        let ?s2 = "without_entries ?is s1"
        have rng: "\<forall>i \<in> set ?is. i < length (bc_mempool s1)" using safe Ok by auto
        have rem: "ofold remove_mempool_at ?is s1 = Ok ?s2"
          unfolding without_entries_def by (rule remove_descending [OF removal_order(1) rng])
        have wf: "\<forall>h. map_option snd (bm_get (bc_utxos ?s) h) = map_option snd (bm_get (bc_utxos ?s2) h)"
          using safe without_entries_mp_step [of s1 ?is] by (simp add: mp_step_def)
        have "\<forall>h \<in> set (spent_hashes tx). bm_contains h (bc_utxos ?s2)"
          using ins wf by (metis bm_contains_def option.map_disc_iff)
        then have "admit_to_mempool now tx ?s2 = (Ok (), with_entry now tx ?s2)"
          by (intro admit_to_mempool_eq without_entries_ok) (use safe in auto)
        with run chk fee conf Ok rem mempool_conserves_eq [OF fee wf]
        have "r = Ok ()" "t = with_entry now tx ?s2"
          by (auto simp: add_to_mempool_def with_check_def with_step_def Let_def)
        then show ?thesis by (intro admitted [OF _ chk fee]) (use conf Ok in auto)
      next
        case (Err e)
        with run chk fee conf have "r = Err e" "t = s1"
          by (auto simp: add_to_mempool_def with_check_def with_step_def Let_def)
        then show ?thesis using safe conf Err by (intro refused) auto
      qed (use safe in auto)
    next
      case (Err e)
      with run chk have "r = Err e" "t = ?s"
        by (auto simp: add_to_mempool_def with_check_def with_step_def Let_def)
      then show ?thesis using ok0 by (intro refused) auto
    qed (use transaction_fee_returns [OF ins] in auto)
  next
    case (Err e)
    with run have "r = Err e" "t = ?s"
      by (auto simp: add_to_mempool_def with_check_def with_step_def Let_def)
    then show ?thesis using ok0 by (intro refused) auto
  qed (use mempool_check_inputs_returns [of P "bc_utxos ?s" "tx_outputs tx" "tx_inputs tx" "{}"] in auto)
qed

lemma add_to_mempool_safe:
  assumes "mempool_ok s" "add_to_mempool P now tx s = (r, t)"
  shows "returns r \<and> mp_step s t \<and> mempool_ok t"
  using assms
proof (cases rule: add_to_mempool_cases)
  case (refused e)
  then show ?thesis using mp_step_trans [OF cleanup_mp_step] by auto
next
  case (admitted fee idxs s1)
  note safe = mempool_conflicts_safe [OF admitted(4) cleanup_mempool_ok [OF assms(1)]]
  let ?s2 = "without_entries (rev (sort (remdups idxs))) s1"
  have step: "mp_step (cleanup_mempool now s) ?s2"
    using mp_step_trans [OF _ without_entries_mp_step] safe by blast
  have "\<forall>h \<in> set (spent_hashes tx). bm_contains h (bc_utxos ?s2)"
    using mempool_check_inputs_known [OF admitted(2)] by (simp add: mp_step_contains [OF step])
  then have "mempool_ok t"
    unfolding admitted(5) using safe by (intro with_entry_ok without_entries_ok) auto
  moreover have "mp_step s t"
    unfolding admitted(5) using cleanup_mp_step step with_entry_mp_step by (blast intro: mp_step_trans)
  ultimately show ?thesis using admitted(1) by simp
qed

lemma add_to_mempool_exclusive:
  assumes "mempool_excl s" "add_to_mempool P now tx s = (Ok (), t)"
  shows "mempool_excl t \<and> (now, tx) \<in> set (bc_mempool t)"
proof -
  from mempool_excl_ok [OF assms(1)] assms(2) show ?thesis
  proof (cases rule: add_to_mempool_cases)
    case (admitted fee idxs s1)
    let ?is = "rev (sort (remdups idxs))"
    let ?s2 = "without_entries ?is s1"
    have ex0: "mempool_excl (cleanup_mempool now s)" by (rule cleanup_mempool_excl [OF assms(1)])
    note safe = mempool_conflicts_safe [OF admitted(4) mempool_excl_ok [OF ex0]]
    note complete = mempool_conflicts_complete [OF admitted(4) ex0]
    have rng: "\<forall>i \<in> set ?is. i < length (bc_mempool s1)" using safe by auto
    have ex2: "mempool_excl ?s2" using complete rng by (intro without_entries_excl) auto
    have step: "mp_step (cleanup_mempool now s) ?s2"
      using mp_step_trans [OF _ without_entries_mp_step] safe by blast
    have "mempool_excl t"
      unfolding admitted(5)
    proof (rule with_entry_excl [OF ex2])
      show "distinct (spent_hashes tx)" using mempool_check_inputs_Ok [OF admitted(2)] by blast
      show "\<forall>h \<in> set (spent_hashes tx). bm_contains h (bc_utxos ?s2)"
        using mempool_check_inputs_known [OF admitted(2)] by (simp add: mp_step_contains [OF step])
      show "\<forall>e \<in> set (bc_mempool ?s2). set (entry_hashes e) \<inter> set (spent_hashes tx) = {}"
      proof
        fix e assume "e \<in> set (bc_mempool ?s2)"
        then obtain k where "k < length (bc_mempool s1)" "k \<notin> set ?is" "bc_mempool s1 ! k = e"
          using without_entries_remaining by blast
        with complete safe show "set (entry_hashes e) \<inter> set (spent_hashes tx) = {}" by auto
      qed
    qed
    moreover have "(now, tx) \<in> set (bc_mempool t)" by (simp add: admitted(5) with_entry_def Let_def)
    ultimately show ?thesis by simp
  qed auto
qed

lemma mempool_conflicts_Err_excl:
  assumes "mempool_conflicts fee is found s = (Err e, t)" "mempool_excl s"
  shows "mempool_excl t"
  using assms
proof (induction "is" arbitrary: found s)
  case (Cons i "is")
  let ?h = "txi_prev_output_hash i"
  show ?case
  proof (cases "\<exists>o'. bm_get (bc_utxos s) ?h = Some (True, o') \<and> find_mempool_index_spending s ?h = None")
    case True
    let ?s = "s\<lparr>bc_utxos := set_mark False ?h (bc_utxos s)\<rparr>"
    have none: "\<forall>e \<in> set (bc_mempool s). ?h \<notin> set (entry_hashes e)"
      using True by (auto simp: find_mempool_index_spending_def find_index_None spends_hash_def entry_hashes_def)
    have "mempool_excl ?s"
      using Cons.prems(2) none by (auto simp: mempool_excl_def marked_set_unmark)
    with True Cons.prems(1) Cons.IH [of found ?s] show ?thesis by auto
  next
    case False
    with Cons.prems Cons.IH show ?thesis
      by (auto split: option.splits prod.splits bool.splits outcome.splits if_splits)
  qed
qed simp

lemma outputs_same:
  assumes "mp_step s t"
  shows "in_total (bc_utxos t) tx = in_total (bc_utxos s) tx"
    and "input_authorised P (bc_utxos t) tx i = input_authorised P (bc_utxos s) tx i"
    and "transaction_fee (bc_utxos t) tx = transaction_fee (bc_utxos s) tx"
    and "fee_or_zero (bc_utxos t) = fee_or_zero (bc_utxos s)"
proof -
  have eq: "\<forall>h. map_option snd (bm_get (bc_utxos t) h) = map_option snd (bm_get (bc_utxos s) h)"
    using assms by (simp add: mp_step_def)
  have "utxo_value u h = (case map_option snd (bm_get u h) of None \<Rightarrow> 0 | Some o' \<Rightarrow> unat (txo_value o'))" for u h
    by (auto simp: utxo_value_def split: option.splits)
  then have "utxo_value (bc_utxos t) = utxo_value (bc_utxos s)" by (simp only: eq fun_eq_iff) simp
  then show "in_total (bc_utxos t) tx = in_total (bc_utxos s) tx" by (simp add: in_total_def)
  have "input_authorised P u tx i \<longleftrightarrow> (\<exists>o'. map_option snd (bm_get u (txi_prev_output_hash i)) = Some o'
      \<and> input_verifies P i (tx_outputs tx) (txo_pubkey o'))" for u
    by (auto simp: input_authorised_def)
  then show "input_authorised P (bc_utxos t) tx i = input_authorised P (bc_utxos s) tx i" by (simp only: eq)
  show fee: "transaction_fee (bc_utxos t) tx = transaction_fee (bc_utxos s) tx" for tx
    by (simp add: transaction_fee_def expect_input_values_marks [OF eq])
  show "fee_or_zero (bc_utxos t) = fee_or_zero (bc_utxos s)" by (auto simp: fee_or_zero_def fee)
qed

lemma mempool_conflicts_underpaid:
  assumes "mempool_conflicts fee is found s = (Ok idxs, t)"
    and "\<forall>k \<in> set found. k < length (bc_mempool s) \<and> fee_or_zero (bc_utxos s) (bc_mempool s ! k) < fee"
  shows "\<forall>k \<in> set idxs. k < length (bc_mempool s) \<and> fee_or_zero (bc_utxos s) (bc_mempool s ! k) < fee"
  using assms
proof (induction "is" arbitrary: found s)
  case (Cons i "is")
  let ?h = "txi_prev_output_hash i"
  consider (skip) "\<nexists>o'. bm_get (bc_utxos s) ?h = Some (True, o')"
    | (hit) o' idx where "bm_get (bc_utxos s) ?h = Some (True, o')" "find_mempool_index_spending s ?h = Some idx"
    | (stale) o' where "bm_get (bc_utxos s) ?h = Some (True, o')" "find_mempool_index_spending s ?h = None"
    by (cases "find_mempool_index_spending s ?h") auto
  then show ?case
  proof cases
    case skip
    with Cons.prems(1) have "mempool_conflicts fee is found s = (Ok idxs, t)"
      by (cases "bm_get (bc_utxos s) ?h") (auto split: prod.splits bool.splits)
    from Cons.IH [OF this Cons.prems(2)] show ?thesis .
  next
    case (hit o' idx)
    then have idx: "idx < length (bc_mempool s)"
      using find_index_Some by (auto simp: find_mempool_index_spending_def)
    from hit Cons.prems(1) obtain old where old: "transaction_fee (bc_utxos s) (snd (bc_mempool s ! idx)) = Ok old"
      "old < fee" and rest: "mempool_conflicts fee is (idx # found) s = (Ok idxs, t)"
      by (auto split: outcome.splits if_splits simp: not_le)
    show ?thesis
      by (rule Cons.IH [OF rest]) (use Cons.prems(2) idx old in \<open>auto simp: fee_or_zero_def\<close>)
  next
    case (stale o')
    let ?s = "s\<lparr>bc_utxos := set_mark False ?h (bc_utxos s)\<rparr>"
    have f: "fee_or_zero (bc_utxos ?s) = fee_or_zero (bc_utxos s)"
      by (rule outputs_same(4)) simp
    from stale Cons.prems(1) have "mempool_conflicts fee is found ?s = (Ok idxs, t)" by simp
    from Cons.IH [OF this] Cons.prems(2) show ?thesis using f by simp
  qed
qed simp

lemma add_to_mempool_refused_excl:
  assumes "mempool_excl s" "add_to_mempool P now tx s = (r, t)" "r \<noteq> Ok ()"
  shows "mempool_excl t"
proof -
  let ?s = "cleanup_mempool now s"
  have ex: "mempool_excl ?s" by (rule cleanup_mempool_excl [OF assms(1)])
  from mempool_excl_ok [OF assms(1)] assms(2) show ?thesis
  proof (cases rule: add_to_mempool_cases)
    case (refused e)
    from refused(5) show ?thesis using mempool_conflicts_Err_excl ex by blast
  qed (use assms in auto)
qed

lemma add_to_mempool_admitted:
  assumes "mempool_ok s" "add_to_mempool P now tx s = (Ok (), t)"
  shows "(now, tx) \<in> set (bc_mempool t)"
    and "distinct (spent_hashes tx)"
    and "\<forall>i \<in> set (tx_inputs tx). input_authorised P (bc_utxos s) tx i"
    and "out_total tx \<le> in_total (bc_utxos s) tx"
    and "sorted_wrt (\<ge>) (map (fee_or_zero (bc_utxos t)) (bc_mempool t))"
    and "\<forall>e \<in> set (bc_mempool s). mempool_expired now e \<or> e \<in> set (bc_mempool t)
         \<or> fee_or_zero (bc_utxos s) e < fee_or_zero (bc_utxos s) (now, tx)"
proof -
  let ?s = "cleanup_mempool now s"
  from assms obtain fee idxs s1 where
    chk: "mempool_check_inputs P (bc_utxos ?s) (tx_outputs tx) (tx_inputs tx) {} = Ok ()"
    and fee: "transaction_fee (bc_utxos ?s) tx = Ok fee"
    and conf: "mempool_conflicts fee (tx_inputs tx) [] ?s = (Ok idxs, s1)"
    and t: "t = with_entry now tx (without_entries (rev (sort (remdups idxs))) s1)"
    by (rule add_to_mempool_cases) (blast, simp)
  note same = outputs_same [OF cleanup_mp_step]
  note safe = mempool_conflicts_safe [OF conf cleanup_mempool_ok [OF assms(1)]]
  show "(now, tx) \<in> set (bc_mempool t)" by (simp add: t with_entry_def Let_def)
  show "distinct (spent_hashes tx)" using mempool_check_inputs_Ok [OF chk] by blast
  have "\<forall>i \<in> set (tx_inputs tx). input_authorised P (bc_utxos ?s) tx i"
    using mempool_check_inputs_Ok [OF chk] by (auto simp: input_authorised_def)
  then show "\<forall>i \<in> set (tx_inputs tx). input_authorised P (bc_utxos s) tx i" by (simp add: same)
  show "out_total tx \<le> in_total (bc_utxos s) tx" using transaction_fee_Ok [OF fee] by (simp add: same)
  show "sorted_wrt (\<ge>) (map (fee_or_zero (bc_utxos t)) (bc_mempool t))"
    unfolding t by (rule with_entry_fees_descending)
  have f: "fee_or_zero (bc_utxos s) (now, tx) = fee" using fee by (simp add: fee_or_zero_def same)
  have under: "\<forall>k \<in> set idxs. fee_or_zero (bc_utxos s) (bc_mempool ?s ! k) < fee"
    using mempool_conflicts_underpaid [OF conf] by (auto simp: same)
  show "\<forall>e \<in> set (bc_mempool s). mempool_expired now e \<or> e \<in> set (bc_mempool t)
         \<or> fee_or_zero (bc_utxos s) e < fee_or_zero (bc_utxos s) (now, tx)"
  proof
    fix e assume "e \<in> set (bc_mempool s)"
    show "mempool_expired now e \<or> e \<in> set (bc_mempool t) \<or> fee_or_zero (bc_utxos s) e < fee_or_zero (bc_utxos s) (now, tx)"
    proof (cases "mempool_expired now e")
      case False
      with \<open>e \<in> set (bc_mempool s)\<close> have "e \<in> set (bc_mempool ?s)" by (simp add: cleanup_mempool_def)
      then obtain k where k: "k < length (bc_mempool ?s)" "bc_mempool ?s ! k = e" by (metis in_set_conv_nth)
      show ?thesis
      proof (cases "k \<in> set idxs")
        case True
        with under k f show ?thesis by auto
      next
        case False
        with k safe have "e \<in> set (nths (bc_mempool s1) (- set idxs))" by (auto simp: set_nths)
        then show ?thesis by (simp add: t with_entry_def without_entries_def Let_def)
      qed
    qed simp
  qed
qed

text \<open>
  C6: the mempool never holds two transactions competing for an output.  Whatever
  \<open>add_to_mempool\<close> is given and however it ends, it comes back (no \<open>expect\<close> fires), it changes
  nothing of the chain but marks and pending entries, and the pending transactions still spend
  pairwise different outputs, all of which exist and are marked.
\<close>

theorem add_to_mempool_keeps_exclusive:
  assumes "mempool_excl s" "add_to_mempool P now tx s = (r, t)"
  shows "returns r \<and> mp_step s t \<and> mempool_excl t"
proof -
  have safe: "returns r \<and> mp_step s t"
    using add_to_mempool_safe [OF mempool_excl_ok [OF assms(1)] assms(2)] by blast
  show ?thesis
  proof (cases "r = Ok ()")
    case True
    with add_to_mempool_exclusive assms safe show ?thesis by blast
  next
    case False
    from add_to_mempool_refused_excl [OF assms False] safe show ?thesis by blast
  qed
qed

text \<open>
  C7: what admission means.  An admitted transaction is pending; each of its inputs is an
  unspent output whose owner signed this transaction's outputs, none twice; it pays out no more
  than it consumes; every unexpired entry it displaced paid a strictly lower fee; and the
  entries are again in order of descending fee.
\<close>

theorem add_to_mempool_admits:
  assumes "mempool_ok s" "add_to_mempool P now tx s = (Ok (), t)"
  shows "(now, tx) \<in> set (bc_mempool t)
    \<and> distinct (spent_hashes tx)
    \<and> (\<forall>i \<in> set (tx_inputs tx). input_authorised P (bc_utxos s) tx i)
    \<and> out_total tx \<le> in_total (bc_utxos s) tx
    \<and> sorted_wrt (\<ge>) (map (fee_or_zero (bc_utxos t)) (bc_mempool t))
    \<and> (\<forall>e \<in> set (bc_mempool s). mempool_expired now e \<or> e \<in> set (bc_mempool t)
         \<or> fee_or_zero (bc_utxos s) e < fee_or_zero (bc_utxos s) (now, tx))"
  using add_to_mempool_admitted [OF assms] by blast

end
