(* ===== verification/Chain_Trace.thy ===== *)
theory Chain_Trace
  imports Chain_Mempool
begin

text \<open>
  Chains inside the block map.  The map holds a tree of blocks rooted at genesis; a stored
  block has exactly one stored valid chain ending in it, and \<open>trace_branch\<close> splits that chain
  at the fork point with the active chain.  The walk needs at most one step per stored block,
  so its fuel is enough.
\<close>

subsection \<open>Stored chains\<close>

definition stored :: "prims \<Rightarrow> (hash, block) bmap \<Rightarrow> block list \<Rightarrow> bool" where
  "stored P blocks bs \<longleftrightarrow> (\<forall>b \<in> set bs. bm_get blocks (block_hash P b) = Some b)"

definition keyed :: "prims \<Rightarrow> (hash, block) bmap \<Rightarrow> bool" where
  "keyed P blocks \<longleftrightarrow> (\<forall>h b. bm_get blocks h = Some b \<longrightarrow> h = block_hash P b)"

text \<open>The block map is a tree: every stored block ends a stored valid chain.\<close>

definition store_ok :: "prims \<Rightarrow> (hash, block) bmap \<Rightarrow> bool" where
  "store_ok P blocks \<longleftrightarrow>
     bm_wf blocks \<and> keyed P blocks \<and> \<not> bm_contains hash_zero blocks
     \<and> (\<forall>h b. bm_get blocks h = Some b \<longrightarrow> (\<exists>cs. valid_chain P (cs @ [b]) \<and> stored P blocks (cs @ [b])))"

lemma stored_simps [simp]:
  "stored P blocks []"
  "stored P blocks (b # bs) \<longleftrightarrow> bm_get blocks (block_hash P b) = Some b \<and> stored P blocks bs"
  "stored P blocks (bs @ cs) \<longleftrightarrow> stored P blocks bs \<and> stored P blocks cs"
  by (auto simp: stored_def)

lemma stored_lookup: "stored P blocks bs \<Longrightarrow> lookup_blocks blocks (map (block_hash P) bs) = Ok bs"
  by (auto simp: stored_def lookup_blocks_Ok)

lemma stored_same_hash:
  "stored P blocks bs \<Longrightarrow> stored P blocks cs \<Longrightarrow> b \<in> set bs \<Longrightarrow> c \<in> set cs
     \<Longrightarrow> block_hash P b = block_hash P c \<Longrightarrow> b = c"
  by (force simp: stored_def)

lemma stored_hash_in:
  "stored P blocks bs \<Longrightarrow> stored P blocks [c] \<Longrightarrow> block_hash P c \<in> block_hash P ` set bs \<longleftrightarrow> c \<in> set bs"
  using stored_same_hash [of P blocks bs "[c]"] by (metis imageE imageI list.set_intros(1))

lemma stored_distinct_hashes:
  "stored P blocks bs \<Longrightarrow> distinct bs \<Longrightarrow> distinct (map (block_hash P) bs)"
  unfolding distinct_map inj_on_def by (blast intro: stored_same_hash)

lemma stored_length:
  assumes "stored P blocks bs" "distinct bs"
  shows "length bs \<le> length blocks"
proof -
  have "block_hash P ` set bs \<subseteq> fst ` set blocks"
    using assms(1) by (auto simp: stored_def dest!: bm_get_in_set intro: rev_image_eqI)
  then have "card (block_hash P ` set bs) \<le> card (fst ` set blocks)" by (intro card_mono) auto
  moreover have "card (block_hash P ` set bs) = length bs"
    using stored_distinct_hashes [OF assms] by (metis distinct_card length_map set_map)
  moreover have "card (fst ` set blocks) \<le> length blocks"
    by (metis card_length length_map set_map)
  ultimately show ?thesis by simp
qed

lemma stored_nonzero:
  "\<not> bm_contains hash_zero blocks \<Longrightarrow> stored P blocks bs \<Longrightarrow> b \<in> set bs \<Longrightarrow> block_hash P b \<noteq> hash_zero"
  unfolding stored_def bm_contains_def by (metis option.distinct(1))

lemma store_ok_chain:
  assumes "store_ok P blocks" "bm_get blocks h = Some b"
  obtains cs where "valid_chain P (cs @ [b])" "stored P blocks (cs @ [b])" "h = block_hash P b"
  using assms unfolding store_ok_def keyed_def by blast

text \<open>A stored block determines its chain.\<close>

lemma stored_chain_unique:
  assumes "\<not> bm_contains hash_zero blocks"
    and "valid_chain P (cs @ [b])" "stored P blocks cs" "valid_chain P (ds @ [b])" "stored P blocks ds"
  shows "cs = ds"
  using assms(2-)
proof (induction cs arbitrary: ds b rule: rev_induct)
  case Nil
  then have "bh_prev_block_hash (blk_header b) = hash_zero"
    using valid_chain_snoc [of P "[]" b] by (simp add: attaches_def)
  moreover have "attaches P ds b" using Nil.prems(3) by (simp add: valid_chain_snoc)
  ultimately show ?case using assms(1) Nil.prems(4)
    by (cases ds rule: rev_cases) (auto simp: attaches_def bm_contains_def)
next
  case (snoc c cs)
  have c: "bh_prev_block_hash (blk_header b) = block_hash P c"
    using snoc.prems(1) valid_chain_snoc [of P "cs @ [c]" b] by (simp add: attaches_def)
  have ds: "attaches P ds b" using snoc.prems(3) by (simp add: valid_chain_snoc)
  show ?case
  proof (cases ds rule: rev_cases)
    case Nil
    with ds c snoc.prems(2) assms(1) show ?thesis by (auto simp: attaches_def bm_contains_def)
  next
    case (snoc ds' d)
    with ds c have "block_hash P c = block_hash P d" by (simp add: attaches_def)
    with \<open>stored P blocks (cs @ [c])\<close> \<open>stored P blocks ds\<close> snoc have "c = d" by simp
    moreover have "cs = ds'"
    proof (rule snoc.IH)
      show "valid_chain P (cs @ [c])" using \<open>valid_chain P ((cs @ [c]) @ [b])\<close> by (rule valid_chain_prefix)
      show "valid_chain P (ds' @ [c])"
        using \<open>valid_chain P (ds @ [b])\<close> \<open>c = d\<close> snoc by (auto intro: valid_chain_prefix)
    qed (use \<open>stored P blocks (cs @ [c])\<close> \<open>stored P blocks ds\<close> snoc in auto)
    ultimately show ?thesis using snoc by simp
  qed
qed

text \<open>Two stored chains that share a block share everything up to it.\<close>

lemma stored_chain_prefix:
  assumes z: "\<not> bm_contains hash_zero blocks"
    and "valid_chain P (cs @ [b])" "stored P blocks (cs @ [b])"
    and A: "valid_chain P A" "stored P blocks A" "b \<in> set A"
  shows "cs @ [b] = take (Suc (length cs)) A"
proof -
  from A(3) obtain pre post where p: "A = pre @ b # post" by (meson split_list)
  then have "A = (pre @ [b]) @ post" by simp
  with A have "valid_chain P (pre @ [b])" "stored P blocks pre"
    using valid_chain_prefix [of P "pre @ [b]" post] by auto
  with assms have "cs = pre" using stored_chain_unique [OF z assms(2)] by auto
  with p show ?thesis by simp
qed

text \<open>A new block adds one chain: the one it ends.\<close>

lemma stored_insert_cases:
  assumes ok: "store_ok P blocks"
    and new: "block_hash P b \<noteq> hash_zero" "\<forall>b'. bm_get blocks (block_hash P b) = Some b' \<longrightarrow> b' = b"
    and C: "valid_chain P (C @ [b])" "stored P blocks C"
    and cs: "valid_chain P cs" "stored P (bm_insert (block_hash P b) b blocks) cs"
  shows "stored P blocks cs \<or> cs = C @ [b]"
proof (cases cs rule: rev_cases)
  case (snoc ds x)
  let ?new = "bm_insert (block_hash P b) b blocks"
  have z: "\<not> bm_contains hash_zero ?new"
    using ok new(1) by (auto simp: store_ok_def bm_contains_def)
  have mono: "stored P ?new es" if "stored P blocks es" for es
    using that new(2) by (auto simp: stored_def)
  show ?thesis
  proof (cases "block_hash P x = block_hash P b")
    case True
    with cs snoc have x: "x = b" by auto
    have "ds = C"
      by (rule stored_chain_unique [OF z]) (use cs snoc x C mono in auto)
    with snoc x show ?thesis by simp
  next
    case False
    with cs snoc have "bm_get blocks (block_hash P x) = Some x" by auto
    with ok obtain es where es: "valid_chain P (es @ [x])" "stored P blocks (es @ [x])"
      by (rule store_ok_chain) auto
    have "ds = es"
      by (rule stored_chain_unique [OF z]) (use cs snoc es mono in auto)
    with es snoc show ?thesis by simp
  qed
qed simp

lemma store_ok_insert:
  assumes ok: "store_ok P blocks"
    and new: "block_hash P b \<noteq> hash_zero" "\<forall>b'. bm_get blocks (block_hash P b) = Some b' \<longrightarrow> b' = b"
    and C: "valid_chain P (C @ [b])" "stored P blocks C"
  shows "store_ok P (bm_insert (block_hash P b) b blocks)"
proof -
  let ?new = "bm_insert (block_hash P b) b blocks"
  have mono: "stored P ?new es" if "stored P blocks es" for es
    using that new(2) by (auto simp: stored_def)
  have "\<exists>cs. valid_chain P (cs @ [x]) \<and> stored P ?new (cs @ [x])" if "bm_get ?new h = Some x" for h x
  proof (cases "h = block_hash P b")
    case True
    with that C mono show ?thesis by auto
  next
    case False
    with that have "bm_get blocks h = Some x" by simp
    with ok obtain cs where "valid_chain P (cs @ [x])" "stored P blocks (cs @ [x])"
      by (rule store_ok_chain)
    with mono show ?thesis by blast
  qed
  moreover have "bm_wf ?new" "\<not> bm_contains hash_zero ?new"
    using ok new(1) by (auto simp: store_ok_def bm_contains_def)
  moreover have "h = block_hash P x" if "bm_get ?new h = Some x" for h x
  proof (cases "h = block_hash P b")
    case False
    with that have "bm_get blocks h = Some x" by simp
    with ok show ?thesis by (rule store_ok_chain)
  qed (use that in simp)
  then have "keyed P ?new" unfolding keyed_def by blast
  ultimately show ?thesis unfolding store_ok_def by blast
qed

subsection \<open>The index of the active chain\<close>

lemma active_chain_index_get:
  assumes "distinct chain"
  shows "bm_get (active_chain_index chain) h = Some i \<longleftrightarrow> i < length chain \<and> chain ! i = h"
  using assms
proof (induction chain arbitrary: i rule: rev_induct)
  case (snoc x chain)
  have ix: "active_chain_index (chain @ [x]) = bm_insert x (length chain) (active_chain_index chain)"
    by (simp add: active_chain_index_def enumerate_append_eq)
  show ?case
  proof (cases "h = x")
    case True
    have "chain ! i \<noteq> x" if "i < length chain" using snoc.prems that nth_mem by fastforce
    with True show ?thesis by (auto simp: ix nth_append)
  next
    case False
    have "distinct chain" using snoc.prems by simp
    from snoc.IH [OF this, of i] False show ?thesis by (simp add: ix nth_append less_Suc_eq)
  qed
qed (simp add: active_chain_index_def)

lemma active_chain_index_contains:
  "distinct chain \<Longrightarrow> bm_contains h (active_chain_index chain) \<longleftrightarrow> h \<in> set chain"
  by (auto simp: bm_contains_get active_chain_index_get in_set_conv_nth)


subsection \<open>The walk to the fork point\<close>

text \<open>The last block of a chain that is on the active chain splits it.\<close>

definition fork_split :: "block list \<Rightarrow> block list \<Rightarrow> block list \<Rightarrow> block list \<Rightarrow> bool" where
  "fork_split A C D1 D2 \<longleftrightarrow> C = D1 @ D2 \<and> (D1 \<noteq> [] \<longrightarrow> last D1 \<in> set A) \<and> set D2 \<inter> set A = {}"

lemma fork_split_exists: "\<exists>D1 D2. fork_split A C D1 D2"
proof (induction C rule: rev_induct)
  case (snoc c C)
  then obtain D1 D2 where "fork_split A C D1 D2" by blast
  then show ?case
  proof (cases "c \<in> set A")
    case True
    then have "fork_split A (C @ [c]) (C @ [c]) []" by (simp add: fork_split_def)
    then show ?thesis by blast
  next
    case False
    with \<open>fork_split A C D1 D2\<close> have "fork_split A (C @ [c]) D1 (D2 @ [c])" by (simp add: fork_split_def)
    then show ?thesis by blast
  qed
qed (auto simp: fork_split_def)

lemma fork_split_prefix:
  assumes "\<not> bm_contains hash_zero blocks" "valid_chain P A" "stored P blocks A"
    and "valid_chain P C" "stored P blocks C" "fork_split A C D1 D2"
  shows "D1 = take (length D1) A \<and> length D1 \<le> length A"
proof (cases D1 rule: rev_cases)
  case (snoc ds d)
  with assms(4-6) have d: "valid_chain P (ds @ [d])" "stored P blocks (ds @ [d])" "d \<in> set A"
    using valid_chain_prefix [of P D1 D2] by (auto simp: fork_split_def)
  from stored_chain_prefix [OF assms(1) d(1,2) assms(2,3) d(3)] snoc
  have "D1 = take (length D1) A" by (metis length_append_singleton)
  then show ?thesis by (metis length_take min.cobounded1)
qed simp

lemma trace_loop_fork:
  assumes z: "\<not> bm_contains hash_zero blocks"
    and A: "valid_chain P A" "stored P blocks A"
    and C: "valid_chain P (D1 @ D2)" "stored P blocks (D1 @ D2)" "D1 @ D2 \<noteq> []"
    and split: "D1 \<noteq> [] \<longrightarrow> last D1 \<in> set A" "set D2 \<inter> set A = {}"
    and fuel: "length D2 < fuel"
  shows "trace_loop fuel blocks (active_chain_index (map (block_hash P) A))
           (block_hash P (last (D1 @ D2))) br
       = Ok (length D1, map (block_hash P) D2 @ br)"
  using C split(2) fuel
proof (induction D2 arbitrary: fuel br rule: rev_induct)
  let ?ix = "active_chain_index (map (block_hash P) A)"
  have dA: "distinct (map (block_hash P) A)"
    by (rule stored_distinct_hashes [OF A(2) valid_chain_distinct [OF A(1)]])
  {
    case Nil
    then have "last D1 \<in> set A" using split(1) by simp
    have "fork_split A D1 D1 []" using split(1) by (simp add: fork_split_def)
    from fork_split_prefix [OF z A _ _ this] Nil.prems
    have p: "D1 = take (length D1) A" "length D1 \<le> length A" by auto
    then have "A ! (length D1 - 1) = last D1" using Nil.prems(3)
      by (metis append_Nil2 diff_less last_conv_nth length_greater_0_conv less_numeral_extra(1) nth_take)
    moreover have "length D1 - 1 < length A" using p(2) Nil.prems(3) by (cases D1) auto
    ultimately have "bm_get ?ix (block_hash P (last D1)) = Some (length D1 - 1)"
      by (simp add: active_chain_index_get [OF dA])
    then show ?case using Nil.prems by (cases fuel) auto
  next
    case (snoc c D2)
    have "c \<notin> set A" using snoc.prems(4) by simp
    then have "block_hash P c \<notin> set (map (block_hash P) A)"
      using stored_hash_in [OF A(2), of c] snoc.prems(2) by simp
    then have out: "bm_get ?ix (block_hash P c) = None"
      using active_chain_index_contains [OF dA, of "block_hash P c"] unfolding bm_contains_def by blast
    have get: "bm_get blocks (block_hash P c) = Some c" using snoc.prems(2) by simp
    obtain f where f: "fuel = Suc f" using snoc.prems(5) by (cases fuel) auto
    have at: "attaches P (D1 @ D2) c"
      using snoc.prems(1) valid_chain_snoc [of P "D1 @ D2" c] by simp
    show ?case
    proof (cases "D1 @ D2 = []")
      case True
      with at out get f show ?thesis by (auto simp: attaches_def)
    next
      case False
      then have last: "bh_prev_block_hash (blk_header c) = block_hash P (last (D1 @ D2))"
        using at by (simp add: attaches_def)
      have "last (D1 @ D2) \<in> set (D1 @ D2)" using False by (rule last_in_set)
      then have "block_hash P (last (D1 @ D2)) \<noteq> hash_zero"
        by (rule stored_nonzero [OF z, rotated]) (use snoc.prems(2) in simp)
      moreover have "trace_loop f blocks ?ix (block_hash P (last (D1 @ D2))) (block_hash P c # br)
          = Ok (length D1, map (block_hash P) D2 @ block_hash P c # br)"
        by (rule snoc.IH) (use snoc.prems False f valid_chain_prefix [of P "D1 @ D2" "[c]"] in auto)
      ultimately show ?thesis using last out get f by simp
    qed
  }
qed

lemma trace_branch_fork:
  assumes ok: "store_ok P blocks" and A: "valid_chain P A" "stored P blocks A"
    and C: "valid_chain P C" "stored P blocks C" "C \<noteq> []" and split: "fork_split A C D1 D2"
  shows "trace_branch_with_index blocks (block_hash P (last C)) (active_chain_index (map (block_hash P) A))
       = Ok (Some (length D1, map (block_hash P) D2))"
proof -
  have z: "\<not> bm_contains hash_zero blocks" using ok by (simp add: store_ok_def)
  have "last C \<in> set C" using C(3) by simp
  then have nz: "block_hash P (last C) \<noteq> hash_zero"
    by (rule stored_nonzero [OF z C(2)])
  have D2: "stored P blocks D2" "distinct D2"
    using C split valid_chain_distinct [OF C(1)] by (auto simp: fork_split_def)
  have "trace_loop (Suc (length blocks)) blocks (active_chain_index (map (block_hash P) A))
           (block_hash P (last (D1 @ D2))) [] = Ok (length D1, map (block_hash P) D2 @ [])"
    by (rule trace_loop_fork [OF z A])
      (use C split stored_length [OF D2] in \<open>auto simp: fork_split_def\<close>)
  with split nz show ?thesis by (simp add: trace_branch_with_index_def fork_split_def)
qed

subsection \<open>Pruning\<close>

definition deep_branch :: "prims \<Rightarrow> (hash, block) bmap \<Rightarrow> block list \<Rightarrow> nat \<Rightarrow> hash \<Rightarrow> bool" where
  "deep_branch P blocks A keep h \<longleftrightarrow>
     (\<exists>C D1 D2. valid_chain P C \<and> stored P blocks C \<and> C \<noteq> [] \<and> block_hash P (last C) = h
        \<and> fork_split A C D1 D2 \<and> D2 \<noteq> [] \<and> keep < length A - length D1)"

lemma fork_split_last: "fork_split A C D1 D2 \<Longrightarrow> D2 \<noteq> [] \<Longrightarrow> last C \<notin> set A \<and> last C \<in> set C"
  unfolding fork_split_def by (metis disjoint_iff last_appendR last_in_set Un_iff set_append)

lemma fork_split_le:
  assumes "fork_split A C D1 D2" "fork_split A C E1 E2" shows "length E1 \<le> length D1"
proof -
  from assms have "D1 @ D2 = E1 @ E2" by (simp add: fork_split_def)
  then consider us where "D1 = E1 @ us" | us where "D1 @ us = E1" "D2 = us @ E2" "us \<noteq> []"
    by (metis append_Nil2 append_eq_append_conv2)
  then show ?thesis
  proof cases
    case (2 us)
    then have "last E1 \<in> set D2" "E1 \<noteq> []" by (auto simp flip: 2(1))
    with assms show ?thesis by (auto simp: fork_split_def)
  qed simp
qed

lemma fork_split_unique:
  assumes "fork_split A C D1 D2" "fork_split A C E1 E2" shows "D1 = E1 \<and> D2 = E2"
proof -
  have "length D1 = length E1" using fork_split_le assms by (meson le_antisym)
  with assms show ?thesis by (simp add: fork_split_def)
qed

lemma fork_split_extend:
  assumes z: "\<not> bm_contains hash_zero blocks" and A: "valid_chain P A" "stored P blocks A"
    and C: "valid_chain P (C @ post)" "stored P blocks (C @ post)"
    and split: "fork_split A C D1 D2" "D2 \<noteq> []"
  shows "fork_split A (C @ post) D1 (D2 @ post)"
proof -
  have last: "last C \<notin> set A" "last C \<in> set C" using fork_split_last [OF split] by auto
  have "x \<notin> set A" if x: "x \<in> set post" for x
  proof
    assume "x \<in> set A"
    from x obtain p1 p2 where p: "post = p1 @ x # p2" by (meson split_list)
    then have "valid_chain P ((C @ p1) @ [x])" "stored P blocks ((C @ p1) @ [x])"
      using C valid_chain_prefix [of P "(C @ p1) @ [x]" p2] by auto
    from stored_chain_prefix [OF z this A \<open>x \<in> set A\<close>]
    have "set ((C @ p1) @ [x]) \<subseteq> set A" by (metis set_take_subset)
    with last show False by auto
  qed
  with split show ?thesis by (auto simp: fork_split_def)
qed

lemma prunable_loop_spec:
  assumes ok: "store_ok P blocks" and A: "valid_chain P A" "stored P blocks A"
    and "\<forall>h \<in> set hs. bm_contains h blocks"
  shows "\<exists>ps. prunable_loop blocks (active_chain_index (map (block_hash P) A)) (length A) keep hs = Ok ps
           \<and> (\<forall>h. h \<in> set ps \<longleftrightarrow> h \<in> set hs \<and> deep_branch P blocks A keep h)"
  using assms(4)
proof (induction hs)
  case (Cons h hs)
  let ?ix = "active_chain_index (map (block_hash P) A)"
  have z: "\<not> bm_contains hash_zero blocks" using ok by (simp add: store_ok_def)
  have dA: "distinct (map (block_hash P) A)"
    by (rule stored_distinct_hashes [OF A(2) valid_chain_distinct [OF A(1)]])
  from Cons obtain ps where ps: "prunable_loop blocks ?ix (length A) keep hs = Ok ps"
    "\<forall>h. h \<in> set ps \<longleftrightarrow> h \<in> set hs \<and> deep_branch P blocks A keep h" by auto
  from Cons.prems obtain b where "bm_get blocks h = Some b" by (auto simp: bm_contains_get)
  with ok obtain cs where cs: "valid_chain P (cs @ [b])" "stored P blocks (cs @ [b])" "h = block_hash P b"
    by (rule store_ok_chain)
  obtain D1 D2 where sp: "fork_split A (cs @ [b]) D1 D2" using fork_split_exists by blast
  have only: "C = cs @ [b]" if C: "valid_chain P C" "stored P blocks C" "C \<noteq> []" "block_hash P (last C) = h" for C
  proof -
    obtain ds d where ds: "C = ds @ [d]" using C(3) by (cases C rule: rev_cases) auto
    with C cs have "d = b" by simp
    with stored_chain_unique [OF z cs(1)] ds C cs show ?thesis by simp
  qed
  have deep: "deep_branch P blocks A keep h \<longleftrightarrow> D2 \<noteq> [] \<and> keep < length A - length D1"
    unfolding deep_branch_def using only sp cs fork_split_unique by (metis last_snoc snoc_eq_iff_butlast)
  show ?case
  proof (cases "b \<in> set A")
    case True
    then have "fork_split A (cs @ [b]) (cs @ [b]) []" by (simp add: fork_split_def)
    with sp have "D2 = []" using fork_split_unique by blast
    moreover have "bm_contains h ?ix" using True cs(3) by (simp add: active_chain_index_contains [OF dA])
    ultimately show ?thesis using ps deep by auto
  next
    case False
    then have "D2 \<noteq> []" using sp by (auto simp: fork_split_def)
    moreover have "h \<notin> set (map (block_hash P) A)"
      using False stored_hash_in [OF A(2), of b] cs by simp
    then have "\<not> bm_contains h ?ix" by (simp add: active_chain_index_contains [OF dA])
    moreover have "trace_branch_with_index blocks h ?ix = Ok (Some (length D1, map (block_hash P) D2))"
      using trace_branch_fork [OF ok A cs(1,2) _ sp] cs(3) by simp
    ultimately show ?thesis using ps deep by auto
  qed
qed simp

lemma prune_keeps_store:
  assumes ok: "store_ok P blocks" and A: "valid_chain P A" "stored P blocks A"
    and ps: "\<forall>h \<in> set ps. deep_branch P blocks A keep h"
    and all: "\<forall>h. bm_contains h blocks \<longrightarrow> deep_branch P blocks A keep h \<longrightarrow> h \<in> set ps"
  shows "store_ok P (fold bm_remove ps blocks) \<and> stored P (fold bm_remove ps blocks) A"
proof -
  let ?new = "fold bm_remove ps blocks"
  have z: "\<not> bm_contains hash_zero blocks" using ok by (simp add: store_ok_def)
  have get: "bm_get ?new h = (if h \<in> set ps then None else bm_get blocks h)" for h
    by (rule bm.get_fold_rem)
  have "\<not> deep_branch P blocks A keep (block_hash P a)" if "a \<in> set A" for a
  proof
    assume "deep_branch P blocks A keep (block_hash P a)"
    then obtain C D1 D2 where C: "stored P blocks C" "C \<noteq> []" "block_hash P (last C) = block_hash P a"
      "fork_split A C D1 D2" "D2 \<noteq> []" unfolding deep_branch_def by blast
    then have "last C = a" using stored_same_hash [OF C(1) A(2) _ that] by simp
    with fork_split_last [OF C(4,5)] that show False by simp
  qed
  then have kept: "stored P ?new A" using A(2) ps by (auto simp: stored_def get)
  have "\<exists>cs. valid_chain P (cs @ [b]) \<and> stored P ?new (cs @ [b])" if "bm_get ?new h = Some b" for h b
  proof -
    from that have b: "h \<notin> set ps" "bm_get blocks h = Some b" by (auto simp: get split: if_splits)
    from ok b(2) obtain cs where cs: "valid_chain P (cs @ [b])" "stored P blocks (cs @ [b])" "h = block_hash P b"
      by (rule store_ok_chain)
    have "block_hash P y \<notin> set ps" if y: "y \<in> set (cs @ [b])" for y
    proof
      assume "block_hash P y \<in> set ps"
      with ps obtain C D1 D2 where C: "valid_chain P C" "stored P blocks C" "C \<noteq> []"
        "block_hash P (last C) = block_hash P y" "fork_split A C D1 D2" "D2 \<noteq> []" "keep < length A - length D1"
        unfolding deep_branch_def by blast
      then have "last C = y" using stored_same_hash [OF C(2) cs(2) _ y] by simp
      then obtain C' where C': "C = C' @ [y]" using C(3) by (metis append_butlast_last_id)
      from y obtain pre post where p: "cs @ [b] = pre @ y # post" by (meson split_list)
      have "C' = pre"
        by (rule stored_chain_unique [OF z, of P _ y])
          (use C cs C' p valid_chain_prefix [of P "pre @ [y]" post] in auto)
      with C' p have ext: "cs @ [b] = C @ post" by simp
      have "fork_split A (cs @ [b]) D1 (D2 @ post)"
        unfolding ext by (rule fork_split_extend [OF z A]) (use cs ext C in auto)
      then have "deep_branch P blocks A keep h"
        unfolding deep_branch_def using cs C(6,7) by (metis append_is_Nil_conv last_snoc not_Cons_self2)
      with all b show False by (auto simp: bm_contains_def)
    qed
    with cs show ?thesis by (auto simp: stored_def get)
  qed
  moreover have "keyed P ?new" using ok unfolding store_ok_def keyed_def get by (metis option.distinct(1))
  moreover have "bm_wf ?new" "\<not> bm_contains hash_zero ?new"
    using ok by (auto simp: store_ok_def bm.wf_fold_rem bm_contains_def get split: if_splits)
  ultimately show ?thesis using kept unfolding store_ok_def by blast
qed

end
