(* ===== verification/Chain_Invariant.thy ===== *)
theory Chain_Invariant
  imports Chain_Trace
begin

text \<open>
  The invariant of the chain state and its preservation.  The state represents a valid chain
  \<open>A\<close> of the abstract ledger: its hashes are the active chain, its blocks are stored, and the
  incrementally kept target and unspent outputs are the ones \<open>A\<close> implies; no stored chain is
  heavier than \<open>A\<close>; and what the code \<open>expect\<close>s to find is there.

  Hypotheses on the packages outside the repository: \<open>prims_ok\<close> says that the decimal product
  of a target and a ratio of seconds is exact before it is truncated, that a \<open>HashMap\<close> yields
  each key once, and that the genesis block, a constant of the program, mines; \<open>good_hashes\<close>
  says that SHA-256 shows no collision and no zero digest among the blocks ever received.
\<close>

definition prims_ok :: "prims \<Rightarrow> bool" where
  "prims_ok P \<longleftrightarrow>
     (\<forall>t a. decimal_scale P t a TARGET_SECONDS = t * a div TARGET_SECONDS)
     \<and> (\<forall>hs. mset (hash_iter P hs) = mset hs)
     \<and> is_ok (genesis_block P)"

definition good_hashes :: "prims \<Rightarrow> block set \<Rightarrow> bool" where
  "good_hashes P U \<longleftrightarrow> inj_on (block_hash P) U
     \<and> (\<forall>b \<in> U. block_hash P b \<noteq> hash_zero \<and> header_hash P (blk_header b) \<noteq> 0)"

definition active_rep :: "prims \<Rightarrow> blockchain \<Rightarrow> block list \<Rightarrow> bool" where
  "active_rep P s A \<longleftrightarrow>
     bc_active_chain s = map (block_hash P) A \<and> stored P (bc_blocks s) A \<and> valid_chain P A
     \<and> recompute_target P A = Ok (bc_target s)
     \<and> bm_wf (bc_utxos s) \<and> strip (bc_utxos s) = replay_blocks P A"

definition heaviest :: "prims \<Rightarrow> (hash, block) bmap \<Rightarrow> block list \<Rightarrow> bool" where
  "heaviest P blocks A \<longleftrightarrow>
     (\<forall>cs. valid_chain P cs \<longrightarrow> stored P blocks cs \<longrightarrow> chain_weight cs \<le> chain_weight A)"

definition orphans_ok :: "prims \<Rightarrow> (hash, block) bmap \<Rightarrow> bool" where
  "orphans_ok P os \<longleftrightarrow> bm_wf os \<and> (\<forall>(h, b) \<in> set os. h = block_hash P b) \<and> length os \<le> MAX_ORPHAN_BLOCKS"

definition within :: "block set \<Rightarrow> (hash, block) bmap \<Rightarrow> bool" where
  "within U m \<longleftrightarrow> snd ` set m \<subseteq> U"

definition chain_inv :: "prims \<Rightarrow> block set \<Rightarrow> blockchain \<Rightarrow> block list \<Rightarrow> bool" where
  "chain_inv P U s A \<longleftrightarrow>
     store_ok P (bc_blocks s) \<and> active_rep P s A \<and> heaviest P (bc_blocks s) A \<and> mempool_ok s
     \<and> orphans_ok P (bc_orphans s) \<and> within U (bc_blocks s) \<and> within U (bc_orphans s)"

lemma within_insert: "within U m \<Longrightarrow> b \<in> U \<Longrightarrow> within U (bm_insert h b m)"
  using bm_insert_subset [of h b m] by (fastforce simp: within_def)

lemma within_get: "within U m \<Longrightarrow> bm_get m h = Some b \<Longrightarrow> b \<in> U"
  by (force simp: within_def dest: bm_get_in_set)

lemma within_fold_remove: "within U m \<Longrightarrow> within U (fold bm_remove hs m)"
proof (induction hs arbitrary: m)
  case (Cons h hs)
  have "within U (bm_remove h m)" using Cons.prems by (auto simp: within_def bm_remove_def)
  then show ?case by (simp add: Cons.IH)
qed simp

lemma no_collision:
  assumes "good_hashes P U" "within U blocks" "keyed P blocks" "b \<in> U"
  shows "\<forall>b'. bm_get blocks (block_hash P b) = Some b' \<longrightarrow> b' = b"
proof (intro allI impI)
  fix b' assume g: "bm_get blocks (block_hash P b) = Some b'"
  then have "block_hash P b' = block_hash P b" using assms(3) unfolding keyed_def by metis
  with within_get [OF assms(2) g] assms(1,4) show "b' = b" by (auto simp: good_hashes_def inj_on_def)
qed

subsection \<open>Targets and work are always defined\<close>

lemma adjust_target_total:
  assumes "prims_ok P" "g \<le> MIN_TARGET"
  shows "\<exists>t. adjust_target P g a b = Ok t"
proof -
  let ?d = "nat (max (num_seconds (b - a)) 1)"
  let ?c = "min (max ?d (TARGET_SECONDS div 4)) (TARGET_SECONDS * 4)"
  have "unat g \<le> unat MIN_TARGET" using assms(2) by (simp add: word_le_nat_alt)
  moreover have "unat MIN_TARGET < 2 ^ 240" by (simp add: MIN_TARGET_def)
  ultimately have g: "unat g < 2 ^ 240" by simp
  have "unat g * ?c \<le> 2 ^ 240 * (TARGET_SECONDS * 4)" using g by (intro mult_le_mono) auto
  then have "unat g * ?c div TARGET_SECONDS \<le> 2 ^ 240 * (TARGET_SECONDS * 4) div TARGET_SECONDS"
    by (rule div_le_mono)
  also have "\<dots> < 2 ^ 256"
    by (simp add: TARGET_SECONDS_def IDEAL_BLOCK_TIME_def DIFFICULTY_UPDATE_INTERVAL_def)
  finally have "decimal_scale P (unat g) ?c TARGET_SECONDS < 2 ^ 256"
    using assms(1) unfolding prims_ok_def by metis
  then show ?thesis unfolding adjust_target_def Let_def by (simp only: if_True) blast
qed

lemma recompute_target_total:
  assumes "prims_ok P" shows "\<exists>t. recompute_target P bs = Ok t"
proof (induction bs rule: rev_induct)
  case Nil
  show ?case by (simp add: recompute_target_def retarget_times.simps DIFFICULTY_UPDATE_INTERVAL_def)
next
  case (snoc b bs)
  then obtain g where g: "recompute_target P bs = Ok g" by blast
  from adjust_target_total [OF assms recompute_target_le [OF g]]
  show ?case by (simp add: recompute_target_snoc g)
qed

lemma valid_chain_workable:
  assumes "valid_chain P bs" "good_hashes P U" "set bs \<subseteq> U"
  shows "\<forall>b \<in> set bs. workable b"
  using assms(1,3)
proof (induction rule: valid_chain.induct)
  case (valid_snoc bs b)
  let ?t = "bh_target (blk_header b)"
  have "?t \<le> MIN_TARGET" using valid_snoc.hyps(3) by (auto simp: block_ok_def intro: recompute_target_le)
  then have "?t < - 1" by (rule order_le_less_trans) (simp add: MIN_TARGET_def)
  moreover have "header_hash P (blk_header b) \<le> ?t"
    using valid_snoc.hyps(3) by (simp add: block_ok_def matches_target_def)
  then have "?t \<noteq> 0" using assms(2) valid_snoc.prems by (auto simp: good_hashes_def)
  ultimately have "workable b" by (simp add: workable_def word_neq_0_conv)
  with valid_snoc show ?case by auto
qed simp

lemma stored_within: "stored P blocks bs \<Longrightarrow> within U blocks \<Longrightarrow> set bs \<subseteq> U"
  by (auto simp: stored_def dest: within_get)

lemma work_of_stored_chain:
  assumes "valid_chain P bs" "stored P blocks bs" "good_hashes P U" "within U blocks"
  shows "\<exists>w. work_of_chain blocks (map (block_hash P) bs) = Ok w \<and> unat w = chain_weight bs"
  using work_fold_chain_weight [OF valid_chain_workable [OF assms(1,3) stored_within [OF assms(2,4)]]]
  by (simp add: work_of_chain_def stored_lookup [OF assms(2)])

subsection \<open>Steps of the mempool\<close>

lemma mp_step_active_rep: "mp_step s t \<Longrightarrow> active_rep P s A \<Longrightarrow> active_rep P t A"
  using mp_step_strip [of s t] by (auto simp: active_rep_def mp_step_def)

lemma mp_step_chain_inv: "mp_step s t \<Longrightarrow> mempool_ok t \<Longrightarrow> chain_inv P U s A \<Longrightarrow> chain_inv P U t A"
  using mp_step_active_rep [of s t P A] by (auto simp: chain_inv_def mp_step_def)

lemma evict_mp_step: "mp_step s (evict_stale_mempool_entries P now confirmed s)"
  unfolding evict_stale_mempool_entries_def Let_def 
  by (rule mp_step_trans [OF cleanup_mp_step [of s now]]) simp

lemma evict_mempool_ok: "mempool_ok (evict_stale_mempool_entries P now confirmed s)"
  by (auto simp: evict_stale_mempool_entries_def Let_def mempool_ok_def entry_hashes_def list_all_iff)

lemma readmit_safe:
  assumes "mempool_ok s" "readmit P now txs s = (r, t)"
  shows "r = Ok () \<and> mp_step s t \<and> mempool_ok t"
  using assms
proof (induction txs arbitrary: s)
  case (Cons tx txs)
  obtain q u where q: "add_to_mempool P now tx s = (q, u)" by force
  note safe = add_to_mempool_safe [OF Cons.prems(1) q]
  then have "readmit P now txs u = (r, t)" using Cons.prems(2) q by (cases q) auto
  with Cons.IH safe show ?case by (blast intro: mp_step_trans)
qed simp

subsection \<open>Extending the tip\<close>

lemma check_block_size_returns: "returns (check_block_size P b)"
  by (simp add: check_block_size_def)

lemma check_timestamp_returns: "returns (check_timestamp now s t)"
  by (simp add: check_timestamp_def)

lemma check_merkle_returns: "blk_transactions b \<noteq> [] \<Longrightarrow> returns (check_merkle P b)"
  using merkle_root_outcome(2) [of "blk_transactions b" P] by (auto simp: check_merkle_def)

lemma check_merkle_no_cutoff: "check_merkle P b \<noteq> Cutoff"
  by (auto simp: check_merkle_def merkle_root_calculate_def split: list.splits)

lemmas check_returns = check_block_size_returns check_timestamp_returns check_merkle_returns
  verify_transactions_returns

lemma tip_hash_rep: "active_rep P s A \<Longrightarrow> tip_hash s = (if A = [] then hash_zero else block_hash P (last A))"
  by (auto simp: tip_hash_def active_rep_def last_map)

lemma check_extends_tip_Ok:
  assumes "active_rep P s A" "check_extends_tip P now s b = Ok ()"
    and "bh_prev_block_hash (blk_header b) = tip_hash s"
  shows "attaches P A b \<and> block_ok P A b"
proof -
  note rep = assms(1) [unfolded active_rep_def]
  have height: "block_height s = of_nat (length A)" using rep by (simp add: block_height_def)
  have ver: "verify_transactions P b (of_nat (length A)) (replay_blocks P A) = Ok ()"
    using assms(2) rep verify_transactions_strip [of P b "of_nat (length A)" "bc_utxos s"]
    by (simp add: check_extends_tip_def outcome_simps height Let_def split: if_splits)
  have "attaches P A b"
  proof (cases "A = []")
    case True
    then show ?thesis using assms rep tip_hash_rep [OF assms(1)]
      by (auto simp: check_extends_tip_def attaches_def outcome_simps Let_def split: if_splits)
  next
    case False
    then have "bm_get (bc_blocks s) (last (bc_active_chain s)) = Some (last A)"
      using rep by (simp add: last_map stored_def)
    with False show ?thesis using assms rep tip_hash_rep [OF assms(1)]
      by (auto simp: check_extends_tip_def attaches_def outcome_simps Let_def block_time_def not_le split: if_splits)
  qed
  moreover have "block_ok P A b"
    using assms(2) rep ver
    by (auto simp: check_extends_tip_def block_ok_def outcome_simps Let_def split: if_splits)
  ultimately show ?thesis by simp
qed

lemma check_extends_tip_returns:
  assumes "active_rep P s A" "prims_ok P" "blk_transactions b \<noteq> []"
  shows "returns (check_extends_tip P now s b)"
proof -
  note rep = assms(1) [unfolded active_rep_def]
  have gen: "returns (genesis_hash P)"
    using assms(2) by (cases "genesis_block P") (auto simp: genesis_hash_def prims_ok_def)
  have last: "bc_active_chain s \<noteq> [] \<Longrightarrow> bm_get (bc_blocks s) (last (bc_active_chain s)) = Some (last A)"
    using rep by (auto simp: last_map stored_def)
  show ?thesis
    using gen last
    by (auto simp: check_extends_tip_def returns_obind Let_def assms(3) check_returns)
qed

lemma check_extends_tip_no_cutoff:
  assumes "active_rep P s A" "prims_ok P"
  shows "check_extends_tip P now s b \<noteq> Cutoff"
proof (cases "blk_transactions b = []")
  case False
  with check_extends_tip_returns [OF assms] show ?thesis by (auto simp: returns_iff)
next
  case True
  have gen: "returns (genesis_hash P)"
    using assms(2) by (cases "genesis_block P") (auto simp: genesis_hash_def prims_ok_def)
  have "check_merkle P b = Panic" using True by (simp add: check_merkle_def merkle_root_outcome)
  with gen check_block_size_returns [of P b] check_timestamp_returns [of now s "bh_timestamp (blk_header b)"]
  show ?thesis
    by (auto simp: check_extends_tip_def outcome_simps Let_def returns_iff)
qed

lemma apply_block_frame:
  assumes t_def: "t = apply_block P now b s"
  shows "bc_target t = bc_target s" "bc_blocks t = bc_blocks s" "bc_active_chain t = bc_active_chain s"
    "bc_orphans t = bc_orphans s" "bc_pending_prunes t = bc_pending_prunes s" "mempool_ok t"
    "bm_wf (bc_utxos s) \<Longrightarrow> bm_wf (bc_utxos t)
       \<and> strip (bc_utxos t) = apply_transactions P (blk_transactions b) (strip (bc_utxos s))"
proof -
  let ?s = "s\<lparr>bc_utxos := apply_transactions P (blk_transactions b) (bc_utxos s)\<rparr>"
  have st: "mp_step ?s t" unfolding t_def apply_block_def by (rule evict_mp_step)
  show "mempool_ok t" unfolding t_def apply_block_def by (rule evict_mempool_ok)
  show "bc_target t = bc_target s" "bc_blocks t = bc_blocks s" "bc_active_chain t = bc_active_chain s"
    "bc_orphans t = bc_orphans s" "bc_pending_prunes t = bc_pending_prunes s" using st by (simp_all add: mp_step_def)
  assume wf: "bm_wf (bc_utxos s)"
  then show "bm_wf (bc_utxos t)
       \<and> strip (bc_utxos t) = apply_transactions P (blk_transactions b) (strip (bc_utxos s))"
    using mp_step_strip [OF st] st by (simp add: mp_step_def strip_apply_transactions)
qed

lemma try_adjust_target_incremental:
  assumes "bc_active_chain s = map (block_hash P) (A @ [b])" "stored P (bc_blocks s) (A @ [b])"
    and "recompute_target P A = Ok (bc_target s)"
  shows "try_adjust_target P s = recompute_target P (A @ [b])"
proof -
  let ?D = DIFFICULTY_UPDATE_INTERVAL
  let ?C = "A @ [b]"
  let ?k = "Suc (length A) - ?D"
  have k: "?k < length ?C" by (simp add: DIFFICULTY_UPDATE_INTERVAL_def)
  then have "?C ! ?k \<in> set ?C" by (rule nth_mem)
  then have w: "bm_get (bc_blocks s) (block_hash P (?C ! ?k)) = Some (?C ! ?k)"
    using assms(2) unfolding stored_def by blast
  have "map (block_hash P) ?C ! ?k = block_hash P (?C ! ?k)" using k by (rule nth_map)
  moreover have "map (block_hash P) ?C ! length A = block_hash P b" by (simp add: nth_append)
  ultimately have "window_times (bc_blocks s) (map (block_hash P) ?C) (Suc (length A))
      = Ok (block_time (?C ! ?k), block_time b)"
    using w assms(2) by (simp only: window_times_def) simp
  then show ?thesis
    using assms(1,3) by (simp add: try_adjust_target_def recompute_target_snoc Let_def)
qed

text \<open>No block appears but the one given, and what is newly pending deletion is out of the block map.\<close>

definition grown :: "prims \<Rightarrow> block \<Rightarrow> blockchain \<Rightarrow> blockchain \<Rightarrow> bool" where
  "grown P b s t \<longleftrightarrow>
     (\<forall>k x. bm_get (bc_blocks t) k = Some x \<longrightarrow> bm_get (bc_blocks s) k = Some x \<or> k = block_hash P b \<and> x = b)
     \<and> (\<exists>ps. bc_pending_prunes t = bc_pending_prunes s @ ps \<and> (\<forall>p \<in> set ps. \<not> bm_contains p (bc_blocks t)))"

lemma grown_insert:
  "bc_blocks t = bm_insert (block_hash P b) b (bc_blocks s) \<Longrightarrow> bc_pending_prunes t = bc_pending_prunes s \<Longrightarrow> grown P b s t"
  by (simp add: grown_def)

lemma grown_pruned:
  assumes "bc_blocks u = bm_insert (block_hash P b) b (bc_blocks s)" "bc_pending_prunes u = bc_pending_prunes s"
    and "bc_blocks t = fold bm_remove ps (bc_blocks u)" "bc_pending_prunes t = bc_pending_prunes u @ ps"
  shows "grown P b s t"
  using assms by (auto simp: grown_def bm.get_fold_rem bm_contains_def split: if_splits)

lemma prune_chain_inv:
  assumes inv: "chain_inv P U s A" and "prims_ok P"
  shows "\<exists>t ps. prune_side_blocks P keep s = (Ok (), t) \<and> chain_inv P U t A \<and> bc_orphans t = bc_orphans s
    \<and> bc_blocks t = fold bm_remove ps (bc_blocks s) \<and> bc_pending_prunes t = bc_pending_prunes s @ ps"
proof -
  note inv' = inv [unfolded chain_inv_def active_rep_def]
  let ?keys = "hash_iter P (bm_keys (bc_blocks s))"
  have keys: "set ?keys = {h. bm_contains h (bc_blocks s)}"
    using assms(2) mset_eq_setD [of ?keys "bm_keys (bc_blocks s)"] by (simp add: prims_ok_def bm_keys_set)
  have "\<exists>ps. prunable_loop (bc_blocks s) (active_chain_index (map (block_hash P) A)) (length A) keep ?keys = Ok ps
      \<and> (\<forall>h. h \<in> set ps \<longleftrightarrow> h \<in> set ?keys \<and> deep_branch P (bc_blocks s) A keep h)"
    by (rule prunable_loop_spec) (use inv' keys in auto)
  then obtain ps where ps: "prunable_side_blocks P s keep = Ok ps"
    "\<And>h. h \<in> set ps \<longleftrightarrow> bm_contains h (bc_blocks s) \<and> deep_branch P (bc_blocks s) A keep h"
    using inv' by (auto simp: prunable_side_blocks_def keys)
  let ?blocks = "fold bm_remove ps (bc_blocks s)"
  let ?t = "s\<lparr>bc_blocks := ?blocks, bc_pending_prunes := bc_pending_prunes s @ ps\<rparr>"
  have st: "store_ok P ?blocks \<and> stored P ?blocks A"
    by (rule prune_keeps_store) (use inv' ps in auto)
  have "stored P (bc_blocks s) cs" if "stored P ?blocks cs" for cs
    using that unfolding stored_def bm.get_fold_rem by (metis option.distinct(1))
  then have "heaviest P ?blocks A" using inv' by (auto simp: heaviest_def)
  then have "chain_inv P U ?t A"
    using inv' st within_fold_remove [of U "bc_blocks s" ps]
    by (simp add: chain_inv_def active_rep_def mempool_ok_def)
  moreover have "prune_side_blocks P keep s = (Ok (), ?t)" using ps(1) by (simp add: prune_side_blocks_def)
  ultimately show ?thesis by (intro exI [of _ ?t] exI [of _ ps]) simp
qed

lemma heaviest_insert:
  assumes "store_ok P blocks" "heaviest P blocks A"
    and "block_hash P b \<noteq> hash_zero" "\<forall>b'. bm_get blocks (block_hash P b) = Some b' \<longrightarrow> b' = b"
    and "valid_chain P (C @ [b])" "stored P blocks C"
    and "chain_weight A \<le> chain_weight B" "chain_weight (C @ [b]) \<le> chain_weight B"
  shows "heaviest P (bm_insert (block_hash P b) b blocks) B"
  unfolding heaviest_def
proof (intro allI impI)
  fix cs assume "valid_chain P cs" "stored P (bm_insert (block_hash P b) b blocks) cs"
  then have "stored P blocks cs \<or> cs = C @ [b]" by (rule stored_insert_cases [OF assms(1,3-6)])
  then show "chain_weight cs \<le> chain_weight B"
    using assms(2,7,8) \<open>valid_chain P cs\<close> unfolding heaviest_def by (metis le_trans)
qed

lemma stored_insert:
  "stored P blocks C \<Longrightarrow> \<forall>b'. bm_get blocks (block_hash P b) = Some b' \<longrightarrow> b' = b
     \<Longrightarrow> stored P (bm_insert (block_hash P b) b blocks) C"
  by (auto simp: stored_def)

lemma extended_chain_inv:
  assumes inv: "chain_inv P U s A" and ok: "good_hashes P U" "prims_ok P" "b \<in> U"
    and chk: "attaches P A b" "block_ok P A b" and t: "recompute_target P (A @ [b]) = Ok tgt"
  shows "chain_inv P U ((apply_block P now b s)\<lparr>bc_blocks := bm_insert (block_hash P b) b (bc_blocks s),
           bc_active_chain := bc_active_chain s @ [block_hash P b], bc_target := tgt\<rparr>) (A @ [b])"
proof -
  note inv' = inv [unfolded chain_inv_def active_rep_def]
  let ?h = "block_hash P b"
  let ?blocks = "bm_insert ?h b (bc_blocks s)"
  note fr = apply_block_frame [of "apply_block P now b s" P now b s, OF refl]
  have new: "?h \<noteq> hash_zero" "\<forall>b'. bm_get (bc_blocks s) ?h = Some b' \<longrightarrow> b' = b"
    using ok no_collision [OF ok(1) _ _ ok(3)] inv' by (auto simp: good_hashes_def store_ok_def)
  have v: "valid_chain P (A @ [b])" using inv' chk by (simp add: valid_chain_snoc)
  have st: "stored P ?blocks (A @ [b])" using stored_insert new(2) inv' by simp
  have "heaviest P ?blocks (A @ [b])"
    by (rule heaviest_insert [where A = A and C = A])
      (use inv' new v chain_weight_append [of A "[b]"] in auto)
  moreover have "store_ok P ?blocks" by (rule store_ok_insert) (use inv' new v in auto)
  ultimately show ?thesis
    using inv' fr st v t within_insert [OF _ ok(3)]
    by (simp add: chain_inv_def active_rep_def replay_blocks_snoc mempool_ok_def)
qed

text \<open>How an attempt to add a block ends.\<close>

definition added ::
  "prims \<Rightarrow> block set \<Rightarrow> block \<Rightarrow> blockchain \<Rightarrow> block list \<Rightarrow> hash chain_result \<Rightarrow> blockchain \<Rightarrow> block list \<Rightarrow> bool" where
  "added P U b s A r t A' \<longleftrightarrow>
     chain_inv P U t A' \<and> chain_weight A \<le> chain_weight A'
     \<and> (case r of
          Ok h \<Rightarrow> h = block_hash P b \<and> bc_orphans t = bc_orphans s \<and> bm_get (bc_blocks t) h = Some b \<and> grown P b s t
        | Err e \<Rightarrow> A' = A \<and> (t = s \<or> e = OrphanBlock \<and> length (bc_orphans s) < MAX_ORPHAN_BLOCKS
                         \<and> t = s\<lparr>bc_orphans := bm_insert (block_hash P b) b (bc_orphans s)\<rparr>)
        | Panic \<Rightarrow> A' = A \<and> t = s \<and> blk_transactions b = []
        | Cutoff \<Rightarrow> False)"

lemma added_unchanged:
  assumes "chain_inv P U s A" "r = Err e \<or> r = Panic \<and> blk_transactions b = []"
  shows "added P U b s A r s A"
  using assms by (auto simp: added_def)

text \<open>The block at the tip and the target that follows from it, before pruning.\<close>

definition extended :: "prims \<Rightarrow> instant \<Rightarrow> block \<Rightarrow> u256 \<Rightarrow> blockchain \<Rightarrow> blockchain" where
  "extended P now b tgt s = (apply_block P now b s)\<lparr>bc_blocks := bm_insert (block_hash P b) b (bc_blocks s),
     bc_active_chain := bc_active_chain s @ [block_hash P b], bc_target := tgt\<rparr>"

lemma add_block_extending_tip_eq:
  assumes inv: "chain_inv P U s A" and ok: "good_hashes P U" "prims_ok P" "b \<in> U"
    and prev: "bh_prev_block_hash (blk_header b) = tip_hash s" and chk: "check_extends_tip P now s b = Ok ()"
  obtains tgt where "chain_inv P U (extended P now b tgt s) (A @ [b])"
    "add_block_extending_tip P now b s =
       (if length (bc_active_chain (extended P now b tgt s)) mod DIFFICULTY_UPDATE_INTERVAL = 0
        then with_step (prune_side_blocks P SIDE_BRANCH_PRUNE_DEPTH (extended P now b tgt s)) (\<lambda>_ s4. (Ok (block_hash P b), s4))
        else (Ok (block_hash P b), extended P now b tgt s))"
proof -
  have rep: "active_rep P s A" using inv by (simp add: chain_inv_def)
  note fr = apply_block_frame [of "apply_block P now b s" P now b s, OF refl]
  have att: "attaches P A b" "block_ok P A b" using check_extends_tip_Ok [OF rep chk prev] by auto
  obtain tgt where tgt: "recompute_target P (A @ [b]) = Ok tgt" using recompute_target_total [OF ok(2)] by blast
  let ?s2 = "(apply_block P now b s)\<lparr>bc_blocks := bm_insert (block_hash P b) b (bc_blocks s),
         bc_active_chain := bc_active_chain s @ [block_hash P b]\<rparr>"
  have inv3: "chain_inv P U (extended P now b tgt s) (A @ [b])"
    using extended_chain_inv [OF inv ok att tgt] by (simp add: extended_def)
  then have "try_adjust_target P ?s2 = Ok tgt"
    using try_adjust_target_incremental [of ?s2 P A b] rep tgt fr
    by (simp add: chain_inv_def active_rep_def extended_def)
  with chk have "add_block_extending_tip P now b s =
      (if length (bc_active_chain (extended P now b tgt s)) mod DIFFICULTY_UPDATE_INTERVAL = 0
       then with_step (prune_side_blocks P SIDE_BRANCH_PRUNE_DEPTH (extended P now b tgt s)) (\<lambda>_ s4. (Ok (block_hash P b), s4))
       else (Ok (block_hash P b), extended P now b tgt s))"
    by (simp add: add_block_extending_tip_def with_check_def Let_def fr extended_def cong: if_cong)
  with inv3 show ?thesis by (rule that)
qed

lemma add_block_extending_tip_added:
  assumes inv: "chain_inv P U s A" and ok: "good_hashes P U" "prims_ok P" "b \<in> U"
    and prev: "bh_prev_block_hash (blk_header b) = tip_hash s"
    and run: "add_block_extending_tip P now b s = (r, t)"
  shows "\<exists>A'. added P U b s A r t A'"
proof -
  have rep: "active_rep P s A" using inv by (simp add: chain_inv_def)
  note fr = apply_block_frame [of "apply_block P now b s" P now b s, OF refl]
  show ?thesis
  proof (cases "check_extends_tip P now s b")
    case (Ok u)
    let ?h = "block_hash P b"
    from Ok have "check_extends_tip P now s b = Ok ()" by simp
    from add_block_extending_tip_eq [OF inv ok prev this] obtain tgt where
      inv3: "chain_inv P U (extended P now b tgt s) (A @ [b])"
      and eq: "add_block_extending_tip P now b s =
        (if length (bc_active_chain (extended P now b tgt s)) mod DIFFICULTY_UPDATE_INTERVAL = 0
         then with_step (prune_side_blocks P SIDE_BRANCH_PRUNE_DEPTH (extended P now b tgt s)) (\<lambda>_ s4. (Ok ?h, s4))
         else (Ok ?h, extended P now b tgt s))" by blast
    let ?s3 = "extended P now b tgt s"
    note run3 = eq [unfolded run]
    obtain s4 ps where s4: "prune_side_blocks P SIDE_BRANCH_PRUNE_DEPTH ?s3 = (Ok (), s4)"
      "chain_inv P U s4 (A @ [b])" "bc_orphans s4 = bc_orphans ?s3"
      "bc_blocks s4 = fold bm_remove ps (bc_blocks ?s3)" "bc_pending_prunes s4 = bc_pending_prunes ?s3 @ ps"
      using prune_chain_inv [OF inv3 ok(2)] by blast
    have "grown P b s ?s3" by (rule grown_insert) (simp_all add: extended_def fr)
    moreover have "grown P b s s4" by (rule grown_pruned [OF _ _ s4(4,5)]) (simp_all add: extended_def fr)
    moreover
    have "r = Ok ?h" "t = s4 \<or> t = ?s3" using run3
      by (auto simp: s4(1) with_step_def with_check_def split: if_splits)
    moreover have "added P U b s A (Ok ?h) ?s3 (A @ [b])" if "grown P b s ?s3"
      using inv3 fr that by (auto simp: added_def chain_weight_append extended_def)
    moreover have "added P U b s A (Ok ?h) s4 (A @ [b])" if "grown P b s s4"
      using s4(2,3) fr that by (auto simp: added_def chain_weight_append chain_inv_def active_rep_def extended_def)
    ultimately show ?thesis by auto
  next
    case (Err e)
    with run have "r = Err e" "t = s" by (auto simp: add_block_extending_tip_def with_check_def)
    with inv show ?thesis using added_unchanged by blast
  next
    case Panic
    with run have "r = Panic" "t = s" by (auto simp: add_block_extending_tip_def with_check_def)
    with inv show ?thesis using added_unchanged check_extends_tip_returns [OF rep ok(2)] Panic
      by (metis returns.simps(3))
  next
    case Cutoff
    with check_extends_tip_no_cutoff [OF rep ok(2)] show ?thesis by blast
  qed
qed

subsection \<open>Side branches and reorganisation\<close>

lemma check_side_block_Ok:
  assumes C: "valid_chain P C" "stored P (bc_blocks s) C" "C \<noteq> []"
    and chk: "check_side_block P now s (map (block_hash P) C) b = Ok ()"
    and prev: "bh_prev_block_hash (blk_header b) = block_hash P (last C)"
  shows "attaches P C b \<and> block_ok P C b"
proof -
  note look = stored_lookup [OF C(2)]
  have last: "bm_get (bc_blocks s) (last (map (block_hash P) C)) = Some (last C)"
    using C(2,3) by (simp add: last_map stored_def)
  have "attaches P C b"
    using chk prev C(3) last
    by (auto simp: check_side_block_def attaches_def outcome_simps Let_def block_time_def not_le split: if_splits)
  moreover have "block_ok P C b"
    using chk C(3) last
    by (auto simp: check_side_block_def block_ok_def outcome_simps Let_def look
        recompute_target_for_chain_eq [OF look] replay_utxos_def split: if_splits)
  ultimately show ?thesis by simp
qed

lemma check_side_block_outcome:
  assumes C: "stored P (bc_blocks s) C" "C \<noteq> []" and "prims_ok P"
  shows "check_side_block P now s (map (block_hash P) C) b \<noteq> Cutoff"
    and "blk_transactions b \<noteq> [] \<Longrightarrow> check_side_block P now s (map (block_hash P) C) b \<noteq> Panic"
proof -
  note look = stored_lookup [OF C(1)]
  obtain t where t: "recompute_target P C = Ok t" using recompute_target_total [OF assms(3)] by blast
  have last: "bm_get (bc_blocks s) (last (map (block_hash P) C)) = Some (last C)"
    using C by (simp add: last_map stored_def)
  note simps = check_side_block_def outcome_simps Let_def look t replay_utxos_def
    recompute_target_for_chain_eq [OF look] returns_iff
  show "check_side_block P now s (map (block_hash P) C) b \<noteq> Cutoff"
    using last check_returns(1) [of P b] check_returns(2) [of now s "bh_timestamp (blk_header b)"]
      verify_transactions_returns [of P b "of_nat (length C)" "replay_blocks P C"] check_merkle_no_cutoff [of P b]
    by (auto simp: simps)
  assume "blk_transactions b \<noteq> []"
  then show "check_side_block P now s (map (block_hash P) C) b \<noteq> Panic"
    using last check_returns(1) [of P b] check_returns(2) [of now s "bh_timestamp (blk_header b)"]
      verify_transactions_returns [of P b "of_nat (length C)" "replay_blocks P C"]
      check_merkle_returns [of b P]
    by (auto simp: simps)
qed

lemma fold_mark_mp_step:
  fixes es :: "(instant \<times> transaction) list"
  shows "mp_step s (s\<lparr>bc_utxos := fold (\<lambda>e. mark_transaction_utxos (snd e)) es (bc_utxos s)\<rparr>)"
proof -
  have "fold (\<lambda>e. mark_transaction_utxos (snd e)) es u = fold (set_mark True) (concat (map entry_hashes es)) u" for u
    by (induction es arbitrary: u) (simp_all add: mark_transaction_utxos_def entry_hashes_def)
  then show ?thesis by simp
qed

lemma sync_mempool_spec:
  assumes "stored P (bc_blocks s) A" "bc_active_chain s = map (block_hash P) A"
  shows "\<exists>t. sync_mempool_with_active_chain P now s = Ok t \<and> mempool_ok t
           \<and> mp_step (s\<lparr>bc_utxos := replay_blocks P A\<rparr>) t"
proof -
  let ?c = "set (map (transaction_hash P) (concat (map blk_transactions A)))"
  let ?s1 = "s\<lparr>bc_utxos := replay_blocks P A\<rparr>"
  let ?s2 = "evict_stale_mempool_entries P now ?c ?s1"
  let ?t = "?s2\<lparr>bc_utxos := fold (\<lambda>e. mark_transaction_utxos (snd e)) (bc_mempool ?s2) (bc_utxos ?s2)\<rparr>"
  note look = stored_lookup [OF assms(1)]
  have "sync_mempool_with_active_chain P now s = Ok ?t"
    by (simp add: sync_mempool_with_active_chain_def blocks_of_def assms(2) look rebuild_utxos_def
        replay_utxos_def Let_def)
  moreover have st: "mp_step ?s2 ?t" by (rule fold_mark_mp_step)
  moreover have "mempool_ok ?t"
    using evict_mempool_ok [of P now ?c ?s1] mp_step_contains [OF st] by (simp add: mempool_ok_def)
  ultimately show ?thesis using mp_step_trans [OF evict_mp_step st] by blast
qed

lemma reorg_to_spec:
  assumes st: "stored P (bc_blocks s) A" "bc_active_chain s = map (block_hash P) A"
    and new: "valid_chain P B" "stored P (bc_blocks s) B" and "prims_ok P" "fork \<le> length A"
  shows "\<exists>t. reorg_to P now fork (map (block_hash P) B) s = (Ok (), t)
           \<and> active_rep P t B \<and> mempool_ok t \<and> bc_blocks t = bc_blocks s \<and> bc_orphans t = bc_orphans s
           \<and> bc_pending_prunes t = bc_pending_prunes s"
proof -
  obtain tgt where tgt: "recompute_target P B = Ok tgt" using recompute_target_total [OF assms(5)] by blast
  let ?s1 = "s\<lparr>bc_active_chain := map (block_hash P) B, bc_target := tgt\<rparr>"
  have old: "lookup_blocks (bc_blocks s) (drop fork (map (block_hash P) A)) = Ok (drop fork A)"
    using st(1) stored_lookup [of P "bc_blocks s" "drop fork A"]
    by (auto simp: drop_map stored_def dest: in_set_dropD)
  from sync_mempool_spec [of P ?s1 B now] new obtain s2 where
    s2: "sync_mempool_with_active_chain P now ?s1 = Ok s2" "mempool_ok s2"
    "mp_step (?s1\<lparr>bc_utxos := replay_blocks P B\<rparr>) s2" by auto
  obtain r t where rt: "readmit P now (concat (map (tl \<circ> blk_transactions) (drop fork A))) s2 = (r, t)" by force
  note safe = readmit_safe [OF s2(2) rt]
  have step: "mp_step (?s1\<lparr>bc_utxos := replay_blocks P B\<rparr>) t" using mp_step_trans [OF s2(3)] safe by blast
  have "active_rep P (?s1\<lparr>bc_utxos := replay_blocks P B\<rparr>) B"
    using new tgt by (simp add: active_rep_def)
  then have "active_rep P t B" by (rule mp_step_active_rep [OF step])
  moreover have "reorg_to P now fork (map (block_hash P) B) s = (Ok (), t)"
    using old assms(6) rt safe s2(1) stored_lookup [OF new(2)] tgt
    by (simp add: reorg_to_def st(2) with_check_def Let_def recompute_target_for_chain_eq)
  ultimately show ?thesis using step safe by (auto simp: mp_step_def)
qed

lemma side_block_added:
  assumes inv: "chain_inv P U s A" and ok: "good_hashes P U" "prims_ok P" "b \<in> U"
    and C: "valid_chain P (C @ [b])" "stored P (bc_blocks s) C" and fork: "fork \<le> length A"
    and s1: "s1 = s\<lparr>bc_blocks := bm_insert (block_hash P b) b (bc_blocks s)\<rparr>"
  shows "\<exists>w w0. work_of_chain (bc_blocks s1) (map (block_hash P) (C @ [b])) = Ok w \<and> chain_work s1 = Ok w0
    \<and> (w \<le> w0 \<longrightarrow> added P U b s A (Ok (block_hash P b)) s1 A)
    \<and> (w0 < w \<longrightarrow> (\<exists>t. reorg_to P now fork (map (block_hash P) (C @ [b])) s1 = (Ok (), t)
                     \<and> added P U b s A (Ok (block_hash P b)) t (C @ [b])))"
proof -
  note inv' = inv [unfolded chain_inv_def active_rep_def]
  let ?h = "block_hash P b"
  let ?blocks = "bm_insert ?h b (bc_blocks s)"
  have new: "?h \<noteq> hash_zero" "\<forall>b'. bm_get (bc_blocks s) ?h = Some b' \<longrightarrow> b' = b"
    using ok no_collision [OF ok(1) _ _ ok(3)] inv' by (auto simp: good_hashes_def store_ok_def)
  have st: "stored P ?blocks A" "stored P ?blocks (C @ [b])" using stored_insert new(2) inv' C(2) by auto
  have U: "within U ?blocks" using inv' within_insert ok(3) by blast
  have store: "store_ok P ?blocks" by (rule store_ok_insert) (use inv' new C in auto)
  obtain w where w: "work_of_chain ?blocks (map (block_hash P) (C @ [b])) = Ok w" "unat w = chain_weight (C @ [b])"
    using work_of_stored_chain [OF C(1) st(2) ok(1) U] by blast
  obtain w0 where w0: "work_of_chain ?blocks (map (block_hash P) A) = Ok w0" "unat w0 = chain_weight A"
    using work_of_stored_chain [OF _ st(1) ok(1) U] inv' by blast
  have keep: "added P U b s A (Ok ?h) s1 A" if "w \<le> w0"
  proof -
    have le: "chain_weight (C @ [b]) \<le> chain_weight A" using that w(2) w0(2) by (simp add: word_le_nat_alt)
    have "heaviest P ?blocks A"
      by (rule heaviest_insert [where A = A and C = C]) (use inv' new C le in auto)
    moreover have "grown P b s s1" by (rule grown_insert) (simp_all add: s1)
    ultimately show ?thesis using inv' st store U
      by (simp add: added_def s1 chain_inv_def active_rep_def mempool_ok_def)
  qed
  have switch: "\<exists>t. reorg_to P now fork (map (block_hash P) (C @ [b])) s1 = (Ok (), t)
                     \<and> added P U b s A (Ok ?h) t (C @ [b])" if "w0 < w"
  proof -
    have le: "chain_weight A \<le> chain_weight (C @ [b])" using that w(2) w0(2) by (simp add: word_less_nat_alt)
    have hv: "heaviest P ?blocks (C @ [b])"
      by (rule heaviest_insert [where A = A and C = C]) (use inv' new C le in auto)
    obtain t where t: "reorg_to P now fork (map (block_hash P) (C @ [b])) s1 = (Ok (), t)"
      "active_rep P t (C @ [b])" "mempool_ok t" "bc_blocks t = bc_blocks s1" "bc_orphans t = bc_orphans s1"
      "bc_pending_prunes t = bc_pending_prunes s1"
      using reorg_to_spec [of P s1 A "C @ [b]" fork now] st inv' C(1) ok(2) fork by (auto simp: s1)
    have "grown P b s t" by (rule grown_insert) (simp_all add: t(4,6) s1)
    with t inv' st store U hv le have "added P U b s A (Ok ?h) t (C @ [b])"
      by (simp add: added_def s1 chain_inv_def)
    with t(1) show ?thesis by blast
  qed
  from w w0 keep switch inv' show ?thesis
    by (intro exI [of _ w] exI [of _ w0]) (auto simp: s1 chain_work_def)
qed

lemma buffer_orphan_added:
  assumes inv: "chain_inv P U s A" and "b \<in> U" and run: "buffer_orphan P b s = (r, t)"
  shows "added P U b s A r t A"
proof (cases "MAX_ORPHAN_BLOCKS \<le> length (bc_orphans s)")
  case True
  with run have "r = Err OrphanBlock" "t = s" by (auto simp: buffer_orphan_def)
  with inv show ?thesis by (auto intro: added_unchanged)
next
  case False
  let ?os = "bm_insert (block_hash P b) b (bc_orphans s)"
  let ?t = "s\<lparr>bc_orphans := ?os\<rparr>"
  from False run have rt: "r = Err OrphanBlock" "t = ?t" by (auto simp: buffer_orphan_def)
  have os: "bm_wf (bc_orphans s)" "\<forall>(h, b) \<in> set (bc_orphans s). h = block_hash P b"
    using inv by (auto simp: chain_inv_def orphans_ok_def)
  have "\<forall>(h, b) \<in> set ?os. h = block_hash P b"
    using os bm_insert_subset [of "block_hash P b" b "bc_orphans s"] by auto
  moreover have "length ?os \<le> MAX_ORPHAN_BLOCKS" using False os by (auto simp: length_bm_insert)
  ultimately have "orphans_ok P ?os" using os by (simp add: orphans_ok_def)
  with inv within_insert [OF _ assms(2)] have "chain_inv P U ?t A"
    by (simp add: chain_inv_def active_rep_def mempool_ok_def)
  with rt False show ?thesis by (simp add: added_def)
qed

lemma add_block_off_tip_added:
  assumes inv: "chain_inv P U s A" and ok: "good_hashes P U" "prims_ok P" "b \<in> U"
    and run: "add_block_off_tip P now b s = (r, t)"
  shows "\<exists>A'. added P U b s A r t A'"
proof -
  let ?parent = "bh_prev_block_hash (blk_header b)"
  note inv' = inv [unfolded chain_inv_def active_rep_def]
  have z: "\<not> bm_contains hash_zero (bc_blocks s)" using inv' by (simp add: store_ok_def)
  show ?thesis
  proof (cases "?parent = hash_zero \<or> \<not> bm_contains ?parent (bc_blocks s)")
    case True
    then have "r = Err InvalidBlock \<and> t = s \<or> buffer_orphan P b s = (r, t)"
      using run by (auto simp: add_block_off_tip_def Let_def split: if_splits)
    then show ?thesis
    proof
      assume "r = Err InvalidBlock \<and> t = s"
      with added_unchanged [OF inv, of r InvalidBlock b] show ?thesis by auto
    next
      assume "buffer_orphan P b s = (r, t)"
      with buffer_orphan_added [OF inv ok(3)] show ?thesis by auto
    qed
  next
    case False
    then obtain p where p: "bm_get (bc_blocks s) ?parent = Some p" by (auto simp: bm_contains_get)
    have "store_ok P (bc_blocks s)" using inv' by blast
    from this p obtain cs where cs: "valid_chain P (cs @ [p])" "stored P (bc_blocks s) (cs @ [p])"
      "?parent = block_hash P p" by (rule store_ok_chain)
    define C where "C = cs @ [p]"
    note C = cs [folded C_def]
    have C': "C \<noteq> []" "?parent = block_hash P (last C)" using cs(3) by (auto simp: C_def)
    obtain D1 D2 where sp: "fork_split A C D1 D2" using fork_split_exists by blast
    note pre = fork_split_prefix [OF z _ _ C(1,2) sp]
    have fork: "length D1 \<le> length A" "take (length D1) (bc_active_chain s) @ map (block_hash P) D2 = map (block_hash P) C"
      using pre inv' sp by (auto simp: take_map fork_split_def)
    have tr: "trace_branch s ?parent = Ok (Some (length D1, map (block_hash P) D2))"
      using trace_branch_fork [OF _ _ _ C(1,2) C'(1) sp] inv' C'(2) by (simp add: trace_branch_def)
    let ?h = "block_hash P b"
    let ?s1 = "s\<lparr>bc_blocks := bm_insert ?h b (bc_blocks s)\<rparr>"
    have run1: "with_check (check_side_block P now s (map (block_hash P) C) b) s (\<lambda>_.
        with_check (work_of_chain (bc_blocks ?s1) (map (block_hash P) (C @ [b]))) ?s1 (\<lambda>w.
        with_check (chain_work ?s1) ?s1 (\<lambda>w0.
          if w > w0 then with_step (reorg_to P now (length D1) (map (block_hash P) (C @ [b])) ?s1) (\<lambda>_ s2. (Ok ?h, s2))
          else (Ok ?h, ?s1)))) = (r, t)"
      using run False tr fork inv'
      by (simp add: add_block_off_tip_def Let_def with_check_def [of "Ok _"] not_less cong: if_cong del: append_assoc)
    show ?thesis
    proof (cases "check_side_block P now s (map (block_hash P) C) b")
      case (Ok u)
      then have chk: "attaches P C b" "block_ok P C b"
        using check_side_block_Ok [OF C(1,2) C'(1) _ C'(2)] by auto
      then have "valid_chain P (C @ [b])" using C(1) by (simp add: valid_chain_snoc)
      from side_block_added [OF inv ok this C(2) fork(1) refl, of now] obtain w w0 where
        w: "work_of_chain (bc_blocks ?s1) (map (block_hash P) (C @ [b])) = Ok w" "chain_work ?s1 = Ok w0"
        "w \<le> w0 \<Longrightarrow> added P U b s A (Ok ?h) ?s1 A"
        "w0 < w \<Longrightarrow> \<exists>t. reorg_to P now (length D1) (map (block_hash P) (C @ [b])) ?s1 = (Ok (), t)
                     \<and> added P U b s A (Ok ?h) t (C @ [b])" by blast
      show ?thesis
      proof (cases "w0 < w")
        case True
        then obtain t' where t': "reorg_to P now (length D1) (map (block_hash P) (C @ [b])) ?s1 = (Ok (), t')"
          "added P U b s A (Ok ?h) t' (C @ [b])" using w(4) by blast
        with run1 Ok w(1,2) True have "r = Ok ?h" "t = t'" by (auto simp: with_check_def with_step_def)
        with t'(2) show ?thesis by blast
      next
        case False
        with run1 Ok w(1,2) have "r = Ok ?h" "t = ?s1" by (auto simp: with_check_def)
        with w(3) False show ?thesis by (metis not_less)
      qed
    next
      case (Err e)
      with run1 have "r = Err e" "t = s" by (auto simp: with_check_def)
      with inv show ?thesis using added_unchanged by blast
    next
      case Panic
      with run1 have "r = Panic" "t = s" by (auto simp: with_check_def)
      with inv show ?thesis using added_unchanged check_side_block_outcome(2) [OF C(2) C'(1) ok(2)] Panic by blast
    next
      case Cutoff
      with check_side_block_outcome(1) [OF C(2) C'(1) ok(2)] show ?thesis by blast
    qed
  qed
qed

lemma add_block_once_added:
  assumes "chain_inv P U s A" "good_hashes P U" "prims_ok P" "b \<in> U" "add_block_once P now b s = (r, t)"
  shows "\<exists>A'. added P U b s A r t A'"
  using assms add_block_extending_tip_added add_block_off_tip_added
  unfolding add_block_once_def by (metis (full_types))

subsection \<open>Orphans\<close>

text \<open>
  Adding a block buffers at most that block, and attaching orphans only removes them, so the
  recursion is at most as deep as the buffer is long.
\<close>

definition settled ::
  "prims \<Rightarrow> block set \<Rightarrow> block list \<Rightarrow> (hash \<times> block) set \<Rightarrow> unit chain_result \<times> blockchain \<Rightarrow> bool" where
  "settled P U A os x \<longleftrightarrow>
     (\<exists>A'. chain_inv P U (snd x) A' \<and> chain_weight A \<le> chain_weight A')
     \<and> set (bc_orphans (snd x)) \<subseteq> os \<and> fst x \<noteq> Cutoff
     \<and> (fst x = Panic \<longrightarrow> (\<exists>b \<in> U. blk_transactions b = []))"

lemma chain_inv_remove_orphan:
  assumes "chain_inv P U s A"
  shows "chain_inv P U (s\<lparr>bc_orphans := bm_remove h (bc_orphans s)\<rparr>) A"
proof -
  have sub: "length (bm_remove h (bc_orphans s)) \<le> length (bc_orphans s)"
    "set (bm_remove h (bc_orphans s)) \<subseteq> set (bc_orphans s)" by (auto simp: bm_remove_def)
  then have "orphans_ok P (bm_remove h (bc_orphans s))"
    using assms by (auto simp: chain_inv_def orphans_ok_def intro: order_trans)
  moreover have "within U (bm_remove h (bc_orphans s))"
    using assms within_fold_remove [of U "bc_orphans s" "[h]"] by (simp add: chain_inv_def)
  ultimately show ?thesis using assms by (simp add: chain_inv_def active_rep_def mempool_ok_def)
qed

lemma orphans_length_card: "chain_inv P U s A \<Longrightarrow> length (bc_orphans s) = card (set (bc_orphans s))"
  unfolding chain_inv_def orphans_ok_def
  by (metis bm_wf_distinct distinct_card distinct_map)

lemma attach_loop_settled:
  assumes add: "\<And>b s A. chain_inv P U s A \<Longrightarrow> b \<in> U \<Longrightarrow> length (bc_orphans s) < n \<Longrightarrow>
        settled P U A (set (bc_orphans s) \<union> {(block_hash P b, b)}) (add b s)"
    and "finite os" "card os \<le> n"
    and "chain_inv P U s A" "set (bc_orphans s) \<subseteq> os" "\<forall>b \<in> set bs. b \<in> U \<and> (block_hash P b, b) \<in> os"
  shows "settled P U A os (attach_loop add P bs s)"
  using assms(4-6)
proof (induction bs arbitrary: s A)
  case (Cons b bs)
  let ?s = "s\<lparr>bc_orphans := bm_remove (block_hash P b) (bc_orphans s)\<rparr>"
  have inv: "chain_inv P U ?s A" by (rule chain_inv_remove_orphan [OF Cons.prems(1)])
  have sub: "set (bc_orphans ?s) \<subseteq> os - {(block_hash P b, b)}" using Cons.prems(2) by (auto simp: bm_remove_def)
  have "length (bc_orphans ?s) \<le> card (os - {(block_hash P b, b)})"
    unfolding orphans_length_card [OF inv] using assms(2) by (intro card_mono sub) auto
  also have "\<dots> < card os" using assms(2) Cons.prems(3) by (intro card_Diff1_less) auto
  finally have "length (bc_orphans ?s) < n" using assms(3) by simp
  from add [OF inv _ this] Cons.prems(3)
  have one: "settled P U A (set (bc_orphans ?s) \<union> {(block_hash P b, b)}) (add b ?s)" by simp
  obtain q u where q: "add b ?s = (q, u)" by force
  have os: "set (bc_orphans u) \<subseteq> os" using one sub Cons.prems(3) by (auto simp: settled_def q)
  from one obtain A' where A': "chain_inv P U u A'" "chain_weight A \<le> chain_weight A'" by (auto simp: settled_def q)
  show ?case
  proof (cases "returns q")
    case True
    then have "attach_loop add P (b # bs) s = attach_loop add P bs u" using q by (cases q) auto
    moreover have "settled P U A' os (attach_loop add P bs u)"
      by (rule Cons.IH) (use A' os Cons.prems(3) in auto)
    ultimately show ?thesis using A'(2) by (auto simp: settled_def intro: le_trans)
  next
    case False
    with one os q have "attach_loop add P (b # bs) s = (Panic, u)" "q = Panic"
      by (cases q; auto simp: settled_def)+
    with one os q A' show ?thesis by (auto simp: settled_def)
  qed
qed (auto simp: settled_def)

lemma ready_orphans_sub:
  assumes "chain_inv P U s A" "prims_ok P" "b \<in> set (ready_orphans P h s)"
  shows "b \<in> U \<and> (block_hash P b, b) \<in> set (bc_orphans s)"
proof -
  from assms(3) obtain k where "bm_get (bc_orphans s) k = Some b"
    by (auto simp: ready_orphans_def List.map_filter_def)
  then have "(k, b) \<in> set (bc_orphans s)" by (rule bm_get_in_set)
  with assms(1) show ?thesis by (auto simp: chain_inv_def orphans_ok_def within_def)
qed

lemma add_block_fuel_settled:
  assumes ok: "good_hashes P U" "prims_ok P"
  shows "chain_inv P U s A \<Longrightarrow> b \<in> U \<Longrightarrow> length (bc_orphans s) < fuel \<Longrightarrow>
    settled P U A (set (bc_orphans s) \<union> {(block_hash P b, b)}) (add_block_fuel fuel P now b s)"
proof (induction fuel arbitrary: s A b)
  case (Suc fuel)
  obtain r u where r: "add_block_once P now b s = (r, u)" by force
  obtain A' where added: "added P U b s A r u A'"
    using add_block_once_added [OF Suc.prems(1) ok Suc.prems(2) r] by blast
  show ?case
  proof (cases r)
    case (Ok h)
    then have u: "chain_inv P U u A'" "chain_weight A \<le> chain_weight A'" "bc_orphans u = bc_orphans s"
      using added by (auto simp: added_def)
    have "settled P U A' (set (bc_orphans s))
        (attach_loop (add_block_fuel fuel P now) P (ready_orphans P h u) u)"
    proof (rule attach_loop_settled [where n = fuel])
      show "card (set (bc_orphans s)) \<le> fuel"
        using Suc.prems orphans_length_card [OF Suc.prems(1)] by simp
      show "\<forall>b \<in> set (ready_orphans P h u). b \<in> U \<and> (block_hash P b, b) \<in> set (bc_orphans s)"
        using ready_orphans_sub [OF u(1) ok(2)] u(3) by simp
    qed (use Suc.IH u in auto)
    with Ok r u show ?thesis
      by (auto simp: with_step_def with_check_def settled_def intro: le_trans)
  next
    case (Err e)
    with added r bm_insert_subset [of "block_hash P b" b "bc_orphans s"] show ?thesis
      by (auto simp: with_step_def with_check_def settled_def added_def)
  qed (use added r Suc.prems(2) in \<open>auto simp: with_step_def with_check_def settled_def added_def\<close>)
qed simp

lemma add_block_settled:
  assumes "good_hashes P U" "prims_ok P" "chain_inv P U s A" "b \<in> U"
  shows "settled P U A (set (bc_orphans s) \<union> {(block_hash P b, b)}) (add_block P now b s)"
  unfolding add_block_def by (rule add_block_fuel_settled) (use assms in auto)

end
