(* ===== verification/Chain_Node.thy ===== *)
theory Chain_Node
  imports Chain_Invariant
begin

text \<open>
  The chain as a state machine: the states a node reaches from \<open>Blockchain::new\<close> by any
  sequence of calls to the public operations that change state, whatever blocks, transactions,
  clock readings and offsets they are given.  The theorems speak of every such state.
  \<open>try_adjust_target\<close> and \<open>rebuild_utxos\<close> are public too, but nothing outside \<open>Blockchain\<close> calls
  them; they occur here as parts of the operations that do.
\<close>

subsection \<open>Reachable states\<close>

datatype chain_call =
    AddBlock instant block
  | AddToMempool instant transaction
  | CleanupMempool instant
  | SetTimeOffset duration
  | TakePrunedHashes

fun run_call :: "prims \<Rightarrow> chain_call \<Rightarrow> blockchain \<Rightarrow> blockchain" where
  "run_call P (AddBlock now b) s = snd (add_block P now b s)"
| "run_call P (AddToMempool now tx) s = snd (add_to_mempool P now tx s)"
| "run_call P (CleanupMempool now) s = cleanup_mempool now s"
| "run_call P (SetTimeOffset off) s = set_time_offset off s"
| "run_call P TakePrunedHashes s = snd (take_pruned_hashes s)"

fun call_blocks :: "chain_call \<Rightarrow> block set" where
  "call_blocks (AddBlock now b) = {b}"
| "call_blocks _ = {}"

inductive chain_step :: "prims \<Rightarrow> block set \<Rightarrow> blockchain \<Rightarrow> blockchain \<Rightarrow> bool" for P U where
  step: "call_blocks c \<subseteq> U \<Longrightarrow> chain_step P U s (run_call P c s)"

inductive reachable :: "prims \<Rightarrow> block set \<Rightarrow> blockchain \<Rightarrow> bool" for P U where
  start: "reachable P U blockchain_new"
| next_state: "reachable P U s \<Longrightarrow> chain_step P U s t \<Longrightarrow> reachable P U t"

inductive_cases chain_stepE: "chain_step P U s t"

lemma chain_inv_new: "chain_inv P U blockchain_new []"
proof -
  have "cs = []" if "stored P [] cs" for cs using that by (cases cs) auto
  then show ?thesis
    by (auto simp: chain_inv_def blockchain_new_def store_ok_def keyed_def bm_contains_def active_rep_def
        heaviest_def mempool_ok_def orphans_ok_def within_def recompute_target_def retarget_times.simps
        DIFFICULTY_UPDATE_INTERVAL_def strip_def replay_blocks_def MAX_ORPHAN_BLOCKS_def)
qed

lemma run_call_inv:
  assumes ok: "good_hashes P U" "prims_ok P" and inv: "chain_inv P U s A" and "call_blocks c \<subseteq> U"
  shows "\<exists>A'. chain_inv P U (run_call P c s) A' \<and> chain_weight A \<le> chain_weight A'"
proof (cases c)
  case (AddBlock now b)
  then show ?thesis using add_block_settled [OF ok inv, of b now] assms(4) by (auto simp: settled_def)
next
  case (AddToMempool now tx)
  have "mempool_ok s" using inv by (simp add: chain_inv_def)
  from add_to_mempool_safe [OF this, of P now tx] AddToMempool inv mp_step_chain_inv show ?thesis
    by (metis dual_order.refl run_call.simps(2) surjective_pairing)
next
  case (CleanupMempool now)
  have "mempool_ok s" using inv by (simp add: chain_inv_def)
  with CleanupMempool mp_step_chain_inv [OF cleanup_mp_step cleanup_mempool_ok inv] show ?thesis by auto
qed (use inv in \<open>auto simp: chain_inv_def active_rep_def mempool_ok_def set_time_offset_def take_pruned_hashes_def\<close>)

lemma reachable_inv:
  assumes "reachable P U s" "good_hashes P U" "prims_ok P"
  shows "\<exists>A. chain_inv P U s A"
  using assms(1)
proof (induction rule: reachable.induct)
  case start
  then show ?case using chain_inv_new by blast
next
  case (next_state s t)
  then show ?case using run_call_inv [OF assms(2,3)] by (metis chain_stepE)
qed

lemma chain_work_weight:
  assumes "chain_inv P U s A" "good_hashes P U"
  shows "\<exists>w. chain_work s = Ok w \<and> unat w = chain_weight A"
  using work_of_stored_chain [of P A "bc_blocks s" U] assms
  by (simp add: chain_work_def chain_inv_def active_rep_def)

lemma blocks_of_rep: "active_rep P s A \<Longrightarrow> blocks_of s = Ok A"
  by (simp add: blocks_of_def active_rep_def stored_lookup)

subsection \<open>What holds in every reachable state\<close>

text \<open>
  C1: refinement of the abstract ledger.  In every reachable state the active chain is a list
  of stored blocks that is valid from genesis to tip, and the two quantities the node maintains
  block by block, through forks, reorganisations, pruning and mempool traffic, are exactly what
  replaying that chain from genesis yields: the difficulty target, and the unspent outputs
  (their mempool marks aside).
\<close>

theorem reachable_refines_ledger:
  assumes "reachable P U s" "good_hashes P U" "prims_ok P"
  shows "\<exists>A. blocks_of s = Ok A \<and> bc_active_chain s = map (block_hash P) A \<and> valid_chain P A
    \<and> recompute_target P A = Ok (bc_target s) \<and> strip (bc_utxos s) = replay_blocks P A"
proof -
  obtain A where inv: "chain_inv P U s A" using reachable_inv [OF assms] by blast
  then have rep: "active_rep P s A" by (simp add: chain_inv_def)
  with blocks_of_rep [OF rep] show ?thesis by (auto simp: active_rep_def)
qed

text \<open>
  C2: fork choice.  In every reachable state the work of the active chain is defined, and no
  valid chain whose blocks the node holds has more.
\<close>

theorem reachable_heaviest:
  assumes "reachable P U s" "good_hashes P U" "prims_ok P"
    and "valid_chain P cs" "stored P (bc_blocks s) cs"
  shows "\<exists>w. chain_work s = Ok w \<and> chain_weight cs \<le> unat w"
proof -
  obtain A where inv: "chain_inv P U s A" using reachable_inv [OF assms(1-3)] by blast
  then have "chain_weight cs \<le> chain_weight A" using assms(4,5) by (auto simp: chain_inv_def heaviest_def)
  with chain_work_weight [OF inv assms(2)] show ?thesis by auto
qed

text \<open>
  The work of the active chain never decreases, whichever public operation runs.
\<close>

theorem chain_work_monotone:
  assumes "reachable P U s" "good_hashes P U" "prims_ok P" "chain_step P U s t"
  shows "\<exists>w w'. chain_work s = Ok w \<and> chain_work t = Ok w' \<and> w \<le> w'"
proof -
  obtain A where inv: "chain_inv P U s A" using reachable_inv [OF assms(1-3)] by blast
  obtain B where "chain_inv P U t B" "chain_weight A \<le> chain_weight B"
    using run_call_inv [OF assms(2,3) inv] assms(4) by (auto elim!: chain_stepE)
  with chain_work_weight [OF _ assms(2)] inv show ?thesis by (metis word_le_nat_alt)
qed

text \<open>
  C3: \<open>add_block\<close> always comes back.  In a reachable state neither an \<open>expect\<close>, an index, an
  overflow nor an unbounded loop stops it, whatever block it is given, provided no block that
  was ever received is without transactions; the walk to the fork point and the orphan
  recursion stay within one step per stored block and one level per orphan.
\<close>

theorem add_block_returns:
  assumes "reachable P U s" "good_hashes P U" "prims_ok P" "b \<in> U"
    and "\<forall>x \<in> U. blk_transactions x \<noteq> []"
  shows "returns (fst (add_block P now b s))"
proof -
  obtain A where inv: "chain_inv P U s A" using reachable_inv [OF assms(1-3)] by blast
  from add_block_settled [OF assms(2,3) inv assms(4), of now] assms(5) show ?thesis
    by (auto simp: settled_def returns_iff)
qed

text \<open>
  C8: the provision is needed.  A block without transactions that extends the tip, names the
  expected target, meets it and is not from the future panics the node: the Merkle root of an
  empty list is taken before the transactions are checked to exist.
\<close>

theorem empty_block_panics:
  assumes "bc_active_chain s \<noteq> []" "bh_prev_block_hash (blk_header b) = last (bc_active_chain s)"
    and "bh_target (blk_header b) = bc_target s"
    and "matches_target (header_hash P (blk_header b)) (bc_target s)"
    and "bh_timestamp (blk_header b) \<le> now + bc_time_offset s" "blk_transactions b = []"
  shows "fst (add_block P now b s) = Panic"
proof -
  have "check_extends_tip P now s b = Panic"
    using assms
    by (simp add: check_extends_tip_def check_block_size_def check_timestamp_def check_merkle_def Let_def
        merkle_root_outcome seconds_def nanos_per_sec_def MAX_FUTURE_BLOCK_DRIFT_SECONDS_def)
  then have "add_block_once P now b s = (Panic, s)"
    using assms by (simp add: add_block_once_def tip_hash_def add_block_extending_tip_def with_check_def)
  then show ?thesis by (simp add: add_block_def with_step_def with_check_def)
qed

text \<open>
  C4: the money supply of the running node.  In every reachable state the unspent outputs the
  node holds are worth at most 787,500 coins, and at most what the schedule has minted up to
  the tip.
\<close>

theorem reachable_supply:
  assumes "reachable P U s" "good_hashes P U" "prims_ok P" "length (bc_active_chain s) \<le> 2 ^ 64"
  shows "utxo_total (bc_utxos s) \<le> emission (length (bc_active_chain s))
       \<and> utxo_total (bc_utxos s) \<le> 7875 * 10 ^ 10"
proof -
  obtain A where inv: "chain_inv P U s A" using reachable_inv [OF assms(1-3)] by blast
  then have A: "bc_active_chain s = map (block_hash P) A" "valid_chain P A" "strip (bc_utxos s) = replay_blocks P A"
    by (auto simp: chain_inv_def active_rep_def)
  then have "utxo_total (bc_utxos s) = utxo_total (replay_blocks P A)" using utxo_total_strip [of "bc_utxos s"] by simp
  with chain_supply [OF A(2)] assms(4) A(1) show ?thesis by simp
qed

text \<open>
  Bounded memory for blocks that cannot be placed yet.  In every reachable state at most 50
  orphans are buffered, each under its own hash, and every block in the block map is stored
  under its own hash and ends a stored valid chain from genesis: pruning never strands a block.
\<close>

theorem reachable_store_closed:
  assumes "reachable P U s" "good_hashes P U" "prims_ok P"
  shows "length (bc_orphans s) \<le> MAX_ORPHAN_BLOCKS
    \<and> (\<forall>h b. get_block s h = Some b \<longrightarrow>
          h = block_hash P b \<and> (\<exists>cs. valid_chain P (cs @ [b]) \<and> stored P (bc_blocks s) (cs @ [b])))"
proof -
  obtain A where inv: "chain_inv P U s A" using reachable_inv [OF assms(1-3)] by blast
  then have "store_ok P (bc_blocks s)" "length (bc_orphans s) \<le> MAX_ORPHAN_BLOCKS"
    by (auto simp: chain_inv_def orphans_ok_def)
  then show ?thesis unfolding store_ok_def keyed_def get_block_def by blast
qed

end
