(* ===== verification/Chain_Witnesses.thy ===== *)
theory Chain_Witnesses
  imports Chain_Node
begin

text \<open>
  One concrete instance of the packages outside the repository, small enough to compute with,
  and the chain theorems applied to it.  Digests are the padded message, an encoding is the
  one byte that tells the few objects used here apart, and a signature is the key followed by
  the message.
\<close>

definition sample_digest :: "byte list \<Rightarrow> byte list" where
  "sample_digest bs = take 32 (bs @ replicate 32 0)"

fun sample_verify :: "public_key \<Rightarrow> byte list \<Rightarrow> signature \<Rightarrow> bool" where
  "sample_verify (PublicKey k) m (Signature s) \<longleftrightarrow> s = k @ m"

fun sample_sign :: "private_key \<Rightarrow> byte list \<Rightarrow> signature" where
  "sample_sign (PrivateKey k) m = Signature (k @ m)"

fun sample_public :: "private_key \<Rightarrow> public_key" where
  "sample_public (PrivateKey k) = PublicKey k"

definition sample :: prims where
  "sample =
     \<lparr>sha256_digest = sample_digest,
      cbor_string = (\<lambda>s. [of_nat (length s)]),
      cbor_hash_pair = (\<lambda>a b. [1]),
      cbor_output = (\<lambda>o'. [ucast (txo_unique_id o')]),
      cbor_transaction = (\<lambda>tx. [of_nat (length (tx_inputs tx)), of_nat (length (tx_outputs tx))]),
      cbor_header = (\<lambda>h. [1]),
      cbor_block = (\<lambda>b. [of_int (block_time b) + 1]),
      signing_key_from_slice = (\<lambda>bs. Some (PrivateKey [7])),
      verifying_key = sample_public,
      ecdsa_sign = sample_sign,
      ecdsa_verify = sample_verify,
      decimal_scale = (\<lambda>t a b. t * a div b),
      hash_iter = (\<lambda>hs. hs)\<rparr>"

lemma le_value_zeros [simp]: "le_value (replicate n 0) = 0"
  by (induction n) auto

lemma sample_hash1: "hash_bytes sample [x] = ucast x"
  by (simp add: hash_bytes_def sample_def sample_digest_def u256_from_little_endian_def)

lemma sample_hash2: "hash_bytes sample [x, y] = ucast x + 256 * ucast y"
  by (simp add: hash_bytes_def sample_def sample_digest_def u256_from_little_endian_def)

lemma sample_block_hash: "block_hash sample b = ucast (of_int (block_time b) + 1 :: byte)"
  unfolding block_hash_def sample_hash1 [symmetric] by (simp add: sample_def)

lemma sample_header_hash: "header_hash sample h = 1"
proof -
  have "header_hash sample h = hash_bytes sample [1]" by (simp add: header_hash_def sample_def)
  then show ?thesis by (simp add: sample_hash1)
qed

lemma sample_output_hash: "output_hash sample o' = ucast (ucast (txo_unique_id o') :: byte)"
  unfolding output_hash_def sample_hash1 [symmetric] by (simp add: sample_def)

lemma sample_transaction_hash:
  "transaction_hash sample tx = ucast (of_nat (length (tx_inputs tx)) :: byte)
     + 256 * ucast (of_nat (length (tx_outputs tx)) :: byte)"
  unfolding transaction_hash_def sample_hash2 [symmetric] by (simp add: sample_def)

lemma sample_key: "signing_key_from_slice sample bs = Some (PrivateKey [7])" "verifying_key sample (PrivateKey [7]) = PublicKey [7]"
  by (simp_all add: sample_def)

lemma sample_signed: "input_verifies sample (signed_input sample h outs (PrivateKey k)) outs (PublicKey k)"
  by (simp add: input_verifies_def signed_input_def signature_verify_def sign_output_def sample_def)

lemma sample_size: "transaction_serialized_size sample tx = 2"
  by (simp add: transaction_serialized_size_def sample_def)

lemmas sample_hashes = sample_block_hash sample_header_hash sample_output_hash sample_transaction_hash sample_size

subsection \<open>A genesis block\<close>

definition coin0 :: transaction_output where
  "coin0 = \<lparr>txo_value = 5000000000, txo_unique_id = 0, txo_pubkey = PublicKey [7]\<rparr>"

definition genesis0 :: block where
  "genesis0 = \<lparr>blk_header = \<lparr>bh_timestamp = 0, bh_nonce = 0, bh_prev_block_hash = 0, bh_merkle_root = 256,
                             bh_target = MIN_TARGET\<rparr>,
               blk_transactions = [\<lparr>tx_inputs = [], tx_outputs = [coin0]\<rparr>]\<rparr>"

lemma merkle_single: "merkle_root_calculate P [tx] = Ok (transaction_hash P tx)"
  by (simp add: merkle_root_calculate_def merkle_layers.simps)

lemma MIN_TARGET_pos: "1 \<le> MIN_TARGET"
  by (simp add: MIN_TARGET_def)

lemma genesis_block_sample: "genesis_block sample = Ok genesis0"
  by (simp add: genesis_block_def sample_key merkle_single mine_def matches_target_def sample_hashes
      MIN_TARGET_pos genesis0_def coin0_def INITIAL_REWARD_def hash_zero_def Let_def)

lemma prims_ok_sample: "prims_ok sample"
  by (simp add: prims_ok_def genesis_block_sample) (simp add: sample_def)

definition state0 :: blockchain where
  "state0 = blockchain_new\<lparr>bc_utxos := [(0, False, coin0)], bc_blocks := [(1, genesis0)], bc_active_chain := [1]\<rparr>"

lemma verify_genesis0: "verify_transactions sample genesis0 0 [] = Ok ()"
  by (simp add: verify_transactions_def verify_coinbase_transaction_def calculate_miner_fees_def
      calculate_miner_fees_for_transactions_def genesis0_def coin0_def checked_add_def
      block_reward_at_height_def INITIAL_REWARD_def HALVING_INTERVAL_def)

lemma add_genesis0: "add_block sample 0 genesis0 blockchain_new = (Ok (), state0)"
proof -
  have "check_extends_tip sample 0 blockchain_new genesis0 = Ok ()"
    using verify_genesis0
    by (simp add: check_extends_tip_def genesis_hash_def genesis_block_sample blockchain_new_def matches_target_def
        sample_hashes MIN_TARGET_pos check_block_size_def check_timestamp_def check_merkle_def merkle_single
        block_height_def genesis0_def BLOCK_BYTE_CAP_def seconds_def nanos_per_sec_def
        MAX_FUTURE_BLOCK_DRIFT_SECONDS_def)
  then have "add_block_once sample 0 genesis0 blockchain_new = (Ok 1, state0)"
    by (simp add: add_block_once_def tip_hash_def hash_zero_def add_block_extending_tip_def with_check_def
        apply_block_def evict_stale_mempool_entries_def cleanup_mempool_def apply_transactions_def
        apply_transaction_def try_adjust_target_def DIFFICULTY_UPDATE_INTERVAL_def blockchain_new_def
        state0_def genesis0_def coin0_def sample_hashes block_time_def Let_def)
  then show ?thesis
    by (simp add: add_block_def with_step_def with_check_def ready_orphans_def state0_def blockchain_new_def
        sample_def List.map_filter_def bm_keys_def)
qed

lemma good_hashes_sample: "good_hashes sample {genesis0}"
  by (simp add: good_hashes_def sample_hashes genesis0_def block_time_def hash_zero_def)

lemma state0_reachable: "reachable sample {genesis0} state0"
proof -
  have "chain_step sample {genesis0} blockchain_new (run_call sample (AddBlock 0 genesis0) blockchain_new)"
    by (rule chain_step.step) simp
  then have "chain_step sample {genesis0} blockchain_new state0" by (simp add: add_genesis0)
  with reachable.start show ?thesis by (rule reachable.next_state)
qed

lemmas state0_hyps = state0_reachable good_hashes_sample prims_ok_sample

lemma genesis0_valid: "valid_chain sample [genesis0]"
proof -
  obtain A where A: "valid_chain sample A" "blocks_of state0 = Ok A"
    using reachable_inv [OF state0_hyps] blocks_of_rep by (auto simp: chain_inv_def active_rep_def)
  from A(2) have "A = [genesis0]" by (simp add: state0_def blocks_of_def bm_get_def)
  with A(1) show ?thesis by simp
qed

subsection \<open>The theorems at work\<close>

definition empty1 :: block where
  "empty1 = \<lparr>blk_header = \<lparr>bh_timestamp = 1, bh_nonce = 0, bh_prev_block_hash = 1, bh_merkle_root = 0,
                           bh_target = MIN_TARGET\<rparr>,
             blk_transactions = []\<rparr>"

definition pay_outs :: "transaction_output list" where
  "pay_outs = [\<lparr>txo_value = 4000000000, txo_unique_id = 5, txo_pubkey = PublicKey [9]\<rparr>]"

definition pay1 :: transaction where
  "pay1 = \<lparr>tx_inputs = [signed_input sample 0 pay_outs (PrivateKey [7])], tx_outputs = pay_outs\<rparr>"

definition state1 :: blockchain where
  "state1 = state0\<lparr>bc_utxos := [(0, True, coin0)], bc_mempool := [(3, pay1)]\<rparr>"

lemma signed_prev: "txi_prev_output_hash (signed_input P h outs k) = h"
  by (simp add: signed_input_def)

lemma pay1_fee: "transaction_fee [(0, m, coin0)] pay1 = Ok 1000000000"
  by (simp add: transaction_fee_def pay1_def pay_outs_def coin0_def signed_prev bm_get_def checked_add_def
      word_less_nat_alt)

lemma add_pay1: "add_to_mempool sample 3 pay1 state0 = (Ok (), state1)"
proof -
  have "transaction_fee [(0, m, coin0)] pay1 = Ok 1000000000" for m by (rule pay1_fee)
  moreover have "mempool_conserves [(0, m, coin0)] pay1 = Ok ()" for m
    by (simp add: mempool_conserves_def pay1_def pay_outs_def coin0_def signed_prev bm_get_def checked_add_def
        word_less_nat_alt)
  moreover have "mempool_check_inputs sample [(0, m, coin0)] (tx_outputs pay1) (tx_inputs pay1) {} = Ok ()" for m
    by (simp add: pay1_def signed_prev bm_get_def coin0_def sample_signed)
  moreover have "cleanup_mempool 3 state0 = state0"
    by (simp add: cleanup_mempool_def state0_def blockchain_new_def)
  moreover have "mempool_conflicts f (tx_inputs pay1) [] state0 = (Ok [], state0)" for f
    by (simp add: pay1_def signed_prev state0_def bm_get_def)
  moreover have "admit_to_mempool 3 pay1 state0 = (Ok (), state1)"
    by (simp add: admit_to_mempool_def sort_mempool_def mark_transaction_utxos_def state0_def state1_def
        blockchain_new_def set_mark_def bm_modify_def signed_prev Let_def)
      (simp add: pay1_def signed_prev set_mark_def bm_modify_def)
  moreover have "bc_utxos state0 = [(0, False, coin0)]" by (simp add: state0_def)
  ultimately show ?thesis by (simp add: add_to_mempool_def with_check_def with_step_def Let_def)
qed

lemma state0_excl: "mempool_excl state0"
  by (simp add: mempool_excl_def state0_def blockchain_new_def)

theorem mine_correct_witness:
  "mine sample 0 4 (blk_header genesis0) = (True, blk_header genesis0)
   \<and> matches_target (header_hash sample (blk_header genesis0)) (bh_target (blk_header genesis0))"
proof -
  have "mine sample 0 4 (blk_header genesis0) = (True, blk_header genesis0)"
    by (simp add: mine_def matches_target_def sample_hashes MIN_TARGET_pos genesis0_def)
  from mine_correct [OF this] this show ?thesis by blast
qed

theorem accepted_block_sound_witness:
  "verify_transactions sample genesis0 0 [] = Ok ()
   \<and> distinct (concat (map spent_hashes (blk_transactions genesis0)))
   \<and> sum_list (map out_total (blk_transactions genesis0))
       = unat (block_reward_at_height 0) + sum_list (map (in_total []) (blk_transactions genesis0))"
  using accepted_block_sound [OF verify_genesis0] verify_genesis0 by blast

theorem add_to_mempool_keeps_exclusive_witness:
  "returns (Ok () :: unit chain_result) \<and> mp_step state0 state1 \<and> mempool_excl state1"
  by (rule add_to_mempool_keeps_exclusive [OF state0_excl add_pay1])

theorem add_to_mempool_admits_witness:
  "add_to_mempool sample 3 pay1 state0 = (Ok (), state1) \<and> (3, pay1) \<in> set (bc_mempool state1)
    \<and> distinct (spent_hashes pay1) \<and> out_total pay1 \<le> in_total (bc_utxos state0) pay1
    \<and> sorted_wrt (\<ge>) (map (fee_or_zero (bc_utxos state1)) (bc_mempool state1))"
  using add_to_mempool_admits [OF mempool_excl_ok [OF state0_excl] add_pay1] add_pay1 by blast

theorem reachable_refines_ledger_witness:
  "\<exists>A. blocks_of state0 = Ok A \<and> bc_active_chain state0 = map (block_hash sample) A \<and> valid_chain sample A
    \<and> recompute_target sample A = Ok (bc_target state0) \<and> strip (bc_utxos state0) = replay_blocks sample A"
  by (rule reachable_refines_ledger [OF state0_hyps])

theorem reachable_heaviest_witness:
  "\<exists>w. chain_work state0 = Ok w \<and> chain_weight [genesis0] \<le> unat w"
  by (rule reachable_heaviest [OF state0_hyps genesis0_valid])
    (simp add: state0_def bm_get_def sample_hashes genesis0_def block_time_def)

theorem chain_work_monotone_witness:
  "\<exists>w w'. chain_work blockchain_new = Ok w \<and> chain_work state0 = Ok w' \<and> w \<le> w'"
proof (rule chain_work_monotone [OF reachable.start good_hashes_sample prims_ok_sample])
  have "chain_step sample {genesis0} blockchain_new (run_call sample (AddBlock 0 genesis0) blockchain_new)"
    by (rule chain_step.step) simp
  then show "chain_step sample {genesis0} blockchain_new state0" by (simp add: add_genesis0)
qed

theorem add_block_returns_witness: "returns (fst (add_block sample 7 genesis0 state0))"
  by (rule add_block_returns [OF state0_hyps]) (simp_all add: genesis0_def)

theorem empty_block_panics_witness: "fst (add_block sample 7 empty1 state0) = Panic"
  by (rule empty_block_panics)
    (simp_all add: state0_def blockchain_new_def empty1_def matches_target_def sample_hashes MIN_TARGET_pos)

theorem reachable_supply_witness:
  "utxo_total (bc_utxos state0) \<le> emission (length (bc_active_chain state0))
   \<and> utxo_total (bc_utxos state0) \<le> 7875 * 10 ^ 10"
  by (rule reachable_supply [OF state0_hyps]) (simp add: state0_def)

theorem reachable_store_closed_witness:
  "length (bc_orphans state0) \<le> MAX_ORPHAN_BLOCKS
    \<and> (\<exists>cs. valid_chain sample (cs @ [genesis0]) \<and> stored sample (bc_blocks state0) (cs @ [genesis0]))"
proof -
  have "get_block state0 1 = Some genesis0" by (simp add: get_block_def state0_def bm_get_def)
  with reachable_store_closed [OF state0_hyps] show ?thesis by blast
qed

end
