(* ===== verification/Hub_Types.thy ===== *)
theory Hub_Types
  imports Chain_Types "HOL-Library.Char_ord"
begin

text \<open>
  The data of the hub (\<open>hub/src/board.rs\<close>, and the records of \<open>hub/src/payments.rs\<close> the board
  holds): tasks and how they are verified, payouts in flight, escrow deposits, the exchange's
  accounts, orders and trades, and the board that keeps them all.  Every \<open>BTreeMap\<close> is a
  \<open>bmap\<close>.  Overflow checks are on in every build profile, so \<open>+\<close>, \<open>-\<close> and \<open>*\<close> on \<open>u64\<close> panic when
  they leave the range; \<open>plus_u\<close>, \<open>minus_u\<close> and \<open>times_u\<close> are those operators.
\<close>

subsection \<open>Errors and results\<close>

datatype board_error =
    NotFound | NotOpen | NotClaimed | NotClaimant | NotVerified | AlreadyClaimed | AlreadyJoined
  | JoinWindowExpired | SubmissionWindowExpired | WrongTaskKind | AlreadySubmitted
  | InsufficientReputation u64 u64
  | AlreadyTerminal | EscrowNotFound | EscrowNotReserved | EscrowExpired
  | EscrowUnderfunded u64 u64
  | PosterCannotClaimOwnTask | WrongEscrowPurpose | DisputeWindowClosed
  | AssigneeCannotDisputeOwnSubmission | AlreadyDisputed | NotDisputed | CannotCancelWhileDisputed
  | OrderNotFound | NotOrderOwner | OrderNotOpen | InvalidOrder | OrderNotionalOverflow
  | ZeroWithdrawal
  | InsufficientBalance u64 u64
  | NotPoster | PosterCannotAnswerOwnTask | ContestTakesNoClaim | SubmissionsClosed | ContestFull
  | NotAwaitingPick | PickWindowClosed | NotAnAnswer

type_synonym 'a board_result = "(board_error, 'a) outcome"

definition plus_u :: "u64 \<Rightarrow> u64 \<Rightarrow> ('e, u64) outcome" where
  "plus_u a b = expect (checked_add a b)"

definition minus_u :: "u64 \<Rightarrow> u64 \<Rightarrow> ('e, u64) outcome" where
  "minus_u a b = (if b \<le> a then Ok (a - b) else Panic)"

definition times_u :: "u64 \<Rightarrow> u64 \<Rightarrow> ('e, u64) outcome" where
  "times_u a b = expect (checked_mul a b)"

lemma plus_u_Ok: "plus_u a b = Ok c \<longleftrightarrow> c = a + b \<and> unat a + unat b < 2 ^ 64"
  by (auto simp: plus_u_def checked_add_def)

lemma plus_u_fits: "unat a + unat b < 2 ^ 64 \<Longrightarrow> plus_u a b = Ok (a + b)"
  by (simp add: plus_u_Ok)

lemma minus_u_Ok: "minus_u a b = Ok c \<longleftrightarrow> c = a - b \<and> b \<le> a"
  by (auto simp: minus_u_def)

lemma times_u_fits: "unat a * unat b < 2 ^ 64 \<Longrightarrow> times_u a b = Ok (a * b)"
  by (simp add: times_u_def checked_mul_def)

lemma u_no_error [simp]:
  "plus_u a b \<noteq> Err e" "minus_u a b \<noteq> Err e" "times_u a b \<noteq> Err e"
  "plus_u a b \<noteq> Cutoff" "minus_u a b \<noteq> Cutoff" "times_u a b \<noteq> Cutoff"
  by (auto simp: plus_u_def minus_u_def times_u_def expect_def split: option.splits)

lemma unat_plus_fits: "unat a + unat b < 2 ^ 64 \<Longrightarrow> unat ((a :: u64) + b) = unat a + unat b"
  by (rule unat_add_less) simp

lemma unat_times_fits: "unat a * unat b < 2 ^ 64 \<Longrightarrow> unat ((a :: u64) * b) = unat a * unat b"
  by (rule unat_mult_less) simp

subsection \<open>Tasks\<close>

datatype task_status =
    Open | Claimed | AwaitingDispute | Disputed | AwaitingPick | Verified | Submitted | Paid
  | PayoutFailed | Closed

datatype close_reason = NoMajority | Understaffed | CancelledByOperator | NoAnswers | NeverClosed

record consensus_assignment =
  ca_answer :: "string option"
  ca_paid :: bool
  ca_share :: "u64 option"

definition MAX_CONTEST_ANSWERS :: nat where "MAX_CONTEST_ANSWERS = 10"

record contest_answer =
  cn_pubkey :: public_key
  cn_answer :: string
  cn_submitted_at :: instant
  cn_share :: "u64 option"
  cn_paid :: bool

datatype dispute_resolution = ChallengerWins | AssigneeWins

record dispute =
  dp_challenger :: public_key
  dp_reason :: string
  dp_bond_escrow_id :: uuid
  dp_bond_amount :: u64
  dp_filed_at :: instant
  dp_resolution :: "dispute_resolution option"

record consensus =
  cs_num_assignees :: u32
  cs_join_deadline :: instant
  cs_submission_window_minutes :: int
  cs_submission_deadline :: "instant option"
  cs_assignees :: "(public_key, consensus_assignment) bmap"

record disputable =
  ds_answer :: "string option"
  ds_dispute_window_minutes :: int
  ds_dispute_deadline :: "instant option"
  ds_dispute :: "dispute option"
  ds_answers :: "contest_answer list"
  ds_pick_deadline :: "instant option"
  ds_picked :: "public_key option"

datatype task_kind = HashMatch hash | Consensus consensus | Disputable disputable

record task =
  tk_id :: uuid
  tk_description :: string
  tk_bounty :: u64
  tk_kind :: task_kind
  tk_poster :: public_key
  tk_status :: task_status
  tk_claimant :: "public_key option"
  tk_claim_deadline :: "instant option"
  tk_failed_attempts :: u32
  tk_created_at :: instant
  tk_min_reputation :: u64
  tk_close_reason :: "close_reason option"
  tk_escrow_id :: "uuid option"
  tk_capabilities :: "string set"
  tk_settled_at :: "instant option"

subsection \<open>Payouts, reputation and escrow\<close>

definition MAX_PAYOUT_SUBMISSIONS :: u32 where "MAX_PAYOUT_SUBMISSIONS = 4"

record payout_attempt =
  pa_task_id :: uuid
  pa_recipient :: public_key
  pa_amount :: u64
  pa_output_hash :: hash
  pa_spent_inputs :: "hash list"
  pa_source :: public_key
  pa_submitted_at :: instant
  pa_submissions :: u32
  pa_transaction :: "transaction option"

datatype payout_outcome = PConfirmed | NeverLanded | HeldInMempool | Ambiguous

record withdrawal_attempt =
  wa_id :: uuid
  wa_owner :: public_key
  wa_amount :: u64
  wa_output_hash :: hash
  wa_spent_inputs :: "hash list"
  wa_source :: public_key
  wa_submitted_at :: instant

record reputation_entry =
  rp_completed :: u64
  rp_failed :: u64
  rp_total_earned :: u64

definition no_reputation :: reputation_entry where
  "no_reputation = \<lparr>rp_completed = 0, rp_failed = 0, rp_total_earned = 0\<rparr>"

datatype escrow_status = Disbursing | Reserved | Consumed | Refunded

record task_intent =
  ti_description :: string
  ti_bounty :: u64
  ti_expected_output_hash :: hash
  ti_min_reputation :: u64
  ti_capabilities :: "string set"

record consensus_task_intent =
  ci_description :: string
  ci_bounty :: u64
  ci_num_assignees :: u32
  ci_join_window_minutes :: int
  ci_submission_window_minutes :: int
  ci_min_reputation :: u64
  ci_capabilities :: "string set"

record disputable_task_intent =
  di_description :: string
  di_bounty :: u64
  di_dispute_window_minutes :: int
  di_min_reputation :: u64
  di_capabilities :: "string set"

datatype escrow_purpose =
    FundHashMatchTask task_intent
  | FundConsensusTask consensus_task_intent
  | FundDisputableTask disputable_task_intent
  | DisputeBond uuid string
  | FundExchangeAccount

record pending_deposit =
  pd_id :: uuid
  pd_depositor :: public_key
  pd_deposit_pubkey :: public_key
  pd_deposit_private_key :: "private_key option"
  pd_required_amount :: u64
  pd_purpose :: escrow_purpose
  pd_status :: escrow_status
  pd_created_at :: instant
  pd_expires_at :: instant

subsection \<open>The exchange\<close>

record exchange_account =
  ex_base_balance :: u64
  ex_locked_base :: u64
  ex_compute_balance :: u64
  ex_locked_compute :: u64

definition empty_account :: exchange_account where
  "empty_account = \<lparr>ex_base_balance = 0, ex_locked_base = 0, ex_compute_balance = 0, ex_locked_compute = 0\<rparr>"

datatype side = Buy | Sell
datatype order_status = OOpen | Filled | Cancelled

record order =
  or_id :: uuid
  or_owner :: public_key
  or_side :: side
  or_price :: u64
  or_quantity :: u64
  or_filled :: u64
  or_status :: order_status
  or_created_at :: instant

definition TAKER_FEE_BPS :: u64 where "TAKER_FEE_BPS = 10"

record trade =
  tr_id :: uuid
  tr_buy_order_id :: uuid
  tr_sell_order_id :: uuid
  tr_buyer :: public_key
  tr_seller :: public_key
  tr_price :: u64
  tr_quantity :: u64
  tr_executed_at :: instant
  tr_taker_side :: side
  tr_taker_fee :: u64

subsection \<open>Payments\<close>

datatype payment_status = Pending | PayConfirmed | NeedsReview

datatype payment_purpose =
    PayFaucet
  | PayWithdrawal u64
  | PayEscrow uuid bool escrow_status

record payment =
  py_id :: uuid
  py_purpose :: payment_purpose
  py_source :: public_key
  py_recipient :: public_key
  py_amount :: u64
  py_fee :: u64
  py_transaction :: "transaction option"
  py_output_hash :: "hash option"
  py_spent_inputs :: "hash list"
  py_created_at :: instant
  py_submitted_at :: instant
  py_submissions :: u32
  py_status :: payment_status
  py_scanned_through :: u64

subsection \<open>The board\<close>

record task_board =
  bd_payments :: "(uuid, payment) bmap"
  bd_tasks :: "(uuid, task) bmap"
  bd_reputation :: "(public_key, reputation_entry) bmap"
  bd_faucet_grants :: "(public_key, int) bmap"
  bd_faucet_grant_prefixes :: "(public_key, string) bmap"
  bd_pending_deposits :: "(uuid, pending_deposit) bmap"
  bd_exchange_accounts :: "(public_key, exchange_account) bmap"
  bd_orders :: "(uuid, order) bmap"
  bd_trades :: "(uuid, trade) bmap"
  bd_payout_attempts :: "(uuid \<times> public_key, payout_attempt) bmap"

definition task_board_new :: task_board where
  "task_board_new =
     \<lparr>bd_payments = [], bd_tasks = [], bd_reputation = [], bd_faucet_grants = [],
      bd_faucet_grant_prefixes = [], bd_pending_deposits = [], bd_exchange_accounts = [],
      bd_orders = [], bd_trades = [], bd_payout_attempts = []\<rparr>"

text \<open>Lookups that fall back on a default, Rust's \<open>entry(k).or_default()\<close>.\<close>

definition reputation_of :: "task_board \<Rightarrow> public_key \<Rightarrow> reputation_entry" where
  "reputation_of b k = (case bm_get (bd_reputation b) k of None \<Rightarrow> no_reputation | Some r \<Rightarrow> r)"

definition exchange_account_of :: "task_board \<Rightarrow> public_key \<Rightarrow> exchange_account" where
  "exchange_account_of b k = (case bm_get (bd_exchange_accounts b) k of None \<Rightarrow> empty_account | Some a \<Rightarrow> a)"

end
