(* ===== verification/Itx_Machine.thy ===== *)
theory Itx_Machine
  imports Itx_Prelude
begin

text \<open>
  Components as machines: a state, calls with the condition under which they are made, and the
  state a call leaves behind.  \<open>reaches\<close> is reachability by any sequence of permitted calls.
  The locale \<open>call_machine\<close> is the contract a component discharges once, for its invariant and
  for a relation every call establishes between the states before and after it; its lemmas
  carry both over all sequences of calls.
\<close>

inductive reaches :: "('c \<Rightarrow> 's \<Rightarrow> bool) \<Rightarrow> ('c \<Rightarrow> 's \<Rightarrow> 's) \<Rightarrow> 's \<Rightarrow> 's \<Rightarrow> bool" for allowed run where
  reaches_refl: "reaches allowed run s s"
| reaches_call: "reaches allowed run s t \<Longrightarrow> allowed c t \<Longrightarrow> reaches allowed run s (run c t)"

inductive_cases reaches_callE: "reaches allowed run s t"

fun calls_allowed :: "('c \<Rightarrow> 's \<Rightarrow> bool) \<Rightarrow> ('c \<Rightarrow> 's \<Rightarrow> 's) \<Rightarrow> 'c list \<Rightarrow> 's \<Rightarrow> bool" where
  "calls_allowed allowed run [] s \<longleftrightarrow> True"
| "calls_allowed allowed run (c # cs) s \<longleftrightarrow> allowed c s \<and> calls_allowed allowed run cs (run c s)"

lemma reaches_trans:
  assumes "reaches allowed run t u" "reaches allowed run s t"
  shows "reaches allowed run s u"
  using assms by (induction rule: reaches.induct) (auto intro: reaches_call)

lemma reaches_fold: "calls_allowed allowed run cs s \<Longrightarrow> reaches allowed run s (fold run cs s)"
proof (induction cs arbitrary: s)
  case (Cons c cs)
  have "reaches allowed run s (run c s)"
    using Cons.prems by (auto intro: reaches_call reaches_refl)
  with Cons show ?case by (auto intro: reaches_trans)
qed (simp add: reaches_refl)

locale call_machine =
  fixes start :: 's
    and allowed :: "'c \<Rightarrow> 's \<Rightarrow> bool"
    and run :: "'c \<Rightarrow> 's \<Rightarrow> 's"
    and inv :: "'s \<Rightarrow> bool"
    and rel :: "'s \<Rightarrow> 's \<Rightarrow> bool"
  assumes inv_start: "inv start"
    and inv_run: "inv s \<Longrightarrow> allowed c s \<Longrightarrow> inv (run c s)"
    and rel_refl: "rel s s"
    and rel_run: "inv s \<Longrightarrow> allowed c s \<Longrightarrow> rel s (run c s)"
    and rel_trans: "rel s t \<Longrightarrow> rel t u \<Longrightarrow> rel s u"
begin

lemma reaches_inv: "reaches allowed run s t \<Longrightarrow> inv s \<Longrightarrow> inv t"
  by (induction rule: reaches.induct) (auto intro: inv_run)

lemma reached_inv: "reaches allowed run start s \<Longrightarrow> inv s"
  using reaches_inv inv_start by blast

lemma reaches_rel: "reaches allowed run s t \<Longrightarrow> inv s \<Longrightarrow> rel s t"
proof (induction rule: reaches.induct)
  case (reaches_call s t c)
  then show ?case using reaches_inv rel_run rel_trans by blast
qed (rule rel_refl)

end

end
