(* ===== verification/Hub_Tasks.thy ===== *)
theory Hub_Tasks
  imports Hub_Types Itx_Machine
begin

text \<open>
  Tasks of \<open>hub/src/board.rs\<close>: what a task owes to whom, and every operation of \<open>TaskBoard\<close>
  on tasks, reputation, escrow deposits and payout attempts, in the order of the file.  An
  operation returns its outcome and the board it leaves behind.  \<open>now\<close> is the clock reading
  (the argument of that name, or \<open>Utc::now()\<close>), \<open>fresh\<close> the id \<open>Uuid::new_v4()\<close> yields.
\<close>

subsection \<open>What a task owes\<close>

definition dispute_winner :: "task \<Rightarrow> dispute option \<Rightarrow> public_key option" where
  "dispute_winner t dp =
     (case dp of
        None \<Rightarrow> tk_claimant t
      | Some d \<Rightarrow> (case dp_resolution d of
            None \<Rightarrow> None
          | Some ChallengerWins \<Rightarrow> Some (dp_challenger d)
          | Some AssigneeWins \<Rightarrow> tk_claimant t))"

definition pending_payouts_recipient_hint :: "task \<Rightarrow> public_key option" where
  "pending_payouts_recipient_hint t =
     (case tk_kind t of
        Disputable k \<Rightarrow> (case ds_dispute k of
            None \<Rightarrow> tk_claimant t
          | Some d \<Rightarrow> (case dp_resolution d of
                Some ChallengerWins \<Rightarrow> Some (dp_challenger d)
              | _ \<Rightarrow> tk_claimant t))
      | _ \<Rightarrow> None)"

definition consensus_shares :: "consensus \<Rightarrow> (public_key \<times> u64) list" where
  "consensus_shares k =
     List.map_filter (\<lambda>(pk, a). map_option (Pair pk) (ca_share a)) (cs_assignees k)"

definition contest_shares :: "disputable \<Rightarrow> (public_key \<times> u64) list" where
  "contest_shares k =
     List.map_filter (\<lambda>a. map_option (Pair (cn_pubkey a)) (cn_share a)) (ds_answers k)"

definition allocated_payouts :: "task \<Rightarrow> (public_key \<times> u64) list" where
  "allocated_payouts t =
     (case tk_kind t of
        HashMatch _ \<Rightarrow> (case tk_claimant t of None \<Rightarrow> [] | Some c \<Rightarrow> [(c, tk_bounty t)])
      | Consensus k \<Rightarrow> consensus_shares k
      | Disputable k \<Rightarrow>
          if ds_answers k \<noteq> [] then contest_shares k
          else (case dispute_winner t (ds_dispute k) of None \<Rightarrow> [] | Some w \<Rightarrow> [(w, tk_bounty t)]))"

definition is_recipient_paid :: "task \<Rightarrow> public_key \<Rightarrow> bool" where
  "is_recipient_paid t recipient =
     (case tk_kind t of
        HashMatch _ \<Rightarrow> tk_status t = Paid \<and> tk_claimant t = Some recipient
      | Consensus k \<Rightarrow> (case bm_get (cs_assignees k) recipient of None \<Rightarrow> False | Some a \<Rightarrow> ca_paid a)
      | Disputable k \<Rightarrow>
          if ds_answers k \<noteq> [] then list_ex (\<lambda>a. cn_pubkey a = recipient \<and> cn_paid a) (ds_answers k)
          else tk_status t = Paid \<and> pending_payouts_recipient_hint t = Some recipient)"

definition owed_payouts :: "task \<Rightarrow> (public_key \<times> u64) list" where
  "owed_payouts t = filter (\<lambda>(r, _). \<not> is_recipient_paid t r) (allocated_payouts t)"

definition paid_payouts :: "task \<Rightarrow> (public_key \<times> u64) list" where
  "paid_payouts t = filter (\<lambda>(r, _). is_recipient_paid t r) (allocated_payouts t)"

definition pending_payouts :: "task \<Rightarrow> (public_key \<times> u64) list" where
  "pending_payouts t = (if tk_status t = Verified \<or> tk_status t = Submitted then owed_payouts t else [])"

text \<open>\<open>Iterator::sum\<close> over \<open>u64\<close>, which panics on overflow.\<close>

definition sum_u :: "u64 list \<Rightarrow> u64 board_result" where
  "sum_u xs = expect (checked_sum 0 xs)"

definition confirmed_payout_total :: "task \<Rightarrow> u64 board_result" where
  "confirmed_payout_total t = sum_u (map snd (filter (\<lambda>(r, _). is_recipient_paid t r) (allocated_payouts t)))"

definition unconfirmed_payout_total :: "task \<Rightarrow> u64 board_result" where
  "unconfirmed_payout_total t = sum_u (map snd (owed_payouts t))"

definition consensus_assignees :: "task \<Rightarrow> public_key list" where
  "consensus_assignees t = (case tk_kind t of Consensus k \<Rightarrow> bm_keys (cs_assignees k) | _ \<Rightarrow> [])"

definition submission_deadline :: "task \<Rightarrow> instant option" where
  "submission_deadline t =
     (case tk_kind t of
        Disputable k \<Rightarrow> Some (tk_created_at t + minutes (ds_dispute_window_minutes k))
      | _ \<Rightarrow> None)"

definition past :: "instant \<Rightarrow> instant option \<Rightarrow> bool" where
  "past now deadline = (case deadline of None \<Rightarrow> False | Some d \<Rightarrow> now > d)"

subsection \<open>The majority vote\<close>

definition count_answer :: "consensus_assignment \<Rightarrow> (string, nat) bmap \<Rightarrow> (string, nat) bmap" where
  "count_answer a counts =
     (case ca_answer a of
        None \<Rightarrow> counts
      | Some ans \<Rightarrow> bm_insert ans (Suc (case bm_get counts ans of None \<Rightarrow> 0 | Some c \<Rightarrow> c)) counts)"

definition answer_counts :: "(public_key, consensus_assignment) bmap \<Rightarrow> (string, nat) bmap" where
  "answer_counts as = fold count_answer (bm_values as) []"

definition majority_answer :: "(public_key, consensus_assignment) bmap \<Rightarrow> string option" where
  "majority_answer as =
     (let counts = answer_counts as
      in if counts = [] then None
         else let max_count = fold max (bm_values counts) 0;
                  top = filter (\<lambda>(_, c). c = max_count) counts
              in (case rev top of
                    [] \<Rightarrow> None
                  | (answer, _) # rest \<Rightarrow>
                      if rest = [] \<and> max_count > length as div 2 then Some answer else None))"

subsection \<open>Resolving a payout against the chain\<close>

text \<open>The lists are what the node reports for an address: whether each output is marked, and the output.\<close>

definition find_utxo :: "prims \<Rightarrow> hash \<Rightarrow> (bool \<times> transaction_output) list \<Rightarrow> (bool \<times> transaction_output) option" where
  "find_utxo P wanted utxos = List.find (\<lambda>(_, o'). output_hash P o' = wanted) utxos"

definition resolve_against ::
  "prims \<Rightarrow> hash \<Rightarrow> hash list \<Rightarrow> (bool \<times> transaction_output) list \<Rightarrow> (bool \<times> transaction_output) list \<Rightarrow> payout_outcome" where
  "resolve_against P out_hash spent_inputs recipient_utxos source_utxos =
     (if list_ex (\<lambda>(_, o'). output_hash P o' = out_hash) recipient_utxos then PConfirmed
      else if spent_inputs = [] then Ambiguous
      else let (any_vanished, any_marked) =
             fold (\<lambda>wanted (v, m). case find_utxo P wanted source_utxos of
                     None \<Rightarrow> (True, m) | Some (marked, _) \<Rightarrow> (v, m \<or> marked))
               spent_inputs (False, False)
           in if any_vanished then Ambiguous else if any_marked then HeldInMempool else NeverLanded)"

definition payout_attempt_resolve ::
  "prims \<Rightarrow> payout_attempt \<Rightarrow> (bool \<times> transaction_output) list \<Rightarrow> (bool \<times> transaction_output) list \<Rightarrow> payout_outcome" where
  "payout_attempt_resolve P a recipient_utxos source_utxos =
     resolve_against P (pa_output_hash a) (pa_spent_inputs a) recipient_utxos source_utxos"

definition withdrawal_attempt_resolve ::
  "prims \<Rightarrow> withdrawal_attempt \<Rightarrow> (bool \<times> transaction_output) list \<Rightarrow> (bool \<times> transaction_output) list \<Rightarrow> payout_outcome" where
  "withdrawal_attempt_resolve P a recipient_utxos source_utxos =
     resolve_against P (wa_output_hash a) (wa_spent_inputs a) recipient_utxos source_utxos"

subsection \<open>Updating the board\<close>

definition set_task :: "uuid \<Rightarrow> task \<Rightarrow> task_board \<Rightarrow> task_board" where
  "set_task i t b = b\<lparr>bd_tasks := bm_insert i t (bd_tasks b)\<rparr>"

definition set_deposit :: "uuid \<Rightarrow> pending_deposit \<Rightarrow> task_board \<Rightarrow> task_board" where
  "set_deposit i d b = b\<lparr>bd_pending_deposits := bm_insert i d (bd_pending_deposits b)\<rparr>"

definition restore_task :: "task \<Rightarrow> task_board \<Rightarrow> task_board" where
  "restore_task t b = set_task (tk_id t) t b"

definition restore_reputation :: "public_key \<Rightarrow> reputation_entry \<Rightarrow> task_board \<Rightarrow> task_board" where
  "restore_reputation k r b = b\<lparr>bd_reputation := bm_insert k r (bd_reputation b)\<rparr>"

definition restore_pending_deposit :: "pending_deposit \<Rightarrow> task_board \<Rightarrow> task_board" where
  "restore_pending_deposit d b = set_deposit (pd_id d) d b"

definition get_task :: "task_board \<Rightarrow> uuid \<Rightarrow> task option" where
  "get_task b i = bm_get (bd_tasks b) i"

definition get_pending_deposit :: "task_board \<Rightarrow> uuid \<Rightarrow> pending_deposit option" where
  "get_pending_deposit b i = bm_get (bd_pending_deposits b) i"

text \<open>\<open>reputation.entry(k).or_default().failed += 1\<close>.\<close>

definition bump_failed :: "public_key \<Rightarrow> task_board \<Rightarrow> unit board_result \<times> task_board" where
  "bump_failed k b =
     (let r = reputation_of b k
      in with_check (plus_u (rp_failed r) 1) (restore_reputation k r b) (\<lambda>f.
           (Ok (), restore_reputation k (r\<lparr>rp_failed := f\<rparr>) b)))"

fun each_step :: "('a \<Rightarrow> 's \<Rightarrow> ('e, unit) outcome \<times> 's) \<Rightarrow> 'a list \<Rightarrow> 's \<Rightarrow> ('e, unit) outcome \<times> 's" where
  "each_step f [] s = (Ok (), s)"
| "each_step f (x # xs) s = with_step (f x s) (\<lambda>_ s'. each_step f xs s')"

text \<open>A loop over \<open>tasks.values_mut()\<close> that changes some tasks and collects their ids.\<close>

definition sweep_tasks :: "(task \<Rightarrow> task option) \<Rightarrow> task_board \<Rightarrow> uuid list \<times> task_board" where
  "sweep_tasks f b =
     (map tk_id (filter (\<lambda>t. f t \<noteq> None) (bm_values (bd_tasks b))),
      b\<lparr>bd_tasks := map (\<lambda>(i, t). (i, case f t of None \<Rightarrow> t | Some t' \<Rightarrow> t')) (bd_tasks b)\<rparr>)"

subsection \<open>Totals\<close>

definition settled :: "task \<Rightarrow> bool" where
  "settled t \<longleftrightarrow> tk_status t = Paid \<or> tk_status t = Closed"

definition allocated_bounty :: "task_board \<Rightarrow> u64 board_result" where
  "allocated_bounty b =
     sum_u (map tk_bounty (filter (\<lambda>t. tk_escrow_id t = None)
       (filter (\<lambda>t. \<not> settled t) (bm_values (bd_tasks b)))))"

definition consensus_exposure :: "task_board \<Rightarrow> u64" where
  "consensus_exposure b =
     fold (\<lambda>x acc. saturating_add acc x)
       (map tk_bounty (filter (\<lambda>t. \<not> settled t)
          (filter (\<lambda>t. case tk_kind t of Consensus _ \<Rightarrow> True | _ \<Rightarrow> False) (bm_values (bd_tasks b))))) 0"

subsection \<open>Creating and cancelling tasks\<close>

definition new_task :: "uuid \<Rightarrow> public_key \<Rightarrow> string \<Rightarrow> u64 \<Rightarrow> task_kind \<Rightarrow> instant \<Rightarrow> task" where
  "new_task i poster description bounty kind now =
     \<lparr>tk_id = i, tk_description = description, tk_bounty = bounty, tk_kind = kind, tk_poster = poster,
      tk_status = Open, tk_claimant = None, tk_claim_deadline = None, tk_failed_attempts = 0,
      tk_created_at = now, tk_min_reputation = 0, tk_close_reason = None, tk_escrow_id = None,
      tk_capabilities = {}, tk_settled_at = None\<rparr>"

definition create_task ::
  "uuid \<Rightarrow> instant \<Rightarrow> public_key \<Rightarrow> string \<Rightarrow> u64 \<Rightarrow> hash \<Rightarrow> task_board \<Rightarrow> task \<times> task_board" where
  "create_task fresh now poster description bounty expected_output_hash b =
     (let t = new_task fresh poster description bounty (HashMatch expected_output_hash) now
      in (t, set_task (tk_id t) t b))"

definition create_consensus_task ::
  "uuid \<Rightarrow> instant \<Rightarrow> public_key \<Rightarrow> string \<Rightarrow> u64 \<Rightarrow> u32 \<Rightarrow> instant \<Rightarrow> int \<Rightarrow> task_board \<Rightarrow> task \<times> task_board" where
  "create_consensus_task fresh now poster description bounty num_assignees join_deadline window b =
     (let t = new_task fresh poster description bounty
                (Consensus \<lparr>cs_num_assignees = num_assignees, cs_join_deadline = join_deadline,
                   cs_submission_window_minutes = window, cs_submission_deadline = None, cs_assignees = []\<rparr>) now
      in (t, set_task (tk_id t) t b))"

definition create_disputable_task ::
  "uuid \<Rightarrow> instant \<Rightarrow> public_key \<Rightarrow> string \<Rightarrow> u64 \<Rightarrow> int \<Rightarrow> task_board \<Rightarrow> task \<times> task_board" where
  "create_disputable_task fresh now poster description bounty window b =
     (let t = new_task fresh poster description bounty
                (Disputable \<lparr>ds_answer = None, ds_dispute_window_minutes = window, ds_dispute_deadline = None,
                   ds_dispute = None, ds_answers = [], ds_pick_deadline = None, ds_picked = None\<rparr>) now
      in (t, set_task (tk_id t) t b))"

definition set_min_reputation :: "uuid \<Rightarrow> u64 \<Rightarrow> task_board \<Rightarrow> unit board_result \<times> task_board" where
  "set_min_reputation i r b =
     (case bm_get (bd_tasks b) i of
        None \<Rightarrow> (Err NotFound, b)
      | Some t \<Rightarrow> (Ok (), set_task i (t\<lparr>tk_min_reputation := r\<rparr>) b))"

definition set_capabilities :: "uuid \<Rightarrow> string set \<Rightarrow> task_board \<Rightarrow> unit board_result \<times> task_board" where
  "set_capabilities i cs b =
     (case bm_get (bd_tasks b) i of
        None \<Rightarrow> (Err NotFound, b)
      | Some t \<Rightarrow> (Ok (), set_task i (t\<lparr>tk_capabilities := cs\<rparr>) b))"

definition cancel_task :: "uuid \<Rightarrow> task_board \<Rightarrow> unit board_result \<times> task_board" where
  "cancel_task i b =
     (case bm_get (bd_tasks b) i of
        None \<Rightarrow> (Err NotFound, b)
      | Some t \<Rightarrow>
          if tk_status t \<in> {Verified, Submitted, PayoutFailed, Paid, Closed} then (Err AlreadyTerminal, b)
          else if tk_status t = Disputed then (Err CannotCancelWhileDisputed, b)
          else (Ok (), set_task i (t\<lparr>tk_status := Closed, tk_close_reason := Some CancelledByOperator\<rparr>) b))"

subsection \<open>Escrow\<close>

text \<open>\<open>derive\<close> is \<open>EscrowSecret::derive\<close> on the hub's secret followed by \<open>public_key\<close>.\<close>

definition reserve_escrow ::
  "uuid \<Rightarrow> instant \<Rightarrow> (uuid \<Rightarrow> public_key) \<Rightarrow> public_key \<Rightarrow> u64 \<Rightarrow> escrow_purpose \<Rightarrow> instant \<Rightarrow> task_board
     \<Rightarrow> pending_deposit \<times> task_board" where
  "reserve_escrow fresh now derive depositor required purpose expires_at b =
     (let d = \<lparr>pd_id = fresh, pd_depositor = depositor, pd_deposit_pubkey = derive fresh,
               pd_deposit_private_key = None, pd_required_amount = required, pd_purpose = purpose,
               pd_status = Reserved, pd_created_at = now, pd_expires_at = expires_at\<rparr>
      in (d, set_deposit fresh d b))"

datatype escrow_confirmation = TaskCreated task

text \<open>The task an escrow purpose describes, with its reputation bar and tags set when given.\<close>

definition apply_intent_limits :: "uuid \<Rightarrow> u64 \<Rightarrow> string set \<Rightarrow> task_board \<Rightarrow> unit board_result \<times> task_board" where
  "apply_intent_limits i rep caps b =
     with_step (if rep > 0 then set_min_reputation i rep b else (Ok (), b)) (\<lambda>_ b1.
       if caps \<noteq> {} then set_capabilities i caps b1 else (Ok (), b1))"

definition materialize ::
  "uuid \<Rightarrow> instant \<Rightarrow> instant \<Rightarrow> public_key \<Rightarrow> escrow_purpose \<Rightarrow> task_board \<Rightarrow> uuid board_result \<times> task_board" where
  "materialize fresh clock now depositor purpose b =
     (case purpose of
        FundHashMatchTask i \<Rightarrow>
          let (t, b1) = create_task fresh clock depositor (ti_description i) (ti_bounty i) (ti_expected_output_hash i) b
          in with_step (apply_intent_limits (tk_id t) (ti_min_reputation i) (ti_capabilities i) b1)
               (\<lambda>_ b2. (Ok (tk_id t), b2))
      | FundConsensusTask i \<Rightarrow>
          let (t, b1) = create_consensus_task fresh clock depositor (ci_description i) (ci_bounty i)
                          (ci_num_assignees i) (now + minutes (ci_join_window_minutes i))
                          (ci_submission_window_minutes i) b
          in with_step (apply_intent_limits (tk_id t) (ci_min_reputation i) (ci_capabilities i) b1)
               (\<lambda>_ b2. (Ok (tk_id t), b2))
      | FundDisputableTask i \<Rightarrow>
          let (t, b1) = create_disputable_task fresh clock depositor (di_description i) (di_bounty i)
                          (di_dispute_window_minutes i) b
          in with_step (apply_intent_limits (tk_id t) (di_min_reputation i) (di_capabilities i) b1)
               (\<lambda>_ b2. (Ok (tk_id t), b2))
      | _ \<Rightarrow> (Panic, b))"

definition check_deposit :: "pending_deposit \<Rightarrow> u64 \<Rightarrow> instant \<Rightarrow> unit board_result" where
  "check_deposit d observed now =
     (if pd_status d \<noteq> Reserved then Err EscrowNotReserved
      else if now > pd_expires_at d then Err EscrowExpired
      else if observed < pd_required_amount d then Err (EscrowUnderfunded (pd_required_amount d) observed)
      else Ok ())"

text \<open>\<open>now\<close> is the caller's reading of the clock, \<open>clock\<close> the one taken when the task is created.\<close>

definition confirm_escrow ::
  "uuid \<Rightarrow> instant \<Rightarrow> uuid \<Rightarrow> u64 \<Rightarrow> instant \<Rightarrow> task_board \<Rightarrow> escrow_confirmation board_result \<times> task_board" where
  "confirm_escrow fresh clock i observed now b =
     (case bm_get (bd_pending_deposits b) i of
        None \<Rightarrow> (Err EscrowNotFound, b)
      | Some d \<Rightarrow>
          if (case pd_purpose d of DisputeBond _ _ \<Rightarrow> True | FundExchangeAccount \<Rightarrow> True | _ \<Rightarrow> False)
          then (Err WrongEscrowPurpose, b)
          else with_check (check_deposit d observed now) b (\<lambda>_.
            with_step (materialize fresh clock now (pd_depositor d) (pd_purpose d)
                         (set_deposit i (d\<lparr>pd_status := Consumed\<rparr>) b)) (\<lambda>task_id b1.
              case bm_get (bd_tasks b1) task_id of
                None \<Rightarrow> (Panic, b1)
              | Some t \<Rightarrow>
                  let t' = t\<lparr>tk_escrow_id := Some i\<rparr> in (Ok (TaskCreated t'), set_task task_id t' b1))))"

definition confirm_dispute_bond ::
  "uuid \<Rightarrow> u64 \<Rightarrow> instant \<Rightarrow> task_board \<Rightarrow> task board_result \<times> task_board" where
  "confirm_dispute_bond i observed now b =
     (case bm_get (bd_pending_deposits b) i of
        None \<Rightarrow> (Err EscrowNotFound, b)
      | Some d \<Rightarrow>
          (case pd_purpose d of
             DisputeBond task_id reason \<Rightarrow>
               with_check (check_deposit d observed now) b (\<lambda>_.
                 case bm_get (bd_tasks b) task_id of
                   None \<Rightarrow> (Err NotFound, b)
                 | Some t \<Rightarrow>
                     (case tk_kind t of
                        Disputable k \<Rightarrow>
                          if tk_status t \<noteq> AwaitingDispute then (Err DisputeWindowClosed, b)
                          else (case ds_dispute_deadline k of
                                  None \<Rightarrow> (Panic, b)
                                | Some deadline \<Rightarrow>
                                    if now > deadline then (Err DisputeWindowClosed, b)
                                    else if ds_dispute k \<noteq> None then (Err AlreadyDisputed, b)
                                    else if tk_claimant t = Some (pd_depositor d)
                                    then (Err AssigneeCannotDisputeOwnSubmission, b)
                                    else let dp = \<lparr>dp_challenger = pd_depositor d, dp_reason = reason,
                                                   dp_bond_escrow_id = i, dp_bond_amount = pd_required_amount d,
                                                   dp_filed_at = now, dp_resolution = None\<rparr>;
                                             t' = t\<lparr>tk_kind := Disputable (k\<lparr>ds_dispute := Some dp\<rparr>),
                                                     tk_status := Disputed\<rparr>
                                         in (Ok t', set_deposit i (d\<lparr>pd_status := Consumed\<rparr>)
                                                      (set_task task_id t' b)))
                      | _ \<Rightarrow> (Err WrongTaskKind, b)))
           | _ \<Rightarrow> (Err WrongEscrowPurpose, b)))"

definition overdue_reserved_escrows :: "instant \<Rightarrow> task_board \<Rightarrow> pending_deposit list" where
  "overdue_reserved_escrows now b =
     filter (\<lambda>d. pd_status d = Reserved \<and> now > pd_expires_at d) (bm_values (bd_pending_deposits b))"

definition escrow_for_task :: "task_board \<Rightarrow> uuid \<Rightarrow> pending_deposit option" where
  "escrow_for_task b i =
     Option.bind (bm_get (bd_tasks b) i) (\<lambda>t.
     Option.bind (tk_escrow_id t) (bm_get (bd_pending_deposits b)))"

definition closed_tasks_with_unrefunded_escrow :: "task_board \<Rightarrow> uuid list" where
  "closed_tasks_with_unrefunded_escrow b =
     map tk_id (filter (\<lambda>t. case escrow_for_task b (tk_id t) of None \<Rightarrow> False | Some d \<Rightarrow> pd_status d = Consumed)
       (filter (\<lambda>t. tk_status t = Closed) (bm_values (bd_tasks b))))"

definition mark_escrow_refunded :: "uuid \<Rightarrow> task_board \<Rightarrow> unit board_result \<times> task_board" where
  "mark_escrow_refunded i b =
     (case bm_get (bd_pending_deposits b) i of
        None \<Rightarrow> (Err EscrowNotFound, b)
      | Some d \<Rightarrow> (Ok (), set_deposit i (d\<lparr>pd_status := Refunded\<rparr>) b))"

definition list_open_tasks :: "task_board \<Rightarrow> task list" where
  "list_open_tasks b = filter (\<lambda>t. tk_status t = Open) (bm_values (bd_tasks b))"

definition verified_unpaid_tasks :: "task_board \<Rightarrow> task list" where
  "verified_unpaid_tasks b = filter (\<lambda>t. tk_status t = Verified) (bm_values (bd_tasks b))"

definition tasks_with_unsettled_dispute_bonds :: "task_board \<Rightarrow> uuid list" where
  "tasks_with_unsettled_dispute_bonds b =
     List.map_filter (\<lambda>t.
       case tk_kind t of
         Disputable k \<Rightarrow>
           Option.bind (ds_dispute k) (\<lambda>d.
           Option.bind (dp_resolution d) (\<lambda>_.
           Option.bind (bm_get (bd_pending_deposits b) (dp_bond_escrow_id d)) (\<lambda>bond.
             if pd_status bond = Consumed then Some (tk_id t) else None)))
       | _ \<Rightarrow> None) (bm_values (bd_tasks b))"

end
