(* ===== verification/Hub_Net.thy ===== *)
theory Hub_Net
  imports Itx_Prelude
begin

text \<open>
  Network addresses as \<open>hub/src/rate_limit.rs\<close> uses them: the /24 or /64 a client is counted
  in (\<open>prefix_of\<close>), the /16 or /48 around it (\<open>wide_prefix_of\<close>), and the way back from a recorded
  prefix (\<open>widen_prefix\<close>).  What the code takes from Rust's standard library is modelled beside
  it: the canonical form of a mapped address, the formatting of the numbers, and the parser of
  \<open>IpAddr::from_str\<close> (\<open>core::net::parser\<close>).
\<close>

subsection \<open>Addresses\<close>

datatype ip_addr =
    V4 u8 u8 u8 u8
  | V6 u16 u16 u16 u16 u16 u16 u16 u16

fun to_canonical :: "ip_addr \<Rightarrow> ip_addr" where
  "to_canonical (V4 a b c d) = V4 a b c d"
| "to_canonical (V6 s0 s1 s2 s3 s4 s5 s6 s7) =
     (if s0 = 0 \<and> s1 = 0 \<and> s2 = 0 \<and> s3 = 0 \<and> s4 = 0 \<and> s5 = 0xffff
      then V4 (ucast (drop_bit 8 s6)) (ucast s6) (ucast (drop_bit 8 s7)) (ucast s7)
      else V6 s0 s1 s2 s3 s4 s5 s6 s7)"

subsection \<open>Writing numbers\<close>

definition digit_char :: "nat \<Rightarrow> char" where
  "digit_char d = ''0123456789abcdef'' ! d"

fun radix_digits :: "nat \<Rightarrow> nat \<Rightarrow> string" where
  "radix_digits r n = (if n < r \<or> r < 2 then [digit_char n] else radix_digits r (n div r) @ [digit_char (n mod r)])"

declare radix_digits.simps [simp del]

definition dec :: "u8 \<Rightarrow> string" where "dec x = radix_digits 10 (unat x)"
definition hex :: "u16 \<Rightarrow> string" where "hex x = radix_digits 16 (unat x)"

definition prefix_of :: "ip_addr \<Rightarrow> string" where
  "prefix_of ip = (case to_canonical ip of
     V4 a b c _ \<Rightarrow> dec a @ ''.'' @ dec b @ ''.'' @ dec c @ ''.0/24''
   | V6 s0 s1 s2 s3 _ _ _ _ \<Rightarrow> hex s0 @ '':'' @ hex s1 @ '':'' @ hex s2 @ '':'' @ hex s3 @ ''::/64'')"

definition wide_prefix_of :: "ip_addr \<Rightarrow> string" where
  "wide_prefix_of ip = (case to_canonical ip of
     V4 a b _ _ \<Rightarrow> dec a @ ''.'' @ dec b @ ''.0.0/16''
   | V6 s0 s1 s2 _ _ _ _ _ \<Rightarrow> hex s0 @ '':'' @ hex s1 @ '':'' @ hex s2 @ ''::/48'')"

subsection \<open>Reading addresses\<close>

text \<open>A parser takes the remaining input and returns a value and what is left, or fails.\<close>

type_synonym 'a reader = "string \<Rightarrow> ('a \<times> string) option"

definition to_digit :: "nat \<Rightarrow> char \<Rightarrow> nat option" where
  "to_digit r c =
     (let n = of_char c :: nat;
          d = (if 48 \<le> n \<and> n \<le> 57 then n - 48 else if 97 \<le> n \<and> n \<le> 122 then n - 87
               else if 65 \<le> n \<and> n \<le> 90 then n - 55 else r)
      in if d < r then Some d else None)"

fun read_digits :: "nat \<Rightarrow> nat \<Rightarrow> nat \<Rightarrow> nat \<Rightarrow> (nat \<times> nat) reader" where
  "read_digits r max_digits digits acc [] = Some ((digits, acc), [])"
| "read_digits r max_digits digits acc (c # cs) =
     (case to_digit r c of
        None \<Rightarrow> Some ((digits, acc), c # cs)
      | Some d \<Rightarrow> if Suc digits > max_digits then None else read_digits r max_digits (Suc digits) (acc * r + d) cs)"

definition read_number :: "nat \<Rightarrow> nat \<Rightarrow> bool \<Rightarrow> nat \<Rightarrow> nat reader" where
  "read_number r max_digits allow_zero_prefix bound s =
     (case read_digits r max_digits 0 0 s of
        None \<Rightarrow> None
      | Some ((digits, n), rest) \<Rightarrow>
          if digits = 0 then None
          else if \<not> allow_zero_prefix \<and> hd s = CHR ''0'' \<and> digits > 1 then None
          else if n < bound then Some (n, rest) else None)"

fun read_given_char :: "char \<Rightarrow> unit reader" where
  "read_given_char c [] = None"
| "read_given_char c (x # xs) = (if x = c then Some ((), xs) else None)"

definition read_separator :: "char \<Rightarrow> nat \<Rightarrow> 'a reader \<Rightarrow> 'a reader" where
  "read_separator sep index inner s =
     (if index > 0 then (case read_given_char sep s of None \<Rightarrow> None | Some (_, s') \<Rightarrow> inner s') else inner s)"

fun read_octets :: "nat list \<Rightarrow> u8 list reader" where
  "read_octets [] s = Some ([], s)"
| "read_octets (i # is) s =
     (case read_separator CHR ''.'' i (read_number 10 3 False 256) s of
        None \<Rightarrow> None
      | Some (n, s') \<Rightarrow> (case read_octets is s' of None \<Rightarrow> None | Some (ns, s'') \<Rightarrow> Some (of_nat n # ns, s'')))"

definition read_ipv4_addr :: "u8 list reader" where
  "read_ipv4_addr s = read_octets [0, 1, 2, 3] s"

definition join_bytes :: "u8 \<Rightarrow> u8 \<Rightarrow> u16" where
  "join_bytes hi lo = push_bit 8 (ucast hi) + ucast lo"

text \<open>Up to \<open>limit\<close> groups from position \<open>i\<close>, and whether they ended in an embedded IPv4 address.\<close>

fun read_groups :: "nat \<Rightarrow> nat \<Rightarrow> string \<Rightarrow> (u16 list \<times> bool) \<times> string" where
  "read_groups i 0 s = (([], False), s)"
| "read_groups i (Suc left) s =
     (case (if left > 0 then read_separator CHR '':'' i read_ipv4_addr s else None) of
        Some ([a, b, c, d], s') \<Rightarrow> (([join_bytes a b, join_bytes c d], True), s')
      | _ \<Rightarrow>
          (case read_separator CHR '':'' i (read_number 16 4 True 65536) s of
             None \<Rightarrow> (([], False), s)
           | Some (g, s') \<Rightarrow>
               let ((gs, v4), s'') = read_groups (Suc i) left s' in ((of_nat g # gs, v4), s'')))"

fun v6_of :: "u16 list \<Rightarrow> ip_addr option" where
  "v6_of [s0, s1, s2, s3, s4, s5, s6, s7] = Some (V6 s0 s1 s2 s3 s4 s5 s6 s7)"
| "v6_of _ = None"

definition read_ipv6_addr :: "ip_addr reader" where
  "read_ipv6_addr s =
     (let ((head, head_ipv4), s1) = read_groups 0 8 s
      in if length head = 8 then map_option (\<lambda>a. (a, s1)) (v6_of head)
         else if head_ipv4 then None
         else case read_given_char CHR '':'' s1 of
           None \<Rightarrow> None
         | Some (_, s2) \<Rightarrow>
             (case read_given_char CHR '':'' s2 of
                None \<Rightarrow> None
              | Some (_, s3) \<Rightarrow>
                  let ((tail, _), s4) = read_groups 0 (8 - (length head + 1)) s3
                  in map_option (\<lambda>a. (a, s4)) (v6_of (head @ replicate (8 - length head - length tail) 0 @ tail))))"

definition read_ip_addr :: "ip_addr reader" where
  "read_ip_addr s =
     (case read_ipv4_addr s of
        Some ([a, b, c, d], s') \<Rightarrow> Some (V4 a b c d, s')
      | _ \<Rightarrow> read_ipv6_addr s)"

definition parse_ip :: "string \<Rightarrow> ip_addr option" where
  "parse_ip s = (case read_ip_addr s of Some (a, []) \<Rightarrow> Some a | _ \<Rightarrow> None)"

fun split_once :: "char \<Rightarrow> string \<Rightarrow> (string \<times> string) option" where
  "split_once sep [] = None"
| "split_once sep (c # cs) =
     (if c = sep then Some ([], cs)
      else case split_once sep cs of None \<Rightarrow> None | Some (a, b) \<Rightarrow> Some (c # a, b))"

definition widen_prefix :: "string \<Rightarrow> string option" where
  "widen_prefix prefix =
     Option.bind (split_once CHR ''/'' prefix) (\<lambda>(address, _). map_option wide_prefix_of (parse_ip address))"

subsection \<open>Reading what was written\<close>

lemma lt16_cases [consumes 1]:
  assumes "d < (16::nat)" and "P 0" "P 1" "P 2" "P 3" "P 4" "P 5" "P 6" "P 7" "P 8" "P 9" "P 10" "P 11"
    "P 12" "P 13" "P 14" "P 15"
  shows "P d"
proof -
  have "d \<in> set [0..<16]" using assms(1) by simp
  then show ?thesis using assms(2-) by (auto simp: upt_rec numeral_eq_Suc)
qed

lemma to_digit_digit_char:
  assumes "d < r" and "r = 10 \<or> r = 16"
  shows "to_digit r (digit_char d) = Some d"
proof -
  have "d < 16" using assms by auto
  then show ?thesis using assms
    by (induction d rule: lt16_cases) (auto simp: to_digit_def digit_char_def)
qed

lemma digit_char_zero:
  assumes "d < 16" and "digit_char d = CHR ''0''"
  shows "d = 0"
proof -
  have "to_digit 16 (digit_char d) = Some d" using assms(1) by (rule to_digit_digit_char) simp
  then show ?thesis using assms(2) by (simp add: to_digit_def split: if_splits)
qed

definition is_radix :: "nat \<Rightarrow> bool" where
  "is_radix r \<longleftrightarrow> r = 10 \<or> r = 16"

lemma is_radixD: "is_radix r \<Longrightarrow> 2 \<le> r \<and> r \<le> 16 \<and> (r = 10 \<or> r = 16)"
  by (auto simp: is_radix_def)

lemma radix_small: "n < r \<Longrightarrow> radix_digits r n = [digit_char n]"
  by (simp add: radix_digits.simps)

lemma radix_large: "r \<le> n \<Longrightarrow> 2 \<le> r \<Longrightarrow> radix_digits r n = radix_digits r (n div r) @ [digit_char (n mod r)]"
  by (subst radix_digits.simps) simp

lemma radix_nonempty [simp]: "radix_digits r n \<noteq> []"
  by (subst radix_digits.simps) simp

lemma radix_length:
  assumes "2 \<le> r" "n < r ^ Suc k"
  shows "length (radix_digits r n) \<le> Suc k"
  using assms
proof (induction k arbitrary: n)
  case 0
  then show ?case by (simp add: radix_small)
next
  case (Suc k)
  show ?case
  proof (cases "n < r")
    case True
    then show ?thesis by (simp add: radix_small)
  next
    case False
    have "n div r < r ^ Suc k" using Suc.prems by (simp add: less_mult_imp_div_less mult.commute)
    then show ?thesis using Suc.IH[of "n div r"] Suc.prems(1) False by (simp add: radix_large)
  qed
qed

lemma radix_digits_chars:
  assumes "is_radix r" and "c \<in> set (radix_digits r n)"
  shows "\<exists>d < 16. c = digit_char d"
  using assms(2)
proof (induction n rule: less_induct)
  case (less n)
  show ?case
  proof (cases "n < r")
    case True
    then show ?thesis using less.prems is_radixD[OF assms(1)] by (auto simp: radix_small intro: exI[of _ n])
  next
    case False
    have r: "2 \<le> r" "r \<le> 16" using is_radixD[OF assms(1)] by auto
    have "c \<in> set (radix_digits r (n div r)) \<or> c = digit_char (n mod r)"
      using less.prems False r by (auto simp: radix_large)
    moreover have "n div r < n" using False r by simp
    moreover have "n mod r < 16" using r by (meson less_le_trans mod_less_divisor zero_less_numeral less_le_trans[of 0 2 r])
    ultimately show ?thesis using less.IH by blast
  qed
qed

lemma radix_hd_zero:
  assumes "is_radix r" and "hd (radix_digits r n) = CHR ''0''"
  shows "n = 0"
  using assms(2)
proof (induction n rule: less_induct)
  case (less n)
  have r: "2 \<le> r" "r \<le> 16" using is_radixD[OF assms(1)] by auto
  show ?case
  proof (cases "n < r")
    case True
    then show ?thesis using less.prems r digit_char_zero[of n] by (simp add: radix_small)
  next
    case False
    then have "n div r = 0" using less.IH[of "n div r"] less.prems r by (simp add: radix_large)
    then show ?thesis using False r by (simp add: div_eq_0_iff)
  qed
qed

text \<open>The digits of a number, read back, are the number.\<close>

lemma read_digits_radix:
  assumes "is_radix r" and "c + length (radix_digits r n) \<le> m"
  shows "read_digits r m c a (radix_digits r n @ rest)
       = read_digits r m (c + length (radix_digits r n)) (a * r ^ length (radix_digits r n) + n) rest"
  using assms(2)
proof (induction n arbitrary: rest rule: less_induct)
  case (less n)
  have r: "2 \<le> r" "r = 10 \<or> r = 16" using is_radixD[OF assms(1)] by auto
  show ?case
  proof (cases "n < r")
    case True
    then show ?thesis using less.prems r to_digit_digit_char[of n r] by (simp add: radix_small)
  next
    case False
    let ?q = "n div r" and ?d = "n mod r"
    have d: "to_digit r (digit_char ?d) = Some ?d" using r by (intro to_digit_digit_char) auto
    have n: "?q * r + ?d = n" by simp
    have "(a * r ^ length (radix_digits r ?q) + ?q) * r + ?d
        = a * r ^ Suc (length (radix_digits r ?q)) + n"
      using n by (simp add: algebra_simps)
    moreover have "?q < n" using False r by simp
    ultimately show ?thesis using less.IH[of ?q] less.prems False r d by (simp add: radix_large)
  qed
qed

definition stops :: "nat \<Rightarrow> string \<Rightarrow> bool" where
  "stops r s \<longleftrightarrow> s = [] \<or> to_digit r (hd s) = None"

lemma read_digits_stops: "stops r s \<Longrightarrow> read_digits r m c a s = Some ((c, a), s)"
  by (cases s) (auto simp: stops_def)

lemma read_number_radix:
  assumes r: "is_radix r" and n: "n < r ^ Suc k" "n < bound" and "stops r rest"
  shows "read_number r (Suc k) z bound (radix_digits r n @ rest) = Some (n, rest)"
proof -
  have len: "length (radix_digits r n) \<le> Suc k" using radix_length[OF _ n(1)] is_radixD[OF r] by blast
  have zero: "length (radix_digits r n) = 1" if "hd (radix_digits r n) = CHR ''0''"
    using radix_hd_zero[OF r that] is_radixD[OF r] by (simp add: radix_small)
  show ?thesis using read_digits_radix[OF r, of 0 n "Suc k" 0 rest] len zero n(2) read_digits_stops[OF assms(4)]
    by (auto simp: read_number_def)
qed

lemma unat_u8: "unat (x :: u8) < 256"
  using unsigned_less[of x, where 'a = nat] by simp

lemma unat_u16: "unat (x :: u16) < 65536"
  using unsigned_less[of x, where 'a = nat] by simp

lemma read_dec: "stops 10 rest \<Longrightarrow> read_number 10 3 False 256 (dec x @ rest) = Some (unat x, rest)"
  using read_number_radix[of 10 "unat x" 2 256 rest False] unat_u8[of x] by (simp add: dec_def is_radix_def)

lemma read_hex: "stops 16 rest \<Longrightarrow> read_number 16 4 z 65536 (hex x @ rest) = Some (unat x, rest)"
  using read_number_radix[of 16 "unat x" 3 65536 rest z] unat_u16[of x] by (simp add: hex_def is_radix_def)

lemma digits_stop [simp]:
  "stops 10 []" "stops 16 []" "stops 10 (CHR ''.'' # s)" "stops 16 (CHR '':'' # s)" "stops 10 (CHR '':'' # s)"
  by (auto simp: stops_def to_digit_def)

text \<open>A group of hexadecimal digits before a colon is never the start of a dotted address.\<close>

lemma read_digits_rest:
  assumes "read_digits r m c a (hs @ sep # t) = Some (x, rest)" and "to_digit r sep = None"
  shows "\<exists>ys. rest = ys @ sep # t \<and> set ys \<subseteq> set hs"
  using assms(1)
proof (induction hs arbitrary: c a)
  case Nil
  then show ?case using assms(2) by (auto intro: exI[of _ "[]"])
next
  case (Cons h hs)
  show ?case
  proof (cases "to_digit r h")
    case None
    then show ?thesis using Cons.prems by (auto intro: exI[of _ "h # hs"])
  next
    case (Some d)
    then show ?thesis using Cons.prems Cons.IH by (fastforce split: if_splits)
  qed
qed

lemma hex_no_dot: "CHR ''.'' \<notin> set (hex x)"
proof
  assume "CHR ''.'' \<in> set (hex x)"
  then obtain d where d: "d < 16" "CHR ''.'' = digit_char d"
    using radix_digits_chars[of 16] by (auto simp: hex_def is_radix_def)
  then have "to_digit 16 CHR ''.'' = Some d" using to_digit_digit_char[of d 16] by simp
  then show False by (simp add: to_digit_def)
qed

lemma not_dotted:
  assumes "CHR ''.'' \<notin> set hs"
  shows "read_ipv4_addr (hs @ CHR '':'' # t) = None"
proof (cases "read_number 10 3 False 256 (hs @ CHR '':'' # t)")
  case None
  then show ?thesis by (simp add: read_ipv4_addr_def read_separator_def)
next
  case (Some p)
  obtain n rest where p: "p = (n, rest)" by (cases p)
  obtain x where "read_digits 10 3 0 0 (hs @ CHR '':'' # t) = Some (x, rest)"
    using Some p by (auto simp: read_number_def split: option.splits if_splits)
  then obtain ys where ys: "rest = ys @ CHR '':'' # t" "set ys \<subseteq> set hs"
    using read_digits_rest[of 10 3 0 0 hs "CHR '':''" t x rest] by (auto simp: to_digit_def)
  have "read_given_char CHR ''.'' rest = None" using ys assms by (cases ys) auto
  then show ?thesis using Some p by (simp add: read_ipv4_addr_def read_separator_def)
qed

lemmas not_dotted_hex = not_dotted[OF hex_no_dot]

lemma no_number [simp]:
  "read_number r m z b [] = None" "to_digit r c = None \<Longrightarrow> read_number r m z b (c # s) = None"
  by (auto simp: read_number_def)

lemma colon_no_digit [simp]: "to_digit 16 CHR '':'' = None" "to_digit 10 CHR '':'' = None"
  by (auto simp: to_digit_def)

lemma no_dotted [simp]: "read_ipv4_addr [] = None" "read_ipv4_addr (CHR '':'' # s) = None"
  by (auto simp: read_ipv4_addr_def read_separator_def)

text \<open>One written group is one group read, whether it is the first or follows a colon.\<close>

lemma read_groups_hex:
  assumes "read_groups (Suc i) left (CHR '':'' # t) = ((gs, v4), s'')"
  shows "i = 0 \<Longrightarrow> read_groups i (Suc left) (hex x @ CHR '':'' # t) = ((x # gs, v4), s'')"
    and "0 < i \<Longrightarrow> read_groups i (Suc left) (CHR '':'' # hex x @ CHR '':'' # t) = ((x # gs, v4), s'')"
  using assms by (auto simp: read_separator_def read_hex not_dotted_hex)

lemma read_groups_end: "0 < i \<Longrightarrow> read_groups i n ''::'' = (([], False), ''::'')"
  by (cases n) (auto simp: read_separator_def)

lemma read_groups_empty: "read_groups i n [] = (([], False), [])"
  by (cases n) (auto simp: read_separator_def)

lemma parse_v6_prefix:
  "parse_ip (hex s0 @ '':'' @ hex s1 @ '':'' @ hex s2 @ '':'' @ hex s3 @ ''::'') = Some (V6 s0 s1 s2 s3 0 0 0 0)"
  (is "parse_ip ?s = _")
proof -
  have "read_groups (Suc 3) 4 ''::'' = (([], False), ''::'')" by (rule read_groups_end) simp
  note read_groups_hex(2)[OF this, of s3]
  then have "read_groups (Suc 2) 5 (CHR '':'' # hex s3 @ ''::'') = (([s3], False), ''::'')" by (simp add: eval_nat_numeral)
  note read_groups_hex(2)[OF this, of s2]
  then have "read_groups (Suc 1) 6 (CHR '':'' # hex s2 @ CHR '':'' # hex s3 @ ''::'') = (([s2, s3], False), ''::'')"
    by (simp add: eval_nat_numeral)
  note read_groups_hex(2)[OF this, of s1]
  then have "read_groups (Suc 0) 7 (CHR '':'' # hex s1 @ CHR '':'' # hex s2 @ CHR '':'' # hex s3 @ ''::'')
           = (([s1, s2, s3], False), ''::'')"
    by (simp add: eval_nat_numeral)
  note read_groups_hex(1)[OF this, of s0]
  then have "read_groups 0 8 ?s = (([s0, s1, s2, s3], False), ''::'')" by (simp add: eval_nat_numeral)
  then have "read_ipv6_addr ?s = Some (V6 s0 s1 s2 s3 0 0 0 0, [])"
    by (simp add: read_ipv6_addr_def read_groups_empty eval_nat_numeral del: read_groups.simps)
  then show ?thesis using not_dotted_hex[of s0] by (simp add: parse_ip_def read_ip_addr_def)
qed

lemma parse_v4_prefix:
  "parse_ip (dec a @ ''.'' @ dec b @ ''.'' @ dec c @ ''.0'') = Some (V4 a b c 0)"
proof -
  have zero: "dec 0 = ''0''" by (simp add: dec_def radix_small digit_char_def)
  have last: "read_number 10 3 False 256 ''0'' = Some (0, [])" using read_dec[of "[]" 0] zero by simp
  show ?thesis
    by (simp add: parse_ip_def read_ip_addr_def read_ipv4_addr_def read_separator_def read_dec last)
qed

subsection \<open>Widening a recorded prefix\<close>

lemma split_once_first: "sep \<notin> set xs \<Longrightarrow> split_once sep (xs @ sep # ys) = Some (xs, ys)"
  by (induction xs) auto

lemma digits_no_slash: "CHR ''/'' \<notin> set (dec a)" "CHR ''/'' \<notin> set (hex s)"
proof -
  have "to_digit 16 CHR ''/'' = None" by (simp add: to_digit_def)
  then have no: "CHR ''/'' \<noteq> digit_char d" if "d < 16" for d using to_digit_digit_char[of d 16] that by force
  show "CHR ''/'' \<notin> set (dec a)" "CHR ''/'' \<notin> set (hex s)"
    using radix_digits_chars[of 10] radix_digits_chars[of 16] no
    unfolding dec_def hex_def is_radix_def by blast+
qed

text \<open>
  A grant is recorded against the /24 or /64 it was made to, and the daily share is counted on
  the /16 or /48 around it.  Reading the recorded string back and widening it gives the block the
  address itself is in, for every address, so no grant escapes its block's share.
\<close>

theorem widen_prefix_of: "widen_prefix (prefix_of ip) = Some (wide_prefix_of ip)"
proof (cases "to_canonical ip")
  case (V4 a b c d)
  have "prefix_of ip = (dec a @ ''.'' @ dec b @ ''.'' @ dec c @ ''.0'') @ CHR ''/'' # ''24''"
    using V4 by (simp add: prefix_of_def)
  then have "split_once CHR ''/'' (prefix_of ip) = Some (dec a @ ''.'' @ dec b @ ''.'' @ dec c @ ''.0'', ''24'')"
    by (simp only:) (rule split_once_first, simp add: digits_no_slash)
  then show ?thesis using V4 parse_v4_prefix[of a b c] by (simp add: widen_prefix_def wide_prefix_of_def)
next
  case (V6 s0 s1 s2 s3 s4 s5 s6 s7)
  have "prefix_of ip = (hex s0 @ '':'' @ hex s1 @ '':'' @ hex s2 @ '':'' @ hex s3 @ ''::'') @ CHR ''/'' # ''64''"
    using V6 by (simp add: prefix_of_def)
  then have "split_once CHR ''/'' (prefix_of ip)
           = Some (hex s0 @ '':'' @ hex s1 @ '':'' @ hex s2 @ '':'' @ hex s3 @ ''::'', ''64'')"
    by (simp only:) (rule split_once_first, simp add: digits_no_slash)
  then show ?thesis using V6 parse_v6_prefix[of s0 s1 s2 s3] by (simp add: widen_prefix_def wide_prefix_of_def)
qed

end
