(* ===== verification/Hub_Work.thy ===== *)
theory Hub_Work
  imports Hub_Tasks Hub_Net
begin

text \<open>
  Doing the work: claiming, joining, submitting, contests, disputes and consensus votes
  (\<open>hub/src/board.rs\<close>, from \<open>claim_task\<close> to \<open>resolve_consensus\<close>), then paying for it
  (\<open>mark_recipient_paid\<close> to \<open>expire_claims\<close>) and the leaderboard.
\<close>

subsection \<open>Claiming and joining\<close>

definition check_min_reputation :: "task_board \<Rightarrow> task \<Rightarrow> public_key \<Rightarrow> unit board_result" where
  "check_min_reputation b t agent =
     (let have_rep = rp_completed (reputation_of b agent)
      in if have_rep < tk_min_reputation t then Err (InsufficientReputation (tk_min_reputation t) have_rep)
         else Ok ())"

definition claim_task :: "uuid \<Rightarrow> public_key \<Rightarrow> instant \<Rightarrow> task_board \<Rightarrow> unit board_result \<times> task_board" where
  "claim_task i claimant deadline b =
     (case bm_get (bd_tasks b) i of
        None \<Rightarrow> (Err NotFound, b)
      | Some t \<Rightarrow>
          (case tk_kind t of
             Disputable _ \<Rightarrow> (Err ContestTakesNoClaim, b)
           | Consensus _ \<Rightarrow> (Err WrongTaskKind, b)
           | HashMatch _ \<Rightarrow>
               if tk_status t \<noteq> Open then (Err NotOpen, b)
               else if tk_poster t = claimant then (Err PosterCannotClaimOwnTask, b)
               else with_check (check_min_reputation b t claimant) b (\<lambda>_.
                 (Ok (), set_task i (t\<lparr>tk_status := Claimed, tk_claimant := Some claimant,
                                       tk_claim_deadline := Some deadline\<rparr>) b))))"

definition no_assignment :: consensus_assignment where
  "no_assignment = \<lparr>ca_answer = None, ca_paid = False, ca_share = None\<rparr>"

text \<open>\<open>now\<close> and \<open>now2\<close> are the two readings of the clock, for the window and for the deadline.\<close>

definition join_consensus_task ::
  "instant \<Rightarrow> instant \<Rightarrow> uuid \<Rightarrow> public_key \<Rightarrow> task_board \<Rightarrow> unit board_result \<times> task_board" where
  "join_consensus_task now now2 i agent b =
     (case bm_get (bd_tasks b) i of
        None \<Rightarrow> (Err NotFound, b)
      | Some t \<Rightarrow>
          (case tk_kind t of
             Consensus k \<Rightarrow>
               if tk_status t \<noteq> Open then (Err NotOpen, b)
               else if now > cs_join_deadline k then (Err JoinWindowExpired, b)
               else if tk_poster t = agent then (Err PosterCannotClaimOwnTask, b)
               else with_check (check_min_reputation b t agent) b (\<lambda>_.
                 if bm_contains agent (cs_assignees k) then (Err AlreadyJoined, b)
                 else let as' = bm_insert agent no_assignment (cs_assignees k);
                          just_filled = (of_nat (length as') \<ge> cs_num_assignees k);
                          k' = k\<lparr>cs_assignees := as',
                                 cs_submission_deadline :=
                                   (if just_filled then Some (now2 + minutes (cs_submission_window_minutes k))
                                    else cs_submission_deadline k)\<rparr>
                      in (Ok (), set_task i (t\<lparr>tk_kind := Consensus k',
                                   tk_status := (if just_filled then Claimed else tk_status t)\<rparr>) b))
           | _ \<Rightarrow> (Err WrongTaskKind, b)))"

definition submit :: "uuid \<Rightarrow> public_key \<Rightarrow> hash \<Rightarrow> task_board \<Rightarrow> bool board_result \<times> task_board" where
  "submit i submitter out_hash b =
     (case bm_get (bd_tasks b) i of
        None \<Rightarrow> (Err NotFound, b)
      | Some t \<Rightarrow>
          (case tk_kind t of
             HashMatch expected \<Rightarrow>
               if tk_status t \<noteq> Claimed then (Err NotClaimed, b)
               else if tk_claimant t \<noteq> Some submitter then (Err NotClaimant, b)
               else if out_hash = expected then (Ok True, set_task i (t\<lparr>tk_status := Verified\<rparr>) b)
               else let t1 = t\<lparr>tk_status := Open, tk_claimant := None, tk_claim_deadline := None\<rparr>
                    in with_check (expect (checked_add (tk_failed_attempts t) 1)) (set_task i t1 b) (\<lambda>f.
                         with_step (bump_failed submitter (set_task i (t1\<lparr>tk_failed_attempts := f\<rparr>) b))
                           (\<lambda>_ b1. (Ok False, b1)))
           | _ \<Rightarrow> (Err WrongTaskKind, b)))"

subsection \<open>Contests\<close>

definition submit_contest_answer ::
  "uuid \<Rightarrow> public_key \<Rightarrow> string \<Rightarrow> instant \<Rightarrow> task_board \<Rightarrow> unit board_result \<times> task_board" where
  "submit_contest_answer i submitter answer now b =
     (case bm_get (bd_tasks b) i of
        None \<Rightarrow> (Err NotFound, b)
      | Some t \<Rightarrow>
          (case tk_kind t of
             Disputable k \<Rightarrow>
               if tk_status t \<noteq> Open then (Err SubmissionsClosed, b)
               else if past now (submission_deadline t) then (Err SubmissionWindowExpired, b)
               else if tk_poster t = submitter then (Err PosterCannotAnswerOwnTask, b)
               else with_check (check_min_reputation b t submitter) b (\<lambda>_.
                 if list_ex (\<lambda>a. cn_pubkey a = submitter) (ds_answers k) then (Err AlreadySubmitted, b)
                 else if length (ds_answers k) \<ge> MAX_CONTEST_ANSWERS then (Err ContestFull, b)
                 else (Ok (), set_task i (t\<lparr>tk_kind := Disputable (k\<lparr>ds_answers := ds_answers k @
                        [\<lparr>cn_pubkey = submitter, cn_answer = answer, cn_submitted_at = now,
                          cn_share = None, cn_paid = False\<rparr>]\<rparr>)\<rparr>) b))
           | _ \<Rightarrow> (Err WrongTaskKind, b)))"

definition close_contest :: "uuid \<Rightarrow> public_key \<Rightarrow> instant \<Rightarrow> task_board \<Rightarrow> unit board_result \<times> task_board" where
  "close_contest i caller now b =
     (case bm_get (bd_tasks b) i of
        None \<Rightarrow> (Err NotFound, b)
      | Some t \<Rightarrow>
          (case tk_kind t of
             Disputable k \<Rightarrow>
               if tk_poster t \<noteq> caller then (Err NotPoster, b)
               else if tk_status t \<noteq> Open then (Err NotOpen, b)
               else if past now (submission_deadline t) then (Err SubmissionWindowExpired, b)
               else if ds_answers k = []
               then (Ok (), set_task i (t\<lparr>tk_status := Closed, tk_close_reason := Some NoAnswers\<rparr>) b)
               else (Ok (), set_task i (t\<lparr>tk_kind := Disputable (k\<lparr>ds_pick_deadline :=
                        Some (now + minutes (ds_dispute_window_minutes k))\<rparr>), tk_status := AwaitingPick\<rparr>) b)
           | _ \<Rightarrow> (Err WrongTaskKind, b)))"

text \<open>\<open>answers.iter_mut().find(p)\<close> followed by an assignment: only the first match changes.\<close>

fun update_first :: "('a \<Rightarrow> bool) \<Rightarrow> ('a \<Rightarrow> 'a) \<Rightarrow> 'a list \<Rightarrow> 'a list" where
  "update_first p f [] = []"
| "update_first p f (x # xs) = (if p x then f x # xs else x # update_first p f xs)"

definition pick_answer ::
  "uuid \<Rightarrow> public_key \<Rightarrow> public_key \<Rightarrow> instant \<Rightarrow> task_board \<Rightarrow> unit board_result \<times> task_board" where
  "pick_answer i caller answerer now b =
     (case bm_get (bd_tasks b) i of
        None \<Rightarrow> (Err NotFound, b)
      | Some t \<Rightarrow>
          (case tk_kind t of
             Disputable k \<Rightarrow>
               if tk_poster t \<noteq> caller then (Err NotPoster, b)
               else if tk_status t \<noteq> AwaitingPick then (Err NotAwaitingPick, b)
               else if past now (ds_pick_deadline k) then (Err PickWindowClosed, b)
               else if \<not> list_ex (\<lambda>a. cn_pubkey a = answerer) (ds_answers k) then (Err NotAnAnswer, b)
               else (Ok (), set_task i (t\<lparr>tk_kind := Disputable (k\<lparr>
                        ds_answers := update_first (\<lambda>a. cn_pubkey a = answerer)
                                        (\<lambda>a. a\<lparr>cn_share := Some (tk_bounty t)\<rparr>) (ds_answers k),
                        ds_picked := Some answerer\<rparr>), tk_status := Verified\<rparr>) b)
           | _ \<Rightarrow> (Err WrongTaskKind, b)))"

definition close_unclosed :: "instant \<Rightarrow> task \<Rightarrow> task option" where
  "close_unclosed now t =
     (if tk_status t = Open \<and> past now (submission_deadline t)
      then Some (t\<lparr>tk_status := Closed, tk_close_reason := Some NeverClosed\<rparr>) else None)"

definition close_unclosed_contests :: "instant \<Rightarrow> task_board \<Rightarrow> uuid list \<times> task_board" where
  "close_unclosed_contests now = sweep_tasks (close_unclosed now)"

definition split_unpicked :: "instant \<Rightarrow> task \<Rightarrow> task option" where
  "split_unpicked now t =
     (if tk_status t \<noteq> AwaitingPick then None
      else case tk_kind t of
        Disputable k \<Rightarrow>
          if \<not> past now (ds_pick_deadline k) then None
          else let share = tk_bounty t div max (of_nat (length (ds_answers k))) 1
               in Some (t\<lparr>tk_kind := Disputable (k\<lparr>ds_answers := map (\<lambda>a. a\<lparr>cn_share := Some share\<rparr>) (ds_answers k)\<rparr>),
                          tk_status := Verified\<rparr>)
      | _ \<Rightarrow> None)"

definition split_unpicked_contests :: "instant \<Rightarrow> task_board \<Rightarrow> uuid list \<times> task_board" where
  "split_unpicked_contests now = sweep_tasks (split_unpicked now)"

subsection \<open>Disputes\<close>

definition finalize_unchallenged :: "instant \<Rightarrow> task \<Rightarrow> task option" where
  "finalize_unchallenged now t =
     (if tk_status t \<noteq> AwaitingDispute then None
      else case tk_kind t of
        Disputable k \<Rightarrow>
          if ds_dispute k \<noteq> None then None
          else if past now (ds_dispute_deadline k) then Some (t\<lparr>tk_status := Verified\<rparr>) else None
      | _ \<Rightarrow> None)"

definition finalize_unchallenged_disputable_tasks :: "instant \<Rightarrow> task_board \<Rightarrow> uuid list \<times> task_board" where
  "finalize_unchallenged_disputable_tasks now = sweep_tasks (finalize_unchallenged now)"

definition resolve_dispute ::
  "uuid \<Rightarrow> dispute_resolution \<Rightarrow> task_board \<Rightarrow> (public_key \<times> public_key) board_result \<times> task_board" where
  "resolve_dispute i outcome b =
     (case bm_get (bd_tasks b) i of
        None \<Rightarrow> (Err NotFound, b)
      | Some t \<Rightarrow>
          if tk_status t \<noteq> Disputed then (Err NotDisputed, b)
          else (case tk_claimant t of
                  None \<Rightarrow> (Panic, b)
                | Some claimant \<Rightarrow>
                    (case tk_kind t of
                       Disputable k \<Rightarrow>
                         (case ds_dispute k of
                            None \<Rightarrow> (Panic, b)
                          | Some d \<Rightarrow>
                              let t1 = t\<lparr>tk_kind := Disputable (k\<lparr>ds_dispute := Some (d\<lparr>dp_resolution := Some outcome\<rparr>)\<rparr>)\<rparr>;
                                  (winner, loser) = (case outcome of
                                     ChallengerWins \<Rightarrow> (dp_challenger d, claimant)
                                   | AssigneeWins \<Rightarrow> (claimant, dp_challenger d))
                              in with_step (bump_failed loser (set_task i t1 b)) (\<lambda>_ b1.
                                   (Ok (winner, loser), set_task i (t1\<lparr>tk_status := Verified\<rparr>) b1)))
                     | _ \<Rightarrow> (Err WrongTaskKind, b))))"

definition add_earned :: "public_key \<Rightarrow> u64 \<Rightarrow> bool \<Rightarrow> task_board \<Rightarrow> unit board_result \<times> task_board" where
  "add_earned k amount credited b =
     (let r = reputation_of b k
      in with_check (if credited then plus_u (rp_completed r) 1 else Ok (rp_completed r))
           (restore_reputation k r b) (\<lambda>c.
         with_check (plus_u (rp_total_earned r) amount) (restore_reputation k (r\<lparr>rp_completed := c\<rparr>) b) (\<lambda>e.
           (Ok (), restore_reputation k (r\<lparr>rp_completed := c, rp_total_earned := e\<rparr>) b))))"

definition credit_forfeited_bond :: "public_key \<Rightarrow> u64 \<Rightarrow> task_board \<Rightarrow> unit board_result \<times> task_board" where
  "credit_forfeited_bond recipient bond_amount = add_earned recipient bond_amount False"

subsection \<open>Consensus\<close>

definition won :: "string option \<Rightarrow> consensus_assignment \<Rightarrow> bool" where
  "won w a \<longleftrightarrow> w \<noteq> None \<and> ca_answer a = w"

definition consensus_share :: "u64 \<Rightarrow> string option \<Rightarrow> (public_key, consensus_assignment) bmap \<Rightarrow> u64" where
  "consensus_share bounty w as = bounty div max (of_nat (length (filter (won w) (bm_values as)))) 1"

definition pay_winners :: "string option \<Rightarrow> u64 \<Rightarrow> (public_key, consensus_assignment) bmap \<Rightarrow> (public_key, consensus_assignment) bmap" where
  "pay_winners w share as = map (\<lambda>(k, a). (k, if won w a then a\<lparr>ca_share := Some share\<rparr> else a)) as"

definition resolve_consensus :: "uuid \<Rightarrow> task_board \<Rightarrow> unit board_result \<times> task_board" where
  "resolve_consensus i b =
     (case bm_get (bd_tasks b) i of
        None \<Rightarrow> (Ok (), b)
      | Some t \<Rightarrow>
          (case tk_kind t of
             Consensus k \<Rightarrow>
               let w = majority_answer (cs_assignees k);
                   share = consensus_share (tk_bounty t) w (cs_assignees k);
                   losers = (if w = None then [] else map fst (filter (\<lambda>(_, a). \<not> won w a) (cs_assignees k)))
               in with_step (each_step bump_failed losers b) (\<lambda>_ b1.
                    (Ok (), set_task i
                       (if w \<noteq> None
                        then t\<lparr>tk_kind := Consensus (k\<lparr>cs_assignees := pay_winners w share (cs_assignees k)\<rparr>),
                               tk_status := Verified\<rparr>
                        else t\<lparr>tk_status := Closed, tk_close_reason := Some NoMajority\<rparr>) b1))
           | _ \<Rightarrow> (Ok (), b)))"

definition submit_consensus_answer ::
  "instant \<Rightarrow> uuid \<Rightarrow> public_key \<Rightarrow> string \<Rightarrow> task_board \<Rightarrow> bool board_result \<times> task_board" where
  "submit_consensus_answer now i agent answer b =
     (case bm_get (bd_tasks b) i of
        None \<Rightarrow> (Err NotFound, b)
      | Some t \<Rightarrow>
          (case tk_kind t of
             Consensus k \<Rightarrow>
               if tk_status t \<noteq> Claimed then (Err NotClaimed, b)
               else (case cs_submission_deadline k of
                       None \<Rightarrow> (Panic, b)
                     | Some deadline \<Rightarrow>
                         if now > deadline then (Err SubmissionWindowExpired, b)
                         else (case bm_get (cs_assignees k) agent of
                                 None \<Rightarrow> (Err NotClaimant, b)
                               | Some a \<Rightarrow>
                                   if ca_answer a \<noteq> None then (Err AlreadySubmitted, b)
                                   else let as' = bm_insert agent (a\<lparr>ca_answer := Some answer\<rparr>) (cs_assignees k);
                                            b1 = set_task i (t\<lparr>tk_kind := Consensus (k\<lparr>cs_assignees := as'\<rparr>)\<rparr>) b
                                        in if list_all (\<lambda>a. ca_answer a \<noteq> None) (bm_values as')
                                           then with_step (resolve_consensus i b1) (\<lambda>_ b2. (Ok True, b2))
                                           else (Ok False, b1)))
           | _ \<Rightarrow> (Err WrongTaskKind, b)))"

definition consensus_due :: "instant \<Rightarrow> task \<Rightarrow> bool" where
  "consensus_due now t \<longleftrightarrow> tk_status t = Claimed \<and>
     (case tk_kind t of Consensus k \<Rightarrow> past now (cs_submission_deadline k) | _ \<Rightarrow> False)"

definition resolve_expired_consensus_tasks :: "instant \<Rightarrow> task_board \<Rightarrow> uuid list board_result \<times> task_board" where
  "resolve_expired_consensus_tasks now b =
     (let due = map tk_id (filter (consensus_due now) (bm_values (bd_tasks b)))
      in with_step (each_step resolve_consensus due b) (\<lambda>_ b1. (Ok due, b1)))"

definition cancel_understaffed :: "instant \<Rightarrow> task \<Rightarrow> task option" where
  "cancel_understaffed now t =
     (if tk_status t = Open \<and> (case tk_kind t of Consensus k \<Rightarrow> now > cs_join_deadline k | _ \<Rightarrow> False)
      then Some (t\<lparr>tk_status := Closed, tk_close_reason := Some Understaffed\<rparr>) else None)"

definition cancel_understaffed_consensus_tasks :: "instant \<Rightarrow> task_board \<Rightarrow> uuid list \<times> task_board" where
  "cancel_understaffed_consensus_tasks now = sweep_tasks (cancel_understaffed now)"

subsection \<open>Payouts\<close>

text \<open>
  The kind after the payment, whether the payment counts as a completed task, and whether the
  task is now fully paid; \<open>Ok None\<close> when this recipient was already paid.
\<close>

definition pay_kind :: "task \<Rightarrow> public_key \<Rightarrow> (task_kind \<times> bool \<times> bool) option board_result" where
  "pay_kind t recipient =
     (case tk_kind t of
        HashMatch h \<Rightarrow>
          if tk_claimant t \<noteq> Some recipient then Err NotClaimant else Ok (Some (HashMatch h, True, True))
      | Consensus k \<Rightarrow>
          (case bm_get (cs_assignees k) recipient of
             None \<Rightarrow> Err NotClaimant
           | Some a \<Rightarrow>
               if ca_share a = None then Err NotClaimant
               else if ca_paid a then Ok None
               else let as' = bm_insert recipient (a\<lparr>ca_paid := True\<rparr>) (cs_assignees k)
                    in Ok (Some (Consensus (k\<lparr>cs_assignees := as'\<rparr>), True,
                             list_all (\<lambda>a. ca_share a = None \<or> ca_paid a) (bm_values as'))))
      | Disputable k \<Rightarrow>
          if ds_answers k \<noteq> []
          then (case List.find (\<lambda>a. cn_pubkey a = recipient) (ds_answers k) of
                  None \<Rightarrow> Err NotClaimant
                | Some a \<Rightarrow>
                    if cn_share a = None then Err NotClaimant
                    else if cn_paid a then Ok None
                    else let as' = update_first (\<lambda>a. cn_pubkey a = recipient) (\<lambda>a. a\<lparr>cn_paid := True\<rparr>) (ds_answers k)
                         in Ok (Some (Disputable (k\<lparr>ds_answers := as'\<rparr>), ds_picked k \<noteq> None,
                                  list_all (\<lambda>a. cn_share a = None \<or> cn_paid a) as')))
          else if pending_payouts_recipient_hint t \<noteq> Some recipient then Err NotClaimant
          else Ok (Some (Disputable k, True, True)))"

definition mark_recipient_paid ::
  "instant \<Rightarrow> uuid \<Rightarrow> public_key \<Rightarrow> u64 \<Rightarrow> task_board \<Rightarrow> bool board_result \<times> task_board" where
  "mark_recipient_paid now i recipient amount b =
     (case bm_get (bd_tasks b) i of
        None \<Rightarrow> (Err NotFound, b)
      | Some t \<Rightarrow>
          if tk_status t \<noteq> Verified \<and> tk_status t \<noteq> Submitted then (Err NotVerified, b)
          else with_check (pay_kind t recipient) b (\<lambda>r.
            case r of
              None \<Rightarrow> (Ok False, b)
            | Some (kind, credited, full) \<Rightarrow>
                let t1 = t\<lparr>tk_kind := kind\<rparr>;
                    t2 = (if full then t1\<lparr>tk_status := Paid,
                                          tk_settled_at := (case tk_settled_at t of None \<Rightarrow> Some now | Some s \<Rightarrow> Some s)\<rparr>
                          else t1)
                in with_step (add_earned recipient amount credited (set_task i t2 b)) (\<lambda>_ b1. (Ok full, b1))))"

definition unsubmitted_payouts :: "task_board \<Rightarrow> uuid \<Rightarrow> (public_key \<times> u64) list" where
  "unsubmitted_payouts b i =
     (case bm_get (bd_tasks b) i of
        None \<Rightarrow> []
      | Some t \<Rightarrow> filter (\<lambda>(r, _). \<not> bm_contains (i, r) (bd_payout_attempts b)) (pending_payouts t))"

definition restore_payout_attempt :: "payout_attempt \<Rightarrow> task_board \<Rightarrow> task_board" where
  "restore_payout_attempt a b =
     b\<lparr>bd_payout_attempts := bm_insert (pa_task_id a, pa_recipient a) a (bd_payout_attempts b)\<rparr>"

definition record_payout_attempt :: "payout_attempt \<Rightarrow> task_board \<Rightarrow> task_board" where
  "record_payout_attempt a b =
     (let i = pa_task_id a; b1 = restore_payout_attempt a b
      in if unsubmitted_payouts b1 i \<noteq> [] then b1
         else (case bm_get (bd_tasks b1) i of
                 None \<Rightarrow> b1
               | Some t \<Rightarrow> if tk_status t = Verified then set_task i (t\<lparr>tk_status := Submitted\<rparr>) b1 else b1))"

definition payout_attempt_for :: "task_board \<Rightarrow> uuid \<Rightarrow> public_key \<Rightarrow> payout_attempt option" where
  "payout_attempt_for b i recipient = bm_get (bd_payout_attempts b) (i, recipient)"

definition outstanding_payout_attempts :: "task_board \<Rightarrow> payout_attempt list" where
  "outstanding_payout_attempts b = sort_key pa_submitted_at (bm_values (bd_payout_attempts b))"

definition payout_attempts_for_task :: "task_board \<Rightarrow> uuid \<Rightarrow> payout_attempt list" where
  "payout_attempts_for_task b i = map snd (filter (\<lambda>((j, _), _). j = i) (bd_payout_attempts b))"

definition clear_payout_attempt :: "uuid \<Rightarrow> public_key \<Rightarrow> task_board \<Rightarrow> payout_attempt option \<times> task_board" where
  "clear_payout_attempt i recipient b =
     (bm_get (bd_payout_attempts b) (i, recipient),
      b\<lparr>bd_payout_attempts := bm_remove (i, recipient) (bd_payout_attempts b)\<rparr>)"

definition mark_payout_failed :: "uuid \<Rightarrow> task_board \<Rightarrow> payout_attempt list board_result \<times> task_board" where
  "mark_payout_failed i b =
     (case bm_get (bd_tasks b) i of
        None \<Rightarrow> (Err NotFound, b)
      | Some t \<Rightarrow>
          if tk_status t \<noteq> Verified \<and> tk_status t \<noteq> Submitted then (Err NotVerified, b)
          else let b1 = set_task i (t\<lparr>tk_status := PayoutFailed\<rparr>) b
               in (Ok (payout_attempts_for_task b1 i),
                   b1\<lparr>bd_payout_attempts := filter (\<lambda>((j, _), _). j \<noteq> i) (bd_payout_attempts b1)\<rparr>))"

definition expire_claim :: "instant \<Rightarrow> task \<Rightarrow> task option" where
  "expire_claim now t =
     (if tk_status t = Claimed \<and> past now (tk_claim_deadline t)
      then Some (t\<lparr>tk_status := Open, tk_claimant := None, tk_claim_deadline := None\<rparr>) else None)"

definition expire_claims :: "instant \<Rightarrow> task_board \<Rightarrow> uuid list \<times> task_board" where
  "expire_claims now = sweep_tasks (expire_claim now)"

definition leaderboard :: "nat \<Rightarrow> task_board \<Rightarrow> (public_key \<times> reputation_entry) list" where
  "leaderboard top_n b = take top_n (sort_key (\<lambda>e. - uint (rp_total_earned (snd e))) (bd_reputation b))"

subsection \<open>Faucet grants\<close>

definition can_claim_faucet :: "task_board \<Rightarrow> public_key \<Rightarrow> bool" where
  "can_claim_faucet b k \<longleftrightarrow> \<not> bm_contains k (bd_faucet_grants b)"

definition restore_faucet_grant :: "public_key \<Rightarrow> int \<Rightarrow> task_board \<Rightarrow> task_board" where
  "restore_faucet_grant k granted_at b = b\<lparr>bd_faucet_grants := bm_insert k granted_at (bd_faucet_grants b)\<rparr>"

text \<open>The insertion happens first; an earlier grant makes the call fail but its time is replaced.\<close>

definition record_faucet_grant :: "public_key \<Rightarrow> int \<Rightarrow> task_board \<Rightarrow> unit board_result \<times> task_board" where
  "record_faucet_grant k granted_at b =
     (let b1 = restore_faucet_grant k granted_at b
      in if bm_contains k (bd_faucet_grants b) then (Err AlreadyClaimed, b1) else (Ok (), b1))"

definition revoke_faucet_grant :: "public_key \<Rightarrow> task_board \<Rightarrow> task_board" where
  "revoke_faucet_grant k b = b\<lparr>bd_faucet_grants := bm_remove k (bd_faucet_grants b)\<rparr>"

definition restore_faucet_grant_prefix :: "public_key \<Rightarrow> string \<Rightarrow> task_board \<Rightarrow> task_board" where
  "restore_faucet_grant_prefix k prefix b =
     b\<lparr>bd_faucet_grant_prefixes := bm_insert k prefix (bd_faucet_grant_prefixes b)\<rparr>"

definition record_faucet_grant_prefix :: "public_key \<Rightarrow> string \<Rightarrow> task_board \<Rightarrow> task_board" where
  "record_faucet_grant_prefix k prefix b =
     b\<lparr>bd_faucet_grant_prefixes := bm_insert k prefix (bd_faucet_grant_prefixes b)\<rparr>"

definition faucet_grant_times :: "task_board \<Rightarrow> int list" where
  "faucet_grant_times b = bm_values (bd_faucet_grants b)"

definition granted_at_or_after :: "task_board \<Rightarrow> int \<Rightarrow> public_key \<Rightarrow> bool" where
  "granted_at_or_after b cutoff k =
     (case bm_get (bd_faucet_grants b) k of None \<Rightarrow> False | Some at \<Rightarrow> at \<ge> cutoff)"

definition faucet_granted_since :: "task_board \<Rightarrow> int \<Rightarrow> nat" where
  "faucet_granted_since b cutoff = length (filter (\<lambda>at. at \<ge> cutoff) (bm_values (bd_faucet_grants b)))"

definition faucet_granted_from_prefix_since :: "task_board \<Rightarrow> string \<Rightarrow> int \<Rightarrow> nat" where
  "faucet_granted_from_prefix_since b prefix cutoff =
     length (filter (\<lambda>(k, _). granted_at_or_after b cutoff k)
       (filter (\<lambda>(_, from_prefix). from_prefix = prefix) (bd_faucet_grant_prefixes b)))"

definition faucet_granted_from_wide_prefix_since ::
  "task_board \<Rightarrow> string \<Rightarrow> int \<Rightarrow> nat" where
  "faucet_granted_from_wide_prefix_since b wide cutoff =
     length (filter (\<lambda>(k, _). granted_at_or_after b cutoff k)
       (filter (\<lambda>(_, from_prefix). widen_prefix from_prefix = Some wide) (bd_faucet_grant_prefixes b)))"

definition count_grant :: "task_board \<Rightarrow> int \<Rightarrow> public_key \<times> string \<Rightarrow> (string, nat \<times> nat) bmap \<Rightarrow> (string, nat \<times> nat) bmap" where
  "count_grant b cutoff e rows =
     (let (in_window, total) = (case bm_get rows (snd e) of None \<Rightarrow> (0, 0) | Some r \<Rightarrow> r)
      in bm_insert (snd e)
           ((if granted_at_or_after b cutoff (fst e) then Suc in_window else in_window), Suc total) rows)"

definition faucet_grants_by_prefix :: "task_board \<Rightarrow> int \<Rightarrow> (string \<times> nat \<times> nat) list" where
  "faucet_grants_by_prefix b cutoff = fold (count_grant b cutoff) (bd_faucet_grant_prefixes b) []"

end
