(* ===== verification/Hub_Vote.thy ===== *)
theory Hub_Vote
  imports Hub_Work
begin

text \<open>
  The majority vote counts what it says it counts: \<open>majority_answer\<close> names an answer exactly
  when more than half of all assignees gave it, silent ones included in the total.
\<close>

definition votes_for :: "string \<Rightarrow> consensus_assignment list \<Rightarrow> nat" where
  "votes_for ans xs = length (filter (\<lambda>a. ca_answer a = Some ans) xs)"

lemma votes_for_simps [simp]:
  "votes_for ans [] = 0"
  "votes_for ans (a # xs) = (if ca_answer a = Some ans then Suc (votes_for ans xs) else votes_for ans xs)"
  by (simp_all add: votes_for_def)

lemma votes_for_disjoint: "ans \<noteq> ans' \<Longrightarrow> votes_for ans xs + votes_for ans' xs \<le> length xs"
  by (induction xs) auto

lemma fold_count_wf: "bm_wf m \<Longrightarrow> bm_wf (fold count_answer xs m)"
  by (induction xs arbitrary: m) (auto simp: count_answer_def split: option.splits)

lemma fold_count_get:
  "bm_get (fold count_answer xs m) ans =
     (if votes_for ans xs = 0 then bm_get m ans
      else Some (votes_for ans xs + (case bm_get m ans of None \<Rightarrow> 0 | Some c \<Rightarrow> c)))"
proof (induction xs arbitrary: m)
  case (Cons a xs)
  have "bm_get (count_answer a m) ans =
      (if ca_answer a = Some ans then Some (Suc (case bm_get m ans of None \<Rightarrow> 0 | Some c \<Rightarrow> c)) else bm_get m ans)"
    by (simp add: count_answer_def split: option.split)
  then show ?case using Cons.IH [of "count_answer a m"] by simp
qed simp

lemma answer_counts_wf [simp]: "bm_wf (answer_counts as)"
  by (simp add: answer_counts_def fold_count_wf)

lemma answer_counts_get:
  "bm_get (answer_counts as) ans =
     (if votes_for ans (bm_values as) = 0 then None else Some (votes_for ans (bm_values as)))"
  by (simp add: answer_counts_def fold_count_get)

lemma filter_singleton:
  assumes wf: "bm_wf m" and "bm_get m k = Some v" "P (k, v)"
    and only: "\<And>k' v'. bm_get m k' = Some v' \<Longrightarrow> P (k', v') \<Longrightarrow> k' = k"
  shows "filter P m = [(k, v)]"
proof -
  have d: "distinct (map fst m)" using wf by (simp add: bm_wf_def strict_sorted_iff)
  have get: "bm_get m k' = Some v'" if "(k', v') \<in> set m" for k' v'
    using d that by (simp add: bm_get_def)
  have "(k, v) \<in> set m" using assms(2) by (simp add: bm_get_def map_of_SomeD)
  then obtain xs ys where m: "m = xs @ (k, v) # ys" by (auto simp: in_set_conv_decomp)
  have "\<not> P e" if "e \<in> set xs \<union> set ys" for e
  proof
    assume "P e"
    moreover have "bm_get m (fst e) = Some (snd e)" using that m by (intro get) auto
    ultimately have "fst e = k" using only by (metis prod.collapse)
    then show False using d that m by (auto simp: rev_image_eqI)
  qed
  then have "filter P xs = []" "filter P ys = []" by (auto simp: filter_empty_conv)
  with assms(3) show ?thesis by (simp add: m)
qed

lemma fold_max_ge: "x \<in> set xs \<Longrightarrow> x \<le> fold max xs (a :: nat)"
proof -
  assume "x \<in> set xs"
  then have "x \<le> Max (set (a # xs))" by simp
  then show ?thesis by (simp only: Max.set_eq_fold)
qed

lemma fold_max_in: "fold max xs (a :: nat) \<in> set (a # xs)"
  using Max_in [of "set (a # xs)"] by (simp only: Max.set_eq_fold) simp

lemma majority_answer_sound:
  assumes "majority_answer as = Some ans"
  shows "length as < 2 * votes_for ans (bm_values as)"
proof -
  let ?cs = "answer_counts as" and ?mx = "fold max (bm_values (answer_counts as)) 0"
  from assms obtain c where top: "rev (filter (\<lambda>(_, c). c = ?mx) ?cs) = [(ans, c)]" and big: "?mx > length as div 2"
    by (auto simp: majority_answer_def Let_def split: if_splits list.splits)
  have "(ans, c) \<in> set (rev (filter (\<lambda>(_, c). c = ?mx) ?cs))" using top by simp
  then have "(ans, c) \<in> set ?cs" "c = ?mx" by auto
  then have "bm_get ?cs ans = Some ?mx"
    using answer_counts_wf [of as] by (simp add: bm_get_def bm_wf_def strict_sorted_iff)
  then have "votes_for ans (bm_values as) = ?mx" by (simp add: answer_counts_get split: if_splits)
  with big show ?thesis by linarith
qed

lemma majority_answer_complete:
  assumes "length as < 2 * votes_for ans (bm_values as)"
  shows "majority_answer as = Some ans"
proof -
  let ?cs = "answer_counts as" and ?mx = "fold max (bm_values (answer_counts as)) 0"
  let ?n = "votes_for ans (bm_values as)"
  have len: "length (bm_values as) = length as" by (simp add: bm_values_def)
  have pos: "?n \<noteq> 0" using assms by linarith
  have get: "bm_get ?cs ans = Some ?n" using pos by (simp add: answer_counts_get)
  have other: "v < ?n" if "bm_get ?cs k = Some v" "k \<noteq> ans" for k v
  proof -
    have "v = votes_for k (bm_values as)" using that(1) by (auto simp: answer_counts_get split: if_splits)
    with votes_for_disjoint [OF that(2), of "bm_values as"] assms len show ?thesis by linarith
  qed
  have "?mx = ?n"
  proof (rule antisym)
    have "?mx \<in> set (0 # bm_values ?cs)" by (rule fold_max_in)
    then consider "?mx = 0" | k where "bm_get ?cs k = Some ?mx"
      using bm_values_iff [of ?cs ?mx] by auto
    then show "?mx \<le> ?n"
    proof cases
      case 2
      then show ?thesis using other [of k ?mx] get by (cases "k = ans") auto
    qed simp
    have "?n \<in> set (bm_values ?cs)" using get bm_values_iff [of ?cs ?n] by auto
    then show "?n \<le> ?mx" by (rule fold_max_ge)
  qed
  moreover have "filter (\<lambda>(_, c). c = ?n) ?cs = [(ans, ?n)]"
    by (rule filter_singleton) (use get other in force)+
  moreover have "?cs \<noteq> []" using get by auto
  ultimately show ?thesis using assms by (auto simp: majority_answer_def Let_def)
qed

text \<open>
  C15: \<open>majority_answer\<close> returns an answer exactly when strictly more than half of all assignees
  gave it; assignees who never answered count towards the total and a tie or a mere plurality
  yields nothing.
\<close>

theorem majority_answer_is_majority:
  "majority_answer as = Some ans \<longleftrightarrow> length as < 2 * votes_for ans (bm_values as)"
  using majority_answer_sound majority_answer_complete by blast

end
