(* ===== verification/Hub_Task_Inv.thy ===== *)
theory Hub_Task_Inv
  imports Hub_Vote
begin

text \<open>
  The invariant of tasks and the steps a task may take.  \<open>task_ok\<close> says what a task in each
  status looks like: payouts allocated to distinct recipients and together within the bounty,
  something owed while it is \<open>Verified\<close> or \<open>Submitted\<close> and nothing once it is \<open>Paid\<close>.
  \<open>task_step\<close> says how one call may change a task: along the status diagram, never undoing a
  payment, and without touching an allocation once it is made.
\<close>

subsection \<open>Payout totals\<close>

definition payout_total :: "(public_key \<times> u64) list \<Rightarrow> nat" where
  "payout_total ps = sum_list (map (unat \<circ> snd) ps)"

lemma payout_total_simps [simp]:
  "payout_total [] = 0" "payout_total ((k, v) # ps) = unat v + payout_total ps"
  by (simp_all add: payout_total_def)

lemma payout_total_filter: "payout_total (filter P ps) + payout_total (filter (\<lambda>x. \<not> P x) ps) = payout_total ps"
  by (induction ps) (auto simp: payout_total_def)

lemma payout_total_const: "payout_total (map (\<lambda>x. (f x, s)) xs) = length xs * unat s"
  by (induction xs) auto

text \<open>An even split never exceeds what is split.\<close>

lemma even_split_le:
  assumes "n < 2 ^ 64"
  shows "n * unat (bounty div max (of_nat n) (1 :: u64)) \<le> unat bounty"
proof (cases "n = 0")
  case False
  have "unat (of_nat n :: u64) = n" using assms by (intro unat_of_nat_less) simp
  moreover have "max (of_nat n) (1 :: u64) = of_nat n"
    using False calculation by (cases "n = 1") (simp_all add: max_def word_le_nat_alt)
  ultimately have "unat (bounty div max (of_nat n) 1) = unat bounty div n" by (simp add: unat_div)
  then show ?thesis by simp
qed simp

subsection \<open>Well-formed tasks\<close>

definition resolved :: "task_status \<Rightarrow> bool" where
  "resolved st \<longleftrightarrow> st \<in> {Verified, Submitted, Paid, PayoutFailed}"

definition share_ok :: "bool \<Rightarrow> u64 option \<Rightarrow> bool \<Rightarrow> bool" where
  "share_ok res share paid \<longleftrightarrow> (paid \<longrightarrow> share \<noteq> None) \<and> (\<not> res \<longrightarrow> share = None)"

definition kind_ok :: "task \<Rightarrow> bool" where
  "kind_ok t =
     (case tk_kind t of
        HashMatch _ \<Rightarrow>
          tk_status t \<in> {Open, Claimed, Verified, Submitted, Paid, PayoutFailed, Closed}
          \<and> tk_claimant t \<noteq> Some (tk_poster t)
          \<and> (tk_status t = Claimed \<or> resolved (tk_status t) \<longrightarrow> tk_claimant t \<noteq> None)
      | Consensus k \<Rightarrow>
          tk_status t \<in> {Open, Claimed, Verified, Submitted, Paid, PayoutFailed, Closed}
          \<and> tk_claim_deadline t = None \<and> bm_wf (cs_assignees k) \<and> \<not> bm_contains (tk_poster t) (cs_assignees k)
          \<and> length (cs_assignees k) \<le> max 1 (unat (cs_num_assignees k))
          \<and> (tk_status t = Open \<longrightarrow> length (cs_assignees k) < max 1 (unat (cs_num_assignees k)))
          \<and> (tk_status t = Claimed \<longrightarrow> cs_submission_deadline k \<noteq> None)
          \<and> (\<forall>a \<in> set (bm_values (cs_assignees k)). share_ok (resolved (tk_status t)) (ca_share a) (ca_paid a))
      | Disputable k \<Rightarrow>
          distinct (map cn_pubkey (ds_answers k)) \<and> tk_poster t \<notin> set (map cn_pubkey (ds_answers k))
          \<and> length (ds_answers k) \<le> MAX_CONTEST_ANSWERS
          \<and> (\<forall>a \<in> set (ds_answers k). share_ok (resolved (tk_status t)) (cn_share a) (cn_paid a))
          \<and> (tk_status t \<in> {Claimed, AwaitingDispute, Disputed} \<longrightarrow> ds_answers k = [])
          \<and> (tk_status t = AwaitingPick \<longrightarrow> ds_answers k \<noteq> [] \<and> ds_pick_deadline k \<noteq> None)
          \<and> (tk_status t = AwaitingDispute \<longrightarrow>
               ds_dispute_deadline k \<noteq> None \<and> tk_claimant t \<noteq> None \<and> ds_dispute k = None)
          \<and> (tk_status t = Disputed \<longrightarrow> tk_claimant t \<noteq> None \<and> ds_dispute k \<noteq> None))"

definition payouts_ok :: "task \<Rightarrow> bool" where
  "payouts_ok t \<longleftrightarrow> distinct (map fst (allocated_payouts t)) \<and> payout_total (allocated_payouts t) \<le> unat (tk_bounty t)
     \<and> (tk_status t \<in> {Verified, Submitted, PayoutFailed} \<longrightarrow> owed_payouts t \<noteq> [])
     \<and> (tk_status t = Paid \<longrightarrow> owed_payouts t = [])"

definition task_ok :: "uuid \<Rightarrow> task \<Rightarrow> bool" where
  "task_ok i t \<longleftrightarrow> tk_id t = i \<and> kind_ok t \<and> payouts_ok t"

subsection \<open>Steps\<close>

fun may_follow :: "task_status \<Rightarrow> task_status \<Rightarrow> bool" where
  "may_follow Open st \<longleftrightarrow> st \<in> {Open, Claimed, AwaitingPick, Closed}"
| "may_follow Claimed st \<longleftrightarrow> st \<in> {Claimed, Open, Verified, Closed}"
| "may_follow AwaitingDispute st \<longleftrightarrow> st \<in> {AwaitingDispute, Disputed, Verified, Closed}"
| "may_follow Disputed st \<longleftrightarrow> st \<in> {Disputed, Verified}"
| "may_follow AwaitingPick st \<longleftrightarrow> st \<in> {AwaitingPick, Verified, Closed}"
| "may_follow Verified st \<longleftrightarrow> st \<in> {Verified, Submitted, Paid, PayoutFailed}"
| "may_follow Submitted st \<longleftrightarrow> st \<in> {Submitted, Paid, PayoutFailed}"
| "may_follow Paid st \<longleftrightarrow> st = Paid"
| "may_follow PayoutFailed st \<longleftrightarrow> st = PayoutFailed"
| "may_follow Closed st \<longleftrightarrow> st = Closed"

definition task_evolves :: "task \<Rightarrow> task \<Rightarrow> bool" where
  "task_evolves t t' \<longleftrightarrow> tk_id t' = tk_id t \<and> tk_bounty t' = tk_bounty t \<and> tk_poster t' = tk_poster t
     \<and> tk_escrow_id t' = tk_escrow_id t
     \<and> (\<forall>r. is_recipient_paid t r \<longrightarrow> is_recipient_paid t' r)
     \<and> (resolved (tk_status t) \<longrightarrow> resolved (tk_status t') \<and> allocated_payouts t' = allocated_payouts t)
     \<and> (tk_status t \<in> {Paid, PayoutFailed, Closed} \<longrightarrow> tk_status t' = tk_status t)"

definition task_step :: "task \<Rightarrow> task \<Rightarrow> bool" where
  "task_step t t' \<longleftrightarrow> may_follow (tk_status t) (tk_status t') \<and> task_evolves t t'"

definition steps_to :: "uuid \<Rightarrow> task \<Rightarrow> task \<Rightarrow> bool" where
  "steps_to i t t' \<longleftrightarrow> task_ok i t' \<and> task_step t t'"

lemma may_follow_refl [simp]: "may_follow st st"
  by (cases st) auto

lemma task_evolves_refl [simp]: "task_evolves t t"
  by (simp add: task_evolves_def)

lemma task_step_refl [simp]: "task_step t t"
  by (simp add: task_step_def)

lemma task_evolves_trans: "task_evolves t u \<Longrightarrow> task_evolves u v \<Longrightarrow> task_evolves t v"
  by (auto simp: task_evolves_def)

definition tasks_ok :: "(uuid, task) bmap \<Rightarrow> bool" where
  "tasks_ok m \<longleftrightarrow> bm_wf m \<and> (\<forall>i t. bm_get m i = Some t \<longrightarrow> task_ok i t)"

definition tasks_step :: "(uuid, task) bmap \<Rightarrow> (uuid, task) bmap \<Rightarrow> bool" where
  "tasks_step m m' \<longleftrightarrow> (\<forall>i t. bm_get m i = Some t \<longrightarrow> (\<exists>t'. bm_get m' i = Some t' \<and> task_step t t'))
     \<and> (\<forall>i t'. bm_get m' i = Some t' \<longrightarrow> bm_get m i = None \<longrightarrow> tk_escrow_id t' = None)"

text \<open>The effect of an operation on the task table, given a well-formed one.\<close>

definition keeps_tasks :: "task_board \<Rightarrow> task_board \<Rightarrow> bool" where
  "keeps_tasks b b' \<longleftrightarrow> tasks_ok (bd_tasks b) \<longrightarrow> tasks_ok (bd_tasks b') \<and> tasks_step (bd_tasks b) (bd_tasks b')"

lemma keeps_tasks_same: "bd_tasks b' = bd_tasks b \<Longrightarrow> keeps_tasks b b'"
  by (auto simp: keeps_tasks_def tasks_step_def intro: task_step_refl)

lemma keeps_tasks_refl [simp]: "keeps_tasks b b"
  by (rule keeps_tasks_same) simp

lemma keeps_set_task:
  assumes "bd_tasks b' = bm_insert i t' (bd_tasks b)" "bm_get (bd_tasks b) i = Some t"
    and "tasks_ok (bd_tasks b) \<Longrightarrow> task_ok i t \<Longrightarrow> steps_to i t t'"
  shows "keeps_tasks b b'"
  using assms by (auto simp: steps_to_def keeps_tasks_def tasks_ok_def tasks_step_def)

lemma keeps_new_task:
  assumes "bd_tasks b' = bm_insert i t' (bd_tasks b)" "bm_get (bd_tasks b) i = None" "task_ok i t'" "tk_escrow_id t' = None"
  shows "keeps_tasks b b'"
  using assms by (auto simp: keeps_tasks_def tasks_ok_def tasks_step_def)

lemma sweep_get:
  "bm_get (bd_tasks (snd (sweep_tasks f b))) i =
     map_option (\<lambda>t. case f t of None \<Rightarrow> t | Some t' \<Rightarrow> t') (bm_get (bd_tasks b) i)"
  by (simp add: sweep_tasks_def bm_get_def map_of_map)

lemma sweep_wf: "bm_wf (bd_tasks (snd (sweep_tasks f b))) = bm_wf (bd_tasks b)"
  by (simp add: sweep_tasks_def bm_wf_def o_def case_prod_unfold)

lemma keeps_sweep:
  assumes "\<And>i t t'. task_ok i t \<Longrightarrow> f t = Some t' \<Longrightarrow> steps_to i t t'"
  shows "keeps_tasks b (snd (sweep_tasks f b))"
  unfolding keeps_tasks_def
proof (intro impI conjI)
  assume ok: "tasks_ok (bd_tasks b)"
  have one: "task_ok i (case f t of None \<Rightarrow> t | Some t' \<Rightarrow> t') \<and> task_step t (case f t of None \<Rightarrow> t | Some t' \<Rightarrow> t')"
    if "bm_get (bd_tasks b) i = Some t" for i t
  proof -
    have "task_ok i t" using ok that by (simp add: tasks_ok_def)
    then show ?thesis using assms [of i t] by (cases "f t") (auto simp: steps_to_def)
  qed
  show "tasks_ok (bd_tasks (snd (sweep_tasks f b)))"
    using ok one by (auto simp: tasks_ok_def sweep_get sweep_wf)
  show "tasks_step (bd_tasks b) (bd_tasks (snd (sweep_tasks f b)))"
    using one by (auto simp: tasks_step_def sweep_get)
qed

subsection \<open>What leaves tasks alone\<close>

lemma reputation_frame [simp]:
  "bd_tasks (restore_reputation k r b) = bd_tasks b"
  "bd_tasks (set_deposit i d b) = bd_tasks b"
  "bd_tasks (restore_payout_attempt a b) = bd_tasks b"
  "bd_pending_deposits (restore_reputation k r b) = bd_pending_deposits b"
  "bd_pending_deposits (set_task i t b) = bd_pending_deposits b"
  "bd_pending_deposits (restore_payout_attempt a b) = bd_pending_deposits b"
  "bd_tasks (set_task i t b) = bm_insert i t (bd_tasks b)"
  "bd_pending_deposits (set_deposit i d b) = bm_insert i d (bd_pending_deposits b)"
  by (simp_all add: restore_reputation_def set_deposit_def restore_payout_attempt_def set_task_def)

lemma with_check_snd:
  "snd (with_check r s k) = (case r of Ok x \<Rightarrow> snd (k x) | _ \<Rightarrow> s)"
  by (cases r) auto

lemma with_step_simps [simp]:
  "with_step (Ok x, s) k = k x s" "with_step (Err e, s) k = (Err e, s)"
  "with_step (Panic, s) k = (Panic, s)" "with_step (Cutoff, s) k = (Cutoff, s)"
  by (simp_all add: with_step_def)

lemma bump_failed_frame [simp]:
  "bd_tasks (snd (bump_failed k b)) = bd_tasks b"
  "bd_pending_deposits (snd (bump_failed k b)) = bd_pending_deposits b"
  by (simp_all add: bump_failed_def Let_def with_check_snd split: outcome.split)

lemma add_earned_frame [simp]:
  "bd_tasks (snd (add_earned k a c b)) = bd_tasks b"
  "bd_pending_deposits (snd (add_earned k a c b)) = bd_pending_deposits b"
  by (auto simp: add_earned_def Let_def with_check_snd split: outcome.split)

lemma each_bump_frame [simp]:
  "bd_tasks (snd (each_step bump_failed ks b)) = bd_tasks b"
  "bd_pending_deposits (snd (each_step bump_failed ks b)) = bd_pending_deposits b"
proof (induction ks arbitrary: b)
  case (Cons k ks)
  { case 1 show ?case using Cons.IH(1) by (auto simp: with_step_def with_check_snd split: outcome.split) }
  { case 2 show ?case using Cons.IH(2) by (auto simp: with_step_def with_check_snd split: outcome.split) }
qed simp_all

end
