(* ===== verification/Hub_Task_Steps.thy ===== *)
theory Hub_Task_Steps
  imports Hub_Task_Inv
begin

text \<open>
  Every operation on tasks keeps the task invariant and moves each task along the diagram.
\<close>

subsection \<open>Which fields the payouts read\<close>

lemma allocated_cong:
  assumes "tk_kind t' = tk_kind t" "tk_claimant t' = tk_claimant t" "tk_bounty t' = tk_bounty t"
  shows "allocated_payouts t' = allocated_payouts t"
  unfolding allocated_payouts_def dispute_winner_def assms ..

lemma paid_cong:
  assumes "tk_kind t' = tk_kind t" "tk_claimant t' = tk_claimant t" "tk_status t' = Paid \<longleftrightarrow> tk_status t = Paid"
  shows "is_recipient_paid t' = is_recipient_paid t"
  unfolding is_recipient_paid_def pending_payouts_recipient_hint_def fun_eq_iff assms by simp

lemma kind_ok_cong:
  assumes "tk_kind t' = tk_kind t" "tk_claimant t' = tk_claimant t" "tk_status t' = tk_status t"
    "tk_poster t' = tk_poster t" "tk_claim_deadline t' = tk_claim_deadline t"
  shows "kind_ok t' = kind_ok t"
  unfolding kind_ok_def assms ..

text \<open>A change of status, or of fields no payout reads.\<close>

lemma step_frame:
  assumes ok: "task_ok i t"
    and same: "tk_kind t' = tk_kind t" "tk_claimant t' = tk_claimant t" "tk_bounty t' = tk_bounty t"
      "tk_id t' = tk_id t" "tk_poster t' = tk_poster t" "tk_escrow_id t' = tk_escrow_id t"
    and st: "may_follow (tk_status t) (tk_status t')"
      "tk_status t' = tk_status t \<or> tk_status t' \<notin> {Verified, Paid} \<and> (tk_status t' = Submitted \<longrightarrow> tk_status t = Verified)"
    and kind: "kind_ok t'"
  shows "steps_to i t t'"
proof -
  have alloc: "allocated_payouts t' = allocated_payouts t" by (rule allocated_cong [OF same(1-3)])
  have "tk_status t' = Paid \<longleftrightarrow> tk_status t = Paid" using st by (cases "tk_status t"; auto)
  then have paid: "is_recipient_paid t' = is_recipient_paid t" by (rule paid_cong [OF same(1,2)])
  have owed: "owed_payouts t' = owed_payouts t" by (simp add: owed_payouts_def alloc paid)
  have "tk_status t' = PayoutFailed \<Longrightarrow> tk_status t \<in> {Verified, Submitted, PayoutFailed}" using st(1) by (cases "tk_status t") auto
  then have "payouts_ok t'" using ok st(2) by (auto simp: payouts_ok_def task_ok_def alloc owed same)
  moreover have "task_step t t'"
    using st by (cases "tk_status t"; cases "tk_status t'") (auto simp: task_step_def task_evolves_def alloc paid same resolved_def)
  ultimately show ?thesis using ok kind same(4) by (simp add: task_ok_def steps_to_def)
qed

subsection \<open>Creation and settings\<close>

lemma new_task_ok:
  assumes "kind = HashMatch h \<or> (\<exists>n jd w. kind = Consensus \<lparr>cs_num_assignees = n, cs_join_deadline = jd,
      cs_submission_window_minutes = w, cs_submission_deadline = None, cs_assignees = []\<rparr>)
    \<or> (\<exists>w. kind = Disputable \<lparr>ds_answer = None, ds_dispute_window_minutes = w, ds_dispute_deadline = None,
      ds_dispute = None, ds_answers = [], ds_pick_deadline = None, ds_picked = None\<rparr>)"
  shows "task_ok i ((new_task i poster desc bounty kind now)\<lparr>tk_min_reputation := r, tk_capabilities := cs, tk_escrow_id := e\<rparr>)"
  using assms
  by (auto simp: task_ok_def new_task_def kind_ok_def payouts_ok_def allocated_payouts_def resolved_def
      consensus_shares_def bm_contains_def bm_values_def dispute_winner_def map_filter_simps)

lemma set_min_reputation_keeps: "keeps_tasks b (snd (set_min_reputation i r b))"
proof (cases "bm_get (bd_tasks b) i")
  case (Some t)
  have "steps_to i t (t\<lparr>tk_min_reputation := r\<rparr>)" if ok: "task_ok i t"
    by (rule step_frame [OF ok]) (use ok in \<open>simp_all add: task_ok_def kind_ok_cong [of "t\<lparr>tk_min_reputation := r\<rparr>" t]\<close>)
  then show ?thesis using Some by (auto simp: set_min_reputation_def intro!: keeps_set_task)
qed (simp add: set_min_reputation_def)

lemma set_capabilities_keeps: "keeps_tasks b (snd (set_capabilities i cs b))"
proof (cases "bm_get (bd_tasks b) i")
  case (Some t)
  have "steps_to i t (t\<lparr>tk_capabilities := cs\<rparr>)" if ok: "task_ok i t"
    by (rule step_frame [OF ok]) (use ok in \<open>simp_all add: task_ok_def kind_ok_cong [of "t\<lparr>tk_capabilities := cs\<rparr>" t]\<close>)
  then show ?thesis using Some by (auto simp: set_capabilities_def intro!: keeps_set_task)
qed (simp add: set_capabilities_def)

text \<open>Closing a task nobody is owed for.\<close>

lemma close_ok:
  assumes ok: "task_ok i t" and st: "tk_status t \<notin> {Verified, Submitted, PayoutFailed, Paid, Disputed}"
  shows "steps_to i t (t\<lparr>tk_status := Closed, tk_close_reason := r\<rparr>)"
proof (rule step_frame [OF ok])
  show "may_follow (tk_status t) (tk_status (t\<lparr>tk_status := Closed, tk_close_reason := r\<rparr>))"
    using st by (cases "tk_status t") auto
  have "\<not> resolved (tk_status t)" using st by (auto simp: resolved_def)
  then show "kind_ok (t\<lparr>tk_status := Closed, tk_close_reason := r\<rparr>)"
    using ok by (auto simp: task_ok_def kind_ok_def resolved_def split: task_kind.splits)
qed auto

lemma cancel_task_keeps: "keeps_tasks b (snd (cancel_task i b))"
proof (cases "bm_get (bd_tasks b) i")
  case (Some t)
  then show ?thesis by (auto simp: cancel_task_def intro!: keeps_set_task close_ok)
qed (simp add: cancel_task_def)

lemma sweeps_that_close_keep:
  "keeps_tasks b (snd (close_unclosed_contests now b))"
  "keeps_tasks b (snd (cancel_understaffed_consensus_tasks now b))"
  unfolding close_unclosed_contests_def cancel_understaffed_consensus_tasks_def
  by (rule keeps_sweep, auto simp: close_unclosed_def cancel_understaffed_def split: if_splits intro!: close_ok)+

subsection \<open>Before a task is resolved\<close>

lemma map_filter_None: "(\<And>x. x \<in> set xs \<Longrightarrow> f x = None) \<Longrightarrow> List.map_filter f xs = []"
  by (induction xs) (auto simp: map_filter_simps)

lemma no_shares_yet:
  "\<forall>a \<in> set (bm_values (cs_assignees k)). share_ok False (ca_share a) (ca_paid a) \<Longrightarrow> consensus_shares k = []"
  "\<forall>a \<in> set (ds_answers d). share_ok False (cn_share a) (cn_paid a) \<Longrightarrow> contest_shares d = []"
  by (auto simp: consensus_shares_def contest_shares_def bm_values_def share_ok_def intro!: map_filter_None)

lemma share_not_paid: "share_ok False s p \<Longrightarrow> \<not> p"
  by (auto simp: share_ok_def)

lemma assignee_value: "bm_get m k = Some a \<Longrightarrow> a \<in> set (bm_values m)"
  by (force simp: bm_values_def bm_get_def dest: map_of_SomeD)

text \<open>An unresolved task has at most one claim on its bounty, and has paid nobody.\<close>

lemma unresolved_payouts:
  assumes "kind_ok t" "\<not> resolved (tk_status t)"
  shows "distinct (map fst (allocated_payouts t)) \<and> payout_total (allocated_payouts t) \<le> unat (tk_bounty t)"
    and "\<not> is_recipient_paid t r"
proof -
  have np: "tk_status t \<noteq> Paid" using assms(2) by (auto simp: resolved_def)
  show "distinct (map fst (allocated_payouts t)) \<and> payout_total (allocated_payouts t) \<le> unat (tk_bounty t)"
    using assms by (cases "tk_kind t") (auto simp: allocated_payouts_def kind_ok_def no_shares_yet split: option.split)
  show "\<not> is_recipient_paid t r"
    using assms np by (cases "tk_kind t")
      (auto simp: is_recipient_paid_def kind_ok_def list_ex_iff split: option.split dest!: assignee_value dest: share_not_paid)
qed

lemma step_unresolved:
  assumes ok: "task_ok i t" and un: "\<not> resolved (tk_status t)" "\<not> resolved (tk_status t')"
    and same: "tk_bounty t' = tk_bounty t" "tk_id t' = tk_id t" "tk_poster t' = tk_poster t" "tk_escrow_id t' = tk_escrow_id t"
    and st: "may_follow (tk_status t) (tk_status t')" and kind: "kind_ok t'"
  shows "steps_to i t t'"
proof -
  have "kind_ok t" using ok by (simp add: task_ok_def)
  note p = unresolved_payouts [OF this un(1)] unresolved_payouts [OF kind un(2)]
  have "payouts_ok t'" using p un(2) by (auto simp: payouts_ok_def resolved_def)
  moreover have "task_step t t'"
    using p un st by (cases "tk_status t"; cases "tk_status t'") (auto simp: task_step_def task_evolves_def same resolved_def)
  ultimately show ?thesis using ok kind same(2) by (simp add: task_ok_def steps_to_def)
qed

lemma step_resolve:
  assumes ok: "task_ok i t" and un: "\<not> resolved (tk_status t)"
    and same: "tk_bounty t' = tk_bounty t" "tk_id t' = tk_id t" "tk_poster t' = tk_poster t" "tk_escrow_id t' = tk_escrow_id t"
    and st: "may_follow (tk_status t) Verified" "tk_status t' = Verified" and kind: "kind_ok t'" and pay: "payouts_ok t'"
  shows "steps_to i t t'"
proof -
  have "kind_ok t" using ok by (simp add: task_ok_def)
  note p = unresolved_payouts [OF this un]
  have "task_step t t'"
    using p un st by (cases "tk_status t") (auto simp: task_step_def task_evolves_def same resolved_def)
  with ok kind pay same(2) show ?thesis by (simp add: task_ok_def steps_to_def)
qed

lemma claim_task_keeps: "keeps_tasks b (snd (claim_task i c d b))"
proof (cases "bm_get (bd_tasks b) i")
  case (Some t)
  let ?t = "t\<lparr>tk_status := Claimed, tk_claimant := Some c, tk_claim_deadline := Some d\<rparr>"
  have "steps_to i t ?t" if "task_ok i t" "tk_kind t = HashMatch h" "tk_status t = Open" "tk_poster t \<noteq> c" for h
    by (rule step_unresolved [OF that(1)]) (use that in \<open>auto simp: resolved_def kind_ok_def task_ok_def\<close>)
  then show ?thesis using Some
    by (auto simp: claim_task_def with_check_snd intro!: keeps_set_task split: task_kind.split outcome.split)
qed (simp add: claim_task_def)

lemma expire_claims_keep: "keeps_tasks b (snd (expire_claims now b))"
  unfolding expire_claims_def
proof (rule keeps_sweep)
  fix i t t'
  assume ok: "task_ok i t" and "expire_claim now t = Some t'"
  then have st: "tk_status t = Claimed" "tk_claim_deadline t \<noteq> None"
    and t': "t' = t\<lparr>tk_status := Open, tk_claimant := None, tk_claim_deadline := None\<rparr>"
    by (auto simp: expire_claim_def past_def split: if_splits option.splits)
  show "steps_to i t t'"
    by (rule step_unresolved [OF ok]) (use ok st in \<open>auto simp: t' resolved_def kind_ok_def task_ok_def split: task_kind.splits\<close>)
qed

lemma submit_keeps: "keeps_tasks b (snd (submit i s h b))"
proof (cases "bm_get (bd_tasks b) i")
  case (Some t)
  let ?open = "\<lambda>f. t\<lparr>tk_status := Open, tk_claimant := None, tk_claim_deadline := None, tk_failed_attempts := f\<rparr>"
  have reopened: "steps_to i t (?open f)" if "task_ok i t" "tk_kind t = HashMatch e" "tk_status t = Claimed" for f e
    by (rule step_unresolved [OF that(1)]) (use that in \<open>auto simp: resolved_def kind_ok_def task_ok_def\<close>)
  have same: "?open (tk_failed_attempts t) = t\<lparr>tk_status := Open, tk_claimant := None, tk_claim_deadline := None\<rparr>" by simp
  have verified: "steps_to i t (t\<lparr>tk_status := Verified\<rparr>)"
    if "task_ok i t" "tk_kind t = HashMatch e" "tk_status t = Claimed" for e
    by (rule step_resolve [OF that(1)])
      (use that in \<open>auto simp: resolved_def kind_ok_def task_ok_def payouts_ok_def owed_payouts_def allocated_payouts_def
        is_recipient_paid_def\<close>)
  show ?thesis
    using Some reopened reopened [where f = "tk_failed_attempts t", unfolded same] verified
    by (auto simp: submit_def with_check_snd with_step_def Let_def intro!: keeps_set_task
        split: task_kind.split outcome.split)
qed (simp add: submit_def)

subsection \<open>Joining a vote\<close>

lemma bm_values_insert_subset: "set (bm_values (bm_insert k v m)) \<subseteq> insert v (set (bm_values m))"
  using bm_insert_subset [of k v m] by (force simp: bm_values_def)

lemma u32_bound: "unat (x :: u32) < 2 ^ 32"
  using unsigned_less [of x] by simp

lemma join_kind_ok:
  assumes ok: "kind_ok t" and k: "tk_kind t = Consensus k" and st: "tk_status t = Open"
    and "agent \<noteq> tk_poster t" "\<not> bm_contains agent (cs_assignees k)"
    and as': "as' = bm_insert agent no_assignment (cs_assignees k)"
    and filled: "filled \<longleftrightarrow> of_nat (length as') \<ge> cs_num_assignees k"
  shows "kind_ok (t\<lparr>tk_kind := Consensus (k\<lparr>cs_assignees := as', cs_submission_deadline := if filled then Some d else sd\<rparr>),
      tk_status := if filled then Claimed else Open\<rparr>)"
proof -
  let ?n = "cs_num_assignees k"
  have wf: "bm_wf (cs_assignees k)" and lt: "length (cs_assignees k) < max 1 (unat ?n)"
    and shares: "\<forall>a \<in> set (bm_values (cs_assignees k)). share_ok False (ca_share a) (ca_paid a)"
    using ok st k by (auto simp: kind_ok_def resolved_def)
  have len: "length as' = Suc (length (cs_assignees k))" using assms(5) wf by (simp add: as' length_bm_insert)
  have n32: "unat ?n < 2 ^ 32" by (rule u32_bound)
  have "length as' < 2 ^ 32 \<or> length as' = 1" using lt len n32 by (auto simp: max_def split: if_splits)
  then have of_nat: "unat (of_nat (length as') :: u32) = length as'" by (auto intro!: unat_of_nat_less)
  have "length as' < max 1 (unat ?n)" if "\<not> filled"
    using that of_nat by (simp add: filled word_le_nat_alt)
  moreover have "\<forall>a \<in> set (bm_values as'). share_ok False (ca_share a) (ca_paid a)"
    using shares bm_values_insert_subset [of agent no_assignment "cs_assignees k"]
    by (auto simp: as' no_assignment_def share_ok_def)
  ultimately show ?thesis
    using ok k st assms(4) wf lt len by (auto simp: kind_ok_def resolved_def as' bm_contains_def)
qed

lemma join_consensus_task_keeps: "keeps_tasks b (snd (join_consensus_task now now2 i agent b))"
proof (cases "bm_get (bd_tasks b) i")
  case (Some t)
  show ?thesis
  proof (cases "tk_kind t")
    case (Consensus k)
    let ?as = "bm_insert agent no_assignment (cs_assignees k)"
    let ?filled = "cs_num_assignees k \<le> of_nat (length ?as)"
    let ?t = "t\<lparr>tk_kind := Consensus (k\<lparr>cs_assignees := ?as, cs_submission_deadline :=
        if ?filled then Some (now2 + minutes (cs_submission_window_minutes k)) else cs_submission_deadline k\<rparr>),
      tk_status := if ?filled then Claimed else Open\<rparr>"
    have "steps_to i t ?t" if "task_ok i t" "tk_status t = Open" "tk_poster t \<noteq> agent" "\<not> bm_contains agent (cs_assignees k)"
    proof (rule step_unresolved [OF that(1)])
      show "kind_ok ?t" by (rule join_kind_ok [OF _ Consensus]) (use that in \<open>auto simp: task_ok_def\<close>)
    qed (use that(2) in \<open>auto simp: resolved_def\<close>)
    then show ?thesis using Some Consensus
      by (auto simp: join_consensus_task_def with_check_snd Let_def intro!: keeps_set_task split: outcome.split)
  qed (use Some in \<open>simp_all add: join_consensus_task_def\<close>)
qed (simp add: join_consensus_task_def)

subsection \<open>Contests\<close>

lemma submit_contest_answer_keeps: "keeps_tasks b (snd (submit_contest_answer i s ans now b))"
proof (cases "bm_get (bd_tasks b) i")
  case (Some t)
  show ?thesis
  proof (cases "tk_kind t")
    case (Disputable k)
    let ?a = "\<lparr>cn_pubkey = s, cn_answer = ans, cn_submitted_at = now, cn_share = None, cn_paid = False\<rparr>"
    let ?t = "t\<lparr>tk_kind := Disputable (k\<lparr>ds_answers := ds_answers k @ [?a]\<rparr>)\<rparr>"
    have "steps_to i t ?t"
      if "task_ok i t" "tk_status t = Open" "tk_poster t \<noteq> s" "\<not> list_ex (\<lambda>a. cn_pubkey a = s) (ds_answers k)"
        "length (ds_answers k) < MAX_CONTEST_ANSWERS"
      by (rule step_unresolved [OF that(1)])
        (use that Disputable in \<open>auto simp: resolved_def kind_ok_def task_ok_def list_ex_iff share_ok_def\<close>)
    then show ?thesis using Some Disputable
      by (auto simp: submit_contest_answer_def with_check_snd not_le intro!: keeps_set_task split: outcome.split)
  qed (use Some in \<open>simp_all add: submit_contest_answer_def\<close>)
qed (simp add: submit_contest_answer_def)

lemma close_contest_keeps: "keeps_tasks b (snd (close_contest i c now b))"
proof (cases "bm_get (bd_tasks b) i")
  case (Some t)
  show ?thesis
  proof (cases "tk_kind t")
    case (Disputable k)
    let ?t = "t\<lparr>tk_kind := Disputable (k\<lparr>ds_pick_deadline := Some (now + minutes (ds_dispute_window_minutes k))\<rparr>),
      tk_status := AwaitingPick\<rparr>"
    have "steps_to i t ?t" if "task_ok i t" "tk_status t = Open" "ds_answers k \<noteq> []"
      by (rule step_unresolved [OF that(1)])
        (use that Disputable in \<open>auto simp: resolved_def kind_ok_def task_ok_def\<close>)
    then show ?thesis using Some Disputable
      by (auto simp: close_contest_def intro!: keeps_set_task close_ok)
  qed (use Some in \<open>simp_all add: close_contest_def\<close>)
qed (simp add: close_contest_def)

lemma update_first_keys: "(\<And>x. g (f x) = g x) \<Longrightarrow> map g (update_first p f xs) = map g xs"
  by (induction xs) auto

lemma update_first_set: "x \<in> set (update_first p f xs) \<Longrightarrow> x \<in> set xs \<or> (\<exists>y \<in> set xs. p y \<and> x = f y)"
  by (induction xs) (auto split: if_splits)

lemma length_update_first [simp]: "length (update_first p f xs) = length xs"
  by (induction xs) auto

lemma update_first_Nil [simp]: "update_first p f xs = [] \<longleftrightarrow> xs = []"
  by (cases xs) auto

text \<open>Giving one of several answers without a share the whole bounty allocates exactly that.\<close>

lemma pick_shares:
  assumes "\<forall>a \<in> set xs. cn_share a = None" "list_ex (\<lambda>a. cn_pubkey a = w) xs"
  shows "List.map_filter (\<lambda>a. map_option (Pair (cn_pubkey a)) (cn_share a))
      (update_first (\<lambda>a. cn_pubkey a = w) (\<lambda>a. a\<lparr>cn_share := Some s\<rparr>) xs) = [(w, s)]"
  using assms
proof (induction xs)
  case (Cons a xs)
  have "List.map_filter (\<lambda>a. map_option (Pair (cn_pubkey a)) (cn_share a)) xs = []"
    using Cons.prems(1) by (intro map_filter_None) auto
  with Cons show ?case by (auto simp: map_filter_simps)
qed simp

lemma picked_ok:
  assumes ok: "task_ok i t" and k: "tk_kind t = Disputable k" and st: "tk_status t = AwaitingPick"
    and w: "list_ex (\<lambda>a. cn_pubkey a = w) (ds_answers k)"
  shows "steps_to i t (t\<lparr>tk_kind := Disputable (k\<lparr>ds_answers := update_first (\<lambda>a. cn_pubkey a = w)
      (\<lambda>a. a\<lparr>cn_share := Some (tk_bounty t)\<rparr>) (ds_answers k), ds_picked := Some w\<rparr>), tk_status := Verified\<rparr>)"
    (is "steps_to i t ?t")
proof (rule step_resolve [OF ok])
  let ?as = "update_first (\<lambda>a. cn_pubkey a = w) (\<lambda>a. a\<lparr>cn_share := Some (tk_bounty t)\<rparr>) (ds_answers k)"
  have kind: "kind_ok t" using ok by (simp add: task_ok_def)
  have none: "\<forall>a \<in> set (ds_answers k). cn_share a = None \<and> \<not> cn_paid a"
    using kind k st by (auto simp: kind_ok_def resolved_def share_ok_def)
  have keys: "map cn_pubkey ?as = map cn_pubkey (ds_answers k)" by (rule update_first_keys) simp
  have unpaid: "\<forall>a \<in> set ?as. \<not> cn_paid a" using none by (auto dest!: update_first_set)
  have ne: "ds_answers k \<noteq> []" using w by auto
  have alloc: "allocated_payouts ?t = [(w, tk_bounty t)]"
    using pick_shares [of "ds_answers k" w] none w ne by (simp add: allocated_payouts_def contest_shares_def)
  have "\<not> is_recipient_paid ?t r" for r
    using unpaid ne by (auto simp: is_recipient_paid_def list_ex_iff)
  then show "payouts_ok ?t" using alloc by (simp add: payouts_ok_def owed_payouts_def)
  have "set (map cn_pubkey ?as) = set (map cn_pubkey (ds_answers k))" by (simp only: keys)
  then show "kind_ok ?t"
    using kind k st keys unpaid by (auto simp: kind_ok_def resolved_def share_ok_def)
qed (use st in \<open>auto simp: resolved_def\<close>)

lemma pick_answer_keeps: "keeps_tasks b (snd (pick_answer i c w now b))"
proof (cases "bm_get (bd_tasks b) i")
  case (Some t)
  then show ?thesis
    by (auto simp: pick_answer_def intro!: keeps_set_task picked_ok split: task_kind.split)
qed (simp add: pick_answer_def)

lemma split_shares:
  "List.map_filter (\<lambda>a. map_option (Pair (cn_pubkey a)) (cn_share a)) (map (\<lambda>a. a\<lparr>cn_share := Some s\<rparr>) xs)
     = map (\<lambda>a. (cn_pubkey a, s)) xs"
  by (induction xs) (auto simp: map_filter_simps)

lemma split_ok:
  assumes ok: "task_ok i t" and k: "tk_kind t = Disputable k" and st: "tk_status t = AwaitingPick"
    and s: "s = tk_bounty t div max (of_nat (length (ds_answers k))) 1"
  shows "steps_to i t (t\<lparr>tk_kind := Disputable (k\<lparr>ds_answers := map (\<lambda>a. a\<lparr>cn_share := Some s\<rparr>) (ds_answers k)\<rparr>),
      tk_status := Verified\<rparr>)" (is "steps_to i t ?t")
proof (rule step_resolve [OF ok])
  have kind: "kind_ok t" using ok by (simp add: task_ok_def)
  have unpaid: "\<forall>a \<in> set (ds_answers k). \<not> cn_paid a" and ne: "ds_answers k \<noteq> []"
    and d: "distinct (map cn_pubkey (ds_answers k))" and len: "length (ds_answers k) \<le> 10"
    using kind k st by (auto simp: kind_ok_def resolved_def share_ok_def MAX_CONTEST_ANSWERS_def)
  have alloc: "allocated_payouts ?t = map (\<lambda>a. (cn_pubkey a, s)) (ds_answers k)"
    using ne by (simp add: allocated_payouts_def contest_shares_def split_shares)
  have "payout_total (allocated_payouts ?t) \<le> unat (tk_bounty t)"
    unfolding alloc payout_total_const unfolding s by (rule even_split_le) (use len in simp)
  moreover have "\<not> is_recipient_paid ?t r" for r
    using unpaid ne by (auto simp: is_recipient_paid_def list_ex_iff)
  ultimately show "payouts_ok ?t" using alloc d ne by (simp add: payouts_ok_def owed_payouts_def o_def)
  show "kind_ok ?t" using kind k st unpaid by (auto simp: kind_ok_def resolved_def share_ok_def o_def)
qed (use st in \<open>auto simp: resolved_def\<close>)

lemma split_unpicked_keep: "keeps_tasks b (snd (split_unpicked_contests now b))"
  unfolding split_unpicked_contests_def
  by (rule keeps_sweep) (auto simp: split_unpicked_def Let_def split: if_splits task_kind.splits intro!: split_ok)

subsection \<open>Disputes\<close>

lemma finalize_keep: "keeps_tasks b (snd (finalize_unchallenged_disputable_tasks now b))"
  unfolding finalize_unchallenged_disputable_tasks_def
proof (rule keeps_sweep)
  fix i t t'
  assume ok: "task_ok i t" and f: "finalize_unchallenged now t = Some t'"
  then obtain k where k: "tk_kind t = Disputable k" "ds_dispute k = None" "tk_status t = AwaitingDispute"
    and t': "t' = t\<lparr>tk_status := Verified\<rparr>"
    by (auto simp: finalize_unchallenged_def split: if_splits task_kind.splits)
  obtain c where c: "tk_claimant t = Some c" "ds_answers k = []"
    using ok k by (auto simp: task_ok_def kind_ok_def)
  show "steps_to i t t'"
    by (rule step_resolve [OF ok]) (use ok k c in \<open>auto simp: t' resolved_def kind_ok_def task_ok_def payouts_ok_def
      owed_payouts_def allocated_payouts_def dispute_winner_def is_recipient_paid_def\<close>)
qed

lemma confirm_dispute_bond_keeps: "keeps_tasks b (snd (confirm_dispute_bond i obs now b))"
proof -
  have "steps_to j t (t\<lparr>tk_kind := Disputable (k\<lparr>ds_dispute := Some dp\<rparr>), tk_status := Disputed\<rparr>)"
    if "task_ok j t" "tk_kind t = Disputable k" "tk_status t = AwaitingDispute" for j t k dp
    by (rule step_unresolved [OF that(1)]) (use that in \<open>auto simp: resolved_def kind_ok_def task_ok_def\<close>)
  then show ?thesis
    by (auto simp: confirm_dispute_bond_def with_check_snd Let_def intro: keeps_tasks_same intro!: keeps_set_task
        split: option.split escrow_purpose.split task_kind.split outcome.split)
qed

lemma resolve_dispute_ok:
  assumes ok: "task_ok i t" and k: "tk_kind t = Disputable k" "ds_dispute k = Some d" "tk_status t = Disputed"
    "tk_claimant t = Some c"
  shows "steps_to i t (t\<lparr>tk_kind := Disputable (k\<lparr>ds_dispute := Some (d\<lparr>dp_resolution := Some out\<rparr>)\<rparr>), tk_status := Verified\<rparr>)"
    and "steps_to i t (t\<lparr>tk_kind := Disputable (k\<lparr>ds_dispute := Some (d\<lparr>dp_resolution := Some out\<rparr>)\<rparr>)\<rparr>)"
proof -
  have ans: "ds_answers k = []" using ok k by (auto simp: task_ok_def kind_ok_def)
  show "steps_to i t (t\<lparr>tk_kind := Disputable (k\<lparr>ds_dispute := Some (d\<lparr>dp_resolution := Some out\<rparr>)\<rparr>), tk_status := Verified\<rparr>)"
    by (rule step_resolve [OF ok]) (use ok k ans in \<open>auto simp: resolved_def kind_ok_def task_ok_def payouts_ok_def
      owed_payouts_def allocated_payouts_def dispute_winner_def is_recipient_paid_def split: dispute_resolution.splits\<close>)
  show "steps_to i t (t\<lparr>tk_kind := Disputable (k\<lparr>ds_dispute := Some (d\<lparr>dp_resolution := Some out\<rparr>)\<rparr>)\<rparr>)"
    by (rule step_unresolved [OF ok]) (use ok k ans in \<open>auto simp: resolved_def kind_ok_def task_ok_def\<close>)
qed

lemma bm_insert_twice [simp]: "bm_wf m \<Longrightarrow> bm_insert k v (bm_insert k w m) = bm_insert k v m"
  by (rule bm_ext) auto

lemma resolve_dispute_keeps:
  assumes "bm_wf (bd_tasks b)"
  shows "keeps_tasks b (snd (resolve_dispute i out b))"
proof (cases "bm_get (bd_tasks b) i")
  case (Some t)
  then show ?thesis using assms
    by (auto simp: resolve_dispute_def with_check_snd with_step_def Let_def case_prod_unfold
        intro!: keeps_set_task resolve_dispute_ok split: option.split task_kind.split outcome.split)
qed (simp add: resolve_dispute_def)

subsection \<open>Consensus\<close>

lemma winner_shares:
  assumes "\<forall>a \<in> set (map snd as). ca_share a = None"
  shows "List.map_filter (\<lambda>(pk, a). map_option (Pair pk) (ca_share a)) (pay_winners w s as)
    = map (\<lambda>e. (fst e, s)) (filter (\<lambda>e. won w (snd e)) as)"
  using assms by (induction as) (auto simp: pay_winners_def map_filter_simps)

lemma pay_winners_frame [simp]:
  "bm_wf (pay_winners w s as) = bm_wf as" "length (pay_winners w s as) = length as"
  "bm_contains k (pay_winners w s as) = bm_contains k as"
proof -
  have keys: "map fst (pay_winners w s as) = map fst as" by (simp add: pay_winners_def case_prod_unfold o_def)
  then show "bm_wf (pay_winners w s as) = bm_wf as" by (simp add: bm_wf_def)
  show "length (pay_winners w s as) = length as" by (simp add: pay_winners_def)
  have "fst ` set (pay_winners w s as) = fst ` set as" using keys by (metis set_map)
  then show "bm_contains k (pay_winners w s as) = bm_contains k as"
    by (simp add: bm_contains_def bm_get_def map_of_eq_None_iff)
qed

lemma pay_winners_values:
  "a \<in> set (bm_values (pay_winners w s as)) \<Longrightarrow> \<exists>a0 \<in> set (bm_values as). ca_paid a = ca_paid a0 \<and> (a = a0 \<or> ca_share a = Some s)"
  by (force simp: pay_winners_def bm_values_def)

lemma consensus_won_ok:
  assumes ok: "task_ok i t" and k: "tk_kind t = Consensus k" and st: "tk_status t = Claimed"
    and w: "majority_answer (cs_assignees k) = Some ans" "w = Some ans"
    and s: "s = consensus_share (tk_bounty t) w (cs_assignees k)"
  shows "steps_to i t (t\<lparr>tk_kind := Consensus (k\<lparr>cs_assignees := pay_winners w s (cs_assignees k)\<rparr>), tk_status := Verified\<rparr>)"
    (is "steps_to i t ?t")
proof (rule step_resolve [OF ok])
  let ?as = "cs_assignees k" and ?win = "filter (\<lambda>e. won w (snd e)) (cs_assignees k)"
  have kind: "kind_ok t" using ok by (simp add: task_ok_def)
  have none: "\<forall>a \<in> set (map snd ?as). ca_share a = None" "\<forall>a \<in> set (bm_values ?as). \<not> ca_paid a"
    and wf: "bm_wf ?as" and len: "length ?as \<le> max 1 (unat (cs_num_assignees k))"
    using kind k st by (auto simp: kind_ok_def resolved_def share_ok_def bm_values_def)
  have count: "length (filter (won w) (bm_values ?as)) = length ?win"
    by (simp add: bm_values_def filter_map o_def)
  have "length ?win \<le> length ?as" by simp
  also have "\<dots> < 2 ^ 64" using len u32_bound [of "cs_num_assignees k"] by simp
  finally have small: "length ?win < 2 ^ 64" .
  have alloc: "allocated_payouts ?t = map (\<lambda>e. (fst e, s)) ?win"
    using winner_shares [OF none(1), of w s] by (simp add: allocated_payouts_def consensus_shares_def)
  have "payout_total (allocated_payouts ?t) \<le> unat (tk_bounty t)"
    unfolding alloc payout_total_const unfolding s consensus_share_def count by (rule even_split_le [OF small])
  moreover have "distinct (map fst ?win)"
    using wf by (simp add: bm_wf_def strict_sorted_iff distinct_map_filter)
  moreover have "?win \<noteq> []"
  proof -
    have "0 < votes_for ans (bm_values ?as)" using majority_answer_sound [OF w(1)] by linarith
    then show ?thesis using w(2) by (auto simp: votes_for_def won_def filter_empty_conv bm_values_def)
  qed
  moreover have unpaid: "\<forall>a \<in> set (bm_values (pay_winners w s ?as)). \<not> ca_paid a"
    using none(2) by (auto dest!: pay_winners_values)
  then have "\<not> is_recipient_paid ?t r" for r
    by (auto simp: is_recipient_paid_def split: option.split dest!: assignee_value)
  ultimately show "payouts_ok ?t" using alloc by (simp add: payouts_ok_def owed_payouts_def o_def)
  show "kind_ok ?t" using kind k st unpaid by (auto simp: kind_ok_def resolved_def share_ok_def)
qed (use st in \<open>auto simp: resolved_def\<close>)

lemma keeps_with_step:
  assumes "keeps_tasks b (snd r)" "\<And>x. fst r = Ok x \<Longrightarrow> keeps_tasks b (snd (k x (snd r)))"
  shows "keeps_tasks b (snd (with_step r k))"
  using assms by (cases "fst r") (auto simp: with_step_def)

lemma keeps_bump_set:
  assumes "bm_get (bd_tasks b) i = Some t" "task_ok i t \<Longrightarrow> steps_to i t t'"
  shows "keeps_tasks b (snd (with_step (each_step bump_failed ks b) (\<lambda>_ b1. (Ok x, set_task i t' b1))))"
  by (rule keeps_with_step) (use assms in \<open>auto intro: keeps_tasks_same keeps_set_task\<close>)

text \<open>Resolving a claimed vote; another task's row is not touched.\<close>

lemma resolve_consensus_keeps:
  assumes "\<And>t k. bm_get (bd_tasks b) i = Some t \<Longrightarrow> tk_kind t = Consensus k \<Longrightarrow> tk_status t = Claimed"
  shows "keeps_tasks b (snd (resolve_consensus i b))"
proof (cases "bm_get (bd_tasks b) i")
  case (Some t)
  show ?thesis
  proof (cases "tk_kind t")
    case (Consensus k)
    then have st: "tk_status t = Claimed" using assms Some by blast
    show ?thesis using Some Consensus st
      by (cases "majority_answer (cs_assignees k)")
        (auto simp: resolve_consensus_def Let_def intro!: keeps_bump_set [OF Some]
          keeps_set_task [OF _ Some] close_ok consensus_won_ok)
  qed (use Some in \<open>simp_all add: resolve_consensus_def\<close>)
qed (simp add: resolve_consensus_def)

lemma resolve_consensus_other:
  "j \<noteq> i \<Longrightarrow> bm_get (bd_tasks (snd (resolve_consensus i b))) j = bm_get (bd_tasks b) j"
  by (auto simp: resolve_consensus_def Let_def with_step_def with_check_snd split: option.split task_kind.split outcome.split)

lemma keeps_tasks_trans_other:
  assumes "keeps_tasks b b1" "keeps_tasks b1 b2"
    and other: "\<And>j. bm_get (bd_tasks b1) j = bm_get (bd_tasks b) j \<or> bm_get (bd_tasks b2) j = bm_get (bd_tasks b1) j"
  shows "keeps_tasks b b2"
  unfolding keeps_tasks_def
proof (intro impI conjI)
  assume ok: "tasks_ok (bd_tasks b)"
  have 1: "tasks_ok (bd_tasks b1)" "tasks_step (bd_tasks b) (bd_tasks b1)" using assms(1) ok by (auto simp: keeps_tasks_def)
  have 2: "tasks_ok (bd_tasks b2)" "tasks_step (bd_tasks b1) (bd_tasks b2)" using assms(2) 1(1) by (auto simp: keeps_tasks_def)
  show "tasks_ok (bd_tasks b2)" by (rule 2(1))
  show "tasks_step (bd_tasks b) (bd_tasks b2)"
    unfolding tasks_step_def
  proof (intro conjI allI impI)
    fix j t'
    assume "bm_get (bd_tasks b2) j = Some t'" "bm_get (bd_tasks b) j = None"
    then show "tk_escrow_id t' = None" using other [of j] 1(2) 2(2) by (auto simp: tasks_step_def)
  next
    fix j t
    assume t: "bm_get (bd_tasks b) j = Some t"
    show "\<exists>t'. bm_get (bd_tasks b2) j = Some t' \<and> task_step t t'"
      using other [of j] t 1(2) 2(2) by (auto simp: tasks_step_def)
  qed
qed

lemma each_resolve_keeps:
  assumes "distinct is" "\<And>i t k. i \<in> set is \<Longrightarrow> bm_get (bd_tasks b) i = Some t \<Longrightarrow> tk_kind t = Consensus k \<Longrightarrow> tk_status t = Claimed"
  shows "keeps_tasks b (snd (each_step resolve_consensus is b))
    \<and> (\<forall>j. j \<notin> set is \<longrightarrow> bm_get (bd_tasks (snd (each_step resolve_consensus is b))) j = bm_get (bd_tasks b) j)"
  using assms
proof (induction "is" arbitrary: b)
  case (Cons i js)
  let ?b1 = "snd (resolve_consensus i b)"
  have k1: "keeps_tasks b ?b1" by (rule resolve_consensus_keeps) (use Cons.prems(2) in auto)
  have o1: "bm_get (bd_tasks ?b1) j = bm_get (bd_tasks b) j" if "j \<noteq> i" for j
    using that by (rule resolve_consensus_other)
  have IH: "keeps_tasks ?b1 (snd (each_step resolve_consensus js ?b1))
    \<and> (\<forall>j. j \<notin> set js \<longrightarrow> bm_get (bd_tasks (snd (each_step resolve_consensus js ?b1))) j = bm_get (bd_tasks ?b1) j)"
  proof (rule Cons.IH)
    fix l t k
    assume "l \<in> set js" "bm_get (bd_tasks ?b1) l = Some t" "tk_kind t = Consensus k"
    moreover have "l \<noteq> i" using \<open>l \<in> set js\<close> Cons.prems(1) by auto
    ultimately show "tk_status t = Claimed" using Cons.prems(2) [of l t k] o1 by auto
  qed (use Cons.prems(1) in simp)
  have "keeps_tasks b (snd (each_step resolve_consensus js ?b1))"
  proof (rule keeps_tasks_trans_other [OF k1])
    fix j
    show "bm_get (bd_tasks ?b1) j = bm_get (bd_tasks b) j
      \<or> bm_get (bd_tasks (snd (each_step resolve_consensus js ?b1))) j = bm_get (bd_tasks ?b1) j"
      using IH o1 Cons.prems(1) by (cases "j = i") auto
  qed (use IH in blast)
  with k1 IH o1 show ?case
    by (cases "fst (resolve_consensus i b)") (auto simp: with_step_def)
qed simp

lemma tasks_ok_ids: "tasks_ok m \<Longrightarrow> map tk_id (bm_values m) = bm_keys m"
  unfolding bm_values_def bm_keys_def map_map
  by (rule map_cong) (auto simp: tasks_ok_def task_ok_def bm_get_def bm_wf_def strict_sorted_iff)

lemma resolve_expired_keep: "keeps_tasks b (snd (resolve_expired_consensus_tasks now b))"
proof (cases "tasks_ok (bd_tasks b)")
  case True
  let ?due = "map tk_id (filter (consensus_due now) (bm_values (bd_tasks b)))"
  have wf: "bm_wf (bd_tasks b)" using True by (simp add: tasks_ok_def)
  have "distinct (map tk_id (bm_values (bd_tasks b)))"
    using tasks_ok_ids [OF True] wf by (simp add: bm_keys_def bm_wf_def strict_sorted_iff)
  then have "distinct ?due" by (rule distinct_map_filter)
  moreover have "tk_status t = Claimed"
    if due: "i \<in> set ?due" and t: "bm_get (bd_tasks b) i = Some t" for i t
  proof -
    obtain u where u: "u \<in> set (bm_values (bd_tasks b))" "consensus_due now u" "tk_id u = i" using due by auto
    then obtain j where "bm_get (bd_tasks b) j = Some u" using bm_values_iff [OF wf] by auto
    moreover from this have "tk_id u = j" using True by (auto simp: tasks_ok_def task_ok_def)
    ultimately show ?thesis using u t by (auto simp: consensus_due_def)
  qed
  ultimately have "keeps_tasks b (snd (each_step resolve_consensus ?due b))"
    using each_resolve_keeps by blast
  then show ?thesis
    by (cases "fst (each_step resolve_consensus ?due b)")
      (auto simp: resolve_expired_consensus_tasks_def Let_def with_step_def)
qed (simp add: keeps_tasks_def)

lemma consensus_answer_ok:
  assumes ok: "task_ok i t" and k: "tk_kind t = Consensus k" and st: "tk_status t = Claimed"
    and a: "bm_get (cs_assignees k) agent = Some a"
  shows "steps_to i t (t\<lparr>tk_kind := Consensus (k\<lparr>cs_assignees := bm_insert agent (a\<lparr>ca_answer := x\<rparr>) (cs_assignees k)\<rparr>)\<rparr>)"
proof (rule step_unresolved [OF ok])
  have kind: "kind_ok t" using ok by (simp add: task_ok_def)
  have "a \<in> set (bm_values (cs_assignees k))" using a by (rule assignee_value)
  then have "\<forall>c \<in> set (bm_values (bm_insert agent (a\<lparr>ca_answer := x\<rparr>) (cs_assignees k))). share_ok False (ca_share c) (ca_paid c)"
    using kind k st bm_values_insert_subset [of agent "a\<lparr>ca_answer := x\<rparr>" "cs_assignees k"]
    by (auto simp: kind_ok_def resolved_def)
  with kind k st a show "kind_ok (t\<lparr>tk_kind := Consensus (k\<lparr>cs_assignees := bm_insert agent (a\<lparr>ca_answer := x\<rparr>) (cs_assignees k)\<rparr>)\<rparr>)"
    by (auto simp: kind_ok_def resolved_def length_bm_insert bm_contains_def)
qed (use st in \<open>auto simp: resolved_def\<close>)

lemma keeps_tasks_then:
  assumes k: "keeps_tasks b b1" and set: "bd_tasks b1 = bm_insert i t1 (bd_tasks b)"
    and next_one: "tasks_ok (bd_tasks b1) \<Longrightarrow> keeps_tasks b1 b2" and other: "\<And>j. j \<noteq> i \<Longrightarrow> bm_get (bd_tasks b2) j = bm_get (bd_tasks b1) j"
    and comp: "\<And>t2. bm_get (bd_tasks b) i = Some t \<Longrightarrow> bm_get (bd_tasks b2) i = Some t2 \<Longrightarrow> task_step t1 t2 \<Longrightarrow> task_step t t2"
    and t: "bm_get (bd_tasks b) i = Some t"
  shows "keeps_tasks b b2"
  unfolding keeps_tasks_def
proof (intro impI conjI)
  assume ok: "tasks_ok (bd_tasks b)"
  have 1: "tasks_ok (bd_tasks b1)" using k ok by (auto simp: keeps_tasks_def)
  have 2: "tasks_ok (bd_tasks b2)" "tasks_step (bd_tasks b1) (bd_tasks b2)" using next_one [OF 1] 1 by (auto simp: keeps_tasks_def)
  show "tasks_ok (bd_tasks b2)" by (rule 2(1))
  show "tasks_step (bd_tasks b) (bd_tasks b2)"
    unfolding tasks_step_def
  proof (intro conjI allI impI)
    fix j t'
    assume "bm_get (bd_tasks b2) j = Some t'" "bm_get (bd_tasks b) j = None"
    then show "tk_escrow_id t' = None" using other [of j] t set by (cases "j = i") auto
  next
    fix j u
    assume u: "bm_get (bd_tasks b) j = Some u"
    show "\<exists>t'. bm_get (bd_tasks b2) j = Some t' \<and> task_step u t'"
    proof (cases "j = i")
      case True
      have "bm_get (bd_tasks b1) i = Some t1" by (simp add: set)
      then obtain t2 where "bm_get (bd_tasks b2) i = Some t2" "task_step t1 t2" using 2(2) unfolding tasks_step_def by blast
      with comp [OF t] t u True show ?thesis by auto
    next
      case False
      with other [of j] u show ?thesis by (simp add: set)
    qed
  qed
qed

lemma submit_consensus_answer_keeps: "keeps_tasks b (snd (submit_consensus_answer now i agent ans b))"
proof (cases "bm_get (bd_tasks b) i")
  case (Some t)
  show ?thesis
  proof (cases "tk_kind t")
    case (Consensus k)
    show ?thesis
    proof (cases "tk_status t = Claimed \<and> (\<exists>a. bm_get (cs_assignees k) agent = Some a)")
      case True
      then obtain a where st: "tk_status t = Claimed" and a: "bm_get (cs_assignees k) agent = Some a" by blast
      let ?t = "t\<lparr>tk_kind := Consensus (k\<lparr>cs_assignees := bm_insert agent (a\<lparr>ca_answer := Some ans\<rparr>) (cs_assignees k)\<rparr>)\<rparr>"
      let ?b1 = "set_task i ?t b"
      have k1: "keeps_tasks b ?b1"
        by (rule keeps_set_task [OF _ Some]) (use consensus_answer_ok [OF _ Consensus st a] in auto)
      have k2: "keeps_tasks b (snd (resolve_consensus i ?b1))"
      proof (cases "tasks_ok (bd_tasks b)")
        case ok: True
        then have "task_ok i t" using Some by (simp add: tasks_ok_def)
        then have s1: "task_step t ?t" using consensus_answer_ok [OF _ Consensus st a] by (auto simp: steps_to_def)
        show ?thesis
        proof (rule keeps_tasks_then [OF k1 _ _ _ _ Some])
          show "keeps_tasks ?b1 (snd (resolve_consensus i ?b1))" by (rule resolve_consensus_keeps) (auto simp: st)
          show "task_step t t2" if "task_step ?t t2" for t2
            using s1 that task_evolves_trans by (fastforce simp: task_step_def st)
        qed (auto simp: resolve_consensus_other)
      qed (simp add: keeps_tasks_def)
      show ?thesis using Some Consensus st a k1 k2
        by (auto simp: submit_consensus_answer_def Let_def with_step_def with_check_snd split: option.split outcome.split)
    next
      case False
      then show ?thesis using Some Consensus
        by (auto simp: submit_consensus_answer_def split: option.split)
    qed
  qed (use Some in \<open>simp_all add: submit_consensus_answer_def\<close>)
qed (simp add: submit_consensus_answer_def)

end
