(* ===== verification/Hub_Task_Pay.thy ===== *)
theory Hub_Task_Pay
  imports Hub_Task_Steps
begin

text \<open>
  Paying for a resolved task: recording a payment marks exactly its recipient paid, keeps every
  allocation, and finishes the task exactly when nobody is owed any more.
\<close>

subsection \<open>Who is still owed\<close>

lemma map_filter_map: "List.map_filter f (map g xs) = List.map_filter (f \<circ> g) xs"
  by (simp add: List.map_filter_def filter_map o_def)

lemma ball_map_filter:
  "(\<forall>y \<in> set (List.map_filter f xs). P y) \<longleftrightarrow> (\<forall>x \<in> set xs. case f x of None \<Rightarrow> True | Some y \<Rightarrow> P y)"
  by (induction xs) (auto simp: map_filter_simps split: option.split)

lemma consensus_owed_Nil:
  assumes "tk_kind t = Consensus k" "bm_wf (cs_assignees k)"
  shows "owed_payouts t = [] \<longleftrightarrow> list_all (\<lambda>a. ca_share a = None \<or> ca_paid a) (bm_values (cs_assignees k))"
proof -
  have get: "bm_get (cs_assignees k) pk = Some a \<longleftrightarrow> (pk, a) \<in> set (cs_assignees k)" for pk a
    using assms(2) by (simp add: bm_get_def bm_wf_def strict_sorted_iff)
  have paid: "is_recipient_paid t pk \<longleftrightarrow> ca_paid a" if "(pk, a) \<in> set (cs_assignees k)" for pk a
  proof -
    have "bm_get (cs_assignees k) pk = Some a" using that by (simp only: get)
    then show ?thesis using assms(1) by (simp add: is_recipient_paid_def)
  qed
  have "owed_payouts t = [] \<longleftrightarrow> (\<forall>e \<in> set (consensus_shares k). is_recipient_paid t (fst e))"
    using assms(1) by (auto simp: owed_payouts_def filter_empty_conv allocated_payouts_def)
  also have "\<dots> \<longleftrightarrow> (\<forall>(pk, a) \<in> set (cs_assignees k). ca_share a = None \<or> is_recipient_paid t pk)"
    unfolding consensus_shares_def ball_map_filter by (rule ball_cong) (auto split: option.split)
  also have "\<dots> \<longleftrightarrow> list_all (\<lambda>a. ca_share a = None \<or> ca_paid a) (bm_values (cs_assignees k))"
    using paid by (auto simp: list_all_iff bm_values_def)
  finally show ?thesis .
qed

lemma contest_paid:
  assumes "tk_kind t = Disputable k" "distinct (map cn_pubkey (ds_answers k))" "a \<in> set (ds_answers k)"
  shows "is_recipient_paid t (cn_pubkey a) \<longleftrightarrow> cn_paid a"
proof -
  have "a' = a" if "a' \<in> set (ds_answers k)" "cn_pubkey a' = cn_pubkey a" for a'
    using assms(2,3) that by (metis distinct_map inj_onD)
  then show ?thesis using assms(1,3) by (auto simp: is_recipient_paid_def list_ex_iff)
qed

lemma contest_owed_Nil:
  assumes k: "tk_kind t = Disputable k" "ds_answers k \<noteq> []" "distinct (map cn_pubkey (ds_answers k))"
  shows "owed_payouts t = [] \<longleftrightarrow> list_all (\<lambda>a. cn_share a = None \<or> cn_paid a) (ds_answers k)"
proof -
  have "owed_payouts t = [] \<longleftrightarrow> (\<forall>e \<in> set (contest_shares k). is_recipient_paid t (fst e))"
    using k by (auto simp: owed_payouts_def filter_empty_conv allocated_payouts_def)
  also have "\<dots> \<longleftrightarrow> (\<forall>a \<in> set (ds_answers k). cn_share a = None \<or> is_recipient_paid t (cn_pubkey a))"
    unfolding contest_shares_def ball_map_filter by (rule ball_cong) (auto split: option.split)
  also have "\<dots> \<longleftrightarrow> list_all (\<lambda>a. cn_share a = None \<or> cn_paid a) (ds_answers k)"
    using contest_paid [OF k(1,3)] by (auto simp: list_all_iff)
  finally show ?thesis .
qed

subsection \<open>One payment\<close>

text \<open>What recording a payment does to a task, stated once for the three kinds.\<close>

definition pays :: "task \<Rightarrow> public_key \<Rightarrow> task \<Rightarrow> bool" where
  "pays t r t' \<longleftrightarrow> r \<in> fst ` set (allocated_payouts t) \<and> \<not> is_recipient_paid t r
     \<and> allocated_payouts t' = allocated_payouts t
     \<and> (\<forall>q. is_recipient_paid t' q \<longleftrightarrow> is_recipient_paid t q \<or> q = r)
     \<and> (tk_status t' = Paid \<longleftrightarrow> owed_payouts t' = [])"

lemma pays_steps:
  assumes ok: "task_ok i t" and st: "tk_status t \<in> {Verified, Submitted}" "tk_status t' = tk_status t \<or> tk_status t' = Paid"
    and same: "tk_bounty t' = tk_bounty t" "tk_id t' = tk_id t" "tk_poster t' = tk_poster t" "tk_escrow_id t' = tk_escrow_id t"
    and kind: "kind_ok t'" and p: "pays t r t'"
  shows "steps_to i t t'"
proof -
  have "payouts_ok t'" using ok st p by (auto simp: payouts_ok_def pays_def task_ok_def same)
  moreover have "task_step t t'"
    using st p by (auto simp: task_step_def task_evolves_def pays_def same resolved_def)
  ultimately show ?thesis using ok kind same by (simp add: steps_to_def task_ok_def)
qed

lemma pay_hash_match:
  assumes "tk_kind t = HashMatch h" "tk_claimant t = Some r" "tk_status t \<in> {Verified, Submitted}"
  shows "pays t r (t\<lparr>tk_kind := HashMatch h, tk_status := Paid, tk_settled_at := s\<rparr>)"
  using assms by (auto simp: pays_def allocated_payouts_def is_recipient_paid_def owed_payouts_def)

lemma pay_dispute:
  assumes k: "tk_kind t = Disputable k" "ds_answers k = []" and st: "tk_status t \<in> {Verified, Submitted}"
    and r: "pending_payouts_recipient_hint t = Some r" and owed: "owed_payouts t \<noteq> []"
  shows "pays t r (t\<lparr>tk_kind := Disputable k, tk_status := Paid, tk_settled_at := s\<rparr>)"
proof -
  let ?t = "t\<lparr>tk_kind := Disputable k, tk_status := Paid, tk_settled_at := s\<rparr>"
  have "allocated_payouts t \<noteq> []" using owed by (auto simp: owed_payouts_def)
  then obtain w where w: "dispute_winner t (ds_dispute k) = Some w"
    using k by (auto simp: allocated_payouts_def split: option.splits)
  then have "w = r"
    using r k by (auto simp: dispute_winner_def pending_payouts_recipient_hint_def split: option.splits dispute_resolution.splits)
  then have alloc: "allocated_payouts t = [(r, tk_bounty t)]" using w k by (simp add: allocated_payouts_def)
  have alloc': "allocated_payouts ?t = allocated_payouts t" by (rule allocated_cong) (simp_all add: k)
  have hint: "pending_payouts_recipient_hint ?t = Some r"
    using r by (auto simp: pending_payouts_recipient_hint_def k split: option.splits dispute_resolution.splits)
  have paid: "is_recipient_paid ?t q \<longleftrightarrow> q = r" "\<not> is_recipient_paid t q" for q
    using k hint st by (auto simp: is_recipient_paid_def)
  show ?thesis unfolding pays_def owed_payouts_def alloc' alloc by (simp add: paid)
qed

lemma pay_consensus:
  assumes ok: "kind_ok t" and k: "tk_kind t = Consensus k" and a: "bm_get (cs_assignees k) r = Some a"
    "ca_share a \<noteq> None" "\<not> ca_paid a" and st: "tk_status t \<in> {Verified, Submitted}"
    and as': "as' = bm_insert r (a\<lparr>ca_paid := True\<rparr>) (cs_assignees k)"
    and full: "full \<longleftrightarrow> list_all (\<lambda>a. ca_share a = None \<or> ca_paid a) (bm_values as')"
    and t1: "t1 = t\<lparr>tk_kind := Consensus (k\<lparr>cs_assignees := as'\<rparr>)\<rparr>"
    and t': "t' = (if full then t1\<lparr>tk_status := Paid, tk_settled_at := s\<rparr> else t1)"
  shows "pays t r t' \<and> kind_ok t'"
proof -
  have wf: "bm_wf (cs_assignees k)" using ok k by (simp add: kind_ok_def)
  have as_map: "as' = bm_modify r (\<lambda>a. a\<lparr>ca_paid := True\<rparr>) (cs_assignees k)"
    unfolding as' by (rule bm_modify_eq_insert [OF wf a(1), symmetric])
  have kind': "tk_kind t' = Consensus (k\<lparr>cs_assignees := as'\<rparr>)" by (simp add: t' t1)
  have shares: "consensus_shares (k\<lparr>cs_assignees := as'\<rparr>) = consensus_shares k"
    unfolding consensus_shares_def as_map bm_modify_def
    by (simp add: map_filter_map o_def case_prod_unfold if_distrib cong: if_cong)
  have "r \<in> fst ` set (consensus_shares k)"
    using a by (force simp: consensus_shares_def in_map_filter bm_get_def dest!: map_of_SomeD)
  moreover have "\<not> is_recipient_paid t r" using k a by (simp add: is_recipient_paid_def)
  moreover have "allocated_payouts t' = allocated_payouts t" by (simp add: allocated_payouts_def kind' k shares)
  moreover have "is_recipient_paid t' q \<longleftrightarrow> is_recipient_paid t q \<or> q = r" for q
    using k a by (auto simp: is_recipient_paid_def kind' as')
  moreover have "tk_status t' = Paid \<longleftrightarrow> owed_payouts t' = []"
    using consensus_owed_Nil [OF kind'] wf st by (auto simp: as' t' t1 full)
  ultimately have "pays t r t'" by (simp add: pays_def allocated_payouts_def k)
  moreover have "kind_ok t'"
    using ok k st a bm_values_insert_subset [of r "a\<lparr>ca_paid := True\<rparr>" "cs_assignees k"] wf
    by (auto simp: kind_ok_def t' t1 resolved_def as' length_bm_insert bm_contains_def share_ok_def)
  ultimately show ?thesis ..
qed

lemma update_first_map_filter:
  "(\<And>x. g (f x) = g x) \<Longrightarrow> List.map_filter g (update_first p f xs) = List.map_filter g xs"
  by (induction xs) (auto simp: map_filter_simps split: option.split)

lemma find_in: "List.find p xs = Some x \<Longrightarrow> x \<in> set xs \<and> p x"
  by (induction xs) (auto split: if_splits)

lemma paid_after_update:
  assumes "distinct (map cn_pubkey xs)" "List.find (\<lambda>a. cn_pubkey a = r) xs = Some a"
  shows "list_ex (\<lambda>a. cn_pubkey a = q \<and> cn_paid a) (update_first (\<lambda>a. cn_pubkey a = r) (\<lambda>a. a\<lparr>cn_paid := True\<rparr>) xs)
    \<longleftrightarrow> list_ex (\<lambda>a. cn_pubkey a = q \<and> cn_paid a) xs \<or> q = r"
  using assms by (induction xs) (auto split: if_splits)

lemma pay_contest:
  assumes ok: "kind_ok t" and k: "tk_kind t = Disputable k" "ds_answers k \<noteq> []"
    and a: "List.find (\<lambda>a. cn_pubkey a = r) (ds_answers k) = Some a" "cn_share a \<noteq> None" "\<not> cn_paid a"
    and st: "tk_status t \<in> {Verified, Submitted}"
    and as': "as' = update_first (\<lambda>a. cn_pubkey a = r) (\<lambda>a. a\<lparr>cn_paid := True\<rparr>) (ds_answers k)"
    and full: "full \<longleftrightarrow> list_all (\<lambda>a. cn_share a = None \<or> cn_paid a) as'"
    and t1: "t1 = t\<lparr>tk_kind := Disputable (k\<lparr>ds_answers := as'\<rparr>)\<rparr>"
    and t': "t' = (if full then t1\<lparr>tk_status := Paid, tk_settled_at := s\<rparr> else t1)"
  shows "pays t r t' \<and> kind_ok t'"
proof -
  have d: "distinct (map cn_pubkey (ds_answers k))" using ok k by (simp add: kind_ok_def)
  have ar: "a \<in> set (ds_answers k)" "cn_pubkey a = r" using find_in [OF a(1)] by auto
  have keys: "map cn_pubkey as' = map cn_pubkey (ds_answers k)" unfolding as' by (rule update_first_keys) simp
  have ne: "as' \<noteq> []" using k(2) by (simp add: as')
  have kind': "tk_kind t' = Disputable (k\<lparr>ds_answers := as'\<rparr>)" by (simp add: t' t1)
  have "contest_shares (k\<lparr>ds_answers := as'\<rparr>) = contest_shares k"
    unfolding contest_shares_def as' by (simp add: update_first_map_filter)
  then have alloc: "allocated_payouts t' = allocated_payouts t"
    using k ne by (simp add: allocated_payouts_def kind')
  have "(r, the (cn_share a)) \<in> set (allocated_payouts t)"
    using ar a(2) k by (auto simp: allocated_payouts_def contest_shares_def in_map_filter intro!: bexI [of _ a])
  then have "r \<in> fst ` set (allocated_payouts t)" by force
  moreover have "\<not> is_recipient_paid t r" using contest_paid [OF k(1) d ar(1)] ar(2) a(3) by simp
  moreover have "is_recipient_paid t' q \<longleftrightarrow> is_recipient_paid t q \<or> q = r" for q
    using k ne paid_after_update [OF d a(1), of q] by (simp add: is_recipient_paid_def kind' as')
  moreover have "tk_status t' = Paid \<longleftrightarrow> owed_payouts t' = []"
    using contest_owed_Nil [OF kind'] ne d keys st by (auto simp: t' t1 full)
  ultimately have "pays t r t'" using alloc by (simp add: pays_def)
  moreover have "share_ok True (cn_share x) (cn_paid x)" if x: "x \<in> set as'" for x
  proof -
    have old: "share_ok True (cn_share y) (cn_paid y)" if "y \<in> set (ds_answers k)" for y
      using ok k st that by (auto simp: kind_ok_def resolved_def)
    have "cn_share y \<noteq> None" if "y \<in> set (ds_answers k)" "cn_pubkey y = r" for y
      using d that ar a(2) by (metis distinct_map inj_onD)
    then show ?thesis using update_first_set [OF x [unfolded as']] old by (auto simp: share_ok_def)
  qed
  moreover have "length as' = length (ds_answers k)" by (simp add: as')
  moreover have "set (map cn_pubkey as') = set (map cn_pubkey (ds_answers k))" by (simp only: keys)
  ultimately show ?thesis
    using ok k st d keys by (auto simp: kind_ok_def t' t1 resolved_def)
qed

lemma pay_kind_cases:
  assumes ok: "task_ok i t" and st: "tk_status t \<in> {Verified, Submitted}" and p: "pay_kind t r = Ok (Some (kind, cr, full))"
    and t': "t' = (if full then t\<lparr>tk_kind := kind, tk_status := Paid, tk_settled_at := s\<rparr> else t\<lparr>tk_kind := kind\<rparr>)"
  shows "pays t r t' \<and> kind_ok t'"
proof (cases "tk_kind t")
  case (HashMatch h)
  then have "kind = HashMatch h" "full" "tk_claimant t = Some r" using p by (auto simp: pay_kind_def split: if_splits)
  then show ?thesis using pay_hash_match [OF HashMatch _ st, of r s] ok HashMatch st
    by (auto simp: t' task_ok_def kind_ok_def resolved_def)
next
  case (Consensus k)
  with p obtain a where a: "bm_get (cs_assignees k) r = Some a" "ca_share a \<noteq> None" "\<not> ca_paid a"
    and kf: "kind = Consensus (k\<lparr>cs_assignees := bm_insert r (a\<lparr>ca_paid := True\<rparr>) (cs_assignees k)\<rparr>)"
      "full \<longleftrightarrow> list_all (\<lambda>a. ca_share a = None \<or> ca_paid a) (bm_values (bm_insert r (a\<lparr>ca_paid := True\<rparr>) (cs_assignees k)))"
    by (auto simp: pay_kind_def Let_def split: option.splits if_splits)
  show ?thesis
    by (rule pay_consensus [OF _ Consensus a st refl kf(2) refl]) (use ok t' kf(1) in \<open>auto simp: task_ok_def\<close>)
next
  case (Disputable k)
  show ?thesis
  proof (cases "ds_answers k = []")
    case True
    with p Disputable have kf: "kind = Disputable k" "full" "pending_payouts_recipient_hint t = Some r"
      by (auto simp: pay_kind_def split: if_splits)
    have "owed_payouts t \<noteq> []" using ok st by (auto simp: task_ok_def payouts_ok_def)
    from pay_dispute [OF Disputable True st kf(3) this, of s] show ?thesis
      using kf ok Disputable True st by (auto simp: t' task_ok_def kind_ok_def resolved_def)
  next
    case False
    with p Disputable obtain a where a: "List.find (\<lambda>a. cn_pubkey a = r) (ds_answers k) = Some a" "cn_share a \<noteq> None" "\<not> cn_paid a"
      and kf: "kind = Disputable (k\<lparr>ds_answers := update_first (\<lambda>a. cn_pubkey a = r) (\<lambda>a. a\<lparr>cn_paid := True\<rparr>) (ds_answers k)\<rparr>)"
        "full \<longleftrightarrow> list_all (\<lambda>a. cn_share a = None \<or> cn_paid a) (update_first (\<lambda>a. cn_pubkey a = r) (\<lambda>a. a\<lparr>cn_paid := True\<rparr>) (ds_answers k))"
      by (auto simp: pay_kind_def Let_def split: option.splits if_splits)
    show ?thesis
      by (rule pay_contest [OF _ Disputable False a st refl kf(2) refl]) (use ok t' kf(1) in \<open>auto simp: task_ok_def\<close>)
  qed
qed

lemma add_earned_fst: "fst (add_earned k a c b) = Ok () \<or> fst (add_earned k a c b) = Panic"
  by (cases "plus_u (rp_completed (reputation_of b k)) 1 :: u64 board_result";
      cases "plus_u (rp_total_earned (reputation_of b k)) a :: u64 board_result")
    (auto simp: add_earned_def Let_def)

text \<open>\<open>mark_recipient_paid\<close>: a refusal, a repetition that changes nothing, or one payment.\<close>

lemma mark_paid_cases:
  assumes ok: "tasks_ok (bd_tasks b)" and run: "mark_recipient_paid now i r amount b = (res, b')"
  obtains (unchanged) "b' = b" "\<And>f. res = Ok f \<Longrightarrow> \<exists>t. bm_get (bd_tasks b) i = Some t \<and> pay_kind t r = Ok None"
  | (paid) t t' cr where "bm_get (bd_tasks b) i = Some t" "tk_status t \<in> {Verified, Submitted}"
      "pays t r t'" "steps_to i t t'" "b' = snd (add_earned r amount cr (set_task i t' b))"
      "res = Ok (owed_payouts t' = []) \<or> \<not> returns res"
proof (cases "bm_get (bd_tasks b) i")
  case None
  show ?thesis by (rule unchanged) (use run None in \<open>auto simp: mark_recipient_paid_def\<close>)
next
  case (Some t)
  show ?thesis
  proof (cases "tk_status t \<in> {Verified, Submitted} \<and> (\<exists>x. pay_kind t r = Ok (Some x))")
    case False
    have "b' = b \<and> (\<forall>f. res = Ok f \<longrightarrow> pay_kind t r = Ok None)"
      using run Some False by (cases "pay_kind t r") (auto simp: mark_recipient_paid_def split: if_splits option.splits)
    then show ?thesis using Some unchanged by blast
  next
    case True
    then obtain kind cr full where p: "pay_kind t r = Ok (Some (kind, cr, full))" and st: "tk_status t \<in> {Verified, Submitted}"
      by (metis prod_cases3)
    let ?s = "case tk_settled_at t of None \<Rightarrow> Some now | Some s \<Rightarrow> Some s"
    let ?t = "if full then t\<lparr>tk_kind := kind, tk_status := Paid, tk_settled_at := ?s\<rparr> else t\<lparr>tk_kind := kind\<rparr>"
    have tok: "task_ok i t" using ok Some by (simp add: tasks_ok_def)
    have pk: "pays t r ?t" "kind_ok ?t" using pay_kind_cases [OF tok st p refl, of ?s] by auto
    have step: "steps_to i t ?t" by (rule pays_steps [OF tok st _ _ _ _ _ pk(2,1)]) auto
    have "full \<longleftrightarrow> owed_payouts ?t = []"
      using pk(1) st by (cases full) (auto simp: pays_def)
    moreover have "(res, b') = with_step (add_earned r amount cr (set_task i ?t b)) (\<lambda>_ b1. (Ok full, b1))"
      using run Some st p by (cases full) (auto simp: mark_recipient_paid_def Let_def)
    then have "b' = snd (add_earned r amount cr (set_task i ?t b))" "res = Ok full \<or> \<not> returns res"
      using add_earned_fst [of r amount cr "set_task i ?t b"] by (auto simp: with_step_def)
    ultimately show ?thesis using paid [OF Some st pk(1) step] by blast
  qed
qed

end
