(* ===== verification/Hub_Board.thy ===== *)
theory Hub_Board
  imports Hub_Task_Pay
begin

text \<open>
  The task board as a machine: every public operation of \<open>TaskBoard\<close> that touches tasks or the
  deposits funding them, in any order, from an empty board or from tasks a store restored.
\<close>

subsection \<open>The remaining operations\<close>

lemma mark_recipient_paid_keeps: "keeps_tasks b (snd (mark_recipient_paid now i r amount b))"
proof (cases "tasks_ok (bd_tasks b)")
  case True
  obtain res b' where run: "mark_recipient_paid now i r amount b = (res, b')" by force
  from True run show ?thesis
  proof (cases rule: mark_paid_cases)
    case (paid t t' cr)
    then show ?thesis using run by (auto intro!: keeps_set_task)
  qed (simp add: run)
qed (simp add: keeps_tasks_def)

lemma submitted_ok:
  assumes ok: "task_ok i t" and st: "tk_status t = Verified"
  shows "steps_to i t (t\<lparr>tk_status := Submitted\<rparr>)"
  by (rule step_frame [OF ok]) (use ok st in \<open>auto simp: task_ok_def kind_ok_def resolved_def split: task_kind.splits\<close>)

lemma record_payout_attempt_keeps: "keeps_tasks b (record_payout_attempt a b)"
proof (cases "bm_get (bd_tasks b) (pa_task_id a)")
  case None
  then show ?thesis by (auto simp: record_payout_attempt_def Let_def intro: keeps_tasks_same)
next
  case (Some t)
  show ?thesis
  proof (cases "unsubmitted_payouts (restore_payout_attempt a b) (pa_task_id a) \<noteq> [] \<or> tk_status t \<noteq> Verified")
    case True
    then show ?thesis using Some by (auto simp: record_payout_attempt_def Let_def intro!: keeps_tasks_same)
  next
    case False
    then show ?thesis using Some
      by (auto simp: record_payout_attempt_def Let_def intro!: keeps_set_task [OF _ Some] submitted_ok)
  qed
qed

lemma mark_payout_failed_keeps: "keeps_tasks b (snd (mark_payout_failed i b))"
proof (cases "bm_get (bd_tasks b) i")
  case (Some t)
  have "steps_to i t (t\<lparr>tk_status := PayoutFailed\<rparr>)" if "task_ok i t" "tk_status t \<in> {Verified, Submitted}"
    by (rule step_frame [OF that(1)]) (use that in \<open>auto simp: task_ok_def kind_ok_def resolved_def split: task_kind.splits\<close>)
  then show ?thesis using Some by (auto simp: mark_payout_failed_def Let_def intro!: keeps_set_task)
qed (simp add: mark_payout_failed_def)

lemma create_keeps:
  assumes "bm_get (bd_tasks b) fresh = None"
  shows "keeps_tasks b (snd (create_task fresh now poster desc bounty h b))"
    "keeps_tasks b (snd (create_consensus_task fresh now poster desc bounty n jd w b))"
    "keeps_tasks b (snd (create_disputable_task fresh now poster desc bounty w b))"
proof -
  have new: "keeps_tasks b (set_task fresh (new_task fresh poster desc bounty kind now) b)"
    if "task_ok fresh (new_task fresh poster desc bounty kind now)" for kind
    by (rule keeps_new_task [OF _ assms that]) (simp_all add: new_task_def)
  have id: "tk_id (new_task fresh poster desc bounty kind now) = fresh" for kind by (simp add: new_task_def)
  have same: "(new_task fresh poster desc bounty kind now)\<lparr>tk_min_reputation := 0, tk_capabilities := {}, tk_escrow_id := None\<rparr>
      = new_task fresh poster desc bounty kind now" for kind by (simp add: new_task_def)
  note ok = new_task_ok [where i = fresh and r = 0 and cs = "{}" and e = None and poster = poster and desc = desc
      and bounty = bounty and now = now, unfolded same]
  show "keeps_tasks b (snd (create_task fresh now poster desc bounty h b))"
    by (simp add: create_task_def Let_def id) (rule new [OF ok], blast)
  show "keeps_tasks b (snd (create_consensus_task fresh now poster desc bounty n jd w b))"
    by (simp add: create_consensus_task_def Let_def id) (rule new [OF ok], blast)
  show "keeps_tasks b (snd (create_disputable_task fresh now poster desc bounty w b))"
    by (simp add: create_disputable_task_def Let_def id) (rule new [OF ok], blast)
qed

subsection \<open>Confirming an escrow\<close>

text \<open>The task an escrow turns into: \<open>materialize\<close> always succeeds on a fresh id.\<close>

lemma limits_run:
  assumes "bm_wf (bd_tasks b)" "bm_get (bd_tasks b) i = Some t"
  shows "\<exists>t'. apply_intent_limits i r cs b = (Ok (), b\<lparr>bd_tasks := bm_insert i t' (bd_tasks b)\<rparr>)
    \<and> t' = t\<lparr>tk_min_reputation := (if r > 0 then r else tk_min_reputation t), tk_capabilities := (if cs \<noteq> {} then cs else tk_capabilities t)\<rparr>"
proof -
  have id: "bm_insert i t (bd_tasks b) = bd_tasks b" by (rule bm_ext) (use assms in auto)
  show ?thesis
    using assms id by (auto simp: apply_intent_limits_def set_min_reputation_def set_capabilities_def set_task_def)
qed

lemma materialize_run:
  assumes wf: "bm_wf (bd_tasks b)" and new: "bm_get (bd_tasks b) fresh = None"
    and p: "case p of DisputeBond _ _ \<Rightarrow> False | FundExchangeAccount \<Rightarrow> False | _ \<Rightarrow> True"
  shows "\<exists>t. materialize fresh clock now depositor p b = (Ok fresh, set_task fresh t b)
    \<and> (\<forall>e. task_ok fresh (t\<lparr>tk_escrow_id := e\<rparr>)) \<and> tk_status t = Open \<and> tk_poster t = depositor"
proof -
  have run: "\<exists>t. with_step (apply_intent_limits fresh r cs (set_task fresh (new_task fresh depositor desc bounty kind clock) b))
        (\<lambda>_ b2. (Ok fresh, b2)) = (Ok fresh, set_task fresh t b)
      \<and> (\<forall>e. task_ok fresh (t\<lparr>tk_escrow_id := e\<rparr>)) \<and> tk_status t = Open \<and> tk_poster t = depositor"
    if ok: "\<And>r cs e. task_ok fresh ((new_task fresh depositor desc bounty kind clock)\<lparr>tk_min_reputation := r, tk_capabilities := cs, tk_escrow_id := e\<rparr>)"
    for r cs desc bounty kind
  proof -
    let ?n = "new_task fresh depositor desc bounty kind clock"
    let ?b = "set_task fresh ?n b"
    let ?t = "?n\<lparr>tk_min_reputation := (if r > 0 then r else tk_min_reputation ?n), tk_capabilities := (if cs \<noteq> {} then cs else tk_capabilities ?n)\<rparr>"
    have "apply_intent_limits fresh r cs ?b = (Ok (), ?b\<lparr>bd_tasks := bm_insert fresh ?t (bd_tasks ?b)\<rparr>)"
      using limits_run [of ?b fresh ?n r cs] wf by simp
    then have "with_step (apply_intent_limits fresh r cs ?b) (\<lambda>_ b2. (Ok fresh, b2)) = (Ok fresh, set_task fresh ?t b)"
      using wf by (simp add: set_task_def)
    moreover have "\<forall>e. task_ok fresh (?t\<lparr>tk_escrow_id := e\<rparr>)" using ok by blast
    ultimately show ?thesis by (intro exI [of _ ?t]) (simp add: new_task_def)
  qed
  have id: "tk_id (new_task fresh depositor desc bounty kind clock) = fresh" for desc bounty kind by (simp add: new_task_def)
  show ?thesis
  proof (cases p)
    case (FundHashMatchTask x)
    show ?thesis
      by (simp add: FundHashMatchTask materialize_def create_task_def Let_def id) (rule run, rule new_task_ok, blast)
  next
    case (FundConsensusTask x)
    show ?thesis
      by (simp add: FundConsensusTask materialize_def create_consensus_task_def Let_def id) (rule run, rule new_task_ok, blast)
  next
    case (FundDisputableTask x)
    show ?thesis
      by (simp add: FundDisputableTask materialize_def create_disputable_task_def Let_def id) (rule run, rule new_task_ok, blast)
  qed (use p in simp_all)
qed

lemma confirm_escrow_cases:
  assumes wf: "bm_wf (bd_tasks b)" and new: "bm_get (bd_tasks b) fresh = None"
    and run: "confirm_escrow fresh clock i observed now b = (res, b')"
  obtains (refused) e where "res = Err e" "b' = b"
  | (funded) d t where "bm_get (bd_pending_deposits b) i = Some d" "pd_status d = Reserved" "now \<le> pd_expires_at d"
      "pd_required_amount d \<le> observed" "res = Ok (TaskCreated t)" "task_ok fresh t" "tk_escrow_id t = Some i"
      "tk_status t = Open" "tk_poster t = pd_depositor d"
      "b' = set_task fresh t (set_deposit i (d\<lparr>pd_status := Consumed\<rparr>) b)"
proof (cases "\<exists>d. bm_get (bd_pending_deposits b) i = Some d \<and> check_deposit d observed now = Ok ()
    \<and> (case pd_purpose d of DisputeBond _ _ \<Rightarrow> False | FundExchangeAccount \<Rightarrow> False | _ \<Rightarrow> True)")
  case False
  have "\<exists>e. res = Err e \<and> b' = b"
  proof (cases "bm_get (bd_pending_deposits b) i")
    case (Some d)
    then show ?thesis using False run
      by (cases "pd_purpose d") (auto simp: confirm_escrow_def check_deposit_def split: if_splits)
  qed (use run in \<open>auto simp: confirm_escrow_def\<close>)
  then show ?thesis using refused by blast
next
  case True
  then obtain d where d: "bm_get (bd_pending_deposits b) i = Some d" and chk: "check_deposit d observed now = Ok ()"
    and p: "case pd_purpose d of DisputeBond _ _ \<Rightarrow> False | FundExchangeAccount \<Rightarrow> False | _ \<Rightarrow> True" by blast
  let ?b = "set_deposit i (d\<lparr>pd_status := Consumed\<rparr>) b"
  obtain t where m: "materialize fresh clock now (pd_depositor d) (pd_purpose d) ?b = (Ok fresh, set_task fresh t ?b)"
    and t: "\<forall>e. task_ok fresh (t\<lparr>tk_escrow_id := e\<rparr>)" "tk_status t = Open" "tk_poster t = pd_depositor d"
    using materialize_run [of ?b fresh "pd_purpose d" clock now "pd_depositor d"] wf new p by auto
  let ?t = "t\<lparr>tk_escrow_id := Some i\<rparr>"
  have np: "\<not> (case pd_purpose d of DisputeBond _ _ \<Rightarrow> True | FundExchangeAccount \<Rightarrow> True | _ \<Rightarrow> False)"
    using p by (cases "pd_purpose d") auto
  have twice: "set_task fresh ?t (set_task fresh t ?b) = set_task fresh ?t ?b"
    using wf by (simp add: set_task_def set_deposit_def)
  have "(res, b') = (Ok (TaskCreated ?t), set_task fresh ?t ?b)"
    using run d chk np m twice by (simp add: confirm_escrow_def Let_def)
  with d chk t show ?thesis
    by (intro funded [of d ?t]) (auto simp: check_deposit_def split: if_splits)
qed

subsection \<open>The machine\<close>

datatype board_call =
    RestoreTask task
  | CreateTask uuid instant public_key string u64 hash
  | CreateConsensusTask uuid instant public_key string u64 u32 instant int
  | CreateDisputableTask uuid instant public_key string u64 int
  | SetMinReputation uuid u64
  | SetCapabilities uuid "string set"
  | CancelTask uuid
  | ReserveEscrow uuid instant "uuid \<Rightarrow> public_key" public_key u64 escrow_purpose instant
  | ConfirmEscrow uuid instant uuid u64 instant
  | ConfirmDisputeBond uuid u64 instant
  | MarkEscrowRefunded uuid
  | ClaimTask uuid public_key instant
  | JoinConsensusTask instant instant uuid public_key
  | SubmitOutput uuid public_key hash
  | SubmitContestAnswer uuid public_key string instant
  | CloseContest uuid public_key instant
  | PickAnswer uuid public_key public_key instant
  | CloseUnclosedContests instant
  | SplitUnpickedContests instant
  | FinalizeUnchallenged instant
  | ResolveDispute uuid dispute_resolution
  | CreditForfeitedBond public_key u64
  | SubmitConsensusAnswer instant uuid public_key string
  | ResolveExpiredConsensus instant
  | CancelUnderstaffed instant
  | MarkRecipientPaid instant uuid public_key u64
  | RecordPayoutAttempt payout_attempt
  | ClearPayoutAttempt uuid public_key
  | MarkPayoutFailed uuid
  | ExpireClaims instant

fun run_board :: "board_call \<Rightarrow> task_board \<Rightarrow> task_board" where
  "run_board (RestoreTask t) b = restore_task t b"
| "run_board (CreateTask fresh now poster desc bounty h) b = snd (create_task fresh now poster desc bounty h b)"
| "run_board (CreateConsensusTask fresh now poster desc bounty n jd w) b =
     snd (create_consensus_task fresh now poster desc bounty n jd w b)"
| "run_board (CreateDisputableTask fresh now poster desc bounty w) b =
     snd (create_disputable_task fresh now poster desc bounty w b)"
| "run_board (SetMinReputation i r) b = snd (set_min_reputation i r b)"
| "run_board (SetCapabilities i cs) b = snd (set_capabilities i cs b)"
| "run_board (CancelTask i) b = snd (cancel_task i b)"
| "run_board (ReserveEscrow fresh now derive depositor required purpose expires) b =
     snd (reserve_escrow fresh now derive depositor required purpose expires b)"
| "run_board (ConfirmEscrow fresh clock i observed now) b = snd (confirm_escrow fresh clock i observed now b)"
| "run_board (ConfirmDisputeBond i observed now) b = snd (confirm_dispute_bond i observed now b)"
| "run_board (MarkEscrowRefunded i) b = snd (mark_escrow_refunded i b)"
| "run_board (ClaimTask i c d) b = snd (claim_task i c d b)"
| "run_board (JoinConsensusTask now now2 i agent) b = snd (join_consensus_task now now2 i agent b)"
| "run_board (SubmitOutput i s h) b = snd (submit i s h b)"
| "run_board (SubmitContestAnswer i s ans now) b = snd (submit_contest_answer i s ans now b)"
| "run_board (CloseContest i c now) b = snd (close_contest i c now b)"
| "run_board (PickAnswer i c w now) b = snd (pick_answer i c w now b)"
| "run_board (CloseUnclosedContests now) b = snd (close_unclosed_contests now b)"
| "run_board (SplitUnpickedContests now) b = snd (split_unpicked_contests now b)"
| "run_board (FinalizeUnchallenged now) b = snd (finalize_unchallenged_disputable_tasks now b)"
| "run_board (ResolveDispute i out) b = snd (resolve_dispute i out b)"
| "run_board (CreditForfeitedBond k a) b = snd (credit_forfeited_bond k a b)"
| "run_board (SubmitConsensusAnswer now i agent ans) b = snd (submit_consensus_answer now i agent ans b)"
| "run_board (ResolveExpiredConsensus now) b = snd (resolve_expired_consensus_tasks now b)"
| "run_board (CancelUnderstaffed now) b = snd (cancel_understaffed_consensus_tasks now b)"
| "run_board (MarkRecipientPaid now i r a) b = snd (mark_recipient_paid now i r a b)"
| "run_board (RecordPayoutAttempt a) b = record_payout_attempt a b"
| "run_board (ClearPayoutAttempt i r) b = snd (clear_payout_attempt i r b)"
| "run_board (MarkPayoutFailed i) b = snd (mark_payout_failed i b)"
| "run_board (ExpireClaims now) b = snd (expire_claims now b)"

text \<open>
  What a call is given: ids not in use, and tasks restored from a store that are well formed
  and without an escrow of their own (those arrive through \<open>ConfirmEscrow\<close>).
\<close>

fun board_allowed :: "board_call \<Rightarrow> task_board \<Rightarrow> bool" where
  "board_allowed (RestoreTask t) b \<longleftrightarrow> get_task b (tk_id t) = None \<and> task_ok (tk_id t) t \<and> tk_escrow_id t = None"
| "board_allowed (CreateTask fresh now poster desc bounty h) b \<longleftrightarrow> get_task b fresh = None"
| "board_allowed (CreateConsensusTask fresh now poster desc bounty n jd w) b \<longleftrightarrow> get_task b fresh = None"
| "board_allowed (CreateDisputableTask fresh now poster desc bounty w) b \<longleftrightarrow> get_task b fresh = None"
| "board_allowed (ReserveEscrow fresh now derive depositor required purpose expires) b \<longleftrightarrow> get_pending_deposit b fresh = None"
| "board_allowed (ConfirmEscrow fresh clock i observed now) b \<longleftrightarrow> get_task b fresh = None"
| "board_allowed _ b \<longleftrightarrow> True"

definition board_reachable :: "task_board \<Rightarrow> bool" where
  "board_reachable b \<longleftrightarrow> reaches board_allowed run_board task_board_new b"

definition spent_deposit :: "task_board \<Rightarrow> uuid \<Rightarrow> bool" where
  "spent_deposit b e = (case bm_get (bd_pending_deposits b) e of None \<Rightarrow> False | Some d \<Rightarrow> pd_status d \<noteq> Reserved)"

definition escrow_ok :: "task_board \<Rightarrow> bool" where
  "escrow_ok b \<longleftrightarrow>
     (\<forall>i t e. bm_get (bd_tasks b) i = Some t \<longrightarrow> tk_escrow_id t = Some e \<longrightarrow> spent_deposit b e)
     \<and> (\<forall>i j t u e. bm_get (bd_tasks b) i = Some t \<longrightarrow> bm_get (bd_tasks b) j = Some u \<longrightarrow>
          tk_escrow_id t = Some e \<longrightarrow> tk_escrow_id u = Some e \<longrightarrow> i = j)"

definition board_inv :: "task_board \<Rightarrow> bool" where
  "board_inv b \<longleftrightarrow> tasks_ok (bd_tasks b) \<and> escrow_ok b"

definition board_evolves :: "task_board \<Rightarrow> task_board \<Rightarrow> bool" where
  "board_evolves b b' \<longleftrightarrow> (\<forall>i t. bm_get (bd_tasks b) i = Some t \<longrightarrow>
     (\<exists>t'. bm_get (bd_tasks b') i = Some t' \<and> task_evolves t t'))"

text \<open>Operations that confirm no escrow: deposits may be spent but never come back.\<close>

lemma tasks_step_escrow:
  assumes "tasks_step m m'" "bm_get m' i = Some t'" "tk_escrow_id t' = Some e"
  shows "\<exists>t. bm_get m i = Some t \<and> tk_escrow_id t = Some e"
proof (cases "bm_get m i")
  case None
  then show ?thesis using assms by (auto simp: tasks_step_def)
next
  case (Some t)
  then obtain t2 where "bm_get m' i = Some t2" "task_step t t2" using assms(1) unfolding tasks_step_def by blast
  with Some assms(2,3) show ?thesis by (auto simp: task_step_def task_evolves_def)
qed

lemma board_inv_keeps:
  assumes inv: "board_inv b" and k: "keeps_tasks b b'" and d: "\<And>e. spent_deposit b e \<Longrightarrow> spent_deposit b' e"
  shows "board_inv b' \<and> tasks_step (bd_tasks b) (bd_tasks b')"
proof -
  have ok: "tasks_ok (bd_tasks b')" and st: "tasks_step (bd_tasks b) (bd_tasks b')"
    using inv k by (auto simp: board_inv_def keeps_tasks_def)
  have spent: "spent_deposit b e" if "bm_get (bd_tasks b) i = Some t" "tk_escrow_id t = Some e" for i t e
    using inv that by (auto simp: board_inv_def escrow_ok_def)
  have only: "i = j" if "bm_get (bd_tasks b) i = Some t" "bm_get (bd_tasks b) j = Some u"
      "tk_escrow_id t = Some e" "tk_escrow_id u = Some e" for i j t u e
    using inv that unfolding board_inv_def escrow_ok_def by blast
  have "escrow_ok b'"
    unfolding escrow_ok_def
  proof (intro conjI allI impI)
    fix i t e
    assume "bm_get (bd_tasks b') i = Some t" "tk_escrow_id t = Some e"
    then show "spent_deposit b' e" using tasks_step_escrow [OF st] spent d by blast
  next
    fix i j t u e
    assume "bm_get (bd_tasks b') i = Some t" "bm_get (bd_tasks b') j = Some u" "tk_escrow_id t = Some e" "tk_escrow_id u = Some e"
    then show "i = j" using tasks_step_escrow [OF st, of i t e] tasks_step_escrow [OF st, of j u e] only by blast
  qed
  with ok st show ?thesis by (simp add: board_inv_def)
qed

lemma confirm_escrow_inv:
  assumes inv: "board_inv b" and new: "get_task b fresh = None"
  shows "board_inv (snd (confirm_escrow fresh clock i observed now b))
    \<and> (\<forall>j t. bm_get (bd_tasks b) j = Some t \<longrightarrow> bm_get (bd_tasks (snd (confirm_escrow fresh clock i observed now b))) j = Some t)"
proof -
  obtain res b' where run: "confirm_escrow fresh clock i observed now b = (res, b')" by force
  have wf: "bm_wf (bd_tasks b)" using inv by (simp add: board_inv_def tasks_ok_def)
  have new': "bm_get (bd_tasks b) fresh = None" using new by (simp add: get_task_def)
  from wf new' run show ?thesis
  proof (cases rule: confirm_escrow_cases)
    case (funded d t)
    have res_d: "\<not> spent_deposit b i" using funded(1,2) by (simp add: spent_deposit_def)
    have sp: "spent_deposit b' i" "spent_deposit b e \<Longrightarrow> spent_deposit b' e" for e
      using funded by (auto simp: spent_deposit_def split: option.splits)
    have none: "tk_escrow_id u \<noteq> Some i" if "bm_get (bd_tasks b) j = Some u" for j u
      using inv that res_d by (auto simp: board_inv_def escrow_ok_def)
    have "escrow_ok b'"
      using inv sp none funded(7,10) unfolding escrow_ok_def board_inv_def
      by (auto split: if_splits)
    moreover have "tasks_ok (bd_tasks b')" using inv funded(6,10) by (auto simp: board_inv_def tasks_ok_def)
    ultimately show ?thesis using run funded(10) new' by (auto simp: board_inv_def)
  qed (use run inv in simp)
qed

subsection \<open>Every call keeps the invariant\<close>

lemma with_step_deposits:
  assumes "bd_pending_deposits (snd r) = D" "\<And>x. bd_pending_deposits (snd (k x (snd r))) = D"
  shows "bd_pending_deposits (snd (with_step r k)) = D"
  using assms by (cases "fst r") (auto simp: with_step_def)

lemma resolve_consensus_deposits [simp]: "bd_pending_deposits (snd (resolve_consensus i b)) = bd_pending_deposits b"
  by (auto simp: resolve_consensus_def Let_def intro!: with_step_deposits split: option.split task_kind.split)

lemma each_resolve_deposits [simp]: "bd_pending_deposits (snd (each_step resolve_consensus is b)) = bd_pending_deposits b"
proof (induction "is" arbitrary: b)
  case (Cons i js)
  have "bd_pending_deposits (snd (each_step resolve_consensus js (snd (resolve_consensus i b)))) = bd_pending_deposits b"
    by (simp add: Cons.IH)
  then show ?case by (simp add: with_step_deposits)
qed simp

lemma sweep_deposits [simp]: "bd_pending_deposits (snd (sweep_tasks f b)) = bd_pending_deposits b"
  by (simp add: sweep_tasks_def)

lemma sweeps_deposits [simp]:
  "bd_pending_deposits (snd (close_unclosed_contests now b)) = bd_pending_deposits b"
  "bd_pending_deposits (snd (split_unpicked_contests now b)) = bd_pending_deposits b"
  "bd_pending_deposits (snd (finalize_unchallenged_disputable_tasks now b)) = bd_pending_deposits b"
  "bd_pending_deposits (snd (cancel_understaffed_consensus_tasks now b)) = bd_pending_deposits b"
  "bd_pending_deposits (snd (expire_claims now b)) = bd_pending_deposits b"
  "bd_pending_deposits (snd (credit_forfeited_bond k a b)) = bd_pending_deposits b"
  "bd_pending_deposits (snd (clear_payout_attempt i r b)) = bd_pending_deposits b"
  "bd_tasks (snd (credit_forfeited_bond k a b)) = bd_tasks b"
  "bd_tasks (snd (clear_payout_attempt i r b)) = bd_tasks b"
  by (simp_all add: close_unclosed_contests_def split_unpicked_contests_def finalize_unchallenged_disputable_tasks_def
      cancel_understaffed_consensus_tasks_def expire_claims_def credit_forfeited_bond_def clear_payout_attempt_def)

lemma work_deposits [simp]:
  "bd_pending_deposits (snd (set_min_reputation i r b)) = bd_pending_deposits b"
  "bd_pending_deposits (snd (set_capabilities i cs b)) = bd_pending_deposits b"
  "bd_pending_deposits (snd (cancel_task i b)) = bd_pending_deposits b"
  "bd_pending_deposits (snd (claim_task i c d b)) = bd_pending_deposits b"
  "bd_pending_deposits (snd (join_consensus_task now now2 i c b)) = bd_pending_deposits b"
  "bd_pending_deposits (snd (submit_contest_answer i c ans now b)) = bd_pending_deposits b"
  "bd_pending_deposits (snd (close_contest i c now b)) = bd_pending_deposits b"
  "bd_pending_deposits (snd (pick_answer i c w now b)) = bd_pending_deposits b"
  "bd_pending_deposits (snd (mark_payout_failed i b)) = bd_pending_deposits b"
  "bd_pending_deposits (record_payout_attempt a b) = bd_pending_deposits b"
  by (auto simp: set_min_reputation_def set_capabilities_def cancel_task_def claim_task_def join_consensus_task_def
      submit_contest_answer_def close_contest_def pick_answer_def mark_payout_failed_def record_payout_attempt_def
      with_check_snd Let_def split: option.split task_kind.split outcome.split)

lemma settle_deposits [simp]:
  "bd_pending_deposits (snd (submit i c h b)) = bd_pending_deposits b"
  "bd_pending_deposits (snd (resolve_dispute i out b)) = bd_pending_deposits b"
  "bd_pending_deposits (snd (submit_consensus_answer now i c ans b)) = bd_pending_deposits b"
  "bd_pending_deposits (snd (resolve_expired_consensus_tasks now b)) = bd_pending_deposits b"
  "bd_pending_deposits (snd (mark_recipient_paid now i c a b)) = bd_pending_deposits b"
  by (auto simp: submit_def resolve_dispute_def submit_consensus_answer_def resolve_expired_consensus_tasks_def
      mark_recipient_paid_def with_check_snd Let_def case_prod_unfold intro!: with_step_deposits
      split: option.split task_kind.split outcome.split)

lemma spent_frame:
  "bd_pending_deposits b' = bd_pending_deposits b \<Longrightarrow> spent_deposit b e \<Longrightarrow> spent_deposit b' e"
  by (simp add: spent_deposit_def)

lemma spent_insert:
  "bd_pending_deposits b' = bm_insert i d (bd_pending_deposits b) \<Longrightarrow>
    pd_status d \<noteq> Reserved \<or> bm_get (bd_pending_deposits b) i = None \<Longrightarrow> spent_deposit b e \<Longrightarrow> spent_deposit b' e"
  by (auto simp: spent_deposit_def)

lemma confirm_dispute_bond_spent: "spent_deposit b e \<Longrightarrow> spent_deposit (snd (confirm_dispute_bond i obs now b)) e"
  by (auto simp: confirm_dispute_bond_def with_check_snd Let_def
      intro: spent_insert split: option.split escrow_purpose.split task_kind.split outcome.split)

text \<open>Confirming an escrow changes one deposit.\<close>

lemma limits_deposits: "bd_pending_deposits (snd (apply_intent_limits i r cs b)) = bd_pending_deposits b"
  by (auto simp: apply_intent_limits_def set_min_reputation_def set_capabilities_def set_task_def with_step_def with_check_def
      split: option.split outcome.split)

lemma materialize_deposits: "bd_pending_deposits (snd (materialize fresh clock now k p b)) = bd_pending_deposits b"
  by (auto simp: materialize_def create_task_def create_consensus_task_def create_disputable_task_def Let_def with_step_def with_check_def
      limits_deposits set_task_def split: escrow_purpose.split outcome.split)

lemma confirm_escrow_deposits_eq:
  "bd_pending_deposits (snd (confirm_escrow fresh clock i observed now b)) = bd_pending_deposits b
   \<or> (\<exists>d. bm_get (bd_pending_deposits b) i = Some d \<and>
        bd_pending_deposits (snd (confirm_escrow fresh clock i observed now b)) = bm_insert i (d\<lparr>pd_status := Consumed\<rparr>) (bd_pending_deposits b))"
proof -
  have m: "bd_pending_deposits (snd (materialize fresh clock now k p (set_deposit i d b))) = bm_insert i d (bd_pending_deposits b)" for k p d
    by (simp add: materialize_deposits set_deposit_def)
  show ?thesis
    by (auto simp: confirm_escrow_def with_check_def with_step_def set_task_def m Let_def split: option.split outcome.split escrow_purpose.split)
qed

definition tasks_follow :: "task_board \<Rightarrow> task_board \<Rightarrow> bool" where
  "tasks_follow b b' \<longleftrightarrow> (\<forall>i t. bm_get (bd_tasks b) i = Some t \<longrightarrow> (\<exists>t'. bm_get (bd_tasks b') i = Some t' \<and> task_step t t'))"

lemma board_call_keeps:
  assumes "board_inv b" "keeps_tasks b b'" "\<And>e. spent_deposit b e \<Longrightarrow> spent_deposit b' e"
  shows "board_inv b' \<and> tasks_follow b b'"
  using board_inv_keeps [OF assms] unfolding tasks_follow_def tasks_step_def by blast

lemma run_board_keeps:
  assumes inv: "board_inv b" and al: "board_allowed c b"
  shows "board_inv (run_board c b) \<and> tasks_follow b (run_board c b)"
proof (cases c)
  case (RestoreTask t)
  show ?thesis unfolding RestoreTask run_board.simps
    by (rule board_call_keeps [OF inv]) (use al RestoreTask in
      \<open>auto simp: restore_task_def get_task_def intro: spent_frame intro!: keeps_new_task\<close>)
next
  case (ConfirmEscrow fresh clock i observed now)
  show ?thesis using confirm_escrow_inv [OF inv, of fresh clock i observed now] al
    by (auto simp: ConfirmEscrow tasks_follow_def)
next
  case (ReserveEscrow fresh now derive depositor required purpose expires)
  show ?thesis unfolding ReserveEscrow run_board.simps
    by (rule board_call_keeps [OF inv]) (use al ReserveEscrow in
      \<open>auto simp: reserve_escrow_def get_pending_deposit_def Let_def intro: spent_insert intro!: keeps_tasks_same\<close>)
next
  case (ConfirmDisputeBond i observed now)
  show ?thesis unfolding ConfirmDisputeBond run_board.simps
    by (rule board_call_keeps [OF inv confirm_dispute_bond_keeps confirm_dispute_bond_spent])
next
  case (MarkEscrowRefunded i)
  show ?thesis unfolding MarkEscrowRefunded run_board.simps
    by (rule board_call_keeps [OF inv])
      (auto simp: mark_escrow_refunded_def intro: spent_insert keeps_tasks_same split: option.split)
next
  case (ResolveDispute i out)
  have "bm_wf (bd_tasks b)" using inv by (simp add: board_inv_def tasks_ok_def)
  from board_call_keeps [OF inv resolve_dispute_keeps [OF this] spent_frame] show ?thesis
    by (simp add: ResolveDispute)
next
  case (CreateTask fresh now poster desc bounty h)
  show ?thesis using board_call_keeps [OF inv create_keeps(1) spent_frame, of fresh now poster desc bounty h] al
    by (simp add: CreateTask get_task_def create_task_def Let_def)
next
  case (CreateConsensusTask fresh now poster desc bounty n jd w)
  show ?thesis using board_call_keeps [OF inv create_keeps(2) spent_frame, of fresh now poster desc bounty n jd w] al
    by (simp add: CreateConsensusTask get_task_def create_consensus_task_def Let_def)
next
  case (CreateDisputableTask fresh now poster desc bounty w)
  show ?thesis using board_call_keeps [OF inv create_keeps(3) spent_frame, of fresh now poster desc bounty w] al
    by (simp add: CreateDisputableTask get_task_def create_disputable_task_def Let_def)
qed (simp_all, (rule board_call_keeps [OF inv _ spent_frame],
    simp_all add: set_min_reputation_keeps set_capabilities_keeps cancel_task_keeps claim_task_keeps
      join_consensus_task_keeps submit_keeps submit_contest_answer_keeps close_contest_keeps pick_answer_keeps
      sweeps_that_close_keep split_unpicked_keep finalize_keep submit_consensus_answer_keeps resolve_expired_keep
      mark_recipient_paid_keeps record_payout_attempt_keeps mark_payout_failed_keeps expire_claims_keep
      keeps_tasks_same)+)

lemma board_inv_new: "board_inv task_board_new"
  by (simp add: board_inv_def tasks_ok_def escrow_ok_def task_board_new_def)

interpretation board: call_machine task_board_new board_allowed run_board board_inv board_evolves
proof unfold_locales
  show "board_inv task_board_new" by (rule board_inv_new)
  show "board_inv (run_board c s)" if "board_inv s" "board_allowed c s" for s c
    using run_board_keeps [OF that] by simp
  show "board_evolves s s" for s by (simp add: board_evolves_def)
  show "board_evolves s (run_board c s)" if "board_inv s" "board_allowed c s" for s c
    using run_board_keeps [OF that] unfolding board_evolves_def tasks_follow_def task_step_def by blast
  show "board_evolves s u" if "board_evolves s t" "board_evolves t u" for s t u
    using that task_evolves_trans unfolding board_evolves_def by blast
qed

lemma board_reachable_ok:
  assumes "board_reachable b"
  shows "board_inv b" "\<And>i t. get_task b i = Some t \<Longrightarrow> task_ok i t"
proof -
  show inv: "board_inv b" using assms unfolding board_reachable_def by (rule board.reached_inv)
  show "task_ok i t" if "get_task b i = Some t" for i t
    using inv that by (simp add: board_inv_def tasks_ok_def get_task_def)
qed

end
