(* ===== verification/Hub_Promises.thy ===== *)
theory Hub_Promises
  imports Hub_Board
begin

text \<open>
  What the task board promises, on every board it reaches: bounties are never exceeded, nobody
  is paid twice for the same task, statuses follow the diagram, the
  escrow of a task is spent, posters do not work for themselves, and a payout is resent only on proof that it was lost.
\<close>

lemma checked_sum_fits: "sum_list (map unat xs) < 2 ^ 64 \<Longrightarrow> \<exists>c. sum_u xs = Ok c \<and> unat c = sum_list (map unat xs)"
  by (simp add: sum_u_def checked_sum_eq unat_of_nat_less)

lemma payout_total_snd: "payout_total ps = sum_list (map unat (map snd ps))"
  by (simp add: payout_total_def o_def)

text \<open>
  C12: On every board the hub reaches, a task's payouts go to distinct recipients and together
  stay within its bounty; the totals reported as confirmed and as unconfirmed never overflow
  and add up to what is allocated.  A task that is verified, submitted or whose payout failed
  still owes somebody, and while it is verified or submitted that is what is pending; a task
  that is paid owes nobody.
\<close>

theorem task_payouts_within_bounty:
  assumes "board_reachable b" "get_task b i = Some t"
  shows "\<exists>c u. confirmed_payout_total t = Ok c \<and> unconfirmed_payout_total t = Ok u
     \<and> unat c + unat u = payout_total (allocated_payouts t)
     \<and> payout_total (allocated_payouts t) \<le> unat (tk_bounty t)
     \<and> distinct (map fst (allocated_payouts t))
     \<and> (tk_status t \<in> {Verified, Submitted, PayoutFailed} \<longrightarrow> owed_payouts t \<noteq> [])
     \<and> (tk_status t \<in> {Verified, Submitted} \<longrightarrow> pending_payouts t = owed_payouts t)
     \<and> (tk_status t = Paid \<longrightarrow> owed_payouts t = [])"
proof -
  have ok: "payouts_ok t" using board_reachable_ok(2) [OF assms] by (simp add: task_ok_def)
  let ?paid = "filter (\<lambda>(r, _). is_recipient_paid t r) (allocated_payouts t)"
  have sum: "payout_total ?paid + payout_total (owed_payouts t) = payout_total (allocated_payouts t)"
    using payout_total_filter [of "\<lambda>(r, _). is_recipient_paid t r" "allocated_payouts t"]
    by (simp add: owed_payouts_def case_prod_unfold)
  have b64: "payout_total (allocated_payouts t) < 2 ^ 64"
    using ok unsigned_less [of "tk_bounty t", where 'a = nat] by (simp add: payouts_ok_def)
  obtain c where c: "confirmed_payout_total t = Ok c" "unat c = payout_total ?paid"
    using checked_sum_fits [of "map snd ?paid"] sum b64 by (auto simp: confirmed_payout_total_def payout_total_snd)
  obtain u where u: "unconfirmed_payout_total t = Ok u" "unat u = payout_total (owed_payouts t)"
    using checked_sum_fits [of "map snd (owed_payouts t)"] sum b64 by (auto simp: unconfirmed_payout_total_def payout_total_snd)
  show ?thesis
    using c u sum ok by (auto simp: payouts_ok_def pending_payouts_def)
qed

lemma option_triple: "x \<noteq> None \<Longrightarrow> \<exists>a b c. x = Some (a, b, c)"
  by (cases x) auto

lemma already_paid_unchanged:
  assumes "bm_get (bd_tasks b) i = Some t" "is_recipient_paid t r" "task_ok i t"
  shows "snd (mark_recipient_paid now i r amount b) = b"
proof (cases "tk_status t \<in> {Verified, Submitted}")
  case True
  have "\<exists>x. pay_kind t r = Ok None \<or> pay_kind t r = Err x"
  proof (rule ccontr)
    assume no: "\<not> ?thesis"
    have "pay_kind t r \<noteq> Panic" "pay_kind t r \<noteq> Cutoff"
      by (auto simp: pay_kind_def Let_def split: task_kind.splits option.splits)
    with no obtain kind cr full where "pay_kind t r = Ok (Some (kind, cr, full))"
      by (cases "pay_kind t r") (auto dest: option_triple)
    from pay_kind_cases [OF assms(3) True this refl] assms(2) show False by (auto simp: pays_def)
  qed
  then show ?thesis using assms(1) by (auto simp: mark_recipient_paid_def)
next
  case False
  then show ?thesis using assms(1) by (auto simp: mark_recipient_paid_def)
qed

lemma pay_kind_repeat: "pay_kind t r = Ok None \<Longrightarrow> is_recipient_paid t r"
proof (cases "tk_kind t")
  case (Disputable k)
  assume "pay_kind t r = Ok None"
  with Disputable find_in show ?thesis
    by (fastforce simp: pay_kind_def is_recipient_paid_def list_ex_iff Let_def split: option.splits if_splits)
qed (auto simp: pay_kind_def is_recipient_paid_def Let_def split: option.splits if_splits)

lemma mark_paid_marks:
  assumes "tasks_ok (bd_tasks b)" "mark_recipient_paid now i r amount b = (Ok full, b')"
  shows "\<exists>t. bm_get (bd_tasks b') i = Some t \<and> is_recipient_paid t r"
  using assms
proof (cases rule: mark_paid_cases)
  case unchanged
  then show ?thesis using pay_kind_repeat by blast
next
  case (paid t t' cr)
  then show ?thesis by (auto simp: pays_def)
qed

text \<open>
  C13: Nobody is paid twice.  Once \<open>mark_recipient_paid\<close> has succeeded for a recipient of a task,
  that recipient counts as paid for it, and whatever happens on the board afterwards, recording
  a payment of that task to the same recipient again changes nothing: no reputation, no status.
\<close>

theorem recipient_paid_once:
  assumes "board_reachable b" "mark_recipient_paid now i r amount b = (Ok full, b1)"
    and "reaches board_allowed run_board b1 b2"
  shows "snd (mark_recipient_paid now' i r amount' b2) = b2
    \<and> map_option (\<lambda>t. is_recipient_paid t r) (get_task b2 i) = Some True"
proof -
  have inv: "board_inv b" by (rule board_reachable_ok(1) [OF assms(1)])
  have b1: "b1 = run_board (MarkRecipientPaid now i r amount) b" using assms(2) by simp
  have inv1: "board_inv b1" unfolding b1 by (rule board.inv_run [OF inv]) simp
  obtain t1 where t1: "bm_get (bd_tasks b1) i = Some t1" "is_recipient_paid t1 r"
    using mark_paid_marks [OF _ assms(2)] inv by (auto simp: board_inv_def)
  have "board_evolves b1 b2" by (rule board.reaches_rel [OF assms(3) inv1])
  then obtain t2 where t2: "bm_get (bd_tasks b2) i = Some t2" "is_recipient_paid t2 r"
    using t1 unfolding board_evolves_def task_evolves_def by blast
  have "board_inv b2" by (rule board.reaches_inv [OF assms(3) inv1])
  then have "task_ok i t2" using t2(1) by (simp add: board_inv_def tasks_ok_def)
  then have "snd (mark_recipient_paid now' i r amount' b2) = b2" using already_paid_unchanged t2 by blast
  then show ?thesis using t2 by (simp add: get_task_def)
qed

text \<open>
  C14: The status diagram.  Whatever call is made on a board the hub reaches, every task on it
  survives with its bounty and poster, and its status stays or moves along an edge of the
  diagram; once it is verified, the list of who gets how much is never changed again.
\<close>

theorem task_status_diagram:
  assumes "board_reachable b" "board_allowed c b" "get_task b i = Some t"
  shows "case get_task (run_board c b) i of
      None \<Rightarrow> False
    | Some t' \<Rightarrow> may_follow (tk_status t) (tk_status t') \<and> tk_bounty t' = tk_bounty t \<and> tk_poster t' = tk_poster t
        \<and> (if resolved (tk_status t) then allocated_payouts t' = allocated_payouts t else True)"
proof -
  have "tasks_follow b (run_board c b)"
    using run_board_keeps [OF board_reachable_ok(1) [OF assms(1)] assms(2)] by simp
  then obtain t' where "get_task (run_board c b) i = Some t'" "task_step t t'"
    using assms(3) unfolding tasks_follow_def get_task_def by blast
  then show ?thesis by (simp add: task_step_def task_evolves_def)
qed

text \<open>The escrow a task names can no longer be confirmed, and no other task names it.\<close>

lemma named_escrow_spent:
  assumes inv: "board_inv b" and t: "get_task b i = Some t" "tk_escrow_id t = Some e"
  shows "(\<exists>err. confirm_escrow fresh clock e observed now b = (Err err, b))
    \<and> {j. map_option tk_escrow_id (get_task b j) = Some (Some e)} = {i}"
proof -
  have ok: "escrow_ok b" using inv by (simp add: board_inv_def)
  then have "spent_deposit b e" using t unfolding escrow_ok_def get_task_def by blast
  then obtain d where d: "bm_get (bd_pending_deposits b) e = Some d" "pd_status d \<noteq> Reserved"
    by (auto simp: spent_deposit_def split: option.splits)
  then have "\<exists>err. confirm_escrow fresh clock e observed now b = (Err err, b)"
    by (cases "pd_purpose d") (auto simp: confirm_escrow_def check_deposit_def)
  moreover have only: "j = i" if "get_task b j = Some u" "tk_escrow_id u = Some e" for j u
    using ok t that unfolding escrow_ok_def get_task_def by blast
  have "{j. map_option tk_escrow_id (get_task b j) = Some (Some e)} = {i}"
    using t by (auto dest: only)
  ultimately show ?thesis by blast
qed

text \<open>
  Nobody works for themselves.  On every board the hub reaches, the poster of a task is
  not its claimant (for a hash task), not among its assignees (for a vote) and not among its
  answers (for a contest); a vote never has more assignees than it asked for (one at least),
  and a contest holds at most ten answers, of distinct keys.
\<close>

theorem poster_never_works_own_task:
  assumes "board_reachable b" "get_task b i = Some t"
  shows "case tk_kind t of
      HashMatch _ \<Rightarrow> tk_claimant t \<noteq> Some (tk_poster t)
    | Consensus k \<Rightarrow> \<not> bm_contains (tk_poster t) (cs_assignees k)
        \<and> length (cs_assignees k) \<le> max 1 (unat (cs_num_assignees k))
    | Disputable k \<Rightarrow> tk_poster t \<notin> set (map cn_pubkey (ds_answers k))
        \<and> length (ds_answers k) \<le> 10 \<and> distinct (map cn_pubkey (ds_answers k))"
  using board_reachable_ok(2) [OF assms]
  by (auto simp: task_ok_def kind_ok_def MAX_CONTEST_ANSWERS_def split: task_kind.splits)

lemma owed_payouts_submitted:
  "tk_status t = Verified \<Longrightarrow> owed_payouts (t\<lparr>tk_status := Submitted\<rparr>) = owed_payouts t"
  by (auto simp: owed_payouts_def allocated_payouts_def is_recipient_paid_def dispute_winner_def
      pending_payouts_recipient_hint_def intro!: filter_cong split: task_kind.splits option.splits dispute_resolution.splits)

text \<open>
  Recording an attempt for a payout takes it off the list of payouts to send and adds
  nothing to that list, so the same leg is not sent again while its attempt stands; the task
  becomes \<open>Submitted\<close> exactly when it was \<open>Verified\<close> and nothing is left to send.
\<close>

theorem record_payout_attempt_guards_resend:
  assumes "get_task b i = Some t" "pa_task_id a = i"
  shows "unsubmitted_payouts (record_payout_attempt a b) i
         = filter (\<lambda>p. fst p \<noteq> pa_recipient a) (unsubmitted_payouts b i)
     \<and> map_option tk_status (get_task (record_payout_attempt a b) i)
         = Some (if tk_status t = Verified \<and> unsubmitted_payouts (record_payout_attempt a b) i = [] then Submitted else tk_status t)"
proof -
  let ?b1 = "restore_payout_attempt a b"
  have b1: "unsubmitted_payouts ?b1 i = filter (\<lambda>p. fst p \<noteq> pa_recipient a) (unsubmitted_payouts b i)"
    using assms by (simp add: unsubmitted_payouts_def restore_payout_attempt_def get_task_def bm_contains_get
        case_prod_unfold conj_commute cong: filter_cong) (auto intro!: filter_cong)
  have t1: "bm_get (bd_tasks ?b1) i = Some t" using assms(1) by (simp add: get_task_def restore_payout_attempt_def)
  have sub: "unsubmitted_payouts (set_task i (t\<lparr>tk_status := Submitted\<rparr>) ?b1) i = unsubmitted_payouts ?b1 i" if "tk_status t = Verified"
    using that t1 by (simp add: unsubmitted_payouts_def set_task_def pending_payouts_def owed_payouts_submitted)
  show ?thesis
    using b1 t1 sub assms(2) by (auto simp: record_payout_attempt_def Let_def get_task_def set_task_def)
qed

lemma find_utxo_none: "find_utxo P w us = None \<longleftrightarrow> \<not> list_ex (\<lambda>(_, o'). output_hash P o' = w) us"
  by (auto simp: find_utxo_def find_None_iff list_ex_iff)

lemma source_scan:
  "fold (\<lambda>w (v, m). case find_utxo P w us of None \<Rightarrow> (True, m) | Some (marked, _) \<Rightarrow> (v, m \<or> marked)) ws (v0, m0)
     = (v0 \<or> list_ex (\<lambda>w. find_utxo P w us = None) ws,
        m0 \<or> list_ex (\<lambda>w. case find_utxo P w us of None \<Rightarrow> False | Some (marked, _) \<Rightarrow> marked) ws)"
  by (induction ws arbitrary: v0 m0) (auto split: option.splits)

text \<open>
  What a payout's fate is decided on.  It counts as confirmed exactly when the recipient
  holds the very output; it counts as never landed, the only verdict that allows a resend, only
  when that output is absent, inputs were recorded, and the node still reports every one of
  them as unspent and unmarked.  A vanished or unrecorded input is never taken as proof of loss.
\<close>

theorem resolve_against_evidence:
  "case resolve_against P out_hash spent recipient source of
     PConfirmed \<Rightarrow> list_ex (\<lambda>(_, o'). output_hash P o' = out_hash) recipient
   | NeverLanded \<Rightarrow> \<not> list_ex (\<lambda>(_, o'). output_hash P o' = out_hash) recipient \<and> spent \<noteq> []
       \<and> list_all (\<lambda>w. list_ex (\<lambda>(marked, o'). output_hash P o' = w \<and> \<not> marked) source) spent
   | HeldInMempool \<Rightarrow> \<not> list_ex (\<lambda>(_, o'). output_hash P o' = out_hash) recipient
       \<and> list_ex (\<lambda>w. list_ex (\<lambda>(marked, o'). output_hash P o' = w \<and> marked) source) spent
   | Ambiguous \<Rightarrow> \<not> list_ex (\<lambda>(_, o'). output_hash P o' = out_hash) recipient
       \<and> (spent = [] \<or> list_ex (\<lambda>w. \<not> list_ex (\<lambda>(_, o'). output_hash P o' = w) source) spent)"
proof -
  have found: "list_ex (\<lambda>(marked, o'). output_hash P o' = w \<and> marked = m) source" if "find_utxo P w source = Some (m, o')" for w m o'
    using find_in [OF that [unfolded find_utxo_def]] by (auto simp: list_ex_iff)
  show ?thesis
  proof (cases "list_ex (\<lambda>(_, o'). output_hash P o' = out_hash) recipient \<or> spent = []
      \<or> list_ex (\<lambda>w. find_utxo P w source = None) spent")
    case True
    then show ?thesis by (auto simp: resolve_against_def source_scan find_utxo_none)
  next
    case False
    define scanned where "scanned \<longleftrightarrow> list_ex (\<lambda>w. case find_utxo P w source of None \<Rightarrow> False | Some (m, _) \<Rightarrow> m) spent"
    have r: "resolve_against P out_hash spent recipient source = (if scanned then HeldInMempool else NeverLanded)"
      using False by (simp add: resolve_against_def source_scan scanned_def)
    have "list_ex (\<lambda>w. list_ex (\<lambda>(marked, o'). output_hash P o' = w \<and> marked) source) spent" if scanned
    proof -
      from that obtain w o' where w: "w \<in> set spent" and f: "find_utxo P w source = Some (True, o')"
        by (auto simp: scanned_def list_ex_iff split: option.splits)
      show ?thesis using found [OF f] w by (simp add: list_ex_iff) blast
    qed
    moreover have "list_all (\<lambda>w. list_ex (\<lambda>(marked, o'). output_hash P o' = w \<and> \<not> marked) source) spent" if ns: "\<not> scanned"
      unfolding list_all_iff
    proof
      fix w assume w: "w \<in> set spent"
      with False obtain m o' where f: "find_utxo P w source = Some (m, o')" by (auto simp: list_ex_iff)
      with ns w have "\<not> m" by (force simp: scanned_def list_ex_iff)
      with found [OF f] show "list_ex (\<lambda>(marked, o'). output_hash P o' = w \<and> \<not> marked) source" by simp
    qed
    ultimately show ?thesis using False r by simp
  qed
qed

end
