(* ===== verification/Hub_Exchange.thy ===== *)
theory Hub_Exchange
  imports Hub_Types Itx_Machine
begin

text \<open>
  The exchange of \<open>hub/src/board.rs\<close>: accounts, deposits and withdrawals, the order book, and
  matching in price-time priority.  The ids \<open>Uuid::new_v4()\<close> yields are an argument \<open>fresh\<close>, the
  order's own first and then one per trade.  A placement that panics leaves the board as it
  was, because the handler runs it on the staged copy that \<open>stage_order\<close> makes.
\<close>

subsection \<open>Accounts\<close>

definition restore_exchange_account :: "public_key \<Rightarrow> exchange_account \<Rightarrow> task_board \<Rightarrow> task_board" where
  "restore_exchange_account k a b = b\<lparr>bd_exchange_accounts := bm_insert k a (bd_exchange_accounts b)\<rparr>"

definition account_add_base :: "u64 \<Rightarrow> exchange_account \<Rightarrow> exchange_account board_result" where
  "account_add_base amount a =
     obind (plus_u (ex_base_balance a) amount) (\<lambda>v. Ok (a\<lparr>ex_base_balance := v\<rparr>))"

definition account_add_compute :: "u64 \<Rightarrow> exchange_account \<Rightarrow> exchange_account board_result" where
  "account_add_compute amount a =
     obind (plus_u (ex_compute_balance a) amount) (\<lambda>v. Ok (a\<lparr>ex_compute_balance := v\<rparr>))"

definition update_account ::
  "public_key \<Rightarrow> (exchange_account \<Rightarrow> exchange_account board_result) \<Rightarrow> task_board \<Rightarrow> unit board_result \<times> task_board" where
  "update_account k f b =
     with_check (f (exchange_account_of b k)) b (\<lambda>a. (Ok (), restore_exchange_account k a b))"

definition credit_compute :: "public_key \<Rightarrow> u64 \<Rightarrow> task_board \<Rightarrow> unit board_result \<times> task_board" where
  "credit_compute k amount = update_account k (account_add_compute amount)"

definition credit_base :: "public_key \<Rightarrow> u64 \<Rightarrow> task_board \<Rightarrow> unit board_result \<times> task_board" where
  "credit_base k amount = update_account k (account_add_base amount)"

definition credit_back_withdrawal :: "public_key \<Rightarrow> u64 \<Rightarrow> task_board \<Rightarrow> unit board_result \<times> task_board" where
  "credit_back_withdrawal k amount = update_account k (account_add_base amount)"

text \<open>\<open>entry(owner).or_default()\<close> creates the account even when the debit is then refused.\<close>

definition debit_for_withdrawal :: "public_key \<Rightarrow> u64 \<Rightarrow> task_board \<Rightarrow> unit board_result \<times> task_board" where
  "debit_for_withdrawal owner amount b =
     (if amount = 0 then (Err ZeroWithdrawal, b)
      else let account = exchange_account_of b owner;
               available = saturating_sub (ex_base_balance account) (ex_locked_base account)
           in if available < amount
              then (Err (InsufficientBalance available amount), restore_exchange_account owner account b)
              else (Ok (), restore_exchange_account owner
                      (account\<lparr>ex_base_balance := ex_base_balance account - amount\<rparr>) b))"

definition confirm_exchange_deposit ::
  "uuid \<Rightarrow> u64 \<Rightarrow> u64 \<Rightarrow> instant \<Rightarrow> task_board \<Rightarrow> (public_key \<times> u64) board_result \<times> task_board" where
  "confirm_exchange_deposit deposit_id observed_amount network_fee now b =
     (case bm_get (bd_pending_deposits b) deposit_id of
        None \<Rightarrow> (Err EscrowNotFound, b)
      | Some deposit \<Rightarrow>
          if pd_purpose deposit \<noteq> FundExchangeAccount then (Err WrongEscrowPurpose, b)
          else if pd_status deposit \<noteq> Reserved then (Err EscrowNotReserved, b)
          else if now > pd_expires_at deposit then (Err EscrowExpired, b)
          else if observed_amount < pd_required_amount deposit
          then (Err (EscrowUnderfunded (pd_required_amount deposit) observed_amount), b)
          else let credited = saturating_sub observed_amount network_fee;
                   b1 = b\<lparr>bd_pending_deposits :=
                            bm_insert deposit_id (deposit\<lparr>pd_status := Consumed\<rparr>) (bd_pending_deposits b)\<rparr>
               in with_step (credit_base (pd_depositor deposit) credited b1)
                    (\<lambda>_ b2. (Ok (pd_depositor deposit, credited), b2)))"

definition unswept_exchange_deposits :: "task_board \<Rightarrow> uuid list" where
  "unswept_exchange_deposits b =
     map pd_id (filter (\<lambda>d. pd_status d = Consumed \<and> pd_purpose d = FundExchangeAccount)
                  (bm_values (bd_pending_deposits b)))"

definition exchange_liabilities :: "task_board \<Rightarrow> u64" where
  "exchange_liabilities b =
     fold (\<lambda>x acc. saturating_add acc x)
       (map ex_base_balance (bm_values (bd_exchange_accounts b))
        @ map py_amount (filter (\<lambda>p. py_status p \<noteq> PayConfirmed \<and>
              (case py_purpose p of PayWithdrawal _ \<Rightarrow> True | _ \<Rightarrow> False)) (bm_values (bd_payments b)))) 0"

subsection \<open>The book\<close>

definition opposite :: "side \<Rightarrow> side" where
  "opposite s = (case s of Buy \<Rightarrow> Sell | Sell \<Rightarrow> Buy)"

definition price_crosses :: "side \<Rightarrow> u64 \<Rightarrow> u64 \<Rightarrow> bool" where
  "price_crosses taker_side taker_price resting_price =
     (case taker_side of Buy \<Rightarrow> resting_price \<le> taker_price | Sell \<Rightarrow> resting_price \<ge> taker_price)"

definition matches_taker :: "order \<Rightarrow> order \<Rightarrow> bool" where
  "matches_taker taker o' \<longleftrightarrow> or_status o' = OOpen \<and> or_side o' = opposite (or_side taker)
     \<and> or_owner o' \<noteq> or_owner taker \<and> price_crosses (or_side taker) (or_price taker) (or_price o')"

text \<open>Best first: lowest ask or highest bid, then earliest.\<close>

definition priority :: "side \<Rightarrow> order \<Rightarrow> int \<times> instant" where
  "priority resting_side o' =
     ((case resting_side of Sell \<Rightarrow> uint (or_price o') | Buy \<Rightarrow> - uint (or_price o')), or_created_at o')"

definition best_resting_match :: "task_board \<Rightarrow> order \<Rightarrow> uuid option" where
  "best_resting_match b taker =
     (case sort_key (priority (opposite (or_side taker)))
             (filter (matches_taker taker) (bm_values (bd_orders b))) of
        [] \<Rightarrow> None | o' # _ \<Rightarrow> Some (or_id o'))"

definition get_order :: "task_board \<Rightarrow> uuid \<Rightarrow> order option" where
  "get_order b order_id = bm_get (bd_orders b) order_id"

definition order_book :: "task_board \<Rightarrow> order list \<times> order list" where
  "order_book b =
     (let opened = filter (\<lambda>o'. or_status o' = OOpen) (bm_values (bd_orders b))
      in (sort_key (priority Buy) (filter (\<lambda>o'. or_side o' = Buy) opened),
          sort_key (priority Sell) (filter (\<lambda>o'. or_side o' = Sell) opened)))"

definition restore_order :: "order \<Rightarrow> task_board \<Rightarrow> task_board" where
  "restore_order o' b = b\<lparr>bd_orders := bm_insert (or_id o') o' (bd_orders b)\<rparr>"

definition restore_trade :: "trade \<Rightarrow> task_board \<Rightarrow> task_board" where
  "restore_trade t b = b\<lparr>bd_trades := bm_insert (tr_id t) t (bd_trades b)\<rparr>"

definition all_trades_newest_first :: "task_board \<Rightarrow> trade list" where
  "all_trades_newest_first b = sort_key (\<lambda>t. - tr_executed_at t) (bm_values (bd_trades b))"

definition stage_order :: "task_board \<Rightarrow> public_key \<Rightarrow> side \<Rightarrow> u64 \<Rightarrow> public_key \<Rightarrow> task_board" where
  "stage_order b owner sd price fee_sink =
     fold (\<lambda>o' staged. restore_order o'
             (restore_exchange_account (or_owner o') (exchange_account_of b (or_owner o')) staged))
       (filter (\<lambda>o'. or_status o' = OOpen \<and> or_owner o' \<noteq> owner \<and> or_side o' \<noteq> sd
                    \<and> price_crosses sd price (or_price o')) (bm_values (bd_orders b)))
       (restore_exchange_account fee_sink (exchange_account_of b fee_sink)
          (restore_exchange_account owner (exchange_account_of b owner) task_board_new))"

subsection \<open>Placing an order\<close>

definition lock_for_order :: "side \<Rightarrow> u64 \<Rightarrow> u64 \<Rightarrow> exchange_account \<Rightarrow> exchange_account board_result" where
  "lock_for_order sd notional quantity a =
     (case sd of
        Buy \<Rightarrow>
          let available = saturating_sub (ex_base_balance a) (ex_locked_base a)
          in if available < notional then Err (InsufficientBalance available notional)
             else obind (plus_u (ex_locked_base a) notional) (\<lambda>l. Ok (a\<lparr>ex_locked_base := l\<rparr>))
      | Sell \<Rightarrow>
          let available = saturating_sub (ex_compute_balance a) (ex_locked_compute a)
          in if available < quantity then Err (InsufficientBalance available quantity)
             else obind (plus_u (ex_locked_compute a) quantity) (\<lambda>l. Ok (a\<lparr>ex_locked_compute := l\<rparr>)))"

definition fill_resting :: "u64 \<Rightarrow> order \<Rightarrow> order board_result" where
  "fill_resting fill_qty r =
     obind (plus_u (or_filled r) fill_qty) (\<lambda>f.
       Ok (r\<lparr>or_filled := f, or_status := (if f \<ge> or_quantity r then Filled else or_status r)\<rparr>))"

definition debit_buyer :: "u64 \<Rightarrow> u64 \<Rightarrow> u64 \<Rightarrow> exchange_account \<Rightarrow> exchange_account board_result" where
  "debit_buyer unlock notional compute_credit a =
     obind (minus_u (ex_locked_base a) unlock) (\<lambda>l.
     obind (minus_u (ex_base_balance a) notional) (\<lambda>v.
     obind (plus_u (ex_compute_balance a) compute_credit) (\<lambda>c.
       Ok (a\<lparr>ex_locked_base := l, ex_base_balance := v, ex_compute_balance := c\<rparr>))))"

definition credit_seller :: "u64 \<Rightarrow> u64 \<Rightarrow> exchange_account \<Rightarrow> exchange_account board_result" where
  "credit_seller fill_qty base_credit a =
     obind (minus_u (ex_locked_compute a) fill_qty) (\<lambda>l.
     obind (minus_u (ex_compute_balance a) fill_qty) (\<lambda>c.
     obind (plus_u (ex_base_balance a) base_credit) (\<lambda>v.
       Ok (a\<lparr>ex_locked_compute := l, ex_compute_balance := c, ex_base_balance := v\<rparr>))))"

definition taker_fee_of :: "side \<Rightarrow> u64 \<Rightarrow> u64 \<Rightarrow> u64 board_result" where
  "taker_fee_of taker_side fill_qty notional =
     obind (times_u (case taker_side of Buy \<Rightarrow> fill_qty | Sell \<Rightarrow> notional) TAKER_FEE_BPS) (\<lambda>x.
       Ok (x div 10000))"

text \<open>The two account updates of one fill.\<close>

definition settle_fill ::
  "side \<Rightarrow> public_key \<Rightarrow> u64 \<Rightarrow> public_key \<Rightarrow> u64 \<Rightarrow> u64 \<Rightarrow> task_board \<Rightarrow> (u64 \<times> task_board) board_result" where
  "settle_fill taker_side buy_owner buy_price sell_owner execution_price fill_qty b =
     obind (times_u execution_price fill_qty) (\<lambda>notional.
     obind (taker_fee_of taker_side fill_qty notional) (\<lambda>taker_fee.
     obind (times_u buy_price fill_qty) (\<lambda>unlock.
     obind (if taker_side = Buy then minus_u fill_qty taker_fee else Ok fill_qty) (\<lambda>compute_credit.
     obind (debit_buyer unlock notional compute_credit (exchange_account_of b buy_owner)) (\<lambda>buyer.
     let b1 = restore_exchange_account buy_owner buyer b
     in obind (if taker_side = Sell then minus_u notional taker_fee else Ok notional) (\<lambda>base_credit.
        obind (credit_seller fill_qty base_credit (exchange_account_of b1 sell_owner)) (\<lambda>seller.
          Ok (taker_fee, restore_exchange_account sell_owner seller b1))))))))"

definition fill_once ::
  "instant \<Rightarrow> uuid \<Rightarrow> order \<Rightarrow> order \<Rightarrow> task_board \<Rightarrow> (order \<times> trade \<times> task_board) board_result" where
  "fill_once now trade_id taker resting b =
     obind (minus_u (or_quantity taker) (or_filled taker)) (\<lambda>taker_left.
     obind (minus_u (or_quantity resting) (or_filled resting)) (\<lambda>resting_left.
     let fill_qty = min taker_left resting_left; execution_price = or_price resting
     in obind (fill_resting fill_qty resting) (\<lambda>resting'.
        obind (plus_u (or_filled taker) fill_qty) (\<lambda>f.
        let b1 = restore_order resting' b; taker' = taker\<lparr>or_filled := f\<rparr>;
            (buy, sell) = (case or_side taker of Buy \<Rightarrow> (taker, resting) | Sell \<Rightarrow> (resting, taker))
        in obind (settle_fill (or_side taker) (or_owner buy) (or_price buy) (or_owner sell)
                    execution_price fill_qty b1) (\<lambda>(taker_fee, b2).
             Ok (taker',
                 \<lparr>tr_id = trade_id, tr_buy_order_id = or_id buy, tr_sell_order_id = or_id sell,
                  tr_buyer = or_owner buy, tr_seller = or_owner sell, tr_price = execution_price,
                  tr_quantity = fill_qty, tr_executed_at = now, tr_taker_side = or_side taker,
                  tr_taker_fee = taker_fee\<rparr>, b2))))))"

fun match_loop ::
  "nat \<Rightarrow> instant \<Rightarrow> (nat \<Rightarrow> uuid) \<Rightarrow> order \<Rightarrow> trade list \<Rightarrow> task_board
     \<Rightarrow> (order \<times> trade list \<times> task_board) board_result" where
  "match_loop 0 now fresh taker trades b = Cutoff"
| "match_loop (Suc fuel) now fresh taker trades b =
     (if or_filled taker < or_quantity taker
      then case best_resting_match b taker of
             None \<Rightarrow> Ok (taker, trades, b)
           | Some resting_id \<Rightarrow>
               obind (expect (bm_get (bd_orders b) resting_id)) (\<lambda>resting.
               obind (fill_once now (fresh (Suc (length trades))) taker resting b) (\<lambda>(taker', t, b').
                 match_loop fuel now fresh taker' (trades @ [t]) b'))
      else Ok (taker, trades, b))"

definition place_order ::
  "instant \<Rightarrow> (nat \<Rightarrow> uuid) \<Rightarrow> public_key \<Rightarrow> side \<Rightarrow> u64 \<Rightarrow> u64 \<Rightarrow> task_board
     \<Rightarrow> (order \<times> trade list) board_result \<times> task_board" where
  "place_order now fresh owner sd price quantity b =
     (if price = 0 \<or> quantity = 0 then (Err InvalidOrder, b)
      else with_check (ok_or OrderNotionalOverflow (checked_mul price quantity)) b (\<lambda>notional.
        let account = exchange_account_of b owner
        in with_check (lock_for_order sd notional quantity account)
             (restore_exchange_account owner account b) (\<lambda>locked.
           let b1 = restore_exchange_account owner locked b;
               taker = \<lparr>or_id = fresh 0, or_owner = owner, or_side = sd, or_price = price,
                        or_quantity = quantity, or_filled = 0, or_status = OOpen, or_created_at = now\<rparr>
           in with_check (match_loop (Suc (length (bd_orders b1))) now fresh taker [] b1) b (\<lambda>(taker', trades, b2).
              let taker'' = (if or_filled taker' \<ge> or_quantity taker' then taker'\<lparr>or_status := Filled\<rparr> else taker')
              in (Ok (taker'', trades), fold restore_trade trades (restore_order taker'' b2))))))"

definition cancel_order :: "uuid \<Rightarrow> public_key \<Rightarrow> task_board \<Rightarrow> order board_result \<times> task_board" where
  "cancel_order order_id caller b =
     (case bm_get (bd_orders b) order_id of
        None \<Rightarrow> (Err OrderNotFound, b)
      | Some o' \<Rightarrow>
          if or_owner o' \<noteq> caller then (Err NotOrderOwner, b)
          else if or_status o' \<noteq> OOpen then (Err OrderNotOpen, b)
          else with_check (minus_u (or_quantity o') (or_filled o')) b (\<lambda>remaining.
            let cancelled = o'\<lparr>or_status := Cancelled\<rparr>;
                b1 = b\<lparr>bd_orders := bm_insert order_id cancelled (bd_orders b)\<rparr>;
                account = exchange_account_of b1 (or_owner o')
            in with_check
                 (case or_side o' of
                    Buy \<Rightarrow> obind (times_u (or_price o') remaining) (\<lambda>x.
                           obind (minus_u (ex_locked_base account) x) (\<lambda>l. Ok (account\<lparr>ex_locked_base := l\<rparr>)))
                  | Sell \<Rightarrow> obind (minus_u (ex_locked_compute account) remaining) (\<lambda>l.
                             Ok (account\<lparr>ex_locked_compute := l\<rparr>))) b1 (\<lambda>a.
                 (Ok cancelled, restore_exchange_account (or_owner o') a b1))))"

end
