(* ===== verification/Hub_Ledger.thy ===== *)
theory Hub_Ledger
  imports Hub_Exchange
begin

text \<open>
  The exchange ledger's invariant: each account's locked amounts are exactly what its owner's
  open orders reserve, and never exceed the balances they are locked from.  Placing and
  cancelling orders keep it, no arithmetic leaves 64 bits, and value moves between accounts
  without being created: what the accounts lose is the taker fee the trades record.
\<close>

subsection \<open>Totals over accounts\<close>

definition acct_total :: "(exchange_account \<Rightarrow> nat) \<Rightarrow> task_board \<Rightarrow> nat" where
  "acct_total f b = bm_total f (bd_exchange_accounts b)"

definition base_of :: "exchange_account \<Rightarrow> nat" where "base_of a = unat (ex_base_balance a)"
definition compute_of :: "exchange_account \<Rightarrow> nat" where "compute_of a = unat (ex_compute_balance a)"

definition zero_on_empty :: "(exchange_account \<Rightarrow> nat) \<Rightarrow> bool" where
  "zero_on_empty f \<longleftrightarrow> f empty_account = 0"

lemma zero_on_empty_balances [simp]: "zero_on_empty base_of" "zero_on_empty compute_of"
  by (simp_all add: zero_on_empty_def base_of_def compute_of_def empty_account_def)

lemma account_of_restore [simp]:
  "exchange_account_of (restore_exchange_account k a b) k' = (if k' = k then a else exchange_account_of b k')"
  by (simp add: exchange_account_of_def restore_exchange_account_def)

lemma restore_account_frame [simp]:
  "bd_orders (restore_exchange_account k a b) = bd_orders b"
  "bd_trades (restore_exchange_account k a b) = bd_trades b"
  "bm_wf (bd_exchange_accounts b) \<Longrightarrow> bm_wf (bd_exchange_accounts (restore_exchange_account k a b))"
  by (simp_all add: restore_exchange_account_def)

lemma restore_order_frame [simp]:
  "bd_exchange_accounts (restore_order o' b) = bd_exchange_accounts b"
  "bd_orders (restore_order o' b) = bm_insert (or_id o') o' (bd_orders b)"
  "exchange_account_of (restore_order o' b) k = exchange_account_of b k"
  "acct_total f (restore_order o' b) = acct_total f b"
  by (simp_all add: restore_order_def exchange_account_of_def acct_total_def)

lemma acct_total_restore:
  assumes "bm_wf (bd_exchange_accounts b)" "zero_on_empty f"
  shows "acct_total f (restore_exchange_account k a b) + f (exchange_account_of b k) = acct_total f b + f a"
  using bm_total_insert [OF assms(1), of f k a] assms(2)
  by (auto simp: acct_total_def restore_exchange_account_def exchange_account_of_def zero_on_empty_def
      split: option.splits)

lemma acct_le_total:
  assumes "bm_wf (bd_exchange_accounts b)" "zero_on_empty f"
  shows "f (exchange_account_of b k) \<le> acct_total f b"
  using bm_total_get_le [OF assms(1), of k _ f] assms(2)
  by (auto simp: acct_total_def exchange_account_of_def zero_on_empty_def split: option.splits)

lemma acct_pair_le_total:
  assumes "bm_wf (bd_exchange_accounts b)" "zero_on_empty f" "k \<noteq> k'"
  shows "f (exchange_account_of b k) + f (exchange_account_of b k') \<le> acct_total f b"
proof -
  let ?b = "restore_exchange_account k empty_account b"
  have "f (exchange_account_of ?b k') \<le> acct_total f ?b"
    by (rule acct_le_total) (use assms in auto)
  moreover have "acct_total f ?b + f (exchange_account_of b k) = acct_total f b"
    using acct_total_restore [OF assms(1,2), of k empty_account] assms(2) by (simp add: zero_on_empty_def)
  ultimately show ?thesis using assms(3) by simp
qed

subsection \<open>Locks\<close>

definition lock_unit :: "side \<Rightarrow> u64 \<Rightarrow> nat" where
  "lock_unit sd price = (case sd of Buy \<Rightarrow> unat price | Sell \<Rightarrow> 1)"

definition open_lock :: "side \<Rightarrow> public_key \<Rightarrow> order \<Rightarrow> nat" where
  "open_lock sd k o' =
     (if or_status o' = OOpen \<and> or_side o' = sd \<and> or_owner o' = k
      then lock_unit sd (or_price o') * (unat (or_quantity o') - unat (or_filled o'))
      else 0)"

text \<open>\<open>ts\<close> is the order being placed, when there is one: it holds a lock but is not in the book yet.\<close>

definition locked_total :: "side \<Rightarrow> public_key \<Rightarrow> order list \<Rightarrow> task_board \<Rightarrow> nat" where
  "locked_total sd k ts b = bm_total (open_lock sd k) (bd_orders b) + sum_list (map (open_lock sd k) ts)"

definition order_ok :: "order \<Rightarrow> bool" where
  "order_ok o' \<longleftrightarrow> 0 < or_price o' \<and> unat (or_price o') * unat (or_quantity o') < 2 ^ 64
     \<and> or_filled o' \<le> or_quantity o'"

definition account_ok :: "order list \<Rightarrow> task_board \<Rightarrow> public_key \<Rightarrow> bool" where
  "account_ok ts b k \<longleftrightarrow>
     (let a = exchange_account_of b k
      in unat (ex_locked_base a) = locked_total Buy k ts b \<and> ex_locked_base a \<le> ex_base_balance a
         \<and> unat (ex_locked_compute a) = locked_total Sell k ts b \<and> ex_locked_compute a \<le> ex_compute_balance a)"

definition exchange_inv :: "order list \<Rightarrow> task_board \<Rightarrow> bool" where
  "exchange_inv ts b \<longleftrightarrow>
     bm_wf (bd_exchange_accounts b) \<and> bm_wf (bd_orders b)
     \<and> (\<forall>i o'. bm_get (bd_orders b) i = Some o' \<longrightarrow>
          or_id o' = i \<and> order_ok o' \<and> (or_status o' = OOpen \<longrightarrow> or_filled o' < or_quantity o'))
     \<and> (\<forall>o' \<in> set ts. order_ok o') \<and> (\<forall>k. account_ok ts b k)"

text \<open>Room for a fee computation: ten times all the balances fit a \<open>u64\<close>.\<close>

definition totals_fit :: "task_board \<Rightarrow> bool" where
  "totals_fit b \<longleftrightarrow> 10 * acct_total base_of b < 2 ^ 64 \<and> 10 * acct_total compute_of b < 2 ^ 64"

lemma locked_total_restore_account [simp]:
  "locked_total sd k ts (restore_exchange_account k' a b) = locked_total sd k ts b"
  by (simp add: locked_total_def)

lemma locked_total_restore_order:
  assumes "bm_wf (bd_orders b)"
  shows "locked_total sd k ts (restore_order o' b)
           + (case bm_get (bd_orders b) (or_id o') of None \<Rightarrow> 0 | Some x \<Rightarrow> open_lock sd k x)
       = locked_total sd k ts b + open_lock sd k o'"
  using bm_total_insert [OF assms, of "open_lock sd k" "or_id o'" o'] by (simp add: locked_total_def)

lemma open_lock_le_total:
  "bm_wf (bd_orders b) \<Longrightarrow> bm_get (bd_orders b) i = Some o' \<Longrightarrow> open_lock sd k o' + sum_list (map (open_lock sd k) ts) \<le> locked_total sd k ts b"
  using bm_total_get_le [of "bd_orders b" i o' "open_lock sd k"] by (simp add: locked_total_def)

subsection \<open>Settling one fill\<close>

lemma taker_fee_bound:
  assumes "taker_fee_of sd q n = Ok fee"
  shows "fee \<le> (case sd of Buy \<Rightarrow> q | Sell \<Rightarrow> n)"
proof -
  let ?x = "case sd of Buy \<Rightarrow> q | Sell \<Rightarrow> n"
  from assms have fee: "fee = (?x * TAKER_FEE_BPS) div 10000" and fits: "unat ?x * unat TAKER_FEE_BPS < 2 ^ 64"
    by (auto simp: taker_fee_of_def times_u_def checked_mul_def outcome_simps expect_def split: if_splits)
  have "unat fee = (unat ?x * 10) div 10000"
    using fits unfolding fee unat_div by (simp add: unat_times_fits TAKER_FEE_BPS_def)
  also have "\<dots> \<le> unat ?x" by simp
  finally show ?thesis by (simp add: word_le_nat_alt)
qed

lemma taker_fee_fits:
  "10 * unat (case sd of Buy \<Rightarrow> q | Sell \<Rightarrow> n) < 2 ^ 64 \<Longrightarrow> \<exists>fee. taker_fee_of sd q n = Ok fee"
  by (simp add: taker_fee_of_def times_u_fits TAKER_FEE_BPS_def mult.commute)

lemma settle_fill_ok:
  assumes wf: "bm_wf (bd_exchange_accounts b)" and fit: "totals_fit b" and ne: "bk \<noteq> sk"
    and bp: "unat bp * unat q < 2 ^ 64" "p \<le> bp"
    and buyer: "unat bp * unat q \<le> unat (ex_locked_base (exchange_account_of b bk))"
      "ex_locked_base (exchange_account_of b bk) \<le> ex_base_balance (exchange_account_of b bk)"
    and seller: "q \<le> ex_locked_compute (exchange_account_of b sk)"
      "ex_locked_compute (exchange_account_of b sk) \<le> ex_compute_balance (exchange_account_of b sk)"
  shows "\<exists>fee ba sa. settle_fill sd bk bp sk p q b = Ok (fee, restore_exchange_account sk sa (restore_exchange_account bk ba b))
    \<and> unat (ex_locked_base ba) + unat bp * unat q = unat (ex_locked_base (exchange_account_of b bk))
    \<and> base_of ba + unat p * unat q = base_of (exchange_account_of b bk)
    \<and> compute_of ba + (if sd = Buy then unat fee else 0) = compute_of (exchange_account_of b bk) + unat q
    \<and> ex_locked_compute ba = ex_locked_compute (exchange_account_of b bk)
    \<and> unat (ex_locked_compute sa) + unat q = unat (ex_locked_compute (exchange_account_of b sk))
    \<and> compute_of sa + unat q = compute_of (exchange_account_of b sk)
    \<and> base_of sa + (if sd = Sell then unat fee else 0) = base_of (exchange_account_of b sk) + unat p * unat q
    \<and> ex_locked_base sa = ex_locked_base (exchange_account_of b sk)
    \<and> compute_of (exchange_account_of b bk) \<le> compute_of ba \<and> base_of (exchange_account_of b sk) \<le> base_of sa"
proof -
  let ?A = "exchange_account_of b bk" and ?S = "exchange_account_of b sk"
  have pq: "unat p * unat q \<le> unat bp * unat q" using bp(2) by (simp add: word_le_nat_alt mult_right_mono)
  then have pq64: "unat p * unat q < 2 ^ 64" using bp(1) by linarith
  have n: "unat (p * q) = unat p * unat q" by (rule unat_times_fits [OF pq64])
  have u: "unat (bp * q) = unat bp * unat q" by (rule unat_times_fits [OF bp(1)])
  have lb: "unat bp * unat q \<le> base_of ?A" using buyer by (simp add: base_of_def word_le_nat_alt)
  have q: "unat q \<le> compute_of ?S" using seller by (simp add: compute_of_def word_le_nat_alt)
  have tb: "base_of ?A + base_of ?S \<le> acct_total base_of b" "compute_of ?A + compute_of ?S \<le> acct_total compute_of b"
    using acct_pair_le_total [OF wf _ ne] by auto
  have fit': "10 * acct_total base_of b < 2 ^ 64" "10 * acct_total compute_of b < 2 ^ 64"
    using fit by (auto simp: totals_fit_def)
  have "10 * unat (case sd of Buy \<Rightarrow> q | Sell \<Rightarrow> p * q) < 2 ^ 64"
  proof (cases sd)
    case Buy
    then show ?thesis using q tb fit' by simp
  next
    case Sell
    then have "unat (case sd of Buy \<Rightarrow> q | Sell \<Rightarrow> p * q) = unat p * unat q" using n by simp
    then show ?thesis using lb pq tb fit' by linarith
  qed
  then obtain fee where fee: "taker_fee_of sd q (p * q) = Ok fee" using taker_fee_fits by blast
  note fee_le = taker_fee_bound [OF fee]
  define cc where "cc = (if sd = Buy then q - fee else q)"
  define bc where "bc = (if sd = Sell then p * q - fee else p * q)"
  have cc: "unat cc + (if sd = Buy then unat fee else 0) = unat q"
    using fee_le by (cases sd) (auto simp: cc_def unat_sub word_le_nat_alt)
  have bc: "unat bc + (if sd = Sell then unat fee else 0) = unat p * unat q"
    using fee_le n by (cases sd) (auto simp: bc_def unat_sub word_le_nat_alt)
  have c64: "compute_of ?A + unat cc < 2 ^ 64" using cc q tb fit' by simp
  have b64: "base_of ?S + unat bc < 2 ^ 64" using bc lb pq tb(1) fit'(1) by linarith
  define ba where "ba = ?A\<lparr>ex_locked_base := ex_locked_base ?A - bp * q, ex_base_balance := ex_base_balance ?A - p * q,
      ex_compute_balance := ex_compute_balance ?A + cc\<rparr>"
  define sa where "sa = ?S\<lparr>ex_locked_compute := ex_locked_compute ?S - q, ex_compute_balance := ex_compute_balance ?S - q,
      ex_base_balance := ex_base_balance ?S + bc\<rparr>"
  have les: "bp * q \<le> ex_locked_base ?A" "p * q \<le> ex_base_balance ?A" "q \<le> ex_compute_balance ?S"
    unfolding word_le_nat_alt u n using buyer(1) lb [unfolded base_of_def] q [unfolded compute_of_def] pq
    by linarith+
  have "debit_buyer (bp * q) (p * q) cc ?A = Ok ba"
    using les c64 by (simp add: debit_buyer_def minus_u_def plus_u_fits compute_of_def ba_def)
  moreover have "credit_seller q bc ?S = Ok sa"
    using les seller b64 by (simp add: credit_seller_def minus_u_def plus_u_fits base_of_def sa_def)
  moreover have "(if sd = Buy then minus_u q fee else Ok q) = (Ok cc :: u64 board_result)"
    "(if sd = Sell then minus_u (p * q) fee else Ok (p * q)) = (Ok bc :: u64 board_result)"
    using fee_le by (cases sd; simp add: cc_def bc_def minus_u_def)+
  ultimately have run: "settle_fill sd bk bp sk p q b
      = Ok (fee, restore_exchange_account sk sa (restore_exchange_account bk ba b))"
    using fee ne pq64 bp(1) by (simp add: settle_fill_def times_u_fits Let_def)
  show ?thesis
    by (rule exI [of _ fee], rule exI [of _ ba], rule exI [of _ sa])
      (use run cc bc c64 b64 les u n seller(1) in \<open>auto simp: ba_def sa_def base_of_def compute_of_def unat_sub_le
        unat_plus_fits word_le_nat_alt\<close>)
qed

subsection \<open>One fill\<close>

lemma best_resting_match_spec:
  assumes "exchange_inv ts b" "best_resting_match b taker = Some i"
  shows "\<exists>r. bm_get (bd_orders b) i = Some r \<and> matches_taker taker r
    \<and> (\<forall>j x. bm_get (bd_orders b) j = Some x \<longrightarrow> matches_taker taker x \<longrightarrow>
         priority (opposite (or_side taker)) r \<le> priority (opposite (or_side taker)) x)"
proof -
  let ?key = "priority (opposite (or_side taker))"
  let ?cs = "filter (matches_taker taker) (bm_values (bd_orders b))"
  from assms(2) obtain r rs where rs: "sort_key ?key ?cs = r # rs" "i = or_id r"
    by (auto simp: best_resting_match_def split: list.splits)
  have wf: "bm_wf (bd_orders b)" using assms(1) by (simp add: exchange_inv_def)
  have set: "set (r # rs) = set ?cs" using rs(1) by (metis set_sort)
  then have r: "r \<in> set ?cs" by auto
  then obtain k where k: "bm_get (bd_orders b) k = Some r" using wf by (auto simp: bm_values_iff)
  then have "i = k" using assms(1) rs(2) by (auto simp: exchange_inv_def)
  have "sorted (map ?key (r # rs))" using sorted_sort_key [of ?key ?cs] rs(1) by simp
  then have "?key r \<le> ?key x" if "bm_get (bd_orders b) j = Some x" "matches_taker taker x" for j x
  proof -
    have "x \<in> set (r # rs)" using that wf set by (auto simp: bm_values_iff)
    with \<open>sorted (map ?key (r # rs))\<close> show ?thesis by auto
  qed
  with r k \<open>i = k\<close> show ?thesis by auto
qed

lemma best_resting_match_None:
  assumes "bm_wf (bd_orders b)"
  shows "best_resting_match b taker = None \<longleftrightarrow>
     (\<forall>j x. bm_get (bd_orders b) j = Some x \<longrightarrow> \<not> matches_taker taker x)"
proof -
  let ?key = "priority (opposite (or_side taker))"
  let ?cs = "filter (matches_taker taker) (bm_values (bd_orders b))"
  have "best_resting_match b taker = None \<longleftrightarrow> sort_key ?key ?cs = []"
    by (simp add: best_resting_match_def split: list.splits)
  also have "\<dots> \<longleftrightarrow> ?cs = []" by (metis length_0_conv length_sort)
  also have "\<dots> \<longleftrightarrow> (\<forall>x \<in> set (bm_values (bd_orders b)). \<not> matches_taker taker x)"
    by (simp add: filter_empty_conv)
  finally show ?thesis using bm_values_iff [OF assms] by blast
qed

definition unlocks :: "side \<Rightarrow> public_key \<Rightarrow> order \<Rightarrow> u64 \<Rightarrow> nat" where
  "unlocks sd k o' q = (if or_side o' = sd \<and> or_owner o' = k then lock_unit sd (or_price o') * unat q else 0)"

lemma open_lock_fill:
  assumes f: "unat f = unat (or_filled o') + unat q" "unat f \<le> unat (or_quantity o')"
    and st: "or_status o' = OOpen" "st = OOpen \<or> unat f = unat (or_quantity o')"
  shows "open_lock sd k (o'\<lparr>or_filled := f, or_status := st\<rparr>) + unlocks sd k o' q = open_lock sd k o'"
proof (cases "or_side o' = sd \<and> or_owner o' = k")
  case True
  let ?u = "lock_unit sd (or_price o')" and ?Q = "unat (or_quantity o')"
  have "?Q - unat (or_filled o') = (?Q - unat f) + unat q" using f by simp
  then have "?u * (?Q - unat (or_filled o')) = ?u * (?Q - unat f) + ?u * unat q"
    by (simp only: distrib_left)
  with True st show ?thesis by (auto simp: open_lock_def unlocks_def)
qed (auto simp: open_lock_def unlocks_def)

definition book_count :: "task_board \<Rightarrow> nat" where
  "book_count b = bm_total (\<lambda>o'. if or_status o' = OOpen then 1 else 0) (bd_orders b)"

text \<open>The locks after a fill: each side of it released what it filled.\<close>

lemma locked_total_fill:
  assumes wf: "bm_wf (bd_orders b)" and r: "bm_get (bd_orders b) (or_id r) = Some r" "or_status r = OOpen"
    and f: "unat f = unat (or_filled r) + unat q" "unat f \<le> unat (or_quantity r)"
    and g: "unat g = unat (or_filled t) + unat q" "unat g \<le> unat (or_quantity t)" "or_status t = OOpen"
    and st: "st = OOpen \<or> unat f = unat (or_quantity r)"
  shows "locked_total sd k [t\<lparr>or_filled := g\<rparr>] (restore_order (r\<lparr>or_filled := f, or_status := st\<rparr>) b)
       + unlocks sd k r q + unlocks sd k t q = locked_total sd k [t] b"
proof -
  let ?r = "r\<lparr>or_filled := f, or_status := st\<rparr>"
  have "open_lock sd k ?r + unlocks sd k r q = open_lock sd k r"
    by (rule open_lock_fill) (use f r(2) st in auto)
  moreover have "open_lock sd k (t\<lparr>or_filled := g, or_status := OOpen\<rparr>) + unlocks sd k t q = open_lock sd k t"
    by (rule open_lock_fill) (use g in auto)
  moreover have "t\<lparr>or_filled := g, or_status := OOpen\<rparr> = t\<lparr>or_filled := g\<rparr>" using g(3) by simp
  moreover have "locked_total sd k [t\<lparr>or_filled := g\<rparr>] (restore_order ?r b) + open_lock sd k r
      = locked_total sd k [t\<lparr>or_filled := g\<rparr>] b + open_lock sd k ?r"
    using locked_total_restore_order [OF wf, of sd k "[t\<lparr>or_filled := g\<rparr>]" ?r] r(1) by simp
  ultimately show ?thesis by (simp add: locked_total_def)
qed

lemma account_ok_other:
  assumes "account_ok ts b k" "exchange_account_of b' k = exchange_account_of b k"
    and "locked_total Buy k ts' b' = locked_total Buy k ts b" "locked_total Sell k ts' b' = locked_total Sell k ts b"
  shows "account_ok ts' b' k"
  using assms by (simp add: account_ok_def Let_def)

definition resting_id :: "trade \<Rightarrow> uuid" where
  "resting_id tr = (case tr_taker_side tr of Buy \<Rightarrow> tr_sell_order_id tr | Sell \<Rightarrow> tr_buy_order_id tr)"

text \<open>What one fill establishes, for the loop.\<close>

definition filled_well :: "order \<Rightarrow> order \<Rightarrow> task_board \<Rightarrow> order \<Rightarrow> trade \<Rightarrow> task_board \<Rightarrow> bool" where
  "filled_well taker r b taker' tr b' \<longleftrightarrow>
     exchange_inv [taker'] b' \<and> (\<exists>f. taker' = taker\<lparr>or_filled := f\<rparr>)
     \<and> acct_total base_of b' + (if or_side taker = Sell then unat (tr_taker_fee tr) else 0) = acct_total base_of b
     \<and> acct_total compute_of b' + (if or_side taker = Buy then unat (tr_taker_fee tr) else 0) = acct_total compute_of b
     \<and> (or_filled taker' = or_quantity taker \<or> book_count b' < book_count b)
     \<and> tr_price tr = or_price r \<and> 0 < tr_quantity tr \<and> tr_taker_side tr = or_side taker
     \<and> unat (or_filled taker') = unat (or_filled taker) + unat (tr_quantity tr)
     \<and> resting_id tr = or_id r \<and> tr_buyer tr \<noteq> tr_seller tr
     \<and> bd_orders b' = bm_insert (or_id r) (r\<lparr>or_filled := or_filled r + tr_quantity tr,
          or_status := (if or_quantity r \<le> or_filled r + tr_quantity tr then Filled else OOpen)\<rparr>) (bd_orders b)"

definition fill_size :: "order \<Rightarrow> order \<Rightarrow> u64" where
  "fill_size taker r = min (or_quantity taker - or_filled taker) (or_quantity r - or_filled r)"

lemma fill_size_comm: "fill_size taker r = fill_size r taker"
  by (simp add: fill_size_def min.commute)

lemma fill_size_one:
  assumes "or_filled taker < or_quantity taker" "or_filled r < or_quantity r"
  shows "unat (or_filled r + fill_size taker r) = unat (or_filled r) + unat (fill_size taker r)
       \<and> unat (or_filled r) + unat (fill_size taker r) \<le> unat (or_quantity r)"
proof -
  have "unat (fill_size taker r) \<le> unat (or_quantity r - or_filled r)"
    by (simp add: fill_size_def min_def word_le_nat_alt)
  also have "\<dots> = unat (or_quantity r) - unat (or_filled r)"
    using assms by (simp add: unat_sub_le less_imp_le)
  finally have "unat (or_filled r) + unat (fill_size taker r) \<le> unat (or_quantity r)"
    using assms(2) by (simp add: word_less_nat_alt)
  moreover have "unat (or_quantity r) < 2 ^ 64" using unsigned_less [of "or_quantity r"] by simp
  ultimately show ?thesis by (simp add: unat_plus_fits)
qed

lemma fill_size_progress:
  assumes "or_filled taker < or_quantity taker" "or_filled r < or_quantity r"
  shows "0 < fill_size taker r"
    and "or_filled taker + fill_size taker r = or_quantity taker \<or> or_filled r + fill_size taker r = or_quantity r"
proof -
  have "0 < or_quantity taker - or_filled taker" "0 < or_quantity r - or_filled r"
    using assms by (auto simp: word_less_nat_alt unat_sub_le less_imp_le)
  then show "0 < fill_size taker r" by (simp add: fill_size_def)
  show "or_filled taker + fill_size taker r = or_quantity taker \<or> or_filled r + fill_size taker r = or_quantity r"
    by (simp add: fill_size_def min_def)
qed

text \<open>The orders of the buying and the selling side of a fill.\<close>

definition sides_of :: "order \<Rightarrow> order \<Rightarrow> order \<times> order" where
  "sides_of taker r = (case or_side taker of Buy \<Rightarrow> (taker, r) | Sell \<Rightarrow> (r, taker))"

lemma sides_of_cases:
  "sides_of taker r = (buy, sell) \<Longrightarrow>
     (or_side taker = Buy \<and> buy = taker \<and> sell = r) \<or> (or_side taker = Sell \<and> buy = r \<and> sell = taker)"
  by (cases "or_side taker") (auto simp: sides_of_def)

lemma sides_of_facts:
  assumes "matches_taker taker r" "sides_of taker r = (buy, sell)"
  shows "or_side buy = Buy" "or_side sell = Sell" "or_owner buy \<noteq> or_owner sell" "or_price r \<le> or_price buy"
    and "unlocks sd k r q + unlocks sd k taker q = unlocks sd k buy q + unlocks sd k sell q"
  using assms(1) sides_of_cases [OF assms(2)]
  by (auto simp: matches_taker_def opposite_def price_crosses_def)

lemma fill_price_fits:
  assumes "order_ok taker" "order_ok r"
    and "(or_side taker = Buy \<and> buy = taker \<and> sell = r) \<or> (or_side taker = Sell \<and> buy = r \<and> sell = taker)"
    and "unat q \<le> unat (or_quantity r)" "unat q \<le> unat (or_quantity taker)"
  shows "unat (or_price buy) * unat q < 2 ^ 64"
proof -
  have "unat (or_price buy) * unat q \<le> unat (or_price buy) * unat (or_quantity buy)"
    using assms(3-5) by (intro mult_le_mono2) auto
  also have "\<dots> < 2 ^ 64" using assms(1-3) by (auto simp: order_ok_def)
  finally show ?thesis .
qed

lemma fill_accounts:
  assumes acct: "account_ok [t] b k"
    and lock: "\<And>sd. locked_total sd k [t'] b1 + unlocks sd k buy q + unlocks sd k sell q = locked_total sd k [t] b"
    and same: "exchange_account_of b1 k = exchange_account_of b k"
    and sides: "or_side buy = Buy" "or_side sell = Sell" "or_owner buy \<noteq> or_owner sell" "p \<le> or_price buy"
    and A: "A = exchange_account_of b (or_owner buy)" and S: "S = exchange_account_of b (or_owner sell)"
    and ba: "unat (ex_locked_base ba) + unat (or_price buy) * unat q = unat (ex_locked_base A)"
      "base_of ba + unat p * unat q = base_of A" "compute_of A \<le> compute_of ba"
      "ex_locked_compute ba = ex_locked_compute A"
    and sa: "unat (ex_locked_compute sa) + unat q = unat (ex_locked_compute S)"
      "compute_of sa + unat q = compute_of S" "base_of S \<le> base_of sa"
      "ex_locked_base sa = ex_locked_base S"
  shows "account_ok [t'] (restore_exchange_account (or_owner sell) sa (restore_exchange_account (or_owner buy) ba b1)) k"
proof -
  let ?b2 = "restore_exchange_account (or_owner sell) sa (restore_exchange_account (or_owner buy) ba b1)"
  have pq: "unat p * unat q \<le> unat (or_price buy) * unat q"
    using sides(4) by (simp add: word_le_nat_alt mult_right_mono)
  have lk: "locked_total sd k [t'] ?b2 + unlocks sd k buy q + unlocks sd k sell q = locked_total sd k [t] b" for sd
    using lock by simp
  note acct' = acct [unfolded account_ok_def Let_def]
  consider "k = or_owner buy" | "k = or_owner sell" | "k \<noteq> or_owner buy" "k \<noteq> or_owner sell" by blast
  then show ?thesis
  proof cases
    case 1
    then have acc: "exchange_account_of ?b2 k = ba" "exchange_account_of b k = A" using sides(3) A by auto
    have "unlocks Buy k buy q = unat (or_price buy) * unat q" "unlocks Buy k sell q = 0"
      "unlocks Sell k buy q = 0" "unlocks Sell k sell q = 0"
      using 1 sides by (auto simp: unlocks_def lock_unit_def)
    moreover have "unat (ex_locked_base A) \<le> base_of A" using acct' acc(2) by (simp add: word_le_nat_alt base_of_def)
    then have "unat (ex_locked_base ba) \<le> base_of ba" using ba(1,2) pq by linarith
    ultimately show ?thesis using lk [of Buy] lk [of Sell] acct' acc ba
      by (simp add: account_ok_def Let_def word_le_nat_alt base_of_def compute_of_def)
  next
    case 2
    then have acc: "exchange_account_of ?b2 k = sa" "exchange_account_of b k = S" using S by auto
    have "unlocks Sell k sell q = unat q" "unlocks Buy k sell q = 0"
      "unlocks Sell k buy q = 0" "unlocks Buy k buy q = 0"
      using 2 sides by (auto simp: unlocks_def lock_unit_def)
    with lk [of Buy] lk [of Sell] acct' acc sa show ?thesis
      by (simp add: account_ok_def Let_def word_le_nat_alt base_of_def compute_of_def)
  next
    case 3
    then have "unlocks sd k buy q = 0" "unlocks sd k sell q = 0" for sd by (auto simp: unlocks_def)
    with 3 lk acct same show ?thesis by (intro account_ok_other [OF acct]) auto
  qed
qed

lemma fill_totals:
  assumes wf: "bm_wf (bd_exchange_accounts b)" and ne: "bk \<noteq> sk" and z: "zero_on_empty f"
    and "f ba + f sa + d = f (exchange_account_of b bk) + f (exchange_account_of b sk)"
  shows "acct_total f (restore_exchange_account sk sa (restore_exchange_account bk ba b)) + d = acct_total f b"
proof -
  let ?b1 = "restore_exchange_account bk ba b"
  have "acct_total f ?b1 + f (exchange_account_of b bk) = acct_total f b + f ba"
    by (rule acct_total_restore [OF wf z])
  moreover have "acct_total f (restore_exchange_account sk sa ?b1) + f (exchange_account_of ?b1 sk) = acct_total f ?b1 + f sa"
    by (rule acct_total_restore [OF _ z]) (use wf in simp)
  ultimately show ?thesis using ne assms(4) by simp
qed

lemma u64_bound: "unat (x :: u64) < 2 ^ 64"
  using unsigned_less [of x] by simp

lemma fill_once_run:
  assumes t: "or_filled taker < or_quantity taker" and r: "or_filled r < or_quantity r" "or_status r = OOpen"
    and bs: "sides_of taker r = (buy, sell)" and q: "q = fill_size taker r"
    and r': "r' = r\<lparr>or_filled := or_filled r + q,
               or_status := (if or_quantity r \<le> or_filled r + q then Filled else OOpen)\<rparr>"
    and run: "settle_fill (or_side taker) (or_owner buy) (or_price buy) (or_owner sell) (or_price r) q (restore_order r' b)
       = Ok (fee, b2)"
  shows "fill_once now tid taker r b =
    Ok (taker\<lparr>or_filled := or_filled taker + q\<rparr>,
        \<lparr>tr_id = tid, tr_buy_order_id = or_id buy, tr_sell_order_id = or_id sell, tr_buyer = or_owner buy,
         tr_seller = or_owner sell, tr_price = or_price r, tr_quantity = q, tr_executed_at = now,
         tr_taker_side = or_side taker, tr_taker_fee = fee\<rparr>, b2)"
proof -
  have fr: "plus_u (or_filled r) q = (Ok (or_filled r + q) :: u64 board_result)"
    by (rule plus_u_fits) (use fill_size_one [OF t r(1)] u64_bound [of "or_quantity r"] in \<open>simp add: q\<close>)
  have ft: "plus_u (or_filled taker) q = (Ok (or_filled taker + q) :: u64 board_result)"
    by (rule plus_u_fits) (use fill_size_one [OF r(1) t] u64_bound [of "or_quantity taker"] in
      \<open>simp add: q fill_size_comm [of taker]\<close>)
  have "fill_resting q r = Ok r'" by (simp add: fill_resting_def fr r' r(2))
  with ft t r bs run q show ?thesis
    by (simp add: fill_once_def minus_u_def Let_def sides_of_def fill_size_def [symmetric] less_imp_le)
qed

lemma fill_once_well:
  assumes inv: "exchange_inv [taker] b" and fit: "totals_fit b"
    and r: "bm_get (bd_orders b) i = Some r" "matches_taker taker r"
    and t: "or_filled taker < or_quantity taker" "or_status taker = OOpen"
  shows "\<exists>taker' tr b'. fill_once now tid taker r b = Ok (taker', tr, b') \<and> filled_well taker r b taker' tr b'"
proof -
  note inv' = inv [unfolded exchange_inv_def]
  have wf: "bm_wf (bd_orders b)" "bm_wf (bd_exchange_accounts b)" using inv' by auto
  have rok: "or_id r = i" "order_ok r" "or_status r = OOpen" "or_filled r < or_quantity r"
    and tok: "order_ok taker" using inv' r by (auto simp: matches_taker_def)
  obtain buy sell where bs: "sides_of taker r = (buy, sell)" by force
  note sides = sides_of_facts [OF r(2) bs]
  define q where "q = fill_size taker r"
  note fr = fill_size_one [OF t(1) rok(4), folded q_def]
  note ft = fill_size_one [OF rok(4) t(1), folded fill_size_comm [of taker], folded q_def]
  note progress = fill_size_progress [OF t(1) rok(4), folded q_def]
  define st where "st = (if or_quantity r \<le> or_filled r + q then Filled else OOpen)"
  define r' where "r' = r\<lparr>or_filled := or_filled r + q, or_status := st\<rparr>"
  define t' where "t' = taker\<lparr>or_filled := or_filled taker + q\<rparr>"
  let ?b1 = "restore_order r' b"
  let ?A = "exchange_account_of b (or_owner buy)" and ?S = "exchange_account_of b (or_owner sell)"
  have st: "st = OOpen \<or> unat (or_filled r + q) = unat (or_quantity r)"
    using fr by (auto simp: st_def word_le_nat_alt)
  have lock: "locked_total sd k [t'] ?b1 + unlocks sd k buy q + unlocks sd k sell q = locked_total sd k [taker] b" for sd k
    using locked_total_fill [OF wf(1) _ rok(3) _ _ _ _ t(2) st, of q "or_filled taker + q" sd k] r(1) rok(1) fr ft
      sides(5) [of sd k q] by (simp add: r'_def t'_def)
  have acct: "account_ok [taker] b k" for k using inv' by simp
  have need: "unat (or_price buy) * unat q \<le> unat (ex_locked_base ?A)" "unat q \<le> unat (ex_locked_compute ?S)"
    using acct [of "or_owner buy"] lock [of Buy "or_owner buy"] acct [of "or_owner sell"] lock [of Sell "or_owner sell"] sides
    by (auto simp: account_ok_def Let_def unlocks_def lock_unit_def)
  have bp: "unat (or_price buy) * unat q < 2 ^ 64"
    by (rule fill_price_fits [OF tok rok(2) sides_of_cases [OF bs]]) (use fr ft in linarith)+
  have "\<exists>fee ba sa. settle_fill (or_side taker) (or_owner buy) (or_price buy) (or_owner sell) (or_price r) q ?b1
        = Ok (fee, restore_exchange_account (or_owner sell) sa (restore_exchange_account (or_owner buy) ba ?b1))
    \<and> unat (ex_locked_base ba) + unat (or_price buy) * unat q = unat (ex_locked_base (exchange_account_of ?b1 (or_owner buy)))
    \<and> base_of ba + unat (or_price r) * unat q = base_of (exchange_account_of ?b1 (or_owner buy))
    \<and> compute_of ba + (if or_side taker = Buy then unat fee else 0) = compute_of (exchange_account_of ?b1 (or_owner buy)) + unat q
    \<and> ex_locked_compute ba = ex_locked_compute (exchange_account_of ?b1 (or_owner buy))
    \<and> unat (ex_locked_compute sa) + unat q = unat (ex_locked_compute (exchange_account_of ?b1 (or_owner sell)))
    \<and> compute_of sa + unat q = compute_of (exchange_account_of ?b1 (or_owner sell))
    \<and> base_of sa + (if or_side taker = Sell then unat fee else 0) = base_of (exchange_account_of ?b1 (or_owner sell)) + unat (or_price r) * unat q
    \<and> ex_locked_base sa = ex_locked_base (exchange_account_of ?b1 (or_owner sell))
    \<and> compute_of (exchange_account_of ?b1 (or_owner buy)) \<le> compute_of ba
    \<and> base_of (exchange_account_of ?b1 (or_owner sell)) \<le> base_of sa"
    by (rule settle_fill_ok [OF _ _ sides(3) bp sides(4)])
      (use need wf fit acct [of "or_owner buy"] acct [of "or_owner sell"] in
        \<open>simp_all add: account_ok_def Let_def word_le_nat_alt totals_fit_def\<close>)
  then obtain fee ba sa where settle: "settle_fill (or_side taker) (or_owner buy) (or_price buy) (or_owner sell) (or_price r) q ?b1
        = Ok (fee, restore_exchange_account (or_owner sell) sa (restore_exchange_account (or_owner buy) ba ?b1))"
    and ba: "unat (ex_locked_base ba) + unat (or_price buy) * unat q = unat (ex_locked_base ?A)"
      "base_of ba + unat (or_price r) * unat q = base_of ?A"
      "compute_of ba + (if or_side taker = Buy then unat fee else 0) = compute_of ?A + unat q"
      "ex_locked_compute ba = ex_locked_compute ?A"
    and sa: "unat (ex_locked_compute sa) + unat q = unat (ex_locked_compute ?S)"
      "compute_of sa + unat q = compute_of ?S"
      "base_of sa + (if or_side taker = Sell then unat fee else 0) = base_of ?S + unat (or_price r) * unat q"
      "ex_locked_base sa = ex_locked_base ?S"
    and grow: "compute_of ?A \<le> compute_of ba" "base_of ?S \<le> base_of sa"
    unfolding restore_order_frame by blast
  let ?b2 = "restore_exchange_account (or_owner sell) sa (restore_exchange_account (or_owner buy) ba ?b1)"
  let ?tr = "\<lparr>tr_id = tid, tr_buy_order_id = or_id buy, tr_sell_order_id = or_id sell, tr_buyer = or_owner buy,
         tr_seller = or_owner sell, tr_price = or_price r, tr_quantity = q, tr_executed_at = now,
         tr_taker_side = or_side taker, tr_taker_fee = fee\<rparr>"
  have run: "fill_once now tid taker r b = Ok (t', ?tr, ?b2)"
    using fill_once_run [OF t(1) rok(4,3) bs q_def _ settle] by (simp add: r'_def st_def t'_def)
  have "account_ok [t'] ?b2 k" for k
    by (rule fill_accounts [OF acct lock _ sides(1-4) refl refl ba(1,2) grow(1) ba(4) sa(1,2) grow(2) sa(4)]) simp
  moreover have "order_ok r'" "order_ok t'"
    using rok(2) tok fr ft by (auto simp: order_ok_def r'_def t'_def word_le_nat_alt)
  moreover have "or_filled r' < or_quantity r'" if "or_status r' = OOpen"
    using that by (simp add: r'_def st_def not_le split: if_splits)
  ultimately have inv2: "exchange_inv [t'] ?b2"
    using inv' wf rok(1) by (auto simp: exchange_inv_def r'_def)
  have tot: "acct_total base_of ?b2 + (if or_side taker = Sell then unat fee else 0) = acct_total base_of ?b1"
    "acct_total compute_of ?b2 + (if or_side taker = Buy then unat fee else 0) = acct_total compute_of ?b1"
    by (rule fill_totals; use wf sides(3) ba sa in simp)+
  have "or_filled t' = or_quantity taker \<or> book_count ?b2 < book_count b"
    using progress(2) bm_total_insert [OF wf(1), of "\<lambda>o'. if or_status o' = OOpen then 1 else 0" i r'] r(1) rok(1,3)
    by (auto simp: book_count_def t'_def r'_def st_def)
  with inv2 tot progress(1) sides_of_cases [OF bs] sides(3) rok(1) ft have "filled_well taker r b t' ?tr ?b2"
    by (auto simp: filled_well_def t'_def r'_def st_def resting_id_def)
  with run show ?thesis by blast
qed

subsection \<open>The matching loop\<close>

text \<open>The fills of one placement, as a relation: each one hits the best match of its moment.\<close>

inductive fill_run :: "order \<Rightarrow> task_board \<Rightarrow> trade list \<Rightarrow> order \<Rightarrow> task_board \<Rightarrow> bool" where
  fill_run_nil: "fill_run t b [] t b"
| fill_run_cons: "or_filled t < or_quantity t \<Longrightarrow> best_resting_match b t = Some i \<Longrightarrow> bm_get (bd_orders b) i = Some r \<Longrightarrow>
    fill_once now tid t r b = Ok (t1, tr, b1) \<Longrightarrow> fill_run t1 b1 trs t' b' \<Longrightarrow> fill_run t b (tr # trs) t' b'"

definition matching :: "order \<Rightarrow> task_board \<Rightarrow> bool" where
  "matching t b \<longleftrightarrow> exchange_inv [t] b \<and> totals_fit b \<and> or_status t = OOpen"

lemma filled_well_matching:
  "filled_well t r b t1 tr b1 \<Longrightarrow> matching t b \<Longrightarrow> matching t1 b1"
  by (auto simp: filled_well_def matching_def totals_fit_def split: if_splits)

lemma matching_fill:
  assumes "matching t b" "or_filled t < or_quantity t" "best_resting_match b t = Some i"
  obtains r t1 tr b1 where "bm_get (bd_orders b) i = Some r" "matches_taker t r"
    "fill_once now tid t r b = Ok (t1, tr, b1)" "filled_well t r b t1 tr b1" "matching t1 b1"
proof -
  obtain r where r: "bm_get (bd_orders b) i = Some r" "matches_taker t r"
    using best_resting_match_spec [of "[t]" b t i] assms by (auto simp: matching_def)
  with fill_once_well [of t b i r now tid] assms obtain t1 tr b1 where
    "fill_once now tid t r b = Ok (t1, tr, b1)" "filled_well t r b t1 tr b1"
    by (auto simp: matching_def)
  with r that filled_well_matching assms(1) show ?thesis by blast
qed

lemma open_counts:
  assumes "exchange_inv ts b" "bm_get (bd_orders b) i = Some r" "or_status r = OOpen"
  shows "0 < book_count b"
  using bm_total_get_le [of "bd_orders b" i r "\<lambda>o'. if or_status o' = OOpen then 1 else 0"] assms
  by (auto simp: book_count_def exchange_inv_def)

lemma match_loop_runs:
  assumes "matching t b" "book_count b < fuel \<or> (or_filled t = or_quantity t \<and> 0 < fuel)"
  shows "\<exists>t' trs b'. match_loop fuel now fresh t trades b = Ok (t', trades @ trs, b') \<and> fill_run t b trs t' b'
           \<and> (or_filled t' < or_quantity t' \<longrightarrow> best_resting_match b' t' = None)"
  using assms
proof (induction fuel arbitrary: t trades b)
  case (Suc fuel)
  show ?case
  proof (cases "or_filled t < or_quantity t")
    case False
    then show ?thesis using fill_run_nil by fastforce
  next
    case True
    show ?thesis
    proof (cases "best_resting_match b t")
      case None
      then show ?thesis using fill_run_nil by fastforce
    next
      case (Some i)
      obtain r t1 tr b1 where r: "bm_get (bd_orders b) i = Some r" "matches_taker t r"
        and f: "fill_once now (fresh (Suc (length trades))) t r b = Ok (t1, tr, b1)"
        and well: "filled_well t r b t1 tr b1" and m: "matching t1 b1"
        by (rule matching_fill [OF Suc.prems(1) True Some])
      have "0 < book_count b"
        by (rule open_counts [of "[t]", OF _ r(1)]) (use Suc.prems(1) r(2) in \<open>auto simp: matching_def matches_taker_def\<close>)
      then have "book_count b1 < fuel \<or> (or_filled t1 = or_quantity t1 \<and> 0 < fuel)"
        using well Suc.prems(2) True by (auto simp: filled_well_def)
      from Suc.IH [OF m this, of "trades @ [tr]"] obtain t' trs b' where
        "match_loop fuel now fresh t1 (trades @ [tr]) b1 = Ok (t', (trades @ [tr]) @ trs, b')" "fill_run t1 b1 trs t' b'"
        "or_filled t' < or_quantity t' \<longrightarrow> best_resting_match b' t' = None" by blast
      with True Some r(1) f fill_run_cons [OF True Some r(1) f] show ?thesis by fastforce
    qed
  qed
qed simp

lemma bm_total_count_le: "bm_total (\<lambda>x. if P x then 1 else 0) m \<le> length m"
  by (induction m) (auto simp: bm_total_def)

lemma book_count_le: "book_count b \<le> length (bd_orders b)"
  by (simp add: book_count_def bm_total_count_le)

end
