(* ===== verification/Hub_Orders.thy ===== *)
theory Hub_Orders
  imports Hub_Ledger
begin

text \<open>
  What the exchange promises its users, over the ledger invariant: an order is placed without
  a panic and keeps the ledger exact, the value the accounts lose is the recorded taker fees,
  trades respect the limit price and the priority of the book, nothing that crosses is left
  behind, cancelling gives back exactly what was locked, and a withdrawal never takes money
  that backs an open order.
\<close>

subsection \<open>Facts of a run of fills\<close>

lemma fill_run_induct [consumes 2, case_names nil cons]:
  assumes "fill_run t b trs t' b'" "matching t b"
    and nil: "\<And>t b. matching t b \<Longrightarrow> P t b [] t b"
    and cons: "\<And>t b i r t1 tr b1 trs t' b'. matching t b \<Longrightarrow> or_filled t < or_quantity t \<Longrightarrow>
       best_resting_match b t = Some i \<Longrightarrow> bm_get (bd_orders b) i = Some r \<Longrightarrow> matches_taker t r \<Longrightarrow>
       filled_well t r b t1 tr b1 \<Longrightarrow> matching t1 b1 \<Longrightarrow> fill_run t1 b1 trs t' b' \<Longrightarrow>
       P t1 b1 trs t' b' \<Longrightarrow> P t b (tr # trs) t' b'"
  shows "P t b trs t' b'"
  using assms(1,2)
proof (induction rule: fill_run.induct)
  case (fill_run_cons t b i r now tid t1 tr b1 trs t' b')
  obtain r' t1' tr' b1' where r: "bm_get (bd_orders b) i = Some r'" "matches_taker t r'"
    and f: "fill_once now tid t r' b = Ok (t1', tr', b1')"
    and well: "filled_well t r' b t1' tr' b1'" and m: "matching t1' b1'"
    by (rule matching_fill [OF fill_run_cons.prems fill_run_cons.hyps(1,2)])
  have eq: "r' = r" "t1' = t1" "tr' = tr" "b1' = b1" using r(1) f fill_run_cons.hyps(3,4) by auto
  show ?case
    by (rule cons [OF fill_run_cons.prems fill_run_cons.hyps(1-3)]) (use r(2) well m eq fill_run_cons.IH fill_run_cons.hyps(5) in auto)
qed (rule nil)

definition fees :: "side \<Rightarrow> trade list \<Rightarrow> nat" where
  "fees sd trs = sum_list (map (\<lambda>tr. if tr_taker_side tr = sd then unat (tr_taker_fee tr) else 0) trs)"

definition traded :: "trade list \<Rightarrow> nat" where
  "traded trs = sum_list (map (\<lambda>tr. unat (tr_quantity tr)) trs)"

lemma fees_simps [simp]:
  "fees sd [] = 0"
  "fees sd (tr # trs) = (if tr_taker_side tr = sd then unat (tr_taker_fee tr) else 0) + fees sd trs"
  "traded [] = 0" "traded (tr # trs) = unat (tr_quantity tr) + traded trs"
  by (simp_all add: fees_def traded_def)

lemma fill_run_totals:
  assumes "fill_run t b trs t' b'" "matching t b"
  shows "acct_total base_of b' + fees Sell trs = acct_total base_of b
       \<and> acct_total compute_of b' + fees Buy trs = acct_total compute_of b"
  using assms by (induction rule: fill_run_induct) (auto simp: filled_well_def)

lemma fill_run_taker:
  assumes "fill_run t b trs t' b'" "matching t b"
  shows "matching t' b' \<and> t' = t\<lparr>or_filled := or_filled t'\<rparr>"
  using assms by (induction rule: fill_run_induct) (auto simp: filled_well_def)

lemma fill_run_quantity:
  assumes "fill_run t b trs t' b'" "matching t b"
  shows "unat (or_filled t') = unat (or_filled t) + traded trs"
  using assms by (induction rule: fill_run_induct) (auto simp: filled_well_def)

lemma filled_well_same:
  assumes "filled_well t r b t1 tr b1"
  shows "matches_taker t1 = matches_taker t" "or_side t1 = or_side t" "or_price t1 = or_price t"
  using assms by (auto simp: filled_well_def matches_taker_def fun_eq_iff)

lemma fill_run_keys:
  assumes "fill_run t b trs t' b'" "matching t b"
  shows "bm_get (bd_orders b') j = None \<longleftrightarrow> bm_get (bd_orders b) j = None"
  using assms
proof (induction rule: fill_run_induct)
  case (cons t b i r t1 tr b1 trs t' b')
  then have "or_id r = i" by (auto simp: matching_def exchange_inv_def)
  with cons show ?case by (auto simp: filled_well_def)
qed simp

text \<open>How a resting order may change while another one is being placed.\<close>

definition order_evolves :: "order \<Rightarrow> order \<Rightarrow> bool" where
  "order_evolves x x' \<longleftrightarrow> or_price x' = or_price x \<and> or_side x' = or_side x \<and> or_owner x' = or_owner x
     \<and> or_created_at x' = or_created_at x \<and> or_quantity x' = or_quantity x
     \<and> (x' = x \<or> or_status x = OOpen \<and> (or_status x' = OOpen \<or> or_status x' = Filled))"

lemma order_evolves_refl [simp]: "order_evolves x x"
  by (simp add: order_evolves_def)

lemma order_evolves_trans: "order_evolves x y \<Longrightarrow> order_evolves y z \<Longrightarrow> order_evolves x z"
  by (auto simp: order_evolves_def)

lemma order_evolves_matches:
  assumes "order_evolves x x'"
  shows "priority sd x' = priority sd x"
    and "or_status x' = OOpen \<Longrightarrow> matches_taker t x' = matches_taker t x"
  using assms by (auto simp: order_evolves_def priority_def matches_taker_def split: side.split)

lemma filled_well_evolves:
  assumes "filled_well t r b t1 tr b1" "matching t b" "bm_get (bd_orders b) i = Some r" "matches_taker t r"
    "bm_get (bd_orders b) j = Some x"
  shows "\<exists>x'. bm_get (bd_orders b1) j = Some x' \<and> order_evolves x x'"
proof (cases "j = or_id r")
  case True
  have "or_id r = i" using assms(2,3) by (auto simp: matching_def exchange_inv_def)
  with True assms show ?thesis by (auto simp: filled_well_def order_evolves_def matches_taker_def)
next
  case False
  with assms show ?thesis by (auto simp: filled_well_def)
qed

lemma fill_run_evolves:
  assumes "fill_run t b trs t' b'" "matching t b" "bm_get (bd_orders b) j = Some x"
  shows "\<exists>x'. bm_get (bd_orders b') j = Some x' \<and> order_evolves x x'"
  using assms
proof (induction arbitrary: x rule: fill_run_induct)
  case (cons t b i r t1 tr b1 trs t' b')
  obtain y where y: "bm_get (bd_orders b1) j = Some y" "order_evolves x y"
    using filled_well_evolves [OF cons.hyps(6,1,4,5) cons.prems] by blast
  with cons.IH order_evolves_trans show ?case by blast
qed auto

text \<open>Every trade: at the resting price, within the limit, between two parties.\<close>

lemma fill_run_trades:
  assumes "fill_run t b trs t' b'" "matching t b" "tr \<in> set trs"
  shows "price_crosses (or_side t) (or_price t) (tr_price tr) \<and> tr_buyer tr \<noteq> tr_seller tr
       \<and> 0 < tr_quantity tr \<and> tr_taker_side tr = or_side t
       \<and> (\<exists>r. bm_get (bd_orders b) (resting_id tr) = Some r \<and> matches_taker t r \<and> tr_price tr = or_price r)"
  using assms
proof (induction rule: fill_run_induct)
  case (cons t b i r t1 tr' b1 trs t' b')
  have r: "or_id r = i" using cons.hyps(1,4) by (auto simp: matching_def exchange_inv_def)
  note same = filled_well_same [OF cons.hyps(6)]
  show ?case
  proof (cases "tr = tr'")
    case True
    with cons.hyps r show ?thesis by (auto simp: filled_well_def matches_taker_def)
  next
    case False
    with cons.prems have IH: "price_crosses (or_side t1) (or_price t1) (tr_price tr) \<and> tr_buyer tr \<noteq> tr_seller tr
       \<and> 0 < tr_quantity tr \<and> tr_taker_side tr = or_side t1
       \<and> (\<exists>r. bm_get (bd_orders b1) (resting_id tr) = Some r \<and> matches_taker t1 r \<and> tr_price tr = or_price r)"
      using cons.IH by simp
    then obtain r1 where r1: "bm_get (bd_orders b1) (resting_id tr) = Some r1" "matches_taker t1 r1" "tr_price tr = or_price r1"
      by blast
    have "bm_get (bd_orders b) (resting_id tr) \<noteq> None"
      using r1(1) cons.hyps(4,6) r by (auto simp: filled_well_def split: if_splits)
    then obtain x where x: "bm_get (bd_orders b) (resting_id tr) = Some x" by blast
    from filled_well_evolves [OF cons.hyps(6,1,4,5) x] r1 have "order_evolves x r1" by auto
    then have "matches_taker t x" "or_price x = or_price r1"
      using r1(2) by (auto simp: same matches_taker_def order_evolves_def)
    with IH x r1(3) show ?thesis by (simp add: same)
  qed
qed simp

text \<open>Whoever stood before a traded order in the queue has been served in full.\<close>

lemma fill_run_priority:
  assumes "fill_run t b trs t' b'" "matching t b" "tr \<in> set trs"
    "bm_get (bd_orders b) (resting_id tr) = Some r" "bm_get (bd_orders b) j = Some x" "matches_taker t x"
    "priority (opposite (or_side t)) x < priority (opposite (or_side t)) r"
  shows "\<exists>x'. bm_get (bd_orders b') j = Some x' \<and> or_status x' = Filled"
  using assms
proof (induction arbitrary: r x rule: fill_run_induct)
  case (cons t b i r0 t1 tr' b1 trs t' b')
  let ?pri = "priority (opposite (or_side t))"
  have r0: "or_id r0 = i" using cons.hyps(1,4) by (auto simp: matching_def exchange_inv_def)
  note same = filled_well_same [OF cons.hyps(6)]
  obtain x1 where x1: "bm_get (bd_orders b1) j = Some x1" "order_evolves x x1"
    using filled_well_evolves [OF cons.hyps(6,1,4,5) cons.prems(3)] by blast
  obtain r1 where r1: "bm_get (bd_orders b1) (resting_id tr) = Some r1" "order_evolves r r1"
    using filled_well_evolves [OF cons.hyps(6,1,4,5) cons.prems(2)] by blast
  show ?case
  proof (cases "tr \<in> set trs")
    case True
    show ?thesis
    proof (cases "or_status x1 = OOpen")
      case open1: True
      then have "matches_taker t1 x1" using cons.prems(4) order_evolves_matches(2) [OF x1(2)] by (simp add: same)
      moreover have "?pri x1 < ?pri r1"
        using cons.prems(5) order_evolves_matches(1) [OF x1(2)] order_evolves_matches(1) [OF r1(2)] by simp
      ultimately show ?thesis using cons.IH [OF True r1(1) x1(1)] by (simp add: same)
    next
      case False
      then have "or_status x1 = Filled" using x1(2) cons.prems(4) by (auto simp: order_evolves_def matches_taker_def)
      with fill_run_evolves [OF cons.hyps(8,7) x1(1)] show ?thesis by (auto simp: order_evolves_def)
    qed
  next
    case False
    then have "r0 = r" using cons.prems(1,2) cons.hyps(4,6) r0 by (auto simp: filled_well_def)
    moreover have "?pri r0 \<le> ?pri x"
      using best_resting_match_spec [of "[t]" b t i] cons.hyps cons.prems(3,4) by (auto simp: matching_def)
    ultimately show ?thesis using cons.prems(5) by simp
  qed
qed simp

subsection \<open>Placing\<close>

text \<open>Two boards whose ledgers read the same.\<close>

definition same_ledger :: "task_board \<Rightarrow> task_board \<Rightarrow> bool" where
  "same_ledger b b' \<longleftrightarrow> bd_orders b' = bd_orders b \<and> (\<forall>k. exchange_account_of b' k = exchange_account_of b k)
     \<and> (bm_wf (bd_exchange_accounts b) \<longrightarrow> bm_wf (bd_exchange_accounts b')
        \<and> acct_total base_of b' = acct_total base_of b \<and> acct_total compute_of b' = acct_total compute_of b)"

lemma same_ledger_refl [simp]: "same_ledger b b"
  by (simp add: same_ledger_def)

lemma same_ledger_touch [simp]: "same_ledger b (restore_exchange_account k (exchange_account_of b k) b)"
  using acct_total_restore [of b base_of k "exchange_account_of b k"]
    acct_total_restore [of b compute_of k "exchange_account_of b k"]
  by (auto simp: same_ledger_def)

lemma exchange_inv_same_ledger: "same_ledger b b' \<Longrightarrow> exchange_inv ts b \<Longrightarrow> exchange_inv ts b'"
  by (simp add: same_ledger_def exchange_inv_def account_ok_def locked_total_def Let_def)

lemma restore_trades_frame [simp]:
  "bd_orders (fold restore_trade trs b) = bd_orders b"
  "bd_exchange_accounts (fold restore_trade trs b) = bd_exchange_accounts b"
  by (induction trs arbitrary: b) (simp_all add: restore_trade_def)

lemma exchange_inv_trades [simp]: "exchange_inv ts (fold restore_trade trs b) = exchange_inv ts b"
  by (simp add: exchange_inv_def account_ok_def locked_total_def exchange_account_of_def Let_def)

lemma acct_total_trades [simp]: "acct_total f (fold restore_trade trs b) = acct_total f b"
  by (simp add: acct_total_def)

lemma lock_for_order_ok:
  assumes "lock_for_order sd n q a = r" "ex_locked_base a \<le> ex_base_balance a" "ex_locked_compute a \<le> ex_compute_balance a"
  shows "(\<exists>x y. r = Err (InsufficientBalance x y)) \<or>
    (\<exists>a'. r = Ok a' \<and> ex_base_balance a' = ex_base_balance a \<and> ex_compute_balance a' = ex_compute_balance a
       \<and> ex_locked_base a' \<le> ex_base_balance a \<and> ex_locked_compute a' \<le> ex_compute_balance a
       \<and> unat (ex_locked_base a') = unat (ex_locked_base a) + (if sd = Buy then unat n else 0)
       \<and> unat (ex_locked_compute a') = unat (ex_locked_compute a) + (if sd = Sell then unat q else 0))"
proof -
  have add: "plus_u l n = (Ok (l + n) :: u64 board_result) \<and> unat (l + n) = unat l + unat n \<and> l + n \<le> v"
    if "l \<le> v" "n \<le> saturating_sub v l" for l n v :: u64
  proof -
    have "unat l + unat n \<le> unat v"
      using that by (simp add: word_le_nat_alt unat_saturating_sub)
    moreover from this have "unat l + unat n < 2 ^ 64" using u64_bound [of v] by linarith
    ultimately show ?thesis by (simp add: plus_u_fits unat_plus_fits word_le_nat_alt)
  qed
  show ?thesis
    using assms add [OF assms(2), of n] add [OF assms(3), of q]
    by (cases sd; cases r) (auto simp: lock_for_order_def Let_def not_less split: if_splits)
qed

definition new_order :: "uuid \<Rightarrow> public_key \<Rightarrow> side \<Rightarrow> u64 \<Rightarrow> u64 \<Rightarrow> instant \<Rightarrow> order" where
  "new_order i owner sd price quantity now =
     \<lparr>or_id = i, or_owner = owner, or_side = sd, or_price = price, or_quantity = quantity,
      or_filled = 0, or_status = OOpen, or_created_at = now\<rparr>"

lemma place_locks:
  assumes inv: "exchange_inv [] b" and fit: "totals_fit b"
    and p: "price \<noteq> 0" "checked_mul price quantity = Some n"
    and lock: "lock_for_order sd n quantity (exchange_account_of b owner) = Ok a"
  shows "matching (new_order i owner sd price quantity now) (restore_exchange_account owner a b)
       \<and> acct_total base_of (restore_exchange_account owner a b) = acct_total base_of b
       \<and> acct_total compute_of (restore_exchange_account owner a b) = acct_total compute_of b"
proof -
  let ?A = "exchange_account_of b owner" and ?b1 = "restore_exchange_account owner a b"
  let ?t = "new_order i owner sd price quantity now"
  have n: "unat n = unat price * unat quantity" "unat price * unat quantity < 2 ^ 64"
    using p(2) by (auto simp: checked_mul_eq_Some unat_times_fits)
  note inv' = inv [unfolded exchange_inv_def]
  have acct: "account_ok [] b k" for k using inv' by simp
  then have le: "ex_locked_base ?A \<le> ex_base_balance ?A" "ex_locked_compute ?A \<le> ex_compute_balance ?A"
    by (auto simp: account_ok_def Let_def)
  have a: "ex_base_balance a = ex_base_balance ?A" "ex_compute_balance a = ex_compute_balance ?A"
      "ex_locked_base a \<le> ex_base_balance ?A" "ex_locked_compute a \<le> ex_compute_balance ?A"
      "unat (ex_locked_base a) = unat (ex_locked_base ?A) + (if sd = Buy then unat n else 0)"
      "unat (ex_locked_compute a) = unat (ex_locked_compute ?A) + (if sd = Sell then unat quantity else 0)"
    using lock_for_order_ok [OF lock le] by auto
  have tot: "acct_total f ?b1 = acct_total f b" if "f a = f ?A" "zero_on_empty f" for f
    using acct_total_restore [of b f owner a] inv' that by simp
  have lk: "locked_total s k [?t] ?b1 = locked_total s k [] b
      + (if s = sd \<and> k = owner then (case sd of Buy \<Rightarrow> unat n | Sell \<Rightarrow> unat quantity) else 0)" for s k
    using n by (auto simp: locked_total_def open_lock_def new_order_def lock_unit_def split: side.splits)
  have "account_ok [?t] ?b1 k" for k
    using acct [of k] a lk [of Buy k] lk [of Sell k]
    by (cases "k = owner"; cases sd) (auto simp: account_ok_def Let_def)
  moreover have "order_ok ?t" using p n(2) by (simp add: order_ok_def new_order_def word_neq_0_conv)
  ultimately have "exchange_inv [?t] ?b1" using inv' by (simp add: exchange_inv_def)
  moreover have totals: "acct_total base_of ?b1 = acct_total base_of b" "acct_total compute_of ?b1 = acct_total compute_of b"
    by (rule tot; simp add: a base_of_def compute_of_def)+
  ultimately show ?thesis using fit by (simp add: matching_def totals_fit_def new_order_def)
qed

text \<open>The placed order enters the book with the lock it still needs.\<close>

lemma place_enters:
  assumes "matching t b" "or_filled t \<le> or_quantity t" "bm_get (bd_orders b) (or_id t) = None"
  shows "exchange_inv [] (restore_order (if or_quantity t \<le> or_filled t then t\<lparr>or_status := Filled\<rparr> else t) b)"
proof -
  let ?t = "if or_quantity t \<le> or_filled t then t\<lparr>or_status := Filled\<rparr> else t"
  have inv: "exchange_inv [t] b" and st: "or_status t = OOpen" using assms(1) by (auto simp: matching_def)
  note inv' = inv [unfolded exchange_inv_def]
  have "open_lock sd k ?t = open_lock sd k t" for sd k
    using assms(2) by (auto simp: open_lock_def word_le_nat_alt)
  then have "locked_total sd k [] (restore_order ?t b) = locked_total sd k [t] b" for sd k
    using locked_total_restore_order [of b sd k "[]" ?t] inv' assms(3) by (simp add: locked_total_def split: if_splits)
  then have "account_ok [] (restore_order ?t b) k" for k
    using inv' by (auto simp: account_ok_def Let_def)
  moreover have "order_ok ?t" "or_status ?t = OOpen \<Longrightarrow> or_filled ?t < or_quantity ?t"
    using inv' by (auto simp: order_ok_def split: if_splits)
  ultimately show ?thesis using inv' by (auto simp: exchange_inv_def)
qed

definition settled_order :: "order \<Rightarrow> order" where
  "settled_order t = (if or_quantity t \<le> or_filled t then t\<lparr>or_status := Filled\<rparr> else t)"

text \<open>Every placement is a refusal that leaves the ledger alone, or a run of fills.\<close>

lemma place_order_cases:
  assumes inv: "exchange_inv [] b" and fit: "totals_fit b" and run: "place_order now fresh owner sd price quantity b = (res, b')"
  obtains (refused) e where "res = Err e" "same_ledger b b'"
  | (placed) a trs t' b2 where
      "matching (new_order (fresh 0) owner sd price quantity now) (restore_exchange_account owner a b)"
      "acct_total base_of (restore_exchange_account owner a b) = acct_total base_of b"
      "acct_total compute_of (restore_exchange_account owner a b) = acct_total compute_of b"
      "fill_run (new_order (fresh 0) owner sd price quantity now) (restore_exchange_account owner a b) trs t' b2"
      "or_filled t' < or_quantity t' \<Longrightarrow> best_resting_match b2 t' = None"
      "res = Ok (settled_order t', trs)" "b' = fold restore_trade trs (restore_order (settled_order t') b2)"
proof (cases "price = 0 \<or> quantity = 0")
  case True
  then show ?thesis using run refused by (auto simp: place_order_def)
next
  case pq: False
  show ?thesis
  proof (cases "checked_mul price quantity")
    case None
    then show ?thesis using run refused pq by (auto simp: place_order_def)
  next
    case (Some n)
    let ?A = "exchange_account_of b owner"
    have "account_ok [] b owner" using inv by (simp add: exchange_inv_def)
    then have le: "ex_locked_base ?A \<le> ex_base_balance ?A" "ex_locked_compute ?A \<le> ex_compute_balance ?A"
      by (auto simp: account_ok_def Let_def)
    from lock_for_order_ok [OF refl le, of sd n quantity]
    consider x y where "lock_for_order sd n quantity ?A = Err (InsufficientBalance x y)"
      | a where "lock_for_order sd n quantity ?A = Ok a" by blast
    then show ?thesis
    proof cases
      case 1
      then show ?thesis using run refused same_ledger_touch [of b owner] pq Some by (auto simp: place_order_def Let_def)
    next
      case 2
      let ?b1 = "restore_exchange_account owner a b" and ?t = "new_order (fresh 0) owner sd price quantity now"
      have m: "matching ?t ?b1" and tot: "acct_total base_of ?b1 = acct_total base_of b"
        "acct_total compute_of ?b1 = acct_total compute_of b"
        using place_locks [OF inv fit _ Some 2] pq by auto
      have "book_count ?b1 < Suc (length (bd_orders ?b1))" using book_count_le [of ?b1] by simp
      then obtain t' trs b2 where loop:
        "match_loop (Suc (length (bd_orders ?b1))) now fresh ?t [] ?b1 = Ok (t', trs, b2)"
        "fill_run ?t ?b1 trs t' b2" "or_filled t' < or_quantity t' \<longrightarrow> best_resting_match b2 t' = None"
        using match_loop_runs [OF m, of "Suc (length (bd_orders ?b1))" now fresh "[]"] by auto
      from run have "(res, b') = (Ok (settled_order t', trs), fold restore_trade trs (restore_order (settled_order t') b2))"
        unfolding place_order_def using pq Some 2 loop(1) [unfolded new_order_def]
        by (simp add: Let_def settled_order_def del: match_loop.simps)
      with placed [OF m tot loop(2)] loop(3) show ?thesis by simp
    qed
  qed
qed

lemma settled_order_frame [simp]:
  "or_id (settled_order t) = or_id t" "or_filled (settled_order t) = or_filled t"
  "or_quantity (settled_order t) = or_quantity t" "or_side (settled_order t) = or_side t"
  "or_price (settled_order t) = or_price t" "or_owner (settled_order t) = or_owner t"
  by (simp_all add: settled_order_def)

text \<open>The facts of a successful placement the properties need.\<close>

lemma placed_facts:
  assumes "matching (new_order i owner sd price quantity now) b1" "fill_run (new_order i owner sd price quantity now) b1 trs t' b2"
  shows "matching t' b2" "or_id t' = i" "or_owner t' = owner" "or_side t' = sd" "or_price t' = price"
    "or_quantity t' = quantity" "unat (or_filled t') = traded trs" "or_filled t' \<le> quantity"
proof -
  let ?t = "new_order i owner sd price quantity now"
  have t: "matching t' b2" "t' = ?t\<lparr>or_filled := or_filled t'\<rparr>" using fill_run_taker [OF assms(2,1)] by auto
  show "matching t' b2" by (rule t(1))
  show "or_id t' = i" "or_owner t' = owner" "or_side t' = sd" "or_price t' = price" "or_quantity t' = quantity"
    by (subst t(2), simp add: new_order_def)+
  show "unat (or_filled t') = traded trs" using fill_run_quantity [OF assms(2,1)] by (simp add: new_order_def)
  have "order_ok t'" using t(1) by (simp add: matching_def exchange_inv_def)
  then show "or_filled t' \<le> quantity" using \<open>or_quantity t' = quantity\<close> by (simp add: order_ok_def)
qed

lemma place_order_keeps:
  assumes inv: "exchange_inv [] b" and fit: "totals_fit b" and new: "bm_get (bd_orders b) (fresh 0) = None"
    and run: "place_order now fresh owner sd price quantity b = (res, b')"
  shows "returns res \<and> exchange_inv [] b'"
  using inv fit run
proof (cases rule: place_order_cases)
  case refused
  then show ?thesis using exchange_inv_same_ledger inv by simp
next
  case (placed a trs t' b2)
  note f = placed_facts [OF placed(1,4)]
  have "bm_get (bd_orders b2) (or_id t') = None"
    using fill_run_keys [OF placed(4,1)] f(2) new by simp
  with place_enters [OF f(1)] f(6,8) have "exchange_inv [] (restore_order (settled_order t') b2)"
    by (simp add: settled_order_def)
  with placed(6,7) show ?thesis by simp
qed

subsection \<open>Cancelling, deposits and withdrawals\<close>

text \<open>Replacing one account by one with the same locks and enough balance.\<close>

lemma exchange_inv_set_account:
  assumes "exchange_inv ts b" "ex_locked_base a = ex_locked_base (exchange_account_of b k)"
    "ex_locked_compute a = ex_locked_compute (exchange_account_of b k)"
    "ex_locked_base a \<le> ex_base_balance a" "ex_locked_compute a \<le> ex_compute_balance a"
  shows "exchange_inv ts (restore_exchange_account k a b)"
  using assms by (auto simp: exchange_inv_def account_ok_def Let_def)

lemma exchange_invD:
  assumes "exchange_inv ts b"
  shows "ex_locked_base (exchange_account_of b k) \<le> ex_base_balance (exchange_account_of b k)"
    "ex_locked_compute (exchange_account_of b k) \<le> ex_compute_balance (exchange_account_of b k)"
  using assms by (auto simp: exchange_inv_def account_ok_def Let_def)

lemma plus_u_ge: "plus_u a b = Ok c \<Longrightarrow> x \<le> a \<Longrightarrow> x \<le> c"
  by (auto simp: plus_u_Ok word_le_nat_alt unat_plus_fits)

lemma credit_keeps:
  assumes "exchange_inv ts b"
  shows "exchange_inv ts (snd (credit_base k amount b))" "exchange_inv ts (snd (credit_compute k amount b))"
    "exchange_inv ts (snd (credit_back_withdrawal k amount b))"
proof -
  note le = exchange_invD [OF assms, of k]
  have "exchange_inv ts (snd (update_account k (account_add_base amount) b))"
    using assms le
    by (cases "plus_u (ex_base_balance (exchange_account_of b k)) amount :: u64 board_result")
      (auto simp: update_account_def account_add_base_def intro!: exchange_inv_set_account intro: plus_u_ge)
  moreover have "exchange_inv ts (snd (update_account k (account_add_compute amount) b))"
    using assms le
    by (cases "plus_u (ex_compute_balance (exchange_account_of b k)) amount :: u64 board_result")
      (auto simp: update_account_def account_add_compute_def intro!: exchange_inv_set_account intro: plus_u_ge)
  ultimately show "exchange_inv ts (snd (credit_base k amount b))" "exchange_inv ts (snd (credit_compute k amount b))"
    "exchange_inv ts (snd (credit_back_withdrawal k amount b))"
    by (simp_all add: credit_base_def credit_compute_def credit_back_withdrawal_def)
qed

lemma debit_keeps:
  assumes "exchange_inv ts b"
  shows "exchange_inv ts (snd (debit_for_withdrawal k amount b))"
proof -
  let ?A = "exchange_account_of b k"
  note le = exchange_invD [OF assms, of k]
  have "ex_locked_base ?A \<le> ex_base_balance ?A - amount"
    if "\<not> saturating_sub (ex_base_balance ?A) (ex_locked_base ?A) < amount"
  proof -
    have "unat amount + unat (ex_locked_base ?A) \<le> unat (ex_base_balance ?A)"
      using that le(1) by (simp add: not_less word_le_nat_alt unat_saturating_sub)
    moreover from this have "amount \<le> ex_base_balance ?A" by (simp add: word_le_nat_alt)
    ultimately show ?thesis by (simp add: word_le_nat_alt unat_sub_le)
  qed
  with assms le show ?thesis
    by (auto simp: debit_for_withdrawal_def Let_def intro!: exchange_inv_set_account)
qed

lemma exchange_inv_deposits [simp]: "exchange_inv ts (b\<lparr>bd_pending_deposits := d\<rparr>) = exchange_inv ts b"
  by (simp add: exchange_inv_def account_ok_def locked_total_def exchange_account_of_def Let_def)

lemma with_step_snd [simp]: "snd (with_step r (\<lambda>x s. (f x, s))) = snd r"
  by (cases "fst r") (auto simp: with_step_def)

lemma confirm_deposit_keeps:
  assumes "exchange_inv ts b"
  shows "exchange_inv ts (snd (confirm_exchange_deposit d obs fee now b))"
  using assms by (auto simp: confirm_exchange_deposit_def Let_def split: option.split
    intro!: credit_keeps(1))

lemma cancel_cases:
  assumes inv: "exchange_inv [] b" and run: "cancel_order oid caller b = (res, b')"
  obtains (refused) e where "res = Err e" "b' = b"
    "bm_get (bd_orders b) oid = None \<or> (\<exists>x. bm_get (bd_orders b) oid = Some x \<and> (or_owner x \<noteq> caller \<or> or_status x \<noteq> OOpen))"
  | (cancelled) x a where "bm_get (bd_orders b) oid = Some x" "or_owner x = caller" "or_status x = OOpen"
      "res = Ok (x\<lparr>or_status := Cancelled\<rparr>)"
      "b' = restore_exchange_account caller a (restore_order (x\<lparr>or_status := Cancelled\<rparr>) b)"
      "ex_base_balance a = ex_base_balance (exchange_account_of b caller)"
      "ex_compute_balance a = ex_compute_balance (exchange_account_of b caller)"
      "unat (ex_locked_base a) + open_lock Buy caller x = unat (ex_locked_base (exchange_account_of b caller))"
      "unat (ex_locked_compute a) + open_lock Sell caller x = unat (ex_locked_compute (exchange_account_of b caller))"
proof (cases "\<exists>x. bm_get (bd_orders b) oid = Some x \<and> or_owner x = caller \<and> or_status x = OOpen")
  case False
  then show ?thesis using run refused by (auto simp: cancel_order_def split: option.splits if_splits)
next
  case True
  then obtain x where x: "bm_get (bd_orders b) oid = Some x" "or_owner x = caller" "or_status x = OOpen" by blast
  let ?A = "exchange_account_of b caller"
  have ok: "or_id x = oid" "order_ok x" "or_filled x \<le> or_quantity x" and acct: "account_ok [] b caller"
    using inv x(1) by (auto simp: exchange_inv_def order_ok_def)
  define rem where "rem = or_quantity x - or_filled x"
  have rem: "unat rem = unat (or_quantity x) - unat (or_filled x)" using ok(3) by (simp add: rem_def unat_sub_le)
  have "unat (or_price x) * unat rem \<le> unat (or_price x) * unat (or_quantity x)" by (simp add: rem)
  also have "\<dots> < 2 ^ 64" using ok(2) by (simp add: order_ok_def)
  finally have fits: "unat (or_price x) * unat rem < 2 ^ 64" .
  have lk: "open_lock Buy caller x \<le> unat (ex_locked_base ?A)" "open_lock Sell caller x \<le> unat (ex_locked_compute ?A)"
    using acct open_lock_le_total [of b oid x _ caller "[]"] inv x(1)
    by (auto simp: account_ok_def Let_def exchange_inv_def)
  define a where "a = (case or_side x of Buy \<Rightarrow> ?A\<lparr>ex_locked_base := ex_locked_base ?A - or_price x * rem\<rparr>
      | Sell \<Rightarrow> ?A\<lparr>ex_locked_compute := ex_locked_compute ?A - rem\<rparr>)"
  have b1: "b\<lparr>bd_orders := bm_insert oid (x\<lparr>or_status := Cancelled\<rparr>) (bd_orders b)\<rparr> = restore_order (x\<lparr>or_status := Cancelled\<rparr>) b"
    by (simp add: restore_order_def ok(1))
  have run': "(res, b') = (Ok (x\<lparr>or_status := Cancelled\<rparr>), restore_exchange_account caller a (restore_order (x\<lparr>or_status := Cancelled\<rparr>) b))"
    using run x lk fits rem ok(3) unfolding cancel_order_def
    by (cases "or_side x") (simp_all add: b1 Let_def minus_u_def rem_def [symmetric] times_u_fits a_def
        open_lock_def lock_unit_def word_le_nat_alt unat_times_fits)
  show ?thesis
    by (rule cancelled [OF x, of a]) (use run' lk fits rem x in \<open>auto simp: a_def open_lock_def lock_unit_def unat_sub_le
      word_le_nat_alt unat_times_fits split: side.splits\<close>)
qed

lemma cancel_keeps:
  assumes inv: "exchange_inv [] b" and run: "cancel_order oid caller b = (res, b')"
  shows "returns res \<and> exchange_inv [] b'"
  using inv run
proof (cases rule: cancel_cases)
  case refused
  then show ?thesis using inv by simp
next
  case (cancelled x a)
  note inv' = inv [unfolded exchange_inv_def]
  let ?x = "x\<lparr>or_status := Cancelled\<rparr>"
  have idx: "or_id x = oid" "order_ok x" using inv' cancelled(1) by auto
  have "locked_total sd k [] (restore_order ?x b) + open_lock sd k x = locked_total sd k [] b" for sd k
    using locked_total_restore_order [of b sd k "[]" ?x] inv' cancelled(1) idx(1) by (simp add: open_lock_def)
  note lk = this [of Buy] this [of Sell]
  have other: "open_lock sd k x = 0" if "k \<noteq> caller" for sd k using that cancelled(2) by (simp add: open_lock_def)
  have "account_ok [] b' k" for k
  proof -
    have "account_ok [] b k" using inv' by simp
    with lk [of k] other [of k Buy] other [of k Sell] cancelled(5-9) show ?thesis
      by (cases "k = caller") (auto simp: account_ok_def Let_def word_le_nat_alt)
  qed
  moreover have "order_ok ?x" using idx(2) by (simp add: order_ok_def)
  ultimately show ?thesis using inv' cancelled(4,5) idx(1) by (auto simp: exchange_inv_def)
qed

subsection \<open>The exchange as a state machine\<close>

datatype exchange_call =
    PlaceOrder instant "nat \<Rightarrow> uuid" public_key side u64 u64
  | CancelOrder uuid public_key
  | CreditBase public_key u64
  | CreditCompute public_key u64
  | CreditBackWithdrawal public_key u64
  | DebitForWithdrawal public_key u64
  | ConfirmExchangeDeposit uuid u64 u64 instant

fun run_exchange :: "exchange_call \<Rightarrow> task_board \<Rightarrow> task_board" where
  "run_exchange (PlaceOrder now fresh owner sd price quantity) b = snd (place_order now fresh owner sd price quantity b)"
| "run_exchange (CancelOrder oid caller) b = snd (cancel_order oid caller b)"
| "run_exchange (CreditBase k amount) b = snd (credit_base k amount b)"
| "run_exchange (CreditCompute k amount) b = snd (credit_compute k amount b)"
| "run_exchange (CreditBackWithdrawal k amount) b = snd (credit_back_withdrawal k amount b)"
| "run_exchange (DebitForWithdrawal k amount) b = snd (debit_for_withdrawal k amount b)"
| "run_exchange (ConfirmExchangeDeposit d observed fee now) b = snd (confirm_exchange_deposit d observed fee now b)"

text \<open>
  What a placement is given: an order id not in use, and balances far enough below the 64-bit
  range for the fee multiplication.
\<close>

fun call_allowed :: "exchange_call \<Rightarrow> task_board \<Rightarrow> bool" where
  "call_allowed (PlaceOrder now fresh owner sd price quantity) b \<longleftrightarrow>
     totals_fit b \<and> get_order b (fresh 0) = None"
| "call_allowed _ b \<longleftrightarrow> True"

definition exchange_reachable :: "task_board \<Rightarrow> bool" where
  "exchange_reachable b \<longleftrightarrow> reaches call_allowed run_exchange task_board_new b"

lemma run_exchange_keeps:
  assumes "exchange_inv [] b" "call_allowed c b"
  shows "exchange_inv [] (run_exchange c b)"
proof (cases c)
  case (PlaceOrder now fresh owner sd price quantity)
  with assms show ?thesis
    using place_order_keeps [of b fresh now owner sd price quantity]
    by (metis call_allowed.simps(1) get_order_def prod.collapse run_exchange.simps(1))
next
  case (CancelOrder oid caller)
  with assms show ?thesis using cancel_keeps [of b oid caller] by (metis prod.collapse run_exchange.simps(2))
qed (use assms credit_keeps debit_keeps confirm_deposit_keeps in simp_all)

lemma exchange_inv_new: "exchange_inv [] task_board_new"
proof -
  have "exchange_account_of task_board_new k = empty_account" for k
    by (simp add: exchange_account_of_def task_board_new_def)
  then show ?thesis
    by (simp add: exchange_inv_def task_board_new_def account_ok_def locked_total_def bm_total_def empty_account_def Let_def)
qed

interpretation exch: call_machine task_board_new call_allowed run_exchange "exchange_inv []" "\<lambda>_ _. True"
  by unfold_locales (auto intro: exchange_inv_new run_exchange_keeps)

lemma exchange_reachable_inv: "exchange_reachable b \<Longrightarrow> exchange_inv [] b"
  unfolding exchange_reachable_def by (rule exch.reached_inv)

subsection \<open>Properties\<close>

text \<open>
  C10: On every board the exchange reaches, each account's locked base currency is exactly what
  its owner's open buy orders still reserve (price times unfilled quantity), its locked compute
  exactly the unfilled quantity of its open sell orders, and neither exceeds the balance it is
  locked from.
\<close>

theorem exchange_locks_exact:
  assumes "exchange_reachable b"
  shows "unat (ex_locked_base (exchange_account_of b k)) = bm_total (open_lock Buy k) (bd_orders b)
     \<and> ex_locked_base (exchange_account_of b k) \<le> ex_base_balance (exchange_account_of b k)
     \<and> unat (ex_locked_compute (exchange_account_of b k)) = bm_total (open_lock Sell k) (bd_orders b)
     \<and> ex_locked_compute (exchange_account_of b k) \<le> ex_compute_balance (exchange_account_of b k)"
  using exchange_reachable_inv [OF assms] by (simp add: exchange_inv_def account_ok_def locked_total_def Let_def)

text \<open>
  C9: Placing an order on a board the exchange reaches always comes back: no overflow panic and
  no endless matching.  It creates no value: all base balances together lose exactly the taker
  fees its trades record against a seller, all compute balances those recorded against a buyer,
  and a refused placement changes no order and no account.
\<close>

theorem place_order_conserves:
  assumes "exchange_reachable b" "totals_fit b" "place_order now fresh owner sd price quantity b = (res, b')"
  shows "returns res
     \<and> (case res of
          Ok (placed, trades) \<Rightarrow>
            acct_total base_of b' + fees Sell trades = acct_total base_of b
            \<and> acct_total compute_of b' + fees Buy trades = acct_total compute_of b
        | _ \<Rightarrow> bd_orders b' = bd_orders b \<and> (\<forall>k. exchange_account_of b' k = exchange_account_of b k))"
  using exchange_reachable_inv [OF assms(1)] assms(2,3)
proof (cases rule: place_order_cases)
  case (placed a trs t' b2)
  then show ?thesis using fill_run_totals [OF placed(4,1)] by simp
qed (simp add: same_ledger_def)

text \<open>
  The trades of a placed order: each is made at the price of the resting order it hits,
  which is within the limit of the new order, between two different owners, for a positive
  quantity; together they fill exactly the reported amount and never more than was ordered.
\<close>

theorem place_order_trades_fair:
  assumes "exchange_reachable b" "totals_fit b"
    "place_order now fresh owner sd price quantity b = (Ok (placed, trades), b')"
  shows "unat (or_filled placed) = traded trades \<and> or_filled placed \<le> quantity
     \<and> list_all (\<lambda>tr. price_crosses sd price (tr_price tr) \<and> tr_buyer tr \<noteq> tr_seller tr \<and> 0 < tr_quantity tr
          \<and> tr_taker_side tr = sd
          \<and> (case get_order b (resting_id tr) of None \<Rightarrow> False
             | Some r \<Rightarrow> or_status r = OOpen \<and> or_side r = opposite sd \<and> or_owner r \<noteq> owner \<and> tr_price tr = or_price r)) trades"
  using exchange_reachable_inv [OF assms(1)] assms(2,3)
proof (cases rule: place_order_cases)
  case (placed a trs t' b2)
  note f = placed_facts [OF placed(1,4)]
  have "placed = settled_order t'" "trades = trs" using placed(6) by auto
  moreover have "price_crosses sd price (tr_price tr) \<and> tr_buyer tr \<noteq> tr_seller tr \<and> 0 < tr_quantity tr
      \<and> tr_taker_side tr = sd \<and> (case get_order b (resting_id tr) of None \<Rightarrow> False
             | Some r \<Rightarrow> or_status r = OOpen \<and> or_side r = opposite sd \<and> or_owner r \<noteq> owner \<and> tr_price tr = or_price r)"
    if "tr \<in> set trs" for tr
    using fill_run_trades [OF placed(4,1) that] by (auto simp: new_order_def matches_taker_def get_order_def)
  ultimately show ?thesis using f by (simp add: list_all_iff)
qed simp

text \<open>
  C11: Price-time priority.  If a placed order traded with a resting order, then every open
  order of the other side, of another owner and within the limit, that stood before that
  resting order (a better price, or the same price and an earlier time) has been filled.
\<close>

theorem place_order_price_time_priority:
  assumes "exchange_reachable b" "totals_fit b" "get_order b (fresh 0) = None"
    "place_order now fresh owner sd price quantity b = (Ok (placed, trades), b')"
    and "tr \<in> set trades" "get_order b (resting_id tr) = Some r"
    and "get_order b j = Some x" "or_status x = OOpen" "or_side x = opposite sd" "or_owner x \<noteq> owner"
      "price_crosses sd price (or_price x)"
    and "priority (opposite sd) x < priority (opposite sd) r"
  shows "map_option or_status (get_order b' j) = Some Filled"
  using exchange_reachable_inv [OF assms(1)] assms(2,4)
proof (cases rule: place_order_cases)
  case (placed a trs t' b2)
  have "\<exists>x'. bm_get (bd_orders b2) j = Some x' \<and> or_status x' = Filled"
    using assms(5-12) placed(6)
    by (intro fill_run_priority [OF placed(4,1), of tr r j x]) (auto simp: get_order_def new_order_def matches_taker_def)
  moreover have "j \<noteq> or_id t'" using placed_facts(2) [OF placed(1,4)] assms(3,7) by auto
  ultimately show ?thesis using placed(7) by (auto simp: get_order_def)
qed simp

text \<open>
  Matching is exhaustive.  When a placed order is not completely filled, it rests in the
  book under its id, and no open order of another owner on the other side is left within its
  limit.
\<close>

theorem place_order_exhausts_book:
  assumes "exchange_reachable b" "totals_fit b"
    "place_order now fresh owner sd price quantity b = (Ok (placed, trades), b')" "or_filled placed < quantity"
  shows "get_order b' (fresh 0) = Some placed \<and> or_status placed = OOpen
     \<and> best_resting_match b' placed = None
     \<and> \<not> (\<exists>j x. get_order b' j = Some x \<and> matches_taker placed x)"
  using exchange_reachable_inv [OF assms(1)] assms(2,3)
proof (cases rule: place_order_cases)
  case (placed a trs t' b2)
  note f = placed_facts [OF placed(1,4)]
  have p: "placed = t'" using placed(6) assms(4) f(6) by (auto simp: settled_order_def split: if_splits)
  have wf: "bm_wf (bd_orders b2)" using f(1) by (simp add: matching_def exchange_inv_def)
  have none: "\<not> (\<exists>j x. get_order b2 j = Some x \<and> matches_taker t' x)"
    using placed(5) best_resting_match_None [OF wf, of t'] assms(4) p f(6) by (auto simp: get_order_def)
  have b': "bd_orders b' = bm_insert (or_id t') t' (bd_orders b2)" using placed(6,7) p by simp
  have "\<not> matches_taker t' t'" by (simp add: matches_taker_def)
  with none b' have none': "\<not> (\<exists>j x. get_order b' j = Some x \<and> matches_taker t' x)"
    by (auto simp: get_order_def split: if_splits)
  moreover have "best_resting_match b' t' = None"
    using none' best_resting_match_None [of b' t'] wf b' by (auto simp: get_order_def)
  moreover have "or_status t' = OOpen" using f(1) by (simp add: matching_def)
  ultimately show ?thesis using b' f(2) p by (simp add: get_order_def)
qed simp

text \<open>
  An open order can be cancelled by its owner and by nobody else; cancelling marks it
  cancelled, releases exactly the lock its unfilled part held, leaves both balances as they
  were, and touches no other order and no other account.
\<close>

theorem cancel_order_releases_lock:
  assumes "exchange_reachable b" "cancel_order oid caller b = (res, b')"
  shows "case get_order b oid of
      None \<Rightarrow> res = Err OrderNotFound \<and> b' = b
    | Some x \<Rightarrow>
        if or_owner x \<noteq> caller then res = Err NotOrderOwner \<and> b' = b
        else if or_status x \<noteq> OOpen then res = Err OrderNotOpen \<and> b' = b
        else res = Ok (x\<lparr>or_status := Cancelled\<rparr>)
          \<and> bd_orders b' = bm_insert oid (x\<lparr>or_status := Cancelled\<rparr>) (bd_orders b)
          \<and> (let a = exchange_account_of b caller; a' = exchange_account_of b' caller
             in ex_base_balance a' = ex_base_balance a \<and> ex_compute_balance a' = ex_compute_balance a
                \<and> unat (ex_locked_base a') + open_lock Buy caller x = unat (ex_locked_base a)
                \<and> unat (ex_locked_compute a') + open_lock Sell caller x = unat (ex_locked_compute a))
          \<and> \<not> (\<exists>k. k \<noteq> caller \<and> exchange_account_of b' k \<noteq> exchange_account_of b k)"
  using exchange_reachable_inv [OF assms(1)] assms(2)
proof (cases rule: cancel_cases)
  case (refused e)
  then show ?thesis using assms(2) by (auto simp: cancel_order_def get_order_def split: option.splits)
next
  case (cancelled x a)
  have "or_id x = oid" using exchange_reachable_inv [OF assms(1)] cancelled(1) by (auto simp: exchange_inv_def)
  with cancelled show ?thesis by (auto simp: get_order_def Let_def)
qed

text \<open>
  A withdrawal on a board the exchange reaches is refused exactly when the amount is zero
  or more than the balance not locked in open orders; otherwise it takes the amount from the
  owner's base balance, and what remains still covers the locks.
\<close>

theorem debit_for_withdrawal_leaves_locks_covered:
  assumes "exchange_reachable b" "debit_for_withdrawal owner amount b = (res, b')"
  shows "let a = exchange_account_of b owner; a' = exchange_account_of b' owner
     in if amount = 0 then res = Err ZeroWithdrawal \<and> b' = b
        else if unat (ex_base_balance a) < unat (ex_locked_base a) + unat amount
        then res = Err (InsufficientBalance (ex_base_balance a - ex_locked_base a) amount) \<and> a' = a
        else res = Ok () \<and> base_of a' + unat amount = base_of a \<and> ex_locked_base a' = ex_locked_base a
          \<and> ex_locked_base a' \<le> ex_base_balance a'
          \<and> acct_total base_of b' + unat amount = acct_total base_of b"
proof -
  let ?A = "exchange_account_of b owner"
  have inv: "exchange_inv [] b" by (rule exchange_reachable_inv [OF assms(1)])
  have le: "ex_locked_base ?A \<le> ex_base_balance ?A" using exchange_invD [OF inv] by blast
  have av: "saturating_sub (ex_base_balance ?A) (ex_locked_base ?A) = ex_base_balance ?A - ex_locked_base ?A"
    "saturating_sub (ex_base_balance ?A) (ex_locked_base ?A) < amount
       \<longleftrightarrow> unat (ex_base_balance ?A) < unat (ex_locked_base ?A) + unat amount"
    using le by (auto simp: saturating_sub_def word_less_nat_alt unat_sub_le word_le_nat_alt)
  show ?thesis
  proof (cases "amount = 0 \<or> unat (ex_base_balance ?A) < unat (ex_locked_base ?A) + unat amount")
    case True
    then show ?thesis using assms(2) av by (auto simp: debit_for_withdrawal_def Let_def)
  next
    case False
    let ?a = "?A\<lparr>ex_base_balance := ex_base_balance ?A - amount\<rparr>"
    have res: "res = Ok ()" "b' = restore_exchange_account owner ?a b"
      using False assms(2) av by (auto simp: debit_for_withdrawal_def Let_def)
    have "amount \<le> ex_base_balance ?A" using False by (simp add: word_le_nat_alt)
    then have base: "base_of ?a + unat amount = base_of ?A"
      by (simp add: base_of_def unat_sub_le word_le_nat_alt)
    moreover have "acct_total base_of b' + unat amount = acct_total base_of b"
      using acct_total_restore [of b base_of owner ?a] inv res(2) base by (simp add: exchange_inv_def)
    moreover have "ex_locked_base ?a \<le> ex_base_balance ?a"
      using debit_keeps [OF inv, of owner amount] assms(2) exchange_invD [of "[]" b' owner] res(2) by simp
    ultimately show ?thesis using False res by (simp add: Let_def)
  qed
qed

end
