(* ===== verification/Hub_Place.thy ===== *)
theory Hub_Place
  imports Hub_Orders
begin

text \<open>
  The handler of \<open>POST /exchange/orders\<close> (\<open>hub/src/handlers.rs\<close>, \<open>place_order\<close>) from the point
  where the signature is verified.  It does not place the order on the live board: it copies
  the accounts and resting orders the placement can touch (\<open>stage_order\<close>), places it there,
  credits the fees to the operator, and publishes the records that moved once the store has
  committed them.  The reference is the same placement made on the live board itself.
\<close>

datatype api_error = FromBoard board_error | Internal

definition taker_fee_totals :: "trade list \<Rightarrow> (u64 \<times> u64) board_result" where
  "taker_fee_totals trades =
     ofold (\<lambda>t (compute, base). case tr_taker_side t of
         Buy \<Rightarrow> obind (plus_u compute (tr_taker_fee t)) (\<lambda>c. Ok (c, base))
       | Sell \<Rightarrow> obind (plus_u base (tr_taker_fee t)) (\<lambda>v. Ok (compute, v))) trades (0, 0)"

definition credit_fees :: "public_key \<Rightarrow> trade list \<Rightarrow> task_board \<Rightarrow> (u64 \<times> u64) board_result \<times> task_board" where
  "credit_fees operator trades b =
     with_check (taker_fee_totals trades) b (\<lambda>(compute_fees, base_fees).
       with_step (if compute_fees > 0 then credit_compute operator compute_fees b else (Ok (), b)) (\<lambda>_ b1.
       with_step (if base_fees > 0 then credit_base operator base_fees b1 else (Ok (), b1)) (\<lambda>_ b2.
         (Ok (compute_fees, base_fees), b2))))"

text \<open>The records that moved; \<open>BTreeSet\<close>s are iterated in ascending order.\<close>

definition touched_orders :: "order \<Rightarrow> trade list \<Rightarrow> uuid list" where
  "touched_orders placed trades =
     filter (\<lambda>i. i \<noteq> or_id placed) (sort (remdups (concat (map (\<lambda>t. [tr_buy_order_id t, tr_sell_order_id t]) trades))))"

definition touched_accounts :: "order \<Rightarrow> trade list \<Rightarrow> public_key list \<Rightarrow> public_key list" where
  "touched_accounts placed trades sink =
     sort (remdups (concat (map (\<lambda>t. [tr_buyer t, tr_seller t]) trades) @ or_owner placed # sink))"

definition publish ::
  "order list \<Rightarrow> trade list \<Rightarrow> (public_key \<times> exchange_account) list \<Rightarrow> task_board \<Rightarrow> task_board" where
  "publish orders trades accounts live =
     fold (\<lambda>(k, a). restore_exchange_account k a) accounts (fold restore_trade trades (fold restore_order orders live))"

fun api_result :: "'a board_result \<Rightarrow> (api_error, 'b) outcome" where
  "api_result (Err e) = Err (FromBoard e)"
| "api_result Cutoff = Cutoff"
| "api_result _ = Panic"

definition handle_place_order ::
  "bool \<Rightarrow> instant \<Rightarrow> (nat \<Rightarrow> uuid) \<Rightarrow> public_key \<Rightarrow> public_key \<Rightarrow> side \<Rightarrow> u64 \<Rightarrow> u64 \<Rightarrow> task_board
     \<Rightarrow> (api_error, order) outcome \<times> task_board" where
  "handle_place_order committed now fresh operator pubkey sd price quantity live =
     (case place_order now fresh pubkey sd price quantity (stage_order live pubkey sd price operator) of
        (Ok (placed, trades), s1) \<Rightarrow>
          (case credit_fees operator trades s1 of
             (Ok (compute_fees, base_fees), s2) \<Rightarrow>
               let sink = (if compute_fees > 0 \<or> base_fees > 0 then [operator] else []);
                   orders = placed # List.map_filter (get_order s2) (touched_orders placed trades);
                   accounts = map (\<lambda>k. (k, exchange_account_of s2 k)) (touched_accounts placed trades sink)
               in if committed then (Ok placed, publish orders trades accounts live) else (Err Internal, live)
           | (r, _) \<Rightarrow> (api_result r, live))
      | (r, _) \<Rightarrow> (api_result r, live))"

text \<open>The reference: placement and fees on the live board.\<close>

definition place_directly ::
  "instant \<Rightarrow> (nat \<Rightarrow> uuid) \<Rightarrow> public_key \<Rightarrow> public_key \<Rightarrow> side \<Rightarrow> u64 \<Rightarrow> u64 \<Rightarrow> task_board \<Rightarrow> order board_result \<times> task_board" where
  "place_directly now fresh operator pubkey sd price quantity b =
     with_step (place_order now fresh pubkey sd price quantity b) (\<lambda>(placed, trades) b1.
     with_step (credit_fees operator trades b1) (\<lambda>_ b2. (Ok placed, b2)))"

subsection \<open>The staged copy\<close>

lemma bm_get_filter_value:
  assumes "bm_wf m"
  shows "bm_get (filter (\<lambda>e. Q (snd e)) m) k = Some v \<longleftrightarrow> bm_get m k = Some v \<and> Q v"
proof -
  have wf: "bm_wf (filter (\<lambda>e. Q (snd e)) m)" using assms by simp
  show ?thesis using bm_get_iff [OF wf] bm_get_iff [OF assms] by auto
qed

lemma option_ext: "(\<And>v. x = Some v \<longleftrightarrow> y = Some v) \<Longrightarrow> x = y"
  by (cases x; cases y) auto

lemma bm_values_filter_eq:
  assumes "bm_wf m" "bm_wf m'" "\<And>k v. Q v \<Longrightarrow> bm_get m k = Some v \<longleftrightarrow> bm_get m' k = Some v"
  shows "filter Q (bm_values m) = filter Q (bm_values m')"
proof -
  have "filter (\<lambda>e. Q (snd e)) m = filter (\<lambda>e. Q (snd e)) m'"
  proof (rule bm_ext)
    show "bm_get (filter (\<lambda>e. Q (snd e)) m) k = bm_get (filter (\<lambda>e. Q (snd e)) m') k" for k
      by (rule option_ext) (use assms(3) in \<open>auto simp: bm_get_filter_value assms(1,2)\<close>)
  qed (use assms in auto)
  then show ?thesis by (simp add: bm_values_def filter_map o_def)
qed

definition stage_one :: "task_board \<Rightarrow> order \<Rightarrow> task_board \<Rightarrow> task_board" where
  "stage_one b x s = restore_order x (restore_exchange_account (or_owner x) (exchange_account_of b (or_owner x)) s)"

lemma stage_fold:
  "exchange_account_of (fold (stage_one b) xs s) k =
     (if k \<in> or_owner ` set xs then exchange_account_of b k else exchange_account_of s k)"
  "bm_wf (bd_orders s) \<Longrightarrow> bm_wf (bd_orders (fold (stage_one b) xs s))"
  "(\<And>x. x \<in> set xs \<Longrightarrow> or_id x = i \<Longrightarrow> x = y) \<Longrightarrow>
     bm_get (bd_orders (fold (stage_one b) xs s)) i = (if i \<in> or_id ` set xs then Some y else bm_get (bd_orders s) i)"
proof (induction xs arbitrary: s)
  case (Cons x xs)
  { case 1 show ?case using Cons.IH(1) by (auto simp: stage_one_def) }
  { case 2 then show ?case using Cons.IH(2) by (auto simp: stage_one_def restore_order_def restore_exchange_account_def) }
  { case 3 then show ?case using Cons.IH(3) by (auto simp: stage_one_def restore_order_def restore_exchange_account_def) }
qed simp_all

definition stageable :: "public_key \<Rightarrow> side \<Rightarrow> u64 \<Rightarrow> order \<Rightarrow> bool" where
  "stageable owner sd price x \<longleftrightarrow> or_status x = OOpen \<and> or_owner x \<noteq> owner \<and> or_side x \<noteq> sd \<and> price_crosses sd price (or_price x)"

lemma stage_order_eq:
  "stage_order b owner sd price op = fold (stage_one b) (filter (stageable owner sd price) (bm_values (bd_orders b)))
     (restore_exchange_account op (exchange_account_of b op) (restore_exchange_account owner (exchange_account_of b owner) task_board_new))"
  by (simp add: stage_order_def stage_one_def [abs_def] stageable_def [abs_def])

text \<open>Two boards a placement cannot tell apart.\<close>

definition staged_for :: "order \<Rightarrow> task_board \<Rightarrow> task_board \<Rightarrow> bool" where
  "staged_for t s b \<longleftrightarrow> bm_wf (bd_orders s)
     \<and> (\<forall>i x. bm_get (bd_orders s) i = Some x \<longrightarrow> bm_get (bd_orders b) i = Some x
          \<and> exchange_account_of s (or_owner x) = exchange_account_of b (or_owner x))
     \<and> (\<forall>i x. bm_get (bd_orders b) i = Some x \<longrightarrow> matches_taker t x \<longrightarrow> bm_get (bd_orders s) i = Some x)
     \<and> exchange_account_of s (or_owner t) = exchange_account_of b (or_owner t)"

lemma staged_forD:
  assumes "staged_for t s b"
  shows "bm_wf (bd_orders s)"
    and "bm_get (bd_orders s) i = Some x \<Longrightarrow> bm_get (bd_orders b) i = Some x"
    and "bm_get (bd_orders s) i = Some x \<Longrightarrow> exchange_account_of s (or_owner x) = exchange_account_of b (or_owner x)"
    and "bm_get (bd_orders b) i = Some x \<Longrightarrow> matches_taker t x \<Longrightarrow> bm_get (bd_orders s) i = Some x"
    and "exchange_account_of s (or_owner t) = exchange_account_of b (or_owner t)"
  using assms unfolding staged_for_def by blast+

lemma stage_order_agrees:
  assumes inv: "exchange_inv ts b" and t: "or_owner t = owner" "or_side t = sd" "or_price t = price"
  shows "staged_for t (stage_order b owner sd price op) b"
    and "exchange_account_of (stage_order b owner sd price op) op = exchange_account_of b op"
    and "exchange_account_of (stage_order b owner sd price op) owner = exchange_account_of b owner"
proof -
  let ?xs = "filter (stageable owner sd price) (bm_values (bd_orders b))"
  let ?start = "restore_exchange_account op (exchange_account_of b op) (restore_exchange_account owner (exchange_account_of b owner) task_board_new)"
  let ?s = "stage_order b owner sd price op"
  have wf: "bm_wf (bd_orders b)" and keyed: "\<And>i x. bm_get (bd_orders b) i = Some x \<Longrightarrow> or_id x = i"
    using inv by (auto simp: exchange_inv_def)
  have mem: "x \<in> set ?xs \<longleftrightarrow> bm_get (bd_orders b) (or_id x) = Some x \<and> stageable owner sd price x" for x
    using bm_values_iff [OF wf, of x] keyed by auto
  have s: "?s = fold (stage_one b) ?xs ?start" by (rule stage_order_eq)
  have acct: "exchange_account_of ?s k = (if k \<in> or_owner ` set ?xs then exchange_account_of b k else exchange_account_of ?start k)" for k
    unfolding s by (rule stage_fold(1))
  have s0: "bd_orders ?start = []" by (simp add: restore_exchange_account_def task_board_new_def)
  have get: "bm_get (bd_orders ?s) i = Some x \<longleftrightarrow> bm_get (bd_orders b) i = Some x \<and> stageable owner sd price x" for i x
  proof (cases "bm_get (bd_orders b) i")
    case None
    have no: "i \<notin> or_id ` set ?xs" using None mem by auto
    then have "x' = undefined" if "x' \<in> set ?xs" "or_id x' = i" for x' using that by blast
    from stage_fold(3) [of ?xs i undefined b ?start, OF this] no have "bm_get (bd_orders ?s) i = None"
      by (simp add: s task_board_new_def del: set_filter)
    then show ?thesis using None by simp
  next
    case (Some y)
    have "x' = y" if "x' \<in> set ?xs" "or_id x' = i" for x' using that mem Some by auto
    from stage_fold(3) [of ?xs i y b ?start, OF this] have "bm_get (bd_orders ?s) i = (if i \<in> or_id ` set ?xs then Some y else None)"
      by (simp add: s task_board_new_def)
    moreover have "i \<in> or_id ` set ?xs \<longleftrightarrow> stageable owner sd price y"
    proof
      assume "i \<in> or_id ` set ?xs"
      then obtain x' where "x' \<in> set ?xs" "or_id x' = i" by blast
      then show "stageable owner sd price y" using Some mem by auto
    next
      assume "stageable owner sd price y"
      then have "y \<in> set ?xs" using Some mem keyed [OF Some] by blast
      then show "i \<in> or_id ` set ?xs" using keyed [OF Some] by blast
    qed
    ultimately show ?thesis using Some by auto
  qed
  show op: "exchange_account_of ?s op = exchange_account_of b op" using acct [of op] by simp
  show ow: "exchange_account_of ?s owner = exchange_account_of b owner" using acct [of owner] by simp
  have st: "matches_taker t x \<longleftrightarrow> stageable owner sd price x" for x
    by (cases sd; cases "or_side x") (auto simp: matches_taker_def stageable_def t opposite_def)
  have "exchange_account_of ?s (or_owner x) = exchange_account_of b (or_owner x)" if "bm_get (bd_orders b) i = Some x" "stageable owner sd price x" for i x
  proof -
    have "x \<in> set ?xs" using that mem keyed [OF that(1)] by simp
    then show ?thesis using acct [of "or_owner x"] by auto
  qed
  moreover have "bm_wf (bd_orders ?s)" unfolding s by (rule stage_fold(2)) (simp add: task_board_new_def)
  ultimately show "staged_for t ?s b" using get ow st t(1) by (auto simp: staged_for_def)
qed

subsection \<open>Matching on either board\<close>

lemma staged_best_match:
  assumes "staged_for t s b" "bm_wf (bd_orders b)"
  shows "best_resting_match s t = best_resting_match b t"
proof -
  have "filter (matches_taker t) (bm_values (bd_orders s)) = filter (matches_taker t) (bm_values (bd_orders b))"
  proof (rule bm_values_filter_eq)
    show "bm_get (bd_orders s) k = Some v \<longleftrightarrow> bm_get (bd_orders b) k = Some v" if "matches_taker t v" for k v
      using assms(1) that unfolding staged_for_def by blast
  qed (use staged_forD(1) [OF assms(1)] assms(2) in simp_all)
  then show ?thesis by (simp add: best_resting_match_def)
qed

text \<open>A fill reads and writes the two accounts and the resting order only.\<close>

lemma settle_fill_local:
  assumes "settle_fill sd k1 p k2 ep q b = Ok (fee, b2)"
    "exchange_account_of s k1 = exchange_account_of b k1" "exchange_account_of s k2 = exchange_account_of b k2"
  shows "\<exists>a1 a2. b2 = restore_exchange_account k2 a2 (restore_exchange_account k1 a1 b)
    \<and> settle_fill sd k1 p k2 ep q s = Ok (fee, restore_exchange_account k2 a2 (restore_exchange_account k1 a1 s))"
proof -
  let ?buyer_credit = "\<lambda>fe. if sd = Buy then minus_u q fe else (Ok q :: u64 board_result)"
  let ?seller_credit = "\<lambda>n fe. if sd = Sell then minus_u n fe else (Ok n :: u64 board_result)"
  from assms(1) obtain n u c a1 bc a2 where m: "times_u ep q = (Ok n :: u64 board_result)" "taker_fee_of sd q n = Ok fee"
      "times_u p q = (Ok u :: u64 board_result)" "?buyer_credit fee = Ok c" "debit_buyer u n c (exchange_account_of b k1) = Ok a1"
      "?seller_credit n fee = Ok bc" "credit_seller q bc (exchange_account_of (restore_exchange_account k1 a1 b) k2) = Ok a2"
    and b2: "b2 = restore_exchange_account k2 a2 (restore_exchange_account k1 a1 b)"
    unfolding settle_fill_def Let_def by (auto simp: outcome_simps)
  have "exchange_account_of (restore_exchange_account k1 a1 s) k2 = exchange_account_of (restore_exchange_account k1 a1 b) k2"
    using assms(3) by simp
  then have "settle_fill sd k1 p k2 ep q s = Ok (fee, restore_exchange_account k2 a2 (restore_exchange_account k1 a1 s))"
    unfolding settle_fill_def Let_def by (simp only: m assms(2) obind.simps)
  with b2 show ?thesis by blast
qed

lemma fill_once_local:
  assumes run: "fill_once now tid t r b = Ok (t1, tr, b1)"
    and a: "exchange_account_of s (or_owner t) = exchange_account_of b (or_owner t)"
      "exchange_account_of s (or_owner r) = exchange_account_of b (or_owner r)"
  shows "\<exists>s1 r' k1 a1 k2 a2. fill_once now tid t r s = Ok (t1, tr, s1)
    \<and> s1 = restore_exchange_account k2 a2 (restore_exchange_account k1 a1 (restore_order r' s))
    \<and> b1 = restore_exchange_account k2 a2 (restore_exchange_account k1 a1 (restore_order r' b))
    \<and> or_id r' = or_id r \<and> or_owner r' = or_owner r
    \<and> {k1, k2} = {or_owner t, or_owner r} \<and> {tr_buyer tr, tr_seller tr} = {or_owner t, or_owner r}
    \<and> {tr_buy_order_id tr, tr_sell_order_id tr} = {or_id t, or_id r}"
proof -
  obtain buy sell where bs: "(case or_side t of Buy \<Rightarrow> (t, r) | Sell \<Rightarrow> (r, t)) = (buy, sell)" by force
  from run obtain tl rl r' f fee where m: "minus_u (or_quantity t) (or_filled t) = (Ok tl :: u64 board_result)"
      "minus_u (or_quantity r) (or_filled r) = (Ok rl :: u64 board_result)" "fill_resting (min tl rl) r = Ok r'"
      "plus_u (or_filled t) (min tl rl) = (Ok f :: u64 board_result)"
    and st: "settle_fill (or_side t) (or_owner buy) (or_price buy) (or_owner sell) (or_price r) (min tl rl) (restore_order r' b) = Ok (fee, b1)"
    and t1: "t1 = t\<lparr>or_filled := f\<rparr>"
    and tr: "tr = \<lparr>tr_id = tid, tr_buy_order_id = or_id buy, tr_sell_order_id = or_id sell, tr_buyer = or_owner buy,
      tr_seller = or_owner sell, tr_price = or_price r, tr_quantity = min tl rl, tr_executed_at = now,
      tr_taker_side = or_side t, tr_taker_fee = fee\<rparr>"
    using bs by (auto simp: fill_once_def Let_def outcome_simps)
  have r': "or_id r' = or_id r" "or_owner r' = or_owner r" using m(3) by (auto simp: fill_resting_def outcome_simps)
  have sides: "{or_owner buy, or_owner sell} = {or_owner t, or_owner r}" "{or_id buy, or_id sell} = {or_id t, or_id r}"
    using bs by (auto split: side.splits)
  have "exchange_account_of (restore_order r' s) (or_owner buy) = exchange_account_of (restore_order r' b) (or_owner buy)"
    "exchange_account_of (restore_order r' s) (or_owner sell) = exchange_account_of (restore_order r' b) (or_owner sell)"
    using bs a by (auto split: side.splits)
  from settle_fill_local [OF st this] obtain a1 a2 where l:
    "b1 = restore_exchange_account (or_owner sell) a2 (restore_exchange_account (or_owner buy) a1 (restore_order r' b))"
    "settle_fill (or_side t) (or_owner buy) (or_price buy) (or_owner sell) (or_price r) (min tl rl) (restore_order r' s)
       = Ok (fee, restore_exchange_account (or_owner sell) a2 (restore_exchange_account (or_owner buy) a1 (restore_order r' s)))"
    by blast
  have "fill_once now tid t r s = Ok (t1, tr, restore_exchange_account (or_owner sell) a2
      (restore_exchange_account (or_owner buy) a1 (restore_order r' s)))"
    using m l(2) bs by (simp add: fill_once_def t1 tr)
  then show ?thesis
    by (intro exI [of _ "restore_exchange_account (or_owner sell) a2 (restore_exchange_account (or_owner buy) a1 (restore_order r' s))"]
        exI [of _ r'] exI [of _ "or_owner buy"] exI [of _ a1] exI [of _ "or_owner sell"] exI [of _ a2])
      (use l(1) r' sides in \<open>simp add: tr\<close>)
qed

text \<open>What a run of fills does to the two boards, and what it leaves alone.\<close>

definition parties :: "trade list \<Rightarrow> public_key set" where
  "parties trs = (\<Union>tr \<in> set trs. {tr_buyer tr, tr_seller tr})"

definition order_ids :: "trade list \<Rightarrow> uuid set" where
  "order_ids trs = (\<Union>tr \<in> set trs. {tr_buy_order_id tr, tr_sell_order_id tr})"

definition run_agrees :: "order \<Rightarrow> task_board \<Rightarrow> task_board \<Rightarrow> trade list \<Rightarrow> order \<Rightarrow> task_board \<Rightarrow> task_board \<Rightarrow> bool" where
  "run_agrees t s b trs t' s' b' \<longleftrightarrow> staged_for t' s' b' \<and> or_owner t' = or_owner t \<and> or_id t' = or_id t
     \<and> (\<forall>k. exchange_account_of s k = exchange_account_of b k \<longrightarrow> exchange_account_of s' k = exchange_account_of b' k)
     \<and> (\<forall>k \<in> parties trs. exchange_account_of s' k = exchange_account_of b' k)
     \<and> (\<forall>i. bm_get (bd_orders s) i \<noteq> None \<longrightarrow> bm_get (bd_orders s') i \<noteq> None)
     \<and> (\<forall>i \<in> order_ids trs. i = or_id t \<or> bm_get (bd_orders s') i \<noteq> None)
     \<and> (\<forall>k. k \<notin> parties trs \<longrightarrow> exchange_account_of b' k = exchange_account_of b k)
     \<and> (\<forall>i. i \<notin> order_ids trs \<longrightarrow> bm_get (bd_orders b') i = bm_get (bd_orders b) i) \<and> bd_trades b' = bd_trades b"

lemma run_agrees_nil: "staged_for t s b \<Longrightarrow> run_agrees t s b [] t s b"
  by (simp add: run_agrees_def parties_def order_ids_def)

lemma run_agrees_cons:
  assumes "run_agrees t s b [tr] t1 s1 b1" "run_agrees t1 s1 b1 trs t' s' b'"
  shows "run_agrees t s b (tr # trs) t' s' b'"
  using assms by (auto simp: run_agrees_def parties_def order_ids_def)

lemma fill_agrees:
  assumes m: "matching t b" and r: "bm_get (bd_orders b) i = Some r" "matches_taker t r"
    and sf: "staged_for t s b" and run: "fill_once now tid t r b = Ok (t1, tr, b1)" and well: "filled_well t r b t1 tr b1"
  shows "\<exists>s1. fill_once now tid t r s = Ok (t1, tr, s1) \<and> run_agrees t s b [tr] t1 s1 b1
    \<and> (or_filled t1 = or_quantity t \<or> book_count s1 < book_count s)"
proof -
  have id: "or_id r = i" and wfb: "bm_wf (bd_orders b)" using m r(1) by (auto simp: matching_def exchange_inv_def)
  have sr: "bm_get (bd_orders s) i = Some r" by (rule staged_forD(4) [OF sf r])
  have wfs: "bm_wf (bd_orders s)" by (rule staged_forD(1) [OF sf])
  have acc: "exchange_account_of s (or_owner t) = exchange_account_of b (or_owner t)"
    "exchange_account_of s (or_owner r) = exchange_account_of b (or_owner r)"
    by (rule staged_forD(5) [OF sf], rule staged_forD(3) [OF sf sr])
  from fill_once_local [OF run acc] obtain s1 r' k1 a1 k2 a2 where f: "fill_once now tid t r s = Ok (t1, tr, s1)"
    and s1: "s1 = restore_exchange_account k2 a2 (restore_exchange_account k1 a1 (restore_order r' s))"
    and b1: "b1 = restore_exchange_account k2 a2 (restore_exchange_account k1 a1 (restore_order r' b))"
    and r': "or_id r' = or_id r" "or_owner r' = or_owner r"
    and ks: "{k1, k2} = {or_owner t, or_owner r}" "{tr_buyer tr, tr_seller tr} = {or_owner t, or_owner r}"
      "{tr_buy_order_id tr, tr_sell_order_id tr} = {or_id t, or_id r}" by blast
  have t1: "or_owner t1 = or_owner t" "or_id t1 = or_id t" "matches_taker t1 = matches_taker t"
    using well filled_well_same(1) [OF well] by (auto simp: filled_well_def)
  have so: "bd_orders s1 = bm_insert i r' (bd_orders s)" "bd_orders b1 = bm_insert i r' (bd_orders b)"
    by (simp_all add: s1 b1 restore_exchange_account_def restore_order_def r' id)
  have agree: "exchange_account_of s1 k = exchange_account_of b1 k" if "k \<in> {k1, k2} \<or> exchange_account_of s k = exchange_account_of b k" for k
    using that by (auto simp: s1 b1)
  have "staged_for t1 s1 b1"
    unfolding staged_for_def
  proof (intro conjI allI impI)
    show "bm_wf (bd_orders s1)" using wfs by (simp add: so)
    fix j x
    { assume x: "bm_get (bd_orders s1) j = Some x"
      show "bm_get (bd_orders b1) j = Some x" using staged_forD(2) [OF sf] x by (simp add: so split: if_splits)
      have "exchange_account_of s (or_owner x) = exchange_account_of b (or_owner x)"
        using staged_forD(3) [OF sf] x r'(2) acc(2) by (auto simp: so split: if_splits)
      then show "exchange_account_of s1 (or_owner x) = exchange_account_of b1 (or_owner x)" by (rule agree [OF disjI2]) }
    assume "bm_get (bd_orders b1) j = Some x" "matches_taker t1 x"
    then show "bm_get (bd_orders s1) j = Some x" using staged_forD(4) [OF sf] t1(3) by (simp add: so split: if_splits)
  next
    show "exchange_account_of s1 (or_owner t1) = exchange_account_of b1 (or_owner t1)"
      unfolding t1(1) by (rule agree [OF disjI2 [OF acc(1)]])
  qed
  moreover have "\<forall>k \<in> parties [tr]. exchange_account_of s1 k = exchange_account_of b1 k"
    using agree ks by (auto simp: parties_def)
  moreover have "exchange_account_of b1 k = exchange_account_of b k" if "k \<notin> parties [tr]" for k
  proof -
    have "k \<notin> {k1, k2}" using that ks by (simp add: parties_def)
    then show ?thesis by (simp add: b1)
  qed
  moreover have "order_ids [tr] = {or_id t, i}" using ks(3) id by (simp add: order_ids_def)
  moreover have "bd_trades b1 = bd_trades b" by (simp add: b1 restore_exchange_account_def restore_order_def)
  ultimately have "run_agrees t s b [tr] t1 s1 b1"
    using agree t1 so by (auto simp: run_agrees_def)
  moreover have "book_count s1 < book_count s" if "book_count b1 < book_count b"
  proof -
    let ?f = "\<lambda>x. if or_status x = OOpen then 1 else 0 :: nat"
    have op: "or_status r = OOpen" using r(2) by (simp add: matches_taker_def)
    have "book_count b1 + 1 = book_count b + ?f r'" "book_count s1 + 1 = book_count s + ?f r'"
      using bm_total_insert [OF wfb, of ?f i r'] bm_total_insert [OF wfs, of ?f i r'] r(1) sr op
      by (simp_all add: book_count_def so)
    then show ?thesis using that by (auto split: if_splits)
  qed
  ultimately show ?thesis using f well by (auto simp: filled_well_def)
qed

lemma staged_loop:
  assumes "matching t b" "staged_for t s b"
    and "book_count s < f \<or> (or_filled t = or_quantity t \<and> 0 < f)"
    and "book_count b < g \<or> (or_filled t = or_quantity t \<and> 0 < g)"
  shows "\<exists>t' trs s' b'. match_loop f now fresh t trades s = Ok (t', trades @ trs, s')
    \<and> match_loop g now fresh t trades b = Ok (t', trades @ trs, b') \<and> run_agrees t s b trs t' s' b'"
  using assms
proof (induction f arbitrary: g t s b trades)
  case (Suc f)
  obtain g' where g: "g = Suc g'" using Suc.prems(4) by (cases g) auto
  have wfb: "bm_wf (bd_orders b)" using Suc.prems(1) by (auto simp: matching_def exchange_inv_def)
  note same = staged_best_match [OF Suc.prems(2) wfb]
  show ?case
  proof (cases "or_filled t < or_quantity t \<and> best_resting_match b t \<noteq> None")
    case False
    then have "match_loop (Suc f) now fresh t trades s = Ok (t, trades, s)" "match_loop g now fresh t trades b = Ok (t, trades, b)"
      using same by (auto simp: g split: option.splits)
    then show ?thesis using run_agrees_nil [OF Suc.prems(2)] by fastforce
  next
    case True
    then obtain i where i: "best_resting_match b t = Some i" and lt: "or_filled t < or_quantity t" by blast
    obtain r t1 tr b1 where r: "bm_get (bd_orders b) i = Some r" "matches_taker t r"
      and fb: "fill_once now (fresh (Suc (length trades))) t r b = Ok (t1, tr, b1)"
      and well: "filled_well t r b t1 tr b1" and m: "matching t1 b1"
      by (rule matching_fill [OF Suc.prems(1) lt i])
    from fill_agrees [OF Suc.prems(1) r Suc.prems(2) fb well] obtain s1 where
      fs: "fill_once now (fresh (Suc (length trades))) t r s = Ok (t1, tr, s1)" "run_agrees t s b [tr] t1 s1 b1"
      and less: "or_filled t1 = or_quantity t \<or> book_count s1 < book_count s" by blast
    have sr: "bm_get (bd_orders s) i = Some r" by (rule staged_forD(4) [OF Suc.prems(2) r])
    have pos: "0 < book_count b" "0 < book_count s"
      using bm_total_get_le [OF wfb r(1), of "\<lambda>x. if or_status x = OOpen then 1 else 0"]
        bm_total_get_le [OF staged_forD(1) [OF Suc.prems(2)] sr, of "\<lambda>x. if or_status x = OOpen then 1 else 0"] r(2)
      by (simp_all add: book_count_def matches_taker_def)
    have q1: "or_quantity t1 = or_quantity t" using well by (auto simp: filled_well_def)
    have "book_count s1 < f \<or> (or_filled t1 = or_quantity t1 \<and> 0 < f)"
      using less Suc.prems(3) lt pos q1 by auto
    moreover have "book_count b1 < g' \<or> (or_filled t1 = or_quantity t1 \<and> 0 < g')"
      using well Suc.prems(4) lt pos q1 g by (auto simp: filled_well_def)
    moreover have "staged_for t1 s1 b1" using fs(2) by (simp add: run_agrees_def)
    ultimately obtain t' trs s' b' where
      "match_loop f now fresh t1 (trades @ [tr]) s1 = Ok (t', (trades @ [tr]) @ trs, s')"
      "match_loop g' now fresh t1 (trades @ [tr]) b1 = Ok (t', (trades @ [tr]) @ trs, b')" "run_agrees t1 s1 b1 trs t' s' b'"
      using Suc.IH [OF m, of s1 g' "trades @ [tr]"] by blast
    then have "match_loop (Suc f) now fresh t trades s = Ok (t', trades @ tr # trs, s')"
      "match_loop g now fresh t trades b = Ok (t', trades @ tr # trs, b')" "run_agrees t s b (tr # trs) t' s' b'"
      using lt i same r(1) sr fb fs(1) run_agrees_cons [OF fs(2)] by (simp_all add: g)
    then show ?thesis by blast
  qed
qed simp

subsection \<open>Placing on either board\<close>

lemma staged_for_restore:
  assumes "staged_for t s b"
  shows "staged_for t (restore_exchange_account k a s) (restore_exchange_account k a b)"
proof -
  have same: "exchange_account_of (restore_exchange_account k a s) j = exchange_account_of (restore_exchange_account k a b) j"
    if "exchange_account_of s j = exchange_account_of b j" for j using that by simp
  have fr: "bd_orders (restore_exchange_account k a x) = bd_orders x" for x by (simp add: restore_exchange_account_def)
  show ?thesis
    unfolding staged_for_def fr using staged_forD [OF assms] by (blast intro: same)
qed

lemma restore_trades_accounts [simp]: "exchange_account_of (fold restore_trade trs b) = exchange_account_of b"
  by (simp add: exchange_account_of_def fun_eq_iff)

lemma restore_trades_same:
  "bd_trades b = bd_trades c \<Longrightarrow> bd_trades (fold restore_trade trs b) = bd_trades (fold restore_trade trs c)"
  by (induction trs arbitrary: b c) (simp_all add: restore_trade_def)

text \<open>What the handler finds on its staged board, compared with the live one placed on directly.\<close>

definition placement_agrees ::
  "public_key \<Rightarrow> public_key \<Rightarrow> task_board \<Rightarrow> order \<Rightarrow> trade list \<Rightarrow> task_board \<Rightarrow> task_board \<Rightarrow> bool" where
  "placement_agrees owner op b placed trs s' b' \<longleftrightarrow> or_owner placed = owner
     \<and> (\<forall>k \<in> insert owner (insert op (parties trs)). exchange_account_of s' k = exchange_account_of b' k)
     \<and> (\<forall>i \<in> order_ids trs. bm_get (bd_orders s') i = bm_get (bd_orders b') i \<and> bm_get (bd_orders b') i \<noteq> None)
     \<and> bm_get (bd_orders b') (or_id placed) = Some placed
     \<and> (\<forall>k. k \<notin> insert owner (parties trs) \<longrightarrow> exchange_account_of b' k = exchange_account_of b k)
     \<and> (\<forall>i. i \<notin> insert (or_id placed) (order_ids trs) \<longrightarrow> bm_get (bd_orders b') i = bm_get (bd_orders b) i)
     \<and> bd_trades b' = bd_trades (fold restore_trade trs b)"

lemma run_placement_agrees:
  assumes "run_agrees t s1 b1 trs t' s2 b2" "or_owner t = owner"
    and "exchange_account_of s1 op = exchange_account_of b1 op" "exchange_account_of s1 owner = exchange_account_of b1 owner"
    and b1: "b1 = restore_exchange_account owner a b"
  shows "placement_agrees owner op b (settled_order t') trs
    (fold restore_trade trs (restore_order (settled_order t') s2)) (fold restore_trade trs (restore_order (settled_order t') b2))"
proof -
  note r = assms(1) [unfolded run_agrees_def]
  have s2: "bm_get (bd_orders s2) i = bm_get (bd_orders b2) i \<and> bm_get (bd_orders b2) i \<noteq> None" if i: "i \<in> order_ids trs" "i \<noteq> or_id t" for i
  proof -
    obtain x where "bm_get (bd_orders s2) i = Some x" using r i by blast
    then show ?thesis using r staged_forD(2) by auto
  qed
  have o: "or_owner t' = owner" "or_id t' = or_id t" using r assms(2) by auto
  have same: "exchange_account_of s2 k = exchange_account_of b2 k" if "k \<in> insert owner (insert op (parties trs))" for k
    using that r assms(3,4) by auto
  have orders: "bd_orders (restore_order (settled_order t') x) = bm_insert (or_id t) (settled_order t') (bd_orders x)" for x
    using o by (simp add: restore_order_def)
  have "bd_trades (restore_order (settled_order t') b2) = bd_trades b"
    using r by (simp add: b1 restore_order_def restore_exchange_account_def)
  note tr = restore_trades_same [OF this, of trs]
  show ?thesis
    unfolding placement_agrees_def restore_trades_frame restore_trades_accounts orders tr
    using same s2 o r by (auto simp: b1)
qed

lemma place_order_staged:
  assumes inv: "exchange_inv [] b" and fit: "totals_fit b" and run: "place_order now fresh owner sd price quantity b = (res, b')"
    and s_def: "s = stage_order b owner sd price op"
  shows "(\<exists>e. res = Err e \<and> fst (place_order now fresh owner sd price quantity s) = Err e)
    \<or> (\<exists>placed trs s'. res = Ok (placed, trs) \<and> place_order now fresh owner sd price quantity s = (Ok (placed, trs), s')
        \<and> placement_agrees owner op b placed trs s' b')"
proof (cases "price = 0 \<or> quantity = 0 \<or> checked_mul price quantity = None")
  case True
  then show ?thesis using run by (auto simp: place_order_def)
next
  case False
  then obtain n where n: "checked_mul price quantity = Some n" and pq: "price \<noteq> 0" "quantity \<noteq> 0" by auto
  let ?A = "exchange_account_of b owner" and ?t = "new_order (fresh 0) owner sd price quantity now"
  have t: "or_owner ?t = owner" "or_side ?t = sd" "or_price ?t = price" by (simp_all add: new_order_def)
  note st = stage_order_agrees [OF inv t, of op, folded s_def]
  have "account_ok [] b owner" using inv by (simp add: exchange_inv_def)
  then have le: "ex_locked_base ?A \<le> ex_base_balance ?A" "ex_locked_compute ?A \<le> ex_compute_balance ?A"
    by (auto simp: account_ok_def Let_def)
  from lock_for_order_ok [OF refl le, of sd n quantity]
  consider x y where "lock_for_order sd n quantity ?A = Err (InsufficientBalance x y)"
    | a where "lock_for_order sd n quantity ?A = Ok a" by blast
  then show ?thesis
  proof cases
    case 1
    then show ?thesis using run pq n st(3) by (auto simp: place_order_def Let_def)
  next
    case 2
    let ?b1 = "restore_exchange_account owner a b" and ?s1 = "restore_exchange_account owner a s"
    have m: "matching ?t ?b1" using place_locks [OF inv fit _ n 2] pq by auto
    have cnt: "book_count ?b1 < Suc (length (bd_orders ?b1))" "book_count ?s1 < Suc (length (bd_orders ?s1))"
      using book_count_le [of ?b1] book_count_le [of ?s1] by simp_all
    obtain t' trs s2 b2 where loop:
      "match_loop (Suc (length (bd_orders ?s1))) now fresh ?t [] ?s1 = Ok (t', trs, s2)"
      "match_loop (Suc (length (bd_orders ?b1))) now fresh ?t [] ?b1 = Ok (t', trs, b2)"
      "run_agrees ?t ?s1 ?b1 trs t' s2 b2"
      using staged_loop [OF m staged_for_restore [OF st(1)] disjI1 [OF cnt(2)] disjI1 [OF cnt(1)], of now fresh "[]"] by auto
    have placed: "place_order now fresh owner sd price quantity x
        = (Ok (settled_order t', trs), fold restore_trade trs (restore_order (settled_order t') y))"
      if "exchange_account_of x owner = ?A"
        "match_loop (Suc (length (bd_orders (restore_exchange_account owner a x)))) now fresh ?t [] (restore_exchange_account owner a x) = Ok (t', trs, y)" for x y
      unfolding place_order_def using pq n 2 that [unfolded new_order_def]
      by (simp add: Let_def settled_order_def del: match_loop.simps)
    have "placement_agrees owner op b (settled_order t') trs
      (fold restore_trade trs (restore_order (settled_order t') s2)) (fold restore_trade trs (restore_order (settled_order t') b2))"
      by (rule run_placement_agrees [OF loop(3) t(1)]) (use st in auto)
    then show ?thesis using placed [OF refl loop(2)] placed [OF st(3) loop(1)] run by auto
  qed
qed

subsection \<open>Fees and publishing\<close>

lemma fee_fold:
  assumes "unat c + fees Buy trs < 2 ^ 64" "unat v + fees Sell trs < 2 ^ 64"
  shows "ofold (\<lambda>t (compute, base). case tr_taker_side t of
         Buy \<Rightarrow> obind (plus_u compute (tr_taker_fee t)) (\<lambda>c. Ok (c, base))
       | Sell \<Rightarrow> obind (plus_u base (tr_taker_fee t)) (\<lambda>v. Ok (compute, v))) trs (c, v)
    = (Ok (c + of_nat (fees Buy trs), v + of_nat (fees Sell trs)) :: (u64 \<times> u64) board_result)"
  using assms
proof (induction trs arbitrary: c v)
  case (Cons tr trs)
  show ?case
  proof (cases "tr_taker_side tr")
    case Buy
    have "unat c + unat (tr_taker_fee tr) < 2 ^ 64" using Cons.prems Buy by simp
    then have "plus_u c (tr_taker_fee tr) = (Ok (c + tr_taker_fee tr) :: u64 board_result)" "unat (c + tr_taker_fee tr) = unat c + unat (tr_taker_fee tr)"
      by (simp_all add: plus_u_fits unat_plus_fits)
    then show ?thesis using Cons.IH [of "c + tr_taker_fee tr" v] Cons.prems Buy by (simp add: add.assoc)
  next
    case Sell
    have "unat v + unat (tr_taker_fee tr) < 2 ^ 64" using Cons.prems Sell by simp
    then have "plus_u v (tr_taker_fee tr) = (Ok (v + tr_taker_fee tr) :: u64 board_result)" "unat (v + tr_taker_fee tr) = unat v + unat (tr_taker_fee tr)"
      by (simp_all add: plus_u_fits unat_plus_fits)
    then show ?thesis using Cons.IH [of c "v + tr_taker_fee tr"] Cons.prems Sell by (simp add: add.assoc)
  qed
qed simp

text \<open>Crediting the fees: the operator's account only, the same change wherever that account is the same.\<close>

definition with_fees :: "u64 \<Rightarrow> u64 \<Rightarrow> exchange_account \<Rightarrow> exchange_account" where
  "with_fees c v a = a\<lparr>ex_compute_balance := ex_compute_balance a + c, ex_base_balance := ex_base_balance a + v\<rparr>"

lemma credit_fees_run:
  assumes "fees Buy trs < 2 ^ 64" "fees Sell trs < 2 ^ 64"
    and "unat (ex_compute_balance (exchange_account_of b op)) + fees Buy trs < 2 ^ 64"
    and "unat (ex_base_balance (exchange_account_of b op)) + fees Sell trs < 2 ^ 64"
    and cv: "c = of_nat (fees Buy trs)" "v = of_nat (fees Sell trs)"
  shows "\<exists>b2. credit_fees op trs b = (Ok (c, v), b2) \<and> bd_orders b2 = bd_orders b \<and> bd_trades b2 = bd_trades b
    \<and> (\<forall>k. exchange_account_of b2 k = (if k = op then with_fees c v (exchange_account_of b op) else exchange_account_of b k))"
proof -
  let ?A = "exchange_account_of b op"
  have u: "unat c = fees Buy trs" "unat v = fees Sell trs" using assms(1,2) by (simp_all add: cv unat_of_nat_less)
  have tot: "taker_fee_totals trs = Ok (c, v)"
    using fee_fold [of 0 trs 0] assms(1,2) by (simp add: taker_fee_totals_def cv)
  have pc: "plus_u (ex_compute_balance ?A) c = (Ok (ex_compute_balance ?A + c) :: u64 board_result)"
    and pv: "plus_u (ex_base_balance ?A) v = (Ok (ex_base_balance ?A + v) :: u64 board_result)"
    using assms(3,4) u by (simp_all add: plus_u_fits)
  define b1 where "b1 = (if c > 0 then restore_exchange_account op (?A\<lparr>ex_compute_balance := ex_compute_balance ?A + c\<rparr>) b else b)"
  define b2 where "b2 = (if v > 0 then restore_exchange_account op (exchange_account_of b1 op\<lparr>ex_base_balance := ex_base_balance ?A + v\<rparr>) b1 else b1)"
  have base: "ex_base_balance (exchange_account_of b1 op) = ex_base_balance ?A" by (simp add: b1_def)
  have s1: "(if c > 0 then credit_compute op c b else (Ok (), b)) = (Ok (), b1)"
    using pc by (simp add: b1_def credit_compute_def update_account_def account_add_compute_def)
  have s2: "(if v > 0 then credit_base op v b1 else (Ok (), b1)) = (Ok (), b2)"
    using pv base by (simp add: b2_def credit_base_def update_account_def account_add_base_def)
  have ws: "with_step (Ok x, s) k = k x s" for x :: unit and s and k :: "unit \<Rightarrow> task_board \<Rightarrow> (u64 \<times> u64) board_result \<times> task_board"
    by (simp add: with_step_def)
  have "credit_fees op trs b = (Ok (c, v), b2)"
    unfolding credit_fees_def tot by (simp only: with_check_simps prod.case s1 s2 ws)
  moreover have "bd_orders b2 = bd_orders b" "bd_trades b2 = bd_trades b"
    by (simp_all add: b1_def b2_def restore_exchange_account_def)
  moreover have "exchange_account_of b2 k = (if k = op then with_fees c v ?A else exchange_account_of b k)" for k
    by (auto simp: b1_def b2_def with_fees_def word_neq_0_conv [symmetric])
  ultimately show ?thesis by blast
qed

lemma restore_orders_get:
  "(\<And>x. x \<in> set xs \<Longrightarrow> or_id x = i \<Longrightarrow> x = y) \<Longrightarrow>
     bm_get (bd_orders (fold restore_order xs s)) i = (if i \<in> or_id ` set xs then Some y else bm_get (bd_orders s) i)"
  by (induction xs arbitrary: s) (auto simp: restore_order_def)

lemma restore_orders_frame [simp]:
  "bm_wf (bd_orders s) \<Longrightarrow> bm_wf (bd_orders (fold restore_order xs s))"
  "exchange_account_of (fold restore_order xs s) = exchange_account_of s"
  "bd_trades (fold restore_order xs s) = bd_trades s"
  by (induction xs arbitrary: s) (simp_all add: restore_order_def exchange_account_of_def fun_eq_iff)

lemma restore_accounts:
  "exchange_account_of (fold (\<lambda>(k, a). restore_exchange_account k a) (map (\<lambda>k. (k, f k)) ks) s) j
     = (if j \<in> set ks then f j else exchange_account_of s j)"
  "bd_orders (fold (\<lambda>(k, a). restore_exchange_account k a) xs s) = bd_orders s"
  "bd_trades (fold (\<lambda>(k, a). restore_exchange_account k a) xs s) = bd_trades s"
proof -
  show "exchange_account_of (fold (\<lambda>(k, a). restore_exchange_account k a) (map (\<lambda>k. (k, f k)) ks) s) j
     = (if j \<in> set ks then f j else exchange_account_of s j)"
    by (induction ks arbitrary: s) auto
  show "bd_orders (fold (\<lambda>(k, a). restore_exchange_account k a) xs s) = bd_orders s"
    "bd_trades (fold (\<lambda>(k, a). restore_exchange_account k a) xs s) = bd_trades s"
    by (induction xs arbitrary: s) (auto simp: restore_exchange_account_def)
qed

lemma touched_sets:
  "set (touched_orders placed trs) = order_ids trs - {or_id placed}"
  "set (touched_accounts placed trs sink) = insert (or_owner placed) (parties trs \<union> set sink)"
  by (auto simp: touched_orders_def touched_accounts_def order_ids_def parties_def)

lemma publish_agrees:
  assumes ag: "placement_agrees owner op b placed trs s1 b1" and keyed: "\<And>i x. bm_get (bd_orders b1) i = Some x \<Longrightarrow> or_id x = i"
    and wf: "bm_wf (bd_orders b)" "bm_wf (bd_orders b1)"
    and s2: "bd_orders s2 = bd_orders s1" "\<And>k. exchange_account_of s2 k = (if k = op then F (exchange_account_of s1 op) else exchange_account_of s1 k)"
    and b2: "bd_orders b2 = bd_orders b1" "bd_trades b2 = bd_trades b1"
      "\<And>k. exchange_account_of b2 k = (if k = op then F (exchange_account_of b1 op) else exchange_account_of b1 k)"
    and sink: "op \<notin> set sink \<Longrightarrow> \<forall>a. F a = a" "set sink \<subseteq> {op}"
    and h: "h = publish (placed # List.map_filter (get_order s2) (touched_orders placed trs)) trs
      (map (\<lambda>k. (k, exchange_account_of s2 k)) (touched_accounts placed trs sink)) b"
  shows "bd_orders h = bd_orders b2 \<and> bd_trades h = bd_trades b2 \<and> exchange_account_of h = exchange_account_of b2"
proof -
  note ag' = ag [unfolded placement_agrees_def]
  let ?xs = "placed # List.map_filter (get_order s2) (touched_orders placed trs)"
  have same: "bm_get (bd_orders s2) i = bm_get (bd_orders b1) i" if "i \<in> order_ids trs" for i using ag' that s2(1) by simp
  have mem: "x \<in> set ?xs \<longleftrightarrow> x = placed \<or> (\<exists>i \<in> order_ids trs - {or_id placed}. bm_get (bd_orders b1) i = Some x)" for x
    using same touched_sets(1) [of placed trs] by (auto simp: in_map_filter get_order_def)
  have ho: "bd_orders h = bd_orders (fold restore_order ?xs b)" unfolding h publish_def by (simp add: restore_accounts)
  have "bd_orders h = bd_orders b1"
  proof (rule bm_ext)
    show "bm_wf (bd_orders h)" unfolding ho using wf(1) by simp
    fix i
    show "bm_get (bd_orders h) i = bm_get (bd_orders b1) i"
    proof (cases "i \<in> or_id ` set ?xs")
      case True
      then obtain y where y: "y \<in> set ?xs" "or_id y = i" by blast
      have found: "bm_get (bd_orders b1) (or_id x) = Some x" if x: "x \<in> set ?xs" for x
      proof (cases "x = placed")
        case False
        with x mem obtain j where "bm_get (bd_orders b1) j = Some x" by blast
        then show ?thesis using keyed by blast
      qed (use ag' in blast)
      have gy: "bm_get (bd_orders b1) i = Some y" using found [OF y(1)] y(2) by simp
      have "x = y" if "x \<in> set ?xs" "or_id x = i" for x using found [OF that(1)] that(2) gy by simp
      from restore_orders_get [of ?xs i y b, OF this] show ?thesis unfolding ho using True gy by simp
    next
      case False
      have "bm_get (bd_orders h) i = bm_get (bd_orders b) i"
        unfolding ho using restore_orders_get [of ?xs i undefined b] False by auto
      also have "\<dots> = bm_get (bd_orders b1) i"
      proof (cases "i \<in> order_ids trs")
        case True
        then obtain x where x: "bm_get (bd_orders b1) i = Some x" using ag' by blast
        then have "x \<in> set ?xs" using True mem ag' by (cases "i = or_id placed") auto
        then show ?thesis using False keyed [OF x] by blast
      qed (use ag' False in auto)
      finally show ?thesis .
    qed
  qed (rule wf(2))
  moreover have "bd_trades h = bd_trades b2"
    unfolding h publish_def restore_accounts using ag' b2(2) restore_trades_same [OF restore_orders_frame(3) [of ?xs b], of trs] by simp
  moreover have "exchange_account_of h k = exchange_account_of b2 k" for k
  proof -
    have "exchange_account_of h k = (if k \<in> insert owner (parties trs \<union> set sink) then exchange_account_of s2 k else exchange_account_of b k)"
      unfolding h publish_def restore_accounts touched_sets using ag' by simp
    then show ?thesis using ag' s2(2) b2(3) sink by auto
  qed
  ultimately show ?thesis using b2(1) by (simp add: fun_eq_iff)
qed

subsection \<open>The handler is the direct placement\<close>

lemma fees_fit:
  assumes inv: "exchange_inv [] b" "exchange_inv [] b'" and fit: "totals_fit b"
    and tot: "acct_total base_of b' + fees Sell trs = acct_total base_of b" "acct_total compute_of b' + fees Buy trs = acct_total compute_of b"
  shows "fees Buy trs < 2 ^ 64" "fees Sell trs < 2 ^ 64"
    "unat (ex_compute_balance (exchange_account_of b' op)) + fees Buy trs < 2 ^ 64"
    "unat (ex_base_balance (exchange_account_of b' op)) + fees Sell trs < 2 ^ 64"
proof -
  have lt: "acct_total base_of b < 2 ^ 64" "acct_total compute_of b < 2 ^ 64" using fit by (auto simp: totals_fit_def)
  have wf: "bm_wf (bd_exchange_accounts b')" using inv(2) by (simp add: exchange_inv_def)
  have le: "unat (ex_base_balance (exchange_account_of b' op)) \<le> acct_total base_of b'"
    "unat (ex_compute_balance (exchange_account_of b' op)) \<le> acct_total compute_of b'"
    using acct_le_total [OF wf, of base_of op] acct_le_total [OF wf, of compute_of op] by (simp_all add: base_of_def compute_of_def)
  show "fees Buy trs < 2 ^ 64" "fees Sell trs < 2 ^ 64"
    "unat (ex_compute_balance (exchange_account_of b' op)) + fees Buy trs < 2 ^ 64"
    "unat (ex_base_balance (exchange_account_of b' op)) + fees Sell trs < 2 ^ 64"
    using lt le tot by linarith+
qed

lemma handled_and_direct:
  assumes inv: "exchange_inv [] b" and fit: "totals_fit b" and new: "bm_get (bd_orders b) (fresh 0) = None"
    and run: "place_order now fresh owner sd price quantity b = (Ok (placed, trs), b1)"
    and st: "place_order now fresh owner sd price quantity (stage_order b owner sd price op) = (Ok (placed, trs), s1)"
    and ag: "placement_agrees owner op b placed trs s1 b1"
  shows "\<exists>h d. handle_place_order True now fresh op owner sd price quantity b = (Ok placed, h)
    \<and> place_directly now fresh op owner sd price quantity b = (Ok placed, d)
    \<and> bd_orders h = bd_orders d \<and> bd_trades h = bd_trades d \<and> exchange_account_of h = exchange_account_of d"
proof -
  have inv1: "exchange_inv [] b1" using place_order_keeps [OF inv fit new run] by simp
  from inv fit run have "acct_total base_of b1 + fees Sell trs = acct_total base_of b
      \<and> acct_total compute_of b1 + fees Buy trs = acct_total compute_of b"
  proof (cases rule: place_order_cases)
    case (placed a trs' t' b2)
    then show ?thesis using fill_run_totals [OF placed(4,1)] by simp
  qed simp
  then have tot: "acct_total base_of b1 + fees Sell trs = acct_total base_of b"
    "acct_total compute_of b1 + fees Buy trs = acct_total compute_of b" by simp_all
  note ff = fees_fit [OF inv inv1 fit tot]
  have acc: "exchange_account_of s1 op = exchange_account_of b1 op" using ag by (simp add: placement_agrees_def)
  define c v where "c = (of_nat (fees Buy trs) :: u64)" and "v = (of_nat (fees Sell trs) :: u64)"
  obtain b2 where b2: "credit_fees op trs b1 = (Ok (c, v), b2)" "bd_orders b2 = bd_orders b1" "bd_trades b2 = bd_trades b1"
      "\<forall>k. exchange_account_of b2 k = (if k = op then with_fees c v (exchange_account_of b1 op) else exchange_account_of b1 k)"
    using credit_fees_run [OF ff c_def v_def] by blast
  obtain s2 where s2: "credit_fees op trs s1 = (Ok (c, v), s2)" "bd_orders s2 = bd_orders s1"
      "\<forall>k. exchange_account_of s2 k = (if k = op then with_fees c v (exchange_account_of s1 op) else exchange_account_of s1 k)"
    using credit_fees_run [of trs s1 op, OF ff(1,2) _ _ c_def v_def] ff(3,4) acc by auto
  let ?sink = "if c > 0 \<or> v > 0 then [op] else []"
  define h where "h = publish (placed # List.map_filter (get_order s2) (touched_orders placed trs)) trs
      (map (\<lambda>k. (k, exchange_account_of s2 k)) (touched_accounts placed trs ?sink)) b"
  have "bd_orders h = bd_orders b2 \<and> bd_trades h = bd_trades b2 \<and> exchange_account_of h = exchange_account_of b2"
  proof (rule publish_agrees [OF ag _ _ _ s2(2) _ b2(2,3) _ _ _ h_def, where F = "with_fees c v"])
    show "bm_wf (bd_orders b)" "bm_wf (bd_orders b1)" "\<And>i x. bm_get (bd_orders b1) i = Some x \<Longrightarrow> or_id x = i"
      using inv inv1 by (auto simp: exchange_inv_def)
    show "\<forall>a. with_fees c v a = a" if "op \<notin> set ?sink"
      using that by (auto simp: with_fees_def word_neq_0_conv [symmetric] split: if_splits)
  qed (use s2(3) b2(4) in auto)
  moreover have "handle_place_order True now fresh op owner sd price quantity b = (Ok placed, h)"
    by (simp add: handle_place_order_def st s2(1) Let_def h_def)
  moreover have "place_directly now fresh op owner sd price quantity b = (Ok placed, b2)"
    by (simp add: place_directly_def run b2(1) with_step_def)
  ultimately show ?thesis by blast
qed

text \<open>
  C20: The staged placement is the direct one.  On a board the exchange reaches, the handler that
  places the order on a copy holding only the accounts and crossing orders it may touch, and
  publishes the records that moved, answers exactly as placing it on the live board would:
  the same refusal with the live board untouched, or the same order, with every order, trade
  and account balance of the live board, the operator's fees included, as if it had been
  placed there.  It always answers.
\<close>

theorem handle_place_order_is_direct:
  assumes "exchange_reachable live" "totals_fit live" "get_order live (fresh 0) = None"
  shows "\<exists>res h d. place_directly now fresh operator pubkey sd price quantity live = (res, d)
     \<and> (case res of
          Ok placed \<Rightarrow> handle_place_order True now fresh operator pubkey sd price quantity live = (Ok placed, h)
            \<and> bd_orders h = bd_orders d \<and> bd_trades h = bd_trades d \<and> exchange_account_of h = exchange_account_of d
        | Err e \<Rightarrow> handle_place_order True now fresh operator pubkey sd price quantity live = (Err (FromBoard e), live)
        | _ \<Rightarrow> False)"
proof -
  have inv: "exchange_inv [] live" by (rule exchange_reachable_inv [OF assms(1)])
  have new: "bm_get (bd_orders live) (fresh 0) = None" using assms(3) by (simp add: get_order_def)
  obtain res b1 where run: "place_order now fresh pubkey sd price quantity live = (res, b1)" by force
  let ?s = "place_order now fresh pubkey sd price quantity (stage_order live pubkey sd price operator)"
  from place_order_staged [OF inv assms(2) run refl, of operator]
  consider e where "res = Err e" "fst ?s = Err e"
    | placed trs s1 where "res = Ok (placed, trs)" "?s = (Ok (placed, trs), s1)" "placement_agrees pubkey operator live placed trs s1 b1"
    by blast
  then show ?thesis
  proof cases
    case 1
    then have "handle_place_order True now fresh operator pubkey sd price quantity live = (Err (FromBoard e), live)"
      by (cases ?s) (simp add: handle_place_order_def)
    moreover have "place_directly now fresh operator pubkey sd price quantity live = (Err e, b1)"
      using run 1 by (simp add: place_directly_def with_step_def)
    ultimately show ?thesis by auto
  next
    case 2
    from handled_and_direct [OF inv assms(2) new run [unfolded 2(1)] 2(2,3)] show ?thesis by auto
  qed
qed

end
