(* ===== verification/Hub_Witnesses.thy ===== *)
theory Hub_Witnesses
  imports Hub_Place
begin

text \<open>
  The exchange theorems applied to a small market: Ann holds base currency, Bob offers ten
  thousand units of compute at five and Cid as many at six, and Ann buys twelve thousand.
\<close>

definition ann :: public_key where "ann = PublicKey [1]"
definition bob :: public_key where "bob = PublicKey [2]"
definition cid :: public_key where "cid = PublicKey [3]"

lemma ann_bob_cid [simp]:
  "ann < bob" "ann < cid" "bob < cid" "\<not> bob < ann" "\<not> cid < ann" "\<not> cid < bob"
  "ann \<noteq> bob" "ann \<noteq> cid" "bob \<noteq> cid" "bob \<noteq> ann" "cid \<noteq> ann" "cid \<noteq> bob"
  by (simp_all add: ann_def bob_def cid_def less_public_key_def)

lemmas exchange_eval =
  credit_base_def credit_compute_def update_account_def account_add_base_def account_add_compute_def
  exchange_account_of_def restore_exchange_account_def empty_account_def task_board_new_def Let_def
  plus_u_def minus_u_def times_u_def checked_add_def checked_mul_def saturating_sub_def place_order_def lock_for_order_def
  best_resting_match_def bm_values_def bm_get_def matches_taker_def opposite_def price_crosses_def restore_order_def
  restore_trade_def fill_once_def fill_resting_def settle_fill_def taker_fee_of_def debit_buyer_def credit_seller_def
  TAKER_FEE_BPS_def priority_def new_order_def totals_fit_def acct_total_def bm_total_def base_of_def compute_of_def
  get_order_def

definition market_calls :: "exchange_call list" where
  "market_calls =
     [CreditBase ann 1000000, CreditCompute bob 10000, CreditCompute cid 10000,
      PlaceOrder 1 (\<lambda>n. 10 + of_nat n) cid Sell 6 10000,
      PlaceOrder 2 (\<lambda>n. 20 + of_nat n) bob Sell 5 10000]"

definition market :: task_board where
  "market = fold run_exchange market_calls task_board_new"

definition buy_ids :: "nat \<Rightarrow> uuid" where "buy_ids n = 30 + of_nat n"

lemma market_value:
  "market = task_board_new\<lparr>
     bd_exchange_accounts :=
       [(ann, \<lparr>ex_base_balance = 1000000, ex_locked_base = 0, ex_compute_balance = 0, ex_locked_compute = 0\<rparr>),
        (bob, \<lparr>ex_base_balance = 0, ex_locked_base = 0, ex_compute_balance = 10000, ex_locked_compute = 10000\<rparr>),
        (cid, \<lparr>ex_base_balance = 0, ex_locked_base = 0, ex_compute_balance = 10000, ex_locked_compute = 10000\<rparr>)],
     bd_orders := [(10, new_order 10 cid Sell 6 10000 1), (20, new_order 20 bob Sell 5 10000 2)]\<rparr>"
  by (simp add: market_def market_calls_def exchange_eval)

lemma market_reachable: "exchange_reachable market"
  unfolding market_def exchange_reachable_def
  by (rule reaches_fold) (simp add: market_calls_def exchange_eval)

lemma market_fits: "totals_fit market"
  by (simp add: market_value exchange_eval)

definition bought :: "u64 \<Rightarrow> (order \<times> trade list) board_result \<times> task_board" where
  "bought limit = place_order 3 buy_ids ann Buy limit 12000 market"

definition bought_order :: order where
  "bought_order = \<lparr>or_id = 30, or_owner = ann, or_side = Buy, or_price = 6, or_quantity = 12000, or_filled = 12000,
     or_status = Filled, or_created_at = 3\<rparr>"

definition from_bob :: trade where
  "from_bob = \<lparr>tr_id = 31, tr_buy_order_id = 30, tr_sell_order_id = 20, tr_buyer = ann, tr_seller = bob, tr_price = 5,
     tr_quantity = 10000, tr_executed_at = 3, tr_taker_side = Buy, tr_taker_fee = 10\<rparr>"

definition from_cid :: trade where
  "from_cid = \<lparr>tr_id = 32, tr_buy_order_id = 30, tr_sell_order_id = 10, tr_buyer = ann, tr_seller = cid, tr_price = 6,
     tr_quantity = 2000, tr_executed_at = 3, tr_taker_side = Buy, tr_taker_fee = 2\<rparr>"

lemma bought_value: "fst (bought 6) = Ok (bought_order, [from_bob, from_cid])"
  by (simp add: bought_def market_value exchange_eval buy_ids_def bought_order_def from_bob_def from_cid_def)

lemma bought_run: "place_order 3 buy_ids ann Buy 6 12000 market = (Ok (bought_order, [from_bob, from_cid]), snd (bought 6))"
  using bought_value by (simp add: bought_def prod_eq_iff)

theorem exchange_locks_exact_witness:
  "unat (ex_locked_compute (exchange_account_of market bob)) = bm_total (open_lock Sell bob) (bd_orders market)
   \<and> ex_locked_compute (exchange_account_of market bob) = 10000"
  using exchange_locks_exact [OF market_reachable, of bob] by (simp add: market_value exchange_eval)

theorem place_order_conserves_witness:
  "acct_total compute_of market = 20000 \<and> acct_total compute_of (snd (bought 6)) = 19988
   \<and> acct_total base_of (snd (bought 6)) = 1000000"
proof -
  have "acct_total compute_of market = 20000" "acct_total base_of market = 1000000"
    by (simp_all add: market_value exchange_eval)
  with place_order_conserves [OF market_reachable market_fits bought_run] show ?thesis
    by (simp add: from_bob_def from_cid_def)
qed

theorem place_order_trades_fair_witness:
  "unat (or_filled bought_order) = traded [from_bob, from_cid] \<and> price_crosses Buy 6 (tr_price from_cid)"
  using place_order_trades_fair [OF market_reachable market_fits bought_run] by simp

theorem place_order_price_time_priority_witness:
  "map_option or_status (get_order (snd (bought 6)) 20) = Some Filled"
  by (rule place_order_price_time_priority [OF market_reachable market_fits _ bought_run,
        of from_cid "new_order 10 cid Sell 6 10000 1" 20 "new_order 20 bob Sell 5 10000 2"])
    (simp_all add: market_value exchange_eval from_cid_def resting_id_def buy_ids_def)

definition resting_order :: order where
  "resting_order = \<lparr>or_id = 30, or_owner = ann, or_side = Buy, or_price = 5, or_quantity = 12000, or_filled = 10000,
     or_status = OOpen, or_created_at = 3\<rparr>"

lemma rest_run: "place_order 3 buy_ids ann Buy 5 12000 market = (Ok (resting_order, [from_bob]), snd (bought 5))"
  by (simp add: bought_def market_value exchange_eval buy_ids_def resting_order_def from_bob_def)

theorem place_order_exhausts_book_witness:
  "get_order (snd (bought 5)) 30 = Some resting_order \<and> best_resting_match (snd (bought 5)) resting_order = None"
  using place_order_exhausts_book [OF market_reachable market_fits rest_run]
  by (simp add: resting_order_def buy_ids_def)

theorem cancel_order_releases_lock_witness:
  "fst (cancel_order 20 bob market) = Ok (new_order 20 bob Sell 5 10000 2\<lparr>or_status := Cancelled\<rparr>)
   \<and> fst (cancel_order 20 ann market) = Err NotOrderOwner"
  using cancel_order_releases_lock [OF market_reachable, of 20 bob "fst (cancel_order 20 bob market)" "snd (cancel_order 20 bob market)"]
    cancel_order_releases_lock [OF market_reachable, of 20 ann "fst (cancel_order 20 ann market)" "snd (cancel_order 20 ann market)"]
  by (simp add: market_value exchange_eval)

theorem debit_for_withdrawal_leaves_locks_covered_witness:
  "fst (debit_for_withdrawal ann 400 market) = Ok ()
   \<and> fst (debit_for_withdrawal ann 2000000 market) = Err (InsufficientBalance 1000000 2000000)"
  using debit_for_withdrawal_leaves_locks_covered [OF market_reachable, of ann 400
      "fst (debit_for_withdrawal ann 400 market)" "snd (debit_for_withdrawal ann 400 market)"]
    debit_for_withdrawal_leaves_locks_covered [OF market_reachable, of ann 2000000
      "fst (debit_for_withdrawal ann 2000000 market)" "snd (debit_for_withdrawal ann 2000000 market)"]
  by (simp add: market_value exchange_eval)

theorem handle_place_order_is_direct_witness:
  "\<exists>h d. place_directly 3 buy_ids cid ann Buy 6 12000 market = (Ok bought_order, d)
     \<and> handle_place_order True 3 buy_ids cid ann Buy 6 12000 market = (Ok bought_order, h)
     \<and> bd_orders h = bd_orders d \<and> exchange_account_of h = exchange_account_of d"
proof -
  have new: "get_order market (buy_ids 0) = None" by (simp add: market_value get_order_def bm_get_def buy_ids_def)
  have "fst (place_directly 3 buy_ids cid ann Buy 6 12000 market) = Ok bought_order"
    by (simp add: place_directly_def bought_run [unfolded bought_def] with_step_def credit_fees_def taker_fee_totals_def
        from_bob_def from_cid_def bought_def market_value exchange_eval buy_ids_def bought_order_def)
  then show ?thesis
    using handle_place_order_is_direct [where fresh = buy_ids, OF market_reachable market_fits new, of 3 cid ann Buy 6 12000] by auto
qed

end
