(* ===== verification/Hub_Task_Witnesses.thy ===== *)
theory Hub_Task_Witnesses
  imports Hub_Promises Hub_Witnesses
begin

text \<open>
  The board's promises applied to a small board: Ann posts a hash task that Bob solves, a
  contest that Cid answers, and funds a third task through an escrow deposit.
\<close>

lemmas board_eval =
  create_task_def create_disputable_task_def new_task_def set_task_def set_deposit_def Let_def
  claim_task_def check_min_reputation_def reputation_of_def no_reputation_def submit_def
  submit_contest_answer_def submission_deadline_def past_def minutes_def seconds_def nanos_per_sec_def MAX_CONTEST_ANSWERS_def
  reserve_escrow_def confirm_escrow_def check_deposit_def materialize_def apply_intent_limits_def
  get_task_def get_pending_deposit_def task_board_new_def bm_get_def

definition lent_intent :: task_intent where
  "lent_intent = \<lparr>ti_description = ''dig'', ti_bounty = 50, ti_expected_output_hash = 6, ti_min_reputation = 0, ti_capabilities = {}\<rparr>"

definition job_calls :: "board_call list" where
  "job_calls =
     [CreateTask 1 0 ann ''add'' 100 5, ClaimTask 1 bob 1000, SubmitOutput 1 bob 5,
      CreateDisputableTask 2 0 ann ''draw'' 70 60, SubmitContestAnswer 2 cid ''cat'' 9,
      ReserveEscrow 7 1 (\<lambda>_. cid) ann 60 (FundHashMatchTask lent_intent) 500, ConfirmEscrow 3 9 7 60 9]"

definition jobs :: task_board where
  "jobs = fold run_board job_calls task_board_new"

definition solved :: task where
  "solved = (new_task 1 ann ''add'' 100 (HashMatch 5) 0)\<lparr>tk_status := Verified, tk_claimant := Some bob, tk_claim_deadline := Some 1000\<rparr>"

definition contest :: task where
  "contest = new_task 2 ann ''draw'' 70 (Disputable \<lparr>ds_answer = None, ds_dispute_window_minutes = 60, ds_dispute_deadline = None,
     ds_dispute = None, ds_answers = [\<lparr>cn_pubkey = cid, cn_answer = ''cat'', cn_submitted_at = 9, cn_share = None, cn_paid = False\<rparr>],
     ds_pick_deadline = None, ds_picked = None\<rparr>) 0"

definition funded_task :: task where
  "funded_task = (new_task 3 ann ''dig'' 50 (HashMatch 6) 9)\<lparr>tk_escrow_id := Some 7\<rparr>"

lemma jobs_tasks: "bd_tasks jobs = [(1, solved), (2, contest), (3, funded_task)]"
  by (simp add: jobs_def job_calls_def board_eval solved_def contest_def funded_task_def lent_intent_def)

lemma jobs_rest: "bd_reputation jobs = []" "bd_payout_attempts jobs = []"
  by (simp_all add: jobs_def job_calls_def board_eval lent_intent_def)

lemma jobs_reachable: "board_reachable jobs"
  unfolding jobs_def board_reachable_def
  by (rule reaches_fold) (simp add: job_calls_def board_eval lent_intent_def)

lemma jobs_get: "get_task jobs 1 = Some solved" "get_task jobs 2 = Some contest" "get_task jobs 3 = Some funded_task"
  by (simp_all add: get_task_def bm_get_def jobs_tasks)

theorem task_payouts_within_bounty_witness:
  "payout_total (allocated_payouts solved) \<le> 100 \<and> pending_payouts solved = [(bob, 100)]"
  using task_payouts_within_bounty [OF jobs_reachable jobs_get(1)]
  by (auto simp: solved_def new_task_def pending_payouts_def owed_payouts_def allocated_payouts_def is_recipient_paid_def)

definition after_payment :: task_board where
  "after_payment = snd (mark_recipient_paid 10 1 bob 100 jobs)"

lemma payment_run: "mark_recipient_paid 10 1 bob 100 jobs = (Ok True, after_payment)"
  by (simp add: after_payment_def mark_recipient_paid_def jobs_get [unfolded get_task_def] solved_def new_task_def
      pay_kind_def Let_def add_earned_def reputation_of_def no_reputation_def jobs_rest set_task_def
      restore_reputation_def plus_u_def checked_add_def)

theorem recipient_paid_once_witness:
  "snd (mark_recipient_paid 20 1 bob 100 after_payment) = after_payment
   \<and> map_option (\<lambda>t. is_recipient_paid t bob) (get_task after_payment 1) = Some True"
  by (rule recipient_paid_once [OF jobs_reachable payment_run reaches_refl])

theorem task_status_diagram_witness:
  "map_option tk_status (get_task (run_board (MarkPayoutFailed 1) jobs) 1) = Some PayoutFailed
   \<and> may_follow Verified PayoutFailed"
  using task_status_diagram [OF jobs_reachable _ jobs_get(1), of "MarkPayoutFailed 1"]
  by (simp add: mark_payout_failed_def jobs_tasks jobs_rest bm_get_def get_task_def Let_def set_task_def
      payout_attempts_for_task_def solved_def new_task_def)

theorem poster_never_works_own_task_witness:
  "tk_poster contest \<notin> {cid} \<and> (case tk_kind contest of Disputable k \<Rightarrow> length (ds_answers k) \<le> 10 | _ \<Rightarrow> False)"
  using poster_never_works_own_task [OF jobs_reachable jobs_get(2)] by (simp add: contest_def new_task_def)

definition first_attempt :: payout_attempt where
  "first_attempt = \<lparr>pa_task_id = 1, pa_recipient = bob, pa_amount = 100, pa_output_hash = 8, pa_spent_inputs = [4],
     pa_source = ann, pa_submitted_at = 12, pa_submissions = 1, pa_transaction = None\<rparr>"

theorem record_payout_attempt_guards_resend_witness:
  "unsubmitted_payouts jobs 1 = [(bob, 100)] \<and> unsubmitted_payouts (record_payout_attempt first_attempt jobs) 1 = []
   \<and> map_option tk_status (get_task (record_payout_attempt first_attempt jobs) 1) = Some Submitted"
proof -
  have "unsubmitted_payouts jobs 1 = [(bob, 100)]"
    by (simp add: unsubmitted_payouts_def jobs_get [unfolded get_task_def] jobs_rest bm_contains_get solved_def
        new_task_def pending_payouts_def owed_payouts_def allocated_payouts_def is_recipient_paid_def)
  then show ?thesis
    using record_payout_attempt_guards_resend [OF jobs_get(1), of first_attempt]
    by (auto simp: first_attempt_def solved_def new_task_def split: if_splits)
qed

end
