(* ===== verification/Hub_Payments.thy ===== *)
theory Hub_Payments
  imports Hub_Work Hub_Exchange
begin

text \<open>
  The payments journal (\<open>hub/src/payments.rs\<close>): faucet grants, withdrawals and escrow
  disbursements are reserved on the board together with a durable record before anything is
  sent, and settled by a sweep that asks the node what became of them.

  What lies outside is an argument: the height \<open>metrics.chain_height\<close> reports, whether the store
  commits, and the node's replies (\<open>None\<close> is a failed request).  A snapshot of a payment and
  the current board are separate arguments wherever the code releases the board in between.
\<close>

datatype payment_error =
    OutputMismatch | OnlyEmptyEscrow | FaucetReserved | InsufficientAvailable | EscrowHasPayment
  | EscrowMissing | EscrowChanged | EscrowDisbursed | StoreFailed | EarnedOverflow | NodeFailed

type_synonym 'a payment_result = "(payment_error, 'a) outcome"

definition HUB_TRANSACTION_FEE :: u64 where "HUB_TRANSACTION_FEE = 1000"
definition PAYOUT_RESOLUTION_GRACE_SECONDS :: int where "PAYOUT_RESOLUTION_GRACE_SECONDS = 30"
definition EVIDENCE_SCAN_LOOKBACK :: u64 where "EVIDENCE_SCAN_LOOKBACK = 4"
definition EVIDENCE_SCAN_BLOCKS_PER_PASS :: u32 where "EVIDENCE_SCAN_BLOCKS_PER_PASS = 64"

subsection \<open>Creating a payment\<close>

definition first_output :: "transaction option \<Rightarrow> transaction_output option" where
  "first_output tx = Option.bind tx (\<lambda>t. case tx_outputs t of [] \<Rightarrow> None | o' # _ \<Rightarrow> Some o')"

text \<open>\<open>created\<close> and \<open>submitted\<close> are the two readings of the clock.\<close>

definition payment_new ::
  "prims \<Rightarrow> uuid \<Rightarrow> instant \<Rightarrow> instant \<Rightarrow> payment_purpose \<Rightarrow> public_key \<Rightarrow> public_key \<Rightarrow> u64 \<Rightarrow> transaction option \<Rightarrow> payment" where
  "payment_new P fresh created submitted purpose source recipient amount tx =
     \<lparr>py_id = fresh, py_purpose = purpose, py_source = source, py_recipient = recipient, py_amount = amount,
      py_fee = (if tx \<noteq> None then HUB_TRANSACTION_FEE else 0), py_transaction = tx,
      py_output_hash = map_option (output_hash P) (first_output tx),
      py_spent_inputs = (case tx of None \<Rightarrow> [] | Some t \<Rightarrow> map txi_prev_output_hash (tx_inputs t)),
      py_created_at = created, py_submitted_at = submitted, py_submissions = 1, py_status = Pending,
      py_scanned_through = 0\<rparr>"

text \<open>The outputs a wallet may no longer choose: inputs of unresolved payments and of payouts in flight.\<close>

definition mark_spent :: "prims \<Rightarrow> hash list \<Rightarrow> (bool \<times> transaction_output) list \<Rightarrow> (bool \<times> transaction_output) list" where
  "mark_spent P spent = map (\<lambda>(marked, o'). (marked \<or> output_hash P o' \<in> set spent, o'))"

definition reserve_inputs ::
  "prims \<Rightarrow> public_key \<Rightarrow> (uuid \<times> public_key) list \<Rightarrow> task_board \<Rightarrow> (bool \<times> transaction_output) list
     \<Rightarrow> (bool \<times> transaction_output) list" where
  "reserve_inputs P source rebuilding b utxos =
     (let held = filter (\<lambda>p. py_source p = source \<and> py_status p \<noteq> PayConfirmed) (bm_values (bd_payments b));
          flying = filter (\<lambda>a. pa_source a = source \<and> (pa_task_id a, pa_recipient a) \<notin> set rebuilding)
                     (outstanding_payout_attempts b)
      in fold (\<lambda>a. mark_spent P (pa_spent_inputs a)) flying
           (fold (\<lambda>p. mark_spent P (py_spent_inputs p)) held utxos))"

subsection \<open>Reserving\<close>

definition check_output :: "payment \<Rightarrow> unit payment_result" where
  "check_output p =
     (case py_transaction p of
        Some tx \<Rightarrow>
          (case tx_outputs tx of
             o' # _ \<Rightarrow> if txo_pubkey o' = py_recipient p \<and> txo_value o' = py_amount p then Ok () else Err OutputMismatch
           | [] \<Rightarrow> Err OutputMismatch)
      | None \<Rightarrow>
          if py_amount p = 0 \<and> (case py_purpose p of PayEscrow _ _ _ \<Rightarrow> True | _ \<Rightarrow> False) then Ok () else Err OnlyEmptyEscrow)"

definition pays_escrow :: "uuid \<Rightarrow> payment \<Rightarrow> bool" where
  "pays_escrow i p = (case py_purpose p of PayEscrow j _ _ \<Rightarrow> j = i | _ \<Rightarrow> False)"

text \<open>The account, deposit and grant a payment reserves: what \<open>save_payment_effects\<close> commits with it.\<close>

definition reservation :: "payment \<Rightarrow> task_board \<Rightarrow> task_board payment_result" where
  "reservation p b =
     (case py_purpose p of
        PayFaucet \<Rightarrow>
          if can_claim_faucet b (py_recipient p)
          then Ok (restore_faucet_grant (py_recipient p) (py_created_at p div nanos_per_sec) b)
          else Err FaucetReserved
      | PayWithdrawal debited \<Rightarrow>
          let a = exchange_account_of b (py_recipient p)
          in if saturating_sub (ex_base_balance a) (ex_locked_base a) < debited then Err InsufficientAvailable
             else Ok (restore_exchange_account (py_recipient p)
                        (a\<lparr>ex_base_balance := ex_base_balance a - debited\<rparr>) b)
      | PayEscrow i _ previous \<Rightarrow>
          if list_ex (pays_escrow i) (bm_values (bd_payments b)) then Err EscrowHasPayment
          else (case get_pending_deposit b i of
                  None \<Rightarrow> Err EscrowMissing
                | Some d \<Rightarrow>
                    if pd_status d \<noteq> previous then Err EscrowChanged
                    else if pd_status d = Refunded \<or> pd_status d = Disbursing then Err EscrowDisbursed
                    else Ok (restore_pending_deposit (d\<lparr>pd_status := Disbursing\<rparr>) b)))"

definition put_payment :: "payment \<Rightarrow> task_board \<Rightarrow> task_board" where
  "put_payment p b = b\<lparr>bd_payments := bm_insert (py_id p) p (bd_payments b)\<rparr>"

definition prepare :: "u64 \<Rightarrow> bool \<Rightarrow> payment \<Rightarrow> task_board \<Rightarrow> payment payment_result \<times> task_board" where
  "prepare chain_height committed payment b =
     (let p = payment\<lparr>py_scanned_through := saturating_sub chain_height EVIDENCE_SCAN_LOOKBACK\<rparr>
      in with_check (check_output p) b (\<lambda>_.
         with_check (reservation p b) b (\<lambda>b1.
           if committed then (Ok p, put_payment p b1) else (Err StoreFailed, b))))"

subsection \<open>Settling\<close>

definition confirmed_effects :: "payment \<Rightarrow> task_board \<Rightarrow> task_board payment_result" where
  "confirmed_effects p b =
     (case py_purpose p of
        PayEscrow i forfeited _ \<Rightarrow>
          (case get_pending_deposit b i of
             None \<Rightarrow> Err EscrowMissing
           | Some d \<Rightarrow>
               let b1 = restore_pending_deposit (d\<lparr>pd_status := Refunded\<rparr>) b
               in if \<not> forfeited then Ok b1
                  else let rep = reputation_of b (py_recipient p)
                       in (case checked_add (rp_total_earned rep) (py_amount p) of
                             None \<Rightarrow> Err EarnedOverflow
                           | Some e \<Rightarrow> Ok (restore_reputation (py_recipient p) (rep\<lparr>rp_total_earned := e\<rparr>) b1)))
      | _ \<Rightarrow> Ok b)"

definition confirm :: "bool \<Rightarrow> payment \<Rightarrow> task_board \<Rightarrow> unit payment_result \<times> task_board" where
  "confirm committed payment b =
     (case bm_get (bd_payments b) (py_id payment) of
        None \<Rightarrow> (Ok (), b)
      | Some current \<Rightarrow>
          if py_status current = PayConfirmed then (Ok (), b)
          else let done = current\<lparr>py_status := PayConfirmed\<rparr>
               in with_check (confirmed_effects done b) b (\<lambda>b1.
                    if committed then (Ok (), put_payment done b1) else (Err StoreFailed, b)))"

text \<open>\<open>send\<close>: the transactions handed to the node, and the board afterwards; errors are only logged.\<close>

definition send :: "bool \<Rightarrow> payment \<Rightarrow> task_board \<Rightarrow> transaction list \<times> task_board" where
  "send committed p b =
     (case py_transaction p of
        Some tx \<Rightarrow> ([tx], b)
      | None \<Rightarrow> ([], snd (confirm committed p b)))"

datatype evidence = Mined | AbsentFromChain | Inconclusive

definition block_creates :: "prims \<Rightarrow> hash \<Rightarrow> block \<Rightarrow> bool" where
  "block_creates P wanted blk =
     list_ex (\<lambda>tx. list_ex (\<lambda>o'. output_hash P o' = wanted) (tx_outputs tx)) (blk_transactions blk)"

text \<open>The loop over the rounds of one pass; \<open>fetch\<close> is the node's reply to a request in a round.\<close>

fun scan_rounds ::
  "prims \<Rightarrow> (nat \<Rightarrow> u64 \<Rightarrow> block list option) \<Rightarrow> hash \<Rightarrow> nat list \<Rightarrow> payment \<Rightarrow> evidence \<times> payment" where
  "scan_rounds P fetch wanted [] p = (Inconclusive, p)"
| "scan_rounds P fetch wanted (r # rs) p =
     (case fetch r (py_scanned_through p) of
        None \<Rightarrow> (Inconclusive, p)
      | Some blocks \<Rightarrow>
          if blocks = [] then (AbsentFromChain, p)
          else let p' = p\<lparr>py_scanned_through := saturating_add (py_scanned_through p) (of_nat (length blocks))\<rparr>
               in if list_ex (block_creates P wanted) blocks then (Mined, p')
                  else scan_rounds P fetch wanted rs p')"

definition scan_for_evidence ::
  "prims \<Rightarrow> (nat \<Rightarrow> u64 \<Rightarrow> block list option) \<Rightarrow> payment \<Rightarrow> evidence \<times> payment" where
  "scan_for_evidence P fetch p =
     (case py_output_hash p of None \<Rightarrow> (Inconclusive, p) | Some wanted \<Rightarrow> scan_rounds P fetch wanted [0, 1] p)"

definition unmoved :: "payment \<Rightarrow> payment \<Rightarrow> bool" where
  "unmoved current previous \<longleftrightarrow> py_submissions current = py_submissions previous
     \<and> py_status current = py_status previous \<and> py_submitted_at current = py_submitted_at previous"

definition save_progress :: "bool \<Rightarrow> payment \<Rightarrow> payment \<Rightarrow> task_board \<Rightarrow> unit payment_result \<times> task_board" where
  "save_progress committed previous nxt b =
     (case bm_get (bd_payments b) (py_id nxt) of
        None \<Rightarrow> (Ok (), b)
      | Some current \<Rightarrow>
          if \<not> unmoved current previous then (Ok (), b)
          else if committed then (Ok (), put_payment nxt b) else (Err StoreFailed, b))"

record node_view =
  nv_recipient :: "(bool \<times> transaction_output) list option"
  nv_source :: "(bool \<times> transaction_output) list option"
  nv_blocks :: "nat \<Rightarrow> u64 \<Rightarrow> block list option"
  nv_committed :: bool

definition payment_outcome :: "prims \<Rightarrow> node_view \<Rightarrow> payment \<Rightarrow> payout_outcome payment_result" where
  "payment_outcome P v p =
     (case py_output_hash p of
        None \<Rightarrow> Ok PConfirmed
      | Some h \<Rightarrow>
          (case nv_recipient v of
             None \<Rightarrow> Err NodeFailed
           | Some recipient \<Rightarrow>
               (case nv_source v of
                  None \<Rightarrow> Err NodeFailed
                | Some source \<Rightarrow> Ok (resolve_against P h (py_spent_inputs p) recipient source))))"

definition resubmission :: "instant \<Rightarrow> payment \<Rightarrow> payment" where
  "resubmission now p =
     (if py_submissions p \<ge> MAX_PAYOUT_SUBMISSIONS \<or> py_transaction p = None
      then p\<lparr>py_status := NeedsReview\<rparr>
      else p\<lparr>py_submissions := py_submissions p + 1, py_submitted_at := now\<rparr>)"

definition resend ::
  "bool \<Rightarrow> payment \<Rightarrow> instant \<Rightarrow> task_board \<Rightarrow> unit payment_result \<times> transaction list \<times> task_board" where
  "resend committed p now b =
     (let nxt = resubmission now p
      in case bm_get (bd_payments b) (py_id nxt) of
           None \<Rightarrow> (Ok (), [], b)
         | Some current \<Rightarrow>
             if \<not> unmoved current p then (Ok (), [], b)
             else if \<not> committed then (Err StoreFailed, [], b)
             else let b1 = put_payment nxt b
                  in if py_status nxt = Pending then (Ok (), send committed nxt b1) else (Ok (), [], b1))"

definition no_sends :: "unit payment_result \<times> task_board \<Rightarrow> unit payment_result \<times> transaction list \<times> task_board" where
  "no_sends r = (fst r, [], snd r)"

definition resolve ::
  "prims \<Rightarrow> node_view \<Rightarrow> payment \<Rightarrow> instant \<Rightarrow> task_board \<Rightarrow> unit payment_result \<times> transaction list \<times> task_board" where
  "resolve P v p now b =
     (if num_seconds (now - py_submitted_at p) < PAYOUT_RESOLUTION_GRACE_SECONDS then (Ok (), [], b)
      else case payment_outcome P v p of
        Ok outcome \<Rightarrow>
          if outcome = PConfirmed then no_sends (confirm (nv_committed v) p b)
          else if outcome = NeverLanded \<and> py_status p = Pending then resend (nv_committed v) p now b
          else if outcome = HeldInMempool then (Ok (), [], b)
          else (case scan_for_evidence P (nv_blocks v) p of
                  (Mined, _) \<Rightarrow> no_sends (confirm (nv_committed v) p b)
                | (AbsentFromChain, scanned) \<Rightarrow>
                    no_sends (save_progress (nv_committed v) p (scanned\<lparr>py_status := NeedsReview\<rparr>) b)
                | (Inconclusive, scanned) \<Rightarrow> no_sends (save_progress (nv_committed v) p scanned b))
      | Err e \<Rightarrow> (Err e, [], b)
      | Panic \<Rightarrow> (Panic, [], b)
      | Cutoff \<Rightarrow> (Cutoff, [], b))"

text \<open>The sweep: every payment not yet confirmed, from one reading of the journal; errors are only logged.\<close>

definition resolve_all :: "prims \<Rightarrow> (payment \<Rightarrow> node_view) \<Rightarrow> instant \<Rightarrow> task_board \<Rightarrow> transaction list \<times> task_board" where
  "resolve_all P view now b =
     fold (\<lambda>p (sent, b'). case resolve P (view p) p now b' of (_, txs, b'') \<Rightarrow> (sent @ txs, b''))
       (filter (\<lambda>p. py_status p \<noteq> PayConfirmed) (bm_values (bd_payments b))) ([], b)"

end
