(* ===== verification/Hub_Frames.thy ===== *)
theory Hub_Frames
  imports Hub_Payments Hub_Board Hub_Orders
begin

text \<open>
  What the parts of the hub leave alone: task operations do not touch the market or the
  journal, and spend only reserved deposits; market operations do not touch tasks or the
  journal, and likewise spend only reserved deposits.
\<close>

subsection \<open>Task operations and the market\<close>

text \<open>
  A part of the board that is neither the tasks nor the deposits nor the reputations is left
  alone by every operation on tasks, but for those that handle payout attempts.
\<close>

definition others ::
  "task_board \<Rightarrow> (uuid, payment) bmap \<times> (public_key, exchange_account) bmap \<times> (uuid, order) bmap
     \<times> (public_key, int) bmap \<times> (public_key, string) bmap" where
  "others b = (bd_payments b, bd_exchange_accounts b, bd_orders b, bd_faucet_grants b, bd_faucet_grant_prefixes b)"

locale board_frame =
  fixes part :: "task_board \<Rightarrow> 'p"
  assumes set_task_part [simp]: "part (set_task i t b) = part b"
    and set_deposit_part [simp]: "part (set_deposit i d b) = part b"
    and restore_reputation_part [simp]: "part (restore_reputation k r b) = part b"
    and tasks_part [simp]: "part (b\<lparr>bd_tasks := ts\<rparr>) = part b"
begin

lemma with_step_part:
  assumes "part (snd r) = X" "\<And>x. part (snd (k x (snd r))) = X"
  shows "part (snd (with_step r k)) = X"
  using assms by (cases "fst r") (auto simp: with_step_def)

lemma reputation_part [simp]:
  "part (snd (bump_failed k b)) = part b"
  "part (snd (add_earned k a c b)) = part b"
  by (auto simp: bump_failed_def add_earned_def Let_def with_check_snd split: outcome.split)

lemma each_bump_part [simp]: "part (snd (each_step bump_failed ks b)) = part b"
proof (induction ks arbitrary: b)
  case (Cons k ks)
  have "part (snd (each_step bump_failed ks (snd (bump_failed k b)))) = part b" by (simp add: Cons.IH)
  then show ?case by (simp add: with_step_part)
qed simp

lemma resolve_consensus_part [simp]: "part (snd (resolve_consensus i b)) = part b"
  by (auto simp: resolve_consensus_def Let_def intro!: with_step_part split: option.split task_kind.split)

lemma each_resolve_part [simp]: "part (snd (each_step resolve_consensus is b)) = part b"
proof (induction "is" arbitrary: b)
  case (Cons i js)
  have "part (snd (each_step resolve_consensus js (snd (resolve_consensus i b)))) = part b" by (simp add: Cons.IH)
  then show ?case by (simp add: with_step_part)
qed simp

lemma sweep_part [simp]: "part (snd (sweep_tasks f b)) = part b"
  by (simp add: sweep_tasks_def)

lemma create_part [simp]:
  "part (snd (create_task fresh now poster desc bounty h b)) = part b"
  "part (snd (create_consensus_task fresh now poster desc bounty n jd w b)) = part b"
  "part (snd (create_disputable_task fresh now poster desc bounty w b)) = part b"
  "part (snd (set_min_reputation i r b)) = part b"
  "part (snd (set_capabilities i cs b)) = part b"
  by (simp_all add: create_task_def create_consensus_task_def create_disputable_task_def set_min_reputation_def
      set_capabilities_def Let_def split: option.split)

lemma limits_part: "part (snd (apply_intent_limits i r cs b)) = part b"
  by (auto simp: apply_intent_limits_def intro!: with_step_part)

lemma materialize_part [simp]: "part (snd (materialize fresh clock now depositor p b)) = part b"
  by (auto simp: materialize_def case_prod_unfold Let_def limits_part intro!: with_step_part split: escrow_purpose.split)

lemma escrow_part [simp]:
  "part (snd (reserve_escrow fresh now derive depositor required purpose expires b)) = part b"
  "part (snd (confirm_escrow fresh clock i observed now b)) = part b"
  "part (snd (confirm_dispute_bond i observed now b)) = part b"
  "part (snd (mark_escrow_refunded i b)) = part b"
  by (auto simp: reserve_escrow_def confirm_escrow_def confirm_dispute_bond_def mark_escrow_refunded_def Let_def
      with_check_snd intro!: with_step_part
      split: option.split outcome.split escrow_purpose.split task_kind.split)

lemma work_part [simp]:
  "part (snd (cancel_task i b)) = part b"
  "part (snd (claim_task i c d b)) = part b"
  "part (snd (join_consensus_task now now2 i c b)) = part b"
  "part (snd (submit_contest_answer i c ans now b)) = part b"
  "part (snd (close_contest i c now b)) = part b"
  "part (snd (pick_answer i c w now b)) = part b"
  by (auto simp: cancel_task_def claim_task_def join_consensus_task_def submit_contest_answer_def close_contest_def
      pick_answer_def
      with_check_snd Let_def split: option.split task_kind.split outcome.split)

lemma settle_part [simp]:
  "part (snd (submit i c h b)) = part b"
  "part (snd (resolve_dispute i out b)) = part b"
  "part (snd (submit_consensus_answer now i c ans b)) = part b"
  "part (snd (resolve_expired_consensus_tasks now b)) = part b"
  "part (snd (mark_recipient_paid now i c a b)) = part b"
  by (auto simp: submit_def resolve_dispute_def submit_consensus_answer_def resolve_expired_consensus_tasks_def
      mark_recipient_paid_def with_check_snd Let_def case_prod_unfold intro!: with_step_part
      split: option.split task_kind.split outcome.split)

lemma run_board_part:
  "(case c of RecordPayoutAttempt a \<Rightarrow> False | ClearPayoutAttempt i r \<Rightarrow> False | MarkPayoutFailed i \<Rightarrow> False | _ \<Rightarrow> True) \<Longrightarrow>
    part (run_board c b) = part b"
  by (cases c) (simp_all add: restore_task_def close_unclosed_contests_def split_unpicked_contests_def
      finalize_unchallenged_disputable_tasks_def cancel_understaffed_consensus_tasks_def expire_claims_def
      credit_forfeited_bond_def)

end

interpretation market: board_frame others
  by unfold_locales (simp_all add: others_def set_task_def set_deposit_def restore_reputation_def)

interpretation attempts: board_frame bd_payout_attempts
  by unfold_locales (simp_all add: set_task_def set_deposit_def restore_reputation_def)

lemma attempt_others [simp]:
  "others (restore_payout_attempt a b) = others b"
  "others (b\<lparr>bd_payout_attempts := as\<rparr>) = others b"
  "others (snd (mark_payout_failed i b)) = others b"
  "others (record_payout_attempt a b) = others b"
  "others (snd (clear_payout_attempt i r b)) = others b"
  by (auto simp: mark_payout_failed_def record_payout_attempt_def clear_payout_attempt_def Let_def split: option.split)
    (simp_all add: others_def restore_payout_attempt_def set_task_def)

lemma run_board_others [simp]: "others (run_board c b) = others b"
  using market.run_board_part [of c b] by (cases c) simp_all

lemma exchange_inv_others: "others b' = others b \<Longrightarrow> exchange_inv ts b' = exchange_inv ts b"
  by (simp add: others_def exchange_inv_def account_ok_def locked_total_def exchange_account_of_def Let_def)

subsection \<open>Deposits\<close>

text \<open>No deposit is lost; one that is no longer reserved keeps its status; new ones carry their id.\<close>

definition deposits_step :: "(uuid, pending_deposit) bmap \<Rightarrow> (uuid, pending_deposit) bmap \<Rightarrow> bool" where
  "deposits_step D D' \<longleftrightarrow> (\<forall>i.
     (\<forall>d. bm_get D i = Some d \<longrightarrow> (\<exists>d'. bm_get D' i = Some d' \<and> pd_id d' = pd_id d
        \<and> (pd_status d = Reserved \<or> pd_status d' = pd_status d)))
     \<and> (\<forall>d'. bm_get D i = None \<longrightarrow> bm_get D' i = Some d' \<longrightarrow> pd_id d' = i))"

lemma deposits_step_refl [simp]: "deposits_step D D"
  by (auto simp: deposits_step_def)

lemma deposits_step_consume:
  "bm_get D i = Some d \<Longrightarrow> pd_status d = Reserved \<Longrightarrow> deposits_step D (bm_insert i (d\<lparr>pd_status := Consumed\<rparr>) D)"
  by (auto simp: deposits_step_def)

lemma deposits_step_new: "bm_get D i = None \<Longrightarrow> pd_id d = i \<Longrightarrow> deposits_step D (bm_insert i d D)"
  by (auto simp: deposits_step_def)

lemma confirm_escrow_deposits:
  assumes "bm_wf (bd_tasks b)" "get_task b fresh = None"
  shows "deposits_step (bd_pending_deposits b) (bd_pending_deposits (snd (confirm_escrow fresh clock i observed now b)))"
proof -
  obtain res b' where run: "confirm_escrow fresh clock i observed now b = (res, b')" by force
  from assms(1) assms(2) [unfolded get_task_def] run show ?thesis
  proof (cases rule: confirm_escrow_cases)
    case (funded d t)
    then show ?thesis using run deposits_step_consume by simp
  qed (simp add: run)
qed

lemma confirm_dispute_bond_deposits:
  "deposits_step (bd_pending_deposits b) (bd_pending_deposits (snd (confirm_dispute_bond i observed now b)))"
  by (auto simp: confirm_dispute_bond_def check_deposit_def with_check_snd Let_def intro!: deposits_step_consume
      split: option.split escrow_purpose.split task_kind.split outcome.split)

lemma run_board_deposits:
  assumes "board_inv b" "board_allowed c b" "\<And>i. c \<noteq> MarkEscrowRefunded i"
  shows "deposits_step (bd_pending_deposits b) (bd_pending_deposits (run_board c b))"
proof (cases c)
  case (ConfirmEscrow fresh clock i observed now)
  then show ?thesis using assms confirm_escrow_deposits by (simp add: board_inv_def tasks_ok_def)
next
  case (ReserveEscrow fresh now derive depositor required purpose expires)
  then show ?thesis using assms(2)
    by (auto simp: reserve_escrow_def Let_def get_pending_deposit_def intro!: deposits_step_new)
qed (use assms(3) confirm_dispute_bond_deposits in \<open>simp_all add: restore_task_def create_task_def create_consensus_task_def
    create_disputable_task_def Let_def\<close>)

subsection \<open>Market operations\<close>

definition rest ::
  "task_board \<Rightarrow> (uuid, task) bmap \<times> (uuid, pending_deposit) bmap \<times> (uuid, payment) bmap
     \<times> (public_key, int) bmap \<times> (public_key, string) bmap" where
  "rest b = (bd_tasks b, bd_pending_deposits b, bd_payments b, bd_faucet_grants b, bd_faucet_grant_prefixes b)"

lemma rest_update [simp]:
  "rest (restore_exchange_account k a b) = rest b"
  "rest (restore_order x b) = rest b"
  "rest (restore_trade t b) = rest b"
  "rest (b\<lparr>bd_orders := os\<rparr>) = rest b"
  by (simp_all add: rest_def restore_exchange_account_def restore_order_def restore_trade_def)

lemma rest_trades [simp]: "rest (fold restore_trade ts b) = rest b"
  by (induction ts arbitrary: b) simp_all

lemma update_account_rest [simp]: "rest (snd (update_account k f b)) = rest b"
  by (simp add: update_account_def with_check_snd split: outcome.split)

lemma fill_once_rest: "fill_once now i taker resting b = Ok (taker', t, b') \<Longrightarrow> rest b' = rest b"
  by (auto simp: fill_once_def settle_fill_def Let_def case_prod_unfold outcome_simps split: if_splits)

lemma match_loop_rest: "match_loop n now fresh taker ts b = Ok (taker', ts', b') \<Longrightarrow> rest b' = rest b"
proof (induction n now fresh taker ts b rule: match_loop.induct)
  case (2 fuel now fresh taker ts b)
  show ?case
  proof (cases "or_filled taker < or_quantity taker \<and> best_resting_match b taker \<noteq> None")
    case True
    then obtain i where i: "best_resting_match b taker = Some i" by blast
    with "2.prems" True obtain resting taker1 t1 b1 where *: "expect (bm_get (bd_orders b) i) = Ok resting"
      "fill_once now (fresh (Suc (length ts))) taker resting b = Ok (taker1, t1, b1)"
      "match_loop fuel now fresh taker1 (ts @ [t1]) b1 = Ok (taker', ts', b')"
      by (auto simp: outcome_simps)
    show ?thesis using "2.IH" [OF _ i *(3)] True fill_once_rest [OF *(2)] by simp
  next
    case False
    then show ?thesis using "2.prems" by (auto split: if_splits)
  qed
qed simp

lemma place_order_rest [simp]: "rest (snd (place_order now fresh owner sd price quantity b)) = rest b"
proof -
  have "rest b2 = rest (restore_exchange_account owner a b)"
    if "match_loop n now fresh t [] (restore_exchange_account owner a b) = Ok (t', ts, b2)" for n t t' ts a b2
    using match_loop_rest [OF that] .
  then show ?thesis
    by (auto simp: place_order_def Let_def with_check_snd case_prod_unfold simp del: match_loop.simps split: outcome.split)
qed

lemma cancel_order_rest [simp]: "rest (snd (cancel_order i caller b)) = rest b"
  by (auto simp: cancel_order_def Let_def with_check_snd split: option.split outcome.split)

lemma run_exchange_frame:
  "bd_tasks (run_exchange c b) = bd_tasks b \<and> bd_payments (run_exchange c b) = bd_payments b
   \<and> bd_faucet_grants (run_exchange c b) = bd_faucet_grants b
   \<and> bd_faucet_grant_prefixes (run_exchange c b) = bd_faucet_grant_prefixes b
   \<and> deposits_step (bd_pending_deposits b) (bd_pending_deposits (run_exchange c b))"
proof -
  have same: ?thesis if "rest (run_exchange c b) = rest b" using that by (simp add: rest_def)
  show ?thesis
  proof (cases c)
    case (ConfirmExchangeDeposit i observed fee now)
    have cb: "bd_tasks (snd (credit_base k a x)) = bd_tasks x" "bd_payments (snd (credit_base k a x)) = bd_payments x"
      "bd_faucet_grants (snd (credit_base k a x)) = bd_faucet_grants x"
      "bd_faucet_grant_prefixes (snd (credit_base k a x)) = bd_faucet_grant_prefixes x"
      "bd_pending_deposits (snd (credit_base k a x)) = bd_pending_deposits x" for k a x
      using update_account_rest [of k "account_add_base a" x] by (simp_all add: rest_def credit_base_def)
    show ?thesis
      by (auto simp: ConfirmExchangeDeposit confirm_exchange_deposit_def Let_def cb intro!: deposits_step_consume split: option.split)
  qed (rule same, simp add: credit_base_def credit_compute_def credit_back_withdrawal_def debit_for_withdrawal_def Let_def)+
qed

end
