(* ===== verification/Hub_Journal.thy ===== *)
theory Hub_Journal
  imports Hub_Frames
begin

text \<open>
  The hub as one machine: task operations, market operations and the payments journal in any
  order on one board.  The journal's invariant is kept beside those of the task board and the
  exchange: whatever a payment claims (a faucet grant, an escrow deposit) is claimed by it
  alone, and the deposit's status follows the payment's.
\<close>

subsection \<open>Calls\<close>

text \<open>A snapshot of a payment read earlier: the same record up to what settlement changes.\<close>

definition same_record :: "payment \<Rightarrow> payment \<Rightarrow> bool" where
  "same_record c p \<longleftrightarrow> c = p\<lparr>py_submitted_at := py_submitted_at c, py_submissions := py_submissions c,
     py_status := py_status c, py_scanned_through := py_scanned_through c\<rparr>"

definition snapshot_of :: "task_board \<Rightarrow> payment \<Rightarrow> bool" where
  "snapshot_of b p = (case bm_get (bd_payments b) (py_id p) of None \<Rightarrow> False | Some c \<Rightarrow> same_record c p)"

datatype hub_call =
    OnTasks board_call
  | OnMarket exchange_call
  | PreparePayment uuid instant instant payment_purpose public_key public_key u64 "transaction option" u64 bool
  | SendPayment bool payment
  | ResolvePayment node_view payment instant

fun run_hub :: "prims \<Rightarrow> hub_call \<Rightarrow> task_board \<Rightarrow> task_board" where
  "run_hub P (OnTasks c) b = run_board c b"
| "run_hub P (OnMarket c) b = run_exchange c b"
| "run_hub P (PreparePayment fresh created submitted purpose source recipient amount tx height ok) b =
     snd (prepare height ok (payment_new P fresh created submitted purpose source recipient amount tx) b)"
| "run_hub P (SendPayment ok p) b = snd (send ok p b)"
| "run_hub P (ResolvePayment v p now) b = snd (snd (resolve P v p now b))"

text \<open>
  New ids are unused, a snapshot comes from the journal, the sweep resolves no confirmed
  payment; \<open>mark_escrow_refunded\<close> is never called, refunds go through the journal.
\<close>

fun hub_allowed :: "hub_call \<Rightarrow> task_board \<Rightarrow> bool" where
  "hub_allowed (OnTasks c) b \<longleftrightarrow> board_allowed c b \<and> (case c of MarkEscrowRefunded _ \<Rightarrow> False | _ \<Rightarrow> True)"
| "hub_allowed (OnMarket c) b \<longleftrightarrow> call_allowed c b"
| "hub_allowed (PreparePayment fresh created submitted purpose source recipient amount tx height ok) b \<longleftrightarrow>
     bm_get (bd_payments b) fresh = None"
| "hub_allowed (SendPayment ok p) b \<longleftrightarrow> snapshot_of b p"
| "hub_allowed (ResolvePayment v p now) b \<longleftrightarrow> snapshot_of b p \<and> py_status p \<noteq> PayConfirmed"

definition hub_reachable :: "prims \<Rightarrow> task_board \<Rightarrow> bool" where
  "hub_reachable P b \<longleftrightarrow> reaches hub_allowed (run_hub P) task_board_new b"

subsection \<open>The journal's invariant\<close>

definition claim_of :: "payment \<Rightarrow> (public_key + uuid) option" where
  "claim_of p = (case py_purpose p of PayFaucet \<Rightarrow> Some (Inl (py_recipient p)) | PayWithdrawal _ \<Rightarrow> None | PayEscrow e _ _ \<Rightarrow> Some (Inr e))"

definition deposit_status :: "task_board \<Rightarrow> uuid \<Rightarrow> escrow_status option" where
  "deposit_status b e = map_option pd_status (bm_get (bd_pending_deposits b) e)"

definition claim_held :: "task_board \<Rightarrow> payment \<Rightarrow> bool" where
  "claim_held b p = (case py_purpose p of
     PayFaucet \<Rightarrow> bm_contains (py_recipient p) (bd_faucet_grants b)
   | PayWithdrawal _ \<Rightarrow> True
   | PayEscrow e _ _ \<Rightarrow> deposit_status b e = Some (if py_status p = PayConfirmed then Refunded else Disbursing))"

definition payment_ok :: "task_board \<Rightarrow> uuid \<Rightarrow> payment \<Rightarrow> bool" where
  "payment_ok b i p \<longleftrightarrow> py_id p = i \<and> 1 \<le> py_submissions p \<and> py_submissions p \<le> MAX_PAYOUT_SUBMISSIONS
     \<and> check_output p = Ok () \<and> claim_held b p"

definition deposits_keyed :: "task_board \<Rightarrow> bool" where
  "deposits_keyed b \<longleftrightarrow> (\<forall>i d. bm_get (bd_pending_deposits b) i = Some d \<longrightarrow> pd_id d = i)"

definition claims_unique :: "task_board \<Rightarrow> bool" where
  "claims_unique b \<longleftrightarrow> (\<forall>i j p q. bm_get (bd_payments b) i = Some p \<longrightarrow> bm_get (bd_payments b) j = Some q \<longrightarrow>
     claim_of p \<noteq> None \<longrightarrow> claim_of p = claim_of q \<longrightarrow> i = j)"

definition journal_inv :: "task_board \<Rightarrow> bool" where
  "journal_inv b \<longleftrightarrow> bm_wf (bd_payments b) \<and> deposits_keyed b
     \<and> (\<forall>i p. bm_get (bd_payments b) i = Some p \<longrightarrow> payment_ok b i p) \<and> claims_unique b"

definition hub_inv :: "task_board \<Rightarrow> bool" where
  "hub_inv b \<longleftrightarrow> board_inv b \<and> exchange_inv [] b \<and> journal_inv b"

lemma put_payment_frame [simp]:
  "bd_payments (put_payment p b) = bm_insert (py_id p) p (bd_payments b)"
  "bd_tasks (put_payment p b) = bd_tasks b"
  "bd_pending_deposits (put_payment p b) = bd_pending_deposits b"
  "bd_faucet_grants (put_payment p b) = bd_faucet_grants b"
  "bd_exchange_accounts (put_payment p b) = bd_exchange_accounts b"
  "bd_orders (put_payment p b) = bd_orders b"
  by (simp_all add: put_payment_def)

lemma claim_held_put [simp]: "claim_held (put_payment p b) = claim_held b"
  by (simp add: fun_eq_iff claim_held_def deposit_status_def split: payment_purpose.split)

lemma payment_ok_put [simp]: "payment_ok (put_payment p b) = payment_ok b"
  by (simp add: fun_eq_iff payment_ok_def)

subsection \<open>Other parts leave the journal alone\<close>

lemma deposits_step_status:
  assumes "deposits_step (bd_pending_deposits b) (bd_pending_deposits b')" "deposit_status b e = Some s" "s \<noteq> Reserved"
  shows "deposit_status b' e = Some s"
  using assms unfolding deposits_step_def deposit_status_def by force

lemma journal_inv_frame:
  assumes inv: "journal_inv b" and p: "bd_payments b' = bd_payments b" and g: "bd_faucet_grants b' = bd_faucet_grants b"
    and d: "deposits_step (bd_pending_deposits b) (bd_pending_deposits b')"
  shows "journal_inv b'"
proof -
  have "claim_held b' q" if "claim_held b q" for q
    using that deposits_step_status [OF d] g
    by (auto simp: claim_held_def split: payment_purpose.splits if_splits)
  then have "payment_ok b' i q" if "payment_ok b i q" for i q using that by (simp add: payment_ok_def)
  moreover have "deposits_keyed b'"
    unfolding deposits_keyed_def
  proof (intro allI impI)
    fix i d' assume d': "bm_get (bd_pending_deposits b') i = Some d'"
    show "pd_id d' = i"
    proof (cases "bm_get (bd_pending_deposits b) i")
      case None then show ?thesis using d d' unfolding deposits_step_def by blast
    next
      case (Some x)
      then obtain y where "bm_get (bd_pending_deposits b') i = Some y" "pd_id y = pd_id x"
        using d unfolding deposits_step_def by blast
      then show ?thesis using d' Some inv by (simp add: journal_inv_def deposits_keyed_def)
    qed
  qed
  moreover have "claims_unique b' = claims_unique b" unfolding claims_unique_def p by (rule refl)
  ultimately show ?thesis using inv p by (simp add: journal_inv_def)
qed

subsection \<open>Writing one record\<close>

text \<open>A record whose claim nobody else holds, on a board where the other claims still hold.\<close>

lemma journal_inv_put:
  assumes inv: "journal_inv b" and p: "bd_payments b1 = bd_payments b" and k: "deposits_keyed b1"
    and ok: "payment_ok b1 i p'"
    and held: "\<And>j q. bm_get (bd_payments b) j = Some q \<Longrightarrow> j \<noteq> i \<Longrightarrow> payment_ok b1 j q"
    and uniq: "\<And>j q. bm_get (bd_payments b) j = Some q \<Longrightarrow> j \<noteq> i \<Longrightarrow> claim_of p' \<noteq> None \<Longrightarrow> claim_of q \<noteq> claim_of p'"
  shows "journal_inv (put_payment p' b1)"
proof -
  have i: "py_id p' = i" using ok by (simp add: payment_ok_def)
  have "claims_unique b" using inv by (simp add: journal_inv_def)
  then have "claims_unique (put_payment p' b1)"
    using uniq unfolding claims_unique_def put_payment_frame p i bm_get_insert by (metis option.inject)
  moreover have "bm_wf (bd_payments b)" using inv by (simp add: journal_inv_def)
  ultimately show ?thesis
    using k ok held i p by (simp add: journal_inv_def deposits_keyed_def)
qed

lemma same_record_iff:
  "same_record c p \<longleftrightarrow> py_id c = py_id p \<and> py_purpose c = py_purpose p \<and> py_source c = py_source p
     \<and> py_recipient c = py_recipient p \<and> py_amount c = py_amount p \<and> py_fee c = py_fee p \<and> py_transaction c = py_transaction p
     \<and> py_output_hash c = py_output_hash p \<and> py_spent_inputs c = py_spent_inputs p \<and> py_created_at c = py_created_at p"
  by (cases c, cases p) (auto simp: same_record_def)

lemma same_record_trans: "same_record a b \<Longrightarrow> same_record b c \<Longrightarrow> same_record a c"
  by (simp add: same_record_iff)

lemma same_record_facts:
  assumes "same_record c p"
  shows "py_id c = py_id p" "claim_of c = claim_of p" "check_output c = check_output p" "py_purpose c = py_purpose p"
    "py_recipient c = py_recipient p"
proof -
  have p: "py_purpose c = py_purpose p" and r: "py_recipient c = py_recipient p" and t: "py_transaction c = py_transaction p"
    and a: "py_amount c = py_amount p" and i: "py_id c = py_id p"
    using assms by (simp_all add: same_record_iff)
  show "py_id c = py_id p" "py_purpose c = py_purpose p" "py_recipient c = py_recipient p" by (fact i p r)+
  show "claim_of c = claim_of p" "check_output c = check_output p"
    unfolding claim_of_def check_output_def p r t a by (rule refl)+
qed

text \<open>A later version of a record of the journal that is not confirmed by it.\<close>

lemma journal_inv_rewrite:
  assumes inv: "journal_inv b" and c: "bm_get (bd_payments b) (py_id c) = Some c" "same_record c nxt"
    and st: "py_status c \<noteq> PayConfirmed" "py_status nxt \<noteq> PayConfirmed"
    and n: "1 \<le> py_submissions nxt" "py_submissions nxt \<le> MAX_PAYOUT_SUBMISSIONS"
  shows "journal_inv (put_payment nxt b)"
proof -
  note same = same_record_facts [OF c(2)]
  have "payment_ok b (py_id c) c" using inv c(1) by (simp add: journal_inv_def)
  then have "payment_ok b (py_id c) nxt"
    using same st n by (auto simp: payment_ok_def claim_held_def split: payment_purpose.splits)
  moreover have "claim_of q \<noteq> claim_of nxt" if "bm_get (bd_payments b) j = Some q" "j \<noteq> py_id c" "claim_of nxt \<noteq> None" for j q
    using inv that c(1) same(2) unfolding journal_inv_def claims_unique_def by metis
  moreover have "payment_ok b j q" if "bm_get (bd_payments b) j = Some q" for j q
    using inv that by (simp add: journal_inv_def)
  ultimately show ?thesis
    using inv by (intro journal_inv_put [OF inv refl]) (auto simp: journal_inv_def)
qed

subsection \<open>Every payment operation keeps the invariants\<close>

lemma journal_deposit_keyed: "deposits_keyed b \<Longrightarrow> bm_get (bd_pending_deposits b) e = Some d \<Longrightarrow>
    restore_pending_deposit (d\<lparr>pd_status := s\<rparr>) b = set_deposit e (d\<lparr>pd_status := s\<rparr>) b"
  by (auto simp: restore_pending_deposit_def deposits_keyed_def)

lemma deposits_keyed_set: "deposits_keyed b \<Longrightarrow> pd_id d = e \<Longrightarrow> deposits_keyed (set_deposit e d b)"
  by (simp add: deposits_keyed_def)

lemma reservation_cases:
  assumes inv: "journal_inv b" and run: "reservation p b = Ok b1"
  obtains (faucet) at where "py_purpose p = PayFaucet" "\<not> bm_contains (py_recipient p) (bd_faucet_grants b)"
      "b1 = restore_faucet_grant (py_recipient p) at b"
  | (withdrawal) debited where "py_purpose p = PayWithdrawal debited"
      "b1 = restore_exchange_account (py_recipient p)
        ((exchange_account_of b (py_recipient p))\<lparr>ex_base_balance := ex_base_balance (exchange_account_of b (py_recipient p)) - debited\<rparr>) b"
      "debited \<le> saturating_sub (ex_base_balance (exchange_account_of b (py_recipient p))) (ex_locked_base (exchange_account_of b (py_recipient p)))"
  | (escrow) e f s d where "py_purpose p = PayEscrow e f s" "bm_get (bd_pending_deposits b) e = Some d"
      "pd_status d \<notin> {Refunded, Disbursing}" "b1 = set_deposit e (d\<lparr>pd_status := Disbursing\<rparr>) b"
      "\<And>j q. bm_get (bd_payments b) j = Some q \<Longrightarrow> \<not> pays_escrow e q"
proof (cases "py_purpose p")
  case PayFaucet
  then show ?thesis using run faucet by (auto simp: reservation_def can_claim_faucet_def split: if_splits)
next
  case (PayWithdrawal debited)
  then show ?thesis using run withdrawal by (auto simp: reservation_def Let_def not_less split: if_splits)
next
  case (PayEscrow e f s)
  with run obtain d where d: "bm_get (bd_pending_deposits b) e = Some d" "pd_status d \<notin> {Refunded, Disbursing}"
      "b1 = restore_pending_deposit (d\<lparr>pd_status := Disbursing\<rparr>) b" "\<not> list_ex (pays_escrow e) (bm_values (bd_payments b))"
    by (auto simp: reservation_def get_pending_deposit_def split: option.splits if_splits)
  have "\<not> pays_escrow e q" if "bm_get (bd_payments b) j = Some q" for j q
    using d(4) inv that bm_values_iff [of "bd_payments b" q] by (auto simp: journal_inv_def list_ex_iff)
  then show ?thesis using escrow [OF PayEscrow d(1,2)] d(3) journal_deposit_keyed [OF _ d(1)] inv by (auto simp: journal_inv_def)
qed

lemma claim_held_status:
  "claim_held b q \<Longrightarrow> py_purpose q = PayEscrow e f s \<Longrightarrow> \<exists>d. bm_get (bd_pending_deposits b) e = Some d \<and> pd_status d \<in> {Refunded, Disbursing}"
  by (auto simp: claim_held_def deposit_status_def split: if_splits)

lemma claim_held_set_deposit:
  assumes "claim_held b q" "\<not> pays_escrow e q"
  shows "claim_held (set_deposit e d b) q"
  using assms by (auto simp: claim_held_def pays_escrow_def deposit_status_def set_deposit_def split: payment_purpose.splits)

lemma prepare_journal:
  assumes inv: "journal_inv b" and new: "bm_get (bd_payments b) (py_id p) = None"
    and n: "py_submissions p = 1" "py_status p = Pending"
    and chk: "check_output p = Ok ()" and res: "reservation p b = Ok b1"
  shows "journal_inv (put_payment p b1)"
proof -
  have keyed: "deposits_keyed b" using inv by (simp add: journal_inv_def)
  have ok: "payment_ok b j q" if "bm_get (bd_payments b) j = Some q" for j q using inv that by (simp add: journal_inv_def)
  have sub: "1 \<le> py_submissions p \<and> py_submissions p \<le> MAX_PAYOUT_SUBMISSIONS" by (simp add: n MAX_PAYOUT_SUBMISSIONS_def)
  from inv res show ?thesis
  proof (cases rule: reservation_cases)
    case (faucet at)
    have held: "claim_held b1 q" if "claim_held b q" for q
      using that faucet(3) by (auto simp: claim_held_def restore_faucet_grant_def deposit_status_def bm_contains_get split: payment_purpose.splits)
    show ?thesis
    proof (rule journal_inv_put [OF inv])
      show "payment_ok b1 (py_id p) p" using sub chk faucet
        by (simp add: payment_ok_def claim_held_def restore_faucet_grant_def bm_contains_get)
      show "payment_ok b1 j q" if "bm_get (bd_payments b) j = Some q" for j q using ok [OF that] held by (simp add: payment_ok_def)
      show "claim_of q \<noteq> claim_of p" if "bm_get (bd_payments b) j = Some q" for j q
        using ok [OF that] faucet(1,2) by (auto simp: payment_ok_def claim_held_def claim_of_def split: payment_purpose.splits)
    qed (use faucet keyed in \<open>auto simp: restore_faucet_grant_def deposits_keyed_def\<close>)
  next
    case (withdrawal debited)
    have held: "claim_held b1 q = claim_held b q" for q
      by (simp add: withdrawal(2) claim_held_def restore_exchange_account_def deposit_status_def split: payment_purpose.split)
    show ?thesis
      by (rule journal_inv_put [OF inv, where i = "py_id p"])
        (use withdrawal keyed ok sub chk held in \<open>auto simp: payment_ok_def claim_held_def claim_of_def
          restore_exchange_account_def deposits_keyed_def\<close>)
  next
    case (escrow e f s d)
    have id: "pd_id d = e" using keyed escrow(2) by (simp add: deposits_keyed_def)
    show ?thesis
    proof (rule journal_inv_put [OF inv])
      show "bd_payments b1 = bd_payments b" by (simp add: escrow(4) set_deposit_def)
      show "deposits_keyed b1" unfolding escrow(4) by (rule deposits_keyed_set [OF keyed]) (simp add: id)
      show "payment_ok b1 (py_id p) p" using sub chk escrow n by (simp add: payment_ok_def claim_held_def deposit_status_def)
      show "payment_ok b1 j q" if "bm_get (bd_payments b) j = Some q" for j q
        using ok [OF that] claim_held_set_deposit escrow(5) [OF that] by (simp add: payment_ok_def escrow(4))
      show "claim_of q \<noteq> claim_of p" if "bm_get (bd_payments b) j = Some q" for j q
        using escrow(5) [OF that] escrow(1) by (auto simp: claim_of_def pays_escrow_def split: payment_purpose.splits)
    qed
  qed
qed

lemma confirm_cases:
  assumes inv: "journal_inv b" and run: "confirm ok p b = (res, b')"
  obtains (unchanged) "b' = b"
  | (settled) c b1 where "bm_get (bd_payments b) (py_id p) = Some c" "py_status c \<noteq> PayConfirmed"
      "confirmed_effects (c\<lparr>py_status := PayConfirmed\<rparr>) b = Ok b1" "b' = put_payment (c\<lparr>py_status := PayConfirmed\<rparr>) b1" "res = Ok ()"
proof (cases "bm_get (bd_payments b) (py_id p)")
  case None
  then show ?thesis using run unchanged by (simp add: confirm_def)
next
  case (Some c)
  show ?thesis
  proof (cases "py_status c \<noteq> PayConfirmed \<and> ok \<and> (\<exists>b1. confirmed_effects (c\<lparr>py_status := PayConfirmed\<rparr>) b = Ok b1)")
    case True
    then show ?thesis using settled Some run by (auto simp: confirm_def Let_def)
  next
    case False
    then show ?thesis using unchanged Some run
      by (cases "confirmed_effects (c\<lparr>py_status := PayConfirmed\<rparr>) b") (auto simp: confirm_def Let_def split: if_splits)
  qed
qed

text \<open>What confirming a payment changes besides the record: its deposit, and the loser's bond earned.\<close>

lemma confirmed_effects_cases:
  assumes "deposits_keyed b" "confirmed_effects p b = Ok b1"
  shows "(if \<exists>e f s. py_purpose p = PayEscrow e f s then
      \<exists>e f s d. py_purpose p = PayEscrow e f s \<and> bm_get (bd_pending_deposits b) e = Some d
        \<and> bd_pending_deposits b1 = bm_insert e (d\<lparr>pd_status := Refunded\<rparr>) (bd_pending_deposits b)
      else bd_pending_deposits b1 = bd_pending_deposits b)
    \<and> bd_tasks b1 = bd_tasks b \<and> others b1 = others b"
proof (cases "py_purpose p")
  case (PayEscrow e f s)
  with assms(2) obtain d where d: "bm_get (bd_pending_deposits b) e = Some d"
    by (auto simp: confirmed_effects_def get_pending_deposit_def split: option.splits)
  note k = journal_deposit_keyed [OF assms(1) d, of Refunded]
  show ?thesis using assms(2) PayEscrow d
    by (auto simp: confirmed_effects_def get_pending_deposit_def k Let_def split: option.splits if_splits)
qed (use assms(2) in \<open>simp_all add: confirmed_effects_def\<close>)

lemma others_fields:
  "others b' = others b \<Longrightarrow> bd_payments b' = bd_payments b \<and> bd_exchange_accounts b' = bd_exchange_accounts b
    \<and> bd_orders b' = bd_orders b \<and> bd_faucet_grants b' = bd_faucet_grants b"
  by (simp add: others_def)

lemma settle_journal:
  assumes inv: "journal_inv b" and c: "bm_get (bd_payments b) i = Some c" "py_status c \<noteq> PayConfirmed"
    and eff: "confirmed_effects (c\<lparr>py_status := PayConfirmed\<rparr>) b = Ok b1"
  shows "journal_inv (put_payment (c\<lparr>py_status := PayConfirmed\<rparr>) b1)"
proof -
  let ?c = "c\<lparr>py_status := PayConfirmed\<rparr>"
  have keyed: "deposits_keyed b" and ok: "payment_ok b j q" if "bm_get (bd_payments b) j = Some q" for j q
    using inv that by (simp_all add: journal_inv_def)
  then have keyed: "deposits_keyed b" using c(1) by blast
  note eff' = confirmed_effects_cases [OF keyed eff]
  then have same: "bd_payments b1 = bd_payments b" "bd_faucet_grants b1 = bd_faucet_grants b" using others_fields by blast+
  have cok: "payment_ok b i c" using ok c(1) by blast
  have sr: "same_record c ?c" by (simp add: same_record_iff)
  have chk: "check_output ?c = check_output c" "claim_of ?c = claim_of c"
    using same_record_facts(2,3) [OF sr] by simp_all
  show ?thesis
  proof (rule journal_inv_put [OF inv same(1), of i])
    show "deposits_keyed b1"
      using eff' keyed by (auto simp: deposits_keyed_def split: if_splits)
    have "claim_held b1 ?c"
      using eff' cok same(2) by (cases "py_purpose c") (auto simp: claim_held_def payment_ok_def deposit_status_def)
    then show "payment_ok b1 i ?c" using cok chk by (simp add: payment_ok_def)
    show uniq: "claim_of q \<noteq> claim_of ?c" if "bm_get (bd_payments b) j = Some q" "j \<noteq> i" "claim_of ?c \<noteq> None" for j q
      using inv that c(1) chk(2) unfolding journal_inv_def claims_unique_def by metis
    show "payment_ok b1 j q" if q: "bm_get (bd_payments b) j = Some q" "j \<noteq> i" for j q
    proof -
      have "claim_of q \<noteq> claim_of c \<or> claim_of c = None" using uniq [OF q] chk by (cases "claim_of c") auto
      then have "claim_held b1 q"
        using ok [OF q(1)] eff' same(2) by (cases "py_purpose c"; cases "py_purpose q")
          (auto simp: claim_held_def payment_ok_def deposit_status_def claim_of_def)
      then show ?thesis using ok [OF q(1)] by (simp add: payment_ok_def)
    qed
  qed
qed

subsection \<open>The machine keeps all three invariants\<close>

lemma board_inv_same:
  assumes "board_inv b" "bd_tasks b' = bd_tasks b" "\<And>e. spent_deposit b e \<Longrightarrow> spent_deposit b' e"
  shows "board_inv b'"
  using board_inv_keeps [OF assms(1) keeps_tasks_same [OF assms(2)] assms(3)] by blast

lemma put_board: "board_inv b \<Longrightarrow> board_inv (put_payment p b)"
  by (rule board_inv_same [of b]) (auto simp: spent_deposit_def)

lemma put_market: "exchange_inv ts (put_payment p b) = exchange_inv ts b"
  by (simp add: exchange_inv_def account_ok_def locked_total_def exchange_account_of_def Let_def)

lemma hub_inv_put: "hub_inv b \<Longrightarrow> journal_inv (put_payment p b) \<Longrightarrow> hub_inv (put_payment p b)"
  by (simp add: hub_inv_def put_board put_market)

lemma confirm_hub_inv: "hub_inv b \<Longrightarrow> hub_inv (snd (confirm ok p b))"
proof -
  assume inv: "hub_inv b"
  then have j: "journal_inv b" by (simp add: hub_inv_def)
  obtain res b' where run: "confirm ok p b = (res, b')" by force
  from j run show ?thesis
  proof (cases rule: confirm_cases)
    case (settled c b1)
    have eff: "bd_tasks b1 = bd_tasks b" "others b1 = others b"
      and dep: "bd_pending_deposits b1 = bd_pending_deposits b
        \<or> (\<exists>e d. bm_get (bd_pending_deposits b) e = Some d \<and> bd_pending_deposits b1 = bm_insert e (d\<lparr>pd_status := Refunded\<rparr>) (bd_pending_deposits b))"
      using confirmed_effects_cases [OF _ settled(3)] j by (auto simp: journal_inv_def split: if_splits)
    have "board_inv b'"
    proof (rule board_inv_same)
      show "board_inv b" using inv by (simp add: hub_inv_def)
      show "spent_deposit b' e" if "spent_deposit b e" for e
        using dep that unfolding settled(4) by (auto simp: spent_deposit_def)
    qed (simp add: settled(4) eff)
    moreover have "exchange_inv [] b'" using inv exchange_inv_others [OF eff(2)] by (simp add: hub_inv_def settled(4) put_market)
    moreover have "journal_inv b'" unfolding settled(4) by (rule settle_journal [OF j settled(1-3)])
    ultimately show ?thesis by (simp add: run hub_inv_def)
  qed (use inv run in simp)
qed

lemma prepare_hub_inv:
  assumes inv: "hub_inv b" and new: "bm_get (bd_payments b) (py_id p) = None" and n: "py_submissions p = 1" "py_status p = Pending"
  shows "hub_inv (snd (prepare height ok p b))"
proof (cases "ok \<and> (\<exists>b1. check_output (p\<lparr>py_scanned_through := saturating_sub height EVIDENCE_SCAN_LOOKBACK\<rparr>) = Ok ()
    \<and> reservation (p\<lparr>py_scanned_through := saturating_sub height EVIDENCE_SCAN_LOOKBACK\<rparr>) b = Ok b1)")
  case False
  then show ?thesis using inv by (auto simp: prepare_def Let_def with_check_snd split: outcome.splits)
next
  case True
  let ?p = "p\<lparr>py_scanned_through := saturating_sub height EVIDENCE_SCAN_LOOKBACK\<rparr>"
  from True obtain b1 where b1: "check_output ?p = Ok ()" "reservation ?p b = Ok b1" by blast
  have j: "journal_inv b" and e: "exchange_inv [] b" and bi: "board_inv b" using inv by (simp_all add: hub_inv_def)
  have "journal_inv (put_payment ?p b1)" by (rule prepare_journal [OF j _ _ _ b1]) (use new n in simp_all)
  moreover from j b1(2) have "board_inv b1 \<and> exchange_inv [] b1"
  proof (cases rule: reservation_cases)
    case (faucet at)
    have "exchange_inv [] b1" using e
      by (simp add: faucet(3) restore_faucet_grant_def exchange_inv_def account_ok_def locked_total_def exchange_account_of_def Let_def)
    moreover have "board_inv b1"
      by (rule board_inv_same [OF bi]) (simp_all add: faucet(3) restore_faucet_grant_def spent_deposit_def)
    ultimately show ?thesis by simp
  next
    case (withdrawal debited)
    have "exchange_inv [] b1"
    proof (cases "debited = 0")
      case True
      then show ?thesis using withdrawal(2) e exchange_invD [OF e] by (auto intro!: exchange_inv_set_account)
    next
      case False
      then have "b1 = snd (debit_for_withdrawal (py_recipient ?p) debited b)"
        using withdrawal(2,3) by (simp add: debit_for_withdrawal_def Let_def not_less)
      then show ?thesis using debit_keeps [OF e] by simp
    qed
    moreover have "board_inv b1"
      by (rule board_inv_same [OF bi]) (simp_all add: withdrawal(2) restore_exchange_account_def spent_deposit_def)
    ultimately show ?thesis by simp
  next
    case (escrow i f s d)
    have "board_inv b1" by (rule board_inv_same [OF bi]) (auto simp: escrow(4) intro: spent_insert)
    moreover have "exchange_inv [] b1" using e exchange_inv_others [of b1 b] by (simp add: escrow(4))
    ultimately show ?thesis by simp
  qed
  then have "board_inv (put_payment ?p b1)" "exchange_inv [] (put_payment ?p b1)"
    by (simp_all add: put_market put_board)
  ultimately show ?thesis using True b1 by (simp add: prepare_def Let_def hub_inv_def)
qed

lemma send_hub_inv: "hub_inv b \<Longrightarrow> hub_inv (snd (send ok p b))"
  by (simp add: send_def confirm_hub_inv split: option.split)

lemma hub_inv_rewrite:
  assumes inv: "hub_inv b" and c: "bm_get (bd_payments b) (py_id nxt) = Some c" "same_record c nxt" "py_status c \<noteq> PayConfirmed"
    and nxt: "py_status nxt \<noteq> PayConfirmed" "1 \<le> py_submissions nxt" "py_submissions nxt \<le> MAX_PAYOUT_SUBMISSIONS"
  shows "hub_inv (put_payment nxt b)"
proof -
  have "py_id c = py_id nxt" by (rule same_record_facts(1) [OF c(2)])
  then show ?thesis
    using inv c nxt by (intro hub_inv_put [OF inv] journal_inv_rewrite [where c = c]) (auto simp: hub_inv_def)
qed

lemma submissions_in_range:
  "hub_inv b \<Longrightarrow> bm_get (bd_payments b) i = Some c \<Longrightarrow> 1 \<le> py_submissions c \<and> py_submissions c \<le> MAX_PAYOUT_SUBMISSIONS"
  by (auto simp: hub_inv_def journal_inv_def payment_ok_def)

lemma save_progress_hub_inv:
  assumes inv: "hub_inv b" and snap: "snapshot_of b p" "py_status p \<noteq> PayConfirmed"
    and nxt: "same_record p nxt" "py_status nxt \<noteq> PayConfirmed" "py_submissions nxt = py_submissions p"
  shows "hub_inv (snd (save_progress ok p nxt b))"
proof (cases "bm_get (bd_payments b) (py_id nxt)")
  case (Some c)
  have id: "py_id p = py_id nxt" by (rule same_record_facts(1) [OF nxt(1)])
  have same: "same_record c nxt" using snap(1) nxt(1) Some id same_record_trans by (auto simp: snapshot_of_def)
  have "hub_inv (put_payment nxt b)" if "unmoved c p"
    by (rule hub_inv_rewrite [OF inv Some same]) (use that nxt snap submissions_in_range [OF inv Some] in \<open>auto simp: unmoved_def\<close>)
  then show ?thesis using Some inv by (simp add: save_progress_def)
qed (use inv in \<open>simp add: save_progress_def\<close>)

lemma resend_hub_inv:
  assumes inv: "hub_inv b" and snap: "snapshot_of b p" "py_status p = Pending"
  shows "hub_inv (snd (snd (resend ok p now b)))"
proof -
  let ?n = "resubmission now p"
  have id: "py_id ?n = py_id p" and st: "py_status ?n \<noteq> PayConfirmed" and same: "same_record p ?n"
    using snap(2) by (auto simp: resubmission_def same_record_iff)
  obtain c where c: "bm_get (bd_payments b) (py_id p) = Some c" "same_record c p"
    using snap(1) by (auto simp: snapshot_of_def split: option.splits)
  have sn: "same_record c ?n" by (rule same_record_trans [OF c(2) same])
  have "hub_inv (put_payment ?n b)" if u: "unmoved c p"
  proof (rule hub_inv_rewrite [OF inv _ sn _ st])
    have r: "1 \<le> py_submissions p \<and> py_submissions p \<le> MAX_PAYOUT_SUBMISSIONS"
      using submissions_in_range [OF inv c(1)] u by (simp add: unmoved_def)
    have "py_submissions p + 1 \<le> MAX_PAYOUT_SUBMISSIONS \<and> 1 \<le> py_submissions p + 1" if "py_submissions p < MAX_PAYOUT_SUBMISSIONS"
      using that r by (auto simp: MAX_PAYOUT_SUBMISSIONS_def word_le_nat_alt word_less_nat_alt unat_word_ariths)
    with r show "1 \<le> py_submissions ?n" "py_submissions ?n \<le> MAX_PAYOUT_SUBMISSIONS"
      by (auto simp: resubmission_def not_le)
  qed (use c u snap id in \<open>auto simp: unmoved_def\<close>)
  then show ?thesis using c id inv by (auto simp: resend_def Let_def send_hub_inv)
qed

lemma scan_rounds_record:
  "scan_rounds P fetch wanted rs p = (e, p') \<Longrightarrow>
     same_record p p' \<and> py_status p' = py_status p \<and> py_submissions p' = py_submissions p \<and> py_submitted_at p' = py_submitted_at p"
proof (induction rs arbitrary: p)
  case (Cons r rs)
  show ?case
  proof (cases "\<exists>bs. fetch r (py_scanned_through p) = Some bs \<and> bs \<noteq> []")
    case True
    then obtain bs where bs: "fetch r (py_scanned_through p) = Some bs" "bs \<noteq> []" by blast
    let ?q = "p\<lparr>py_scanned_through := saturating_add (py_scanned_through p) (of_nat (length bs))\<rparr>"
    from Cons.prems bs have "p' = ?q \<or> scan_rounds P fetch wanted rs ?q = (e, p')"
      by (auto simp: Let_def split: if_splits)
    then show ?thesis using Cons.IH [of ?q] by (auto simp: same_record_iff)
  next
    case False
    then have "p' = p" using Cons.prems by (auto split: option.splits if_splits)
    then show ?thesis by (simp add: same_record_iff)
  qed
qed (simp add: same_record_iff)

lemma scan_record:
  assumes run: "scan_for_evidence P fetch p = (e, p')"
  shows "same_record p p' \<and> py_status p' = py_status p \<and> py_submissions p' = py_submissions p \<and> py_submitted_at p' = py_submitted_at p"
proof (cases "py_output_hash p")
  case None
  then show ?thesis using run by (auto simp: scan_for_evidence_def same_record_iff)
next
  case (Some h)
  then have "scan_rounds P fetch h [0, 1] p = (e, p')" using run by (simp add: scan_for_evidence_def del: scan_rounds.simps)
  then show ?thesis by (rule scan_rounds_record)
qed

lemma resolve_hub_inv:
  assumes inv: "hub_inv b" and snap: "snapshot_of b p" "py_status p \<noteq> PayConfirmed"
  shows "hub_inv (snd (snd (resolve P v p now b)))"
proof -
  obtain ev p' where scan: "scan_for_evidence P (nv_blocks v) p = (ev, p')" by force
  note rec = scan_record [OF scan]
  have review: "same_record p (p'\<lparr>py_status := NeedsReview\<rparr>)" using rec by (simp add: same_record_iff)
  have "hub_inv (snd (save_progress (nv_committed v) p p' b))"
    "hub_inv (snd (save_progress (nv_committed v) p (p'\<lparr>py_status := NeedsReview\<rparr>) b))"
    by (rule save_progress_hub_inv [OF inv snap]; use rec review snap in simp)+
  then show ?thesis
    using inv confirm_hub_inv resend_hub_inv [OF inv snap(1)] scan
    by (auto simp: resolve_def no_sends_def split: outcome.split evidence.split)
qed

lemma run_hub_inv:
  assumes inv: "hub_inv b" and al: "hub_allowed c b"
  shows "hub_inv (run_hub P c b)"
proof (cases c)
  case (OnTasks d)
  have nm: "d \<noteq> MarkEscrowRefunded i" for i using al OnTasks by auto
  have o: "others (run_board d b) = others b" by simp
  have "board_inv (run_board d b)" using run_board_keeps inv al OnTasks by (auto simp: hub_inv_def)
  moreover have "deposits_step (bd_pending_deposits b) (bd_pending_deposits (run_board d b))"
    by (rule run_board_deposits) (use inv al OnTasks nm in \<open>auto simp: hub_inv_def\<close>)
  ultimately show ?thesis
    using inv OnTasks exchange_inv_others [OF o] others_fields [OF o] journal_inv_frame [of b "run_board d b"]
    by (simp add: hub_inv_def)
next
  case (OnMarket d)
  note fr = run_exchange_frame [of d b]
  have "spent_deposit (run_exchange d b) e" if "spent_deposit b e" for e
    using fr that deposits_step_status [of b "run_exchange d b" e]
    by (force simp: spent_deposit_def deposit_status_def split: option.splits)
  then have "board_inv (run_exchange d b)" using inv fr board_inv_same by (auto simp: hub_inv_def)
  moreover have "exchange_inv [] (run_exchange d b)" using run_exchange_keeps inv al OnMarket by (auto simp: hub_inv_def)
  ultimately show ?thesis using inv OnMarket fr journal_inv_frame [of b "run_exchange d b"] by (simp add: hub_inv_def)
next
  case (PreparePayment fresh created submitted purpose source recipient amount tx height ok)
  then show ?thesis using prepare_hub_inv [OF inv] al by (simp add: payment_new_def)
qed (use inv al send_hub_inv resolve_hub_inv in auto)

lemma hub_inv_new: "hub_inv task_board_new"
proof -
  have "journal_inv task_board_new"
    by (simp add: journal_inv_def deposits_keyed_def claims_unique_def task_board_new_def)
  then show ?thesis by (simp add: hub_inv_def board_inv_new exchange_inv_new)
qed

interpretation hub: call_machine task_board_new hub_allowed "run_hub P" hub_inv "\<lambda>_ _. True" for P
  by unfold_locales (auto intro: hub_inv_new run_hub_inv)

lemma hub_reachable_inv: "hub_reachable P b \<Longrightarrow> hub_inv b"
  unfolding hub_reachable_def by (rule hub.reached_inv)

end
