(* ===== verification/Hub_Settlement.thy ===== *)
theory Hub_Settlement
  imports Hub_Journal
begin

text \<open>
  What the payments journal promises: a grant or a deposit is paid out once, a transaction is
  sent again only on proof that it was lost, and a payment the unspent outputs cannot decide is
  decided by reading the chain, in finitely many sweeps.
\<close>

subsection \<open>One payment per grant and per deposit\<close>

lemma check_output_cases: "check_output p = Ok () \<or> (\<exists>e. check_output p = Err e)"
  by (auto simp: check_output_def split: option.splits list.splits)

lemma claim_blocks_reservation:
  assumes inv: "journal_inv b" and p: "bm_get (bd_payments b) i = Some p" "claim_of p \<noteq> None" "claim_of q = claim_of p"
  shows "\<exists>e. reservation q b = Err e"
proof -
  have held: "claim_held b p" using inv p(1) by (simp add: journal_inv_def payment_ok_def)
  have v: "p \<in> set (bm_values (bd_payments b))" using inv p(1) bm_values_iff [of "bd_payments b" p] by (auto simp: journal_inv_def)
  show ?thesis
  proof (cases "py_purpose q")
    case PayFaucet
    then show ?thesis using held p(3)
      by (auto simp: claim_of_def claim_held_def reservation_def can_claim_faucet_def split: payment_purpose.splits)
  next
    case (PayWithdrawal x)
    then show ?thesis using p(2,3) by (simp add: claim_of_def)
  next
    case (PayEscrow e f s)
    then have "pays_escrow e p" using p(3) by (auto simp: claim_of_def pays_escrow_def split: payment_purpose.splits)
    then show ?thesis using v PayEscrow by (auto simp: reservation_def list_ex_iff)
  qed
qed

lemma prepare_blocked:
  assumes "journal_inv b" "bm_get (bd_payments b) i = Some p" "claim_of p \<noteq> None" "claim_of q = claim_of p"
  shows "\<exists>e. prepare height ok q b = (Err e, b)"
proof -
  let ?q = "q\<lparr>py_scanned_through := saturating_sub height EVIDENCE_SCAN_LOOKBACK\<rparr>"
  have "claim_of ?q = claim_of q" by (rule same_record_facts(2)) (simp add: same_record_iff)
  then obtain e where "reservation ?q b = Err e" using claim_blocks_reservation [OF assms(1-3), of ?q] assms(4) by auto
  then show ?thesis using check_output_cases [of ?q] by (auto simp: prepare_def Let_def)
qed

text \<open>
  C17: A faucet grant or an escrow deposit is paid out by one payment only.  In every state the
  hub reaches, under any order of task, market and payment operations and with any replies of
  node and store, no two payments of the journal hold the same grant or deposit, a deposit is
  \<open>Disbursing\<close> while its payment is unsettled and \<open>Refunded\<close> once it is confirmed, and preparing
  another payment for the same grant or deposit fails and changes nothing.
\<close>

theorem claim_paid_once:
  assumes "hub_reachable P b" "bm_get (bd_payments b) i = Some p" "claim_of p \<noteq> None" "claim_of q = claim_of p"
  shows "{j. map_option claim_of (bm_get (bd_payments b) j) = Some (claim_of p)} = {i}
     \<and> claim_held b p \<and> (\<exists>e. prepare height committed q b = (Err e, b))"
proof -
  have inv: "journal_inv b" using hub_reachable_inv [OF assms(1)] by (simp add: hub_inv_def)
  have only: "j = i" if "bm_get (bd_payments b) j = Some r" "claim_of r = claim_of p" for j r
    using inv assms(2,3) that unfolding journal_inv_def claims_unique_def by metis
  have "{j. map_option claim_of (bm_get (bd_payments b) j) = Some (claim_of p)} = {i}"
    using assms(2) by (auto dest: only)
  moreover have "claim_held b p" using inv assms(2) by (simp add: journal_inv_def payment_ok_def)
  ultimately show ?thesis using prepare_blocked [OF inv assms(2-4)] by blast
qed

subsection \<open>Resending\<close>

lemma confirm_no_sends [simp]: "fst (snd (no_sends r)) = []"
  by (simp add: no_sends_def)

lemma resend_sends:
  assumes "fst (snd (resend ok p now b)) \<noteq> []" "py_status p = Pending"
  shows "\<exists>tx. resend ok p now b = (Ok (), [tx], put_payment (resubmission now p) b) \<and> py_transaction p = Some tx
    \<and> py_submissions p < MAX_PAYOUT_SUBMISSIONS"
proof -
  have tx: "py_transaction (resubmission now p) = py_transaction p" by (simp add: resubmission_def)
  show ?thesis
    using assms tx by (auto simp: resend_def Let_def send_def resubmission_def split: option.splits if_splits)
qed

text \<open>
  C18: A payment is sent again only on proof.  If resolving a payment hands the node anything,
  it is the recorded transaction, once; the payment was pending, thirty seconds old and sent
  fewer than four times; and the node reported that the recipient does not hold its output
  while every input is still there, unspent and unmarked.  The record then counts the new
  submission, so no payment is ever sent more than four times.
\<close>

theorem resolve_resends_only_lost:
  assumes "resolve P v p now b = (res, sent, b')" "sent \<noteq> []"
  shows "\<exists>tx h recipient source. sent = [tx] \<and> py_transaction p = Some tx \<and> py_output_hash p = Some h
     \<and> py_status p = Pending \<and> PAYOUT_RESOLUTION_GRACE_SECONDS \<le> num_seconds (now - py_submitted_at p)
     \<and> nv_recipient v = Some recipient \<and> nv_source v = Some source
     \<and> resolve_against P h (py_spent_inputs p) recipient source = NeverLanded
     \<and> map_option py_submissions (bm_get (bd_payments b') (py_id p)) = Some (py_submissions p + 1)
     \<and> 1 \<le> py_submissions p + 1 \<and> py_submissions p + 1 \<le> 4"
proof -
  have grace: "PAYOUT_RESOLUTION_GRACE_SECONDS \<le> num_seconds (now - py_submitted_at p)"
    using assms by (auto simp: resolve_def split: if_splits)
  have sent: "sent = fst (snd (resolve P v p now b))" "b' = snd (snd (resolve P v p now b))" using assms(1) by simp_all
  have lost: "payment_outcome P v p = Ok NeverLanded \<and> py_status p = Pending"
    using assms(2) grace unfolding sent(1) resolve_def
    by (auto split: outcome.splits if_splits prod.splits evidence.splits)
  then obtain h recipient source where v: "py_output_hash p = Some h" "nv_recipient v = Some recipient" "nv_source v = Some source"
      "resolve_against P h (py_spent_inputs p) recipient source = NeverLanded"
    by (auto simp: payment_outcome_def split: option.splits)
  have run: "resolve P v p now b = resend (nv_committed v) p now b" using lost grace by (simp add: resolve_def)
  have ne: "fst (snd (resend (nv_committed v) p now b)) \<noteq> []" using assms(2) sent(1) run by simp
  obtain tx where tx: "resend (nv_committed v) p now b = (Ok (), [tx], put_payment (resubmission now p) b)" "py_transaction p = Some tx"
      "py_submissions p < MAX_PAYOUT_SUBMISSIONS"
    using resend_sends [OF ne] lost by blast
  have "resubmission now p = p\<lparr>py_submissions := py_submissions p + 1, py_submitted_at := now\<rparr>"
    using tx(2,3) by (simp add: resubmission_def)
  then have "map_option py_submissions (bm_get (bd_payments b') (py_id p)) = Some (py_submissions p + 1)"
    using sent(2) run tx(1) by simp
  moreover have "1 \<le> py_submissions p + 1 \<and> py_submissions p + 1 \<le> 4"
    using tx(3) by (auto simp: MAX_PAYOUT_SUBMISSIONS_def word_le_nat_alt word_less_nat_alt unat_word_ariths)
  ultimately show ?thesis using tx(2) v grace lost sent(1) run tx(1) by simp
qed

subsection \<open>Reading the chain\<close>

text \<open>A node that serves a chain: every request gets a prefix of what follows, empty only at the tip.\<close>

definition serves :: "block list \<Rightarrow> (nat \<Rightarrow> u64 \<Rightarrow> block list option) \<Rightarrow> bool" where
  "serves chain fetch \<longleftrightarrow> (\<forall>r s. \<exists>n. fetch r s = Some (take (Suc n) (drop (unat s) chain)))"

lemma scan_rounds_serves:
  assumes "serves chain fetch" "unat (py_scanned_through p) \<le> length chain" "length chain < 2 ^ 64"
    and "scan_rounds P fetch h rs p = (e, p')"
  shows "case e of
      Mined \<Rightarrow> list_ex (block_creates P h) (drop (unat (py_scanned_through p)) chain)
    | AbsentFromChain \<Rightarrow> \<not> list_ex (block_creates P h) (drop (unat (py_scanned_through p)) chain)
        \<and> unat (py_scanned_through p') = length chain
    | Inconclusive \<Rightarrow> unat (py_scanned_through p') \<le> length chain
        \<and> unat (py_scanned_through p) + length rs \<le> unat (py_scanned_through p')
        \<and> list_ex (block_creates P h) (drop (unat (py_scanned_through p')) chain)
          = list_ex (block_creates P h) (drop (unat (py_scanned_through p)) chain)"
  using assms(2,4)
proof (induction rs arbitrary: p)
  case (Cons r rs)
  let ?k = "unat (py_scanned_through p)"
  obtain n where f: "fetch r (py_scanned_through p) = Some (take (Suc n) (drop ?k chain))"
    using assms(1) unfolding serves_def by blast
  define bs where "bs = take (Suc n) (drop ?k chain)"
  show ?case
  proof (cases "bs = []")
    case True
    then have "drop ?k chain = []" by (simp add: bs_def)
    with Cons.prems f True show ?thesis by (auto simp: bs_def)
  next
    case False
    let ?q = "p\<lparr>py_scanned_through := saturating_add (py_scanned_through p) (of_nat (length bs))\<rparr>"
    have len: "length bs \<ge> 1" "?k + length bs \<le> length chain" using False Cons.prems(1) by (auto simp: bs_def Suc_le_eq)
    then have "unat (of_nat (length bs) :: u64) = length bs" using assms(3) by (simp add: unat_of_nat_less)
    with len assms(3) have q: "unat (py_scanned_through ?q) = ?k + length bs" by (simp add: unat_saturating_add)
    have split: "drop ?k chain = bs @ drop (?k + length bs) chain"
      by (metis append_take_drop_id bs_def drop_drop add.commute length_take min.absorb_iff2 nat_le_linear take_all take_take)
    show ?thesis
    proof (cases "list_ex (block_creates P h) bs")
      case True
      with Cons.prems(2) f False have "e = Mined" by (simp add: bs_def [symmetric] Let_def)
      then show ?thesis using True split by simp
    next
      case nf: False
      with Cons.prems(2) f False have "scan_rounds P fetch h rs ?q = (e, p')" by (simp add: bs_def [symmetric] Let_def)
      from Cons.IH [OF _ this] q len nf split show ?thesis by (auto split: evidence.splits)
    qed
  qed
qed auto

text \<open>One sweep as far as payment \<open>i\<close> is concerned, and a number of them.\<close>

definition resolve_one :: "prims \<Rightarrow> node_view \<Rightarrow> instant \<Rightarrow> uuid \<Rightarrow> task_board \<Rightarrow> task_board" where
  "resolve_one P v now i b =
     (case bm_get (bd_payments b) i of
        None \<Rightarrow> b
      | Some p \<Rightarrow> if py_status p = PayConfirmed then b else snd (snd (resolve P v p now b)))"

definition sweeps :: "prims \<Rightarrow> (nat \<Rightarrow> node_view) \<Rightarrow> (nat \<Rightarrow> instant) \<Rightarrow> uuid \<Rightarrow> nat \<Rightarrow> task_board \<Rightarrow> task_board" where
  "sweeps P v now i n b = fold (\<lambda>k. resolve_one P (v k) (now k) i) [0..<n] b"

lemma resolve_one_hub_inv: "hub_inv b \<Longrightarrow> hub_inv (resolve_one P v now i b)"
proof -
  assume inv: "hub_inv b"
  have "snapshot_of b p" if "bm_get (bd_payments b) i = Some p" for p
    using inv that by (auto simp: hub_inv_def journal_inv_def payment_ok_def snapshot_of_def same_record_iff)
  then show ?thesis using inv resolve_hub_inv by (auto simp: resolve_one_def split: option.split)
qed

definition unforfeited :: "payment \<Rightarrow> bool" where
  "unforfeited p = (case py_purpose p of PayEscrow _ f _ \<Rightarrow> \<not> f | _ \<Rightarrow> True)"

lemma confirm_succeeds:
  assumes inv: "hub_inv b" and p: "bm_get (bd_payments b) i = Some p" "py_status p \<noteq> PayConfirmed" "unforfeited p"
  shows "bm_get (bd_payments (snd (confirm True p b))) i = Some (p\<lparr>py_status := PayConfirmed\<rparr>)"
proof -
  have ok: "payment_ok b i p" "deposits_keyed b" using inv p(1) by (auto simp: hub_inv_def journal_inv_def)
  then have id: "py_id p = i" and held: "claim_held b p" by (simp_all add: payment_ok_def)
  have "\<exists>b1. confirmed_effects (p\<lparr>py_status := PayConfirmed\<rparr>) b = Ok b1"
    using held p(3) by (cases "py_purpose p")
      (auto simp: confirmed_effects_def claim_held_def deposit_status_def get_pending_deposit_def unforfeited_def Let_def)
  then obtain b1 where b1: "confirmed_effects (p\<lparr>py_status := PayConfirmed\<rparr>) b = Ok b1" by blast
  with p id show ?thesis by (simp add: confirm_def Let_def)
qed

text \<open>What one sweep makes of a payment the unspent outputs do not decide.\<close>

lemma resolve_one_ambiguous:
  assumes inv: "hub_inv b" and p: "bm_get (bd_payments b) i = Some p" "py_status p \<noteq> PayConfirmed" "unforfeited p"
    and t: "PAYOUT_RESOLUTION_GRACE_SECONDS \<le> num_seconds (now - py_submitted_at p)"
    and v: "payment_outcome P v p = Ok Ambiguous" "nv_committed v"
    and scan: "scan_for_evidence P (nv_blocks v) p = (e, p')"
  shows "bm_get (bd_payments (resolve_one P v now i b)) i = Some (case e of
      Mined \<Rightarrow> p\<lparr>py_status := PayConfirmed\<rparr> | AbsentFromChain \<Rightarrow> p'\<lparr>py_status := NeedsReview\<rparr> | Inconclusive \<Rightarrow> p')"
proof -
  have id: "py_id p = i" using inv p(1) by (auto simp: hub_inv_def journal_inv_def payment_ok_def)
  have id': "py_id p' = i" using scan_record [OF scan] id by (simp add: same_record_iff)
  have run: "snd (snd (resolve P v p now b)) = (case e of
      Mined \<Rightarrow> snd (confirm True p b)
    | AbsentFromChain \<Rightarrow> snd (save_progress True p (p'\<lparr>py_status := NeedsReview\<rparr>) b)
    | Inconclusive \<Rightarrow> snd (save_progress True p p' b))"
    using t v scan by (simp add: resolve_def no_sends_def split: evidence.split)
  have "unmoved p p" by (simp add: unmoved_def)
  then show ?thesis
    using p id id' confirm_succeeds [OF inv p] by (auto simp: resolve_one_def run save_progress_def split: evidence.split)
qed

definition decided :: "bool \<Rightarrow> nat \<Rightarrow> payment \<Rightarrow> bool" where
  "decided mined k q \<longleftrightarrow> (if py_status q = PayConfirmed then mined
     else (py_status q = NeedsReview \<and> \<not> mined) \<or> k \<le> unat (py_scanned_through q))"

lemma sweeps_progress:
  assumes inv: "hub_inv b" and p: "bm_get (bd_payments b) i = Some p" "py_status p \<noteq> PayConfirmed" "unforfeited p"
    and h: "py_output_hash p = Some h"
    and t: "\<And>k. PAYOUT_RESOLUTION_GRACE_SECONDS \<le> num_seconds (now k - py_submitted_at p)"
    and v: "\<And>k. payment_outcome P (v k) p = Ok Ambiguous" "\<And>k. nv_committed (v k)" "\<And>k. serves chain (nv_blocks (v k))"
    and c: "unat (py_scanned_through p) \<le> length chain" "length chain < 2 ^ 64"
    and m: "mined = list_ex (block_creates P h) (drop (unat (py_scanned_through p)) chain)"
  shows "hub_inv (sweeps P v now i n b) \<and> (\<exists>q. bm_get (bd_payments (sweeps P v now i n b)) i = Some q
    \<and> same_record p q \<and> py_submitted_at q = py_submitted_at p \<and> decided mined (unat (py_scanned_through p) + n) q
    \<and> (py_status q \<noteq> PayConfirmed \<longrightarrow> unat (py_scanned_through q) \<le> length chain
        \<and> mined = list_ex (block_creates P h) (drop (unat (py_scanned_through q)) chain)))"
proof (induction n)
  case 0
  then show ?case using inv p c(1) m by (auto simp: sweeps_def decided_def same_record_iff)
next
  case (Suc n)
  let ?b = "sweeps P v now i n b"
  from Suc obtain q where inv': "hub_inv ?b" and q: "bm_get (bd_payments ?b) i = Some q" "same_record p q"
      "py_submitted_at q = py_submitted_at p" "decided mined (unat (py_scanned_through p) + n) q"
      "py_status q \<noteq> PayConfirmed \<longrightarrow> unat (py_scanned_through q) \<le> length chain
        \<and> mined = list_ex (block_creates P h) (drop (unat (py_scanned_through q)) chain)" by blast
  have next_b: "sweeps P v now i (Suc n) b = resolve_one P (v n) (now n) i ?b" by (simp add: sweeps_def)
  have invn: "hub_inv (sweeps P v now i (Suc n) b)" unfolding next_b by (rule resolve_one_hub_inv [OF inv'])
  show ?case
  proof (cases "py_status q = PayConfirmed")
    case True
    then have "sweeps P v now i (Suc n) b = ?b" using q(1) unfolding next_b by (simp add: resolve_one_def)
    then show ?thesis using True inv' q by (auto simp: decided_def)
  next
    case False
    have qh: "py_output_hash q = Some h" using q(2) h by (simp add: same_record_iff)
    have out: "payment_outcome P (v n) q = Ok Ambiguous"
      using v(1) [of n] q(2) by (auto simp: payment_outcome_def same_record_iff split: option.splits)
    have unf: "unforfeited q" using p(3) q(2) by (simp add: unforfeited_def same_record_iff)
    obtain e q' where scan: "scan_for_evidence P (nv_blocks (v n)) q = (e, q')" by force
    then have "scan_rounds P (nv_blocks (v n)) h [0, 1] q = (e, q')" using qh by (simp add: scan_for_evidence_def del: scan_rounds.simps)
    note ev = scan_rounds_serves [OF v(3) _ c(2) this] and rec = scan_record [OF scan]
    have step: "bm_get (bd_payments (sweeps P v now i (Suc n) b)) i = Some (case e of
        Mined \<Rightarrow> q\<lparr>py_status := PayConfirmed\<rparr> | AbsentFromChain \<Rightarrow> q'\<lparr>py_status := NeedsReview\<rparr> | Inconclusive \<Rightarrow> q')"
      unfolding next_b
      by (rule resolve_one_ambiguous [OF inv' q(1) False unf _ out v(2) scan]) (use t q(3) in simp)
    show ?thesis
    proof (cases e)
      case Mined
      then show ?thesis using invn step ev q False by (auto simp: decided_def same_record_iff)
    next
      case AbsentFromChain
      then show ?thesis using invn step ev q False rec AbsentFromChain by (auto simp: decided_def same_record_iff)
    next
      case Inconclusive
      then show ?thesis using invn step ev q False rec by (auto simp: decided_def same_record_iff)
    qed
  qed
qed

text \<open>
  C19: Every undecided payment is decided.  Take a payment of a reachable hub that forfeits no bond,
  is past its grace period and is left ambiguous by the unspent outputs at every sweep, a node
  that serves one and the same chain in batches of any positive size, and a store that commits.  After one sweep more than there are blocks left to
  read, the payment is confirmed if its output is in one of those blocks, and handed to a
  person (\<open>NeedsReview\<close>) if it is in none.  It never stays pending.
\<close>

theorem ambiguous_payment_decided:
  assumes "hub_reachable P b" "bm_get (bd_payments b) i = Some p" "py_status p \<noteq> PayConfirmed" "unforfeited p"
    and "py_output_hash p = Some h" "\<And>k. PAYOUT_RESOLUTION_GRACE_SECONDS \<le> num_seconds (now k - py_submitted_at p)"
    and "\<And>k. payment_outcome P (v k) p = Ok Ambiguous" "\<And>k. nv_committed (v k)" "\<And>k. serves chain (nv_blocks (v k))"
    and "unat (py_scanned_through p) \<le> length chain" "length chain < 2 ^ 64"
    and "length chain - unat (py_scanned_through p) < n"
  shows "map_option py_status (bm_get (bd_payments (sweeps P v now i n b)) i)
    = Some (if list_ex (block_creates P h) (drop (unat (py_scanned_through p)) chain) then PayConfirmed else NeedsReview)"
proof -
  note pr = sweeps_progress [where n = n and v = v and now = now, OF hub_reachable_inv [OF assms(1)] assms(2-11) refl]
  then obtain q where q: "bm_get (bd_payments (sweeps P v now i n b)) i = Some q"
      "decided (list_ex (block_creates P h) (drop (unat (py_scanned_through p)) chain)) (unat (py_scanned_through p) + n) q"
      "py_status q \<noteq> PayConfirmed \<longrightarrow> unat (py_scanned_through q) \<le> length chain" by blast
  moreover have "unat (py_scanned_through q) < unat (py_scanned_through p) + n" if "unat (py_scanned_through q) \<le> length chain"
    using assms(10,12) that by linarith
  ultimately show ?thesis by (auto simp: decided_def split: if_splits)
qed

end
