(* ===== verification/Hub_Settlement_Witnesses.thy ===== *)
theory Hub_Settlement_Witnesses
  imports Hub_Settlement Chain_Witnesses Hub_Witnesses
begin

text \<open>
  The journal's promises applied to a faucet grant for Ann, paid by a transaction that spends
  one output of the operator and is then lost, or decided by reading a chain of one block.
\<close>

definition grant_output :: transaction_output where
  "grant_output = \<lparr>txo_value = 40, txo_unique_id = 9, txo_pubkey = ann\<rparr>"

definition grant_tx :: transaction where
  "grant_tx = \<lparr>tx_inputs = [\<lparr>txi_prev_output_hash = 3, txi_signature = Signature []\<rparr>], tx_outputs = [grant_output]\<rparr>"

definition grant :: payment where
  "grant = payment_new sample 5 0 0 PayFaucet bob ann 40 (Some grant_tx)"

definition granted :: task_board where
  "granted = run_hub sample (PreparePayment 5 0 0 PayFaucet bob ann 40 (Some grant_tx) 0 True) task_board_new"

lemma grant_value:
  "grant = \<lparr>py_id = 5, py_purpose = PayFaucet, py_source = bob, py_recipient = ann, py_amount = 40, py_fee = 1000,
     py_transaction = Some grant_tx, py_output_hash = Some 9, py_spent_inputs = [3], py_created_at = 0, py_submitted_at = 0,
     py_submissions = 1, py_status = Pending, py_scanned_through = 0\<rparr>"
  by (simp add: grant_def payment_new_def HUB_TRANSACTION_FEE_def first_output_def grant_tx_def grant_output_def sample_output_hash)

lemma granted_run: "prepare 0 True grant task_board_new = (Ok grant, granted)"
  and granted_payments: "bd_payments granted = [(5, grant)]"
proof -
  have same: "grant\<lparr>py_scanned_through := saturating_sub 0 EVIDENCE_SCAN_LOOKBACK\<rparr> = grant"
    by (simp add: grant_value saturating_sub_def)
  have res: "reservation grant task_board_new = Ok (restore_faucet_grant ann 0 task_board_new)" "check_output grant = Ok ()"
    by (simp_all add: grant_value reservation_def can_claim_faucet_def bm_contains_get task_board_new_def nanos_per_sec_def
        check_output_def grant_tx_def grant_output_def)
  have run: "prepare 0 True grant task_board_new = (Ok grant, put_payment grant (restore_faucet_grant ann 0 task_board_new))"
    by (simp add: prepare_def same res Let_def)
  have g: "granted = put_payment grant (restore_faucet_grant ann 0 task_board_new)"
    by (simp add: granted_def run [unfolded grant_def] grant_def)
  show "prepare 0 True grant task_board_new = (Ok grant, granted)" by (simp add: run g)
  show "bd_payments granted = [(5, grant)]"
    by (simp add: g restore_faucet_grant_def task_board_new_def) (simp add: grant_value)
qed

lemma granted_reachable: "hub_reachable sample granted"
  unfolding granted_def hub_reachable_def by (rule reaches_call [OF reaches_refl]) (simp add: task_board_new_def)

lemma granted_get: "bm_get (bd_payments granted) 5 = Some grant"
  by (simp add: granted_payments bm_get_def)

theorem claim_paid_once_witness:
  "{j. map_option claim_of (bm_get (bd_payments granted) j) = Some (Some (Inl ann))} = {5}
   \<and> (\<exists>e. prepare 0 True (grant\<lparr>py_id := 6\<rparr>) granted = (Err e, granted))"
  using claim_paid_once [OF granted_reachable granted_get, of "grant\<lparr>py_id := 6\<rparr>" 0 True]
  by (simp add: grant_value claim_of_def)

definition coin3 :: transaction_output where
  "coin3 = \<lparr>txo_value = 2000, txo_unique_id = 3, txo_pubkey = bob\<rparr>"

definition lost_view :: node_view where
  "lost_view = \<lparr>nv_recipient = Some [], nv_source = Some [(False, coin3)], nv_blocks = (\<lambda>_ _. None), nv_committed = True\<rparr>"

lemma lost_run: "resolve sample lost_view grant (seconds 40) granted
    = (Ok (), [grant_tx], put_payment (grant\<lparr>py_submissions := 2, py_submitted_at := seconds 40\<rparr>) granted)"
proof -
  have "payment_outcome sample lost_view grant = Ok NeverLanded"
    by (simp add: payment_outcome_def grant_value lost_view_def resolve_against_def find_utxo_def sample_output_hash coin3_def)
  moreover have "resend True grant (seconds 40) granted
      = (Ok (), [grant_tx], put_payment (grant\<lparr>py_submissions := 2, py_submitted_at := seconds 40\<rparr>) granted)"
    using granted_get by (simp add: resend_def grant_value resubmission_def MAX_PAYOUT_SUBMISSIONS_def unmoved_def send_def Let_def word_le_nat_alt)
  ultimately show ?thesis
    by (simp add: resolve_def PAYOUT_RESOLUTION_GRACE_SECONDS_def lost_view_def) (simp add: grant_value)
qed

theorem resolve_resends_only_lost_witness:
  "resolve_against sample 9 [3] [] [(False, coin3)] = NeverLanded \<and> py_submissions grant + 1 \<le> 4"
  using resolve_resends_only_lost [OF lost_run] by (auto simp: grant_value lost_view_def)

definition unclear_view :: node_view where
  "unclear_view = \<lparr>nv_recipient = Some [], nv_source = Some [],
     nv_blocks = (\<lambda>_ s. Some (take 1 (drop (unat s) [genesis0]))), nv_committed = True\<rparr>"

lemma serves_unclear: "serves [genesis0] (nv_blocks unclear_view)"
proof -
  have "\<exists>n. nv_blocks unclear_view r s = Some (take (Suc n) (drop (unat s) [genesis0]))" for r s
    by (rule exI [of _ 0]) (simp add: unclear_view_def)
  then show ?thesis by (simp add: serves_def)
qed

theorem ambiguous_payment_decided_witness:
  "map_option py_status (bm_get (bd_payments (sweeps sample (\<lambda>_. unclear_view) (\<lambda>_. seconds 40) 5 2 granted)) 5)
   = Some NeedsReview"
proof -
  have "map_option py_status (bm_get (bd_payments (sweeps sample (\<lambda>_. unclear_view) (\<lambda>_. seconds 40) 5 2 granted)) 5)
    = Some (if list_ex (block_creates sample 9) (drop (unat (py_scanned_through grant)) [genesis0]) then PayConfirmed else NeedsReview)"
    by (rule ambiguous_payment_decided [OF granted_reachable granted_get])
      (use serves_unclear in \<open>simp_all add: grant_value unforfeited_def PAYOUT_RESOLUTION_GRACE_SECONDS_def
        payment_outcome_def unclear_view_def resolve_against_def find_utxo_def\<close>)
  then show ?thesis by (simp add: grant_value block_creates_def genesis0_def coin0_def sample_output_hash)
qed

end
