(* ===== verification/Hub_Rate_Limit.thy ===== *)
theory Hub_Rate_Limit
  imports Hub_Net Itx_Map
begin

text \<open>
  The request limits of \<open>hub/src/rate_limit.rs\<close>: which budget a request draws from
  (\<open>tier_for\<close>), which client it is charged to (\<open>client_ip\<close>, \<open>limit_key\<close>), the fixed-window
  counters (\<open>check_and_record\<close>, \<open>cleanup\<close>, \<open>charge_pubkey\<close>) and the middleware that puts them
  together.  The table is a map from buckets to windows; instants are nanoseconds, as
  everywhere.  What an HTTP library reads off the wire is an argument: the method, the path, the
  peer's address and, for each \<open>X-Forwarded-For\<close> header, its text if it is readable.
\<close>

subsection \<open>Tiers\<close>

definition WINDOW_SECONDS :: int where "WINDOW_SECONDS = 60"
definition MAX_REQUESTS_PER_WINDOW :: u32 where "MAX_REQUESTS_PER_WINDOW = 120"
definition MAX_SIGNED_REQUESTS_PER_PUBKEY_PER_WINDOW :: u32 where
  "MAX_SIGNED_REQUESTS_PER_PUBKEY_PER_WINDOW = 60"

definition window_length :: int where "window_length = seconds WINDOW_SECONDS"

datatype tier = Health | Metrics | Read | Write | Chain

fun tier_max_per_window :: "tier \<Rightarrow> u32" where
  "tier_max_per_window Health = 120"
| "tier_max_per_window Metrics = 120"
| "tier_max_per_window Read = MAX_REQUESTS_PER_WINDOW"
| "tier_max_per_window Write = 60"
| "tier_max_per_window Chain = 20"

fun metric_index :: "tier \<Rightarrow> nat" where
  "metric_index Health = 0"
| "metric_index Metrics = 1"
| "metric_index Read = 2"
| "metric_index Write = 3"
| "metric_index Chain = 4"

datatype http_method = GET | POST | HEAD | PUT | DELETE | PATCH | OPTIONS | Other_Method string

fun static_method_name :: "http_method \<Rightarrow> string" where
  "static_method_name GET = ''GET''"
| "static_method_name POST = ''POST''"
| "static_method_name HEAD = ''HEAD''"
| "static_method_name PUT = ''PUT''"
| "static_method_name DELETE = ''DELETE''"
| "static_method_name PATCH = ''PATCH''"
| "static_method_name OPTIONS = ''OPTIONS''"
| "static_method_name (Other_Method _) = ''OTHER''"

text \<open>Rust's \<open>str::split\<close> on one character: one piece more than there are separators.\<close>

fun split_on :: "char \<Rightarrow> string \<Rightarrow> string list" where
  "split_on sep [] = [[]]"
| "split_on sep (c # cs) =
     (if c = sep then [] # split_on sep cs
      else case split_on sep cs of [] \<Rightarrow> [[c]] | p # ps \<Rightarrow> (c # p) # ps)"

definition path_segments :: "string \<Rightarrow> string list" where
  "path_segments path = filter (\<lambda>s. s \<noteq> []) (split_on CHR ''/'' path)"

definition read_tier :: "string list \<Rightarrow> tier" where
  "read_tier segments =
     (if segments = [''health''] then Health else if segments = [''metrics''] then Metrics else Read)"

definition write_tier :: "string list \<Rightarrow> tier" where
  "write_tier segments =
     (case segments of
        [a] \<Rightarrow> if a = ''tasks'' \<or> a = ''faucet'' then Chain else Write
      | [a, b] \<Rightarrow>
          if (a = ''tasks'' \<and> b = ''consensus'') \<or> (a = ''wallet'' \<and> b = ''send'')
             \<or> (a = ''exchange'' \<and> b = ''withdraw'') then Chain else Write
      | [a, _, c] \<Rightarrow> if a = ''tasks'' \<and> (c = ''submit'' \<or> c = ''close'' \<or> c = ''pick'') then Chain else Write
      | [a, b, c, d] \<Rightarrow>
          if (a = ''tasks'' \<and> b = ''escrow'' \<and> d = ''confirm'')
             \<or> (a = ''tasks'' \<and> c = ''dispute'' \<and> (d = ''confirm'' \<or> d = ''resolve''))
             \<or> (a = ''exchange'' \<and> b = ''deposit'' \<and> d = ''confirm'') then Chain else Write
      | _ \<Rightarrow> Write)"

definition tier_for :: "http_method \<Rightarrow> string \<Rightarrow> tier" where
  "tier_for meth path =
     (let segments = path_segments path
      in if meth = GET \<or> meth = HEAD then read_tier segments else write_tier segments)"

subsection \<open>Windows\<close>

datatype bucket = Ip ip_addr tier | Pubkey string

fun bucket_max_per_window :: "bucket \<Rightarrow> u32" where
  "bucket_max_per_window (Ip _ tier) = tier_max_per_window tier"
| "bucket_max_per_window (Pubkey _) = MAX_SIGNED_REQUESTS_PER_PUBKEY_PER_WINDOW"

record limit_window =
  lw_started_at :: int
  lw_count :: u32

type_synonym rate_limit_table = "bucket \<Rightarrow> limit_window option"

definition new_table :: rate_limit_table where "new_table = (\<lambda>_. None)"

text \<open>
  The count is a \<open>u32\<close> and overflow is checked, so the request that would wrap it panics; the
  entry it found is left as it was.
\<close>

definition check_and_record ::
  "rate_limit_table \<Rightarrow> bucket \<Rightarrow> int \<Rightarrow> ('e, bool) outcome \<times> rate_limit_table" where
  "check_and_record table bucket now =
     (let limit = bucket_max_per_window bucket;
          entry = (case table bucket of Some w \<Rightarrow> w | None \<Rightarrow> \<lparr>lw_started_at = now, lw_count = 0\<rparr>);
          entry = (if now - lw_started_at entry > window_length
                   then \<lparr>lw_started_at = now, lw_count = 0\<rparr> else entry)
      in case checked_add (lw_count entry) 1 of
           None \<Rightarrow> (Panic, table(bucket \<mapsto> entry))
         | Some n \<Rightarrow> (Ok (n \<le> limit), table(bucket \<mapsto> entry\<lparr>lw_count := n\<rparr>)))"

definition cleanup :: "rate_limit_table \<Rightarrow> int \<Rightarrow> rate_limit_table" where
  "cleanup table now =
     (let cutoff = now - window_length
      in (\<lambda>bucket. case table bucket of
            None \<Rightarrow> None
          | Some w \<Rightarrow> if lw_started_at w > cutoff then Some w else None))"

subsection \<open>Who is charged\<close>

definition is_whitespace :: "char \<Rightarrow> bool" where
  "is_whitespace c = (let n = of_char c :: nat in (9 \<le> n \<and> n \<le> 13) \<or> n = 32 \<or> n = 133 \<or> n = 160)"

definition trim :: "string \<Rightarrow> string" where
  "trim s = rev (dropWhile is_whitespace (rev (dropWhile is_whitespace s)))"

fun parse_all :: "string list \<Rightarrow> ip_addr list option" where
  "parse_all [] = Some []"
| "parse_all (s # ss) =
     (case parse_ip s of None \<Rightarrow> None | Some a \<Rightarrow> map_option ((#) a) (parse_all ss))"

definition parse_trusted_proxies :: "string \<Rightarrow> ip_addr set option" where
  "parse_trusted_proxies spec =
     map_option set (parse_all (filter (\<lambda>s. s \<noteq> []) (map trim (split_on CHR '','' spec))))"

definition limit_key :: "ip_addr \<Rightarrow> ip_addr" where
  "limit_key ip = (case to_canonical ip of
     V4 a b c d \<Rightarrow> V4 a b c d
   | V6 s0 s1 s2 s3 _ _ _ _ \<Rightarrow> V6 s0 s1 s2 s3 0 0 0 0)"

definition parse_forwarded_entry :: "string \<Rightarrow> ip_addr option" where
  "parse_forwarded_entry raw =
     (let entry = trim raw
      in case parse_ip entry of
           Some address \<Rightarrow> Some address
         | None \<Rightarrow>
             if entry \<noteq> [] \<and> hd entry = CHR ''['' then
               (case split_once CHR '']'' (tl entry) of None \<Rightarrow> None | Some (inside, _) \<Rightarrow> parse_ip inside)
             else
               (case split_once CHR '':'' entry of
                  None \<Rightarrow> None
                | Some (host, port) \<Rightarrow>
                    if CHR '':'' \<in> set host \<or> CHR '':'' \<in> set port then None else parse_ip host))"

definition forwarded_entries :: "string option list \<Rightarrow> string list" where
  "forwarded_entries headers = concat (map (split_on CHR '','') (List.map_filter id headers))"

text \<open>The walk over the entries, rightmost first.\<close>

fun walk_forwarded :: "ip_addr \<Rightarrow> ip_addr set \<Rightarrow> string list \<Rightarrow> ip_addr" where
  "walk_forwarded peer trusted [] = peer"
| "walk_forwarded peer trusted (entry # rest) =
     (case parse_forwarded_entry entry of
        None \<Rightarrow> peer
      | Some address \<Rightarrow> if address \<in> trusted then walk_forwarded peer trusted rest else address)"

definition client_ip :: "string option list \<Rightarrow> ip_addr \<Rightarrow> ip_addr set \<Rightarrow> ip_addr" where
  "client_ip headers connect_ip trusted =
     (let peer = to_canonical connect_ip
      in if peer \<notin> trusted then peer
         else walk_forwarded peer trusted (rev (forwarded_entries headers)))"

subsection \<open>The middleware and the key quota\<close>

record limiter =
  rate_limits :: rate_limit_table
  rate_limited_by_tier :: "u64 list"
  rate_limited_per_key_quota :: u64

text \<open>A limiter as the hub starts with it.\<close>

definition new_limiter :: limiter where
  "new_limiter = \<lparr>rate_limits = new_table, rate_limited_by_tier = [0, 0, 0, 0, 0], rate_limited_per_key_quota = 0\<rparr>"

record http_request =
  rq_method :: http_method
  rq_path :: string
  rq_forwarded :: "string option list"

text \<open>
  What the middleware decides: the request is passed on with its \<open>ClientIp\<close>, or refused with 429.
  An atomic \<open>fetch_add\<close> wraps.
\<close>

datatype verdict = Pass_On ip_addr | Too_Many_Requests

definition middleware ::
  "limiter \<Rightarrow> ip_addr set \<Rightarrow> ip_addr \<Rightarrow> http_request \<Rightarrow> int \<Rightarrow> (unit, verdict) outcome \<times> limiter" where
  "middleware state trusted connect_ip req now =
     (let ip = client_ip (rq_forwarded req) connect_ip trusted;
          tier = tier_for (rq_method req) (rq_path req);
          (ok, table) = check_and_record (rate_limits state) (Ip (limit_key ip) tier) now;
          state = state\<lparr>rate_limits := table\<rparr>
      in case ok of
           Ok True \<Rightarrow> (Ok (Pass_On ip), state)
         | Ok False \<Rightarrow>
             (let i = metric_index tier; counters = rate_limited_by_tier state
              in (Ok Too_Many_Requests, state\<lparr>rate_limited_by_tier := counters[i := counters ! i + 1]\<rparr>))
         | Err e \<Rightarrow> (Err e, state)
         | Panic \<Rightarrow> (Panic, state)
         | Cutoff \<Rightarrow> (Cutoff, state))"

datatype quota_exceeded = Quota_Exceeded

definition charge_pubkey :: "limiter \<Rightarrow> string \<Rightarrow> int \<Rightarrow> (quota_exceeded, unit) outcome \<times> limiter" where
  "charge_pubkey state pubkey now =
     (let (ok, table) = check_and_record (rate_limits state) (Pubkey pubkey) now;
          state = state\<lparr>rate_limits := table\<rparr>
      in case ok of
           Ok True \<Rightarrow> (Ok (), state)
         | Ok False \<Rightarrow> (Err Quota_Exceeded, state\<lparr>rate_limited_per_key_quota := rate_limited_per_key_quota state + 1\<rparr>)
         | Err e \<Rightarrow> (Err e, state)
         | Panic \<Rightarrow> (Panic, state)
         | Cutoff \<Rightarrow> (Cutoff, state))"

subsection \<open>One bucket over time\<close>

text \<open>Everything that touches the table: a request served, a signed request charged, a sweep.\<close>

datatype limiter_call =
    Serve ip_addr http_request int
  | Sign string int
  | Sweep int

fun call_time :: "limiter_call \<Rightarrow> int" where
  "call_time (Serve _ _ now) = now"
| "call_time (Sign _ now) = now"
| "call_time (Sweep now) = now"

fun call_bucket :: "ip_addr set \<Rightarrow> limiter_call \<Rightarrow> bucket option" where
  "call_bucket trusted (Serve ip req _) =
     Some (Ip (limit_key (client_ip (rq_forwarded req) ip trusted)) (tier_for (rq_method req) (rq_path req)))"
| "call_bucket trusted (Sign pubkey _) = Some (Pubkey pubkey)"
| "call_bucket trusted (Sweep _) = None"

fun run_call :: "ip_addr set \<Rightarrow> limiter_call \<Rightarrow> limiter \<Rightarrow> limiter" where
  "run_call trusted (Serve ip req now) s = snd (middleware s trusted ip req now)"
| "run_call trusted (Sign pubkey now) s = snd (charge_pubkey s pubkey now)"
| "run_call trusted (Sweep now) s = s\<lparr>rate_limits := cleanup (rate_limits s) now\<rparr>"

fun passes :: "ip_addr set \<Rightarrow> limiter_call \<Rightarrow> limiter \<Rightarrow> bool" where
  "passes trusted (Serve ip req now) s =
     (fst (middleware s trusted ip req now) = Ok (Pass_On (client_ip (rq_forwarded req) ip trusted)))"
| "passes trusted (Sign pubkey now) s = (fst (charge_pubkey s pubkey now) = Ok ())"
| "passes trusted (Sweep _) s = False"

fun passed_calls :: "ip_addr set \<Rightarrow> limiter_call list \<Rightarrow> limiter \<Rightarrow> limiter_call list" where
  "passed_calls trusted [] s = []"
| "passed_calls trusted (c # cs) s =
     (if passes trusted c s then [c] else []) @ passed_calls trusted cs (run_call trusted c s)"

definition window_of :: "bucket \<Rightarrow> limiter \<Rightarrow> limit_window option" where
  "window_of b s = rate_limits s b"

text \<open>What a call does to one bucket, in terms of that bucket's window alone.\<close>

definition charged :: "int \<Rightarrow> limit_window option \<Rightarrow> limit_window" where
  "charged now w = (case w of
     Some w \<Rightarrow> if now - lw_started_at w > window_length then \<lparr>lw_started_at = now, lw_count = 0\<rparr> else w
   | None \<Rightarrow> \<lparr>lw_started_at = now, lw_count = 0\<rparr>)"

definition counted :: "limit_window \<Rightarrow> limit_window" where
  "counted w = (case checked_add (lw_count w) 1 of None \<Rightarrow> w | Some n \<Rightarrow> w\<lparr>lw_count := n\<rparr>)"

definition admitted :: "bucket \<Rightarrow> limit_window \<Rightarrow> bool" where
  "admitted b w \<longleftrightarrow> unat (lw_count w) < unat (bucket_max_per_window b)"

lemma limits_positive: "0 < unat (bucket_max_per_window b)"
proof (cases b)
  case (Ip ip t)
  then show ?thesis by (cases t) (simp_all add: MAX_REQUESTS_PER_WINDOW_def)
qed (simp add: MAX_SIGNED_REQUESTS_PER_PUBKEY_PER_WINDOW_def)

lemma limits_small: "unat (bucket_max_per_window b) < 2 ^ 32 - 1"
proof (cases b)
  case (Ip ip t)
  then show ?thesis by (cases t) (simp_all add: MAX_REQUESTS_PER_WINDOW_def)
qed (simp add: MAX_SIGNED_REQUESTS_PER_PUBKEY_PER_WINDOW_def)

lemma window_length_pos: "0 < window_length"
  by (simp add: window_length_def seconds_def nanos_per_sec_def WINDOW_SECONDS_def)

lemma check_and_record_charged:
  "check_and_record table b now =
     (let w = charged now (table b)
      in case checked_add (lw_count w) 1 of
           None \<Rightarrow> (Panic, table(b \<mapsto> w))
         | Some n \<Rightarrow> (Ok (n \<le> bucket_max_per_window b), table(b \<mapsto> w\<lparr>lw_count := n\<rparr>)))"
  using window_length_pos by (cases "table b") (simp_all add: check_and_record_def charged_def Let_def)

lemma check_and_record_window:
  "snd (check_and_record table b now) = table(b \<mapsto> counted (charged now (table b)))"
  by (simp add: check_and_record_charged counted_def Let_def split: option.splits)

lemma check_and_record_ok:
  "fst (check_and_record table b now) = Ok True \<longleftrightarrow> admitted b (charged now (table b))"
proof (cases "checked_add (lw_count (charged now (table b))) 1")
  case None
  then have "2 ^ 32 \<le> unat (lw_count (charged now (table b))) + 1" by (simp add: checked_add_eq_None)
  then have "\<not> admitted b (charged now (table b))" using limits_small[of b] by (simp add: admitted_def)
  then show ?thesis using None by (simp add: check_and_record_charged)
next
  case (Some n)
  have "unat n = unat (lw_count (charged now (table b))) + 1" using checked_add_Some[OF Some] by simp
  then have "admitted b (charged now (table b)) \<longleftrightarrow> n \<le> bucket_max_per_window b"
    by (auto simp: admitted_def word_le_nat_alt)
  then show ?thesis using Some by (simp add: check_and_record_charged)
qed

lemma middleware_table:
  "rate_limits (snd (middleware s trusted ip req now)) =
     snd (check_and_record (rate_limits s)
       (Ip (limit_key (client_ip (rq_forwarded req) ip trusted)) (tier_for (rq_method req) (rq_path req))) now
       :: (unit, bool) outcome \<times> rate_limit_table)"
  by (auto simp: middleware_def Let_def split: prod.splits outcome.splits bool.splits)

lemma middleware_passes:
  "fst (middleware s trusted ip req now) = Ok (Pass_On (client_ip (rq_forwarded req) ip trusted)) \<longleftrightarrow>
     fst (check_and_record (rate_limits s)
       (Ip (limit_key (client_ip (rq_forwarded req) ip trusted)) (tier_for (rq_method req) (rq_path req))) now
       :: (unit, bool) outcome \<times> rate_limit_table) = Ok True"
  by (auto simp: middleware_def Let_def split: prod.splits outcome.splits bool.splits)

lemma charge_pubkey_table:
  "rate_limits (snd (charge_pubkey s k now)) =
     snd (check_and_record (rate_limits s) (Pubkey k) now :: (quota_exceeded, bool) outcome \<times> rate_limit_table)"
  by (auto simp: charge_pubkey_def Let_def split: prod.splits outcome.splits bool.splits)

lemma charge_pubkey_passes:
  "fst (charge_pubkey s k now) = Ok () \<longleftrightarrow>
     fst (check_and_record (rate_limits s) (Pubkey k) now
       :: (quota_exceeded, bool) outcome \<times> rate_limit_table) = Ok True"
  by (auto simp: charge_pubkey_def Let_def split: prod.splits outcome.splits bool.splits)

lemmas charge_simps = middleware_table middleware_passes charge_pubkey_table charge_pubkey_passes
  check_and_record_window check_and_record_ok window_of_def

lemma run_call_charged:
  assumes "call_bucket trusted c = Some b"
  shows "window_of b (run_call trusted c s) = Some (counted (charged (call_time c) (window_of b s)))"
    and "passes trusted c s \<longleftrightarrow> admitted b (charged (call_time c) (window_of b s))"
  using assms by (cases c; auto simp: charge_simps)+

lemma run_call_other:
  assumes "call_bucket trusted c \<noteq> Some b"
  shows "window_of b (run_call trusted c s) = window_of b s
    \<or> (\<exists>w. window_of b s = Some w \<and> window_of b (run_call trusted c s) = None
         \<and> lw_started_at w + window_length \<le> call_time c)"
  using assms by (cases c; auto simp: charge_simps cleanup_def Let_def split: option.splits)

subsection \<open>How much a bucket lets through\<close>

definition in_span :: "ip_addr set \<Rightarrow> bucket \<Rightarrow> int \<Rightarrow> limiter_call \<Rightarrow> bool" where
  "in_span trusted b t c \<longleftrightarrow> call_bucket trusted c = Some b \<and> t \<le> call_time c \<and> call_time c < t + window_length"

text \<open>
  What a bucket can still let through before \<open>t + window_length\<close>, once the clock has reached
  \<open>t\<close>: the rest of its window and, when that one started before \<open>t\<close>, one more.
\<close>

definition room :: "bucket \<Rightarrow> int \<Rightarrow> limit_window option \<Rightarrow> nat" where
  "room b t w = (let limit = unat (bucket_max_per_window b) in case w of
     None \<Rightarrow> limit
   | Some w \<Rightarrow> (limit - unat (lw_count w)) + (if lw_started_at w < t then limit else 0))"

lemma unat_counted:
  "unat (lw_count (counted w)) = (if unat (lw_count w) + 1 < 2 ^ 32 then unat (lw_count w) + 1 else unat (lw_count w))"
proof (cases "checked_add (lw_count w) 1")
  case None
  then have "\<not> unat (lw_count w) + 1 < 2 ^ 32" by (simp add: checked_add_eq_None)
  then show ?thesis using None by (simp add: counted_def)
next
  case (Some n)
  then have "unat (lw_count w) + 1 < 2 ^ 32" by (auto simp: checked_add_def split: if_splits)
  then show ?thesis using checked_add_Some[OF Some] Some by (simp add: counted_def)
qed

lemma started_counted [simp]: "lw_started_at (counted w) = lw_started_at w"
  by (simp add: counted_def split: option.splits)

lemma passed_subset: "set (passed_calls trusted cs s) \<subseteq> set cs"
proof (induction cs arbitrary: s)
  case (Cons c cs)
  then show ?case by auto
qed simp

lemma late_calls: "\<forall>c \<in> set cs. t + window_length \<le> call_time c \<Longrightarrow> filter (in_span trusted b t) (passed_calls trusted cs s) = []"
  using passed_subset[of trusted cs s] by (force simp: filter_empty_conv in_span_def)

text \<open>Charging a bucket uses up room, and a call that passes uses up one.\<close>

lemma room_charged:
  assumes "t \<le> now" "now < t + window_length"
  shows "(if admitted b (charged now w) then 1 else 0) + room b t (Some (counted (charged now w))) \<le> room b t w"
proof (cases w)
  case None
  then show ?thesis using assms(1) limits_positive[of b] limits_small[of b]
    by (simp add: charged_def room_def admitted_def unat_counted)
next
  case (Some v)
  show ?thesis
  proof (cases "now - lw_started_at v > window_length")
    case True
    then have "lw_started_at v < t" using assms(2) by simp
    then show ?thesis using Some True assms(1) limits_positive[of b]
      by (simp add: charged_def room_def admitted_def unat_counted Let_def)
  next
    case False
    have "unat (lw_count v) < unat (bucket_max_per_window b) \<Longrightarrow> unat (lw_count v) + 1 < 2 ^ 32"
      using limits_small[of b] by simp
    then show ?thesis using Some False by (auto simp: charged_def room_def admitted_def unat_counted Let_def)
  qed
qed

lemma burst_room:
  assumes "sorted (map call_time cs)" and "\<forall>c \<in> set cs. t \<le> call_time c"
  shows "length (filter (in_span trusted b t) (passed_calls trusted cs s)) \<le> room b t (window_of b s)"
  using assms
proof (induction cs arbitrary: s)
  case (Cons c cs)
  show ?case
  proof (cases "call_time c < t + window_length")
    case False
    then have "\<forall>c' \<in> set (c # cs). t + window_length \<le> call_time c'" using Cons.prems(1) by force
    then show ?thesis using late_calls by (metis list.size(3) zero_le)
  next
    case now: True
    let ?s = "run_call trusted c s"
    have rest: "length (filter (in_span trusted b t) (passed_calls trusted cs ?s)) \<le> room b t (window_of b ?s)"
      using Cons.IH Cons.prems by simp
    show ?thesis
    proof (cases "call_bucket trusted c = Some b")
      case True
      then have "in_span trusted b t c" using now Cons.prems(2) by (simp add: in_span_def)
      then show ?thesis
        using rest run_call_charged[OF True, of s] Cons.prems(2)
          room_charged[of t "call_time c" b "window_of b s"] now
        by (simp split: if_splits)
    next
      case False
      have "room b t (window_of b ?s) \<le> room b t (window_of b s)"
        using run_call_other[OF False, of s] now by (auto simp: room_def Let_def)
      moreover have "\<not> in_span trusted b t c" using False by (simp add: in_span_def)
      ultimately show ?thesis using rest by simp
    qed
  qed
qed (simp add: room_def)

lemma room_bound: "room b t w \<le> 2 * unat (bucket_max_per_window b)"
  by (auto simp: room_def Let_def split: option.splits)

text \<open>
  C22: Whatever a client sends, and however its requests interleave with everybody else's, with the
  signed requests and with the sweeps, a bucket lets at most twice its limit through in any span
  of 60 seconds: the rest of one fixed window and the whole of the next.  The instants are the
  ones the hub's clock gave, in order.
\<close>

theorem bucket_bounds_burst:
  assumes "sorted (map call_time cs)"
  shows "length (filter (\<lambda>c. call_bucket trusted c = Some b \<and> t \<le> call_time c \<and> call_time c < t + window_length)
           (passed_calls trusted cs s)) \<le> 2 * unat (bucket_max_per_window b)"
proof -
  have "length (filter (in_span trusted b t) (passed_calls trusted cs s)) \<le> 2 * unat (bucket_max_per_window b)"
    using assms
  proof (induction cs arbitrary: s)
    case (Cons c cs)
    show ?case
    proof (cases "t \<le> call_time c")
      case True
      then have "\<forall>c' \<in> set (c # cs). t \<le> call_time c'" using Cons.prems by force
      then show ?thesis using burst_room[OF Cons.prems] room_bound le_trans by blast
    next
      case False
      then show ?thesis using Cons by (simp add: in_span_def)
    qed
  qed simp
  then show ?thesis unfolding in_span_def .
qed

subsection \<open>Who is never refused\<close>

definition requests_since :: "ip_addr set \<Rightarrow> bucket \<Rightarrow> int \<Rightarrow> limiter_call list \<Rightarrow> nat" where
  "requests_since trusted b t cs = length (filter (\<lambda>c. call_bucket trusted c = Some b \<and> t \<le> call_time c) cs)"

lemma requests_since_snoc:
  "requests_since trusted b t (cs @ [c]) =
     requests_since trusted b t cs + (if call_bucket trusted c = Some b \<and> t \<le> call_time c then 1 else 0)"
  by (simp add: requests_since_def)

lemma requests_since_mono: "t' \<le> t \<Longrightarrow> requests_since trusted b t cs \<le> requests_since trusted b t' cs"
  by (induction cs) (auto simp: requests_since_def)

text \<open>A window counts no more than the requests made since it started, and it started at one of them.\<close>

lemma window_counts_requests:
  assumes "sorted (map call_time cs)" and "window_of b s = None"
    and "window_of b (fold (run_call trusted) cs s) = Some w"
  shows "unat (lw_count w) \<le> requests_since trusted b (lw_started_at w) cs
    \<and> (\<exists>c \<in> set cs. lw_started_at w = call_time c)"
  using assms(1,3)
proof (induction cs arbitrary: w rule: rev_induct)
  case Nil
  then show ?case using assms(2) by simp
next
  case (snoc c cs)
  let ?t = "fold (run_call trusted) cs s"
  have times: "\<forall>c' \<in> set cs. call_time c' \<le> call_time c" and cs: "sorted (map call_time cs)"
    using snoc.prems(1) by (auto simp: sorted_append)
  show ?case
  proof (cases "call_bucket trusted c = Some b")
    case True
    then have w: "w = counted (charged (call_time c) (window_of b ?t))"
      using snoc.prems(2) run_call_charged(1)[OF True, of ?t] by simp
    show ?thesis
    proof (cases "charged (call_time c) (window_of b ?t) = \<lparr>lw_started_at = call_time c, lw_count = 0\<rparr>")
      case fresh: True
      then have "lw_started_at w = call_time c" "unat (lw_count w) \<le> 1" using w by (simp_all add: unat_counted)
      then show ?thesis using True by (simp add: requests_since_snoc)
    next
      case False
      then obtain v where v: "window_of b ?t = Some v" "charged (call_time c) (window_of b ?t) = v"
        by (auto simp: charged_def split: option.splits if_splits)
      then show ?thesis using snoc.IH[OF cs v(1)] times True w
        by (auto simp: requests_since_snoc unat_counted)
    qed
  next
    case False
    then have "window_of b ?t = Some w" using snoc.prems(2) run_call_other[OF False, of ?t] by auto
    then show ?thesis using snoc.IH[OF cs] False by (auto simp: requests_since_snoc)
  qed
qed

text \<open>
  A client that keeps within its limit is never refused, whatever the others do: from a fresh
  table, a request is let through whenever its bucket saw fewer than the limit in the 60 seconds
  before it.
\<close>

theorem paced_requests_pass:
  assumes "sorted (map call_time (cs @ [c]))" and "rate_limits s = new_table"
    and "call_bucket trusted c = Some b"
    and "length (filter (\<lambda>c'. call_bucket trusted c' = Some b \<and> call_time c - window_length \<le> call_time c') cs)
           < unat (bucket_max_per_window b)"
  shows "passes trusted c (fold (run_call trusted) cs s)"
proof -
  let ?t = "fold (run_call trusted) cs s"
  have cs: "sorted (map call_time cs)" and none: "window_of b s = None"
    using assms(1,2) by (simp_all add: sorted_append window_of_def new_table_def)
  have "unat (lw_count (charged (call_time c) (window_of b ?t))) < unat (bucket_max_per_window b)"
  proof (cases "charged (call_time c) (window_of b ?t) = \<lparr>lw_started_at = call_time c, lw_count = 0\<rparr>")
    case True
    then show ?thesis using limits_positive by simp
  next
    case False
    then obtain v where v: "window_of b ?t = Some v" "charged (call_time c) (window_of b ?t) = v"
      and recent: "call_time c - window_length \<le> lw_started_at v"
      by (auto simp: charged_def split: option.splits if_splits)
    have "unat (lw_count v) \<le> requests_since trusted b (lw_started_at v) cs"
      using window_counts_requests[OF cs none v(1)] by blast
    also have "\<dots> \<le> requests_since trusted b (call_time c - window_length) cs"
      by (rule requests_since_mono[OF recent])
    finally show ?thesis using v(2) assms(4) by (simp add: requests_since_def)
  qed
  then show ?thesis using run_call_charged(2)[OF assms(3)] by (simp add: admitted_def)
qed

subsection \<open>Nobody chooses the address they are charged at\<close>

lemma split_on_nonempty [simp]: "split_on sep s \<noteq> []"
  by (cases s) (auto split: list.splits)

lemma split_on_append: "split_on sep (v @ sep # own) = split_on sep v @ split_on sep own"
  by (induction v) (auto split: list.splits)

lemma forwarded_entries_append:
  "forwarded_entries (headers @ [Some (v @ CHR '','' # own)]) =
     forwarded_entries (headers @ [Some v]) @ forwarded_entries [Some own]"
  by (simp add: forwarded_entries_def List.map_filter_def split_on_append)

definition stops_walk :: "ip_addr set \<Rightarrow> string \<Rightarrow> bool" where
  "stops_walk trusted entry \<longleftrightarrow> (case parse_forwarded_entry entry of None \<Rightarrow> True | Some a \<Rightarrow> a \<notin> trusted)"

lemma walk_stops:
  "\<exists>e \<in> set xs. stops_walk trusted e \<Longrightarrow> walk_forwarded peer trusted (xs @ ys) = walk_forwarded peer trusted xs"
  by (induction xs) (auto simp: stops_walk_def split: option.splits)

lemma walk_untrusted: "walk_forwarded peer trusted xs \<in> trusted \<Longrightarrow> walk_forwarded peer trusted xs = peer"
  by (induction xs) (auto split: option.splits if_splits)

text \<open>
  C23: The address a request is charged at is not the sender's to choose.  From a peer that is not
  one of the configured proxies it is the peer's own, whatever the headers say.  From a proxy,
  once what the proxies themselves appended holds an entry that is not a proxy's, nothing the
  client put in front of it, in the same header or in others, changes the answer; and the answer
  is never a proxy's address other than the peer's.
\<close>

theorem client_ip_unspoofable:
  "(to_canonical ip \<notin> trusted \<longrightarrow> client_ip headers ip trusted = to_canonical ip)
   \<and> ((\<exists>e \<in> set (split_on CHR '','' own). \<forall>a \<in> trusted. parse_forwarded_entry e \<noteq> Some a) \<longrightarrow>
       client_ip (headers @ [Some (v @ CHR '','' # own)]) ip trusted = client_ip [Some own] ip trusted)
   \<and> (client_ip headers ip trusted \<in> trusted \<longrightarrow> client_ip headers ip trusted = to_canonical ip)"
proof (intro conjI impI)
  show "client_ip headers ip trusted = to_canonical ip" if "to_canonical ip \<notin> trusted"
    using that by (simp add: client_ip_def)
  show "client_ip headers ip trusted = to_canonical ip" if "client_ip headers ip trusted \<in> trusted"
    using that walk_untrusted by (auto simp: client_ip_def Let_def split: if_splits)
  assume "\<exists>e \<in> set (split_on CHR '','' own). \<forall>a \<in> trusted. parse_forwarded_entry e \<noteq> Some a"
  then have "\<exists>e \<in> set (rev (forwarded_entries [Some own])). stops_walk trusted e"
    by (force simp: forwarded_entries_def List.map_filter_def stops_walk_def split: option.splits)
  from walk_stops[OF this]
  show "client_ip (headers @ [Some (v @ CHR '','' # own)]) ip trusted = client_ip [Some own] ip trusted"
    unfolding client_ip_def forwarded_entries_append by (simp add: Let_def)
qed

end
