(* ===== verification/Hub_Rate_Limit_Witnesses.thy ===== *)
theory Hub_Rate_Limit_Witnesses
  imports Hub_Rate_Limit
begin

text \<open>
  The properties of the request limits at concrete inputs: a key that signs three requests in a
  minute beside a sweep, and a hub behind one proxy whose client has seeded the header.
\<close>

definition one_minute :: "limiter_call list" where
  "one_minute = [Sign ''k'' 0, Sweep 5, Sign ''other'' 6, Sign ''k'' 7]"

theorem bucket_bounds_burst_witness:
  "length (filter (\<lambda>c. call_bucket {} c = Some (Pubkey ''k'') \<and> 0 \<le> call_time c \<and> call_time c < 0 + window_length)
     (passed_calls {} one_minute new_limiter)) \<le> 2 * unat (bucket_max_per_window (Pubkey ''k''))"
  by (rule bucket_bounds_burst) (simp add: one_minute_def)

theorem paced_requests_pass_witness:
  "passes {} (Sign ''k'' 8) (fold (run_call {}) one_minute new_limiter)"
  by (rule paced_requests_pass[where b = "Pubkey ''k''"])
    (simp_all add: one_minute_def new_limiter_def window_length_def seconds_def nanos_per_sec_def WINDOW_SECONDS_def
      MAX_SIGNED_REQUESTS_PER_PUBKEY_PER_WINDOW_def)

lemma digit_values [simp]:
  "to_digit 10 CHR ''0'' = Some 0" "to_digit 10 CHR ''1'' = Some 1" "to_digit 10 CHR ''2'' = Some 2"
  "to_digit 10 CHR ''3'' = Some 3" "to_digit 10 CHR ''9'' = Some 9" "to_digit 10 CHR ''.'' = None"
  by (simp_all add: to_digit_def)

lemma proxy_octets:
  "stops 10 rest \<Longrightarrow> read_ipv4_addr (''203.0.113.9'' @ rest) = Some ([203, 0, 113, 9], rest)"
  by (simp add: read_ipv4_addr_def read_separator_def read_number_def read_digits_stops)

lemma proxy_entry: "parse_forwarded_entry '' 203.0.113.9:51234'' = Some (V4 203 0 113 9)"
proof -
  have trimmed: "trim '' 203.0.113.9:51234'' = ''203.0.113.9:51234''"
    by (simp add: trim_def is_whitespace_def)
  have "read_ipv4_addr ''203.0.113.9:51234'' = Some ([203, 0, 113, 9], '':51234'')"
    using proxy_octets[of "'':51234''"] by simp
  moreover have "read_groups 0 (Suc 7) ''203.0.113.9:51234'' = (([join_bytes 203 0, join_bytes 113 9], True), '':51234'')"
    unfolding read_groups.simps(2) using calculation by (simp add: read_separator_def)
  ultimately have "parse_ip ''203.0.113.9:51234'' = None"
    by (simp add: parse_ip_def read_ip_addr_def read_ipv6_addr_def)
  moreover have "parse_ip ''203.0.113.9'' = Some (V4 203 0 113 9)"
    using proxy_octets[of "[]"] by (simp add: parse_ip_def read_ip_addr_def)
  ultimately show ?thesis by (simp add: parse_forwarded_entry_def trimmed)
qed

theorem client_ip_unspoofable_witness:
  "client_ip [Some ''198.51.100.7'', Some ''1.2.3.4, 203.0.113.9:51234''] (V4 10 0 0 1) {V4 10 0 0 1} = V4 203 0 113 9"
proof -
  have own: "split_on CHR '','' '' 203.0.113.9:51234'' = ['' 203.0.113.9:51234'']" by simp
  have "client_ip ([Some ''198.51.100.7''] @ [Some (''1.2.3.4'' @ CHR '','' # '' 203.0.113.9:51234'')]) (V4 10 0 0 1) {V4 10 0 0 1}
      = client_ip [Some '' 203.0.113.9:51234''] (V4 10 0 0 1) {V4 10 0 0 1}"
    using client_ip_unspoofable[of "V4 10 0 0 1" "{V4 10 0 0 1}" "[Some ''198.51.100.7'']" "'' 203.0.113.9:51234''" "''1.2.3.4''"]
      own proxy_entry by simp
  also have "\<dots> = V4 203 0 113 9"
    using own proxy_entry by (simp add: client_ip_def forwarded_entries_def List.map_filter_def)
  finally show ?thesis by simp
qed

end
