(* ===== verification/Hub_Auth.thy ===== *)
theory Hub_Auth
  imports Hub_Rate_Limit Chain_Types
begin

text \<open>
  Signed requests: the envelope and its recipe (\<open>lib/src/envelope.rs\<close>), the replay guard that
  remembers what was accepted, in memory and on disk (\<open>hub/src/auth.rs\<close>, with its table of
  \<open>hub/src/store.rs\<close>), and the one sequence in which a handler verifies, charges and claims.
  Whether a write, a prune or a read of the table succeeds is an argument; the messages of the
  errors and the counters of \<open>metrics.rs\<close> are left out.
\<close>

subsection \<open>Envelopes\<close>

text \<open>Hexadecimal, key and signature encodings and the rendering of an instant or a UUID are packages.\<close>

record wire =
  hex_encode :: "byte list \<Rightarrow> string"
  hex_decode :: "string \<Rightarrow> byte list option"
  key_from_sec1_bytes :: "byte list \<Rightarrow> public_key option"
  signature_to_bytes :: "signature \<Rightarrow> byte list"
  signature_from_bytes :: "byte list \<Rightarrow> signature option"
  to_rfc3339 :: "int \<Rightarrow> string"
  uuid_to_string :: "uuid \<Rightarrow> string"

definition MAX_REQUEST_DRIFT_SECONDS :: int where "MAX_REQUEST_DRIFT_SECONDS = 120"

datatype envelope_error =
    ClockDrift
  | Replayed
  | GuardWarmingUp
  | GuardUnavailable
  | BadSignature
  | BadPublicKey
  | BadSignatureEncoding

text \<open>\<open>env_payload\<close> is the payload as \<open>serde_json\<close> writes it, if it can.\<close>

record signed_envelope =
  env_pubkey :: string
  env_timestamp :: int
  env_payload :: "string option"
  env_signature :: string

definition str_bytes :: "string \<Rightarrow> byte list" where
  "str_bytes s = map (of_nat \<circ> of_char) s"

definition pubkey_to_string :: "wire \<Rightarrow> public_key \<Rightarrow> string" where
  "pubkey_to_string W pk = hex_encode W (to_sec1_bytes pk)"

definition signing_string ::
  "wire \<Rightarrow> signed_envelope \<Rightarrow> string \<Rightarrow> string \<Rightarrow> string \<Rightarrow> (envelope_error, string) outcome" where
  "signing_string W e meth path hub =
     (case env_payload e of
        None \<Rightarrow> Err BadPublicKey
      | Some payload_json \<Rightarrow>
          Ok (env_pubkey e @ '':'' @ to_rfc3339 W (env_timestamp e) @ '':'' @ meth @ '' '' @ path @ '':'' @ hub
              @ '':'' @ payload_json))"

definition new_at ::
  "prims \<Rightarrow> wire \<Rightarrow> private_key \<Rightarrow> int \<Rightarrow> string \<Rightarrow> string \<Rightarrow> string \<Rightarrow> string option \<Rightarrow> (envelope_error, signed_envelope) outcome" where
  "new_at P W key timestamp meth path hub payload =
     (let envelope = \<lparr>env_pubkey = pubkey_to_string W (verifying_key P key), env_timestamp = timestamp,
                      env_payload = payload, env_signature = []\<rparr>
      in case signing_string W envelope meth path hub of
           Ok s \<Rightarrow>
             (let h = hash_bytes P (str_bytes s)
              in Ok (envelope\<lparr>env_signature := hex_encode W (signature_to_bytes W (sign_output P h key))\<rparr>))
         | _ \<Rightarrow> Panic)"

definition verify_signature ::
  "prims \<Rightarrow> wire \<Rightarrow> signed_envelope \<Rightarrow> int \<Rightarrow> string \<Rightarrow> string \<Rightarrow> string \<Rightarrow> (envelope_error, public_key) outcome" where
  "verify_signature P W e now meth path hub =
     (if \<bar>now - env_timestamp e\<bar> > seconds MAX_REQUEST_DRIFT_SECONDS then Err ClockDrift
      else case hex_decode W (env_pubkey e) of
        None \<Rightarrow> Err BadPublicKey
      | Some pubkey_bytes \<Rightarrow>
     (case key_from_sec1_bytes W pubkey_bytes of
        None \<Rightarrow> Err BadPublicKey
      | Some pubkey \<Rightarrow>
     (case hex_decode W (env_signature e) of
        None \<Rightarrow> Err BadSignatureEncoding
      | Some signature_bytes \<Rightarrow>
     (case signature_from_bytes W signature_bytes of
        None \<Rightarrow> Err BadSignatureEncoding
      | Some signature \<Rightarrow>
          obind (signing_string W e meth path hub) (\<lambda>s.
            if signature_verify P signature (hash_bytes P (str_bytes s)) pubkey then Ok pubkey
            else Err BadSignature)))))"

subsection \<open>The durable table\<close>

text \<open>
  \<open>timestamp()\<close> of an instant is its whole seconds; \<open>from_timestamp\<close> is the way back.  The
  table is a map from signatures to seconds.
\<close>

type_synonym replay_table = "byte list \<Rightarrow> int option"

definition timestamp :: "int \<Rightarrow> int" where "timestamp t = t div nanos_per_sec"
definition from_timestamp :: "int \<Rightarrow> int" where "from_timestamp s = seconds s"

definition record_seen_signature :: "bool \<Rightarrow> replay_table \<Rightarrow> byte list \<Rightarrow> int \<Rightarrow> replay_table option" where
  "record_seen_signature ok table sig seen_at = (if ok then Some (table(sig \<mapsto> seen_at)) else None)"

definition load_recent_signatures :: "bool \<Rightarrow> replay_table \<Rightarrow> int \<Rightarrow> replay_table option" where
  "load_recent_signatures ok table cutoff =
     (if ok then Some (\<lambda>sig. case table sig of None \<Rightarrow> None | Some t \<Rightarrow> if t > cutoff then Some t else None)
      else None)"

definition prune_seen_signatures :: "bool \<Rightarrow> replay_table \<Rightarrow> int \<Rightarrow> replay_table option" where
  "prune_seen_signatures ok table cutoff =
     (if ok then Some (\<lambda>sig. case table sig of None \<Rightarrow> None | Some t \<Rightarrow> if t > cutoff then Some t else None)
      else None)"

subsection \<open>The replay guard\<close>

definition REPLAY_MEMORY_SECONDS :: int where "REPLAY_MEMORY_SECONDS = 2 * MAX_REQUEST_DRIFT_SECONDS"

definition forget_before :: "int \<Rightarrow> int" where
  "forget_before now = now - seconds (REPLAY_MEMORY_SECONDS + 1)"

record replay_guard =
  rg_seen :: "byte list \<Rightarrow> int option"
  rg_store :: "replay_table option"
  rg_accepting_from :: "int option"

definition guard_restore :: "bool \<Rightarrow> replay_table \<Rightarrow> int \<Rightarrow> replay_guard option" where
  "guard_restore ok store now =
     (case load_recent_signatures ok store (timestamp (forget_before now)) of
        None \<Rightarrow> None
      | Some recent \<Rightarrow>
          Some \<lparr>rg_seen = (\<lambda>sig. map_option from_timestamp (recent sig)), rg_store = Some store, rg_accepting_from = None\<rparr>)"

definition guard_booting :: "replay_table \<Rightarrow> int \<Rightarrow> replay_guard" where
  "guard_booting store started_at =
     \<lparr>rg_seen = (\<lambda>_. None), rg_store = Some store,
      rg_accepting_from = Some (started_at + seconds REPLAY_MEMORY_SECONDS)\<rparr>"

text \<open>Start-up: the history if it can be read, the waiting guard if it cannot.\<close>

definition guard_at_boot :: "bool \<Rightarrow> replay_table \<Rightarrow> int \<Rightarrow> int \<Rightarrow> replay_guard" where
  "guard_at_boot ok store now now' =
     (case guard_restore ok store now of Some g \<Rightarrow> g | None \<Rightarrow> guard_booting store now')"

definition refuses_at :: "replay_guard \<Rightarrow> int \<Rightarrow> bool" where
  "refuses_at g now = (case rg_accepting_from g of None \<Rightarrow> False | Some from \<Rightarrow> now < from)"

definition already_seen :: "replay_guard \<Rightarrow> byte list \<Rightarrow> bool" where
  "already_seen g sig \<longleftrightarrow> rg_seen g sig \<noteq> None"

definition claim :: "bool \<Rightarrow> replay_guard \<Rightarrow> byte list \<Rightarrow> int \<Rightarrow> (envelope_error, unit) outcome \<times> replay_guard" where
  "claim ok g sig now =
     (let g' = g\<lparr>rg_seen := (rg_seen g)(sig \<mapsto> now)\<rparr>
      in if rg_seen g sig \<noteq> None then (Err Replayed, g')
         else case rg_store g of
           None \<Rightarrow> (Ok (), g')
         | Some store \<Rightarrow>
             (case record_seen_signature ok store sig (timestamp now) of
                None \<Rightarrow> (Err GuardUnavailable, g')
              | Some store' \<Rightarrow> (Ok (), g'\<lparr>rg_store := Some store'\<rparr>)))"

definition cleanup_replay_guard :: "(byte list \<Rightarrow> int option) \<Rightarrow> int \<Rightarrow> byte list \<Rightarrow> int option" where
  "cleanup_replay_guard seen cutoff =
     (\<lambda>sig. case seen sig of None \<Rightarrow> None | Some t \<Rightarrow> if t > cutoff then Some t else None)"

definition guard_cleanup :: "bool \<Rightarrow> replay_guard \<Rightarrow> int \<Rightarrow> replay_guard" where
  "guard_cleanup ok g now =
     (let cutoff = forget_before now;
          g = g\<lparr>rg_seen := cleanup_replay_guard (rg_seen g) cutoff\<rparr>
      in case rg_store g of
           None \<Rightarrow> g
         | Some store \<Rightarrow>
             (case prune_seen_signatures ok store (timestamp cutoff) of
                None \<Rightarrow> g
              | Some store' \<Rightarrow> g\<lparr>rg_store := Some store'\<rparr>))"

subsection \<open>Verifying a request\<close>

datatype verify_error = Auth envelope_error | Quota quota_exceeded

record auth_state =
  au_guard :: replay_guard
  au_limiter :: limiter

definition verify_charging ::
  "prims \<Rightarrow> wire \<Rightarrow> string \<Rightarrow> string \<Rightarrow> string \<Rightarrow> int \<Rightarrow> bool
     \<Rightarrow> (public_key \<Rightarrow> limiter \<Rightarrow> (quota_exceeded, unit) outcome \<times> limiter)
     \<Rightarrow> signed_envelope \<Rightarrow> auth_state \<Rightarrow> (verify_error, public_key) outcome \<times> auth_state" where
  "verify_charging P W hub meth path now ok charge e s =
     (if refuses_at (au_guard s) now then (Err (Auth GuardWarmingUp), s)
      else case verify_signature P W e now meth path hub of
        Err err \<Rightarrow> (Err (Auth err), s)
      | Panic \<Rightarrow> (Panic, s)
      | Cutoff \<Rightarrow> (Cutoff, s)
      | Ok pubkey \<Rightarrow>
     (case hex_decode W (env_signature e) of
        None \<Rightarrow> (Panic, s)
      | Some signature_bytes \<Rightarrow>
          if already_seen (au_guard s) signature_bytes then (Err (Auth Replayed), s)
          else
            (let (charged, limiter) = charge pubkey (au_limiter s);
                 s = s\<lparr>au_limiter := limiter\<rparr>
             in case charged of
                  Ok _ \<Rightarrow>
                    (let (claimed, guard) = claim ok (au_guard s) signature_bytes now
                     in (obind (map_err Auth claimed) (\<lambda>_. Ok pubkey), s\<lparr>au_guard := guard\<rparr>))
                | r \<Rightarrow> (obind (map_err Quota r) (\<lambda>_. Ok pubkey), s))))"

text \<open>\<open>charge_pubkey\<close> reads the clock again.\<close>

definition verify ::
  "prims \<Rightarrow> wire \<Rightarrow> string \<Rightarrow> string \<Rightarrow> string \<Rightarrow> int \<Rightarrow> int \<Rightarrow> bool \<Rightarrow> signed_envelope \<Rightarrow> auth_state
     \<Rightarrow> (verify_error, public_key) outcome \<times> auth_state" where
  "verify P W hub meth path now now' ok e s =
     verify_charging P W hub meth path now ok (\<lambda>pk l. charge_pubkey l (pubkey_to_string W pk) now') e s"

subsection \<open>A hub over its restarts\<close>

datatype auth_call =
    Verify_Request signed_envelope string string int int bool
  | Guard_Sweep int bool
  | Restart int int bool

fun run_auth :: "prims \<Rightarrow> wire \<Rightarrow> string \<Rightarrow> auth_call \<Rightarrow> auth_state \<Rightarrow> auth_state" where
  "run_auth P W hub (Verify_Request e meth path now now' ok) s = snd (verify P W hub meth path now now' ok e s)"
| "run_auth P W hub (Guard_Sweep now ok) s = s\<lparr>au_guard := guard_cleanup ok (au_guard s) now\<rparr>"
| "run_auth P W hub (Restart now now' ok) s =
     (case rg_store (au_guard s) of
        None \<Rightarrow> s
      | Some store \<Rightarrow> \<lparr>au_guard = guard_at_boot ok store now now', au_limiter = new_limiter\<rparr>)"

text \<open>The clock does not run backwards, and a new process starts after the old one is done.\<close>

fun clock_ordered :: "int \<Rightarrow> auth_call list \<Rightarrow> bool" where
  "clock_ordered t [] \<longleftrightarrow> True"
| "clock_ordered t (Verify_Request e meth path now now' ok # cs) \<longleftrightarrow> t \<le> now \<and> clock_ordered now cs"
| "clock_ordered t (Guard_Sweep now ok # cs) \<longleftrightarrow> t \<le> now \<and> clock_ordered now cs"
| "clock_ordered t (Restart now now' ok # cs) \<longleftrightarrow> t < now \<and> now \<le> now' \<and> clock_ordered now' cs"

text \<open>What identifies a request that was let in: its timestamp and the bytes of its signature.\<close>

fun let_in :: "prims \<Rightarrow> wire \<Rightarrow> string \<Rightarrow> auth_call \<Rightarrow> auth_state \<Rightarrow> (int \<times> byte list option) list" where
  "let_in P W hub (Verify_Request e meth path now now' ok) s =
     (case fst (verify P W hub meth path now now' ok e s) of
        Ok _ \<Rightarrow> [(env_timestamp e, hex_decode W (env_signature e))]
      | _ \<Rightarrow> [])"
| "let_in P W hub _ s = []"

fun accepted :: "prims \<Rightarrow> wire \<Rightarrow> string \<Rightarrow> auth_call list \<Rightarrow> auth_state \<Rightarrow> (int \<times> byte list option) list" where
  "accepted P W hub [] s = []"
| "accepted P W hub (c # cs) s = let_in P W hub c s @ accepted P W hub cs (run_auth P W hub c s)"

subsection \<open>What a verification does\<close>

lemma verify_signature_Ok:
  "verify_signature P W e now meth path hub = Ok pk \<Longrightarrow>
     \<bar>now - env_timestamp e\<bar> \<le> seconds MAX_REQUEST_DRIFT_SECONDS \<and> (\<exists>sig. hex_decode W (env_signature e) = Some sig)"
  by (auto simp: verify_signature_def split: if_splits option.splits)

lemma claim_Ok:
  assumes "claim ok g sig now = (Ok u, g')"
  shows "rg_seen g sig = None" and "rg_seen g' = (rg_seen g)(sig \<mapsto> now)"
    and "rg_store g' = map_option (\<lambda>m. m(sig \<mapsto> timestamp now)) (rg_store g)"
    and "rg_accepting_from g' = rg_accepting_from g"
  using assms by (auto simp: claim_def record_seen_signature_def Let_def split: if_splits option.splits)

lemma claim_guard:
  assumes "rg_seen g sig = None"
  shows "rg_seen (snd (claim ok g sig now)) = (rg_seen g)(sig \<mapsto> now)"
    and "rg_accepting_from (snd (claim ok g sig now)) = rg_accepting_from g"
    and "rg_store (snd (claim ok g sig now)) = rg_store g
       \<or> rg_store (snd (claim ok g sig now)) = map_option (\<lambda>m. m(sig \<mapsto> timestamp now)) (rg_store g)"
  using assms by (auto simp: claim_def record_seen_signature_def Let_def split: option.splits)

text \<open>Every way a verification can end.\<close>

lemma verify_cases:
  obtains (refused) err where "verify P W hub meth path now now' ok e s = (err, s)" "\<forall>pk. err \<noteq> Ok pk"
  | (charged) pk sig where
      "verify_signature P W e now meth path hub = Ok pk" "hex_decode W (env_signature e) = Some sig"
      "\<not> refuses_at (au_guard s) now" "rg_seen (au_guard s) sig = None"
      "fst (charge_pubkey (au_limiter s) (pubkey_to_string W pk) now') \<noteq> Ok ()"
      "snd (verify P W hub meth path now now' ok e s) =
         s\<lparr>au_limiter := snd (charge_pubkey (au_limiter s) (pubkey_to_string W pk) now')\<rparr>"
      "\<forall>pk. fst (verify P W hub meth path now now' ok e s) \<noteq> Ok pk"
  | (claimed) pk sig where
      "verify_signature P W e now meth path hub = Ok pk" "hex_decode W (env_signature e) = Some sig"
      "\<not> refuses_at (au_guard s) now" "rg_seen (au_guard s) sig = None"
      "fst (charge_pubkey (au_limiter s) (pubkey_to_string W pk) now') = Ok ()"
      "verify P W hub meth path now now' ok e s =
         (obind (map_err Auth (fst (claim ok (au_guard s) sig now))) (\<lambda>_. Ok pk),
          s\<lparr>au_limiter := snd (charge_pubkey (au_limiter s) (pubkey_to_string W pk) now'),
            au_guard := snd (claim ok (au_guard s) sig now)\<rparr>)"
proof (cases "refuses_at (au_guard s) now")
  case True
  then show ?thesis using refused by (simp add: verify_def verify_charging_def)
next
  case False
  show ?thesis
  proof (cases "verify_signature P W e now meth path hub")
    case (Ok pk)
    then obtain sig where sig: "hex_decode W (env_signature e) = Some sig" using verify_signature_Ok by blast
    obtain r l where c: "charge_pubkey (au_limiter s) (pubkey_to_string W pk) now' = (r, l)" by force
    show ?thesis
    proof (cases "rg_seen (au_guard s) sig = None")
      case new: True
      show ?thesis
      proof (cases "r = Ok ()")
        case True
        then show ?thesis using claimed[OF Ok sig False new] False Ok sig new c
          by (simp add: verify_def verify_charging_def already_seen_def case_prod_beta)
      next
        case r: False
        then show ?thesis using charged[OF Ok sig False new] False Ok sig new c
          by (cases r) (simp_all add: verify_def verify_charging_def already_seen_def)
      qed
    qed (use refused False Ok sig in \<open>simp add: verify_def verify_charging_def already_seen_def\<close>)
  qed (use refused False in \<open>simp_all add: verify_def verify_charging_def\<close>)
qed

subsection \<open>An envelope is good once\<close>

definition drift :: int where "drift = seconds MAX_REQUEST_DRIFT_SECONDS"

lemma memory_is_two_drifts: "seconds REPLAY_MEMORY_SECONDS = 2 * drift"
  "forget_before now = now - 2 * drift - seconds 1"
  by (simp_all add: drift_def seconds_def nanos_per_sec_def REPLAY_MEMORY_SECONDS_def MAX_REQUEST_DRIFT_SECONDS_def forget_before_def)

lemma truncation: "t - seconds 1 < from_timestamp (timestamp t)" "from_timestamp (timestamp t) \<le> t"
  using div_mult_mod_eq[of t "1000000000"] pos_mod_bound[of 1000000000 t] pos_mod_sign[of 1000000000 t]
  unfolding from_timestamp_def timestamp_def seconds_def nanos_per_sec_def by linarith+

lemma kept_by_cutoff: "c < from_timestamp u \<Longrightarrow> timestamp c < u"
  using div_mult_mod_eq[of c "1000000000"] pos_mod_sign[of 1000000000 c]
  unfolding from_timestamp_def timestamp_def seconds_def nanos_per_sec_def by linarith

text \<open>
  What a guard holds of a signature accepted at \<open>a\<close> whose envelope verifies until \<open>until\<close>: a row
  on disk, and either an entry in memory or the waiting period of a hub that lost its memory.
\<close>

definition holds :: "replay_guard \<Rightarrow> int \<Rightarrow> int \<Rightarrow> byte list \<Rightarrow> bool" where
  "holds g until a sig \<longleftrightarrow>
     (\<exists>m u. rg_store g = Some m \<and> m sig = Some u \<and> a - seconds 1 < from_timestamp u)
     \<and> ((\<exists>at. rg_seen g sig = Some at \<and> a - seconds 1 < at)
        \<or> (\<exists>from. rg_accepting_from g = Some from \<and> until < from))"

lemma holds_claim:
  assumes "holds g until a sig" "a \<le> now" "rg_seen g sig' = None"
  shows "holds (snd (claim ok g sig' now)) until a sig"
  using assms claim_guard[OF assms(3), of ok now] truncation(1)[of now]
  by (cases "sig = sig'") (auto simp: holds_def)

lemma holds_cleanup:
  assumes "holds g until a sig" "forget_before now \<le> a - seconds 1"
  shows "holds (guard_cleanup ok g now) until a sig"
proof -
  have "timestamp (forget_before now) < u" if "a - seconds 1 < from_timestamp u" for u
    using that assms(2) kept_by_cutoff by simp
  then show ?thesis using assms
    by (auto simp: holds_def guard_cleanup_def cleanup_replay_guard_def prune_seen_signatures_def Let_def)
qed

lemma holds_restart:
  assumes "holds g until a sig" "forget_before now \<le> a - seconds 1" "rg_store g = Some store"
    and "until < now' + 2 * drift"
  shows "holds (guard_at_boot ok store now now') until a sig"
proof -
  have "timestamp (forget_before now) < u" if "a - seconds 1 < from_timestamp u" for u
    using that assms(2) kept_by_cutoff by simp
  then show ?thesis using assms
    by (cases ok) (auto simp: holds_def guard_at_boot_def guard_restore_def load_recent_signatures_def
        guard_booting_def memory_is_two_drifts)
qed

text \<open>An envelope that was let in is remembered, as of \<open>t\<close>, for as long as it would still verify.\<close>

definition remembered :: "int \<Rightarrow> replay_guard \<Rightarrow> int \<Rightarrow> byte list \<Rightarrow> bool" where
  "remembered t g ts sig \<longleftrightarrow>
     (t \<le> ts + drift \<longrightarrow> (\<exists>a. a \<le> t \<and> ts \<le> a + drift \<and> holds g (ts + drift) a sig))"

lemma remembered_step:
  assumes "remembered t g ts sig" "t \<le> t'"
    and "\<And>a. a \<le> t \<Longrightarrow> ts \<le> a + drift \<Longrightarrow> t' \<le> ts + drift \<Longrightarrow> holds g (ts + drift) a sig \<Longrightarrow> holds g' (ts + drift) a sig"
  shows "remembered t' g' ts sig"
  using assms unfolding remembered_def by (meson order_trans)

lemma remembered_claim:
  assumes "remembered t g ts sig" "t \<le> now" "rg_seen g sig' = None"
  shows "remembered now (snd (claim ok g sig' now)) ts sig"
  using assms by (auto intro!: remembered_step[OF assms(1,2)] holds_claim)

lemma remembered_cleanup:
  assumes "remembered t g ts sig" "t \<le> now"
  shows "remembered now (guard_cleanup ok g now) ts sig"
  using assms by (auto intro!: remembered_step[OF assms(1,2)] holds_cleanup simp: memory_is_two_drifts)

lemma remembered_restart:
  assumes "remembered t g ts sig" "t < now" "now \<le> now'" "rg_store g = Some store"
  shows "remembered now' (guard_at_boot ok store now now') ts sig"
  using assms by (auto intro!: remembered_step[OF assms(1)] holds_restart simp: memory_is_two_drifts)

lemma remembered_later: "remembered t g ts sig \<Longrightarrow> t \<le> t' \<Longrightarrow> remembered t' g ts sig"
  by (rule remembered_step)

text \<open>Once let in, a request is remembered; while it is remembered, it is not let in.\<close>

lemma let_in_remembered:
  assumes "fst (verify P W hub meth path now now' ok e s) = Ok pk" and "rg_store (au_guard s) \<noteq> None"
  obtains sig where "hex_decode W (env_signature e) = Some sig"
    "remembered now (au_guard (snd (verify P W hub meth path now now' ok e s))) (env_timestamp e) sig"
proof (cases rule: verify_cases[of P W hub meth path now now' ok e s])
  case (claimed pk' sig)
  obtain r g where c: "claim ok (au_guard s) sig now = (r, g)" by force
  obtain u where r: "r = Ok u" using assms(1) claimed(6) c by (cases r) auto
  have "env_timestamp e \<le> now + drift"
    using verify_signature_Ok[OF claimed(1)] by (auto simp: drift_def)
  then have "remembered now g (env_timestamp e) sig"
    using claim_Ok[OF c[unfolded r]] assms(2) truncation(1)[of now]
    by (auto simp: remembered_def holds_def seconds_def nanos_per_sec_def intro!: exI[of _ now])
  then show ?thesis using that claimed(2,6) c by simp
qed (use assms(1) in auto)

lemma remembered_not_let_in:
  assumes "remembered t (au_guard s) (env_timestamp e) sig" and "t \<le> now"
    and "hex_decode W (env_signature e) = Some sig"
  shows "fst (verify P W hub meth path now now' ok e s) \<noteq> Ok pk"
proof (cases rule: verify_cases[of P W hub meth path now now' ok e s])
  case (claimed pk' sig')
  have "now \<le> env_timestamp e + drift"
    using verify_signature_Ok[OF claimed(1)] by (auto simp: drift_def)
  then show ?thesis using assms claimed(2,3,4) by (auto simp: remembered_def holds_def refuses_at_def)
qed auto

fun clock_after :: "auth_call \<Rightarrow> int" where
  "clock_after (Verify_Request e meth path now now' ok) = now"
| "clock_after (Guard_Sweep now ok) = now"
| "clock_after (Restart now now' ok) = now'"

lemma clock_ordered_tail: "clock_ordered t (c # cs) \<Longrightarrow> t \<le> clock_after c \<and> clock_ordered (clock_after c) cs"
  by (cases c) auto

lemma run_auth_stored:
  "rg_store (au_guard s) \<noteq> None \<Longrightarrow> rg_store (au_guard (run_auth P W hub c s)) \<noteq> None"
proof (cases c)
  case (Verify_Request e meth path now now' ok)
  assume stored: "rg_store (au_guard s) \<noteq> None"
  show ?thesis
  proof (cases rule: verify_cases[of P W hub meth path now now' ok e s])
    case (claimed pk sig)
    then show ?thesis using stored Verify_Request claim_guard(3)[of "au_guard s" sig ok now] by auto
  qed (use stored Verify_Request in simp_all)
qed (auto simp: guard_cleanup_def prune_seen_signatures_def guard_at_boot_def guard_restore_def guard_booting_def Let_def
    split: option.splits)

lemma run_auth_remembered:
  assumes "remembered t (au_guard s) ts sig" and "clock_ordered t (c # cs)"
  shows "remembered (clock_after c) (au_guard (run_auth P W hub c s)) ts sig"
proof (cases c)
  case (Verify_Request e meth path now now' ok)
  have now: "t \<le> now" using assms(2) Verify_Request by simp
  show ?thesis
  proof (cases rule: verify_cases[of P W hub meth path now now' ok e s])
    case (claimed pk sig')
    then show ?thesis using Verify_Request remembered_claim[OF assms(1) now claimed(4)] by simp
  qed (use Verify_Request remembered_later[OF assms(1) now] in simp_all)
next
  case (Guard_Sweep now ok)
  then show ?thesis using assms remembered_cleanup by simp
next
  case (Restart now now' ok)
  then show ?thesis using assms remembered_restart[OF assms(1)] remembered_later[OF assms(1)]
    by (cases "rg_store (au_guard s)") auto
qed

lemma let_in_iff:
  "x \<in> set (let_in P W hub (Verify_Request e meth path now now' ok) s) \<longleftrightarrow>
     (\<exists>pk. fst (verify P W hub meth path now now' ok e s) = Ok pk)
     \<and> x = (env_timestamp e, hex_decode W (env_signature e))"
  by (cases "fst (verify P W hub meth path now now' ok e s)") auto

lemma remembered_never_accepted:
  assumes "remembered t (au_guard s) ts sig" and "clock_ordered t cs"
  shows "(ts, Some sig) \<notin> set (accepted P W hub cs s)"
  using assms
proof (induction cs arbitrary: s t)
  case (Cons c cs)
  have "(ts, Some sig) \<notin> set (let_in P W hub c s)"
  proof (cases c)
    case (Verify_Request e meth path now now' ok)
    have now: "t \<le> now" using Cons.prems(2) Verify_Request by simp
    show ?thesis
    proof
      assume "(ts, Some sig) \<in> set (let_in P W hub c s)"
      then obtain pk where "fst (verify P W hub meth path now now' ok e s) = Ok pk"
        "ts = env_timestamp e" "hex_decode W (env_signature e) = Some sig"
        unfolding Verify_Request let_in_iff by auto
      then show False using remembered_not_let_in[OF _ now] Cons.prems(1) by blast
    qed
  qed auto
  moreover have "(ts, Some sig) \<notin> set (accepted P W hub cs (run_auth P W hub c s))"
    using Cons.IH[OF run_auth_remembered[OF Cons.prems]] clock_ordered_tail[OF Cons.prems(2)] by blast
  ultimately show ?case by simp
qed simp

text \<open>
  C21: A signed request is good once.  Over any run of a hub, with sweeps, failed writes, failed
  prunes, restarts that read the history back and restarts that could not, no two requests that
  were let in carry the same timestamp and signature.  The clock is assumed not to run
  backwards, and a new process to start strictly after the old one's last request.
\<close>

theorem envelope_accepted_once:
  assumes "clock_ordered t cs" and "rg_store (au_guard s) \<noteq> None"
  shows "distinct (accepted P W hub cs s)"
  using assms
proof (induction cs arbitrary: s t)
  case (Cons c cs)
  let ?s = "run_auth P W hub c s"
  have later: "distinct (accepted P W hub cs ?s)"
    using Cons.IH[of "clock_after c" ?s] Cons.prems clock_ordered_tail run_auth_stored by blast
  have "x \<notin> set (accepted P W hub cs ?s)" if inside: "x \<in> set (let_in P W hub c s)" for x
  proof (cases c)
    case (Verify_Request e meth path now now' ok)
    then obtain pk where x: "fst (verify P W hub meth path now now' ok e s) = Ok pk"
      "x = (env_timestamp e, hex_decode W (env_signature e))"
      using inside unfolding Verify_Request let_in_iff by blast
    from let_in_remembered[OF x(1) Cons.prems(2)] obtain sig where
      "hex_decode W (env_signature e) = Some sig" "remembered now (au_guard ?s) (env_timestamp e) sig"
      using Verify_Request by auto
    then show ?thesis using remembered_never_accepted x(2) Cons.prems(1) Verify_Request by simp
  qed (use inside in auto)
  moreover have "distinct (let_in P W hub c s)" by (cases c) (auto split: outcome.splits)
  ultimately show ?case using later by auto
qed simp

subsection \<open>Who pays for a request\<close>

lemma charge_pubkey_others: "b \<noteq> Pubkey k \<Longrightarrow> window_of b (snd (charge_pubkey l k now)) = window_of b l"
  by (simp add: charge_simps)

text \<open>
  A request costs nobody but the key that signed it, and nothing until its signature has been
  checked for this method, path and hub.  A quota moves only for a signature that verifies and
  was not seen before, and then only the signer's bucket; the guard moves only when that quota
  was not exhausted, so a refused envelope can be sent again; and a request is let in only with
  its signature in memory and, where there is a store, on disk.
\<close>

theorem verify_charges_signer_only:
  assumes "verify P W hub meth path now now' ok e s = (r, s')"
  shows "(au_limiter s' \<noteq> au_limiter s \<longrightarrow>
      (\<exists>pk sig. verify_signature P W e now meth path hub = Ok pk \<and> hex_decode W (env_signature e) = Some sig
         \<and> \<not> already_seen (au_guard s) sig
         \<and> (\<forall>b. b \<noteq> Pubkey (pubkey_to_string W pk) \<longrightarrow> window_of b (au_limiter s') = window_of b (au_limiter s))))
   \<and> (au_guard s' \<noteq> au_guard s \<longrightarrow>
      (\<exists>pk. verify_signature P W e now meth path hub = Ok pk
         \<and> fst (charge_pubkey (au_limiter s) (pubkey_to_string W pk) now') = Ok ()))
   \<and> (\<forall>pk. r = Ok pk \<longrightarrow>
      verify_signature P W e now meth path hub = Ok pk \<and> \<not> refuses_at (au_guard s) now
      \<and> (\<exists>sig. hex_decode W (env_signature e) = Some sig \<and> already_seen (au_guard s') sig
           \<and> (\<forall>m. rg_store (au_guard s') = Some m \<longrightarrow> m sig = Some (timestamp now))))"
proof (cases rule: verify_cases[of P W hub meth path now now' ok e s])
  case (charged pk sig)
  then show ?thesis using assms charge_pubkey_others by (auto simp: already_seen_def)
next
  case (claimed pk sig)
  have fresh: "\<not> already_seen (au_guard s) sig" using claimed(4) by (simp add: already_seen_def)
  have in_memory: "already_seen (au_guard s') sig \<and> (\<forall>m. rg_store (au_guard s') = Some m \<longrightarrow> m sig = Some (timestamp now))
      \<and> pk' = pk" if accepted: "r = Ok pk'" for pk'
  proof -
    obtain c g where c: "claim ok (au_guard s) sig now = (c, g)" by force
    then obtain u where "c = Ok u" using claimed(6) assms accepted by (cases c) auto
    then show ?thesis using claim_Ok[of ok "au_guard s" sig now u g] c claimed(6) assms accepted by (auto simp: already_seen_def)
  qed
  show ?thesis using assms claimed fresh in_memory charge_pubkey_others by auto
qed (use assms in auto)

end
