(* ===== verification/Hub_Auth_Witnesses.thy ===== *)
theory Hub_Auth_Witnesses
  imports Hub_Auth Chain_Witnesses
begin

text \<open>
  The properties of signed requests at concrete inputs: one envelope sent twice around a restart
  of the hub, with the encodings of text and bytes instantiated by the plainest functions that
  fit their types.
\<close>

definition sample_wire :: wire where
  "sample_wire =
     \<lparr>hex_encode = map (\<lambda>b. char_of (unat b)), hex_decode = (\<lambda>s. Some (str_bytes s)),
      key_from_sec1_bytes = (\<lambda>bs. Some (PublicKey bs)), signature_to_bytes = (\<lambda>s. case s of Signature bs \<Rightarrow> bs),
      signature_from_bytes = (\<lambda>bs. Some (Signature bs)), to_rfc3339 = (\<lambda>t. []), uuid_to_string = (\<lambda>i. [])\<rparr>"

definition lenient :: prims where
  "lenient = sample\<lparr>ecdsa_verify := (\<lambda>pk m sig. sig = Signature (to_sec1_bytes pk))\<rparr>"

definition sample_envelope :: signed_envelope where
  "sample_envelope = \<lparr>env_pubkey = ''a'', env_timestamp = 0, env_payload = Some [], env_signature = ''a''\<rparr>"

definition empty_hub :: auth_state where
  "empty_hub = \<lparr>au_guard = guard_at_boot True (\<lambda>_. None) 0 0, au_limiter = new_limiter\<rparr>"

definition sent_twice :: "auth_call list" where
  "sent_twice = [Verify_Request sample_envelope ''POST'' ''/faucet'' 1 1 True, Restart 2 3 True,
     Guard_Sweep 4 True, Verify_Request sample_envelope ''POST'' ''/faucet'' 5 5 True]"

theorem envelope_accepted_once_witness: "distinct (accepted lenient sample_wire ''h'' sent_twice empty_hub)"
  by (rule envelope_accepted_once[where t = 0])
    (simp_all add: sent_twice_def empty_hub_def guard_at_boot_def guard_restore_def load_recent_signatures_def)

lemma sample_verifies:
  "verify_signature lenient sample_wire sample_envelope 1 ''POST'' ''/faucet'' ''h'' = Ok (PublicKey (str_bytes ''a''))"
  by (simp add: verify_signature_def sample_envelope_def sample_wire_def signing_string_def signature_verify_def
      lenient_def seconds_def nanos_per_sec_def MAX_REQUEST_DRIFT_SECONDS_def)

lemma sample_charged: "fst (charge_pubkey new_limiter k 1) = Ok ()"
  by (simp add: charge_simps admitted_def charged_def new_limiter_def new_table_def
      MAX_SIGNED_REQUESTS_PER_PUBKEY_PER_WINDOW_def)

lemma sample_let_in:
  "fst (verify lenient sample_wire ''h'' ''POST'' ''/faucet'' 1 1 True sample_envelope empty_hub) = Ok (PublicKey (str_bytes ''a''))"
  using sample_verifies sample_charged
  by (simp add: verify_def verify_charging_def empty_hub_def guard_at_boot_def guard_restore_def
      load_recent_signatures_def refuses_at_def already_seen_def claim_def record_seen_signature_def sample_envelope_def
      sample_wire_def case_prod_beta Let_def split: outcome.splits)

theorem verify_charges_signer_only_witness:
  "\<exists>sig. hex_decode sample_wire (env_signature sample_envelope) = Some sig
     \<and> already_seen (au_guard (snd (verify lenient sample_wire ''h'' ''POST'' ''/faucet'' 1 1 True sample_envelope empty_hub))) sig"
  using verify_charges_signer_only[OF surjective_pairing] sample_let_in by blast

end
