(* ===== verification/Hub_Pow.thy ===== *)
theory Hub_Pow
  imports Hub_Auth Hub_Types
begin

text \<open>
  The faucet's proof of work (\<open>hub/src/faucet_pow.rs\<close>): what a challenge costs, how one is
  issued, checked and spent, and the book that keeps them in memory and on disk (the table is in
  \<open>hub/src/store.rs\<close>).  The table is read in the order of its keys at start-up, so it is an
  ordered map; the concurrent maps in memory are functions.  The random id and nonce of a
  challenge, and whether a write succeeds, are arguments.
\<close>

subsection \<open>Prices\<close>

definition FAUCET_ACTION :: string where "FAUCET_ACTION = ''faucet''"
definition CHALLENGE_TTL_SECONDS :: int where "CHALLENGE_TTL_SECONDS = 600"
definition REDEEMED_RETENTION_SECONDS :: int where "REDEEMED_RETENTION_SECONDS = 3600"
definition MAX_PREFIX_DOUBLINGS :: u64 where "MAX_PREFIX_DOUBLINGS = 20"

definition saturating_mul :: "u64 \<Rightarrow> u64 \<Rightarrow> u64" where
  "saturating_mul a b = (case checked_mul a b of None \<Rightarrow> - 1 | Some c \<Rightarrow> c)"

definition target_for_expected_hashes :: "u64 \<Rightarrow> u256" where
  "target_for_expected_hashes expected = (- 1) div ucast (max expected 1)"

definition expected_hashes_for_prefix :: "u64 \<Rightarrow> u64 \<Rightarrow> u64 \<Rightarrow> u64 \<Rightarrow> ('e, u64) outcome" where
  "expected_hashes_for_prefix base taken free step =
     (if taken < free then Ok base
      else obind (plus_u 1 ((taken - free) div max step 1)) (\<lambda>doublings.
             Ok (saturating_mul base (push_bit (unat (min doublings MAX_PREFIX_DOUBLINGS)) 1))))"

definition expected_hashes_for_target :: "u256 \<Rightarrow> u64" where
  "expected_hashes_for_target target =
     (if target = 0 then - 1
      else let expected = (- 1) div target in if expected > ucast (- 1 :: u64) then - 1 else ucast expected)"

subsection \<open>Challenges\<close>

record challenge =
  ch_id :: uuid
  ch_pubkey :: string
  ch_server_nonce :: string
  ch_action :: string
  ch_target :: u256
  ch_issued_at :: int
  ch_expires_at :: int
  ch_prefix :: "string option"
  ch_redeemed_at :: "int option"

definition challenge_issue ::
  "wire \<Rightarrow> uuid \<Rightarrow> byte list \<Rightarrow> public_key \<Rightarrow> u256 \<Rightarrow> string option \<Rightarrow> instant \<Rightarrow> challenge" where
  "challenge_issue W fresh nonce pubkey target prefix now =
     \<lparr>ch_id = fresh, ch_pubkey = pubkey_to_string W pubkey, ch_server_nonce = hex_encode W nonce,
      ch_action = FAUCET_ACTION, ch_target = target, ch_issued_at = timestamp now,
      ch_expires_at = timestamp (now + seconds CHALLENGE_TTL_SECONDS), ch_prefix = prefix, ch_redeemed_at = None\<rparr>"

definition preimage :: "wire \<Rightarrow> challenge \<Rightarrow> u64 \<Rightarrow> string" where
  "preimage W c solution =
     uuid_to_string W (ch_id c) @ '':'' @ ch_server_nonce c @ '':'' @ ch_pubkey c @ '':'' @ ch_action c @ '':''
     @ radix_digits 10 (unat solution)"

definition preimage_template :: "wire \<Rightarrow> challenge \<Rightarrow> string" where
  "preimage_template W c =
     uuid_to_string W (ch_id c) @ '':'' @ ch_server_nonce c @ '':'' @ ch_pubkey c @ '':'' @ ch_action c @ '':{solution}''"

definition is_solved_by :: "prims \<Rightarrow> wire \<Rightarrow> challenge \<Rightarrow> u64 \<Rightarrow> bool" where
  "is_solved_by P W c solution \<longleftrightarrow> matches_target (hash_bytes P (str_bytes (preimage W c solution))) (ch_target c)"

definition is_expired_at :: "challenge \<Rightarrow> instant \<Rightarrow> bool" where
  "is_expired_at c now \<longleftrightarrow> timestamp now > ch_expires_at c"

definition is_redeemed :: "challenge \<Rightarrow> bool" where
  "is_redeemed c \<longleftrightarrow> ch_redeemed_at c \<noteq> None"

datatype redemption_error = Unknown | WrongKey | Expired | AlreadyRedeemed | Unsolved | NotRecorded

definition validate :: "prims \<Rightarrow> wire \<Rightarrow> challenge \<Rightarrow> public_key \<Rightarrow> u64 \<Rightarrow> instant \<Rightarrow> (redemption_error, unit) outcome" where
  "validate P W c pubkey solution now =
     (if ch_pubkey c \<noteq> pubkey_to_string W pubkey then Err WrongKey
      else if is_redeemed c then Err AlreadyRedeemed
      else if is_expired_at c now then Err Expired
      else if \<not> is_solved_by P W c solution then Err Unsolved
      else Ok ())"

subsection \<open>The book\<close>

type_synonym challenge_table = "(uuid, challenge) bmap"

record challenge_book =
  cb_by_id :: "uuid \<Rightarrow> challenge option"
  cb_outstanding :: "string \<Rightarrow> uuid option"
  cb_store :: "challenge_table option"
  cb_target :: u256

definition save_faucet_challenge :: "bool \<Rightarrow> challenge_table option \<Rightarrow> challenge \<Rightarrow> challenge_table option option" where
  "save_faucet_challenge ok store c =
     (case store of
        None \<Rightarrow> Some None
      | Some table \<Rightarrow> if ok then Some (Some (bm_insert (ch_id c) c table)) else None)"

definition load_all_faucet_challenges :: "challenge_table \<Rightarrow> challenge list" where
  "load_all_faucet_challenges table = bm_values table"

definition challenge_horizon :: "challenge \<Rightarrow> int" where
  "challenge_horizon c = (if is_redeemed c then ch_expires_at c + REDEEMED_RETENTION_SECONDS else ch_expires_at c)"

definition prune_faucet_challenges :: "challenge_table \<Rightarrow> int \<Rightarrow> challenge_table" where
  "prune_faucet_challenges table now_unix =
     fold (\<lambda>c. bm_remove (ch_id c)) (filter (\<lambda>c. now_unix > challenge_horizon c) (load_all_faucet_challenges table)) table"

definition restore_challenge :: "instant \<Rightarrow> challenge \<Rightarrow> challenge_book \<Rightarrow> challenge_book" where
  "restore_challenge now c book =
     (if is_redeemed c
      then if timestamp now \<le> ch_expires_at c + REDEEMED_RETENTION_SECONDS
           then book\<lparr>cb_by_id := (cb_by_id book)(ch_id c \<mapsto> c)\<rparr> else book
      else if \<not> is_expired_at c now
           then book\<lparr>cb_outstanding := (cb_outstanding book)(ch_pubkey c \<mapsto> ch_id c),
                     cb_by_id := (cb_by_id book)(ch_id c \<mapsto> c)\<rparr>
           else book)"

definition book_restore :: "challenge_table \<Rightarrow> u256 \<Rightarrow> instant \<Rightarrow> challenge_book" where
  "book_restore table target now =
     fold (restore_challenge now) (load_all_faucet_challenges table)
       \<lparr>cb_by_id = (\<lambda>_. None), cb_outstanding = (\<lambda>_. None), cb_store = Some table, cb_target = target\<rparr>"

definition issue_at_target ::
  "wire \<Rightarrow> uuid \<Rightarrow> byte list \<Rightarrow> bool \<Rightarrow> public_key \<Rightarrow> u256 \<Rightarrow> string option \<Rightarrow> instant \<Rightarrow> challenge_book
     \<Rightarrow> (redemption_error, challenge) outcome \<times> challenge_book" where
  "issue_at_target W fresh nonce ok pubkey target prefix now book =
     (let c = challenge_issue W fresh nonce pubkey target prefix now
      in case save_faucet_challenge ok (cb_store book) c of
           None \<Rightarrow> (Err NotRecorded, book)
         | Some store \<Rightarrow>
             let by_id = (case cb_outstanding book (ch_pubkey c) of
                            None \<Rightarrow> cb_by_id book
                          | Some previous \<Rightarrow> (cb_by_id book)(previous := None))
             in (Ok c, book\<lparr>cb_store := store, cb_outstanding := (cb_outstanding book)(ch_pubkey c \<mapsto> ch_id c),
                             cb_by_id := by_id(ch_id c \<mapsto> c)\<rparr>))"

definition book_issue ::
  "wire \<Rightarrow> uuid \<Rightarrow> byte list \<Rightarrow> bool \<Rightarrow> public_key \<Rightarrow> instant \<Rightarrow> challenge_book
     \<Rightarrow> (redemption_error, challenge) outcome \<times> challenge_book" where
  "book_issue W fresh nonce ok pubkey now book = issue_at_target W fresh nonce ok pubkey (cb_target book) None now book"

definition redeem ::
  "prims \<Rightarrow> wire \<Rightarrow> bool \<Rightarrow> uuid \<Rightarrow> public_key \<Rightarrow> u64 \<Rightarrow> instant \<Rightarrow> challenge_book
     \<Rightarrow> (redemption_error, challenge) outcome \<times> challenge_book" where
  "redeem P W ok i pubkey solution now book =
     (case cb_by_id book i of
        None \<Rightarrow> (Err Unknown, book)
      | Some entry \<Rightarrow>
          with_check (validate P W entry pubkey solution now) book (\<lambda>_.
            let redeemed = entry\<lparr>ch_redeemed_at := Some (timestamp now)\<rparr>
            in case save_faucet_challenge ok (cb_store book) redeemed of
                 None \<Rightarrow> (Err NotRecorded, book)
               | Some store \<Rightarrow>
                   (Ok redeemed, book\<lparr>cb_store := store, cb_by_id := (cb_by_id book)(i \<mapsto> redeemed),
                      cb_outstanding := (cb_outstanding book)(ch_pubkey redeemed := None)\<rparr>)))"

definition network_of :: "challenge_book \<Rightarrow> uuid \<Rightarrow> string option" where
  "network_of book i = Option.bind (cb_by_id book i) ch_prefix"

definition check ::
  "prims \<Rightarrow> wire \<Rightarrow> uuid \<Rightarrow> public_key \<Rightarrow> u64 \<Rightarrow> instant \<Rightarrow> challenge_book \<Rightarrow> (redemption_error, unit) outcome" where
  "check P W i pubkey solution now book =
     (case cb_by_id book i of None \<Rightarrow> Err Unknown | Some entry \<Rightarrow> validate P W entry pubkey solution now)"

definition book_cleanup :: "bool \<Rightarrow> instant \<Rightarrow> challenge_book \<Rightarrow> challenge_book" where
  "book_cleanup ok now book =
     (let ts = timestamp now;
          by_id = (\<lambda>i. case cb_by_id book i of None \<Rightarrow> None | Some c \<Rightarrow> if ts \<le> challenge_horizon c then Some c else None);
          outstanding = (\<lambda>k. case cb_outstanding book k of None \<Rightarrow> None | Some i \<Rightarrow> if by_id i \<noteq> None then Some i else None)
      in book\<lparr>cb_by_id := by_id, cb_outstanding := outstanding,
              cb_store := map_option (\<lambda>table. if ok then prune_faucet_challenges table ts else table) (cb_store book)\<rparr>)"

subsection \<open>A book over the life of a hub\<close>

datatype pow_call =
    Issue uuid "byte list" bool public_key u256 "string option" instant
  | Redeem bool uuid public_key u64 instant
  | Pow_Sweep bool instant
  | Pow_Restart u256 instant

fun run_pow :: "prims \<Rightarrow> wire \<Rightarrow> pow_call \<Rightarrow> challenge_book \<Rightarrow> challenge_book" where
  "run_pow P W (Issue fresh nonce ok pubkey target prefix now) book =
     snd (issue_at_target W fresh nonce ok pubkey target prefix now book)"
| "run_pow P W (Redeem ok i pubkey solution now) book = snd (redeem P W ok i pubkey solution now book)"
| "run_pow P W (Pow_Sweep ok now) book = book_cleanup ok now book"
| "run_pow P W (Pow_Restart target now) book =
     (case cb_store book of None \<Rightarrow> book | Some table \<Rightarrow> book_restore table target now)"

fun issued :: "wire \<Rightarrow> pow_call list \<Rightarrow> challenge list" where
  "issued W [] = []"
| "issued W (Issue fresh nonce ok pubkey target prefix now # cs) =
     challenge_issue W fresh nonce pubkey target prefix now # issued W cs"
| "issued W (_ # cs) = issued W cs"

text \<open>Every redemption that succeeds: the challenge, with the key, the solution and the time.\<close>

fun redemption :: "prims \<Rightarrow> wire \<Rightarrow> pow_call \<Rightarrow> challenge_book \<Rightarrow> (challenge \<times> public_key \<times> u64 \<times> instant) list" where
  "redemption P W (Redeem ok i pubkey solution now) book =
     (case fst (redeem P W ok i pubkey solution now book) of Ok c \<Rightarrow> [(c, pubkey, solution, now)] | _ \<Rightarrow> [])"
| "redemption P W _ book = []"

fun redemptions :: "prims \<Rightarrow> wire \<Rightarrow> pow_call list \<Rightarrow> challenge_book \<Rightarrow> (challenge \<times> public_key \<times> u64 \<times> instant) list" where
  "redemptions P W [] book = []"
| "redemptions P W (c # cs) book = redemption P W c book @ redemptions P W cs (run_pow P W c book)"

definition as_issued :: "challenge \<Rightarrow> challenge" where
  "as_issued c = c\<lparr>ch_redeemed_at := None\<rparr>"

lemma as_issued_simps [simp]:
  "ch_id (as_issued c) = ch_id c" "as_issued (c\<lparr>ch_redeemed_at := x\<rparr>) = as_issued c"
  "as_issued (challenge_issue W fresh nonce pubkey target prefix now) = challenge_issue W fresh nonce pubkey target prefix now"
  by (simp_all add: as_issued_def challenge_issue_def)

text \<open>Everything a book holds, in memory or on disk, satisfies a predicate of id and challenge.\<close>

definition book_all :: "(uuid \<Rightarrow> challenge \<Rightarrow> bool) \<Rightarrow> challenge_book \<Rightarrow> bool" where
  "book_all Q book \<longleftrightarrow> (\<forall>i c. cb_by_id book i = Some c \<longrightarrow> Q i c)
     \<and> (\<forall>table. cb_store book = Some table \<longrightarrow> bm_wf table \<and> (\<forall>i c. bm_get table i = Some c \<longrightarrow> Q i c))"

lemma save_faucet_challenge_Some:
  assumes "save_faucet_challenge ok store c = Some store'"
  shows "(store = None \<and> store' = None) \<or> (\<exists>table. store = Some table \<and> store' = Some (bm_insert (ch_id c) c table))"
  using assms by (auto simp: save_faucet_challenge_def split: option.splits if_splits)

lemma book_all_issue:
  assumes "book_all Q book" "Q fresh (challenge_issue W fresh nonce pubkey target prefix now)"
  shows "book_all Q (snd (issue_at_target W fresh nonce ok pubkey target prefix now book))"
proof -
  let ?c = "challenge_issue W fresh nonce pubkey target prefix now"
  have [simp]: "ch_id ?c = fresh" by (simp add: challenge_issue_def)
  show ?thesis
  proof (cases "save_faucet_challenge ok (cb_store book) ?c")
    case (Some store)
    then show ?thesis using assms save_faucet_challenge_Some[OF Some]
      by (auto simp: issue_at_target_def Let_def book_all_def bm_get_insert split: option.splits if_splits)
  qed (use assms in \<open>simp add: issue_at_target_def Let_def\<close>)
qed

lemma redeem_cases:
  obtains (refused) "snd (redeem P W ok i pubkey solution now book) = book"
    "\<forall>c. fst (redeem P W ok i pubkey solution now book) \<noteq> Ok c"
  | (spent) entry store where "cb_by_id book i = Some entry" "validate P W entry pubkey solution now = Ok ()"
      "save_faucet_challenge ok (cb_store book) (entry\<lparr>ch_redeemed_at := Some (timestamp now)\<rparr>) = Some store"
      "redeem P W ok i pubkey solution now book =
        (Ok (entry\<lparr>ch_redeemed_at := Some (timestamp now)\<rparr>),
         book\<lparr>cb_store := store, cb_by_id := (cb_by_id book)(i \<mapsto> entry\<lparr>ch_redeemed_at := Some (timestamp now)\<rparr>),
              cb_outstanding := (cb_outstanding book)(ch_pubkey entry := None)\<rparr>)"
proof (cases "cb_by_id book i")
  case None
  then show ?thesis using refused by (simp add: redeem_def)
next
  case (Some entry)
  show ?thesis
  proof (cases "validate P W entry pubkey solution now")
    case (Ok u)
    then show ?thesis using refused spent Some
      by (cases "save_faucet_challenge ok (cb_store book) (entry\<lparr>ch_redeemed_at := Some (timestamp now)\<rparr>)")
        (simp_all add: redeem_def Let_def)
  qed (use refused Some in \<open>simp_all add: redeem_def\<close>)
qed

lemma book_all_redeem:
  assumes all: "book_all Q book"
    and next_one: "\<And>entry. cb_by_id book i = Some entry \<Longrightarrow> Q i entry \<Longrightarrow>
      ch_id entry = i \<and> Q i (entry\<lparr>ch_redeemed_at := Some (timestamp now)\<rparr>)"
  shows "book_all Q (snd (redeem P W ok i pubkey solution now book))"
proof (cases rule: redeem_cases[of P W ok i pubkey solution now book])
  case (spent entry store)
  have "Q i entry" using all spent(1) by (auto simp: book_all_def)
  then have "ch_id entry = i" "Q i (entry\<lparr>ch_redeemed_at := Some (timestamp now)\<rparr>)" using next_one[OF spent(1)] by auto
  then show ?thesis using all spent(4) save_faucet_challenge_Some[OF spent(3)]
    by (auto simp: book_all_def bm_get_insert split: if_splits)
qed (use all in simp)

lemma prune_fold:
  assumes "bm_wf table"
  shows "bm_wf (fold (\<lambda>c. bm_remove (ch_id c)) cs table)"
    and "bm_get (fold (\<lambda>c. bm_remove (ch_id c)) cs table) i = Some c \<Longrightarrow> bm_get table i = Some c"
  using assms
proof (induction cs arbitrary: table)
  case (Cons d cs)
  {
    case 1
    then show ?case using Cons(1)[of "bm_remove (ch_id d) table"] by simp
  next
    case 2
    then have "bm_get (bm_remove (ch_id d) table) i = Some c" using Cons(2)[of "bm_remove (ch_id d) table"] by simp
    then show ?case by (auto simp: bm_get_remove split: if_splits)
  }
qed auto

lemmas prune_get = prune_fold[where cs = "filter (\<lambda>c. t > challenge_horizon c) (load_all_faucet_challenges table)" and table = table for t table,
    folded prune_faucet_challenges_def]

lemma book_all_cleanup:
  assumes "book_all Q book"
  shows "book_all Q (book_cleanup ok now book)"
proof -
  have "Q i c" if "cb_by_id (book_cleanup ok now book) i = Some c" for i c
    using assms that by (auto simp: book_all_def book_cleanup_def Let_def split: option.splits if_splits)
  moreover have "bm_wf table \<and> (\<forall>i c. bm_get table i = Some c \<longrightarrow> Q i c)" if store: "cb_store (book_cleanup ok now book) = Some table" for table
  proof -
    obtain old where old: "cb_store book = Some old" "table = (if ok then prune_faucet_challenges old (timestamp now) else old)"
      using store by (auto simp: book_cleanup_def Let_def)
    then have "bm_wf old" "\<And>i c. bm_get old i = Some c \<Longrightarrow> Q i c" using assms by (auto simp: book_all_def)
    then show ?thesis using old(2) prune_get[of old] by (auto split: if_splits)
  qed
  ultimately show ?thesis unfolding book_all_def by blast
qed

lemma restore_fold_by_id:
  "cb_by_id (fold (restore_challenge now) cs book) i = Some c \<Longrightarrow> cb_by_id book i = Some c \<or> (c \<in> set cs \<and> ch_id c = i)"
  by (induction cs arbitrary: book) (fastforce simp: restore_challenge_def split: if_splits)+

lemma restore_fold_store [simp]: "cb_store (fold (restore_challenge now) cs book) = cb_store book"
  by (induction cs arbitrary: book) (auto simp: restore_challenge_def)

lemma book_all_restore:
  assumes "book_all Q book" "cb_store book = Some table" "\<And>i c. bm_get table i = Some c \<Longrightarrow> ch_id c = i"
  shows "book_all Q (book_restore table target now)"
proof -
  have "Q i c" if "cb_by_id (book_restore table target now) i = Some c" for i c
  proof -
    have c: "c \<in> set (bm_values table)" "ch_id c = i"
      using restore_fold_by_id[OF that[unfolded book_restore_def load_all_faucet_challenges_def]] by auto
    then obtain j where j: "bm_get table j = Some c" using assms(1,2) by (auto simp: bm_values_iff book_all_def)
    then show ?thesis using assms c(2) by (auto simp: book_all_def)
  qed
  then show ?thesis using assms(1,2) by (auto simp: book_all_def book_restore_def)
qed

subsection \<open>A challenge is spent once\<close>

text \<open>What a book may hold when the challenges \<open>C\<close> have been issued and the ids \<open>R\<close> redeemed.\<close>

definition accounted :: "challenge set \<Rightarrow> uuid set \<Rightarrow> uuid \<Rightarrow> challenge \<Rightarrow> bool" where
  "accounted C R i c \<longleftrightarrow> ch_id c = i \<and> as_issued c \<in> C \<and> (i \<in> R \<longrightarrow> is_redeemed c)"

lemma book_all_mono: "book_all Q book \<Longrightarrow> (\<And>i c. Q i c \<Longrightarrow> Q' i c) \<Longrightarrow> book_all Q' book"
  by (auto simp: book_all_def)

lemma validate_Ok:
  "validate P W c pubkey solution now = Ok () \<longleftrightarrow> ch_pubkey c = pubkey_to_string W pubkey \<and> \<not> is_redeemed c
     \<and> timestamp now \<le> ch_expires_at c \<and> is_solved_by P W c solution"
  by (auto simp: validate_def is_expired_at_def)

text \<open>What a redemption that succeeds was: an issued challenge, its own key, in time, solved, and not spent before.\<close>

definition earned :: "prims \<Rightarrow> wire \<Rightarrow> challenge set \<Rightarrow> challenge \<times> public_key \<times> u64 \<times> instant \<Rightarrow> bool" where
  "earned P W C r = (case r of (c, pubkey, solution, now) \<Rightarrow>
     as_issued c \<in> C \<and> ch_pubkey c = pubkey_to_string W pubkey \<and> timestamp now \<le> ch_expires_at c
     \<and> is_solved_by P W (as_issued c) solution)"

lemma redemption_earned:
  assumes "book_all (accounted C R) book" "r \<in> set (redemption P W c book)"
  shows "earned P W C r" "ch_id (fst r) \<notin> R"
proof -
  obtain ok i pubkey solution now where c: "c = Redeem ok i pubkey solution now"
    using assms(2) by (cases c) auto
  have *: "earned P W C r \<and> ch_id (fst r) \<notin> R"
  proof (cases rule: redeem_cases[of P W ok i pubkey solution now book])
    case (spent entry store)
    then have "accounted C R i entry" using assms(1) by (simp add: book_all_def)
    moreover have "r = (entry\<lparr>ch_redeemed_at := Some (timestamp now)\<rparr>, pubkey, solution, now)"
      using assms(2) spent(4) c by simp
    ultimately show ?thesis using spent(2) unfolding validate_Ok
      by (auto simp: earned_def accounted_def is_solved_by_def as_issued_def preimage_def)
  next
    case refused
    then have "redemption P W c book = []"
      using c by (cases "fst (redeem P W ok i pubkey solution now book)") auto
    then show ?thesis using assms(2) by simp
  qed
  then show "earned P W C r" "ch_id (fst r) \<notin> R" by auto
qed

lemma run_pow_accounted:
  assumes "book_all (accounted C R) book" "R \<inter> ch_id ` set (issued W [c]) = {}"
  shows "book_all (accounted (C \<union> set (issued W [c])) (R \<union> ch_id ` fst ` set (redemption P W c book))) (run_pow P W c book)"
proof (cases c)
  case (Issue fresh nonce ok pubkey target prefix now)
  have "fresh \<notin> R" using assms(2) Issue by (simp add: challenge_issue_def)
  then have new: "accounted (C \<union> set (issued W [c])) R fresh (challenge_issue W fresh nonce pubkey target prefix now)"
    using Issue by (simp add: accounted_def) (simp add: challenge_issue_def)
  have "book_all (accounted (C \<union> set (issued W [c])) R) book"
    using assms(1) by (rule book_all_mono) (auto simp: accounted_def)
  then show ?thesis using book_all_issue[where Q = "accounted (C \<union> set (issued W [c])) R", OF _ new] Issue by simp
next
  case (Redeem ok i pubkey solution now)
  show ?thesis
  proof (cases rule: redeem_cases[of P W ok i pubkey solution now book])
    case (spent entry store)
    let ?c = "entry\<lparr>ch_redeemed_at := Some (timestamp now)\<rparr>"
    have old: "accounted C R i entry" using assms(1) spent(1) by (simp add: book_all_def)
    then have ids: "ch_id entry = i" by (simp add: accounted_def)
    have finished: "accounted C (insert i R) i ?c" using old by (simp add: accounted_def is_redeemed_def)
    have others: "accounted C (insert i R) j d" if "accounted C R j d" "j \<noteq> i" for j d
      using that by (auto simp: accounted_def)
    have "book_all (accounted C (insert i R)) (snd (redeem P W ok i pubkey solution now book))"
      using assms(1) spent(4) save_faucet_challenge_Some[OF spent(3)] finished others ids
      by (auto simp: book_all_def bm_get_insert split: if_splits)
    then show ?thesis using spent(4) Redeem ids by simp
  next
    case refused
    have "redemption P W c book = []" using refused(2) Redeem by (cases "fst (redeem P W ok i pubkey solution now book)") auto
    then show ?thesis using refused(1) Redeem assms(1) by simp
  qed
next
  case (Pow_Sweep ok now)
  then show ?thesis using assms(1) book_all_cleanup by simp
next
  case (Pow_Restart target now)
  have "ch_id d = i" if "cb_store book = Some table" "bm_get table i = Some d" for table i d
    using assms(1) that by (auto simp: book_all_def accounted_def)
  then show ?thesis using Pow_Restart assms(1) book_all_restore[OF assms(1)]
    by (auto split: option.splits)
qed

lemma issued_Cons: "issued W (c # cs) = issued W [c] @ issued W cs"
  by (cases c) auto

lemma redemptions_earned:
  assumes "book_all (accounted C R) book" and "(R \<union> ch_id ` C) \<inter> ch_id ` set (issued W cs) = {}"
    and "distinct (map ch_id (issued W cs))"
  shows "distinct (map (ch_id \<circ> fst) (redemptions P W cs book))
    \<and> (\<forall>r \<in> set (redemptions P W cs book). earned P W (C \<union> set (issued W cs)) r \<and> ch_id (fst r) \<notin> R)"
  using assms
proof (induction cs arbitrary: C R book)
  case (Cons c cs)
  let ?C = "C \<union> set (issued W [c])" and ?R = "R \<union> ch_id ` fst ` set (redemption P W c book)"
  note split = issued_Cons[of W c cs]
  have step: "book_all (accounted ?C ?R) (run_pow P W c book)"
    using run_pow_accounted[OF Cons.prems(1), of W c P] Cons.prems(2) split by auto
  have now: "earned P W C r" "ch_id (fst r) \<notin> R" if "r \<in> set (redemption P W c book)" for r
    using redemption_earned[OF Cons.prems(1) that] by auto
  then have "ch_id ` fst ` set (redemption P W c book) \<subseteq> ch_id ` C"
    by (fastforce simp: earned_def split: prod.splits intro: rev_image_eqI)
  then have "(?R \<union> ch_id ` ?C) \<inter> ch_id ` set (issued W cs) = {}"
    using Cons.prems(2,3) unfolding split by auto
  then have disjoint: "(?R \<union> ch_id ` ?C) \<inter> ch_id ` set (issued W cs) = {}" .
  have "distinct (map ch_id (issued W cs))" using Cons.prems(3) unfolding split by simp
  from Cons.IH[OF step disjoint this] have later: "distinct (map (ch_id \<circ> fst) (redemptions P W cs (run_pow P W c book)))
    \<and> (\<forall>r \<in> set (redemptions P W cs (run_pow P W c book)). earned P W (?C \<union> set (issued W cs)) r \<and> ch_id (fst r) \<notin> ?R)"
    .
  have one: "distinct (map (ch_id \<circ> fst) (redemption P W c book))" by (cases c) (auto split: outcome.splits)
  have "earned P W (C \<union> set (issued W (c # cs))) r" if "earned P W (?C \<union> set (issued W cs)) r \<or> earned P W C r" for r
    using that unfolding split by (auto simp: earned_def)
  then have "\<forall>r \<in> set (redemptions P W (c # cs) book). earned P W (C \<union> set (issued W (c # cs))) r \<and> ch_id (fst r) \<notin> R"
    using later now by (auto simp del: issued.simps)
  moreover have "(ch_id \<circ> fst) ` set (redemption P W c book) \<inter> (ch_id \<circ> fst) ` set (redemptions P W cs (run_pow P W c book)) = {}"
  proof -
    have "(ch_id \<circ> fst) r \<notin> (ch_id \<circ> fst) ` set (redemption P W c book)"
      if "r \<in> set (redemptions P W cs (run_pow P W c book))" for r
      using later that by (simp add: image_comp)
    then show ?thesis by (simp only: disjoint_iff image_iff) metis
  qed
  ultimately show ?case using later one by (simp add: comp_def)
qed simp

text \<open>
  C25: A faucet challenge is spent at most once, over any run of the hub with sweeps, failed writes
  and restarts, and only by the key it was issued to, before it expires, with a solution that
  meets the target it was issued at.  The random ids of the challenges are assumed distinct.
\<close>

theorem challenge_redeemed_once:
  assumes "distinct (map ch_id (issued W cs))"
  shows "distinct (map (ch_id \<circ> fst) (redemptions P W cs (book_restore [] target start)))
    \<and> (\<forall>(c, pubkey, solution, now) \<in> set (redemptions P W cs (book_restore [] target start)).
         as_issued c \<in> set (issued W cs) \<and> ch_pubkey c = pubkey_to_string W pubkey \<and> timestamp now \<le> ch_expires_at c
         \<and> is_solved_by P W (as_issued c) solution)"
proof -
  have "book_all (accounted {} {}) (book_restore [] target start)"
    by (simp add: book_all_def book_restore_def load_all_faucet_challenges_def bm_values_def)
  from redemptions_earned[OF this _ assms, of P] show ?thesis by (fastforce simp: earned_def)
qed

end
