(* ===== verification/Hub_Wallet.thy ===== *)
theory Hub_Wallet
  imports Hub_Payments
begin

text \<open>
  Building a transaction: the selection and signing of \<open>lib/src/payment.rs\<close>, the order in which
  \<open>hub/src/operator_wallet.rs\<close> offers the outputs and the plan by which it reshapes a wallet, and
  the callers in \<open>hub/src/handlers.rs\<close> that read the node, reserve what is spoken for and build
  (\<open>build_payment_from\<close>, \<open>maintain_wallet\<close>).  The outputs a node reports are a list of pairs of
  the mempool mark and the output; \<open>fresh\<close> supplies the random unique ids.
\<close>

type_synonym utxo_list = "(bool \<times> transaction_output) list"

subsection \<open>Selecting and signing\<close>

datatype build_error = InsufficientFunds u64 u64 | FetchFailed

definition sum_u64 :: "u64 list \<Rightarrow> ('e, u64) outcome" where
  "sum_u64 xs = expect (checked_sum 0 xs)"

fun select_inputs ::
  "prims \<Rightarrow> u64 \<Rightarrow> utxo_list \<Rightarrow> hash list \<Rightarrow> u64 \<Rightarrow> (build_error, hash list \<times> u64) outcome" where
  "select_inputs P total_needed [] selected input_sum = Ok (selected, input_sum)"
| "select_inputs P total_needed ((marked, utxo) # utxos) selected input_sum =
     (if input_sum \<ge> total_needed then Ok (selected, input_sum)
      else if marked then select_inputs P total_needed utxos selected input_sum
      else obind (plus_u input_sum (txo_value utxo)) (\<lambda>s.
             select_inputs P total_needed utxos (selected @ [output_hash P utxo]) s))"

definition payment_outputs ::
  "(nat \<Rightarrow> uuid) \<Rightarrow> (public_key \<times> u64) list \<Rightarrow> u64 \<Rightarrow> u64 \<Rightarrow> public_key \<Rightarrow> transaction_output list" where
  "payment_outputs fresh recipients input_sum total_needed change_pubkey =
     map (\<lambda>(i, recipient, amount). \<lparr>txo_value = amount, txo_unique_id = fresh i, txo_pubkey = recipient\<rparr>)
       (enumerate 0 recipients)
     @ (if input_sum > total_needed
        then [\<lparr>txo_value = input_sum - total_needed, txo_unique_id = fresh (length recipients), txo_pubkey = change_pubkey\<rparr>]
        else [])"

definition build_multi_payment ::
  "prims \<Rightarrow> (nat \<Rightarrow> uuid) \<Rightarrow> utxo_list \<Rightarrow> private_key \<Rightarrow> (public_key \<times> u64) list \<Rightarrow> u64 \<Rightarrow> public_key
     \<Rightarrow> (build_error, transaction) outcome" where
  "build_multi_payment P fresh available_utxos signing_key recipients fee change_pubkey =
     obind (sum_u64 (map snd recipients)) (\<lambda>recipients_total.
     obind (plus_u recipients_total fee) (\<lambda>total_needed.
     obind (select_inputs P total_needed available_utxos [] 0) (\<lambda>(selected, input_sum).
       if input_sum < total_needed then Err (InsufficientFunds input_sum total_needed)
       else
         let outputs = payment_outputs fresh recipients input_sum total_needed change_pubkey
         in Ok \<lparr>tx_inputs = map (\<lambda>h. signed_input P h outputs signing_key) selected, tx_outputs = outputs\<rparr>)))"

definition build_payment ::
  "prims \<Rightarrow> (nat \<Rightarrow> uuid) \<Rightarrow> utxo_list \<Rightarrow> private_key \<Rightarrow> public_key \<Rightarrow> u64 \<Rightarrow> u64 \<Rightarrow> public_key
     \<Rightarrow> (build_error, transaction) outcome" where
  "build_payment P fresh available_utxos signing_key recipient amount fee change_pubkey =
     build_multi_payment P fresh available_utxos signing_key [(recipient, amount)] fee change_pubkey"

subsection \<open>Which outputs are offered first\<close>

definition MIN_USEFUL_OUTPUT :: u64 where "MIN_USEFUL_OUTPUT = 100000000"

definition largest_first :: "bool \<times> transaction_output \<Rightarrow> int \<times> int" where
  "largest_first u = (- uint (txo_value (snd u)), uint (txo_unique_id (snd u)))"

definition smallest_first :: "bool \<times> transaction_output \<Rightarrow> int \<times> int" where
  "smallest_first u = (uint (txo_value (snd u)), uint (txo_unique_id (snd u)))"

text \<open>\<open>min_by_key\<close> takes the first least element.\<close>

fun min_index :: "('a \<Rightarrow> 'k::linorder) \<Rightarrow> (nat \<times> 'a) list \<Rightarrow> nat option" where
  "min_index key [] = None"
| "min_index key [(i, x)] = Some i"
| "min_index key ((i, x) # (j, y) # rest) =
     (if key y < key x then min_index key ((j, y) # rest) else min_index key ((i, x) # rest))"

definition ordered_for_payment :: "utxo_list \<Rightarrow> u64 \<Rightarrow> utxo_list" where
  "ordered_for_payment utxos total_needed =
     (let ordered = sort_key largest_first utxos;
          covering = filter (\<lambda>(_, marked, o'). \<not> marked \<and> txo_value o' \<ge> total_needed) (enumerate 0 ordered)
      in case min_index smallest_first covering of
           None \<Rightarrow> ordered
         | Some i \<Rightarrow> ordered ! i # take i ordered @ drop (Suc i) ordered)"

definition ready_outputs :: "utxo_list \<Rightarrow> nat" where
  "ready_outputs utxos = length (filter (\<lambda>(marked, o'). \<not> marked \<and> txo_value o' \<ge> MIN_USEFUL_OUTPUT) utxos)"

subsection \<open>Reshaping a wallet\<close>

record reshape =
  rs_inputs :: "transaction_output list"
  rs_shares :: "u64 list"

definition spendable :: "u64 \<Rightarrow> transaction_output list \<Rightarrow> (build_error, u64) outcome" where
  "spendable fee outputs = obind (sum_u64 (map txo_value outputs)) (\<lambda>s. Ok (saturating_sub s fee))"

definition cut :: "u64 \<Rightarrow> transaction_output list \<Rightarrow> nat \<Rightarrow> (build_error, reshape) outcome" where
  "cut fee inputs pieces =
     obind (spendable fee inputs) (\<lambda>total.
       let share = total div of_nat pieces
       in Ok \<lparr>rs_inputs = inputs,
              rs_shares = (replicate pieces share)[pieces - 1 := total - share * (of_nat pieces - 1)]\<rparr>)"

definition dust_outputs :: "utxo_list \<Rightarrow> transaction_output list" where
  "dust_outputs utxos = map snd (filter (\<lambda>(marked, o'). \<not> marked \<and> txo_value o' < MIN_USEFUL_OUTPUT) utxos)"

text \<open>\<open>max_by_key\<close> takes the last greatest element.\<close>

fun max_output :: "transaction_output list \<Rightarrow> transaction_output option" where
  "max_output [] = None"
| "max_output [o'] = Some o'"
| "max_output (a # b # rest) =
     (if smallest_first (True, a) \<le> smallest_first (True, b) then max_output (b # rest) else max_output (a # rest))"

definition plan_reshape :: "utxo_list \<Rightarrow> u64 \<Rightarrow> nat \<Rightarrow> (build_error, reshape option) outcome" where
  "plan_reshape utxos fee floor =
     (let ready = ready_outputs utxos
      in if ready \<ge> floor then Ok None
         else
           let wanted = floor - ready; dust = dust_outputs utxos
           in obind (spendable fee dust) (\<lambda>dusty.
              let from_dust = unat (dusty div MIN_USEFUL_OUTPUT)
              in if from_dust \<ge> 1 then obind (cut fee dust (min wanted from_dust)) (\<lambda>r. Ok (Some r))
                 else case max_output (map snd (filter (\<lambda>(marked, o'). \<not> marked \<and> txo_value o' \<ge> MIN_USEFUL_OUTPUT) utxos)) of
                   None \<Rightarrow> Ok None
                 | Some largest \<Rightarrow>
                     obind (spendable fee (largest # dust)) (\<lambda>total.
                       let pieces = min (wanted + 1) (unat (total div MIN_USEFUL_OUTPUT))
                       in if pieces < 2 then Ok None
                          else obind (cut fee (largest # dust) pieces) (\<lambda>r. Ok (Some r)))))"

subsection \<open>The hub's builders\<close>

text \<open>\<open>fetched\<close> is the node's reply.\<close>

definition build_payment_from ::
  "prims \<Rightarrow> (nat \<Rightarrow> uuid) \<Rightarrow> utxo_list option \<Rightarrow> task_board \<Rightarrow> private_key \<Rightarrow> public_key
     \<Rightarrow> (public_key \<times> u64) list \<Rightarrow> public_key \<Rightarrow> (uuid \<times> public_key) list \<Rightarrow> (build_error, transaction) outcome" where
  "build_payment_from P fresh fetched b signing_key source_pubkey recipients change_pubkey rebuilding =
     (case fetched of
        None \<Rightarrow> Err FetchFailed
      | Some utxos \<Rightarrow>
          let utxos = reserve_inputs P source_pubkey rebuilding b utxos
          in obind (sum_u64 (map snd recipients)) (\<lambda>s.
             obind (plus_u s HUB_TRANSACTION_FEE) (\<lambda>total_needed.
               build_multi_payment P fresh (ordered_for_payment utxos total_needed) signing_key recipients
                 HUB_TRANSACTION_FEE change_pubkey)))"

definition build_payment_from_fresh ::
  "prims \<Rightarrow> (nat \<Rightarrow> uuid) \<Rightarrow> utxo_list option \<Rightarrow> task_board \<Rightarrow> private_key \<Rightarrow> public_key
     \<Rightarrow> (public_key \<times> u64) list \<Rightarrow> public_key \<Rightarrow> (build_error, transaction) outcome" where
  "build_payment_from_fresh P fresh fetched b signing_key source_pubkey recipients change_pubkey =
     build_payment_from P fresh fetched b signing_key source_pubkey recipients change_pubkey []"

record wallet =
  wl_custody :: bool
  wl_public_key :: public_key
  wl_private_key :: private_key
  wl_inflight :: "hash list"

definition withdrawal_reserved :: "payment \<Rightarrow> nat" where
  "withdrawal_reserved p =
     (if py_status p \<noteq> PayConfirmed then (case py_purpose p of PayWithdrawal debited \<Rightarrow> unat debited | _ \<Rightarrow> 0) else 0)"

text \<open>The custody check sums in \<open>u128\<close>, which a list of that many \<open>u64\<close> values cannot overflow.\<close>

definition custody_backed :: "utxo_list \<Rightarrow> task_board \<Rightarrow> bool" where
  "custody_backed utxos b \<longleftrightarrow>
     bm_total (\<lambda>a. unat (ex_base_balance a)) (bd_exchange_accounts b)
       + bm_total withdrawal_reserved (bd_payments b) + unat HUB_TRANSACTION_FEE
     \<le> sum_list (map (\<lambda>(_, o'). unat (txo_value o')) utxos)"

text \<open>
  What one pass sends, and the wallet after it: \<open>inflight\<close> is cleared once none of its inputs is
  marked any more, and set before the send.
\<close>

definition maintain_wallet ::
  "prims \<Rightarrow> (nat \<Rightarrow> uuid) \<Rightarrow> utxo_list option \<Rightarrow> nat \<Rightarrow> task_board \<Rightarrow> wallet
     \<Rightarrow> (build_error, transaction option) outcome \<times> wallet" where
  "maintain_wallet P fresh fetched operator_wallet_outputs b w =
     (case fetched of
        None \<Rightarrow> (Ok None, w)
      | Some utxos \<Rightarrow>
          if wl_custody w \<and> \<not> custody_backed utxos b then (Ok None, w)
          else
            let utxos = reserve_inputs P (wl_public_key w) [] b utxos
            in if list_ex (\<lambda>(marked, o'). marked \<and> output_hash P o' \<in> set (wl_inflight w)) utxos then (Ok None, w)
               else
                 let w = w\<lparr>wl_inflight := []\<rparr>
                 in with_check (plan_reshape utxos HUB_TRANSACTION_FEE operator_wallet_outputs) w (\<lambda>plan.
                      case plan of
                        None \<Rightarrow> (Ok None, w)
                      | Some r \<Rightarrow>
                          (case build_multi_payment P fresh (map (\<lambda>o'. (False, o')) (rs_inputs r)) (wl_private_key w)
                                  (map (\<lambda>share. (wl_public_key w, share)) (rs_shares r)) HUB_TRANSACTION_FEE (wl_public_key w) of
                             Ok tx \<Rightarrow> (Ok (Some tx), w\<lparr>wl_inflight := map txi_prev_output_hash (tx_inputs tx)\<rparr>)
                           | Err _ \<Rightarrow> (Ok None, w)
                           | Panic \<Rightarrow> (Panic, w)
                           | Cutoff \<Rightarrow> (Cutoff, w))))"

subsection \<open>What is selected\<close>

abbreviation free_outputs :: "utxo_list \<Rightarrow> transaction_output list" where
  "free_outputs utxos \<equiv> map snd (filter (\<lambda>u. \<not> fst u) utxos)"

abbreviation value_of :: "transaction_output list \<Rightarrow> nat" where
  "value_of outputs \<equiv> sum_list (map (\<lambda>o'. unat (txo_value o')) outputs)"

lemma sum_u64_Ok: "sum_u64 xs = Ok s \<Longrightarrow> unat s = sum_list (map unat xs)"
  by (auto simp: sum_u64_def outcome_simps dest: checked_sum_Some)

lemma sum_u64_fits: "sum_list (map unat xs) < 2 ^ 64 \<Longrightarrow> \<exists>s. sum_u64 xs = Ok s \<and> unat s = sum_list (map unat xs)"
  by (auto simp: sum_u64_def checked_sum_eq unat_of_nat_less)

text \<open>The walk takes a prefix of the free outputs, and all of them when they do not suffice.\<close>

lemma select_inputs_spec:
  assumes "select_inputs P needed us selected s = Ok (hs, got)"
  shows "\<exists>k. hs = selected @ map (output_hash P) (take k (free_outputs us))
    \<and> unat got = unat s + value_of (take k (free_outputs us))
    \<and> (got < needed \<longrightarrow> value_of (take k (free_outputs us)) = value_of (free_outputs us))
    \<and> (k = 0 \<or> unat s + value_of (take (k - 1) (free_outputs us)) < unat needed)"
  using assms
proof (induction P needed us selected s rule: select_inputs.induct)
  case (1 P needed selected s)
  then show ?case by (auto intro: exI[of _ 0])
next
  case (2 P needed marked utxo us selected s)
  show ?case
  proof (cases "s \<ge> needed")
    case True
    then show ?thesis using 2(3) by (auto intro: exI[of _ 0])
  next
    case short: False
    show ?thesis
    proof (cases marked)
      case True
      then show ?thesis using 2(1,3) short by auto
    next
      case False
      obtain s' where s': "plus_u s (txo_value utxo) = Ok s'" "unat s' = unat s + unat (txo_value utxo)"
        and rest: "select_inputs P needed us (selected @ [output_hash P utxo]) s' = Ok (hs, got)"
        using 2(3) short False by (auto simp: outcome_simps plus_u_Ok unat_add_less)
      obtain k where k: "hs = (selected @ [output_hash P utxo]) @ map (output_hash P) (take k (free_outputs us))"
        "unat got = unat s' + value_of (take k (free_outputs us))"
        "got < needed \<longrightarrow> value_of (take k (free_outputs us)) = value_of (free_outputs us)"
        "k = 0 \<or> unat s' + value_of (take (k - 1) (free_outputs us)) < unat needed"
        using 2(2)[OF short False rest] by blast
      have "unat s < unat needed" using short by (simp add: word_le_nat_alt)
      then show ?thesis using k s'(2) False by (intro exI[of _ "Suc k"]) (cases k; simp)
    qed
  qed
qed

lemma select_inputs_returns:
  assumes "unat s + value_of (free_outputs us) < 2 ^ 64"
  shows "\<exists>hs got. select_inputs P needed us selected s = Ok (hs, got)"
  using assms
proof (induction P needed us selected s rule: select_inputs.induct)
  case (2 P needed marked utxo us selected s)
  then show ?case by (cases marked) (auto simp: plus_u_fits unat_add_less)
qed simp

lemma outputs_paid:
  "map (\<lambda>o'. (txo_pubkey o', txo_value o')) (payment_outputs fresh recipients input_sum needed change) =
     recipients @ (if input_sum > needed then [(change, input_sum - needed)] else [])"
proof -
  have "map (\<lambda>(i, r, a). (r, a)) (enumerate n recipients) = recipients" for n
    by (induction recipients arbitrary: n) auto
  then show ?thesis by (simp add: payment_outputs_def comp_def case_prod_beta)
qed

lemma outputs_value:
  assumes "unat needed = sum_list (map (unat \<circ> snd) recipients) + unat fee" "needed \<le> input_sum"
  shows "value_of (payment_outputs fresh recipients input_sum needed change) + unat fee = unat input_sum"
proof -
  have "value_of (payment_outputs fresh recipients input_sum needed change)
      = sum_list (map (unat \<circ> snd) (map (\<lambda>o'. (txo_pubkey o', txo_value o')) (payment_outputs fresh recipients input_sum needed change)))"
    by (simp add: comp_def)
  also have "\<dots> = sum_list (map (unat \<circ> snd) recipients) + (if input_sum > needed then unat (input_sum - needed) else 0)"
    unfolding outputs_paid by simp
  finally show ?thesis using assms by (auto simp: unat_sub word_less_nat_alt word_le_nat_alt)
qed

lemma build_multi_payment_spec:
  assumes "build_multi_payment P fresh us key recipients fee change = Ok tx"
  shows "\<exists>k. map txi_prev_output_hash (tx_inputs tx) = map (output_hash P) (take k (free_outputs us))
    \<and> value_of (take k (free_outputs us)) = value_of (tx_outputs tx) + unat fee
    \<and> (k = 0 \<or> value_of (take (k - 1) (free_outputs us)) < sum_list (map (unat \<circ> snd) recipients) + unat fee)
    \<and> take (length recipients) (map (\<lambda>o'. (txo_pubkey o', txo_value o')) (tx_outputs tx)) = recipients
    \<and> (\<forall>o' \<in> set (drop (length recipients) (tx_outputs tx)). txo_pubkey o' = change \<and> 0 < unat (txo_value o'))
    \<and> (\<forall>i \<in> set (tx_inputs tx). i = signed_input P (txi_prev_output_hash i) (tx_outputs tx) key)"
proof -
  obtain s needed hs got where s: "sum_u64 (map snd recipients) = (Ok s :: (build_error, u64) outcome)"
    and n: "plus_u s fee = (Ok needed :: (build_error, u64) outcome)"
    and sel: "select_inputs P needed us [] 0 = Ok (hs, got)" and enough: "\<not> got < needed"
    and tx: "tx = \<lparr>tx_inputs = map (\<lambda>h. signed_input P h (payment_outputs fresh recipients got needed change) key) hs,
                    tx_outputs = payment_outputs fresh recipients got needed change\<rparr>"
    using assms by (auto simp: build_multi_payment_def outcome_simps Let_def split: if_splits)
  have needed: "unat needed = sum_list (map (unat \<circ> snd) recipients) + unat fee"
    using sum_u64_Ok[OF s] n by (simp add: plus_u_Ok unat_add_less)
  obtain k where k: "hs = map (output_hash P) (take k (free_outputs us))"
    "unat got = value_of (take k (free_outputs us))"
    "k = 0 \<or> value_of (take (k - 1) (free_outputs us)) < unat needed"
    using select_inputs_spec[OF sel] by auto
  let ?outs = "payment_outputs fresh recipients got needed change"
  have paid: "map (\<lambda>o'. (txo_pubkey o', txo_value o')) ?outs
      = recipients @ (if got > needed then [(change, got - needed)] else [])" by (rule outputs_paid)
  have "map (\<lambda>o'. (txo_pubkey o', txo_value o')) (drop (length recipients) ?outs)
      = (if got > needed then [(change, got - needed)] else [])"
    using arg_cong[OF paid, of "drop (length recipients)"] by (simp add: drop_map)
  then have "\<forall>x \<in> set (map (\<lambda>o'. (txo_pubkey o', txo_value o')) (drop (length recipients) ?outs)).
      fst x = change \<and> 0 < unat (snd x)"
    by (auto simp: unat_gt_0 word_less_nat_alt)
  then have "\<forall>o' \<in> set (drop (length recipients) ?outs). txo_pubkey o' = change \<and> 0 < unat (txo_value o')" by auto
  moreover have "value_of ?outs + unat fee = unat got"
    using outputs_value[OF needed] enough by simp
  ultimately show ?thesis using k needed paid tx by (intro exI[of _ k]) (auto simp: signed_input_def comp_def)
qed

subsection \<open>What is offered\<close>

lemma min_index_Some:
  "min_index key xs = Some i \<Longrightarrow> \<exists>x. (i, x) \<in> set xs \<and> (\<forall>(j, y) \<in> set xs. key x \<le> key y)"
proof (induction key xs rule: min_index.induct)
  case (3 key i' x j y rest)
  show ?case
  proof (cases "key y < key x")
    case True
    then obtain z where "(i, z) \<in> set ((j, y) # rest)" "\<forall>(j', y') \<in> set ((j, y) # rest). key z \<le> key y'"
      using 3 by auto
    then show ?thesis using True by (intro exI[of _ z]) auto
  next
    case False
    then obtain z where "(i, z) \<in> set ((i', x) # rest)" "\<forall>(j', y') \<in> set ((i', x) # rest). key z \<le> key y'"
      using 3 by auto
    then show ?thesis using False by (intro exI[of _ z]) auto
  qed
qed auto

lemma min_index_None: "min_index key xs = None \<longleftrightarrow> xs = []"
  by (induction key xs rule: min_index.induct) auto

lemma mset_move_front:
  assumes "i < length xs"
  shows "mset (xs ! i # take i xs @ drop (Suc i) xs) = mset xs"
proof -
  have "mset xs = mset (take i xs) + add_mset (xs ! i) (mset (drop (Suc i) xs))"
    using arg_cong[OF id_take_nth_drop[OF assms], of mset] by (simp only: mset_append mset.simps(2))
  also have "\<dots> = mset (xs ! i # take i xs @ drop (Suc i) xs)" by simp
  finally show ?thesis by (rule sym)
qed

lemma ordered_mset: "mset (ordered_for_payment us needed) = mset us"
proof -
  let ?ordered = "sort_key largest_first us"
  have "i < length ?ordered" if "(i, x) \<in> set (enumerate 0 ?ordered)" for i x
    using that by (simp add: in_set_enumerate_eq)
  then show ?thesis unfolding ordered_for_payment_def Let_def
    by (fastforce split: option.split dest!: min_index_Some simp: mset_move_front simp del: mset.simps(2))
qed

lemma ordered_free: "set (free_outputs (ordered_for_payment us needed)) = set (free_outputs us)"
  using mset_eq_setD[OF ordered_mset] by auto

text \<open>When one free output covers the payment, the smallest such one is offered first.\<close>

lemma ordered_best_fit:
  assumes "o' \<in> set (free_outputs us)" "needed \<le> txo_value o'"
  obtains best rest where "free_outputs (ordered_for_payment us needed) = best # rest" "needed \<le> txo_value best"
    "\<forall>o' \<in> set (free_outputs us). needed \<le> txo_value o' \<longrightarrow> txo_value best \<le> txo_value o'"
proof -
  let ?ordered = "sort_key largest_first us"
  let ?covering = "filter (\<lambda>(_, marked, o'). \<not> marked \<and> txo_value o' \<ge> needed) (enumerate 0 ?ordered)"
  have cov: "(\<exists>i. (i, False, o'') \<in> set ?covering) \<longleftrightarrow> o'' \<in> set (free_outputs us) \<and> needed \<le> txo_value o''" for o''
  proof -
    have "(\<exists>i. (i, False, o'') \<in> set ?covering) \<longleftrightarrow>
        (\<exists>i < length ?ordered. ?ordered ! i = (False, o'')) \<and> needed \<le> txo_value o''"
      by (auto simp: in_set_enumerate_eq)
    also have "\<dots> \<longleftrightarrow> (False, o'') \<in> set us \<and> needed \<le> txo_value o''"
      using in_set_conv_nth[of "(False, o'')" ?ordered] by simp
    finally show ?thesis by force
  qed
  have ne: "?covering \<noteq> []" using cov[of o'] assms by force
  then obtain i where i: "min_index smallest_first ?covering = Some i" using min_index_None[of smallest_first ?covering] by auto
  from min_index_Some[OF i] obtain x where x: "(i, x) \<in> set ?covering"
    and least: "\<forall>(j, y) \<in> set ?covering. smallest_first x \<le> smallest_first y" by blast
  obtain best where best: "x = (False, best)" "needed \<le> txo_value best" "i < length ?ordered" "?ordered ! i = x"
    using x by (cases x) (auto simp: in_set_enumerate_eq)
  have "ordered_for_payment us needed = (False, best) # take i ?ordered @ drop (Suc i) ?ordered"
    using i best by (simp add: ordered_for_payment_def Let_def)
  then have first: "free_outputs (ordered_for_payment us needed) = best # free_outputs (take i ?ordered @ drop (Suc i) ?ordered)"
    by simp
  have smallest: "txo_value best \<le> txo_value o''" if o'': "o'' \<in> set (free_outputs us)" "needed \<le> txo_value o''" for o''
  proof -
    obtain j where "(j, False, o'') \<in> set ?covering" using cov[of o''] o'' by blast
    then have "smallest_first (False, best) \<le> smallest_first (False, o'')" using least best(1) by blast
    then have "uint (txo_value best) \<le> uint (txo_value o'')" by (auto simp: smallest_first_def)
    then show ?thesis by (simp only: word_le_def)
  qed
  show thesis by (rule that[OF first best(2)]) (use smallest in blast)
qed

lemma mark_spent_free: "(False, o') \<in> set (mark_spent P hs us) \<longleftrightarrow> (False, o') \<in> set us \<and> output_hash P o' \<notin> set hs"
  by (force simp: mark_spent_def)

lemma fold_mark_spent_free:
  "(False, o') \<in> set (fold (\<lambda>p. mark_spent P (f p)) ps us) \<longleftrightarrow>
     (False, o') \<in> set us \<and> (\<forall>p \<in> set ps. output_hash P o' \<notin> set (f p))"
  by (induction ps arbitrary: us) (auto simp: mark_spent_free)

lemma reserve_inputs_free:
  "o' \<in> set (free_outputs (reserve_inputs P source rebuilding b us)) \<longleftrightarrow>
     o' \<in> set (free_outputs us)
     \<and> (\<forall>p \<in> set (bm_values (bd_payments b)). py_source p = source \<longrightarrow> py_status p \<noteq> PayConfirmed \<longrightarrow>
           output_hash P o' \<notin> set (py_spent_inputs p))
     \<and> (\<forall>a \<in> set (outstanding_payout_attempts b). pa_source a = source \<longrightarrow>
           (pa_task_id a, pa_recipient a) \<notin> set rebuilding \<longrightarrow> output_hash P o' \<notin> set (pa_spent_inputs a))"
proof -
  have "o'' \<in> set (free_outputs xs) \<longleftrightarrow> (False, o'') \<in> set xs" for o'' xs by force
  then show ?thesis by (auto simp: reserve_inputs_def Let_def fold_mark_spent_free)
qed

text \<open>
  C26: A payment the hub builds spends outputs the node reported as free, none of them already
  spent by an unresolved payment or by a payout in flight from the same wallet; it pays every
  recipient the stated amount in the stated order, sends the rest but the fee to the change key
  and signs every input over exactly these outputs; and where one free output is enough it
  spends one, the smallest that is.
\<close>

theorem built_payment_sound:
  assumes "build_payment_from P fresh (Some utxos) b key source recipients change rebuilding = Ok tx"
  shows "(\<exists>spent. map txi_prev_output_hash (tx_inputs tx) = map (output_hash P) spent
      \<and> value_of spent = value_of (tx_outputs tx) + unat HUB_TRANSACTION_FEE
      \<and> (\<forall>o' \<in> set spent. (False, o') \<in> set utxos
          \<and> (\<forall>p \<in> set (bm_values (bd_payments b)). py_source p = source \<longrightarrow> py_status p \<noteq> PayConfirmed \<longrightarrow>
                output_hash P o' \<notin> set (py_spent_inputs p))
          \<and> (\<forall>a \<in> set (outstanding_payout_attempts b). pa_source a = source \<longrightarrow>
                (pa_task_id a, pa_recipient a) \<notin> set rebuilding \<longrightarrow> output_hash P o' \<notin> set (pa_spent_inputs a)))
      \<and> (\<forall>o' \<in> set (free_outputs (reserve_inputs P source rebuilding b utxos)).
          sum_list (map (unat \<circ> snd) recipients) + unat HUB_TRANSACTION_FEE \<le> unat (txo_value o') \<longrightarrow>
          (\<exists>best. spent = [best] \<and> txo_value best \<le> txo_value o')))
   \<and> take (length recipients) (map (\<lambda>o'. (txo_pubkey o', txo_value o')) (tx_outputs tx)) = recipients
   \<and> (\<forall>o' \<in> set (drop (length recipients) (tx_outputs tx)). txo_pubkey o' = change)
   \<and> (\<forall>i \<in> set (tx_inputs tx). i = signed_input P (txi_prev_output_hash i) (tx_outputs tx) key)"
proof -
  let ?us = "reserve_inputs P source rebuilding b utxos"
  obtain s needed where s: "sum_u64 (map snd recipients) = (Ok s :: (build_error, u64) outcome)"
    and n: "plus_u s HUB_TRANSACTION_FEE = (Ok needed :: (build_error, u64) outcome)"
    and built: "build_multi_payment P fresh (ordered_for_payment ?us needed) key recipients HUB_TRANSACTION_FEE change = Ok tx"
    using assms by (auto simp: build_payment_from_def Let_def outcome_simps)
  have needed: "unat needed = sum_list (map (unat \<circ> snd) recipients) + unat HUB_TRANSACTION_FEE"
    using sum_u64_Ok[OF s] n by (simp add: plus_u_Ok unat_add_less)
  let ?free = "free_outputs (ordered_for_payment ?us needed)"
  obtain k where k: "map txi_prev_output_hash (tx_inputs tx) = map (output_hash P) (take k ?free)"
    "value_of (take k ?free) = value_of (tx_outputs tx) + unat HUB_TRANSACTION_FEE"
    "k = 0 \<or> value_of (take (k - 1) ?free) < unat needed"
    and rest: "take (length recipients) (map (\<lambda>o'. (txo_pubkey o', txo_value o')) (tx_outputs tx)) = recipients"
      "\<forall>o' \<in> set (drop (length recipients) (tx_outputs tx)). txo_pubkey o' = change"
      "\<forall>i \<in> set (tx_inputs tx). i = signed_input P (txi_prev_output_hash i) (tx_outputs tx) key"
    using build_multi_payment_spec[OF built] needed by auto
  have free: "o' \<in> set (free_outputs ?us)" if "o' \<in> set (take k ?free)" for o'
    using that in_set_takeD ordered_free by fast
  have best: "\<exists>best. take k ?free = [best] \<and> txo_value best \<le> txo_value o'"
    if o': "o' \<in> set (free_outputs ?us)" "unat needed \<le> unat (txo_value o')" for o'
  proof -
    have "needed \<le> txo_value o'" using o'(2) by (simp add: word_le_nat_alt)
    then obtain best tail where b: "?free = best # tail" "needed \<le> txo_value best" "txo_value best \<le> txo_value o'"
      using ordered_best_fit[OF o'(1), of needed] o'(1) by metis
    have "0 < value_of (take k ?free)" using k(2) by (simp add: HUB_TRANSACTION_FEE_def)
    then have "k \<noteq> 0" by (cases k) simp_all
    moreover have "\<not> 1 < k" using k(3) b by (cases "k - 1") (auto simp: word_le_nat_alt)
    ultimately have "k = 1" by simp
    then show ?thesis using b by simp
  qed
  have "(False, o') \<in> set utxos" if "o' \<in> set (free_outputs utxos)" for o' using that by auto
  then have ok: "\<forall>o' \<in> set (take k ?free). (False, o') \<in> set utxos
      \<and> (\<forall>p \<in> set (bm_values (bd_payments b)). py_source p = source \<longrightarrow> py_status p \<noteq> PayConfirmed \<longrightarrow>
            output_hash P o' \<notin> set (py_spent_inputs p))
      \<and> (\<forall>a \<in> set (outstanding_payout_attempts b). pa_source a = source \<longrightarrow>
            (pa_task_id a, pa_recipient a) \<notin> set rebuilding \<longrightarrow> output_hash P o' \<notin> set (pa_spent_inputs a))"
    using free unfolding reserve_inputs_free by blast
  show ?thesis unfolding needed[symmetric]
    by (intro conjI exI[of _ "take k ?free"]) (use k(1,2) rest ok best in blast)+
qed

subsection \<open>Reshaping pays for itself\<close>

abbreviation useful :: "transaction_output \<Rightarrow> bool" where
  "useful o' \<equiv> MIN_USEFUL_OUTPUT \<le> txo_value o'"

lemma min_useful_pos: "0 < unat MIN_USEFUL_OUTPUT"
  by (simp add: MIN_USEFUL_OUTPUT_def)

lemma spendable_Ok:
  assumes "spendable fee outs = Ok s" "MIN_USEFUL_OUTPUT \<le> s"
  shows "unat s + unat fee = value_of outs"
proof -
  obtain t where t: "sum_u64 (map txo_value outs) = (Ok t :: (build_error, u64) outcome)" "s = saturating_sub t fee"
    using assms(1) by (auto simp: spendable_def outcome_simps)
  then have "unat s = value_of outs - unat fee"
    using sum_u64_Ok[OF t(1)] by (simp add: unat_saturating_sub comp_def)
  moreover have "0 < unat s" using assms(2) min_useful_pos by (simp add: word_le_nat_alt)
  ultimately show ?thesis by simp
qed

lemma equal_shares:
  fixes t p s :: nat
  assumes "0 < p" "s = t div p"
  shows "sum_list ((replicate p s)[p - 1 := t - s * (p - 1)]) = t" and "s \<le> t - s * (p - 1)"
proof -
  have le: "s * p \<le> t" using assms by simp
  obtain q where q: "p = Suc q" using assms(1) by (cases p) auto
  have sq: "s + s * q \<le> t" using le q by simp
  have "replicate (Suc q) s = replicate q s @ [s]" using replicate_append_same[of q s] by simp
  then have "(replicate p s)[p - 1 := t - s * (p - 1)] = replicate q s @ [t - s * q]"
    using q by (simp add: list_update_append del: replicate_Suc)
  then show "sum_list ((replicate p s)[p - 1 := t - s * (p - 1)]) = t"
    using sq q by (simp add: sum_list_replicate mult.commute)
  show "s \<le> t - s * (p - 1)" using sq q by simp
qed

lemma cut_shares:
  assumes "cut fee inputs pieces = Ok r" "spendable fee inputs = Ok t" "0 < pieces" "pieces \<le> unat (t div MIN_USEFUL_OUTPUT)"
  shows "rs_inputs r = inputs" "length (rs_shares r) = pieces" "sum_list (map unat (rs_shares r)) = unat t"
    "\<forall>s \<in> set (rs_shares r). MIN_USEFUL_OUTPUT \<le> s"
proof -
  let ?share = "t div of_nat pieces"
  let ?last = "t - ?share * (of_nat pieces - 1)"
  have r: "r = \<lparr>rs_inputs = inputs, rs_shares = (replicate pieces ?share)[pieces - 1 := ?last]\<rparr>"
    using assms(1,2) by (simp add: cut_def Let_def)
  have small: "pieces < 2 ^ 64" using assms(4) unsigned_less[of "t div MIN_USEFUL_OUTPUT", where 'a = nat] by simp
  have share: "unat ?share = unat t div pieces" using small by (simp add: unat_div_distrib unat_of_nat_less)
  note split = equal_shares[OF assms(3) share]
  have "of_nat pieces - 1 = (of_nat (pieces - 1) :: u64)" using assms(3) by (simp add: of_nat_diff)
  moreover have "unat ?share * (pieces - 1) \<le> unat t"
  proof -
    have "unat ?share * (pieces - 1) \<le> unat ?share * pieces" by simp
    then show ?thesis using share by (metis div_times_less_eq_dividend le_trans)
  qed
  moreover have "unat t < 2 ^ 64" using unsigned_less[of t, where 'a = nat] by simp
  ultimately have last: "unat ?last = unat t - unat ?share * (pieces - 1)"
    using small by (simp add: unat_sub_if' unat_mult_less unat_of_nat_less)
  have "pieces * unat MIN_USEFUL_OUTPUT \<le> unat t"
    using assms(4) min_useful_pos by (simp add: unat_div_distrib less_eq_div_iff_mult_less_eq)
  then have useful: "unat MIN_USEFUL_OUTPUT \<le> unat ?share"
    using share assms(3) by (simp add: less_eq_div_iff_mult_less_eq mult.commute)
  show "rs_inputs r = inputs" "length (rs_shares r) = pieces" using r by simp_all
  show "sum_list (map unat (rs_shares r)) = unat t" using split(1) last r by (simp add: map_update)
  show "\<forall>s \<in> set (rs_shares r). MIN_USEFUL_OUTPUT \<le> s"
    using useful split(2) last r set_update_subset_insert[of "replicate pieces ?share" "pieces - 1" ?last]
    by (auto simp: word_le_nat_alt)
qed

lemma max_output_in: "max_output os = Some o' \<Longrightarrow> o' \<in> set os"
  by (induction os rule: max_output.induct) (auto split: if_splits)

lemma dust_split:
  "mset (free_outputs us) = mset (dust_outputs us) + mset (filter useful (free_outputs us))"
  by (induction us) (auto simp: dust_outputs_def)

lemma dust_not_useful: "filter useful (dust_outputs us) = []"
  by (auto simp: dust_outputs_def filter_empty_conv)

text \<open>A plan consumes free outputs, wastes nothing but the fee and makes more useful outputs than it takes.\<close>

lemma plan_reshape_sound:
  assumes "plan_reshape us fee floor = Ok (Some r)"
  shows "mset (rs_inputs r) \<subseteq># mset (free_outputs us)"
    "sum_list (map unat (rs_shares r)) + unat fee = value_of (rs_inputs r)"
    "\<forall>s \<in> set (rs_shares r). MIN_USEFUL_OUTPUT \<le> s"
    "length (filter useful (rs_inputs r)) < length (rs_shares r)"
proof -
  let ?dust = "dust_outputs us" and ?wanted = "floor - ready_outputs us"
  have wanted: "0 < ?wanted" using assms by (auto simp: plan_reshape_def Let_def split: if_splits)
  obtain d where d: "spendable fee ?dust = Ok d"
    using assms by (auto simp: plan_reshape_def Let_def outcome_simps split: if_splits)
  have one: "MIN_USEFUL_OUTPUT \<le> t" if "0 < unat (t div MIN_USEFUL_OUTPUT)" for t
    using that min_useful_pos by (auto simp: unat_div_distrib word_le_nat_alt div_greater_zero_iff)
  have all: "mset (rs_inputs r) \<subseteq># mset (free_outputs us)
    \<and> sum_list (map unat (rs_shares r)) + unat fee = value_of (rs_inputs r)
    \<and> (\<forall>s \<in> set (rs_shares r). MIN_USEFUL_OUTPUT \<le> s) \<and> length (filter useful (rs_inputs r)) < length (rs_shares r)"
  proof (cases "1 \<le> unat (d div MIN_USEFUL_OUTPUT)")
    case True
    then have c: "cut fee ?dust (min ?wanted (unat (d div MIN_USEFUL_OUTPUT))) = Ok r"
      using assms d wanted by (simp add: plan_reshape_def Let_def outcome_simps split: if_splits)
    have "unat d + unat fee = value_of ?dust" using spendable_Ok[OF d] one[of d] True by simp
    moreover have "mset ?dust \<subseteq># mset (free_outputs us)" unfolding dust_split[of us] by simp
    ultimately show ?thesis using cut_shares[OF c d] True wanted dust_not_useful[of us] by simp
  next
    case False
    then obtain largest t where l: "max_output (map snd (filter (\<lambda>(marked, o'). \<not> marked \<and> txo_value o' \<ge> MIN_USEFUL_OUTPUT) us)) = Some largest"
      and t: "spendable fee (largest # ?dust) = Ok t"
      and p: "2 \<le> min (?wanted + 1) (unat (t div MIN_USEFUL_OUTPUT))"
      and c: "cut fee (largest # ?dust) (min (?wanted + 1) (unat (t div MIN_USEFUL_OUTPUT))) = Ok r"
      using assms d wanted
      by (auto simp: plan_reshape_def Let_def outcome_simps split: if_splits option.splits)
    have "largest \<in># mset (filter useful (free_outputs us))" using max_output_in[OF l] by auto
    then have "{#largest#} \<subseteq># mset (filter useful (free_outputs us))" by (rule mset_subset_eq_single)
    then have "mset ?dust + {#largest#} \<subseteq># mset (free_outputs us)"
      unfolding dust_split[of us] by (rule subset_mset.add_left_mono)
    then have sub: "mset (largest # ?dust) \<subseteq># mset (free_outputs us)" by simp
    have "unat t + unat fee = value_of (largest # ?dust)" using spendable_Ok[OF t] one[of t] p by simp
    moreover have "length (filter useful (largest # ?dust)) \<le> 1" using dust_not_useful[of us] by simp
    ultimately show ?thesis using cut_shares[OF c t] p sub by simp
  qed
  show "mset (rs_inputs r) \<subseteq># mset (free_outputs us)" "sum_list (map unat (rs_shares r)) + unat fee = value_of (rs_inputs r)"
    "\<forall>s \<in> set (rs_shares r). MIN_USEFUL_OUTPUT \<le> s" "length (filter useful (rs_inputs r)) < length (rs_shares r)"
    using all by auto
qed

text \<open>A build whose inputs are worth exactly what is paid and the fee has no change output.\<close>

lemma exact_payment:
  assumes built: "build_multi_payment P fresh (map (\<lambda>o'. (False, o')) inputs) key recipients fee change = Ok tx"
    and exact: "sum_list (map (unat \<circ> snd) recipients) + unat fee = value_of inputs"
  shows "\<exists>k. map txi_prev_output_hash (tx_inputs tx) = map (output_hash P) (take k inputs)
      \<and> value_of (take k inputs) = value_of (tx_outputs tx) + unat fee"
    and "map (\<lambda>o'. (txo_pubkey o', txo_value o')) (tx_outputs tx) = recipients"
proof -
  have free: "free_outputs (map (\<lambda>o'. (False, o')) inputs) = inputs" by (simp add: comp_def)
  let ?paid = "map (\<lambda>o'. (txo_pubkey o', txo_value o')) (tx_outputs tx)" and ?n = "length recipients"
  obtain k where k: "map txi_prev_output_hash (tx_inputs tx) = map (output_hash P) (take k inputs)"
    "value_of (take k inputs) = value_of (tx_outputs tx) + unat fee"
    and paid: "take ?n ?paid = recipients"
    and rest: "\<forall>o' \<in> set (drop ?n (tx_outputs tx)). txo_pubkey o' = change \<and> 0 < unat (txo_value o')"
    using build_multi_payment_spec[OF built, unfolded free] by auto
  show "\<exists>k. map txi_prev_output_hash (tx_inputs tx) = map (output_hash P) (take k inputs)
      \<and> value_of (take k inputs) = value_of (tx_outputs tx) + unat fee"
    using k by blast
  have "value_of (tx_outputs tx) = sum_list (map (unat \<circ> snd) ?paid)" by (simp add: comp_def)
  also have "\<dots> = sum_list (map (unat \<circ> snd) recipients) + value_of (drop ?n (tx_outputs tx))"
    by (subst append_take_drop_id[of ?n ?paid, symmetric])
      (simp only: paid map_append sum_list_append drop_map[symmetric] comp_def map_map snd_conv)
  finally have "value_of (tx_outputs tx) = sum_list (map (unat \<circ> snd) recipients) + value_of (drop ?n (tx_outputs tx))" .
  moreover have "value_of (take k inputs) \<le> value_of inputs"
    by (metis append_take_drop_id le_add1 map_append sum_list_append)
  ultimately have "value_of (drop ?n (tx_outputs tx)) = 0" using k(2) exact by linarith
  then have "drop ?n (tx_outputs tx) = []" using rest by (cases "drop ?n (tx_outputs tx)") auto
  then show "?paid = recipients" using paid by simp
qed

lemma take_useful: "length (filter P (take k xs)) \<le> length (filter P xs)"
  by (metis append_take_drop_id filter_append le_add1 length_append)

lemma take_submset: "mset (take k xs) \<subseteq># mset xs"
  by (metis append_take_drop_id mset_append mset_subset_eq_add_left)

text \<open>
  Reshaping a wallet costs its owner one fee and nothing else.  What a pass sends spends free
  outputs of the wallet that no unresolved payment counts on, pays the wallet's own key only,
  in outputs each large enough to fund a payment and more of them than it consumed, and loses
  exactly the fee; and the exchange's wallet is touched only if what is left still backs every
  customer balance and every withdrawal under way.
\<close>

theorem reshape_keeps_backing:
  assumes "maintain_wallet P fresh (Some utxos) outputs b w = (Ok (Some tx), w')"
  shows "(\<exists>spent. map txi_prev_output_hash (tx_inputs tx) = map (output_hash P) spent
      \<and> mset spent \<subseteq># mset (free_outputs (reserve_inputs P (wl_public_key w) [] b utxos))
      \<and> value_of spent = value_of (tx_outputs tx) + unat HUB_TRANSACTION_FEE
      \<and> length (filter useful spent) < length (tx_outputs tx))
   \<and> (\<forall>o' \<in> set (tx_outputs tx). txo_pubkey o' = wl_public_key w \<and> useful o')
   \<and> wl_inflight w' = map txi_prev_output_hash (tx_inputs tx)
   \<and> (wl_custody w \<longrightarrow>
       bm_total (\<lambda>a. unat (ex_base_balance a)) (bd_exchange_accounts b) + bm_total withdrawal_reserved (bd_payments b)
       \<le> value_of (map snd utxos) - unat HUB_TRANSACTION_FEE)"
proof -
  let ?us = "reserve_inputs P (wl_public_key w) [] b utxos"
  obtain r where plan: "plan_reshape ?us HUB_TRANSACTION_FEE outputs = Ok (Some r)"
    and backed: "wl_custody w \<longrightarrow> custody_backed utxos b"
    and built: "build_multi_payment P fresh (map (\<lambda>o'. (False, o')) (rs_inputs r)) (wl_private_key w)
       (map (\<lambda>share. (wl_public_key w, share)) (rs_shares r)) HUB_TRANSACTION_FEE (wl_public_key w) = Ok tx"
    and w': "wl_inflight w' = map txi_prev_output_hash (tx_inputs tx)"
    using assms by (auto simp: maintain_wallet_def Let_def with_check_def split: if_splits outcome.splits option.splits)
  note r = plan_reshape_sound[OF plan]
  let ?paid = "map (\<lambda>o'. (txo_pubkey o', txo_value o')) (tx_outputs tx)"
  have "sum_list (map (unat \<circ> snd) (map (\<lambda>share. (wl_public_key w, share)) (rs_shares r))) + unat HUB_TRANSACTION_FEE
      = value_of (rs_inputs r)" using r(2) by (simp add: comp_def)
  note exact = exact_payment[OF built this]
  obtain k where k: "map txi_prev_output_hash (tx_inputs tx) = map (output_hash P) (take k (rs_inputs r))"
    "value_of (take k (rs_inputs r)) = value_of (tx_outputs tx) + unat HUB_TRANSACTION_FEE"
    using exact(1) by blast
  have "length (tx_outputs tx) = length (rs_shares r)" using arg_cong[OF exact(2), of length] by simp
  then have "length (filter useful (take k (rs_inputs r))) < length (tx_outputs tx)"
    using r(4) take_useful[of useful k "rs_inputs r"] by simp
  moreover have "\<forall>x \<in> set ?paid. fst x = wl_public_key w \<and> MIN_USEFUL_OUTPUT \<le> snd x"
    unfolding exact(2) using r(3) by auto
  then have "\<forall>o' \<in> set (tx_outputs tx). txo_pubkey o' = wl_public_key w \<and> useful o'" by simp
  moreover have "mset (take k (rs_inputs r)) \<subseteq># mset (free_outputs ?us)"
    using take_submset r(1) by (rule subset_mset.order_trans)
  moreover have "bm_total (\<lambda>a. unat (ex_base_balance a)) (bd_exchange_accounts b) + bm_total withdrawal_reserved (bd_payments b)
       \<le> value_of (map snd utxos) - unat HUB_TRANSACTION_FEE" if "wl_custody w"
    using backed that by (simp add: custody_backed_def split_def comp_def)
  ultimately show ?thesis using k w' by blast
qed

end
