(* ===== verification/Hub_Faucet.thy ===== *)
theory Hub_Faucet
  imports Hub_Pow Hub_Wallet Hub_Journal
begin

text \<open>
  The faucet's handlers (\<open>faucet_challenge\<close> and \<open>faucet_claim\<close> of \<open>hub/src/handlers.rs\<close>, with
  the budget, the network share, the price and the refusals beside them) over the board, the
  challenge book, the replay guard and the journal.  \<open>faucet_claim\<close> is in two parts, because the
  code takes \<open>payout_lock\<close> between them: what it does before the lock, ending with the challenge
  spent, and the grant it makes under the lock.  Between the two, and between two claims,
  anything else may happen on the board.
\<close>

subsection \<open>Settings and surroundings\<close>

definition FAUCET_GRANT_AMOUNT :: u64 where "FAUCET_GRANT_AMOUNT = 50000000"
definition FAUCET_BUDGET_WINDOW_SECONDS :: int where "FAUCET_BUDGET_WINDOW_SECONDS = 24 * 60 * 60"

record faucet_config =
  fc_hub_id :: string
  fc_operator_public_key :: public_key
  fc_operator_private_key :: private_key
  fc_expected_hashes :: u64
  fc_daily_grants :: u64
  fc_free_grants_per_prefix :: u64
  fc_pow_doubling_grants :: u64
  fc_network_share_percent :: u64

record faucet_hub =
  fh_auth :: auth_state
  fh_book :: challenge_book
  fh_board :: task_board

text \<open>
  One call's surroundings: the readings of the clock in the order they are taken, which writes
  succeed, the random values, and the node's replies.
\<close>

record faucet_io =
  fi_clock :: "nat \<Rightarrow> instant"
  fi_guard_ok :: bool
  fi_book_ok :: bool
  fi_replacement_ok :: bool
  fi_challenge_id :: uuid
  fi_nonce :: "byte list"
  fi_balance :: "u64 option"
  fi_utxos :: "utxo_list option"
  fi_output_ids :: "nat \<Rightarrow> uuid"
  fi_payment_id :: uuid
  fi_height :: u64
  fi_committed :: bool

datatype api_error =
    Not_Verified verify_error
  | Conflict
  | Not_Redeemed redemption_error
  | Budget_Exhausted
  | Share_Exhausted
  | Unfunded "challenge option"
  | Internal

subsection \<open>Budget, share and price\<close>

definition faucet_cutoff :: "instant \<Rightarrow> int" where
  "faucet_cutoff now = timestamp (now - seconds FAUCET_BUDGET_WINDOW_SECONDS)"

definition faucet_budget_remaining :: "faucet_config \<Rightarrow> task_board \<Rightarrow> instant \<Rightarrow> nat" where
  "faucet_budget_remaining cfg b now = unat (fc_daily_grants cfg) - faucet_granted_since b (faucet_cutoff now)"

definition faucet_budget_exhausted :: "faucet_config \<Rightarrow> task_board \<Rightarrow> instant \<Rightarrow> bool" where
  "faucet_budget_exhausted cfg b now \<longleftrightarrow> \<not> faucet_budget_remaining cfg b now > 0"

definition network_share :: "faucet_config \<Rightarrow> u64" where
  "network_share cfg = max (saturating_mul (fc_daily_grants cfg) (fc_network_share_percent cfg) div 100) 1"

definition faucet_network_share_exhausted :: "faucet_config \<Rightarrow> task_board \<Rightarrow> string option \<Rightarrow> instant \<Rightarrow> bool" where
  "faucet_network_share_exhausted cfg b prefix now =
     (case prefix of
        None \<Rightarrow> False
      | Some prefix \<Rightarrow>
          if fc_network_share_percent cfg \<ge> 100 then False
          else case widen_prefix prefix of
            None \<Rightarrow> False
          | Some wide \<Rightarrow> \<not> faucet_granted_from_wide_prefix_since b wide (faucet_cutoff now) < unat (network_share cfg))"

definition faucet_difficulty_for :: "faucet_config \<Rightarrow> task_board \<Rightarrow> string option \<Rightarrow> instant \<Rightarrow> (api_error, u64) outcome" where
  "faucet_difficulty_for cfg b prefix now =
     (case prefix of
        None \<Rightarrow> Ok (fc_expected_hashes cfg)
      | Some prefix \<Rightarrow>
          expected_hashes_for_prefix (fc_expected_hashes cfg)
            (of_nat (faucet_granted_from_prefix_since b prefix (faucet_cutoff now)))
            (fc_free_grants_per_prefix cfg) (fc_pow_doubling_grants cfg))"

definition operator_can_fund_a_grant :: "u64 option \<Rightarrow> bool" where
  "operator_can_fund_a_grant balance =
     (case balance of Some bal \<Rightarrow> bal \<ge> FAUCET_GRANT_AMOUNT + HUB_TRANSACTION_FEE | None \<Rightarrow> True)"

subsection \<open>Asking for a challenge\<close>

definition verify_then ::
  "prims \<Rightarrow> wire \<Rightarrow> faucet_config \<Rightarrow> faucet_io \<Rightarrow> string \<Rightarrow> string \<Rightarrow> signed_envelope \<Rightarrow> faucet_hub
     \<Rightarrow> (public_key \<Rightarrow> faucet_hub \<Rightarrow> (api_error, 'a) outcome \<times> faucet_hub) \<Rightarrow> (api_error, 'a) outcome \<times> faucet_hub" where
  "verify_then P W cfg io meth path e h k =
     (let (r, auth) = verify P W (fc_hub_id cfg) meth path (fi_clock io 0) (fi_clock io 1) (fi_guard_ok io) e (fh_auth h);
          h = h\<lparr>fh_auth := auth\<rparr>
      in with_check (map_err Not_Verified r) h (\<lambda>pubkey. k pubkey h))"

definition faucet_challenge ::
  "prims \<Rightarrow> wire \<Rightarrow> faucet_config \<Rightarrow> faucet_io \<Rightarrow> ip_addr option \<Rightarrow> string \<Rightarrow> string \<Rightarrow> signed_envelope \<Rightarrow> faucet_hub
     \<Rightarrow> (api_error, challenge) outcome \<times> faucet_hub" where
  "faucet_challenge P W cfg io addr meth path e h =
     verify_then P W cfg io meth path e h (\<lambda>pubkey h.
       let b = fh_board h; prefix = map_option prefix_of addr
       in if \<not> can_claim_faucet b pubkey then (Err Conflict, h)
          else if faucet_budget_exhausted cfg b (fi_clock io 2) then (Err Budget_Exhausted, h)
          else if faucet_network_share_exhausted cfg b prefix (fi_clock io 3) then (Err Share_Exhausted, h)
          else with_check (faucet_difficulty_for cfg b prefix (fi_clock io 4)) h (\<lambda>expected.
            let (r, book) = issue_at_target W (fi_challenge_id io) (fi_nonce io) (fi_book_ok io) pubkey
                  (target_for_expected_hashes expected) prefix (fi_clock io 5) (fh_book h)
            in (map_err Not_Redeemed r, h\<lparr>fh_book := book\<rparr>)))"

subsection \<open>Claiming a grant\<close>

text \<open>Before the lock: every refusal that costs no work, then the challenge is spent.\<close>

definition faucet_redeem ::
  "prims \<Rightarrow> wire \<Rightarrow> faucet_config \<Rightarrow> faucet_io \<Rightarrow> string \<Rightarrow> string \<Rightarrow> signed_envelope \<Rightarrow> uuid \<Rightarrow> u64 \<Rightarrow> faucet_hub
     \<Rightarrow> (api_error, challenge \<times> public_key) outcome \<times> faucet_hub" where
  "faucet_redeem P W cfg io meth path e i solution h =
     verify_then P W cfg io meth path e h (\<lambda>pubkey h.
       let b = fh_board h
       in with_check (map_err Not_Redeemed (check P W i pubkey solution (fi_clock io 2) (fh_book h))) h (\<lambda>_.
          if \<not> operator_can_fund_a_grant (fi_balance io) then (Err (Unfunded None), h)
          else if \<not> can_claim_faucet b pubkey then (Err Conflict, h)
          else if faucet_budget_exhausted cfg b (fi_clock io 3) then (Err Budget_Exhausted, h)
          else if faucet_network_share_exhausted cfg b (network_of (fh_book h) i) (fi_clock io 4) then (Err Share_Exhausted, h)
          else
            let (r, book) = redeem P W (fi_book_ok io) i pubkey solution (fi_clock io 5) (fh_book h)
            in (obind (map_err Not_Redeemed r) (\<lambda>c. Ok (c, pubkey)), h\<lparr>fh_book := book\<rparr>)))"

text \<open>
  Under the lock: the checks that decide, the transaction, the reservation and the network it
  counts against; then the transaction is sent.  A build that finds too little spends a
  replacement challenge, at the price of the one that was spent.
\<close>

definition replacement ::
  "wire \<Rightarrow> faucet_io \<Rightarrow> challenge \<Rightarrow> public_key \<Rightarrow> faucet_hub \<Rightarrow> challenge option \<times> faucet_hub" where
  "replacement W io redeemed pubkey h =
     (let (r, book) = issue_at_target W (fi_challenge_id io) (fi_nonce io) (fi_replacement_ok io) pubkey
            (ch_target redeemed) (ch_prefix redeemed) (fi_clock io 11) (fh_book h)
      in ((case r of Ok c \<Rightarrow> Some c | _ \<Rightarrow> None), h\<lparr>fh_book := book\<rparr>))"

definition faucet_grant ::
  "prims \<Rightarrow> wire \<Rightarrow> faucet_config \<Rightarrow> faucet_io \<Rightarrow> challenge \<Rightarrow> public_key \<Rightarrow> faucet_hub
     \<Rightarrow> (api_error, payment) outcome \<times> transaction list \<times> faucet_hub" where
  "faucet_grant P W cfg io redeemed pubkey h =
     (let b = fh_board h
      in if \<not> can_claim_faucet b pubkey then (Err Conflict, [], h)
         else if faucet_budget_exhausted cfg b (fi_clock io 6) then (Err Budget_Exhausted, [], h)
         else if faucet_network_share_exhausted cfg b (ch_prefix redeemed) (fi_clock io 7) then (Err Share_Exhausted, [], h)
         else case build_payment_from_fresh P (fi_output_ids io) (fi_utxos io) b (fc_operator_private_key cfg)
                     (fc_operator_public_key cfg) [(pubkey, FAUCET_GRANT_AMOUNT)] (fc_operator_public_key cfg) of
           Err (InsufficientFunds _ _) \<Rightarrow>
             let (c, h) = replacement W io redeemed pubkey h in (Err (Unfunded c), [], h)
         | Err FetchFailed \<Rightarrow> (Err Internal, [], h)
         | Panic \<Rightarrow> (Panic, [], h)
         | Cutoff \<Rightarrow> (Cutoff, [], h)
         | Ok tx \<Rightarrow>
             let payment = payment_new P (fi_payment_id io) (fi_clock io 8) (fi_clock io 9) PayFaucet
                             (fc_operator_public_key cfg) pubkey FAUCET_GRANT_AMOUNT (Some tx);
                 (r, b) = prepare (fi_height io) (fi_committed io) payment b
             in case r of
                  Ok payment \<Rightarrow>
                    let b = (case ch_prefix redeemed of
                               None \<Rightarrow> b
                             | Some prefix \<Rightarrow> record_faucet_grant_prefix (py_recipient payment) prefix b);
                        (txs, b) = send (fi_committed io) payment b
                    in (Ok payment, txs, h\<lparr>fh_board := b\<rparr>)
                | Err _ \<Rightarrow> (Err Internal, [], h\<lparr>fh_board := b\<rparr>)
                | Panic \<Rightarrow> (Panic, [], h\<lparr>fh_board := b\<rparr>)
                | Cutoff \<Rightarrow> (Cutoff, [], h\<lparr>fh_board := b\<rparr>))"

definition faucet_claim ::
  "prims \<Rightarrow> wire \<Rightarrow> faucet_config \<Rightarrow> faucet_io \<Rightarrow> string \<Rightarrow> string \<Rightarrow> signed_envelope \<Rightarrow> uuid \<Rightarrow> u64 \<Rightarrow> faucet_hub
     \<Rightarrow> (api_error, payment) outcome \<times> transaction list \<times> faucet_hub" where
  "faucet_claim P W cfg io meth path e i solution h =
     (case faucet_redeem P W cfg io meth path e i solution h of
        (Ok (redeemed, pubkey), h) \<Rightarrow> faucet_grant P W cfg io redeemed pubkey h
      | (Err err, h) \<Rightarrow> (Err err, [], h)
      | (Panic, h) \<Rightarrow> (Panic, [], h)
      | (Cutoff, h) \<Rightarrow> (Cutoff, [], h))"

end
