(* ===== verification/Hub_Budget.thy ===== *)
theory Hub_Budget
  imports Hub_Faucet
begin

text \<open>
  The faucet's budget over any run of the hub: a machine of challenge requests, redemptions,
  grants and everything else the hub does on its board, and the bound on what the faucet
  gives away in any window of a day, to everyone and to one wide network.
\<close>

subsection \<open>What the rest of the hub leaves alone\<close>

definition grant_tables :: "task_board \<Rightarrow> (public_key, int) bmap \<times> (public_key, string) bmap" where
  "grant_tables b = (bd_faucet_grants b, bd_faucet_grant_prefixes b)"

lemma grant_tables_others: "others b' = others b \<Longrightarrow> grant_tables b' = grant_tables b"
  by (simp add: others_def grant_tables_def)

lemma grant_tables_update [simp]:
  "grant_tables (put_payment p b) = grant_tables b"
  "grant_tables (restore_exchange_account k a b) = grant_tables b"
  "grant_tables (restore_pending_deposit d b) = grant_tables b"
  "grant_tables (restore_reputation k r b) = grant_tables b"
  by (simp_all add: grant_tables_def put_payment_def restore_exchange_account_def restore_pending_deposit_def
      set_deposit_def restore_reputation_def)

lemma confirmed_effects_granted: "confirmed_effects p b = Ok b1 \<Longrightarrow> grant_tables b1 = grant_tables b"
  by (auto simp: confirmed_effects_def Let_def split: payment_purpose.splits option.splits if_splits)

lemma confirm_granted [simp]: "grant_tables (snd (confirm ok p b)) = grant_tables b"
  by (auto simp: confirm_def Let_def with_check_snd confirmed_effects_granted split: option.split outcome.split)

lemma send_granted [simp]: "grant_tables (snd (send ok p b)) = grant_tables b"
  by (simp add: send_def split: option.split)

lemma resend_granted [simp]: "grant_tables (snd (snd (resend ok p now b))) = grant_tables b"
  by (simp add: resend_def Let_def split: option.split)

lemma save_progress_granted [simp]: "grant_tables (snd (save_progress ok p nxt b)) = grant_tables b"
  by (simp add: save_progress_def split: option.split)

lemma resolve_granted [simp]: "grant_tables (snd (snd (resolve P v p now b))) = grant_tables b"
  by (simp add: resolve_def no_sends_def case_prod_unfold split: outcome.split evidence.split)

lemma reservation_granted: "reservation p b = Ok b1 \<Longrightarrow> py_purpose p \<noteq> PayFaucet \<Longrightarrow> grant_tables b1 = grant_tables b"
  by (auto simp: reservation_def Let_def split: payment_purpose.splits option.splits if_splits)

lemma prepare_granted: "py_purpose p \<noteq> PayFaucet \<Longrightarrow> grant_tables (snd (prepare height ok p b)) = grant_tables b"
  by (simp add: prepare_def Let_def with_check_snd reservation_granted split: outcome.split)

text \<open>Grants are made by the faucet's handler alone.\<close>

fun pays_faucet :: "hub_call \<Rightarrow> bool" where
  "pays_faucet (PreparePayment _ _ _ purpose _ _ _ _ _ _) \<longleftrightarrow> purpose = PayFaucet"
| "pays_faucet _ \<longleftrightarrow> False"

lemma run_hub_granted:
  assumes "\<not> pays_faucet c"
  shows "grant_tables (run_hub P c b) = grant_tables b"
proof (cases c)
  case (OnTasks d)
  then show ?thesis using grant_tables_others [OF run_board_others] by simp
next
  case (OnMarket d)
  then show ?thesis using run_exchange_frame [of d b] by (simp add: grant_tables_def)
next
  case (PreparePayment fresh created submitted purpose source recipient amount tx height ok)
  then show ?thesis using assms by (simp add: prepare_granted payment_new_def)
qed simp_all

subsection \<open>The machine\<close>

text \<open>
  A grant is made for some redeemed challenge; the clock does not go back while it is made.
\<close>

datatype faucet_call =
    AskChallenge faucet_io "ip_addr option" string string signed_envelope
  | RedeemChallenge faucet_io string string signed_envelope uuid u64
  | Grant faucet_io challenge public_key
  | Elsewhere hub_call

fun run_faucet :: "prims \<Rightarrow> wire \<Rightarrow> faucet_config \<Rightarrow> faucet_call \<Rightarrow> faucet_hub \<Rightarrow> faucet_hub" where
  "run_faucet P W cfg (AskChallenge io addr meth path e) h = snd (faucet_challenge P W cfg io addr meth path e h)"
| "run_faucet P W cfg (RedeemChallenge io meth path e i solution) h = snd (faucet_redeem P W cfg io meth path e i solution h)"
| "run_faucet P W cfg (Grant io redeemed pubkey) h = snd (snd (faucet_grant P W cfg io redeemed pubkey h))"
| "run_faucet P W cfg (Elsewhere c) h = h\<lparr>fh_board := run_hub P c (fh_board h)\<rparr>"

fun faucet_allowed :: "faucet_call \<Rightarrow> faucet_hub \<Rightarrow> bool" where
  "faucet_allowed (Grant io _ _) h \<longleftrightarrow> fi_clock io 6 \<le> fi_clock io 8 \<and> fi_clock io 7 \<le> fi_clock io 8"
| "faucet_allowed (Elsewhere c) h \<longleftrightarrow> \<not> pays_faucet c"
| "faucet_allowed _ h \<longleftrightarrow> True"

definition faucet_reachable :: "prims \<Rightarrow> wire \<Rightarrow> faucet_config \<Rightarrow> faucet_hub \<Rightarrow> faucet_hub \<Rightarrow> bool" where
  "faucet_reachable P W cfg start h \<longleftrightarrow> reaches faucet_allowed (run_faucet P W cfg) start h"

subsection \<open>The bounds\<close>

definition in_window :: "int \<Rightarrow> int \<Rightarrow> bool" where
  "in_window t at \<longleftrightarrow> t \<le> at \<and> at \<le> t + FAUCET_BUDGET_WINDOW_SECONDS"

definition grants_in_window :: "task_board \<Rightarrow> int \<Rightarrow> nat" where
  "grants_in_window b t = length (filter (in_window t) (bm_values (bd_faucet_grants b)))"

definition granted_in_window :: "task_board \<Rightarrow> int \<Rightarrow> public_key \<Rightarrow> bool" where
  "granted_in_window b t k = (case bm_get (bd_faucet_grants b) k of None \<Rightarrow> False | Some at \<Rightarrow> in_window t at)"

definition grants_in_window_from :: "task_board \<Rightarrow> string \<Rightarrow> int \<Rightarrow> nat" where
  "grants_in_window_from b wide t =
     length (filter (\<lambda>(k, prefix). widen_prefix prefix = Some wide \<and> granted_in_window b t k) (bd_faucet_grant_prefixes b))"

definition budget_inv :: "faucet_config \<Rightarrow> task_board \<Rightarrow> bool" where
  "budget_inv cfg b \<longleftrightarrow> bm_wf (bd_faucet_grants b) \<and> bm_wf (bd_faucet_grant_prefixes b)
     \<and> fst ` set (bd_faucet_grant_prefixes b) \<subseteq> fst ` set (bd_faucet_grants b)
     \<and> (\<forall>t. grants_in_window b t \<le> unat (fc_daily_grants cfg))
     \<and> (fc_network_share_percent cfg < 100 \<longrightarrow> (\<forall>wide t. grants_in_window_from b wide t \<le> unat (network_share cfg)))"

lemma budget_inv_cong: "grant_tables b' = grant_tables b \<Longrightarrow> budget_inv cfg b' = budget_inv cfg b"
  by (simp add: grant_tables_def budget_inv_def grants_in_window_def grants_in_window_from_def granted_in_window_def)

lemma length_filter_bm_insert:
  "k \<notin> fst ` set m \<Longrightarrow> length (filter Q (bm_insert k v m)) = length (filter Q m) + (if Q (k, v) then 1 else 0)"
  by (induction k v m rule: bm_insert.induct) auto

lemma length_filter_mono: "(\<And>x. x \<in> set xs \<Longrightarrow> Q x \<Longrightarrow> R x) \<Longrightarrow> length (filter Q xs) \<le> length (filter R xs)"
  by (induction xs) (auto simp: le_SucI)

lemma faucet_cutoff_le:
  assumes "now \<le> created"
  shows "faucet_cutoff now + FAUCET_BUDGET_WINDOW_SECONDS \<le> timestamp created"
proof -
  have "faucet_cutoff now = timestamp now - FAUCET_BUDGET_WINDOW_SECONDS"
    using div_mult_self1 [of nanos_per_sec now "- FAUCET_BUDGET_WINDOW_SECONDS"]
    by (simp add: faucet_cutoff_def timestamp_def seconds_def nanos_per_sec_def)
  moreover have "timestamp now \<le> timestamp created"
    using assms by (simp add: timestamp_def nanos_per_sec_def zdiv_mono1)
  ultimately show ?thesis by simp
qed

text \<open>A grant that was within the budget when it was checked is within it when it is recorded.\<close>

lemma grants_in_window_insert:
  assumes "\<not> faucet_budget_exhausted cfg b now" "now \<le> created" "\<not> bm_contains k (bd_faucet_grants b)"
    and "grants_in_window b t \<le> unat (fc_daily_grants cfg)"
  shows "grants_in_window (restore_faucet_grant k (timestamp created) b) t \<le> unat (fc_daily_grants cfg)"
proof -
  let ?at = "timestamp created"
  have new: "grants_in_window (restore_faucet_grant k ?at b) t = grants_in_window b t + (if in_window t ?at then 1 else 0)"
    using assms(3) length_filter_bm_insert [of k "bd_faucet_grants b" "\<lambda>e. in_window t (snd e)" ?at]
    by (simp add: grants_in_window_def restore_faucet_grant_def bm_values_def filter_map comp_def bm_contains_iff)
  have "grants_in_window b t < unat (fc_daily_grants cfg)" if "in_window t ?at"
  proof -
    have "faucet_cutoff now \<le> t" using faucet_cutoff_le [OF assms(2)] that by (simp add: in_window_def)
    then have "grants_in_window b t \<le> faucet_granted_since b (faucet_cutoff now)"
      unfolding grants_in_window_def faucet_granted_since_def by (intro length_filter_mono) (simp add: in_window_def)
    then show ?thesis using assms(1) by (simp add: faucet_budget_exhausted_def faucet_budget_remaining_def)
  qed
  then show ?thesis using new assms(4) by auto
qed


definition attributed :: "public_key \<Rightarrow> string option \<Rightarrow> task_board \<Rightarrow> task_board" where
  "attributed k prefix b = (case prefix of None \<Rightarrow> b | Some prefix \<Rightarrow> record_faucet_grant_prefix k prefix b)"

lemma attributed_granted: "grant_tables b = grant_tables b' \<Longrightarrow> grant_tables (attributed k prefix b) = grant_tables (attributed k prefix b')"
  by (simp add: grant_tables_def attributed_def record_faucet_grant_prefix_def split: option.split)

lemma grants_in_window_attributed [simp]: "grants_in_window (attributed k prefix b) t = grants_in_window b t"
  by (simp add: attributed_def record_faucet_grant_prefix_def grants_in_window_def split: option.split)

lemma grants_in_window_from_insert:
  assumes "fc_network_share_percent cfg < 100" "\<not> faucet_network_share_exhausted cfg b prefix now" "now \<le> created"
    and "\<not> bm_contains k (bd_faucet_grants b)" "fst ` set (bd_faucet_grant_prefixes b) \<subseteq> fst ` set (bd_faucet_grants b)"
    and old: "grants_in_window_from b wide t \<le> unat (network_share cfg)"
  shows "grants_in_window_from (attributed k prefix (restore_faucet_grant k (timestamp created) b)) wide t \<le> unat (network_share cfg)"
proof -
  let ?at = "timestamp created" and ?b = "restore_faucet_grant k (timestamp created) b"
  let ?Q = "\<lambda>b (k, prefix). widen_prefix prefix = Some wide \<and> granted_in_window b t k"
  have fresh: "k \<notin> fst ` set (bd_faucet_grant_prefixes b)" using assms(4,5) by (auto simp: bm_contains_iff)
  have same: "filter (?Q ?b) (bd_faucet_grant_prefixes b) = filter (?Q b) (bd_faucet_grant_prefixes b)"
    using fresh by (intro filter_cong) (force simp: granted_in_window_def restore_faucet_grant_def)+
  show ?thesis
  proof (cases prefix)
    case None
    then show ?thesis using old same by (simp add: attributed_def grants_in_window_from_def restore_faucet_grant_def)
  next
    case (Some pre)
    have win: "granted_in_window (attributed k prefix ?b) t j \<longleftrightarrow> granted_in_window ?b t j" for j
      by (simp add: attributed_def Some record_faucet_grant_prefix_def granted_in_window_def)
    have new: "grants_in_window_from (attributed k prefix ?b) wide t
      = grants_in_window_from b wide t + (if widen_prefix pre = Some wide \<and> in_window t ?at then 1 else 0)"
      using length_filter_bm_insert [OF fresh, of "?Q ?b" pre] same
      unfolding grants_in_window_from_def win
      by (simp add: attributed_def Some record_faucet_grant_prefix_def restore_faucet_grant_def granted_in_window_def)
    have "grants_in_window_from b wide t < unat (network_share cfg)" if "widen_prefix pre = Some wide" "in_window t ?at"
    proof -
      have "faucet_cutoff now \<le> t" using faucet_cutoff_le [OF assms(3)] that by (simp add: in_window_def)
      then have "grants_in_window_from b wide t \<le> faucet_granted_from_wide_prefix_since b wide (faucet_cutoff now)"
        unfolding grants_in_window_from_def faucet_granted_from_wide_prefix_since_def filter_filter
        by (intro length_filter_mono)
          (auto simp: granted_in_window_def granted_at_or_after_def in_window_def split: option.splits)
      then show ?thesis using assms(1,2) Some that(1)
        by (auto simp: faucet_network_share_exhausted_def not_le split: if_splits)
    qed
    then show ?thesis using new old by auto
  qed
qed

lemma budget_inv_grant:
  assumes inv: "budget_inv cfg b" and fresh: "can_claim_faucet b k"
    and budget: "\<not> faucet_budget_exhausted cfg b now" "now \<le> created"
    and share: "\<not> faucet_network_share_exhausted cfg b prefix now'" "now' \<le> created"
  shows "budget_inv cfg (attributed k prefix (restore_faucet_grant k (timestamp created) b))"
proof -
  let ?b = "attributed k prefix (restore_faucet_grant k (timestamp created) b)"
  have new: "\<not> bm_contains k (bd_faucet_grants b)" using fresh by (simp add: can_claim_faucet_def)
  have tables: "bm_wf (bd_faucet_grants ?b) \<and> bm_wf (bd_faucet_grant_prefixes ?b)
      \<and> fst ` set (bd_faucet_grant_prefixes ?b) \<subseteq> fst ` set (bd_faucet_grants ?b)"
    using inv by (auto simp: budget_inv_def attributed_def restore_faucet_grant_def record_faucet_grant_prefix_def
        bm_keys_insert split: option.split)
  moreover have "\<forall>t. grants_in_window ?b t \<le> unat (fc_daily_grants cfg)"
    using inv grants_in_window_insert [OF budget new] by (simp add: budget_inv_def)
  moreover have "grants_in_window_from ?b wide t \<le> unat (network_share cfg)"
    if "fc_network_share_percent cfg < 100" for wide t
    using inv grants_in_window_from_insert [OF that share new] that by (simp add: budget_inv_def)
  ultimately show ?thesis by (simp add: budget_inv_def)
qed

subsection \<open>Every call stays within them\<close>

lemma verify_then_keeps:
  assumes "\<And>pubkey auth. Q (fh_board (snd (k pubkey (h\<lparr>fh_auth := auth\<rparr>))))" "Q (fh_board h)"
  shows "Q (fh_board (snd (verify_then P W cfg io meth path e h k)))"
  using assms by (simp add: verify_then_def Let_def case_prod_unfold with_check_snd split: outcome.split)

lemma faucet_challenge_board [simp]: "fh_board (snd (faucet_challenge P W cfg io addr meth path e h)) = fh_board h"
  unfolding faucet_challenge_def
  by (rule verify_then_keeps) (simp_all add: Let_def with_check_snd case_prod_unfold split: outcome.split)

lemma faucet_redeem_board [simp]: "fh_board (snd (faucet_redeem P W cfg io meth path e i solution h)) = fh_board h"
  unfolding faucet_redeem_def
  by (rule verify_then_keeps) (simp_all add: Let_def with_check_snd case_prod_unfold split: outcome.split)

lemma prepare_faucet_cases:
  assumes "py_purpose p = PayFaucet"
  obtains (refused) "snd (prepare height ok p b) = b" "\<forall>q. fst (prepare height ok p b) \<noteq> Ok q"
  | (reserved) q b1 where "prepare height ok p b = (Ok q, b1)" "py_recipient q = py_recipient p"
      "grant_tables b1 = grant_tables (restore_faucet_grant (py_recipient p) (timestamp (py_created_at p)) b)"
proof (cases "check_output (p\<lparr>py_scanned_through := saturating_sub height EVIDENCE_SCAN_LOOKBACK\<rparr>) = Ok ()
    \<and> can_claim_faucet b (py_recipient p) \<and> ok")
  case True
  then show ?thesis using reserved assms by (simp add: prepare_def Let_def reservation_def timestamp_def)
next
  case False
  then show ?thesis using refused assms
    by (cases "check_output (p\<lparr>py_scanned_through := saturating_sub height EVIDENCE_SCAN_LOOKBACK\<rparr>)")
      (auto simp: prepare_def Let_def reservation_def)
qed


lemma replacement_board [simp]: "fh_board (snd (replacement W io redeemed pubkey h)) = fh_board h"
  by (simp add: replacement_def Let_def case_prod_unfold)

lemma faucet_grant_budget:
  assumes inv: "budget_inv cfg (fh_board h)" and clock: "fi_clock io 6 \<le> fi_clock io 8" "fi_clock io 7 \<le> fi_clock io 8"
  shows "budget_inv cfg (fh_board (snd (snd (faucet_grant P W cfg io redeemed pubkey h))))"
proof -
  let ?b = "fh_board h"
  let ?build = "build_payment_from_fresh P (fi_output_ids io) (fi_utxos io) ?b (fc_operator_private_key cfg)
    (fc_operator_public_key cfg) [(pubkey, FAUCET_GRANT_AMOUNT)] (fc_operator_public_key cfg)"
  consider (checked) tx where "can_claim_faucet ?b pubkey" "\<not> faucet_budget_exhausted cfg ?b (fi_clock io 6)"
      "\<not> faucet_network_share_exhausted cfg ?b (ch_prefix redeemed) (fi_clock io 7)" "?build = Ok tx"
  | (refused) "fh_board (snd (snd (faucet_grant P W cfg io redeemed pubkey h))) = ?b"
  proof (cases "can_claim_faucet ?b pubkey \<and> \<not> faucet_budget_exhausted cfg ?b (fi_clock io 6)
      \<and> \<not> faucet_network_share_exhausted cfg ?b (ch_prefix redeemed) (fi_clock io 7) \<and> (\<exists>tx. ?build = Ok tx)")
    case False
    then show ?thesis using refused
      by (cases ?build) (auto simp: faucet_grant_def Let_def case_prod_unfold split: build_error.splits)
  qed (use checked in blast)
  then show ?thesis
  proof cases
    case (checked tx)
    let ?p = "payment_new P (fi_payment_id io) (fi_clock io 8) (fi_clock io 9) PayFaucet
      (fc_operator_public_key cfg) pubkey FAUCET_GRANT_AMOUNT (Some tx)"
    have p: "py_purpose ?p = PayFaucet" "py_recipient ?p = pubkey" "py_created_at ?p = fi_clock io 8"
      by (simp_all add: payment_new_def)
    note new = budget_inv_grant [OF inv checked(1,2) clock(1) checked(3) clock(2)]
    from p(1) show ?thesis
    proof (cases rule: prepare_faucet_cases [where p = ?p and height = "fi_height io" and ok = "fi_committed io" and b = ?b])
      case refused
      then have "fh_board (snd (snd (faucet_grant P W cfg io redeemed pubkey h))) = ?b"
        using checked by (cases "fst (prepare (fi_height io) (fi_committed io) ?p ?b)")
          (simp_all add: faucet_grant_def Let_def case_prod_unfold)
      then show ?thesis using inv by simp
    next
      case (reserved q b1)
      let ?sent = "send (fi_committed io) q (attributed pubkey (ch_prefix redeemed) b1)"
      have "fh_board (snd (snd (faucet_grant P W cfg io redeemed pubkey h))) = snd ?sent"
        using checked reserved(1,2) p(2) by (simp add: faucet_grant_def Let_def case_prod_unfold attributed_def cong: option.case_cong)
      moreover have "grant_tables (snd ?sent) = grant_tables (attributed pubkey (ch_prefix redeemed)
          (restore_faucet_grant pubkey (timestamp (fi_clock io 8)) ?b))"
        using attributed_granted [OF reserved(3) [unfolded p]] by simp
      ultimately show ?thesis using new budget_inv_cong [of "snd ?sent"] by simp
    qed
  qed (use inv in simp)
qed

lemma run_faucet_budget:
  assumes "budget_inv cfg (fh_board h)" "faucet_allowed c h"
  shows "budget_inv cfg (fh_board (run_faucet P W cfg c h))"
  using assms budget_inv_cong [OF run_hub_granted] faucet_grant_budget by (cases c) auto

lemma budget_inv_new: "budget_inv cfg task_board_new"
  by (simp add: budget_inv_def task_board_new_def grants_in_window_def grants_in_window_from_def bm_values_def)

interpretation faucet: call_machine "\<lparr>fh_auth = auth, fh_book = book, fh_board = task_board_new\<rparr>"
  faucet_allowed "run_faucet P W cfg" "\<lambda>h. budget_inv cfg (fh_board h)" "\<lambda>_ _. True" for auth book P W cfg
  by unfold_locales (auto intro: budget_inv_new run_faucet_budget)

text \<open>
  C24: In one run of the hub, whatever it does (challenges, redemptions, grants and any other
  call, in any order and however claims overlap), no window of a day holds more faucet grants than the daily budget,
  and, when the share of one network is limited, no such window holds more grants attributed to
  one wide network than that share.
\<close>

theorem faucet_within_budget:
  assumes "faucet_reachable P W cfg \<lparr>fh_auth = auth, fh_book = book, fh_board = task_board_new\<rparr> h"
  shows "length (filter (\<lambda>at. t \<le> at \<and> at \<le> t + FAUCET_BUDGET_WINDOW_SECONDS) (faucet_grant_times (fh_board h)))
      \<le> unat (fc_daily_grants cfg)
    \<and> (fc_network_share_percent cfg < 100 \<longrightarrow>
        length (filter (\<lambda>(k, prefix). widen_prefix prefix = Some wide
            \<and> (\<exists>at. bm_get (bd_faucet_grants (fh_board h)) k = Some at \<and> t \<le> at \<and> at \<le> t + FAUCET_BUDGET_WINDOW_SECONDS))
          (bd_faucet_grant_prefixes (fh_board h))) \<le> unat (network_share cfg))"
proof -
  have win: "granted_in_window (fh_board h) t k \<longleftrightarrow>
      (\<exists>at. bm_get (bd_faucet_grants (fh_board h)) k = Some at \<and> t \<le> at \<and> at \<le> t + FAUCET_BUDGET_WINDOW_SECONDS)" for k
    by (simp add: granted_in_window_def in_window_def split: option.split)
  have "budget_inv cfg (fh_board h)"
    using assms unfolding faucet_reachable_def by (rule faucet.reached_inv)
  then show ?thesis
    by (simp add: budget_inv_def grants_in_window_def grants_in_window_from_def faucet_grant_times_def
        in_window_def [abs_def] flip: win)
qed

end
