(* ===== verification/Hub_Faucet_Witnesses.thy ===== *)
theory Hub_Faucet_Witnesses
  imports Hub_Budget Hub_Auth_Witnesses
begin

text \<open>
  The properties of payments built by the hub, of reshaped wallets, of challenges and of the
  faucet's budget at concrete inputs, and the challenge that comes back after a restart.
\<close>

subsection \<open>A payment and a reshaped wallet\<close>

definition operator_key :: private_key where "operator_key = PrivateKey [5]"
definition operator :: public_key where "operator = PublicKey [5]"
definition carol :: public_key where "carol = PublicKey [6]"

definition coin :: "u64 \<Rightarrow> uuid \<Rightarrow> transaction_output" where
  "coin v i = \<lparr>txo_value = v, txo_unique_id = i, txo_pubkey = operator\<rparr>"

definition coins :: utxo_list where
  "coins = [(False, coin 9000 1), (False, coin 5000 2), (True, coin 4000 3)]"

definition sample_payment_outputs :: "transaction_output list" where
  "sample_payment_outputs = [\<lparr>txo_value = 3000, txo_unique_id = 7, txo_pubkey = carol\<rparr>, \<lparr>txo_value = 1000, txo_unique_id = 8, txo_pubkey = operator\<rparr>]"

lemma reserve_inputs_new [simp]: "reserve_inputs P source rebuilding task_board_new utxos = utxos"
  by (simp add: reserve_inputs_def task_board_new_def bm_values_def outstanding_payout_attempts_def)

lemma coins_ordered: "ordered_for_payment coins 4000 = [(False, coin 5000 2), (False, coin 9000 1), (True, coin 4000 3)]"
  by (simp add: coins_def coin_def ordered_for_payment_def largest_first_def smallest_first_def)

lemma sample_built:
  "build_payment_from sample (\<lambda>i. 7 + of_nat i) (Some coins) task_board_new operator_key operator [(carol, 3000)] operator []
     = Ok \<lparr>tx_inputs = [signed_input sample (output_hash sample (coin 5000 2)) sample_payment_outputs operator_key],
           tx_outputs = sample_payment_outputs\<rparr>"
  by (simp add: build_payment_from_def build_multi_payment_def sum_u64_def checked_sum_eq plus_u_def checked_add_def
      HUB_TRANSACTION_FEE_def       coins_ordered payment_outputs_def sample_payment_outputs_def) (simp add: coin_def Let_def)

theorem built_payment_sound_witness:
  "(\<exists>spent. output_hash sample spent = output_hash sample (coin 5000 2) \<and> (False, spent) \<in> set coins
      \<and> unat (txo_value spent) = value_of sample_payment_outputs + unat HUB_TRANSACTION_FEE)
   \<and> map (\<lambda>o'. (txo_pubkey o', txo_value o')) (take 1 sample_payment_outputs) = [(carol, 3000)]"
proof -
  have "txi_prev_output_hash (signed_input sample h outputs operator_key) = h" for h outputs by (simp add: signed_input_def)
  with built_payment_sound [OF sample_built] show ?thesis by (auto simp: take_map)
qed

definition rich :: utxo_list where
  "rich = [(False, coin 300000000 1)]"

definition operator_wallet :: wallet where
  "operator_wallet = \<lparr>wl_custody = True, wl_public_key = operator, wl_private_key = operator_key, wl_inflight = []\<rparr>"

definition halves :: "transaction_output list" where
  "halves = [\<lparr>txo_value = 149999500, txo_unique_id = 7, txo_pubkey = operator\<rparr>, \<lparr>txo_value = 149999500, txo_unique_id = 8, txo_pubkey = operator\<rparr>]"

lemma rich_plan: "plan_reshape rich HUB_TRANSACTION_FEE 2 = Ok (Some \<lparr>rs_inputs = [coin 300000000 1], rs_shares = [149999500, 149999500]\<rparr>)"
  by (simp add: plan_reshape_def rich_def coin_def ready_outputs_def MIN_USEFUL_OUTPUT_def dust_outputs_def spendable_def cut_def
      sum_u64_def checked_sum_eq saturating_sub_def HUB_TRANSACTION_FEE_def Let_def)

lemma rich_built:
  "build_multi_payment sample (\<lambda>i. 7 + of_nat i) [(False, coin 300000000 1)] operator_key
     [(operator, 149999500), (operator, 149999500)] HUB_TRANSACTION_FEE operator
   = Ok \<lparr>tx_inputs = [signed_input sample (output_hash sample (coin 300000000 1)) halves operator_key], tx_outputs = halves\<rparr>"
  by (simp add: build_multi_payment_def sum_u64_def checked_sum_eq plus_u_def checked_add_def HUB_TRANSACTION_FEE_def
      payment_outputs_def halves_def) (simp add: coin_def Let_def)

theorem reshape_keeps_backing_witness:
  "\<exists>spent. output_hash sample spent = output_hash sample (coin 300000000 1)
     \<and> unat (txo_value spent) = value_of halves + unat HUB_TRANSACTION_FEE \<and> (\<forall>o' \<in> set halves. useful o')"
proof -
  have "maintain_wallet sample (\<lambda>i. 7 + of_nat i) (Some rich) 2 task_board_new operator_wallet
    = (Ok (Some \<lparr>tx_inputs = [signed_input sample (output_hash sample (coin 300000000 1)) halves operator_key], tx_outputs = halves\<rparr>),
       operator_wallet\<lparr>wl_inflight := [output_hash sample (coin 300000000 1)]\<rparr>)"
    using rich_built by (simp add: maintain_wallet_def rich_plan operator_wallet_def custody_backed_def Let_def signed_input_def)
      (simp add: task_board_new_def rich_def coin_def HUB_TRANSACTION_FEE_def)
  from reshape_keeps_backing [OF this] show ?thesis by (auto simp: signed_input_def)
qed

subsection \<open>Challenges\<close>

definition first_challenge :: challenge where
  "first_challenge = challenge_issue sample_wire 1 [0] carol (- 1) None 0"

definition pow_run :: "pow_call list" where
  "pow_run = [Issue 1 [0] True carol (- 1) None 0, Issue 2 [0] True carol (- 1) None 0,
     Pow_Restart (- 1) 1, Redeem True 1 carol 0 2, Redeem True 1 carol 0 3]"

theorem challenge_redeemed_once_witness:
  "distinct (map (ch_id \<circ> fst) (redemptions sample sample_wire pow_run (book_restore [] (- 1) 0)))"
  using challenge_redeemed_once [of sample_wire pow_run] by (simp add: pow_run_def challenge_issue_def)

text \<open>
  A second challenge for a key drops the first from memory but not from the table, so a restart
  brings the first back, and it can be redeemed although it was replaced.
\<close>

lemma replaced_challenge_returns:
  "fst (redeem sample sample_wire True 1 carol 0 2
      (fold (run_pow sample sample_wire) (take 2 pow_run) (book_restore [] (- 1) 0))) = Err Unknown"
  "\<exists>c. fst (redeem sample sample_wire True 1 carol 0 2
      (fold (run_pow sample sample_wire) (take 3 pow_run) (book_restore [] (- 1) 0))) = Ok c"
  by (simp_all add: pow_run_def book_restore_def load_all_faucet_challenges_def bm_values_def issue_at_target_def
      save_faucet_challenge_def challenge_issue_def redeem_def restore_challenge_def is_redeemed_def is_expired_at_def
      timestamp_def seconds_def nanos_per_sec_def CHALLENGE_TTL_SECONDS_def validate_def is_solved_by_def matches_target_def Let_def)

subsection \<open>The budget\<close>

definition one_a_day :: faucet_config where
  "one_a_day = \<lparr>fc_hub_id = ''h'', fc_operator_public_key = operator, fc_operator_private_key = operator_key,
     fc_expected_hashes = 1, fc_daily_grants = 1, fc_free_grants_per_prefix = 1, fc_pow_doubling_grants = 1,
     fc_network_share_percent = 50\<rparr>"

definition faucet_surroundings :: faucet_io where
  "faucet_surroundings = \<lparr>fi_clock = (\<lambda>_. 0), fi_guard_ok = True, fi_book_ok = True, fi_replacement_ok = True, fi_challenge_id = 1,
     fi_nonce = [0], fi_balance = None, fi_utxos = Some rich, fi_output_ids = (\<lambda>i. 7 + of_nat i), fi_payment_id = 1,
     fi_height = 0, fi_committed = True\<rparr>"

definition quiet_hub :: faucet_hub where
  "quiet_hub = \<lparr>fh_auth = empty_hub, fh_book = book_restore [] (- 1) 0, fh_board = task_board_new\<rparr>"

definition granted_hub :: faucet_hub where
  "granted_hub = run_faucet sample sample_wire one_a_day (Grant faucet_surroundings first_challenge carol) quiet_hub"

lemma faucet_built:
  "\<exists>i rest. build_payment_from_fresh sample (\<lambda>i. 7 + of_nat i) (Some rich) task_board_new operator_key operator
     [(carol, 50000000)] operator
   = Ok \<lparr>tx_inputs = i, tx_outputs = \<lparr>txo_value = 50000000, txo_unique_id = 7, txo_pubkey = carol\<rparr> # rest\<rparr>"
proof -
  have "ordered_for_payment rich n = rich" for n
    by (simp add: rich_def ordered_for_payment_def)
  then show ?thesis
    by (simp add: build_payment_from_fresh_def build_payment_from_def build_multi_payment_def sum_u64_def checked_sum_eq plus_u_def
      checked_add_def HUB_TRANSACTION_FEE_def payment_outputs_def) (simp add: rich_def coin_def Let_def plus_u_def checked_add_def payment_outputs_def)
qed

lemma fc_one_a_day:
  "fc_operator_public_key one_a_day = operator" "fc_operator_private_key one_a_day = operator_key"
  by (simp_all add: one_a_day_def)

lemma one_granted: "faucet_grant_times (fh_board granted_hub) = [0]"
proof -
  obtain i rest where built: "build_payment_from_fresh sample (\<lambda>i. 7 + of_nat i) (Some rich) task_board_new operator_key operator
     [(carol, 50000000)] operator
   = Ok \<lparr>tx_inputs = i, tx_outputs = \<lparr>txo_value = 50000000, txo_unique_id = 7, txo_pubkey = carol\<rparr> # rest\<rparr>"
    using faucet_built by blast
  have guards: "can_claim_faucet task_board_new carol" "\<not> faucet_budget_exhausted one_a_day task_board_new 0"
    "\<not> faucet_network_share_exhausted one_a_day task_board_new None 0"
    by (simp_all add: can_claim_faucet_def faucet_budget_exhausted_def faucet_budget_remaining_def faucet_granted_since_def
        faucet_network_share_exhausted_def task_board_new_def bm_values_def bm_contains_get one_a_day_def)
  have "fh_board granted_hub = put_payment (payment_new sample 1 0 0 PayFaucet operator carol 50000000
      (Some \<lparr>tx_inputs = i, tx_outputs = \<lparr>txo_value = 50000000, txo_unique_id = 7, txo_pubkey = carol\<rparr> # rest\<rparr>))
      (restore_faucet_grant carol 0 task_board_new)"
    using guards by (simp add: granted_hub_def faucet_grant_def quiet_hub_def faucet_surroundings_def built
        first_challenge_def challenge_issue_def prepare_def check_output_def payment_new_def
        reservation_def send_def FAUCET_GRANT_AMOUNT_def fc_one_a_day saturating_sub_def Let_def)
  then show ?thesis
    by (simp add: task_board_new_def bm_values_def restore_faucet_grant_def put_payment_def faucet_grant_times_def)
qed

theorem faucet_within_budget_witness:
  "faucet_grant_times (fh_board granted_hub) = [0]
   \<and> length (filter (\<lambda>at. 0 \<le> at \<and> at \<le> 0 + FAUCET_BUDGET_WINDOW_SECONDS) (faucet_grant_times (fh_board granted_hub))) \<le> 1"
proof -
  have "faucet_reachable sample sample_wire one_a_day quiet_hub granted_hub"
    unfolding faucet_reachable_def granted_hub_def
    by (rule reaches_call [OF reaches_refl]) (simp add: faucet_surroundings_def)
  from faucet_within_budget [OF this [unfolded quiet_hub_def], of 0] show ?thesis
    by (simp add: one_granted one_a_day_def)
qed

end
