(* ===== verification/Node_Wire.thy ===== *)
theory Node_Wire
  imports Chain_State
begin

text \<open>
  The wire protocol (\<open>lib/src/network.rs\<close>): the messages, the length-prefixed frames they travel
  in, and the handshake.  CBOR is an argument: an encoder, and a decoder that fails the way
  ciborium does.  A connection to read from is the bytes that arrive on it and the I/O error
  that comes after them.
\<close>

subsection \<open>Messages\<close>

datatype message =
    Hello u32 u32 instant
  | HelloAck u32 u32 bool instant
  | FetchUTXOs public_key
  | UTXOs "(transaction_output \<times> bool) list"
  | SubmitTransaction transaction
  | NewTransaction transaction
  | FetchTemplate public_key
  | Template block
  | ValidateTemplate block
  | TemplateValidity bool
  | SubmitTemplate block
  | DiscoverNodes
  | NodeList "string list"
  | AskChainTip
  | ChainTip u32 u256
  | FetchBlocks u64 u32
  | Blocks "block list"
  | NewBlock block

datatype io_error_kind =
  UnexpectedEof | ConnectionReset | ConnectionAborted | BrokenPipe | InvalidData | OtherIo

datatype receive_error = Io io_error_kind | Malformed

record codec =
  encode :: "message \<Rightarrow> byte list"
  decode :: "byte list \<Rightarrow> (receive_error, message) outcome"

subsection \<open>Frames\<close>

definition message_send :: "codec \<Rightarrow> message \<Rightarrow> byte list" where
  "message_send C m = (let bytes = encode C m in u64_to_be_bytes (of_nat (length bytes)) @ bytes)"

record connection =
  incoming :: "byte list"
  ending :: io_error_kind

definition read_exact :: "nat \<Rightarrow> connection \<Rightarrow> (receive_error, byte list) outcome \<times> connection" where
  "read_exact n c =
     (if n \<le> length (incoming c) then (Ok (take n (incoming c)), c\<lparr>incoming := drop n (incoming c)\<rparr>)
      else (Err (Io (ending c)), c\<lparr>incoming := []\<rparr>))"

definition oversized_message_error :: receive_error where "oversized_message_error = Io InvalidData"

definition message_receive :: "codec \<Rightarrow> connection \<Rightarrow> (receive_error, message) outcome \<times> connection" where
  "message_receive C c =
     with_step (read_exact 8 c) (\<lambda>len_bytes c.
       let len = unat (u64_from_be_bytes len_bytes)
       in if len > MAX_MESSAGE_SIZE then (Err oversized_message_error, c)
          else with_step (read_exact len c) (\<lambda>data c. (decode C data, c)))"

definition is_benign_disconnect :: "receive_error \<Rightarrow> bool" where
  "is_benign_disconnect e \<longleftrightarrow> e \<in> {Io UnexpectedEof, Io ConnectionReset, Io ConnectionAborted, Io BrokenPipe}"

subsection \<open>The handshake\<close>

datatype handshake_error = Network receive_error | Incompatible u32 u32 | UnexpectedMessage

text \<open>
  \<open>sent\<close> and \<open>received_at\<close> are the two readings of the clock, in the order they are taken: both
  before the reply is awaited.
\<close>

definition perform_handshake_initiator ::
  "codec \<Rightarrow> instant \<Rightarrow> instant \<Rightarrow> connection \<Rightarrow> (handshake_error, duration) outcome \<times> byte list \<times> connection" where
  "perform_handshake_initiator C sent received_at c =
     (let hello = message_send C (Hello PROTOCOL_MAGIC PROTOCOL_VERSION sent);
          (r, c) = message_receive C c
      in (obind (map_err Network r) (\<lambda>m.
            case m of
              HelloAck magic version accepted timestamp \<Rightarrow>
                if \<not> accepted \<or> magic \<noteq> PROTOCOL_MAGIC \<or> version \<noteq> PROTOCOL_VERSION then Err (Incompatible magic version)
                else Ok (timestamp - received_at)
            | _ \<Rightarrow> Err UnexpectedMessage),
          hello, c))"

definition perform_handshake_acceptor ::
  "codec \<Rightarrow> instant \<Rightarrow> instant \<Rightarrow> connection \<Rightarrow> (handshake_error, duration) outcome \<times> byte list \<times> connection" where
  "perform_handshake_acceptor C received_at sent c =
     (let (r, c) = message_receive C c
      in case map_err Network r of
           Ok (Hello magic version timestamp) \<Rightarrow>
             let accepted = (magic = PROTOCOL_MAGIC \<and> version = PROTOCOL_VERSION);
                 ack = message_send C (HelloAck PROTOCOL_MAGIC PROTOCOL_VERSION accepted sent)
             in (if accepted then Ok (timestamp - received_at) else Err (Incompatible magic version), ack, c)
         | Ok _ \<Rightarrow> (Err UnexpectedMessage, [], c)
         | Err e \<Rightarrow> (Err e, [], c)
         | Panic \<Rightarrow> (Panic, [], c)
         | Cutoff \<Rightarrow> (Cutoff, [], c))"

subsection \<open>Frames are read back\<close>

lemma read_exact_append [simp]:
  "read_exact (length bs) \<lparr>incoming = bs @ rest, ending = e\<rparr> = (Ok bs, \<lparr>incoming = rest, ending = e\<rparr>)"
  by (simp add: read_exact_def)

lemma unat_u64_length: "n \<le> MAX_MESSAGE_SIZE \<Longrightarrow> unat (of_nat n :: u64) = n"
  by (simp add: MAX_MESSAGE_SIZE_def unat_of_nat_less)

lemma receive_frame:
  assumes "decode C (encode C m) = Ok m" "length (encode C m) \<le> MAX_MESSAGE_SIZE"
  shows "message_receive C \<lparr>incoming = message_send C m @ rest, ending = e\<rparr> = (Ok m, \<lparr>incoming = rest, ending = e\<rparr>)"
proof -
  let ?len = "u64_to_be_bytes (of_nat (length (encode C m)))"
  have "read_exact 8 \<lparr>incoming = ?len @ encode C m @ rest, ending = e\<rparr> = (Ok ?len, \<lparr>incoming = encode C m @ rest, ending = e\<rparr>)"
    using read_exact_append [of ?len] by simp
  then show ?thesis using assms unat_u64_length [OF assms(2)]
    by (simp add: message_receive_def message_send_def Let_def with_step_def)
qed

text \<open>The reader's loop: messages until the first error.\<close>

fun receive_all :: "codec \<Rightarrow> nat \<Rightarrow> connection \<Rightarrow> message list \<times> receive_error option \<times> connection" where
  "receive_all C 0 c = ([], None, c)"
| "receive_all C (Suc n) c =
     (case message_receive C c of
        (Ok m, c) \<Rightarrow> (case receive_all C n c of (ms, e, c) \<Rightarrow> (m # ms, e, c))
      | (Err e, c) \<Rightarrow> ([], Some e, c)
      | (_, c) \<Rightarrow> ([], None, c))"

lemma receive_all_frames:
  assumes "\<forall>m \<in> set ms. decode C (encode C m) = Ok m \<and> length (encode C m) \<le> MAX_MESSAGE_SIZE"
  shows "receive_all C (length ms + n) \<lparr>incoming = concat (map (message_send C) ms) @ rest, ending = e\<rparr> =
    (case receive_all C n \<lparr>incoming = rest, ending = e\<rparr> of (ms', err, c) \<Rightarrow> (ms @ ms', err, c))"
  using assms by (induction ms) (auto simp: receive_frame split: prod.splits)

text \<open>
  C30: Whatever sequence of messages a peer writes before it hangs up, the other side reads
  exactly that sequence and then the disconnect, which is benign; and a length prefix above the
  limit is refused after those eight bytes, with nothing of the body read.
\<close>

theorem frames_roundtrip:
  assumes "\<forall>m \<in> set ms. decode C (encode C m) = Ok m \<and> length (encode C m) \<le> MAX_MESSAGE_SIZE"
  shows "receive_all C (Suc (length ms)) \<lparr>incoming = concat (map (message_send C) ms), ending = UnexpectedEof\<rparr>
      = (ms, Some (Io UnexpectedEof), \<lparr>incoming = [], ending = UnexpectedEof\<rparr>)
    \<and> is_benign_disconnect (Io UnexpectedEof)
    \<and> (unat len > MAX_MESSAGE_SIZE \<longrightarrow>
        receive_all C (Suc (length ms)) \<lparr>incoming = concat (map (message_send C) ms) @ u64_to_be_bytes len @ body, ending = e\<rparr>
          = (ms, Some (Io InvalidData), \<lparr>incoming = body, ending = e\<rparr>)
        \<and> \<not> is_benign_disconnect (Io InvalidData))"
proof -
  have eof: "message_receive C \<lparr>incoming = [], ending = UnexpectedEof\<rparr> = (Err (Io UnexpectedEof), \<lparr>incoming = [], ending = UnexpectedEof\<rparr>)"
    by (simp add: message_receive_def read_exact_def with_step_def)
  have "message_receive C \<lparr>incoming = u64_to_be_bytes len @ body, ending = e\<rparr> = (Err (Io InvalidData), \<lparr>incoming = body, ending = e\<rparr>)"
    if "unat len > MAX_MESSAGE_SIZE"
    using that read_exact_append [of "u64_to_be_bytes len" body e]
    by (simp add: message_receive_def with_step_def oversized_message_error_def)
  then show ?thesis
    using receive_all_frames [OF assms, of 1 "[]" UnexpectedEof] receive_all_frames [OF assms, of 1 "u64_to_be_bytes len @ body" e] eof
    by (simp add: is_benign_disconnect_def)
qed

text \<open>Two peers of the same version agree, and each samples the other's clock against its own.\<close>

lemma handshake_agrees:
  assumes "\<forall>m \<in> {Hello PROTOCOL_MAGIC PROTOCOL_VERSION t0, HelloAck PROTOCOL_MAGIC PROTOCOL_VERSION True u1}.
      decode C (encode C m) = Ok m \<and> length (encode C m) \<le> MAX_MESSAGE_SIZE"
    and "fst (snd (perform_handshake_initiator C t0 t1 c)) = hello"
    and "perform_handshake_acceptor C u0 u1 \<lparr>incoming = hello, ending = e\<rparr> = (r, ack, c')"
  shows "r = Ok (t0 - u0)"
    and "fst (perform_handshake_initiator C t0 t1 \<lparr>incoming = ack, ending = e\<rparr>) = Ok (u1 - t1)"
  using assms receive_frame [of C _ "[]" e]
  by (auto simp: perform_handshake_initiator_def perform_handshake_acceptor_def Let_def case_prod_unfold)

end
