(* ===== verification/Node_Peers.thy ===== *)
theory Node_Peers
  imports Node_Wire Hub_Net "HOL-Library.AList" "HOL-Library.Char_ord"
begin

text \<open>
  What a node remembers about its peers: bans and strikes (\<open>node/src/ban.rs\<close>, with the table of
  bans in \<open>lib/src/store.rs\<close>) and the clock samples from which it derives its network time
  (\<open>node/src/time_sync.rs\<close>).  The printed form of an address and its parser are arguments, as
  are the readings of the clock; the concurrent maps are functions, the samples an association
  list, whose order the median does not depend on.
\<close>

subsection \<open>Bans and strikes\<close>

definition BAN_DURATION_HOURS :: int where "BAN_DURATION_HOURS = 1"
definition MAX_STRIKES :: u32 where "MAX_STRIKES = 3"
definition STRIKE_WINDOW_MINUTES :: int where "STRIKE_WINDOW_MINUTES = 10"

type_synonym ban_table = "(string, int) bmap"

record bans =
  bn_banned :: "ip_addr \<Rightarrow> instant option"
  bn_strikes :: "ip_addr \<Rightarrow> (u32 \<times> instant) option"
  bn_store :: ban_table

definition save_ban :: "string \<Rightarrow> int \<Rightarrow> ban_table \<Rightarrow> ban_table" where
  "save_ban ip until_unix table = bm_insert ip until_unix table"

definition load_bans :: "ban_table \<Rightarrow> (string \<times> int) list" where
  "load_bans table = table"

definition load_persisted :: "(string \<Rightarrow> ip_addr option) \<Rightarrow> instant \<Rightarrow> ban_table \<Rightarrow> bans" where
  "load_persisted parse now table =
     fold (\<lambda>(ip_str, until_unix) b.
             case parse ip_str of
               None \<Rightarrow> b
             | Some ip \<Rightarrow>
                 let until = seconds until_unix
                 in if until > now then b\<lparr>bn_banned := (bn_banned b)(ip \<mapsto> until)\<rparr> else b)
       (load_bans table) \<lparr>bn_banned = (\<lambda>_. None), bn_strikes = (\<lambda>_. None), bn_store = table\<rparr>"

definition is_banned :: "instant \<Rightarrow> ip_addr \<Rightarrow> bans \<Rightarrow> bool \<times> bans" where
  "is_banned now ip b =
     (case bn_banned b ip of
        None \<Rightarrow> (False, b)
      | Some until \<Rightarrow> if until > now then (True, b) else (False, b\<lparr>bn_banned := (bn_banned b)(ip := None)\<rparr>))"

text \<open>\<open>saved\<close> says whether the write succeeds.\<close>

definition ban_now :: "(ip_addr \<Rightarrow> string) \<Rightarrow> instant \<Rightarrow> bool \<Rightarrow> ip_addr \<Rightarrow> bans \<Rightarrow> bans" where
  "ban_now show_ip now saved ip b =
     (let until = now + hours BAN_DURATION_HOURS
      in b\<lparr>bn_banned := (bn_banned b)(ip \<mapsto> until),
           bn_store := (if saved then save_ban (show_ip ip) (until div nanos_per_sec) (bn_store b) else bn_store b)\<rparr>)"

text \<open>\<open>now\<close> and \<open>later\<close> are the two readings of the clock; the count is a \<open>u32\<close> below three.\<close>

definition strike :: "(ip_addr \<Rightarrow> string) \<Rightarrow> instant \<Rightarrow> instant \<Rightarrow> bool \<Rightarrow> ip_addr \<Rightarrow> bool \<Rightarrow> bans \<Rightarrow> bans" where
  "strike show_ip now later saved ip severe b =
     (if severe then ban_now show_ip now saved ip b
      else
        let entry = (case bn_strikes b ip of None \<Rightarrow> (0, now) | Some e \<Rightarrow> e);
            entry = (if now - snd entry > minutes STRIKE_WINDOW_MINUTES then (0, now) else entry);
            count = fst entry + 1;
            b = b\<lparr>bn_strikes := (bn_strikes b)(ip \<mapsto> (count, snd entry))\<rparr>
        in if count \<ge> MAX_STRIKES then ban_now show_ip later saved ip (b\<lparr>bn_strikes := (bn_strikes b)(ip := None)\<rparr>)
           else b)"

subsection \<open>Network time\<close>

definition MAX_SAMPLES :: nat where "MAX_SAMPLES = 50"
definition MIN_SAMPLES_TO_ADJUST :: nat where "MIN_SAMPLES_TO_ADJUST = 5"
definition MAX_TIME_ADJUSTMENT_MINUTES :: int where "MAX_TIME_ADJUSTMENT_MINUTES = 70"

type_synonym samples = "(ip_addr \<times> duration) list"

definition median_of_seconds :: "int list \<Rightarrow> duration option" where
  "median_of_seconds secs =
     (if length secs < MIN_SAMPLES_TO_ADJUST then None
      else Some (seconds (sort secs ! (length secs div 2))))"

definition median_offset :: "samples \<Rightarrow> duration option" where
  "median_offset ss = median_of_seconds (map (num_seconds \<circ> snd) ss)"

definition applied_offset :: "samples \<Rightarrow> duration" where
  "applied_offset ss =
     (case median_offset ss of
        None \<Rightarrow> 0
      | Some median \<Rightarrow> if \<bar>num_minutes median\<bar> > MAX_TIME_ADJUSTMENT_MINUTES then 0 else median)"

definition record_sample :: "ip_addr \<Rightarrow> duration \<Rightarrow> samples \<Rightarrow> blockchain \<Rightarrow> samples \<times> blockchain" where
  "record_sample ip offset ss chain =
     (if length ss \<ge> MAX_SAMPLES \<and> ip \<notin> fst ` set ss then (ss, chain)
      else let ss = AList.update ip offset ss in (ss, set_time_offset (applied_offset ss) chain))"

subsection \<open>The median resists a minority\<close>

lemma sorted_nth_below:
  fixes xs :: "int list"
  assumes "sorted xs" "k < length xs" "xs ! k < lo"
  shows "k < length (filter (\<lambda>x. x < lo) xs)"
proof -
  have "xs ! i < lo" if "i \<le> k" for i
    using sorted_nth_mono [OF assms(1) that assms(2)] assms(3) by simp
  then have "{..k} \<subseteq> {i. i < length xs \<and> xs ! i < lo}" using assms(2) by auto
  then have "card {..k} \<le> card {i. i < length xs \<and> xs ! i < lo}" by (intro card_mono) auto
  then show ?thesis by (simp add: length_filter_conv_card)
qed

lemma sorted_nth_above:
  fixes xs :: "int list"
  assumes "sorted xs" "k < length xs" "hi < xs ! k"
  shows "length xs - k \<le> length (filter (\<lambda>x. hi < x) xs)"
proof -
  have "hi < xs ! i" if "k \<le> i" "i < length xs" for i
    using sorted_nth_mono [OF assms(1) that] assms(3) by simp
  then have "{k..<length xs} \<subseteq> {i. i < length xs \<and> hi < xs ! i}" by auto
  then have "card {k..<length xs} \<le> card {i. i < length xs \<and> hi < xs ! i}" by (intro card_mono) auto
  then show ?thesis by (simp add: length_filter_conv_card)
qed

lemma length_filter_sort: "length (filter Q (sort xs)) = length (filter Q (xs :: int list))"
proof -
  have "mset (filter Q (sort xs)) = mset (filter Q xs)" by (simp add: mset_filter)
  then show ?thesis by (rule mset_eq_length)
qed

lemma median_within:
  fixes xs :: "int list"
  assumes most: "length xs < 2 * length (filter (\<lambda>x. lo \<le> x \<and> x \<le> hi) xs)"
  shows "lo \<le> sort xs ! (length xs div 2) \<and> sort xs ! (length xs div 2) \<le> hi"
proof -
  let ?k = "length xs div 2"
  have split: "length (filter (\<lambda>x. lo \<le> x \<and> x \<le> hi) xs) + length (filter (\<lambda>x. \<not> (lo \<le> x \<and> x \<le> hi)) xs) = length xs"
    by (rule sum_length_filter_compl)
  have sub: "length (filter Q xs) \<le> length (filter (\<lambda>x. \<not> (lo \<le> x \<and> x \<le> hi)) xs)" if "\<And>x. Q x \<Longrightarrow> \<not> (lo \<le> x \<and> x \<le> hi)" for Q
  proof -
    have "filter Q xs = filter Q (filter (\<lambda>x. \<not> (lo \<le> x \<and> x \<le> hi)) xs)"
      unfolding filter_filter using that by (intro filter_cong) auto
    then show ?thesis by (metis length_filter_le)
  qed
  have k: "?k < length (sort xs)" using most by (cases xs) auto
  have "\<not> sort xs ! ?k < lo"
  proof
    assume "sort xs ! ?k < lo"
    from sorted_nth_below [OF _ k this] sub [of "\<lambda>x. x < lo"] split most show False by (simp add: length_filter_sort)
  qed
  moreover have "\<not> hi < sort xs ! ?k"
  proof
    assume "hi < sort xs ! ?k"
    from sorted_nth_above [OF _ k this] sub [of "\<lambda>x. hi < x"] split most show False by (simp add: length_filter_sort)
  qed
  ultimately show ?thesis by simp
qed

lemma applied_offset_small: "\<bar>applied_offset ss\<bar> < minutes (MAX_TIME_ADJUSTMENT_MINUTES + 1)"
proof -
  have "\<bar>seconds k\<bar> < minutes 71" if "\<not> \<bar>num_minutes (seconds k)\<bar> > 70" for k
  proof -
    have "\<bar>k\<bar> div 60 \<le> 70" using that by (auto simp: num_minutes_def trunc_div_def sgn_if split: if_splits)
    then have "\<bar>k\<bar> < 71 * 60" by linarith
    then show ?thesis by (simp add: minutes_def seconds_def nanos_per_sec_def abs_mult)
  qed
  then show ?thesis
    by (auto simp: applied_offset_def median_offset_def median_of_seconds_def MAX_TIME_ADJUSTMENT_MINUTES_def
        minutes_def seconds_def nanos_per_sec_def)
qed

text \<open>A node that has sampled some peers, in some order.\<close>

definition sampled :: "(ip_addr \<times> duration) list \<Rightarrow> blockchain \<Rightarrow> samples \<times> blockchain" where
  "sampled xs s = fold (\<lambda>(ip, offset) (ss, chain). record_sample ip offset ss chain) xs ([], s)"

lemma length_update: "length (AList.update k v ss) = (if k \<in> fst ` set ss then length ss else Suc (length ss))"
  by (induction ss) auto

lemma record_sample_inv:
  assumes "distinct (map fst ss)" "length ss \<le> MAX_SAMPLES" "bc_time_offset s = applied_offset ss"
    and "record_sample ip offset ss s = (ss', s')"
  shows "distinct (map fst ss') \<and> length ss' \<le> MAX_SAMPLES \<and> bc_time_offset s' = applied_offset ss'"
proof (cases "MAX_SAMPLES \<le> length ss \<and> ip \<notin> fst ` set ss")
  case False
  then have "ss' = AList.update ip offset ss" "s' = set_time_offset (applied_offset ss') s"
    using assms(4) unfolding record_sample_def Let_def if_not_P [OF False] by auto
  moreover have "length (AList.update ip offset ss) \<le> MAX_SAMPLES" using False assms(2) length_update [of ip offset ss] by (cases "ip \<in> fst ` set ss") auto
  ultimately show ?thesis using assms(1) by (simp add: set_time_offset_def distinct_update)
qed (use assms in \<open>simp add: record_sample_def\<close>)

lemma sampled_inv:
  assumes "bc_time_offset s0 = 0" "sampled xs s0 = (ss, s)"
  shows "distinct (map fst ss) \<and> length ss \<le> MAX_SAMPLES \<and> bc_time_offset s = applied_offset ss"
  using assms(2)
proof (induction xs arbitrary: ss s rule: rev_induct)
  case Nil
  then show ?case using assms(1) by (auto simp: sampled_def applied_offset_def median_offset_def median_of_seconds_def MIN_SAMPLES_TO_ADJUST_def)
next
  case (snoc x xs)
  obtain ss1 s1 where one: "sampled xs s0 = (ss1, s1)" by force
  then have "record_sample (fst x) (snd x) ss1 s1 = (ss, s)" using snoc.prems by (simp add: sampled_def case_prod_unfold)
  then show ?case using record_sample_inv snoc.IH [OF one] by blast
qed

text \<open>
  C31: Network time cannot be dragged.  Whatever offsets peers report and in whatever order they
  connect, a node counts one sample per address and at most fifty, applies no offset before it
  has five, never one of 71 minutes or more, and whenever more than half of its samples lie
  between two bounds the offset it applies is zero or lies between them too.
\<close>

theorem network_time_robust:
  assumes "bc_time_offset s0 = 0" "sampled xs s0 = (ss, s)"
  shows "distinct (map fst ss) \<and> length ss \<le> MAX_SAMPLES \<and> \<bar>bc_time_offset s\<bar> < minutes 71
    \<and> (length ss < MIN_SAMPLES_TO_ADJUST \<longrightarrow> bc_time_offset s = 0)
    \<and> (length ss < 2 * length (filter (\<lambda>(_, d). lo \<le> num_seconds d \<and> num_seconds d \<le> hi) ss) \<longrightarrow>
        bc_time_offset s = 0 \<or> seconds lo \<le> bc_time_offset s \<and> bc_time_offset s \<le> seconds hi)"
proof -
  let ?secs = "map (num_seconds \<circ> snd) ss" and ?m = "sort (map (num_seconds \<circ> snd) ss) ! (length ss div 2)"
  have inv: "distinct (map fst ss)" "length ss \<le> MAX_SAMPLES" "bc_time_offset s = applied_offset ss"
    using sampled_inv [OF assms] by auto
  have honest: "length (filter (\<lambda>x. lo \<le> x \<and> x \<le> hi) ?secs)
      = length (filter (\<lambda>(_, d). lo \<le> num_seconds d \<and> num_seconds d \<le> hi) ss)"
    by (simp add: filter_map comp_def case_prod_unfold)
  have "applied_offset ss = 0 \<or> seconds lo \<le> applied_offset ss \<and> applied_offset ss \<le> seconds hi"
    if "length ss < 2 * length (filter (\<lambda>(_, d). lo \<le> num_seconds d \<and> num_seconds d \<le> hi) ss)"
  proof -
    have "lo \<le> ?m \<and> ?m \<le> hi" using median_within [of ?secs lo hi] that honest by simp
    then have "seconds lo \<le> seconds ?m \<and> seconds ?m \<le> seconds hi" by (simp add: seconds_def nanos_per_sec_def)
    moreover have "applied_offset ss = 0 \<or> applied_offset ss = seconds ?m"
      by (simp add: applied_offset_def median_offset_def median_of_seconds_def)
    ultimately show ?thesis by metis
  qed
  moreover have "applied_offset ss = 0" if "length ss < MIN_SAMPLES_TO_ADJUST"
    using that by (simp add: applied_offset_def median_offset_def median_of_seconds_def)
  ultimately show ?thesis using inv applied_offset_small [of ss] by (simp add: MAX_TIME_ADJUSTMENT_MINUTES_def)
qed

subsection \<open>Why a peer is banned\<close>

record strike_event =
  se_ip :: ip_addr
  se_severe :: bool
  se_now :: instant
  se_later :: instant
  se_saved :: bool

datatype ban_call = Strike strike_event | CheckBan instant ip_addr

fun run_ban :: "(ip_addr \<Rightarrow> string) \<Rightarrow> ban_call \<Rightarrow> bans \<Rightarrow> bans" where
  "run_ban show_ip (Strike e) b = strike show_ip (se_now e) (se_later e) (se_saved e) (se_ip e) (se_severe e) b"
| "run_ban show_ip (CheckBan now ip) b = snd (is_banned now ip b)"

fun strikes_of :: "ban_call list \<Rightarrow> strike_event list" where
  "strikes_of [] = []"
| "strikes_of (Strike e # cs) = e # strikes_of cs"
| "strikes_of (CheckBan _ _ # cs) = strikes_of cs"

lemma strikes_of_append [simp]: "strikes_of (cs @ ds) = strikes_of cs @ strikes_of ds"
  by (induction cs rule: strikes_of.induct) auto

definition no_bans :: bans where
  "no_bans = \<lparr>bn_banned = (\<lambda>_. None), bn_strikes = (\<lambda>_. None), bn_store = []\<rparr>"

text \<open>The ordinary strikes of an address from an instant on.\<close>

definition ordinary_since :: "strike_event list \<Rightarrow> ip_addr \<Rightarrow> instant \<Rightarrow> strike_event list" where
  "ordinary_since es ip t = filter (\<lambda>e. se_ip e = ip \<and> \<not> se_severe e \<and> t \<le> se_now e) es"

definition ban_cause :: "strike_event list \<Rightarrow> ip_addr \<Rightarrow> instant \<Rightarrow> bool" where
  "ban_cause es ip until \<longleftrightarrow> (\<exists>e \<in> set es. se_ip e = ip \<and>
     (if se_severe e then until = se_now e + hours BAN_DURATION_HOURS
      else until = se_later e + hours BAN_DURATION_HOURS
        \<and> unat MAX_STRIKES \<le> length (filter (\<lambda>e'. se_now e' \<le> se_now e) (ordinary_since es ip (se_now e - minutes STRIKE_WINDOW_MINUTES)))))"

definition ban_inv :: "strike_event list \<Rightarrow> bans \<Rightarrow> bool" where
  "ban_inv es b \<longleftrightarrow> (\<forall>ip.
     (\<forall>until. bn_banned b ip = Some until \<longrightarrow> ban_cause es ip until)
     \<and> (\<forall>n st. bn_strikes b ip = Some (n, st) \<longrightarrow> unat n < unat MAX_STRIKES \<and> st \<in> se_now ` set es
          \<and> unat n \<le> length (ordinary_since es ip st)))"

lemma ordinary_since_snoc [simp]:
  "ordinary_since (es @ [e]) ip t = ordinary_since es ip t @ (if se_ip e = ip \<and> \<not> se_severe e \<and> t \<le> se_now e then [e] else [])"
  by (simp add: ordinary_since_def)

lemma ban_cause_snoc: "ban_cause es ip until \<Longrightarrow> ban_cause (es @ [e]) ip until"
  unfolding ban_cause_def by (rule bexE, assumption) (rule_tac x = x in bexI, auto split: if_splits)

lemma ban_inv_snoc: "ban_inv es b \<Longrightarrow> ban_inv (es @ [e]) b"
  using ban_cause_snoc unfolding ban_inv_def by fastforce

lemma ban_now_simps [simp]:
  "bn_banned (ban_now show_ip now saved ip b) = (bn_banned b)(ip \<mapsto> now + hours BAN_DURATION_HOURS)"
  "bn_strikes (ban_now show_ip now saved ip b) = bn_strikes b"
  by (simp_all add: ban_now_def Let_def)

lemma strike_inv:
  assumes inv: "ban_inv es b" and past: "\<forall>e' \<in> set es. se_now e' \<le> se_now e"
  shows "ban_inv (es @ [e]) (run_ban show_ip (Strike e) b)"
proof (cases "se_severe e")
  case True
  then have "ban_cause (es @ [e]) (se_ip e) (se_now e + hours BAN_DURATION_HOURS)" by (auto simp: ban_cause_def)
  then show ?thesis using True ban_inv_snoc [OF inv, of e] by (auto simp: strike_def ban_inv_def)
next
  case False
  define entry where "entry = (case bn_strikes b (se_ip e) of None \<Rightarrow> (0, se_now e) | Some x \<Rightarrow> x)"
  define fresh where "fresh = (if se_now e - snd entry > minutes STRIKE_WINDOW_MINUTES then (0, se_now e) else entry)"
  obtain n st where f: "fresh = (n, st)" by force
  have old: "unat m < unat MAX_STRIKES \<and> u \<le> se_now e \<and> u \<in> se_now ` set es \<and> unat m \<le> length (ordinary_since es (se_ip e) u)"
    if "bn_strikes b (se_ip e) = Some (m, u)" for m u
    using inv past that unfolding ban_inv_def by blast
  have n: "unat n < unat MAX_STRIKES" and st: "st \<le> se_now e" "st \<in> insert (se_now e) (se_now ` set es)"
    and recent: "se_now e - minutes STRIKE_WINDOW_MINUTES \<le> st" and cnt: "unat n \<le> length (ordinary_since es (se_ip e) st)"
    using old f by (auto simp: entry_def fresh_def MAX_STRIKES_def minutes_def seconds_def nanos_per_sec_def
        STRIKE_WINDOW_MINUTES_def split: option.splits if_splits)
  have suc: "unat (n + 1) = Suc (unat n)" using n by (simp add: MAX_STRIKES_def unat_word_ariths)
  have more: "unat (n + 1) \<le> length (ordinary_since (es @ [e]) (se_ip e) st)" using suc cnt st False by simp
  have b': "run_ban show_ip (Strike e) b =
      (if n + 1 \<ge> MAX_STRIKES then ban_now show_ip (se_later e) (se_saved e) (se_ip e)
            (b\<lparr>bn_strikes := (bn_strikes b)(se_ip e := None)\<rparr>)
       else b\<lparr>bn_strikes := (bn_strikes b)(se_ip e \<mapsto> (n + 1, st))\<rparr>)"
    using False unfolding run_ban.simps strike_def Let_def entry_def [symmetric] fresh_def [symmetric] f by simp
  show ?thesis
  proof (cases "n + 1 \<ge> MAX_STRIKES")
    case True
    have "ordinary_since (es @ [e]) (se_ip e) st
        = filter (\<lambda>e'. st \<le> se_now e') (filter (\<lambda>e'. se_now e' \<le> se_now e) (ordinary_since (es @ [e]) (se_ip e) (se_now e - minutes STRIKE_WINDOW_MINUTES)))"
      unfolding ordinary_since_def filter_filter using past recent by (intro filter_cong) auto
    then have "length (ordinary_since (es @ [e]) (se_ip e) st)
        \<le> length (filter (\<lambda>e'. se_now e' \<le> se_now e) (ordinary_since (es @ [e]) (se_ip e) (se_now e - minutes STRIKE_WINDOW_MINUTES)))"
      by (metis length_filter_le)
    moreover have "unat MAX_STRIKES \<le> unat (n + 1)" using True by (simp add: word_le_nat_alt)
    ultimately have "ban_cause (es @ [e]) (se_ip e) (se_later e + hours BAN_DURATION_HOURS)"
      unfolding ban_cause_def using False more by (intro bexI [of _ e]) auto
    then show ?thesis using b' True ban_inv_snoc [OF inv, of e] by (auto simp: ban_inv_def simp del: ordinary_since_snoc)
  next
    case False
    then have "unat (n + 1) < unat MAX_STRIKES" by (simp add: word_le_nat_alt)
    then show ?thesis using b' False ban_inv_snoc [OF inv, of e] more st by (auto simp: ban_inv_def simp del: ordinary_since_snoc)
  qed
qed

lemma check_inv: "ban_inv es b \<Longrightarrow> ban_inv es (run_ban show_ip (CheckBan now ip) b)"
  by (auto simp: is_banned_def ban_inv_def split: option.split)

lemma bans_inv:
  assumes "sorted (map se_now (strikes_of cs))"
  shows "ban_inv (strikes_of cs) (fold (run_ban show_ip) cs no_bans)"
  using assms
proof (induction cs rule: rev_induct)
  case Nil
  then show ?case by (simp add: ban_inv_def no_bans_def)
next
  case (snoc c cs)
  then have "ban_inv (strikes_of cs) (fold (run_ban show_ip) cs no_bans)" by (simp add: sorted_append)
  then show ?case using snoc.prems strike_inv check_inv by (cases c) (auto simp: sorted_append)
qed

text \<open>
  A peer is banned only for cause.  Over any run of strikes and checks, an address that is
  turned away got a severe strike within the last hour, or a strike within the last hour that
  was at least its third ordinary one in ten minutes.
\<close>

theorem ban_needs_cause:
  assumes "sorted (map se_now (strikes_of cs))" "fst (is_banned t ip (fold (run_ban show_ip) cs no_bans))"
  shows "\<exists>e \<in> set (strikes_of cs). se_ip e = ip \<and>
    (if se_severe e then t < se_now e + hours 1
     else t < se_later e + hours 1
       \<and> 3 \<le> length (filter (\<lambda>e'. se_ip e' = ip \<and> \<not> se_severe e' \<and> se_now e - minutes 10 \<le> se_now e' \<and> se_now e' \<le> se_now e) (strikes_of cs)))"
proof -
  obtain until where u: "bn_banned (fold (run_ban show_ip) cs no_bans) ip = Some until" "t < until"
    using assms(2) by (auto simp: is_banned_def split: option.splits if_splits)
  then have "ban_cause (strikes_of cs) ip until" using bans_inv [OF assms(1), of show_ip] by (simp add: ban_inv_def)
  moreover have three: "unat MAX_STRIKES = 3" by (simp add: MAX_STRIKES_def)
  ultimately obtain e where e: "e \<in> set (strikes_of cs)" "se_ip e = ip"
    "if se_severe e then until = se_now e + hours 1
     else until = se_later e + hours 1 \<and> 3 \<le> length (filter (\<lambda>e'. se_ip e' = ip \<and> \<not> se_severe e' \<and> se_now e - minutes 10 \<le> se_now e' \<and> se_now e' \<le> se_now e) (strikes_of cs))"
    unfolding ban_cause_def ordinary_since_def filter_filter three BAN_DURATION_HOURS_def STRIKE_WINDOW_MINUTES_def conj_assoc
    by blast
  then show ?thesis using u(2) by (intro bexI [of _ e]) (auto split: if_splits)
qed

subsection \<open>A third strike counts, and outlives a restart\<close>

lemma strike_ordinary:
  assumes "bn_strikes b ip = None \<and> n = 0 \<and> st = now \<or> bn_strikes b ip = Some (n, st) \<and> now - st \<le> minutes STRIKE_WINDOW_MINUTES"
  shows "strike show_ip now later saved ip False b =
    (if n + 1 \<ge> MAX_STRIKES then ban_now show_ip later saved ip (b\<lparr>bn_strikes := (bn_strikes b)(ip := None)\<rparr>)
     else b\<lparr>bn_strikes := (bn_strikes b)(ip \<mapsto> (n + 1, st))\<rparr>)"
  using assms by (auto simp: strike_def Let_def minutes_def seconds_def nanos_per_sec_def STRIKE_WINDOW_MINUTES_def)

lemma restored_ban:
  assumes "distinct (map fst entries)" "(k, u) \<in> set entries" "parse k = Some ip" "now < seconds u"
    and "\<forall>(k', _) \<in> set entries. parse k' = Some ip \<longrightarrow> k' = k"
  shows "bn_banned (fold (\<lambda>(ip_str, until_unix) b.
             case parse ip_str of
               None \<Rightarrow> b
             | Some ip \<Rightarrow>
                 let until = seconds until_unix
                 in if until > now then b\<lparr>bn_banned := (bn_banned b)(ip \<mapsto> until)\<rparr> else b) entries b) ip = Some (seconds u)"
  using assms
proof (induction entries arbitrary: b rule: rev_induct)
  case (snoc x entries)
  obtain k' u' where x: "x = (k', u')" by force
  show ?case
  proof (cases "k' = k")
    case True
    then have "u' = u" using snoc.prems(1,2) x by force
    then show ?thesis using x True snoc.prems(3,4) by simp
  next
    case False
    then have "(k, u) \<in> set entries" "parse k' \<noteq> Some ip" using snoc.prems(2,5) x by auto
    moreover have "distinct (map fst entries)" "\<forall>(k', _) \<in> set entries. parse k' = Some ip \<longrightarrow> k' = k"
      using snoc.prems(1,5) by auto
    ultimately show ?thesis using x snoc.IH snoc.prems(3,4) by (auto simp: Let_def split: option.split)
  qed
qed simp

text \<open>
  The third ordinary strike of an address within ten minutes turns it away for an hour, and,
  when the ban was written, a node restarted meanwhile still turns it away until the second the
  hour is over.
\<close>

theorem third_strike_bans:
  assumes "bn_strikes b ip = None" "t2 - t1 \<le> minutes 10" "t3 - t1 \<le> minutes 10" "bm_wf (bn_store b)"
    and "parse (show_ip ip) = Some ip" "\<forall>(k, _) \<in> set (bn_store b). parse k = Some ip \<longrightarrow> k = show_ip ip"
    and after_def: "after = strike show_ip t3 u3 True ip False (strike show_ip t2 u2 v2 ip False (strike show_ip t1 u1 v1 ip False b))"
  shows "(t < u3 + hours 1 \<longrightarrow> fst (is_banned t ip after))
    \<and> (restart \<le> t \<longrightarrow> t < seconds ((u3 + hours 1) div nanos_per_sec) \<longrightarrow>
        fst (is_banned t ip (load_persisted parse restart (bn_store after))))"
proof -
  let ?until = "(u3 + hours BAN_DURATION_HOURS) div nanos_per_sec"
  have ban: "MAX_STRIKES = 3" "\<not> (3 :: u32) \<le> 1" "\<not> (3 :: u32) \<le> 2" "minutes STRIKE_WINDOW_MINUTES = minutes 10"
    by (simp_all add: MAX_STRIKES_def STRIKE_WINDOW_MINUTES_def word_le_nat_alt)
  have "strike show_ip t1 u1 v1 ip False b = b\<lparr>bn_strikes := (bn_strikes b)(ip \<mapsto> (1, t1))\<rparr>"
    using strike_ordinary [of b ip 0 t1 t1] assms(1) ban by simp
  moreover have "strike show_ip t2 u2 v2 ip False (b\<lparr>bn_strikes := (bn_strikes b)(ip \<mapsto> (1, t1))\<rparr>)
      = b\<lparr>bn_strikes := (bn_strikes b)(ip \<mapsto> (2, t1))\<rparr>"
    using strike_ordinary [of "b\<lparr>bn_strikes := (bn_strikes b)(ip \<mapsto> (1, t1))\<rparr>" ip 1 t1 t2] assms(2) ban by simp
  ultimately have after: "after = ban_now show_ip u3 True ip (b\<lparr>bn_strikes := (bn_strikes b)(ip := None)\<rparr>)"
    using strike_ordinary [of "b\<lparr>bn_strikes := (bn_strikes b)(ip \<mapsto> (2, t1))\<rparr>" ip 2 t1 t3] assms(3) ban by (simp add: after_def)
  have store: "bn_store after = bm_insert (show_ip ip) ?until (bn_store b)"
    by (simp add: after ban_now_def Let_def save_ban_def)
  have "fst (is_banned t ip (load_persisted parse restart (bn_store after)))" if "restart \<le> t" "t < seconds ?until"
  proof -
    have "bn_banned (load_persisted parse restart (bn_store after)) ip = Some (seconds ?until)"
      unfolding load_persisted_def load_bans_def
    proof (rule restored_ban)
      show "distinct (map fst (bn_store after))" unfolding store by (rule bm_wf_distinct) (simp add: assms(4))
      show "(show_ip ip, ?until) \<in> set (bn_store after)" unfolding store by (rule bm_get_in_set) simp
      show "\<forall>(k', _) \<in> set (bn_store after). parse k' = Some ip \<longrightarrow> k' = show_ip ip"
        using assms(6) bm_insert_subset [of "show_ip ip" ?until "bn_store b"] store by auto
    qed (use assms(5) that in auto)
    then show ?thesis using that by (simp add: is_banned_def)
  qed
  moreover have "fst (is_banned t ip after)" if "t < u3 + hours 1" using that by (simp add: after is_banned_def BAN_DURATION_HOURS_def)
  ultimately show ?thesis by (simp add: BAN_DURATION_HOURS_def)
qed

end
