(* ===== verification/Node_Store.thy ===== *)
theory Node_Store
  imports Chain_Node Node_Peers
begin

text \<open>
  The durable chain: the tables of \<open>lib/src/store.rs\<close>, how \<open>node/src/util.rs\<close> writes a block that
  was accepted and reads the chain back, and how \<open>node/src/main.rs\<close> starts from a store.  A table
  maps keys to values (a block's CBOR is read back as the block); the record of the active chain
  is the bytes the code writes.  redb's own failures are left out: a write happens, or the
  process dies before it.
\<close>

subsection \<open>Tables\<close>

definition SCHEMA_VERSION :: u32 where "SCHEMA_VERSION = 2"

datatype store_error =
    CorruptActiveChain nat
  | UnsupportedSchemaVersion u32 u32
  | CorruptSchemaVersion

record block_store =
  sb_blocks :: "(hash, block) bmap"
  sb_active_chain :: "byte list option"
  sb_schema_version :: "byte list option"
  sb_bans :: "ban_table option"

definition empty_store :: block_store where
  "empty_store = \<lparr>sb_blocks = [], sb_active_chain = None, sb_schema_version = None, sb_bans = None\<rparr>"

text \<open>\<open>open_table\<close> of a write transaction creates a table that is missing.\<close>

definition open_bans_table :: "block_store \<Rightarrow> block_store" where
  "open_bans_table st = st\<lparr>sb_bans := Some (case sb_bans st of None \<Rightarrow> [] | Some t \<Rightarrow> t)\<rparr>"

definition migrate_v1_to_v2 :: "block_store \<Rightarrow> block_store" where
  "migrate_v1_to_v2 st = open_bans_table st"

definition MIGRATIONS :: "(u32 \<times> (block_store \<Rightarrow> block_store)) list" where
  "MIGRATIONS = [(2, migrate_v1_to_v2)]"

definition open_or_create :: "block_store \<Rightarrow> (store_error, block_store) outcome" where
  "open_or_create st =
     (let stamp = (\<lambda>st. st\<lparr>sb_schema_version := Some (u32_to_be_bytes SCHEMA_VERSION)\<rparr>)
      in case sb_schema_version st of
           None \<Rightarrow> Ok (stamp (open_bans_table st))
         | Some bytes \<Rightarrow>
             if length bytes \<noteq> 4 then Err CorruptSchemaVersion
             else
               let found = u32_from_be_bytes bytes
               in if found > SCHEMA_VERSION then Err (UnsupportedSchemaVersion found SCHEMA_VERSION)
                  else if found < SCHEMA_VERSION
                  then Ok (stamp (fold (\<lambda>(version, migration) st. if version > found then migration st else st) MIGRATIONS st))
                  else Ok (stamp st))"

definition put_block :: "prims \<Rightarrow> block \<Rightarrow> block_store \<Rightarrow> block_store" where
  "put_block P b st = st\<lparr>sb_blocks := bm_insert (block_hash P b) b (sb_blocks st)\<rparr>"

definition delete_blocks :: "hash list \<Rightarrow> block_store \<Rightarrow> block_store" where
  "delete_blocks hs st = st\<lparr>sb_blocks := fold bm_remove hs (sb_blocks st)\<rparr>"

definition stored_block :: "block_store \<Rightarrow> hash \<Rightarrow> block option" where
  "stored_block st h = bm_get (sb_blocks st) h"

definition set_active_chain :: "hash list \<Rightarrow> block_store \<Rightarrow> block_store" where
  "set_active_chain chain st = st\<lparr>sb_active_chain := Some (concat (map hash_as_bytes chain))\<rparr>"

definition get_active_chain :: "block_store \<Rightarrow> (store_error, hash list) outcome" where
  "get_active_chain st =
     (case sb_active_chain st of
        None \<Rightarrow> Ok []
      | Some bytes \<Rightarrow>
          if length bytes mod 32 \<noteq> 0 then Err (CorruptActiveChain (length bytes))
          else Ok (map hash_from_bytes (chunks_exact 32 bytes)))"

subsection \<open>Writing and reading the chain\<close>

record node =
  nd_store :: block_store
  nd_chain :: blockchain

text \<open>The writes for an accepted block, one transaction each: the store before them and after each.\<close>

definition persist_writes :: "prims \<Rightarrow> block \<Rightarrow> blockchain \<Rightarrow> block_store \<Rightarrow> block_store list" where
  "persist_writes P b s st =
     (let st1 = put_block P b st;
          st2 = set_active_chain (bc_active_chain s) st1;
          st3 = delete_blocks (fst (take_pruned_hashes s)) st2
      in [st, st1, st2, st3])"

definition persist_chain_state :: "prims \<Rightarrow> block \<Rightarrow> node \<Rightarrow> node" where
  "persist_chain_state P b nd =
     nd\<lparr>nd_store := last (persist_writes P b (nd_chain nd) (nd_store nd)),
        nd_chain := snd (take_pruned_hashes (nd_chain nd))\<rparr>"

datatype load_error = GenesisMismatch | MissingBlock nat | Rejected btc_error | Unreadable store_error

fun load_blocks ::
  "prims \<Rightarrow> (nat \<Rightarrow> instant) \<Rightarrow> block_store \<Rightarrow> nat \<Rightarrow> hash list \<Rightarrow> blockchain \<Rightarrow> (load_error, unit) outcome \<times> blockchain" where
  "load_blocks P clock st i [] s = (Ok (), s)"
| "load_blocks P clock st i (h # hs) s =
     (case stored_block st h of
        None \<Rightarrow> (Err (MissingBlock i), s)
      | Some b \<Rightarrow>
          let (r, s) = add_block P (clock i) b s
          in with_check (map_err Rejected r) s (\<lambda>_. load_blocks P clock st (Suc i) hs s))"

definition load_from_store ::
  "prims \<Rightarrow> (nat \<Rightarrow> instant) \<Rightarrow> hash list \<Rightarrow> node \<Rightarrow> (load_error, unit) outcome \<times> node" where
  "load_from_store P clock chain nd =
     with_check (case chain of
                   [] \<Rightarrow> Ok ()
                 | first_hash # _ \<Rightarrow>
                     obind (map_err Rejected (genesis_hash P)) (\<lambda>g. if first_hash \<noteq> g then Err GenesisMismatch else Ok ())) nd (\<lambda>_.
       let (r, s) = load_blocks P clock (nd_store nd) 0 chain (nd_chain nd);
           nd = nd\<lparr>nd_chain := s\<rparr>
       in with_check r nd (\<lambda>_.
            let (pruned, s) = take_pruned_hashes s
            in (Ok (), nd\<lparr>nd_store := delete_blocks pruned (nd_store nd), nd_chain := s\<rparr>)))"

text \<open>Start-up, up to the point where peers are asked: the chain in the store, or a fresh genesis.\<close>

definition node_start ::
  "prims \<Rightarrow> (nat \<Rightarrow> instant) \<Rightarrow> block_store \<Rightarrow> (load_error, unit) outcome \<times> node" where
  "node_start P clock st =
     (let fresh = \<lparr>nd_store = st, nd_chain = blockchain_new\<rparr>
      in with_check (map_err Unreadable (open_or_create st)) fresh (\<lambda>st.
         let fresh = fresh\<lparr>nd_store := st\<rparr>
         in with_check (map_err Unreadable (get_active_chain st)) fresh (\<lambda>existing_chain.
            if existing_chain \<noteq> [] then load_from_store P clock existing_chain fresh
            else with_check (map_err Rejected (genesis_block P)) fresh (\<lambda>genesis.
              case add_block P (clock 0) genesis blockchain_new of
                (Ok _, s) \<Rightarrow> (Ok (), persist_chain_state P genesis (fresh\<lparr>nd_chain := s\<rparr>))
              | (_, s) \<Rightarrow> (Panic, fresh\<lparr>nd_chain := s\<rparr>)))))"

text \<open>
  A block from a peer or a miner: what is accepted is written, what is not leaves the store alone.
  Adding and writing are one step here.  The code releases the chain after \<open>add_block\<close> and takes it
  again in \<open>persist_chain_state\<close>; \<open>Node_Restart\<close> shows what another connection can do in between.
\<close>

definition deliver_block :: "prims \<Rightarrow> instant \<Rightarrow> block \<Rightarrow> node \<Rightarrow> unit chain_result \<times> node" where
  "deliver_block P now b nd =
     (case add_block P now b (nd_chain nd) of
        (Ok _, s) \<Rightarrow> (Ok (), persist_chain_state P b (nd\<lparr>nd_chain := s\<rparr>))
      | (r, s) \<Rightarrow> (r, nd\<lparr>nd_chain := s\<rparr>))"

end
