(* ===== verification/Node_Process.thy ===== *)
theory Node_Process
  imports Node_Store
begin

text \<open>
  The node process: what a node answers to each message and what the message does to its chain,
  its store and its opinion of the sender (\<open>node/src/handler.rs\<close>), and the first steps after
  start-up, when it asks its peers for their tips and downloads the best chain
  (\<open>node/src/util.rs\<close>).  A reply is taken to reach the peer: a send that fails ends the task of that
  connection and changes nothing the node keeps.  One message is handled at a time.  The write
  lock on the chain imposes that for what a message does to the chain, not for the writes to the
  store that follow (\<open>Node_Restart\<close>).
\<close>

record process =
  np_node :: node
  np_bans :: bans
  np_samples :: samples
  np_nodes :: "string list"

text \<open>What one turn reads from outside: the clock, a fresh identifier, whether a ban is written.\<close>

record turn =
  tn_now :: instant
  tn_strike :: instant
  tn_ban :: instant
  tn_saved :: bool
  tn_uuid :: uuid

datatype verdict = Continue | Closed | Died

type_synonym handled = "verdict \<times> message list \<times> message list \<times> process"

subsection \<open>The connection handler\<close>

text \<open>The ban table is one of the tables of the store.\<close>

definition strike_peer :: "(ip_addr \<Rightarrow> string) \<Rightarrow> turn \<Rightarrow> ip_addr option \<Rightarrow> bool \<Rightarrow> process \<Rightarrow> process" where
  "strike_peer show_ip tn peer severe p =
     (case peer of
        None \<Rightarrow> p
      | Some ip \<Rightarrow>
          let b = strike show_ip (tn_strike tn) (tn_ban tn) (tn_saved tn) ip severe (np_bans p);
              nd = np_node p
          in p\<lparr>np_bans := b, np_node := nd\<lparr>nd_store := (nd_store nd)\<lparr>sb_bans := Some (bn_store b)\<rparr>\<rparr>\<rparr>)"

fun batch_loop :: "prims \<Rightarrow> (hash, block) bmap \<Rightarrow> hash list \<Rightarrow> nat \<Rightarrow> block list \<Rightarrow> block list chain_result" where
  "batch_loop P blocks [] total_bytes acc = Ok acc"
| "batch_loop P blocks (h # hs) total_bytes acc =
     obind (expect (bm_get blocks h)) (\<lambda>b.
       let size = block_serialized_size P b
       in if total_bytes + size > MAX_FETCH_BATCH_BYTES \<and> acc \<noteq> [] then Ok acc
          else batch_loop P blocks hs (total_bytes + size) (acc @ [b]))"

definition fetch_blocks :: "prims \<Rightarrow> u64 \<Rightarrow> u32 \<Rightarrow> blockchain \<Rightarrow> block list chain_result" where
  "fetch_blocks P start n s =
     (let max_count = min (unat n) BLOCKS_PER_FETCH_BATCH
      in if max_count = 0 then Ok []
         else obind (lookup_blocks (bc_blocks s) (take (unat start) (bc_active_chain s))) (\<lambda>_.
                batch_loop P (bc_blocks s) (take max_count (drop (unat start) (bc_active_chain s))) 0 []))"

definition fetch_utxos :: "prims \<Rightarrow> public_key \<Rightarrow> blockchain \<Rightarrow> (transaction_output \<times> bool) list" where
  "fetch_utxos P key s =
     List.map_filter (\<lambda>h. case bm_get (bc_utxos s) h of
         Some (m, txout) \<Rightarrow> if txo_pubkey txout = key then Some (txout, m) else None
       | None \<Rightarrow> None) (hash_iter P (bm_keys (bc_utxos s)))"

definition validate_template :: "prims \<Rightarrow> block \<Rightarrow> blockchain \<Rightarrow> bool chain_result" where
  "validate_template P template s =
     obind (blocks_of s) (\<lambda>bs.
       let prev_hash_matches = (bh_prev_block_hash (blk_header template) = (if bs = [] then hash_zero else block_hash P (last bs)));
           target_matches = (bh_target (blk_header template) = bc_target s)
       in Ok (prev_hash_matches \<and> target_matches))"

definition reply_or_die :: "message chain_result \<Rightarrow> process \<Rightarrow> handled" where
  "reply_or_die r p = (case r of Ok m \<Rightarrow> (Continue, [m], [], p) | Err _ \<Rightarrow> (Closed, [], [], p) | _ \<Rightarrow> (Died, [], [], p))"

text \<open>A block: \<open>relayed\<close> is what is broadcast once it is accepted and written.\<close>

definition handle_block ::
  "prims \<Rightarrow> (ip_addr \<Rightarrow> string) \<Rightarrow> turn \<Rightarrow> ip_addr option \<Rightarrow> message list \<Rightarrow> block \<Rightarrow> process \<Rightarrow> handled" where
  "handle_block P show_ip tn peer relayed b p =
     (let (r, nd) = deliver_block P (tn_now tn) b (np_node p);
          p = p\<lparr>np_node := nd\<rparr>
      in case r of
           Ok _ \<Rightarrow> (Continue, [], relayed, p)
         | Err OrphanBlock \<Rightarrow> (Continue, [], [], p)
         | Err _ \<Rightarrow> (Closed, [], [], strike_peer show_ip tn peer False p)
         | _ \<Rightarrow> (Died, [], [], p))"

definition handle_transaction :: "prims \<Rightarrow> turn \<Rightarrow> transaction \<Rightarrow> process \<Rightarrow> unit chain_result \<times> process" where
  "handle_transaction P tn tx p =
     (let nd = np_node p;
          (r, s) = add_to_mempool P (tn_now tn) tx (nd_chain nd)
      in (r, p\<lparr>np_node := nd\<lparr>nd_chain := s\<rparr>\<rparr>))"

fun handle_message ::
  "prims \<Rightarrow> (ip_addr \<Rightarrow> string) \<Rightarrow> turn \<Rightarrow> ip_addr option \<Rightarrow> message \<Rightarrow> process \<Rightarrow> handled" where
  "handle_message P show_ip tn peer (FetchBlocks start n) p =
     reply_or_die (obind (fetch_blocks P start n (nd_chain (np_node p))) (\<lambda>bs. Ok (Blocks bs))) p"
| "handle_message P show_ip tn peer DiscoverNodes p = (Continue, [NodeList (np_nodes p)], [], p)"
| "handle_message P show_ip tn peer AskChainTip p =
     (let s = nd_chain (np_node p)
      in reply_or_die (obind (chain_work s) (\<lambda>w. Ok (ChainTip (ucast (block_height s)) w))) p)"
| "handle_message P show_ip tn peer (FetchUTXOs key) p = (Continue, [UTXOs (fetch_utxos P key (nd_chain (np_node p)))], [], p)"
| "handle_message P show_ip tn peer (NewBlock b) p = handle_block P show_ip tn peer [] b p"
| "handle_message P show_ip tn peer (NewTransaction tx) p =
     (let (r, p) = handle_transaction P tn tx p
      in (if returns r then Continue else Died, [], [], p))"
| "handle_message P show_ip tn peer (ValidateTemplate template) p =
     reply_or_die (obind (validate_template P template (nd_chain (np_node p))) (\<lambda>status. Ok (TemplateValidity status))) p"
| "handle_message P show_ip tn peer (SubmitTemplate b) p = handle_block P show_ip tn peer [NewBlock b] b p"
| "handle_message P show_ip tn peer (SubmitTransaction tx) p =
     (let (r, p) = handle_transaction P tn tx p
      in case r of
           Ok _ \<Rightarrow> (Continue, [], [NewTransaction tx], p)
         | Err _ \<Rightarrow> (Closed, [], [], strike_peer show_ip tn peer False p)
         | _ \<Rightarrow> (Died, [], [], p))"
| "handle_message P show_ip tn peer (FetchTemplate pubkey) p =
     reply_or_die (obind (create_block_template P (tn_now tn) (tn_uuid tn) pubkey (nd_chain (np_node p))) (\<lambda>b. Ok (Template b))) p"
| "handle_message P show_ip tn peer _ p = (Closed, [], [], strike_peer show_ip tn peer True p)"

text \<open>The loop over the messages of a connection, after the handshake; every frame takes at least eight bytes.\<close>

lemma receive_consumes:
  assumes "message_receive C c = (Ok m, c')"
  shows "length (incoming c') < length (incoming c)"
  using assms by (auto simp: message_receive_def read_exact_def with_step_def Let_def split: if_splits)

function serve ::
  "prims \<Rightarrow> codec \<Rightarrow> (ip_addr \<Rightarrow> string) \<Rightarrow> (nat \<Rightarrow> turn) \<Rightarrow> ip_addr option \<Rightarrow> nat \<Rightarrow> connection \<Rightarrow> process \<Rightarrow> handled" where
  "serve P C show_ip tn peer i c p =
     (case message_receive C c of
        (Ok m, c') \<Rightarrow>
          (case handle_message P show_ip (tn i) peer m p of
             (Continue, out, relayed, p') \<Rightarrow>
               (case serve P C show_ip tn peer (Suc i) c' p' of (v, out', relayed', q) \<Rightarrow> (v, out @ out', relayed @ relayed', q))
           | stopped \<Rightarrow> stopped)
      | (Err e, _) \<Rightarrow> (Closed, [], [], if is_benign_disconnect e then p else strike_peer show_ip (tn i) peer True p)
      | (_, _) \<Rightarrow> (Died, [], [], p))"
  by pat_completeness auto
termination
  by (relation "measure (\<lambda>(P, C, show_ip, tn, peer, i, c, p). length (incoming c))") (auto dest: receive_consumes [OF sym])

declare serve.simps [simp del]

text \<open>\<open>received_at\<close> and \<open>acked\<close> are the clock readings of the handshake; the acknowledgement is the first reply.\<close>

definition handle_connection ::
  "prims \<Rightarrow> codec \<Rightarrow> (ip_addr \<Rightarrow> string) \<Rightarrow> instant \<Rightarrow> instant \<Rightarrow> (nat \<Rightarrow> turn) \<Rightarrow> ip_addr option \<Rightarrow> connection \<Rightarrow> process \<Rightarrow>
     byte list \<times> handled" where
  "handle_connection P C show_ip received_at acked tn peer c p =
     (case perform_handshake_acceptor C received_at acked c of
        (Ok offset, ack, c) \<Rightarrow>
          let p = (case peer of
                     None \<Rightarrow> p
                   | Some ip \<Rightarrow>
                       let (ss, s) = record_sample ip offset (np_samples p) (nd_chain (np_node p))
                       in p\<lparr>np_samples := ss, np_node := (np_node p)\<lparr>nd_chain := s\<rparr>\<rparr>)
          in (ack, serve P C show_ip tn peer 1 c p)
      | (Err _, ack, _) \<Rightarrow> (ack, Closed, [], [], strike_peer show_ip (tn 0) peer True p)
      | (_, ack, _) \<Rightarrow> (ack, Died, [], [], p))"

text \<open>The accept loop of \<open>main.rs\<close>: a banned address is turned away before anything is read.\<close>

definition accept ::
  "prims \<Rightarrow> codec \<Rightarrow> (ip_addr \<Rightarrow> string) \<Rightarrow> instant \<Rightarrow> instant \<Rightarrow> instant \<Rightarrow> (nat \<Rightarrow> turn) \<Rightarrow> ip_addr \<Rightarrow> connection \<Rightarrow> process \<Rightarrow>
     byte list \<times> handled" where
  "accept P C show_ip now received_at acked tn ip c p =
     (let (banned, b) = is_banned now ip (np_bans p);
          p = p\<lparr>np_bans := b\<rparr>
      in if banned then ([], Closed, [], [], p)
         else handle_connection P C show_ip received_at acked tn (Some ip) c p)"

end
