(* ===== verification/Node_Restart.thy ===== *)
theory Node_Restart
  imports Node_Store Itx_Machine
begin

text \<open>
  A node that stops can start again.  What a store records is read back; replaying a recorded
  chain rebuilds the state the node had, marks and mempool aside; and over any run of a node to
  which no block is handed before its parent and which writes each block before it takes the next,
  a crash at any point of a write loses at most the block being written.  Both conditions are
  needed: an orphan that is adopted is not written, and a write that another connection overtakes
  leaves a record of a block that is not there; from either store the node does not start.
\<close>

subsection \<open>The record of the active chain\<close>

lemma get_set_active_chain [simp]: "get_active_chain (set_active_chain chain st) = Ok chain"
proof -
  have "length (concat (map hash_as_bytes chain)) = 32 * length chain"
    by (induction chain) auto
  moreover have "chunks_exact 32 (concat (map hash_as_bytes chain)) = map hash_as_bytes chain"
    by (rule chunks_exact_concat) auto
  ultimately show ?thesis
    by (simp add: get_active_chain_def set_active_chain_def comp_def)
qed

lemma store_simps [simp]:
  "get_active_chain (put_block P b st) = get_active_chain st"
  "get_active_chain (delete_blocks hs st) = get_active_chain st"
  "sb_schema_version (put_block P b st) = sb_schema_version st"
  "sb_schema_version (delete_blocks hs st) = sb_schema_version st"
  "sb_schema_version (set_active_chain chain st) = sb_schema_version st"
  "stored_block (put_block P b st) h = (if h = block_hash P b then Some b else stored_block st h)"
  "stored_block (delete_blocks hs st) h = (if h \<in> set hs then None else stored_block st h)"
  "stored_block (set_active_chain chain st) h = stored_block st h"
  by (simp_all add: get_active_chain_def put_block_def delete_blocks_def set_active_chain_def stored_block_def bm.get_fold_rem)

lemma open_current:
  assumes "sb_schema_version st = Some (u32_to_be_bytes SCHEMA_VERSION)"
  shows "open_or_create st = Ok st"
  using assms by (simp add: open_or_create_def)

subsection \<open>Replaying a recorded chain\<close>

lemma check_extends_tip_accepts:
  assumes rep: "active_rep P s A" and chk: "attaches P A b" "block_ok P A b"
    and time: "block_time b \<le> now + bc_time_offset s + seconds MAX_FUTURE_BLOCK_DRIFT_SECONDS"
  shows "check_extends_tip P now s b = Ok ()" "bh_prev_block_hash (blk_header b) = tip_hash s"
proof -
  note rep' = rep [unfolded active_rep_def]
  have last: "bm_get (bc_blocks s) (last (bc_active_chain s)) = Some (last A)" if "A \<noteq> []"
    using rep' that by (simp add: last_map stored_def)
  have ver: "verify_transactions P b (block_height s) (bc_utxos s) = Ok ()"
    using chk(2) rep' verify_transactions_strip [of P b "of_nat (length A)" "bc_utxos s"]
    by (simp add: block_ok_def block_height_def)
  have tgt: "bh_target (blk_header b) = bc_target s" using chk(2) rep' by (simp add: block_ok_def)
  show "bh_prev_block_hash (blk_header b) = tip_hash s"
    using chk(1) tip_hash_rep [OF rep] by (auto simp: attaches_def split: if_splits)
  show "check_extends_tip P now s b = Ok ()"
    using chk time ver tgt last rep'
    by (auto simp: check_extends_tip_def attaches_def block_ok_def check_timestamp_def block_time_def Let_def split: if_splits)
qed

text \<open>A chain in memory and nothing else: no side branches, no orphans, no mempool.\<close>

definition loaded :: "prims \<Rightarrow> block set \<Rightarrow> blockchain \<Rightarrow> block list \<Rightarrow> bool" where
  "loaded P U s A \<longleftrightarrow> chain_inv P U s A \<and> bc_orphans s = [] \<and> bc_mempool s = [] \<and> bc_pending_prunes s = []
     \<and> bc_time_offset s = 0 \<and> bc_utxos s = replay_blocks P A
     \<and> (\<forall>h. bm_contains h (bc_blocks s) \<longrightarrow> h \<in> set (bc_active_chain s))"

lemma loaded_new: "loaded P U blockchain_new []"
  using chain_inv_new [of P U] by (simp add: loaded_def) (simp add: blockchain_new_def replay_blocks_def bm_contains_def)

lemma prune_nothing:
  assumes "distinct (bc_active_chain s)" "\<forall>h. bm_contains h (bc_blocks s) \<longrightarrow> h \<in> set (bc_active_chain s)" "prims_ok P"
  shows "prune_side_blocks P keep s = (Ok (), s)"
proof -
  have loop: "prunable_loop blocks index n k hs = Ok []" if "\<forall>h \<in> set hs. bm_contains h index" for blocks index n k hs
    using that by (induction hs) auto
  have "bm_contains h (active_chain_index (bc_active_chain s))" if "h \<in> set (bc_active_chain s)" for h
    using that active_chain_index_get [OF assms(1)] by (auto simp: bm_contains_get in_set_conv_nth)
  moreover have "set (hash_iter P (bm_keys (bc_blocks s))) = {h. bm_contains h (bc_blocks s)}"
    using assms(3) mset_eq_setD [of "hash_iter P (bm_keys (bc_blocks s))" "bm_keys (bc_blocks s)"]
    by (simp add: prims_ok_def bm_keys_set)
  ultimately have "prunable_side_blocks P s keep = Ok []"
    unfolding prunable_side_blocks_def using assms(2) by (intro loop) auto
  then show ?thesis by (simp add: prune_side_blocks_def)
qed

lemma add_block_no_orphans:
  assumes "add_block_once P now b s = (Ok h, t)" "bc_orphans t = []"
  shows "add_block P now b s = (Ok (), t)"
  using assms by (simp add: add_block_def with_step_def ready_orphans_def bm_keys_def List.map_filter_def)

lemma loaded_step:
  assumes L: "loaded P U s A" and ok: "good_hashes P U" "prims_ok P" "b \<in> U" and v: "valid_chain P (A @ [b])"
    and time: "block_time b \<le> now + seconds MAX_FUTURE_BLOCK_DRIFT_SECONDS"
  obtains t where "add_block P now b s = (Ok (), t)" "loaded P U t (A @ [b])"
proof -
  have inv: "chain_inv P U s A" and L': "bc_orphans s = []" "bc_mempool s = []" "bc_pending_prunes s = []"
      "bc_time_offset s = 0" "bc_utxos s = replay_blocks P A" "\<And>h. bm_contains h (bc_blocks s) \<Longrightarrow> h \<in> set (bc_active_chain s)"
    using L by (auto simp: loaded_def)
  have "active_rep P s A" "attaches P A b" "block_ok P A b" using inv v by (simp_all add: chain_inv_def valid_chain_snoc)
  from check_extends_tip_accepts [OF this] time L'(4)
  have chk: "check_extends_tip P now s b = Ok ()" and prev: "bh_prev_block_hash (blk_header b) = tip_hash s" by simp_all
  from add_block_extending_tip_eq [OF inv ok prev chk] obtain tgt where
    inv3: "chain_inv P U (extended P now b tgt s) (A @ [b])"
    and eq: "add_block_extending_tip P now b s =
       (if length (bc_active_chain (extended P now b tgt s)) mod DIFFICULTY_UPDATE_INTERVAL = 0
        then with_step (prune_side_blocks P SIDE_BRANCH_PRUNE_DEPTH (extended P now b tgt s)) (\<lambda>_ s4. (Ok (block_hash P b), s4))
        else (Ok (block_hash P b), extended P now b tgt s))" by blast
  let ?t = "extended P now b tgt s"
  have t: "?t = s\<lparr>bc_utxos := apply_transactions P (blk_transactions b) (bc_utxos s), bc_blocks := bm_insert (block_hash P b) b (bc_blocks s),
      bc_active_chain := bc_active_chain s @ [block_hash P b], bc_target := tgt\<rparr>"
    using L'(2) by (simp add: extended_def apply_block_def evict_stale_mempool_entries_def cleanup_mempool_def)
  have loaded: "loaded P U ?t (A @ [b])"
    using inv3 L' by (auto simp: loaded_def t replay_blocks_snoc bm_contains_def split: if_splits)
  have "distinct (bc_active_chain ?t)"
  proof -
    have "distinct (A @ [b])" "stored P (bc_blocks ?t) (A @ [b])" "bc_active_chain ?t = map (block_hash P) (A @ [b])"
      using inv3 valid_chain_distinct [OF v] by (auto simp: chain_inv_def active_rep_def)
    then show ?thesis using stored_distinct_hashes by metis
  qed
  then have "prune_side_blocks P SIDE_BRANCH_PRUNE_DEPTH ?t = (Ok (), ?t)"
    using loaded by (intro prune_nothing [OF _ _ ok(2)]) (auto simp: loaded_def)
  then have "add_block_once P now b s = (Ok (block_hash P b), ?t)"
    using eq prev by (simp add: add_block_once_def with_step_def)
  then have "add_block P now b s = (Ok (), ?t)" using L'(1) by (intro add_block_no_orphans) (simp_all add: t)
  then show ?thesis using that loaded by blast
qed

lemma load_blocks_restores:
  assumes ok: "good_hashes P U" "prims_ok P" and L: "loaded P U s A" and v: "valid_chain P (A @ B)"
    and B: "\<forall>b \<in> set B. b \<in> U \<and> stored_block st (block_hash P b) = Some b
      \<and> (\<forall>i. block_time b \<le> clock i + seconds MAX_FUTURE_BLOCK_DRIFT_SECONDS)"
  shows "\<exists>t. load_blocks P clock st i (map (block_hash P) B) s = (Ok (), t) \<and> loaded P U t (A @ B)"
  using L v B
proof (induction B arbitrary: A s i)
  case (Cons b B)
  have "valid_chain P (A @ [b])" using Cons.prems(2) valid_chain_prefix [of P "A @ [b]" B] by simp
  from loaded_step [OF Cons.prems(1) ok _ this, of "clock i"] Cons.prems(3)
  obtain t where t: "add_block P (clock i) b s = (Ok (), t)" "loaded P U t (A @ [b])" by auto
  have "\<exists>u. load_blocks P clock st (Suc i) (map (block_hash P) B) t = (Ok (), u) \<and> loaded P U u ((A @ [b]) @ B)"
    by (rule Cons.IH [OF t(2)]) (use Cons.prems in auto)
  then show ?case using t Cons.prems(3) by auto
qed simp

text \<open>A store that records a valid chain and holds its blocks.\<close>

definition holds_chain :: "prims \<Rightarrow> block_store \<Rightarrow> block list \<Rightarrow> bool" where
  "holds_chain P st A \<longleftrightarrow> sb_schema_version st = Some (u32_to_be_bytes SCHEMA_VERSION)
     \<and> get_active_chain st = Ok (map (block_hash P) A) \<and> (\<forall>b \<in> set A. stored_block st (block_hash P b) = Some b)"

lemma node_start_restores:
  assumes ok: "good_hashes P U" "prims_ok P" and st: "holds_chain P st A" and v: "valid_chain P A" "A \<noteq> []"
    and times: "\<forall>b \<in> set A. b \<in> U \<and> (\<forall>i. block_time b \<le> clock i + seconds MAX_FUTURE_BLOCK_DRIFT_SECONDS)"
  obtains t where "node_start P clock st = (Ok (), \<lparr>nd_store = st, nd_chain = t\<rparr>)" "loaded P U t A"
proof -
  obtain t where t: "load_blocks P clock st 0 (map (block_hash P) A) blockchain_new = (Ok (), t)" "loaded P U t ([] @ A)"
    using load_blocks_restores [OF ok loaded_new, of A st clock 0] v st times by (auto simp: holds_chain_def)
  obtain g B where A: "A = g # B" using v(2) by (cases A) auto
  have "valid_chain P [g]" using v(1) A valid_chain_prefix [of P "[g]" B] by simp
  then have gen: "genesis_hash P = Ok (block_hash P g)" using valid_chain_snoc [of P "[]" g] by (simp add: attaches_def)
  have clean: "take_pruned_hashes t = ([], t)" using t(2) by (simp add: take_pruned_hashes_def loaded_def)
  have "node_start P clock st = (Ok (), \<lparr>nd_store = st, nd_chain = t\<rparr>)"
    using st t(1) gen clean A
    by (simp add: node_start_def holds_chain_def open_current load_from_store_def delete_blocks_def Let_def del: load_blocks.simps)
  then show ?thesis using that t(2) by simp
qed

subsection \<open>The node as a machine\<close>

datatype node_call =
    Deliver instant block
  | Submit instant transaction
  | Tidy instant
  | Adjust duration
  | CrashDuring instant block nat "nat \<Rightarrow> instant"

text \<open>What a crash leaves on disk when it comes after so many of the writes for a block.\<close>

definition store_at_crash :: "prims \<Rightarrow> instant \<Rightarrow> block \<Rightarrow> nat \<Rightarrow> node \<Rightarrow> block_store" where
  "store_at_crash P now b k nd =
     (case add_block P now b (nd_chain nd) of
        (Ok _, s) \<Rightarrow> persist_writes P b s (nd_store nd) ! min k 3
      | _ \<Rightarrow> nd_store nd)"

fun run_node :: "prims \<Rightarrow> node_call \<Rightarrow> node \<Rightarrow> node" where
  "run_node P (Deliver now b) nd = snd (deliver_block P now b nd)"
| "run_node P (Submit now tx) nd = nd\<lparr>nd_chain := snd (add_to_mempool P now tx (nd_chain nd))\<rparr>"
| "run_node P (Tidy now) nd = nd\<lparr>nd_chain := cleanup_mempool now (nd_chain nd)\<rparr>"
| "run_node P (Adjust d) nd = nd\<lparr>nd_chain := set_time_offset d (nd_chain nd)\<rparr>"
| "run_node P (CrashDuring now b k clock) nd = snd (node_start P clock (store_at_crash P now b k nd))"

text \<open>
  No block comes before its parent, and a node that starts again finds nothing on disk that is
  more than two hours ahead of its clock.
\<close>

definition not_ahead :: "(nat \<Rightarrow> instant) \<Rightarrow> block \<Rightarrow> bool" where
  "not_ahead clock b \<longleftrightarrow> (\<forall>i. block_time b \<le> clock i + seconds MAX_FUTURE_BLOCK_DRIFT_SECONDS)"

fun node_allowed :: "prims \<Rightarrow> block set \<Rightarrow> node_call \<Rightarrow> node \<Rightarrow> bool" where
  "node_allowed P U (Deliver now b) nd \<longleftrightarrow> b \<in> U \<and> fst (add_block P now b (nd_chain nd)) \<noteq> Err OrphanBlock"
| "node_allowed P U (CrashDuring now b k clock) nd \<longleftrightarrow> b \<in> U \<and> bc_active_chain (nd_chain nd) \<noteq> [] \<and> not_ahead clock b
     \<and> (\<forall>h x. stored_block (nd_store nd) h = Some x \<longrightarrow> not_ahead clock x)"
| "node_allowed P U _ nd \<longleftrightarrow> True"

definition fresh_node :: node where
  "fresh_node = \<lparr>nd_store = empty_store\<lparr>sb_schema_version := Some (u32_to_be_bytes SCHEMA_VERSION), sb_bans := Some []\<rparr>,
     nd_chain = blockchain_new\<rparr>"

definition node_reachable :: "prims \<Rightarrow> block set \<Rightarrow> node \<Rightarrow> bool" where
  "node_reachable P U nd \<longleftrightarrow> reaches (node_allowed P U) (run_node P) fresh_node nd"

definition store_keyed :: "prims \<Rightarrow> block set \<Rightarrow> block_store \<Rightarrow> bool" where
  "store_keyed P U st \<longleftrightarrow> (\<forall>h x. stored_block st h = Some x \<longrightarrow> h = block_hash P x \<and> x \<in> U)"

definition store_covers :: "block_store \<Rightarrow> blockchain \<Rightarrow> bool" where
  "store_covers st s \<longleftrightarrow> (\<forall>h x. bm_get (bc_blocks s) h = Some x \<longrightarrow> stored_block st h = Some x)"

definition node_inv :: "prims \<Rightarrow> block set \<Rightarrow> node \<Rightarrow> block list \<Rightarrow> bool" where
  "node_inv P U nd A \<longleftrightarrow> chain_inv P U (nd_chain nd) A \<and> bc_orphans (nd_chain nd) = [] \<and> bc_pending_prunes (nd_chain nd) = []
     \<and> holds_chain P (nd_store nd) A \<and> store_covers (nd_store nd) (nd_chain nd) \<and> store_keyed P U (nd_store nd)"

lemma node_inv_fresh: "node_inv P U fresh_node []"
proof -
  have "holds_chain P (nd_store fresh_node) [] \<and> store_keyed P U (nd_store fresh_node) \<and> store_covers (nd_store fresh_node) (nd_chain fresh_node)"
    by (simp add: holds_chain_def store_keyed_def store_covers_def fresh_node_def empty_store_def get_active_chain_def
        stored_block_def blockchain_new_def)
  moreover have "bc_orphans (nd_chain fresh_node) = [] \<and> bc_pending_prunes (nd_chain fresh_node) = []"
    by (simp add: fresh_node_def blockchain_new_def)
  ultimately show ?thesis using chain_inv_new [of P U] by (simp add: node_inv_def) (simp add: fresh_node_def)
qed

lemma add_block_outcome:
  assumes inv: "chain_inv P U s A" "bc_orphans s = []" and ok: "good_hashes P U" "prims_ok P" "b \<in> U"
  obtains (accepted) t A' where "add_block P now b s = (Ok (), t)" "chain_inv P U t A'" "bc_orphans t = []" "grown P b s t"
      "chain_weight A \<le> chain_weight A'"
  | (refused) r where "add_block P now b s = (r, s)" "r \<noteq> Ok ()"
  | (orphan) t where "add_block P now b s = (Err OrphanBlock, t)" "t = s\<lparr>bc_orphans := bm_insert (block_hash P b) b (bc_orphans s)\<rparr>"
proof -
  obtain r t where once: "add_block_once P now b s = (r, t)" by force
  obtain A' where A': "added P U b s A r t A'" using add_block_once_added [OF inv(1) ok once] by blast
  show ?thesis
  proof (cases r)
    case (Ok h)
    then have "add_block P now b s = (Ok (), t)" using once A' inv(2) by (intro add_block_no_orphans) (auto simp: added_def)
    then show ?thesis using accepted A' Ok inv(2) by (auto simp: added_def)
  next
    case (Err e)
    then have "add_block P now b s = (Err e, t)" using once by (simp add: add_block_def with_step_def)
    then show ?thesis using refused orphan A' Err by (auto simp: added_def)
  next
    case Panic
    then have "add_block P now b s = (Panic, t)" using once by (simp add: add_block_def with_step_def)
    then show ?thesis using refused A' Panic by (auto simp: added_def)
  next
    case Cutoff
    then show ?thesis using A' by (simp add: added_def)
  qed
qed

lemma holds_active:
  assumes "chain_inv P U s A" "store_covers st s" "sb_schema_version st = Some (u32_to_be_bytes SCHEMA_VERSION)"
    and "get_active_chain st = Ok (bc_active_chain s)"
  shows "holds_chain P st A"
  using assms by (auto simp: holds_chain_def store_covers_def chain_inv_def active_rep_def stored_def)

text \<open>Before the second write the store records the old chain, from then on the new one.\<close>

lemma writes_hold:
  assumes inv: "node_inv P U nd A" and ok: "good_hashes P U" "b \<in> U"
    and acc: "chain_inv P U s A'" "grown P b (nd_chain nd) s"
    and st: "st \<in> set (persist_writes P b s (nd_store nd))"
  shows "store_keyed P U st" "holds_chain P st A \<or> holds_chain P st A'"
    and "st \<in> set (drop 2 (persist_writes P b s (nd_store nd))) \<Longrightarrow> holds_chain P st A' \<and> store_covers st s"
proof -
  let ?st0 = "nd_store nd" and ?st1 = "put_block P b (nd_store nd)"
  let ?st2 = "set_active_chain (bc_active_chain s) ?st1"
  let ?st3 = "delete_blocks (bc_pending_prunes s) ?st2"
  note inv' = inv [unfolded node_inv_def]
  have cases: "st = ?st0 \<or> st = ?st1 \<or> st = ?st2 \<or> st = ?st3"
    using st by (auto simp: persist_writes_def take_pruned_hashes_def Let_def)
  have same: "x = b" if "stored_block ?st0 (block_hash P b) = Some x" for x
    using that inv' ok by (auto simp: store_keyed_def good_hashes_def inj_on_def)
  show keyed: "store_keyed P U st" using cases inv' ok(2) by (auto simp: store_keyed_def split: if_splits)
  have ver: "sb_schema_version ?st0 = Some (u32_to_be_bytes SCHEMA_VERSION)" using inv' by (simp add: holds_chain_def)
  have gone: "\<not> bm_contains p (bc_blocks s)" if "p \<in> set (bc_pending_prunes s)" for p
    using that acc(2) inv' by (auto simp: grown_def)
  have "bm_get (bc_blocks (nd_chain nd)) h = Some x \<or> h = block_hash P b \<and> x = b" if "bm_get (bc_blocks s) h = Some x" for h x
    using that acc(2) by (simp add: grown_def)
  moreover have "stored_block ?st0 h = Some x" if "bm_get (bc_blocks (nd_chain nd)) h = Some x" for h x
    using that inv' by (simp add: store_covers_def)
  ultimately have cov2: "store_covers ?st2 s" unfolding store_covers_def store_simps by (metis same)
  then have cov3: "store_covers ?st3 s" using gone by (auto simp: store_covers_def bm_contains_def)
  have new: "holds_chain P ?st2 A'" "holds_chain P ?st3 A'"
    by (rule holds_active [OF acc(1)]; use cov2 cov3 ver in simp)+
  have old: "holds_chain P ?st1 A" using inv' same by (auto simp: holds_chain_def)
  show "holds_chain P st A \<or> holds_chain P st A'" using cases new old inv' by auto
  show "holds_chain P st A' \<and> store_covers st s" if "st \<in> set (drop 2 (persist_writes P b s (nd_store nd)))"
    using that new cov2 cov3 by (auto simp: persist_writes_def take_pruned_hashes_def Let_def)
qed

lemma persist_last: "last (persist_writes P b s st) \<in> set (drop 2 (persist_writes P b s st))"
  "persist_writes P b s st ! min k 3 \<in> set (persist_writes P b s st)"
  "2 \<le> k \<Longrightarrow> persist_writes P b s st ! min k 3 \<in> set (drop 2 (persist_writes P b s st))"
proof -
  have len: "length (persist_writes P b s st) = 4" by (simp add: persist_writes_def Let_def)
  show "last (persist_writes P b s st) \<in> set (drop 2 (persist_writes P b s st))" by (simp add: persist_writes_def Let_def)
  show "persist_writes P b s st ! min k 3 \<in> set (persist_writes P b s st)" by (rule nth_mem) (simp add: len)
  assume "2 \<le> k"
  then have "min k 3 = 2 \<or> min k 3 = 3" by auto
  then show "persist_writes P b s st ! min k 3 \<in> set (drop 2 (persist_writes P b s st))"
    by (auto simp: persist_writes_def Let_def numeral_3_eq_3 numeral_2_eq_2)
qed

lemma accepted_inv:
  assumes inv: "node_inv P U nd A" and ok: "good_hashes P U" "b \<in> U"
    and acc: "add_block P now b (nd_chain nd) = (Ok (), t)" "chain_inv P U t A'" "bc_orphans t = []" "grown P b (nd_chain nd) t"
  shows "node_inv P U (snd (deliver_block P now b nd)) A'"
proof -
  let ?st = "last (persist_writes P b t (nd_store nd))"
  have "holds_chain P ?st A' \<and> store_covers ?st t" "store_keyed P U ?st"
    using writes_hold [OF inv ok acc(2,4)] persist_last(1) in_set_dropD by metis+
  moreover have "snd (deliver_block P now b nd) = \<lparr>nd_store = ?st, nd_chain = t\<lparr>bc_pending_prunes := []\<rparr>\<rparr>"
    using acc(1) by (simp add: deliver_block_def persist_chain_state_def take_pruned_hashes_def)
  ultimately show ?thesis using acc(2,3)
    by (simp add: node_inv_def chain_inv_def active_rep_def mempool_ok_def store_covers_def)
qed

lemma deliver_inv:
  assumes inv: "node_inv P U nd A" and ok: "good_hashes P U" "prims_ok P" and al: "node_allowed P U (Deliver now b) nd"
  shows "\<exists>A'. node_inv P U (run_node P (Deliver now b) nd) A'"
proof -
  note inv' = inv [unfolded node_inv_def]
  have b: "b \<in> U" using al by simp
  from inv' have "chain_inv P U (nd_chain nd) A" "bc_orphans (nd_chain nd) = []" by auto
  from this ok b show ?thesis
  proof (cases rule: add_block_outcome [where now = now])
    case (accepted t A')
    then show ?thesis using accepted_inv [OF inv ok(1) b accepted(1-4)] by auto
  next
    case (refused r)
    then have "run_node P (Deliver now b) nd = nd" by (cases r) (simp_all add: deliver_block_def)
    then show ?thesis using inv by auto
  next
    case (orphan t)
    then show ?thesis using al by simp
  qed
qed

lemma chain_weight_pos: "A \<noteq> [] \<Longrightarrow> 0 < chain_weight A"
proof (cases A)
  case (Cons b bs)
  have "unat (bh_target (blk_header b)) < 2 ^ 256" using unsigned_less [of "bh_target (blk_header b)", where 'a = nat] by simp
  then have "0 < block_work b" by (simp add: block_work_def div_greater_zero_iff)
  then show ?thesis using Cons by (simp add: chain_weight_def)
qed simp

text \<open>A crash: the node starts again on the old chain or the new one.\<close>

lemma crash_restores:
  assumes inv: "node_inv P U nd A" and ok: "good_hashes P U" "prims_ok P" and al: "node_allowed P U (CrashDuring now b k clock) nd"
  obtains st t A' where "store_at_crash P now b k nd = st" "node_start P clock st = (Ok (), \<lparr>nd_store = st, nd_chain = t\<rparr>)"
    "loaded P U t A'" "holds_chain P st A'" "store_keyed P U st"
    "A' = A \<or> fst (add_block P now b (nd_chain nd)) = Ok () \<and> chain_inv P U (snd (add_block P now b (nd_chain nd))) A'"
    "2 \<le> k \<Longrightarrow> fst (add_block P now b (nd_chain nd)) = Ok () \<Longrightarrow> chain_inv P U (snd (add_block P now b (nd_chain nd))) A'"
proof -
  note inv' = inv [unfolded node_inv_def]
  let ?st = "store_at_crash P now b k nd"
  have b: "b \<in> U" "not_ahead clock b" and old: "\<And>h x. stored_block (nd_store nd) h = Some x \<Longrightarrow> not_ahead clock x"
    and A: "A \<noteq> []" using al inv' by (auto simp: chain_inv_def active_rep_def)
  have "chain_inv P U (nd_chain nd) A" "bc_orphans (nd_chain nd) = []" using inv' by auto
  note chain = this
  have kept: "holds_chain P (nd_store nd) A \<and> store_keyed P U (nd_store nd) \<and> valid_chain P A \<and> A \<noteq> [] \<and> (\<forall>x \<in> set A. not_ahead clock x)"
    using inv' A old by (auto simp: holds_chain_def chain_inv_def active_rep_def)
  from chain ok b(1) have "\<exists>A'. holds_chain P ?st A' \<and> store_keyed P U ?st \<and> valid_chain P A' \<and> A' \<noteq> [] \<and> (\<forall>x \<in> set A'. not_ahead clock x)
    \<and> (A' = A \<or> fst (add_block P now b (nd_chain nd)) = Ok () \<and> chain_inv P U (snd (add_block P now b (nd_chain nd))) A')
    \<and> (2 \<le> k \<longrightarrow> fst (add_block P now b (nd_chain nd)) = Ok () \<longrightarrow> chain_inv P U (snd (add_block P now b (nd_chain nd))) A')"
  proof (cases rule: add_block_outcome [where now = now])
    case (accepted t B)
    have st: "?st = persist_writes P b t (nd_store nd) ! min k 3" using accepted(1) by (simp add: store_at_crash_def)
    have mem: "?st \<in> set (persist_writes P b t (nd_store nd))" unfolding st by (rule persist_last)
    note w = writes_hold [OF inv ok(1) b(1) accepted(2,4) mem]
    have past: "not_ahead clock x" if "stored_block ?st h = Some x" for h x
      using that mem old b(2) by (auto simp: persist_writes_def take_pruned_hashes_def Let_def split: if_splits)
    have ne: "B \<noteq> []" using accepted(5) chain_weight_pos [OF A] by (auto simp: chain_weight_def)
    have v: "valid_chain P A" "valid_chain P B" using inv' accepted(2) by (auto simp: chain_inv_def active_rep_def)
    have past': "\<forall>x \<in> set C. not_ahead clock x" if "holds_chain P ?st C" for C
      using that past unfolding holds_chain_def by blast
    show ?thesis
    proof (cases "2 \<le> k")
      case True
      then have "holds_chain P ?st B" using w(3) persist_last(3) st by metis
      then show ?thesis using w(1) v ne past' accepted(1,2) by (intro exI [of _ B]) auto
    next
      case False
      then show ?thesis using w(1,2) v A ne past' accepted(1,2) by auto
    qed
  next
    case (refused r)
    then show ?thesis using kept by (cases r) (auto simp: store_at_crash_def)
  next
    case (orphan t)
    then show ?thesis using kept by (auto simp: store_at_crash_def)
  qed
  then obtain A' where A': "holds_chain P ?st A'" "store_keyed P U ?st" "valid_chain P A'" "A' \<noteq> []" "\<forall>x \<in> set A'. not_ahead clock x"
    "A' = A \<or> fst (add_block P now b (nd_chain nd)) = Ok () \<and> chain_inv P U (snd (add_block P now b (nd_chain nd))) A'"
    "2 \<le> k \<longrightarrow> fst (add_block P now b (nd_chain nd)) = Ok () \<longrightarrow> chain_inv P U (snd (add_block P now b (nd_chain nd))) A'" by blast
  have "\<forall>x \<in> set A'. x \<in> U \<and> (\<forall>i. block_time x \<le> clock i + seconds MAX_FUTURE_BLOCK_DRIFT_SECONDS)"
    using A'(1,2,5) by (auto simp: holds_chain_def store_keyed_def not_ahead_def)
  from node_start_restores [OF ok A'(1,3,4) this] obtain t where
    "node_start P clock ?st = (Ok (), \<lparr>nd_store = ?st, nd_chain = t\<rparr>)" "loaded P U t A'" .
  then show ?thesis using that A' by blast
qed

lemma run_node_inv:
  assumes "\<exists>A. node_inv P U nd A" and ok: "good_hashes P U" "prims_ok P" and al: "node_allowed P U c nd"
  shows "\<exists>A. node_inv P U (run_node P c nd) A"
proof -
  obtain A where inv: "node_inv P U nd A" using assms(1) by blast
  have mem: "\<exists>A. node_inv P U (nd\<lparr>nd_chain := s\<rparr>) A" if "mp_step (nd_chain nd) s" "mempool_ok s" for s
    using inv that mp_step_chain_inv [OF that(1,2)] by (auto simp: node_inv_def mp_step_def store_covers_def)
  have "mempool_ok (nd_chain nd)" using inv by (simp add: node_inv_def chain_inv_def)
  note ok_mem = this
  show ?thesis
  proof (cases c)
    case (Deliver now b)
    then show ?thesis using deliver_inv [OF inv ok] al by simp
  next
    case (Submit now tx)
    have "mp_step (nd_chain nd) (snd (add_to_mempool P now tx (nd_chain nd))) \<and> mempool_ok (snd (add_to_mempool P now tx (nd_chain nd)))"
      using add_to_mempool_safe [OF ok_mem, of P now tx] by (metis surjective_pairing)
    then show ?thesis using Submit mem by simp
  next
    case (Tidy now)
    then show ?thesis using mem cleanup_mp_step cleanup_mempool_ok [OF ok_mem] by simp
  next
    case (Adjust d)
    then show ?thesis using inv by (intro exI [of _ A])
      (auto simp: node_inv_def set_time_offset_def chain_inv_def active_rep_def mempool_ok_def store_covers_def)
  next
    case (CrashDuring now b k clock)
    from crash_restores [OF inv ok, of now b k clock] al CrashDuring obtain st t A' where
      "run_node P c nd = \<lparr>nd_store = st, nd_chain = t\<rparr>" "loaded P U t A'" "holds_chain P st A'" "store_keyed P U st"
      by (metis run_node.simps(5) snd_conv)
    moreover have "store_covers st t"
      using \<open>loaded P U t A'\<close> \<open>holds_chain P st A'\<close> unfolding store_covers_def
    proof (intro allI impI)
      fix h x assume x: "bm_get (bc_blocks t) h = Some x"
      have L: "chain_inv P U t A'" "bm_contains h (bc_blocks t) \<Longrightarrow> h \<in> set (bc_active_chain t)"
        using \<open>loaded P U t A'\<close> by (auto simp: loaded_def)
      have "bm_contains h (bc_blocks t)" using x by (simp add: bm_contains_def)
      from L(2) [OF this] L(1) obtain y where y: "y \<in> set A'" "h = block_hash P y" "bm_get (bc_blocks t) h = Some y"
        by (auto simp: chain_inv_def active_rep_def stored_def)
      then show "stored_block st h = Some x" using x \<open>holds_chain P st A'\<close> by (simp add: holds_chain_def)
    qed
    ultimately show ?thesis by (intro exI [of _ A']) (simp add: node_inv_def loaded_def)
  qed
qed

interpretation node_machine: call_machine fresh_node "node_allowed P U" "run_node P"
  "\<lambda>nd. good_hashes P U \<and> prims_ok P \<longrightarrow> (\<exists>A. node_inv P U nd A)" "\<lambda>_ _. True" for P U
  by unfold_locales (use node_inv_fresh run_node_inv in blast)+

lemma node_reachable_inv:
  assumes "node_reachable P U nd" and ok: "good_hashes P U" "prims_ok P"
  shows "\<exists>A. node_inv P U nd A"
  using node_machine.reached_inv [OF assms(1) [unfolded node_reachable_def]] ok by blast

lemma loaded_same:
  assumes "loaded P U t A" "chain_inv P U s A"
  shows "bc_active_chain t = bc_active_chain s \<and> bc_target t = bc_target s \<and> bc_utxos t = strip (bc_utxos s)"
  using assms by (auto simp: loaded_def chain_inv_def active_rep_def)

text \<open>
  C27: A crash loses at most the block being written.  In every state a node reaches to which no
  block was handed before its parent and which wrote each block before it took the next, whichever block it is handed next and however many of the
  writes for it reach the disk, the node starts again without error: with the chain, the target
  and the unspent outputs it had before that block or those it had after it, after it as soon as
  the second write was made, with no mark on any output and an empty mempool.
\<close>

theorem crash_loses_at_most_one_block:
  assumes "node_reachable P U nd" "good_hashes P U" "prims_ok P" "node_allowed P U (CrashDuring now b k clock) nd"
  shows "\<exists>t. node_start P clock (store_at_crash P now b k nd) = (Ok (), \<lparr>nd_store = store_at_crash P now b k nd, nd_chain = t\<rparr>)
    \<and> (\<exists>s \<in> {nd_chain nd, snd (add_block P now b (nd_chain nd))}.
         bc_active_chain t = bc_active_chain s \<and> bc_target t = bc_target s \<and> bc_utxos t = strip (bc_utxos s))
    \<and> (2 \<le> k \<longrightarrow> fst (add_block P now b (nd_chain nd)) = Ok () \<longrightarrow>
         bc_active_chain t = bc_active_chain (snd (add_block P now b (nd_chain nd))))
    \<and> bc_mempool t = []"
proof -
  obtain A where inv: "node_inv P U nd A" using node_reachable_inv [OF assms(1-3)] by blast
  from crash_restores [OF inv assms(2-4)] obtain t A' where
    t: "node_start P clock (store_at_crash P now b k nd) = (Ok (), \<lparr>nd_store = store_at_crash P now b k nd, nd_chain = t\<rparr>)"
      "loaded P U t A'"
    and A': "A' = A \<or> chain_inv P U (snd (add_block P now b (nd_chain nd))) A'"
    and k: "2 \<le> k \<Longrightarrow> fst (add_block P now b (nd_chain nd)) = Ok () \<Longrightarrow> chain_inv P U (snd (add_block P now b (nd_chain nd))) A'"
    by metis
  have "chain_inv P U (nd_chain nd) A" using inv by (simp add: node_inv_def)
  then have "\<exists>s \<in> {nd_chain nd, snd (add_block P now b (nd_chain nd))}.
      bc_active_chain t = bc_active_chain s \<and> bc_target t = bc_target s \<and> bc_utxos t = strip (bc_utxos s)"
    using A' loaded_same [OF t(2)] by auto
  moreover have "bc_active_chain t = bc_active_chain (snd (add_block P now b (nd_chain nd)))"
    if "2 \<le> k" "fst (add_block P now b (nd_chain nd)) = Ok ()"
    using k [OF that] loaded_same [OF t(2)] by blast
  moreover have "bc_mempool t = []" using t(2) by (simp add: loaded_def)
  ultimately show ?thesis using t(1) by blast
qed

subsection \<open>An orphan that is adopted\<close>

lemma load_blocks_append:
  "load_blocks P clock st i xs s = (Ok (), t) \<Longrightarrow> load_blocks P clock st i (xs @ ys) s = load_blocks P clock st (i + length xs) ys t"
proof (induction xs arbitrary: i s)
  case (Cons x xs)
  then obtain b where b: "stored_block st x = Some b" by (cases "stored_block st x") auto
  obtain r u where u: "add_block P (clock i) b s = (r, u)" by force
  then have "r = Ok ()" using Cons.prems b by (cases r) (auto simp: with_check_def)
  then show ?case using Cons u b by simp
qed simp

lemma start_stops_at_missing:
  assumes ok: "good_hashes P U" "prims_ok P" and v: "valid_chain P (A @ c # C)"
    and st: "sb_schema_version st = Some (u32_to_be_bytes SCHEMA_VERSION)"
      "get_active_chain st = Ok (map (block_hash P) (A @ c # C))" "stored_block st (block_hash P c) = None"
    and A: "\<forall>b \<in> set A. b \<in> U \<and> stored_block st (block_hash P b) = Some b \<and> not_ahead clock b"
  shows "fst (node_start P clock st) = Err (MissingBlock (length A))"
proof -
  have "valid_chain P ([] @ A)" using valid_chain_prefix [of P A "c # C"] v by simp
  from load_blocks_restores [OF ok loaded_new this, of st clock 0] A obtain t where
    "load_blocks P clock st 0 (map (block_hash P) A) blockchain_new = (Ok (), t)" by (auto simp: not_ahead_def)
  from load_blocks_append [OF this, of "map (block_hash P) (c # C)"] st(3)
  have load: "load_blocks P clock st 0 (map (block_hash P) (A @ c # C)) blockchain_new = (Err (MissingBlock (length A)), t)" by simp
  obtain g B where g: "A @ c # C = g # B" by (cases A) auto
  have "valid_chain P [g]" using v g valid_chain_prefix [of P "[g]" B] by simp
  then have gen: "genesis_hash P = Ok (block_hash P g)" using valid_chain_snoc [of P "[]" g] by (simp add: attaches_def)
  show ?thesis using st(1,2) load gen unfolding g
    by (simp add: node_start_def open_current load_from_store_def Let_def del: load_blocks.simps)
qed





lemma delete_nothing: "delete_blocks [] st = st"
  by (simp add: delete_blocks_def)




subsection \<open>A write that is overtaken\<close>

lemma start_fails_on_missing:
  assumes ok: "good_hashes P U" "prims_ok P" and v: "valid_chain P B" and c: "c \<in> set B" "stored_block st (block_hash P c) = None"
    and st: "sb_schema_version st = Some (u32_to_be_bytes SCHEMA_VERSION)" "get_active_chain st = Ok (map (block_hash P) B)"
    and keyed: "store_keyed P U st" "set B \<subseteq> U" and clock: "\<And>h x. stored_block st h = Some x \<Longrightarrow> not_ahead clock x"
  shows "\<exists>i < length B. stored_block st (block_hash P (B ! i)) = None \<and> fst (node_start P clock st) = Err (MissingBlock i)"
proof -
  obtain A x C where B: "B = A @ x # C" "stored_block st (block_hash P x) = None" "\<And>y. y \<in> set A \<Longrightarrow> stored_block st (block_hash P y) \<noteq> None"
    using split_list_first_prop [of B "\<lambda>x. stored_block st (block_hash P x) = None"] c by blast
  have "stored_block st (block_hash P y) = Some y \<and> not_ahead clock y" if "y \<in> set A" for y
  proof -
    have "stored_block st (block_hash P y) \<noteq> None" by (rule B(3) [OF that])
    then obtain z where z: "stored_block st (block_hash P y) = Some z" by blast
    then have "block_hash P y = block_hash P z" "z \<in> U" using keyed(1) by (auto simp: store_keyed_def)
    then have "z = y" using ok(1) keyed(2) B(1) that by (auto simp: good_hashes_def inj_on_def)
    then show ?thesis using z clock by blast
  qed
  then have "fst (node_start P clock st) = Err (MissingBlock (length A))"
    using keyed(2) B(1) by (intro start_stops_at_missing [OF ok _ st(1) _ B(2)]) (use v st(2) B(1) in auto)
  then show ?thesis using B by (intro exI [of _ "length A"]) (simp add: nth_append)
qed

text \<open>
  C29: A write can be overtaken.  A connection adds a block \<open>c\<close> to the chain and lets go of it before
  it writes; another adds a block \<open>b\<close> meanwhile and is the first to write.  If \<open>c\<close> is on the active
  chain then and is not on disk, the record the second connection writes names \<open>c\<close>, and a crash
  before the first connection writes leaves a store from which the node does not start: it reports
  a block of its own chain as missing.
\<close>

theorem overtaken_write_loses_block:
  assumes reach: "node_reachable P U nd" and ok: "good_hashes P U" "prims_ok P" "b \<in> U" "c \<in> U" "b \<noteq> c"
    and new: "stored_block (nd_store nd) (block_hash P c) = None"
    and one: "add_block P now c (nd_chain nd) = (Ok (), s1)" and two: "add_block P now' b s1 = (Ok (), s2)"
    and active: "block_hash P c \<in> set (bc_active_chain s2)"
    and st: "st \<in> set (drop 2 (persist_writes P b s2 (nd_store nd)))"
    and clock: "\<And>h x. stored_block st h = Some x \<Longrightarrow> not_ahead clock x"
  shows "get_active_chain st = Ok (bc_active_chain s2) \<and> stored_block st (block_hash P c) = None
    \<and> (\<exists>i < length (bc_active_chain s2). stored_block st (bc_active_chain s2 ! i) = None
         \<and> fst (node_start P clock st) = Err (MissingBlock i))"
proof -
  obtain A where inv: "node_inv P U nd A" using node_reachable_inv [OF reach ok(1,2)] by blast
  then have "chain_inv P U (nd_chain nd) A" by (simp add: node_inv_def)
  from add_block_settled [OF ok(1,2) this ok(4), of now] one obtain A1 where "chain_inv P U s1 A1" by (auto simp: settled_def)
  from add_block_settled [OF ok(1,2) this ok(3), of now'] two obtain B where B: "chain_inv P U s2 B" by (auto simp: settled_def)
  then have chain: "valid_chain P B" "bc_active_chain s2 = map (block_hash P) B" "set B \<subseteq> U"
    by (auto simp: chain_inv_def active_rep_def stored_def intro: within_get)
  have same: "x = y" if "block_hash P x = block_hash P y" "x \<in> U" "y \<in> U" for x y
    using that ok(1) by (auto simp: good_hashes_def inj_on_def)
  let ?st = "set_active_chain (bc_active_chain s2) (put_block P b (nd_store nd))"
  have "st = delete_blocks [] ?st \<or> st = delete_blocks (bc_pending_prunes s2) ?st"
    using st by (auto simp: persist_writes_def take_pruned_hashes_def delete_nothing Let_def)
  then obtain hs where hs: "st = delete_blocks hs ?st" by blast
  have none: "stored_block st (block_hash P c) = None" using new same [of c b] ok(3-5) by (auto simp: hs)
  have rec: "get_active_chain st = Ok (map (block_hash P) B)" "sb_schema_version st = Some (u32_to_be_bytes SCHEMA_VERSION)" "store_keyed P U st"
    using inv ok(3) by (auto simp: hs chain(2) node_inv_def holds_chain_def store_keyed_def split: if_splits)
  have "c \<in> set B" using active same chain(3) ok(4) by (auto simp: chain(2))
  then have "\<exists>i < length B. stored_block st (block_hash P (B ! i)) = None \<and> fst (node_start P clock st) = Err (MissingBlock i)"
    by (rule start_fails_on_missing [OF ok(1,2) chain(1) _ none rec(2,1,3) chain(3)]) (rule clock)
  then show ?thesis using rec(1) none by (auto simp: chain(2))
qed

end
