(* ===== verification/Node_Sync.thy ===== *)
theory Node_Sync
  imports Node_Process Node_Restart
begin

text \<open>
  Catching up with the network (\<open>node/src/util.rs\<close>, called by \<open>node/src/main.rs\<close> before the node
  listens): dial the peers, ask for their tips, download from the best one in batches.  What the
  peers answer is an argument; the theorems speak of arbitrary answers and of those the handler of
  \<open>Node_Process\<close> gives.  The download loop takes fuel, one unit a round trip.
\<close>

datatype sync_error = NoNode | Unreachable | Handshake handshake_error | Transport receive_error | NotConnected | Refused btc_error

subsection \<open>Dialling\<close>

record network =
  nw_connects :: "string \<Rightarrow> bool"
  nw_handshake :: "string \<Rightarrow> (handshake_error, duration) outcome"
  nw_nodes :: "string \<Rightarrow> (receive_error, message) outcome"
  nw_tip :: "string \<Rightarrow> (receive_error, message) outcome"
  nw_blocks :: "string \<Rightarrow> nat \<Rightarrow> message \<Rightarrow> (receive_error, message) outcome"

definition turned_away :: "(string \<Rightarrow> ip_addr option) \<Rightarrow> instant \<Rightarrow> string \<Rightarrow> process \<Rightarrow> bool \<times> process" where
  "turned_away addr_ip now node p =
     (case addr_ip node of
        None \<Rightarrow> (False, p)
      | Some ip \<Rightarrow> let (banned, b) = is_banned now ip (np_bans p) in (banned, p\<lparr>np_bans := b\<rparr>))"

definition sample_peer :: "(string \<Rightarrow> ip_addr option) \<Rightarrow> string \<Rightarrow> duration \<Rightarrow> process \<Rightarrow> process" where
  "sample_peer addr_ip node offset p =
     (case addr_ip node of
        None \<Rightarrow> p
      | Some ip \<Rightarrow>
          let (ss, s) = record_sample ip offset (np_samples p) (nd_chain (np_node p))
          in p\<lparr>np_samples := ss, np_node := (np_node p)\<lparr>nd_chain := s\<rparr>\<rparr>)"

definition insert_node :: "string \<Rightarrow> process \<Rightarrow> process" where
  "insert_node node p = p\<lparr>np_nodes := List.insert node (np_nodes p)\<rparr>"

fun dial_discovered :: "(string \<Rightarrow> ip_addr option) \<Rightarrow> instant \<Rightarrow> network \<Rightarrow> string list \<Rightarrow> process \<Rightarrow> process" where
  "dial_discovered addr_ip now nw [] p = p"
| "dial_discovered addr_ip now nw (child # children) p =
     (let (banned, p) = turned_away addr_ip now child p
      in if banned \<or> \<not> nw_connects nw child then dial_discovered addr_ip now nw children p
         else case nw_handshake nw child of
                Ok offset \<Rightarrow> dial_discovered addr_ip now nw children (insert_node child (sample_peer addr_ip child offset p))
              | _ \<Rightarrow> dial_discovered addr_ip now nw children p)"

fun populate_connections ::
  "(string \<Rightarrow> ip_addr option) \<Rightarrow> instant \<Rightarrow> network \<Rightarrow> string list \<Rightarrow> process \<Rightarrow> (sync_error, unit) outcome \<times> process" where
  "populate_connections addr_ip now nw [] p = (Ok (), p)"
| "populate_connections addr_ip now nw (node # nodes) p =
     (let (banned, p) = turned_away addr_ip now node p
      in if banned then populate_connections addr_ip now nw nodes p
         else if \<not> nw_connects nw node then (Err Unreachable, p)
         else with_check (map_err Handshake (nw_handshake nw node)) p (\<lambda>offset.
                let p = sample_peer addr_ip node offset p
                in with_check (map_err Transport (nw_nodes nw node)) p (\<lambda>m.
                     let p = (case m of NodeList children \<Rightarrow> dial_discovered addr_ip now nw children p | _ \<Rightarrow> p)
                     in populate_connections addr_ip now nw nodes (insert_node node p))))"

subsection \<open>Choosing and downloading\<close>

fun best_loop ::
  "(string \<Rightarrow> (receive_error, message) outcome) \<Rightarrow> string list \<Rightarrow> string \<times> u32 \<times> u256 \<Rightarrow> (sync_error, string \<times> u32 \<times> u256) outcome" where
  "best_loop tip [] best = Ok best"
| "best_loop tip (node # nodes) best =
     obind (map_err Transport (tip node)) (\<lambda>m.
       case m of
         ChainTip height work \<Rightarrow>
           best_loop tip nodes (if work > snd (snd best) then (node, height, work) else best)
       | _ \<Rightarrow> best_loop tip nodes best)"

definition find_best_chain_node :: "network \<Rightarrow> process \<Rightarrow> (sync_error, string \<times> u32) outcome" where
  "find_best_chain_node nw p =
     obind (best_loop (nw_tip nw) (np_nodes p) ([], 0, 0)) (\<lambda>(name, height, _). Ok (name, height))"

fun apply_batch ::
  "prims \<Rightarrow> (ip_addr \<Rightarrow> string) \<Rightarrow> (nat \<Rightarrow> turn) \<Rightarrow> ip_addr option \<Rightarrow> nat \<Rightarrow> block list \<Rightarrow> process \<Rightarrow> (sync_error, unit) outcome \<times> process" where
  "apply_batch P show_ip tn peer i [] p = (Ok (), p)"
| "apply_batch P show_ip tn peer i (b # bs) p =
     (let (r, nd) = deliver_block P (tn_now (tn i)) b (np_node p);
          p = p\<lparr>np_node := nd\<rparr>
      in case r of
           Ok _ \<Rightarrow> apply_batch P show_ip tn peer (Suc i) bs p
         | Err OrphanBlock \<Rightarrow> (Err NotConnected, p)
         | Err e \<Rightarrow> (Err (Refused e), strike_peer show_ip (tn i) peer False p)
         | Panic \<Rightarrow> (Panic, p)
         | Cutoff \<Rightarrow> (Cutoff, p))"

fun download_loop ::
  "nat \<Rightarrow> prims \<Rightarrow> (ip_addr \<Rightarrow> string) \<Rightarrow> (nat \<Rightarrow> nat \<Rightarrow> turn) \<Rightarrow> ip_addr option \<Rightarrow> (nat \<Rightarrow> message \<Rightarrow> (receive_error, message) outcome) \<Rightarrow>
     nat \<Rightarrow> u32 \<Rightarrow> process \<Rightarrow> (sync_error, unit) outcome \<times> process" where
  "download_loop 0 P show_ip tn peer answer i target_height p = (Cutoff, p)"
| "download_loop (Suc fuel) P show_ip tn peer answer i target_height p =
     (let start = block_height (nd_chain (np_node p))
      in if ucast start \<ge> target_height then (Ok (), p)
         else
           let n = min (target_height - ucast start) (of_nat BLOCKS_PER_FETCH_BATCH)
           in with_check (map_err Transport (answer i (FetchBlocks start n))) p (\<lambda>m.
                case m of
                  Blocks bs \<Rightarrow>
                    if bs = [] then (Ok (), p)
                    else with_step (apply_batch P show_ip (tn i) peer 0 bs p) (\<lambda>_ p.
                           download_loop fuel P show_ip tn peer answer (Suc i) target_height p)
                | _ \<Rightarrow> (Ok (), p)))"

definition download_blockchain ::
  "nat \<Rightarrow> prims \<Rightarrow> (ip_addr \<Rightarrow> string) \<Rightarrow> (string \<Rightarrow> ip_addr option) \<Rightarrow> (nat \<Rightarrow> nat \<Rightarrow> turn) \<Rightarrow> network \<Rightarrow> string \<Rightarrow> u32 \<Rightarrow> process \<Rightarrow>
     (sync_error, unit) outcome \<times> process" where
  "download_blockchain fuel P show_ip addr_ip tn nw node target_height p =
     (if node \<notin> set (np_nodes p) then (Err NoNode, p)
      else download_loop fuel P show_ip tn (addr_ip node) (nw_blocks nw node) 0 target_height p)"

text \<open>The part of \<open>main\<close> between loading the chain and listening.\<close>

definition catch_up ::
  "nat \<Rightarrow> prims \<Rightarrow> (ip_addr \<Rightarrow> string) \<Rightarrow> (string \<Rightarrow> ip_addr option) \<Rightarrow> instant \<Rightarrow> (nat \<Rightarrow> nat \<Rightarrow> turn) \<Rightarrow> network \<Rightarrow> string list \<Rightarrow> process \<Rightarrow>
     (sync_error, unit) outcome \<times> process" where
  "catch_up fuel P show_ip addr_ip now tn nw nodes p =
     with_step (populate_connections addr_ip now nw nodes p) (\<lambda>_ p.
       if nodes = [] then (Ok (), p)
       else with_check (find_best_chain_node nw p) p (\<lambda>(best_name, best_height).
              if best_name = [] then (Ok (), p)
              else download_blockchain fuel P show_ip addr_ip tn nw best_name best_height p))"

subsection \<open>Arbitrary peers\<close>

lemma reachable_call: "reachable P U s \<Longrightarrow> call_blocks c \<subseteq> U \<Longrightarrow> reachable P U (run_call P c s)"
  by (rule reachable.next_state) (auto intro: chain_step.step)

lemma deliver_reachable:
  assumes "reachable P U (nd_chain nd)" "b \<in> U"
  shows "reachable P U (nd_chain (snd (deliver_block P now b nd)))"
proof -
  have add: "reachable P U (snd (add_block P now b (nd_chain nd)))"
    using reachable_call [OF assms(1), of "AddBlock now b"] assms(2) by simp
  obtain r s where rs: "add_block P now b (nd_chain nd) = (r, s)" by force
  have "reachable P U (snd (take_pruned_hashes s))" using reachable_call [OF add, of TakePrunedHashes] rs by simp
  then show ?thesis using add rs by (cases r) (simp_all add: deliver_block_def persist_chain_state_def)
qed

lemma strike_peer_chain [simp]: "nd_chain (np_node (strike_peer show_ip tn peer severe p)) = nd_chain (np_node p)"
  by (simp add: strike_peer_def Let_def split: option.splits)

lemma record_sample_reachable:
  assumes "reachable P U s"
  shows "reachable P U (snd (record_sample ip offset ss s))"
proof -
  have "reachable P U (set_time_offset d s)" for d using reachable_call [OF assms, of "SetTimeOffset d"] by simp
  then show ?thesis using assms unfolding record_sample_def by (simp add: Let_def)
qed

fun message_blocks :: "message \<Rightarrow> block set" where
  "message_blocks (NewBlock b) = {b}"
| "message_blocks (SubmitTemplate b) = {b}"
| "message_blocks (Blocks bs) = set bs"
| "message_blocks _ = {}"

lemma handle_transaction_reachable:
  assumes "reachable P U (nd_chain (np_node p))" "handle_transaction P tn tx p = (r, q)"
  shows "reachable P U (nd_chain (np_node q))"
  using reachable_call [OF assms(1), of "AddToMempool (tn_now tn) tx"] assms(2)
  by (auto simp: handle_transaction_def Let_def split: prod.splits)

lemma handle_block_reachable:
  assumes "reachable P U (nd_chain (np_node p))" "b \<in> U" "handle_block P show_ip tn peer relayed b p = (v, out, rel, q)"
  shows "reachable P U (nd_chain (np_node q))"
proof -
  obtain r nd where d: "deliver_block P (tn_now tn) b (np_node p) = (r, nd)" by force
  have "nd_chain (np_node q) = nd_chain nd"
    using assms(3) d by (cases r) (auto simp: handle_block_def Let_def split: btc_error.splits)
  then show ?thesis using deliver_reachable [OF assms(1,2), of "tn_now tn"] d by simp
qed

lemma handle_message_reachable:
  assumes "reachable P U (nd_chain (np_node p))" "message_blocks m \<subseteq> U" "handle_message P show_ip tn peer m p = (v, out, rel, q)"
  shows "reachable P U (nd_chain (np_node q))"
proof (cases m)
  case (NewTransaction tx)
  then show ?thesis using assms handle_transaction_reachable [OF assms(1), of tn tx] by (auto split: prod.splits)
next
  case (SubmitTransaction tx)
  obtain r p1 where h: "handle_transaction P tn tx p = (r, p1)" by force
  then have "nd_chain (np_node q) = nd_chain (np_node p1)" using assms(3) SubmitTransaction by (cases r) auto
  then show ?thesis using handle_transaction_reachable [OF assms(1) h] by simp
next
  case (NewBlock b)
  then show ?thesis using assms handle_block_reachable [OF assms(1)] by auto
next
  case (SubmitTemplate b)
  then show ?thesis using assms handle_block_reachable [OF assms(1)] by auto
qed (use assms in \<open>auto simp: reply_or_die_def Let_def split: outcome.splits\<close>)

lemma receive_decodes:
  assumes "message_receive C c = (Ok m, c')"
  shows "\<exists>bytes. decode C bytes = Ok m"
  using assms by (auto simp: message_receive_def read_exact_def with_step_def Let_def split: if_splits)

lemma serve_reachable:
  assumes "reachable P U (nd_chain (np_node p))" "\<forall>bytes m. decode C bytes = Ok m \<longrightarrow> message_blocks m \<subseteq> U"
    and "serve P C show_ip tn peer i c p = (v, out, rel, q)"
  shows "reachable P U (nd_chain (np_node q))"
  using assms(1,3)
proof (induction "length (incoming c)" arbitrary: i c p v out rel q rule: less_induct)
  case less
  obtain r c' where r: "message_receive C c = (r, c')" by force
  show ?case
  proof (cases r)
    case (Ok m)
    obtain v1 out1 rel1 p1 where h: "handle_message P show_ip (tn i) peer m p = (v1, out1, rel1, p1)" by (metis prod_cases4)
    have p1: "reachable P U (nd_chain (np_node p1))"
      using handle_message_reachable [OF less.prems(1) _ h] receive_decodes r Ok assms(2) by blast
    show ?thesis
    proof (cases v1)
      case Continue
      obtain v2 out2 rel2 p2 where s: "serve P C show_ip tn peer (Suc i) c' p1 = (v2, out2, rel2, p2)" by (metis prod_cases4)
      have "q = p2" using less.prems(2) r Ok h s Continue by (simp add: serve.simps [of P C show_ip tn peer i c p])
      then show ?thesis using less.hyps [OF _ p1 s] receive_consumes r Ok by blast
    qed (use less.prems(2) r Ok h p1 in \<open>simp_all add: serve.simps [of P C show_ip tn peer i c p]\<close>)
  qed (use less.prems r in \<open>auto simp: serve.simps [of P C show_ip tn peer i c p] split: if_splits\<close>)
qed

text \<open>
  Nothing a peer sends takes the chain outside its reachable states.  Whatever bytes arrive on a
  connection, from the handshake to the disconnect, the node's chain afterwards is one the public
  operations reach, so that everything shown of reachable states holds of it; and a banned address
  changes nothing but the lapse of its own ban.
\<close>

theorem connection_keeps_reachable:
  assumes "reachable P U (nd_chain (np_node p))" "\<forall>bytes m. decode C bytes = Ok m \<longrightarrow> message_blocks m \<subseteq> U"
    and "accept P C show_ip now received_at acked tn ip c p = (ack, v, out, rel, q)"
  shows "reachable P U (nd_chain (np_node q)) \<and> (fst (is_banned now ip (np_bans p)) \<longrightarrow> ack = [] \<and> out = [] \<and> rel = [] \<and> q = p)"
proof -
  obtain banned b where ban: "is_banned now ip (np_bans p) = (banned, b)" by force
  obtain r a c' where hs: "perform_handshake_acceptor C received_at acked c = (r, a, c')" by (metis prod_cases3)
  show ?thesis
  proof (cases banned)
    case True
    then have "b = np_bans p" using ban by (auto simp: is_banned_def split: option.splits if_splits)
    then show ?thesis using True ban assms(1,3) by (auto simp: accept_def)
  next
    case False
    define ss where "ss offset = fst (record_sample ip offset (np_samples p) (nd_chain (np_node p)))" for offset
    define s where "s offset = snd (record_sample ip offset (np_samples p) (nd_chain (np_node p)))" for offset
    have rs: "record_sample ip offset (np_samples p) (nd_chain (np_node p)) = (ss offset, s offset)" for offset
      by (simp add: ss_def s_def)
    have s: "reachable P U (s offset)" for offset using record_sample_reachable [OF assms(1)] by (simp add: s_def)
    have "reachable P U (nd_chain (np_node q))"
    proof (cases r)
      case (Ok offset)
      let ?p = "p\<lparr>np_bans := b, np_samples := ss offset, np_node := (np_node p)\<lparr>nd_chain := s offset\<rparr>\<rparr>"
      have "serve P C show_ip tn (Some ip) 1 c' ?p = (v, out, rel, q)"
        using assms(3) False ban hs Ok rs by (simp add: accept_def handle_connection_def)
      from serve_reachable [OF _ assms(2) this] s show ?thesis by simp
    qed (use assms(1,3) False ban hs in \<open>auto simp: accept_def handle_connection_def\<close>)
    then show ?thesis using False ban by simp
  qed
qed

subsection \<open>An honest peer\<close>

lemma stored_take_drop: "stored P blocks B \<Longrightarrow> stored P blocks (take n B) \<and> stored P blocks (drop n B)"
  by (auto simp: stored_def dest: in_set_takeD in_set_dropD)

lemma batch_loop_prefix:
  assumes "stored P blocks B"
  shows "\<exists>n. batch_loop P blocks (map (block_hash P) B) total_bytes acc = Ok (acc @ take n B) \<and> (acc = [] \<longrightarrow> B \<noteq> [] \<longrightarrow> 0 < n)"
  using assms
proof (induction B arbitrary: total_bytes acc)
  case (Cons b B)
  show ?case
  proof (cases "total_bytes + block_serialized_size P b > MAX_FETCH_BATCH_BYTES \<and> acc \<noteq> []")
    case True
    then show ?thesis using Cons.prems by (intro exI [of _ 0]) (simp add: expect_def)
  next
    case False
    from Cons.IH [of "total_bytes + block_serialized_size P b" "acc @ [b]"] Cons.prems obtain n where
      "batch_loop P blocks (map (block_hash P) B) (total_bytes + block_serialized_size P b) (acc @ [b]) = Ok ((acc @ [b]) @ take n B)" by auto
    then show ?thesis using False Cons.prems by (intro exI [of _ "Suc n"]) (auto simp: expect_def Let_def)
  qed
qed auto

lemma fetch_blocks_prefix:
  assumes "active_rep P s B" "unat start < length B" "0 < unat n"
  shows "\<exists>k > 0. fetch_blocks P start n s = Ok (take k (drop (unat start) B))"
proof -
  let ?max = "min (unat n) BLOCKS_PER_FETCH_BATCH" and ?win = "\<lambda>m. take m (drop (unat start) B)"
  have rep: "bc_active_chain s = map (block_hash P) B" "stored P (bc_blocks s) B" using assms(1) by (simp_all add: active_rep_def)
  have max: "0 < ?max" using assms(3) by (simp add: BLOCKS_PER_FETCH_BATCH_def)
  have "stored P (bc_blocks s) (?win ?max)" using stored_take_drop rep(2) by blast
  from batch_loop_prefix [OF this, of 0 "[]"] obtain k where
    k: "batch_loop P (bc_blocks s) (map (block_hash P) (?win ?max)) 0 [] = Ok (take k (?win ?max))" "0 < k"
    using max assms(2) by auto
  have "lookup_blocks (bc_blocks s) (take (unat start) (bc_active_chain s)) = Ok (take (unat start) B)"
    using stored_lookup [of P "bc_blocks s" "take (unat start) B"] stored_take_drop [OF rep(2)] rep(1) by (simp add: take_map)
  then have "fetch_blocks P start n s = Ok (take (min k ?max) (drop (unat start) B))"
    using k(1) max rep(1) by (simp add: fetch_blocks_def Let_def take_map drop_map min.commute)
  then show ?thesis using k(2) max by (intro exI [of _ "min k ?max"]) simp
qed

lemma add_block_extends:
  assumes inv: "chain_inv P U s A" "bc_orphans s = []" and ok: "good_hashes P U" "prims_ok P" "b \<in> U" and v: "valid_chain P (A @ [b])"
    and time: "block_time b \<le> now + bc_time_offset s + seconds MAX_FUTURE_BLOCK_DRIFT_SECONDS"
  obtains t where "add_block P now b s = (Ok (), t)" "chain_inv P U t (A @ [b])" "bc_orphans t = []" "grown P b s t"
    "bc_time_offset t = bc_time_offset s"
proof -
  have "active_rep P s A" "attaches P A b" "block_ok P A b" using inv(1) v by (simp_all add: chain_inv_def valid_chain_snoc)
  from check_extends_tip_accepts [OF this time]
  have chk: "check_extends_tip P now s b = Ok ()" and prev: "bh_prev_block_hash (blk_header b) = tip_hash s" by simp_all
  from add_block_extending_tip_eq [OF inv(1) ok prev chk] obtain tgt where
    inv3: "chain_inv P U (extended P now b tgt s) (A @ [b])"
    and eq: "add_block_extending_tip P now b s =
       (if length (bc_active_chain (extended P now b tgt s)) mod DIFFICULTY_UPDATE_INTERVAL = 0
        then with_step (prune_side_blocks P SIDE_BRANCH_PRUNE_DEPTH (extended P now b tgt s)) (\<lambda>_ s4. (Ok (block_hash P b), s4))
        else (Ok (block_hash P b), extended P now b tgt s))" by blast
  let ?e = "extended P now b tgt s"
  have off: "bc_time_offset ?e = bc_time_offset s"
    by (simp add: extended_def apply_block_def evict_stale_mempool_entries_def cleanup_mempool_def Let_def)
  from prune_chain_inv [OF inv3 ok(2), of SIDE_BRANCH_PRUNE_DEPTH] obtain u where
    u: "prune_side_blocks P SIDE_BRANCH_PRUNE_DEPTH ?e = (Ok (), u)" "chain_inv P U u (A @ [b])" by blast
  have "bc_time_offset u = bc_time_offset s"
    using u(1) off by (auto simp: prune_side_blocks_def with_check_def split: outcome.splits if_splits)
  then obtain t where t: "add_block_once P now b s = (Ok (block_hash P b), t)" "chain_inv P U t (A @ [b])"
    "bc_time_offset t = bc_time_offset s"
    using eq u inv3 off prev by (simp add: add_block_once_def with_step_def split: if_splits)
  have "grown P b s t" "bc_orphans t = []" using add_block_once_added [OF inv(1) ok t(1)] inv(2) by (auto simp: added_def)
  then show ?thesis using that t add_block_no_orphans [OF t(1)] by blast
qed

text \<open>A node that can still follow \<open>B\<close>, at some prefix of it.\<close>

definition following :: "prims \<Rightarrow> block set \<Rightarrow> duration \<Rightarrow> process \<Rightarrow> block list \<Rightarrow> bool" where
  "following P U off p A \<longleftrightarrow> node_reachable P U (np_node p) \<and> node_inv P U (np_node p) A \<and> bc_time_offset (nd_chain (np_node p)) = off"

lemma deliver_extends:
  assumes f: "following P U off p A" and ok: "good_hashes P U" "prims_ok P" "b \<in> U" and v: "valid_chain P (A @ [b])"
    and time: "block_time b \<le> now + off + seconds MAX_FUTURE_BLOCK_DRIFT_SECONDS"
  obtains nd where "deliver_block P now b (np_node p) = (Ok (), nd)" "following P U off (p\<lparr>np_node := nd\<rparr>) (A @ [b])"
proof -
  let ?nd = "np_node p"
  note f' = f [unfolded following_def]
  have inv: "chain_inv P U (nd_chain ?nd) A" "bc_orphans (nd_chain ?nd) = []" using f' by (simp_all add: node_inv_def)
  from add_block_extends [OF inv ok v, of now] time f' obtain t where
    t: "add_block P now b (nd_chain ?nd) = (Ok (), t)" "chain_inv P U t (A @ [b])" "bc_orphans t = []" "grown P b (nd_chain ?nd) t"
       "bc_time_offset t = off" by metis
  let ?nd' = "snd (deliver_block P now b ?nd)"
  have al: "node_allowed P U (Deliver now b) ?nd" using t(1) ok(3) by simp
  have "run_node P (Deliver now b) ?nd = ?nd'" by simp
  then have "node_reachable P U ?nd'"
    using f' reaches_call [of "node_allowed P U" "run_node P" fresh_node ?nd "Deliver now b"] al unfolding node_reachable_def by metis
  moreover have "node_inv P U ?nd' (A @ [b])" using accepted_inv [OF _ ok(1,3) t(1-4)] f' by blast
  moreover have "bc_time_offset (nd_chain ?nd') = off"
    using t(1,5) by (simp add: deliver_block_def persist_chain_state_def take_pruned_hashes_def)
  moreover have "deliver_block P now b ?nd = (Ok (), ?nd')" using t(1) by (simp add: deliver_block_def)
  ultimately show ?thesis using that by (simp add: following_def)
qed

lemma apply_batch_extends:
  assumes "following P U off p A" and ok: "good_hashes P U" "prims_ok P" and v: "valid_chain P (A @ bs)" "set bs \<subseteq> U"
    and time: "\<forall>b \<in> set bs. \<forall>i. block_time b \<le> tn_now (tn i) + off + seconds MAX_FUTURE_BLOCK_DRIFT_SECONDS"
  shows "\<exists>q. apply_batch P show_ip tn peer i bs p = (Ok (), q) \<and> following P U off q (A @ bs)"
  using assms(1) v time
proof (induction bs arbitrary: A p i)
  case (Cons b bs)
  have v: "valid_chain P (A @ [b])" using Cons.prems(2) valid_chain_prefix [of P "A @ [b]" bs] by simp
  from deliver_extends [OF Cons.prems(1) ok _ v, of "tn_now (tn i)"] Cons.prems(3,4) obtain nd where
    nd: "deliver_block P (tn_now (tn i)) b (np_node p) = (Ok (), nd)" "following P U off (p\<lparr>np_node := nd\<rparr>) (A @ [b])" by auto
  have "\<exists>q. apply_batch P show_ip tn peer (Suc i) bs (p\<lparr>np_node := nd\<rparr>) = (Ok (), q) \<and> following P U off q ((A @ [b]) @ bs)"
    by (rule Cons.IH [OF nd(2)]) (use Cons.prems in auto)
  then show ?case using nd(1) by simp
qed simp

text \<open>What a node answers to a request, as the one that asks sees it.\<close>

definition answered :: "prims \<Rightarrow> (ip_addr \<Rightarrow> string) \<Rightarrow> (nat \<Rightarrow> turn) \<Rightarrow> process \<Rightarrow> nat \<Rightarrow> message \<Rightarrow> (receive_error, message) outcome" where
  "answered P show_ip tn q i m =
     (case handle_message P show_ip (tn i) None m q of
        (Continue, reply # _, _, _) \<Rightarrow> Ok reply
      | _ \<Rightarrow> Err (Io UnexpectedEof))"

lemma answered_blocks:
  assumes "active_rep P (nd_chain (np_node q)) B" "unat start < length B" "0 < unat n"
  shows "\<exists>k > 0. answered P show_ip tn q i (FetchBlocks start n) = Ok (Blocks (take k (drop (unat start) B)))"
  using fetch_blocks_prefix [OF assms] by (auto simp: answered_def reply_or_die_def)

lemma ucast_height: "(ucast (block_height s) :: u32) = of_nat (length (bc_active_chain s))"
  unfolding block_height_def by transfer (simp add: take_bit_take_bit)

lemma height_words:
  assumes "length (bc_active_chain s) = n" "n < m" "m < 2 ^ 32"
  shows "unat (block_height s) = n" "\<not> (of_nat m :: u32) \<le> ucast (block_height s)"
    and "0 < unat (min ((of_nat m :: u32) - ucast (block_height s)) (of_nat BLOCKS_PER_FETCH_BATCH))"
proof -
  show h: "unat (block_height s) = n" using assms by (simp add: block_height_def unat_of_nat take_bit_nat_eq_self)
  have u: "unat (ucast (block_height s) :: u32) = n" using h assms by (simp add: unsigned_ucast_eq take_bit_nat_eq_self)
  have m: "unat (of_nat m :: u32) = m" using assms(3) by (simp add: unat_of_nat take_bit_nat_eq_self)
  show below: "\<not> (of_nat m :: u32) \<le> ucast (block_height s)" using u m assms(2) by (simp add: word_le_nat_alt)
  then have "unat ((of_nat m :: u32) - ucast (block_height s)) = m - n" using u m by (simp add: unat_sub word_le_nat_alt)
  then show "0 < unat (min ((of_nat m :: u32) - ucast (block_height s)) (of_nat BLOCKS_PER_FETCH_BATCH))"
    using assms(2) by (simp add: min_def BLOCKS_PER_FETCH_BATCH_def word_less_nat_alt)
qed

lemma download_follows:
  assumes ok: "good_hashes P U" "prims_ok P" and peer: "active_rep P (nd_chain (np_node q)) B" "set B \<subseteq> U" "length B < 2 ^ 32"
    and time: "\<forall>b \<in> set B. \<forall>r i. block_time b \<le> tn_now (tn r i) + off + seconds MAX_FUTURE_BLOCK_DRIFT_SECONDS"
    and "following P U off p A" "B = A @ rest" "length rest < fuel"
  shows "\<exists>p'. download_loop fuel P show_ip tn ip (answered P show' tn' q) i (of_nat (length B)) p = (Ok (), p') \<and> following P U off p' B"
  using assms(7-9)
proof (induction fuel arbitrary: i p A rest)
  case (Suc fuel)
  let ?s = "nd_chain (np_node p)"
  have len: "length (bc_active_chain ?s) = length A"
    using Suc.prems(1) by (simp add: following_def node_inv_def chain_inv_def active_rep_def)
  have v: "valid_chain P B" using peer(1) by (simp add: active_rep_def)
  show ?case
  proof (cases "rest = []")
    case True
    then have "ucast (block_height ?s) = (of_nat (length B) :: u32)"
      using len Suc.prems(2) by (simp add: ucast_height)
    then show ?thesis using True Suc.prems by simp
  next
    case False
    then have less: "length A < length B" using Suc.prems(2) by simp
    note h = height_words [OF len less peer(3)]
    obtain k where k: "0 < k" "answered P show' tn' q i (FetchBlocks (block_height ?s)
        (min (of_nat (length B) - ucast (block_height ?s)) (of_nat BLOCKS_PER_FETCH_BATCH))) = Ok (Blocks (take k rest))"
      using answered_blocks [OF peer(1) _ h(3), of "block_height ?s" show' tn' i] less h(1) Suc.prems(2) by auto
    have "valid_chain P (A @ take k rest)"
      using v Suc.prems(2) valid_chain_prefix [of P "A @ take k rest" "drop k rest"] by simp
    moreover have "set (take k rest) \<subseteq> set B" using set_take_subset [of k rest] Suc.prems(2) by auto
    ultimately have "\<exists>p1. apply_batch P show_ip (tn i) ip 0 (take k rest) p = (Ok (), p1) \<and> following P U off p1 (A @ take k rest)"
      using peer(2) time by (intro apply_batch_extends [OF Suc.prems(1) ok]) blast+
    then obtain p1 where p1: "apply_batch P show_ip (tn i) ip 0 (take k rest) p = (Ok (), p1)" "following P U off p1 (A @ take k rest)" by blast
    have "\<exists>p'. download_loop fuel P show_ip tn ip (answered P show' tn' q) (Suc i) (of_nat (length B)) p1 = (Ok (), p') \<and> following P U off p' B"
    proof (rule Suc.IH [OF p1(2), of "drop k rest"])
      have "length rest \<noteq> 0" using False by simp
      then show "length (drop k rest) < fuel" using Suc.prems(3) k(1) unfolding length_drop by linarith
    qed (use Suc.prems(2) in simp)
    then show ?thesis using h(2) k p1(1) False by (simp add: Let_def with_check_def with_step_def)
  qed
qed simp

text \<open>
  C28: Catching up works.  A node that holds some prefix of an honest peer's chain and downloads
  from it up to the height the peer announced ends, within one round trip per missing block, without
  error, on the peer's chain with the peer's target and unspent outputs, all of it written to its
  store; no clock reading may have a block more than two hours ahead.
\<close>

theorem download_reaches_peer:
  assumes "good_hashes P U" "prims_ok P" "node_reachable P U (np_node p)" "reachable P U (nd_chain (np_node q))"
    and prefix: "bc_active_chain (nd_chain (np_node p)) = take n (bc_active_chain (nd_chain (np_node q)))"
    and height: "length (bc_active_chain (nd_chain (np_node q))) < 2 ^ 32"
    and time: "\<forall>b r i. b \<in> snd ` set (bc_blocks (nd_chain (np_node q))) \<longrightarrow>
       block_time b \<le> tn_now (tn r i) + bc_time_offset (nd_chain (np_node p)) + seconds MAX_FUTURE_BLOCK_DRIFT_SECONDS"
    and net: "node \<in> set (np_nodes p)" "nw_blocks nw node = answered P show' tn' q"
    and fuel: "length (bc_active_chain (nd_chain (np_node q))) < fuel + length (bc_active_chain (nd_chain (np_node p)))"
  shows "\<exists>p'. download_blockchain fuel P show_ip addr_ip tn nw node (ucast (block_height (nd_chain (np_node q)))) p = (Ok (), p')
    \<and> bc_active_chain (nd_chain (np_node p')) = bc_active_chain (nd_chain (np_node q))
    \<and> bc_target (nd_chain (np_node p')) = bc_target (nd_chain (np_node q))
    \<and> strip (bc_utxos (nd_chain (np_node p'))) = strip (bc_utxos (nd_chain (np_node q)))
    \<and> get_active_chain (nd_store (np_node p')) = Ok (bc_active_chain (nd_chain (np_node q)))
    \<and> node_reachable P U (np_node p')"
proof -
  let ?s = "nd_chain (np_node p)" and ?t = "nd_chain (np_node q)"
  obtain A where A: "node_inv P U (np_node p) A" using node_reachable_inv [OF assms(3,1,2)] by blast
  obtain B where B: "chain_inv P U ?t B" using reachable_inv [OF assms(4,1,2)] by blast
  have B': "active_rep P ?t B" "set B \<subseteq> U" "set B \<subseteq> snd ` set (bc_blocks ?t)" "length B = length (bc_active_chain ?t)"
    using B by (force simp: chain_inv_def active_rep_def stored_def within_def dest!: bm_get_in_set bspec)+
  have A': "set A \<subseteq> U" "map (block_hash P) A = map (block_hash P) (take n B)"
    using A B' prefix by (auto simp: node_inv_def chain_inv_def active_rep_def stored_def take_map dest!: bspec within_get)
  have "set (take n B) \<subseteq> U" using B'(2) set_take_subset [of n B] by blast
  then have "inj_on (block_hash P) (set A \<union> set (take n B))"
    using assms(1) A'(1) by (auto simp: good_hashes_def intro: inj_on_subset)
  with A'(2) have eq: "A = take n B" by (rule map_inj_on)
  have len: "length (bc_active_chain ?s) = length A" using A by (simp add: node_inv_def chain_inv_def active_rep_def)
  have f: "following P U (bc_time_offset ?s) p A" using assms(3) A by (simp add: following_def)
  have times: "\<forall>b \<in> set B. \<forall>r i. block_time b \<le> tn_now (tn r i) + bc_time_offset ?s + seconds MAX_FUTURE_BLOCK_DRIFT_SECONDS"
    using time B'(3) by blast
  have "length B = length A + length (drop n B)" unfolding eq by simp
  then have missing: "length (drop n B) < fuel" using fuel len B'(4) by linarith
  have h: "(ucast (block_height ?t) :: u32) = of_nat (length B)" using B'(4) by (simp add: ucast_height)
  have "\<exists>p'. download_loop fuel P show_ip tn (addr_ip node) (answered P show' tn' q) 0 (of_nat (length B)) p = (Ok (), p')
      \<and> following P U (bc_time_offset ?s) p' B"
    by (rule download_follows [where rest = "drop n B", OF assms(1,2) B'(1,2) _ _ f])
      (use B'(4) eq times height missing in auto)
  then obtain p' where "download_blockchain fuel P show_ip addr_ip tn nw node (ucast (block_height ?t)) p = (Ok (), p')"
    "following P U (bc_time_offset ?s) p' B"
    using net by (auto simp: download_blockchain_def h)
  then show ?thesis using B by (auto simp: following_def node_inv_def chain_inv_def active_rep_def holds_chain_def)
qed

lemma valid_chain_parent:
  assumes "valid_chain P B" "0 < h" "h < length B"
  shows "bh_prev_block_hash (blk_header (B ! h)) = block_hash P (B ! (h - 1))"
proof -
  have "B = (take h B @ [B ! h]) @ drop (Suc h) B" using assms(3) by (simp add: id_take_nth_drop [symmetric])
  then have "valid_chain P (take h B @ [B ! h])" using assms(1) valid_chain_prefix by metis
  moreover have "last (take h B) = B ! (h - 1)" "take h B \<noteq> []"
    using assms(2,3) by (cases h; auto simp: take_Suc_conv_app_nth)+
  ultimately show ?thesis by (simp add: valid_chain_snoc attaches_def)
qed

lemma add_block_unknown_parent:
  assumes "chain_inv P U s A" "A \<noteq> []" "bh_prev_block_hash (blk_header b) = g" "g \<noteq> hash_zero" "\<not> bm_contains g (bc_blocks s)"
  shows "add_block P now b s = (Err OrphanBlock, snd (buffer_orphan P b s))"
proof -
  have "bm_contains (tip_hash s) (bc_blocks s)"
    using assms(1,2) tip_hash_rep [of P s A] by (auto simp: chain_inv_def active_rep_def stored_def bm_contains_get)
  then have "g \<noteq> tip_hash s" using assms(5) by auto
  then have "add_block_once P now b s = buffer_orphan P b s"
    using assms(3-5) by (simp add: add_block_once_def add_block_off_tip_def Let_def)
  then show ?thesis by (simp add: add_block_def with_step_def buffer_orphan_def)
qed

text \<open>
  C32: A node on a fork does not catch up.  When the peer's chain is longer and its block just below
  the node's own height is not one the node has, the download fails at the first block it is sent,
  whatever the two chains weigh: the node asks for blocks from its own height on and never for the
  blocks after the fork.  Its chain and its store stay as they were.
\<close>

theorem forked_download_fails:
  assumes "good_hashes P U" "prims_ok P" "reachable P U (nd_chain (np_node p))" "reachable P U (nd_chain (np_node q))"
    and heights: "h = length (bc_active_chain (nd_chain (np_node p)))" "0 < h"
      "h < length (bc_active_chain (nd_chain (np_node q)))" "length (bc_active_chain (nd_chain (np_node q))) < 2 ^ 32"
    and fork: "\<not> bm_contains (bc_active_chain (nd_chain (np_node q)) ! (h - 1)) (bc_blocks (nd_chain (np_node p)))"
    and net: "node \<in> set (np_nodes p)" "nw_blocks nw node = answered P show' tn' q"
  shows "\<exists>p'. download_blockchain (Suc fuel) P show_ip addr_ip tn nw node (ucast (block_height (nd_chain (np_node q)))) p
      = (Err NotConnected, p')
    \<and> bc_active_chain (nd_chain (np_node p')) = bc_active_chain (nd_chain (np_node p))
    \<and> nd_store (np_node p') = nd_store (np_node p)"
proof -
  let ?s = "nd_chain (np_node p)" and ?t = "nd_chain (np_node q)"
  obtain A where A: "chain_inv P U ?s A" using reachable_inv [OF assms(3,1,2)] by blast
  obtain B where B: "chain_inv P U ?t B" using reachable_inv [OF assms(4,1,2)] by blast
  have rep: "active_rep P ?t B" "bc_active_chain ?t = map (block_hash P) B" "valid_chain P B" "set B \<subseteq> U"
    using B by (auto simp: chain_inv_def active_rep_def stored_def dest!: bspec within_get)
  have len: "h < length B" "length B < 2 ^ 32" and ne: "A \<noteq> []"
    using heights rep(2) A by (auto simp: chain_inv_def active_rep_def)
  note hw = height_words [OF heights(1) [symmetric] len]
  obtain k where k: "0 < k" "answered P show' tn' q 0 (FetchBlocks (block_height ?s)
      (min (of_nat (length B) - ucast (block_height ?s)) (of_nat BLOCKS_PER_FETCH_BATCH))) = Ok (Blocks (take k (drop h B)))"
    using answered_blocks [OF rep(1) _ hw(3), of "block_height ?s" show' tn' 0] len hw(1) by auto
  obtain bs where bs: "take k (drop h B) = B ! h # bs" using k(1) len(1) by (cases k) (auto simp: Cons_nth_drop_Suc [symmetric])
  let ?g = "block_hash P (B ! (h - 1))"
  have "B ! (h - 1) \<in> U" using rep(4) len(1) by (meson less_imp_diff_less nth_mem subsetD)
  then have "?g \<noteq> hash_zero" using assms(1) by (simp add: good_hashes_def)
  moreover have "\<not> bm_contains ?g (bc_blocks ?s)" using fork rep(2) len(1) heights(2) by simp
  ultimately have add: "add_block P now (B ! h) ?s = (Err OrphanBlock, snd (buffer_orphan P (B ! h) ?s))" for now
    using add_block_unknown_parent [OF A ne valid_chain_parent [OF rep(3) heights(2) len(1)]] by blast
  have "(ucast (block_height ?t) :: u32) = of_nat (length B)" using rep(2) by (simp add: ucast_height)
  then show ?thesis using net hw(2) k(2) bs add
    by (simp add: download_blockchain_def Let_def with_check_def with_step_def deliver_block_def buffer_orphan_def)
qed

end
