(* ===== verification/Node_Witnesses.thy ===== *)
theory Node_Witnesses
  imports Chain_Witnesses Node_Sync
begin

text \<open>
  The theorems on the node at work, on the sample packages of \<open>Chain_Witnesses\<close> and a few blocks on
  top of their genesis, and a run that ends badly: a download from a peer that repeats itself.
\<close>

subsection \<open>Blocks after the genesis\<close>

definition coin :: "nat \<Rightarrow> transaction_output" where
  "coin t = \<lparr>txo_value = 5000000000, txo_unique_id = of_nat t, txo_pubkey = PublicKey [7]\<rparr>"

definition child :: "hash \<Rightarrow> nat \<Rightarrow> block" where
  "child parent t = \<lparr>blk_header = \<lparr>bh_timestamp = int t, bh_nonce = 0, bh_prev_block_hash = parent, bh_merkle_root = 256,
                                bh_target = MIN_TARGET\<rparr>,
                blk_transactions = [\<lparr>tx_inputs = [], tx_outputs = [coin t]\<rparr>]\<rparr>"

lemma child_simps [simp]:
  "bh_prev_block_hash (blk_header (child parent t)) = parent" "block_time (child parent t) = int t" "bh_timestamp (blk_header (child parent t)) = int t"
  "blk_transactions (child parent t) = [\<lparr>tx_inputs = [], tx_outputs = [coin t]\<rparr>]" "bh_target (blk_header (child parent t)) = MIN_TARGET"
  "bh_merkle_root (blk_header (child parent t)) = 256"
  by (simp_all add: child_def block_time_def)

lemma child_hash: "t < 255 \<Longrightarrow> block_hash sample (child parent t) = of_nat (Suc t)"
proof -
  assume t: "t < 255"
  have "of_int (block_time (child parent t)) + 1 = (of_nat (Suc t) :: byte)" by simp
  then have "unat (block_hash sample (child parent t)) = unat (ucast (of_nat (Suc t) :: byte) :: u256)" by (simp only: sample_block_hash)
  also have "\<dots> = Suc t" using t by (simp add: unsigned_ucast_eq unat_of_nat take_bit_nat_eq_self del: of_nat_Suc)
  also have "\<dots> = unat (of_nat (Suc t) :: u256)" using t by (simp add: unat_of_nat take_bit_nat_eq_self del: of_nat_Suc)
  finally show ?thesis by (simp only: word_unat_eq_iff)
qed

lemma early_reward: "n < 20 \<Longrightarrow> block_reward_at_height (of_nat n) = 5000000000"
proof -
  assume "n < 20"
  then have "(of_nat n :: u64) div 7875 = 0" by (simp add: word_arith_nat_div unat_of_nat take_bit_nat_eq_self)
  then show ?thesis by (simp add: block_reward_at_height_def INITIAL_REWARD_def HALVING_INTERVAL_def)
qed

definition on_top :: "hash \<Rightarrow> nat \<Rightarrow> blockchain \<Rightarrow> blockchain" where
  "on_top parent t s = s\<lparr>bc_utxos := bm_insert (output_hash sample (coin t)) (False, coin t) (bc_utxos s), bc_mempool := [],
     bc_blocks := bm_insert (of_nat (Suc t)) (child parent t) (bc_blocks s), bc_active_chain := bc_active_chain s @ [of_nat (Suc t)],
     bc_target := MIN_TARGET\<rparr>"

lemma add_child:
  assumes "bc_active_chain s \<noteq> []" "length (bc_active_chain s) < 20" "bc_mempool s = []" "bc_target s = MIN_TARGET"
    and "bm_get (bc_blocks s) (last (bc_active_chain s)) = Some parent" "block_time parent < int t" "t < 200"
    and "int t \<le> now + bc_time_offset s"
  shows "add_block_once sample now (child (last (bc_active_chain s)) t) s = (Ok (of_nat (Suc t)), on_top (last (bc_active_chain s)) t s)"
proof -
  let ?b = "child (last (bc_active_chain s)) t"
  have ver: "verify_transactions sample ?b (block_height s) (bc_utxos s) = Ok ()"
    using assms(2)
    by (simp add: verify_transactions_def verify_coinbase_transaction_def calculate_miner_fees_def
      calculate_miner_fees_for_transactions_def coin_def checked_add_def block_height_def early_reward)
  have "check_extends_tip sample now s ?b = Ok ()"
    using assms ver
    by (simp add: check_extends_tip_def matches_target_def sample_hashes MIN_TARGET_pos check_block_size_def check_timestamp_def
        check_merkle_def merkle_single BLOCK_BYTE_CAP_def seconds_def nanos_per_sec_def MAX_FUTURE_BLOCK_DRIFT_SECONDS_def Let_def)
  then show ?thesis
    using assms
    by (simp add: add_block_once_def tip_hash_def add_block_extending_tip_def with_check_def child_hash
        apply_block_def evict_stale_mempool_entries_def cleanup_mempool_def apply_transactions_def
        apply_transaction_def try_adjust_target_def DIFFICULTY_UPDATE_INTERVAL_def on_top_def Let_def)
qed

lemma state0_simps [simp]:
  "bc_active_chain state0 = [1]" "bc_mempool state0 = []" "bc_target state0 = MIN_TARGET" "bm_get (bc_blocks state0) 1 = Some genesis0"
  "bc_time_offset state0 = 0" "bc_orphans state0 = []" "block_time genesis0 = 0" "bc_pending_prunes state0 = []"
  by (simp_all add: state0_def blockchain_new_def bm_get_def genesis0_def block_time_def)

definition few :: "block set" where
  "few = {genesis0, child 1 2, child 3 3, child 1 4, child 5 5}"

lemma few_hashes: "block_hash sample genesis0 = 1" "block_hash sample (child p 2) = 3" "block_hash sample (child p 3) = 4"
  "block_hash sample (child p 4) = 5" "block_hash sample (child p 5) = 6"
  by (simp_all add: child_hash) (simp add: sample_hashes)

lemma good_hashes_few: "good_hashes sample few"
  by (simp add: good_hashes_def few_def few_hashes sample_header_hash hash_zero_def inj_on_def)

lemmas few_hyps = good_hashes_few prims_ok_sample

lemma add_child_alone:
  assumes "bc_active_chain s \<noteq> []" "length (bc_active_chain s) < 20" "bc_mempool s = []" "bc_target s = MIN_TARGET"
    and "bm_get (bc_blocks s) (last (bc_active_chain s)) = Some parent" "block_time parent < int t" "t < 200"
    and "int t \<le> now + bc_time_offset s" "bc_orphans s = []"
  shows "add_block sample now (child (last (bc_active_chain s)) t) s = (Ok (), on_top (last (bc_active_chain s)) t s)"
  using add_block_no_orphans [OF add_child [OF assms(1-8)]] assms(9) by (simp add: on_top_def)

definition one_more :: blockchain where "one_more = on_top 1 2 state0"
definition other_branch :: blockchain where "other_branch = on_top 5 5 (on_top 1 4 state0)"

lemma add_one: "2 \<le> now \<Longrightarrow> add_block sample now (child 1 2) state0 = (Ok (), one_more)"
  using add_child_alone [of state0 genesis0 2 now] by (simp add: one_more_def)

lemma genesis_reachable: "reachable sample few state0"
  using reachable_call [OF reachable.start, of "AddBlock 0 genesis0" few sample] by (simp add: add_genesis0 few_def)

lemma one_reachable: "reachable sample few one_more"
  using reachable_call [OF genesis_reachable, of "AddBlock 9 (child 1 2)"] add_one [of 9] by (simp add: few_def)

lemma other_reachable: "reachable sample few other_branch"
proof -
  have "add_block sample 9 (child 1 4) state0 = (Ok (), on_top 1 4 state0)" using add_child_alone [of state0 genesis0 4 9] by simp
  then have r: "reachable sample few (on_top 1 4 state0)"
    using reachable_call [OF genesis_reachable, of "AddBlock 9 (child 1 4)"] by (simp add: few_def)
  have "add_block sample 9 (child 5 5) (on_top 1 4 state0) = (Ok (), other_branch)"
    using add_child_alone [of "on_top 1 4 state0" "child 1 4" 5 9] by (simp add: other_branch_def) (simp add: on_top_def)
  then show ?thesis using reachable_call [OF r, of "AddBlock 9 (child 5 5)"] by (simp add: few_def)
qed

subsection \<open>Stores that name a block they do not hold, and a download that does not end\<close>

lemma fresh_genesis: "deliver_block sample 0 genesis0 fresh_node = (Ok (), persist_chain_state sample genesis0 (fresh_node\<lparr>nd_chain := state0\<rparr>))"
proof -
  have "nd_chain fresh_node = blockchain_new" by (simp add: fresh_node_def)
  then show ?thesis by (simp add: deliver_block_def add_genesis0)
qed

definition genesis_node :: node where
  "genesis_node = snd (deliver_block sample 0 genesis0 fresh_node)"

lemma genesis_node_simps [simp]: "nd_chain genesis_node = state0" "stored_block (nd_store genesis_node) h = (if h = 1 then Some genesis0 else None)"
    "get_active_chain (nd_store genesis_node) = Ok [1]" "sb_schema_version (nd_store genesis_node) = Some (u32_to_be_bytes SCHEMA_VERSION)"
  unfolding genesis_node_def fresh_genesis
  by (simp_all add: persist_chain_state_def persist_writes_def take_pruned_hashes_def few_hashes Let_def)
    (simp_all add: fresh_node_def empty_store_def stored_block_def state0_def blockchain_new_def)

lemma genesis_node_reachable: "node_reachable sample few genesis_node"
proof -
  have "node_allowed sample few (Deliver 0 genesis0) fresh_node" using fresh_genesis
    by (simp add: few_def fresh_node_def add_genesis0)
  then show ?thesis
    using reaches_call [OF reaches_refl, of "node_allowed sample few" "Deliver 0 genesis0" fresh_node "run_node sample"]
    by (simp add: node_reachable_def genesis_node_def)
qed



definition both :: blockchain where
  "both = on_top 3 3 (on_top 1 2 state0)"


lemma both_simps: "bc_active_chain both = [1, 3, 4]" "bc_pending_prunes both = []"
  by (simp_all add: both_def on_top_def)




lemma few_in: "child 1 2 \<in> few" "child 3 3 \<in> few" "child 1 2 \<noteq> child 3 3"
  by (simp_all add: few_def) (simp add: child_def)

lemma early_enough: "block_time b \<le> 9 \<Longrightarrow> not_ahead (\<lambda>_. 9) b"
  by (simp add: not_ahead_def seconds_def MAX_FUTURE_BLOCK_DRIFT_SECONDS_def nanos_per_sec_def)


lemma both_added: "add_block sample 9 (child 3 3) one_more = (Ok (), both)"
proof -
  let ?t = "on_top 1 2 state0"
  have "bc_active_chain ?t = [1, 3]" "bm_get (bc_blocks ?t) 3 = Some (child 1 2)" "bc_mempool ?t = []" "bc_target ?t = MIN_TARGET"
    "bc_time_offset ?t = 0" "bc_orphans ?t = []" by (simp_all add: on_top_def)
  then show ?thesis using add_child_alone [of ?t "child 1 2" 3 9] by (simp add: both_def one_more_def)
qed

definition overtaken :: block_store where
  "overtaken = set_active_chain [1, 3, 4] (put_block sample (child 3 3) (nd_store genesis_node))"

theorem overtaken_write_loses_block_witness:
  "get_active_chain overtaken = Ok [1, 3, 4] \<and> stored_block overtaken 3 = None
   \<and> (\<exists>i < 3. stored_block overtaken ([1, 3, 4] ! i) = None \<and> fst (node_start sample (\<lambda>_. 9) overtaken) = Err (MissingBlock i))"
proof -
  have new: "stored_block (nd_store genesis_node) (block_hash sample (child 1 2)) = None" by (simp add: few_hashes)
  have one: "add_block sample 9 (child 1 2) (nd_chain genesis_node) = (Ok (), one_more)" using add_one [of 9] by simp
  have in_chain: "block_hash sample (child 1 2) \<in> set (bc_active_chain both)" by (simp add: both_simps few_hashes)
  have st: "overtaken \<in> set (drop 2 (persist_writes sample (child 3 3) both (nd_store genesis_node)))"
    by (simp add: persist_writes_def overtaken_def both_simps Let_def)
  have clock: "not_ahead (\<lambda>_. 9) x" if "stored_block overtaken h = Some x" for h x
    using that by (intro early_enough) (auto simp: overtaken_def few_hashes split: if_splits)
  from overtaken_write_loses_block [OF genesis_node_reachable few_hyps few_in(2,1) few_in(3) [symmetric] new one both_added in_chain st, of "\<lambda>_. 9"] clock
  show ?thesis by (simp add: both_simps few_hashes) (simp add: numeral_3_eq_3)
qed

lemma one_more_simps:
  "bc_active_chain one_more = [1, 3]" "bm_contains 1 (bc_blocks one_more)" "bm_get (bc_blocks one_more) 1 = Some genesis0"
  "bc_time_offset one_more = 0" "bc_orphans one_more = []" "bm_get (bc_blocks one_more) 3 = Some (child 1 2)"
  "bm_insert 3 (child 1 2) (bc_blocks one_more) = bc_blocks one_more"
  by (simp_all add: one_more_def on_top_def bm_contains_def) (simp add: state0_def)

lemma trace_one: "trace_branch one_more 1 = Ok (Some (1, []))"
  by (simp add: trace_branch_def trace_branch_with_index_def active_chain_index_def one_more_simps hash_zero_def bm_get_def)

lemma repeated_tip: "2 \<le> now \<Longrightarrow> add_block sample now (child 1 2) one_more = (Ok (), one_more)"
proof -
  assume now: "2 \<le> now"
  have "verify_transactions sample (child 1 2) 1 u = Ok ()" for u
    using early_reward [of 1]
    by (simp add: verify_transactions_def verify_coinbase_transaction_def calculate_miner_fees_def
      calculate_miner_fees_for_transactions_def coin_def checked_add_def)
  then have chk: "check_side_block sample now one_more [1] (child 1 2) = Ok ()"
    using now
    by (simp add: check_side_block_def replay_utxos_def recompute_target_for_chain_def retarget_loop.simps DIFFICULTY_UPDATE_INTERVAL_def
        one_more_simps matches_target_def sample_hashes MIN_TARGET_pos check_block_size_def check_timestamp_def expect_def
        check_merkle_def merkle_single BLOCK_BYTE_CAP_def seconds_def nanos_per_sec_def MAX_FUTURE_BLOCK_DRIFT_SECONDS_def Let_def)
  obtain w where w: "work_of_chain (bc_blocks one_more) [1, 3] = Ok w"
    using chain_work_weight [OF _ good_hashes_few] reachable_inv [OF one_reachable few_hyps] by (metis chain_work_def one_more_simps(1))
  have "one_more\<lparr>bc_blocks := bc_blocks one_more\<rparr> = one_more" by simp
  then have "add_block_once sample now (child 1 2) one_more = (Ok 3, one_more)"
    using chk trace_one w
    by (simp add: add_block_once_def tip_hash_def add_block_off_tip_def hash_zero_def few_hashes chain_work_def one_more_simps Let_def)
  then show ?thesis using one_more_simps(5) by (rule add_block_no_orphans)
qed

definition at_two :: process where
  "at_two = \<lparr>np_node = snd (deliver_block sample 9 (child 1 2) genesis_node), np_bans = no_bans, np_samples = [], np_nodes = [''peer'']\<rparr>"

definition calm :: "nat \<Rightarrow> turn" where
  "calm i = \<lparr>tn_now = 9, tn_strike = 9, tn_ban = 9, tn_saved = True, tn_uuid = 0\<rparr>"

lemma calm_now: "tn_now (calm i) = 9"
  by (simp add: calm_def)

definition repeating :: network where
  "repeating = \<lparr>nw_connects = (\<lambda>_. True), nw_handshake = (\<lambda>_. Ok 0), nw_nodes = (\<lambda>_. Ok (NodeList [])),
     nw_tip = (\<lambda>_. Ok (ChainTip 3 1)), nw_blocks = (\<lambda>_ _ _. Ok (Blocks [child 1 2]))\<rparr>"

lemma download_repeats:
  "nd_chain (np_node p) = one_more \<Longrightarrow>
    fst (download_loop fuel sample show_ip (\<lambda>_. calm) ip (\<lambda>_ _. Ok (Blocks [child 1 2])) i 3 p) = Cutoff"
proof (induction fuel arbitrary: i p)
  case (Suc fuel)
  let ?nd = "persist_chain_state sample (child 1 2) ((np_node p)\<lparr>nd_chain := one_more\<rparr>)"
  have d: "deliver_block sample 9 (child 1 2) (np_node p) = (Ok (), ?nd)" using Suc.prems repeated_tip [of 9] by (simp add: deliver_block_def)
  have "take_pruned_hashes one_more = ([], one_more)" by (simp add: take_pruned_hashes_def one_more_def on_top_def state0_def blockchain_new_def)
  then have "nd_chain ?nd = one_more" by (simp add: persist_chain_state_def)
  then have "fst (download_loop fuel sample show_ip (\<lambda>_. calm) ip (\<lambda>_ _. Ok (Blocks [child 1 2])) (Suc i) 3 (p\<lparr>np_node := ?nd\<rparr>)) = Cutoff"
    by (intro Suc.IH) simp
  moreover have "(ucast (block_height one_more) :: u32) = 2" by (simp add: ucast_height one_more_simps)
  ultimately show ?case using Suc.prems d by (simp add: calm_now Let_def with_step_def)
qed simp

text \<open>
  A download need not end.  A peer that announces one block more than the node has and answers
  every request with the node's own tip keeps it downloading: the block is accepted each time, as
  one already known on the active chain, the height does not move, and no number of round trips is
  enough, so that the node never comes to listen.
\<close>

theorem repeating_peer_stalls:
  "fst (catch_up fuel sample (\<lambda>_. ''ip'') (\<lambda>_. None) 9 (\<lambda>_. calm) repeating [''peer''] at_two) = Cutoff"
proof -
  have "nd_chain (np_node at_two) = one_more"
    using add_one [of 9] by (simp add: at_two_def deliver_block_def persist_chain_state_def take_pruned_hashes_def)
      (simp add: one_more_def on_top_def state0_def blockchain_new_def)
  from download_repeats [OF this] show ?thesis
    by (simp add: catch_up_def repeating_def turned_away_def sample_peer_def insert_node_def at_two_def find_best_chain_node_def
        download_blockchain_def with_step_def)
qed

subsection \<open>The theorems at work\<close>

definition small_codec :: codec where
  "small_codec = \<lparr>encode = (\<lambda>m. case m of AskChainTip \<Rightarrow> [1] | Hello _ _ _ \<Rightarrow> [2] | NewBlock _ \<Rightarrow> [3] | _ \<Rightarrow> [4]),
     decode = (\<lambda>bs. if bs = [1] then Ok AskChainTip else if bs = [2] then Ok (Hello PROTOCOL_MAGIC PROTOCOL_VERSION 5)
       else if bs = [3] then Ok (NewBlock (child 1 2)) else Err Malformed)\<rparr>"

theorem frames_roundtrip_witness:
  "receive_all small_codec (Suc (length [AskChainTip, NewBlock (child 1 2)])) \<lparr>incoming = concat (map (message_send small_codec) [AskChainTip, NewBlock (child 1 2)]), ending = UnexpectedEof\<rparr>
     = ([AskChainTip, NewBlock (child 1 2)], Some (Io UnexpectedEof), \<lparr>incoming = [], ending = UnexpectedEof\<rparr>)
   \<and> receive_all small_codec (Suc (length [AskChainTip, NewBlock (child 1 2)])) \<lparr>incoming = concat (map (message_send small_codec) [AskChainTip, NewBlock (child 1 2)])
         @ u64_to_be_bytes 99999999 @ [7], ending = OtherIo\<rparr>
     = ([AskChainTip, NewBlock (child 1 2)], Some (Io InvalidData), \<lparr>incoming = [7], ending = OtherIo\<rparr>)"
proof -
  have ok: "\<forall>m \<in> set [AskChainTip, NewBlock (child 1 2)].
      decode small_codec (encode small_codec m) = Ok m \<and> length (encode small_codec m) \<le> MAX_MESSAGE_SIZE"
    by (simp add: small_codec_def MAX_MESSAGE_SIZE_def)
  have "unat (99999999 :: u64) > MAX_MESSAGE_SIZE" by (simp add: MAX_MESSAGE_SIZE_def)
  with frames_roundtrip [OF ok, of 99999999 "[7]" OtherIo] show ?thesis by blast
qed

definition five_samples :: samples where
  "five_samples = [(V4 1 0 0 1, seconds 3), (V4 1 0 0 2, seconds 4), (V4 1 0 0 3, seconds 5), (V4 1 0 0 4, seconds 9000), (V4 1 0 0 5, seconds 9000)]"

theorem network_time_robust_witness:
  "\<exists>s. sampled five_samples blockchain_new = (five_samples, s) \<and> \<bar>bc_time_offset s\<bar> < minutes 71
     \<and> (bc_time_offset s = 0 \<or> seconds 3 \<le> bc_time_offset s \<and> bc_time_offset s \<le> seconds 5)"
proof -
  have z: "bc_time_offset blockchain_new = 0" by (simp add: blockchain_new_def)
  obtain s where s: "sampled five_samples blockchain_new = (five_samples, s)"
    by (simp add: sampled_def five_samples_def record_sample_def MAX_SAMPLES_def Let_def)
  have "filter (\<lambda>(_, d). 3 \<le> num_seconds d \<and> num_seconds d \<le> 5) five_samples
      = [(V4 1 0 0 1, seconds 3), (V4 1 0 0 2, seconds 4), (V4 1 0 0 3, seconds 5)]"
    by (simp add: five_samples_def)
  then have "length five_samples < 2 * length (filter (\<lambda>(_, d). 3 \<le> num_seconds d \<and> num_seconds d \<le> 5) five_samples)"
    by (simp add: five_samples_def)
  with network_time_robust [OF z s, of 3 5] s show ?thesis by blast
qed

definition rude :: strike_event where
  "rude = \<lparr>se_ip = V4 1 0 0 1, se_severe = True, se_now = 5, se_later = 6, se_saved = True\<rparr>"

theorem ban_needs_cause_witness:
  "\<exists>e \<in> set (strikes_of [Strike rude]). se_ip e = V4 1 0 0 1 \<and>
    (if se_severe e then 7 < se_now e + hours 1
     else 7 < se_later e + hours 1
       \<and> 3 \<le> length (filter (\<lambda>e'. se_ip e' = V4 1 0 0 1 \<and> \<not> se_severe e' \<and> se_now e - minutes 10 \<le> se_now e' \<and> se_now e' \<le> se_now e)
              (strikes_of [Strike rude])))"
proof (rule ban_needs_cause)
  show "fst (is_banned 7 (V4 1 0 0 1) (fold (run_ban (\<lambda>_. ''ip'')) [Strike rude] no_bans))"
    by (simp add: rude_def strike_def ban_now_def is_banned_def hours_def BAN_DURATION_HOURS_def minutes_def seconds_def nanos_per_sec_def)
qed simp

theorem third_strike_bans_witness:
  "fst (is_banned 4 (V4 1 0 0 1)
     (strike (\<lambda>_. ''ip'') 3 3 True (V4 1 0 0 1) False (strike (\<lambda>_. ''ip'') 2 2 True (V4 1 0 0 1) False
       (strike (\<lambda>_. ''ip'') 1 1 True (V4 1 0 0 1) False no_bans))))"
proof -
  have "minutes 10 \<ge> 2" "4 < 3 + hours 1" by (simp_all add: hours_def minutes_def seconds_def nanos_per_sec_def)
  then show ?thesis
    using third_strike_bans [of no_bans "V4 1 0 0 1" 2 1 3 "\<lambda>_. Some (V4 1 0 0 1)" "\<lambda>_. ''ip''" _ 3 2 True 1 True 4 3, OF _ _ _ _ _ _ refl]
    by (simp add: no_bans_def)
qed

lemma crash_allowed: "node_allowed sample few (CrashDuring 9 (child 1 2) 1 (\<lambda>_. 9)) genesis_node"
  by (simp add: few_def not_ahead_def seconds_def MAX_FUTURE_BLOCK_DRIFT_SECONDS_def nanos_per_sec_def)

theorem crash_loses_at_most_one_block_witness:
  "\<exists>t. fst (node_start sample (\<lambda>_. 9) (store_at_crash sample 9 (child 1 2) 1 genesis_node)) = Ok ()
     \<and> snd (node_start sample (\<lambda>_. 9) (store_at_crash sample 9 (child 1 2) 1 genesis_node))
        = \<lparr>nd_store = store_at_crash sample 9 (child 1 2) 1 genesis_node, nd_chain = t\<rparr>
     \<and> bc_active_chain t \<in> {[1], [1, 3]} \<and> bc_mempool t = []"
  using crash_loses_at_most_one_block [OF genesis_node_reachable few_hyps crash_allowed] add_one [of 9] one_more_simps(1) by auto

definition genesis_process :: process where
  "genesis_process = \<lparr>np_node = genesis_node, np_bans = no_bans, np_samples = [], np_nodes = [''peer'']\<rparr>"

theorem connection_keeps_reachable_witness:
  "\<exists>ack v out rel q. accept sample small_codec (\<lambda>_. ''ip'') 9 9 9 calm (V4 1 0 0 1)
        \<lparr>incoming = concat (map (message_send small_codec) [Hello 1 1 1, AskChainTip, NewBlock (child 1 2)]), ending = UnexpectedEof\<rparr>
        genesis_process = (ack, v, out, rel, q)
      \<and> reachable sample few (nd_chain (np_node q))"
proof -
  have dec: "\<forall>bytes m. decode small_codec bytes = Ok m \<longrightarrow> message_blocks m \<subseteq> few"
    by (auto simp: small_codec_def few_def split: if_splits)
  have "reachable sample few (nd_chain (np_node genesis_process))" using genesis_reachable by (simp add: genesis_process_def)
  from connection_keeps_reachable [OF this dec] show ?thesis by (metis prod_cases5)
qed

definition served_by :: "blockchain \<Rightarrow> network" where
  "served_by s = repeating\<lparr>nw_blocks := (\<lambda>_. answered sample (\<lambda>_. ''ip'') calm (genesis_process\<lparr>np_node := genesis_node\<lparr>nd_chain := s\<rparr>\<rparr>))\<rparr>"

lemma few_times: "b \<in> few \<Longrightarrow> block_time b \<le> 9"
  by (auto simp: few_def)

theorem download_reaches_peer_witness:
  "\<exists>p'. download_blockchain 2 sample (\<lambda>_. ''ip'') (\<lambda>_. None) (\<lambda>_. calm) (served_by one_more) ''peer'' 2 genesis_process = (Ok (), p')
     \<and> bc_active_chain (nd_chain (np_node p')) = [1, 3] \<and> get_active_chain (nd_store (np_node p')) = Ok [1, 3]"
proof -
  let ?q = "genesis_process\<lparr>np_node := genesis_node\<lparr>nd_chain := one_more\<rparr>\<rparr>"
  have "b \<in> few" if "b \<in> snd ` set (bc_blocks one_more)" for b
    using that reachable_inv [OF one_reachable few_hyps] by (auto simp: chain_inv_def within_def)
  then have "\<forall>b r i. b \<in> snd ` set (bc_blocks (nd_chain (np_node ?q))) \<longrightarrow> block_time b \<le> tn_now (calm i)
      + bc_time_offset (nd_chain (np_node genesis_process)) + seconds MAX_FUTURE_BLOCK_DRIFT_SECONDS"
    using few_times by (force simp: calm_now genesis_process_def seconds_def MAX_FUTURE_BLOCK_DRIFT_SECONDS_def nanos_per_sec_def)
  moreover have "(ucast (block_height one_more) :: u32) = 2" by (simp add: ucast_height one_more_simps)
  ultimately show ?thesis
    using download_reaches_peer [OF few_hyps, of genesis_process ?q 1 "\<lambda>_. calm" "''peer''" "served_by one_more" "\<lambda>_. ''ip''" calm 2]
      genesis_node_reachable one_reachable
    by (simp add: genesis_process_def served_by_def one_more_simps) blast
qed

theorem forked_download_fails_witness:
  "\<exists>p'. download_blockchain 1 sample (\<lambda>_. ''ip'') (\<lambda>_. None) (\<lambda>_. calm) (served_by other_branch) ''peer'' 3
       (genesis_process\<lparr>np_node := genesis_node\<lparr>nd_chain := one_more\<rparr>\<rparr>) = (Err NotConnected, p')
     \<and> bc_active_chain (nd_chain (np_node p')) = [1, 3]"
proof -
  let ?p = "genesis_process\<lparr>np_node := genesis_node\<lparr>nd_chain := one_more\<rparr>\<rparr>"
  let ?q = "genesis_process\<lparr>np_node := genesis_node\<lparr>nd_chain := other_branch\<rparr>\<rparr>"
  have "\<not> bm_contains 5 (bc_blocks one_more)" by (simp add: one_more_def on_top_def bm_contains_def) (simp add: state0_def bm_get_def)
  moreover have "bc_active_chain other_branch = [1, 5, 6]" by (simp add: other_branch_def on_top_def)
  moreover have "(ucast (block_height other_branch) :: u32) = 3" using calculation(2) by (simp add: ucast_height)
  ultimately show ?thesis
    using forked_download_fails [OF few_hyps, of ?p ?q 2 "''peer''" "served_by other_branch" "\<lambda>_. ''ip''" calm 0] one_reachable other_reachable
    by (simp add: genesis_process_def served_by_def one_more_simps) blast
qed

end
