(* ===== verification/Hub_Payout.thy ===== *)
theory Hub_Payout
  imports Hub_Frames Hub_Wallet
begin

text \<open>
  Paying for a task (\<open>hub/src/handlers.rs\<close>, from \<open>try_settle_verified_task\<close> to
  \<open>record_confirmed_payout\<close>, with \<open>submit_task_payout\<close> and \<open>submit_bounty_payout\<close>): a payout is
  recorded on disk before it is sent, a sweep asks the node what became of it, and the recipient
  counts as paid only on evidence.  The rows of \<open>hub/src/store.rs\<close> involved are the tasks, the
  payout attempts and the reputations.

  Each durable write and each send meets a fate: it happens, it fails, or the process dies before
  it; \<open>None\<close> as a result says the process died.  The node's replies, the clock, fresh ids and
  whether another caller holds the in-flight guard are arguments.  A send that fails may still
  have reached the node, so it counts as sent.  A call that panics leaves the process and the
  board as they are; it counts as a call that settled nothing.  (\<open>record_confirmed_payout\<close> passes
  no exchange account to \<open>save_confirmed_payout\<close>, whose row for it is left out.)
\<close>

datatype fate = Commits | Fails | Dies

record payout_io =
  pi_utxos :: "utxo_list option"
  pi_recipient :: "utxo_list option"
  pi_source :: "utxo_list option"
  pi_uuid :: "nat \<Rightarrow> uuid"
  pi_now :: instant
  pi_busy :: bool
  pi_fate :: "nat \<Rightarrow> fate"

record hub_keys =
  hk_operator_private :: private_key
  hk_operator_public :: public_key
  hk_escrow_private :: "pending_deposit \<Rightarrow> private_key"

subsection \<open>Rows\<close>

record payout_store =
  ps_tasks :: "(uuid, task) bmap"
  ps_attempts :: "(uuid \<times> public_key, payout_attempt) bmap"
  ps_reputation :: "(public_key, reputation_entry) bmap"

definition save_task :: "task \<Rightarrow> payout_store \<Rightarrow> payout_store" where
  "save_task t st = st\<lparr>ps_tasks := bm_insert (tk_id t) t (ps_tasks st)\<rparr>"

definition save_payout_attempt :: "payout_attempt \<Rightarrow> payout_store \<Rightarrow> payout_store" where
  "save_payout_attempt a st = st\<lparr>ps_attempts := bm_insert (pa_task_id a, pa_recipient a) a (ps_attempts st)\<rparr>"

definition save_confirmed_payout :: "task \<Rightarrow> public_key \<Rightarrow> reputation_entry \<Rightarrow> payout_store \<Rightarrow> payout_store" where
  "save_confirmed_payout t recipient reputation st =
     (save_task t st)\<lparr>ps_reputation := bm_insert recipient reputation (ps_reputation st),
        ps_attempts := bm_remove (tk_id t, recipient) (ps_attempts st)\<rparr>"

definition save_task_and_drop_payout_attempts :: "task \<Rightarrow> (uuid \<times> public_key) list \<Rightarrow> payout_store \<Rightarrow> payout_store" where
  "save_task_and_drop_payout_attempts t dropped st =
     (save_task t st)\<lparr>ps_attempts := fold bm_remove dropped (ps_attempts st)\<rparr>"

record payout_hub =
  ph_board :: task_board
  ph_store :: payout_store

type_synonym sends = "(uuid \<times> uuid option \<times> public_key list \<times> transaction) list"
type_synonym 'a did = "'a option \<times> sends \<times> payout_hub"

text \<open>The rows are written one after the other; the first that does not commit ends it.\<close>

fun save_attempts :: "(nat \<Rightarrow> fate) \<Rightarrow> nat \<Rightarrow> payout_attempt list \<Rightarrow> payout_store \<Rightarrow> fate \<times> payout_store" where
  "save_attempts fates k [] st = (Commits, st)"
| "save_attempts fates k (a # as) st =
     (case fates k of
        Commits \<Rightarrow> save_attempts fates (Suc k) as (save_payout_attempt a st)
      | f \<Rightarrow> (f, st))"

subsection \<open>Sending\<close>

fun leg_attempts ::
  "prims \<Rightarrow> task_board \<Rightarrow> instant \<Rightarrow> uuid \<Rightarrow> public_key \<Rightarrow> transaction \<Rightarrow> nat \<Rightarrow> (public_key \<times> u64) list \<Rightarrow> payout_attempt list option" where
  "leg_attempts P b now i source tx index [] = Some []"
| "leg_attempts P b now i source tx index ((recipient, amount) # recipients) =
     (if index < length (tx_outputs tx) \<and> txo_pubkey (tx_outputs tx ! index) = recipient \<and> txo_value (tx_outputs tx ! index) = amount
      then
        let previous = (case payout_attempt_for b i recipient of None \<Rightarrow> 0 | Some a \<Rightarrow> pa_submissions a)
        in map_option ((#) \<lparr>pa_task_id = i, pa_recipient = recipient, pa_amount = amount,
               pa_output_hash = output_hash P (tx_outputs tx ! index), pa_spent_inputs = map txi_prev_output_hash (tx_inputs tx),
               pa_source = source, pa_submitted_at = now, pa_submissions = previous + 1, pa_transaction = Some tx\<rparr>)
             (leg_attempts P b now i source tx (Suc index) recipients)
      else None)"

text \<open>A sent transaction is logged with its task, the escrow that funds it and the recipients it pays.\<close>

definition logged :: "task_board \<Rightarrow> uuid \<Rightarrow> public_key list \<Rightarrow> transaction \<Rightarrow> sends" where
  "logged b i rs tx = [(i, (case get_task b i of None \<Rightarrow> None | Some t \<Rightarrow> tk_escrow_id t), rs, tx)]"

definition submit_task_payout ::
  "prims \<Rightarrow> payout_io \<Rightarrow> uuid \<Rightarrow> private_key \<Rightarrow> public_key \<Rightarrow> (public_key \<times> u64) list \<Rightarrow> public_key \<Rightarrow> payout_hub \<Rightarrow> bool did" where
  "submit_task_payout P io i signing_key source recipients change h =
     (let b = ph_board h;
          rebuilding = map (\<lambda>(r, _). (i, r)) recipients
      in case build_payment_from P (pi_uuid io) (pi_utxos io) b signing_key source recipients change rebuilding of
           Ok tx \<Rightarrow>
             (case leg_attempts P b (pi_now io) i source tx 0 recipients of
                None \<Rightarrow> (Some False, [], h)
              | Some attempts \<Rightarrow>
                  (case save_attempts (pi_fate io) 0 attempts (ph_store h) of
                     (Commits, st) \<Rightarrow>
                       let b = fold record_payout_attempt attempts b;
                           n = length attempts;
                           (f, st) = (case get_task b i of
                                        None \<Rightarrow> (Commits, st)
                                      | Some t \<Rightarrow> (pi_fate io n, if pi_fate io n = Commits then save_task t st else st));
                           h = h\<lparr>ph_board := b, ph_store := st\<rparr>
                       in if f = Dies \<or> pi_fate io (Suc n) = Dies then (None, [], h)
                          else (Some (pi_fate io (Suc n) = Commits), logged b i (map fst recipients) tx, h)
                   | (Fails, st) \<Rightarrow> (Some False, [], h\<lparr>ph_store := st\<rparr>)
                   | (Dies, st) \<Rightarrow> (None, [], h\<lparr>ph_store := st\<rparr>)))
         | _ \<Rightarrow> (Some False, [], h))"

definition submit_bounty_payout ::
  "prims \<Rightarrow> hub_keys \<Rightarrow> payout_io \<Rightarrow> uuid \<Rightarrow> public_key \<Rightarrow> u64 \<Rightarrow> payout_hub \<Rightarrow> bool did" where
  "submit_bounty_payout P keys io i recipient amount h =
     submit_task_payout P io i (hk_operator_private keys) (hk_operator_public keys) [(recipient, amount)] (hk_operator_public keys) h"

definition settle_one_payout ::
  "prims \<Rightarrow> hub_keys \<Rightarrow> payout_io \<Rightarrow> uuid \<Rightarrow> public_key \<Rightarrow> u64 \<Rightarrow> payout_hub \<Rightarrow> bool did" where
  "settle_one_payout P keys io i recipient amount h =
     (if pi_busy io then (Some False, [], h)
      else case get_task (ph_board h) i of
        None \<Rightarrow> (Some False, [], h)
      | Some t \<Rightarrow>
          if is_recipient_paid t recipient then (Some True, [], h)
          else if payout_attempt_for (ph_board h) i recipient \<noteq> None then (Some True, [], h)
          else submit_bounty_payout P keys io i recipient amount h)"

fun settle_each ::
  "prims \<Rightarrow> hub_keys \<Rightarrow> (nat \<Rightarrow> payout_io) \<Rightarrow> nat \<Rightarrow> uuid \<Rightarrow> (public_key \<times> u64) list \<Rightarrow> payout_hub \<Rightarrow> bool did" where
  "settle_each P keys io k i [] h = (Some True, [], h)"
| "settle_each P keys io k i ((recipient, amount) # payouts) h =
     (case settle_one_payout P keys (io k) i recipient amount h of
        (None, sent, h) \<Rightarrow> (None, sent, h)
      | (Some ok, sent, h) \<Rightarrow>
          (case settle_each P keys io (Suc k) i payouts h of
             (res, sent', h) \<Rightarrow> (map_option (\<lambda>all_paid. ok \<and> all_paid) res, sent @ sent', h)))"

definition settle_escrow_funded_task ::
  "prims \<Rightarrow> hub_keys \<Rightarrow> payout_io \<Rightarrow> uuid \<Rightarrow> pending_deposit \<Rightarrow> payout_hub \<Rightarrow> bool did" where
  "settle_escrow_funded_task P keys io i deposit h =
     (if pi_busy io then (Some False, [], h)
      else case get_task (ph_board h) i of
        None \<Rightarrow> (Some False, [], h)
      | Some t \<Rightarrow>
          if owed_payouts t = [] then (Some True, [], h)
          else submit_task_payout P io i (hk_escrow_private keys deposit) (pd_deposit_pubkey deposit) (owed_payouts t) (pd_depositor deposit) h)"

definition funding_escrow :: "task_board \<Rightarrow> task \<Rightarrow> pending_deposit option" where
  "funding_escrow b t = Option.bind (tk_escrow_id t) (get_pending_deposit b)"

definition try_settle_verified_task ::
  "prims \<Rightarrow> hub_keys \<Rightarrow> (nat \<Rightarrow> payout_io) \<Rightarrow> uuid \<Rightarrow> payout_hub \<Rightarrow> bool did" where
  "try_settle_verified_task P keys io i h =
     (let b = ph_board h
      in case get_task b i of
           None \<Rightarrow> (Some False, [], h)
         | Some t \<Rightarrow>
             if tk_status t \<noteq> Verified \<and> tk_status t \<noteq> Submitted then (Some False, [], h)
             else let payouts = unsubmitted_payouts b i
               in if payouts = [] then (Some False, [], h)
                  else if tk_status t = Submitted then (Some False, [], h)
                  else (case funding_escrow b t of
                          Some deposit \<Rightarrow> settle_escrow_funded_task P keys (io 0) i deposit h
                        | None \<Rightarrow> settle_each P keys io 0 i payouts h))"

subsection \<open>Resolving\<close>

definition record_confirmed_payout :: "payout_io \<Rightarrow> uuid \<Rightarrow> public_key \<Rightarrow> u64 \<Rightarrow> payout_hub \<Rightarrow> bool did" where
  "record_confirmed_payout io i recipient amount h =
     (let b = ph_board h;
          previous_task = get_task b i;
          previous_reputation = reputation_of b recipient;
          previous_attempt = payout_attempt_for b i recipient;
          previous_account = exchange_account_of b recipient
      in case mark_recipient_paid (pi_now io) i recipient amount b of
           (Ok _, b1) \<Rightarrow>
             let b2 = snd (clear_payout_attempt i recipient b1)
             in (case get_task b2 i of
                   None \<Rightarrow> (Some False, [], h\<lparr>ph_board := b2\<rparr>)
                 | Some final_task \<Rightarrow>
                     (case pi_fate io 0 of
                        Commits \<Rightarrow> (Some True, [], h\<lparr>ph_board := b2,
                          ph_store := save_confirmed_payout final_task recipient (reputation_of b2 recipient) (ph_store h)\<rparr>)
                      | Dies \<Rightarrow> (None, [], h\<lparr>ph_board := b2\<rparr>)
                      | Fails \<Rightarrow>
                          let b3 = (case previous_task of None \<Rightarrow> b2 | Some t \<Rightarrow> restore_task t b2);
                              b4 = restore_reputation recipient previous_reputation b3;
                              b5 = restore_exchange_account recipient previous_account b4;
                              b6 = (case previous_attempt of None \<Rightarrow> b5 | Some a \<Rightarrow> restore_payout_attempt a b5)
                          in (Some False, [], h\<lparr>ph_board := b6\<rparr>)))
         | (_, b1) \<Rightarrow> (Some False, [], h\<lparr>ph_board := b1\<rparr>))"

definition abandon_payout :: "payout_io \<Rightarrow> payout_attempt \<Rightarrow> payout_hub \<Rightarrow> unit did" where
  "abandon_payout io a h =
     (let b = ph_board h; i = pa_task_id a
      in case mark_payout_failed i b of
           (Ok dropped, b1) \<Rightarrow>
             (case get_task b1 i of
                None \<Rightarrow> (Some (), [], h\<lparr>ph_board := b1\<rparr>)
              | Some failed_task \<Rightarrow>
                  (case pi_fate io 0 of
                     Commits \<Rightarrow> (Some (), [], h\<lparr>ph_board := b1,
                       ph_store := save_task_and_drop_payout_attempts failed_task (map (\<lambda>d. (pa_task_id d, pa_recipient d)) dropped) (ph_store h)\<rparr>)
                   | Dies \<Rightarrow> (None, [], h\<lparr>ph_board := b1\<rparr>)
                   | Fails \<Rightarrow>
                       let b2 = (case get_task b i of None \<Rightarrow> b1 | Some t \<Rightarrow> restore_task t b1)
                       in (Some (), [], h\<lparr>ph_board := fold restore_payout_attempt dropped b2\<rparr>)))
         | (_, b1) \<Rightarrow> (Some (), [], h\<lparr>ph_board := b1\<rparr>))"

definition resend_lost_payout :: "prims \<Rightarrow> hub_keys \<Rightarrow> payout_io \<Rightarrow> payout_attempt \<Rightarrow> payout_hub \<Rightarrow> unit did" where
  "resend_lost_payout P keys io a h =
     (let b = ph_board h; i = pa_task_id a
      in case get_task b i of
           None \<Rightarrow> (Some (), [], h)
         | Some t \<Rightarrow>
             if payout_attempt_for b i (pa_recipient a) \<noteq> Some a then (Some (), [], h)
             else (case pa_transaction a of
                     Some tx \<Rightarrow>
                       let legs = filter (\<lambda>leg. pa_transaction leg = Some tx) (payout_attempts_for_task b i);
                           nxt = map (\<lambda>leg. leg\<lparr>pa_submissions := pa_submissions leg + 1, pa_submitted_at := pi_now io\<rparr>) legs
                       in (case save_attempts (pi_fate io) 0 nxt (ph_store h) of
                             (Commits, st) \<Rightarrow>
                               let h = h\<lparr>ph_board := fold record_payout_attempt nxt b, ph_store := st\<rparr>
                               in if pi_fate io (length nxt) = Dies then (None, [], h)
                                  else (Some (), logged b i (map pa_recipient nxt) tx, h)
                           | (Fails, st) \<Rightarrow> (Some (), [], h\<lparr>ph_store := st\<rparr>)
                           | (Dies, st) \<Rightarrow> (None, [], h\<lparr>ph_store := st\<rparr>))
                   | None \<Rightarrow>
                       (case (case funding_escrow b t of
                                Some deposit \<Rightarrow> settle_escrow_funded_task P keys io i deposit h
                              | None \<Rightarrow> submit_bounty_payout P keys io i (pa_recipient a) (pa_amount a) h) of
                          (res, sent, h) \<Rightarrow> (map_option (\<lambda>_. ()) res, sent, h))))"

definition resolve_payout_attempt :: "prims \<Rightarrow> hub_keys \<Rightarrow> payout_io \<Rightarrow> payout_attempt \<Rightarrow> payout_hub \<Rightarrow> bool did" where
  "resolve_payout_attempt P keys io a h =
     (case (pi_recipient io, pi_source io) of
        (Some recipient_utxos, Some source_utxos) \<Rightarrow>
          (case payout_attempt_resolve P a recipient_utxos source_utxos of
             PConfirmed \<Rightarrow>
               if pi_busy io then (Some False, [], h)
               else if payout_attempt_for (ph_board h) (pa_task_id a) (pa_recipient a) \<noteq> Some a then (Some False, [], h)
               else record_confirmed_payout io (pa_task_id a) (pa_recipient a) (pa_amount a) h
           | NeverLanded \<Rightarrow>
               if pa_submissions a \<ge> MAX_PAYOUT_SUBMISSIONS
               then (case abandon_payout io a h of (res, sent, h) \<Rightarrow> (map_option (\<lambda>_. True) res, sent, h))
               else (case resend_lost_payout P keys io a h of (res, sent, h) \<Rightarrow> (map_option (\<lambda>_. False) res, sent, h))
           | _ \<Rightarrow> (Some False, [], h))
      | _ \<Rightarrow> (Some False, [], h))"

subsection \<open>Starting again\<close>

text \<open>\<open>others\<close> is the board the other tables give.\<close>

definition restart_hub :: "task_board \<Rightarrow> payout_hub \<Rightarrow> payout_hub" where
  "restart_hub others_board h =
     (let st = ph_store h;
          b = fold restore_task (bm_values (ps_tasks st)) (others_board\<lparr>bd_tasks := [], bd_payout_attempts := []\<rparr>)
      in h\<lparr>ph_board := fold restore_payout_attempt (bm_values (ps_attempts st)) b\<rparr>)"

end
