(* ===== verification/Hub_Payout_Inv.thy ===== *)
theory Hub_Payout_Inv
  imports Hub_Payout Hub_Promises
begin

text \<open>
  The payout machine: settlements, sweeps, the other operations on tasks, writes of tasks and
  restarts, in any order, with a log of every transaction handed to the node.  For a task the
  operator funds, whatever was sent to a recipient is remembered on disk until the recipient
  counts as paid or the payout as failed, and everything sent to a recipient is one transaction.
\<close>

record payout_world =
  pw_hub :: payout_hub
  pw_up :: bool
  pw_log :: sends

datatype payout_call =
    Settle "nat \<Rightarrow> payout_io" uuid
  | Resolve payout_io payout_attempt
  | Work board_call
  | Persist uuid
  | StartAgain task_board

definition after :: "payout_world \<Rightarrow> 'a did \<Rightarrow> payout_world" where
  "after w d = (case d of (res, sent, h) \<Rightarrow> \<lparr>pw_hub = h, pw_up = (res \<noteq> None), pw_log = pw_log w @ sent\<rparr>)"

fun run_payout :: "prims \<Rightarrow> hub_keys \<Rightarrow> payout_call \<Rightarrow> payout_world \<Rightarrow> payout_world" where
  "run_payout P keys (Settle io i) w = after w (try_settle_verified_task P keys io i (pw_hub w))"
| "run_payout P keys (Resolve io a) w = after w (resolve_payout_attempt P keys io a (pw_hub w))"
| "run_payout P keys (Work c) w = w\<lparr>pw_hub := (pw_hub w)\<lparr>ph_board := run_board c (ph_board (pw_hub w))\<rparr>\<rparr>"
| "run_payout P keys (Persist i) w =
     (case get_task (ph_board (pw_hub w)) i of
        None \<Rightarrow> w
      | Some t \<Rightarrow> w\<lparr>pw_hub := (pw_hub w)\<lparr>ph_store := save_task t (ph_store (pw_hub w))\<rparr>\<rparr>)"
| "run_payout P keys (StartAgain b) w = w\<lparr>pw_hub := restart_hub b (pw_hub w), pw_up := True\<rparr>"

text \<open>
  A settled task was stored when it was created; the operations that record payouts are called
  by the functions of \<open>Hub_Payout\<close> only; a restart finds the deposits that go with the tasks.
\<close>

fun is_work :: "board_call \<Rightarrow> bool" where
  "is_work (RestoreTask t) = False"
| "is_work (MarkRecipientPaid now i r a) = False"
| "is_work (RecordPayoutAttempt a) = False"
| "is_work (ClearPayoutAttempt i r) = False"
| "is_work (MarkPayoutFailed i) = False"
| "is_work _ = True"

fun payout_allowed :: "payout_call \<Rightarrow> payout_world \<Rightarrow> bool" where
  "payout_allowed (Settle io i) w \<longleftrightarrow> pw_up w \<and> bm_contains i (ps_tasks (ph_store (pw_hub w)))"
| "payout_allowed (Resolve io a) w \<longleftrightarrow> pw_up w"
| "payout_allowed (Work c) w \<longleftrightarrow> pw_up w \<and> is_work c \<and> board_allowed c (ph_board (pw_hub w))"
| "payout_allowed (Persist i) w \<longleftrightarrow> pw_up w"
| "payout_allowed (StartAgain b) w \<longleftrightarrow> escrow_ok (ph_board (restart_hub b (pw_hub w)))"

definition payout_start :: payout_world where
  "payout_start = \<lparr>pw_hub = \<lparr>ph_board = task_board_new, ph_store = \<lparr>ps_tasks = [], ps_attempts = [], ps_reputation = []\<rparr>\<rparr>,
     pw_up = True, pw_log = []\<rparr>"

definition payout_reachable :: "prims \<Rightarrow> hub_keys \<Rightarrow> payout_world \<Rightarrow> bool" where
  "payout_reachable P keys w \<longleftrightarrow> reaches payout_allowed (run_payout P keys) payout_start w"

subsection \<open>Tables of attempts\<close>

abbreviation attempt_key :: "payout_attempt \<Rightarrow> uuid \<times> public_key" where
  "attempt_key a \<equiv> (pa_task_id a, pa_recipient a)"

definition keyed_attempts :: "(uuid \<times> public_key, payout_attempt) bmap \<Rightarrow> bool" where
  "keyed_attempts m \<longleftrightarrow> bm_wf m \<and> (\<forall>k a. bm_get m k = Some a \<longrightarrow> k = attempt_key a \<and> pa_transaction a \<noteq> None)"

definition put_attempts ::
  "payout_attempt list \<Rightarrow> (uuid \<times> public_key, payout_attempt) bmap \<Rightarrow> (uuid \<times> public_key, payout_attempt) bmap" where
  "put_attempts as m = fold (\<lambda>a. bm_insert (attempt_key a) a) as m"

lemma put_attempts_wf: "bm_wf m \<Longrightarrow> bm_wf (put_attempts as m)"
  unfolding put_attempts_def by (induction as arbitrary: m) simp_all

lemma put_attempts_get_old: "k \<notin> attempt_key ` set as \<Longrightarrow> bm_get (put_attempts as m) k = bm_get m k"
  unfolding put_attempts_def by (induction as arbitrary: m) auto

lemma put_attempts_get_new:
  assumes "k \<in> attempt_key ` set as"
  shows "\<exists>a \<in> set as. attempt_key a = k \<and> (\<forall>m. bm_get (put_attempts as m) k = Some a)"
  using assms
proof (induction as rule: rev_induct)
  case (snoc a as)
  then show ?case by (cases "attempt_key a = k") (auto simp: put_attempts_def)
qed simp

lemma put_attempts_keyed:
  assumes "keyed_attempts m" "\<forall>a \<in> set as. pa_transaction a \<noteq> None"
  shows "keyed_attempts (put_attempts as m)"
  unfolding keyed_attempts_def
proof (intro conjI allI impI)
  fix k a assume a: "bm_get (put_attempts as m) k = Some a"
  have "k = attempt_key a \<and> pa_transaction a \<noteq> None"
  proof (cases "k \<in> attempt_key ` set as")
    case True
    then show ?thesis using put_attempts_get_new [OF True] a assms(2) by auto
  next
    case False
    then show ?thesis using a assms(1) put_attempts_get_old [OF False] unfolding keyed_attempts_def by metis
  qed
  then show "k = attempt_key a" "pa_transaction a \<noteq> None" by auto
qed (use assms(1) put_attempts_wf in \<open>auto simp: keyed_attempts_def\<close>)

lemma save_attempts_spec:
  assumes "save_attempts fates k as st = (f, st')"
  shows "\<exists>n \<le> length as. st' = st\<lparr>ps_attempts := put_attempts (take n as) (ps_attempts st)\<rparr> \<and> (f = Commits \<longleftrightarrow> n = length as)"
  using assms
proof (induction as arbitrary: k st)
  case Nil
  then show ?case by (simp add: put_attempts_def)
next
  case (Cons a as)
  show ?case
  proof (cases "fates k")
    case Commits
    then have "save_attempts fates (Suc k) as (save_payout_attempt a st) = (f, st')" using Cons.prems by simp
    from Cons.IH [OF this] obtain n where "n \<le> length as"
      "st' = (save_payout_attempt a st)\<lparr>ps_attempts := put_attempts (take n as) (ps_attempts (save_payout_attempt a st))\<rparr>"
      "f = Commits \<longleftrightarrow> n = length as" by blast
    then show ?thesis by (intro exI [of _ "Suc n"]) (simp add: save_payout_attempt_def put_attempts_def)
  qed (use Cons.prems in \<open>auto intro!: exI [of _ 0] simp: put_attempts_def\<close>)
qed

lemma record_attempts: "bd_payout_attempts (record_payout_attempt a b) = bm_insert (attempt_key a) a (bd_payout_attempts b)"
  by (simp add: record_payout_attempt_def restore_payout_attempt_def Let_def split: option.split)

lemma fold_record_attempts: "bd_payout_attempts (fold record_payout_attempt as b) = put_attempts as (bd_payout_attempts b)"
  unfolding put_attempts_def by (induction as arbitrary: b) (simp_all add: record_attempts)

subsection \<open>The invariant\<close>

definition operator_funded :: "payout_store \<Rightarrow> uuid \<Rightarrow> bool" where
  "operator_funded st i \<longleftrightarrow> (\<exists>d. bm_get (ps_tasks st) i = Some d \<and> tk_escrow_id d = None)"

definition closed_for :: "payout_store \<Rightarrow> uuid \<Rightarrow> public_key \<Rightarrow> bool" where
  "closed_for st i r \<longleftrightarrow> (\<exists>d. bm_get (ps_tasks st) i = Some d \<and> (is_recipient_paid d r \<or> tk_status d = PayoutFailed))"

definition sent :: "sends \<Rightarrow> uuid \<Rightarrow> public_key \<Rightarrow> transaction \<Rightarrow> bool" where
  "sent log i r tx \<longleftrightarrow> (\<exists>rs. (i, None, rs, tx) \<in> set log \<and> r \<in> set rs)"

definition disk_inv :: "payout_store \<Rightarrow> sends \<Rightarrow> bool" where
  "disk_inv st log \<longleftrightarrow> tasks_ok (ps_tasks st) \<and> keyed_attempts (ps_attempts st)
     \<and> (\<forall>i r. bm_contains (i, r) (ps_attempts st) \<longrightarrow> bm_contains i (ps_tasks st))
     \<and> (\<forall>i r tx. sent log i r tx \<longrightarrow> operator_funded st i \<and> (bm_contains (i, r) (ps_attempts st) \<or> closed_for st i r)
          \<and> (\<forall>a. bm_get (ps_attempts st) (i, r) = Some a \<longrightarrow> pa_transaction a = Some tx)
          \<and> (\<forall>tx'. sent log i r tx' \<longrightarrow> tx' = tx))"

lemma disk_invI:
  assumes "tasks_ok (ps_tasks st)" "keyed_attempts (ps_attempts st)"
    and "\<And>i r. bm_contains (i, r) (ps_attempts st) \<Longrightarrow> bm_contains i (ps_tasks st)"
    and "\<And>i r tx. sent log i r tx \<Longrightarrow> operator_funded st i"
    and "\<And>i r tx. sent log i r tx \<Longrightarrow> bm_contains (i, r) (ps_attempts st) \<or> closed_for st i r"
    and "\<And>i r tx a. sent log i r tx \<Longrightarrow> bm_get (ps_attempts st) (i, r) = Some a \<Longrightarrow> pa_transaction a = Some tx"
    and "\<And>i r tx tx'. sent log i r tx \<Longrightarrow> sent log i r tx' \<Longrightarrow> tx' = tx"
  shows "disk_inv st log"
  unfolding disk_inv_def by (intro conjI allI impI assms)

lemma disk_invD:
  assumes "disk_inv st log"
  shows "tasks_ok (ps_tasks st)" "keyed_attempts (ps_attempts st)"
    and "bm_contains (i, r) (ps_attempts st) \<Longrightarrow> bm_contains i (ps_tasks st)"
    and "sent log i r tx \<Longrightarrow> operator_funded st i"
    and "sent log i r tx \<Longrightarrow> bm_contains (i, r) (ps_attempts st) \<or> closed_for st i r"
    and "sent log i r tx \<Longrightarrow> bm_get (ps_attempts st) (i, r) = Some a \<Longrightarrow> pa_transaction a = Some tx"
    and "sent log i r tx \<Longrightarrow> sent log i r tx' \<Longrightarrow> tx' = tx"
  using assms unfolding disk_inv_def by blast+

definition mem_inv :: "task_board \<Rightarrow> payout_store \<Rightarrow> bool" where
  "mem_inv b st \<longleftrightarrow> board_inv b \<and> keyed_attempts (bd_payout_attempts b)
     \<and> (\<forall>i d. bm_get (ps_tasks st) i = Some d \<longrightarrow> (\<exists>t. bm_get (bd_tasks b) i = Some t \<and> task_evolves d t))
     \<and> (\<forall>i r a. bm_get (bd_payout_attempts b) (i, r) = Some a \<longrightarrow>
          (\<exists>a'. bm_get (ps_attempts st) (i, r) = Some a' \<and> (operator_funded st i \<longrightarrow> pa_transaction a' = pa_transaction a)))
     \<and> (\<forall>i r. bm_contains (i, r) (ps_attempts st) \<longrightarrow> operator_funded st i \<longrightarrow> bm_contains (i, r) (bd_payout_attempts b))"

definition payout_inv :: "payout_world \<Rightarrow> bool" where
  "payout_inv w \<longleftrightarrow> disk_inv (ph_store (pw_hub w)) (pw_log w)
     \<and> (pw_up w \<longrightarrow> mem_inv (ph_board (pw_hub w)) (ph_store (pw_hub w)))"

lemma mem_task:
  assumes "mem_inv b st" "bm_get (ps_tasks st) i = Some d"
  obtains t where "bm_get (bd_tasks b) i = Some t" "task_evolves d t"
  using assms unfolding mem_inv_def by blast

lemma operator_funded_mem:
  assumes "mem_inv b st" "bm_get (bd_tasks b) i = Some t" "bm_contains i (ps_tasks st)"
  shows "operator_funded st i \<longleftrightarrow> tk_escrow_id t = None"
proof -
  obtain d where d: "bm_get (ps_tasks st) i = Some d" using assms(3) by (auto simp: bm_contains_get)
  obtain t' where "bm_get (bd_tasks b) i = Some t'" "task_evolves d t'" using mem_task [OF assms(1) d] .
  then show ?thesis using d assms(2) by (auto simp: operator_funded_def task_evolves_def)
qed

lemma closed_for_mem:
  assumes "mem_inv b st" "closed_for st i r" "bm_get (bd_tasks b) i = Some t"
  shows "is_recipient_paid t r \<or> tk_status t = PayoutFailed"
proof -
  obtain d where d: "bm_get (ps_tasks st) i = Some d" "is_recipient_paid d r \<or> tk_status d = PayoutFailed"
    using assms(2) by (auto simp: closed_for_def)
  obtain t' where "bm_get (bd_tasks b) i = Some t'" "task_evolves d t'" using mem_task [OF assms(1) d(1)] .
  then show ?thesis using d(2) assms(3) by (auto simp: task_evolves_def)
qed

subsection \<open>Steps that leave the attempts alone\<close>

lemma follow_evolves: "tasks_follow b b' \<Longrightarrow> board_evolves b b'"
  unfolding tasks_follow_def board_evolves_def task_step_def by blast

lemma mem_inv_evolve:
  assumes m: "mem_inv b st" and "board_inv b'" "board_evolves b b'" "bd_payout_attempts b' = bd_payout_attempts b"
  shows "mem_inv b' st"
proof -
  have "\<exists>t. bm_get (bd_tasks b') i = Some t \<and> task_evolves d t" if d: "bm_get (ps_tasks st) i = Some d" for i d
  proof -
    obtain t where "bm_get (bd_tasks b) i = Some t" "task_evolves d t" using mem_task [OF m d] .
    then show ?thesis using assms(3) task_evolves_trans unfolding board_evolves_def by blast
  qed
  then show ?thesis using m assms(2,4) unfolding mem_inv_def by auto
qed

lemma run_board_mem:
  assumes "mem_inv b st" "board_allowed c b"
    and "case c of RecordPayoutAttempt a \<Rightarrow> False | ClearPayoutAttempt i r \<Rightarrow> False | MarkPayoutFailed i \<Rightarrow> False | _ \<Rightarrow> True"
  shows "mem_inv (run_board c b) st"
proof -
  have "board_inv b" using assms(1) by (simp add: mem_inv_def)
  from run_board_keeps [OF this assms(2)] attempts.run_board_part [OF assms(3)] show ?thesis
    using mem_inv_evolve [OF assms(1)] follow_evolves by blast
qed

text \<open>Writing a task: the row only moves forward.\<close>

definition rows_follow :: "payout_store \<Rightarrow> payout_store \<Rightarrow> bool" where
  "rows_follow st st' \<longleftrightarrow> (\<forall>i d. bm_get (ps_tasks st) i = Some d \<longrightarrow> (\<exists>d'. bm_get (ps_tasks st') i = Some d' \<and> task_evolves d d'))"

lemma rows_follow_keeps:
  assumes "rows_follow st st'"
  shows "operator_funded st i \<Longrightarrow> operator_funded st' i" "closed_for st i r \<Longrightarrow> closed_for st' i r"
    "bm_contains i (ps_tasks st) \<Longrightarrow> bm_contains i (ps_tasks st')"
proof -
  show "operator_funded st' i" if "operator_funded st i"
    using that assms unfolding rows_follow_def operator_funded_def task_evolves_def by metis
  show "closed_for st' i r" if c: "closed_for st i r"
  proof -
    obtain d where d: "bm_get (ps_tasks st) i = Some d" "is_recipient_paid d r \<or> tk_status d = PayoutFailed"
      using c by (auto simp: closed_for_def)
    then obtain d' where "bm_get (ps_tasks st') i = Some d'" "task_evolves d d'" using assms unfolding rows_follow_def by blast
    then show ?thesis using d(2) by (auto simp: closed_for_def task_evolves_def)
  qed
  show "bm_contains i (ps_tasks st')" if "bm_contains i (ps_tasks st)"
    using that assms unfolding rows_follow_def bm_contains_get by blast
qed

lemma save_task_follows:
  assumes m: "mem_inv b st" and t: "bm_get (bd_tasks b) i = Some t"
  shows "rows_follow st (save_task t st)" "tk_id t = i" "task_ok i t"
proof -
  show ok: "task_ok i t" using m t by (auto simp: mem_inv_def board_inv_def tasks_ok_def)
  then show id: "tk_id t = i" by (simp add: task_ok_def)
  show "rows_follow st (save_task t st)"
    unfolding rows_follow_def
  proof (intro allI impI)
    fix j d assume d: "bm_get (ps_tasks st) j = Some d"
    show "\<exists>d'. bm_get (ps_tasks (save_task t st)) j = Some d' \<and> task_evolves d d'"
    proof (cases "j = i")
      case True
      obtain u where "bm_get (bd_tasks b) j = Some u" "task_evolves d u" using mem_task [OF m d] .
      then show ?thesis using True t id by (simp add: save_task_def)
    qed (use d id in \<open>simp add: save_task_def\<close>)
  qed
qed

lemma operator_funded_save:
  assumes "mem_inv b st" "bm_get (bd_tasks b) i = Some t" "bm_contains j (ps_tasks st)"
  shows "operator_funded (save_task t st) j \<longleftrightarrow> operator_funded st j"
proof (cases "j = i")
  case True
  then show ?thesis using operator_funded_mem [OF assms(1,2)] assms(3) save_task_follows(2) [OF assms(1,2)]
    by (simp add: operator_funded_def save_task_def)
qed (use save_task_follows(2) [OF assms(1,2)] in \<open>simp add: operator_funded_def save_task_def\<close>)

lemma disk_inv_rows:
  assumes d: "disk_inv st log" and f: "rows_follow st st'" and "tasks_ok (ps_tasks st')" "ps_attempts st' = ps_attempts st"
  shows "disk_inv st' log"
proof -
  have "operator_funded st' i \<and> (bm_contains (i, r) (ps_attempts st) \<or> closed_for st' i r)" if "sent log i r tx" for i r tx
    using d that rows_follow_keeps(1,2) [OF f] unfolding disk_inv_def by blast
  moreover have "bm_contains i (ps_tasks st')" if "bm_contains (i, r) (ps_attempts st)" for i r
    using d that rows_follow_keeps(3) [OF f] unfolding disk_inv_def by blast
  ultimately show ?thesis using d assms(3,4) unfolding disk_inv_def by auto
qed

lemma persist_inv:
  assumes d: "disk_inv st log" and m: "mem_inv b st" and t: "bm_get (bd_tasks b) i = Some t"
  shows "disk_inv (save_task t st) log \<and> mem_inv b (save_task t st)"
proof
  note s = save_task_follows [OF m t]
  have "tasks_ok (ps_tasks (save_task t st))" using d s(2,3) by (auto simp: disk_inv_def tasks_ok_def save_task_def)
  then show "disk_inv (save_task t st) log" using disk_inv_rows [OF d s(1)] by (simp add: save_task_def)
  have att: "ps_attempts (save_task t st) = ps_attempts st" by (simp add: save_task_def)
  have op: "operator_funded (save_task t st) j \<longleftrightarrow> operator_funded st j" if "bm_contains (j, r) (ps_attempts st)" for j r
    using operator_funded_save [OF m t, of j] d that unfolding disk_inv_def by blast
  have rows: "\<exists>u. bm_get (bd_tasks b) j = Some u \<and> task_evolves e u" if "bm_get (ps_tasks (save_task t st)) j = Some e" for j e
    using that m t s(2) by (auto simp: save_task_def mem_inv_def split: if_splits)
  have "\<exists>a'. bm_get (ps_attempts st) (j, r) = Some a' \<and> (operator_funded (save_task t st) j \<longrightarrow> pa_transaction a' = pa_transaction a)"
    if "bm_get (bd_payout_attempts b) (j, r) = Some a" for j r a
    using m that op [of j r] unfolding mem_inv_def bm_contains_get by fast
  then show "mem_inv b (save_task t st)" using m rows op unfolding mem_inv_def att by blast
qed

lemma restart_board:
  assumes d: "disk_inv (ph_store h) log"
  shows "bd_tasks (ph_board (restart_hub o' h)) = ps_tasks (ph_store h)"
    "bd_payout_attempts (ph_board (restart_hub o' h)) = ps_attempts (ph_store h)"
    "ph_store (restart_hub o' h) = ph_store h"
proof -
  have tasks: "bd_tasks (fold restore_task ts b) = fold (\<lambda>t. bm_insert (tk_id t) t) ts (bd_tasks b)"
    "bd_payout_attempts (fold restore_task ts b) = bd_payout_attempts b" for ts b
    by (induction ts arbitrary: b) (simp_all add: restore_task_def set_task_def)
  have att: "bd_payout_attempts (fold restore_payout_attempt as b) = fold (\<lambda>a. bm_insert (attempt_key a) a) as (bd_payout_attempts b)"
    "bd_tasks (fold restore_payout_attempt as b) = bd_tasks b" for as b
    by (induction as arbitrary: b) (simp_all add: restore_payout_attempt_def)
  show "bd_tasks (ph_board (restart_hub o' h)) = ps_tasks (ph_store h)"
    using d reload [of "ps_tasks (ph_store h)" tk_id]
    by (simp add: restart_hub_def Let_def tasks att disk_inv_def tasks_ok_def task_ok_def)
  have "fold (\<lambda>a. bm_insert (attempt_key a) a) (bm_values (ps_attempts (ph_store h))) [] = ps_attempts (ph_store h)"
    using d by (intro reload) (auto simp: disk_inv_def keyed_attempts_def)
  then show "bd_payout_attempts (ph_board (restart_hub o' h)) = ps_attempts (ph_store h)"
    by (simp add: restart_hub_def Let_def tasks att)
  show "ph_store (restart_hub o' h) = ph_store h" by (simp add: restart_hub_def Let_def)
qed

lemma restart_mem:
  assumes d: "disk_inv (ph_store h) log" and e: "escrow_ok (ph_board (restart_hub o' h))"
  shows "mem_inv (ph_board (restart_hub o' h)) (ph_store h)"
  using d e restart_board [OF d, of o'] by (auto simp: mem_inv_def board_inv_def disk_inv_def)

subsection \<open>Writing attempts\<close>

definition same_task :: "uuid \<Rightarrow> transaction \<Rightarrow> payout_attempt list \<Rightarrow> bool" where
  "same_task i tx as \<longleftrightarrow> (\<forall>a \<in> set as. pa_task_id a = i \<and> pa_transaction a = Some tx)"

definition agrees :: "sends \<Rightarrow> uuid \<Rightarrow> public_key list \<Rightarrow> transaction \<Rightarrow> bool" where
  "agrees log i rs tx \<longleftrightarrow> (\<forall>r \<in> set rs. \<forall>tx'. sent log i r tx' \<longrightarrow> tx' = tx)"

lemma same_task_take: "same_task i tx as \<Longrightarrow> same_task i tx (take n as)"
  by (auto simp: same_task_def dest: in_set_takeD)

lemma agrees_take: "agrees log i (map pa_recipient as) tx \<Longrightarrow> agrees log i (map pa_recipient (take n as)) tx"
  unfolding agrees_def by (auto dest: in_set_takeD)

lemma put_attempts_get:
  assumes "same_task i tx as" "bm_get (put_attempts as m) k = Some a"
  shows "(k \<in> attempt_key ` set as \<and> a \<in> set as \<and> pa_transaction a = Some tx) \<or> (k \<notin> attempt_key ` set as \<and> bm_get m k = Some a)"
proof (cases "k \<in> attempt_key ` set as")
  case True
  then show ?thesis using put_attempts_get_new [OF True] assms by (auto simp: same_task_def)
qed (use assms(2) put_attempts_get_old in auto)

lemma put_attempts_contains: "bm_contains k (put_attempts as m) \<longleftrightarrow> k \<in> attempt_key ` set as \<or> bm_contains k m"
proof (cases "k \<in> attempt_key ` set as")
  case True
  then show ?thesis using put_attempts_get_new [OF True] by (auto simp: bm_contains_get)
qed (simp add: bm_contains_def put_attempts_get_old)

lemma row_views [simp]:
  "operator_funded (st\<lparr>ps_attempts := m\<rparr>) i = operator_funded st i" "closed_for (st\<lparr>ps_attempts := m\<rparr>) i r = closed_for st i r"
  by (simp_all add: operator_funded_def closed_for_def)

lemma disk_put:
  assumes d: "disk_inv st log" and as: "same_task i tx as" and row: "bm_contains i (ps_tasks st)"
    and agr: "agrees log i (map pa_recipient as) tx"
  shows "disk_inv (st\<lparr>ps_attempts := put_attempts as (ps_attempts st)\<rparr>) log" (is "disk_inv ?st log")
proof (rule disk_invI)
  show "keyed_attempts (ps_attempts ?st)" using disk_invD(2) [OF d] as put_attempts_keyed by (auto simp: same_task_def)
  show "bm_contains j (ps_tasks ?st)" if "bm_contains (j, r) (ps_attempts ?st)" for j r
    using that disk_invD(3) [OF d] row as by (auto simp: put_attempts_contains same_task_def)
  show "pa_transaction a = Some tx'" if s: "sent log j r tx'" and "bm_get (ps_attempts ?st) (j, r) = Some a" for j r a tx'
  proof -
    from put_attempts_get [OF as, of "ps_attempts st" "(j, r)" a] that(2)
    consider "(j, r) \<in> attempt_key ` set as" "pa_transaction a = Some tx" | "bm_get (ps_attempts st) (j, r) = Some a" by auto
    then show ?thesis
    proof cases
      case 1
      then have "j = i" "r \<in> set (map pa_recipient as)" using as by (auto simp: same_task_def)
      then have "tx' = tx" using agr s unfolding agrees_def by blast
      then show ?thesis using 1 by simp
    qed (rule disk_invD(6) [OF d s])
  qed
qed (use disk_invD [OF d] in \<open>auto simp: put_attempts_contains\<close>)

lemma sent_snoc: "sent (log @ [(i, e, rs, tx)]) j r tx' \<longleftrightarrow> sent log j r tx' \<or> e = None \<and> j = i \<and> r \<in> set rs \<and> tx' = tx"
  by (auto simp: sent_def)

lemma disk_log:
  assumes d: "disk_inv st log"
    and e: "e = None \<Longrightarrow> operator_funded st i \<and> agrees log i rs tx
      \<and> (\<forall>r \<in> set rs. \<exists>a. bm_get (ps_attempts st) (i, r) = Some a \<and> pa_transaction a = Some tx)"
  shows "disk_inv st (log @ [(i, e, rs, tx)])"
proof (cases e)
  case (Some x)
  then have "sent (log @ [(i, e, rs, tx)]) = sent log" by (intro ext) (simp add: sent_snoc)
  then show ?thesis using d by (simp add: disk_inv_def)
next
  case None
  note e' = e [OF None]
  have agr: "tx' = tx" if "sent log i r tx'" "r \<in> set rs" for tx' r using e' that unfolding agrees_def by blast
  have att: "bm_contains (i, r) (ps_attempts st)" "bm_get (ps_attempts st) (i, r) = Some a \<Longrightarrow> pa_transaction a = Some tx"
    if "r \<in> set rs" for r a using e' that by (auto simp: bm_contains_get)
  have op: "operator_funded st i" using e' by blast
  note D = disk_invD [OF d]
  show ?thesis
  proof (rule disk_invI)
    show "tx'' = tx'" if "sent (log @ [(i, e, rs, tx)]) j r tx'" "sent (log @ [(i, e, rs, tx)]) j r tx''" for j r tx' tx''
      using that D(7) agr unfolding sent_snoc by blast
    show "pa_transaction a = Some tx'" if "sent (log @ [(i, e, rs, tx)]) j r tx'" "bm_get (ps_attempts st) (j, r) = Some a" for j r tx' a
      using that D(6) att(2) unfolding sent_snoc by blast
    show "bm_contains (j, r) (ps_attempts st) \<or> closed_for st j r" if "sent (log @ [(i, e, rs, tx)]) j r tx'" for j r tx'
      using that D(5) att(1) unfolding sent_snoc by blast
  qed (use D(1-4) op in \<open>auto simp: sent_snoc\<close>)
qed

lemma mem_invI:
  assumes "board_inv b" "keyed_attempts (bd_payout_attempts b)"
    and "\<And>i d. bm_get (ps_tasks st) i = Some d \<Longrightarrow> \<exists>t. bm_get (bd_tasks b) i = Some t \<and> task_evolves d t"
    and "\<And>i r a. bm_get (bd_payout_attempts b) (i, r) = Some a \<Longrightarrow>
      \<exists>a'. bm_get (ps_attempts st) (i, r) = Some a' \<and> (operator_funded st i \<longrightarrow> pa_transaction a' = pa_transaction a)"
    and "\<And>i r. bm_contains (i, r) (ps_attempts st) \<Longrightarrow> operator_funded st i \<Longrightarrow> bm_contains (i, r) (bd_payout_attempts b)"
  shows "mem_inv b st"
  unfolding mem_inv_def by (intro conjI allI impI assms)

lemma mem_invD:
  assumes "mem_inv b st"
  shows "board_inv b" "keyed_attempts (bd_payout_attempts b)"
    and "bm_get (ps_tasks st) i = Some d \<Longrightarrow> \<exists>t. bm_get (bd_tasks b) i = Some t \<and> task_evolves d t"
    and "bm_get (bd_payout_attempts b) (i, r) = Some a \<Longrightarrow>
      \<exists>a'. bm_get (ps_attempts st) (i, r) = Some a' \<and> (operator_funded st i \<longrightarrow> pa_transaction a' = pa_transaction a)"
    and "bm_contains (i, r) (ps_attempts st) \<Longrightarrow> operator_funded st i \<Longrightarrow> bm_contains (i, r) (bd_payout_attempts b)"
  using assms unfolding mem_inv_def by blast+

text \<open>Rows written ahead of memory: for a task the operator funds, memory must know the transaction.\<close>

lemma mem_put:
  assumes m: "mem_inv b st" and as: "same_task i tx as"
    and known: "operator_funded st i \<Longrightarrow> \<forall>a \<in> set as. \<exists>a'. bm_get (bd_payout_attempts b) (attempt_key a) = Some a' \<and> pa_transaction a' = Some tx"
  shows "mem_inv b (st\<lparr>ps_attempts := put_attempts as (ps_attempts st)\<rparr>)" (is "mem_inv b ?st")
proof (rule mem_invI)
  note M = mem_invD [OF m]
  show "\<exists>a'. bm_get (ps_attempts ?st) (j, r) = Some a' \<and> (operator_funded ?st j \<longrightarrow> pa_transaction a' = pa_transaction a)"
    if a: "bm_get (bd_payout_attempts b) (j, r) = Some a" for j r a
  proof (cases "(j, r) \<in> attempt_key ` set as")
    case True
    then obtain x where x: "x \<in> set as" "attempt_key x = (j, r)" "bm_get (ps_attempts ?st) (j, r) = Some x"
      using put_attempts_get_new [OF True] by auto
    then have "j = i" "pa_transaction x = Some tx" using as by (auto simp: same_task_def)
    then show ?thesis using x a known by fastforce
  next
    case False
    then show ?thesis using M(4) [OF a] by (simp add: put_attempts_get_old)
  qed
  show "bm_contains (j, r) (bd_payout_attempts b)" if "bm_contains (j, r) (ps_attempts ?st)" "operator_funded ?st j" for j r
  proof (cases "(j, r) \<in> attempt_key ` set as")
    case True
    then have "j = i" using as by (auto simp: same_task_def)
    then show ?thesis using True that(2) known unfolding bm_contains_get by auto
  qed (use that M(5) in \<open>simp add: put_attempts_contains\<close>)
qed (use mem_invD [OF m] in auto)

lemma mem_record:
  assumes m: "mem_inv b st" and as: "same_task i tx as" and b': "board_inv b'" "board_evolves b b'"
    and att: "bd_payout_attempts b' = put_attempts as (bd_payout_attempts b)"
  shows "mem_inv b' (st\<lparr>ps_attempts := put_attempts as (ps_attempts st)\<rparr>)" (is "mem_inv b' ?st")
proof (rule mem_invI)
  note M = mem_invD [OF m]
  show "keyed_attempts (bd_payout_attempts b')" unfolding att using M(2) as put_attempts_keyed by (auto simp: same_task_def)
  show "\<exists>t. bm_get (bd_tasks b') j = Some t \<and> task_evolves d t" if d: "bm_get (ps_tasks ?st) j = Some d" for j d
  proof -
    obtain t where "bm_get (bd_tasks b) j = Some t" "task_evolves d t" using M(3) [of j d] d by auto
    then show ?thesis using b'(2) task_evolves_trans unfolding board_evolves_def by blast
  qed
  show "\<exists>a'. bm_get (ps_attempts ?st) (j, r) = Some a' \<and> (operator_funded ?st j \<longrightarrow> pa_transaction a' = pa_transaction a)"
    if a: "bm_get (bd_payout_attempts b') (j, r) = Some a" for j r a
  proof (cases "(j, r) \<in> attempt_key ` set as")
    case True
    then show ?thesis using put_attempts_get_new [OF True] a by (auto simp: att)
  qed (use a M(4) in \<open>simp add: att put_attempts_get_old\<close>)
  show "bm_contains (j, r) (bd_payout_attempts b')" if "bm_contains (j, r) (ps_attempts ?st)" "operator_funded ?st j" for j r
    using that M(5) by (auto simp: att put_attempts_contains)
qed (rule b')

text \<open>Recording attempts on the board moves a task to \<open>Submitted\<close> at most.\<close>

lemma record_keeps:
  assumes "board_inv b"
  shows "board_inv (fold record_payout_attempt as b) \<and> board_evolves b (fold record_payout_attempt as b)"
  using assms
proof (induction as arbitrary: b)
  case Nil
  then show ?case by (simp add: board_evolves_def)
next
  case (Cons a as)
  have k: "board_inv (record_payout_attempt a b)" "board_evolves b (record_payout_attempt a b)"
    using run_board_keeps [OF Cons.prems, of "RecordPayoutAttempt a"] follow_evolves by auto
  then show ?case using Cons.IH [OF k(1)] board.rel_trans [OF k(2)] by simp
qed

lemma record_status:
  assumes "\<forall>t. get_task b i = Some t \<longrightarrow> tk_status t \<noteq> PayoutFailed"
  shows "\<forall>t. get_task (fold record_payout_attempt as b) i = Some t \<longrightarrow> tk_status t \<noteq> PayoutFailed"
  using assms
proof (induction as arbitrary: b)
  case (Cons a as)
  have "\<forall>t. get_task (record_payout_attempt a b) i = Some t \<longrightarrow> tk_status t \<noteq> PayoutFailed"
    using Cons.prems by (auto simp: record_payout_attempt_def restore_payout_attempt_def Let_def get_task_def set_task_def split: option.splits if_splits)
  then show ?case using Cons.IH by simp
qed simp

subsection \<open>Submissions\<close>

definition did_ok :: "sends \<Rightarrow> 'a did \<Rightarrow> bool" where
  "did_ok log d \<longleftrightarrow> (case d of (res, sends, h) \<Rightarrow>
     disk_inv (ph_store h) (log @ sends) \<and> (res \<noteq> None \<longrightarrow> mem_inv (ph_board h) (ph_store h)))"

lemma leg_attempts_spec:
  "leg_attempts P b now i source tx k recipients = Some as \<Longrightarrow> same_task i tx as \<and> map pa_recipient as = map fst recipients"
proof (induction recipients arbitrary: k as)
  case (Cons x recipients)
  then show ?case by (cases x) (auto simp: same_task_def Let_def split: if_splits)
qed (simp add: same_task_def)

lemma recipients_attempts:
  assumes "same_task i tx as" "r \<in> set (map pa_recipient as)"
  shows "\<exists>a. bm_get (put_attempts as m) (i, r) = Some a \<and> pa_transaction a = Some tx"
proof -
  have "(i, r) \<in> attempt_key ` set as" using assms by (force simp: same_task_def)
  from put_attempts_get_new [OF this] show ?thesis using assms(1) by (auto simp: same_task_def)
qed

lemma logged_ok:
  assumes d: "disk_inv st log" and m: "mem_inv b st" and row: "bm_contains i (ps_tasks st)"
    and att: "operator_funded st i \<Longrightarrow> agrees log i rs tx \<and> (\<forall>r \<in> set rs. \<exists>a. bm_get (ps_attempts st) (i, r) = Some a \<and> pa_transaction a = Some tx)"
  shows "disk_inv st (log @ logged b i rs tx)"
proof -
  obtain x where "bm_get (ps_tasks st) i = Some x" using row by (auto simp: bm_contains_get)
  then obtain t where t: "bm_get (bd_tasks b) i = Some t" using mem_invD(3) [OF m] by blast
  then have "logged b i rs tx = [(i, tk_escrow_id t, rs, tx)]" by (simp add: logged_def get_task_def)
  then show ?thesis using disk_log [OF d, of "tk_escrow_id t" i rs tx] att operator_funded_mem [OF m t row] by simp
qed

text \<open>What is needed to submit: the operator pays one recipient at a time, and nobody twice.\<close>

definition may_submit :: "sends \<Rightarrow> payout_store \<Rightarrow> uuid \<Rightarrow> public_key list \<Rightarrow> bool" where
  "may_submit log st i rs \<longleftrightarrow> bm_contains i (ps_tasks st)
     \<and> (operator_funded st i \<longrightarrow> length rs = 1 \<and> (\<forall>r \<in> set rs. \<forall>tx. \<not> sent log i r tx))"

lemma save_partly:
  assumes "disk_inv (ph_store h) log" "mem_inv (ph_board h) (ph_store h)" "may_submit log (ph_store h) i (map pa_recipient as)"
    and "same_task i tx as" "save_attempts fates k as (ph_store h) = (f, st)" "f \<noteq> Commits"
  shows "disk_inv st log \<and> mem_inv (ph_board h) st"
proof -
  from save_attempts_spec [OF assms(5)] assms(6) obtain n where n: "n < length as"
    and st: "st = ph_store h\<lparr>ps_attempts := put_attempts (take n as) (ps_attempts (ph_store h))\<rparr>"
    using le_neq_implies_less by blast
  have one: "take n as = []" if "operator_funded (ph_store h) i" using assms(3) n that by (auto simp: may_submit_def)
  have "agrees log i (map pa_recipient (take n as)) tx"
  proof (cases "operator_funded (ph_store h) i")
    case False
    then show ?thesis using disk_invD(4) [OF assms(1)] by (auto simp: agrees_def)
  qed (simp add: one agrees_def)
  then show ?thesis unfolding st
    using disk_put [OF assms(1) same_task_take [OF assms(4)], of n] mem_put [OF assms(2) same_task_take [OF assms(4)], of n] one assms(3)
    by (auto simp: may_submit_def)
qed

lemma save_fully:
  assumes d: "disk_inv (ph_store h) log" and m: "mem_inv (ph_board h) (ph_store h)" and row: "bm_contains i (ps_tasks (ph_store h))"
    and as: "same_task i tx as" and agr: "agrees log i (map pa_recipient as) tx"
    and run: "save_attempts fates k as (ph_store h) = (Commits, st)"
  shows "disk_inv st log \<and> mem_inv (fold record_payout_attempt as (ph_board h)) st
    \<and> ps_attempts st = put_attempts as (ps_attempts (ph_store h)) \<and> ps_tasks st = ps_tasks (ph_store h)"
proof -
  from save_attempts_spec [OF run] have st: "st = ph_store h\<lparr>ps_attempts := put_attempts as (ps_attempts (ph_store h))\<rparr>" by auto
  have "mem_inv (fold record_payout_attempt as (ph_board h)) st" unfolding st
    by (rule mem_record [OF m as]) (use record_keeps [OF mem_invD(1) [OF m]] fold_record_attempts in auto)
  then show ?thesis using disk_put [OF d as row agr] by (simp add: st)
qed

lemma store_task:
  assumes d: "disk_inv st log" and m: "mem_inv b st"
    and run: "(f, st') = (case get_task b i of None \<Rightarrow> (Commits, st) | Some t \<Rightarrow> (g, if g = Commits then save_task t st else st))"
  shows "disk_inv st' log \<and> mem_inv b st' \<and> ps_attempts st' = ps_attempts st
    \<and> (bm_contains j (ps_tasks st) \<longrightarrow> bm_contains j (ps_tasks st') \<and> (operator_funded st' j \<longleftrightarrow> operator_funded st j))"
proof (cases "get_task b i")
  case (Some t)
  note t = Some [unfolded get_task_def]
  show ?thesis
  proof (cases "g = Commits")
    case True
    then have st': "st' = save_task t st" using run Some by simp
    show ?thesis unfolding st' using persist_inv [OF d m t] operator_funded_save [OF m t] rows_follow_keeps(3) [OF save_task_follows(1) [OF m t]]
      by (auto simp: save_task_def)
  qed (use assms Some in simp)
qed (use assms in simp)

text \<open>A submission builds nothing, or saves some legs and stops, or saves and records them all.\<close>

lemma submit_cases:
  assumes run: "submit_task_payout P io i key source recipients change h = (res, sends, h')"
  obtains (unbuilt) "sends = []" "h' = h"
  | (partly) tx as f st where "same_task i tx as" "map pa_recipient as = map fst recipients"
      "save_attempts (pi_fate io) 0 as (ph_store h) = (f, st)" "f \<noteq> Commits" "sends = []" "h' = h\<lparr>ph_store := st\<rparr>"
  | (fully) tx as st g st' where "same_task i tx as" "map pa_recipient as = map fst recipients"
      "save_attempts (pi_fate io) 0 as (ph_store h) = (Commits, st)"
      "(g, st') = (case get_task (fold record_payout_attempt as (ph_board h)) i of None \<Rightarrow> (Commits, st)
        | Some t \<Rightarrow> (pi_fate io (length as), if pi_fate io (length as) = Commits then save_task t st else st))"
      "h' = h\<lparr>ph_board := fold record_payout_attempt as (ph_board h), ph_store := st'\<rparr>"
      "sends = [] \<or> sends = logged (ph_board h') i (map fst recipients) tx"
proof (cases "\<exists>tx as. build_payment_from P (pi_uuid io) (pi_utxos io) (ph_board h) key source recipients change (map (\<lambda>(r, _). (i, r)) recipients) = Ok tx
    \<and> leg_attempts P (ph_board h) (pi_now io) i source tx 0 recipients = Some as")
  case False
  then have "sends = [] \<and> h' = h" using run
    by (auto simp: submit_task_payout_def Let_def split: outcome.splits option.splits)
  then show ?thesis using unbuilt by blast
next
  case True
  then obtain tx as where tx: "build_payment_from P (pi_uuid io) (pi_utxos io) (ph_board h) key source recipients change (map (\<lambda>(r, _). (i, r)) recipients) = Ok tx"
    and as: "leg_attempts P (ph_board h) (pi_now io) i source tx 0 recipients = Some as" by blast
  note legs = leg_attempts_spec [OF as]
  obtain f st where sv: "save_attempts (pi_fate io) 0 as (ph_store h) = (f, st)" by force
  show ?thesis
  proof (cases "f = Commits")
    case False
    then have "sends = [] \<and> h' = h\<lparr>ph_store := st\<rparr>" using run tx as sv
      by (cases f) (auto simp: submit_task_payout_def)
    then show ?thesis using partly legs sv False by blast
  next
    case True
    let ?b = "fold record_payout_attempt as (ph_board h)" and ?n = "length as"
    obtain g st' where fs: "(g, st') = (case get_task ?b i of None \<Rightarrow> (Commits, st)
        | Some t \<Rightarrow> (pi_fate io ?n, if pi_fate io ?n = Commits then save_task t st else st))" by (metis surj_pair)
    have "(res, sends, h') = (if g = Dies \<or> pi_fate io (Suc ?n) = Dies then (None, [], h\<lparr>ph_board := ?b, ph_store := st'\<rparr>)
           else (Some (pi_fate io (Suc ?n) = Commits), logged ?b i (map fst recipients) tx, h\<lparr>ph_board := ?b, ph_store := st'\<rparr>))"
      using run tx as sv True by (simp add: submit_task_payout_def Let_def fs [symmetric])
    then have "h' = h\<lparr>ph_board := ?b, ph_store := st'\<rparr>" "sends = [] \<or> sends = logged (ph_board h') i (map fst recipients) tx"
      by (auto split: if_splits)
    then show ?thesis using fully legs sv [unfolded True] fs by blast
  qed
qed

lemma submit_ok:
  assumes d: "disk_inv (ph_store h) log" and m: "mem_inv (ph_board h) (ph_store h)"
    and may: "may_submit log (ph_store h) i (map fst recipients)"
  shows "did_ok log (submit_task_payout P io i key source recipients change h)"
proof -
  obtain res sends h' where run: "submit_task_payout P io i key source recipients change h = (res, sends, h')" by (metis prod_cases3)
  from run have "disk_inv (ph_store h') (log @ sends) \<and> mem_inv (ph_board h') (ph_store h')"
  proof (cases rule: submit_cases)
    case (partly tx as f st)
    then show ?thesis using save_partly [OF d m _ partly(1,3,4)] may by simp
  next
    case (fully tx as st g st')
    have row: "bm_contains i (ps_tasks (ph_store h))" using may by (simp add: may_submit_def)
    have agr: "agrees log i (map fst recipients) tx'" for tx'
      using may disk_invD(4) [OF d] unfolding may_submit_def agrees_def by blast
    have s: "disk_inv st log" "mem_inv (ph_board h') st" "ps_attempts st = put_attempts as (ps_attempts (ph_store h))"
        "ps_tasks st = ps_tasks (ph_store h)"
      using save_fully [OF d m row fully(1) _ fully(3)] fully(2,5) agr by auto
    have "(g, st') = (case get_task (ph_board h') i of None \<Rightarrow> (Commits, st)
        | Some t \<Rightarrow> (pi_fate io (length as), if pi_fate io (length as) = Commits then save_task t st else st))" using fully(4,5) by simp
    note k = store_task [OF s(1,2) this]
    then have s': "disk_inv st' log" "mem_inv (ph_board h') st'" "ps_attempts st' = ps_attempts st" "bm_contains i (ps_tasks st')"
      using row s(4) by auto
    have "disk_inv st' (log @ logged (ph_board h') i (map fst recipients) tx)"
    proof (rule logged_ok [OF s'(1,2,4)])
      show "agrees log i (map fst recipients) tx
        \<and> (\<forall>r \<in> set (map fst recipients). \<exists>a. bm_get (ps_attempts st') (i, r) = Some a \<and> pa_transaction a = Some tx)"
        unfolding s'(3) s(3) fully(2) [symmetric] using agr [folded fully(2)] recipients_attempts [OF fully(1)] by blast
    qed
    then show ?thesis using s'(1,2) fully(5,6) by auto
  qed (use d m in simp)
  then show ?thesis by (simp add: did_ok_def run)
qed

text \<open>A submission loses no row and fails no payout.\<close>

definition unfailed :: "uuid \<Rightarrow> payout_hub \<Rightarrow> bool" where
  "unfailed i h \<longleftrightarrow> bm_contains i (ps_tasks (ph_store h)) \<and> (\<forall>t. get_task (ph_board h) i = Some t \<longrightarrow> tk_status t \<noteq> PayoutFailed)"

lemma save_attempts_rows: "save_attempts fates k as st = (f, st') \<Longrightarrow> ps_tasks st' = ps_tasks st"
  by (drule save_attempts_spec) auto

lemma submit_unfailed:
  assumes u: "unfailed i h" and run: "submit_task_payout P io i key source recipients change h = (res, sends, h')"
  shows "unfailed i h'"
  using run
proof (cases rule: submit_cases)
  case (partly tx as f st)
  then show ?thesis using u save_attempts_rows [OF partly(3)] by (simp add: unfailed_def)
next
  case (fully tx as st g st')
  have "bm_contains i (ps_tasks st')" using u save_attempts_rows [OF fully(3)] fully(4)
    by (auto simp: unfailed_def save_task_def bm_contains_get split: option.splits if_splits)
  moreover have "\<forall>t. get_task (ph_board h') i = Some t \<longrightarrow> tk_status t \<noteq> PayoutFailed"
    using record_status [of "ph_board h" i as] u unfolding unfailed_def fully(5) by simp
  ultimately show ?thesis unfolding unfailed_def fully(5) by simp
qed (use u in simp)

subsection \<open>Settling\<close>

lemma did_ok_same: "disk_inv (ph_store h) log \<Longrightarrow> mem_inv (ph_board h) (ph_store h) \<Longrightarrow> did_ok log (res, [], h)"
  by (simp add: did_ok_def)

lemma settle_one_ok:
  assumes d: "disk_inv (ph_store h) log" and m: "mem_inv (ph_board h) (ph_store h)" and u: "unfailed i h"
  shows "did_ok log (settle_one_payout P keys io i r amount h)"
proof (cases "\<exists>t. get_task (ph_board h) i = Some t \<and> \<not> pi_busy io \<and> \<not> is_recipient_paid t r \<and> payout_attempt_for (ph_board h) i r = None")
  case True
  then obtain t where t: "get_task (ph_board h) i = Some t" and idle: "\<not> pi_busy io" and unpaid: "\<not> is_recipient_paid t r"
    and noatt: "payout_attempt_for (ph_board h) i r = None" by blast
  have "\<not> sent log i r tx" if op: "operator_funded (ph_store h) i" for tx
  proof
    assume "sent log i r tx"
    then consider "bm_contains (i, r) (ps_attempts (ph_store h))" | "closed_for (ph_store h) i r" using disk_invD(5) [OF d] by blast
    then show False
    proof cases
      case 1
      then have "bm_contains (i, r) (bd_payout_attempts (ph_board h))" using mem_invD(5) [OF m _ op] by blast
      then show ?thesis using noatt by (simp add: payout_attempt_for_def bm_contains_get)
    next
      case 2
      then show ?thesis using closed_for_mem [OF m 2] t unpaid u by (auto simp: get_task_def unfailed_def)
    qed
  qed
  then have "may_submit log (ph_store h) i (map fst [(r, amount)])" using u by (simp add: may_submit_def unfailed_def)
  then show ?thesis using submit_ok [OF d m] t idle unpaid noatt by (simp add: settle_one_payout_def submit_bounty_payout_def)
next
  case False
  then have "snd (settle_one_payout P keys io i r amount h) = ([], h)"
    by (auto simp: settle_one_payout_def split: option.split)
  then show ?thesis using did_ok_same [OF d m] by (metis prod.collapse)
qed

lemma settle_one_unfailed:
  assumes "unfailed i h" "settle_one_payout P keys io i r amount h = (res, sends, h')"
  shows "unfailed i h'"
  using assms submit_unfailed by (auto simp: settle_one_payout_def submit_bounty_payout_def split: if_splits option.splits)

lemma settle_each_ok:
  assumes "disk_inv (ph_store h) log" "mem_inv (ph_board h) (ph_store h)" "unfailed i h"
  shows "did_ok log (settle_each P keys io k i payouts h)"
  using assms
proof (induction payouts arbitrary: k h log)
  case Nil
  then show ?case by (simp add: did_ok_def)
next
  case (Cons x payouts)
  obtain r amount where x: "x = (r, amount)" by force
  obtain res sends h' where one: "settle_one_payout P keys (io k) i r amount h = (res, sends, h')" by (metis prod_cases3)
  have ok: "did_ok log (res, sends, h')" using settle_one_ok [OF Cons.prems] one by metis
  show ?case
  proof (cases res)
    case None
    then show ?thesis using ok by (simp add: x one)
  next
    case (Some done')
    have "did_ok (log @ sends) (settle_each P keys io (Suc k) i payouts h')"
      by (rule Cons.IH) (use ok Some settle_one_unfailed [OF Cons.prems(3) one] in \<open>simp_all add: did_ok_def\<close>)
    then show ?thesis using Some by (auto simp: x one did_ok_def split: prod.split)
  qed
qed

lemma settle_escrow_ok:
  assumes d: "disk_inv (ph_store h) log" and m: "mem_inv (ph_board h) (ph_store h)"
    and "bm_contains i (ps_tasks (ph_store h))" "\<not> operator_funded (ph_store h) i"
  shows "did_ok log (settle_escrow_funded_task P keys io i deposit h)"
proof -
  have "may_submit log (ph_store h) i rs" for rs using assms(3,4) by (simp add: may_submit_def)
  then show ?thesis by (auto simp: settle_escrow_funded_task_def intro: did_ok_same [OF d m] submit_ok [OF d m] split: option.split)
qed

lemma settle_ok:
  assumes d: "disk_inv (ph_store h) log" and m: "mem_inv (ph_board h) (ph_store h)" and row: "bm_contains i (ps_tasks (ph_store h))"
  shows "did_ok log (try_settle_verified_task P keys io i h)"
proof (cases "get_task (ph_board h) i")
  case None
  then show ?thesis using did_ok_same [OF d m] by (simp add: try_settle_verified_task_def)
next
  case (Some t)
  note op = operator_funded_mem [OF m Some [unfolded get_task_def] row]
  have "did_ok log (settle_escrow_funded_task P keys (io 0) i deposit h)" if "funding_escrow (ph_board h) t = Some deposit" for deposit
    by (rule settle_escrow_ok [OF d m row]) (use that op in \<open>auto simp: funding_escrow_def\<close>)
  moreover have "did_ok log (settle_each P keys io 0 i payouts h)" if "tk_status t = Verified" for payouts
    by (rule settle_each_ok [OF d m]) (use that row Some in \<open>simp add: unfailed_def\<close>)
  ultimately show ?thesis using did_ok_same [OF d m] Some
    by (auto simp: try_settle_verified_task_def Let_def split: option.split)
qed

end
