(* ===== verification/Hub_Payout_Resolve.thy ===== *)
theory Hub_Payout_Resolve
  imports Hub_Payout_Inv
begin

text \<open>
  Resolving payout attempts: resending, recording a confirmed payout, giving up.  With the
  lemmas of \<open>Hub_Payout_Inv\<close> every call of the payout machine keeps its invariant, and the
  promises of the payout settlement follow.
\<close>

subsection \<open>Resending\<close>

lemma task_attempts:
  assumes "keyed_attempts (bd_payout_attempts b)"
  shows "a \<in> set (payout_attempts_for_task b i) \<longleftrightarrow> pa_task_id a = i \<and> bm_get (bd_payout_attempts b) (attempt_key a) = Some a"
proof -
  have "a \<in> set (payout_attempts_for_task b i) \<longleftrightarrow> (\<exists>r. ((i, r), a) \<in> set (bd_payout_attempts b))"
    by (auto simp: payout_attempts_for_task_def image_iff)
  also have "\<dots> \<longleftrightarrow> (\<exists>r. bm_get (bd_payout_attempts b) (i, r) = Some a)"
    using assms by (simp add: bm_get_iff keyed_attempts_def)
  finally show ?thesis using assms unfolding keyed_attempts_def by (metis prod.inject)
qed

lemma resent_legs:
  assumes m: "mem_inv b st"
    and nxt: "nxt = map (\<lambda>leg. leg\<lparr>pa_submissions := pa_submissions leg + 1, pa_submitted_at := now\<rparr>)
      (filter (\<lambda>leg. pa_transaction leg = Some tx) (payout_attempts_for_task b i))"
  shows "same_task i tx nxt"
    "\<forall>a \<in> set nxt. \<exists>a'. bm_get (bd_payout_attempts b) (attempt_key a) = Some a' \<and> pa_transaction a' = Some tx"
  using task_attempts [OF mem_invD(2) [OF m]] by (auto simp: nxt same_task_def)

lemma resent_agrees:
  assumes d: "disk_inv st log" and m: "mem_inv b st" and as: "same_task i tx as"
    and known: "\<forall>a \<in> set as. \<exists>a'. bm_get (bd_payout_attempts b) (attempt_key a) = Some a' \<and> pa_transaction a' = Some tx"
  shows "agrees log i (map pa_recipient as) tx"
  unfolding agrees_def
proof (intro ballI allI impI)
  fix r tx' assume "r \<in> set (map pa_recipient as)" and s: "sent log i r tx'"
  then obtain a where a: "a \<in> set as" "attempt_key a = (i, r)" using as by (auto simp: same_task_def)
  then obtain a' where a': "bm_get (bd_payout_attempts b) (i, r) = Some a'" "pa_transaction a' = Some tx" using known by fastforce
  obtain a'' where "bm_get (ps_attempts st) (i, r) = Some a''" "pa_transaction a'' = Some tx"
    using mem_invD(4) [OF m a'(1)] disk_invD(4) [OF d s] a'(2) by auto
  then show "tx' = tx" using disk_invD(6) [OF d s] by auto
qed

lemma resend_ok:
  assumes d: "disk_inv (ph_store h) log" and m: "mem_inv (ph_board h) (ph_store h)"
  shows "did_ok log (resend_lost_payout P keys io a h)"
proof (cases "\<exists>t. get_task (ph_board h) (pa_task_id a) = Some t \<and> payout_attempt_for (ph_board h) (pa_task_id a) (pa_recipient a) = Some a")
  case False
  then show ?thesis by (auto simp: resend_lost_payout_def Let_def intro: did_ok_same [OF d m] split: option.split)
next
  case True
  let ?i = "pa_task_id a" and ?b = "ph_board h"
  obtain t where t: "get_task ?b ?i = Some t" and att: "payout_attempt_for ?b ?i (pa_recipient a) = Some a" using True by blast
  note get = att [unfolded payout_attempt_for_def]
  obtain tx where tx: "pa_transaction a = Some tx" using mem_invD(2) [OF m] get unfolding keyed_attempts_def by fast
  define nxt where "nxt = map (\<lambda>leg. leg\<lparr>pa_submissions := pa_submissions leg + 1, pa_submitted_at := pi_now io\<rparr>)
      (filter (\<lambda>leg. pa_transaction leg = Some tx) (payout_attempts_for_task ?b ?i))"
  note legs = resent_legs [OF m nxt_def]
  note agr = resent_agrees [OF d m legs]
  have "bm_contains (?i, pa_recipient a) (ps_attempts (ph_store h))" using mem_invD(4) [OF m get] by (auto simp: bm_contains_get)
  then have row: "bm_contains ?i (ps_tasks (ph_store h))" by (rule disk_invD(3) [OF d])
  obtain f st where sv: "save_attempts (pi_fate io) 0 nxt (ph_store h) = (f, st)" by force
  then obtain n where st: "st = ph_store h\<lparr>ps_attempts := put_attempts (take n nxt) (ps_attempts (ph_store h))\<rparr>"
    using save_attempts_spec by blast
  have known: "\<forall>a \<in> set (take n nxt). \<exists>a'. bm_get (bd_payout_attempts ?b) (attempt_key a) = Some a' \<and> pa_transaction a' = Some tx"
    using legs(2) in_set_takeD by fast
  have mb: "mem_inv ?b st" unfolding st by (rule mem_put [OF m same_task_take [OF legs(1)]]) (rule known)
  have ds: "disk_inv st log" unfolding st
    by (rule disk_put [OF d same_task_take [OF legs(1)] row agrees_take [OF agr]])
  show ?thesis
  proof (cases "f = Commits")
    case False
    then show ?thesis using t att tx sv mb ds
      by (cases f) (auto simp: resend_lost_payout_def Let_def nxt_def [symmetric] did_ok_def)
  next
    case True
    note full = save_fully [OF d m row legs(1) agr sv [unfolded True]]
    have "disk_inv st (log @ logged ?b ?i (map pa_recipient nxt) tx)"
    proof (rule logged_ok [OF ds mb])
      show "bm_contains ?i (ps_tasks st)" using full row by simp
      show "agrees log ?i (map pa_recipient nxt) tx
        \<and> (\<forall>r \<in> set (map pa_recipient nxt). \<exists>a. bm_get (ps_attempts st) (?i, r) = Some a \<and> pa_transaction a = Some tx)"
        using agr full recipients_attempts [OF legs(1)] by metis
    qed
    then show ?thesis using t att tx sv True full
      by (simp add: resend_lost_payout_def Let_def nxt_def [symmetric] did_ok_def)
  qed
qed

subsection \<open>Closing attempts\<close>

lemma mem_inv_same:
  assumes "mem_inv b st" "bd_tasks b' = bd_tasks b" "bd_pending_deposits b' = bd_pending_deposits b"
    and "bd_payout_attempts b' = bd_payout_attempts b"
  shows "mem_inv b' st"
  using assms by (simp add: mem_inv_def board_inv_def escrow_ok_def spent_deposit_def)

lemma drop_inv:
  assumes d: "disk_inv st log" and m: "mem_inv b st" and closed: "\<And>i r. (i, r) \<in> K \<Longrightarrow> closed_for st i r"
    and disk: "bm_wf dm" "\<And>k. bm_get dm k = (if k \<in> K then None else bm_get (ps_attempts st) k)"
    and mem: "bm_wf mm" "\<And>k. bm_get mm k = (if k \<in> K then None else bm_get (bd_payout_attempts b) k)"
  shows "disk_inv (st\<lparr>ps_attempts := dm\<rparr>) log \<and> mem_inv (b\<lparr>bd_payout_attempts := mm\<rparr>) (st\<lparr>ps_attempts := dm\<rparr>)"
proof
  note D = disk_invD [OF d] and M = mem_invD [OF m]
  have has: "bm_contains k dm \<longleftrightarrow> k \<notin> K \<and> bm_contains k (ps_attempts st)" for k by (simp add: bm_contains_def disk)
  show "disk_inv (st\<lparr>ps_attempts := dm\<rparr>) log"
  proof (rule disk_invI)
    show "keyed_attempts (ps_attempts (st\<lparr>ps_attempts := dm\<rparr>))" using D(2) disk by (simp add: keyed_attempts_def)
    show "bm_contains (i, r) (ps_attempts (st\<lparr>ps_attempts := dm\<rparr>)) \<or> closed_for (st\<lparr>ps_attempts := dm\<rparr>) i r" if "sent log i r tx" for i r tx
      using D(5) [OF that] closed has by auto
    show "pa_transaction a = Some tx" if "sent log i r tx" "bm_get (ps_attempts (st\<lparr>ps_attempts := dm\<rparr>)) (i, r) = Some a" for i r tx a
      using D(6) [OF that(1)] that(2) disk(2) by (simp split: if_splits)
    show "bm_contains i (ps_tasks (st\<lparr>ps_attempts := dm\<rparr>))" if "bm_contains (i, r) (ps_attempts (st\<lparr>ps_attempts := dm\<rparr>))" for i r
      using that D(3) [of i r] has by simp
  qed (use D(1,4,7) in auto)
  show "mem_inv (b\<lparr>bd_payout_attempts := mm\<rparr>) (st\<lparr>ps_attempts := dm\<rparr>)"
  proof (rule mem_invI)
    show "board_inv (b\<lparr>bd_payout_attempts := mm\<rparr>)" using M(1) by (simp add: board_inv_def escrow_ok_def spent_deposit_def)
    show "keyed_attempts (bd_payout_attempts (b\<lparr>bd_payout_attempts := mm\<rparr>))" using M(2) mem by (simp add: keyed_attempts_def)
    show "\<exists>a'. bm_get (ps_attempts (st\<lparr>ps_attempts := dm\<rparr>)) (i, r) = Some a'
        \<and> (operator_funded (st\<lparr>ps_attempts := dm\<rparr>) i \<longrightarrow> pa_transaction a' = pa_transaction a)"
      if "bm_get (bd_payout_attempts (b\<lparr>bd_payout_attempts := mm\<rparr>)) (i, r) = Some a" for i r a
      using that M(4) [of i r a] mem(2) [of "(i, r)"] disk(2) [of "(i, r)"] by (simp split: if_splits)
    show "bm_contains (i, r) (bd_payout_attempts (b\<lparr>bd_payout_attempts := mm\<rparr>))"
      if "bm_contains (i, r) (ps_attempts (st\<lparr>ps_attempts := dm\<rparr>))" "operator_funded (st\<lparr>ps_attempts := dm\<rparr>) i" for i r
      using that has M(5) [of i r] mem(2) [of "(i, r)"] by (simp add: bm_contains_def)
  qed (use M(3) in auto)
qed

lemma reputation_rows [simp]:
  "disk_inv (st\<lparr>ps_reputation := x\<rparr>) log = disk_inv st log" "mem_inv b (st\<lparr>ps_reputation := x\<rparr>) = mem_inv b st"
  by (simp_all add: disk_inv_def mem_inv_def operator_funded_def closed_for_def)

lemma mark_paid_undone:
  assumes "tasks_ok (bd_tasks b)" "mark_recipient_paid now i r amount b = (res, b')" "bm_get (bd_tasks b) i = Some t"
  shows "bm_insert i t (bd_tasks b') = bd_tasks b"
    "bd_pending_deposits b' = bd_pending_deposits b" "bd_payout_attempts b' = bd_payout_attempts b"
proof -
  have wf: "bm_wf (bd_tasks b)" using assms(1) by (simp add: tasks_ok_def)
  show "bm_insert i t (bd_tasks b') = bd_tasks b"
    using assms(1,2)
  proof (cases rule: mark_paid_cases)
    case unchanged
    then show ?thesis using wf assms(3) by (intro bm_ext) auto
  next
    case (paid u u' cr)
    have "bd_tasks b' = bm_insert i u' (bd_tasks b)" by (simp add: paid(5) set_task_def)
    then show ?thesis using wf assms(3) by (intro bm_ext) auto
  qed
  show "bd_pending_deposits b' = bd_pending_deposits b" "bd_payout_attempts b' = bd_payout_attempts b"
    using settle_deposits(5) [of now i r amount b] attempts.run_board_part [of "MarkRecipientPaid now i r amount" b] assms(2) by simp_all
qed

lemma confirmed_ok:
  assumes d: "disk_inv (ph_store h) log" and m: "mem_inv (ph_board h) (ph_store h)"
  shows "did_ok log (record_confirmed_payout io i r amount h)"
proof -
  let ?b = "ph_board h" and ?st = "ph_store h"
  obtain res b1 where run: "mark_recipient_paid (pi_now io) i r amount ?b = (res, b1)" by force
  have ok: "tasks_ok (bd_tasks ?b)" using mem_invD(1) [OF m] by (simp add: board_inv_def)
  have m1: "mem_inv b1 ?st" using run_board_mem [OF m, of "MarkRecipientPaid (pi_now io) i r amount"] run by simp
  show ?thesis
  proof (cases "\<exists>full. res = Ok full")
    case False
    then show ?thesis using run d m1 by (auto simp: record_confirmed_payout_def did_ok_def Let_def split: outcome.split)
  next
    case True
    then obtain full where res: "res = Ok full" by blast
    obtain t1 where t1: "bm_get (bd_tasks b1) i = Some t1" "is_recipient_paid t1 r" using mark_paid_marks [OF ok] run res by blast
    let ?b2 = "snd (clear_payout_attempt i r b1)"
    have t2: "get_task ?b2 i = Some t1" using t1 by (simp add: get_task_def clear_payout_attempt_def)
    show ?thesis
    proof (cases "pi_fate io 0")
      case Commits
      let ?s = "save_task t1 ?st"
      have id: "tk_id t1 = i" by (rule save_task_follows(2) [OF m1 t1(1)])
      have p: "disk_inv ?s log" "mem_inv b1 ?s" using persist_inv [OF d m1 t1(1)] by auto
      have closed: "closed_for ?s i r" using t1(2) by (simp add: closed_for_def save_task_def id)
      have wf: "bm_wf (ps_attempts ?s)" "bm_wf (bd_payout_attempts b1)"
        using disk_invD(2) [OF p(1)] mem_invD(2) [OF p(2)] by (simp_all add: keyed_attempts_def)
      have "disk_inv (?s\<lparr>ps_attempts := bm_remove (i, r) (ps_attempts ?s)\<rparr>) log
          \<and> mem_inv (b1\<lparr>bd_payout_attempts := bm_remove (i, r) (bd_payout_attempts b1)\<rparr>) (?s\<lparr>ps_attempts := bm_remove (i, r) (ps_attempts ?s)\<rparr>)"
        by (rule drop_inv [OF p, of "{(i, r)}"]) (use closed wf in auto)
      moreover have "save_confirmed_payout t1 r rep ?st = ?s\<lparr>ps_attempts := bm_remove (i, r) (ps_attempts ?s)\<rparr>
          \<lparr>ps_reputation := bm_insert r rep (ps_reputation ?st)\<rparr>" for rep
        by (simp add: save_confirmed_payout_def save_task_def id)
      ultimately have "disk_inv (save_confirmed_payout t1 r rep ?st) log \<and> mem_inv ?b2 (save_confirmed_payout t1 r rep ?st)" for rep
        by (simp only: reputation_rows clear_payout_attempt_def snd_conv)
      then show ?thesis using run res t2 Commits by (simp add: record_confirmed_payout_def did_ok_def Let_def)
    next
      case Dies
      then show ?thesis using run res t2 d by (simp add: record_confirmed_payout_def did_ok_def Let_def)
    next
      case Fails
      obtain t where t: "bm_get (bd_tasks ?b) i = Some t" using ok run res t1 by (cases rule: mark_paid_cases) auto
      note u = mark_paid_undone [OF ok run t]
      have id: "tk_id t = i" using ok t by (auto simp: tasks_ok_def task_ok_def)
      have wf: "keyed_attempts (bd_payout_attempts ?b)" by (rule mem_invD(2) [OF m])
      have att: "(case bm_get (bd_payout_attempts ?b) (i, r) of None \<Rightarrow> bm_remove (i, r) (bd_payout_attempts ?b)
          | Some a \<Rightarrow> bm_insert (attempt_key a) a (bm_remove (i, r) (bd_payout_attempts ?b))) = bd_payout_attempts ?b"
        using wf by (intro bm_ext) (auto simp: keyed_attempts_def split: option.splits)
      have "mem_inv (ph_board (snd (snd (record_confirmed_payout io i r amount h)))) ?st"
        by (rule mem_inv_same [OF m])
          (use run res t2 Fails t u id att in \<open>auto simp: record_confirmed_payout_def Let_def get_task_def payout_attempt_for_def
            restore_task_def set_task_def restore_reputation_def restore_exchange_account_def restore_payout_attempt_def
            clear_payout_attempt_def split: option.split\<close>)
      then show ?thesis using run res t2 Fails d by (simp add: record_confirmed_payout_def did_ok_def Let_def)
    qed
  qed
qed

lemma dropped_keys:
  assumes keyed: "keyed_attempts (bd_payout_attempts b)"
  shows "k \<in> attempt_key ` set (payout_attempts_for_task b i) \<longleftrightarrow> fst k = i \<and> bm_contains k (bd_payout_attempts b)"
proof
  assume "k \<in> attempt_key ` set (payout_attempts_for_task b i)"
  then obtain a where "k = attempt_key a" "a \<in> set (payout_attempts_for_task b i)" by blast
  then show "fst k = i \<and> bm_contains k (bd_payout_attempts b)" using task_attempts [OF keyed, of a i] by (auto simp: bm_contains_get)
next
  assume k: "fst k = i \<and> bm_contains k (bd_payout_attempts b)"
  then obtain a where a: "bm_get (bd_payout_attempts b) k = Some a" by (auto simp: bm_contains_get)
  then have "k = attempt_key a" using keyed unfolding keyed_attempts_def by blast
  then show "k \<in> attempt_key ` set (payout_attempts_for_task b i)" using a k task_attempts [OF keyed] by auto
qed

lemma kept_get:
  assumes keyed: "keyed_attempts (bd_payout_attempts b)"
  shows "bm_get (filter (\<lambda>((j, _), _). j \<noteq> i) (bd_payout_attempts b)) k
    = (if k \<in> attempt_key ` set (payout_attempts_for_task b i) then None else bm_get (bd_payout_attempts b) k)"
proof -
  have "bm_get (filter (\<lambda>((j, _), _). j \<noteq> i) (bd_payout_attempts b)) k = (if fst k \<noteq> i then bm_get (bd_payout_attempts b) k else None)"
    using bm_get_filter_key [of "\<lambda>x. fst x \<noteq> i" "bd_payout_attempts b" k] by (simp add: case_prod_unfold)
  then show ?thesis using dropped_keys [OF keyed, of k i] by (auto simp: bm_contains_def)
qed

lemma put_back:
  assumes keyed: "keyed_attempts (bd_payout_attempts b)"
  shows "put_attempts (payout_attempts_for_task b i) (filter (\<lambda>((j, _), _). j \<noteq> i) (bd_payout_attempts b)) = bd_payout_attempts b"
    (is "put_attempts ?dropped ?kept = _")
proof (rule bm_ext)
  have wf: "bm_wf (bd_payout_attempts b)" using keyed by (simp add: keyed_attempts_def)
  then show "bm_wf (put_attempts ?dropped ?kept)" "bm_wf (bd_payout_attempts b)" by (simp_all add: put_attempts_wf)
  show "bm_get (put_attempts ?dropped ?kept) k = bm_get (bd_payout_attempts b) k" for k
  proof (cases "k \<in> attempt_key ` set ?dropped")
    case True
    from put_attempts_get_new [OF True] obtain a where "a \<in> set ?dropped" "attempt_key a = k"
      "bm_get (put_attempts ?dropped ?kept) k = Some a" by blast
    then show ?thesis using task_attempts [OF keyed, of a i] by auto
  qed (simp add: put_attempts_get_old kept_get [OF keyed])
qed

lemma fold_restore_attempts:
  "bd_payout_attempts (fold restore_payout_attempt as b) = put_attempts as (bd_payout_attempts b)"
  "bd_tasks (fold restore_payout_attempt as b) = bd_tasks b"
  "bd_pending_deposits (fold restore_payout_attempt as b) = bd_pending_deposits b"
  by (induction as arbitrary: b) (simp_all add: put_attempts_def restore_payout_attempt_def)

lemma attempts_views:
  "board_inv (b\<lparr>bd_payout_attempts := x\<rparr>) = board_inv b" "board_evolves b' (b\<lparr>bd_payout_attempts := x\<rparr>) = board_evolves b' b"
  by (simp_all add: board_inv_def escrow_ok_def spent_deposit_def board_evolves_def)

lemma abandon_ok:
  assumes d: "disk_inv (ph_store h) log" and m: "mem_inv (ph_board h) (ph_store h)"
  shows "did_ok log (abandon_payout io a h)"
proof (cases "\<exists>t. bm_get (bd_tasks (ph_board h)) (pa_task_id a) = Some t \<and> tk_status t \<in> {Verified, Submitted}")
  case False
  then have "\<exists>e. mark_payout_failed (pa_task_id a) (ph_board h) = (Err e, ph_board h)"
    by (auto simp: mark_payout_failed_def split: option.split)
  then show ?thesis using d m by (auto simp: abandon_payout_def did_ok_def)
next
  case True
  let ?i = "pa_task_id a" and ?b = "ph_board h" and ?st = "ph_store h"
  obtain t where t: "bm_get (bd_tasks ?b) ?i = Some t" "tk_status t \<in> {Verified, Submitted}" using True by blast
  let ?t = "t\<lparr>tk_status := PayoutFailed\<rparr>" and ?kept = "filter (\<lambda>((j, _), _). j \<noteq> ?i) (bd_payout_attempts ?b)"
  let ?dropped = "payout_attempts_for_task ?b ?i" and ?failed = "set_task ?i (t\<lparr>tk_status := PayoutFailed\<rparr>) ?b"
  have run: "mark_payout_failed ?i ?b = (Ok ?dropped, ?failed\<lparr>bd_payout_attempts := ?kept\<rparr>)"
    using t by (auto simp: mark_payout_failed_def payout_attempts_for_task_def set_task_def)
  note keys = mem_invD(2) [OF m]
  have ok: "tasks_ok (bd_tasks ?b)" using mem_invD(1) [OF m] by (simp add: board_inv_def)
  have m1: "mem_inv ?failed ?st"
  proof (rule mem_inv_evolve [OF m])
    have "board_inv (?failed\<lparr>bd_payout_attempts := ?kept\<rparr>) \<and> tasks_follow ?b (?failed\<lparr>bd_payout_attempts := ?kept\<rparr>)"
      using run_board_keeps [OF mem_invD(1) [OF m], of "MarkPayoutFailed ?i"] run by simp
    then have "board_inv (?failed\<lparr>bd_payout_attempts := ?kept\<rparr>)" "board_evolves ?b (?failed\<lparr>bd_payout_attempts := ?kept\<rparr>)"
      using follow_evolves by blast+
    then show "board_inv ?failed" "board_evolves ?b ?failed"
      by (simp_all only: attempts_views)
  qed (simp add: set_task_def)
  have t1: "bm_get (bd_tasks ?failed) ?i = Some ?t" by (simp add: set_task_def)
  have get: "get_task (?failed\<lparr>bd_payout_attempts := ?kept\<rparr>) ?i = Some ?t" by (simp add: get_task_def set_task_def)
  note kept = kept_get [OF keys, of ?i]
  have wf: "bm_wf (bd_payout_attempts ?b)" "bm_wf (ps_attempts ?st)"
    using keys disk_invD(2) [OF d] by (auto simp: keyed_attempts_def)
  show ?thesis
  proof (cases "pi_fate io 0")
    case Commits
    let ?s = "save_task ?t ?st" and ?ks = "map (\<lambda>d. (pa_task_id d, pa_recipient d)) ?dropped"
    have id: "tk_id ?t = ?i" by (rule save_task_follows(2) [OF m1 t1])
    have p: "disk_inv ?s log" "mem_inv ?failed ?s" using persist_inv [OF d m1 t1] by auto
    have "disk_inv (?s\<lparr>ps_attempts := fold bm_remove ?ks (ps_attempts ?s)\<rparr>) log
        \<and> mem_inv (?failed\<lparr>bd_payout_attempts := ?kept\<rparr>) (?s\<lparr>ps_attempts := fold bm_remove ?ks (ps_attempts ?s)\<rparr>)"
    proof (rule drop_inv [OF p, of "attempt_key ` set ?dropped"])
      show "closed_for ?s j r" if "(j, r) \<in> attempt_key ` set ?dropped" for j r
        using that task_attempts [OF keys] id by (auto simp: closed_for_def save_task_def)
      show "bm_get (fold bm_remove ?ks (ps_attempts ?s)) k = (if k \<in> attempt_key ` set ?dropped then None else bm_get (ps_attempts ?s) k)" for k
        by (simp add: bm.get_fold_rem)
      show "bm_get ?kept k = (if k \<in> attempt_key ` set ?dropped then None else bm_get (bd_payout_attempts ?failed) k)" for k
        by (simp add: kept set_task_def)
    qed (use wf bm.wf_fold_rem in \<open>simp_all add: save_task_def\<close>)
    then show ?thesis using run get Commits
      by (simp add: abandon_payout_def did_ok_def Let_def save_task_and_drop_payout_attempts_def save_task_def)
  next
    case Dies
    then show ?thesis using run get d by (simp add: abandon_payout_def did_ok_def Let_def)
  next
    case Fails
    have tid: "tk_id t = ?i" using ok t(1) by (auto simp: tasks_ok_def task_ok_def)
    have tasks: "bm_insert ?i t (bm_insert ?i ?t (bd_tasks ?b)) = bd_tasks ?b"
      using ok t(1) by (intro bm_ext) (auto simp: tasks_ok_def)
    have "mem_inv (ph_board (snd (snd (abandon_payout io a h)))) ?st"
      by (rule mem_inv_same [OF m])
        (use run get Fails t(1) tid put_back [OF keys] tasks in \<open>auto simp: abandon_payout_def Let_def get_task_def fold_restore_attempts restore_task_def set_task_def\<close>)
    then show ?thesis using run get Fails d by (simp add: abandon_payout_def did_ok_def Let_def)
  qed
qed

lemma resolve_ok:
  assumes d: "disk_inv (ph_store h) log" and m: "mem_inv (ph_board h) (ph_store h)"
  shows "did_ok log (resolve_payout_attempt P keys io a h)"
proof -
  have cong: "did_ok log (map_option f res, sends, h')" if "did_ok log (res, sends, h')" for f res sends h'
    using that by (simp add: did_ok_def)
  show ?thesis
    using did_ok_same [OF d m, of "Some False"] cong resend_ok [OF d m, of P keys io a] abandon_ok [OF d m, of io a]
      confirmed_ok [OF d m, of io "pa_task_id a" "pa_recipient a" "pa_amount a"]
    by (auto simp: resolve_payout_attempt_def did_ok_def split: option.split payout_outcome.split prod.split)
qed

subsection \<open>The machine\<close>

interpretation payouts: call_machine payout_start payout_allowed "run_payout P keys" payout_inv "\<lambda>w w'. \<exists>sends. pw_log w' = pw_log w @ sends" for P keys
proof
  show "payout_inv payout_start"
    by (auto simp: payout_inv_def payout_start_def disk_inv_def mem_inv_def tasks_ok_def keyed_attempts_def sent_def
        board_inv_def escrow_ok_def task_board_new_def bm_contains_def)
  show "payout_inv (run_payout P keys c w)" if inv: "payout_inv w" and al: "payout_allowed c w" for c w
  proof -
    have d: "disk_inv (ph_store (pw_hub w)) (pw_log w)" using inv by (simp add: payout_inv_def)
    have m: "mem_inv (ph_board (pw_hub w)) (ph_store (pw_hub w))" if "pw_up w" using inv that by (simp add: payout_inv_def)
    have did: "payout_inv (after w x)" if "did_ok (pw_log w) x" for x :: "bool did"
      using that by (auto simp: payout_inv_def after_def did_ok_def split: prod.split)
    show ?thesis
    proof (cases c)
      case (Settle io i)
      then show ?thesis using did [OF settle_ok [OF d m]] al by simp
    next
      case (Resolve io a)
      then show ?thesis using did [OF resolve_ok [OF d m]] al by simp
    next
      case (Work c')
      have "case c' of RecordPayoutAttempt a \<Rightarrow> False | ClearPayoutAttempt i r \<Rightarrow> False | MarkPayoutFailed i \<Rightarrow> False | _ \<Rightarrow> True"
        using al Work by (cases c') auto
      then have "mem_inv (run_board c' (ph_board (pw_hub w))) (ph_store (pw_hub w))"
        using run_board_mem [OF m, of c'] al Work by simp
      then show ?thesis using d Work by (simp add: payout_inv_def)
    next
      case (Persist i)
      then show ?thesis using inv d m al persist_inv [OF d m, of i] by (auto simp: payout_inv_def get_task_def split: option.split)
    next
      case (StartAgain b)
      then show ?thesis using d al restart_mem [OF d, of b] restart_board(3) [OF d, of b] by (simp add: payout_inv_def)
    qed
  qed
  show "\<exists>sends. pw_log (run_payout P keys c w) = pw_log w @ sends" for c w
    by (cases c) (auto simp: after_def split: prod.split option.split)
qed auto

lemma reached: "payout_reachable P keys w \<Longrightarrow> payout_inv w"
  unfolding payout_reachable_def by (rule payouts.reached_inv)

text \<open>
  C34: A payout is one transaction.  Whatever settlements, sweeps, failed writes, failed or lost
  sends, crashes and restarts occur, in any order: all that the hub ever sends to pay a recipient
  of a task the operator funds is one and the same transaction, whose outputs the chain accepts
  once.  So the recipient cannot be paid twice.
\<close>

theorem payout_sent_once:
  assumes "payout_reachable P keys w"
    and "(i, None, rs, tx) \<in> set (pw_log w)" "r \<in> set rs" "(i, None, rs', tx') \<in> set (pw_log w)" "r \<in> set rs'"
  shows "tx' = tx"
  using disk_invD(7) [of "ph_store (pw_hub w)" "pw_log w" i r tx tx'] reached [OF assms(1)] assms(2-5)
  by (auto simp: payout_inv_def sent_def)

text \<open>
  No payout is forgotten.  Every transaction the hub has sent to pay a recipient of a task
  the operator funds is on disk as an attempt with that very transaction, until the disk says
  that the recipient is paid or that the payout has failed; and while the hub runs, memory agrees.
\<close>

theorem payout_remembered:
  assumes "payout_reachable P keys w" "(i, None, rs, tx) \<in> set (pw_log w)" "r \<in> set rs"
  shows "(case bm_get (ps_attempts (ph_store (pw_hub w))) (i, r) of
      Some a \<Rightarrow> pa_transaction a = Some tx
        \<and> (if pw_up w then map_option pa_transaction (payout_attempt_for (ph_board (pw_hub w)) i r) = Some (Some tx) else True)
    | None \<Rightarrow> (case bm_get (ps_tasks (ph_store (pw_hub w))) i of
        None \<Rightarrow> False | Some t \<Rightarrow> is_recipient_paid t r \<or> tk_status t = PayoutFailed))"
proof -
  let ?st = "ph_store (pw_hub w)" and ?b = "ph_board (pw_hub w)"
  have d: "disk_inv ?st (pw_log w)" and m: "pw_up w \<Longrightarrow> mem_inv ?b ?st"
    using reached [OF assms(1)] by (auto simp: payout_inv_def)
  have s: "sent (pw_log w) i r tx" using assms(2,3) by (auto simp: sent_def)
  note op = disk_invD(4) [OF d s]
  show ?thesis
  proof (cases "bm_get (ps_attempts ?st) (i, r)")
    case None
    then have "closed_for ?st i r" using disk_invD(5) [OF d s] by (simp add: bm_contains_def)
    then show ?thesis using None by (auto simp: closed_for_def)
  next
    case (Some a)
    have tx: "pa_transaction a = Some tx" by (rule disk_invD(6) [OF d s Some])
    have "map_option pa_transaction (payout_attempt_for ?b i r) = Some (Some tx)" if up: "pw_up w"
    proof -
      obtain a' where a': "bm_get (bd_payout_attempts ?b) (i, r) = Some a'"
        using mem_invD(5) [OF m [OF up] _ op, of r] Some by (auto simp: bm_contains_get)
      then show ?thesis using mem_invD(4) [OF m [OF up] a'] Some op tx by (auto simp: payout_attempt_for_def)
    qed
    then show ?thesis using Some tx by simp
  qed
qed

end
