(* ===== verification/Hub_Payout_Witnesses.thy ===== *)
theory Hub_Payout_Witnesses
  imports Hub_Payout_Resolve Hub_Task_Witnesses Hub_Faucet_Witnesses
begin

text \<open>
  A payout that is lost: Ann posts a task that Carol solves, the hub records the payout and
  sends it, the transaction never arrives, the process restarts, and the sweep sends it again.
\<close>

definition lost_io :: payout_io where
  "lost_io = \<lparr>pi_utxos = Some coins, pi_recipient = Some [], pi_source = Some coins, pi_uuid = (\<lambda>i. 7 + of_nat i), pi_now = 20,
     pi_busy = False, pi_fate = (\<lambda>n. if n = 2 then Fails else Commits)\<rparr>"

definition sample_keys :: hub_keys where
  "sample_keys = \<lparr>hk_operator_private = operator_key, hk_operator_public = operator, hk_escrow_private = (\<lambda>_. operator_key)\<rparr>"

definition sample_tx :: transaction where
  "sample_tx = \<lparr>tx_inputs = [signed_input sample (output_hash sample (coin 5000 2)) sample_payment_outputs operator_key],
     tx_outputs = sample_payment_outputs\<rparr>"

definition carol_solved :: task where
  "carol_solved = (new_task 1 ann ''add'' 3000 (HashMatch 5) 0)\<lparr>tk_status := Verified, tk_claimant := Some carol, tk_claim_deadline := Some 1000\<rparr>"

definition carol_attempt :: payout_attempt where
  "carol_attempt = \<lparr>pa_task_id = 1, pa_recipient = carol, pa_amount = 3000,
     pa_output_hash = output_hash sample (hd sample_payment_outputs), pa_spent_inputs = [output_hash sample (coin 5000 2)],
     pa_source = operator, pa_submitted_at = 20, pa_submissions = 1, pa_transaction = Some sample_tx\<rparr>"

definition before_payout :: payout_world where
  "before_payout = fold (run_payout sample sample_keys)
     [Work (CreateTask 1 0 ann ''add'' 3000 5), Work (ClaimTask 1 carol 1000), Work (SubmitOutput 1 carol 5), Persist 1] payout_start"

lemma before_payout:
  "ph_board (pw_hub before_payout) = task_board_new\<lparr>bd_tasks := [(1, carol_solved)]\<rparr>"
  "ph_store (pw_hub before_payout) = \<lparr>ps_tasks = [(1, carol_solved)], ps_attempts = [], ps_reputation = []\<rparr>"
  "pw_up before_payout" "pw_log before_payout = []"
  by (simp_all add: before_payout_def payout_start_def board_eval carol_solved_def save_task_def ann_def carol_def)

lemma payout_built:
  assumes "bd_payout_attempts b = []" "bd_payments b = []"
  shows "build_payment_from sample (\<lambda>i. 7 + of_nat i) (Some coins) b operator_key operator [(carol, 3000)] operator [(1, carol)] = Ok sample_tx"
proof -
  have "reserve_inputs sample operator [(1, carol)] b coins = coins"
    using assms by (simp add: reserve_inputs_def bm_values_def outstanding_payout_attempts_def)
  then show ?thesis
    by (simp add: build_payment_from_def build_multi_payment_def sum_u64_def checked_sum_eq plus_u_def checked_add_def
        HUB_TRANSACTION_FEE_def coins_ordered payment_outputs_def sample_payment_outputs_def sample_tx_def) (simp add: coin_def Let_def)
qed

definition submitted_board :: task_board where
  "submitted_board = task_board_new\<lparr>bd_tasks := [(1, carol_solved\<lparr>tk_status := Submitted\<rparr>)], bd_payout_attempts := [((1, carol), carol_attempt)]\<rparr>"

definition submitted_store :: payout_store where
  "submitted_store = \<lparr>ps_tasks = [(1, carol_solved\<lparr>tk_status := Submitted\<rparr>)], ps_attempts = [((1, carol), carol_attempt)], ps_reputation = []\<rparr>"

lemma payout_lost:
  "try_settle_verified_task sample sample_keys (\<lambda>_. lost_io) 1 (pw_hub before_payout)
     = (Some False, [(1, None, [carol], sample_tx)], \<lparr>ph_board = submitted_board, ph_store = submitted_store\<rparr>)"
proof -
  have hub: "pw_hub before_payout = \<lparr>ph_board = task_board_new\<lparr>bd_tasks := [(1, carol_solved)]\<rparr>,
      ph_store = \<lparr>ps_tasks = [(1, carol_solved)], ps_attempts = [], ps_reputation = []\<rparr>\<rparr>"
    using before_payout(1,2) by (cases "pw_hub before_payout") simp
  have owed: "unsubmitted_payouts (task_board_new\<lparr>bd_tasks := [(1, carol_solved)]\<rparr>) 1 = [(carol, 3000)]"
    by (simp add: unsubmitted_payouts_def bm_get_def carol_solved_def new_task_def pending_payouts_def owed_payouts_def
        allocated_payouts_def is_recipient_paid_def task_board_new_def bm_contains_def)
  have built: "build_payment_from sample (\<lambda>i. 7 + of_nat i) (Some coins) (task_board_new\<lparr>bd_tasks := [(1, carol_solved)]\<rparr>)
      operator_key operator [(carol, 3000)] operator [(1, carol)] = Ok sample_tx"
    by (rule payout_built) (simp_all add: task_board_new_def)
  have legs: "leg_attempts sample (task_board_new\<lparr>bd_tasks := [(1, carol_solved)]\<rparr>) 20 1 operator sample_tx 0 [(carol, 3000)] = Some [carol_attempt]"
    by (simp add: sample_tx_def sample_payment_outputs_def payout_attempt_for_def task_board_new_def carol_attempt_def signed_input_def)
  have recorded: "record_payout_attempt carol_attempt (task_board_new\<lparr>bd_tasks := [(1, carol_solved)]\<rparr>) = submitted_board"
    by (simp add: record_payout_attempt_def restore_payout_attempt_def carol_attempt_def submitted_board_def unsubmitted_payouts_def
        bm_get_def bm_contains_def carol_solved_def new_task_def pending_payouts_def owed_payouts_def allocated_payouts_def
        is_recipient_paid_def task_board_new_def set_task_def)
  have task: "get_task (task_board_new\<lparr>bd_tasks := [(1, carol_solved)]\<rparr>) 1 = Some carol_solved"
    "get_task submitted_board 1 = Some (carol_solved\<lparr>tk_status := Submitted\<rparr>)"
    "tk_status carol_solved = Verified" "tk_escrow_id carol_solved = None" "\<not> is_recipient_paid carol_solved carol" "tk_id carol_solved = 1"
    by (simp_all add: get_task_def bm_get_def submitted_board_def carol_solved_def new_task_def is_recipient_paid_def)
  have "submit_task_payout sample lost_io 1 operator_key operator [(carol, 3000)] operator (pw_hub before_payout)
      = (Some False, [(1, None, [carol], sample_tx)], \<lparr>ph_board = submitted_board, ph_store = submitted_store\<rparr>)"
    by (simp add: hub submit_task_payout_def lost_io_def built legs recorded task logged_def Let_def
        save_payout_attempt_def save_task_def submitted_store_def del: leg_attempts.simps) (simp add: carol_attempt_def)
  then have "settle_one_payout sample sample_keys lost_io 1 carol 3000 (pw_hub before_payout)
      = (Some False, [(1, None, [carol], sample_tx)], \<lparr>ph_board = submitted_board, ph_store = submitted_store\<rparr>)"
    by (simp add: settle_one_payout_def submit_bounty_payout_def sample_keys_def hub task payout_attempt_for_def)
      (simp add: lost_io_def task_board_new_def)
  then show ?thesis by (simp add: hub try_settle_verified_task_def owed task funding_escrow_def Let_def)
qed

definition resent_attempt :: payout_attempt where
  "resent_attempt = carol_attempt\<lparr>pa_submissions := 2, pa_submitted_at := 20\<rparr>"

lemma payout_resent:
  "resolve_payout_attempt sample sample_keys lost_io carol_attempt \<lparr>ph_board = submitted_board, ph_store = submitted_store\<rparr>
     = (Some False, [(1, None, [carol], sample_tx)],
        \<lparr>ph_board = submitted_board\<lparr>bd_payout_attempts := [((1, carol), resent_attempt)]\<rparr>,
         ph_store = submitted_store\<lparr>ps_attempts := [((1, carol), resent_attempt)]\<rparr>\<rparr>)"
proof -
  have lost: "payout_attempt_resolve sample carol_attempt [] coins = NeverLanded"
    by (simp add: payout_attempt_resolve_def resolve_against_def carol_attempt_def find_utxo_def coins_def)
  have task: "get_task submitted_board 1 = Some (carol_solved\<lparr>tk_status := Submitted\<rparr>)" "tk_escrow_id carol_solved = None"
    by (simp_all add: get_task_def bm_get_def submitted_board_def carol_solved_def new_task_def)
  have att: "payout_attempt_for submitted_board 1 carol = Some carol_attempt" "payout_attempts_for_task submitted_board 1 = [carol_attempt]"
    by (simp_all add: payout_attempt_for_def payout_attempts_for_task_def submitted_board_def bm_get_def)
  have carol: "pa_task_id carol_attempt = 1" "pa_recipient carol_attempt = carol" "pa_transaction carol_attempt = Some sample_tx"
    "pa_submissions carol_attempt = 1" by (simp_all add: carol_attempt_def)
  have recorded: "record_payout_attempt resent_attempt submitted_board = submitted_board\<lparr>bd_payout_attempts := [((1, carol), resent_attempt)]\<rparr>"
    by (simp add: record_payout_attempt_def restore_payout_attempt_def resent_attempt_def carol submitted_board_def unsubmitted_payouts_def
        bm_get_def carol_solved_def new_task_def Let_def)
  have nxt: "carol_attempt\<lparr>pa_submissions := 2, pa_submitted_at := 20\<rparr> = resent_attempt" by (simp add: resent_attempt_def)
  show ?thesis
    by (simp add: resolve_payout_attempt_def lost_io_def lost MAX_PAYOUT_SUBMISSIONS_def carol resend_lost_payout_def Let_def task att
        nxt recorded logged_def save_payout_attempt_def)
      (simp add: resent_attempt_def carol submitted_store_def word_le_nat_alt)
qed

definition lost_and_resent :: "payout_call list" where
  "lost_and_resent =
     [Work (CreateTask 1 0 ann ''add'' 3000 5), Work (ClaimTask 1 carol 1000), Work (SubmitOutput 1 carol 5), Persist 1,
      Settle (\<lambda>_. lost_io) 1, StartAgain task_board_new, Resolve lost_io carol_attempt]"

definition resent_world :: payout_world where
  "resent_world = fold (run_payout sample sample_keys) lost_and_resent payout_start"

lemma restarted:
  "restart_hub task_board_new \<lparr>ph_board = submitted_board, ph_store = submitted_store\<rparr> = \<lparr>ph_board = submitted_board, ph_store = submitted_store\<rparr>"
  by (simp add: restart_hub_def submitted_store_def submitted_board_def task_board_new_def bm_values_def restore_task_def set_task_def
      restore_payout_attempt_def carol_attempt_def carol_solved_def new_task_def)

lemma resent_run:
  "run_payout sample sample_keys (Settle (\<lambda>_. lost_io) 1) before_payout
     = \<lparr>pw_hub = \<lparr>ph_board = submitted_board, ph_store = submitted_store\<rparr>, pw_up = True, pw_log = [(1, None, [carol], sample_tx)]\<rparr>"
  "resent_world = \<lparr>pw_hub = \<lparr>ph_board = submitted_board\<lparr>bd_payout_attempts := [((1, carol), resent_attempt)]\<rparr>,
      ph_store = submitted_store\<lparr>ps_attempts := [((1, carol), resent_attempt)]\<rparr>\<rparr>, pw_up = True,
      pw_log = [(1, None, [carol], sample_tx), (1, None, [carol], sample_tx)]\<rparr>"
proof -
  show settled: "run_payout sample sample_keys (Settle (\<lambda>_. lost_io) 1) before_payout
     = \<lparr>pw_hub = \<lparr>ph_board = submitted_board, ph_store = submitted_store\<rparr>, pw_up = True, pw_log = [(1, None, [carol], sample_tx)]\<rparr>"
    by (simp add: payout_lost after_def before_payout del: not_None_eq)
  have "resent_world = fold (run_payout sample sample_keys) [StartAgain task_board_new, Resolve lost_io carol_attempt]
      (run_payout sample sample_keys (Settle (\<lambda>_. lost_io) 1) before_payout)"
    by (simp add: resent_world_def lost_and_resent_def before_payout_def)
  then show "resent_world = \<lparr>pw_hub = \<lparr>ph_board = submitted_board\<lparr>bd_payout_attempts := [((1, carol), resent_attempt)]\<rparr>,
      ph_store = submitted_store\<lparr>ps_attempts := [((1, carol), resent_attempt)]\<rparr>\<rparr>, pw_up = True,
      pw_log = [(1, None, [carol], sample_tx), (1, None, [carol], sample_tx)]\<rparr>"
    unfolding settled by (simp add: restarted payout_resent after_def del: not_None_eq)
qed

lemma resent_reachable: "payout_reachable sample sample_keys resent_world"
  unfolding payout_reachable_def resent_world_def
proof (rule reaches_fold)
  have split: "calls_allowed payout_allowed (run_payout sample sample_keys) (cs @ ds) w
      \<longleftrightarrow> calls_allowed payout_allowed (run_payout sample sample_keys) cs w
        \<and> calls_allowed payout_allowed (run_payout sample sample_keys) ds (fold (run_payout sample sample_keys) cs w)" for cs ds w
    by (induction cs arbitrary: w) simp_all
  let ?cs = "[Work (CreateTask 1 0 ann ''add'' 3000 5), Work (ClaimTask 1 carol 1000), Work (SubmitOutput 1 carol 5), Persist 1]"
  have "calls_allowed payout_allowed (run_payout sample sample_keys) ?cs payout_start"
    by (simp add: payout_start_def board_eval ann_def carol_def)
  moreover have "calls_allowed payout_allowed (run_payout sample sample_keys)
      [Settle (\<lambda>_. lost_io) 1, StartAgain task_board_new, Resolve lost_io carol_attempt] before_payout"
    using resent_run(1) by (simp add: before_payout(2,3) restarted)
      (simp add: bm_contains_def bm_get_def escrow_ok_def submitted_board_def carol_solved_def new_task_def)
  ultimately show "calls_allowed payout_allowed (run_payout sample sample_keys) lost_and_resent payout_start"
    using split [of ?cs] by (simp add: lost_and_resent_def before_payout_def)
qed

theorem payout_sent_once_witness:
  "map (\<lambda>(i, e, rs, tx). (i, e, rs)) (pw_log resent_world) = [(1, None, [carol]), (1, None, [carol])]
   \<and> snd (snd (snd (pw_log resent_world ! 1))) = snd (snd (snd (pw_log resent_world ! 0)))"
  using payout_sent_once [OF resent_reachable, of 1 "[carol]" sample_tx carol "[carol]" sample_tx] by (simp add: resent_run(2))

theorem payout_remembered_witness:
  "map_option pa_transaction (bm_get (ps_attempts (ph_store (pw_hub resent_world))) (1, carol)) = Some (Some sample_tx)"
  using payout_remembered [OF resent_reachable, of 1 "[carol]" sample_tx carol] by (simp add: resent_run(2) bm_get_def)

end
