(* ===== verification/Hub_Names.thy ===== *)
theory Hub_Names
  imports Itx_Machine Chain_Types Hub_Rate_Limit "HOL-Library.Char_ord"
begin

text \<open>
  Names for agents (\<open>hub/src/names.rs\<close>), the table that keeps them (\<open>hub/src/store.rs\<close>), the
  requests that hand them out (\<open>ensure_named\<close> of \<open>hub/src/main.rs\<close>), the backfill at start-up
  (\<open>main\<close>) and the lookup of \<open>hub/src/handlers.rs\<close>.  The word lists compiled into the binary and
  the random numbers are arguments; a string is its bytes, and the words are ASCII.
\<close>

definition MAX_NAME_LEN :: nat where "MAX_NAME_LEN = 15"
definition RANDOM_PROBES :: nat where "RANDOM_PROBES = 32"
definition MAX_NAMES_LOOKUP :: nat where "MAX_NAMES_LOOKUP = 64"

subsection \<open>The pool\<close>

definition words :: "string list \<Rightarrow> string list" where
  "words sources = remdups_adj (sort (filter (\<lambda>w. w \<noteq> []) (map trim (concat (map (split_on (char_of (10 :: nat))) sources)))))"

definition pool :: "string list \<Rightarrow> string list \<Rightarrow> (string \<times> string) list" where
  "pool descriptor_files subject_files =
     concat (map (\<lambda>descriptor. map (Pair descriptor)
       (filter (\<lambda>subject. length descriptor + length subject \<le> MAX_NAME_LEN) (words subject_files)))
       (words descriptor_files))"

definition to_uppercase :: "char \<Rightarrow> char" where
  "to_uppercase c = (if CHR ''a'' \<le> c \<and> c \<le> CHR ''z'' then char_of (of_char c - 32 :: nat) else c)"

fun capitalized :: "string \<Rightarrow> string" where
  "capitalized [] = []"
| "capitalized (c # cs) = to_uppercase c # cs"

definition render :: "string \<Rightarrow> string \<Rightarrow> string" where
  "render descriptor subject = capitalized descriptor @ capitalized subject"

subsection \<open>The registry\<close>

record name_registry =
  nr_by_pubkey :: "(public_key, string) bmap"
  nr_taken :: "string set"
  nr_candidates :: "(string \<times> string) list"

definition registry_new :: "(string \<times> string) list \<Rightarrow> name_registry" where
  "registry_new candidates = \<lparr>nr_by_pubkey = [], nr_taken = {}, nr_candidates = candidates\<rparr>"

definition registry_restore :: "public_key \<Rightarrow> string \<Rightarrow> name_registry \<Rightarrow> name_registry" where
  "registry_restore pubkey name r = r\<lparr>nr_taken := insert name (nr_taken r), nr_by_pubkey := bm_insert pubkey name (nr_by_pubkey r)\<rparr>"

definition registry_get :: "name_registry \<Rightarrow> public_key \<Rightarrow> string option" where
  "registry_get r pubkey = bm_get (nr_by_pubkey r) pubkey"

text \<open>\<open>gen_range(0..n)\<close>, the \<open>k\<close>-th draw of a generator.\<close>

definition gen_range :: "(nat \<Rightarrow> nat) \<Rightarrow> nat \<Rightarrow> nat \<Rightarrow> nat" where
  "gen_range rng k n = rng k mod n"

fun first_free :: "string set \<Rightarrow> (string \<times> string) list \<Rightarrow> string option" where
  "first_free taken [] = None"
| "first_free taken ((descriptor, subject) # rest) =
     (if render descriptor subject \<in> taken then first_free taken rest else Some (render descriptor subject))"

definition probes :: "(nat \<Rightarrow> nat) \<Rightarrow> (string \<times> string) list \<Rightarrow> (string \<times> string) list" where
  "probes rng candidates = map (\<lambda>k. candidates ! gen_range rng k (length candidates)) [0..<RANDOM_PROBES]"

definition scan :: "(nat \<Rightarrow> nat) \<Rightarrow> (string \<times> string) list \<Rightarrow> (string \<times> string) list" where
  "scan rng candidates =
     (let start = gen_range rng RANDOM_PROBES (length candidates)
      in map (\<lambda>offset. candidates ! ((start + offset) mod length candidates)) [0..<length candidates])"

definition draw :: "(nat \<Rightarrow> nat) \<Rightarrow> name_registry \<Rightarrow> string option" where
  "draw rng r =
     (if nr_candidates r = [] then None
      else case first_free (nr_taken r) (probes rng (nr_candidates r)) of
        Some name \<Rightarrow> Some name
      | None \<Rightarrow> first_free (nr_taken r) (scan rng (nr_candidates r)))"

definition assign :: "(nat \<Rightarrow> nat) \<Rightarrow> public_key \<Rightarrow> name_registry \<Rightarrow> (string \<times> bool) option \<times> name_registry" where
  "assign rng pubkey r =
     (case bm_get (nr_by_pubkey r) pubkey of
        Some name \<Rightarrow> (Some (name, False), r)
      | None \<Rightarrow>
          (case draw rng r of
             None \<Rightarrow> (None, r)
           | Some name \<Rightarrow> (Some (name, True), r\<lparr>nr_taken := insert name (nr_taken r), nr_by_pubkey := bm_insert pubkey name (nr_by_pubkey r)\<rparr>)))"

definition remaining :: "name_registry \<Rightarrow> nat" where
  "remaining r = length (nr_candidates r) - card (nr_taken r)"

subsection \<open>Handing names out\<close>

type_synonym name_table = "(public_key, string) bmap"

definition save_agent_name_batch :: "(public_key \<times> string) list \<Rightarrow> name_table \<Rightarrow> name_table" where
  "save_agent_name_batch entries table = fold (\<lambda>(pubkey, name). bm_insert pubkey name) entries table"

text \<open>\<open>rng\<close> yields a generator for each draw; the result is the resolved names and the fresh ones.\<close>

fun assign_each ::
  "(nat \<Rightarrow> nat \<Rightarrow> nat) \<Rightarrow> nat \<Rightarrow> public_key list \<Rightarrow> name_registry
     \<Rightarrow> (public_key \<times> string) list \<times> (public_key \<times> string) list \<times> name_registry" where
  "assign_each rng k [] r = ([], [], r)"
| "assign_each rng k (pubkey # pubkeys) r =
     (case assign (rng k) pubkey r of
        (None, r) \<Rightarrow> assign_each rng (Suc k) pubkeys r
      | (Some (name, is_new), r) \<Rightarrow>
          (case assign_each rng (Suc k) pubkeys r of
             (resolved, fresh, r) \<Rightarrow> ((pubkey, name) # resolved, (if is_new then [(pubkey, name)] else []) @ fresh, r)))"

record names_state =
  ns_registry :: name_registry
  ns_table :: name_table

definition ensure_named ::
  "(nat \<Rightarrow> nat \<Rightarrow> nat) \<Rightarrow> bool \<Rightarrow> public_key list \<Rightarrow> names_state \<Rightarrow> (public_key \<times> string) list \<times> names_state" where
  "ensure_named rng committed pubkeys s =
     (case assign_each rng 0 pubkeys (ns_registry s) of
        (resolved, fresh, r) \<Rightarrow>
          (resolved, \<lparr>ns_registry = r, ns_table = (if committed then save_agent_name_batch fresh (ns_table s) else ns_table s)\<rparr>))"

text \<open>Start-up: \<open>known\<close> are the agents with a reputation; a failed write ends it.\<close>

definition boot_names ::
  "(string \<times> string) list \<Rightarrow> (nat \<Rightarrow> nat \<Rightarrow> nat) \<Rightarrow> bool \<Rightarrow> public_key list \<Rightarrow> name_table \<Rightarrow> names_state option" where
  "boot_names candidates rng committed known table =
     (let r = fold (\<lambda>(pubkey, name). registry_restore pubkey name) table (registry_new candidates);
          unnamed = filter (\<lambda>pubkey. registry_get r pubkey = None) known
      in case assign_each rng 0 unnamed r of
           (backfilled, _, r) \<Rightarrow>
             if backfilled = [] then Some \<lparr>ns_registry = r, ns_table = table\<rparr>
             else if committed then Some \<lparr>ns_registry = r, ns_table = save_agent_name_batch backfilled table\<rparr>
             else None)"

definition lookup_names ::
  "(string \<Rightarrow> public_key option) \<Rightarrow> name_registry \<Rightarrow> string \<Rightarrow> string \<rightharpoonup> string option" where
  "lookup_names parse_hex_pubkey r pubkeys =
     fold (\<lambda>hex out. case parse_hex_pubkey (trim hex) of None \<Rightarrow> out | Some pubkey \<Rightarrow> out(trim hex \<mapsto> registry_get r pubkey))
       (take MAX_NAMES_LOOKUP (filter (\<lambda>s. trim s \<noteq> []) (split_on CHR '','' pubkeys))) Map.empty"

subsection \<open>Runs of the hub\<close>

text \<open>
  Requests and restarts in any order.  A restart reads what the table holds, with the word lists
  of the build that starts; one whose backfill cannot be written does not come up.
\<close>

datatype names_call =
    EnsureNamed "nat \<Rightarrow> nat \<Rightarrow> nat" bool "public_key list"
  | Reboot "string list" "string list" "nat \<Rightarrow> nat \<Rightarrow> nat" bool "public_key list"

fun run_names :: "names_call \<Rightarrow> names_state \<Rightarrow> names_state" where
  "run_names (EnsureNamed rng committed pubkeys) s = snd (ensure_named rng committed pubkeys s)"
| "run_names (Reboot descriptors subjects rng committed known) s =
     (case boot_names (pool descriptors subjects) rng committed known (ns_table s) of None \<Rightarrow> s | Some s' \<Rightarrow> s')"

definition names_start :: names_state where
  "names_start = \<lparr>ns_registry = registry_new [], ns_table = []\<rparr>"

definition names_reachable :: "names_state \<Rightarrow> bool" where
  "names_reachable s \<longleftrightarrow> reaches (\<lambda>_ _. True) run_names names_start s"

definition proper_name :: "string \<Rightarrow> bool" where
  "proper_name v \<longleftrightarrow> (\<exists>d s. d \<noteq> [] \<and> s \<noteq> [] \<and> v = render d s \<and> length v \<le> MAX_NAME_LEN)"

definition registry_inv :: "name_registry \<Rightarrow> bool" where
  "registry_inv r \<longleftrightarrow> bm_wf (nr_by_pubkey r) \<and> (\<forall>k v. bm_get (nr_by_pubkey r) k = Some v \<longrightarrow> v \<in> nr_taken r \<and> proper_name v)
     \<and> (\<forall>k k' v. bm_get (nr_by_pubkey r) k = Some v \<longrightarrow> bm_get (nr_by_pubkey r) k' = Some v \<longrightarrow> k' = k)
     \<and> (\<forall>(d, s) \<in> set (nr_candidates r). proper_name (render d s))"

definition table_below :: "name_table \<Rightarrow> name_table \<Rightarrow> bool" where
  "table_below m m' \<longleftrightarrow> (\<forall>k v. bm_get m k = Some v \<longrightarrow> bm_get m' k = Some v)"

definition names_inv :: "names_state \<Rightarrow> bool" where
  "names_inv s \<longleftrightarrow> registry_inv (ns_registry s) \<and> bm_wf (ns_table s) \<and> table_below (ns_table s) (nr_by_pubkey (ns_registry s))"

lemma first_free_Some: "first_free taken cs = Some v \<Longrightarrow> v \<notin> taken \<and> (\<exists>(d, s) \<in> set cs. v = render d s)"
  by (induction taken cs rule: first_free.induct) (auto split: if_splits)

lemma first_free_None: "first_free taken cs = None \<longleftrightarrow> (\<forall>(d, s) \<in> set cs. render d s \<in> taken)"
  by (induction taken cs rule: first_free.induct) auto

lemma probes_in: "cs \<noteq> [] \<Longrightarrow> set (probes rng cs) \<subseteq> set cs"
  by (auto simp: probes_def gen_range_def)

text \<open>One wrapping sweep visits every candidate, wherever it starts.\<close>

lemma scan_all: "set (scan rng cs) = set cs"
proof (cases "cs = []")
  case False
  let ?n = "length cs" and ?s = "gen_range rng RANDOM_PROBES (length cs)"
  have "cs ! j \<in> set (scan rng cs)" if j: "j < ?n" for j
  proof -
    have "?s < ?n" using False by (simp add: gen_range_def)
    define off where "off = (if ?s \<le> j then j - ?s else j + ?n - ?s)"
    have "off < ?n" "(?s + off) mod ?n = j" using j \<open>?s < ?n\<close> by (auto simp: off_def)
    then show ?thesis unfolding scan_def Let_def by (metis (no_types, lifting) atLeastLessThan_iff image_eqI le0 set_map set_upt)
  qed
  moreover have "set (scan rng cs) \<subseteq> set cs" using False by (auto simp: scan_def Let_def)
  ultimately show ?thesis by (metis in_set_conv_nth subset_antisym subsetI)
qed (simp add: scan_def)

lemma draw_Some: "draw rng r = Some v \<Longrightarrow> v \<notin> nr_taken r \<and> (\<exists>(d, s) \<in> set (nr_candidates r). v = render d s)"
  using probes_in [of "nr_candidates r" rng] scan_all [of rng "nr_candidates r"]
  by (auto simp: draw_def split: if_splits option.splits dest!: first_free_Some)

lemma draw_None: "draw rng r = None \<longleftrightarrow> (\<forall>(d, s) \<in> set (nr_candidates r). render d s \<in> nr_taken r)"
proof (cases "draw rng r")
  case None
  then show ?thesis using scan_all [of rng "nr_candidates r"]
    by (auto simp: draw_def first_free_None split: if_splits option.splits)
next
  case (Some v)
  then show ?thesis using draw_Some [OF Some] by auto
qed

lemma words_nonempty: "w \<in> set (words files) \<Longrightarrow> w \<noteq> []"
  by (auto simp: words_def)

lemma length_render: "length (render d s) = length d + length s"
proof -
  have "length (capitalized w) = length w" for w by (cases w) simp_all
  then show ?thesis by (simp add: render_def)
qed

lemma pool_proper: "(d, s) \<in> set (pool descriptors subjects) \<Longrightarrow> proper_name (render d s)"
  using words_nonempty unfolding proper_name_def
  by (intro exI [of _ d] exI [of _ s]) (auto simp: pool_def length_render)

lemma assign_inv:
  assumes inv: "registry_inv r" and run: "assign rng k r = (res, r')"
  shows "registry_inv r' \<and> table_below (nr_by_pubkey r) (nr_by_pubkey r')
    \<and> (\<forall>v new. res = Some (v, new) \<longrightarrow> bm_get (nr_by_pubkey r') k = Some v)"
proof (cases "bm_get (nr_by_pubkey r) k = None \<and> (\<exists>v. draw rng r = Some v)")
  case False
  then show ?thesis using assms by (auto simp: assign_def table_below_def split: option.splits)
next
  case True
  then obtain v where k: "bm_get (nr_by_pubkey r) k = None" and v: "draw rng r = Some v" by blast
  have r': "r' = r\<lparr>nr_taken := insert v (nr_taken r), nr_by_pubkey := bm_insert k v (nr_by_pubkey r)\<rparr>" "res = Some (v, True)"
    using run k v by (simp_all add: assign_def)
  have "v \<notin> nr_taken r" "proper_name v" using draw_Some [OF v] inv by (auto simp: registry_inv_def)
  then have "registry_inv r'" using inv unfolding registry_inv_def r' by (auto split: if_splits)
  then show ?thesis using k by (auto simp: r' table_below_def)
qed

lemma table_below_trans: "table_below a b \<Longrightarrow> table_below b c \<Longrightarrow> table_below a c"
  by (simp add: table_below_def)

lemma assign_each_inv:
  assumes "registry_inv r" "assign_each rng n ks r = (resolved, fresh, r')"
  shows "registry_inv r' \<and> table_below (nr_by_pubkey r) (nr_by_pubkey r') \<and> set fresh \<subseteq> set resolved
    \<and> (\<forall>(k, v) \<in> set resolved. bm_get (nr_by_pubkey r') k = Some v)"
  using assms
proof (induction ks arbitrary: n r resolved fresh r')
  case Nil
  then show ?case by (auto simp: table_below_def)
next
  case (Cons k ks)
  obtain res r1 where one: "assign (rng n) k r = (res, r1)" by force
  note a = assign_inv [OF Cons.prems(1) one]
  obtain resolved' fresh' r2 where rest: "assign_each rng (Suc n) ks r1 = (resolved', fresh', r2)" by (metis prod_cases3)
  have ih: "registry_inv r2 \<and> table_below (nr_by_pubkey r1) (nr_by_pubkey r2) \<and> set fresh' \<subseteq> set resolved'
    \<and> (\<forall>(k, v) \<in> set resolved'. bm_get (nr_by_pubkey r2) k = Some v)" using Cons.IH [OF _ rest] a by blast
  then have below: "table_below (nr_by_pubkey r) (nr_by_pubkey r2)" using a table_below_trans by blast
  show ?case
  proof (cases res)
    case None
    then show ?thesis using Cons.prems(2) one rest ih below by simp
  next
    case (Some x)
    obtain v new where x: "x = (v, new)" by force
    have "bm_get (nr_by_pubkey r2) k = Some v" using a ih Some x by (auto simp: table_below_def)
    then show ?thesis using Cons.prems(2) one rest ih below Some x by auto
  qed
qed

lemma save_below:
  assumes "bm_wf table" "table_below table m" "\<forall>(k, v) \<in> set entries. bm_get m k = Some v"
  shows "bm_wf (save_agent_name_batch entries table) \<and> table_below (save_agent_name_batch entries table) m
    \<and> table_below table (save_agent_name_batch entries table)"
  using assms
proof (induction entries arbitrary: table)
  case Nil
  then show ?case by (simp add: save_agent_name_batch_def table_below_def)
next
  case (Cons e entries)
  obtain k v where e: "e = (k, v)" by force
  have "table_below (bm_insert k v table) m" "table_below table (bm_insert k v table)"
    using Cons.prems by (auto simp: e table_below_def)
  then show ?case using Cons.IH [of "bm_insert k v table"] Cons.prems table_below_trans
    by (auto simp: e save_agent_name_batch_def)
qed

text \<open>What a restart reads back is the table.\<close>

lemma restored_table:
  assumes wf: "bm_wf table"
  shows "fold (\<lambda>(k, v). registry_restore k v) table (registry_new cs) = \<lparr>nr_by_pubkey = table, nr_taken = snd ` set table, nr_candidates = cs\<rparr>"
proof -
  have run: "fold (\<lambda>(k, v). registry_restore k v) t r
      = r\<lparr>nr_by_pubkey := fold (\<lambda>x. bm_insert (fst x) (snd x)) t (nr_by_pubkey r), nr_taken := snd ` set t \<union> nr_taken r\<rparr>" for t r
    by (induction t arbitrary: r) (auto simp: registry_restore_def)
  have "fold (\<lambda>x. bm_insert (fst x) (snd x)) table [] = table"
  proof (rule bm_ext)
    show "bm_get (fold (\<lambda>x. bm_insert (fst x) (snd x)) table []) k = bm_get table k" for k
    proof (cases "bm_get (fold (\<lambda>x. bm_insert (fst x) (snd x)) table []) k")
      case None
      then have "k \<notin> fst ` set table" using bm.get_fold_ins_None [of fst snd table "[]" k] by simp
      then have "bm_get table k = None" by (simp add: bm_get_None_iff)
      with None show ?thesis by simp
    next
      case (Some v)
      then have "(k, v) \<in> set table" using bm.get_fold_ins_Some [of fst snd table "[]" k v] by auto
      then have "bm_get table k = Some v" using wf by (rule bm_in_set_get [rotated])
      with Some show ?thesis by simp
    qed
  qed (use wf bm.wf_fold_ins [of "[]" fst snd table] in auto)
  then show ?thesis by (simp add: run registry_new_def)
qed

lemma boot_inv:
  assumes inv: "names_inv s" and boot: "boot_names (pool descriptors subjects) rng committed known (ns_table s) = Some s'"
  shows "names_inv s' \<and> table_below (ns_table s) (ns_table s')"
proof -
  let ?t = "ns_table s" and ?cs = "pool descriptors subjects"
  let ?r = "\<lparr>nr_by_pubkey = ?t, nr_taken = snd ` set ?t, nr_candidates = ?cs\<rparr>"
  have wf: "bm_wf ?t" and below: "table_below ?t (nr_by_pubkey (ns_registry s))" using inv by (auto simp: names_inv_def)
  have held: "bm_get (nr_by_pubkey (ns_registry s)) k = Some v" if "bm_get ?t k = Some v" for k v
    using below that by (simp add: table_below_def)
  have old: "registry_inv (ns_registry s)" using inv by (simp add: names_inv_def)
  have "v \<in> snd ` set ?t" if "bm_get ?t k = Some v" for k v using bm_get_in_set [OF that] by force
  then have r: "registry_inv ?r"
    using wf held old pool_proper [of _ _ descriptors subjects] unfolding registry_inv_def by (auto; blast)
  obtain backfilled fresh r' where each: "assign_each rng 0 (filter (\<lambda>k. registry_get ?r k = None) known) ?r = (backfilled, fresh, r')"
    by (metis prod_cases3)
  note a = assign_each_inv [OF r each]
  have s': "s' = \<lparr>ns_registry = r', ns_table = save_agent_name_batch backfilled ?t\<rparr>"
    using boot each by (auto simp: boot_names_def restored_table [OF wf] save_agent_name_batch_def split: if_splits)
  have "bm_wf (save_agent_name_batch backfilled ?t) \<and> table_below (save_agent_name_batch backfilled ?t) (nr_by_pubkey r')
      \<and> table_below ?t (save_agent_name_batch backfilled ?t)"
    by (rule save_below) (use wf a in auto)
  then show ?thesis using a by (simp add: s' names_inv_def)
qed

lemma ensure_inv:
  assumes inv: "names_inv s"
  shows "names_inv (snd (ensure_named rng committed ks s)) \<and> table_below (ns_table s) (ns_table (snd (ensure_named rng committed ks s)))"
proof -
  obtain resolved fresh r' where each: "assign_each rng 0 ks (ns_registry s) = (resolved, fresh, r')" by (metis prod_cases3)
  have r: "registry_inv (ns_registry s)" and wf: "bm_wf (ns_table s)" and b: "table_below (ns_table s) (nr_by_pubkey (ns_registry s))"
    using inv by (auto simp: names_inv_def)
  note a = assign_each_inv [OF r each]
  have below: "table_below (ns_table s) (nr_by_pubkey r')" using a b table_below_trans by blast
  have "bm_wf (save_agent_name_batch fresh (ns_table s)) \<and> table_below (save_agent_name_batch fresh (ns_table s)) (nr_by_pubkey r')
      \<and> table_below (ns_table s) (save_agent_name_batch fresh (ns_table s))"
    by (rule save_below [OF wf below]) (use a in auto)
  then show ?thesis using a wf below by (auto simp: ensure_named_def each names_inv_def table_below_def)
qed

interpretation naming: call_machine names_start "\<lambda>_ _. True" run_names names_inv "\<lambda>s s'. table_below (ns_table s) (ns_table s')"
proof
  show "names_inv names_start" by (simp add: names_start_def names_inv_def registry_inv_def registry_new_def table_below_def)
  have both: "names_inv (run_names c s) \<and> table_below (ns_table s) (ns_table (run_names c s))" if "names_inv s" for c s
    using ensure_inv [OF that] boot_inv [OF that] that by (cases c) (auto simp: table_below_def split: option.split)
  then show "names_inv (run_names c s)" "table_below (ns_table s) (ns_table (run_names c s))" if "names_inv s" for c s
    using that by auto
qed (auto simp: table_below_def)

text \<open>
  C37: Agent names are proper and unique.  Over any run of requests and restarts, with failed
  writes and changed word lists, every name an agent has is two non-empty words, each
  capitalised, joined, of at most fifteen characters, and no other agent has the same name.
\<close>

theorem agent_names_proper_and_unique:
  assumes "names_reachable s" "registry_get (ns_registry s) k = Some v"
  shows "(\<exists>d w. d \<noteq> [] \<and> w \<noteq> [] \<and> v = render d w) \<and> length v \<le> MAX_NAME_LEN \<and> {k'. registry_get (ns_registry s) k' = Some v} = {k}"
proof -
  have "registry_inv (ns_registry s)"
    using naming.reached_inv assms(1) unfolding names_reachable_def names_inv_def by blast
  then show ?thesis using assms(2) unfolding registry_inv_def registry_get_def proper_name_def by blast
qed

text \<open>
  A name that was written is permanent: whatever requests and restarts follow, the agent
  keeps it, in the table and in memory.
\<close>

theorem saved_name_permanent:
  assumes "names_reachable s" "bm_get (ns_table s) k = Some v" "reaches (\<lambda>_ _. True) run_names s s'"
  shows "bm_get (ns_table s') k = Some v \<and> registry_get (ns_registry s') k = Some v"
proof -
  have inv: "names_inv s" using naming.reached_inv assms(1) unfolding names_reachable_def by blast
  have "table_below (ns_table s) (ns_table s')" "names_inv s'"
    using naming.reaches_rel [OF assms(3) inv] naming.reaches_inv [OF assms(3) inv] by auto
  then show ?thesis using assms(2) by (simp add: names_inv_def table_below_def registry_get_def)
qed

text \<open>
  Assigning a name.  An agent that has a name keeps it; one that has none gets a name of the
  pool nobody holds, and goes without exactly when no name of the pool is free, whatever random
  numbers are drawn; nobody else's name changes.
\<close>

theorem assign_spec:
  "case assign rng k r of (res, r') \<Rightarrow>
     (case registry_get r k of
        Some v \<Rightarrow> res = Some (v, False) \<and> r' = r
      | None \<Rightarrow>
          (case res of
             None \<Rightarrow> r' = r \<and> list_all (\<lambda>(d, s). render d s \<in> nr_taken r) (nr_candidates r)
           | Some (v, new) \<Rightarrow> new \<and> v \<notin> nr_taken r \<and> list_ex (\<lambda>(d, s). v = render d s) (nr_candidates r)
               \<and> registry_get r' k = Some v \<and> nr_taken r' = insert v (nr_taken r)
               \<and> bm_remove k (nr_by_pubkey r') = bm_remove k (nr_by_pubkey r)))"
proof (cases "registry_get r k")
  case None
  note k = None
  show ?thesis
  proof (cases "draw rng r")
    case None
    then show ?thesis using k draw_None [of rng r] by (auto simp: assign_def registry_get_def list_all_iff)
  next
    case (Some v)
    have "bm_remove k (bm_insert k v m) = bm_remove k m" for m :: name_table
      by (induction k v m rule: bm_insert.induct) (auto simp: bm_remove_def)
    then show ?thesis using k Some draw_Some [OF Some] by (auto simp: assign_def registry_get_def list_ex_iff)
  qed
qed (simp add: assign_def registry_get_def)

end
