(* ===== verification/Hub_Reconcile.thy ===== *)
theory Hub_Reconcile
  imports Hub_Journal
begin

text \<open>
  The cross-check of a board just restored (\<open>hub/src/reconcile.rs\<close>): deposits that say they
  funded something nothing refers to, locks with no open order behind them, submitted tasks
  nobody waits for.  A finding names its kind and the record it is about; how the record is
  described in the log is left out.
\<close>

datatype disagreement = OrphanedConsumedDeposit | LockedBalanceWithNoOpenOrder | SubmittedTaskWithNoPayoutAttempt

datatype disagreeing_record = DepositRecord uuid | AccountRecord public_key | TaskRecord uuid

record finding =
  fd_kind :: disagreement
  fd_detail :: disagreeing_record

definition disagreement_label :: "disagreement \<Rightarrow> string" where
  "disagreement_label k = (case k of
     OrphanedConsumedDeposit \<Rightarrow> ''orphaned_consumed_deposit''
   | LockedBalanceWithNoOpenOrder \<Rightarrow> ''locked_balance_with_no_open_order''
   | SubmittedTaskWithNoPayoutAttempt \<Rightarrow> ''submitted_task_with_no_payout_attempt'')"

definition deposit_claimed :: "task_board \<Rightarrow> pending_deposit \<Rightarrow> bool" where
  "deposit_claimed b d = (case pd_purpose d of
     DisputeBond i _ \<Rightarrow>
       (case get_task b i of
          None \<Rightarrow> False
        | Some t \<Rightarrow> (case tk_kind t of
              Disputable k \<Rightarrow> (case ds_dispute k of Some dp \<Rightarrow> dp_bond_escrow_id dp = pd_id d | None \<Rightarrow> False)
            | _ \<Rightarrow> False))
   | FundExchangeAccount \<Rightarrow> list_ex (\<lambda>(k, _). k = pd_depositor d) (bd_exchange_accounts b)
   | _ \<Rightarrow> list_ex (\<lambda>t. tk_escrow_id t = Some (pd_id d)) (bm_values (bd_tasks b)))"

definition check_orphaned_consumed_deposits :: "task_board \<Rightarrow> finding list" where
  "check_orphaned_consumed_deposits b =
     map (\<lambda>d. \<lparr>fd_kind = OrphanedConsumedDeposit, fd_detail = DepositRecord (pd_id d)\<rparr>)
       (filter (\<lambda>d. pd_status d = Consumed \<and> \<not> deposit_claimed b d) (bm_values (bd_pending_deposits b)))"

definition has_open_order :: "task_board \<Rightarrow> public_key \<Rightarrow> bool" where
  "has_open_order b k = list_ex (\<lambda>o'. or_owner o' = k \<and> or_status o' = OOpen) (bm_values (bd_orders b))"

definition check_locked_balances_without_open_orders :: "task_board \<Rightarrow> finding list" where
  "check_locked_balances_without_open_orders b =
     map (\<lambda>(k, a). \<lparr>fd_kind = LockedBalanceWithNoOpenOrder, fd_detail = AccountRecord k\<rparr>)
       (filter (\<lambda>(k, a). \<not> (ex_locked_base a = 0 \<and> ex_locked_compute a = 0) \<and> \<not> has_open_order b k) (bd_exchange_accounts b))"

definition check_submitted_tasks_without_payout_attempts :: "task_board \<Rightarrow> finding list" where
  "check_submitted_tasks_without_payout_attempts b =
     map (\<lambda>t. \<lparr>fd_kind = SubmittedTaskWithNoPayoutAttempt, fd_detail = TaskRecord (tk_id t)\<rparr>)
       (filter (\<lambda>t. tk_status t = Submitted \<and> \<not> list_ex (\<lambda>a. pa_task_id a = tk_id t) (outstanding_payout_attempts b))
          (bm_values (bd_tasks b)))"

definition reconcile :: "task_board \<Rightarrow> finding list" where
  "reconcile b = check_orphaned_consumed_deposits b @ check_locked_balances_without_open_orders b
     @ check_submitted_tasks_without_payout_attempts b"

subsection \<open>What the hub does leaves nothing to report\<close>

text \<open>Deposits that fund a task, and the operations that consume none.\<close>

definition consumed_for_task :: "task_board \<Rightarrow> uuid \<Rightarrow> bool" where
  "consumed_for_task b i = (case bm_get (bd_pending_deposits b) i of None \<Rightarrow> False | Some d \<Rightarrow>
     pd_status d = Consumed \<and> (case pd_purpose d of DisputeBond _ _ \<Rightarrow> False | FundExchangeAccount \<Rightarrow> False | _ \<Rightarrow> True))"

definition funds_some_task :: "task_board \<Rightarrow> uuid \<Rightarrow> bool" where
  "funds_some_task b i \<longleftrightarrow> (\<exists>j t. bm_get (bd_tasks b) j = Some t \<and> tk_escrow_id t = Some i)"

definition escrows_claimed :: "task_board \<Rightarrow> bool" where
  "escrows_claimed b \<longleftrightarrow> bm_wf (bd_pending_deposits b) \<and> (\<forall>i. consumed_for_task b i \<longrightarrow> funds_some_task b i)"

definition consumes_none :: "task_board \<Rightarrow> task_board \<Rightarrow> bool" where
  "consumes_none b b' \<longleftrightarrow> (bm_wf (bd_pending_deposits b) \<longrightarrow> bm_wf (bd_pending_deposits b'))
     \<and> (\<forall>i. consumed_for_task b' i \<longrightarrow> consumed_for_task b i)"

lemma consumes_none_same: "bd_pending_deposits b' = bd_pending_deposits b \<Longrightarrow> consumes_none b b'"
  by (simp add: consumes_none_def consumed_for_task_def)

lemma consumes_none_insert:
  assumes "bd_pending_deposits b' = bm_insert i d (bd_pending_deposits b)"
    and "pd_status d = Consumed \<Longrightarrow> (case pd_purpose d of DisputeBond _ _ \<Rightarrow> True | FundExchangeAccount \<Rightarrow> True | _ \<Rightarrow> False)"
  shows "consumes_none b b'"
  using assms by (auto simp: consumes_none_def consumed_for_task_def split: if_splits escrow_purpose.splits)

lemma board_consumes_none:
  assumes "\<And>fresh clock i observed now. c \<noteq> ConfirmEscrow fresh clock i observed now" "\<And>i. c \<noteq> MarkEscrowRefunded i"
  shows "consumes_none b (run_board c b)"
proof (cases c)
  case (ReserveEscrow fresh now derive depositor required purpose expires)
  then show ?thesis by (auto simp: reserve_escrow_def Let_def set_deposit_def intro!: consumes_none_insert)
next
  case (ConfirmDisputeBond i observed now)
  then show ?thesis
    by (auto simp: confirm_dispute_bond_def with_check_snd Let_def set_deposit_def
        intro: consumes_none_insert consumes_none_same split: option.split escrow_purpose.split task_kind.split outcome.split)
qed (use assms in \<open>auto simp: restore_task_def create_task_def create_consensus_task_def create_disputable_task_def Let_def
    intro!: consumes_none_same\<close>)

lemma market_consumes_none: "consumes_none b (run_exchange c b)"
proof -
  have same: "consumes_none b b'" if "rest b' = rest b" for b' using that by (intro consumes_none_same) (simp add: rest_def)
  show ?thesis
  proof (cases c)
  case (ConfirmExchangeDeposit i observed fee now)
  have cb: "bd_pending_deposits (snd (credit_base k a x)) = bd_pending_deposits x" for k a x
    using update_account_rest [of k "account_add_base a" x] by (simp add: rest_def credit_base_def)
  show ?thesis unfolding ConfirmExchangeDeposit
    by (auto simp: confirm_exchange_deposit_def Let_def cb set_deposit_def intro: consumes_none_insert consumes_none_same
        split: option.split)
qed (use same in \<open>simp_all add: credit_base_def credit_compute_def credit_back_withdrawal_def debit_for_withdrawal_def Let_def\<close>)
qed

lemma consumes_none_refl [simp]: "consumes_none b b"
  by (simp add: consumes_none_def)

lemma consumes_none_put [simp]: "consumes_none b (put_payment p b') = consumes_none b b'"
  by (simp add: consumes_none_def consumed_for_task_def)

lemma effects_consume_none:
  assumes "confirmed_effects p b = Ok b'"
  shows "consumes_none b b' \<and> bd_tasks b' = bd_tasks b"
proof (cases "py_purpose p")
  case (PayEscrow i forfeited previous)
  from assms PayEscrow obtain d where "bd_pending_deposits b' = bm_insert (pd_id d) (d\<lparr>pd_status := Refunded\<rparr>) (bd_pending_deposits b)"
    "bd_tasks b' = bd_tasks b"
    by (auto simp: confirmed_effects_def restore_pending_deposit_def set_deposit_def restore_reputation_def Let_def
        split: option.splits if_splits)
  then show ?thesis by (auto intro: consumes_none_insert)
qed (use assms in \<open>simp_all add: confirmed_effects_def\<close>)

lemma reservation_consumes_none:
  assumes "reservation p b = Ok b'"
  shows "consumes_none b b' \<and> bd_tasks b' = bd_tasks b"
proof (cases "py_purpose p")
  case (PayEscrow i forfeited previous)
  from assms PayEscrow obtain d where "bd_pending_deposits b' = bm_insert (pd_id d) (d\<lparr>pd_status := Disbursing\<rparr>) (bd_pending_deposits b)"
    "bd_tasks b' = bd_tasks b"
    by (auto simp: reservation_def restore_pending_deposit_def set_deposit_def split: option.splits if_splits)
  then show ?thesis by (auto intro: consumes_none_insert)
next
  case PayFaucet
  then show ?thesis using assms consumes_none_same [of b' b] by (auto simp: reservation_def restore_faucet_grant_def split: if_splits)
next
  case (PayWithdrawal debited)
  then show ?thesis using assms consumes_none_same [of b' b]
    by (auto simp: reservation_def restore_exchange_account_def Let_def split: if_splits)
qed

lemma confirm_consumes_none: "consumes_none b (snd (confirm ok p b)) \<and> bd_tasks (snd (confirm ok p b)) = bd_tasks b"
  using effects_consume_none by (auto simp: confirm_def with_check_def Let_def split: option.split outcome.split)

lemma prepare_consumes_none: "consumes_none b (snd (prepare height ok p b)) \<and> bd_tasks (snd (prepare height ok p b)) = bd_tasks b"
  using reservation_consumes_none by (auto simp: prepare_def with_check_def Let_def split: outcome.split)

lemma consumes_none_trans: "consumes_none b b' \<Longrightarrow> consumes_none b' b'' \<Longrightarrow> consumes_none b b''"
  by (simp add: consumes_none_def)

lemma send_consumes_none: "consumes_none b (snd (send ok p b)) \<and> bd_tasks (snd (send ok p b)) = bd_tasks b"
  by (simp add: send_def confirm_consumes_none split: option.split)

lemma resolve_consumes_none:
  "consumes_none b (snd (snd (resolve P v p now b))) \<and> bd_tasks (snd (snd (resolve P v p now b))) = bd_tasks b" (is "?keeps (resolve P v p now b)")
proof -
  have "consumes_none b (snd (send ok q (put_payment q b)))" "bd_tasks (snd (send ok q (put_payment q b))) = bd_tasks b" for ok q
    using send_consumes_none [of "put_payment q b" ok q] consumes_none_trans [of b "put_payment q b"] by simp_all
  then have "?keeps (resend ok p now b)" for ok by (auto simp: resend_def Let_def split: option.split)
  moreover have "?keeps (no_sends (save_progress ok p q b))" for ok q
    by (auto simp: save_progress_def no_sends_def Let_def split: option.split)
  moreover have "?keeps (no_sends (confirm ok p b))" for ok by (simp add: no_sends_def confirm_consumes_none)
  ultimately show ?thesis
    by (auto simp: resolve_def split: outcome.split evidence.split prod.split)
qed

text \<open>Tasks keep the escrow that funds them, so whatever consumes no deposit keeps every claim.\<close>

lemma claimed_step:
  assumes "escrows_claimed b" "consumes_none b b'" "\<And>i. funds_some_task b i \<Longrightarrow> funds_some_task b' i"
  shows "escrows_claimed b'"
  using assms by (auto simp: escrows_claimed_def consumes_none_def)

lemma evolves_funds: "board_evolves b b' \<Longrightarrow> funds_some_task b i \<Longrightarrow> funds_some_task b' i"
  unfolding board_evolves_def funds_some_task_def task_evolves_def by metis

lemma confirm_escrow_claimed:
  assumes inv: "escrows_claimed b" and wf: "bm_wf (bd_tasks b)" and new: "get_task b fresh = None"
  shows "escrows_claimed (snd (confirm_escrow fresh clock i observed now b))"
proof -
  obtain res b' where run: "confirm_escrow fresh clock i observed now b = (res, b')" by force
  from wf new [unfolded get_task_def] run show ?thesis
  proof (cases rule: confirm_escrow_cases)
    case (funded d t)
    have new': "bm_get (bd_tasks b) fresh = None" using new by (simp add: get_task_def)
    have "funds_some_task b' j" if "consumed_for_task b' j" for j
    proof (cases "j = i")
      case True
      then show ?thesis using funded(7) unfolding funds_some_task_def funded(10) by (auto simp: set_task_def)
    next
      case False
      then have "funds_some_task b j" using that inv by (simp add: funded(10) escrows_claimed_def consumed_for_task_def set_task_def set_deposit_def)
      then obtain l u where u: "bm_get (bd_tasks b) l = Some u" "tk_escrow_id u = Some j" by (auto simp: funds_some_task_def)
      then have "bm_get (bd_tasks b') l = Some u" using new' by (auto simp: funded(10) set_task_def set_deposit_def)
      then show ?thesis using u(2) unfolding funds_some_task_def by blast
    qed
    then show ?thesis using inv run by (simp add: escrows_claimed_def funded(10) set_task_def set_deposit_def)
  qed (use inv run in simp)
qed

lemma run_hub_claimed:
  assumes h: "hub_inv b" and inv: "escrows_claimed b" and al: "hub_allowed c b"
  shows "escrows_claimed (run_hub P c b)"
proof (cases c)
  case (OnTasks d)
  have bi: "board_inv b" using h by (simp add: hub_inv_def)
  show ?thesis
  proof (cases "\<exists>fresh clock i observed now. d = ConfirmEscrow fresh clock i observed now")
    case True
    then show ?thesis using confirm_escrow_claimed [OF inv] bi al OnTasks by (auto simp: board_inv_def tasks_ok_def)
  next
    case False
    have "consumes_none b (run_board d b)" by (rule board_consumes_none) (use False al OnTasks in auto)
    moreover have "board_evolves b (run_board d b)" using board.rel_run [OF bi] al OnTasks by simp
    ultimately show ?thesis using claimed_step [OF inv] evolves_funds OnTasks by auto
  qed
next
  case (OnMarket d)
  then show ?thesis using claimed_step [OF inv market_consumes_none [of b d]] run_exchange_frame [of d b]
    by (simp add: funds_some_task_def)
next
  case (PreparePayment fresh created submitted purpose source recipient amount tx height ok)
  let ?p = "payment_new P fresh created submitted purpose source recipient amount tx"
  show ?thesis unfolding PreparePayment run_hub.simps
    by (rule claimed_step [OF inv]) (use prepare_consumes_none [of b height ok ?p] in \<open>simp_all add: funds_some_task_def\<close>)
next
  case (SendPayment ok p)
  show ?thesis unfolding SendPayment run_hub.simps
    by (rule claimed_step [OF inv]) (use send_consumes_none [of b ok p] in \<open>simp_all add: funds_some_task_def\<close>)
next
  case (ResolvePayment v p now)
  show ?thesis unfolding ResolvePayment run_hub.simps
    by (rule claimed_step [OF inv]) (use resolve_consumes_none [of b P v p now] in \<open>simp_all add: funds_some_task_def\<close>)
qed

lemma claimed_new: "escrows_claimed task_board_new"
  by (simp add: escrows_claimed_def consumed_for_task_def task_board_new_def)

interpretation reconciled: call_machine task_board_new hub_allowed "run_hub P" "\<lambda>b. hub_inv b \<and> escrows_claimed b" "\<lambda>_ _. True" for P
  by unfold_locales (simp_all add: hub_inv_new claimed_new run_hub_inv run_hub_claimed)

lemma no_order_no_lock:
  assumes inv: "exchange_inv [] b" and none: "\<not> has_open_order b k" and a: "(k, a) \<in> set (bd_exchange_accounts b)"
  shows "ex_locked_base a = 0 \<and> ex_locked_compute a = 0"
proof -
  have wf: "bm_wf (bd_exchange_accounts b)" "bm_wf (bd_orders b)" using inv by (auto simp: exchange_inv_def)
  have "exchange_account_of b k = a" using bm_in_set_get [OF wf(1) a] by (simp add: exchange_account_of_def)
  moreover have "open_lock sd k o' = 0" if "o' \<in> set (bm_values (bd_orders b))" for sd o'
    using none that by (auto simp: has_open_order_def list_ex_iff open_lock_def)
  then have "bm_total (open_lock sd k) (bd_orders b) = 0" for sd
    by (force simp: bm_total_def bm_values_def sum_list_eq_0_iff)
  moreover have "account_ok [] b k" using inv by (simp add: exchange_inv_def)
  ultimately show ?thesis by (simp add: account_ok_def locked_total_def Let_def unat_eq_zero)
qed

text \<open>
  No false alarm within one run.  On a board the hub reaches without a restart, the cross-check reports no locked balance, and
  no deposit that funds a task: a finding of either kind is about records the hub itself did not
  leave behind.  Boards rebuilt from the store are treated in \<open>Hub_Request_Rows\<close>.
\<close>

theorem reconcile_no_false_alarm:
  assumes "hub_reachable P b"
  shows "check_locked_balances_without_open_orders b = []
    \<and> list_all (\<lambda>f. case fd_detail f of
        DepositRecord i \<Rightarrow> (case get_pending_deposit b i of None \<Rightarrow> False | Some d \<Rightarrow>
          (case pd_purpose d of DisputeBond _ _ \<Rightarrow> True | FundExchangeAccount \<Rightarrow> True | _ \<Rightarrow> False))
      | _ \<Rightarrow> False) (check_orphaned_consumed_deposits b)"
proof
  have h: "hub_inv b" and c: "escrows_claimed b" using reconciled.reached_inv assms unfolding hub_reachable_def by blast+
  have e: "exchange_inv [] b" and j: "journal_inv b" using h by (simp_all add: hub_inv_def)
  show "check_locked_balances_without_open_orders b = []"
    using no_order_no_lock [OF e] by (auto simp: check_locked_balances_without_open_orders_def filter_empty_conv)
  show "list_all (\<lambda>f. case fd_detail f of
        DepositRecord i \<Rightarrow> (case get_pending_deposit b i of None \<Rightarrow> False | Some d \<Rightarrow>
          (case pd_purpose d of DisputeBond _ _ \<Rightarrow> True | FundExchangeAccount \<Rightarrow> True | _ \<Rightarrow> False))
      | _ \<Rightarrow> False) (check_orphaned_consumed_deposits b)"
    unfolding list_all_iff
  proof
    fix f assume "f \<in> set (check_orphaned_consumed_deposits b)"
    then obtain d where d: "d \<in> set (bm_values (bd_pending_deposits b))" "pd_status d = Consumed" "\<not> deposit_claimed b d"
      and f: "fd_detail f = DepositRecord (pd_id d)" by (auto simp: check_orphaned_consumed_deposits_def)
    have wf: "bm_wf (bd_pending_deposits b)" "bm_wf (bd_tasks b)"
      using c h by (simp_all add: escrows_claimed_def hub_inv_def board_inv_def tasks_ok_def)
    from d(1) obtain i where "bm_get (bd_pending_deposits b) i = Some d" using bm_values_iff [OF wf(1)] by blast
    then have g: "bm_get (bd_pending_deposits b) (pd_id d) = Some d" using j by (auto simp: journal_inv_def deposits_keyed_def)
    have "case pd_purpose d of DisputeBond _ _ \<Rightarrow> True | FundExchangeAccount \<Rightarrow> True | _ \<Rightarrow> False"
    proof (rule ccontr)
      assume no: "\<not> ?thesis"
      then have "consumed_for_task b (pd_id d)" using g d(2) by (cases "pd_purpose d") (simp_all add: consumed_for_task_def)
      then obtain l t where "bm_get (bd_tasks b) l = Some t" "tk_escrow_id t = Some (pd_id d)"
        using c unfolding escrows_claimed_def funds_some_task_def by blast
      then have "list_ex (\<lambda>t. tk_escrow_id t = Some (pd_id d)) (bm_values (bd_tasks b))"
        using bm_values_iff [OF wf(2)] by (auto simp: list_ex_iff)
      then show False using d(3) no by (cases "pd_purpose d") (simp_all add: deposit_claimed_def)
    qed
    then show "case fd_detail f of
        DepositRecord i \<Rightarrow> (case get_pending_deposit b i of None \<Rightarrow> False | Some d \<Rightarrow>
          (case pd_purpose d of DisputeBond _ _ \<Rightarrow> True | FundExchangeAccount \<Rightarrow> True | _ \<Rightarrow> False))
      | _ \<Rightarrow> False" using f g by (simp add: get_pending_deposit_def)
  qed
qed

end
