(* ===== verification/Hub_Boot_Witnesses.thy ===== *)
theory Hub_Boot_Witnesses
  imports Hub_Names Hub_Reconcile Hub_Task_Witnesses Chain_Witnesses
begin

text \<open>
  A hub that starts: the agents it knows are named, and the board it restored is cross-checked.
\<close>

subsection \<open>Names\<close>

lemma sample_pool: "pool [''swift''] [''otter''] = [(''swift'', ''otter'')]"
  by (simp add: pool_def words_def trim_def is_whitespace_def MAX_NAME_LEN_def char_of_def of_char_def)

definition named :: names_state where
  "named = run_names (Reboot [''swift''] [''otter''] (\<lambda>_ _. 0) True [ann]) names_start"

lemma swift_otter: "render ''swift'' ''otter'' = ''SwiftOtter''"
  by (simp add: render_def to_uppercase_def char_of_def of_char_def less_eq_char_def bit_0)

lemma named_state:
  "ns_table named = [(ann, ''SwiftOtter'')]" "registry_get (ns_registry named) ann = Some ''SwiftOtter''"
proof -
  have free: "first_free {} (probes rng [(''swift'', ''otter'')]) = Some ''SwiftOtter''" for rng
    by (simp add: probes_def gen_range_def RANDOM_PROBES_def upt_rec swift_otter)
  show "ns_table named = [(ann, ''SwiftOtter'')]" "registry_get (ns_registry named) ann = Some ''SwiftOtter''"
    by (simp_all add: named_def names_start_def boot_names_def sample_pool registry_new_def registry_get_def assign_def draw_def free
        save_agent_name_batch_def Let_def bm_get_def)
qed

lemma named_reachable: "names_reachable named"
  unfolding names_reachable_def named_def by (intro reaches_call reaches_refl) simp

theorem agent_names_proper_and_unique_witness:
  "length ''SwiftOtter'' \<le> MAX_NAME_LEN \<and> {k'. registry_get (ns_registry named) k' = Some ''SwiftOtter''} = {ann}"
  using agent_names_proper_and_unique [OF named_reachable named_state(2)] by blast

text \<open>A request for another agent, whose write fails, and a restart with other words.\<close>

theorem saved_name_permanent_witness:
  "registry_get (ns_registry (fold run_names [EnsureNamed (\<lambda>_ _. 0) False [bob], Reboot [] [''cat''] (\<lambda>_ _. 0) True [bob]] named)) ann
     = Some ''SwiftOtter''"
proof -
  let ?cs = "[EnsureNamed (\<lambda>_ _. 0) False [bob], Reboot [] [''cat''] (\<lambda>_ _. 0) True [bob]]"
  have "reaches (\<lambda>_ _. True) run_names named (fold run_names ?cs named)" by (rule reaches_fold) (simp del: run_names.simps)
  then show ?thesis using saved_name_permanent [OF named_reachable, of ann "''SwiftOtter''"] named_state(1) by (simp add: bm_get_def)
qed

subsection \<open>Cross-checking\<close>

definition jobs_run :: "hub_call list" where
  "jobs_run = map OnTasks job_calls"

lemma jobs_by_hub: "fold (run_hub sample) jobs_run task_board_new = jobs"
  by (simp add: jobs_run_def jobs_def job_calls_def)

lemma jobs_hub_reachable: "hub_reachable sample jobs"
  unfolding hub_reachable_def jobs_by_hub [symmetric]
  by (rule reaches_fold) (simp add: jobs_run_def job_calls_def board_eval lent_intent_def)

theorem reconcile_no_false_alarm_witness:
  "map_option pd_status (get_pending_deposit jobs 7) = Some Consumed \<and> reconcile jobs = []"
proof -
  have d: "bd_pending_deposits jobs = [(7, \<lparr>pd_id = 7, pd_depositor = ann, pd_deposit_pubkey = cid, pd_deposit_private_key = None,
      pd_required_amount = 60, pd_purpose = FundHashMatchTask lent_intent, pd_status = Consumed, pd_created_at = 1, pd_expires_at = 500\<rparr>)]"
    by (simp add: jobs_def job_calls_def board_eval lent_intent_def)
  have "check_submitted_tasks_without_payout_attempts jobs = []"
    by (simp add: check_submitted_tasks_without_payout_attempts_def jobs_tasks bm_values_def solved_def contest_def funded_task_def new_task_def)
  moreover have "check_orphaned_consumed_deposits jobs = []" "check_locked_balances_without_open_orders jobs = []"
    using reconcile_no_false_alarm [OF jobs_hub_reachable]
    by (simp_all add: check_orphaned_consumed_deposits_def d bm_values_def get_pending_deposit_def bm_get_def split: if_splits)
  ultimately show ?thesis by (simp add: reconcile_def d get_pending_deposit_def bm_get_def)
qed

end
