(* ===== verification/Hub_Escrow.thy ===== *)
theory Hub_Escrow
  imports Hub_Settlement Hub_Wallet
begin

text \<open>
  Paying out what an escrow address holds (\<open>hub/src/handlers.rs\<close>: \<open>disburse_escrow\<close> and its
  callers): refunds to the depositor, the bond of a resolved dispute, the sweep of an exchange
  deposit into custody.  What is paid is reserved in the payments journal first.

  \<open>escrow_io\<close> holds what comes from outside: whether another settlement of this escrow holds
  the guard, the node's replies, ids, clock readings, the height the metrics report, and whether
  the two writes commit.  \<open>escrow_private\<close> derives a deposit's key.
\<close>

record escrow_io =
  ei_busy :: bool
  ei_balance :: "utxo_list option"
  ei_utxos :: "utxo_list option"
  ei_output_ids :: "nat \<Rightarrow> uuid"
  ei_payment_id :: uuid
  ei_created :: instant
  ei_submitted :: instant
  ei_height :: u64
  ei_reserved :: bool
  ei_confirmed :: bool

datatype escrow_credit = NoCredit | ForfeitedBond

text \<open>\<open>NodeClient::balance\<close>: what is unspent and not spoken for in the mempool.\<close>

definition node_balance :: "utxo_list \<Rightarrow> (build_error, u64) outcome" where
  "node_balance utxos = sum_u64 (map (\<lambda>(_, o'). txo_value o') (filter (\<lambda>(marked, _). \<not> marked) utxos))"

definition escrow_transaction ::
  "prims \<Rightarrow> (pending_deposit \<Rightarrow> private_key) \<Rightarrow> escrow_io \<Rightarrow> pending_deposit \<Rightarrow> public_key \<Rightarrow> u64 \<Rightarrow> task_board
     \<Rightarrow> transaction option option" where
  "escrow_transaction P escrow_private io deposit recipient amount b =
     (if amount > 0
      then (case build_payment_from_fresh P (ei_output_ids io) (ei_utxos io) b (escrow_private deposit) (pd_deposit_pubkey deposit)
                   [(recipient, amount)] recipient of
              Ok tx \<Rightarrow> Some (Some tx)
            | _ \<Rightarrow> None)
      else Some None)"

text \<open>What follows once the balance is known: build, prepare, send.\<close>

definition escrow_payment ::
  "prims \<Rightarrow> escrow_io \<Rightarrow> pending_deposit \<Rightarrow> public_key \<Rightarrow> escrow_credit \<Rightarrow> u64 \<Rightarrow> transaction option \<Rightarrow> payment" where
  "escrow_payment P io deposit recipient credit amount tx =
     payment_new P (ei_payment_id io) (ei_created io) (ei_submitted io)
       (PayEscrow (pd_id deposit) (credit = ForfeitedBond) (pd_status deposit)) (pd_deposit_pubkey deposit) recipient amount tx"

definition pay_escrow_balance ::
  "prims \<Rightarrow> (pending_deposit \<Rightarrow> private_key) \<Rightarrow> escrow_io \<Rightarrow> pending_deposit \<Rightarrow> public_key \<Rightarrow> escrow_credit \<Rightarrow> u64 \<Rightarrow> task_board
     \<Rightarrow> u64 option \<times> transaction list \<times> task_board" where
  "pay_escrow_balance P escrow_private io deposit recipient credit balance b =
     (let amount = saturating_sub balance HUB_TRANSACTION_FEE
      in case escrow_transaction P escrow_private io deposit recipient amount b of
           None \<Rightarrow> (None, [], b)
         | Some tx \<Rightarrow>
             (case prepare (ei_height io) (ei_reserved io) (escrow_payment P io deposit recipient credit amount tx) b of
                (Ok payment, b1) \<Rightarrow>
                  (case send (ei_confirmed io) payment b1 of
                     (sent, b2) \<Rightarrow>
                       (if map_option py_status (bm_get (bd_payments b2) (py_id payment)) = Some PayConfirmed
                        then Some (py_amount payment) else None, sent, b2))
              | (_, b1) \<Rightarrow> (None, [], b1)))"

definition disburse_escrow ::
  "prims \<Rightarrow> (pending_deposit \<Rightarrow> private_key) \<Rightarrow> escrow_io \<Rightarrow> pending_deposit \<Rightarrow> public_key \<Rightarrow> escrow_credit \<Rightarrow> task_board
     \<Rightarrow> u64 option \<times> transaction list \<times> task_board" where
  "disburse_escrow P escrow_private io deposit recipient credit b =
     (if ei_busy io then (None, [], b)
      else case List.find (pays_escrow (pd_id deposit)) (bm_values (bd_payments b)) of
        Some p \<Rightarrow> (if py_status p = PayConfirmed then Some (py_amount p) else None, [], b)
      | None \<Rightarrow>
          (case get_pending_deposit b (pd_id deposit) of
             None \<Rightarrow> (None, [], b)
           | Some current \<Rightarrow>
               if pd_status current = Refunded then (Some 0, [], b)
               else if pd_status current \<noteq> pd_status deposit then (None, [], b)
               else (case ei_balance io of
                       None \<Rightarrow> (None, [], b)
                     | Some utxos \<Rightarrow>
                         (case node_balance utxos of
                            Ok balance \<Rightarrow> pay_escrow_balance P escrow_private io deposit recipient credit balance b
                          | _ \<Rightarrow> (None, [], b)))))"

definition refund_escrow ::
  "prims \<Rightarrow> (pending_deposit \<Rightarrow> private_key) \<Rightarrow> escrow_io \<Rightarrow> pending_deposit \<Rightarrow> task_board \<Rightarrow> transaction list \<times> task_board" where
  "refund_escrow P escrow_private io deposit b = snd (disburse_escrow P escrow_private io deposit (pd_depositor deposit) NoCredit b)"

definition refund_closed_task_escrow ::
  "prims \<Rightarrow> (pending_deposit \<Rightarrow> private_key) \<Rightarrow> escrow_io \<Rightarrow> uuid \<Rightarrow> task_board \<Rightarrow> transaction list \<times> task_board" where
  "refund_closed_task_escrow P escrow_private io i b =
     (case escrow_for_task b i of None \<Rightarrow> ([], b) | Some deposit \<Rightarrow> refund_escrow P escrow_private io deposit b)"

text \<open>The bond to settle, who wins it and whether it is forfeited; \<open>Inl\<close> is the early answer.\<close>

definition bond_settlement :: "uuid \<Rightarrow> task_board \<Rightarrow> bool + pending_deposit \<times> public_key \<times> bool" where
  "bond_settlement i b =
     (case get_task b i of
        None \<Rightarrow> Inl True
      | Some t \<Rightarrow>
          (case tk_kind t of
             Disputable k \<Rightarrow>
               (case ds_dispute k of
                  None \<Rightarrow> Inl True
                | Some d \<Rightarrow>
                    (case dp_resolution d of
                       None \<Rightarrow> Inl True
                     | Some resolution \<Rightarrow>
                         (case get_pending_deposit b (dp_bond_escrow_id d) of
                            None \<Rightarrow> Inl True
                          | Some bond \<Rightarrow>
                              if pd_status bond \<noteq> Consumed then Inl True
                              else (case resolution of
                                      ChallengerWins \<Rightarrow> Inr (bond, dp_challenger d, False)
                                    | AssigneeWins \<Rightarrow>
                                        (case tk_claimant t of None \<Rightarrow> Inl False | Some c \<Rightarrow> Inr (bond, c, True))))))
           | _ \<Rightarrow> Inl True))"

definition settle_dispute_bond ::
  "prims \<Rightarrow> (pending_deposit \<Rightarrow> private_key) \<Rightarrow> escrow_io \<Rightarrow> uuid \<Rightarrow> task_board \<Rightarrow> bool \<times> transaction list \<times> task_board" where
  "settle_dispute_bond P escrow_private io i b =
     (case bond_settlement i b of
        Inl answer \<Rightarrow> (answer, [], b)
      | Inr (bond, winner, is_forfeiture) \<Rightarrow>
          (case disburse_escrow P escrow_private io bond winner (if is_forfeiture then ForfeitedBond else NoCredit) b of
             (res, sent, b') \<Rightarrow> (res \<noteq> None, sent, b')))"

definition sweep_exchange_deposit ::
  "prims \<Rightarrow> (pending_deposit \<Rightarrow> private_key) \<Rightarrow> public_key \<Rightarrow> escrow_io \<Rightarrow> uuid \<Rightarrow> task_board \<Rightarrow> bool \<times> transaction list \<times> task_board" where
  "sweep_exchange_deposit P escrow_private custody io i b =
     (case get_pending_deposit b i of
        None \<Rightarrow> (True, [], b)
      | Some d \<Rightarrow>
          if pd_purpose d = FundExchangeAccount \<and> (pd_status d = Consumed \<or> pd_status d = Disbursing)
          then (case disburse_escrow P escrow_private io d custody NoCredit b of (res, sent, b') \<Rightarrow> (res \<noteq> None, sent, b'))
          else (True, [], b))"

subsection \<open>The journal remembers\<close>

definition payments_kept :: "task_board \<Rightarrow> task_board \<Rightarrow> bool" where
  "payments_kept b b' \<longleftrightarrow> (\<forall>i p. bm_get (bd_payments b) i = Some p \<longrightarrow>
     (\<exists>p'. bm_get (bd_payments b') i = Some p' \<and> same_record p p' \<and> (py_status p = PayConfirmed \<longrightarrow> py_status p' = PayConfirmed)))"

lemma same_record_refl [simp]: "same_record p p"
  by (simp add: same_record_iff)

lemma payments_kept_same: "bd_payments b' = bd_payments b \<Longrightarrow> payments_kept b b'"
  by (auto simp: payments_kept_def)

lemma payments_kept_trans:
  assumes "payments_kept a b" "payments_kept b c"
  shows "payments_kept a c"
  unfolding payments_kept_def
proof (intro allI impI)
  fix i p assume "bm_get (bd_payments a) i = Some p"
  then obtain q where q: "bm_get (bd_payments b) i = Some q" "same_record p q" "py_status p = PayConfirmed \<longrightarrow> py_status q = PayConfirmed"
    using assms(1) unfolding payments_kept_def by blast
  then obtain r where "bm_get (bd_payments c) i = Some r" "same_record q r" "py_status q = PayConfirmed \<longrightarrow> py_status r = PayConfirmed"
    using assms(2) unfolding payments_kept_def by blast
  then show "\<exists>p'. bm_get (bd_payments c) i = Some p' \<and> same_record p p' \<and> (py_status p = PayConfirmed \<longrightarrow> py_status p' = PayConfirmed)"
    using q same_record_trans by blast
qed

lemma payments_kept_put:
  assumes "bd_payments b' = bm_insert (py_id q) q (bd_payments b)"
    and "\<And>c. bm_get (bd_payments b) (py_id q) = Some c \<Longrightarrow> same_record c q \<and> py_status c \<noteq> PayConfirmed"
  shows "payments_kept b b'"
  using assms by (auto simp: payments_kept_def)

lemma effects_payments:
  "confirmed_effects p b = Ok b' \<Longrightarrow> bd_payments b' = bd_payments b"
  "reservation p b = Ok b' \<Longrightarrow> bd_payments b' = bd_payments b"
  by (auto simp: confirmed_effects_def reservation_def restore_pending_deposit_def set_deposit_def restore_reputation_def
      restore_faucet_grant_def restore_exchange_account_def Let_def split: option.splits if_splits payment_purpose.splits)

lemma confirm_kept:
  assumes inv: "hub_inv b"
  shows "payments_kept b (snd (confirm ok p b))"
proof (cases "bm_get (bd_payments b) (py_id p)")
  case None
  then show ?thesis by (simp add: confirm_def payments_kept_same)
next
  case (Some c)
  let ?d = "c\<lparr>py_status := PayConfirmed\<rparr>"
  have id: "py_id c = py_id p" using inv Some by (auto simp: hub_inv_def journal_inv_def payment_ok_def)
  show ?thesis
  proof (cases "\<exists>b1. py_status c \<noteq> PayConfirmed \<and> confirmed_effects ?d b = Ok b1 \<and> ok")
    case True
    then obtain b1 where b1: "py_status c \<noteq> PayConfirmed" "confirmed_effects ?d b = Ok b1" ok by blast
    have "snd (confirm ok p b) = put_payment ?d b1" using Some b1 by (simp add: confirm_def Let_def)
    then show ?thesis using effects_payments(1) [OF b1(2)] b1(1) Some id
      by (intro payments_kept_put [of _ ?d]) (auto simp: same_record_iff)
  next
    case False
    then have "snd (confirm ok p b) = b" using Some by (auto simp: confirm_def Let_def with_check_def split: outcome.split)
    then show ?thesis by (simp add: payments_kept_same)
  qed
qed

lemma prepare_kept: "bm_get (bd_payments b) (py_id p) = None \<Longrightarrow> payments_kept b (snd (prepare height ok p b))"
  using effects_payments(2)
  by (auto simp: prepare_def with_check_def Let_def intro: payments_kept_same split: outcome.split)
    (auto simp: payments_kept_def)

lemma resend_kept:
  assumes snap: "snapshot_of b p" and st: "py_status p \<noteq> PayConfirmed"
  shows "payments_kept b (snd (snd (resend ok p now b)))"
proof -
  let ?n = "resubmission now p"
  have n: "py_id ?n = py_id p" "same_record p ?n" by (simp_all add: resubmission_def same_record_iff)
  obtain c where c: "bm_get (bd_payments b) (py_id p) = Some c" "same_record c p"
    using snap by (auto simp: snapshot_of_def split: option.splits)
  have put: "payments_kept b (put_payment ?n b)" if "unmoved c p"
    by (rule payments_kept_put [of _ ?n]) (use c n that st same_record_trans in \<open>auto simp: unmoved_def\<close>)
  have "snd (send ok ?n (put_payment ?n b)) = put_payment ?n b" if "py_status ?n = Pending"
    using that by (auto simp: resubmission_def send_def split: if_splits option.split)
  then show ?thesis using c put n(1) by (auto simp: resend_def Let_def payments_kept_same)
qed

lemma progress_kept:
  assumes snap: "snapshot_of b p" and st: "py_status p \<noteq> PayConfirmed" and q: "same_record p q"
  shows "payments_kept b (snd (save_progress ok p q b))"
proof -
  have id: "py_id q = py_id p" using q by (simp add: same_record_iff)
  obtain c where c: "bm_get (bd_payments b) (py_id p) = Some c" "same_record c p"
    using snap by (auto simp: snapshot_of_def split: option.splits)
  have "payments_kept b (put_payment q b)" if "unmoved c p"
    by (rule payments_kept_put [of _ q]) (use c id that st q same_record_trans in \<open>auto simp: unmoved_def\<close>)
  then show ?thesis using c id by (auto simp: save_progress_def payments_kept_same)
qed

lemma resolve_kept:
  assumes inv: "hub_inv b" and snap: "snapshot_of b p" "py_status p \<noteq> PayConfirmed"
  shows "payments_kept b (snd (snd (resolve P v p now b)))"
proof -
  obtain ev p' where scan: "scan_for_evidence P (nv_blocks v) p = (ev, p')" by force
  have "same_record p p'" "same_record p (p'\<lparr>py_status := NeedsReview\<rparr>)" using scan_record [OF scan] by (simp_all add: same_record_iff)
  note saved = progress_kept [OF snap this(1)] progress_kept [OF snap this(2)]
  show ?thesis using scan saved confirm_kept [OF inv] resend_kept [OF snap]
    by (auto simp: resolve_def no_sends_def payments_kept_same split: outcome.split evidence.split)
qed

lemma send_kept:
  assumes "hub_inv b"
  shows "payments_kept b (snd (send ok p b))"
  using confirm_kept [OF assms] by (simp add: send_def payments_kept_same split: option.split)

interpretation journal: call_machine task_board_new hub_allowed "run_hub P" hub_inv payments_kept for P
proof
  show "payments_kept b (run_hub P c b)" if "hub_inv b" "hub_allowed c b" for b c
  proof (cases c)
    case (OnTasks d)
    then show ?thesis using others_fields [OF run_board_others [of d b]] by (simp add: payments_kept_same)
  next
    case (OnMarket d)
    then show ?thesis using run_exchange_frame [of d b] by (simp add: payments_kept_same)
  next
    case (PreparePayment fresh created submitted purpose source recipient amount tx height ok)
    then show ?thesis using that(2) by (simp add: prepare_kept payment_new_def)
  qed (use that send_kept resolve_kept in auto)
qed (use payments_kept_same payments_kept_trans in \<open>auto intro: hub_inv_new run_hub_inv\<close>)

subsection \<open>One disbursement\<close>

text \<open>A disbursement does nothing, or prepares one payment for an escrow that has none and sends it.\<close>

lemma prepare_cases:
  assumes "prepare height ok p b = (res, b')"
  obtains (refused) "\<forall>q. res \<noteq> Ok q" "b' = b"
  | (reserved) q b1 where "res = Ok q" "q = p\<lparr>py_scanned_through := saturating_sub height EVIDENCE_SCAN_LOOKBACK\<rparr>"
      "check_output q = Ok ()" "reservation q b = Ok b1" "b' = put_payment q b1"
  using assms by (auto simp: prepare_def Let_def with_check_def split: outcome.splits if_splits)

lemma disburse_cases:
  assumes run: "disburse_escrow P escrow_private io deposit recipient credit b = (res, sent, b')"
  obtains (idle) "sent = []" "b' = b"
  | (paid) utxos balance tx p b1 where "\<forall>q \<in> set (bm_values (bd_payments b)). \<not> pays_escrow (pd_id deposit) q"
      "ei_balance io = Some utxos" "node_balance utxos = Ok balance"
      "escrow_transaction P escrow_private io deposit recipient (saturating_sub balance HUB_TRANSACTION_FEE) b = Some tx"
      "prepare (ei_height io) (ei_reserved io) (escrow_payment P io deposit recipient credit (saturating_sub balance HUB_TRANSACTION_FEE) tx) b
         = (Ok p, b1)"
      "send (ei_confirmed io) p b1 = (sent, b')"
proof (cases "\<exists>utxos balance. List.find (pays_escrow (pd_id deposit)) (bm_values (bd_payments b)) = None \<and> ei_balance io = Some utxos
    \<and> node_balance utxos = Ok balance \<and> pay_escrow_balance P escrow_private io deposit recipient credit balance b = (res, sent, b')")
  case False
  then have "sent = [] \<and> b' = b" using run by (auto simp: disburse_escrow_def split: if_splits option.splits outcome.splits)
  then show ?thesis using idle by blast
next
  case True
  then obtain utxos balance where u: "\<forall>q \<in> set (bm_values (bd_payments b)). \<not> pays_escrow (pd_id deposit) q" "ei_balance io = Some utxos"
    "node_balance utxos = Ok balance" and pay: "pay_escrow_balance P escrow_private io deposit recipient credit balance b = (res, sent, b')"
    by (auto simp: find_None_iff)
  let ?a = "saturating_sub balance HUB_TRANSACTION_FEE"
  show ?thesis
  proof (cases "escrow_transaction P escrow_private io deposit recipient ?a b")
    case None
    then show ?thesis using pay idle by (simp add: pay_escrow_balance_def)
  next
    case (Some tx)
    obtain r b1 where prep: "prepare (ei_height io) (ei_reserved io) (escrow_payment P io deposit recipient credit ?a tx) b = (r, b1)" by force
    show ?thesis
    proof (cases "\<exists>p. r = Ok p")
      case True
      then obtain p where r: "r = Ok p" by blast
      have "send (ei_confirmed io) p b1 = (sent, b')" using pay Some prep r by (auto simp: pay_escrow_balance_def Let_def split: prod.splits)
      then show ?thesis using paid u Some prep r by blast
    next
      case False
      have "b1 = b" by (rule prepare_cases [OF prep]) (use False in auto)
      then have "sent = [] \<and> b' = b" using pay Some prep False by (cases r) (auto simp: pay_escrow_balance_def Let_def)
      then show ?thesis using idle by blast
    qed
  qed
qed

text \<open>A disbursement is a run of the hub's own calls, so every promise of the journal covers it.\<close>

lemma disburse_reaches:
  assumes run: "disburse_escrow P escrow_private io deposit recipient credit b = (res, sent, b')"
    and new: "bm_get (bd_payments b) (ei_payment_id io) = None"
  shows "reaches hub_allowed (run_hub P) b b'"
  using run
proof (cases rule: disburse_cases)
  case idle
  then show ?thesis by (simp add: reaches_refl)
next
  case (paid utxos balance tx p b1)
  let ?a = "saturating_sub balance HUB_TRANSACTION_FEE"
  let ?c = "PreparePayment (ei_payment_id io) (ei_created io) (ei_submitted io)
      (PayEscrow (pd_id deposit) (credit = ForfeitedBond) (pd_status deposit)) (pd_deposit_pubkey deposit) recipient ?a tx (ei_height io) (ei_reserved io)"
  have b1: "b1 = run_hub P ?c b" using paid(5) by (simp add: escrow_payment_def)
  have "reaches hub_allowed (run_hub P) b b1" unfolding b1 by (rule reaches_call [OF reaches_refl]) (simp add: new)
  moreover from paid(5) have "bm_get (bd_payments b1) (py_id p) = Some p"
    by (cases rule: prepare_cases) auto
  then have "hub_allowed (SendPayment (ei_confirmed io) p) b1" by (simp add: snapshot_of_def)
  moreover have "b' = run_hub P (SendPayment (ei_confirmed io) p) b1" using paid(6) by simp
  ultimately show ?thesis using reaches_call by metis
qed

lemma paid_escrow_idle:
  assumes inv: "hub_inv b" and p: "bm_get (bd_payments b) i = Some p" "pays_escrow (pd_id deposit) p"
  shows "fst (snd (disburse_escrow P escrow_private io deposit recipient credit b)) = []"
    "snd (snd (disburse_escrow P escrow_private io deposit recipient credit b)) = b"
proof -
  have "p \<in> set (bm_values (bd_payments b))" using bm_values_iff [of "bd_payments b" p] p(1) inv
    by (auto simp: hub_inv_def journal_inv_def)
  then have "List.find (pays_escrow (pd_id deposit)) (bm_values (bd_payments b)) \<noteq> None" using p(2) by (auto simp: find_None_iff)
  then show "fst (snd (disburse_escrow P escrow_private io deposit recipient credit b)) = []"
    "snd (snd (disburse_escrow P escrow_private io deposit recipient credit b)) = b"
    by (auto simp: disburse_escrow_def)
qed

lemma disburse_sent:
  assumes run: "disburse_escrow P escrow_private io deposit recipient credit b = (res, sent, b')" and sent: "sent \<noteq> []"
  shows "\<exists>tx utxos balance p. sent = [tx] \<and> ei_balance io = Some utxos \<and> node_balance utxos = Ok balance
    \<and> bm_get (bd_payments b') (ei_payment_id io) = Some p \<and> py_transaction p = Some tx \<and> py_status p = Pending
    \<and> py_amount p = saturating_sub balance HUB_TRANSACTION_FEE \<and> py_recipient p = recipient \<and> check_output p = Ok ()
    \<and> py_purpose p = PayEscrow (pd_id deposit) (credit = ForfeitedBond) (pd_status deposit)
    \<and> \<not> list_ex (pays_escrow (pd_id deposit)) (bm_values (bd_payments b))"
  using run
proof (cases rule: disburse_cases)
  case (paid utxos balance tx p b1)
  let ?p = "escrow_payment P io deposit recipient credit (saturating_sub balance HUB_TRANSACTION_FEE) tx"
  from paid(5) have p: "p = ?p\<lparr>py_scanned_through := saturating_sub (ei_height io) EVIDENCE_SCAN_LOOKBACK\<rparr>"
    "check_output p = Ok ()" "bm_get (bd_payments b1) (py_id p) = Some p"
    by (auto elim!: prepare_cases)
  have ep: "py_transaction p = tx" "py_id p = ei_payment_id io" "py_status p = Pending" "py_recipient p = recipient"
    "py_amount p = saturating_sub balance HUB_TRANSACTION_FEE"
    "py_purpose p = PayEscrow (pd_id deposit) (credit = ForfeitedBond) (pd_status deposit)"
    by (simp_all add: p(1) escrow_payment_def payment_new_def)
  obtain t where "tx = Some t" "sent = [t]" "b' = b1" using paid(6) sent ep(1) by (auto simp: send_def split: option.splits)
  then show ?thesis using p(2,3) ep paid(1-3) by (auto simp: list_ex_iff)
qed (use sent in simp)

text \<open>
  C35: An escrow is paid out once.  When a disbursement sends something on a board the hub
  reaches, it is one transaction whose first output pays the recipient what the address held
  less the fee; the journal has it, pending, before; the hub is again in a state it reaches; and
  whatever the hub does afterwards, no later disbursement of that escrow sends anything.
\<close>

theorem escrow_disbursed_once:
  assumes "hub_reachable P b" "bm_get (bd_payments b) (ei_payment_id io) = None"
    and run: "disburse_escrow P escrow_private io deposit recipient credit b = (res, sent, b1)" and sent: "sent \<noteq> []"
    and later: "reaches hub_allowed (run_hub P) b1 b2"
  shows "hub_reachable P b1
    \<and> (\<exists>tx o' rest utxos balance p. sent = [tx] \<and> tx_outputs tx = o' # rest \<and> txo_pubkey o' = recipient
        \<and> ei_balance io = Some utxos \<and> node_balance utxos = Ok balance \<and> unat (txo_value o') = unat balance - unat HUB_TRANSACTION_FEE
        \<and> bm_get (bd_payments b1) (ei_payment_id io) = Some p \<and> py_transaction p = Some tx \<and> py_status p = Pending)
    \<and> fst (snd (disburse_escrow P escrow_private io' (deposit\<lparr>pd_status := st\<rparr>) recipient' credit' b2)) = []"
proof (intro conjI)
  have r1: "hub_reachable P b1" using reaches_trans [OF disburse_reaches [OF run assms(2)]] assms(1) by (simp add: hub_reachable_def)
  then show "hub_reachable P b1" .
  obtain tx utxos balance p where s: "sent = [tx]" "ei_balance io = Some utxos" "node_balance utxos = Ok balance"
    "bm_get (bd_payments b1) (ei_payment_id io) = Some p" "py_transaction p = Some tx" "py_status p = Pending"
    "py_amount p = saturating_sub balance HUB_TRANSACTION_FEE" "py_recipient p = recipient" "check_output p = Ok ()"
    and purpose: "py_purpose p = PayEscrow (pd_id deposit) (credit = ForfeitedBond) (pd_status deposit)"
    using disburse_sent [OF run sent] by blast
  from s(5,7-9) obtain o' rest where o': "tx_outputs tx = o' # rest" "txo_pubkey o' = recipient"
    and v: "txo_value o' = saturating_sub balance HUB_TRANSACTION_FEE"
    by (auto simp: check_output_def split: list.splits if_splits)
  have "unat (txo_value o') = unat balance - unat HUB_TRANSACTION_FEE" by (simp add: v unat_saturating_sub)
  with s(1) o' s(2-3) s(4-6) show "\<exists>tx o' rest utxos balance p. sent = [tx] \<and> tx_outputs tx = o' # rest \<and> txo_pubkey o' = recipient
        \<and> ei_balance io = Some utxos \<and> node_balance utxos = Ok balance \<and> unat (txo_value o') = unat balance - unat HUB_TRANSACTION_FEE
        \<and> bm_get (bd_payments b1) (ei_payment_id io) = Some p \<and> py_transaction p = Some tx \<and> py_status p = Pending"
    by blast
  have inv: "hub_inv b1" by (rule hub_reachable_inv [OF r1])
  obtain q where "bm_get (bd_payments b2) (ei_payment_id io) = Some q" "same_record p q"
    using journal.reaches_rel [OF later inv] s(4) unfolding payments_kept_def by blast
  moreover from this(2) have "pays_escrow (pd_id (deposit\<lparr>pd_status := st\<rparr>)) q"
    using purpose same_record_facts(4) [of p q] by (simp add: pays_escrow_def)
  ultimately show "fst (snd (disburse_escrow P escrow_private io' (deposit\<lparr>pd_status := st\<rparr>) recipient' credit' b2)) = []"
    by (intro paid_escrow_idle(1) [OF hub.reaches_inv [OF later inv]])
qed

text \<open>
  A bond goes to the winner.  When settling the bond of a dispute sends something, the
  dispute is resolved; the one transaction pays the challenger if he won and the claimant
  otherwise, what the address held less the fee; and the journal marks the bond as forfeited,
  which is what later credits the recipient, exactly when the claimant won.
\<close>

theorem bond_goes_to_winner:
  assumes "settle_dispute_bond P escrow_private io i b = (ok, sent, b')" "sent \<noteq> []" and reach: "hub_reachable P b"
  shows "\<exists>t k d resolution winner tx o' rest p utxos balance. get_task b i = Some t \<and> tk_kind t = Disputable k \<and> ds_dispute k = Some d
    \<and> dp_resolution d = Some resolution
    \<and> Some winner = (case resolution of ChallengerWins \<Rightarrow> Some (dp_challenger d) | AssigneeWins \<Rightarrow> tk_claimant t)
    \<and> sent = [tx] \<and> tx_outputs tx = o' # rest \<and> txo_pubkey o' = winner
    \<and> ei_balance io = Some utxos \<and> node_balance utxos = Ok balance \<and> unat (txo_value o') = unat balance - unat HUB_TRANSACTION_FEE
    \<and> bm_get (bd_payments b') (ei_payment_id io) = Some p
    \<and> py_purpose p = PayEscrow (dp_bond_escrow_id d) (resolution = AssigneeWins) Consumed"
proof (cases "bond_settlement i b")
  case (Inl answer)
  then show ?thesis using assms by (simp add: settle_dispute_bond_def)
next
  case (Inr x)
  obtain bond winner forfeit where x: "x = (bond, winner, forfeit)" by (metis prod_cases3)
  obtain t k d resolution where t: "get_task b i = Some t" "tk_kind t = Disputable k" "ds_dispute k = Some d" "dp_resolution d = Some resolution"
    "get_pending_deposit b (dp_bond_escrow_id d) = Some bond" "pd_status bond = Consumed" "forfeit \<longleftrightarrow> resolution = AssigneeWins"
    "Some winner = (case resolution of ChallengerWins \<Rightarrow> Some (dp_challenger d) | AssigneeWins \<Rightarrow> tk_claimant t)"
    using Inr unfolding x bond_settlement_def
    by (auto split: option.splits task_kind.splits if_splits dispute_resolution.splits)
  have run: "disburse_escrow P escrow_private io bond winner (if forfeit then ForfeitedBond else NoCredit) b
      = (fst (disburse_escrow P escrow_private io bond winner (if forfeit then ForfeitedBond else NoCredit) b), sent, b')"
    using assms(1) Inr x by (auto simp: settle_dispute_bond_def split: prod.splits)
  obtain tx utxos balance p where s: "sent = [tx]" "ei_balance io = Some utxos" "node_balance utxos = Ok balance"
    "bm_get (bd_payments b') (ei_payment_id io) = Some p" "py_transaction p = Some tx"
    "py_amount p = saturating_sub balance HUB_TRANSACTION_FEE" "py_recipient p = winner" "check_output p = Ok ()"
    "py_purpose p = PayEscrow (pd_id bond) ((if forfeit then ForfeitedBond else NoCredit) = ForfeitedBond) (pd_status bond)"
    using disburse_sent [OF run assms(2)] by blast
  from s(5-8) obtain o' rest where o': "tx_outputs tx = o' # rest" "txo_pubkey o' = winner"
    and v: "txo_value o' = saturating_sub balance HUB_TRANSACTION_FEE"
    by (auto simp: check_output_def split: list.splits if_splits)
  have "unat (txo_value o') = unat balance - unat HUB_TRANSACTION_FEE" by (simp add: v unat_saturating_sub)
  moreover have "py_purpose p = PayEscrow (dp_bond_escrow_id d) (resolution = AssigneeWins) Consumed"
    using s(9) t(5-7) hub_reachable_inv [OF reach] by (simp add: hub_inv_def journal_inv_def deposits_keyed_def get_pending_deposit_def)
  ultimately show ?thesis using t(1-4,8) s(1-4) o' by blast
qed

lemma settled_escrow_idle:
  assumes inv: "hub_inv b" and p: "bm_get (bd_payments b) j = Some p" "py_purpose p = PayEscrow i forfeited st" "py_status p = PayConfirmed"
    and d: "pd_id deposit = i"
  shows "disburse_escrow P escrow_private io deposit recipient credit b = (if ei_busy io then None else Some (py_amount p), [], b)"
proof -
  have wf: "bm_wf (bd_payments b)" using inv by (simp add: hub_inv_def journal_inv_def)
  have "p \<in> set (bm_values (bd_payments b))" "pays_escrow i p" using bm_values_iff [OF wf] p by (auto simp: pays_escrow_def)
  then obtain q where q: "List.find (pays_escrow i) (bm_values (bd_payments b)) = Some q"
    by (cases "List.find (pays_escrow i) (bm_values (bd_payments b))") (auto simp: find_None_iff)
  then have "q \<in> set (bm_values (bd_payments b))" "pays_escrow i q" using find_in [OF q] by auto
  then obtain l where l: "bm_get (bd_payments b) l = Some q" "claim_of q = claim_of p"
    using bm_values_iff [OF wf] p(2) by (auto simp: claim_of_def pays_escrow_def split: payment_purpose.splits)
  moreover have "claims_unique b" using inv by (simp add: hub_inv_def journal_inv_def)
  moreover have "claim_of p = Some (Inr i)" by (simp add: claim_of_def p(2))
  ultimately have "l = j" using p(1) unfolding claims_unique_def by (metis option.distinct(1))
  then show ?thesis using q l p(1,3) d by (simp add: disburse_escrow_def)
qed

lemma empty_refund:
  assumes inv: "hub_inv b" and new: "bm_get (bd_payments b) (ei_payment_id io) = None"
    and d: "get_pending_deposit b i = Some d" "pd_status d = Reserved"
    and io: "\<not> ei_busy io" "ei_balance io = Some utxos" "node_balance utxos = Ok balance" "balance \<le> HUB_TRANSACTION_FEE"
      "ei_reserved io" "ei_confirmed io"
  shows "fst (refund_escrow P escrow_private io d b) = []"
    and "\<exists>q. bm_get (bd_payments (snd (refund_escrow P escrow_private io d b))) (ei_payment_id io) = Some q
      \<and> py_status q = PayConfirmed \<and> py_purpose q = PayEscrow i False Reserved \<and> py_amount q = 0"
proof -
  have id: "pd_id d = i" using inv d(1) by (simp add: hub_inv_def journal_inv_def deposits_keyed_def get_pending_deposit_def)
  have wf: "bm_wf (bd_payments b)" using inv by (simp add: hub_inv_def journal_inv_def)
  have none: "\<not> pays_escrow i p" if p: "p \<in> set (bm_values (bd_payments b))" for p
  proof
    assume "pays_escrow i p"
    then obtain f s where "py_purpose p = PayEscrow i f s" by (auto simp: pays_escrow_def split: payment_purpose.splits)
    moreover obtain j where "bm_get (bd_payments b) j = Some p" using bm_values_iff [OF wf] p by blast
    then have "claim_held b p" using inv by (simp add: hub_inv_def journal_inv_def payment_ok_def)
    ultimately show False using d by (simp add: claim_held_def deposit_status_def get_pending_deposit_def split: if_splits)
  qed
  then have find: "List.find (pays_escrow i) (bm_values (bd_payments b)) = None" "\<not> list_ex (pays_escrow i) (bm_values (bd_payments b))"
    by (auto simp: find_None_iff list_ex_iff)
  have zero: "saturating_sub balance HUB_TRANSACTION_FEE = 0" using io(4) by (auto simp: saturating_sub_def)
  let ?p = "escrow_payment P io d (pd_depositor d) NoCredit 0 None" and ?h = "saturating_sub (ei_height io) EVIDENCE_SCAN_LOOKBACK"
  let ?q = "?p\<lparr>py_scanned_through := ?h\<rparr>" and ?b1 = "restore_pending_deposit (d\<lparr>pd_status := Disbursing\<rparr>) b"
  have p: "py_purpose ?p = PayEscrow i False Reserved" "py_amount ?p = 0" "py_transaction ?p = None" "py_id ?p = ei_payment_id io"
    "py_status ?p = Pending" by (simp_all add: escrow_payment_def payment_new_def id d(2))
  have prep: "prepare (ei_height io) (ei_reserved io) ?p b = (Ok ?q, put_payment ?q ?b1)"
    using find(2) d io(5) p by (simp add: prepare_def check_output_def reservation_def Let_def)
  let ?c = "?q\<lparr>py_status := PayConfirmed\<rparr>"
  have "get_pending_deposit (put_payment ?q ?b1) i = Some (d\<lparr>pd_status := Disbursing\<rparr>)"
    by (simp add: get_pending_deposit_def restore_pending_deposit_def set_deposit_def id)
  then have "snd (confirm (ei_confirmed io) ?q (put_payment ?q ?b1)) = put_payment ?c (restore_pending_deposit (d\<lparr>pd_status := Refunded\<rparr>) (put_payment ?q ?b1))"
    using io(6) p by (simp add: confirm_def confirmed_effects_def Let_def)
  then have snd: "send (ei_confirmed io) ?q (put_payment ?q ?b1)
      = ([], put_payment ?c (restore_pending_deposit (d\<lparr>pd_status := Refunded\<rparr>) (put_payment ?q ?b1)))"
    using p(3) by (simp add: send_def)
  have run: "refund_escrow P escrow_private io d b = ([], put_payment ?c (restore_pending_deposit (d\<lparr>pd_status := Refunded\<rparr>) (put_payment ?q ?b1)))"
    using io(1-3) find(1) d id prep snd
    by (simp add: refund_escrow_def disburse_escrow_def pay_escrow_balance_def zero escrow_transaction_def)
  then show "fst (refund_escrow P escrow_private io d b) = []" by simp
  show "\<exists>q. bm_get (bd_payments (snd (refund_escrow P escrow_private io d b))) (ei_payment_id io) = Some q
      \<and> py_status q = PayConfirmed \<and> py_purpose q = PayEscrow i False Reserved \<and> py_amount q = 0"
    using p by (simp add: run)
qed

text \<open>
  C36: A late deposit is stranded.  A reservation that is swept after its expiry while its address
  holds at most the fee is settled at once without a transaction; coins that arrive at the
  address afterwards stay there: whatever the hub does and whatever the node reports, no
  disbursement of that escrow ever sends anything, and confirming it is refused.
\<close>

theorem late_deposit_stranded:
  assumes "hub_reachable P b" "bm_get (bd_payments b) (ei_payment_id io) = None"
    and d: "get_pending_deposit b i = Some d" "pd_status d = Reserved"
    and io: "\<not> ei_busy io" "ei_balance io = Some utxos" "node_balance utxos = Ok balance" "balance \<le> HUB_TRANSACTION_FEE"
      "ei_reserved io" "ei_confirmed io"
    and later: "reaches hub_allowed (run_hub P) (snd (refund_escrow P escrow_private io d b)) b2"
  shows "fst (refund_escrow P escrow_private io d b) = [] \<and> deposit_status b2 i = Some Refunded
    \<and> disburse_escrow P escrow_private io' d recipient credit b2 = (if ei_busy io' then None else Some 0, [], b2)
    \<and> (\<exists>err. confirm_escrow fresh clock i observed now b2 = (Err err, b2))"
proof -
  let ?b1 = "snd (refund_escrow P escrow_private io d b)" and ?id = "ei_payment_id io"
  have inv: "hub_inv b" by (rule hub_reachable_inv [OF assms(1)])
  note e = empty_refund [OF inv assms(2) d io, of P escrow_private]
  have "reaches hub_allowed (run_hub P) b ?b1"
    using disburse_reaches [OF _ assms(2), where deposit = d and recipient = "pd_depositor d" and credit = NoCredit]
    unfolding refund_escrow_def by (metis prod.collapse)
  then have inv1: "hub_inv ?b1" by (rule hub.reaches_inv [OF _ inv])
  have inv2: "hub_inv b2" by (rule hub.reaches_inv [OF later inv1])
  obtain q where q: "bm_get (bd_payments ?b1) ?id = Some q" "py_status q = PayConfirmed" "py_purpose q = PayEscrow i False Reserved" "py_amount q = 0"
    using e(2) by blast
  obtain r where r: "bm_get (bd_payments b2) ?id = Some r" "same_record q r" "py_status r = PayConfirmed"
    using journal.reaches_rel [OF later inv1] q(1,2) unfolding payments_kept_def by blast
  have rp: "py_purpose r = PayEscrow i False Reserved" "py_amount r = 0" using r(2) q(3,4) by (simp_all add: same_record_iff)
  have "payment_ok b2 ?id r" using inv2 r(1) by (simp add: hub_inv_def journal_inv_def)
  then have ds: "deposit_status b2 i = Some Refunded" using r(3) rp(1) by (simp add: payment_ok_def claim_held_def)
  have id: "pd_id d = i" using inv d(1) by (simp add: hub_inv_def journal_inv_def deposits_keyed_def get_pending_deposit_def)
  have "disburse_escrow P escrow_private io' d recipient credit b2 = (if ei_busy io' then None else Some 0, [], b2)"
    using settled_escrow_idle [OF inv2 r(1) rp(1) r(3)] id rp(2) by simp
  moreover have "\<exists>err. confirm_escrow fresh clock i observed now b2 = (Err err, b2)"
    using ds by (auto simp: deposit_status_def confirm_escrow_def check_deposit_def split: escrow_purpose.split)
  ultimately show ?thesis using e(1) ds by blast
qed

end
