(* ===== verification/Hub_Escrow_Witnesses.thy ===== *)
theory Hub_Escrow_Witnesses
  imports Hub_Escrow Hub_Boot_Witnesses Hub_Faucet_Witnesses
begin

text \<open>
  The disbursement of escrows at concrete inputs: the refund of a funded task's deposit, the
  bond of a dispute the claimant wins, and a reservation swept before its coins arrive.
\<close>

definition held :: utxo_list where
  "held = [(False, \<lparr>txo_value = 5000, txo_unique_id = 2, txo_pubkey = cid\<rparr>)]"

definition refund_io :: escrow_io where
  "refund_io = \<lparr>ei_busy = False, ei_balance = Some held, ei_utxos = Some held, ei_output_ids = (\<lambda>i. 7 + of_nat i), ei_payment_id = 30,
     ei_created = 20, ei_submitted = 20, ei_height = 0, ei_reserved = True, ei_confirmed = True\<rparr>"

lemma held_balance: "node_balance held = Ok 5000"
  by (simp add: node_balance_def held_def sum_u64_def checked_sum_eq)

lemma held_built:
  assumes "bd_payout_attempts b = []" "bd_payments b = []"
  shows "\<exists>i rest. build_payment_from_fresh sample (\<lambda>i. 7 + of_nat i) (Some held) b key cid [(recipient, 4000)] recipient
    = Ok \<lparr>tx_inputs = i, tx_outputs = \<lparr>txo_value = 4000, txo_unique_id = 7, txo_pubkey = recipient\<rparr> # rest\<rparr>"
proof -
  have "reserve_inputs sample cid [] b held = held"
    using assms by (simp add: reserve_inputs_def bm_values_def outstanding_payout_attempts_def)
  moreover have "ordered_for_payment held n = held" for n by (simp add: held_def ordered_for_payment_def)
  ultimately show ?thesis
    by (simp add: build_payment_from_fresh_def build_payment_from_def build_multi_payment_def sum_u64_def checked_sum_eq plus_u_def
      checked_add_def HUB_TRANSACTION_FEE_def payment_outputs_def) (simp add: held_def Let_def plus_u_def checked_add_def payment_outputs_def)
qed

text \<open>Disbursing a consumed deposit at Cid's address that holds 5000.\<close>

lemma held_disbursed:
  assumes "bd_payout_attempts b = []" "bd_payments b = []" "get_pending_deposit b (pd_id d) = Some d" "pd_status d = Consumed"
    "pd_deposit_pubkey d = cid"
  shows "\<exists>tx. fst (snd (disburse_escrow sample (\<lambda>_. operator_key) refund_io d recipient credit b)) = [tx]"
proof -
  obtain i rest where built: "build_payment_from_fresh sample (\<lambda>i. 7 + of_nat i) (Some held) b operator_key cid [(recipient, 4000)] recipient
    = Ok \<lparr>tx_inputs = i, tx_outputs = \<lparr>txo_value = 4000, txo_unique_id = 7, txo_pubkey = recipient\<rparr> # rest\<rparr>"
    using held_built [OF assms(1,2)] by blast
  show ?thesis using assms
    by (simp add: disburse_escrow_def refund_io_def held_balance bm_values_def pay_escrow_balance_def saturating_sub_def HUB_TRANSACTION_FEE_def
        escrow_transaction_def built escrow_payment_def payment_new_def prepare_def check_output_def reservation_def send_def Let_def)
qed

definition jobs_deposit :: pending_deposit where
  "jobs_deposit = \<lparr>pd_id = 7, pd_depositor = ann, pd_deposit_pubkey = cid, pd_deposit_private_key = None,
     pd_required_amount = 60, pd_purpose = FundHashMatchTask lent_intent, pd_status = Consumed, pd_created_at = 1, pd_expires_at = 500\<rparr>"

definition refunded :: task_board where
  "refunded = snd (refund_escrow sample (\<lambda>_. operator_key) refund_io jobs_deposit jobs)"

theorem escrow_disbursed_once_witness:
  "(\<exists>tx o' rest. fst (refund_escrow sample (\<lambda>_. operator_key) refund_io jobs_deposit jobs) = [tx]
      \<and> tx_outputs tx = o' # rest \<and> txo_pubkey o' = ann \<and> unat (txo_value o') = 4000)
   \<and> fst (snd (disburse_escrow sample (\<lambda>_. operator_key) refund_io jobs_deposit bob ForfeitedBond refunded)) = []"
proof -
  have jobs: "bd_payout_attempts jobs = []" "bd_payments jobs = []" "get_pending_deposit jobs 7 = Some jobs_deposit"
    by (simp_all add: jobs_def job_calls_def board_eval lent_intent_def jobs_deposit_def)
  obtain res sent b1 where run: "disburse_escrow sample (\<lambda>_. operator_key) refund_io jobs_deposit ann NoCredit jobs = (res, sent, b1)"
    by (metis prod_cases3)
  then have b1: "refund_escrow sample (\<lambda>_. operator_key) refund_io jobs_deposit jobs = (sent, b1)" "refunded = b1"
    by (simp_all add: refund_escrow_def refunded_def jobs_deposit_def)
  have "sent \<noteq> []" using held_disbursed [of jobs jobs_deposit ann NoCredit] jobs run by (auto simp: jobs_deposit_def)
  note once = escrow_disbursed_once [OF jobs_hub_reachable _ run this reaches_refl]
  have "unat (5000 :: u64) - unat HUB_TRANSACTION_FEE = 4000" by (simp add: HUB_TRANSACTION_FEE_def)
  moreover have "ei_balance refund_io = Some held" "jobs_deposit\<lparr>pd_status := Consumed\<rparr> = jobs_deposit"
    by (simp_all add: refund_io_def jobs_deposit_def)
  ultimately show ?thesis
    using once [where io' = refund_io and st = Consumed and recipient' = bob and credit' = ForfeitedBond] jobs(2) held_balance
    unfolding b1 by (auto simp: bm_get_def)
qed

definition expiring :: task_board where
  "expiring = run_hub sample (OnTasks (ReserveEscrow 7 1 (\<lambda>_. cid) ann 60 (FundHashMatchTask lent_intent) 500)) task_board_new"

lemma expiring_reachable: "hub_reachable sample expiring"
  unfolding hub_reachable_def expiring_def by (intro reaches_call reaches_refl) (simp add: board_eval)

text \<open>Nothing is at the address when the sweep comes; 5000 arrive after that.\<close>

theorem late_deposit_stranded_witness:
  "let b = snd (refund_escrow sample (\<lambda>_. operator_key) (refund_io\<lparr>ei_balance := Some []\<rparr>) (jobs_deposit\<lparr>pd_status := Reserved\<rparr>) expiring)
   in disburse_escrow sample (\<lambda>_. operator_key) refund_io (jobs_deposit\<lparr>pd_status := Reserved\<rparr>) ann NoCredit b = (Some 0, [], b)
     \<and> (\<exists>err. confirm_escrow 3 600 7 5000 600 b = (Err err, b))"
proof -
  have d: "bd_payments expiring = []" "get_pending_deposit expiring 7 = Some (jobs_deposit\<lparr>pd_status := Reserved\<rparr>)"
    by (simp_all add: expiring_def board_eval jobs_deposit_def)
  let ?io = "refund_io\<lparr>ei_balance := Some []\<rparr>"
  have io: "\<not> ei_busy ?io" "ei_balance ?io = Some []" "node_balance [] = Ok 0" "ei_reserved ?io" "ei_confirmed ?io"
    by (simp_all add: refund_io_def node_balance_def sum_u64_def)
  have free: "bm_get (bd_payments expiring) (ei_payment_id ?io) = None" by (simp add: d(1) bm_get_def)
  have st: "pd_status (jobs_deposit\<lparr>pd_status := Reserved\<rparr>) = Reserved" by simp
  have busy: "\<not> ei_busy refund_io" by (simp add: refund_io_def)
  from late_deposit_stranded [OF expiring_reachable free d(2) st io(1-3) _ io(4,5) reaches_refl, where io' = refund_io and recipient = ann
      and credit = NoCredit and escrow_private = "\<lambda>_. operator_key" and fresh = 3 and clock = 600 and observed = 5000 and now = 600]
  show ?thesis using busy unfolding Let_def by simp
qed

subsection \<open>A dispute\<close>

definition awaiting :: task where
  "awaiting = (new_task 9 ann ''draw'' 70 (Disputable \<lparr>ds_answer = Some ''cat'', ds_dispute_window_minutes = 60, ds_dispute_deadline = Some 900,
     ds_dispute = None, ds_answers = [], ds_pick_deadline = None, ds_picked = None\<rparr>) 0)
     \<lparr>tk_status := AwaitingDispute, tk_claimant := Some bob\<rparr>"

definition dispute_calls :: "hub_call list" where
  "dispute_calls = map OnTasks
     [RestoreTask awaiting, ReserveEscrow 7 1 (\<lambda>_. cid) ann 60 (DisputeBond 9 ''no'') 500, ConfirmDisputeBond 7 60 9, ResolveDispute 9 AssigneeWins]"

definition disputed :: task_board where
  "disputed = fold (run_hub sample) dispute_calls task_board_new"

lemmas dispute_eval = board_eval restore_task_def confirm_dispute_bond_def resolve_dispute_def bump_failed_def awaiting_def plus_u_def checked_add_def restore_reputation_def

lemma disputed_reachable: "hub_reachable sample disputed"
  unfolding hub_reachable_def disputed_def
  by (rule reaches_fold) (simp add: dispute_calls_def dispute_eval task_ok_def kind_ok_def payouts_ok_def allocated_payouts_def
      owed_payouts_def dispute_winner_def share_ok_def payout_total_def)

theorem bond_goes_to_winner_witness:
  "\<exists>tx o' rest. fst (snd (settle_dispute_bond sample (\<lambda>_. operator_key) refund_io 9 disputed)) = [tx]
     \<and> tx_outputs tx = o' # rest \<and> txo_pubkey o' = bob \<and> unat (txo_value o') = 4000"
proof -
  let ?bond = "jobs_deposit\<lparr>pd_purpose := DisputeBond 9 ''no''\<rparr>"
  have dis: "bd_payout_attempts disputed = []" "bd_payments disputed = []" "get_pending_deposit disputed 7 = Some ?bond"
    by (simp_all add: disputed_def dispute_calls_def dispute_eval jobs_deposit_def)
  have settle: "bond_settlement 9 disputed = Inr (?bond, bob, True)"
    by (simp add: bond_settlement_def dis(3) [unfolded get_pending_deposit_def])
      (simp add: disputed_def dispute_calls_def dispute_eval jobs_deposit_def)
  obtain ok sent b' where run: "settle_dispute_bond sample (\<lambda>_. operator_key) refund_io 9 disputed = (ok, sent, b')"
    by (metis prod_cases3)
  then have sent: "fst (snd (disburse_escrow sample (\<lambda>_. operator_key) refund_io ?bond bob ForfeitedBond disputed)) = sent"
    using settle by (auto simp: settle_dispute_bond_def split: prod.splits)
  moreover have "\<exists>tx. fst (snd (disburse_escrow sample (\<lambda>_. operator_key) refund_io ?bond bob ForfeitedBond disputed)) = [tx]"
    by (rule held_disbursed) (use dis in \<open>simp_all add: jobs_deposit_def\<close>)
  ultimately have "sent \<noteq> []" by auto
  note won = bond_goes_to_winner [OF run this disputed_reachable]
  have task: "\<exists>t k d. get_task disputed 9 = Some t \<and> tk_kind t = Disputable k \<and> ds_dispute k = Some d \<and> dp_resolution d = Some AssigneeWins
      \<and> tk_claimant t = Some bob"
    by (simp add: disputed_def dispute_calls_def dispute_eval)
  have "unat (5000 :: u64) - unat HUB_TRANSACTION_FEE = 4000" "ei_balance refund_io = Some held"
    by (simp_all add: HUB_TRANSACTION_FEE_def refund_io_def)
  then show ?thesis using won task held_balance run by auto
qed

end
