(* ===== verification/Hub_Requests.thy ===== *)
theory Hub_Requests
  imports Hub_Escrow Hub_Payout Hub_Rate_Limit
begin

text \<open>
  Requests on tasks, escrows and the exchange (\<open>hub/src/handlers.rs\<close>, from \<open>create_task\<close> to
  \<open>submit_consensus_task\<close> and from \<open>create_exchange_deposit\<close> to \<open>withdraw\<close>): what a handler checks,
  which operation of the board it calls, what it writes to the store (\<open>hub/src/store.rs\<close>), and
  what it settles before it answers.

  The signature check (\<open>Hub_Auth\<close>) has happened: \<open>ri_signer\<close> is its result.  The node's
  reply about an address, new ids, the readings of the clock in the order they are made, and whether the handler's write
  commits are arguments.  The texts of error replies are left out.  A handler that lets go of the
  board while it asks the node finds the board as it left it; the operation it calls then checks
  again whatever may have changed.
\<close>

definition CLAIM_TTL_MINUTES :: int where "CLAIM_TTL_MINUTES = 30"
definition MAX_CONSENSUS_WINDOW_MINUTES :: int where "MAX_CONSENSUS_WINDOW_MINUTES = 60 * 24 * 365"
definition MAX_CONSENSUS_ASSIGNEES :: u32 where "MAX_CONSENSUS_ASSIGNEES = 100"
definition ESCROW_RESERVATION_TTL_MINUTES :: int where "ESCROW_RESERVATION_TTL_MINUTES = 60"
definition MAX_CAPABILITY_TAGS :: nat where "MAX_CAPABILITY_TAGS = 20"
definition MAX_CAPABILITY_TAG_LENGTH :: nat where "MAX_CAPABILITY_TAG_LENGTH = 64"
definition MIN_EXCHANGE_DEPOSIT :: u64 where "MIN_EXCHANGE_DEPOSIT = HUB_TRANSACTION_FEE + 1"
definition MIN_EXCHANGE_WITHDRAWAL :: u64 where "MIN_EXCHANGE_WITHDRAWAL = HUB_TRANSACTION_FEE + 1"
definition MAX_TEXT_FIELD_LENGTH :: nat where "MAX_TEXT_FIELD_LENGTH = 20000"

datatype api_status =
    BadRequest | Unauthorized | Forbidden | NotFoundReply | Conflict | TooManyRequests
  | InternalError | ServiceUnavailable | Unavailable

fun from_board_error :: "board_error \<Rightarrow> api_status" where
  "from_board_error NotFound = NotFoundReply"
| "from_board_error EscrowNotFound = NotFoundReply"
| "from_board_error OrderNotFound = NotFoundReply"
| "from_board_error NotClaimant = Forbidden"
| "from_board_error (InsufficientReputation _ _) = Forbidden"
| "from_board_error PosterCannotClaimOwnTask = Forbidden"
| "from_board_error PosterCannotAnswerOwnTask = Forbidden"
| "from_board_error AssigneeCannotDisputeOwnSubmission = Forbidden"
| "from_board_error NotOrderOwner = Forbidden"
| "from_board_error NotPoster = Forbidden"
| "from_board_error InvalidOrder = BadRequest"
| "from_board_error OrderNotionalOverflow = BadRequest"
| "from_board_error ZeroWithdrawal = BadRequest"
| "from_board_error _ = Conflict"

fun board_reply :: "'a board_result \<Rightarrow> (api_status, 'a) outcome" where
  "board_reply (Ok x) = Ok x"
| "board_reply (Err e) = Err (from_board_error e)"
| "board_reply Panic = Panic"
| "board_reply Cutoff = Cutoff"

subsection \<open>The hub and its rows\<close>

record hub_settings =
  hs_keys :: hub_keys
  hs_custody_private :: private_key
  hs_custody_public :: public_key
  hs_deposit_key :: "uuid \<Rightarrow> public_key"
  hs_consensus_max_exposure :: u64

record request_io =
  ri_signer :: "(api_status, public_key) outcome"
  ri_fresh :: uuid
  ri_clock :: "nat \<Rightarrow> instant"
  ri_balance :: "public_key \<Rightarrow> utxo_list option"
  ri_saved :: bool

text \<open>\<open>rq_sent\<close> are the transactions handed to the node, the latest last.\<close>

record request_hub =
  rq_board :: task_board
  rq_store :: payout_store
  rq_deposits :: "(uuid, pending_deposit) bmap"
  rq_accounts :: "(public_key, exchange_account) bmap"
  rq_orders :: "(uuid, order) bmap"
  rq_sent :: "transaction list"

type_synonym 'a reply = "(api_status, 'a) outcome \<times> request_hub"

definition save_pending_deposit :: "pending_deposit \<Rightarrow> request_hub \<Rightarrow> request_hub" where
  "save_pending_deposit d h = h\<lparr>rq_deposits := bm_insert (pd_id d) d (rq_deposits h)\<rparr>"

definition save_task_row :: "task \<Rightarrow> request_hub \<Rightarrow> request_hub" where
  "save_task_row t h = h\<lparr>rq_store := save_task t (rq_store h)\<rparr>"

definition save_task_and_deposit :: "task \<Rightarrow> pending_deposit \<Rightarrow> request_hub \<Rightarrow> request_hub" where
  "save_task_and_deposit t d h = save_pending_deposit d (save_task_row t h)"

definition save_task_and_reputation_batch :: "task \<Rightarrow> (public_key \<times> reputation_entry) list \<Rightarrow> request_hub \<Rightarrow> request_hub" where
  "save_task_and_reputation_batch t entries h =
     (let st = save_task t (rq_store h)
      in h\<lparr>rq_store := st\<lparr>ps_reputation := fold (\<lambda>(k, r). bm_insert k r) entries (ps_reputation st)\<rparr>\<rparr>)"

definition save_task_and_reputation :: "task \<Rightarrow> public_key \<Rightarrow> reputation_entry \<Rightarrow> request_hub \<Rightarrow> request_hub" where
  "save_task_and_reputation t k r = save_task_and_reputation_batch t [(k, r)]"

definition save_exchange_account_and_deposit :: "public_key \<Rightarrow> exchange_account \<Rightarrow> pending_deposit \<Rightarrow> request_hub \<Rightarrow> request_hub" where
  "save_exchange_account_and_deposit k a d h = save_pending_deposit d (h\<lparr>rq_accounts := bm_insert k a (rq_accounts h)\<rparr>)"

definition save_order_and_account :: "order \<Rightarrow> public_key \<Rightarrow> exchange_account \<Rightarrow> request_hub \<Rightarrow> request_hub" where
  "save_order_and_account o' k a h = h\<lparr>rq_orders := bm_insert (or_id o') o' (rq_orders h), rq_accounts := bm_insert k a (rq_accounts h)\<rparr>"

text \<open>
  The journal writes the rows a payment changes in one transaction before the board moves
  (\<open>save_payment_effects\<close>), so its rows are those in which the two boards differ.
\<close>

definition write_rows :: "('k::linorder, 'v) bmap \<Rightarrow> ('k, 'v) bmap \<Rightarrow> ('k, 'v) bmap \<Rightarrow> ('k, 'v) bmap" where
  "write_rows before after table = fold (\<lambda>(k, v). bm_insert k v) (filter (\<lambda>(k, v). bm_get before k \<noteq> Some v) after) table"

definition journaled :: "transaction list \<times> task_board \<Rightarrow> request_hub \<Rightarrow> request_hub" where
  "journaled x h =
     (let b = rq_board h; b' = snd x
      in h\<lparr>rq_board := b', rq_sent := rq_sent h @ fst x,
           rq_deposits := write_rows (bd_pending_deposits b) (bd_pending_deposits b') (rq_deposits h),
           rq_accounts := write_rows (bd_exchange_accounts b) (bd_exchange_accounts b') (rq_accounts h),
           rq_store := (rq_store h)\<lparr>ps_reputation := write_rows (bd_reputation b) (bd_reputation b') (ps_reputation (rq_store h))\<rparr>\<rparr>)"

text \<open>\<open>None\<close> is the process dying during the settlement.\<close>

definition settled_by :: "'a did \<Rightarrow> request_hub \<Rightarrow> 'a option \<times> request_hub" where
  "settled_by x h =
     (fst x, h\<lparr>rq_board := ph_board (snd (snd x)), rq_store := ph_store (snd (snd x)),
        rq_sent := rq_sent h @ map (\<lambda>(_, _, _, tx). tx) (fst (snd x))\<rparr>)"

definition settle_now :: "prims \<Rightarrow> hub_settings \<Rightarrow> (nat \<Rightarrow> payout_io) \<Rightarrow> uuid \<Rightarrow> request_hub \<Rightarrow> bool option \<times> request_hub" where
  "settle_now P cfg io i h =
     settled_by (try_settle_verified_task P (hs_keys cfg) io i \<lparr>ph_board = rq_board h, ph_store = rq_store h\<rparr>) h"

definition saving :: "bool \<Rightarrow> (request_hub \<Rightarrow> request_hub) \<Rightarrow> request_hub \<Rightarrow> (unit \<Rightarrow> request_hub \<Rightarrow> 'a reply) \<Rightarrow> 'a reply" where
  "saving ok write h k = (if ok then k () (write h) else (Err InternalError, h))"

subsection \<open>Checks\<close>

definition require_operator :: "hub_settings \<Rightarrow> public_key \<Rightarrow> (api_status, unit) outcome" where
  "require_operator cfg k = (if k \<noteq> hk_operator_public (hs_keys cfg) then Err Forbidden else Ok ())"

definition validate_text_field :: "string \<Rightarrow> (api_status, unit) outcome" where
  "validate_text_field value = (if length value > MAX_TEXT_FIELD_LENGTH then Err BadRequest else Ok ())"

definition validate_positive_minutes :: "int \<Rightarrow> (api_status, unit) outcome" where
  "validate_positive_minutes value =
     (if value \<le> 0 then Err BadRequest else if value > MAX_CONSENSUS_WINDOW_MINUTES then Err BadRequest else Ok ())"

definition validate_assignees :: "u32 \<Rightarrow> (api_status, unit) outcome" where
  "validate_assignees n = (if n < 2 then Err BadRequest else if n > MAX_CONSENSUS_ASSIGNEES then Err BadRequest else Ok ())"

text \<open>Characters up to \<open>0xFF\<close>; of those, \<open>0xC0\<close> to \<open>0xDE\<close> less \<open>0xD7\<close> are capitals besides the ASCII ones.\<close>

definition lowercase_char :: "char \<Rightarrow> char" where
  "lowercase_char c =
     (let n = of_char c :: nat
      in if (65 \<le> n \<and> n \<le> 90) \<or> (192 \<le> n \<and> n \<le> 222 \<and> n \<noteq> 215) then char_of (n + 32) else c)"

definition validate_capabilities :: "string set \<Rightarrow> (api_status, string set) outcome" where
  "validate_capabilities raw =
     (if card raw > MAX_CAPABILITY_TAGS then Err BadRequest
      else let tags = Set.filter (\<lambda>tag. tag \<noteq> []) ((\<lambda>tag. map lowercase_char (trim tag)) ` raw)
           in if \<exists>tag \<in> tags. length tag > MAX_CAPABILITY_TAG_LENGTH then Err BadRequest else Ok tags)"

definition escrow_amount_for :: "u64 \<Rightarrow> (api_status, u64) outcome" where
  "escrow_amount_for bounty =
     (case checked_add bounty HUB_TRANSACTION_FEE of None \<Rightarrow> Err BadRequest | Some amount \<Rightarrow> Ok amount)"

definition ensure_consensus_exposure_allows :: "hub_settings \<Rightarrow> task_board \<Rightarrow> u64 \<Rightarrow> (api_status, unit) outcome" where
  "ensure_consensus_exposure_allows cfg b bounty =
     (if saturating_add (consensus_exposure b) bounty > hs_consensus_max_exposure cfg then Err Unavailable else Ok ())"

definition observed_balance :: "request_io \<Rightarrow> public_key \<Rightarrow> (api_status, u64) outcome" where
  "observed_balance io address =
     (case ri_balance io address of
        None \<Rightarrow> Err InternalError
      | Some utxos \<Rightarrow> (case node_balance utxos of Ok v \<Rightarrow> Ok v | _ \<Rightarrow> Panic))"

definition ensure_operator_can_fund :: "hub_settings \<Rightarrow> request_io \<Rightarrow> task_board \<Rightarrow> u64 \<Rightarrow> (api_status, unit) outcome" where
  "ensure_operator_can_fund cfg io b bounty =
     obind (observed_balance io (hk_operator_public (hs_keys cfg))) (\<lambda>balance.
     obind (board_reply (allocated_bounty b)) (\<lambda>allocated.
       if saturating_sub balance allocated < bounty then Err BadRequest else Ok ()))"

definition apply_min_reputation :: "u64 \<Rightarrow> task \<Rightarrow> task_board \<Rightarrow> (api_status, task) outcome \<times> task_board" where
  "apply_min_reputation r t b =
     (if r > 0
      then (case set_min_reputation (tk_id t) r b of
              (Ok _, b1) \<Rightarrow> (Ok (t\<lparr>tk_min_reputation := r\<rparr>), b1)
            | (_, b1) \<Rightarrow> (Panic, b1))
      else (Ok t, b))"

definition apply_capabilities :: "string set \<Rightarrow> task \<Rightarrow> task_board \<Rightarrow> (api_status, task) outcome \<times> task_board" where
  "apply_capabilities caps t b =
     (if caps \<noteq> {}
      then (case set_capabilities (tk_id t) caps b of
              (Ok _, b1) \<Rightarrow> (Ok (t\<lparr>tk_capabilities := caps\<rparr>), b1)
            | (_, b1) \<Rightarrow> (Panic, b1))
      else (Ok t, b))"

text \<open>An operation of the board within a handler.\<close>

definition on_board :: "(task_board \<Rightarrow> (api_status, 'a) outcome \<times> task_board) \<Rightarrow> request_hub \<Rightarrow> 'a reply" where
  "on_board f h = (case f (rq_board h) of (r, b) \<Rightarrow> (r, h\<lparr>rq_board := b\<rparr>))"

definition from_board :: "'a board_result \<times> task_board \<Rightarrow> (api_status, 'a) outcome \<times> task_board" where
  "from_board x = (board_reply (fst x), snd x)"

subsection \<open>Posting tasks\<close>

text \<open>Payloads; the hash is what \<open>parse_hex_hash\<close> makes of the text, \<open>None\<close> a bad one.\<close>

record task_payload =
  tp_description :: string
  tp_bounty :: u64
  tp_expected_output_hash :: "hash option"
  tp_min_reputation :: u64
  tp_capabilities :: "string set"

record consensus_task_payload =
  cp_description :: string
  cp_bounty :: u64
  cp_num_assignees :: u32
  cp_join_window_minutes :: int
  cp_submission_window_minutes :: int
  cp_min_reputation :: u64
  cp_capabilities :: "string set"

record disputable_task_payload =
  dq_description :: string
  dq_bounty :: u64
  dq_dispute_window_minutes :: int
  dq_min_reputation :: u64
  dq_capabilities :: "string set"

definition parsed :: "'a option \<Rightarrow> (api_status, 'a) outcome" where
  "parsed x = (case x of None \<Rightarrow> Err BadRequest | Some v \<Rightarrow> Ok v)"

text \<open>What both operator-funded kinds do once the task is on the board.\<close>

definition finish_creation :: "request_io \<Rightarrow> u64 \<Rightarrow> string set \<Rightarrow> task \<times> task_board \<Rightarrow> request_hub \<Rightarrow> task reply" where
  "finish_creation io min_reputation caps created h =
     with_step (on_board (apply_min_reputation min_reputation (fst created)) (h\<lparr>rq_board := snd created\<rparr>)) (\<lambda>t1 h1.
     with_step (on_board (apply_capabilities caps t1) h1) (\<lambda>t2 h2.
       saving (ri_saved io) (save_task_row t2) h2 (\<lambda>_ h3. (Ok t2, h3))))"

definition handle_create_task :: "hub_settings \<Rightarrow> request_io \<Rightarrow> task_payload \<Rightarrow> request_hub \<Rightarrow> task reply" where
  "handle_create_task cfg io p h =
     with_check (ri_signer io) h (\<lambda>pubkey.
     with_check (require_operator cfg pubkey) h (\<lambda>_.
     with_check (validate_text_field (tp_description p)) h (\<lambda>_.
     with_check (parsed (tp_expected_output_hash p)) h (\<lambda>expected.
     with_check (validate_capabilities (tp_capabilities p)) h (\<lambda>caps.
     with_check (ensure_operator_can_fund cfg io (rq_board h) (tp_bounty p)) h (\<lambda>_.
       finish_creation io (tp_min_reputation p) caps
         (create_task (ri_fresh io) (ri_clock io 0) pubkey (tp_description p) (tp_bounty p) expected (rq_board h)) h))))))"

definition handle_create_consensus_task :: "hub_settings \<Rightarrow> request_io \<Rightarrow> consensus_task_payload \<Rightarrow> request_hub \<Rightarrow> task reply" where
  "handle_create_consensus_task cfg io p h =
     with_check (ri_signer io) h (\<lambda>pubkey.
     with_check (require_operator cfg pubkey) h (\<lambda>_.
     with_check (validate_text_field (cp_description p)) h (\<lambda>_.
     with_check (validate_assignees (cp_num_assignees p)) h (\<lambda>_.
     with_check (validate_positive_minutes (cp_join_window_minutes p)) h (\<lambda>_.
     with_check (validate_positive_minutes (cp_submission_window_minutes p)) h (\<lambda>_.
     with_check (ensure_consensus_exposure_allows cfg (rq_board h) (cp_bounty p)) h (\<lambda>_.
     with_check (validate_capabilities (cp_capabilities p)) h (\<lambda>caps.
     with_check (ensure_operator_can_fund cfg io (rq_board h) (cp_bounty p)) h (\<lambda>_.
       finish_creation io (cp_min_reputation p) caps
         (create_consensus_task (ri_fresh io) (ri_clock io 1) pubkey (cp_description p) (cp_bounty p) (cp_num_assignees p)
            (ri_clock io 0 + minutes (cp_join_window_minutes p)) (cp_submission_window_minutes p) (rq_board h)) h)))))))))"

subsection \<open>Escrows\<close>

text \<open>The common end of the four handlers that reserve an escrow.\<close>

definition reserve_and_save :: "hub_settings \<Rightarrow> request_io \<Rightarrow> public_key \<Rightarrow> u64 \<Rightarrow> escrow_purpose \<Rightarrow> request_hub \<Rightarrow> pending_deposit reply" where
  "reserve_and_save cfg io pubkey required purpose h =
     (let expires_at = ri_clock io 0 + minutes ESCROW_RESERVATION_TTL_MINUTES;
          (d, b) = reserve_escrow (ri_fresh io) (ri_clock io 1) (hs_deposit_key cfg) pubkey required purpose expires_at (rq_board h)
      in saving (ri_saved io) (save_pending_deposit d) (h\<lparr>rq_board := b\<rparr>) (\<lambda>_ h1. (Ok d, h1)))"

definition handle_create_task_escrow :: "hub_settings \<Rightarrow> request_io \<Rightarrow> task_payload \<Rightarrow> request_hub \<Rightarrow> pending_deposit reply" where
  "handle_create_task_escrow cfg io p h =
     with_check (ri_signer io) h (\<lambda>pubkey.
     with_check (validate_text_field (tp_description p)) h (\<lambda>_.
     with_check (parsed (tp_expected_output_hash p)) h (\<lambda>expected.
     with_check (escrow_amount_for (tp_bounty p)) h (\<lambda>required.
     with_check (validate_capabilities (tp_capabilities p)) h (\<lambda>caps.
       reserve_and_save cfg io pubkey required
         (FundHashMatchTask \<lparr>ti_description = tp_description p, ti_bounty = tp_bounty p, ti_expected_output_hash = expected,
            ti_min_reputation = tp_min_reputation p, ti_capabilities = caps\<rparr>) h)))))"

definition handle_create_consensus_task_escrow :: "hub_settings \<Rightarrow> request_io \<Rightarrow> consensus_task_payload \<Rightarrow> request_hub \<Rightarrow> pending_deposit reply" where
  "handle_create_consensus_task_escrow cfg io p h =
     with_check (ri_signer io) h (\<lambda>pubkey.
     with_check (validate_text_field (cp_description p)) h (\<lambda>_.
     with_check (validate_assignees (cp_num_assignees p)) h (\<lambda>_.
     with_check (validate_positive_minutes (cp_join_window_minutes p)) h (\<lambda>_.
     with_check (validate_positive_minutes (cp_submission_window_minutes p)) h (\<lambda>_.
     with_check (ensure_consensus_exposure_allows cfg (rq_board h) (cp_bounty p)) h (\<lambda>_.
     with_check (escrow_amount_for (cp_bounty p)) h (\<lambda>required.
     with_check (validate_capabilities (cp_capabilities p)) h (\<lambda>caps.
       reserve_and_save cfg io pubkey required
         (FundConsensusTask \<lparr>ci_description = cp_description p, ci_bounty = cp_bounty p, ci_num_assignees = cp_num_assignees p,
            ci_join_window_minutes = cp_join_window_minutes p, ci_submission_window_minutes = cp_submission_window_minutes p,
            ci_min_reputation = cp_min_reputation p, ci_capabilities = caps\<rparr>) h))))))))"

definition handle_create_disputable_task_escrow ::
  "hub_settings \<Rightarrow> request_io \<Rightarrow> disputable_task_payload \<Rightarrow> request_hub \<Rightarrow> pending_deposit reply" where
  "handle_create_disputable_task_escrow cfg io p h =
     with_check (ri_signer io) h (\<lambda>pubkey.
     with_check (validate_text_field (dq_description p)) h (\<lambda>_.
     with_check (validate_positive_minutes (dq_dispute_window_minutes p)) h (\<lambda>_.
     with_check (escrow_amount_for (dq_bounty p)) h (\<lambda>required.
     with_check (validate_capabilities (dq_capabilities p)) h (\<lambda>caps.
       reserve_and_save cfg io pubkey required
         (FundDisputableTask \<lparr>di_description = dq_description p, di_bounty = dq_bounty p,
            di_dispute_window_minutes = dq_dispute_window_minutes p, di_min_reputation = dq_min_reputation p,
            di_capabilities = caps\<rparr>) h)))))"

definition handle_create_exchange_deposit :: "hub_settings \<Rightarrow> request_io \<Rightarrow> request_hub \<Rightarrow> pending_deposit reply" where
  "handle_create_exchange_deposit cfg io h =
     with_check (ri_signer io) h (\<lambda>pubkey. reserve_and_save cfg io pubkey MIN_EXCHANGE_DEPOSIT FundExchangeAccount h)"

definition handle_create_dispute_escrow :: "request_io \<Rightarrow> uuid \<Rightarrow> uuid \<Rightarrow> request_hub \<Rightarrow> pending_deposit reply" where
  "handle_create_dispute_escrow io url_task task_id h =
     (if task_id \<noteq> url_task then (Err BadRequest, h)
      else with_check (ri_signer io) h (\<lambda>_. (Err Conflict, h)))"

text \<open>Only the depositor confirms; what the node reports at the address is what was paid.\<close>

definition funded_by_signer :: "request_io \<Rightarrow> public_key \<Rightarrow> uuid \<Rightarrow> task_board \<Rightarrow> (api_status, u64) outcome" where
  "funded_by_signer io pubkey escrow_id b =
     (case get_pending_deposit b escrow_id of
        None \<Rightarrow> Err (from_board_error EscrowNotFound)
      | Some d \<Rightarrow> if pd_depositor d \<noteq> pubkey then Err Forbidden else observed_balance io (pd_deposit_pubkey d))"

definition handle_confirm_task_escrow :: "request_io \<Rightarrow> uuid \<Rightarrow> uuid \<Rightarrow> request_hub \<Rightarrow> task reply" where
  "handle_confirm_task_escrow io url_id escrow_id h =
     (if escrow_id \<noteq> url_id then (Err BadRequest, h)
      else with_check (ri_signer io) h (\<lambda>pubkey.
           with_check (funded_by_signer io pubkey escrow_id (rq_board h)) h (\<lambda>observed.
           with_step (on_board (\<lambda>b. from_board (confirm_escrow (ri_fresh io) (ri_clock io 1) escrow_id observed (ri_clock io 0) b)) h)
             (\<lambda>confirmation h1. case confirmation of TaskCreated t \<Rightarrow>
               with_check (expect (get_pending_deposit (rq_board h1) escrow_id)) h1 (\<lambda>d.
                 saving (ri_saved io) (save_task_and_deposit t d) h1 (\<lambda>_ h2. (Ok t, h2)))))))"

text \<open>A bond that comes too late for its dispute is sent back at once.\<close>

definition refund_late_bond :: "prims \<Rightarrow> hub_settings \<Rightarrow> escrow_io \<Rightarrow> uuid \<Rightarrow> request_hub \<Rightarrow> request_hub" where
  "refund_late_bond P cfg eio escrow_id h =
     (case get_pending_deposit (rq_board h) escrow_id of
        None \<Rightarrow> h
      | Some d \<Rightarrow> journaled (refund_escrow P (hk_escrow_private (hs_keys cfg)) eio d (rq_board h)) h)"

definition handle_confirm_dispute_escrow ::
  "prims \<Rightarrow> hub_settings \<Rightarrow> request_io \<Rightarrow> escrow_io \<Rightarrow> uuid \<Rightarrow> uuid \<Rightarrow> uuid \<Rightarrow> request_hub \<Rightarrow> task reply" where
  "handle_confirm_dispute_escrow P cfg io eio url_task task_id escrow_id h =
     (if task_id \<noteq> url_task then (Err BadRequest, h)
      else with_check (ri_signer io) h (\<lambda>pubkey.
           with_check (funded_by_signer io pubkey escrow_id (rq_board h)) h (\<lambda>observed.
             case confirm_dispute_bond escrow_id observed (ri_clock io 0) (rq_board h) of
               (Ok t, b) \<Rightarrow>
                 with_check (expect (get_pending_deposit b escrow_id)) (h\<lparr>rq_board := b\<rparr>) (\<lambda>d.
                   saving (ri_saved io) (save_task_and_deposit t d) (h\<lparr>rq_board := b\<rparr>) (\<lambda>_ h2. (Ok t, h2)))
             | (r, b) \<Rightarrow>
                 (case board_reply r of
                    Err e \<Rightarrow> (Err e, if r = Err DisputeWindowClosed then refund_late_bond P cfg eio escrow_id (h\<lparr>rq_board := b\<rparr>)
                                     else h\<lparr>rq_board := b\<rparr>)
                  | Cutoff \<Rightarrow> (Cutoff, h\<lparr>rq_board := b\<rparr>)
                  | _ \<Rightarrow> (Panic, h\<lparr>rq_board := b\<rparr>)))))"

end
