(* ===== verification/Hub_Request_Work.thy ===== *)
theory Hub_Request_Work
  imports Hub_Requests
begin

text \<open>
  Requests that do the work (\<open>claim_task\<close> to \<open>submit_consensus_task\<close> and \<open>resolve_dispute\<close> of
  \<open>hub/src/handlers.rs\<close>) and those of the exchange beside \<open>place_order\<close>.  Closing, picking,
  cancelling, crediting a deposit and cancelling an order are staged: the operation runs on a
  board that holds only the records it touches, and these move to the live board once the store
  has them.
\<close>

subsection \<open>Staging\<close>

definition staged_task :: "task \<Rightarrow> task_board" where
  "staged_task t = restore_task t task_board_new"

text \<open>One operation on a staged task, saved and published.\<close>

definition on_staged_task ::
  "bool \<Rightarrow> uuid \<Rightarrow> (task_board \<Rightarrow> unit board_result \<times> task_board) \<Rightarrow> request_hub \<Rightarrow> task reply" where
  "on_staged_task ok i f h =
     (case get_task (rq_board h) i of
        None \<Rightarrow> (Err (from_board_error NotFound), h)
      | Some t \<Rightarrow>
          (case f (staged_task t) of
             (r, s) \<Rightarrow>
               with_check (board_reply r) h (\<lambda>_.
               with_check (expect (get_task s i)) h (\<lambda>t'.
                 saving ok (save_task_row t') h (\<lambda>_ h1. (Ok t', h1\<lparr>rq_board := restore_task t' (rq_board h1)\<rparr>))))))"

definition refund_task_escrow :: "prims \<Rightarrow> hub_settings \<Rightarrow> escrow_io \<Rightarrow> uuid \<Rightarrow> request_hub \<Rightarrow> request_hub" where
  "refund_task_escrow P cfg eio i h =
     journaled (refund_closed_task_escrow P (hk_escrow_private (hs_keys cfg)) eio i (rq_board h)) h"

subsection \<open>Working on tasks\<close>

definition handle_claim_task :: "request_io \<Rightarrow> uuid \<Rightarrow> uuid \<Rightarrow> request_hub \<Rightarrow> task reply" where
  "handle_claim_task io url_task task_id h =
     (if task_id \<noteq> url_task then (Err BadRequest, h)
      else with_check (ri_signer io) h (\<lambda>pubkey.
        case get_task (rq_board h) task_id of
          None \<Rightarrow> (Err NotFoundReply, h)
        | Some t0 \<Rightarrow>
            with_step (on_board (\<lambda>b. from_board
                (case tk_kind t0 of
                   Consensus _ \<Rightarrow> join_consensus_task (ri_clock io 0) (ri_clock io 1) task_id pubkey b
                 | _ \<Rightarrow> claim_task task_id pubkey (ri_clock io 0 + minutes CLAIM_TTL_MINUTES) b)) h) (\<lambda>_ h1.
            with_check (expect (get_task (rq_board h1) task_id)) h1 (\<lambda>t.
              saving (ri_saved io) (save_task_row t) h1 (\<lambda>_ h2. (Ok t, h2))))))"

definition handle_close_task :: "prims \<Rightarrow> hub_settings \<Rightarrow> request_io \<Rightarrow> escrow_io \<Rightarrow> uuid \<Rightarrow> uuid \<Rightarrow> request_hub \<Rightarrow> task reply" where
  "handle_close_task P cfg io eio url_task task_id h =
     (if task_id \<noteq> url_task then (Err BadRequest, h)
      else with_check (ri_signer io) h (\<lambda>pubkey.
        with_step (on_staged_task (ri_saved io) task_id (close_contest task_id pubkey (ri_clock io 0)) h) (\<lambda>t h1.
          (Ok t, if tk_status t = Closed then refund_task_escrow P cfg eio task_id h1 else h1))))"

definition handle_cancel_task :: "prims \<Rightarrow> hub_settings \<Rightarrow> request_io \<Rightarrow> escrow_io \<Rightarrow> uuid \<Rightarrow> uuid \<Rightarrow> request_hub \<Rightarrow> task reply" where
  "handle_cancel_task P cfg io eio url_task task_id h =
     (if task_id \<noteq> url_task then (Err BadRequest, h)
      else with_check (ri_signer io) h (\<lambda>pubkey.
        with_check (require_operator cfg pubkey) h (\<lambda>_.
        with_step (on_staged_task (ri_saved io) task_id (cancel_task task_id) h) (\<lambda>t h1.
          (Ok t, refund_task_escrow P cfg eio task_id h1)))))"

text \<open>The task as the board has it after a settlement; a process that died answers nothing.\<close>

definition settled_task :: "bool option \<times> request_hub \<Rightarrow> uuid \<Rightarrow> task reply" where
  "settled_task x i =
     (case fst x of
        None \<Rightarrow> (Panic, snd x)
      | Some _ \<Rightarrow> with_check (expect (get_task (rq_board (snd x)) i)) (snd x) (\<lambda>t. (Ok t, snd x)))"

definition handle_pick_answer ::
  "prims \<Rightarrow> hub_settings \<Rightarrow> request_io \<Rightarrow> (nat \<Rightarrow> payout_io) \<Rightarrow> uuid \<Rightarrow> uuid \<Rightarrow> public_key option \<Rightarrow> request_hub \<Rightarrow> task reply" where
  "handle_pick_answer P cfg io pio url_task task_id picked h =
     (if task_id \<noteq> url_task then (Err BadRequest, h)
      else with_check (ri_signer io) h (\<lambda>pubkey.
        with_check (parsed picked) h (\<lambda>answerer.
        with_step (on_staged_task (ri_saved io) task_id (pick_answer task_id pubkey answerer (ri_clock io 0)) h) (\<lambda>_ h1.
          settled_task (settle_now P cfg pio task_id h1) task_id))))"

definition settle_both_legs ::
  "prims \<Rightarrow> hub_settings \<Rightarrow> (nat \<Rightarrow> payout_io) \<Rightarrow> escrow_io \<Rightarrow> uuid \<Rightarrow> request_hub \<Rightarrow> task reply" where
  "settle_both_legs P cfg pio eio task_id h =
     (case settle_now P cfg pio task_id h of
        (None, h1) \<Rightarrow> (Panic, h1)
      | (Some all_sent, h1) \<Rightarrow>
          settled_task (Some all_sent,
            journaled (snd (settle_dispute_bond P (hk_escrow_private (hs_keys cfg)) eio task_id (rq_board h1))) h1) task_id)"

definition handle_resolve_dispute ::
  "prims \<Rightarrow> hub_settings \<Rightarrow> request_io \<Rightarrow> (nat \<Rightarrow> payout_io) \<Rightarrow> escrow_io \<Rightarrow> uuid \<Rightarrow> uuid \<Rightarrow> dispute_resolution \<Rightarrow> request_hub
     \<Rightarrow> task reply" where
  "handle_resolve_dispute P cfg io pio eio url_task task_id verdict h =
     (if task_id \<noteq> url_task then (Err BadRequest, h)
      else with_check (ri_signer io) h (\<lambda>pubkey.
        with_check (require_operator cfg pubkey) h (\<lambda>_.
        with_step (on_board (\<lambda>b. from_board (resolve_dispute task_id verdict b)) h) (\<lambda>(_, loser) h1.
        with_check (expect (get_task (rq_board h1) task_id)) h1 (\<lambda>t.
        saving (ri_saved io) (save_task_and_reputation t loser (reputation_of (rq_board h1) loser)) h1 (\<lambda>_ h2.
          settle_both_legs P cfg pio eio task_id h2))))))"

record submit_result =
  sr_verified :: bool
  sr_paid :: bool
  sr_bounty :: "u64 option"
  sr_resolved :: "bool option"

text \<open>An answer the store refuses is taken back.\<close>

definition submit_disputable_task :: "request_io \<Rightarrow> uuid \<Rightarrow> public_key \<Rightarrow> string \<Rightarrow> request_hub \<Rightarrow> submit_result reply" where
  "submit_disputable_task io task_id pubkey answer h =
     with_step (on_board (\<lambda>b. from_board (submit_contest_answer task_id pubkey answer (ri_clock io 0) b)) h) (\<lambda>_ h1.
     with_check (expect (get_task (rq_board h1) task_id)) h1 (\<lambda>t.
       if ri_saved io
       then (Ok \<lparr>sr_verified = False, sr_paid = False, sr_bounty = None, sr_resolved = Some False\<rparr>, save_task_row t h1)
       else (Err InternalError,
             (case get_task (rq_board h) task_id of
                None \<Rightarrow> h1
              | Some previous \<Rightarrow> h1\<lparr>rq_board := restore_task previous (rq_board h1)\<rparr>))))"

text \<open>UTF-8 of characters up to \<open>0xFF\<close>.\<close>

definition as_bytes :: "string \<Rightarrow> byte list" where
  "as_bytes s = concat (map (\<lambda>c. let n = of_char c :: nat
     in if n < 128 then [of_nat n] else [of_nat (192 + n div 64), of_nat (128 + n mod 64)]) s)"

definition submit_hash_match_task ::
  "prims \<Rightarrow> hub_settings \<Rightarrow> request_io \<Rightarrow> (nat \<Rightarrow> payout_io) \<Rightarrow> uuid \<Rightarrow> public_key \<Rightarrow> string \<Rightarrow> request_hub \<Rightarrow> submit_result reply" where
  "submit_hash_match_task P cfg io pio task_id pubkey output h =
     with_step (on_board (\<lambda>b. from_board (submit task_id pubkey (hash_bytes P (as_bytes output)) b)) h) (\<lambda>verified h1.
     with_check (expect (get_task (rq_board h1) task_id)) h1 (\<lambda>t.
     saving (ri_saved io) (save_task_and_reputation t pubkey (reputation_of (rq_board h1) pubkey)) h1 (\<lambda>_ h2.
       if \<not> verified
       then (Ok \<lparr>sr_verified = False, sr_paid = False, sr_bounty = None, sr_resolved = None\<rparr>, h2)
       else (case settle_now P cfg pio task_id h2 of
               (None, h3) \<Rightarrow> (Panic, h3)
             | (Some paid, h3) \<Rightarrow>
                 (Ok \<lparr>sr_verified = True, sr_paid = paid, sr_bounty = Some (tk_bounty t), sr_resolved = None\<rparr>, h3)))))"

definition submission_entries :: "task_board \<Rightarrow> task \<Rightarrow> public_key \<Rightarrow> bool \<Rightarrow> (public_key \<times> reputation_entry) list" where
  "submission_entries b t submitter complete =
     (submitter, reputation_of b submitter)
     # (if complete then map (\<lambda>k. (k, reputation_of b k)) (filter (\<lambda>k. k \<noteq> submitter) (consensus_assignees t)) else [])"

text \<open>What the agent whose answer completed the vote is told.\<close>

definition consensus_result :: "uuid \<Rightarrow> task_board \<Rightarrow> task \<Rightarrow> public_key \<Rightarrow> (api_status, submit_result) outcome" where
  "consensus_result task_id b t pubkey =
     (case List.find (\<lambda>(k, _). k = pubkey) (pending_payouts t) of
        None \<Rightarrow> Ok \<lparr>sr_verified = False, sr_paid = False, sr_bounty = None, sr_resolved = Some True\<rparr>
      | Some (_, amount) \<Rightarrow>
          obind (expect (get_task b task_id)) (\<lambda>now_task.
            let paid = (case tk_kind now_task of
                  Consensus k \<Rightarrow> (case bm_get (cs_assignees k) pubkey of None \<Rightarrow> False | Some a \<Rightarrow> ca_paid a)
                | _ \<Rightarrow> False)
            in Ok \<lparr>sr_verified = True, sr_paid = paid, sr_bounty = Some amount, sr_resolved = Some True\<rparr>))"

definition submit_consensus_task ::
  "prims \<Rightarrow> hub_settings \<Rightarrow> request_io \<Rightarrow> (nat \<Rightarrow> payout_io) \<Rightarrow> escrow_io \<Rightarrow> uuid \<Rightarrow> public_key \<Rightarrow> string \<Rightarrow> request_hub
     \<Rightarrow> submit_result reply" where
  "submit_consensus_task P cfg io pio eio task_id pubkey output h =
     with_step (on_board (\<lambda>b. from_board (submit_consensus_answer (ri_clock io 0) task_id pubkey output b)) h) (\<lambda>complete h1.
     with_check (expect (get_task (rq_board h1) task_id)) h1 (\<lambda>t.
     saving (ri_saved io) (save_task_and_reputation_batch t (submission_entries (rq_board h1) t pubkey complete)) h1 (\<lambda>_ h2.
       if \<not> complete
       then (Ok \<lparr>sr_verified = False, sr_paid = False, sr_bounty = None, sr_resolved = Some False\<rparr>, h2)
       else (case settle_now P cfg pio task_id h2 of
               (None, h3) \<Rightarrow> (Panic, h3)
             | (Some _, h3) \<Rightarrow>
                 let h4 = (if tk_status t = Closed then refund_task_escrow P cfg eio task_id h3 else h3)
                 in (consensus_result task_id (rq_board h4) t pubkey, h4)))))"

definition handle_submit_task ::
  "prims \<Rightarrow> hub_settings \<Rightarrow> request_io \<Rightarrow> (nat \<Rightarrow> payout_io) \<Rightarrow> escrow_io \<Rightarrow> uuid \<Rightarrow> uuid \<Rightarrow> string \<Rightarrow> request_hub \<Rightarrow> submit_result reply" where
  "handle_submit_task P cfg io pio eio url_task task_id output h =
     (if task_id \<noteq> url_task then (Err BadRequest, h)
      else with_check (ri_signer io) h (\<lambda>pubkey.
        with_check (validate_text_field output) h (\<lambda>_.
        case get_task (rq_board h) task_id of
          None \<Rightarrow> (Err NotFoundReply, h)
        | Some t \<Rightarrow>
            (case tk_kind t of
               Consensus _ \<Rightarrow> submit_consensus_task P cfg io pio eio task_id pubkey output h
             | Disputable _ \<Rightarrow> submit_disputable_task io task_id pubkey output h
             | HashMatch _ \<Rightarrow> submit_hash_match_task P cfg io pio task_id pubkey output h))))"

subsection \<open>The exchange\<close>

definition handle_confirm_exchange_deposit ::
  "prims \<Rightarrow> hub_settings \<Rightarrow> request_io \<Rightarrow> escrow_io \<Rightarrow> uuid \<Rightarrow> uuid \<Rightarrow> request_hub \<Rightarrow> exchange_account reply" where
  "handle_confirm_exchange_deposit P cfg io eio url_id escrow_id h =
     (if escrow_id \<noteq> url_id then (Err BadRequest, h)
      else with_check (ri_signer io) h (\<lambda>pubkey.
        with_check (funded_by_signer io pubkey escrow_id (rq_board h)) h (\<lambda>observed.
        case get_pending_deposit (rq_board h) escrow_id of
          None \<Rightarrow> (Err (from_board_error EscrowNotFound), h)
        | Some d0 \<Rightarrow>
            (case confirm_exchange_deposit escrow_id observed HUB_TRANSACTION_FEE (ri_clock io 0)
                    (restore_exchange_account pubkey (exchange_account_of (rq_board h) pubkey)
                      (restore_pending_deposit d0 task_board_new)) of
               (r, s) \<Rightarrow>
                 with_check (board_reply r) h (\<lambda>(depositor, _).
                 with_check (expect (get_pending_deposit s escrow_id)) h (\<lambda>d.
                   let account = exchange_account_of s depositor
                   in saving (ri_saved io) (save_exchange_account_and_deposit depositor account d) h (\<lambda>_ h1.
                        let h2 = h1\<lparr>rq_board := restore_pending_deposit d (restore_exchange_account depositor account (rq_board h1))\<rparr>
                        in (Ok account,
                            journaled (snd (sweep_exchange_deposit P (hk_escrow_private (hs_keys cfg)) (hs_custody_public cfg) eio
                              escrow_id (rq_board h2))) h2))))))))"

definition handle_cancel_order :: "request_io \<Rightarrow> uuid \<Rightarrow> uuid \<Rightarrow> request_hub \<Rightarrow> order reply" where
  "handle_cancel_order io url_order order_id h =
     (if order_id \<noteq> url_order then (Err BadRequest, h)
      else with_check (ri_signer io) h (\<lambda>pubkey.
        case get_order (rq_board h) order_id of
          None \<Rightarrow> (Err (from_board_error OrderNotFound), h)
        | Some o0 \<Rightarrow>
            (case cancel_order order_id pubkey
                    (restore_exchange_account pubkey (exchange_account_of (rq_board h) pubkey) (restore_order o0 task_board_new)) of
               (r, s) \<Rightarrow>
                 with_check (board_reply r) h (\<lambda>o'.
                   let account = exchange_account_of s pubkey
                   in saving (ri_saved io) (save_order_and_account o' pubkey account) h (\<lambda>_ h1.
                        (Ok o', h1\<lparr>rq_board := restore_exchange_account pubkey account (restore_order o' (rq_board h1))\<rparr>))))))"

text \<open>The payment's id, times and height and whether its writes commit are those of \<open>escrow_io\<close>.\<close>

definition handle_withdraw :: "prims \<Rightarrow> hub_settings \<Rightarrow> request_io \<Rightarrow> escrow_io \<Rightarrow> u64 \<Rightarrow> request_hub \<Rightarrow> (exchange_account \<times> payment) reply" where
  "handle_withdraw P cfg io eio debit h =
     with_check (ri_signer io) h (\<lambda>pubkey.
       if debit < MIN_EXCHANGE_WITHDRAWAL then (Err BadRequest, h)
       else let b = rq_board h;
                account = exchange_account_of b pubkey;
                available = saturating_sub (ex_base_balance account) (ex_locked_base account)
            in if available < debit then (Err (from_board_error (InsufficientBalance available debit)), h)
               else let net = debit - HUB_TRANSACTION_FEE
                    in (case build_payment_from_fresh P (ei_output_ids eio) (ei_utxos eio) b (hs_custody_private cfg)
                               (hs_custody_public cfg) [(pubkey, net)] (hs_custody_public cfg) of
                          Ok tx \<Rightarrow>
                            (case prepare (ei_height eio) (ei_reserved eio)
                                    (payment_new P (ei_payment_id eio) (ei_created eio) (ei_submitted eio) (PayWithdrawal debit)
                                       (hs_custody_public cfg) pubkey net (Some tx)) b of
                               (Ok p, b1) \<Rightarrow>
                                 let h2 = journaled (send (ei_confirmed eio) p b1) h
                                 in (Ok (exchange_account_of (rq_board h2) pubkey, p), h2)
                             | (Err _, b1) \<Rightarrow> (Err InternalError, journaled ([], b1) h)
                             | (_, b1) \<Rightarrow> (Panic, journaled ([], b1) h))
                        | Err _ \<Rightarrow> (Err InternalError, h)
                        | _ \<Rightarrow> (Panic, h)))"

subsection \<open>Starting again\<close>

text \<open>
  Start-up (\<open>main\<close>) reads the tables back; payments, grants and trades are written before the
  board has them, so their rows are those of the board that stopped.
\<close>

definition restart_requests :: "request_hub \<Rightarrow> request_hub" where
  "restart_requests h =
     (let old = rq_board h;
          b = task_board_new\<lparr>bd_payments := bd_payments old\<rparr>;
          b = fold restore_task (bm_values (ps_tasks (rq_store h))) b;
          b = fold (\<lambda>(k, r). restore_reputation k r) (ps_reputation (rq_store h)) b;
          b = b\<lparr>bd_faucet_grants := bd_faucet_grants old, bd_faucet_grant_prefixes := bd_faucet_grant_prefixes old\<rparr>;
          b = fold restore_pending_deposit (bm_values (rq_deposits h)) b;
          b = fold (\<lambda>(k, a). restore_exchange_account k a) (rq_accounts h) b;
          b = fold restore_order (bm_values (rq_orders h)) b;
          b = b\<lparr>bd_trades := bd_trades old\<rparr>;
          b = fold restore_payout_attempt (bm_values (ps_attempts (rq_store h))) b
      in h\<lparr>rq_board := b\<rparr>)"

subsection \<open>What a handler keeps\<close>

text \<open>Whatever holds of the hub before a check, a step or a write and after what follows it.\<close>

lemma kept_check: "keeps h \<Longrightarrow> (\<And>v. r = Ok v \<Longrightarrow> keeps (snd (k v))) \<Longrightarrow> keeps (snd (with_check r h k))"
  by (cases r) simp_all

lemma kept_step:
  "keeps (snd x) \<Longrightarrow> (\<And>v. fst x = Ok v \<Longrightarrow> keeps (snd x) \<Longrightarrow> keeps (snd (k v (snd x)))) \<Longrightarrow> keeps (snd (with_step x k))"
  by (simp add: with_step_def kept_check)

lemma kept_saving: "keeps h \<Longrightarrow> (ok \<Longrightarrow> keeps (snd (k () (write h)))) \<Longrightarrow> keeps (snd (saving ok write h k))"
  by (simp add: saving_def)

end
