(* ===== verification/Hub_Request_Inv.thy ===== *)
theory Hub_Request_Inv
  imports Hub_Request_Work
begin

text \<open>
  Requests as a machine: any sequence of the handlers, of the other operations of the hub on its
  board, and of restarts.  The invariant is what an escrow asks for: every reservation of a task
  escrow, in memory and on disk, requires the bounty and the fee, computed without wrap-around.
\<close>

datatype request =
    PostTask request_io task_payload
  | PostConsensusTask request_io consensus_task_payload
  | EscrowTask request_io task_payload
  | EscrowConsensusTask request_io consensus_task_payload
  | EscrowDisputableTask request_io disputable_task_payload
  | EscrowExchange request_io
  | EscrowDispute request_io uuid uuid
  | ConfirmTaskEscrow request_io uuid uuid
  | ConfirmDisputeEscrow request_io escrow_io uuid uuid uuid
  | ConfirmExchange request_io escrow_io uuid uuid
  | Claim request_io uuid uuid
  | Close request_io escrow_io uuid uuid
  | Cancel request_io escrow_io uuid uuid
  | Pick request_io "nat \<Rightarrow> payout_io" uuid uuid "public_key option"
  | Resolve_Dispute request_io "nat \<Rightarrow> payout_io" escrow_io uuid uuid dispute_resolution
  | Submit request_io "nat \<Rightarrow> payout_io" escrow_io uuid uuid string
  | Cancel_Order request_io uuid uuid
  | Withdraw request_io escrow_io u64
  | Elsewhere hub_call
  | HubRestart

fun run_request :: "prims \<Rightarrow> hub_settings \<Rightarrow> request \<Rightarrow> request_hub \<Rightarrow> request_hub" where
  "run_request P cfg (PostTask io p) h = snd (handle_create_task cfg io p h)"
| "run_request P cfg (PostConsensusTask io p) h = snd (handle_create_consensus_task cfg io p h)"
| "run_request P cfg (EscrowTask io p) h = snd (handle_create_task_escrow cfg io p h)"
| "run_request P cfg (EscrowConsensusTask io p) h = snd (handle_create_consensus_task_escrow cfg io p h)"
| "run_request P cfg (EscrowDisputableTask io p) h = snd (handle_create_disputable_task_escrow cfg io p h)"
| "run_request P cfg (EscrowExchange io) h = snd (handle_create_exchange_deposit cfg io h)"
| "run_request P cfg (EscrowDispute io u i) h = snd (handle_create_dispute_escrow io u i h)"
| "run_request P cfg (ConfirmTaskEscrow io u i) h = snd (handle_confirm_task_escrow io u i h)"
| "run_request P cfg (ConfirmDisputeEscrow io eio u i e) h = snd (handle_confirm_dispute_escrow P cfg io eio u i e h)"
| "run_request P cfg (ConfirmExchange io eio u e) h = snd (handle_confirm_exchange_deposit P cfg io eio u e h)"
| "run_request P cfg (Claim io u i) h = snd (handle_claim_task io u i h)"
| "run_request P cfg (Close io eio u i) h = snd (handle_close_task P cfg io eio u i h)"
| "run_request P cfg (Cancel io eio u i) h = snd (handle_cancel_task P cfg io eio u i h)"
| "run_request P cfg (Pick io pio u i k) h = snd (handle_pick_answer P cfg io pio u i k h)"
| "run_request P cfg (Resolve_Dispute io pio eio u i v) h = snd (handle_resolve_dispute P cfg io pio eio u i v h)"
| "run_request P cfg (Submit io pio eio u i s) h = snd (handle_submit_task P cfg io pio eio u i s h)"
| "run_request P cfg (Cancel_Order io u i) h = snd (handle_cancel_order io u i h)"
| "run_request P cfg (Withdraw io eio v) h = snd (handle_withdraw P cfg io eio v h)"
| "run_request P cfg (Elsewhere c) h = h\<lparr>rq_board := run_hub P c (rq_board h)\<rparr>"
| "run_request P cfg HubRestart h = restart_requests h"

text \<open>Escrows are reserved by the handlers above only.\<close>

fun request_allowed :: "request \<Rightarrow> request_hub \<Rightarrow> bool" where
  "request_allowed (Elsewhere (OnTasks (ReserveEscrow fresh now derive depositor required purpose expires))) h \<longleftrightarrow> False"
| "request_allowed _ h \<longleftrightarrow> True"

definition requests_start :: request_hub where
  "requests_start = \<lparr>rq_board = task_board_new, rq_store = \<lparr>ps_tasks = [], ps_attempts = [], ps_reputation = []\<rparr>,
     rq_deposits = [], rq_accounts = [], rq_orders = [], rq_sent = []\<rparr>"

definition requests_reachable :: "prims \<Rightarrow> hub_settings \<Rightarrow> request_hub \<Rightarrow> bool" where
  "requests_reachable P cfg h \<longleftrightarrow> reaches request_allowed (run_request P cfg) requests_start h"

subsection \<open>The invariant\<close>

definition purpose_bounty :: "escrow_purpose \<Rightarrow> u64 option" where
  "purpose_bounty p = (case p of FundHashMatchTask i \<Rightarrow> Some (ti_bounty i) | FundConsensusTask i \<Rightarrow> Some (ci_bounty i)
     | FundDisputableTask i \<Rightarrow> Some (di_bounty i) | _ \<Rightarrow> None)"

text \<open>No handler reserves a bond: \<open>create_dispute_escrow\<close> refuses every request.\<close>

definition funds :: "escrow_purpose \<Rightarrow> bool" where
  "funds p = (case p of DisputeBond _ _ \<Rightarrow> False | _ \<Rightarrow> True)"

definition priced_deposit :: "pending_deposit \<Rightarrow> bool" where
  "priced_deposit d \<longleftrightarrow> funds (pd_purpose d) \<and> (case purpose_bounty (pd_purpose d) of None \<Rightarrow> True
     | Some v \<Rightarrow> unat (pd_required_amount d) = unat v + unat HUB_TRANSACTION_FEE)"

definition priced :: "(uuid, pending_deposit) bmap \<Rightarrow> bool" where
  "priced D \<longleftrightarrow> (\<forall>(i, d) \<in> set D. pd_id d = i \<and> priced_deposit d)"

text \<open>Rows are stored under their ids.\<close>

definition task_rows :: "(uuid, task) bmap \<Rightarrow> bool" where
  "task_rows m \<longleftrightarrow> bm_wf m \<and> (\<forall>i t. bm_get m i = Some t \<longrightarrow> tk_id t = i)"

definition requests_inv :: "request_hub \<Rightarrow> bool" where
  "requests_inv h \<longleftrightarrow> priced (bd_pending_deposits (rq_board h)) \<and> priced (rq_deposits h)
     \<and> bm_wf (rq_deposits h) \<and> task_rows (ps_tasks (rq_store h))"

lemma task_rows_save [simp]: "task_rows (ps_tasks st) \<Longrightarrow> task_rows (ps_tasks (save_task t st))"
  by (auto simp: task_rows_def save_task_def split: if_splits)

lemma priced_status [simp]: "priced_deposit (d\<lparr>pd_status := st\<rparr>) = priced_deposit d"
  by (simp add: priced_deposit_def split: option.split)

lemma priced_insert: "priced D \<Longrightarrow> priced_deposit d \<Longrightarrow> pd_id d = i \<Longrightarrow> priced (bm_insert i d D)"
  using bm_insert_subset [of i d D] by (auto simp: priced_def)

lemma priced_get: "priced D \<Longrightarrow> bm_get D i = Some d \<Longrightarrow> pd_id d = i \<and> priced_deposit d"
  using bm_get_in_set [of D i d] by (auto simp: priced_def)

lemma priced_Nil [simp]: "priced []"
  by (simp add: priced_def)

lemma priced_fold:
  "priced D \<Longrightarrow> (\<And>i d. (i, d) \<in> set rows \<Longrightarrow> pd_id d = i \<and> priced_deposit d) \<Longrightarrow> priced (fold (\<lambda>(i, d). bm_insert i d) rows D)"
  by (induction rows arbitrary: D) (auto intro: priced_insert)

lemma priced_write: "priced D \<Longrightarrow> priced after \<Longrightarrow> priced (write_rows before after D)"
  unfolding write_rows_def by (rule priced_fold) (auto simp: priced_def)

lemma priced_update:
  assumes "priced (bd_pending_deposits b)" "bm_get (bd_pending_deposits b) i = Some d"
  shows "priced (bm_insert i (d\<lparr>pd_status := st\<rparr>) (bd_pending_deposits b))"
    and "priced (bm_insert (pd_id d) (d\<lparr>pd_status := st\<rparr>) (bd_pending_deposits b))"
  using assms priced_get [OF assms] by (auto intro: priced_insert)

text \<open>Operations of the board other than a reservation only change the status of deposits.\<close>

lemma board_priced:
  assumes "priced (bd_pending_deposits b)"
    and "\<And>fresh now derive depositor required purpose expires. c \<noteq> ReserveEscrow fresh now derive depositor required purpose expires"
  shows "priced (bd_pending_deposits (run_board c b))"
proof (cases c)
  case (ConfirmEscrow fresh clock i observed now)
  then show ?thesis using confirm_escrow_deposits_eq [of fresh clock i observed now b] assms(1)
    by (auto intro: priced_update)
next
  case (ConfirmDisputeBond i observed now)
  then show ?thesis using assms(1)
    by (auto simp: confirm_dispute_bond_def with_check_snd Let_def set_deposit_def
        intro: priced_update split: option.split escrow_purpose.split task_kind.split outcome.split)
next
  case (MarkEscrowRefunded i)
  then show ?thesis using assms(1) by (auto simp: mark_escrow_refunded_def set_deposit_def intro: priced_update split: option.split)
qed (use assms in \<open>auto simp: restore_task_def create_task_def create_consensus_task_def create_disputable_task_def Let_def\<close>)

lemma market_priced:
  assumes "priced (bd_pending_deposits b)"
  shows "priced (bd_pending_deposits (run_exchange c b))"
proof -
  have same: ?thesis if "rest (run_exchange c b) = rest b" using that assms by (simp add: rest_def)
  show ?thesis
  proof (cases c)
    case (ConfirmExchangeDeposit i observed fee now)
    have cb: "bd_pending_deposits (snd (credit_base k a x)) = bd_pending_deposits x" for k a x
      using update_account_rest [of k "account_add_base a" x] by (simp add: rest_def credit_base_def)
    show ?thesis unfolding ConfirmExchangeDeposit using assms
      by (auto simp: confirm_exchange_deposit_def Let_def cb intro: priced_update split: option.split)
  qed (rule same, simp add: credit_base_def credit_compute_def credit_back_withdrawal_def debit_for_withdrawal_def Let_def)+
qed

lemma effects_priced:
  "confirmed_effects p b = Ok b' \<Longrightarrow> priced (bd_pending_deposits b) \<Longrightarrow> priced (bd_pending_deposits b')"
  "reservation p b = Ok b' \<Longrightarrow> priced (bd_pending_deposits b) \<Longrightarrow> priced (bd_pending_deposits b')"
  by (auto simp: confirmed_effects_def reservation_def restore_pending_deposit_def set_deposit_def restore_reputation_def
      restore_faucet_grant_def restore_exchange_account_def get_pending_deposit_def Let_def intro: priced_update
      split: option.splits if_splits payment_purpose.splits)

lemma confirm_priced: "priced (bd_pending_deposits b) \<Longrightarrow> priced (bd_pending_deposits (snd (confirm ok p b)))"
  using effects_priced(1) by (auto simp: confirm_def with_check_def Let_def split: option.split outcome.split)

lemma prepare_priced: "priced (bd_pending_deposits b) \<Longrightarrow> priced (bd_pending_deposits (snd (prepare height ok p b)))"
  using effects_priced(2) by (auto simp: prepare_def with_check_def Let_def split: outcome.split)

lemma send_priced: "priced (bd_pending_deposits b) \<Longrightarrow> priced (bd_pending_deposits (snd (send ok p b)))"
  by (simp add: send_def confirm_priced split: option.split)

lemma resolve_priced:
  assumes "priced (bd_pending_deposits b)"
  shows "priced (bd_pending_deposits (snd (snd (resolve P v p now b))))" (is "?ok (resolve P v p now b)")
proof -
  have "priced (bd_pending_deposits (snd (send ok q (put_payment q b))))" for ok q
    using send_priced [of "put_payment q b" ok q] assms by simp
  then have "?ok (resend ok p now b)" for ok using assms by (auto simp: resend_def Let_def split: option.split)
  moreover have "?ok (no_sends (save_progress ok p q b))" for ok q
    using assms by (auto simp: save_progress_def no_sends_def Let_def split: option.split)
  moreover have "?ok (no_sends (confirm ok p b))" for ok by (simp add: no_sends_def confirm_priced assms)
  ultimately show ?thesis using assms by (auto simp: resolve_def split: outcome.split evidence.split prod.split)
qed

lemma hub_priced:
  assumes "priced (bd_pending_deposits b)"
    and "\<And>fresh now derive depositor required purpose expires. c \<noteq> OnTasks (ReserveEscrow fresh now derive depositor required purpose expires)"
  shows "priced (bd_pending_deposits (run_hub P c b))"
proof (cases c)
  case (OnTasks d)
  then have "priced (bd_pending_deposits (run_board d b))" using assms(2) by (intro board_priced [OF assms(1)]) auto
  then show ?thesis by (simp add: OnTasks)
qed (use assms(1) market_priced prepare_priced send_priced resolve_priced in simp_all)

subsection \<open>Settlements\<close>

abbreviation deposits :: "payout_hub \<Rightarrow> (uuid, pending_deposit) bmap" where
  "deposits h \<equiv> bd_pending_deposits (ph_board h)"

lemma record_deposits: "bd_pending_deposits (fold record_payout_attempt as b) = bd_pending_deposits b"
proof (induction as arbitrary: b)
  case (Cons a as)
  have "bd_pending_deposits (record_payout_attempt a b) = bd_pending_deposits b"
    by (simp add: record_payout_attempt_def restore_payout_attempt_def set_task_def Let_def split: option.split)
  then show ?case using Cons by simp
qed simp

lemma submit_task_payout_deposits: "deposits (snd (snd (submit_task_payout P io i key source rs change h))) = deposits h"
  by (auto simp: submit_task_payout_def record_deposits Let_def split: outcome.split option.split fate.split prod.split)

lemma settle_one_deposits: "deposits (snd (snd (settle_one_payout P keys io i r a h))) = deposits h"
  by (simp add: settle_one_payout_def submit_bounty_payout_def submit_task_payout_deposits split: option.split)

lemma settle_each_deposits: "deposits (snd (snd (settle_each P keys io k i rs h))) = deposits h"
proof (induction P keys io k i rs h rule: settle_each.induct)
  case (2 P keys io k i r a rs h)
  show ?case
  proof (cases "settle_one_payout P keys (io k) i r a h")
    case (fields res sent h1)
    then show ?thesis using 2 settle_one_deposits [of P keys "io k" i r a h] by (auto split: option.split prod.split)
  qed
qed simp

lemma try_settle_deposits: "deposits (snd (snd (try_settle_verified_task P keys io i h))) = deposits h"
  by (auto simp: try_settle_verified_task_def settle_escrow_funded_task_def submit_task_payout_deposits settle_each_deposits Let_def
      split: option.split)

text \<open>What they write to the table of tasks are whole tasks.\<close>

abbreviation rows :: "payout_hub \<Rightarrow> (uuid, task) bmap" where
  "rows h \<equiv> ps_tasks (ph_store h)"

lemma attempts_leave_tasks: "ps_tasks (snd (save_attempts fates k as st)) = ps_tasks st"
  by (induction fates k as st rule: save_attempts.induct) (auto simp: save_payout_attempt_def split: fate.split)

lemma submit_task_payout_rows:
  assumes "task_rows (rows h)"
  shows "task_rows (rows (snd (snd (submit_task_payout P io i key source rs change h))))"
proof -
  have "task_rows (ps_tasks st)" if "save_attempts fates k as (ph_store h) = (f, st)" for fates k as f st
    using attempts_leave_tasks [of fates k as "ph_store h"] that assms by simp
  then show ?thesis using assms
    by (auto simp: submit_task_payout_def Let_def split: outcome.split option.split fate.split prod.split)
qed

lemma settle_one_rows: "task_rows (rows h) \<Longrightarrow> task_rows (rows (snd (snd (settle_one_payout P keys io i r a h))))"
  by (simp add: settle_one_payout_def submit_bounty_payout_def submit_task_payout_rows split: option.split)

lemma settle_each_rows: "task_rows (rows h) \<Longrightarrow> task_rows (rows (snd (snd (settle_each P keys io k i rs h))))"
proof (induction P keys io k i rs h rule: settle_each.induct)
  case (2 P keys io k i r a rs h)
  show ?case
  proof (cases "settle_one_payout P keys (io k) i r a h")
    case (fields res sent h1)
    then show ?thesis using 2 settle_one_rows [OF 2(2), of P keys "io k" i r a] by (auto split: option.split prod.split)
  qed
qed simp

lemma try_settle_rows: "task_rows (rows h) \<Longrightarrow> task_rows (rows (snd (snd (try_settle_verified_task P keys io i h))))"
  by (auto simp: try_settle_verified_task_def settle_escrow_funded_task_def submit_task_payout_rows settle_each_rows Let_def
      split: option.split)

lemma disburse_priced:
  assumes "priced (bd_pending_deposits b)"
  shows "priced (bd_pending_deposits (snd (snd (disburse_escrow P key io d k credit b))))"
proof -
  have "priced (bd_pending_deposits (snd (snd (pay_escrow_balance P key io d k credit v b))))" for v
    using assms prepare_priced [OF assms] send_priced
    by (auto simp: pay_escrow_balance_def Let_def split: option.split prod.split outcome.split) (metis prod.sel(2))+
  then show ?thesis using assms by (auto simp: disburse_escrow_def split: option.split outcome.split)
qed

lemma refunds_priced:
  assumes "priced (bd_pending_deposits b)"
  shows "priced (bd_pending_deposits (snd (refund_escrow P key io d b)))"
    and "priced (bd_pending_deposits (snd (refund_closed_task_escrow P key io i b)))"
    and "priced (bd_pending_deposits (snd (snd (settle_dispute_bond P key io i b))))"
    and "priced (bd_pending_deposits (snd (snd (sweep_exchange_deposit P key custody io i b))))"
  using assms disburse_priced [OF assms]
  by (auto simp: refund_escrow_def refund_closed_task_escrow_def settle_dispute_bond_def sweep_exchange_deposit_def
      split: option.split sum.split prod.split) (metis prod.sel(2))+

subsection \<open>The handlers keep the invariant\<close>

lemma inv_board: "requests_inv h \<Longrightarrow> priced (bd_pending_deposits b) \<Longrightarrow> requests_inv (h\<lparr>rq_board := b\<rparr>)"
  by (simp add: requests_inv_def)

lemmas inv_check = kept_check [where keeps = requests_inv]
lemmas inv_step = kept_step [where keeps = requests_inv]
lemmas inv_saving = kept_saving [where keeps = requests_inv]

lemma inv_on_board:
  "requests_inv h \<Longrightarrow> priced (bd_pending_deposits (snd (f (rq_board h)))) \<Longrightarrow> requests_inv (snd (on_board f h))"
  by (auto simp: on_board_def inv_board split: prod.split)

lemma inv_task_rows [simp]:
  "requests_inv h \<Longrightarrow> requests_inv (save_task_row t h)"
  "requests_inv h \<Longrightarrow> requests_inv (save_task_and_reputation_batch t es h)"
  "requests_inv h \<Longrightarrow> requests_inv (save_task_and_reputation t k r h)"
  "requests_inv (save_order_and_account o' k a h) = requests_inv h"
  by (simp_all add: requests_inv_def save_task_row_def save_task_and_reputation_def save_task_and_reputation_batch_def
      save_order_and_account_def Let_def)

lemma inv_deposit_rows:
  "requests_inv h \<Longrightarrow> priced_deposit d \<Longrightarrow> requests_inv (save_pending_deposit d h)"
  "requests_inv h \<Longrightarrow> priced_deposit d \<Longrightarrow> requests_inv (save_task_and_deposit t d h)"
  "requests_inv h \<Longrightarrow> priced_deposit d \<Longrightarrow> requests_inv (save_exchange_account_and_deposit k a d h)"
  by (auto simp: requests_inv_def save_pending_deposit_def save_task_and_deposit_def save_task_row_def
      save_exchange_account_and_deposit_def intro: priced_insert)

lemma write_rows_wf: "bm_wf table \<Longrightarrow> bm_wf (write_rows before after table)"
  using bm.wf_fold_ins [of table fst snd] by (simp add: write_rows_def case_prod_unfold)

lemma inv_journaled: "requests_inv h \<Longrightarrow> priced (bd_pending_deposits (snd x)) \<Longrightarrow> requests_inv (journaled x h)"
  by (auto simp: requests_inv_def journaled_def Let_def intro: priced_write write_rows_wf)

lemma inv_settle: "requests_inv h \<Longrightarrow> requests_inv (snd (settle_now P cfg io i h))"
  by (simp add: requests_inv_def settle_now_def settled_by_def try_settle_deposits try_settle_rows)

lemma inv_priced: "requests_inv h \<Longrightarrow> priced (bd_pending_deposits (rq_board h))"
  by (simp add: requests_inv_def)

lemma inv_got: "requests_inv h \<Longrightarrow> get_pending_deposit (rq_board h) i = Some d \<Longrightarrow> priced_deposit d"
  by (auto simp: requests_inv_def get_pending_deposit_def dest: priced_get)

lemma board_call_priced:
  assumes "priced (bd_pending_deposits b)" "snd x = run_board c b" "\<And>a1 a2 a3 a4 a5 a6 a7. c \<noteq> ReserveEscrow a1 a2 a3 a4 a5 a6 a7"
  shows "priced (bd_pending_deposits (snd (from_board x)))"
  using board_priced [OF assms(1,3)] assms(2) by (simp add: from_board_def)

lemma escrow_amount: "escrow_amount_for v = Ok r \<Longrightarrow> unat r = unat v + unat HUB_TRANSACTION_FEE"
  by (auto simp: escrow_amount_for_def checked_add_def unat_word_ariths split: if_splits)

lemma inv_reserve:
  assumes "requests_inv h" "\<And>v. purpose_bounty purpose = Some v \<Longrightarrow> unat required = unat v + unat HUB_TRANSACTION_FEE" "funds purpose"
  shows "requests_inv (snd (reserve_and_save cfg io k required purpose h))"
proof -
  let ?d = "fst (reserve_escrow (ri_fresh io) (ri_clock io 1) (hs_deposit_key cfg) k required purpose
      (ri_clock io 0 + minutes ESCROW_RESERVATION_TTL_MINUTES) (rq_board h))"
  have d: "priced_deposit ?d" using assms(2,3) by (simp add: reserve_escrow_def priced_deposit_def Let_def split: option.split)
  have id: "pd_id ?d = ri_fresh io" by (simp add: reserve_escrow_def Let_def)
  have "requests_inv (h\<lparr>rq_board := set_deposit (ri_fresh io) ?d (rq_board h)\<rparr>)"
    using assms(1) d id by (intro inv_board) (auto simp: set_deposit_def intro: priced_insert inv_priced)
  then show ?thesis using d inv_deposit_rows(1) by (auto simp: reserve_and_save_def reserve_escrow_def Let_def saving_def)
qed

lemmas inv_rules = inv_check inv_step inv_saving inv_on_board

lemma reserving_handlers_inv:
  assumes "requests_inv h"
  shows "requests_inv (snd (handle_create_task_escrow cfg io p h))"
    and "requests_inv (snd (handle_create_consensus_task_escrow cfg io q h))"
    and "requests_inv (snd (handle_create_disputable_task_escrow cfg io r h))"
    and "requests_inv (snd (handle_create_exchange_deposit cfg io h))"
    and "requests_inv (snd (handle_create_dispute_escrow io u i h))"
  using assms escrow_amount
  by (auto simp: handle_create_task_escrow_def handle_create_consensus_task_escrow_def handle_create_disputable_task_escrow_def
      handle_create_exchange_deposit_def handle_create_dispute_escrow_def purpose_bounty_def funds_def intro!: inv_check inv_reserve)

lemma apply_deposits:
  "bd_pending_deposits (snd (apply_min_reputation r t b)) = bd_pending_deposits b"
  "bd_pending_deposits (snd (apply_capabilities cs t b)) = bd_pending_deposits b"
  by (auto simp: apply_min_reputation_def apply_capabilities_def set_min_reputation_def set_capabilities_def set_task_def
      split: option.split outcome.split)

lemma finish_inv:
  assumes "requests_inv h" "bd_pending_deposits (snd created) = bd_pending_deposits (rq_board h)"
  shows "requests_inv (snd (finish_creation io r cs created h))"
proof -
  have "requests_inv (h\<lparr>rq_board := snd created\<rparr>)" using assms inv_priced by (intro inv_board) auto
  then show ?thesis unfolding finish_creation_def
    by (intro inv_step inv_saving inv_on_board) (auto simp: apply_deposits dest: inv_priced)
qed

lemma posting_handlers_inv:
  assumes "requests_inv h"
  shows "requests_inv (snd (handle_create_task cfg io p h))"
    and "requests_inv (snd (handle_create_consensus_task cfg io q h))"
  using assms
  by (auto simp: handle_create_task_def handle_create_consensus_task_def create_task_def create_consensus_task_def Let_def set_task_def
      intro!: inv_check finish_inv)

lemma confirming_handlers_inv:
  assumes inv: "requests_inv h"
  shows "requests_inv (snd (handle_confirm_task_escrow io u i h))"
    and "requests_inv (snd (handle_confirm_dispute_escrow P cfg io eio u j i h))"
proof -
  have d: "requests_inv g \<Longrightarrow> expect (get_pending_deposit (rq_board g) i) = Ok d \<Longrightarrow> requests_inv (save_task_and_deposit t d g)" for g d t
    by (auto simp: expect_def intro: inv_deposit_rows inv_got split: option.splits)
  have c: "priced (bd_pending_deposits (snd (from_board (confirm_escrow a1 a2 i a3 a4 (rq_board h)))))" for a1 a2 a3 a4
    by (rule board_call_priced [OF inv_priced [OF inv], where c = "ConfirmEscrow a1 a2 i a3 a4"]) simp_all
  show "requests_inv (snd (handle_confirm_task_escrow io u i h))"
    using inv c d by (auto simp: handle_confirm_task_escrow_def intro!: inv_rules split: escrow_confirmation.split)
  have b: "requests_inv (h\<lparr>rq_board := b\<rparr>)" if "confirm_dispute_bond i a1 a2 (rq_board h) = (r, b)" for a1 a2 r b
    using board_priced [OF inv_priced [OF inv], of "ConfirmDisputeBond i a1 a2"] that inv by (auto intro: inv_board)
  have saved: "requests_inv (save_task_and_deposit t d (h\<lparr>rq_board := b\<rparr>))"
    if "confirm_dispute_bond i a1 a2 (rq_board h) = (r, b)" "expect (get_pending_deposit b i) = Ok d" for a1 a2 r b t d
    using d [OF b [OF that(1)]] that(2) by simp
  have late: "requests_inv (refund_late_bond P cfg eio i g)" if "requests_inv g" for g
    using that by (auto simp: refund_late_bond_def intro: inv_journaled refunds_priced inv_priced split: option.split)
  have "requests_inv (snd (case confirm_dispute_bond i a1 a2 (rq_board h) of
      (Ok t, b) \<Rightarrow> with_check (expect (get_pending_deposit b i)) (h\<lparr>rq_board := b\<rparr>) (\<lambda>d.
          saving (ri_saved io) (save_task_and_deposit t d) (h\<lparr>rq_board := b\<rparr>) (\<lambda>_ h2. (Ok t, h2)))
    | (r, b) \<Rightarrow> (case board_reply r of
          Err e \<Rightarrow> (Err e, if r = Err DisputeWindowClosed then refund_late_bond P cfg eio i (h\<lparr>rq_board := b\<rparr>) else h\<lparr>rq_board := b\<rparr>)
        | Cutoff \<Rightarrow> (Cutoff, h\<lparr>rq_board := b\<rparr>) | _ \<Rightarrow> (Panic, h\<lparr>rq_board := b\<rparr>))))" for a1 a2
  proof (cases "confirm_dispute_bond i a1 a2 (rq_board h)")
    case (Pair r g)
    note ok = b [OF Pair] and row = saved [OF Pair]
    show ?thesis unfolding Pair using ok late [OF ok] row by (cases r) (auto intro!: inv_check inv_saving)
  qed
  then show "requests_inv (snd (handle_confirm_dispute_escrow P cfg io eio u j i h))"
    unfolding handle_confirm_dispute_escrow_def using inv by (auto intro!: inv_check)
qed

lemma inv_restore: "requests_inv h \<Longrightarrow> requests_inv (h\<lparr>rq_board := restore_task t (rq_board h)\<rparr>)"
  by (simp add: requests_inv_def restore_task_def set_task_def)

lemma staged_inv:
  assumes "requests_inv h"
  shows "requests_inv (snd (on_staged_task ok i f h))"
  using assms by (auto simp: on_staged_task_def intro!: inv_check inv_saving inv_restore split: option.split prod.split)

lemma refund_task_inv: "requests_inv h \<Longrightarrow> requests_inv (refund_task_escrow P cfg eio i h)"
  by (auto simp: refund_task_escrow_def intro: inv_journaled refunds_priced inv_priced)

lemma settled_task_inv: "requests_inv (snd x) \<Longrightarrow> requests_inv (snd (settled_task x i))"
  by (auto simp: settled_task_def intro!: inv_check split: option.split)

lemma legs_inv:
  assumes "requests_inv h"
  shows "requests_inv (snd (settle_both_legs P cfg pio eio i h))"
  using inv_settle [OF assms, of P cfg pio i]
  by (auto simp: settle_both_legs_def intro!: settled_task_inv inv_journaled refunds_priced inv_priced split: prod.split option.split)

lemma working_handlers_inv:
  assumes inv: "requests_inv h"
  shows "requests_inv (snd (handle_claim_task io u i h))"
    and "requests_inv (snd (handle_close_task P cfg io eio u i h))"
    and "requests_inv (snd (handle_cancel_task P cfg io eio u i h))"
    and "requests_inv (snd (handle_pick_answer P cfg io pio u i k h))"
    and "requests_inv (snd (handle_resolve_dispute P cfg io pio eio u i v h))"
proof -
  note call = board_call_priced [OF inv_priced [OF inv]]
  have claim: "priced (bd_pending_deposits (snd (from_board (join_consensus_task a1 a2 i a3 (rq_board h)))))"
    "priced (bd_pending_deposits (snd (from_board (claim_task i a3 a1 (rq_board h)))))" for a1 a2 a3
    by (rule call [where c = "JoinConsensusTask a1 a2 i a3"], simp_all, rule call [where c = "ClaimTask i a3 a1"], simp_all)
  then show "requests_inv (snd (handle_claim_task io u i h))" using inv
    by (auto simp: handle_claim_task_def intro!: inv_rules split: option.split task_kind.split)
  show "requests_inv (snd (handle_close_task P cfg io eio u i h))" "requests_inv (snd (handle_cancel_task P cfg io eio u i h))"
    using inv by (auto simp: handle_close_task_def handle_cancel_task_def intro!: inv_check inv_step staged_inv refund_task_inv)
  show "requests_inv (snd (handle_pick_answer P cfg io pio u i k h))"
    using inv by (auto simp: handle_pick_answer_def intro!: inv_check inv_step staged_inv settled_task_inv inv_settle)
  have resolve: "priced (bd_pending_deposits (snd (from_board (resolve_dispute i v (rq_board h)))))"
    by (rule call [where c = "ResolveDispute i v"]) simp_all
  show "requests_inv (snd (handle_resolve_dispute P cfg io pio eio u i v h))"
    using inv resolve by (auto simp: handle_resolve_dispute_def intro!: inv_rules legs_inv)
qed

lemma settle_then_inv:
  assumes "requests_inv h" "\<And>r h1. requests_inv h1 \<Longrightarrow> requests_inv (snd (k r h1))"
  shows "requests_inv (snd (case settle_now P cfg pio i h of (None, h1) \<Rightarrow> (Panic, h1) | (Some r, h1) \<Rightarrow> k r h1))"
  using inv_settle [OF assms(1), of P cfg pio i] assms(2) by (auto split: prod.split option.split)

lemma submitting_handlers_inv:
  assumes inv: "requests_inv h"
  shows "requests_inv (snd (handle_submit_task P cfg io pio eio u i s h))"
proof -
  note call = board_call_priced [OF inv_priced [OF inv]]
  have c: "priced (bd_pending_deposits (snd (from_board (submit i k a (rq_board h)))))"
    "priced (bd_pending_deposits (snd (from_board (submit_contest_answer i k s n (rq_board h)))))"
    "priced (bd_pending_deposits (snd (from_board (submit_consensus_answer n i k s (rq_board h)))))" for k a n
    by (rule call [where c = "SubmitOutput i k a"], simp_all, rule call [where c = "SubmitContestAnswer i k s n"], simp_all,
        rule call [where c = "SubmitConsensusAnswer n i k s"], simp_all)
  have "requests_inv (snd (submit_hash_match_task P cfg io pio i k s h))" for k
    unfolding submit_hash_match_task_def using inv c by (auto intro!: inv_rules settle_then_inv)
  moreover have "requests_inv (snd (submit_consensus_task P cfg io pio eio i k s h))" for k
    unfolding submit_consensus_task_def using inv c by (auto simp: Let_def intro!: inv_rules settle_then_inv refund_task_inv)
  moreover have "requests_inv (snd (submit_disputable_task io i k s h))" for k
    unfolding submit_disputable_task_def using inv c
    by (auto intro!: inv_rules inv_restore split: option.split)
  ultimately show ?thesis using inv by (auto simp: handle_submit_task_def intro!: inv_check split: option.split task_kind.split)
qed

lemma staged_deposit_priced:
  assumes "requests_inv h" "get_pending_deposit (rq_board h) i = Some d0"
    and "confirm_exchange_deposit i a fee now (restore_exchange_account k acc (restore_pending_deposit d0 task_board_new)) = (r, s)"
    and "expect (get_pending_deposit s i) = Ok d"
  shows "priced_deposit d"
proof -
  have "priced (bd_pending_deposits (restore_exchange_account k acc (restore_pending_deposit d0 task_board_new)))"
    using inv_got [OF assms(1,2)] by (auto simp: restore_exchange_account_def restore_pending_deposit_def set_deposit_def task_board_new_def
        priced_def)
  then have "priced (bd_pending_deposits s)" using market_priced [where c = "ConfirmExchangeDeposit i a fee now"] assms(3) by fastforce
  then show ?thesis using assms(4) by (auto simp: expect_def get_pending_deposit_def dest: priced_get split: option.splits)
qed

lemma exchange_handlers_inv:
  assumes inv: "requests_inv h"
  shows "requests_inv (snd (handle_confirm_exchange_deposit P cfg io eio u i h))"
    and "requests_inv (snd (handle_cancel_order io u i h))"
    and "requests_inv (snd (handle_withdraw P cfg io eio v h))"
proof -
  have publish: "requests_inv (g\<lparr>rq_board := restore_pending_deposit d (restore_exchange_account k a (rq_board g))\<rparr>)"
    if "requests_inv g" "priced_deposit d" for g d k a
    using that by (auto simp: requests_inv_def restore_pending_deposit_def set_deposit_def restore_exchange_account_def intro: priced_insert)
  have sweep: "requests_inv (journaled (snd (sweep_exchange_deposit P key custody eio j b)) (g\<lparr>rq_board := b\<rparr>))"
    if "requests_inv (g\<lparr>rq_board := b\<rparr>)" for g b key custody j
    using that inv_priced [OF that] by (intro inv_journaled refunds_priced) simp_all
  show "requests_inv (snd (handle_confirm_exchange_deposit P cfg io eio u i h))"
    using inv by (auto simp: handle_confirm_exchange_deposit_def Let_def intro!: inv_check inv_saving sweep publish inv_deposit_rows
        split: option.split prod.split) (blast intro: staged_deposit_priced [OF inv])+
  have "requests_inv (g\<lparr>rq_board := restore_exchange_account k a (restore_order o' (rq_board g))\<rparr>)" if "requests_inv g" for g k a o'
    using that by (simp add: requests_inv_def restore_exchange_account_def restore_order_def)
  then show "requests_inv (snd (handle_cancel_order io u i h))"
    using inv by (auto simp: handle_cancel_order_def Let_def intro!: inv_check inv_saving split: option.split prod.split)
  have "requests_inv (journaled (send ok q b) h)" "requests_inv (journaled ([], b) h)"
    if "prepare x y p (rq_board h) = (r, b)" for x y p r ok q b
    using prepare_priced [OF inv_priced [OF inv], of x y p] that send_priced inv by (auto intro: inv_journaled)
  then show "requests_inv (snd (handle_withdraw P cfg io eio v h))"
    using inv by (auto simp: handle_withdraw_def Let_def intro!: inv_check split: outcome.split prod.split)
qed

subsection \<open>Starting again\<close>

lemma fold_same: "(\<And>x b. g (f x b) = g b) \<Longrightarrow> g (fold f xs b) = g b"
  by (induction xs arbitrary: b) auto

lemma fold_restore:
  "bd_tasks (fold restore_task ts b) = fold (\<lambda>t. bm_insert (tk_id t) t) ts (bd_tasks b)"
  "bd_pending_deposits (fold restore_pending_deposit ds b) = fold (\<lambda>d. bm_insert (pd_id d) d) ds (bd_pending_deposits b)"
  by (induction ts arbitrary: b, simp_all add: restore_task_def set_task_def)
    (induction ds arbitrary: b, simp_all add: restore_pending_deposit_def set_deposit_def)

text \<open>The board of a hub that starts again has the rows of its store.\<close>

lemma restart_rows:
  assumes "task_rows (ps_tasks (rq_store h))" "bm_wf (rq_deposits h)"
    and keyed: "\<And>i d. bm_get (rq_deposits h) i = Some d \<Longrightarrow> pd_id d = i"
  shows "bd_tasks (rq_board (restart_requests h)) = ps_tasks (rq_store h)"
    and "bd_pending_deposits (rq_board (restart_requests h)) = rq_deposits h"
    and "rq_store (restart_requests h) = rq_store h" "rq_deposits (restart_requests h) = rq_deposits h"
proof -
  note frame = restore_task_def set_task_def restore_reputation_def restore_pending_deposit_def set_deposit_def
    restore_exchange_account_def restore_order_def restore_payout_attempt_def
  have deposits: "bd_pending_deposits (fold restore_task ts b) = bd_pending_deposits b"
    "bd_pending_deposits (fold (\<lambda>(k, r). restore_reputation k r) rs b) = bd_pending_deposits b"
    "bd_pending_deposits (fold (\<lambda>(k, a). restore_exchange_account k a) as b) = bd_pending_deposits b"
    "bd_pending_deposits (fold restore_order os b) = bd_pending_deposits b"
    "bd_pending_deposits (fold restore_payout_attempt ps b) = bd_pending_deposits b" for ts rs as os ps b
    by (rule fold_same; auto simp: frame)+
  have tasks: "bd_tasks (fold restore_pending_deposit ds b) = bd_tasks b"
    "bd_tasks (fold (\<lambda>(k, r). restore_reputation k r) rs b) = bd_tasks b"
    "bd_tasks (fold (\<lambda>(k, a). restore_exchange_account k a) as b) = bd_tasks b"
    "bd_tasks (fold restore_order os b) = bd_tasks b"
    "bd_tasks (fold restore_payout_attempt ps b) = bd_tasks b" for ds rs as os ps b
    by (rule fold_same; auto simp: frame)+
  have new: "bd_tasks task_board_new = []" "bd_pending_deposits task_board_new = []" by (simp_all add: task_board_new_def)
  show "bd_tasks (rq_board (restart_requests h)) = ps_tasks (rq_store h)"
    using reload [of "ps_tasks (rq_store h)" tk_id] assms(1)
    by (simp add: restart_requests_def Let_def tasks fold_restore new task_rows_def)
  show "bd_pending_deposits (rq_board (restart_requests h)) = rq_deposits h"
    using reload [OF assms(2) keyed] by (simp add: restart_requests_def Let_def deposits fold_restore new)
  show "rq_store (restart_requests h) = rq_store h" "rq_deposits (restart_requests h) = rq_deposits h"
    by (simp_all add: restart_requests_def Let_def)
qed

lemma restart_inv:
  assumes "requests_inv h"
  shows "requests_inv (restart_requests h)"
proof -
  have "\<And>i d. bm_get (rq_deposits h) i = Some d \<Longrightarrow> pd_id d = i" using assms by (auto simp: requests_inv_def dest: priced_get)
  then show ?thesis using assms restart_rows [of h] by (simp add: requests_inv_def)
qed

lemma request_inv:
  assumes "requests_inv h" "request_allowed c h"
  shows "requests_inv (run_request P cfg c h)"
  using assms reserving_handlers_inv posting_handlers_inv confirming_handlers_inv working_handlers_inv submitting_handlers_inv
    exchange_handlers_inv restart_inv
proof (cases c)
  case (Elsewhere d)
  then have "priced (bd_pending_deposits (run_hub P d (rq_board h)))" using assms(2) by (intro hub_priced [OF inv_priced [OF assms(1)]]) auto
  then show ?thesis using assms(1) Elsewhere by (simp add: inv_board)
qed simp_all

interpretation requests: call_machine requests_start request_allowed "run_request P cfg" requests_inv "\<lambda>_ _. True" for P cfg
  by unfold_locales (simp_all add: request_inv, simp add: requests_start_def requests_inv_def task_board_new_def task_rows_def)

end
