(* ===== verification/Hub_Request_Promises.thy ===== *)
theory Hub_Request_Promises
  imports Hub_Request_Inv
begin

text \<open>
  What the handlers promise: a task paid for through an escrow exists only once its bounty and
  the fee have arrived, and a staged request does to the live board what the operation itself
  would do, or nothing at all.  And what they do not promise: a confirmation whose write fails
  lets one deposit fund two tasks.
\<close>

subsection \<open>Backing\<close>

lemma materialize_ok:
  assumes "materialize fresh clock now k p b = (Ok i, b')"
  shows "i = fresh \<and> (\<exists>t. bm_get (bd_tasks b') fresh = Some t \<and> tk_id t = fresh \<and> tk_poster t = k \<and> purpose_bounty p = Some (tk_bounty t))"
  using assms
  by (cases p)
    (auto simp: materialize_def create_task_def create_consensus_task_def create_disputable_task_def Let_def new_task_def
      apply_intent_limits_def set_min_reputation_def set_capabilities_def set_task_def purpose_bounty_def split: if_splits)

lemma answers_ok:
  "with_check r s k = (Ok x, s') \<longleftrightarrow> (\<exists>v. r = Ok v \<and> k v = (Ok x, s'))"
  "with_step y f = (Ok x, s') \<longleftrightarrow> (\<exists>v t. y = (Ok v, t) \<and> f v t = (Ok x, s'))"
  "saving ok w h g = (Ok x, h') \<longleftrightarrow> ok \<and> g () (w h) = (Ok x, h')"
proof -
  show check: "with_check r s k = (Ok x, s') \<longleftrightarrow> (\<exists>v. r = Ok v \<and> k v = (Ok x, s'))" for r s k s' x by (cases r) auto
  show "with_step y f = (Ok x, s') \<longleftrightarrow> (\<exists>v t. y = (Ok v, t) \<and> f v t = (Ok x, s'))"
    unfolding with_step_def check by (cases y) auto
  show "saving ok w h g = (Ok x, h') \<longleftrightarrow> ok \<and> g () (w h) = (Ok x, h')" by (simp add: saving_def)
qed

lemma board_ok: "on_board (\<lambda>b. from_board (f b)) h = (Ok x, h') \<longleftrightarrow> (\<exists>b. f (rq_board h) = (Ok x, b) \<and> h' = h\<lparr>rq_board := b\<rparr>)"
proof -
  have "board_reply r = Ok x \<longleftrightarrow> r = Ok x" for r by (cases r) simp_all
  then show ?thesis by (cases "f (rq_board h)") (auto simp: on_board_def from_board_def)
qed

lemma confirm_escrow_ok:
  assumes "confirm_escrow fresh clock i observed now b = (Ok (TaskCreated t), b')"
  obtains d where "bm_get (bd_pending_deposits b) i = Some d" "pd_status d = Reserved" "pd_required_amount d \<le> observed"
    "purpose_bounty (pd_purpose d) = Some (tk_bounty t)" "tk_poster t = pd_depositor d" "tk_escrow_id t = Some i"
    "bm_get (bd_tasks b') (tk_id t) = Some t" "bm_get (bd_pending_deposits b') i = Some (d\<lparr>pd_status := Consumed\<rparr>)"
proof -
  from assms obtain d j b1 t0 where d: "bm_get (bd_pending_deposits b) i = Some d" "check_deposit d observed now = Ok ()"
    and m: "materialize fresh clock now (pd_depositor d) (pd_purpose d) (set_deposit i (d\<lparr>pd_status := Consumed\<rparr>) b) = (Ok j, b1)"
    and t: "bm_get (bd_tasks b1) j = Some t0" "t = t0\<lparr>tk_escrow_id := Some i\<rparr>" "b' = set_task j t b1"
    by (auto simp: confirm_escrow_def answers_ok Let_def split: option.splits if_splits)
  have "pd_status d = Reserved" "pd_required_amount d \<le> observed" using d(2) by (auto simp: check_deposit_def split: if_splits)
  moreover have "bd_pending_deposits b1 = bm_insert i (d\<lparr>pd_status := Consumed\<rparr>) (bd_pending_deposits b)"
    using materialize_deposits [of fresh clock now "pd_depositor d" "pd_purpose d" "set_deposit i (d\<lparr>pd_status := Consumed\<rparr>) b"] m
    by (simp add: set_deposit_def)
  ultimately show ?thesis using materialize_ok [OF m] t d(1) by (intro that [of d]) (auto simp: set_task_def)
qed

text \<open>
  C39: A task funded by an escrow is backed.  Over any run of requests, other operations of the
  hub and restarts, an escrow is confirmed only for its depositor and only when the node reports
  the bounty and the fee at its address, added without wrap-around; the answer names the poster
  and the deposit, and the task and the consumed deposit are on the board and on disk together.
\<close>

theorem escrow_task_backed:
  assumes "requests_reachable P cfg h" "handle_confirm_task_escrow io url i h = (Ok t, h')"
  shows "ri_signer io = Ok (tk_poster t) \<and> tk_escrow_id t = Some i
    \<and> (\<exists>d utxos balance. get_pending_deposit (rq_board h) i = Some d \<and> pd_status d = Reserved
        \<and> ri_balance io (pd_deposit_pubkey d) = Some utxos \<and> node_balance utxos = Ok balance
        \<and> unat (tk_bounty t) + unat HUB_TRANSACTION_FEE \<le> unat balance)
    \<and> get_task (rq_board h') (tk_id t) = Some t \<and> deposit_status (rq_board h') i = Some Consumed
    \<and> bm_get (ps_tasks (rq_store h')) (tk_id t) = Some t \<and> map_option pd_status (bm_get (rq_deposits h') i) = Some Consumed"
proof -
  have inv: "requests_inv h" using requests.reached_inv assms(1) unfolding requests_reachable_def by blast
  obtain k observed b c where k: "ri_signer io = Ok k" "funded_by_signer io k i (rq_board h) = Ok observed"
    and c0: "confirm_escrow (ri_fresh io) (ri_clock io 1) i observed (ri_clock io 0) (rq_board h) = (Ok c, b)"
    and rest: "(case c of TaskCreated t \<Rightarrow> with_check (expect (get_pending_deposit (rq_board (h\<lparr>rq_board := b\<rparr>)) i)) (h\<lparr>rq_board := b\<rparr>) (\<lambda>d.
        saving (ri_saved io) (save_task_and_deposit t d) (h\<lparr>rq_board := b\<rparr>) (\<lambda>_ h2. (Ok t, h2)))) = (Ok t, h')"
    using assms(2) by (auto simp: handle_confirm_task_escrow_def answers_ok board_ok split: if_splits)
  obtain d' where d': "get_pending_deposit b i = Some d'" "h' = save_task_and_deposit t d' (h\<lparr>rq_board := b\<rparr>)" "c = TaskCreated t"
    using rest by (cases c) (auto simp: answers_ok expect_def split: option.splits)
  note c = c0 [unfolded d'(3)]
  obtain d where d: "bm_get (bd_pending_deposits (rq_board h)) i = Some d" "pd_status d = Reserved" "pd_required_amount d \<le> observed"
    "purpose_bounty (pd_purpose d) = Some (tk_bounty t)" "tk_poster t = pd_depositor d" "tk_escrow_id t = Some i"
    "bm_get (bd_tasks b) (tk_id t) = Some t" "bm_get (bd_pending_deposits b) i = Some (d\<lparr>pd_status := Consumed\<rparr>)"
    by (rule confirm_escrow_ok [OF c])
  have pr: "pd_id d = i" "priced_deposit d" using inv d(1) by (auto simp: requests_inv_def dest: priced_get)
  from pr(2) have "unat (tk_bounty t) + unat HUB_TRANSACTION_FEE \<le> unat observed"
    using d(3,4) by (simp add: priced_deposit_def word_le_nat_alt)
  moreover have "k = pd_depositor d" "observed_balance io (pd_deposit_pubkey d) = Ok observed"
    using k(2) d(1) by (auto simp: funded_by_signer_def get_pending_deposit_def split: if_splits)
  moreover have "\<exists>utxos. ri_balance io (pd_deposit_pubkey d) = Some utxos \<and> node_balance utxos = Ok observed"
    using calculation(3) by (auto simp: observed_balance_def split: option.splits outcome.splits)
  moreover have "d' = d\<lparr>pd_status := Consumed\<rparr>" using d(8) d'(1) by (simp add: get_pending_deposit_def)
  ultimately show ?thesis using k(1) d(1,2,5-8) pr(1)
    by (auto simp: d'(2) get_pending_deposit_def save_task_and_deposit_def save_pending_deposit_def save_task_row_def save_task_def get_task_def deposit_status_def)
qed

subsection \<open>A write that fails\<close>

text \<open>The task a hash intent describes, funded by a deposit.\<close>

definition intended :: "uuid \<Rightarrow> instant \<Rightarrow> pending_deposit \<Rightarrow> task_intent \<Rightarrow> task" where
  "intended i now d intent =
     (new_task i (pd_depositor d) (ti_description intent) (ti_bounty intent) (HashMatch (ti_expected_output_hash intent)) now)
       \<lparr>tk_min_reputation := ti_min_reputation intent, tk_capabilities := ti_capabilities intent, tk_escrow_id := Some (pd_id d)\<rparr>"

text \<open>The depositor asks in time, and the node reports the required amount at the deposit's address.\<close>

definition pays_in :: "request_io \<Rightarrow> pending_deposit \<Rightarrow> bool" where
  "pays_in io d \<longleftrightarrow> ri_signer io = Ok (pd_depositor d) \<and> ri_clock io 0 \<le> pd_expires_at d
     \<and> (case observed_balance io (pd_deposit_pubkey d) of Ok v \<Rightarrow> pd_required_amount d \<le> v | _ \<Rightarrow> False)"

lemma confirm_hash_escrow:
  assumes d: "bm_get (bd_pending_deposits b) e = Some d" "pd_purpose d = FundHashMatchTask intent" "pd_id d = e"
    and ok: "check_deposit d observed now = Ok ()"
  obtains b' where "confirm_escrow i clock e observed now b = (Ok (TaskCreated (intended i clock d intent)), b')"
    "\<And>j. bm_get (bd_tasks b') j = (if j = i then Some (intended i clock d intent) else bm_get (bd_tasks b) j)"
    "bd_pending_deposits b' = bm_insert e (d\<lparr>pd_status := Consumed\<rparr>) (bd_pending_deposits b)"
    "bd_reputation b' = bd_reputation b"
proof -
  let ?b = "snd (confirm_escrow i clock e observed now b)"
  note unfold = confirm_escrow_def materialize_def create_task_def Let_def apply_intent_limits_def set_min_reputation_def
    set_capabilities_def set_task_def set_deposit_def new_task_def intended_def
  have "fst (confirm_escrow i clock e observed now b) = Ok (TaskCreated (intended i clock d intent))"
    using d ok by (simp add: unfold word_gt_0)
  moreover have "bm_get (bd_tasks ?b) j = (if j = i then Some (intended i clock d intent) else bm_get (bd_tasks b) j)" for j
    using d ok by (simp add: unfold word_gt_0)
  moreover have "bd_pending_deposits ?b = bm_insert e (d\<lparr>pd_status := Consumed\<rparr>) (bd_pending_deposits b)" "bd_reputation ?b = bd_reputation b"
    using d ok by (simp_all add: unfold)
  ultimately show ?thesis by (intro that [of ?b]) (simp_all add: prod_eq_iff)
qed

lemma confirm_request:
  assumes d: "bm_get (bd_pending_deposits (rq_board h)) e = Some d" "pd_purpose d = FundHashMatchTask intent" "pd_id d = e"
      "pd_status d = Reserved" and pays: "pays_in io d"
  obtains b where
    "handle_confirm_task_escrow io e e h =
       (if ri_saved io then (Ok (intended (ri_fresh io) (ri_clock io 1) d intent),
            save_task_and_deposit (intended (ri_fresh io) (ri_clock io 1) d intent) (d\<lparr>pd_status := Consumed\<rparr>) (h\<lparr>rq_board := b\<rparr>))
        else (Err InternalError, h\<lparr>rq_board := b\<rparr>))"
    "\<And>j. bm_get (bd_tasks b) j = (if j = ri_fresh io then Some (intended (ri_fresh io) (ri_clock io 1) d intent)
        else bm_get (bd_tasks (rq_board h)) j)"
    "bd_reputation b = bd_reputation (rq_board h)"
proof -
  from pays obtain v where v: "observed_balance io (pd_deposit_pubkey d) = Ok v" "pd_required_amount d \<le> v"
    by (auto simp: pays_in_def split: outcome.splits)
  have chk: "check_deposit d v (ri_clock io 0) = Ok ()" using v d(4) pays by (auto simp: check_deposit_def pays_in_def)
  obtain b where b: "confirm_escrow (ri_fresh io) (ri_clock io 1) e v (ri_clock io 0) (rq_board h)
        = (Ok (TaskCreated (intended (ri_fresh io) (ri_clock io 1) d intent)), b)"
      "\<And>j. bm_get (bd_tasks b) j = (if j = ri_fresh io then Some (intended (ri_fresh io) (ri_clock io 1) d intent)
        else bm_get (bd_tasks (rq_board h)) j)"
      "bd_pending_deposits b = bm_insert e (d\<lparr>pd_status := Consumed\<rparr>) (bd_pending_deposits (rq_board h))"
      "bd_reputation b = bd_reputation (rq_board h)"
    by (rule confirm_hash_escrow [OF d(1-3) chk]) blast
  have "funded_by_signer io (pd_depositor d) e (rq_board h) = Ok v" using d(1) v by (simp add: funded_by_signer_def get_pending_deposit_def)
  moreover have "get_pending_deposit b e = Some (d\<lparr>pd_status := Consumed\<rparr>)" by (simp add: get_pending_deposit_def b(3))
  ultimately show ?thesis using pays b
    by (intro that [of b])
      (auto simp: handle_confirm_task_escrow_def pays_in_def on_board_def from_board_def with_step_def saving_def expect_def)
qed

lemma claim_request:
  assumes t: "bm_get (bd_tasks (rq_board h)) i = Some t" "tk_kind t = HashMatch x" "tk_status t = Open" "tk_id t = i"
    and k: "ri_signer io = Ok k" "k \<noteq> tk_poster t" "tk_min_reputation t \<le> rp_completed (reputation_of (rq_board h) k)" "ri_saved io"
  shows "snd (handle_claim_task io i i h) =
    (let c = t\<lparr>tk_status := Claimed, tk_claimant := Some k, tk_claim_deadline := Some (ri_clock io 0 + minutes CLAIM_TTL_MINUTES)\<rparr>
     in save_task_row c (h\<lparr>rq_board := set_task i c (rq_board h)\<rparr>))"
  using assms
  by (auto simp: handle_claim_task_def get_task_def claim_task_def check_min_reputation_def on_board_def from_board_def with_step_def saving_def
      expect_def set_task_def Let_def)

text \<open>
  C40: A confirmation that could not be saved funds a second task.  Take any hub with a reservation
  for a hash task, the same on the board and on disk, that its depositor has paid and confirms in
  time.  If the write fails, the answer is an error, but the task stays on the board; when an agent
  other than the depositor, with the reputation the task asks for, claims it, the claim writes the
  task without the deposit.  After a restart the deposit is reserved again, and its depositor
  confirms it a second time: two tasks with the full bounty name the one deposit, which asked for
  one bounty and the fee.
\<close>

theorem failed_save_funds_two_tasks:
  assumes reach: "requests_reachable P cfg h"
    and d: "get_pending_deposit (rq_board h) e = Some d" "bm_get (rq_deposits h) e = Some d" "pd_status d = Reserved"
      "pd_purpose d = FundHashMatchTask intent"
    and first: "pays_in io1 d" "\<not> ri_saved io1"
    and claim: "ri_signer io2 = Ok k" "k \<noteq> pd_depositor d"
      "ti_min_reputation intent \<le> rp_completed (reputation_of (rq_board h) k)" "ri_saved io2"
    and again: "pays_in io3 d" "ri_saved io3" "ri_fresh io3 \<noteq> ri_fresh io1"
    and run: "h' = fold (run_request P cfg) [ConfirmTaskEscrow io1 e e, Claim io2 (ri_fresh io1) (ri_fresh io1), HubRestart,
        ConfirmTaskEscrow io3 e e] h"
  shows "fst (handle_confirm_task_escrow io1 e e h) = Err InternalError
    \<and> (\<exists>t u. get_task (rq_board h') (ri_fresh io1) = Some t \<and> get_task (rq_board h') (ri_fresh io3) = Some u
        \<and> tk_escrow_id t = Some e \<and> tk_escrow_id u = Some e \<and> tk_status t = Claimed \<and> tk_claimant t = Some k \<and> tk_status u = Open
        \<and> tk_bounty t = ti_bounty intent \<and> tk_bounty u = ti_bounty intent
        \<and> unat (pd_required_amount d) = unat (ti_bounty intent) + unat HUB_TRANSACTION_FEE)"
proof -
  have inv: "requests_inv h" using requests.reached_inv reach unfolding requests_reachable_def by blast
  have dep: "bm_get (bd_pending_deposits (rq_board h)) e = Some d" using d(1) by (simp add: get_pending_deposit_def)
  then have pr: "pd_id d = e" "priced_deposit d" using inv by (auto simp: requests_inv_def dest: priced_get)
  let ?i = "ri_fresh io1" and ?t = "intended (ri_fresh io1) (ri_clock io1 1) d intent"
  let ?c = "?t\<lparr>tk_status := Claimed, tk_claimant := Some k, tk_claim_deadline := Some (ri_clock io2 0 + minutes CLAIM_TTL_MINUTES)\<rparr>"
  obtain b1 where h1: "handle_confirm_task_escrow io1 e e h = (Err InternalError, h\<lparr>rq_board := b1\<rparr>)"
    and b1: "bm_get (bd_tasks b1) ?i = Some ?t" "bd_reputation b1 = bd_reputation (rq_board h)"
    by (rule confirm_request [OF dep d(4) pr(1) d(3) first(1)]) (use first(2) in auto)
  have "reputation_of b1 k = reputation_of (rq_board h) k" by (simp add: reputation_of_def b1(2))
  then have h2: "snd (handle_claim_task io2 ?i ?i (h\<lparr>rq_board := b1\<rparr>)) = save_task_row ?c (h\<lparr>rq_board := set_task ?i ?c b1\<rparr>)"
    using claim_request [of "h\<lparr>rq_board := b1\<rparr>" ?i ?t _ io2 k] b1(1) claim by (simp add: intended_def new_task_def Let_def)
  define h3 where "h3 = restart_requests (save_task_row ?c (h\<lparr>rq_board := set_task ?i ?c b1\<rparr>))"
  have rows: "task_rows (ps_tasks (save_task ?c (rq_store h)))" "bm_wf (rq_deposits h)" "\<And>i x. bm_get (rq_deposits h) i = Some x \<Longrightarrow> pd_id x = i"
    using inv by (auto simp: requests_inv_def dest: priced_get)
  have r: "bd_tasks (rq_board h3) = ps_tasks (save_task ?c (rq_store h))" "bd_pending_deposits (rq_board h3) = rq_deposits h"
    unfolding h3_def by (subst restart_rows; use rows in \<open>auto simp: save_task_row_def\<close>)+
  have "tk_id ?c = ?i" by (simp add: intended_def new_task_def)
  then have c: "bm_get (bd_tasks (rq_board h3)) ?i = Some ?c" by (simp add: r(1) save_task_def)
  have "bm_get (bd_pending_deposits (rq_board h3)) e = Some d" using d(2) by (simp add: r(2))
  from confirm_request [OF this d(4) pr(1) d(3) again(1)] obtain b4 where
    h4: "snd (handle_confirm_task_escrow io3 e e h3) = save_task_and_deposit (intended (ri_fresh io3) (ri_clock io3 1) d intent)
        (d\<lparr>pd_status := Consumed\<rparr>) (h3\<lparr>rq_board := b4\<rparr>)"
    and b4: "\<And>j. bm_get (bd_tasks b4) j = (if j = ri_fresh io3 then Some (intended (ri_fresh io3) (ri_clock io3 1) d intent)
        else bm_get (bd_tasks (rq_board h3)) j)"
    using again(2) by (metis snd_conv)
  have "h' = snd (handle_confirm_task_escrow io3 e e h3)" by (simp add: run h1 h2 h3_def)
  then have "rq_board h' = b4" by (simp add: h4 save_task_and_deposit_def save_pending_deposit_def save_task_row_def)
  then have "get_task (rq_board h') ?i = Some ?c" "get_task (rq_board h') (ri_fresh io3) = Some (intended (ri_fresh io3) (ri_clock io3 1) d intent)"
    using b4 c again(3) by (simp_all add: get_task_def)
  moreover have "unat (pd_required_amount d) = unat (ti_bounty intent) + unat HUB_TRANSACTION_FEE"
    using pr(2) d(4) by (simp add: priced_deposit_def purpose_bounty_def)
  ultimately show ?thesis using h1 pr(1) by (simp add: intended_def new_task_def)
qed

subsection \<open>Staged requests\<close>

text \<open>The request as if the operation ran on the live board: published and saved, or not at all.\<close>

definition directly :: "bool \<Rightarrow> 'a board_result \<times> task_board \<Rightarrow> ('a \<Rightarrow> request_hub \<Rightarrow> (api_status, 'b) outcome \<times> request_hub) \<Rightarrow> request_hub
     \<Rightarrow> (api_status, 'b) outcome \<times> request_hub" where
  "directly ok x answer h =
     with_check (board_reply (fst x)) h (\<lambda>v. if ok then answer v (h\<lparr>rq_board := snd x\<rparr>) else (Err InternalError, h))"

lemma staged_get:
  "tk_id t = i \<Longrightarrow> bm_get (bd_tasks (staged_task t)) i = Some t"
  by (simp add: staged_task_def restore_task_def set_task_def)

lemma staged_task_is_direct:
  assumes keyed: "\<And>t. get_task (rq_board h) i = Some t \<Longrightarrow> tk_id t = i"
    and f: "f = close_contest i k now \<or> f = pick_answer i k w now \<or> f = cancel_task i"
  shows "on_staged_task ok i f h = directly ok (f (rq_board h))
    (\<lambda>_ h1. with_check (expect (get_task (rq_board h1) i)) h1 (\<lambda>t. (Ok t, save_task_row t h1))) h"
proof (cases "get_task (rq_board h) i")
  case None
  then show ?thesis using f by (auto simp: on_staged_task_def directly_def get_task_def close_contest_def pick_answer_def cancel_task_def)
next
  case (Some t)
  note id = keyed [OF Some]
  have live: "bm_get (bd_tasks (rq_board h)) i = Some t" using Some by (simp add: get_task_def)
  show ?thesis using f
  proof (elim disjE)
    assume "f = cancel_task i"
    then show ?thesis using staged_get [OF id] live id Some
      by (simp add: on_staged_task_def directly_def cancel_task_def saving_def expect_def get_task_def restore_task_def set_task_def save_task_row_def)
  next
    assume "f = close_contest i k now"
    then show ?thesis using staged_get [OF id] live id Some
      by (cases "tk_kind t") (auto simp: on_staged_task_def directly_def close_contest_def saving_def expect_def get_task_def restore_task_def
          set_task_def save_task_row_def)
  next
    assume "f = pick_answer i k w now"
    then show ?thesis using staged_get [OF id] live id Some
      by (cases "tk_kind t") (auto simp: on_staged_task_def directly_def pick_answer_def saving_def expect_def get_task_def restore_task_def
          set_task_def save_task_row_def)
  qed
qed

lemma cancel_order_is_direct:
  assumes keyed: "\<And>o'. get_order (rq_board h) i = Some o' \<Longrightarrow> or_id o' = i" and k: "ri_signer io = Ok k"
  shows "handle_cancel_order io i i h = directly (ri_saved io) (cancel_order i k (rq_board h))
    (\<lambda>o' h1. (Ok o', save_order_and_account o' k (exchange_account_of (rq_board h1) k) h1)) h"
proof (cases "get_order (rq_board h) i")
  case None
  then show ?thesis using k by (simp add: handle_cancel_order_def directly_def cancel_order_def get_order_def)
next
  case (Some o0)
  note id = keyed [OF Some]
  let ?s = "restore_exchange_account k (exchange_account_of (rq_board h) k) (restore_order o0 task_board_new)"
  have g: "bm_get (bd_orders ?s) i = Some o0" "bm_get (bd_orders (rq_board h)) i = Some o0"
    using Some id by (simp_all add: restore_exchange_account_def restore_order_def get_order_def)
  have acc: "exchange_account_of ((restore_exchange_account k x y)\<lparr>bd_orders := z\<rparr>) k = x"
    "exchange_account_of ((rq_board h)\<lparr>bd_orders := z\<rparr>) k = exchange_account_of (rq_board h) k" for x y z
    by (simp_all add: exchange_account_of_def restore_exchange_account_def)
  let ?account = "exchange_account_of (rq_board h) k"
  let ?released = "\<lambda>remaining. (case or_side o0 of
      Buy \<Rightarrow> obind (times_u (or_price o0) remaining) (\<lambda>x. obind (minus_u (ex_locked_base ?account) x) (\<lambda>l. Ok (?account\<lparr>ex_locked_base := l\<rparr>)))
    | Sell \<Rightarrow> obind (minus_u (ex_locked_compute ?account) remaining) (\<lambda>l. Ok (?account\<lparr>ex_locked_compute := l\<rparr>))) :: exchange_account board_result"
  note unfold = handle_cancel_order_def directly_def cancel_order_def
  show ?thesis
  proof (cases "or_owner o0 = k \<and> or_status o0 = OOpen")
    case False
    then show ?thesis using k Some id g by (auto simp: unfold)
  next
    case True
    show ?thesis
    proof (cases "minus_u (or_quantity o0) (or_filled o0) :: u64 board_result")
      case (Ok remaining)
      have own: "exchange_account_of (restore_exchange_account k x y) k = x" for x y
        by (simp add: exchange_account_of_def restore_exchange_account_def)
      show ?thesis using True k Some g
        by (cases "or_side o0"; cases "?released remaining")
          (simp_all add: unfold Ok acc own Let_def saving_def save_order_and_account_def restore_order_def id)
    qed (use True k Some g in \<open>simp_all add: unfold\<close>)
  qed
qed

end
