(* ===== verification/Hub_Request_Rows.thy ===== *)
theory Hub_Request_Rows
  imports Hub_Request_Promises Hub_Reconcile
begin

text \<open>
  What is on disk between requests.  The handlers, the rows a sweep or a payment writes, writes
  that fail, settlements that die half way and restarts, in any order: every deposit whose row
  says it was consumed is claimed by a row on disk, the task it funds or the account it credits,
  because the two are written in one transaction.  So a hub that starts again finds no orphaned
  deposit in its cross-check.
\<close>

subsection \<open>Boards that follow one another\<close>

text \<open>Tasks stay well formed, stay on the board and keep their escrow.\<close>

definition follows :: "task_board \<Rightarrow> task_board \<Rightarrow> bool" where
  "follows b b' \<longleftrightarrow> tasks_ok (bd_tasks b) \<and> bm_wf (bd_pending_deposits b) \<longrightarrow>
     tasks_ok (bd_tasks b') \<and> bm_wf (bd_pending_deposits b')
     \<and> (\<forall>j u. bm_get (bd_tasks b) j = Some u \<longrightarrow> (\<exists>u'. bm_get (bd_tasks b') j = Some u' \<and> tk_escrow_id u' = tk_escrow_id u))"

lemma follows_refl [simp]: "follows b b"
  by (simp add: follows_def)

lemma follows_trans: "follows a b \<Longrightarrow> follows b c \<Longrightarrow> follows a c"
  unfolding follows_def by metis

lemma follows_keeps:
  assumes "keeps_tasks b b'" "bm_wf (bd_pending_deposits b) \<Longrightarrow> bm_wf (bd_pending_deposits b')"
  shows "follows b b'"
  using assms unfolding follows_def keeps_tasks_def tasks_step_def task_step_def task_evolves_def by blast

lemma follows_same:
  "bd_tasks b' = bd_tasks b \<Longrightarrow> (bm_wf (bd_pending_deposits b) \<Longrightarrow> bm_wf (bd_pending_deposits b')) \<Longrightarrow> follows b b'"
  by (intro follows_keeps keeps_tasks_same)

text \<open>Calls a handler makes: new tasks get ids that are free, and nothing is restored.\<close>

fun id_free :: "board_call \<Rightarrow> task_board \<Rightarrow> bool" where
  "id_free (RestoreTask t) b \<longleftrightarrow> False"
| "id_free (CreateTask fresh now poster desc bounty h) b \<longleftrightarrow> get_task b fresh = None"
| "id_free (CreateConsensusTask fresh now poster desc bounty n jd w) b \<longleftrightarrow> get_task b fresh = None"
| "id_free (CreateDisputableTask fresh now poster desc bounty w) b \<longleftrightarrow> get_task b fresh = None"
| "id_free (ConfirmEscrow fresh clock i observed now) b \<longleftrightarrow> get_task b fresh = None"
| "id_free _ b \<longleftrightarrow> True"

lemma run_board_wf:
  assumes "bm_wf (bd_pending_deposits b)"
  shows "bm_wf (bd_pending_deposits (run_board c b))"
proof (cases c)
  case (ConfirmEscrow fresh clock i observed now)
  then show ?thesis using confirm_escrow_deposits_eq [of fresh clock i observed now b] assms by auto
next
  case (ConfirmDisputeBond i observed now)
  then show ?thesis using assms
    by (auto simp: confirm_dispute_bond_def with_check_snd Let_def
        split: option.split escrow_purpose.split task_kind.split outcome.split)
qed (use assms in \<open>auto simp: restore_task_def create_task_def create_consensus_task_def create_disputable_task_def
    reserve_escrow_def mark_escrow_refunded_def Let_def split: option.split\<close>)

lemma confirm_escrow_follows:
  assumes new: "get_task b fresh = None"
  shows "follows b (snd (confirm_escrow fresh clock i observed now b))"
proof -
  obtain res b' where run: "confirm_escrow fresh clock i observed now b = (res, b')" by force
  show ?thesis
  proof (cases "tasks_ok (bd_tasks b)")
    case True
    then have wf: "bm_wf (bd_tasks b)" by (simp add: tasks_ok_def)
    from wf new [unfolded get_task_def] run show ?thesis
    proof (cases rule: confirm_escrow_cases)
      case (funded d t)
      then show ?thesis using run True new by (auto simp: follows_def tasks_ok_def get_task_def)
    qed (use run in simp)
  qed (simp add: follows_def)
qed

lemma run_board_follows:
  assumes "id_free c b"
  shows "follows b (run_board c b)"
proof (cases "\<exists>fresh clock i observed now. c = ConfirmEscrow fresh clock i observed now")
  case True
  then show ?thesis using assms confirm_escrow_follows by auto
next
  case False
  have "keeps_tasks b (run_board c b)"
  proof (cases c)
    case (ResolveDispute i out)
    then show ?thesis using resolve_dispute_keeps [of b i out] by (auto simp: keeps_tasks_def tasks_ok_def)
  qed (use assms False create_keeps in \<open>simp_all add: get_task_def set_min_reputation_keeps set_capabilities_keeps cancel_task_keeps
      claim_task_keeps join_consensus_task_keeps submit_keeps submit_contest_answer_keeps close_contest_keeps pick_answer_keeps
      sweeps_that_close_keep split_unpicked_keep finalize_keep submit_consensus_answer_keeps resolve_expired_keep
      mark_recipient_paid_keeps record_payout_attempt_keeps mark_payout_failed_keeps expire_claims_keep confirm_dispute_bond_keeps
      reserve_escrow_def mark_escrow_refunded_def Let_def keeps_tasks_same split: option.split\<close>)
  then show ?thesis by (rule follows_keeps) (rule run_board_wf)
qed

text \<open>What a payment does to the board: it consumes no deposit, and its rows are in the journal.\<close>

definition journals :: "task_board \<Rightarrow> task_board \<Rightarrow> bool" where
  "journals b b' \<longleftrightarrow> bd_tasks b' = bd_tasks b
     \<and> (bm_wf (bd_pending_deposits b) \<longrightarrow> bm_wf (bd_pending_deposits b'))
     \<and> (\<forall>i d. bm_get (bd_pending_deposits b') i = Some d \<longrightarrow> bm_get (bd_pending_deposits b) i = Some d \<or> pd_status d \<noteq> Consumed)"

lemma journals_refl [simp]: "journals b b"
  by (simp add: journals_def)

lemma journals_trans: "journals a b \<Longrightarrow> journals b c \<Longrightarrow> journals a c"
  by (auto simp: journals_def)

lemma journals_put [simp]: "journals b (put_payment p b') = journals b b'" "journals (put_payment p b) b' = journals b b'"
  by (simp_all add: journals_def put_payment_def)

lemma journals_follows: "journals b b' \<Longrightarrow> follows b b'"
  by (auto simp: journals_def intro: follows_same)

lemma effects_journal:
  "confirmed_effects p b = Ok b' \<Longrightarrow> journals b b'"
  "reservation p b = Ok b' \<Longrightarrow> journals b b'"
  by (auto simp: journals_def confirmed_effects_def reservation_def restore_pending_deposit_def restore_reputation_def
      restore_faucet_grant_def restore_exchange_account_def Let_def
      split: option.splits if_splits payment_purpose.splits)

lemma confirm_journals: "journals b (snd (confirm ok p b))"
  using effects_journal(1) by (auto simp: confirm_def with_check_def Let_def split: option.split outcome.split)

lemma prepare_journals: "journals b (snd (prepare height ok p b))"
  using effects_journal(2) by (auto simp: prepare_def with_check_def Let_def split: outcome.split)

lemma send_journals: "journals b (snd (send ok p b))"
  by (simp add: send_def confirm_journals split: option.split)

lemma resolve_journals: "journals b (snd (snd (resolve P v p now b)))" (is "?ok (resolve P v p now b)")
proof -
  have "journals b (snd (send ok q (put_payment q b)))" for ok q
    using send_journals [of "put_payment q b" ok q] by simp
  then have "?ok (resend ok p now b)" for ok by (auto simp: resend_def Let_def split: option.split)
  moreover have "?ok (no_sends (save_progress ok p q b))" for ok q
    by (auto simp: save_progress_def no_sends_def Let_def split: option.split)
  moreover have "?ok (no_sends (confirm ok p b))" for ok by (simp add: no_sends_def confirm_journals)
  ultimately show ?thesis by (auto simp: resolve_def split: outcome.split evidence.split prod.split)
qed

lemma disburse_journals: "journals b (snd (snd (disburse_escrow P key io d k credit b)))"
proof -
  have "journals b (snd (snd (pay_escrow_balance P key io d k credit v b)))" for v
  proof -
    have "journals b (snd (send ok q b1))" if "prepare x y p b = (r, b1)" for ok q x y p r b1
      using journals_trans [OF _ send_journals] prepare_journals [of b x y p] that by simp
    moreover have "journals b b1" if "prepare x y p b = (r, b1)" for x y p r b1 using prepare_journals [of b x y p] that by simp
    ultimately show ?thesis
      by (auto simp: pay_escrow_balance_def Let_def split: option.split prod.split outcome.split) (metis prod.sel(2))+
  qed
  then show ?thesis by (auto simp: disburse_escrow_def split: option.split outcome.split)
qed

lemma refunds_journal:
  "journals b (snd (refund_escrow P key io d b))"
  "journals b (snd (refund_closed_task_escrow P key io i b))"
  "journals b (snd (snd (settle_dispute_bond P key io i b)))"
  "journals b (snd (snd (sweep_exchange_deposit P key custody io i b)))"
  using disburse_journals
  by (auto simp: refund_escrow_def refund_closed_task_escrow_def settle_dispute_bond_def sweep_exchange_deposit_def
      split: option.split sum.split prod.split) (metis prod.sel(2))+

subsection \<open>Rows that agree\<close>

text \<open>What claims the row of a consumed deposit: the row of an account, or of a task.\<close>

definition claimed_row :: "request_hub \<Rightarrow> uuid \<Rightarrow> pending_deposit \<Rightarrow> bool" where
  "claimed_row h i d = (case pd_purpose d of
     DisputeBond _ _ \<Rightarrow> True
   | FundExchangeAccount \<Rightarrow> bm_contains (pd_depositor d) (rq_accounts h)
   | _ \<Rightarrow> (\<exists>j t. bm_get (ps_tasks (rq_store h)) j = Some t \<and> tk_escrow_id t = Some i))"

definition rows_inv :: "request_hub \<Rightarrow> bool" where
  "rows_inv h \<longleftrightarrow> tasks_ok (bd_tasks (rq_board h)) \<and> bm_wf (bd_pending_deposits (rq_board h)) \<and> tasks_ok (ps_tasks (rq_store h))
     \<and> (\<forall>j t. bm_get (ps_tasks (rq_store h)) j = Some t \<longrightarrow>
          (\<exists>u. bm_get (bd_tasks (rq_board h)) j = Some u \<and> tk_escrow_id u = tk_escrow_id t))
     \<and> (\<forall>i d. bm_get (rq_deposits h) i = Some d \<longrightarrow> pd_status d = Consumed \<longrightarrow> claimed_row h i d)"

lemma rows_same:
  assumes "rows_inv h" "rq_board h' = rq_board h" "ps_tasks (rq_store h') = ps_tasks (rq_store h)" "rq_deposits h' = rq_deposits h"
    and "\<And>k. bm_contains k (rq_accounts h) \<Longrightarrow> bm_contains k (rq_accounts h')"
  shows "rows_inv h'"
proof -
  have "claimed_row h i d \<Longrightarrow> claimed_row h' i d" for i d
    using assms(3,5) by (auto simp: claimed_row_def split: escrow_purpose.splits)
  then show ?thesis using assms by (simp add: rows_inv_def)
qed

lemma rows_board: "rows_inv h \<Longrightarrow> follows (rq_board h) b \<Longrightarrow> rows_inv (h\<lparr>rq_board := b\<rparr>)"
proof -
  assume inv: "rows_inv h" and f: "follows (rq_board h) b"
  have "claimed_row (h\<lparr>rq_board := b\<rparr>) i d = claimed_row h i d" for i d by (simp add: claimed_row_def split: escrow_purpose.split)
  then show ?thesis using inv f unfolding rows_inv_def follows_def by (simp, metis)
qed

lemma rows_board_sel:
  assumes "rows_inv h"
  shows "tasks_ok (bd_tasks (rq_board h))" "bm_get (bd_tasks (rq_board h)) i = Some t \<Longrightarrow> tk_id t = i"
  using assms by (auto simp: rows_inv_def tasks_ok_def task_ok_def)

lemma rows_task:
  assumes inv: "rows_inv h" and t: "bm_get (bd_tasks (rq_board h)) i = Some t"
    and h': "rq_board h' = rq_board h" "rq_deposits h' = rq_deposits h" "rq_accounts h' = rq_accounts h"
      "ps_tasks (rq_store h') = bm_insert (tk_id t) t (ps_tasks (rq_store h))"
  shows "rows_inv h'"
proof -
  have id: "tk_id t = i" by (rule rows_board_sel(2) [OF inv t])
  have ok: "task_ok i t" using inv t by (simp add: rows_inv_def tasks_ok_def)
  have old: "tk_escrow_id t = tk_escrow_id u" if "bm_get (ps_tasks (rq_store h)) i = Some u" for u
    using inv t that by (force simp: rows_inv_def)
  have "claimed_row h' k d" if "claimed_row h k d" for k d
  proof -
    have "\<exists>j u. bm_get (ps_tasks (rq_store h')) j = Some u \<and> tk_escrow_id u = Some k"
      if "bm_get (ps_tasks (rq_store h)) j = Some u" "tk_escrow_id u = Some k" for j u
      using that old by (cases "j = i") (auto simp: h'(4) id)
    with that show ?thesis by (auto simp: claimed_row_def h'(3) split: escrow_purpose.splits)
  qed
  then show ?thesis using inv t ok by (auto simp: rows_inv_def tasks_ok_def h' id)
qed

lemma rows_task_writes:
  assumes "rows_inv h" "bm_get (bd_tasks (rq_board h)) i = Some t"
  shows "rows_inv (save_task_row t h)" "rows_inv (save_task_and_reputation_batch t es h)" "rows_inv (save_task_and_reputation t k r h)"
  by (rule rows_task [OF assms], simp_all add: save_task_row_def save_task_and_reputation_def save_task_and_reputation_batch_def save_task_def Let_def)+

lemma rows_deposit:
  assumes "rows_inv h" "pd_status d = Consumed \<Longrightarrow> claimed_row h (pd_id d) d"
  shows "rows_inv (save_pending_deposit d h)"
proof -
  have "claimed_row (save_pending_deposit d h) i x = claimed_row h i x" for i x by (simp add: claimed_row_def save_pending_deposit_def split: escrow_purpose.split)
  then show ?thesis using assms by (auto simp: rows_inv_def save_pending_deposit_def split: if_splits)
qed

lemma write_rows_get:
  "bm_get (write_rows before after table) k = Some v \<Longrightarrow> bm_get table k = Some v \<or> (k, v) \<in> set after \<and> bm_get before k \<noteq> Some v"
  using bm.get_fold_ins_Some [of fst snd "filter (\<lambda>(k, v). bm_get before k \<noteq> Some v) after" table k v]
  by (auto simp: write_rows_def case_prod_unfold)

lemma write_rows_contains: "bm_contains k table \<Longrightarrow> bm_contains k (write_rows before after table)"
  using bm.get_fold_ins_None [of fst snd "filter (\<lambda>(k, v). bm_get before k \<noteq> Some v) after" table k]
  by (auto simp: write_rows_def case_prod_unfold bm_contains_def split: option.splits)

lemma rows_journaled:
  assumes inv: "rows_inv h" and j: "journals (rq_board h) (snd x)"
  shows "rows_inv (journaled x h)"
proof -
  let ?h = "journaled x h"
  have wf: "bm_wf (bd_pending_deposits (snd x))" and t: "bd_tasks (snd x) = bd_tasks (rq_board h)" using inv j by (auto simp: rows_inv_def journals_def)
  have claim: "claimed_row ?h i d" if "claimed_row h i d" for i d
    using that write_rows_contains by (auto simp: claimed_row_def journaled_def Let_def split: escrow_purpose.splits)
  have "claimed_row ?h i d" if "bm_get (rq_deposits ?h) i = Some d" "pd_status d = Consumed" for i d
  proof -
    have "bm_get (rq_deposits h) i = Some d
      \<or> (i, d) \<in> set (bd_pending_deposits (snd x)) \<and> bm_get (bd_pending_deposits (rq_board h)) i \<noteq> Some d"
      using that(1) write_rows_get by (fastforce simp: journaled_def Let_def)
    then have "bm_get (rq_deposits h) i = Some d" using j that(2) bm_in_set_get [OF wf] by (auto simp: journals_def)
    then show ?thesis using inv that(2) claim by (simp add: rows_inv_def)
  qed
  moreover have "rq_board ?h = snd x" "ps_tasks (rq_store ?h) = ps_tasks (rq_store h)" by (simp_all add: journaled_def Let_def)
  ultimately show ?thesis using inv wf by (simp add: rows_inv_def t)
qed

lemmas rows_check = kept_check [where keeps = rows_inv]
lemmas rows_step = kept_step [where keeps = rows_inv]
lemmas rows_saving = kept_saving [where keeps = rows_inv]

lemma rows_on_board: "rows_inv h \<Longrightarrow> follows (rq_board h) (snd (f (rq_board h))) \<Longrightarrow> rows_inv (snd (on_board f h))"
  by (auto simp: on_board_def rows_board split: prod.split)

lemma rows_call:
  assumes "rows_inv h" "\<And>b. snd (f b) = run_board c b" "id_free c (rq_board h)"
  shows "rows_inv (snd (on_board (\<lambda>b. from_board (f b)) h))"
  using assms run_board_follows by (intro rows_on_board) (auto simp: from_board_def)

lemmas rows_rules = rows_check rows_step rows_saving

lemma expect_task: "expect (get_task b i) = Ok t \<longleftrightarrow> bm_get (bd_tasks b) i = Some t"
  by (auto simp: expect_def get_task_def split: option.splits)

subsection \<open>Settlements\<close>

abbreviation settling :: "request_hub \<Rightarrow> payout_hub \<Rightarrow> request_hub" where
  "settling h p \<equiv> h\<lparr>rq_board := ph_board p, rq_store := ph_store p\<rparr>"

lemma record_follows: "follows b (fold record_payout_attempt as b)"
proof (induction as arbitrary: b)
  case (Cons a as)
  have "follows b (record_payout_attempt a b)" using run_board_follows [of "RecordPayoutAttempt a" b] by simp
  then show ?case using Cons.IH [of "record_payout_attempt a b"] by (simp add: follows_trans)
qed simp

lemma rows_store:
  assumes "rows_inv (settling h p)" "ps_tasks st = ps_tasks (ph_store p)"
  shows "rows_inv (settling h (p\<lparr>ph_store := st\<rparr>))"
  using assms by (intro rows_same [OF assms(1)]) simp_all

lemma submit_task_payout_keeps_rows:
  assumes "rows_inv (settling h p)"
  shows "rows_inv (settling h (snd (snd (submit_task_payout P io i key source rs change p))))"
proof -
  have failed: "rows_inv (settling h (p\<lparr>ph_store := st\<rparr>))" if "save_attempts fates k as (ph_store p) = (f, st)" for fates k as f st
    using attempts_leave_tasks [of fates k as "ph_store p"] that by (intro rows_store [OF assms]) simp
  have sent: "rows_inv (settling h (p\<lparr>ph_board := fold record_payout_attempt bs (ph_board p), ph_store := st\<rparr>))"
    if "save_attempts fates k as (ph_store p) = (f, st)" for fates k as bs f st
    by (rule rows_same [OF rows_board [OF failed [OF that], of "fold record_payout_attempt bs (ph_board p)"]])
      (simp_all add: record_follows)
  have saved: "rows_inv (settling h (p\<lparr>ph_board := fold record_payout_attempt bs (ph_board p), ph_store := save_task t st\<rparr>))"
    if "save_attempts fates k as (ph_store p) = (f, st)" "get_task (fold record_payout_attempt bs (ph_board p)) i = Some t" for fates k as bs f st t
    by (rule rows_task [OF sent [OF that(1), of bs], of i t]) (use that(2) in \<open>simp_all add: save_task_def get_task_def\<close>)
  show ?thesis using assms failed sent saved
    by (auto simp: submit_task_payout_def Let_def split: outcome.split option.split fate.split prod.split)
qed

lemma settle_one_keeps_rows:
  "rows_inv (settling h p) \<Longrightarrow> rows_inv (settling h (snd (snd (settle_one_payout P keys io i r a p))))"
  by (simp add: settle_one_payout_def submit_bounty_payout_def submit_task_payout_keeps_rows split: option.split)

lemma settle_each_keeps_rows:
  "rows_inv (settling h p) \<Longrightarrow> rows_inv (settling h (snd (snd (settle_each P keys io k i rs p))))"
proof (induction P keys io k i rs p rule: settle_each.induct)
  case (2 P keys io k i r a rs p)
  show ?case
  proof (cases "settle_one_payout P keys (io k) i r a p")
    case (fields res sent p1)
    then show ?thesis using 2 settle_one_keeps_rows [OF 2(2), of P keys "io k" i r a] by (auto split: option.split prod.split)
  qed
qed simp

lemma rows_settle:
  assumes "rows_inv h"
  shows "rows_inv (snd (settle_now P cfg io i h))"
proof -
  let ?p = "\<lparr>ph_board = rq_board h, ph_store = rq_store h\<rparr>"
  have "rows_inv (settling h ?p)" using assms by simp
  then have "rows_inv (settling h (snd (snd (try_settle_verified_task P (hs_keys cfg) io i ?p))))"
    by (auto simp: try_settle_verified_task_def settle_escrow_funded_task_def submit_task_payout_keeps_rows settle_each_keeps_rows Let_def
        split: option.split)
  then show ?thesis by (rule rows_same) (simp_all add: settle_now_def settled_by_def)
qed

lemma rows_settled_task: "rows_inv (snd x) \<Longrightarrow> rows_inv (snd (settled_task x i))"
  by (auto simp: settled_task_def intro!: rows_check split: option.split)

lemma rows_settle_then:
  assumes "rows_inv h" "\<And>r h1. rows_inv h1 \<Longrightarrow> rows_inv (snd (k r h1))"
  shows "rows_inv (snd (case settle_now P cfg pio i h of (None, h1) \<Rightarrow> (Panic, h1) | (Some r, h1) \<Rightarrow> k r h1))"
  using rows_settle [OF assms(1), of P cfg pio i] assms(2) by (auto split: prod.split option.split)

lemma rows_refund: "rows_inv h \<Longrightarrow> rows_inv (refund_task_escrow P cfg eio i h)"
  by (auto simp: refund_task_escrow_def intro: rows_journaled refunds_journal)

subsection \<open>Handlers\<close>

lemma reserve_keeps_rows:
  assumes "rows_inv h"
  shows "rows_inv (snd (reserve_and_save cfg io k required purpose h))"
proof -
  let ?d = "fst (reserve_escrow (ri_fresh io) (ri_clock io 1) (hs_deposit_key cfg) k required purpose
      (ri_clock io 0 + minutes ESCROW_RESERVATION_TTL_MINUTES) (rq_board h))"
  have "rows_inv (h\<lparr>rq_board := set_deposit (ri_fresh io) ?d (rq_board h)\<rparr>)"
    by (rule rows_board [OF assms]) (auto intro: follows_same)
  then show ?thesis by (auto simp: reserve_and_save_def reserve_escrow_def Let_def saving_def intro!: rows_deposit)
qed

lemma reserving_handlers_keep_rows:
  assumes "rows_inv h"
  shows "rows_inv (snd (handle_create_task_escrow cfg io p h))"
    and "rows_inv (snd (handle_create_consensus_task_escrow cfg io q h))"
    and "rows_inv (snd (handle_create_disputable_task_escrow cfg io r h))"
    and "rows_inv (snd (handle_create_exchange_deposit cfg io h))"
    and "rows_inv (snd (handle_create_dispute_escrow io u i h))"
  using assms
  by (auto simp: handle_create_task_escrow_def handle_create_consensus_task_escrow_def handle_create_disputable_task_escrow_def
      handle_create_exchange_deposit_def handle_create_dispute_escrow_def intro!: rows_check reserve_keeps_rows)

text \<open>A limit set on a task that is on the board changes it there and in the reply alike.\<close>

lemma limit_follows:
  assumes "bm_get (bd_tasks b) (tk_id t) = Some t"
  shows "follows b (snd (apply_min_reputation r t b))" "follows b (snd (apply_capabilities cs t b))"
    and "fst (apply_min_reputation r t b) = Ok t' \<Longrightarrow> bm_get (bd_tasks (snd (apply_min_reputation r t b))) (tk_id t') = Some t'"
    and "fst (apply_capabilities cs t b) = Ok t' \<Longrightarrow> bm_get (bd_tasks (snd (apply_capabilities cs t b))) (tk_id t') = Some t'"
  using assms run_board_follows [of "SetMinReputation (tk_id t) r" b] run_board_follows [of "SetCapabilities (tk_id t) cs" b]
  by (auto simp: apply_min_reputation_def apply_capabilities_def set_min_reputation_def set_capabilities_def split: if_splits)

lemma on_board_split: "fst (on_board f h) = fst (f (rq_board h))" "snd (on_board f h) = h\<lparr>rq_board := snd (f (rq_board h))\<rparr>"
  by (simp_all add: on_board_def split: prod.split)

lemma finish_keeps_rows:
  assumes inv: "rows_inv h" and f: "follows (rq_board h) b" and t: "bm_get (bd_tasks b) (tk_id t) = Some t"
  shows "rows_inv (snd (finish_creation io r cs (t, b) h))"
  unfolding finish_creation_def
proof (rule rows_step)
  let ?h = "h\<lparr>rq_board := b\<rparr>" and ?x = "on_board (apply_min_reputation r t) (h\<lparr>rq_board := b\<rparr>)"
  have "rows_inv ?h" by (rule rows_board [OF inv f])
  then show one: "rows_inv (snd (on_board (apply_min_reputation r (fst (t, b))) (h\<lparr>rq_board := snd (t, b)\<rparr>)))"
    using limit_follows(1) [OF t, of r] by (simp add: rows_on_board)
  fix t1 assume "fst (on_board (apply_min_reputation r (fst (t, b))) (h\<lparr>rq_board := snd (t, b)\<rparr>)) = Ok t1"
  then have t1: "bm_get (bd_tasks (rq_board (snd ?x))) (tk_id t1) = Some t1"
    using limit_follows(3) [OF t, of r t1] by (simp add: on_board_split)
  have "rows_inv (snd (with_step (on_board (apply_capabilities cs t1) (snd ?x))
      (\<lambda>t2 h2. saving (ri_saved io) (save_task_row t2) h2 (\<lambda>_ h3. (Ok t2, h3)))))"
  proof (rule rows_step)
    show two: "rows_inv (snd (on_board (apply_capabilities cs t1) (snd ?x)))"
      using one limit_follows(2) [OF t1] by (simp add: rows_on_board)
    fix t2 assume "fst (on_board (apply_capabilities cs t1) (snd ?x)) = Ok t2"
    then have "bm_get (bd_tasks (rq_board (snd (on_board (apply_capabilities cs t1) (snd ?x))))) (tk_id t2) = Some t2"
      using limit_follows(4) [OF t1, of cs t2] by (simp add: on_board_split)
    from rows_task_writes(1) [OF two this] two
    show "rows_inv (snd (saving (ri_saved io) (save_task_row t2) (snd (on_board (apply_capabilities cs t1) (snd ?x))) (\<lambda>_ h3. (Ok t2, h3))))"
      by (intro rows_saving) simp_all
  qed
  then show "rows_inv (snd (with_step (on_board (apply_capabilities cs t1) (snd (on_board (apply_min_reputation r (fst (t, b))) (h\<lparr>rq_board := snd (t, b)\<rparr>))))
      (\<lambda>t2 h2. saving (ri_saved io) (save_task_row t2) h2 (\<lambda>_ h3. (Ok t2, h3)))))" by simp
qed

lemma posting_handlers_keep_rows:
  assumes inv: "rows_inv h" and new: "get_task (rq_board h) (ri_fresh io) = None"
  shows "rows_inv (snd (handle_create_task cfg io p h))" and "rows_inv (snd (handle_create_consensus_task cfg io q h))"
proof -
  have "rows_inv (snd (finish_creation io r cs (create_task (ri_fresh io) n k d v x (rq_board h)) h))" for r cs n k d v x
    using run_board_follows [of "CreateTask (ri_fresh io) n k d v x" "rq_board h"] new
    by (auto simp: create_task_def Let_def new_task_def intro!: finish_keeps_rows [OF inv])
  then show "rows_inv (snd (handle_create_task cfg io p h))"
    unfolding handle_create_task_def using inv by (auto intro!: rows_check)
  have "rows_inv (snd (finish_creation io r cs (create_consensus_task (ri_fresh io) n k d v a jd w (rq_board h)) h))" for r cs n k d v a jd w
    using run_board_follows [of "CreateConsensusTask (ri_fresh io) n k d v a jd w" "rq_board h"] new
    by (auto simp: create_consensus_task_def Let_def new_task_def intro!: finish_keeps_rows [OF inv])
  then show "rows_inv (snd (handle_create_consensus_task cfg io q h))"
    unfolding handle_create_consensus_task_def using inv by (auto intro!: rows_check)
qed

lemma rows_task_and_deposit:
  assumes inv: "rows_inv h" and t: "bm_get (bd_tasks (rq_board h)) i = Some t"
    and d: "pd_status d = Consumed \<Longrightarrow> claimed_row (save_task_row t h) (pd_id d) d"
  shows "rows_inv (save_task_and_deposit t d h)"
  unfolding save_task_and_deposit_def by (rule rows_deposit [OF rows_task_writes(1) [OF inv t]]) (rule d)

lemma confirm_keeps_rows:
  assumes inv: "rows_inv h" "requests_inv h" and new: "get_task (rq_board h) (ri_fresh io) = None"
  shows "rows_inv (snd (handle_confirm_task_escrow io u i h))"
proof -
  have "rows_inv (snd (with_step (on_board (\<lambda>b. from_board (confirm_escrow (ri_fresh io) (ri_clock io 1) i v (ri_clock io 0) b)) h)
     (\<lambda>confirmation h1. case confirmation of TaskCreated t \<Rightarrow>
       with_check (expect (get_pending_deposit (rq_board h1) i)) h1 (\<lambda>d.
         saving (ri_saved io) (save_task_and_deposit t d) h1 (\<lambda>_ h2. (Ok t, h2))))))" (is "rows_inv (snd (with_step ?x ?k))") for v
  proof (rule rows_step)
    show one: "rows_inv (snd ?x)" by (rule rows_call [OF inv(1), where c = "ConfirmEscrow (ri_fresh io) (ri_clock io 1) i v (ri_clock io 0)"]) (use new in simp_all)
    fix c assume "fst ?x = Ok c"
    then have x: "?x = (Ok c, snd ?x)" by (simp add: prod_eq_iff)
    obtain t where c: "c = TaskCreated t" by (cases c)
    from x obtain b where b: "confirm_escrow (ri_fresh io) (ri_clock io 1) i v (ri_clock io 0) (rq_board h) = (Ok (TaskCreated t), b)"
      "snd ?x = h\<lparr>rq_board := b\<rparr>" unfolding board_ok c by blast
    obtain d where d: "bm_get (bd_pending_deposits (rq_board h)) i = Some d" "tk_escrow_id t = Some i" "bm_get (bd_tasks b) (tk_id t) = Some t"
      "bm_get (bd_pending_deposits b) i = Some (d\<lparr>pd_status := Consumed\<rparr>)" "purpose_bounty (pd_purpose d) = Some (tk_bounty t)"
      by (rule confirm_escrow_ok [OF b(1)])
    have id: "pd_id d = i" using inv(2) d(1) by (auto simp: requests_inv_def dest: priced_get)
    have "claimed_row (save_task_row t (h\<lparr>rq_board := b\<rparr>)) i d'" if "pd_purpose d' = pd_purpose d" for d'
      using d(2,5) that by (auto simp: claimed_row_def save_task_row_def save_task_def purpose_bounty_def split: escrow_purpose.splits)
    then have "rows_inv (save_task_and_deposit t (d\<lparr>pd_status := Consumed\<rparr>) (h\<lparr>rq_board := b\<rparr>))"
      using rows_task_and_deposit [OF one [unfolded b(2)], of "tk_id t" t] d(3) id by simp
    then show "rows_inv (snd (?k c (snd ?x)))" unfolding b(2) c using one [unfolded b(2)] d(4)
      by (auto simp: expect_def get_pending_deposit_def saving_def)
  qed
  then show ?thesis unfolding handle_confirm_task_escrow_def using inv(1) by (auto intro!: rows_check)
qed

lemma bond_confirmed:
  assumes "confirm_dispute_bond e v now b = (Ok t, b')" "tasks_ok (bd_tasks b)"
  shows "bm_get (bd_tasks b') (tk_id t) = Some t \<and> (\<forall>d. get_pending_deposit b' e = Some d \<longrightarrow> (\<exists>i k. pd_purpose d = DisputeBond i k))"
  using assms
  by (auto simp: confirm_dispute_bond_def answers_ok get_pending_deposit_def Let_def tasks_ok_def task_ok_def
      split: option.splits escrow_purpose.splits task_kind.splits if_splits)

lemma confirm_dispute_keeps_rows:
  assumes inv: "rows_inv h"
  shows "rows_inv (snd (handle_confirm_dispute_escrow P cfg io eio u j e h))"
proof -
  have "rows_inv (snd (case confirm_dispute_bond e v now (rq_board h) of
      (Ok t, b) \<Rightarrow> with_check (expect (get_pending_deposit b e)) (h\<lparr>rq_board := b\<rparr>) (\<lambda>d.
          saving (ri_saved io) (save_task_and_deposit t d) (h\<lparr>rq_board := b\<rparr>) (\<lambda>_ h2. (Ok t, h2)))
    | (r, b) \<Rightarrow> (case board_reply r of
          Err e' \<Rightarrow> (Err e', if r = Err DisputeWindowClosed then refund_late_bond P cfg eio e (h\<lparr>rq_board := b\<rparr>) else h\<lparr>rq_board := b\<rparr>)
        | Cutoff \<Rightarrow> (Cutoff, h\<lparr>rq_board := b\<rparr>) | _ \<Rightarrow> (Panic, h\<lparr>rq_board := b\<rparr>))))" for v now
  proof (cases "confirm_dispute_bond e v now (rq_board h)")
    case (Pair r b)
    have ok: "rows_inv (h\<lparr>rq_board := b\<rparr>)"
      using rows_board [OF inv] run_board_follows [of "ConfirmDisputeBond e v now" "rq_board h"] Pair by simp
    have late: "rows_inv (refund_late_bond P cfg eio e (h\<lparr>rq_board := b\<rparr>))"
      using ok by (auto simp: refund_late_bond_def intro!: rows_journaled refunds_journal split: option.split)
    have "rows_inv (save_task_and_deposit t d (h\<lparr>rq_board := b\<rparr>))" if "r = Ok t" "get_pending_deposit b e = Some d" for t d
    proof -
      from bond_confirmed [of e v now "rq_board h" t b] Pair that rows_board_sel(1) [OF inv]
      have t: "bm_get (bd_tasks b) (tk_id t) = Some t" and d: "\<exists>i k. pd_purpose d = DisputeBond i k" by auto
      show ?thesis by (rule rows_task_and_deposit [OF ok, of "tk_id t"]) (use t d in \<open>auto simp: claimed_row_def\<close>)
    qed
    then show ?thesis unfolding Pair using ok late by (cases r) (auto simp: expect_def intro!: rows_check rows_saving split: option.splits)
  qed
  then show ?thesis unfolding handle_confirm_dispute_escrow_def using inv by (auto intro!: rows_check)
qed

text \<open>The board moves, the task is read back and written.\<close>

lemma rows_move_and_write:
  assumes inv: "rows_inv h" and f: "\<And>b. snd (f b) = run_board c b" "id_free c (rq_board h)"
    and w: "\<And>v t h1. rows_inv h1 \<Longrightarrow> bm_get (bd_tasks (rq_board h1)) i = Some t \<Longrightarrow> rows_inv (snd (k v t h1))"
  shows "rows_inv (snd (with_step (on_board (\<lambda>b. from_board (f b)) h) (\<lambda>v h1. with_check (expect (get_task (rq_board h1) i)) h1 (\<lambda>t. k v t h1))))"
  using rows_call [OF inv f] w by (auto intro!: rows_rules simp: expect_task)

lemma claim_keeps_rows:
  assumes "rows_inv h"
  shows "rows_inv (snd (handle_claim_task io u i h))"
proof -
  have w: "rows_inv (snd (saving (ri_saved io) (save_task_row t) h1 (\<lambda>_ h2. (Ok t, h2))))"
    if "rows_inv h1" "bm_get (bd_tasks (rq_board h1)) i = Some t" for t h1
    using that rows_task_writes(1) [OF that] by (auto intro!: rows_saving)
  have "rows_inv (snd (with_step (on_board (\<lambda>b. from_board (join_consensus_task a1 a2 i k b)) h) (\<lambda>_ h1.
        with_check (expect (get_task (rq_board h1) i)) h1 (\<lambda>t. saving (ri_saved io) (save_task_row t) h1 (\<lambda>_ h2. (Ok t, h2))))))" for a1 a2 k
    by (rule rows_move_and_write [OF assms, where c = "JoinConsensusTask a1 a2 i k"]) (use w in simp_all)
  moreover have "rows_inv (snd (with_step (on_board (\<lambda>b. from_board (claim_task i k a1 b)) h) (\<lambda>_ h1.
        with_check (expect (get_task (rq_board h1) i)) h1 (\<lambda>t. saving (ri_saved io) (save_task_row t) h1 (\<lambda>_ h2. (Ok t, h2))))))" for a1 k
    by (rule rows_move_and_write [OF assms, where c = "ClaimTask i k a1"]) (use w in simp_all)
  ultimately have "rows_inv (snd (with_step (on_board (\<lambda>b. from_board
        (case tk_kind t0 of Consensus _ \<Rightarrow> join_consensus_task a1 a2 i k b | _ \<Rightarrow> claim_task i k a3 b)) h) (\<lambda>_ h1.
        with_check (expect (get_task (rq_board h1) i)) h1 (\<lambda>t. saving (ri_saved io) (save_task_row t) h1 (\<lambda>_ h2. (Ok t, h2))))))"
    for t0 a1 a2 a3 k by (cases "tk_kind t0") simp_all
  then show ?thesis using assms by (auto simp: handle_claim_task_def intro!: rows_check split: option.split)
qed

lemma staged_keeps_rows:
  assumes inv: "rows_inv h" and f: "f = close_contest i k now \<or> f = pick_answer i k w now \<or> f = cancel_task i"
  shows "rows_inv (snd (on_staged_task ok i f h))"
proof -
  have "follows (rq_board h) (snd (f (rq_board h)))"
    using f run_board_follows [of "CloseContest i k now"] run_board_follows [of "PickAnswer i k w now"] run_board_follows [of "CancelTask i"] by auto
  then have one: "rows_inv (h\<lparr>rq_board := snd (f (rq_board h))\<rparr>)" by (rule rows_board [OF inv])
  have written: "rows_inv (snd (with_check (expect (get_task (rq_board h1) i)) h1 (\<lambda>t. (Ok t, save_task_row t h1) :: task reply)))" if "rows_inv h1" for h1
    using that rows_task_writes(1) [OF that] by (auto intro!: rows_check simp: expect_task)
  have "rows_inv (snd (directly ok (f (rq_board h)) (\<lambda>_ h1. with_check (expect (get_task (rq_board h1) i)) h1 (\<lambda>t. (Ok t, save_task_row t h1))) h))"
    unfolding directly_def by (rule rows_check [OF inv]) (use inv written [OF one] in simp)
  moreover have "get_task (rq_board h) i = Some t \<Longrightarrow> tk_id t = i" for t using rows_board_sel(2) [OF inv] by (simp add: get_task_def)
  ultimately show ?thesis using staged_task_is_direct [of h i f k now w ok] f by simp
qed

lemma closing_handlers_keep_rows:
  assumes "rows_inv h"
  shows "rows_inv (snd (handle_close_task P cfg io eio u i h))"
    and "rows_inv (snd (handle_cancel_task P cfg io eio u i h))"
    and "rows_inv (snd (handle_pick_answer P cfg io pio u i a h))"
proof -
  have c: "rows_inv (snd (on_staged_task ok i (close_contest i k n) h))" "rows_inv (snd (on_staged_task ok i (cancel_task i) h))"
    "rows_inv (snd (on_staged_task ok i (pick_answer i k w n) h))" for ok k n w
    by (rule staged_keeps_rows [OF assms]; blast)+
  show "rows_inv (snd (handle_close_task P cfg io eio u i h))" "rows_inv (snd (handle_cancel_task P cfg io eio u i h))"
    "rows_inv (snd (handle_pick_answer P cfg io pio u i a h))"
    using assms c by (auto simp: handle_close_task_def handle_cancel_task_def handle_pick_answer_def
        intro!: rows_check rows_step rows_refund rows_settled_task rows_settle)
qed

lemma resolve_keeps_rows:
  assumes "rows_inv h"
  shows "rows_inv (snd (handle_resolve_dispute P cfg io pio eio u i v h))"
proof -
  have legs: "rows_inv (snd (settle_both_legs P cfg pio eio i g))" if "rows_inv g" for g
    using rows_settle [OF that, of P cfg pio i]
    by (auto simp: settle_both_legs_def intro!: rows_settled_task rows_journaled refunds_journal split: prod.split option.split)
  have "rows_inv (snd (with_step (on_board (\<lambda>b. from_board (resolve_dispute i v b)) h) (\<lambda>r h1.
        with_check (expect (get_task (rq_board h1) i)) h1 (\<lambda>t.
        saving (ri_saved io) (save_task_and_reputation t (snd r) (reputation_of (rq_board h1) (snd r))) h1 (\<lambda>_ h2. settle_both_legs P cfg pio eio i h2)))))"
    by (rule rows_move_and_write [OF assms, where c = "ResolveDispute i v"]) (auto intro!: rows_saving legs rows_task_writes)
  then show ?thesis unfolding handle_resolve_dispute_def using assms by (auto simp: case_prod_unfold intro!: rows_check)
qed

lemma submitting_handlers_keep_rows:
  assumes inv: "rows_inv h"
  shows "rows_inv (snd (handle_submit_task P cfg io pio eio u i s h))"
proof -
  have "rows_inv (snd (submit_hash_match_task P cfg io pio i k s h))" for k
    unfolding submit_hash_match_task_def
    by (rule rows_move_and_write [OF inv, where c = "SubmitOutput i k (hash_bytes P (as_bytes s))"])
      (auto intro!: rows_saving rows_settle_then rows_task_writes)
  moreover have "rows_inv (snd (submit_consensus_task P cfg io pio eio i k s h))" for k
    unfolding submit_consensus_task_def
    by (rule rows_move_and_write [OF inv, where c = "SubmitConsensusAnswer (ri_clock io 0) i k s"])
      (auto simp: Let_def intro!: rows_saving rows_settle_then rows_task_writes rows_refund)
  moreover have "rows_inv (snd (submit_disputable_task io i k s h))" for k
  proof -
    let ?x = "on_board (\<lambda>b. from_board (submit_contest_answer i k s (ri_clock io 0) b)) h"
    have one: "rows_inv (snd ?x)" by (rule rows_call [OF inv, where c = "SubmitContestAnswer i k s (ri_clock io 0)"]) simp_all
    have "follows (rq_board (snd ?x)) (restore_task old (rq_board (snd ?x)))" if old: "get_task (rq_board h) i = Some old" for old
    proof -
      have was: "bm_get (bd_tasks (rq_board h)) i = Some old" "task_ok i old" "tk_id old = i"
        using old inv by (auto simp: get_task_def rows_inv_def tasks_ok_def task_ok_def)
      have "follows (rq_board h) (rq_board (snd ?x))"
        using run_board_follows [of "SubmitContestAnswer i k s (ri_clock io 0)" "rq_board h"] by (simp add: on_board_split from_board_def)
      then obtain new where "bm_get (bd_tasks (rq_board (snd ?x))) i = Some new" "tk_escrow_id new = tk_escrow_id old"
        using was(1) inv unfolding follows_def rows_inv_def by blast
      then show ?thesis using was by (auto simp: follows_def restore_task_def tasks_ok_def)
    qed
    then have undone: "rows_inv ((snd ?x)\<lparr>rq_board := restore_task old (rq_board (snd ?x))\<rparr>)" if "get_task (rq_board h) i = Some old" for old
      using that by (intro rows_board [OF one])
    have "rows_inv (save_task_row t (snd ?x))" if "bm_get (bd_tasks (rq_board (snd ?x))) i = Some t" for t
      by (rule rows_task_writes(1) [OF one that])
    then show ?thesis unfolding submit_disputable_task_def using one undone
      by (intro rows_step rows_check) (auto simp: expect_task split: option.split)
  qed
  ultimately show ?thesis using inv by (auto simp: handle_submit_task_def intro!: rows_check split: option.split task_kind.split)
qed

lemma credited:
  assumes "confirm_exchange_deposit i v fee now b = (Ok (k, c), b')"
  shows "\<exists>d. bm_get (bd_pending_deposits b) i = Some d \<and> k = pd_depositor d \<and> pd_purpose d = FundExchangeAccount
     \<and> bm_get (bd_pending_deposits b') i = Some (d\<lparr>pd_status := Consumed\<rparr>)"
proof -
  have cb: "bd_pending_deposits (snd (credit_base k a x)) = bd_pending_deposits x" for k a x
    using update_account_rest [of k "account_add_base a" x] by (simp add: rest_def credit_base_def)
  then have same: "bd_pending_deposits y = bd_pending_deposits x" if "credit_base k a x = (r, y)" for k a x r y using that by (metis snd_conv)
  show ?thesis using assms
    by (auto simp: confirm_exchange_deposit_def Let_def answers_ok dest!: same split: option.splits if_splits)
qed

lemma exchange_confirm_keeps_rows:
  assumes inv: "rows_inv h"
  shows "rows_inv (snd (handle_confirm_exchange_deposit P cfg io eio u e h))"
proof -
  have publish: "rows_inv (journaled (snd (sweep_exchange_deposit P key custody eio e b)) (g\<lparr>rq_board := b\<rparr>))"
    if g: "rows_inv g" and b: "b = restore_pending_deposit d (restore_exchange_account k a (rq_board g))" for g b d k a key custody
  proof -
    have "follows (rq_board g) b" by (rule follows_same) (simp_all add: b restore_pending_deposit_def restore_exchange_account_def)
    then show ?thesis by (intro rows_journaled rows_board [OF g]) (simp_all add: refunds_journal)
  qed
  have saved: "rows_inv (save_exchange_account_and_deposit k a d h)" if "pd_purpose d = FundExchangeAccount" "pd_depositor d = k" for k a d
  proof -
    have "rows_inv (h\<lparr>rq_accounts := bm_insert k a (rq_accounts h)\<rparr>)"
      by (rule rows_same [OF inv]) (auto simp: bm_contains_get)
    then show ?thesis unfolding save_exchange_account_and_deposit_def
      by (rule rows_deposit) (use that in \<open>simp add: claimed_row_def bm_contains_get\<close>)
  qed
  have row: "rows_inv (save_exchange_account_and_deposit k a d h)"
    if "confirm_exchange_deposit e v fee now b = (r, s)" "board_reply r = Ok (k, c)" "get_pending_deposit s e = Some d" for v fee now b r s k c a d
  proof -
    have "r = Ok (k, c)" using that(2) by (cases r) simp_all
    then show ?thesis using credited [of e v fee now b k c s] that(1,3) by (intro saved) (auto simp: get_pending_deposit_def)
  qed
  have "rows_inv (snd (handle_confirm_exchange_deposit P cfg io eio e e h))"
    unfolding handle_confirm_exchange_deposit_def using inv
    by (auto simp: Let_def expect_def intro!: rows_check rows_saving publish split: option.split prod.split) (blast intro: row)+
  then show ?thesis using inv by (cases "e = u") (simp_all add: handle_confirm_exchange_deposit_def)
qed

lemma market_handlers_keep_rows:
  assumes inv: "rows_inv h"
  shows "rows_inv (snd (handle_cancel_order io u i h))" and "rows_inv (snd (handle_withdraw P cfg io eio v h))"
proof -
  have "rows_inv ((save_order_and_account o' k a h)\<lparr>rq_board := restore_exchange_account k' a' (restore_order o' (rq_board (save_order_and_account o' k a h)))\<rparr>)"
    for o' k a k' a'
  proof (rule rows_board)
    show "rows_inv (save_order_and_account o' k a h)"
      by (rule rows_same [OF inv]) (auto simp: save_order_and_account_def bm_contains_get)
    show "follows (rq_board (save_order_and_account o' k a h)) (restore_exchange_account k' a' (restore_order o' (rq_board (save_order_and_account o' k a h))))"
      by (rule follows_same) (simp_all add: restore_exchange_account_def restore_order_def)
  qed
  then show "rows_inv (snd (handle_cancel_order io u i h))"
    using inv by (auto simp: handle_cancel_order_def Let_def intro!: rows_check rows_saving split: option.split prod.split)
  have "rows_inv (journaled (send ok q b) h)" "rows_inv (journaled ([], b) h)" if "prepare x y p (rq_board h) = (r, b)" for x y p r ok q b
    using prepare_journals [of "rq_board h" x y p] that journals_trans [OF _ send_journals] by (auto intro!: rows_journaled [OF inv])
  then show "rows_inv (snd (handle_withdraw P cfg io eio v h))"
    using inv by (auto simp: handle_withdraw_def Let_def intro!: rows_check split: outcome.split prod.split)
qed

subsection \<open>The machine\<close>

text \<open>
  Requests, the rows of tasks a sweep writes, and the rows of a payment that is prepared, sent or
  resolved.  Escrows are reserved and confirmed and tasks created by handlers only, with ids that
  are free.
\<close>

datatype rows_call = Req request | WriteTask uuid | Journal hub_call

fun run_rows :: "prims \<Rightarrow> hub_settings \<Rightarrow> rows_call \<Rightarrow> request_hub \<Rightarrow> request_hub" where
  "run_rows P cfg (Req c) h = run_request P cfg c h"
| "run_rows P cfg (WriteTask i) h = (case get_task (rq_board h) i of None \<Rightarrow> h | Some t \<Rightarrow> save_task_row t h)"
| "run_rows P cfg (Journal c) h = journaled ([], run_hub P c (rq_board h)) h"

fun payment_call :: "hub_call \<Rightarrow> bool" where
  "payment_call (OnTasks c) \<longleftrightarrow> False"
| "payment_call (OnMarket c) \<longleftrightarrow> False"
| "payment_call c \<longleftrightarrow> True"

fun elsewhere_allowed :: "hub_call \<Rightarrow> bool" where
  "elsewhere_allowed (OnTasks (RestoreTask t)) \<longleftrightarrow> False"
| "elsewhere_allowed (OnTasks (CreateTask fresh now poster desc bounty h)) \<longleftrightarrow> False"
| "elsewhere_allowed (OnTasks (CreateConsensusTask fresh now poster desc bounty n jd w)) \<longleftrightarrow> False"
| "elsewhere_allowed (OnTasks (CreateDisputableTask fresh now poster desc bounty w)) \<longleftrightarrow> False"
| "elsewhere_allowed (OnTasks (ReserveEscrow fresh now derive depositor required purpose expires)) \<longleftrightarrow> False"
| "elsewhere_allowed (OnTasks (ConfirmEscrow fresh clock i observed now)) \<longleftrightarrow> False"
| "elsewhere_allowed c \<longleftrightarrow> True"

fun rows_allowed :: "rows_call \<Rightarrow> request_hub \<Rightarrow> bool" where
  "rows_allowed (Req (PostTask io p)) h \<longleftrightarrow> get_task (rq_board h) (ri_fresh io) = None"
| "rows_allowed (Req (PostConsensusTask io p)) h \<longleftrightarrow> get_task (rq_board h) (ri_fresh io) = None"
| "rows_allowed (Req (ConfirmTaskEscrow io u i)) h \<longleftrightarrow> get_task (rq_board h) (ri_fresh io) = None"
| "rows_allowed (Req (Elsewhere c)) h \<longleftrightarrow> elsewhere_allowed c"
| "rows_allowed (Req c) h \<longleftrightarrow> True"
| "rows_allowed (Journal c) h \<longleftrightarrow> payment_call c"
| "rows_allowed (WriteTask i) h \<longleftrightarrow> True"

definition rows_reachable :: "prims \<Rightarrow> hub_settings \<Rightarrow> request_hub \<Rightarrow> bool" where
  "rows_reachable P cfg h \<longleftrightarrow> reaches rows_allowed (run_rows P cfg) requests_start h"

lemma payment_journals: "payment_call c \<Longrightarrow> journals b (run_hub P c b)"
  by (cases c) (simp_all add: prepare_journals send_journals resolve_journals)

lemma market_follows: "follows b (run_exchange c b)"
proof (rule follows_same)
  show "bd_tasks (run_exchange c b) = bd_tasks b" using run_exchange_frame [of c b] by simp
  show "bm_wf (bd_pending_deposits (run_exchange c b))" if "bm_wf (bd_pending_deposits b)"
    using market_consumes_none [of b c] that by (simp add: consumes_none_def)
qed

lemma elsewhere_follows:
  assumes "elsewhere_allowed c"
  shows "follows b (run_hub P c b)"
proof (cases c)
  case (OnTasks d)
  then have "id_free d b" using assms by (cases d) simp_all
  then show ?thesis using run_board_follows OnTasks by simp
next
  case (OnMarket d)
  then show ?thesis using market_follows by simp
qed (simp_all add: journals_follows prepare_journals send_journals resolve_journals)

lemma rows_restart:
  assumes inv: "rows_inv h" "requests_inv h"
  shows "rows_inv (restart_requests h)"
proof -
  have keyed: "\<And>i d. bm_get (rq_deposits h) i = Some d \<Longrightarrow> pd_id d = i" using inv(2) by (auto simp: requests_inv_def dest: priced_get)
  have wf: "task_rows (ps_tasks (rq_store h))" "bm_wf (rq_deposits h)" using inv(2) by (simp_all add: requests_inv_def)
  note r = restart_rows [OF wf keyed]
  have "rq_accounts (restart_requests h) = rq_accounts h" by (simp add: restart_requests_def Let_def)
  then have "claimed_row (restart_requests h) i d = claimed_row h i d" for i d by (simp add: claimed_row_def r split: escrow_purpose.split)
  then show ?thesis using inv(1) wf(2) by (simp add: rows_inv_def r)
qed

lemma rows_run:
  assumes inv: "rows_inv h" "requests_inv h" and al: "rows_allowed c h"
  shows "rows_inv (run_rows P cfg c h)"
proof (cases c)
  case (Req q)
  show ?thesis
  proof (cases q)
    case (Elsewhere d)
    then show ?thesis using al Req rows_board [OF inv(1) elsewhere_follows] by simp
  qed (use al Req inv reserving_handlers_keep_rows [OF inv(1)] posting_handlers_keep_rows [OF inv(1)] confirm_keeps_rows [OF inv]
      confirm_dispute_keeps_rows [OF inv(1)] claim_keeps_rows [OF inv(1)] closing_handlers_keep_rows [OF inv(1)]
      resolve_keeps_rows [OF inv(1)] submitting_handlers_keep_rows [OF inv(1)] exchange_confirm_keeps_rows [OF inv(1)]
      market_handlers_keep_rows [OF inv(1)] rows_restart [OF inv] in simp_all)
next
  case (WriteTask i)
  then show ?thesis using inv(1) rows_task_writes(1) [OF inv(1)] by (auto simp: get_task_def split: option.split)
next
  case (Journal d)
  then show ?thesis using al payment_journals by (auto intro!: rows_journaled [OF inv(1)])
qed

lemma rows_requests:
  assumes inv: "requests_inv h" and al: "rows_allowed c h"
  shows "requests_inv (run_rows P cfg c h)"
proof (cases c)
  case (Req q)
  have "request_allowed q h" using al Req
  proof (cases q)
    case (Elsewhere d)
    then show ?thesis using al Req by (cases d) (auto elim: elsewhere_allowed.elims)
  qed simp_all
  then show ?thesis using request_inv [OF inv] Req by simp
next
  case (WriteTask i)
  then show ?thesis using inv by (simp split: option.split)
next
  case (Journal d)
  have "priced (bd_pending_deposits (run_hub P d (rq_board h)))"
    using al Journal by (intro hub_priced [OF inv_priced [OF inv]]) auto
  then show ?thesis using inv Journal by (auto intro: inv_journaled)
qed

interpretation rows_machine: call_machine requests_start rows_allowed "run_rows P cfg" "\<lambda>h. requests_inv h \<and> rows_inv h" "\<lambda>_ _. True" for P cfg
proof unfold_locales
  have "requests_inv requests_start" using requests.inv_start .
  moreover have "rows_inv requests_start" by (simp add: rows_inv_def requests_start_def task_board_new_def tasks_ok_def)
  ultimately show "requests_inv requests_start \<and> rows_inv requests_start" by blast
qed (simp_all add: rows_run rows_requests)

subsection \<open>The cross-check at start-up\<close>

lemma restart_accounts:
  assumes "bm_contains k (rq_accounts h)"
  shows "list_ex (\<lambda>(k', _). k' = k) (bd_exchange_accounts (rq_board (restart_requests h)))"
proof -
  let ?acc = "\<lambda>b. bd_exchange_accounts b"
  have same: "?acc (fold restore_order os b) = ?acc b" "?acc (fold restore_payout_attempt ps b) = ?acc b" for os ps b
    by (rule fold_same; simp add: restore_order_def restore_payout_attempt_def)+
  have "?acc (fold (\<lambda>(k, a). restore_exchange_account k a) as b) = fold (\<lambda>x. bm_insert (fst x) (snd x)) as (?acc b)" for as b
    by (induction as arbitrary: b) (auto simp: restore_exchange_account_def)
  then have "\<exists>m. ?acc (rq_board (restart_requests h)) = fold (\<lambda>x. bm_insert (fst x) (snd x)) (rq_accounts h) m"
    by (simp add: restart_requests_def Let_def same) blast
  then obtain m where m: "?acc (rq_board (restart_requests h)) = fold (\<lambda>x. bm_insert (fst x) (snd x)) (rq_accounts h) m" by blast
  have "bm_get (?acc (rq_board (restart_requests h))) k \<noteq> None"
    using bm.get_fold_ins_None [of fst snd "rq_accounts h" m k] assms by (auto simp: m bm_contains_iff)
  then obtain a where "(k, a) \<in> set (?acc (rq_board (restart_requests h)))" using bm_get_in_set by fastforce
  then show ?thesis by (auto simp: list_ex_iff)
qed

text \<open>
  C38: A hub that starts again finds no orphaned deposit.  Over any run of the handlers, with
  writes that fail, settlements that die half way, rows written by sweeps and payments, and
  restarts, the cross-check of the board rebuilt from the store reports no deposit as consumed
  with nothing to show for it: a deposit's row says consumed only once the row of the task it
  funds, or of the account it credits, is on disk.
\<close>

theorem no_orphaned_deposit_at_start:
  assumes "rows_reachable P cfg h"
  shows "check_orphaned_consumed_deposits (rq_board (restart_requests h)) = []"
proof -
  have inv: "requests_inv h" "rows_inv h" using rows_machine.reached_inv assms unfolding rows_reachable_def by blast+
  have keyed: "\<And>i d. bm_get (rq_deposits h) i = Some d \<Longrightarrow> pd_id d = i \<and> priced_deposit d"
    using inv(1) by (auto simp: requests_inv_def dest: priced_get)
  have wf: "task_rows (ps_tasks (rq_store h))" "bm_wf (rq_deposits h)" using inv(1) by (simp_all add: requests_inv_def)
  let ?b = "rq_board (restart_requests h)"
  have r: "bd_tasks ?b = ps_tasks (rq_store h)" "bd_pending_deposits ?b = rq_deposits h" using restart_rows [OF wf] keyed by auto
  have "deposit_claimed ?b d" if d: "d \<in> set (bm_values (rq_deposits h))" "pd_status d = Consumed" for d
  proof -
    obtain i where i: "bm_get (rq_deposits h) i = Some d" using d(1) bm_values_iff [OF wf(2)] by blast
    then have c: "claimed_row h (pd_id d) d" "funds (pd_purpose d)" using inv(2) d(2) keyed [OF i] by (auto simp: rows_inv_def priced_deposit_def)
    have task: "list_ex (\<lambda>t. tk_escrow_id t = Some (pd_id d)) (bm_values (bd_tasks ?b))"
      if "bm_get (ps_tasks (rq_store h)) j = Some t" "tk_escrow_id t = Some (pd_id d)" for j t
      using that bm_values_iff [of "ps_tasks (rq_store h)" t] wf(1) by (auto simp: r(1) task_rows_def list_ex_iff)
    show ?thesis using c task restart_accounts [of "pd_depositor d" h]
      by (auto simp: deposit_claimed_def claimed_row_def funds_def split: escrow_purpose.splits)
  qed
  then show ?thesis by (auto simp: check_orphaned_consumed_deposits_def r(2) filter_empty_conv)
qed

end
