(* ===== verification/Hub_Saved.thy ===== *)
theory Hub_Saved
  imports Hub_Request_Inv Hub_Promises
begin

text \<open>
  Escrows over restarts: the task board and the rows of its store, with the operations of the
  board, the writes of a task, of a deposit and of both in one transaction (\<open>hub/src/store.rs\<close>),
  made or not made in any order, and restarts, which rebuild the board from the rows alone.  One
  condition ties the writes together: a task is written only with the deposit that funds it or
  after it.  The handlers keep to it as long as the write of a confirmation commits;
  \<open>Hub_Request_Promises\<close> shows what follows when it does not.
\<close>

datatype saved_call =
    OnBoard board_call
  | SaveTask uuid
  | SaveDeposit uuid
  | SaveTaskWithDeposit uuid uuid
  | BoardRestart

fun run_saved :: "saved_call \<Rightarrow> request_hub \<Rightarrow> request_hub" where
  "run_saved (OnBoard c) h = h\<lparr>rq_board := run_board c (rq_board h)\<rparr>"
| "run_saved (SaveTask i) h = (case get_task (rq_board h) i of None \<Rightarrow> h | Some t \<Rightarrow> save_task_row t h)"
| "run_saved (SaveDeposit e) h = (case get_pending_deposit (rq_board h) e of None \<Rightarrow> h | Some d \<Rightarrow> save_pending_deposit d h)"
| "run_saved (SaveTaskWithDeposit i e) h =
     (case get_task (rq_board h) i of None \<Rightarrow> h | Some t \<Rightarrow>
        (case get_pending_deposit (rq_board h) e of None \<Rightarrow> h | Some d \<Rightarrow> save_task_and_deposit t d h))"
| "run_saved BoardRestart h = restart_requests h"

definition spent_row :: "request_hub \<Rightarrow> uuid \<Rightarrow> bool" where
  "spent_row h e = (case bm_get (rq_deposits h) e of None \<Rightarrow> False | Some d \<Rightarrow> pd_status d \<noteq> Reserved)"

text \<open>The deposit behind a task is on disk as spent, or goes there with the task.\<close>

definition deposit_follows :: "uuid set \<Rightarrow> uuid \<Rightarrow> request_hub \<Rightarrow> bool" where
  "deposit_follows with i h =
     (case get_task (rq_board h) i of None \<Rightarrow> True | Some t \<Rightarrow>
        (case tk_escrow_id t of None \<Rightarrow> True | Some e \<Rightarrow> e \<in> with \<or> spent_row h e))"

fun saved_allowed :: "saved_call \<Rightarrow> request_hub \<Rightarrow> bool" where
  "saved_allowed (OnBoard c) h \<longleftrightarrow> board_allowed c (rq_board h)"
| "saved_allowed (SaveTask i) h \<longleftrightarrow> deposit_follows {} i h"
| "saved_allowed (SaveTaskWithDeposit i e) h \<longleftrightarrow> deposit_follows {e} i h"
| "saved_allowed _ h \<longleftrightarrow> True"

definition saved_reachable :: "request_hub \<Rightarrow> bool" where
  "saved_reachable h \<longleftrightarrow> reaches saved_allowed run_saved requests_start h"

subsection \<open>The invariant\<close>

definition row_ok :: "request_hub \<Rightarrow> uuid \<Rightarrow> task \<Rightarrow> bool" where
  "row_ok h i t \<longleftrightarrow> task_ok i t
     \<and> (\<exists>u. bm_get (bd_tasks (rq_board h)) i = Some u \<and> tk_escrow_id u = tk_escrow_id t)
     \<and> (\<forall>e. tk_escrow_id t = Some e \<longrightarrow> spent_row h e)"

definition saved_inv :: "request_hub \<Rightarrow> bool" where
  "saved_inv h \<longleftrightarrow> board_inv (rq_board h) \<and> deposits_keyed (rq_board h)
     \<and> bm_wf (ps_tasks (rq_store h)) \<and> (\<forall>i t. bm_get (ps_tasks (rq_store h)) i = Some t \<longrightarrow> row_ok h i t)
     \<and> bm_wf (rq_deposits h)
     \<and> (\<forall>e d. bm_get (rq_deposits h) e = Some d \<longrightarrow> pd_id d = e \<and> (pd_status d \<noteq> Reserved \<longrightarrow> spent_deposit (rq_board h) e))"

text \<open>On the board a spent deposit stays spent and every deposit keeps its id.\<close>

lemma keyed_insert:
  "bd_pending_deposits b' = bm_insert i d (bd_pending_deposits b) \<Longrightarrow> pd_id d = i \<Longrightarrow> deposits_keyed b \<Longrightarrow> deposits_keyed b'"
  by (simp add: deposits_keyed_def)

lemma keyed_same: "bd_pending_deposits b' = bd_pending_deposits b \<Longrightarrow> deposits_keyed b \<Longrightarrow> deposits_keyed b'"
  by (simp add: deposits_keyed_def)

lemma saved_board_deposits:
  assumes keyed: "deposits_keyed b" and al: "board_allowed c b"
  shows "deposits_keyed (run_board c b)" "spent_deposit b e \<Longrightarrow> spent_deposit (run_board c b) e"
proof -
  have id: "pd_id d = i" if "bm_get (bd_pending_deposits b) i = Some d" for i d
    using keyed that by (simp add: deposits_keyed_def)
  have "deposits_keyed (run_board c b) \<and> (spent_deposit b e \<longrightarrow> spent_deposit (run_board c b) e)"
  proof (cases c)
    case (ConfirmEscrow fresh clock i observed now)
    then show ?thesis using confirm_escrow_deposits_eq [of fresh clock i observed now b] keyed id
      by (auto intro: keyed_same keyed_insert spent_frame spent_insert)
  next
    case (ConfirmDisputeBond i observed now)
    have "deposits_keyed (snd (confirm_dispute_bond i observed now b))" using keyed id
      by (auto simp: confirm_dispute_bond_def with_check_snd Let_def
          intro: keyed_insert keyed_same split: option.split escrow_purpose.split task_kind.split outcome.split)
    then show ?thesis using ConfirmDisputeBond confirm_dispute_bond_spent by simp
  next
    case (MarkEscrowRefunded i)
    then show ?thesis using keyed id
      by (auto simp: mark_escrow_refunded_def intro: keyed_insert spent_insert split: option.split)
  next
    case (ReserveEscrow fresh now derive depositor required purpose expires)
    then show ?thesis using keyed al
      by (auto simp: reserve_escrow_def get_pending_deposit_def Let_def intro: keyed_insert spent_insert)
  qed (use keyed in \<open>auto simp: restore_task_def create_task_def create_consensus_task_def create_disputable_task_def Let_def
      intro: keyed_same spent_frame\<close>)
  then show "deposits_keyed (run_board c b)" "spent_deposit b e \<Longrightarrow> spent_deposit (run_board c b) e" by blast+
qed

lemma saved_board:
  assumes inv: "saved_inv h" and al: "board_allowed c (rq_board h)"
  shows "saved_inv (h\<lparr>rq_board := run_board c (rq_board h)\<rparr>)"
proof -
  have bi: "board_inv (rq_board h)" "deposits_keyed (rq_board h)" using inv by (simp_all add: saved_inv_def)
  have "board_inv (run_board c (rq_board h))" "board_evolves (rq_board h) (run_board c (rq_board h))"
    using board.inv_run board.rel_run bi(1) al by blast+
  moreover have "row_ok (h\<lparr>rq_board := run_board c (rq_board h)\<rparr>) i t" if "row_ok h i t" for i t
    using that calculation(2) unfolding row_ok_def board_evolves_def task_evolves_def by (simp add: spent_row_def) metis
  ultimately show ?thesis using inv saved_board_deposits [OF bi(2) al] by (simp add: saved_inv_def)
qed

lemma saved_task_row:
  assumes inv: "saved_inv h" and t: "get_task (rq_board h) i = Some t" and e: "\<And>e. tk_escrow_id t = Some e \<Longrightarrow> spent_row h e"
  shows "saved_inv (save_task_row t h)"
proof -
  have ok: "task_ok i t" "tk_id t = i" using inv t by (auto simp: saved_inv_def board_inv_def tasks_ok_def get_task_def task_ok_def)
  have row: "row_ok (save_task_row t h) j u = row_ok h j u" for j u by (simp add: row_ok_def save_task_row_def spent_row_def)
  have "row_ok h i t" using ok t e by (auto simp: row_ok_def get_task_def)
  then show ?thesis using inv ok by (auto simp: saved_inv_def row) (auto simp: save_task_row_def save_task_def split: if_splits)
qed

lemma saved_deposit_row:
  assumes inv: "saved_inv h" and d: "get_pending_deposit (rq_board h) e = Some d"
  shows "saved_inv (save_pending_deposit d h)" "pd_status d \<noteq> Reserved \<Longrightarrow> spent_row (save_pending_deposit d h) e"
    "spent_row h x \<Longrightarrow> spent_row (save_pending_deposit d h) x"
proof -
  have id: "pd_id d = e" and sp: "pd_status d \<noteq> Reserved \<longleftrightarrow> spent_deposit (rq_board h) e"
    using inv d by (auto simp: saved_inv_def deposits_keyed_def get_pending_deposit_def spent_deposit_def)
  show keep: "spent_row (save_pending_deposit d h) x" if "spent_row h x" for x
    using that inv id sp by (auto simp: saved_inv_def spent_row_def save_pending_deposit_def split: option.splits)
  then have "row_ok (save_pending_deposit d h) i t" if "row_ok h i t" for i t
    using that by (auto simp: row_ok_def save_pending_deposit_def)
  then show "saved_inv (save_pending_deposit d h)"
    using inv id sp by (auto simp: saved_inv_def save_pending_deposit_def)
  show "spent_row (save_pending_deposit d h) e" if "pd_status d \<noteq> Reserved"
    using that id by (simp add: spent_row_def save_pending_deposit_def)
qed

lemma saved_restart:
  assumes inv: "saved_inv h"
  shows "saved_inv (restart_requests h)"
proof -
  note i = inv [unfolded saved_inv_def]
  have rows: "row_ok h i t" if "bm_get (ps_tasks (rq_store h)) i = Some t" for i t using i that by blast
  then have "task_rows (ps_tasks (rq_store h))" using i by (auto simp: task_rows_def row_ok_def task_ok_def)
  with restart_rows [of h] i have r: "bd_tasks (rq_board (restart_requests h)) = ps_tasks (rq_store h)"
    "bd_pending_deposits (rq_board (restart_requests h)) = rq_deposits h"
    "rq_store (restart_requests h) = rq_store h" "rq_deposits (restart_requests h) = rq_deposits h" by blast+
  have spent: "spent_deposit (rq_board (restart_requests h)) e \<longleftrightarrow> spent_row h e" "spent_row (restart_requests h) e \<longleftrightarrow> spent_row h e" for e
    by (simp_all add: spent_deposit_def spent_row_def r)
  have only: "i = j" if "bm_get (ps_tasks (rq_store h)) i = Some t" "bm_get (ps_tasks (rq_store h)) j = Some u"
    "tk_escrow_id t = Some e" "tk_escrow_id u = Some e" for i j t u e
    using rows [OF that(1)] rows [OF that(2)] that(3,4) i unfolding row_ok_def board_inv_def escrow_ok_def by metis
  have "board_inv (rq_board (restart_requests h))"
    unfolding board_inv_def tasks_ok_def escrow_ok_def r spent using i rows only unfolding row_ok_def by blast
  moreover have "row_ok (restart_requests h) i t" if "bm_get (ps_tasks (rq_store h)) i = Some t" for i t
    using rows [OF that] that by (simp add: row_ok_def r spent)
  moreover have "deposits_keyed (rq_board (restart_requests h))" using i by (simp add: deposits_keyed_def r)
  ultimately show ?thesis using i by (auto simp: saved_inv_def r spent) (simp add: spent_row_def)
qed

lemma saved_start: "saved_inv requests_start"
  using board_inv_new by (simp add: saved_inv_def requests_start_def deposits_keyed_def task_board_new_def)

lemma saved_run:
  assumes inv: "saved_inv h" and al: "saved_allowed c h"
  shows "saved_inv (run_saved c h)"
proof (cases c)
  case (SaveTask i)
  then show ?thesis using inv al by (auto simp: deposit_follows_def intro: saved_task_row [OF inv] split: option.splits)
next
  case (SaveDeposit e)
  then show ?thesis using inv saved_deposit_row(1) [OF inv] by (auto split: option.split)
next
  case (SaveTaskWithDeposit i e)
  show ?thesis
  proof (cases "get_task (rq_board h) i"; cases "get_pending_deposit (rq_board h) e")
    fix t d assume t: "get_task (rq_board h) i = Some t" and d: "get_pending_deposit (rq_board h) e = Some d"
    let ?h = "save_pending_deposit d h"
    have "spent_row ?h x" if "tk_escrow_id t = Some x" for x
    proof (cases "x = e")
      case True
      have "escrow_ok (rq_board h)" using inv by (simp add: saved_inv_def board_inv_def)
      then have "spent_deposit (rq_board h) e" using t that True unfolding escrow_ok_def get_task_def by blast
      then show ?thesis using saved_deposit_row(2) [OF inv d] d True by (auto simp: spent_deposit_def get_pending_deposit_def)
    next
      case False
      then show ?thesis using al SaveTaskWithDeposit t that saved_deposit_row(3) [OF inv d] by (simp add: deposit_follows_def)
    qed
    moreover have "get_task (rq_board ?h) i = Some t" using t by (simp add: save_pending_deposit_def)
    ultimately have "saved_inv (save_task_row t ?h)" using saved_task_row [OF saved_deposit_row(1) [OF inv d]] by blast
    moreover have "save_task_row t ?h = save_task_and_deposit t d h"
      by (simp add: save_task_row_def save_pending_deposit_def save_task_and_deposit_def)
    ultimately show ?thesis using SaveTaskWithDeposit t d by simp
  qed (use inv SaveTaskWithDeposit in simp_all)
qed (use inv al saved_board saved_restart in simp_all)

interpretation saved: call_machine requests_start saved_allowed run_saved saved_inv "\<lambda>_ _. True"
  by unfold_locales (simp_all add: saved_start saved_run)

text \<open>
  C16: One deposit funds one task, over restarts.  Whatever the board does, whichever writes are
  made or lost and however often the hub starts again from its rows, as long as no task is
  written before the deposit that funds it: two tasks of the board never name the same escrow,
  two rows never do, and the escrow of a task can no longer be confirmed.
\<close>

theorem escrow_funds_one_task:
  assumes "saved_reachable h" "get_task (rq_board h) i = Some t" "tk_escrow_id t = Some e"
  shows "(\<exists>err. confirm_escrow fresh clock e observed now (rq_board h) = (Err err, rq_board h))
    \<and> {j. map_option tk_escrow_id (get_task (rq_board h) j) = Some (Some e)} = {i}
    \<and> {j. map_option tk_escrow_id (bm_get (ps_tasks (rq_store h)) j) = Some (Some e)} \<subseteq> {i}"
proof -
  have inv: "saved_inv h" using saved.reached_inv assms(1) by (simp add: saved_reachable_def)
  then have bi: "board_inv (rq_board h)" by (simp add: saved_inv_def)
  note one = named_escrow_spent [OF bi assms(2,3), of fresh clock observed now]
  have "j = i" if "bm_get (ps_tasks (rq_store h)) j = Some u" "tk_escrow_id u = Some e" for j u
  proof -
    have "row_ok h j u \<and> tk_escrow_id u = Some e" using inv that by (simp add: saved_inv_def)
    then obtain v where "get_task (rq_board h) j = Some v" "tk_escrow_id v = Some e"
      by (auto simp: row_ok_def get_task_def)
    then have "j \<in> {j. map_option tk_escrow_id (get_task (rq_board h) j) = Some (Some e)}" by simp
    then show ?thesis using one by blast
  qed
  then show ?thesis using one by auto
qed

end
