(* ===== verification/Hub_Request_Witnesses.thy ===== *)
theory Hub_Request_Witnesses
  imports Hub_Request_Rows Hub_Saved Hub_Escrow_Witnesses Hub_Payout_Witnesses
begin

text \<open>
  Ann pays for a task through an escrow: the ordinary way, with a restart once the rows are
  written, and with a store that refuses one write.
\<close>

definition request_settings :: hub_settings where
  "request_settings = \<lparr>hs_keys = sample_keys, hs_custody_private = operator_key, hs_custody_public = operator,
     hs_deposit_key = (\<lambda>_. cid), hs_consensus_max_exposure = 1000\<rparr>"

definition from_agent :: "public_key \<Rightarrow> uuid \<Rightarrow> bool \<Rightarrow> request_io" where
  "from_agent k fresh saved = \<lparr>ri_signer = Ok k, ri_fresh = fresh, ri_clock = (\<lambda>_. 1), ri_balance = (\<lambda>address. if address = cid then Some held else None), ri_saved = saved\<rparr>"

lemma from_agent_sel [simp]:
  "ri_signer (from_agent k i ok) = Ok k" "ri_fresh (from_agent k i ok) = i" "ri_clock (from_agent k i ok) n = 1"
  "ri_balance (from_agent k i ok) cid = Some held" "ri_saved (from_agent k i ok) = ok"
  by (simp_all add: from_agent_def)

definition dig :: task_payload where
  "dig = \<lparr>tp_description = ''dig'', tp_bounty = 50, tp_expected_output_hash = Some 6, tp_min_reputation = 0, tp_capabilities = {}\<rparr>"

definition reserved :: request_hub where
  "reserved = run_request sample request_settings (EscrowTask (from_agent ann 7 True) dig) requests_start"

definition dig_deposit :: pending_deposit where
  "dig_deposit = \<lparr>pd_id = 7, pd_depositor = ann, pd_deposit_pubkey = cid, pd_deposit_private_key = None, pd_required_amount = 1050,
     pd_purpose = FundHashMatchTask lent_intent, pd_status = Reserved, pd_created_at = 1, pd_expires_at = 1 + minutes 60\<rparr>"

lemma reserved_state: "reserved = requests_start\<lparr>rq_board := task_board_new\<lparr>bd_pending_deposits := [(7, dig_deposit)]\<rparr>, rq_deposits := [(7, dig_deposit)]\<rparr>"
  by (simp add: reserved_def requests_start_def handle_create_task_escrow_def from_agent_def dig_def validate_text_field_def parsed_def
      MAX_TEXT_FIELD_LENGTH_def escrow_amount_for_def checked_add_def HUB_TRANSACTION_FEE_def validate_capabilities_def MAX_CAPABILITY_TAGS_def
      reserve_and_save_def reserve_escrow_def set_deposit_def saving_def save_pending_deposit_def Let_def task_board_new_def dig_deposit_def
      lent_intent_def request_settings_def ESCROW_RESERVATION_TTL_MINUTES_def)

lemma reserved_reachable: "requests_reachable sample request_settings reserved"
  unfolding requests_reachable_def reserved_def by (intro reaches_call reaches_refl) simp

definition dig_task :: "uuid \<Rightarrow> task" where
  "dig_task i = (new_task i ann ''dig'' 50 (HashMatch 6) 1)\<lparr>tk_escrow_id := Some 7\<rparr>"

lemma dig_intended: "intended i 1 dig_deposit lent_intent = dig_task i"
  by (simp add: intended_def dig_task_def dig_deposit_def lent_intent_def new_task_def)

lemma dig_paid: "pays_in (from_agent ann i ok) dig_deposit"
  by (simp add: pays_in_def observed_balance_def dig_deposit_def held_balance minutes_def seconds_def nanos_per_sec_def)

lemma dig_reserved: "bm_get (bd_pending_deposits (rq_board reserved)) 7 = Some dig_deposit" "bm_get (rq_deposits reserved) 7 = Some dig_deposit"
  "pd_purpose dig_deposit = FundHashMatchTask lent_intent" "pd_id dig_deposit = 7" "pd_status dig_deposit = Reserved"
  by (simp_all add: reserved_state dig_deposit_def bm_get_def)

theorem escrow_task_backed_witness:
  "handle_confirm_task_escrow (from_agent ann 3 True) 7 7 reserved = (Ok (dig_task 3), run_request sample request_settings (ConfirmTaskEscrow (from_agent ann 3 True) 7 7) reserved)
   \<and> unat (tk_bounty (dig_task 3)) + unat HUB_TRANSACTION_FEE \<le> 5000 \<and> tk_poster (dig_task 3) = ann"
proof -
  have "fst (handle_confirm_task_escrow (from_agent ann 3 True) 7 7 reserved) = Ok (dig_task 3)"
    by (rule confirm_request [OF dig_reserved(1,3-5) dig_paid [of 3 True]]) (simp only: from_agent_sel dig_intended if_True fst_conv)
  then have run: "handle_confirm_task_escrow (from_agent ann 3 True) 7 7 reserved
      = (Ok (dig_task 3), run_request sample request_settings (ConfirmTaskEscrow (from_agent ann 3 True) 7 7) reserved)"
    unfolding run_request.simps by (metis prod.collapse)
  note backed = escrow_task_backed [OF reserved_reachable run]
  obtain d utxos balance where "get_pending_deposit (rq_board reserved) 7 = Some d" "ri_balance (from_agent ann 3 True) (pd_deposit_pubkey d) = Some utxos"
    "node_balance utxos = Ok balance" and enough: "unat (tk_bounty (dig_task 3)) + unat HUB_TRANSACTION_FEE \<le> unat balance"
    using backed by blast
  moreover have "get_pending_deposit (rq_board reserved) 7 = Some dig_deposit" "pd_deposit_pubkey dig_deposit = cid"
    using dig_reserved(1) by (simp_all add: get_pending_deposit_def dig_deposit_def)
  ultimately have "balance = 5000" using held_balance by simp
  moreover have "tk_poster (dig_task 3) = ann" using backed by simp
  ultimately show ?thesis using enough by (intro conjI, intro run) simp_all
qed

subsection \<open>Rows that are written\<close>

definition paid_for :: request_hub where
  "paid_for = run_request sample request_settings (ConfirmTaskEscrow (from_agent ann 3 True) 7 7) reserved"

lemma paid_for_reachable: "rows_reachable sample request_settings paid_for"
proof -
  let ?run = "run_rows sample request_settings" and ?a = "Req (EscrowTask (from_agent ann 7 True) dig)"
    and ?b = "Req (ConfirmTaskEscrow (from_agent ann 3 True) 7 7)"
  have "reaches rows_allowed ?run requests_start (?run ?a requests_start)" by (intro reaches_call reaches_refl) simp
  moreover have "?run ?a requests_start = reserved" by (simp add: reserved_def)
  moreover have "get_task (rq_board reserved) 3 = None" by (simp add: reserved_state task_board_new_def get_task_def)
  then have "rows_allowed ?b reserved" by simp
  ultimately have "reaches rows_allowed ?run requests_start (?run ?b reserved)" by (metis reaches_call)
  then show ?thesis by (simp only: rows_reachable_def paid_for_def run_rows.simps)
qed

theorem no_orphaned_deposit_at_start_witness:
  "check_orphaned_consumed_deposits (rq_board (restart_requests paid_for)) = [] \<and> map_option pd_status (bm_get (rq_deposits paid_for) 7) = Some Consumed"
proof -
  have "map_option pd_status (bm_get (rq_deposits paid_for) 7) = Some Consumed"
    by (rule confirm_request [OF dig_reserved(1,3-5) dig_paid [of 3 True]])
      (simp add: paid_for_def save_task_and_deposit_def save_pending_deposit_def dig_deposit_def)
  then show ?thesis using no_orphaned_deposit_at_start [OF paid_for_reachable] by blast
qed

definition written :: "saved_call list" where
  "written = [OnBoard (ReserveEscrow 7 1 (\<lambda>_. cid) ann 60 (FundHashMatchTask lent_intent) 500), SaveDeposit 7,
     OnBoard (ConfirmEscrow 3 9 7 60 9), SaveTaskWithDeposit 3 7, OnBoard (ClaimTask 3 bob 1000), BoardRestart]"

definition after_restart :: request_hub where
  "after_restart = fold run_saved written requests_start"

lemmas written_eval = board_eval restart_requests_def restore_task_def restore_pending_deposit_def save_task_row_def
  save_pending_deposit_def save_task_and_deposit_def save_task_def requests_start_def bm_values_def lent_intent_def
  deposit_follows_def spent_row_def

lemma after_restart_reachable: "saved_reachable after_restart"
  unfolding after_restart_def saved_reachable_def by (rule reaches_fold) (simp add: written_def written_eval)

lemma after_restart_task: "get_task (rq_board after_restart) 3 = Some (funded_task)"
  by (simp add: after_restart_def written_def written_eval funded_task_def)

theorem escrow_funds_one_task_witness:
  "(\<exists>err. confirm_escrow 4 10 7 60 10 (rq_board after_restart) = (Err err, rq_board after_restart))
   \<and> {j. map_option tk_escrow_id (get_task (rq_board after_restart) j) = Some (Some 7)} = {3}"
  using escrow_funds_one_task [OF after_restart_reachable after_restart_task] by (simp add: funded_task_def)

subsection \<open>A write that fails\<close>

definition refused_write :: "request list" where
  "refused_write = [ConfirmTaskEscrow (from_agent ann 3 False) 7 7, Claim (from_agent bob 0 True) 3 3,
      HubRestart, ConfirmTaskEscrow (from_agent ann 4 True) 7 7]"

theorem failed_save_funds_two_tasks_witness:
  "\<exists>t u. get_task (rq_board (fold (run_request sample request_settings) refused_write reserved)) 3 = Some t
    \<and> get_task (rq_board (fold (run_request sample request_settings) refused_write reserved)) 4 = Some u
    \<and> tk_escrow_id t = Some 7 \<and> tk_escrow_id u = Some 7 \<and> tk_claimant t = Some bob \<and> tk_bounty t = 50 \<and> tk_bounty u = 50
    \<and> unat (pd_required_amount dig_deposit) = 1050"
proof -
  have d: "get_pending_deposit (rq_board reserved) 7 = Some dig_deposit" using dig_reserved(1) by (simp add: get_pending_deposit_def)
  have k: "bob \<noteq> pd_depositor dig_deposit" "ti_min_reputation lent_intent \<le> rp_completed (reputation_of (rq_board reserved) bob)"
    by (simp_all add: dig_deposit_def ann_def bob_def lent_intent_def)
  have "fold (run_request sample request_settings) refused_write reserved
      = fold (run_request sample request_settings) [ConfirmTaskEscrow (from_agent ann 3 False) 7 7,
          Claim (from_agent bob 0 True) (ri_fresh (from_agent ann 3 False)) (ri_fresh (from_agent ann 3 False)),
          HubRestart, ConfirmTaskEscrow (from_agent ann 4 True) 7 7] reserved"
    by (simp only: refused_write_def from_agent_sel)
  from failed_save_funds_two_tasks [OF reserved_reachable d dig_reserved(2,5,3) dig_paid _ _ k _ dig_paid _ _ this]
  show ?thesis by (auto simp: lent_intent_def HUB_TRANSACTION_FEE_def)
qed

end
